(* ===== verification/Prelude.thy ===== *)
theory Prelude
  imports Main "HOL-Library.Word" "HOL-Library.List_Lexorder"
begin

text \<open>
  Shared vocabulary of the development: byte strings and machine words, Go's fallible
  results, \<open>bytes.Compare\<close> and \<open>encoding/binary.BigEndian\<close> of the Go standard library,
  and the generic lemmas on lexicographic order, sorted association lists and results that
  the component theories use.
\<close>

unbundle bit_operations_syntax

section \<open>Types\<close>

type_synonym byte = "8 word"
type_synonym bytes = "byte list"
type_synonym u64 = "64 word"

text \<open>
  A Go byte slice where the program tells \<open>nil\<close> from an empty slice: \<open>None\<close> is \<open>nil\<close>.
\<close>

type_synonym goslice = "bytes option"

named_theorems go_res \<open>elimination of successful results\<close>

section \<open>Fallible results\<close>

text \<open>
  A fallible operation returns \<open>Inl\<close> of a fault or \<open>Inr\<close> of a result.
  \<open>bindR\<close> is the sequencing of statements: the first fault ends the function.
\<close>

definition bindR :: "'e + 'a \<Rightarrow> ('a \<Rightarrow> 'e + 'b) \<Rightarrow> 'e + 'b" where
  "bindR x f = (case x of Inl e \<Rightarrow> Inl e | Inr a \<Rightarrow> f a)"

lemma bindR_simps [simp]:
  "bindR (Inl e) f = Inl e"
  "bindR (Inr a) f = f a"
  by (simp_all add: bindR_def)

lemma bindR_cong [fundef_cong]:
  "x = y \<Longrightarrow> (\<And>a. y = Inr a \<Longrightarrow> f a = g a) \<Longrightarrow> bindR x f = bindR y g"
  by (simp add: bindR_def split: sum.splits)

lemma bindR_Inr_iff [go_res]:
  "bindR x f = Inr b \<longleftrightarrow> (\<exists>a. x = Inr a \<and> f a = Inr b)"
  by (simp add: bindR_def split: sum.splits)

lemma bindR_Inl_iff:
  "bindR x f = Inl e \<longleftrightarrow> x = Inl e \<or> (\<exists>a. x = Inr a \<and> f a = Inl e)"
  by (auto simp add: bindR_def split: sum.splits)

lemma bindR_assoc: "bindR (bindR x f) g = bindR x (\<lambda>a. bindR (f a) g)"
  by (simp add: bindR_def split: sum.splits)

text \<open>\<open>guardR\<close> is the early return of a fault when a check fails.\<close>

definition guardR :: "bool \<Rightarrow> 'e \<Rightarrow> 'e + unit" where
  "guardR b e = (if b then Inr () else Inl e)"

lemma guardR_simps [simp]:
  "guardR True e = Inr ()"
  "guardR False e = Inl e"
  by (simp_all add: guardR_def)

lemma guardR_Inr_iff [go_res]: "guardR b e = Inr u \<longleftrightarrow> b"
  by (simp add: guardR_def)

section \<open>Lexicographic order of byte strings\<close>

text \<open>\<open>bytes.Compare\<close>: -1, 0 or 1; a proper prefix is smaller.\<close>

fun bytes_Compare :: "bytes \<Rightarrow> bytes \<Rightarrow> int" where
  "bytes_Compare [] [] = 0"
| "bytes_Compare [] (b # bs) = -1"
| "bytes_Compare (a # as) [] = 1"
| "bytes_Compare (a # as) (b # bs) =
     (if a < b then -1 else if b < a then 1 else bytes_Compare as bs)"

lemma bytes_Compare_cases:
  "bytes_Compare a b = (if a < b then -1 else if a = b then 0 else 1)"
  by (induction a b rule: bytes_Compare.induct) auto

lemma bytes_Compare_simps [simp]:
  "bytes_Compare a b < 0 \<longleftrightarrow> a < b"
  "bytes_Compare a b \<le> 0 \<longleftrightarrow> a \<le> b"
  "bytes_Compare a b \<ge> 0 \<longleftrightarrow> b \<le> a"
  "bytes_Compare a b > 0 \<longleftrightarrow> b < a"
  "bytes_Compare a b = 0 \<longleftrightarrow> a = b"
  by (auto simp: bytes_Compare_cases)

lemma lex_append_less:
  fixes xs ys us vs :: "'a::linorder list"
  assumes "length xs = length ys"
  shows "xs @ us < ys @ vs \<longleftrightarrow> xs < ys \<or> (xs = ys \<and> us < vs)"
  using assms by (induction xs ys rule: list_induct2) auto

lemma lex_less_shorter:
  fixes xs ys us :: "'a::linorder list"
  assumes "length ys < length xs"
  shows "xs @ us < ys \<longleftrightarrow> xs < ys" and "ys < xs @ us \<longleftrightarrow> ys < xs"
  using assms
proof (induction xs arbitrary: ys)
  case (Cons x xs)
  { case 1 with Cons.IH show ?case by (cases ys) auto }
  { case 2 with Cons.IH show ?case by (cases ys) auto }
qed auto

section \<open>Big-endian integers\<close>

text \<open>
  \<open>binary.BigEndian.PutUint64\<close> and \<open>Uint64\<close>. The value of a byte string is read by
  Horner's rule; \<open>be_uint64\<close> reads the first eight bytes and is used only where at least
  eight are present (Go panics otherwise, which the callers model).
\<close>

fun be_nat :: "nat \<Rightarrow> nat \<Rightarrow> bytes" where
  "be_nat 0 x = []"
| "be_nat (Suc n) x = be_nat n (x div 256) @ [word_of_nat (x mod 256)]"

definition horner :: "bytes \<Rightarrow> nat" where
  "horner bs = foldl (\<lambda>a b. 256 * a + unat b) 0 bs"

definition be_put64 :: "u64 \<Rightarrow> bytes" where
  "be_put64 w = be_nat 8 (unat w)"

definition be_uint64 :: "bytes \<Rightarrow> u64" where
  "be_uint64 bs = word_of_nat (horner (take 8 bs))"

lemma length_be_nat [simp]: "length (be_nat n x) = n"
  by (induction n arbitrary: x) auto

lemma length_be_put64 [simp]: "length (be_put64 w) = 8"
  by (simp add: be_put64_def)

lemma horner_Nil [simp]: "horner [] = 0"
  by (simp add: horner_def)

lemma horner_snoc [simp]: "horner (bs @ [b]) = 256 * horner bs + unat b"
  by (simp add: horner_def)

lemma horner_bound: "horner bs < 256 ^ length bs"
proof (induction bs rule: rev_induct)
  case (snoc b bs)
  have "unat b < 256" using unsigned_less [of b, where ?'a = nat] by simp
  with snoc show ?case by simp
qed simp

lemma horner_be_nat: "x < 256 ^ n \<Longrightarrow> horner (be_nat n x) = x"
proof (induction n arbitrary: x)
  case (Suc n)
  then have "x div 256 < 256 ^ n" by (simp add: less_mult_imp_div_less mult.commute)
  with Suc.IH have "horner (be_nat n (x div 256)) = x div 256" by blast
  moreover have "unat (word_of_nat (x mod 256) :: byte) = x mod 256"
    by (simp add: unat_of_nat take_bit_eq_mod)
  ultimately show ?case by simp
qed simp

lemma be_nat_horner: "be_nat (length bs) (horner bs) = bs"
proof (induction bs rule: rev_induct)
  case (snoc b bs)
  have b: "unat b < 256" using unsigned_less [of b, where ?'a = nat] by simp
  then have "(256 * horner bs + unat b) div 256 = horner bs"
    and "(256 * horner bs + unat b) mod 256 = unat b" by auto
  with snoc show ?case by simp
qed simp

lemma be_uint64_put [simp]: "be_uint64 (be_put64 w @ bs) = w"
proof -
  have "unat w < 256 ^ 8" using unsigned_less [of w, where ?'a = nat] by simp
  then have "horner (be_nat 8 (unat w)) = unat w" by (rule horner_be_nat)
  then show ?thesis by (simp add: be_uint64_def be_put64_def)
qed

lemma be_uint64_put' [simp]: "be_uint64 (be_put64 w) = w"
  using be_uint64_put [of w "[]"] by simp

lemma be_put_uint64: "length bs = 8 \<Longrightarrow> be_put64 (be_uint64 bs) = bs"
proof -
  assume len: "length bs = 8"
  have "horner bs < 2 ^ 64" using horner_bound [of bs] len by simp
  then have "unat (word_of_nat (horner bs) :: u64) = horner bs"
    by (simp add: unat_of_nat take_bit_eq_mod)
  with len be_nat_horner [of bs] show ?thesis
    by (simp add: be_put64_def be_uint64_def)
qed

lemma be_put64_inj [simp]: "be_put64 a = be_put64 b \<longleftrightarrow> a = b"
  by (metis be_uint64_put')

lemma horner_less:
  assumes "length as = length bs"
  shows "as < bs \<longleftrightarrow> horner as < horner bs"
proof -
  have eq: "horner as = horner bs \<longleftrightarrow> as = bs" if "length as = length bs" for as bs
    using that be_nat_horner by metis
  have "as < bs \<Longrightarrow> horner as < horner bs" if "length as = length bs" for as bs
    using that
  proof (induction as arbitrary: bs rule: rev_induct)
    case (snoc a as)
    then obtain b bs' where bs: "bs = bs' @ [b]" and len: "length as = length bs'"
      by (metis append_butlast_last_id length_append_singleton length_butlast
          diff_Suc_1 list.size(3) nat.distinct(1))
    have ab: "unat a < 256" "unat b < 256" 
      using unsigned_less [of a, where ?'a = nat] unsigned_less [of b, where ?'a = nat] by auto
    from snoc.prems bs len consider "as < bs'" | "as = bs'" "a < b"
      by (auto simp: lex_append_less)
    then show ?case
    proof cases
      case 1
      with snoc.IH len have "horner as < horner bs'" by blast
      with ab show ?thesis unfolding bs by simp
    next
      case 2
      then show ?thesis unfolding bs by (simp add: word_less_nat_alt)
    qed
  qed simp
  with assms eq show ?thesis by (metis linorder_neqE not_less_iff_gr_or_eq)
qed

lemma be_put64_less [simp]: "be_put64 a < be_put64 b \<longleftrightarrow> a < b"
proof -
  have "horner (be_put64 w) = unat w" for w
    using unsigned_less [of w, where ?'a = nat] by (simp add: be_put64_def horner_be_nat)
  then show ?thesis by (simp add: horner_less word_less_nat_alt)
qed

section \<open>Words\<close>

text \<open>Go's \<open>^x\<close> (bitwise complement) reverses the unsigned order.\<close>

lemma not_less_not_iff [simp]: "(NOT a :: 'a::len word) < NOT b \<longleftrightarrow> b < a"
proof -
  have n: "uint (NOT x) = mask LENGTH('a) - uint x" for x :: "'a word"
    by (simp add: unsigned_not_eq take_bit_not_eq_mask_diff take_bit_int_eq_self)
  show ?thesis by (simp add: word_less_def n)
qed

end
