(* ===== verification/Codec.thy ===== *)
theory Codec
  imports Prelude
begin

text \<open>
  The memcomparable encoding of user keys, \<open>kv/util/codec/codec.go\<close>: \<open>EncodeBytes\<close> cuts a
  byte string into groups of eight, pads the last one and appends a marker to each group;
  \<open>DecodeBytes\<close> reads one encoded string and returns the leftover bytes. Both loops are
  translated as they are written. The lemmas show that decoding inverts encoding, that the
  decoder accepts nothing but encodings, and that the encoding keeps the byte order of keys
  whatever follows them. The contract \<open>memcomparable\<close> is what the versioned keys rely on.
\<close>

definition encGroupSize :: nat where "encGroupSize = 8"
definition encMarker :: byte where "encMarker = 0xFF"
definition encPad :: byte where "encPad = 0x0"
definition pads :: bytes where "pads = replicate encGroupSize 0"

datatype codec_error = InsufficientBytes nat | InvalidMarker bytes | InvalidPadding bytes

function EncodeBytes_loop :: "bytes \<Rightarrow> nat \<Rightarrow> bytes \<Rightarrow> bytes" where
  "EncodeBytes_loop data idx result =
     (if idx \<le> length data then
        let remain = length data - idx;
            padCount = (if remain \<ge> encGroupSize then 0 else encGroupSize - remain);
            result1 = (if remain \<ge> encGroupSize
                       then result @ take encGroupSize (drop idx data)
                       else result @ drop idx data @ take padCount pads);
            marker = encMarker - word_of_nat padCount
        in EncodeBytes_loop data (idx + encGroupSize) (result1 @ [marker])
      else result)"
  by pat_completeness auto
termination
  by (relation "measure (\<lambda>(data, idx, result). Suc (length data) - idx)")
     (auto simp: encGroupSize_def)

definition EncodeBytes :: "bytes \<Rightarrow> bytes" where
  "EncodeBytes data = EncodeBytes_loop data 0 []"

function DecodeBytes_loop :: "bytes \<Rightarrow> bytes \<Rightarrow> codec_error + (bytes \<times> bytes)" where
  "DecodeBytes_loop b data =
     (if length b < encGroupSize + 1 then Inl (InsufficientBytes (length b))
      else
        let groupBytes = take (encGroupSize + 1) b;
            group = take encGroupSize groupBytes;
            marker = groupBytes ! encGroupSize;
            padCount = encMarker - marker
        in if padCount > word_of_nat encGroupSize then Inl (InvalidMarker groupBytes)
           else
             let realGroupSize = unat (word_of_nat encGroupSize - padCount);
                 data1 = data @ take realGroupSize group;
                 b1 = drop (encGroupSize + 1) b
             in if padCount \<noteq> 0 then
                  if \<exists>v \<in> set (drop realGroupSize group). v \<noteq> encPad
                  then Inl (InvalidPadding groupBytes)
                  else Inr (b1, data1)
                else DecodeBytes_loop b1 data1)"
  by pat_completeness auto
termination
  by (relation "measure (\<lambda>(b, data). length b)") (auto simp: encGroupSize_def)

definition DecodeBytes :: "bytes \<Rightarrow> codec_error + (bytes \<times> bytes)" where
  "DecodeBytes b = DecodeBytes_loop b []"

declare EncodeBytes_loop.simps [simp del] DecodeBytes_loop.simps [simp del]

lemmas codec_consts = encGroupSize_def encMarker_def encPad_def pads_def

section \<open>A structural reading of the two loops\<close>

text \<open>One full group, and the padded last group with its marker.\<close>

definition pad_group :: "bytes \<Rightarrow> bytes" where
  "pad_group d = d @ replicate (8 - length d) 0"

fun enc :: "bytes \<Rightarrow> bytes" where
  "enc d = (if 8 \<le> length d then take 8 d @ 255 # enc (drop 8 d)
            else pad_group d @ [247 + word_of_nat (length d)])"

declare enc.simps [simp del]

lemma length_pad_group [simp]: "length d \<le> 8 \<Longrightarrow> length (pad_group d) = 8"
  by (simp add: pad_group_def)

lemma enc_full: "8 \<le> length d \<Longrightarrow> enc d = take 8 d @ 255 # enc (drop 8 d)"
  by (simp add: enc.simps)

lemma enc_last: "length d < 8 \<Longrightarrow> enc d = pad_group d @ [247 + word_of_nat (length d)]"
  by (simp add: enc.simps)

lemma marker_value: "n < 8 \<Longrightarrow> (255 :: byte) - word_of_nat (8 - n) = 247 + word_of_nat n"
  by (simp add: of_nat_diff)

lemma EncodeBytes_loop_enc:
  "idx \<le> length data \<Longrightarrow> EncodeBytes_loop data idx result = result @ enc (drop idx data)"
proof (induction data idx result rule: EncodeBytes_loop.induct)
  case (1 data idx result)
  note unf = EncodeBytes_loop.simps [of data idx result] Let_def codec_consts
  show ?case
  proof (cases "8 \<le> length data - idx")
    case True
    then have "idx + 8 \<le> length data" using "1.prems" by simp
    with 1 True show ?thesis
      by (simp add: unf enc_full [of "drop idx data"] codec_consts add.commute)
  next
    case False
    then have "length data < idx + 8" by simp
    then have "EncodeBytes_loop data (idx + 8) r = r" for r
      by (simp add: EncodeBytes_loop.simps)
    with False "1.prems" show ?thesis
      using marker_value [of "length data - idx"]
      by (simp add: unf enc_last pad_group_def)
  qed
qed

lemma EncodeBytes_enc: "EncodeBytes d = enc d"
  by (simp add: EncodeBytes_def EncodeBytes_loop_enc)

lemma length_enc: "length (enc d) = (length d div 8 + 1) * 9"
proof (induction d rule: enc.induct)
  case (1 d)
  show ?case
  proof (cases "8 \<le> length d")
    case True
    then have "length d div 8 = Suc ((length d - 8) div 8)" by (simp add: le_div_geq)
    with 1 True show ?thesis by (simp add: enc_full)
  qed (simp add: enc_last)
qed

section \<open>Decoding inverts encoding\<close>

lemma marker_pad:
  assumes "n \<le> 8"
  shows "\<not> (8 :: byte) < 8 - word_of_nat n"
    and "(8 :: byte) = word_of_nat n \<longleftrightarrow> n = 8"
    and "(word_of_nat n :: byte) = 8 \<longleftrightarrow> n = 8"
    and "unat (word_of_nat n :: byte) = n"
proof -
  from assms consider "n = 0" | "n = 1" | "n = 2" | "n = 3" | "n = 4" | "n = 5" | "n = 6"
    | "n = 7" | "n = 8" by linarith
  then show "\<not> (8 :: byte) < 8 - word_of_nat n"
    and "(8 :: byte) = word_of_nat n \<longleftrightarrow> n = 8"
    and "(word_of_nat n :: byte) = 8 \<longleftrightarrow> n = 8"
    and "unat (word_of_nat n :: byte) = n"
    by (cases; simp)+
qed

lemma DecodeBytes_loop_full:
  "length g = 8 \<Longrightarrow> DecodeBytes_loop (g @ 255 # b) data = DecodeBytes_loop b (data @ g)"
  by (simp add: DecodeBytes_loop.simps [of "g @ 255 # b"] Let_def codec_consts nth_append)

lemma DecodeBytes_loop_last:
  assumes "length d < 8"
  shows "DecodeBytes_loop (pad_group d @ (247 + word_of_nat (length d)) # rest) data
         = Inr (rest, data @ d)"
proof -
  have "length d \<le> 8" "length d \<noteq> 8" using assms by auto
  note pad = marker_pad [OF this(1)] this
  show ?thesis
    using assms
    by (subst DecodeBytes_loop.simps, simp add: Let_def codec_consts nth_append del: of_nat_diff,
        simp add: pad) (simp add: pad_group_def)
qed

lemma DecodeBytes_loop_enc:
  "DecodeBytes_loop (enc d @ rest) data = Inr (rest, data @ d)"
proof (induction d arbitrary: data rule: enc.induct)
  case (1 d)
  show ?case
  proof (cases "8 \<le> length d")
    case True
    with 1 have "DecodeBytes_loop (enc (drop 8 d) @ rest) (data @ take 8 d) = Inr (rest, data @ d)"
      by simp
    moreover have "enc d @ rest = take 8 d @ 255 # (enc (drop 8 d) @ rest)"
      using True by (simp add: enc_full)
    moreover have len: "length (take 8 d) = 8" using True by simp
    ultimately show ?thesis by (simp only: DecodeBytes_loop_full [OF len])
  next
    case False
    then have "length d < 8" by simp
    then show ?thesis by (simp add: enc_last DecodeBytes_loop_last)
  qed
qed

text \<open>The decoder accepts nothing but encodings.\<close>

lemma byte_pad_cases:
  fixes m :: byte
  assumes "\<not> (8 :: byte) < 255 - m"
  obtains n where "n \<le> 8" and "m = 247 + word_of_nat n" and "(m = 255) = (n = 8)"
    and "unat (8 - (255 - m)) = n"
proof -
  define n where "n = unat (8 - (255 - m))"
  from assms have "unat (255 - m) \<le> 8" by (simp add: word_less_nat_alt not_less)
  then have n: "n \<le> 8" unfolding n_def
    by (subst unat_sub) (simp_all add: word_le_nat_alt)
  have m: "m = 247 + word_of_nat n" by (simp add: n_def)
  have "247 + word_of_nat n = (255 :: byte) \<longleftrightarrow> word_of_nat n = (8 :: byte)"
    using add_left_cancel [of 247 "word_of_nat n" "8 :: byte"] by simp
  then have "m = 255 \<longleftrightarrow> n = 8" by (simp only: m marker_pad(3) [OF n])
  from that [OF n m this] show ?thesis by (simp only: n_def)
qed

lemma DecodeBytes_loop_sound:
  "DecodeBytes_loop b data = Inr (rest, out) \<Longrightarrow> \<exists>d. out = data @ d \<and> b = enc d @ rest"
proof (induction b data rule: DecodeBytes_loop.induct)
  case (1 b data)
  note unf = DecodeBytes_loop.simps [of b data] Let_def codec_consts
  define g m where "g = take 8 b" and "m = b ! 8"
  from "1.prems" have len: "9 \<le> length b" and ok: "\<not> (8 :: byte) < 255 - m"
    by (auto simp: unf m_def split: if_splits)
  have b: "b = g @ m # drop 9 b" and lg: "length g = 8"
    using len id_take_nth_drop [of 8 b] by (auto simp: g_def m_def)
  from ok obtain n where n: "n \<le> 8" and m: "m = 247 + word_of_nat n"
    and full: "(m = 255) = (n = 8)" and real: "unat (8 - (255 - m)) = n"
    by (rule byte_pad_cases)
  show ?case
  proof (cases "n = 8")
    case True
    with full have m255: "m = 255" by simp
    with "1.prems" len have rec: "DecodeBytes_loop (drop 9 b) (data @ g) = Inr (rest, out)"
      by (simp add: unf g_def m_def)
    have "\<exists>d. out = (data @ g) @ d \<and> drop 9 b = enc d @ rest"
      using "1.IH" [OF _ refl refl refl refl _ refl refl refl] len ok full True rec real
      by (auto simp: codec_consts g_def m_def)
    then obtain d where "out = data @ (g @ d)" and "drop 9 b = enc d @ rest" by auto
    moreover from this b lg m255 have "b = enc (g @ d) @ rest"
      by (simp add: enc_full)
    ultimately show ?thesis by blast
  next
    case False
    with "1.prems" len ok full real have pad: "\<forall>v \<in> set (drop n g). v = 0"
      and out: "out = data @ take n g" and rest: "rest = drop 9 b"
      by (auto simp: unf g_def m_def split: if_splits)
    have "drop n g = replicate (8 - n) 0"
      using pad lg by (metis replicate_length_same length_drop)
    then have "pad_group (take n g) = g"
      using lg n by (simp add: pad_group_def min_def) (metis append_take_drop_id)
    with b m n False lg rest have "b = enc (take n g) @ rest"
      by (simp add: enc_last)
    with out show ?thesis by blast
  qed
qed

section \<open>The encoding keeps the order of keys\<close>

lemma pad_less:
  fixes a b :: bytes
  assumes "length a \<le> n" "length b \<le> n"
  defines "p \<equiv> \<lambda>d. d @ replicate (n - length d) 0"
  shows "a < b \<longleftrightarrow> p a < p b \<or> (p a = p b \<and> length a < length b)"
  using assms(1,2) unfolding p_def
proof (induction n arbitrary: a b)
  case (Suc n)
  have pos: "0 < x \<or> x = 0" for x :: byte by (metis word_gt_0)
  have r: "replicate (Suc n) (0::byte) = 0 # replicate n 0" by simp
  show ?case
  proof (cases a; cases b)
    assume "a = []" "b = []" then show ?thesis by simp
  next
    fix y ys assume ab: "a = []" "b = y # ys"
    with Suc.IH [of "[]" ys] Suc.prems pos [of y] show ?thesis by (cases ys) auto
  next
    fix x xs assume ab: "a = x # xs" "b = []"
    with Suc.IH [of xs "[]"] Suc.prems pos [of x] show ?thesis
      by (cases xs) (auto simp: word_gt_0)
  next
    fix x xs y ys assume ab: "a = x # xs" "b = y # ys"
    with Suc.IH [of xs ys] Suc.prems show ?thesis by auto
  qed
qed simp

lemma pad_group_less:
  assumes "length a \<le> 8" "length b \<le> 8"
  shows "a < b \<longleftrightarrow> pad_group a < pad_group b \<or> (pad_group a = pad_group b \<and> length a < length b)"
  using pad_less [OF assms] by (simp add: pad_group_def)

lemma marker_less:
  assumes "m < 8" "n < 8"
  shows "(247 + word_of_nat m :: byte) < 247 + word_of_nat n \<longleftrightarrow> m < n"
    and "(247 + word_of_nat m :: byte) = 247 + word_of_nat n \<longleftrightarrow> m = n"
    and "(247 + word_of_nat m :: byte) < 255"
proof -
  have u: "unat (247 + word_of_nat k :: byte) = 247 + k" if "k < 8" for k
    using that by (simp add: unat_word_ariths unat_of_nat take_bit_eq_mod)
  show "(247 + word_of_nat m :: byte) < 247 + word_of_nat n \<longleftrightarrow> m < n"
    and "(247 + word_of_nat m :: byte) = 247 + word_of_nat n \<longleftrightarrow> m = n"
    and "(247 + word_of_nat m :: byte) < 255"
    using assms by (simp_all add: word_less_nat_alt word_unat_eq_iff u)
qed

lemma enc_append_less:
  "enc a @ x < enc b @ y \<longleftrightarrow> a < b \<or> (a = b \<and> x < y)"
proof (induction a arbitrary: b rule: enc.induct)
  case (1 a)
  have split: "d = take 8 d @ drop 8 d" for d :: bytes by simp
  have short: "e < d \<longleftrightarrow> e < take 8 d" "d < e \<longleftrightarrow> take 8 d < e"
    if "length e < 8" "8 \<le> length d" for d e :: bytes
    using lex_less_shorter [of e "take 8 d" "drop 8 d"] that by simp_all
  show ?case
  proof (cases "8 \<le> length a"; cases "8 \<le> length b")
    assume a: "8 \<le> length a" and b: "8 \<le> length b"
    have "a < b \<longleftrightarrow> take 8 a < take 8 b \<or> take 8 a = take 8 b \<and> drop 8 a < drop 8 b"
      using lex_append_less [of "take 8 a" "take 8 b" "drop 8 a" "drop 8 b"] a b by simp
    moreover have "a = b \<longleftrightarrow> take 8 a = take 8 b \<and> drop 8 a = drop 8 b"
      by (metis append_take_drop_id)
    ultimately show ?thesis
      using 1 [OF a, of "drop 8 b"] a b by (auto simp: enc_full lex_append_less)
  next
    assume a: "8 \<le> length a" and b: "\<not> 8 \<le> length b"
    then have "a < b \<longleftrightarrow> take 8 a < pad_group b"
      using short(2) [of b a] pad_group_less [of "take 8 a" b] by (simp add: pad_group_def)
    with a b marker_less(3) [of "length b" 0] show ?thesis
      by (auto simp: enc_full enc_last lex_append_less)
  next
    assume a: "\<not> 8 \<le> length a" and b: "8 \<le> length b"
    then have "a < b \<longleftrightarrow> pad_group a < take 8 b \<or> pad_group a = take 8 b"
      using short(1) [of a b] pad_group_less [of a "take 8 b"] by (auto simp: pad_group_def)
    with a b marker_less(3) [of "length a" 0] show ?thesis
      by (auto simp: enc_full enc_last lex_append_less)
  next
    assume a: "\<not> 8 \<le> length a" and b: "\<not> 8 \<le> length b"
    have "pad_group a = pad_group b \<and> length a = length b \<longleftrightarrow> a = b"
      by (auto simp: pad_group_def)
    with a b pad_group_less [of a b] marker_less [of "length a" "length b"] show ?thesis
      by (auto simp: enc_last lex_append_less)
  qed
qed

section \<open>The contract of a memcomparable codec\<close>

text \<open>
  What the versioned keys of the MVCC layer rely on: decoding one encoded string returns it
  and the leftover bytes, and encoded strings compare like the strings, whatever follows.
\<close>

locale memcomparable =
  fixes encode :: "bytes \<Rightarrow> bytes"
    and decode :: "bytes \<Rightarrow> 'e + (bytes \<times> bytes)"
  assumes decode_encode: "decode (encode d @ rest) = Inr (rest, d)"
    and encode_append_less: "encode a @ x < encode b @ y \<longleftrightarrow> a < b \<or> (a = b \<and> x < y)"
begin

lemma encode_append_eq: "encode a @ x = encode b @ y \<longleftrightarrow> a = b \<and> x = y"
  by (metis decode_encode Pair_inject sum.inject(2))

lemma encode_eq: "encode a = encode b \<longleftrightarrow> a = b"
  using encode_append_eq [of a "[]" b "[]"] by simp

lemma encode_less: "encode a < encode b \<longleftrightarrow> a < b"
  using encode_append_less [of a "[]" b "[]"] by simp

text \<open>A key followed by a complemented timestamp: keys ascending, timestamps descending.\<close>

lemma versioned_less:
  "encode k @ be_put64 (NOT t) < encode k' @ be_put64 (NOT t') \<longleftrightarrow> k < k' \<or> (k = k' \<and> t' < t)"
  by (simp add: encode_append_less)

lemma versioned_eq:
  "encode k @ be_put64 (NOT t) = encode k' @ be_put64 (NOT t') \<longleftrightarrow> k = k' \<and> t = t'"
  by (simp add: encode_append_eq)

end

interpretation kv_codec: memcomparable EncodeBytes DecodeBytes
  by unfold_locales
     (simp_all add: EncodeBytes_enc DecodeBytes_def DecodeBytes_loop_enc enc_append_less)

section \<open>Properties\<close>

text \<open>
  C28. Decoding inverts encoding, whatever bytes follow: \<open>DecodeBytes\<close> applied to an encoded
  key and a suffix returns the suffix and the key.
\<close>

theorem codec_round_trip: "DecodeBytes (EncodeBytes d @ rest) = Inr (rest, d)"
  by (rule kv_codec.decode_encode)

text \<open>
  The decoder accepts nothing but encodings: when \<open>DecodeBytes\<close> succeeds, its input is the
  encoding of the key it returns, followed by the leftover bytes it returns.
\<close>

theorem decode_only_encodings:
  "DecodeBytes b = Inr (rest, d) \<Longrightarrow> b = EncodeBytes d @ rest"
  using DecodeBytes_loop_sound [of b "[]" rest d] by (simp add: DecodeBytes_def EncodeBytes_enc)

theorem decode_only_encodings_witness:
  "[1, 2, 3, 0, 0, 0, 0, 0, 250, 7] = EncodeBytes [1, 2, 3] @ [7]"
  by (rule decode_only_encodings) code_simp

text \<open>
  C29. The encoding keeps the order of keys: \<open>bytes.Compare\<close> gives the same answer on two
  encoded keys as on the keys, even when other bytes follow distinct keys.
\<close>

theorem codec_order:
  "bytes_Compare (EncodeBytes a) (EncodeBytes b) = bytes_Compare a b
   \<and> (a \<noteq> b \<longrightarrow> bytes_Compare (EncodeBytes a @ x) (EncodeBytes b @ y) = bytes_Compare a b)"
  by (auto simp: bytes_Compare_cases kv_codec.encode_less kv_codec.encode_eq
      kv_codec.encode_append_less kv_codec.encode_append_eq)

theorem codec_order_witness:
  "bytes_Compare (EncodeBytes [1] @ [255]) (EncodeBytes [1, 0] @ []) = -1"
  using codec_order [of "[1]" "[1, 0]" "[255]" "[]"] by simp

end
