(* ===== verification/Engine.thy ===== *)
theory Engine
  imports Prelude
begin

text \<open>
  The storage interface of the server, \<open>kv/storage\<close>: the modifications a write batch holds
  (\<open>modify.go\<close>), the reader and iterator interfaces (\<open>storage.go\<close>, the \<open>DBIterator\<close> of
  \<open>engine_util/cf_iterator.go\<close>), and the in-memory engine \<open>MemStorage\<close>
  (\<open>mem_storage.go\<close>) over its three trees. The balanced tree package the engine uses is not
  part of the repository: its operations are the parameter \<open>L\<close>, and its documented behaviour
  is the contract \<open>llrb_spec\<close>. What every client of the interface relies on is the contract
  \<open>snapshot_reader\<close> (reads see one consistent, ordered content) and \<open>storage_spec\<close>
  (a write applies its batch in order); \<open>MemStorage\<close> meets both.
\<close>

section \<open>Faults\<close>

text \<open>
  How a Go function can fail to return normally: an error value, a panic, or no return at
  all. The error values name the place that creates them.
\<close>

datatype gerror =
    ErrParseLock nat
  | ErrParseWrite nat
  | ErrBadCF string
  | ErrCommitTs
  | ErrStorage string

datatype fault = Error gerror | Panic string | Diverges

section \<open>Column families and modifications\<close>

definition CfDefault :: string where "CfDefault = ''default''"
definition CfWrite :: string where "CfWrite = ''write''"
definition CfLock :: string where "CfLock = ''lock''"
definition CFs :: "string list" where "CFs = [CfDefault, CfWrite, CfLock]"

lemma CF_distinct [simp]:
  "CfDefault \<noteq> CfWrite" "CfWrite \<noteq> CfDefault" "CfDefault \<noteq> CfLock" "CfLock \<noteq> CfDefault"
  "CfWrite \<noteq> CfLock" "CfLock \<noteq> CfWrite"
  by (simp_all add: CfDefault_def CfWrite_def CfLock_def)

lemma CF_in_CFs [simp]: "CfDefault \<in> set CFs" "CfWrite \<in> set CFs" "CfLock \<in> set CFs"
  by (simp_all add: CFs_def)

datatype modify =
    Put (put_Key: bytes) (put_Value: goslice) (put_Cf: string)
  | Delete (del_Key: bytes) (del_Cf: string)

fun modify_Key :: "modify \<Rightarrow> bytes" where
  "modify_Key (Put k v cf) = k"
| "modify_Key (Delete k cf) = k"

fun modify_Value :: "modify \<Rightarrow> goslice" where
  "modify_Value (Put k v cf) = v"
| "modify_Value (Delete k cf) = None"

fun modify_Cf :: "modify \<Rightarrow> string" where
  "modify_Cf (Put k v cf) = cf"
| "modify_Cf (Delete k cf) = cf"

section \<open>Readers and iterators\<close>

text \<open>
  A \<open>StorageReader\<close> answers point reads and hands out iterators. A \<open>DBIterator\<close> is a
  position in the ascending sequence of the items of a column family: the model carries the
  items from the position on, so \<open>Valid\<close> is that one is left, \<open>Item\<close> is the first, \<open>Next\<close>
  drops it and \<open>Seek\<close> moves to the first item of the family at or after a key. The value of
  an item is fetched separately and may fail.
\<close>

type_synonym item = "bytes \<times> (gerror + goslice)"
type_synonym iterator = "item list"

record reader =
  rd_GetCF :: "string \<Rightarrow> bytes \<Rightarrow> gerror + goslice"
  rd_IterCF :: "string \<Rightarrow> iterator"

definition it_Seek :: "reader \<Rightarrow> string \<Rightarrow> bytes \<Rightarrow> iterator" where
  "it_Seek rd cf key = dropWhile (\<lambda>i. bytes_Compare (fst i) key < 0) (rd_IterCF rd cf)"

section \<open>The content of a store\<close>

text \<open>
  The specification: each column family is an association list with strictly ascending keys.
\<close>

type_synonym cfdata = "(bytes \<times> goslice) list"
type_synonym kvstate = "string \<Rightarrow> cfdata"

definition cf_sorted :: "cfdata \<Rightarrow> bool" where
  "cf_sorted m = sorted_wrt (<) (map fst m)"

definition cf_get :: "cfdata \<Rightarrow> bytes \<Rightarrow> goslice" where
  "cf_get m k = (case map_of m k of None \<Rightarrow> None | Some v \<Rightarrow> v)"

fun cf_put :: "bytes \<Rightarrow> goslice \<Rightarrow> cfdata \<Rightarrow> cfdata" where
  "cf_put k v [] = [(k, v)]"
| "cf_put k v ((k', v') # m) =
     (if k < k' then (k, v) # (k', v') # m
      else if k = k' then (k, v) # m
      else (k', v') # cf_put k v m)"

definition cf_del :: "bytes \<Rightarrow> cfdata \<Rightarrow> cfdata" where
  "cf_del k m = filter (\<lambda>i. fst i \<noteq> k) m"

definition apply_modify :: "kvstate \<Rightarrow> modify \<Rightarrow> kvstate" where
  "apply_modify kv m =
     (if modify_Cf m \<in> set CFs then
        (case m of
           Put k v cf \<Rightarrow> kv(cf := cf_put k v (kv cf))
         | Delete k cf \<Rightarrow> kv(cf := cf_del k (kv cf)))
      else kv)"

definition apply_batch :: "kvstate \<Rightarrow> modify list \<Rightarrow> kvstate" where
  "apply_batch kv ms = foldl apply_modify kv ms"

definition kv_sorted :: "kvstate \<Rightarrow> bool" where
  "kv_sorted kv \<longleftrightarrow> (\<forall>cf \<in> set CFs. cf_sorted (kv cf))"

lemma cf_sorted_Nil [simp]: "cf_sorted []"
  by (simp add: cf_sorted_def)

lemma cf_sorted_Cons [simp]:
  "cf_sorted (i # m) \<longleftrightarrow> (\<forall>j \<in> set m. fst i < fst j) \<and> cf_sorted m"
  by (auto simp: cf_sorted_def)

lemma cf_sorted_distinct: "cf_sorted m \<Longrightarrow> distinct (map fst m)"
  by (induction m) force+

lemma cf_sorted_dropWhile: "cf_sorted m \<Longrightarrow> cf_sorted (dropWhile P m)"
  by (induction m) auto

lemma set_cf_put: "fst ` set (cf_put k v m) = insert k (fst ` set m)"
  by (induction k v m rule: cf_put.induct) auto

lemma cf_sorted_put: "cf_sorted m \<Longrightarrow> cf_sorted (cf_put k v m)"
proof (induction k v m rule: cf_put.induct)
  case (2 k v k' v' m)
  have "k' < fst j" if "j \<in> set (cf_put k v m)" and "k' < k" for j
  proof -
    from that have "fst j \<in> insert k (fst ` set m)" using set_cf_put by (metis imageI)
    with that 2 show ?thesis by auto
  qed
  with 2 show ?case by (force dest: less_trans)
qed simp

lemma cf_sorted_del: "cf_sorted m \<Longrightarrow> cf_sorted (cf_del k m)"
  by (induction m) (auto simp: cf_del_def)

lemma map_of_put [simp]: "map_of (cf_put k v m) = (map_of m)(k \<mapsto> v)"
  by (induction k v m rule: cf_put.induct) auto

lemma map_of_del [simp]: "map_of (cf_del k m) = (map_of m)(k := None)"
  by (induction m) (auto simp: cf_del_def fun_eq_iff)

lemma cf_get_put [simp]: "cf_get (cf_put k v m) k' = (if k' = k then v else cf_get m k')"
  by (simp add: cf_get_def)

lemma cf_get_del [simp]: "cf_get (cf_del k m) k' = (if k' = k then None else cf_get m k')"
  by (simp add: cf_get_def)

lemma apply_modify_sorted: "kv_sorted kv \<Longrightarrow> kv_sorted (apply_modify kv m)"
  by (cases m) (auto simp: kv_sorted_def apply_modify_def cf_sorted_put cf_sorted_del)

lemma apply_batch_sorted: "kv_sorted kv \<Longrightarrow> kv_sorted (apply_batch kv ms)"
  unfolding apply_batch_def
  by (induction ms arbitrary: kv) (auto simp: apply_modify_sorted)

lemma apply_batch_simps [simp]:
  "apply_batch kv [] = kv"
  "apply_batch kv (m # ms) = apply_batch (apply_modify kv m) ms"
  "apply_batch kv (ms @ ms') = apply_batch (apply_batch kv ms) ms'"
  by (simp_all add: apply_batch_def)

text \<open>Batches keep what they do not name.\<close>

lemma map_of_apply_modify:
  "map_of (apply_modify kv m cf) k =
     (if cf \<in> set CFs \<and> modify_Cf m = cf \<and> modify_Key m = k
      then (case m of Put _ v _ \<Rightarrow> Some v | Delete _ _ \<Rightarrow> None)
      else map_of (kv cf) k)"
  by (cases m) (auto simp: apply_modify_def)

lemma apply_batch_other:
  "(\<And>m. m \<in> set ms \<Longrightarrow> (modify_Cf m, modify_Key m) \<noteq> (cf, k)) \<Longrightarrow>
   map_of (apply_batch kv ms cf) k = map_of (kv cf) k"
proof (induction ms arbitrary: kv)
  case (Cons m ms)
  have "map_of (apply_batch (apply_modify kv m) ms cf) k = map_of (apply_modify kv m cf) k"
    using Cons.prems by (intro Cons.IH) auto
  also have "\<dots> = map_of (kv cf) k"
    using Cons.prems [of m] by (auto simp: map_of_apply_modify)
  finally show ?case by simp
qed simp

section \<open>The contracts of the interface\<close>

text \<open>
  A reader is a snapshot of a content: point reads and iterators of the three column families
  agree with it, and iterators visit its keys in ascending order.
\<close>

locale snapshot_reader =
  fixes rd :: reader and kv :: kvstate
  assumes get: "cf \<in> set CFs \<Longrightarrow> rd_GetCF rd cf k = Inr (cf_get (kv cf) k)"
    and iter: "cf \<in> set CFs \<Longrightarrow> rd_IterCF rd cf = map (\<lambda>(k, v). (k, Inr v)) (kv cf)"
    and ordered: "kv_sorted kv"
begin

lemma sorted_cf: "cf \<in> set CFs \<Longrightarrow> cf_sorted (kv cf)"
  using ordered by (simp add: kv_sorted_def)

lemma seek:
  assumes "cf \<in> set CFs"
  shows "it_Seek rd cf key = map (\<lambda>(k, v). (k, Inr v)) (filter (\<lambda>i. key \<le> fst i) (kv cf))"
proof -
  have "dropWhile (\<lambda>i. fst i < key) m = filter (\<lambda>i. key \<le> fst i) m" if "cf_sorted m" for m :: cfdata
    using that
  proof (induction m)
    case (Cons i m)
    then show ?case
    proof (cases "fst i < key")
      case False
      with Cons.prems have "\<forall>j \<in> set (i # m). key \<le> fst j" by force
      then have "filter (\<lambda>i. key \<le> fst i) (i # m) = i # m" by (intro filter_True)
      with False show ?thesis by simp
    qed (simp add: not_le)
  qed simp
  from this [OF sorted_cf [OF assms]] show ?thesis
    by (simp add: it_Seek_def iter [OF assms] dropWhile_map comp_def case_prod_beta)
qed

end

text \<open>A storage engine hands out such readers and applies write batches in order.\<close>

record ('s, 'c) storage_api =
  st_Reader :: "'s \<Rightarrow> 'c \<Rightarrow> gerror + reader"
  st_Write :: "'s \<Rightarrow> 'c \<Rightarrow> modify list \<Rightarrow> gerror + 's"

locale storage_spec =
  fixes ops :: "('s, 'c) storage_api" and content :: "'s \<Rightarrow> kvstate" and inv :: "'s \<Rightarrow> bool"
  assumes reader: "inv s \<Longrightarrow> \<exists>rd. st_Reader ops s ctx = Inr rd \<and> snapshot_reader rd (content s)"
    and write_batch: "inv s \<Longrightarrow> \<exists>s'. st_Write ops s ctx ms = Inr s' \<and> inv s'
                  \<and> content s' = apply_batch (content s) ms"

section \<open>The reader of a content\<close>

definition content_reader :: "kvstate \<Rightarrow> reader" where
  "content_reader kv =
     \<lparr>rd_GetCF = (\<lambda>cf k. Inr (cf_get (kv cf) k)),
      rd_IterCF = (\<lambda>cf. map (\<lambda>(k, v). (k, Inr v)) (kv cf))\<rparr>"

lemma content_reader_snapshot: "kv_sorted kv \<Longrightarrow> snapshot_reader (content_reader kv) kv"
  by unfold_locales (simp_all add: content_reader_def)

end
