(* ===== verification/Mvcc.thy ===== *)
theory Mvcc
  imports Codec Engine
begin

text \<open>
  The MVCC layer, \<open>kv/transaction/mvcc\<close>: locks (\<open>lock.go\<close>), write records (\<open>write.go\<close>),
  versioned keys and the read and write operations of a transaction (\<open>transaction.go\<close>), and
  the range scanner (\<open>scanner.go\<close>). A transaction reads through a \<open>StorageReader\<close> and
  buffers its modifications. Timestamps are 64-bit words; a \<open>WriteKind\<close> is Go's \<open>int\<close> and is
  truncated to a byte when stored. Loops that seek again on every turn (\<open>CurrentWrite\<close>,
  \<open>Scanner.Next\<close>) carry fuel, and running out of it is the fault \<open>Diverges\<close>.
\<close>

section \<open>Wire types of kvrpcpb\<close>

record LockInfo =
  li_PrimaryLock :: bytes
  li_LockVersion :: u64
  li_Key :: bytes
  li_LockTtl :: u64

record WriteConflict =
  wc_StartTs :: u64
  wc_ConflictTs :: u64
  wc_Key :: bytes
  wc_Primary :: bytes

text \<open>
  \<open>Retryable\<close> and \<open>Abort\<close> are messages built with \<open>Sprintf\<close>; the model keeps the data they
  are built from.
\<close>

datatype retry_reason = CommitTsTooSmall u64 | LockNotFound bytes
datatype abort_reason = AlreadyCommitted bytes u64

record KeyError =
  ke_Locked :: "LockInfo option"
  ke_Retryable :: "retry_reason option"
  ke_Abort :: "abort_reason option"
  ke_Conflict :: "WriteConflict option"

definition no_KeyError :: KeyError where
  "no_KeyError = \<lparr>ke_Locked = None, ke_Retryable = None, ke_Abort = None, ke_Conflict = None\<rparr>"

text \<open>\<open>kvrpcpb.Op\<close> is an open enumeration.\<close>

definition Op_Put :: int where "Op_Put = 0"
definition Op_Del :: int where "Op_Del = 1"
definition Op_Rollback :: int where "Op_Rollback = 2"

section \<open>Write records\<close>

definition WriteKindPut :: int where "WriteKindPut = 1"
definition WriteKindDelete :: int where "WriteKindDelete = 2"
definition WriteKindRollback :: int where "WriteKindRollback = 3"

lemmas kind_consts = WriteKindPut_def WriteKindDelete_def WriteKindRollback_def
  Op_Put_def Op_Del_def Op_Rollback_def

definition WriteKind_ToProto :: "int \<Rightarrow> int" where
  "WriteKind_ToProto wk =
     (if wk = WriteKindPut then Op_Put
      else if wk = WriteKindDelete then Op_Del
      else if wk = WriteKindRollback then Op_Rollback
      else -1)"

definition WriteKindFromProto :: "int \<Rightarrow> fault + int" where
  "WriteKindFromProto op =
     (if op = Op_Put then Inr WriteKindPut
      else if op = Op_Del then Inr WriteKindDelete
      else if op = Op_Rollback then Inr WriteKindRollback
      else Inl (Panic ''unsupported type''))"

record Write =
  w_StartTS :: u64
  w_Kind :: int

definition Write_ToBytes :: "Write \<Rightarrow> bytes" where
  "Write_ToBytes wr = word_of_int (w_Kind wr) # be_put64 (w_StartTS wr)"

definition ParseWrite :: "goslice \<Rightarrow> fault + Write option" where
  "ParseWrite value =
     (case value of
        None \<Rightarrow> Inr None
      | Some v \<Rightarrow>
          if length v \<noteq> 9 then Inl (Error (ErrParseWrite (length v)))
          else Inr (Some \<lparr>w_StartTS = be_uint64 (drop 1 v), w_Kind = uint (v ! 0)\<rparr>))"

section \<open>Locks\<close>

definition TsMax :: u64 where "TsMax = NOT 0"

record Lock =
  lk_Primary :: bytes
  lk_Ts :: u64
  lk_Ttl :: u64
  lk_Kind :: int

definition Lock_Info :: "Lock \<Rightarrow> bytes \<Rightarrow> LockInfo" where
  "Lock_Info lock key =
     \<lparr>li_PrimaryLock = lk_Primary lock, li_LockVersion = lk_Ts lock, li_Key = key,
      li_LockTtl = lk_Ttl lock\<rparr>"

definition Lock_ToBytes :: "Lock \<Rightarrow> bytes" where
  "Lock_ToBytes lock =
     lk_Primary lock @ [word_of_int (lk_Kind lock)] @ be_put64 (lk_Ts lock) @ be_put64 (lk_Ttl lock)"

definition ParseLock :: "bytes \<Rightarrow> fault + Lock" where
  "ParseLock input =
     (if length input \<le> 16 then Inl (Error (ErrParseLock (length input)))
      else let primaryLen = length input - 17
           in Inr \<lparr>lk_Primary = take primaryLen input,
                   lk_Ts = be_uint64 (drop (primaryLen + 1) input),
                   lk_Ttl = be_uint64 (drop (primaryLen + 9) input),
                   lk_Kind = uint (input ! primaryLen)\<rparr>)"

text \<open>
  \<open>IsLockedFor\<close> stores the key error in the response when it answers true; the model returns
  that error.
\<close>

definition IsLockedFor :: "Lock option \<Rightarrow> bytes \<Rightarrow> u64 \<Rightarrow> KeyError option" where
  "IsLockedFor lock key txnStartTs =
     (case lock of
        None \<Rightarrow> None
      | Some l \<Rightarrow>
          if txnStartTs = TsMax \<and> bytes_Compare key (lk_Primary l) \<noteq> 0 then None
          else if lk_Ts l \<le> txnStartTs
          then Some (no_KeyError\<lparr>ke_Locked := Some (Lock_Info l key)\<rparr>)
          else None)"

section \<open>Versioned keys\<close>

definition EncodeKey :: "bytes \<Rightarrow> u64 \<Rightarrow> bytes" where
  "EncodeKey key ts = EncodeBytes key @ be_put64 (NOT ts)"

definition DecodeUserKey :: "bytes \<Rightarrow> fault + bytes" where
  "DecodeUserKey key =
     (case DecodeBytes key of
        Inl e \<Rightarrow> Inl (Panic ''DecodeUserKey'')
      | Inr (left, userKey) \<Rightarrow> Inr userKey)"

definition decodeTimestamp :: "bytes \<Rightarrow> fault + u64" where
  "decodeTimestamp key =
     (case DecodeBytes key of
        Inl e \<Rightarrow> Inl (Panic ''decodeTimestamp'')
      | Inr (left, userKey) \<Rightarrow>
          if length left < 8 then Inl (Panic ''index out of range'')
          else Inr (NOT (be_uint64 left)))"

section \<open>Transactions\<close>

record RoTxn =
  tx_Reader :: reader
  tx_StartTS :: u64

record MvccTxn = RoTxn +
  tx_writes :: "modify list"

definition NewTxn :: "reader \<Rightarrow> u64 \<Rightarrow> MvccTxn" where
  "NewTxn rd startTs = \<lparr>tx_Reader = rd, tx_StartTS = startTs, tx_writes = []\<rparr>"

definition liftE :: "gerror + 'a \<Rightarrow> fault + 'a" where
  "liftE x = (case x of Inl e \<Rightarrow> Inl (Error e) | Inr a \<Rightarrow> Inr a)"

lemma liftE_simps [simp]: "liftE (Inl e) = Inl (Error e)" "liftE (Inr a) = Inr a"
  by (simp_all add: liftE_def)

definition mostRecentWriteBefore :: "'z RoTxn_scheme \<Rightarrow> bytes \<Rightarrow> u64 \<Rightarrow> fault + (Write option \<times> u64)" where
  "mostRecentWriteBefore txn key ts =
     (case it_Seek (tx_Reader txn) CfWrite (EncodeKey key ts) of
        [] \<Rightarrow> Inr (None, 0)
      | (k, v) # _ \<Rightarrow>
          bindR (decodeTimestamp k) (\<lambda>commitTs.
          bindR (DecodeUserKey k) (\<lambda>userKey.
          if bytes_Compare userKey key \<noteq> 0 then Inr (None, 0)
          else bindR (liftE v) (\<lambda>value.
               bindR (ParseWrite value) (\<lambda>write. Inr (write, commitTs))))))"

definition MostRecentWrite :: "'z RoTxn_scheme \<Rightarrow> bytes \<Rightarrow> fault + (Write option \<times> u64)" where
  "MostRecentWrite txn key = mostRecentWriteBefore txn key TsMax"

fun CurrentWrite_loop :: "nat \<Rightarrow> 'z RoTxn_scheme \<Rightarrow> bytes \<Rightarrow> u64 \<Rightarrow> fault + (Write option \<times> u64)" where
  "CurrentWrite_loop 0 txn key seekTs = Inl Diverges"
| "CurrentWrite_loop (Suc fuel) txn key seekTs =
     bindR (mostRecentWriteBefore txn key seekTs) (\<lambda>(write, commitTs).
       case write of
         None \<Rightarrow> Inr (None, 0)
       | Some w \<Rightarrow>
           if w_StartTS w = tx_StartTS txn then Inr (Some w, commitTs)
           else if commitTs \<le> tx_StartTS txn then Inr (None, 0)
           else CurrentWrite_loop fuel txn key (commitTs - 1))"

text \<open>Every turn meets a record older than the one before, so one turn per record is enough.\<close>

definition CurrentWrite :: "'z RoTxn_scheme \<Rightarrow> bytes \<Rightarrow> fault + (Write option \<times> u64)" where
  "CurrentWrite txn key =
     CurrentWrite_loop (Suc (length (rd_IterCF (tx_Reader txn) CfWrite))) txn key TsMax"

fun GetValue_loop :: "'z RoTxn_scheme \<Rightarrow> bytes \<Rightarrow> iterator \<Rightarrow> fault + goslice" where
  "GetValue_loop txn key [] = Inr None"
| "GetValue_loop txn key ((k, v) # iter) =
     bindR (DecodeUserKey k) (\<lambda>userKey.
     if bytes_Compare userKey key \<noteq> 0 then Inr None
     else bindR (liftE v) (\<lambda>value.
          bindR (ParseWrite value) (\<lambda>write.
            case write of
              None \<Rightarrow> Inl (Panic ''nil pointer dereference'')
            | Some w \<Rightarrow>
                if w_Kind w = WriteKindPut
                then liftE (rd_GetCF (tx_Reader txn) CfDefault (EncodeKey key (w_StartTS w)))
                else if w_Kind w = WriteKindDelete then Inr None
                else GetValue_loop txn key iter)))"

definition GetValue :: "'z RoTxn_scheme \<Rightarrow> bytes \<Rightarrow> fault + goslice" where
  "GetValue txn key =
     GetValue_loop txn key (it_Seek (tx_Reader txn) CfWrite (EncodeKey key (tx_StartTS txn)))"

definition GetLock :: "'z RoTxn_scheme \<Rightarrow> bytes \<Rightarrow> fault + Lock option" where
  "GetLock txn key =
     bindR (liftE (rd_GetCF (tx_Reader txn) CfLock key)) (\<lambda>bytes.
       case bytes of
         None \<Rightarrow> Inr None
       | Some b \<Rightarrow> bindR (ParseLock b) (\<lambda>lock. Inr (Some lock)))"

definition getValue :: "'z RoTxn_scheme \<Rightarrow> bytes \<Rightarrow> u64 \<Rightarrow> fault + goslice" where
  "getValue txn key ts = liftE (rd_GetCF (tx_Reader txn) CfDefault (EncodeKey key ts))"

definition add_write :: "modify \<Rightarrow> MvccTxn \<Rightarrow> MvccTxn" where
  "add_write m txn = txn\<lparr>tx_writes := tx_writes txn @ [m]\<rparr>"

definition PutWrite :: "MvccTxn \<Rightarrow> bytes \<Rightarrow> u64 \<Rightarrow> Write \<Rightarrow> MvccTxn" where
  "PutWrite txn key ts write =
     add_write (Put (EncodeKey key ts) (Some (Write_ToBytes write)) CfWrite) txn"

definition PutLock :: "MvccTxn \<Rightarrow> bytes \<Rightarrow> Lock \<Rightarrow> MvccTxn" where
  "PutLock txn key lock = add_write (Put key (Some (Lock_ToBytes lock)) CfLock) txn"

definition DeleteLock :: "MvccTxn \<Rightarrow> bytes \<Rightarrow> MvccTxn" where
  "DeleteLock txn key = add_write (Delete key CfLock) txn"

definition PutValue :: "MvccTxn \<Rightarrow> bytes \<Rightarrow> goslice \<Rightarrow> MvccTxn" where
  "PutValue txn key value = add_write (Put (EncodeKey key (tx_StartTS txn)) value CfDefault) txn"

definition DeleteValue :: "MvccTxn \<Rightarrow> bytes \<Rightarrow> MvccTxn" where
  "DeleteValue txn key = add_write (Delete (EncodeKey key (tx_StartTS txn)) CfDefault) txn"

section \<open>All locks of a transaction\<close>

fun AllLocks_loop :: "u64 \<Rightarrow> iterator \<Rightarrow> (bytes \<times> Lock) list \<Rightarrow> fault + (bytes \<times> Lock) list" where
  "AllLocks_loop startTs [] result = Inr result"
| "AllLocks_loop startTs ((k, v) # iter) result =
     bindR (liftE v) (\<lambda>val.
     bindR (ParseLock (case val of None \<Rightarrow> [] | Some b \<Rightarrow> b)) (\<lambda>lock.
       AllLocks_loop startTs iter
         (if lk_Ts lock = startTs then result @ [(k, lock)] else result)))"

definition AllLocksForTxn :: "'z RoTxn_scheme \<Rightarrow> fault + (bytes \<times> Lock) list" where
  "AllLocksForTxn txn = AllLocks_loop (tx_StartTS txn) (it_Seek (tx_Reader txn) CfLock []) []"

section \<open>The scanner\<close>

datatype scan_result = ScanEnd | ScanKeyError KeyError | ScanPair bytes goslice

definition NewScanner :: "bytes \<Rightarrow> 'z RoTxn_scheme \<Rightarrow> iterator" where
  "NewScanner startKey txn = it_Seek (tx_Reader txn) CfWrite (EncodeKey startKey TsMax)"

fun Scanner_Next :: "nat \<Rightarrow> 'z RoTxn_scheme \<Rightarrow> iterator \<Rightarrow> fault + (scan_result \<times> iterator)" where
  "Scanner_Next 0 txn writeIter = Inl Diverges"
| "Scanner_Next (Suc fuel) txn [] = Inr (ScanEnd, [])"
| "Scanner_Next (Suc fuel) txn ((k, v) # rest) =
     bindR (DecodeUserKey k) (\<lambda>userKey.
     bindR (decodeTimestamp k) (\<lambda>commitTs.
     if commitTs \<ge> tx_StartTS txn
     then Scanner_Next fuel txn (it_Seek (tx_Reader txn) CfWrite (EncodeKey userKey (commitTs - 1)))
     else bindR (GetLock txn userKey) (\<lambda>lock.
       case (case lock of None \<Rightarrow> None
                        | Some l \<Rightarrow> if lk_Ts l < tx_StartTS txn then Some l else None) of
         Some l \<Rightarrow>
           Inr (ScanKeyError (no_KeyError\<lparr>ke_Locked := Some (Lock_Info l userKey)\<rparr>), (k, v) # rest)
       | None \<Rightarrow>
           bindR (liftE v) (\<lambda>writeValue.
           bindR (ParseWrite writeValue) (\<lambda>write.
             case write of
               None \<Rightarrow> Inl (Panic ''nil pointer dereference'')
             | Some w \<Rightarrow>
                 if w_Kind w \<noteq> WriteKindPut
                 then Scanner_Next fuel txn (it_Seek (tx_Reader txn) CfWrite (EncodeKey userKey 0))
                 else bindR (getValue txn userKey (w_StartTS w)) (\<lambda>value.
                        Inr (ScanPair userKey value, rest)))))))"

end
