(* ===== verification/Mvcc_Spec.thy ===== *)
theory Mvcc_Spec
  imports Mvcc
begin

text \<open>
  The meaning of the MVCC store and the refinement of the read operations: a content holds,
  for every user key, at most one lock and a set of write records indexed by commit timestamp;
  values are indexed by start timestamp. \<open>mostRecentWriteBefore\<close>, \<open>CurrentWrite\<close> and
  \<open>GetValue\<close> are shown to compute what these views say, on every well-formed content.
\<close>

section \<open>Versioned keys in order\<close>

text \<open>
  The order of versioned keys in the \<open>write\<close> and \<open>default\<close> families: user keys ascending,
  newest version first.
\<close>

datatype vkey = VKey (vk_key: bytes) (vk_ts: u64)

instantiation vkey :: linorder
begin

definition less_eq_vkey :: "vkey \<Rightarrow> vkey \<Rightarrow> bool" where
  "a \<le> b \<longleftrightarrow> vk_key a < vk_key b \<or> (vk_key a = vk_key b \<and> vk_ts b \<le> vk_ts a)"

definition less_vkey :: "vkey \<Rightarrow> vkey \<Rightarrow> bool" where
  "a < b \<longleftrightarrow> vk_key a < vk_key b \<or> (vk_key a = vk_key b \<and> vk_ts b < vk_ts a)"

instance
  by standard (auto simp: less_eq_vkey_def less_vkey_def vkey.expand)

end

definition encode_vkey :: "vkey \<Rightarrow> bytes" where
  "encode_vkey v = EncodeKey (vk_key v) (vk_ts v)"

lemma EncodeKey_less [simp]: "EncodeKey k t < EncodeKey k' t' \<longleftrightarrow> k < k' \<or> (k = k' \<and> t' < t)"
  by (simp add: EncodeKey_def kv_codec.versioned_less)

lemma EncodeKey_eq [simp]: "EncodeKey k t = EncodeKey k' t' \<longleftrightarrow> k = k' \<and> t = t'"
  by (simp add: EncodeKey_def kv_codec.versioned_eq)

lemma EncodeKey_le [simp]: "EncodeKey k t \<le> EncodeKey k' t' \<longleftrightarrow> k < k' \<or> (k = k' \<and> t' \<le> t)"
  by (auto simp: le_less)

lemma encode_vkey_less [simp]: "encode_vkey a < encode_vkey b \<longleftrightarrow> a < b"
  by (simp add: encode_vkey_def less_vkey_def)

lemma decode_EncodeKey [simp]:
  "DecodeUserKey (EncodeKey k t) = Inr k" "decodeTimestamp (EncodeKey k t) = Inr t"
  by (simp_all add: EncodeKey_def DecodeUserKey_def decodeTimestamp_def kv_codec.decode_encode)

section \<open>Records read back\<close>

lemma ParseWrite_ToBytes:
  "0 \<le> w_Kind w \<Longrightarrow> w_Kind w < 256 \<Longrightarrow> ParseWrite (Some (Write_ToBytes w)) = Inr (Some w)"
  by (simp add: ParseWrite_def Write_ToBytes_def unsigned_of_int take_bit_eq_mod)

lemma ParseLock_ToBytes:
  "0 \<le> lk_Kind l \<Longrightarrow> lk_Kind l < 256 \<Longrightarrow> ParseLock (Lock_ToBytes l) = Inr l"
  by (simp add: ParseLock_def Lock_ToBytes_def Let_def nth_append unsigned_of_int take_bit_eq_mod
      add.commute)

section \<open>Views of a content\<close>

definition parse_write :: "bytes \<Rightarrow> Write" where
  "parse_write v = \<lparr>w_StartTS = be_uint64 (drop 1 v), w_Kind = uint (v ! 0)\<rparr>"

definition write_at :: "kvstate \<Rightarrow> bytes \<Rightarrow> u64 \<Rightarrow> Write option" where
  "write_at kv key ts = map_option parse_write (cf_get (kv CfWrite) (EncodeKey key ts))"

definition lock_at :: "kvstate \<Rightarrow> bytes \<Rightarrow> Lock option" where
  "lock_at kv key =
     (case cf_get (kv CfLock) key of
        None \<Rightarrow> None
      | Some b \<Rightarrow> (case ParseLock b of Inl e \<Rightarrow> None | Inr l \<Rightarrow> Some l))"

definition value_at :: "kvstate \<Rightarrow> bytes \<Rightarrow> u64 \<Rightarrow> goslice" where
  "value_at kv key ts = cf_get (kv CfDefault) (EncodeKey key ts)"

text \<open>
  Well-formed contents: the families are sorted, every key of the \<open>write\<close> family is versioned
  and holds a nine-byte record, every lock parses.
\<close>

definition wf_write_entry :: "bytes \<times> goslice \<Rightarrow> bool" where
  "wf_write_entry e \<longleftrightarrow> (\<exists>k t v. e = (EncodeKey k t, Some v) \<and> length v = 9)"

definition wf_lock_entry :: "bytes \<times> goslice \<Rightarrow> bool" where
  "wf_lock_entry e \<longleftrightarrow> (\<exists>v. snd e = Some v \<and> 16 < length v)"

definition mvcc_wf :: "kvstate \<Rightarrow> bool" where
  "mvcc_wf kv \<longleftrightarrow> kv_sorted kv \<and> (\<forall>e \<in> set (kv CfWrite). wf_write_entry e)
     \<and> (\<forall>e \<in> set (kv CfLock). wf_lock_entry e)"

lemma parse_write_ToBytes:
  "0 \<le> w_Kind w \<Longrightarrow> w_Kind w < 256 \<Longrightarrow> parse_write (Write_ToBytes w) = w"
  by (simp add: parse_write_def Write_ToBytes_def unsigned_of_int take_bit_eq_mod)

lemma ParseWrite_wf: "length v = 9 \<Longrightarrow> ParseWrite (Some v) = Inr (Some (parse_write v))"
  by (simp add: ParseWrite_def parse_write_def)

section \<open>What an iterator of the write family meets\<close>

definition versions_upto :: "bytes \<Rightarrow> u64 \<Rightarrow> cfdata \<Rightarrow> cfdata" where
  "versions_upto key ts m = filter (\<lambda>e. \<exists>t. t \<le> ts \<and> fst e = EncodeKey key t) m"

definition later_keys :: "bytes \<Rightarrow> cfdata \<Rightarrow> cfdata" where
  "later_keys key m = filter (\<lambda>e. \<exists>k t. key < k \<and> fst e = EncodeKey k t) m"

lemma seek_split:
  assumes "cf_sorted m" and "\<forall>e \<in> set m. wf_write_entry e"
  shows "filter (\<lambda>e. EncodeKey key ts \<le> fst e) m = versions_upto key ts m @ later_keys key m"
  using assms
proof (induction m)
  case (Cons e m)
  then obtain k t v where e: "e = (EncodeKey k t, v)" by (auto simp: wf_write_entry_def)
  have IH: "filter (\<lambda>e. EncodeKey key ts \<le> fst e) m = versions_upto key ts m @ later_keys key m"
    using Cons by simp
  show ?case
  proof (cases "key < k")
    case True
    have "versions_upto key ts m = []"
    proof -
      have "\<not> fst e' = EncodeKey key t'" if "e' \<in> set m" for e' t'
        using Cons.prems(1) that True e by (auto dest!: bspec)
      then show ?thesis by (auto simp: versions_upto_def filter_empty_conv)
    qed
    with IH True e show ?thesis by (auto simp: versions_upto_def later_keys_def)
  next
    case False
    with IH e show ?thesis by (auto simp: versions_upto_def later_keys_def)
  qed
qed (simp_all add: versions_upto_def later_keys_def)

lemma cf_get_mem:
  "cf_sorted m \<Longrightarrow> (k, v) \<in> set m \<Longrightarrow> cf_get m k = v"
  by (simp add: cf_get_def cf_sorted_distinct)

lemma cf_get_Some_mem: "cf_get m k = Some v \<Longrightarrow> (k, Some v) \<in> set m"
  by (auto simp: cf_get_def split: option.splits dest: map_of_SomeD)

lemma cf_sorted_filter: "cf_sorted m \<Longrightarrow> cf_sorted (filter P m)"
  by (induction m) auto

lemma filter_sorted_Cons:
  "cf_sorted m \<Longrightarrow> filter P m = e # es \<Longrightarrow> es = filter (\<lambda>x. P x \<and> fst e < fst x) m"
proof (induction m)
  case (Cons a m)
  show ?case
  proof (cases "P a")
    case True
    with Cons.prems have "e = a" and "es = filter P m" by auto
    moreover have "filter P m = filter (\<lambda>x. P x \<and> fst a < fst x) m"
      using Cons.prems by (intro filter_cong) auto
    ultimately show ?thesis by simp
  next
    case False
    with Cons show ?thesis by simp
  qed
qed simp

text \<open>
  The versions at or before a timestamp, newest first: the head is the newest record, the rest
  are the versions before it.
\<close>

definition versions_before :: "bytes \<Rightarrow> u64 \<Rightarrow> cfdata \<Rightarrow> cfdata" where
  "versions_before key ts m = filter (\<lambda>e. \<exists>t. t < ts \<and> fst e = EncodeKey key t) m"

lemma le_pred_iff: "0 < c \<Longrightarrow> t \<le> c - 1 \<longleftrightarrow> t < c" for c t :: u64
  by unat_arith

lemma versions_upto_pred: "0 < c \<Longrightarrow> versions_upto key (c - 1) m = versions_before key c m"
  by (simp add: versions_upto_def versions_before_def le_pred_iff)

lemma wf_write_sorted: "mvcc_wf kv \<Longrightarrow> cf_sorted (kv CfWrite)"
  by (simp add: mvcc_wf_def kv_sorted_def)

lemma write_at_mem:
  "write_at kv key c \<noteq> None \<Longrightarrow> \<exists>v. (EncodeKey key c, Some v) \<in> set (kv CfWrite)"
  by (auto simp: write_at_def dest: cf_get_Some_mem)

lemma versions_upto_Nil:
  assumes "versions_upto key ts (kv CfWrite) = []" and "c \<le> ts"
  shows "write_at kv key c = None"
proof (rule ccontr)
  assume "write_at kv key c \<noteq> None"
  with write_at_mem obtain v where "(EncodeKey key c, Some v) \<in> set (kv CfWrite)" by blast
  with assms show False by (force simp: versions_upto_def filter_empty_conv)
qed

lemma versions_upto_Cons:
  assumes wf: "mvcc_wf kv" and vs: "versions_upto key ts (kv CfWrite) = e # es"
  obtains c v where "e = (EncodeKey key c, Some v)" "c \<le> ts" "length v = 9"
    "write_at kv key c = Some (parse_write v)" "es = versions_before key c (kv CfWrite)"
proof -
  note srt = wf_write_sorted [OF wf]
  have "e \<in> set (versions_upto key ts (kv CfWrite))" using vs by simp
  then have mem: "e \<in> set (kv CfWrite)" and "\<exists>c \<le> ts. fst e = EncodeKey key c"
    by (auto simp: versions_upto_def)
  then obtain c v where e: "e = (EncodeKey key c, Some v)" and c: "c \<le> ts" and v: "length v = 9"
    using wf by (auto simp: mvcc_wf_def wf_write_entry_def dest!: bspec)
  have "write_at kv key c = Some (parse_write v)"
    using mem e cf_get_mem [OF srt, of "EncodeKey key c" "Some v"] by (simp add: write_at_def)
  moreover have "es = versions_before key c (kv CfWrite)"
    using filter_sorted_Cons [OF srt vs [unfolded versions_upto_def]] e c
    by (auto simp: versions_before_def intro!: filter_cong dest: order.strict_implies_order)
  ultimately show ?thesis using that e c v by blast
qed

lemma versions_upto_newest:
  assumes wf: "mvcc_wf kv" and vs: "versions_upto key ts (kv CfWrite) = (EncodeKey key c, v) # es"
    and "c < c'" "c' \<le> ts"
  shows "write_at kv key c' = None"
proof (rule ccontr)
  assume "write_at kv key c' \<noteq> None"
  with write_at_mem obtain w where "(EncodeKey key c', Some w) \<in> set (kv CfWrite)" by blast
  with assms(4) have "(EncodeKey key c', Some w) \<in> set (versions_upto key ts (kv CfWrite))"
    by (auto simp: versions_upto_def)
  moreover from versions_upto_Cons [OF wf vs] have "es = versions_before key c (kv CfWrite)"
    by (metis EncodeKey_eq prod.inject)
  ultimately show False using vs assms(3) by (auto simp: versions_before_def)
qed

section \<open>Histories\<close>

text \<open>
  The write records of a key up to a timestamp, newest first, and the two searches the
  transaction layer makes in them.
\<close>

definition entry_rec :: "bytes \<times> goslice \<Rightarrow> u64 \<times> Write" where
  "entry_rec e = (case decodeTimestamp (fst e) of Inl _ \<Rightarrow> 0 | Inr t \<Rightarrow> t,
                  parse_write (case snd e of None \<Rightarrow> [] | Some v \<Rightarrow> v))"

definition history :: "kvstate \<Rightarrow> bytes \<Rightarrow> u64 \<Rightarrow> (u64 \<times> Write) list" where
  "history kv key ts = map entry_rec (versions_upto key ts (kv CfWrite))"

fun current_scan :: "u64 \<Rightarrow> (u64 \<times> Write) list \<Rightarrow> Write option \<times> u64" where
  "current_scan start [] = (None, 0)"
| "current_scan start ((c, w) # h) =
     (if w_StartTS w = start then (Some w, c)
      else if c \<le> start then (None, 0) else current_scan start h)"

fun value_scan :: "(u64 \<times> Write) list \<Rightarrow> Write option" where
  "value_scan [] = None"
| "value_scan ((c, w) # h) =
     (if w_Kind w = WriteKindPut then Some w
      else if w_Kind w = WriteKindDelete then None
      else value_scan h)"

lemma entry_rec_simp [simp]: "entry_rec (EncodeKey key c, Some v) = (c, parse_write v)"
  by (simp add: entry_rec_def)

lemma history_Cons:
  assumes "mvcc_wf kv" and "history kv key ts = (c, w) # h"
  shows "c \<le> ts" and "write_at kv key c = Some w" and "0 < c \<Longrightarrow> h = history kv key (c - 1)"
    and "\<exists>v. w = parse_write v \<and> length v = 9
           \<and> versions_upto key ts (kv CfWrite)
             = (EncodeKey key c, Some v) # versions_before key c (kv CfWrite)"
proof -
  from assms(2) obtain e es where vs: "versions_upto key ts (kv CfWrite) = e # es"
    and rec: "entry_rec e = (c, w)" "h = map entry_rec es"
    by (auto simp: history_def)
  from versions_upto_Cons [OF assms(1) vs] obtain c' v where
    "e = (EncodeKey key c', Some v)" "c' \<le> ts" "length v = 9"
    "write_at kv key c' = Some (parse_write v)" "es = versions_before key c' (kv CfWrite)" .
  with rec vs show "c \<le> ts" "write_at kv key c = Some w" "0 < c \<Longrightarrow> h = history kv key (c - 1)"
    "\<exists>v. w = parse_write v \<and> length v = 9 \<and> versions_upto key ts (kv CfWrite)
         = (EncodeKey key c, Some v) # versions_before key c (kv CfWrite)"
    by (auto simp: history_def versions_upto_pred)
qed

lemma history_mem:
  assumes wf: "mvcc_wf kv"
  shows "(c, w) \<in> set (history kv key ts) \<longleftrightarrow> c \<le> ts \<and> write_at kv key c = Some w"
proof
  assume "(c, w) \<in> set (history kv key ts)"
  then obtain e where "e \<in> set (kv CfWrite)" "\<exists>t \<le> ts. fst e = EncodeKey key t" "entry_rec e = (c, w)"
    by (auto simp: history_def versions_upto_def)
  moreover from this wf obtain v where "e = (EncodeKey key c, Some v)" "w = parse_write v" "c \<le> ts"
    by (auto simp: mvcc_wf_def wf_write_entry_def dest!: bspec)
  ultimately show "c \<le> ts \<and> write_at kv key c = Some w"
    using cf_get_mem [OF wf_write_sorted [OF wf]] by (simp add: write_at_def)
next
  assume c: "c \<le> ts \<and> write_at kv key c = Some w"
  then obtain v where "cf_get (kv CfWrite) (EncodeKey key c) = Some v" "w = parse_write v"
    by (auto simp: write_at_def)
  with c have "(EncodeKey key c, Some v) \<in> set (versions_upto key ts (kv CfWrite))"
    by (auto simp: versions_upto_def dest: cf_get_Some_mem)
  with \<open>w = parse_write v\<close> show "(c, w) \<in> set (history kv key ts)"
    by (force simp: history_def)
qed

lemma history_sorted:
  assumes "mvcc_wf kv"
  shows "sorted_wrt (\<lambda>a b. fst b < fst a) (history kv key ts)"
proof -
  have "sorted_wrt (\<lambda>a b. fst b < fst a) (map entry_rec m)"
    if "cf_sorted m" "\<forall>e \<in> set m. \<exists>c v. e = (EncodeKey key c, Some v)" for m
    using that
  proof (induction m)
    case (Cons e m)
    then obtain c v where e: "e = (EncodeKey key c, Some v)" by auto
    have "fst (entry_rec x) < c" if "x \<in> set m" for x
      using Cons.prems that e by fastforce
    with Cons e show ?case by auto
  qed simp
  moreover have "cf_sorted (versions_upto key ts (kv CfWrite))"
    by (simp add: versions_upto_def cf_sorted_filter wf_write_sorted assms)
  moreover have "\<forall>e \<in> set (versions_upto key ts (kv CfWrite)). \<exists>c v. e = (EncodeKey key c, Some v)"
    using assms by (auto simp: versions_upto_def mvcc_wf_def wf_write_entry_def dest!: bspec)
  ultimately show ?thesis by (simp add: history_def)
qed

lemma current_scan_Some:
  "current_scan start h = (Some w, c) \<Longrightarrow>
   (c, w) \<in> set h \<and> w_StartTS w = start"
  by (induction start h rule: current_scan.induct) (auto split: if_splits)

lemma current_scan_None:
  "current_scan start h = (None, c) \<Longrightarrow> sorted_wrt (\<lambda>a b. fst b < fst a) h \<Longrightarrow>
   (c', w) \<in> set h \<Longrightarrow> start \<le> c' \<Longrightarrow> w_StartTS w \<noteq> start"
proof (induction start h rule: current_scan.induct)
  case (2 start d u h)
  then show ?case by (force split: if_splits)
qed simp

text \<open>A record decides the visible value when it is a put or a delete.\<close>

definition decides :: "Write \<Rightarrow> bool" where
  "decides w \<longleftrightarrow> w_Kind w = WriteKindPut \<or> w_Kind w = WriteKindDelete"

lemma value_scan_Some:
  "value_scan h = Some w \<Longrightarrow> sorted_wrt (\<lambda>a b. fst b < fst a) h \<Longrightarrow>
   \<exists>c. (c, w) \<in> set h \<and> w_Kind w = WriteKindPut \<and> (\<forall>(c', w') \<in> set h. c < c' \<longrightarrow> \<not> decides w')"
proof (induction h rule: value_scan.induct)
  case (2 c u h)
  show ?case
  proof (cases "decides u")
    case True
    with 2 show ?thesis by (fastforce simp: decides_def split: if_splits)
  next
    case False
    with 2 obtain c' where "(c', w) \<in> set h" "w_Kind w = WriteKindPut"
      "\<forall>(d, w') \<in> set h. c' < d \<longrightarrow> \<not> decides w'"
      by (auto simp: decides_def)
    with False show ?thesis by auto
  qed
qed simp

lemma value_scan_None:
  "value_scan h = None \<Longrightarrow> sorted_wrt (\<lambda>a b. fst b < fst a) h \<Longrightarrow>
   (c, w) \<in> set h \<Longrightarrow> w_Kind w = WriteKindPut \<Longrightarrow>
   \<exists>c' w'. c < c' \<and> (c', w') \<in> set h \<and> w_Kind w' = WriteKindDelete"
  by (induction h rule: value_scan.induct) (fastforce simp: kind_consts split: if_splits)+

lemma value_scan_newest:
  "sorted_wrt (\<lambda>a b. fst b < fst a) h \<Longrightarrow> (c, w) \<in> set h \<Longrightarrow> decides w \<Longrightarrow>
   \<forall>(c', w') \<in> set h. c < c' \<longrightarrow> \<not> decides w' \<Longrightarrow>
   value_scan h = (if w_Kind w = WriteKindPut then Some w else None)"
  by (induction h rule: value_scan.induct) (fastforce simp: decides_def kind_consts)+

lemma value_scan_undecided: "\<forall>(c, w) \<in> set h. \<not> decides w \<Longrightarrow> value_scan h = None"
  by (induction h rule: value_scan.induct) (auto simp: decides_def)

section \<open>The read operations compute the searches\<close>

context snapshot_reader
begin

lemma seek_write:
  assumes wf: "mvcc_wf kv"
  shows "it_Seek rd CfWrite (EncodeKey key ts)
         = map (\<lambda>(k, v). (k, Inr v)) (versions_upto key ts (kv CfWrite) @ later_keys key (kv CfWrite))"
proof -
  have "\<forall>e \<in> set (kv CfWrite). wf_write_entry e" using wf by (simp add: mvcc_wf_def)
  then show ?thesis by (simp only: seek [OF CF_in_CFs(2)] seek_split [OF wf_write_sorted [OF wf]])
qed

lemma later_keys_decode:
  assumes "mvcc_wf kv" and "(k, v) \<in> set (later_keys key (kv CfWrite))"
  obtains k' t where "k = EncodeKey k' t" "k' \<noteq> key"
  using assms that by (auto simp: later_keys_def)

lemma most_recent:
  assumes wf: "mvcc_wf kv" and rd: "tx_Reader txn = rd"
  shows "mostRecentWriteBefore txn key ts
         = Inr (case history kv key ts of [] \<Rightarrow> (None, 0) | (c, w) # _ \<Rightarrow> (Some w, c))"
proof (cases "history kv key ts")
  case Nil
  then have "versions_upto key ts (kv CfWrite) = []" by (simp add: history_def)
  moreover have "\<exists>k t. e = EncodeKey k t \<and> k \<noteq> key" if "later_keys key (kv CfWrite) = (e, v) # ls" for e v ls
  proof -
    have "(e, v) \<in> set (later_keys key (kv CfWrite))" using that by simp
    then show ?thesis by (rule later_keys_decode [OF wf]) blast
  qed
  ultimately show ?thesis
    using rd by (cases "later_keys key (kv CfWrite)")
      (auto simp: mostRecentWriteBefore_def seek_write [OF wf] history_def)
next
  case (Cons e h)
  then obtain c w where e: "history kv key ts = (c, w) # h" by (cases e) auto
  from history_Cons(4) [OF wf e] rd e show ?thesis
    by (auto simp: mostRecentWriteBefore_def seek_write [OF wf] ParseWrite_wf)
qed

lemma current_loop:
  assumes wf: "mvcc_wf kv" and rd: "tx_Reader txn = rd"
  shows "length (history kv key ts) < fuel \<Longrightarrow>
         CurrentWrite_loop fuel txn key ts = Inr (current_scan (tx_StartTS txn) (history kv key ts))"
proof (induction fuel arbitrary: ts)
  case (Suc fuel)
  show ?case
  proof (cases "history kv key ts")
    case Nil
    then show ?thesis by (simp add: most_recent [OF wf rd])
  next
    case (Cons e h)
    then obtain c w where e: "history kv key ts = (c, w) # h" by (cases e) auto
    have "tx_StartTS txn < c \<Longrightarrow> h = history kv key (c - 1)"
      by (rule history_Cons(3) [OF wf e]) unat_arith
    with Suc.IH [of "c - 1"] Suc.prems e show ?thesis
      by (auto simp: most_recent [OF wf rd] not_le)
  qed
qed simp

lemma current_write:
  assumes wf: "mvcc_wf kv" and rd: "tx_Reader txn = rd"
  shows "CurrentWrite txn key = Inr (current_scan (tx_StartTS txn) (history kv key TsMax))"
proof -
  have "length (history kv key TsMax) \<le> length (kv CfWrite)"
    by (simp add: history_def versions_upto_def)
  then show ?thesis
    unfolding CurrentWrite_def by (intro current_loop [OF wf rd]) (simp add: rd iter)
qed

lemma value_loop:
  assumes "tx_Reader txn = rd"
    and "\<forall>e \<in> set vs. \<exists>c v. e = (EncodeKey key c, Some v) \<and> length v = 9"
    and "\<forall>e \<in> set ls. \<exists>k t. fst e = EncodeKey k t \<and> k \<noteq> key"
  shows "GetValue_loop txn key (map (\<lambda>(k, v). (k, Inr v)) (vs @ ls))
         = Inr (case value_scan (map entry_rec vs) of
                  None \<Rightarrow> None | Some w \<Rightarrow> value_at kv key (w_StartTS w))"
  using assms(2)
proof (induction vs)
  case Nil
  from assms(3) show ?case by (cases ls) auto
next
  case (Cons e vs)
  then obtain c v where "e = (EncodeKey key c, Some v)" "length v = 9" by auto
  with Cons assms(1) show ?case by (auto simp: ParseWrite_wf get value_at_def)
qed

lemma get_value:
  assumes wf: "mvcc_wf kv" and rd: "tx_Reader txn = rd"
  shows "GetValue txn key
         = Inr (case value_scan (history kv key (tx_StartTS txn)) of
                  None \<Rightarrow> None | Some w \<Rightarrow> value_at kv key (w_StartTS w))"
  unfolding GetValue_def rd seek_write [OF wf] history_def
proof (rule value_loop [OF rd])
  show "\<forall>e \<in> set (versions_upto key (tx_StartTS txn) (kv CfWrite)).
          \<exists>c v. e = (EncodeKey key c, Some v) \<and> length v = 9"
    using wf by (auto simp: versions_upto_def mvcc_wf_def wf_write_entry_def dest!: bspec)
  show "\<forall>e \<in> set (later_keys key (kv CfWrite)). \<exists>k t. fst e = EncodeKey k t \<and> k \<noteq> key"
    by (auto simp: later_keys_def)
qed

lemma get_lock:
  assumes wf: "mvcc_wf kv" and rd: "tx_Reader txn = rd"
  shows "GetLock txn key = Inr (lock_at kv key)"
proof (cases "cf_get (kv CfLock) key")
  case None
  then show ?thesis by (simp add: GetLock_def rd get lock_at_def)
next
  case (Some b)
  then have "(key, Some b) \<in> set (kv CfLock)" by (rule cf_get_Some_mem)
  with wf have "16 < length b" by (auto simp: mvcc_wf_def wf_lock_entry_def dest!: bspec)
  with Some show ?thesis by (simp add: GetLock_def rd get lock_at_def ParseLock_def Let_def)
qed

end

section \<open>Properties\<close>

text \<open>
  Versioned keys sort by user key, newest version first, and decode to the user key and the
  timestamp they were made of.
\<close>

theorem versioned_key_order:
  "(bytes_Compare (EncodeKey k t) (EncodeKey k' t') < 0 \<longleftrightarrow> k < k' \<or> k = k' \<and> t' < t)
   \<and> DecodeUserKey (EncodeKey k t) = Inr k \<and> decodeTimestamp (EncodeKey k t) = Inr t"
  by simp

text \<open>
  Locks and write records read back as they were written, except that the kind keeps only
  its low byte.
\<close>

theorem records_read_back:
  "ParseWrite (Some (Write_ToBytes w)) = Inr (Some (w\<lparr>w_Kind := w_Kind w mod 256\<rparr>))
   \<and> ParseLock (Lock_ToBytes l) = Inr (l\<lparr>lk_Kind := lk_Kind l mod 256\<rparr>)"
  by (simp add: ParseWrite_def Write_ToBytes_def ParseLock_def Lock_ToBytes_def Let_def nth_append
      unsigned_of_int take_bit_eq_mod add.commute)

text \<open>
  \<open>mostRecentWriteBefore\<close> returns, on every well-formed content, the newest write record of
  the key at or before the timestamp, and nothing exactly when there is none.
\<close>

theorem most_recent_write:
  assumes "snapshot_reader rd kv" and "mvcc_wf kv" and "tx_Reader txn = rd"
  shows "\<exists>w c. mostRecentWriteBefore txn key ts = Inr (w, c) \<and>
    (case w of
       None \<Rightarrow> \<forall>c'. c' \<le> ts \<longrightarrow> write_at kv key c' = None
     | Some r \<Rightarrow> c \<le> ts \<and> write_at kv key c = Some r
         \<and> (\<forall>c'. c < c' \<and> c' \<le> ts \<longrightarrow> write_at kv key c' = None))"
proof -
  note mr = snapshot_reader.most_recent [OF assms, of key ts]
  note mem = history_mem [OF assms(2)]
  show ?thesis
  proof (cases "history kv key ts")
    case Nil
    then have "write_at kv key c' = None" if "c' \<le> ts" for c'
      using mem [of c' _ key ts] that by (cases "write_at kv key c'") auto
    with mr Nil show ?thesis by auto
  next
    case (Cons r h)
    obtain c w where r: "r = (c, w)" by (cases r)
    have "write_at kv key c' = None" if "c < c'" "c' \<le> ts" for c'
      using mem [of c' _ key ts] that history_sorted [OF assms(2), of key ts] Cons r
      by (cases "write_at kv key c'") force+
    with mr Cons r mem [of c w key ts] show ?thesis by auto
  qed
qed

theorem most_recent_write_witness:
  "\<exists>w c. mostRecentWriteBefore
       \<lparr>tx_Reader = content_reader (\<lambda>cf. if cf = CfWrite
            then [(EncodeKey [1] 20, Some (Write_ToBytes \<lparr>w_StartTS = 10, w_Kind = 1\<rparr>))] else []),
        tx_StartTS = 30\<rparr> [1] 30 = Inr (w, c) \<and> c \<le> 30"
proof -
  let ?kv = "\<lambda>cf. if cf = CfWrite
    then [(EncodeKey [1] 20, Some (Write_ToBytes \<lparr>w_StartTS = 10, w_Kind = 1\<rparr>))] else []"
  have "mvcc_wf ?kv"
    by (auto simp: mvcc_wf_def kv_sorted_def wf_write_entry_def Write_ToBytes_def)
  moreover have "write_at ?kv [1] 20 \<noteq> None" by (simp add: write_at_def cf_get_def)
  ultimately show ?thesis
    using most_recent_write [OF content_reader_snapshot, of ?kv "\<lparr>tx_Reader = content_reader ?kv, tx_StartTS = 30\<rparr>" "[1]" 30]
    by (fastforce simp: mvcc_wf_def split: option.splits)
qed

text \<open>
  C25. \<open>CurrentWrite\<close> always returns on a well-formed content; what it returns is a write record
  of the key made by the transaction, and when it returns nothing there is none at or after the
  transaction's start timestamp.
\<close>

theorem current_write_correct:
  assumes "snapshot_reader rd kv" and "mvcc_wf kv" and "tx_Reader txn = rd"
  shows "\<exists>w c. CurrentWrite txn key = Inr (w, c) \<and>
    (case w of
       None \<Rightarrow> \<forall>c' r. tx_StartTS txn \<le> c' \<and> write_at kv key c' = Some r \<longrightarrow> w_StartTS r \<noteq> tx_StartTS txn
     | Some r \<Rightarrow> write_at kv key c = Some r \<and> w_StartTS r = tx_StartTS txn)"
proof -
  let ?h = "history kv key TsMax" and ?start = "tx_StartTS txn"
  have max: "c \<le> TsMax" for c by (simp add: TsMax_def)
  obtain w c where s: "current_scan ?start ?h = (w, c)" by fastforce
  have "case w of
       None \<Rightarrow> \<forall>c' r. ?start \<le> c' \<and> write_at kv key c' = Some r \<longrightarrow> w_StartTS r \<noteq> ?start
     | Some r \<Rightarrow> write_at kv key c = Some r \<and> w_StartTS r = ?start"
  proof (cases w)
    case None
    with current_scan_None [OF s [unfolded None] history_sorted [OF assms(2)]]
    show ?thesis by (auto simp: history_mem [OF assms(2)] max)
  next
    case (Some r)
    with current_scan_Some [OF s [unfolded Some]] show ?thesis
      by (simp add: history_mem [OF assms(2)])
  qed
  with snapshot_reader.current_write [OF assms, of key] s show ?thesis by auto
qed

theorem current_write_correct_witness:
  "\<exists>w c. CurrentWrite \<lparr>tx_Reader = content_reader (\<lambda>_. []), tx_StartTS = 5\<rparr> [1] = Inr (w, c)"
  using current_write_correct [OF content_reader_snapshot, of "\<lambda>_. []"
      "\<lparr>tx_Reader = content_reader (\<lambda>_. []), tx_StartTS = 5\<rparr>" "[1]"]
  by (auto simp: mvcc_wf_def kv_sorted_def)

text \<open>
  C24. \<open>GetValue\<close> is a snapshot read: it looks at the newest put or delete committed at or before
  the transaction's timestamp (rollback records in between do not count) and returns the value
  written by that put, or nothing after a delete or when there is none.
\<close>

theorem get_value_snapshot:
  assumes "snapshot_reader rd kv" and "mvcc_wf kv" and "tx_Reader txn = rd"
  shows "\<exists>v. GetValue txn key = Inr v \<and>
    (\<forall>c w. c \<le> tx_StartTS txn \<and> write_at kv key c = Some w \<and> decides w
       \<and> (\<forall>c' w'. c < c' \<and> c' \<le> tx_StartTS txn \<and> write_at kv key c' = Some w' \<longrightarrow> \<not> decides w')
       \<longrightarrow> v = (if w_Kind w = WriteKindPut then value_at kv key (w_StartTS w) else None)) \<and>
    ((\<forall>c w. c \<le> tx_StartTS txn \<and> write_at kv key c = Some w \<longrightarrow> \<not> decides w) \<longrightarrow> v = None)"
proof -
  let ?ts = "tx_StartTS txn" let ?h = "history kv key ?ts"
  note mem = history_mem [OF assms(2), of _ _ key ?ts]
  have scan: "value_scan ?h = (if w_Kind w = WriteKindPut then Some w else None)"
    if "c \<le> ?ts" "write_at kv key c = Some w" "decides w"
      "\<forall>c' w'. c < c' \<and> c' \<le> ?ts \<and> write_at kv key c' = Some w' \<longrightarrow> \<not> decides w'" for c w
  proof (rule value_scan_newest [OF history_sorted [OF assms(2)]])
    show "(c, w) \<in> set ?h" "decides w" using that mem by auto
    show "\<forall>(c', w') \<in> set ?h. c < c' \<longrightarrow> \<not> decides w'" using that mem by auto
  qed
  have none: "value_scan ?h = None"
    if "\<forall>c w. c \<le> ?ts \<and> write_at kv key c = Some w \<longrightarrow> \<not> decides w"
    using that mem by (intro value_scan_undecided) auto
  show ?thesis
    using snapshot_reader.get_value [OF assms, of key] scan none by auto
qed

theorem get_value_snapshot_witness:
  "GetValue \<lparr>tx_Reader = content_reader (\<lambda>cf. if cf = CfWrite
       then [(EncodeKey [1] 20, Some (Write_ToBytes \<lparr>w_StartTS = 15, w_Kind = 3\<rparr>)),
             (EncodeKey [1] 10, Some (Write_ToBytes \<lparr>w_StartTS = 5, w_Kind = 1\<rparr>))]
       else if cf = CfDefault then [(EncodeKey [1] 5, Some [42])] else []),
     tx_StartTS = 30\<rparr> [1] = Inr (Some [42])"
proof -
  let ?kv = "\<lambda>cf. if cf = CfWrite
       then [(EncodeKey [1] 20, Some (Write_ToBytes \<lparr>w_StartTS = 15, w_Kind = 3\<rparr>)),
             (EncodeKey [1] 10, Some (Write_ToBytes \<lparr>w_StartTS = 5, w_Kind = 1\<rparr>))]
       else if cf = CfDefault then [(EncodeKey [1] 5, Some [42])] else []"
  have wf: "mvcc_wf ?kv"
    by (auto simp: mvcc_wf_def kv_sorted_def CFs_def wf_write_entry_def Write_ToBytes_def)
  have at: "write_at ?kv [1] c = (if c = 20 then Some \<lparr>w_StartTS = 15, w_Kind = 3\<rparr>
      else if c = 10 then Some \<lparr>w_StartTS = 5, w_Kind = 1\<rparr> else None)" for c
    by (simp add: write_at_def cf_get_def parse_write_ToBytes)
  let ?txn = "\<lparr>tx_Reader = content_reader ?kv, tx_StartTS = 30\<rparr>"
  have snap: "snapshot_reader (content_reader ?kv) ?kv"
    using wf by (intro content_reader_snapshot) (simp add: mvcc_wf_def)
  have newest: "10 \<le> tx_StartTS ?txn \<and> write_at ?kv [1] 10 = Some \<lparr>w_StartTS = 5, w_Kind = 1\<rparr>
      \<and> decides \<lparr>w_StartTS = 5, w_Kind = 1\<rparr>
      \<and> (\<forall>c' w'. 10 < c' \<and> c' \<le> tx_StartTS ?txn \<and> write_at ?kv [1] c' = Some w' \<longrightarrow> \<not> decides w')"
    unfolding at by (simp add: decides_def kind_consts)
  have "tx_Reader ?txn = content_reader ?kv" by simp
  from get_value_snapshot [OF snap wf this, of "[1]"] obtain v where
    v: "GetValue ?txn [1] = Inr v"
    and val: "\<forall>c w. c \<le> tx_StartTS ?txn \<and> write_at ?kv [1] c = Some w \<and> decides w
       \<and> (\<forall>c' w'. c < c' \<and> c' \<le> tx_StartTS ?txn \<and> write_at ?kv [1] c' = Some w' \<longrightarrow> \<not> decides w')
       \<longrightarrow> v = (if w_Kind w = WriteKindPut then value_at ?kv [1] (w_StartTS w) else None)"
    by blast
  have "v = Some [42]"
    using val [THEN spec, THEN spec, THEN mp, OF newest] by (simp add: kind_consts value_at_def cf_get_def)
  with v show ?thesis by simp
qed

end
