(* ===== verification/Latches.thy ===== *)
theory Latches
  imports Engine
begin

text \<open>
  The latches of \<open>kv/transaction/latches/latches.go\<close>, which make commands that write common
  keys run one after the other. Each Go \<open>WaitGroup\<close> is a numbered counter; the map assigns to
  every latched key the wait group of the command that holds it. \<open>AcquireLatches\<close> and
  \<open>ReleaseLatches\<close> run under the mutex and are single steps; \<open>WaitForLatches\<close> is the loop of
  tries and waits of one thread. The threads of a server are a step relation over one latch
  table, and the invariant gives mutual exclusion, panic-freedom of the release and that no
  thread waits without a holder that can wake it.
\<close>

section \<open>The latch table\<close>

record Latches =
  l_latchMap :: "bytes \<rightharpoonup> nat"
  l_count :: "nat \<Rightarrow> int"
  l_next :: nat

definition NewLatches :: Latches where
  "NewLatches = \<lparr>l_latchMap = Map.empty, l_count = (\<lambda>_. 0), l_next = 0\<rparr>"

fun first_latched :: "(bytes \<rightharpoonup> nat) \<Rightarrow> bytes list \<Rightarrow> nat option" where
  "first_latched m [] = None"
| "first_latched m (k # ks) = (case m k of Some wg \<Rightarrow> Some wg | None \<Rightarrow> first_latched m ks)"

fun latch_all :: "nat \<Rightarrow> (bytes \<rightharpoonup> nat) \<Rightarrow> bytes list \<Rightarrow> (bytes \<rightharpoonup> nat)" where
  "latch_all wg m [] = m"
| "latch_all wg m (k # ks) = latch_all wg (m(k \<mapsto> wg)) ks"

definition AcquireLatches :: "Latches \<Rightarrow> bytes list \<Rightarrow> nat option \<times> Latches" where
  "AcquireLatches l keysToLatch =
     (case first_latched (l_latchMap l) keysToLatch of
        Some latchWg \<Rightarrow> (Some latchWg, l)
      | None \<Rightarrow>
          let wg = l_next l
          in (None, \<lparr>l_latchMap = latch_all wg (l_latchMap l) keysToLatch,
                     l_count = (l_count l)(wg := 1),
                     l_next = Suc wg\<rparr>))"

fun Release_loop :: "bool \<Rightarrow> Latches \<Rightarrow> bytes list \<Rightarrow> fault + Latches" where
  "Release_loop first l [] = Inr l"
| "Release_loop first l (k # ks) =
     bindR
       (if first then
          (case l_latchMap l k of
             None \<Rightarrow> Inl (Panic ''nil pointer dereference'')
           | Some wg \<Rightarrow>
               if l_count l wg \<le> 0 then Inl (Panic ''sync: negative WaitGroup counter'')
               else Inr (l\<lparr>l_count := (l_count l)(wg := l_count l wg - 1)\<rparr>))
        else Inr l)
       (\<lambda>l1. Release_loop False (l1\<lparr>l_latchMap := (l_latchMap l1)(k := None)\<rparr>) ks)"

definition ReleaseLatches :: "Latches \<Rightarrow> bytes list \<Rightarrow> fault + Latches" where
  "ReleaseLatches l keysToUnlatch = Release_loop True l keysToUnlatch"

text \<open>
  \<open>WaitForLatches\<close> on its own: with every key free it returns at once; while another command
  holds one of the keys, and no other thread runs, it does not return.
\<close>

definition WaitForLatches :: "Latches \<Rightarrow> bytes list \<Rightarrow> fault + Latches" where
  "WaitForLatches l keysToLatch =
     (case AcquireLatches l keysToLatch of
        (None, l') \<Rightarrow> Inr l'
      | (Some wg, l') \<Rightarrow> Inl Diverges)"

lemma first_latched_None: "first_latched m ks = None \<longleftrightarrow> (\<forall>k \<in> set ks. m k = None)"
  by (induction ks) (auto split: option.splits)

lemma first_latched_Some: "first_latched m ks = Some wg \<Longrightarrow> \<exists>k \<in> set ks. m k = Some wg"
  by (induction ks) (auto split: option.splits)

lemma latch_all_apply: "latch_all wg m ks k = (if k \<in> set ks then Some wg else m k)"
  by (induction ks arbitrary: m) auto

lemma Release_loop_False:
  "Release_loop False l ks
   = Inr (l\<lparr>l_latchMap := (\<lambda>k. if k \<in> set ks then None else l_latchMap l k)\<rparr>)"
  by (induction ks arbitrary: l) (auto simp: fun_eq_iff)

lemma ReleaseLatches_Cons:
  assumes "l_latchMap l k = Some wg" and "l_count l wg = 1"
  shows "ReleaseLatches l (k # ks)
         = Inr \<lparr>l_latchMap = (\<lambda>x. if x \<in> set (k # ks) then None else l_latchMap l x),
                l_count = (l_count l)(wg := 0), l_next = l_next l\<rparr>"
  using assms by (auto simp: ReleaseLatches_def Release_loop_False fun_eq_iff)

section \<open>The threads of a server\<close>

text \<open>
  What one thread running \<open>WaitForLatches\<close>, its command and \<open>ReleaseLatches\<close> is doing:
  about to try, blocked in \<open>Wait\<close> on a wait group, or running its command with the latches.
\<close>

datatype tstate = Idle | Trying "bytes list" | Waiting "bytes list" nat | Holding "bytes list"

record latch_sys =
  ls_latches :: Latches
  ls_thread :: "nat \<Rightarrow> tstate"

definition latch_init :: latch_sys where
  "latch_init = \<lparr>ls_latches = NewLatches, ls_thread = (\<lambda>_. Idle)\<rparr>"

inductive latch_step :: "latch_sys \<Rightarrow> latch_sys \<Rightarrow> bool" where
  command: "ls_thread s i = Idle \<Longrightarrow>
     latch_step s \<lparr>ls_latches = ls_latches s, ls_thread = (ls_thread s)(i := Trying ks)\<rparr>"
| acquired: "ls_thread s i = Trying ks \<Longrightarrow> AcquireLatches (ls_latches s) ks = (None, l') \<Longrightarrow>
     latch_step s \<lparr>ls_latches = l', ls_thread = (ls_thread s)(i := Holding ks)\<rparr>"
| blocked: "ls_thread s i = Trying ks \<Longrightarrow> AcquireLatches (ls_latches s) ks = (Some wg, l') \<Longrightarrow>
     latch_step s \<lparr>ls_latches = l', ls_thread = (ls_thread s)(i := Waiting ks wg)\<rparr>"
| woken: "ls_thread s i = Waiting ks wg \<Longrightarrow> l_count (ls_latches s) wg = 0 \<Longrightarrow>
     latch_step s \<lparr>ls_latches = ls_latches s, ls_thread = (ls_thread s)(i := Trying ks)\<rparr>"
| released: "ls_thread s i = Holding ks \<Longrightarrow> ReleaseLatches (ls_latches s) ks = Inr l' \<Longrightarrow>
     latch_step s \<lparr>ls_latches = l', ls_thread = (ls_thread s)(i := Idle)\<rparr>"

inductive latch_reachable :: "latch_sys \<Rightarrow> bool" where
  init: "latch_reachable latch_init"
| step: "latch_reachable s \<Longrightarrow> latch_step s t \<Longrightarrow> latch_reachable t"

text \<open>
  The invariant: a key is latched exactly by a thread that holds it, all keys of a holder carry
  the holder's own wait group, whose counter is one, and a thread waits on a wait group that is
  either done or still in the table.
\<close>

definition latched_by :: "latch_sys \<Rightarrow> nat \<Rightarrow> nat \<Rightarrow> bool" where
  "latched_by s i wg \<longleftrightarrow>
     (\<exists>k ks. ls_thread s i = Holding ks \<and> k \<in> set ks \<and> l_latchMap (ls_latches s) k = Some wg)"

definition holders_ok :: "latch_sys \<Rightarrow> bool" where
  "holders_ok s \<longleftrightarrow> (\<forall>i ks. ls_thread s i = Holding ks \<longrightarrow>
     (\<exists>wg. \<forall>k \<in> set ks. l_latchMap (ls_latches s) k = Some wg))"

definition latches_owned :: "latch_sys \<Rightarrow> bool" where
  "latches_owned s \<longleftrightarrow> (\<forall>k wg. l_latchMap (ls_latches s) k = Some wg \<longrightarrow>
     l_count (ls_latches s) wg = 1 \<and> wg < l_next (ls_latches s)
     \<and> (\<exists>i ks. ls_thread s i = Holding ks \<and> k \<in> set ks))"

definition holders_apart :: "latch_sys \<Rightarrow> bool" where
  "holders_apart s \<longleftrightarrow> (\<forall>i j wg. latched_by s i wg \<and> latched_by s j wg \<longrightarrow> i = j)"

definition waiters_ok :: "latch_sys \<Rightarrow> bool" where
  "waiters_ok s \<longleftrightarrow> (\<forall>i ks wg. ls_thread s i = Waiting ks wg \<longrightarrow> wg < l_next (ls_latches s)
     \<and> (l_count (ls_latches s) wg = 0 \<or> (\<exists>k. l_latchMap (ls_latches s) k = Some wg)))"

definition latch_inv :: "latch_sys \<Rightarrow> bool" where
  "latch_inv s \<longleftrightarrow> holders_ok s \<and> latches_owned s \<and> holders_apart s \<and> waiters_ok s"

lemmas latch_inv_defs = latch_inv_def holders_ok_def latches_owned_def holders_apart_def
  waiters_ok_def latched_by_def

lemma latch_inv_init: "latch_inv latch_init"
  by (simp add: latch_inv_defs latch_init_def NewLatches_def)

lemma AcquireLatches_None:
  "AcquireLatches l ks = (None, l') \<Longrightarrow>
   (\<forall>k \<in> set ks. l_latchMap l k = None) \<and>
   l' = \<lparr>l_latchMap = (\<lambda>k. if k \<in> set ks then Some (l_next l) else l_latchMap l k),
         l_count = (l_count l)(l_next l := 1), l_next = Suc (l_next l)\<rparr>"
  by (auto simp: AcquireLatches_def Let_def first_latched_None latch_all_apply fun_eq_iff
      split: option.splits)

lemma AcquireLatches_Some:
  "AcquireLatches l ks = (Some wg, l') \<Longrightarrow> l' = l \<and> (\<exists>k \<in> set ks. l_latchMap l k = Some wg)"
  by (auto simp: AcquireLatches_def Let_def split: option.splits dest: first_latched_Some)

text \<open>What a release does in a state of the invariant.\<close>

lemma release_effect:
  assumes inv: "latch_inv s" and hold: "ls_thread s i = Holding ks"
  obtains wg where
    "ReleaseLatches (ls_latches s) ks
     = Inr \<lparr>l_latchMap = (\<lambda>x. if x \<in> set ks then None else l_latchMap (ls_latches s) x),
            l_count = (if ks = [] then l_count (ls_latches s) else (l_count (ls_latches s))(wg := 0)),
            l_next = l_next (ls_latches s)\<rparr>"
    and "\<forall>k \<in> set ks. l_latchMap (ls_latches s) k = Some wg"
proof -
  from inv hold obtain wg where wg: "\<forall>k \<in> set ks. l_latchMap (ls_latches s) k = Some wg"
    unfolding latch_inv_def holders_ok_def by blast
  show ?thesis
  proof (cases ks)
    case Nil
    then show ?thesis using that [of wg] by (simp add: ReleaseLatches_def)
  next
    case (Cons k ks')
    with wg have k: "l_latchMap (ls_latches s) k = Some wg" by simp
    with inv have "l_count (ls_latches s) wg = 1" by (auto simp: latch_inv_def latches_owned_def)
    with ReleaseLatches_Cons [OF k this, of ks'] wg Cons show ?thesis
      by (intro that [of wg]) simp_all
  qed
qed

lemma inv_acquired:
  assumes inv: "latch_inv s" and tr: "ls_thread s i = Trying ks"
    and free: "\<forall>k \<in> set ks. l_latchMap (ls_latches s) k = None"
  defines "n \<equiv> l_next (ls_latches s)"
  shows "latch_inv
     \<lparr>ls_latches = \<lparr>l_latchMap = (\<lambda>k. if k \<in> set ks then Some n else l_latchMap (ls_latches s) k),
        l_count = (l_count (ls_latches s))(n := 1), l_next = Suc n\<rparr>,
      ls_thread = (ls_thread s)(i := Holding ks)\<rparr>" (is "latch_inv ?t")
proof -
  have old: "wg < n" if "l_latchMap (ls_latches s) k = Some wg" for k wg
    using inv that unfolding latch_inv_def latches_owned_def n_def by blast
  have other: "k \<notin> set ks"
    if "ls_thread s j = Holding ks'" "k \<in> set ks'" for j ks' k
    using inv that free by (force simp: latch_inv_def holders_ok_def)
  have "holders_ok ?t"
    using inv other by (auto simp: latch_inv_def holders_ok_def)
  moreover have "latches_owned ?t"
    unfolding latches_owned_def
  proof (intro allI impI)
    fix k wg assume at: "l_latchMap (ls_latches ?t) k = Some wg"
    show "l_count (ls_latches ?t) wg = 1 \<and> wg < l_next (ls_latches ?t)
      \<and> (\<exists>j ks'. ls_thread ?t j = Holding ks' \<and> k \<in> set ks')"
    proof (cases "k \<in> set ks")
      case True
      with at show ?thesis by auto
    next
      case False
      with at have k: "l_latchMap (ls_latches s) k = Some wg" by simp
      with inv obtain j ks' where "l_count (ls_latches s) wg = 1" "ls_thread s j = Holding ks'" "k \<in> set ks'"
        unfolding latch_inv_def latches_owned_def by blast
      moreover from this tr have "j \<noteq> i" by auto
      ultimately show ?thesis using old [OF k] by auto
    qed
  qed
  moreover have "latched_by s j wg \<and> j \<noteq> i \<and> wg \<noteq> n \<or> j = i \<and> wg = n" if "latched_by ?t j wg" for j wg
  proof -
    from that obtain k ks' where k: "ls_thread ?t j = Holding ks'" "k \<in> set ks'"
      "l_latchMap (ls_latches ?t) k = Some wg" unfolding latched_by_def by blast
    show ?thesis
    proof (cases "j = i")
      case True
      with k show ?thesis by simp
    next
      case False
      with k have h: "ls_thread s j = Holding ks'" by simp
      with other k have "l_latchMap (ls_latches s) k = Some wg" by simp
      with False h k(2) old show ?thesis unfolding latched_by_def by blast
    qed
  qed
  then have "holders_apart ?t"
    using inv unfolding latch_inv_def holders_apart_def by blast
  moreover have "waiters_ok ?t"
    unfolding waiters_ok_def
  proof (intro allI impI)
    fix j ws wg assume "ls_thread ?t j = Waiting ws wg"
    then have "ls_thread s j = Waiting ws wg" by (auto split: if_splits)
    with inv have "wg < n" and "l_count (ls_latches s) wg = 0 \<or> (\<exists>k. l_latchMap (ls_latches s) k = Some wg)"
      unfolding latch_inv_def waiters_ok_def n_def by blast+
    moreover have "k \<notin> set ks" if "l_latchMap (ls_latches s) k = Some wg" for k
      using free that by auto
    ultimately show "wg < l_next (ls_latches ?t) \<and>
      (l_count (ls_latches ?t) wg = 0 \<or> (\<exists>k. l_latchMap (ls_latches ?t) k = Some wg))" by auto
  qed
  ultimately show ?thesis by (simp add: latch_inv_def)
qed

text \<open>
  Releasing takes away the keys of one holder and completes its wait group; no other holder
  shares either.
\<close>

lemma holder_alone:
  assumes inv: "latch_inv s" and hold: "ls_thread s i = Holding ks" "ks \<noteq> []"
    and wg: "\<forall>k \<in> set ks. l_latchMap (ls_latches s) k = Some wg"
    and other: "ls_thread s j = Holding ks'" "k \<in> set ks'" "l_latchMap (ls_latches s) k = Some wg"
  shows "j = i"
proof -
  have "latched_by s j wg" using other by (auto simp: latched_by_def)
  moreover obtain k0 where "k0 \<in> set ks" using hold(2) by (cases ks) auto
  then have "latched_by s i wg" using hold(1) wg by (auto simp: latched_by_def)
  ultimately show ?thesis using inv unfolding latch_inv_def holders_apart_def by blast
qed

lemma holder_keys_apart:
  assumes inv: "latch_inv s" and "ls_thread s i = Holding ks" "ls_thread s j = Holding ks'"
    and "k \<in> set ks" "k \<in> set ks'"
  shows "i = j"
proof -
  from inv assms(2) obtain wg where "\<forall>k \<in> set ks. l_latchMap (ls_latches s) k = Some wg"
    unfolding latch_inv_def holders_ok_def by blast
  moreover from this assms(4) have "l_latchMap (ls_latches s) k = Some wg" by blast
  moreover have "ks \<noteq> []" using assms(4) by auto
  ultimately show ?thesis using holder_alone [OF inv assms(2)] assms(3,5) by blast
qed

lemma inv_released:
  assumes inv: "latch_inv s" and hold: "ls_thread s i = Holding ks"
    and rel: "ReleaseLatches (ls_latches s) ks = Inr l'"
  shows "latch_inv \<lparr>ls_latches = l', ls_thread = (ls_thread s)(i := Idle)\<rparr>" (is "latch_inv ?t")
proof -
  obtain wg where eff: "ReleaseLatches (ls_latches s) ks
     = Inr \<lparr>l_latchMap = (\<lambda>x. if x \<in> set ks then None else l_latchMap (ls_latches s) x),
            l_count = (if ks = [] then l_count (ls_latches s) else (l_count (ls_latches s))(wg := 0)),
            l_next = l_next (ls_latches s)\<rparr>"
    and wg: "\<forall>k \<in> set ks. l_latchMap (ls_latches s) k = Some wg"
    by (rule release_effect [OF inv hold])
  note l' = eff [unfolded rel, THEN sum.inject(2) [THEN iffD1]]
  have keep: "k \<notin> set ks" if "ls_thread s j = Holding ks'" "k \<in> set ks'" "j \<noteq> i" for j ks' k
    using holder_keys_apart [OF inv hold that(1) _ that(2)] that(3) by blast
  have "\<forall>j ks'. ls_thread s j = Holding ks' \<longrightarrow>
          (\<exists>wg. \<forall>k \<in> set ks'. l_latchMap (ls_latches s) k = Some wg)"
    using inv unfolding latch_inv_def holders_ok_def by blast
  then have "holders_ok ?t" using keep unfolding l' holders_ok_def by (auto split: if_splits)
  moreover have "latches_owned ?t"
    unfolding latches_owned_def
  proof (intro allI impI)
    fix k w assume "l_latchMap (ls_latches ?t) k = Some w"
    then have k: "l_latchMap (ls_latches s) k = Some w" "k \<notin> set ks"
      by (auto simp: l' split: if_splits)
    with inv obtain j ks' where j: "l_count (ls_latches s) w = 1" "w < l_next (ls_latches s)"
      "ls_thread s j = Holding ks'" "k \<in> set ks'"
      unfolding latch_inv_def latches_owned_def by blast
    have "j \<noteq> i" using j hold k(2) by auto
    with holder_alone [OF inv hold _ wg j(3,4)] k(1) j show "l_count (ls_latches ?t) w = 1
      \<and> w < l_next (ls_latches ?t) \<and> (\<exists>j ks'. ls_thread ?t j = Holding ks' \<and> k \<in> set ks')"
      by (auto simp: l')
  qed
  moreover have "latched_by s j w" if "latched_by ?t j w" for j w
    using that unfolding l' latched_by_def by (auto split: if_splits)
  then have "holders_apart ?t" using inv unfolding latch_inv_def holders_apart_def by blast
  moreover have "waiters_ok ?t"
    unfolding waiters_ok_def
  proof (intro allI impI)
    fix j ws w assume "ls_thread ?t j = Waiting ws w"
    then have "ls_thread s j = Waiting ws w" by (auto split: if_splits)
    with inv have w: "w < l_next (ls_latches s)"
      "l_count (ls_latches s) w = 0 \<or> (\<exists>k. l_latchMap (ls_latches s) k = Some w)"
      unfolding latch_inv_def waiters_ok_def by blast+
    have "w = wg \<and> ks \<noteq> []" if "l_latchMap (ls_latches s) k = Some w" "k \<in> set ks" for k
      using wg that by auto
    with w show "w < l_next (ls_latches ?t) \<and>
      (l_count (ls_latches ?t) w = 0 \<or> (\<exists>k. l_latchMap (ls_latches ?t) k = Some w))"
      by (auto simp: l')
  qed
  ultimately show ?thesis by (simp add: latch_inv_def)
qed

lemma inv_thread:
  assumes "latch_inv s" and "\<forall>ks. ls_thread s i \<noteq> Holding ks" and "\<forall>ks. ts \<noteq> Holding ks"
    and "\<forall>ks wg. ts = Waiting ks wg \<longrightarrow> (\<exists>k. l_latchMap (ls_latches s) k = Some wg)"
  shows "latch_inv \<lparr>ls_latches = ls_latches s, ls_thread = (ls_thread s)(i := ts)\<rparr>"
  using assms unfolding latch_inv_defs by (auto split: if_splits) (metis+)

lemma latch_step_inv: "latch_step s t \<Longrightarrow> latch_inv s \<Longrightarrow> latch_inv t"
proof (induction rule: latch_step.induct)
  case (command s i ks)
  then show ?case using inv_thread [of s i "Trying ks"] by simp
next
  case (acquired s i ks l')
  with AcquireLatches_None [OF acquired(2)] show ?case by (simp add: inv_acquired)
next
  case (blocked s i ks wg l')
  from AcquireLatches_Some [OF blocked(2)] blocked show ?case
    using inv_thread [of s i "Waiting ks wg"] by auto
next
  case (woken s i ks wg)
  then show ?case using inv_thread [of s i "Trying ks"] by simp
next
  case (released s i ks l')
  then show ?case by (simp add: inv_released)
qed

lemma latch_reachable_inv: "latch_reachable s \<Longrightarrow> latch_inv s"
  by (induction rule: latch_reachable.induct) (simp_all add: latch_inv_init latch_step_inv)

section \<open>Properties\<close>

text \<open>
  C20. Latches exclude: in every state the threads of a server can reach, two threads that run
  their commands at the same time share no key.
\<close>

theorem latch_mutual_exclusion:
  assumes "latch_reachable s" and "ls_thread s i = Holding ks" and "ls_thread s j = Holding ks'"
    and "i \<noteq> j"
  shows "set ks \<inter> set ks' = {}"
  using holder_keys_apart [OF latch_reachable_inv [OF assms(1)] assms(2,3)] assms(4) by blast

text \<open>
  Releasing never panics and frees exactly the thread's keys: whatever the interleaving, the
  wait group a holder finishes has not been finished before.
\<close>

theorem latch_release_safe:
  assumes "latch_reachable s" and "ls_thread s i = Holding ks"
  shows "\<exists>l'. ReleaseLatches (ls_latches s) ks = Inr l'
    \<and> (\<forall>k. l_latchMap l' k = (if k \<in> set ks then None else l_latchMap (ls_latches s) k))"
  by (rule release_effect [OF latch_reachable_inv [OF assms(1)] assms(2)]) auto

text \<open>
  C26. No lost wake-up: a thread blocked on a wait group either can go on, or another thread holds
  the latches of that wait group and its release will let the blocked thread go on.
\<close>

theorem latch_no_lost_wakeup:
  assumes "latch_reachable s" and "ls_thread s i = Waiting ks wg"
  shows "l_count (ls_latches s) wg = 0 \<or>
    (\<exists>j ks' l'. j \<noteq> i \<and> ls_thread s j = Holding ks' \<and> ReleaseLatches (ls_latches s) ks' = Inr l'
       \<and> l_count l' wg = 0)"
proof (rule ccontr)
  assume blocked: "\<not> ?thesis"
  have inv: "latch_inv s" by (rule latch_reachable_inv [OF assms(1)])
  with assms(2) blocked obtain k where k: "l_latchMap (ls_latches s) k = Some wg"
    unfolding latch_inv_def waiters_ok_def by blast
  with inv obtain j ks' where j: "ls_thread s j = Holding ks'" "k \<in> set ks'"
    unfolding latch_inv_def latches_owned_def by blast
  obtain wg' where rel: "ReleaseLatches (ls_latches s) ks'
     = Inr \<lparr>l_latchMap = (\<lambda>x. if x \<in> set ks' then None else l_latchMap (ls_latches s) x),
            l_count = (if ks' = [] then l_count (ls_latches s) else (l_count (ls_latches s))(wg' := 0)),
            l_next = l_next (ls_latches s)\<rparr>"
    and "\<forall>k \<in> set ks'. l_latchMap (ls_latches s) k = Some wg'"
    by (rule release_effect [OF inv j(1)])
  then have "wg' = wg" using j(2) k by auto
  moreover have "j \<noteq> i" using j(1) assms(2) by auto
  moreover have "ks' \<noteq> []" using j(2) by auto
  ultimately show False using blocked j rel by fastforce
qed

text \<open>Two threads: the first holds \<open>[1]\<close> and \<open>[2]\<close>, the second waits for \<open>[2]\<close>, a third holds \<open>[3]\<close>.\<close>

definition latch_demo :: latch_sys where
  "latch_demo =
     \<lparr>ls_latches = \<lparr>l_latchMap = [[1] \<mapsto> 0, [2] \<mapsto> 0, [3] \<mapsto> 1], l_count = (\<lambda>_. 0)(0 := 1, 1 := 1),
                    l_next = 2\<rparr>,
      ls_thread = (\<lambda>_. Idle)(0 := Holding [[1], [2]], 1 := Waiting [[2]] 0, 2 := Holding [[3]])\<rparr>"

lemma latch_demo_reachable: "latch_reachable latch_demo"
proof -
  let ?l1 = "\<lparr>l_latchMap = [[1] \<mapsto> 0, [2] \<mapsto> 0], l_count = (\<lambda>_. 0)(0 := 1), l_next = Suc 0\<rparr> :: Latches"
  let ?th = "(\<lambda>_. Idle)(0 := Holding [[1], [2]])"
  have "latch_reachable \<lparr>ls_latches = NewLatches, ls_thread = (\<lambda>_. Idle)(0 := Trying [[1], [2]])\<rparr>"
    using latch_reachable.step [OF latch_reachable.init latch_step.command [of latch_init 0 "[[1], [2]]"]]
    by (simp add: latch_init_def)
  from latch_reachable.step [OF this latch_step.acquired [of _ 0 "[[1], [2]]" ?l1]]
  have "latch_reachable \<lparr>ls_latches = ?l1, ls_thread = ?th\<rparr>"
    by (simp add: AcquireLatches_def NewLatches_def fun_upd_twist)
  from latch_reachable.step [OF this latch_step.command [of _ 1 "[[2]]"]]
  have "latch_reachable \<lparr>ls_latches = ?l1, ls_thread = ?th(1 := Trying [[2]])\<rparr>" by simp
  from latch_reachable.step [OF this latch_step.blocked [of _ 1 "[[2]]" 0 ?l1]]
  have "latch_reachable \<lparr>ls_latches = ?l1, ls_thread = ?th(1 := Waiting [[2]] 0)\<rparr>"
    by (simp add: AcquireLatches_def)
  from latch_reachable.step [OF this latch_step.command [of _ 2 "[[3]]"]]
  have "latch_reachable \<lparr>ls_latches = ?l1, ls_thread = ?th(1 := Waiting [[2]] 0, 2 := Trying [[3]])\<rparr>"
    by simp
  from latch_reachable.step [OF this latch_step.acquired [of _ 2 "[[3]]" "ls_latches latch_demo"]]
  show ?thesis by (simp add: AcquireLatches_def latch_demo_def fun_upd_def numeral_2_eq_2 cong: if_cong)
qed

theorem latch_mutual_exclusion_witness: "set [[1], [2]] \<inter> set [[3 :: byte]] = {}"
  by (rule latch_mutual_exclusion [OF latch_demo_reachable, of 0 _ 2]) (simp_all add: latch_demo_def)

theorem latch_release_safe_witness: "\<exists>l'. ReleaseLatches (ls_latches latch_demo) [[1], [2]] = Inr l'"
  using latch_release_safe [OF latch_demo_reachable, of 0 "[[1], [2]]"] by (auto simp: latch_demo_def)

theorem latch_no_lost_wakeup_witness:
  "\<exists>ks l'. ReleaseLatches (ls_latches latch_demo) ks = Inr l' \<and> l_count l' 0 = 0"
  using latch_no_lost_wakeup [OF latch_demo_reachable, of 1 "[[2]]" 0] by (auto simp: latch_demo_def)

end
