(* ===== verification/Commands.thy ===== *)
theory Commands
  imports Mvcc Latches
begin

text \<open>
  The transactional commands, \<open>kv/transaction/commands\<close>: prewrite, commit, rollback,
  check-transaction-status and resolve-lock build modifications in an MVCC transaction; get and
  scan only read. \<open>RunCommand\<close> composes a command with the storage engine and the latches.
  A request field that is a repeated protobuf field is a list; an empty one arrives as \<open>nil\<close>,
  which \<open>WillWrite\<close> turns into \<open>None\<close> where the code hands the field out as it is.
\<close>

section \<open>Requests and responses\<close>

record Mutation =
  mut_Op :: int
  mut_Key :: bytes
  mut_Value :: goslice

record PrewriteRequest =
  pw_Mutations :: "Mutation list"
  pw_PrimaryLock :: bytes
  pw_StartVersion :: u64
  pw_LockTtl :: u64

record CommitRequest =
  cm_StartVersion :: u64
  cm_Keys :: "bytes list"
  cm_CommitVersion :: u64

record BatchRollbackRequest =
  rb_StartVersion :: u64
  rb_Keys :: "bytes list"

record CheckTxnStatusRequest =
  ct_PrimaryKey :: bytes
  ct_LockTs :: u64
  ct_CurrentTs :: u64

record ResolveLockRequest =
  rl_StartVersion :: u64
  rl_CommitVersion :: u64

record GetRequest =
  gt_Key :: bytes
  gt_Version :: u64

record ScanRequest =
  sc_StartKey :: bytes
  sc_Limit :: nat
  sc_Version :: u64

datatype Action = NoAction | TTLExpireRollback | LockNotExistRollback

record GetResponse =
  gr_Error :: "KeyError option"
  gr_Value :: goslice
  gr_NotFound :: bool

record CheckTxnStatusResponse =
  cr_LockTtl :: u64
  cr_CommitVersion :: u64
  cr_Action :: Action

record KvPair =
  kp_Error :: "KeyError option"
  kp_Key :: goslice
  kp_Value :: goslice

datatype response =
    PrewriteResponse "KeyError list"
  | CommitResponse "KeyError option"
  | BatchRollbackResponse "KeyError option"
  | CheckTxnResponse CheckTxnStatusResponse
  | ResolveLockResponse "KeyError option"
  | RespGet GetResponse
  | ScanResponse "KvPair list"

section \<open>Prewrite\<close>

definition prewriteMutation ::
    "PrewriteRequest \<Rightarrow> MvccTxn \<Rightarrow> Mutation \<Rightarrow> fault + (KeyError option \<times> MvccTxn)" where
  "prewriteMutation req txn mut =
     (let key = mut_Key mut in
      bindR (MostRecentWrite txn key) (\<lambda>(write, commitTs).
      if write \<noteq> None \<and> commitTs \<ge> tx_StartTS txn
      then Inr (Some (no_KeyError\<lparr>ke_Conflict := Some
                  \<lparr>wc_StartTs = tx_StartTS txn, wc_ConflictTs = commitTs, wc_Key = key,
                   wc_Primary = pw_PrimaryLock req\<rparr>\<rparr>), txn)
      else bindR (GetLock txn key) (\<lambda>keyLock.
        case (case keyLock of None \<Rightarrow> None
                            | Some l \<Rightarrow> if lk_Ts l \<noteq> tx_StartTS txn then Some l else None) of
          Some l \<Rightarrow>
            Inr (Some (no_KeyError\<lparr>ke_Locked := Some (Lock_Info l key),
                        ke_Conflict := Some
                          \<lparr>wc_StartTs = tx_StartTS txn, wc_ConflictTs = lk_Ts l, wc_Key = key,
                           wc_Primary = pw_PrimaryLock req\<rparr>\<rparr>), txn)
        | None \<Rightarrow>
            let newLock = \<lparr>lk_Primary = pw_PrimaryLock req, lk_Ts = tx_StartTS txn,
                           lk_Ttl = pw_LockTtl req, lk_Kind = mut_Op mut + 1\<rparr>;
                txn1 = PutLock txn key newLock;
                txn2 = (if mut_Op mut = Op_Put then PutValue txn1 key (mut_Value mut)
                        else if mut_Op mut = Op_Del then DeleteValue txn1 key
                        else txn1)
            in Inr (None, txn2))))"

fun Prewrite_loop ::
    "PrewriteRequest \<Rightarrow> Mutation list \<Rightarrow> KeyError list \<Rightarrow> MvccTxn \<Rightarrow> fault + (KeyError list \<times> MvccTxn)" where
  "Prewrite_loop req [] errs txn = Inr (errs, txn)"
| "Prewrite_loop req (m # ms) errs txn =
     bindR (prewriteMutation req txn m) (\<lambda>(keyError, txn1).
       Prewrite_loop req ms (case keyError of None \<Rightarrow> errs | Some e \<Rightarrow> errs @ [e]) txn1)"

definition Prewrite_PrepareWrites ::
    "PrewriteRequest \<Rightarrow> MvccTxn \<Rightarrow> fault + (response \<times> MvccTxn)" where
  "Prewrite_PrepareWrites req txn =
     bindR (Prewrite_loop req (pw_Mutations req) [] txn) (\<lambda>(errs, txn1).
       Inr (PrewriteResponse errs, txn1))"

definition Prewrite_WillWrite :: "PrewriteRequest \<Rightarrow> bytes list option" where
  "Prewrite_WillWrite req = Some (map mut_Key (pw_Mutations req))"

section \<open>Commit\<close>

text \<open>\<open>commitKey\<close> returns the response, with its error set, when the key cannot be committed.\<close>

definition commitKey ::
    "bytes \<Rightarrow> u64 \<Rightarrow> MvccTxn \<Rightarrow> fault + (KeyError option \<times> MvccTxn)" where
  "commitKey key commitTs txn =
     bindR (GetLock txn key) (\<lambda>lock.
       case (case lock of None \<Rightarrow> None
                        | Some l \<Rightarrow> if lk_Ts l \<noteq> tx_StartTS txn then None else Some l) of
         None \<Rightarrow>
           bindR (CurrentWrite txn key) (\<lambda>(currentWrite, _).
             case currentWrite of
               None \<Rightarrow> Inr (Some (no_KeyError\<lparr>ke_Retryable := Some (LockNotFound key)\<rparr>), txn)
             | Some w \<Rightarrow>
                 if w_Kind w = WriteKindRollback
                 then Inr (Some (no_KeyError\<lparr>ke_Retryable := Some (LockNotFound key)\<rparr>), txn)
                 else Inr (None, txn))
       | Some l \<Rightarrow>
           let write = \<lparr>w_StartTS = tx_StartTS txn, w_Kind = lk_Kind l\<rparr>
           in Inr (None, DeleteLock (PutWrite txn key commitTs write) key))"

fun Commit_loop :: "bytes list \<Rightarrow> u64 \<Rightarrow> MvccTxn \<Rightarrow> fault + (KeyError option \<times> MvccTxn)" where
  "Commit_loop [] commitTs txn = Inr (None, txn)"
| "Commit_loop (k # ks) commitTs txn =
     bindR (commitKey k commitTs txn) (\<lambda>(resp, txn1).
       case resp of Some e \<Rightarrow> Inr (Some e, txn1) | None \<Rightarrow> Commit_loop ks commitTs txn1)"

definition Commit_PrepareWrites :: "CommitRequest \<Rightarrow> MvccTxn \<Rightarrow> fault + (response \<times> MvccTxn)" where
  "Commit_PrepareWrites req txn =
     (let commitTs = cm_CommitVersion req in
      if commitTs \<le> tx_StartTS txn then Inl (Error ErrCommitTs)
      else bindR (Commit_loop (cm_Keys req) commitTs txn) (\<lambda>(err, txn1).
             Inr (CommitResponse err, txn1)))"

definition nil_keys :: "bytes list \<Rightarrow> bytes list option" where
  "nil_keys ks = (if ks = [] then None else Some ks)"

definition Commit_WillWrite :: "CommitRequest \<Rightarrow> bytes list option" where
  "Commit_WillWrite req = nil_keys (cm_Keys req)"

section \<open>Rollback\<close>

definition rollbackKey :: "bytes \<Rightarrow> MvccTxn \<Rightarrow> fault + (KeyError option \<times> MvccTxn)" where
  "rollbackKey key txn =
     bindR (GetLock txn key) (\<lambda>lock.
       let rollback = \<lparr>w_StartTS = tx_StartTS txn, w_Kind = WriteKindRollback\<rparr> in
       case (case lock of None \<Rightarrow> None
                        | Some l \<Rightarrow> if lk_Ts l \<noteq> tx_StartTS txn then None else Some l) of
         None \<Rightarrow>
           bindR (CurrentWrite txn key) (\<lambda>(existingWrite, ts).
             case existingWrite of
               None \<Rightarrow> Inr (None, PutWrite txn key (tx_StartTS txn) rollback)
             | Some w \<Rightarrow>
                 if w_Kind w = WriteKindRollback then Inr (None, txn)
                 else Inr (Some (no_KeyError\<lparr>ke_Abort := Some (AlreadyCommitted key ts)\<rparr>), txn))
       | Some l \<Rightarrow>
           let txn1 = (if lk_Kind l = WriteKindPut then DeleteValue txn key else txn)
           in Inr (None, DeleteLock (PutWrite txn1 key (tx_StartTS txn) rollback) key))"

fun Rollback_loop :: "bytes list \<Rightarrow> MvccTxn \<Rightarrow> fault + (KeyError option \<times> MvccTxn)" where
  "Rollback_loop [] txn = Inr (None, txn)"
| "Rollback_loop (k # ks) txn =
     bindR (rollbackKey k txn) (\<lambda>(resp, txn1).
       case resp of Some e \<Rightarrow> Inr (Some e, txn1) | None \<Rightarrow> Rollback_loop ks txn1)"

definition Rollback_PrepareWrites ::
    "BatchRollbackRequest \<Rightarrow> MvccTxn \<Rightarrow> fault + (response \<times> MvccTxn)" where
  "Rollback_PrepareWrites req txn =
     bindR (Rollback_loop (rb_Keys req) txn) (\<lambda>(err, txn1). Inr (BatchRollbackResponse err, txn1))"

definition Rollback_WillWrite :: "BatchRollbackRequest \<Rightarrow> bytes list option" where
  "Rollback_WillWrite req = nil_keys (rb_Keys req)"

section \<open>Check transaction status\<close>

text \<open>\<open>tsoutil.PhysicalShiftBits\<close> is 18: a timestamp is physical milliseconds and a counter.\<close>

definition physical :: "u64 \<Rightarrow> u64" where
  "physical ts = drop_bit 18 ts"

definition CheckTxnStatus_PrepareWrites ::
    "CheckTxnStatusRequest \<Rightarrow> MvccTxn \<Rightarrow> fault + (response \<times> MvccTxn)" where
  "CheckTxnStatus_PrepareWrites req txn =
     (let key = ct_PrimaryKey req;
          response = \<lparr>cr_LockTtl = 0, cr_CommitVersion = 0, cr_Action = NoAction\<rparr> in
      bindR (GetLock txn key) (\<lambda>lock.
        case (case lock of None \<Rightarrow> None
                         | Some l \<Rightarrow> if lk_Ts l = tx_StartTS txn then Some l else None) of
          Some l \<Rightarrow>
            if physical (lk_Ts l) + lk_Ttl l < physical (ct_CurrentTs req)
            then let txn1 = PutWrite txn key (lk_Ts l)
                              \<lparr>w_StartTS = lk_Ts l, w_Kind = WriteKindRollback\<rparr>;
                     txn2 = (if lk_Kind l = WriteKindPut then DeleteValue txn1 key else txn1)
                 in Inr (CheckTxnResponse (response\<lparr>cr_Action := TTLExpireRollback\<rparr>),
                         DeleteLock txn2 key)
            else Inr (CheckTxnResponse (response\<lparr>cr_Action := NoAction, cr_LockTtl := lk_Ttl l\<rparr>), txn)
        | None \<Rightarrow>
            bindR (CurrentWrite txn key) (\<lambda>(existingWrite, commitTs).
              case existingWrite of
                None \<Rightarrow>
                  let txn1 = PutWrite txn key (tx_StartTS txn)
                               \<lparr>w_StartTS = tx_StartTS txn, w_Kind = WriteKindRollback\<rparr>
                  in Inr (CheckTxnResponse (response\<lparr>cr_Action := LockNotExistRollback\<rparr>),
                          DeleteLock txn1 key)
              | Some w \<Rightarrow>
                  if w_Kind w = WriteKindRollback
                  then Inr (CheckTxnResponse (response\<lparr>cr_Action := NoAction\<rparr>), txn)
                  else Inr (CheckTxnResponse
                         (response\<lparr>cr_CommitVersion := commitTs, cr_Action := NoAction\<rparr>), txn))))"

definition CheckTxnStatus_WillWrite :: "CheckTxnStatusRequest \<Rightarrow> bytes list option" where
  "CheckTxnStatus_WillWrite req = Some [ct_PrimaryKey req]"

section \<open>Resolve lock\<close>

text \<open>
  The results of \<open>commitKey\<close> and \<open>rollbackKey\<close> are dropped, but the error they store in the
  response stays: the last one set is the one returned.
\<close>

fun ResolveLock_loop ::
    "ResolveLockRequest \<Rightarrow> (bytes \<times> Lock) list \<Rightarrow> KeyError option \<Rightarrow> MvccTxn
     \<Rightarrow> fault + (KeyError option \<times> MvccTxn)" where
  "ResolveLock_loop req [] err txn = Inr (err, txn)"
| "ResolveLock_loop req ((k, l) # kls) err txn =
     bindR
       (if lk_Ts l \<le> rl_CommitVersion req \<and> rl_StartVersion req \<le> lk_Ts l
        then commitKey k (rl_CommitVersion req) txn
        else rollbackKey k txn)
       (\<lambda>(resp, txn1).
         ResolveLock_loop req kls (case resp of Some e \<Rightarrow> Some e | None \<Rightarrow> err) txn1)"

definition ResolveLock_PrepareWrites ::
    "ResolveLockRequest \<Rightarrow> (bytes \<times> Lock) list \<Rightarrow> MvccTxn \<Rightarrow> fault + (response \<times> MvccTxn)" where
  "ResolveLock_PrepareWrites req keyLocks txn =
     bindR (ResolveLock_loop req keyLocks None txn) (\<lambda>(err, txn1).
       Inr (ResolveLockResponse err, txn1))"

definition ResolveLock_Read ::
    "ResolveLockRequest \<Rightarrow> RoTxn \<Rightarrow> fault + ((bytes \<times> Lock) list \<times> bytes list)" where
  "ResolveLock_Read req txn =
     bindR (AllLocksForTxn (txn\<lparr>tx_StartTS := rl_StartVersion req\<rparr>)) (\<lambda>keyLocks.
       Inr (keyLocks, map fst keyLocks))"

section \<open>Get and scan\<close>

definition Get_Read :: "GetRequest \<Rightarrow> RoTxn \<Rightarrow> fault + response" where
  "Get_Read req txn =
     (let key = gt_Key req;
          response = \<lparr>gr_Error = None, gr_Value = None, gr_NotFound = False\<rparr> in
      bindR (GetLock txn key) (\<lambda>lock.
      case (case lock of None \<Rightarrow> None | Some l \<Rightarrow> IsLockedFor (Some l) key (gt_Version req)) of
        Some e \<Rightarrow>
          Inr (RespGet (response\<lparr>gr_Error := Some (e\<lparr>ke_Locked := map_option (\<lambda>l. Lock_Info l key) lock\<rparr>)\<rparr>))
      | None \<Rightarrow>
          bindR (GetValue txn key) (\<lambda>value.
            Inr (RespGet (if value = None then response\<lparr>gr_NotFound := True\<rparr>
                          else response\<lparr>gr_Value := value\<rparr>)))))"

text \<open>
  Every call of \<open>Scanner.Next\<close> gets the fuel \<open>n\<close>. The limit of a scan is a 32-bit count.
\<close>

fun Scan_loop :: "nat \<Rightarrow> nat \<Rightarrow> RoTxn \<Rightarrow> iterator \<Rightarrow> KvPair list \<Rightarrow> fault + KvPair list" where
  "Scan_loop n 0 txn iter pairs = Inr pairs"
| "Scan_loop n (Suc limit) txn iter pairs =
     bindR (Scanner_Next n txn iter) (\<lambda>(result, iter1).
       case result of
         ScanKeyError e \<Rightarrow>
           Scan_loop n limit txn iter1
             (pairs @ [\<lparr>kp_Error = Some e, kp_Key = None, kp_Value = None\<rparr>])
       | ScanEnd \<Rightarrow> Inr pairs
       | ScanPair k v \<Rightarrow>
           Scan_loop n limit txn iter1
             (pairs @ [\<lparr>kp_Error = None, kp_Key = Some k, kp_Value = v\<rparr>]))"

definition Scan_Read :: "nat \<Rightarrow> ScanRequest \<Rightarrow> RoTxn \<Rightarrow> fault + response" where
  "Scan_Read n req txn =
     bindR (Scan_loop n (sc_Limit req) txn (NewScanner (sc_StartKey req) txn) []) (\<lambda>pairs.
       Inr (ScanResponse pairs))"

section \<open>Running a command\<close>

text \<open>
  The \<open>Command\<close> interface: a constructor per command, the methods by case. \<open>CmdResolveLock\<close>
  carries the key/lock pairs its \<open>Read\<close> collects; \<open>CmdScan\<close> carries the fuel of the scanner.
\<close>

datatype command =
    CmdGet GetRequest
  | CmdScan nat ScanRequest
  | CmdPrewrite PrewriteRequest
  | CmdCommit CommitRequest
  | CmdRollback BatchRollbackRequest
  | CmdCheckTxnStatus CheckTxnStatusRequest
  | CmdResolveLock ResolveLockRequest "(bytes \<times> Lock) list"

fun cmd_StartTs :: "command \<Rightarrow> u64" where
  "cmd_StartTs (CmdGet r) = gt_Version r"
| "cmd_StartTs (CmdScan n r) = sc_Version r"
| "cmd_StartTs (CmdPrewrite r) = pw_StartVersion r"
| "cmd_StartTs (CmdCommit r) = cm_StartVersion r"
| "cmd_StartTs (CmdRollback r) = rb_StartVersion r"
| "cmd_StartTs (CmdCheckTxnStatus r) = ct_LockTs r"
| "cmd_StartTs (CmdResolveLock r kls) = rl_StartVersion r"

fun cmd_WillWrite :: "command \<Rightarrow> bytes list option" where
  "cmd_WillWrite (CmdPrewrite r) = Prewrite_WillWrite r"
| "cmd_WillWrite (CmdCommit r) = Commit_WillWrite r"
| "cmd_WillWrite (CmdRollback r) = Rollback_WillWrite r"
| "cmd_WillWrite (CmdCheckTxnStatus r) = CheckTxnStatus_WillWrite r"
| "cmd_WillWrite (CmdResolveLock r kls) = None"
| "cmd_WillWrite (CmdGet r) = None"
| "cmd_WillWrite (CmdScan n r) = None"

fun cmd_Read :: "command \<Rightarrow> RoTxn \<Rightarrow> fault + (command \<times> response option \<times> bytes list option)" where
  "cmd_Read (CmdGet r) txn =
     bindR (Get_Read r txn) (\<lambda>resp. Inr (CmdGet r, Some resp, None))"
| "cmd_Read (CmdScan n r) txn =
     bindR (Scan_Read n r txn) (\<lambda>resp. Inr (CmdScan n r, Some resp, None))"
| "cmd_Read (CmdResolveLock r kls) txn =
     bindR (ResolveLock_Read r txn) (\<lambda>(keyLocks, keys).
       Inr (CmdResolveLock r keyLocks, None, Some keys))"
| "cmd_Read cmd txn = Inr (cmd, None, None)"

fun cmd_PrepareWrites :: "command \<Rightarrow> MvccTxn \<Rightarrow> fault + (response option \<times> MvccTxn)" where
  "cmd_PrepareWrites (CmdPrewrite r) txn =
     bindR (Prewrite_PrepareWrites r txn) (\<lambda>(resp, txn1). Inr (Some resp, txn1))"
| "cmd_PrepareWrites (CmdCommit r) txn =
     bindR (Commit_PrepareWrites r txn) (\<lambda>(resp, txn1). Inr (Some resp, txn1))"
| "cmd_PrepareWrites (CmdRollback r) txn =
     bindR (Rollback_PrepareWrites r txn) (\<lambda>(resp, txn1). Inr (Some resp, txn1))"
| "cmd_PrepareWrites (CmdCheckTxnStatus r) txn =
     bindR (CheckTxnStatus_PrepareWrites r txn) (\<lambda>(resp, txn1). Inr (Some resp, txn1))"
| "cmd_PrepareWrites (CmdResolveLock r kls) txn =
     bindR (ResolveLock_PrepareWrites r kls txn) (\<lambda>(resp, txn1). Inr (Some resp, txn1))"
| "cmd_PrepareWrites cmd txn = Inr (None, txn)"

text \<open>
  The part of \<open>RunCommand\<close> that runs with the latches held: read, build the writes, store them.
\<close>

definition run_writes ::
    "('s, 'c) storage_api \<Rightarrow> 'c \<Rightarrow> command \<Rightarrow> 's \<Rightarrow> fault + (response option \<times> 's)" where
  "run_writes ops ctx cmd s =
     bindR (liftE (st_Reader ops s ctx)) (\<lambda>rd.
     bindR (cmd_PrepareWrites cmd (NewTxn rd (cmd_StartTs cmd))) (\<lambda>(resp, txn).
     bindR (liftE (st_Write ops s ctx (tx_writes txn))) (\<lambda>s'. Inr (resp, s'))))"

text \<open>
  \<open>RunCommand\<close> returns the response or the error, the storage and the latches, which the
  deferred \<open>ReleaseLatches\<close> gives back on every path.
\<close>

definition RunCommand ::
    "('s, 'c) storage_api \<Rightarrow> 'c \<Rightarrow> command \<Rightarrow> 's \<Rightarrow> Latches
     \<Rightarrow> fault + ((fault + response option) \<times> 's \<times> Latches)" where
  "RunCommand ops ctx cmd s l =
     (let willWrite = cmd_WillWrite cmd;
          first = (if willWrite \<noteq> None then Inr (cmd, None, willWrite)
                   else bindR (liftE (st_Reader ops s ctx)) (\<lambda>rd.
                          cmd_Read cmd \<lparr>tx_Reader = rd, tx_StartTS = cmd_StartTs cmd\<rparr>))
      in case first of
           Inl e \<Rightarrow> Inr (Inl e, s, l)
         | Inr (cmd1, resp, None) \<Rightarrow> Inr (Inr resp, s, l)
         | Inr (cmd1, resp, Some keysToWrite) \<Rightarrow>
             bindR (WaitForLatches l keysToWrite) (\<lambda>l1.
             bindR (ReleaseLatches l1 keysToWrite) (\<lambda>l2.
               case run_writes ops ctx cmd1 s of
                 Inl e \<Rightarrow> Inr (Inl e, s, l2)
               | Inr (resp1, s1) \<Rightarrow> Inr (Inr resp1, s1, l2))))"

end
