(* ===== verification/Percolator.thy ===== *)
theory Percolator
  imports Mvcc_Spec Commands
begin

text \<open>
  The abstract protocol: what the commands promise about one key. The view of a key is its
  lock, its write records (newest first) and its values by start timestamp; every command acts
  on a view through one of the steps below. The invariant \<open>kview_ok\<close> holds the guarantees of
  the protocol: records are immutable, a transaction leaves at most one record on a key, and
  of two committed transactions on a key the later one started after the earlier one
  committed. The theory \<open>Txn_Refine\<close> shows that the commands implement the steps.
\<close>

section \<open>Views and steps\<close>

type_synonym hist = "(u64 \<times> Write) list"

record kview =
  v_lock :: "Lock option"
  v_hist :: hist
  v_value :: "u64 \<Rightarrow> goslice"

fun hist_put :: "u64 \<Rightarrow> Write \<Rightarrow> hist \<Rightarrow> hist" where
  "hist_put c w [] = [(c, w)]"
| "hist_put c w ((d, u) # h) =
     (if d < c then (c, w) # (d, u) # h
      else if d = c then (c, w) # h
      else (d, u) # hist_put c w h)"

definition own_lock :: "u64 \<Rightarrow> kview \<Rightarrow> Lock option" where
  "own_lock start v =
     (case v_lock v of None \<Rightarrow> None | Some l \<Rightarrow> if lk_Ts l = start then Some l else None)"

definition rollback_rec :: "u64 \<Rightarrow> Write" where
  "rollback_rec start = \<lparr>w_StartTS = start, w_Kind = WriteKindRollback\<rparr>"

definition newer_commit :: "u64 \<Rightarrow> hist \<Rightarrow> u64 option" where
  "newer_commit start h =
     (case h of [] \<Rightarrow> None | (c, w) # _ \<Rightarrow> if start \<le> c then Some c else None)"

text \<open>
  A command reads the content as it was before the request and buffers its writes over it, so a
  request that names a key twice decides both times on the view \<open>v0\<close> the key had before, and
  changes the view \<open>v\<close> the first time has left. On a key named once the two views are the same.
\<close>

definition prewrite_over ::
    "u64 \<Rightarrow> bytes \<Rightarrow> u64 \<Rightarrow> Mutation \<Rightarrow> kview \<Rightarrow> kview \<Rightarrow> KeyError option \<times> kview" where
  "prewrite_over start primary ttl mut v0 v =
     (let conflict = (\<lambda>ts. \<lparr>wc_StartTs = start, wc_ConflictTs = ts, wc_Key = mut_Key mut,
                            wc_Primary = primary\<rparr>) in
      case newer_commit start (v_hist v0) of
        Some c \<Rightarrow> (Some (no_KeyError\<lparr>ke_Conflict := Some (conflict c)\<rparr>), v)
      | None \<Rightarrow>
          (case (v_lock v0, own_lock start v0) of
             (Some l, None) \<Rightarrow>
               (Some (no_KeyError\<lparr>ke_Locked := Some (Lock_Info l (mut_Key mut)),
                                  ke_Conflict := Some (conflict (lk_Ts l))\<rparr>), v)
           | _ \<Rightarrow>
               (None, v\<lparr>v_lock := Some \<lparr>lk_Primary = primary, lk_Ts = start, lk_Ttl = ttl,
                                        lk_Kind = mut_Op mut + 1\<rparr>,
                        v_value := (if mut_Op mut = Op_Put then (v_value v)(start := mut_Value mut)
                                    else if mut_Op mut = Op_Del then (v_value v)(start := None)
                                    else v_value v)\<rparr>)))"

abbreviation spec_prewrite ::
    "u64 \<Rightarrow> bytes \<Rightarrow> u64 \<Rightarrow> Mutation \<Rightarrow> kview \<Rightarrow> KeyError option \<times> kview" where
  "spec_prewrite start primary ttl mut v \<equiv> prewrite_over start primary ttl mut v v"

definition commit_over :: "u64 \<Rightarrow> u64 \<Rightarrow> bytes \<Rightarrow> kview \<Rightarrow> kview \<Rightarrow> KeyError option \<times> kview" where
  "commit_over start commit key v0 v =
     (case own_lock start v0 of
        Some l \<Rightarrow>
          (None, v\<lparr>v_lock := None,
                   v_hist := hist_put commit \<lparr>w_StartTS = start, w_Kind = lk_Kind l\<rparr> (v_hist v)\<rparr>)
      | None \<Rightarrow>
          (case current_scan start (v_hist v0) of
             (Some w, c) \<Rightarrow>
               (if w_Kind w = WriteKindRollback
                then Some (no_KeyError\<lparr>ke_Retryable := Some (LockNotFound key)\<rparr>) else None, v)
           | (None, c) \<Rightarrow> (Some (no_KeyError\<lparr>ke_Retryable := Some (LockNotFound key)\<rparr>), v)))"

abbreviation spec_commit :: "u64 \<Rightarrow> u64 \<Rightarrow> bytes \<Rightarrow> kview \<Rightarrow> KeyError option \<times> kview" where
  "spec_commit start commit key v \<equiv> commit_over start commit key v v"

text \<open>The rolling back of a locked key: the value goes with the lock, the record stays.\<close>

definition undo_lock :: "u64 \<Rightarrow> Lock \<Rightarrow> kview \<Rightarrow> kview" where
  "undo_lock start l v =
     v\<lparr>v_lock := None, v_hist := hist_put start (rollback_rec start) (v_hist v),
       v_value := (if lk_Kind l = WriteKindPut then (v_value v)(start := None) else v_value v)\<rparr>"

definition rollback_over :: "u64 \<Rightarrow> bytes \<Rightarrow> kview \<Rightarrow> kview \<Rightarrow> KeyError option \<times> kview" where
  "rollback_over start key v0 v =
     (case own_lock start v0 of
        Some l \<Rightarrow> (None, undo_lock start l v)
      | None \<Rightarrow>
          (case current_scan start (v_hist v0) of
             (Some w, c) \<Rightarrow>
               (if w_Kind w = WriteKindRollback then None
                else Some (no_KeyError\<lparr>ke_Abort := Some (AlreadyCommitted key c)\<rparr>), v)
           | (None, c) \<Rightarrow>
               (None, v\<lparr>v_hist := hist_put start (rollback_rec start) (v_hist v)\<rparr>)))"

abbreviation spec_rollback :: "u64 \<Rightarrow> bytes \<Rightarrow> kview \<Rightarrow> KeyError option \<times> kview" where
  "spec_rollback start key v \<equiv> rollback_over start key v v"

text \<open>
  Checking a transaction's status: note that a key on which the transaction left nothing loses
  its lock, whoever holds it.
\<close>

definition spec_check :: "u64 \<Rightarrow> u64 \<Rightarrow> kview \<Rightarrow> CheckTxnStatusResponse \<times> kview" where
  "spec_check start current v =
     (let response = \<lparr>cr_LockTtl = 0, cr_CommitVersion = 0, cr_Action = NoAction\<rparr> in
      case own_lock start v of
        Some l \<Rightarrow>
          if physical start + lk_Ttl l < physical current
          then (response\<lparr>cr_Action := TTLExpireRollback\<rparr>, undo_lock start l v)
          else (response\<lparr>cr_LockTtl := lk_Ttl l\<rparr>, v)
      | None \<Rightarrow>
          (case current_scan start (v_hist v) of
             (Some w, c) \<Rightarrow>
               (if w_Kind w = WriteKindRollback then response
                else response\<lparr>cr_CommitVersion := c\<rparr>, v)
           | (None, c) \<Rightarrow>
               (response\<lparr>cr_Action := LockNotExistRollback\<rparr>,
                v\<lparr>v_lock := None, v_hist := hist_put start (rollback_rec start) (v_hist v)\<rparr>)))"

text \<open>What a snapshot read at a timestamp sees, locks aside.\<close>

definition visible_upto :: "u64 \<Rightarrow> hist \<Rightarrow> hist" where
  "visible_upto ts h = filter (\<lambda>r. fst r \<le> ts) h"

definition view_read :: "u64 \<Rightarrow> kview \<Rightarrow> goslice" where
  "view_read ts v =
     (case value_scan (visible_upto ts (v_hist v)) of None \<Rightarrow> None | Some w \<Rightarrow> v_value v (w_StartTS w))"

text \<open>The steps a key goes through.\<close>

datatype kstep =
    KPrewrite u64 bytes u64 Mutation
  | KCommit u64 u64
  | KRollback u64
  | KCheck u64 u64

fun kstep_apply :: "bytes \<Rightarrow> kstep \<Rightarrow> kview \<Rightarrow> kview" where
  "kstep_apply key (KPrewrite start primary ttl mut) v = snd (spec_prewrite start primary ttl mut v)"
| "kstep_apply key (KCommit start commit) v = snd (spec_commit start commit key v)"
| "kstep_apply key (KRollback start) v = snd (spec_rollback start key v)"
| "kstep_apply key (KCheck start current) v = snd (spec_check start current v)"

text \<open>
  What the timestamp oracle gives the steps: a commit timestamp is later than its start
  timestamp, and where the transaction still holds its lock no record of the key carries it yet
  (a commit sent again finds no lock, and its timestamp on the key); a start timestamp is not
  the commit timestamp of another transaction. A mutation is a put or a delete.
\<close>

fun kstep_ok :: "kstep \<Rightarrow> kview \<Rightarrow> bool" where
  "kstep_ok (KPrewrite start primary ttl mut) v \<longleftrightarrow> mut_Op mut = Op_Put \<or> mut_Op mut = Op_Del"
| "kstep_ok (KCommit start commit) v \<longleftrightarrow>
     start < commit \<and> (own_lock start v = None \<or> commit \<notin> fst ` set (v_hist v))"
| "kstep_ok (KRollback start) v \<longleftrightarrow> list_all (\<lambda>(c, w). c = start \<longrightarrow> w_StartTS w = start) (v_hist v)"
| "kstep_ok (KCheck start current) v \<longleftrightarrow>
     list_all (\<lambda>(c, w). c = start \<longrightarrow> w_StartTS w = start) (v_hist v)"

section \<open>The invariant\<close>

definition newest_first :: "hist \<Rightarrow> bool" where
  "newest_first h = sorted_wrt (\<lambda>a b. fst b < fst a) h"

definition rec_ok :: "u64 \<Rightarrow> Write \<Rightarrow> bool" where
  "rec_ok c w \<longleftrightarrow> w_Kind w = WriteKindRollback \<and> c = w_StartTS w \<or> decides w \<and> w_StartTS w < c"

definition first_committer :: "hist \<Rightarrow> bool" where
  "first_committer h \<longleftrightarrow>
     (\<forall>(c, w) \<in> set h. \<forall>(c', w') \<in> set h. decides w \<longrightarrow> decides w' \<longrightarrow> c' < c \<longrightarrow> c' < w_StartTS w)"

definition one_record :: "hist \<Rightarrow> bool" where
  "one_record h \<longleftrightarrow>
     (\<forall>(c, w) \<in> set h. \<forall>(c', w') \<in> set h. w_StartTS w = w_StartTS w' \<longrightarrow> c = c' \<and> w = w')"

definition hist_ok :: "hist \<Rightarrow> bool" where
  "hist_ok h \<longleftrightarrow> newest_first h \<and> (\<forall>(c, w) \<in> set h. rec_ok c w) \<and> one_record h \<and> first_committer h"

definition lock_ok :: "hist \<Rightarrow> Lock \<Rightarrow> bool" where
  "lock_ok h l \<longleftrightarrow> (lk_Kind l = WriteKindPut \<or> lk_Kind l = WriteKindDelete)
     \<and> (\<forall>(c, w) \<in> set h. w_StartTS w \<noteq> lk_Ts l \<and> (decides w \<longrightarrow> c < lk_Ts l))"

definition kview_ok :: "kview \<Rightarrow> bool" where
  "kview_ok v \<longleftrightarrow> hist_ok (v_hist v) \<and> (\<forall>l. v_lock v = Some l \<longrightarrow> lock_ok (v_hist v) l)"

section \<open>Histories grow\<close>

lemma hist_put_set:
  "newest_first h \<Longrightarrow> c \<notin> fst ` set h \<Longrightarrow> set (hist_put c w h) = insert (c, w) (set h)"
  by (induction c w h rule: hist_put.induct) (auto simp: newest_first_def)

lemma hist_put_map_of: "map_of (hist_put c w h) = (map_of h)(c \<mapsto> w)"
  if "newest_first h"
  using that by (induction c w h rule: hist_put.induct) (force simp: newest_first_def fun_eq_iff)+

lemma hist_put_subset: "set (hist_put c w h) \<subseteq> insert (c, w) (set h)"
  by (induction c w h rule: hist_put.induct) auto

lemma hist_put_sorted: "newest_first h \<Longrightarrow> newest_first (hist_put c w h)"
proof (induction c w h rule: hist_put.induct)
  case (2 c w d u h)
  have "fst r < d" if "r \<in> set (hist_put c w h)" "c < d" for r
    using hist_put_subset [of c w h] that 2 by (auto simp: newest_first_def)
  with 2 show ?case by (force simp: newest_first_def)
qed (simp add: newest_first_def)

lemma hist_ok_put:
  assumes h: "hist_ok h" and c: "c \<notin> fst ` set h" and r: "rec_ok c w"
    and own: "\<forall>(d, u) \<in> set h. w_StartTS u \<noteq> w_StartTS w"
    and later: "decides w \<Longrightarrow> \<forall>(d, u) \<in> set h. decides u \<longrightarrow> d < w_StartTS w"
  shows "hist_ok (hist_put c w h)"
proof -
  from h have nf: "newest_first h" by (simp add: hist_ok_def)
  have fc: "first_committer (hist_put c w h)"
  proof -
    from h have "first_committer h" by (simp add: hist_ok_def)
    moreover have "\<not> c < d" if "decides w" "(d, u) \<in> set h" "decides u" for d u
      using later that r by (fastforce simp: rec_ok_def decides_def kind_consts)
    ultimately show ?thesis
      using later by (fastforce simp: first_committer_def hist_put_set [OF nf c])
  qed
  moreover have "one_record (hist_put c w h)"
  proof -
    from h have "one_record h" by (simp add: hist_ok_def)
    with own show ?thesis by (fastforce simp: one_record_def hist_put_set [OF nf c])
  qed
  ultimately show ?thesis
    using h r by (auto simp: hist_ok_def hist_put_sorted hist_put_set [OF nf c])
qed

lemma rec_ok_start_le: "rec_ok c w \<Longrightarrow> w_StartTS w \<le> c"
  by (auto simp: rec_ok_def)

text \<open>No record found: the transaction has none on the key.\<close>

lemma no_current_record:
  assumes "hist_ok h" and "current_scan start h = (None, c)" and "(d, u) \<in> set h"
  shows "w_StartTS u \<noteq> start"
proof
  assume "w_StartTS u = start"
  moreover have "w_StartTS u \<le> d" using assms by (auto simp: hist_ok_def intro: rec_ok_start_le)
  ultimately show False
    using current_scan_None [OF assms(2) _ assms(3)] assms(1) by (simp add: hist_ok_def newest_first_def)
qed

lemma no_record_scan: "\<forall>(c, w) \<in> set h. w_StartTS w \<noteq> start \<Longrightarrow> \<exists>c. current_scan start h = (None, c)"
  using current_scan_Some [of start h] by (cases "current_scan start h", cases "fst (current_scan start h)") fastforce+

lemma rollback_kind [simp]: "\<not> decides (rollback_rec start)" "w_StartTS (rollback_rec start) = start"
  "w_Kind (rollback_rec start) = WriteKindRollback"
  by (simp_all add: rollback_rec_def decides_def kind_consts)

lemma hist_ok_rollback:
  assumes "hist_ok h" and "\<forall>(d, u) \<in> set h. w_StartTS u \<noteq> start"
    and "\<forall>(d, u) \<in> set h. d = start \<longrightarrow> w_StartTS u = start"
  shows "hist_ok (hist_put start (rollback_rec start) h)"
  using assms by (intro hist_ok_put) (auto simp: rec_ok_def)

section \<open>Every step keeps the invariant\<close>

lemma own_lock_Some: "own_lock start v = Some l \<longleftrightarrow> v_lock v = Some l \<and> lk_Ts l = start"
  by (auto simp: own_lock_def split: option.splits if_splits)

lemma lock_ok_other:
  assumes "lock_ok h l" "hist_ok h" and "c \<notin> fst ` set h" and "lk_Ts l \<noteq> start"
  shows "lock_ok (hist_put c (rollback_rec start) h) l"
  using assms by (auto simp: lock_ok_def hist_ok_def hist_put_set)

lemma newer_commit_None:
  assumes "newest_first h" and "newer_commit start h = None" and "(c, w) \<in> set h"
  shows "c < start"
  using assms by (cases h) (force simp: newer_commit_def newest_first_def split: if_splits)+

lemma prewrite_ok:
  assumes v: "kview_ok v" and op: "mut_Op mut = Op_Put \<or> mut_Op mut = Op_Del"
  shows "kview_ok (snd (spec_prewrite start primary ttl mut v))"
proof (cases "newer_commit start (v_hist v)")
  case None
  from v have h: "hist_ok (v_hist v)" by (simp add: kview_ok_def)
  have "c < start" if "(c, w) \<in> set (v_hist v)" for c w
    using newer_commit_None [OF _ None that] h by (simp add: hist_ok_def)
  moreover have "w_StartTS w \<le> c" if "(c, w) \<in> set (v_hist v)" for c w
    using h that by (auto simp: hist_ok_def intro: rec_ok_start_le)
  ultimately have "lock_ok (v_hist v) \<lparr>lk_Primary = primary, lk_Ts = start, lk_Ttl = ttl,
                                       lk_Kind = mut_Op mut + 1\<rparr>"
    using op by (fastforce simp: lock_ok_def kind_consts)
  with None v show ?thesis
    by (auto simp: prewrite_over_def kview_ok_def split: option.splits)
qed (use v in \<open>simp add: prewrite_over_def\<close>)

lemma commit_ok:
  assumes v: "kview_ok v" and "start < commit" and c: "own_lock start v = None \<or> commit \<notin> fst ` set (v_hist v)"
  shows "kview_ok (snd (spec_commit start commit key v))"
proof (cases "own_lock start v")
  case None
  with v show ?thesis by (auto simp: commit_over_def split: option.splits prod.splits)
next
  case (Some l)
  with v have h: "hist_ok (v_hist v)" and l: "lock_ok (v_hist v) l" "lk_Ts l = start"
    by (auto simp: kview_ok_def own_lock_Some)
  then have "hist_ok (hist_put commit \<lparr>w_StartTS = start, w_Kind = lk_Kind l\<rparr> (v_hist v))"
    using assms(2) c Some by (intro hist_ok_put [OF h])
      (auto simp: lock_ok_def rec_ok_def decides_def)
  with Some show ?thesis by (simp add: commit_over_def kview_ok_def)
qed

lemma undo_ok:
  assumes v: "kview_ok v" and own: "own_lock start v = Some l"
    and ts: "list_all (\<lambda>(c, w). c = start \<longrightarrow> w_StartTS w = start) (v_hist v)"
  shows "kview_ok (undo_lock start l v)"
proof -
  from v own have h: "hist_ok (v_hist v)" and l: "lock_ok (v_hist v) l" "lk_Ts l = start"
    by (auto simp: kview_ok_def own_lock_Some)
  have "hist_ok (hist_put start (rollback_rec start) (v_hist v))"
    using l ts by (intro hist_ok_rollback [OF h]) (auto simp: lock_ok_def list_all_iff)
  then show ?thesis by (simp add: undo_lock_def kview_ok_def)
qed

lemma fresh_rollback_ok:
  assumes v: "kview_ok v" and own: "own_lock start v = None"
    and none: "current_scan start (v_hist v) = (None, c)"
    and ts: "list_all (\<lambda>(c, w). c = start \<longrightarrow> w_StartTS w = start) (v_hist v)"
  shows "kview_ok (v\<lparr>v_hist := hist_put start (rollback_rec start) (v_hist v)\<rparr>)"
proof -
  from v have h: "hist_ok (v_hist v)" by (simp add: kview_ok_def)
  have none': "w_StartTS u \<noteq> start" if "(d, u) \<in> set (v_hist v)" for d u
    using no_current_record [OF h none that] .
  then have fresh: "start \<notin> fst ` set (v_hist v)" using ts by (auto simp: list_all_iff)
  have "hist_ok (hist_put start (rollback_rec start) (v_hist v))"
    using none' ts by (intro hist_ok_rollback [OF h]) (auto simp: list_all_iff)
  moreover have "lock_ok (hist_put start (rollback_rec start) (v_hist v)) l" if "v_lock v = Some l" for l
    using that v own by (intro lock_ok_other [OF _ h fresh]) (auto simp: kview_ok_def own_lock_def)
  ultimately show ?thesis by (simp add: kview_ok_def)
qed

lemma kview_ok_unlock: "kview_ok (v\<lparr>v_hist := h\<rparr>) \<Longrightarrow> kview_ok (v\<lparr>v_lock := None, v_hist := h\<rparr>)"
  by (simp add: kview_ok_def)

lemma rollback_ok:
  assumes "kview_ok v" and "kstep_ok (KRollback start) v"
  shows "kview_ok (snd (spec_rollback start key v))"
proof (cases "own_lock start v")
  case None
  with fresh_rollback_ok [OF assms(1) None] assms show ?thesis
    by (auto simp: rollback_over_def split: option.splits prod.splits)
qed (use undo_ok assms in \<open>simp add: rollback_over_def\<close>)

lemma check_ok:
  assumes "kview_ok v" and "kstep_ok (KCheck start current) v"
  shows "kview_ok (snd (spec_check start current v))"
proof (cases "own_lock start v")
  case None
  with kview_ok_unlock [OF fresh_rollback_ok [OF assms(1) None]] assms show ?thesis
    by (auto simp: spec_check_def Let_def split: option.splits prod.splits)
qed (use undo_ok assms in \<open>simp add: spec_check_def Let_def\<close>)

lemma kstep_apply_ok: "kview_ok v \<Longrightarrow> kstep_ok st v \<Longrightarrow> kview_ok (kstep_apply key st v)"
  by (cases st) (simp_all add: prewrite_ok commit_ok rollback_ok check_ok del: kstep_ok.simps(3,4))

section \<open>What a step leaves alone\<close>

text \<open>The shape of every step on the history: nothing, or one new record.\<close>

definition kstep_record :: "kstep \<Rightarrow> kview \<Rightarrow> (u64 \<times> Write) option" where
  "kstep_record st v =
     (case st of
        KPrewrite _ _ _ _ \<Rightarrow> None
      | KCommit start commit \<Rightarrow>
          map_option (\<lambda>l. (commit, \<lparr>w_StartTS = start, w_Kind = lk_Kind l\<rparr>)) (own_lock start v)
      | KRollback start \<Rightarrow>
          if own_lock start v \<noteq> None \<or> fst (current_scan start (v_hist v)) = None
          then Some (start, rollback_rec start) else None
      | KCheck start current \<Rightarrow>
          (case own_lock start v of
             Some l \<Rightarrow> if physical start + lk_Ttl l < physical current
                        then Some (start, rollback_rec start) else None
           | None \<Rightarrow> if fst (current_scan start (v_hist v)) = None
                      then Some (start, rollback_rec start) else None))"

lemma kstep_hist:
  "v_hist (kstep_apply key st v) =
     (case kstep_record st v of None \<Rightarrow> v_hist v | Some (c, w) \<Rightarrow> hist_put c w (v_hist v))"
  by (cases st)
    (auto simp: kstep_record_def prewrite_over_def commit_over_def rollback_over_def spec_check_def
      undo_lock_def Let_def split: option.splits prod.splits)

text \<open>
  A key named twice in a request: the second time writes the same again, so that it ends as one
  step leaves it. Of two mutations of a key the last one counts.
\<close>

lemma hist_put_twice [simp]: "hist_put c w (hist_put c w h) = hist_put c w h"
  by (induction c w h rule: hist_put.induct) auto

lemma commit_twice: "commit_over start commit key v (snd (spec_commit start commit key v)) = spec_commit start commit key v"
  by (auto simp: commit_over_def split: option.splits prod.splits)

lemma rollback_twice: "rollback_over start key v (snd (spec_rollback start key v)) = spec_rollback start key v"
  by (auto simp: rollback_over_def undo_lock_def split: option.splits prod.splits)

lemma prewrite_twice:
  assumes "mut_Op m = Op_Put \<or> mut_Op m = Op_Del" "mut_Op m' = Op_Put \<or> mut_Op m' = Op_Del"
  shows "prewrite_over start primary ttl m v (snd (spec_prewrite start primary ttl m' v)) = spec_prewrite start primary ttl m v"
  using assms by (auto simp: prewrite_over_def Let_def kind_consts split: option.splits)

lemma kstep_record_guard:
  "kstep_record st v = Some (c, w) \<Longrightarrow>
   own_lock (w_StartTS w) v \<noteq> None \<or> fst (current_scan (w_StartTS w) (v_hist v)) = None"
  by (cases st) (auto simp: kstep_record_def split: option.splits if_splits)

lemma kstep_record_time:
  "kstep_record st v = Some (c, w) \<Longrightarrow> kstep_ok st v \<Longrightarrow>
   c \<notin> fst ` set (v_hist v) \<or> c = w_StartTS w \<and> (\<forall>(d, u) \<in> set (v_hist v). d = c \<longrightarrow> w_StartTS u = c)"
  by (cases st) (simp_all add: kstep_record_def list_all_iff split: option.splits if_splits, auto)

lemma kstep_record_fresh:
  assumes v: "kview_ok v" and ok: "kstep_ok st v" and r: "kstep_record st v = Some (c, w)"
  shows "c \<notin> fst ` set (v_hist v)" and "\<forall>(d, u) \<in> set (v_hist v). w_StartTS u \<noteq> w_StartTS w"
proof -
  from v have h: "hist_ok (v_hist v)" by (simp add: kview_ok_def)
  show own: "\<forall>(d, u) \<in> set (v_hist v). w_StartTS u \<noteq> w_StartTS w"
    using kstep_record_guard [OF r]
  proof
    assume "own_lock (w_StartTS w) v \<noteq> None"
    with v show ?thesis by (auto simp: kview_ok_def own_lock_Some lock_ok_def)
  next
    assume "fst (current_scan (w_StartTS w) (v_hist v)) = None"
    with no_current_record [OF h] show ?thesis
      by (cases "current_scan (w_StartTS w) (v_hist v)") auto
  qed
  with kstep_record_time [OF r ok] show "c \<notin> fst ` set (v_hist v)" by fastforce
qed

text \<open>Records are never lost or changed.\<close>

lemma kstep_records_kept:
  assumes "kview_ok v" "kstep_ok st v" "(c, w) \<in> set (v_hist v)"
  shows "(c, w) \<in> set (v_hist (kstep_apply key st v))"
proof (cases "kstep_record st v")
  case (Some r)
  obtain d u where r: "r = (d, u)" by (cases r)
  have "newest_first (v_hist v)" using assms by (simp add: kview_ok_def hist_ok_def)
  with assms kstep_record_fresh [OF assms(1,2), of d u] Some r show ?thesis
    by (simp add: kstep_hist hist_put_set)
qed (use assms in \<open>simp add: kstep_hist\<close>)

text \<open>The value of a transaction that has a record on the key stays.\<close>

lemma kstep_value_kept:
  assumes v: "kview_ok v" and r: "(c, w) \<in> set (v_hist v)"
  shows "v_value (kstep_apply key st v) (w_StartTS w) = v_value v (w_StartTS w)"
proof -
  from v have h: "hist_ok (v_hist v)" by (simp add: kview_ok_def)
  have "w_StartTS w \<noteq> start" if "own_lock start v = Some l" for start l
    using v r that by (auto simp: kview_ok_def own_lock_Some lock_ok_def)
  moreover have "w_StartTS w \<noteq> start" if "newer_commit start (v_hist v) = None" for start
  proof -
    have "c < start" using newer_commit_None [OF _ that r] h by (simp add: hist_ok_def)
    moreover have "w_StartTS w \<le> c" using h r by (auto simp: hist_ok_def intro: rec_ok_start_le)
    ultimately show ?thesis by auto
  qed
  ultimately show ?thesis
    by (cases st) (auto simp: prewrite_over_def commit_over_def rollback_over_def spec_check_def
        undo_lock_def Let_def split: option.splits prod.splits)
qed

lemma value_scan_mem: "value_scan h = Some w \<Longrightarrow> \<exists>c. (c, w) \<in> set h"
  by (induction h rule: value_scan.induct) (auto split: if_splits)

lemma upto_hist_put:
  assumes "newest_first h" and "c \<notin> fst ` set h" and "ts < c \<or> \<not> decides w"
  shows "value_scan (visible_upto ts (hist_put c w h)) = value_scan (visible_upto ts h)"
  using assms
  by (induction c w h rule: hist_put.induct) (auto simp: visible_upto_def decides_def newest_first_def)

text \<open>
  A step that does not commit at or before a timestamp does not change what a snapshot read
  at that timestamp sees. A commit of a transaction that has no lock on the key commits nothing.
\<close>

definition commits_after :: "u64 \<Rightarrow> kstep \<Rightarrow> kview \<Rightarrow> bool" where
  "commits_after ts st v \<longleftrightarrow>
     (case st of KCommit start commit \<Rightarrow> ts < commit \<or> own_lock start v = None | _ \<Rightarrow> True)"

lemma kstep_read_stable:
  assumes v: "kview_ok v" and ok: "kstep_ok st v" and late: "commits_after ts st v"
  shows "view_read ts (kstep_apply key st v) = view_read ts v"
proof -
  have nf: "newest_first (v_hist v)" using v by (simp add: kview_ok_def hist_ok_def)
  have "value_scan (visible_upto ts (v_hist (kstep_apply key st v))) = value_scan (visible_upto ts (v_hist v))"
  proof (cases "kstep_record st v")
    case (Some r)
    obtain c w where r: "r = (c, w)" by (cases r)
    with Some have "ts < c \<or> \<not> decides w"
      using late by (cases st)
        (auto simp: kstep_record_def commits_after_def split: option.splits if_splits)
    with kstep_record_fresh(1) [OF v ok] Some r nf show ?thesis
      by (simp add: kstep_hist upto_hist_put)
  qed (simp add: kstep_hist)
  moreover have "v_value (kstep_apply key st v) (w_StartTS w) = v_value v (w_StartTS w)"
    if "value_scan (visible_upto ts (v_hist v)) = Some w" for w
  proof -
    from value_scan_mem [OF that] obtain c where "(c, w) \<in> set (v_hist v)" by (auto simp: visible_upto_def)
    then show ?thesis by (rule kstep_value_kept [OF v])
  qed
  ultimately show ?thesis by (simp add: view_read_def split: option.splits)
qed

text \<open>A committed put is what a read at or after its commit timestamp sees, until the next commit.\<close>

lemma value_scan_hist_put:
  assumes "newest_first h" "c \<notin> fst ` set h" "c \<le> ts" "w_Kind w = WriteKindPut"
    and "\<forall>(d, u) \<in> set h. c < d \<longrightarrow> \<not> decides u"
  shows "value_scan (visible_upto ts (hist_put c w h)) = Some w"
  using assms
  by (induction c w h rule: hist_put.induct) (auto simp: visible_upto_def decides_def newest_first_def)

lemma commit_visible:
  assumes v: "kview_ok v" and own: "own_lock start v = Some l" and k: "lk_Kind l = WriteKindPut"
    and c: "start < commit" "commit \<notin> fst ` set (v_hist v)" "commit \<le> ts"
  shows "view_read ts (snd (spec_commit start commit key v)) = v_value v start"
proof -
  have nf: "newest_first (v_hist v)" and lk: "lock_ok (v_hist v) l" "lk_Ts l = start"
    using v own by (auto simp: kview_ok_def hist_ok_def own_lock_Some)
  have "\<not> decides u" if "(d, u) \<in> set (v_hist v)" "commit < d" for d u
    using that lk c by (fastforce simp: lock_ok_def)
  then have "value_scan (visible_upto ts (hist_put commit \<lparr>w_StartTS = start, w_Kind = lk_Kind l\<rparr> (v_hist v)))
             = Some \<lparr>w_StartTS = start, w_Kind = lk_Kind l\<rparr>"
    using nf c k by (intro value_scan_hist_put) auto
  with own show ?thesis by (simp add: view_read_def commit_over_def)
qed

section \<open>Outcomes are final\<close>

definition recorded :: "u64 \<Rightarrow> u64 \<Rightarrow> Write \<Rightarrow> kview \<Rightarrow> bool" where
  "recorded start c w v \<longleftrightarrow> (c, w) \<in> set (v_hist v) \<and> w_StartTS w = start"

lemma recorded_unlocked: "kview_ok v \<Longrightarrow> recorded start c w v \<Longrightarrow> own_lock start v = None"
  by (cases "own_lock start v") (auto simp: recorded_def kview_ok_def own_lock_Some lock_ok_def)

lemma recorded_found:
  assumes v: "kview_ok v" and r: "recorded start c w v"
  shows "current_scan start (v_hist v) = (Some w, c)"
proof -
  have h: "hist_ok (v_hist v)" using v by (simp add: kview_ok_def)
  obtain w' c' where s: "current_scan start (v_hist v) = (w', c')" by fastforce
  show ?thesis
  proof (cases w')
    case None
    with no_current_record [OF h s [unfolded None]] r show ?thesis by (auto simp: recorded_def)
  next
    case (Some u)
    from current_scan_Some [OF s [unfolded Some]] h r have "c' = c \<and> u = w"
      by (fastforce simp: hist_ok_def one_record_def recorded_def)
    with s Some show ?thesis by simp
  qed
qed

lemma rolled_back_final:
  assumes v: "kview_ok v" and r: "recorded start start (rollback_rec start) v"
  shows "spec_commit start commit key v
           = (Some (no_KeyError\<lparr>ke_Retryable := Some (LockNotFound key)\<rparr>), v)"
    and "\<exists>e. spec_prewrite start primary ttl mut v = (Some e, v)"
    and "spec_rollback start key v = (None, v)"
proof -
  show "spec_commit start commit key v = (Some (no_KeyError\<lparr>ke_Retryable := Some (LockNotFound key)\<rparr>), v)"
    by (simp add: commit_over_def recorded_unlocked [OF v r] recorded_found [OF v r])
  show "spec_rollback start key v = (None, v)"
    by (simp add: rollback_over_def recorded_unlocked [OF v r] recorded_found [OF v r])
  have "newer_commit start (v_hist v) \<noteq> None"
    using newer_commit_None [of "v_hist v" start start "rollback_rec start"] v r
    by (auto simp: recorded_def kview_ok_def hist_ok_def)
  then show "\<exists>e. spec_prewrite start primary ttl mut v = (Some e, v)"
    by (auto simp: prewrite_over_def Let_def)
qed

lemma committed_final:
  assumes v: "kview_ok v" and r: "recorded start c w v" and d: "decides w"
  shows "spec_rollback start key v = (Some (no_KeyError\<lparr>ke_Abort := Some (AlreadyCommitted key c)\<rparr>), v)"
    and "spec_commit start commit key v = (None, v)"
    and "spec_check start current v
           = (\<lparr>cr_LockTtl = 0, cr_CommitVersion = c, cr_Action = NoAction\<rparr>, v)"
proof -
  have "w_Kind w \<noteq> WriteKindRollback" using d by (auto simp: decides_def kind_consts)
  then show "spec_rollback start key v = (Some (no_KeyError\<lparr>ke_Abort := Some (AlreadyCommitted key c)\<rparr>), v)"
    "spec_commit start commit key v = (None, v)"
    "spec_check start current v = (\<lparr>cr_LockTtl = 0, cr_CommitVersion = c, cr_Action = NoAction\<rparr>, v)"
    by (simp_all add: rollback_over_def commit_over_def spec_check_def recorded_unlocked [OF v r]
        recorded_found [OF v r] Let_def)
qed

lemma rollback_records:
  assumes v: "kview_ok v" and ok: "kstep_ok (KRollback start) v"
    and e: "spec_rollback start key v = (None, v')"
  shows "recorded start start (rollback_rec start) v'"
proof (cases "kstep_record (KRollback start) v")
  case None
  then have own: "own_lock start v = None" by (auto simp: kstep_record_def split: if_splits)
  obtain w c where s: "current_scan start (v_hist v) = (Some w, c)"
    using None by (cases "current_scan start (v_hist v)") (auto simp: kstep_record_def split: if_splits)
  from current_scan_Some [OF s] have m: "(c, w) \<in> set (v_hist v)" "w_StartTS w = start" by auto
  moreover have k: "w_Kind w = WriteKindRollback" and "v' = v"
    using e own s by (auto simp: rollback_over_def split: if_splits)
  moreover have "c = start"
    using v m k by (auto simp: kview_ok_def hist_ok_def rec_ok_def decides_def kind_consts)
  moreover have "w = rollback_rec start" using m k by (simp add: rollback_rec_def Write.equality)
  ultimately show ?thesis by (simp add: recorded_def)
next
  case (Some r)
  then have r: "r = (start, rollback_rec start)" by (auto simp: kstep_record_def split: if_splits)
  have "newest_first (v_hist v)" using v by (simp add: kview_ok_def hist_ok_def)
  with kstep_record_fresh [OF v ok] Some r e kstep_hist [of key "KRollback start" v] show ?thesis
    by (simp add: recorded_def hist_put_set)
qed

end
