(* ===== verification/Txn_Refine.thy ===== *)
theory Txn_Refine
  imports Percolator
begin

text \<open>
  The commands implement the abstract protocol: on every well-formed content, running a
  command computes the response the protocol specifies and stores a batch that changes the
  view of every key the way the protocol says. A request may name a key several times: it
  decides every time on the content before the request, and its writes go over one another.
\<close>

section \<open>Views of a content\<close>

definition kviews :: "kvstate \<Rightarrow> bytes \<Rightarrow> kview" where
  "kviews kv k = \<lparr>v_lock = lock_at kv k, v_hist = history kv k TsMax, v_value = value_at kv k\<rparr>"

definition txn_kv :: "kvstate \<Rightarrow> MvccTxn \<Rightarrow> kvstate" where
  "txn_kv kv txn = apply_batch kv (tx_writes txn)"

definition moved :: "kvstate \<Rightarrow> MvccTxn \<Rightarrow> MvccTxn \<Rightarrow> bytes \<Rightarrow> kview \<Rightarrow> bool" where
  "moved kv txn txn' k v' \<longleftrightarrow>
     tx_Reader txn' = tx_Reader txn \<and> tx_StartTS txn' = tx_StartTS txn \<and> mvcc_wf (txn_kv kv txn')
     \<and> kviews (txn_kv kv txn') = (kviews (txn_kv kv txn))(k := v')"

lemma newest_first_mem: "newest_first h \<Longrightarrow> (c, w) \<in> set h \<longleftrightarrow> map_of h c = Some w"
  by (induction h) (force simp: newest_first_def dest: map_of_SomeD)+

lemma newest_first_eqI:
  "newest_first a \<Longrightarrow> newest_first b \<Longrightarrow> set a = set b \<Longrightarrow> a = b"
proof (induction a arbitrary: b)
  case (Cons x a)
  then obtain y b' where b: "b = y # b'" by (cases b) auto
  have "x = y"
  proof (rule ccontr)
    assume "x \<noteq> y"
    with Cons.prems b have "x \<in> set b'" "y \<in> set a" by auto
    with Cons.prems b have "fst x < fst y" "fst y < fst x" by (auto simp: newest_first_def)
    then show False by simp
  qed
  moreover have "set a = set b'"
    using Cons.prems b \<open>x = y\<close> by (auto simp: newest_first_def)
  ultimately show ?case using Cons b by (simp add: newest_first_def)
qed simp

lemma TsMax_max [simp]: "c \<le> TsMax"
  by (simp add: TsMax_def)

lemma history_newest_first: "mvcc_wf kv \<Longrightarrow> newest_first (history kv k ts)"
  by (simp add: newest_first_def history_sorted)

lemma history_upto: "mvcc_wf kv \<Longrightarrow> history kv k ts = visible_upto ts (history kv k TsMax)"
  by (rule newest_first_eqI)
    (auto simp: newest_first_def history_sorted visible_upto_def history_mem sorted_wrt_filter)

lemma cf_put_subset: "set (cf_put k v m) \<subseteq> insert (k, v) (set m)"
  by (induction k v m rule: cf_put.induct) auto

section \<open>The effect of one buffered modification\<close>

lemma cf_put_all: "\<forall>e \<in> set m. P e \<Longrightarrow> P (k, v) \<Longrightarrow> \<forall>e \<in> set (cf_put k v m). P e"
  using cf_put_subset [of k v m] by auto

lemma wf_put_write:
  assumes "mvcc_wf kv" and "length b = 9"
  shows "mvcc_wf (apply_modify kv (Put (EncodeKey k t) (Some b) CfWrite))"
proof -
  have "wf_write_entry (EncodeKey k t, Some b)" using assms by (auto simp: wf_write_entry_def)
  then show ?thesis
    using assms(1) apply_modify_sorted [of kv "Put (EncodeKey k t) (Some b) CfWrite"]
      cf_put_all [of "kv CfWrite" wf_write_entry "EncodeKey k t" "Some b"]
    by (simp add: mvcc_wf_def apply_modify_def)
qed

lemma wf_put_lock:
  assumes "mvcc_wf kv" and "16 < length b"
  shows "mvcc_wf (apply_modify kv (Put k (Some b) CfLock))"
proof -
  have "wf_lock_entry (k, Some b)" using assms by (auto simp: wf_lock_entry_def)
  then show ?thesis
    using assms(1) apply_modify_sorted [of kv "Put k (Some b) CfLock"]
      cf_put_all [of "kv CfLock" wf_lock_entry k "Some b"]
    by (simp add: mvcc_wf_def apply_modify_def)
qed

lemma wf_put_default: "mvcc_wf kv \<Longrightarrow> mvcc_wf (apply_modify kv (Put k b CfDefault))"
  using apply_modify_sorted [of kv "Put k b CfDefault"] by (simp add: mvcc_wf_def apply_modify_def)

lemma wf_delete: "mvcc_wf kv \<Longrightarrow> mvcc_wf (apply_modify kv (Delete k cf))"
  using apply_modify_sorted [of kv "Delete k cf"]
  by (auto simp: mvcc_wf_def apply_modify_def cf_del_def)

lemma view_put_write:
  assumes wf: "mvcc_wf kv" and w: "0 \<le> w_Kind w" "w_Kind w < 256"
  shows "kviews (apply_modify kv (Put (EncodeKey k t) (Some (Write_ToBytes w)) CfWrite))
         = (kviews kv)(k := (kviews kv k)\<lparr>v_hist := hist_put t w (v_hist (kviews kv k))\<rparr>)"
    (is "kviews ?kv = _")
proof -
  have wf': "mvcc_wf ?kv" by (rule wf_put_write [OF wf]) (simp add: Write_ToBytes_def)
  have at: "write_at ?kv k' c = (if k' = k \<and> c = t then Some w else write_at kv k' c)" for k' c
    by (simp add: write_at_def apply_modify_def parse_write_ToBytes [OF w])
  have "history ?kv k' TsMax = (if k' = k then hist_put t w (history kv k TsMax) else history kv k' TsMax)" for k'
  proof (rule newest_first_eqI)
    show "set (history ?kv k' TsMax) =
      set (if k' = k then hist_put t w (history kv k TsMax) else history kv k' TsMax)"
      using history_newest_first [OF wf] by (auto simp: history_mem [OF wf'] history_mem [OF wf] at
          newest_first_mem hist_put_sorted hist_put_map_of newest_first_mem [symmetric] split: if_splits)
  qed (simp_all add: history_newest_first wf wf' hist_put_sorted)
  moreover have "lock_at ?kv k' = lock_at kv k'" "value_at ?kv k' c = value_at kv k' c" for k' c
    by (simp_all add: lock_at_def value_at_def apply_modify_def)
  ultimately show ?thesis by (auto simp: kviews_def fun_eq_iff)
qed

lemma history_cong: "kv CfWrite = kv' CfWrite \<Longrightarrow> history kv k ts = history kv' k ts"
  by (simp add: history_def)

lemma view_put_lock:
  assumes "0 \<le> lk_Kind l" "lk_Kind l < 256"
  shows "kviews (apply_modify kv (Put k (Some (Lock_ToBytes l)) CfLock))
         = (kviews kv)(k := (kviews kv k)\<lparr>v_lock := Some l\<rparr>)"
  using assms by (auto simp: kviews_def fun_eq_iff lock_at_def value_at_def apply_modify_def
      ParseLock_ToBytes intro!: history_cong)

lemma view_delete_lock:
  "kviews (apply_modify kv (Delete k CfLock)) = (kviews kv)(k := (kviews kv k)\<lparr>v_lock := None\<rparr>)"
  by (auto simp: kviews_def fun_eq_iff lock_at_def value_at_def apply_modify_def intro!: history_cong)

lemma view_put_value:
  "kviews (apply_modify kv (Put (EncodeKey k t) b CfDefault))
   = (kviews kv)(k := (kviews kv k)\<lparr>v_value := (v_value (kviews kv k))(t := b)\<rparr>)"
  by (auto simp: kviews_def fun_eq_iff lock_at_def value_at_def apply_modify_def intro!: history_cong)

lemma view_delete_value:
  "kviews (apply_modify kv (Delete (EncodeKey k t) CfDefault))
   = (kviews kv)(k := (kviews kv k)\<lparr>v_value := (v_value (kviews kv k))(t := None)\<rparr>)"
  by (auto simp: kviews_def fun_eq_iff lock_at_def value_at_def apply_modify_def intro!: history_cong)

section \<open>The buffering operations\<close>

lemma txn_kv_add [simp]: "txn_kv kv (add_write m txn) = apply_modify (txn_kv kv txn) m"
  by (simp add: txn_kv_def add_write_def)

lemma add_write_fields [simp]:
  "tx_Reader (add_write m txn) = tx_Reader txn" "tx_StartTS (add_write m txn) = tx_StartTS txn"
  by (simp_all add: add_write_def)

lemma length_Write: "length (Write_ToBytes w) = 9"
  by (simp add: Write_ToBytes_def)

lemma length_Lock: "16 < length (Lock_ToBytes l)"
  by (simp add: Lock_ToBytes_def)

lemmas buffer_defs = PutWrite_def PutLock_def DeleteLock_def PutValue_def DeleteValue_def

lemma moved_refl: "mvcc_wf (txn_kv kv txn) \<Longrightarrow> moved kv txn txn k (kviews (txn_kv kv txn) k)"
  by (simp add: moved_def)

lemma moved_PutWrite:
  "moved kv txn0 txn k v \<Longrightarrow> 0 \<le> w_Kind w \<Longrightarrow> w_Kind w < 256 \<Longrightarrow>
   moved kv txn0 (PutWrite txn k t w) k (v\<lparr>v_hist := hist_put t w (v_hist v)\<rparr>)"
  by (simp add: moved_def buffer_defs wf_put_write view_put_write length_Write)

lemma moved_PutLock:
  "moved kv txn0 txn k v \<Longrightarrow> 0 \<le> lk_Kind l \<Longrightarrow> lk_Kind l < 256 \<Longrightarrow>
   moved kv txn0 (PutLock txn k l) k (v\<lparr>v_lock := Some l\<rparr>)"
  by (simp add: moved_def buffer_defs wf_put_lock view_put_lock length_Lock)

lemma moved_DeleteLock:
  "moved kv txn0 txn k v \<Longrightarrow> moved kv txn0 (DeleteLock txn k) k (v\<lparr>v_lock := None\<rparr>)"
  by (simp add: moved_def buffer_defs wf_delete view_delete_lock)

lemma moved_PutValue:
  "moved kv txn0 txn k v \<Longrightarrow>
   moved kv txn0 (PutValue txn k b) k (v\<lparr>v_value := (v_value v)(tx_StartTS txn0 := b)\<rparr>)"
  by (simp add: moved_def buffer_defs wf_put_default view_put_value)

lemma moved_DeleteValue:
  "moved kv txn0 txn k v \<Longrightarrow>
   moved kv txn0 (DeleteValue txn k) k (v\<lparr>v_value := (v_value v)(tx_StartTS txn0 := None)\<rparr>)"
  by (simp add: moved_def buffer_defs wf_delete view_delete_value)

lemmas moved_buffer = moved_PutWrite moved_PutLock moved_DeleteLock moved_PutValue moved_DeleteValue

lemma lock_at_kind: "lock_at kv k = Some l \<Longrightarrow> 0 \<le> lk_Kind l \<and> lk_Kind l < 256"
  by (auto simp: lock_at_def ParseLock_def Let_def uint_lt2p [where ?'a = 8, simplified]
      split: option.splits sum.splits if_splits)

text \<open>Updates of a view in a canonical order.\<close>

lemma view_update_order [simp]:
  "v\<lparr>v_hist := h, v_lock := l\<rparr> = v\<lparr>v_lock := l, v_hist := h\<rparr>"
  "v\<lparr>v_value := x, v_lock := l\<rparr> = v\<lparr>v_lock := l, v_value := x\<rparr>"
  "v\<lparr>v_value := x, v_hist := h\<rparr> = v\<lparr>v_hist := h, v_value := x\<rparr>"
  by (simp_all add: kview.equality)

section \<open>The abstract commands\<close>

type_synonym views = "bytes \<Rightarrow> kview"

fun spec_Prewrite_loop ::
    "u64 \<Rightarrow> bytes \<Rightarrow> u64 \<Rightarrow> views \<Rightarrow> Mutation list \<Rightarrow> KeyError list \<Rightarrow> views \<Rightarrow> KeyError list \<times> views" where
  "spec_Prewrite_loop start primary ttl V0 [] errs V = (errs, V)"
| "spec_Prewrite_loop start primary ttl V0 (m # ms) errs V =
     (let (e, v) = prewrite_over start primary ttl m (V0 (mut_Key m)) (V (mut_Key m))
      in spec_Prewrite_loop start primary ttl V0 ms
           (case e of None \<Rightarrow> errs | Some e \<Rightarrow> errs @ [e]) (V(mut_Key m := v)))"

fun spec_Commit_loop :: "u64 \<Rightarrow> u64 \<Rightarrow> views \<Rightarrow> bytes list \<Rightarrow> views \<Rightarrow> KeyError option \<times> views" where
  "spec_Commit_loop start commit V0 [] V = (None, V)"
| "spec_Commit_loop start commit V0 (k # ks) V =
     (case commit_over start commit k (V0 k) (V k) of
        (Some e, v) \<Rightarrow> (Some e, V(k := v))
      | (None, v) \<Rightarrow> spec_Commit_loop start commit V0 ks (V(k := v)))"

fun spec_Rollback_loop :: "u64 \<Rightarrow> views \<Rightarrow> bytes list \<Rightarrow> views \<Rightarrow> KeyError option \<times> views" where
  "spec_Rollback_loop start V0 [] V = (None, V)"
| "spec_Rollback_loop start V0 (k # ks) V =
     (case rollback_over start k (V0 k) (V k) of
        (Some e, v) \<Rightarrow> (Some e, V(k := v))
      | (None, v) \<Rightarrow> spec_Rollback_loop start V0 ks (V(k := v)))"

fun spec_Resolve_loop ::
    "u64 \<Rightarrow> ResolveLockRequest \<Rightarrow> views \<Rightarrow> (bytes \<times> Lock) list \<Rightarrow> KeyError option \<Rightarrow> views \<Rightarrow> KeyError option \<times> views" where
  "spec_Resolve_loop start req V0 [] err V = (err, V)"
| "spec_Resolve_loop start req V0 ((k, l) # kls) err V =
     (let (e, v) = (if lk_Ts l \<le> rl_CommitVersion req \<and> rl_StartVersion req \<le> lk_Ts l
                    then commit_over start (rl_CommitVersion req) k (V0 k) (V k)
                    else rollback_over start k (V0 k) (V k))
      in spec_Resolve_loop start req V0 kls (case e of Some e \<Rightarrow> Some e | None \<Rightarrow> err) (V(k := v)))"

fun spec_writes :: "command \<Rightarrow> views \<Rightarrow> fault + (response option \<times> views)" where
  "spec_writes (CmdPrewrite r) V =
     (let (errs, V') = spec_Prewrite_loop (pw_StartVersion r) (pw_PrimaryLock r) (pw_LockTtl r) V
                         (pw_Mutations r) [] V
      in Inr (Some (PrewriteResponse errs), V'))"
| "spec_writes (CmdCommit r) V =
     (if cm_CommitVersion r \<le> cm_StartVersion r then Inl (Error ErrCommitTs)
      else let (err, V') = spec_Commit_loop (cm_StartVersion r) (cm_CommitVersion r) V (cm_Keys r) V
           in Inr (Some (CommitResponse err), V'))"
| "spec_writes (CmdRollback r) V =
     (let (err, V') = spec_Rollback_loop (rb_StartVersion r) V (rb_Keys r) V
      in Inr (Some (BatchRollbackResponse err), V'))"
| "spec_writes (CmdCheckTxnStatus r) V =
     (let (resp, v) = spec_check (ct_LockTs r) (ct_CurrentTs r) (V (ct_PrimaryKey r))
      in Inr (Some (CheckTxnResponse resp), V(ct_PrimaryKey r := v)))"
| "spec_writes (CmdResolveLock r kls) V =
     (let (err, V') = spec_Resolve_loop (rl_StartVersion r) r V kls None V
      in Inr (Some (ResolveLockResponse err), V'))"
| "spec_writes cmd V = Inr (None, V)"

text \<open>
  A request of the interface: the operation of a mutation is one of the enumeration \<open>Op\<close>
  (\<open>Put\<close> 0, \<open>Del\<close> 1, \<open>Rollback\<close> 2, \<open>Lock\<close> 3), so that the kind stored in a lock fits its byte.
\<close>

fun cmd_wf :: "command \<Rightarrow> bool" where
  "cmd_wf (CmdPrewrite r) \<longleftrightarrow> list_all (\<lambda>m. 0 \<le> mut_Op m \<and> mut_Op m \<le> 3) (pw_Mutations r)"
| "cmd_wf cmd \<longleftrightarrow> True"

section \<open>One key\<close>

context snapshot_reader
begin

lemma prewrite_key:
  assumes wf: "mvcc_wf kv" and rd: "tx_Reader txn = rd" and now: "mvcc_wf (txn_kv kv txn)"
    and op: "0 \<le> mut_Op m" "mut_Op m \<le> 3"
  shows "\<exists>txn'. prewriteMutation req txn m
           = Inr (fst (prewrite_over (tx_StartTS txn) (pw_PrimaryLock req) (pw_LockTtl req) m
                         (kviews kv (mut_Key m)) (kviews (txn_kv kv txn) (mut_Key m))), txn')
         \<and> moved kv txn txn' (mut_Key m)
             (snd (prewrite_over (tx_StartTS txn) (pw_PrimaryLock req) (pw_LockTtl req) m
                     (kviews kv (mut_Key m)) (kviews (txn_kv kv txn) (mut_Key m))))"
proof -
  let ?v = "kviews (txn_kv kv txn) (mut_Key m)"
  have mv: "moved kv txn txn (mut_Key m) ?v" by (rule moved_refl [OF now])
  let ?l = "\<lparr>lk_Primary = pw_PrimaryLock req, lk_Ts = tx_StartTS txn, lk_Ttl = pw_LockTtl req,
             lk_Kind = mut_Op m + 1\<rparr>"
  have lk: "moved kv txn (PutLock txn (mut_Key m) ?l) (mut_Key m) (?v\<lparr>v_lock := Some ?l\<rparr>)"
    using op by (intro moved_PutLock [OF mv]) simp_all
  have eq: "prewriteMutation req txn m =
     Inr (case newer_commit (tx_StartTS txn) (v_hist (kviews kv (mut_Key m))) of
        Some c \<Rightarrow> (Some (no_KeyError\<lparr>ke_Conflict := Some \<lparr>wc_StartTs = tx_StartTS txn,
            wc_ConflictTs = c, wc_Key = mut_Key m, wc_Primary = pw_PrimaryLock req\<rparr>\<rparr>), txn)
      | None \<Rightarrow>
          (case (v_lock (kviews kv (mut_Key m)), own_lock (tx_StartTS txn) (kviews kv (mut_Key m))) of
             (Some l, None) \<Rightarrow>
               (Some (no_KeyError\<lparr>ke_Locked := Some (Lock_Info l (mut_Key m)),
                   ke_Conflict := Some \<lparr>wc_StartTs = tx_StartTS txn, wc_ConflictTs = lk_Ts l,
                      wc_Key = mut_Key m, wc_Primary = pw_PrimaryLock req\<rparr>\<rparr>), txn)
           | _ \<Rightarrow> (None, if mut_Op m = Op_Put then PutValue (PutLock txn (mut_Key m) ?l) (mut_Key m) (mut_Value m)
                          else if mut_Op m = Op_Del then DeleteValue (PutLock txn (mut_Key m) ?l) (mut_Key m)
                          else PutLock txn (mut_Key m) ?l)))"
    by (auto simp: prewriteMutation_def MostRecentWrite_def most_recent [OF wf rd] get_lock [OF wf rd]
        newer_commit_def own_lock_def kviews_def Let_def split: list.splits option.splits)
  show ?thesis
    using mv lk moved_PutValue [OF lk] moved_DeleteValue [OF lk]
    by (auto simp: eq prewrite_over_def Let_def split: option.splits)
qed

lemma commit_key:
  assumes wf: "mvcc_wf kv" and rd: "tx_Reader txn = rd" and now: "mvcc_wf (txn_kv kv txn)"
  shows "\<exists>txn'. commitKey k commit txn
           = Inr (fst (commit_over (tx_StartTS txn) commit k (kviews kv k) (kviews (txn_kv kv txn) k)), txn')
         \<and> moved kv txn txn' k (snd (commit_over (tx_StartTS txn) commit k (kviews kv k) (kviews (txn_kv kv txn) k)))"
proof -
  let ?r = "commit_over (tx_StartTS txn) commit k (kviews kv k) (kviews (txn_kv kv txn) k)"
  have mv: "moved kv txn txn k (kviews (txn_kv kv txn) k)" by (rule moved_refl [OF now])
  have eq: "commitKey k commit txn =
      (case own_lock (tx_StartTS txn) (kviews kv k) of
         Some l \<Rightarrow> Inr (None, DeleteLock (PutWrite txn k commit \<lparr>w_StartTS = tx_StartTS txn, w_Kind = lk_Kind l\<rparr>) k)
       | None \<Rightarrow> Inr (fst ?r, txn))"
    by (auto simp: commitKey_def get_lock [OF wf rd] current_write [OF wf rd] own_lock_def kviews_def
        commit_over_def Let_def split: option.splits prod.splits)
  show ?thesis
  proof (cases "own_lock (tx_StartTS txn) (kviews kv k)")
    case None
    with mv show ?thesis
      by (auto simp: eq commit_over_def split: option.splits prod.splits)
  next
    case (Some l)
    then have l: "lock_at kv k = Some l" by (simp add: own_lock_Some kviews_def)
    have "moved kv txn (DeleteLock (PutWrite txn k commit \<lparr>w_StartTS = tx_StartTS txn, w_Kind = lk_Kind l\<rparr>) k) k (snd ?r)"
      using moved_DeleteLock [OF moved_PutWrite [OF mv], of "\<lparr>w_StartTS = tx_StartTS txn, w_Kind = lk_Kind l\<rparr>" commit]
        lock_at_kind [OF l] Some by (simp add: commit_over_def)
    with Some show ?thesis by (simp add: eq commit_over_def)
  qed
qed

lemma rollback_key:
  assumes wf: "mvcc_wf kv" and rd: "tx_Reader txn = rd" and now: "mvcc_wf (txn_kv kv txn)"
  shows "\<exists>txn'. rollbackKey k txn
           = Inr (fst (rollback_over (tx_StartTS txn) k (kviews kv k) (kviews (txn_kv kv txn) k)), txn')
         \<and> moved kv txn txn' k (snd (rollback_over (tx_StartTS txn) k (kviews kv k) (kviews (txn_kv kv txn) k)))"
proof -
  have mv: "moved kv txn txn k (kviews (txn_kv kv txn) k)" by (rule moved_refl [OF now])
  let ?start = "tx_StartTS txn"
  have kind: "0 \<le> w_Kind (rollback_rec ?start)" "w_Kind (rollback_rec ?start) < 256"
    by (simp_all add: kind_consts)
  note put = moved_PutWrite [OF _ kind]
  have "rollbackKey k txn =
      (case own_lock ?start (kviews kv k) of
         Some l \<Rightarrow> Inr (None, DeleteLock (PutWrite (if lk_Kind l = WriteKindPut then DeleteValue txn k else txn)
                                 k ?start (rollback_rec ?start)) k)
       | None \<Rightarrow> Inr (fst (rollback_over ?start k (kviews kv k) (kviews (txn_kv kv txn) k)),
                  if fst (current_scan ?start (v_hist (kviews kv k))) = None
                  then PutWrite txn k ?start (rollback_rec ?start) else txn))"
    by (auto simp: rollbackKey_def get_lock [OF wf rd] current_write [OF wf rd] own_lock_def kviews_def
        rollback_over_def rollback_rec_def Let_def split: option.splits prod.splits)
  then show ?thesis
    using mv put [OF mv, of ?start] moved_DeleteLock [OF put [OF mv], of ?start]
      moved_DeleteLock [OF put [OF moved_DeleteValue [OF mv]], of ?start]
    by (auto simp: rollback_over_def undo_lock_def split: option.splits prod.splits)
qed

lemma check_key:
  assumes wf: "mvcc_wf kv" and rd: "tx_Reader txn = rd" and now: "mvcc_wf (txn_kv kv txn)"
    and same: "kviews (txn_kv kv txn) (ct_PrimaryKey req) = kviews kv (ct_PrimaryKey req)"
  shows "\<exists>txn'. CheckTxnStatus_PrepareWrites req txn
           = Inr (CheckTxnResponse (fst (spec_check (tx_StartTS txn) (ct_CurrentTs req)
                                           (kviews kv (ct_PrimaryKey req)))), txn')
         \<and> moved kv txn txn' (ct_PrimaryKey req)
             (snd (spec_check (tx_StartTS txn) (ct_CurrentTs req) (kviews kv (ct_PrimaryKey req))))"
proof -
  let ?k = "ct_PrimaryKey req" let ?start = "tx_StartTS txn"
  have mv: "moved kv txn txn ?k (kviews kv ?k)"
    using moved_refl [OF now, of ?k] same by simp
  have kind: "0 \<le> w_Kind (rollback_rec ?start)" "w_Kind (rollback_rec ?start) < 256"
    by (simp_all add: kind_consts)
  note put = moved_PutWrite [OF _ kind]
  let ?undo = "\<lambda>t. DeleteLock t ?k" let ?rb = "PutWrite txn ?k ?start (rollback_rec ?start)"
  have "CheckTxnStatus_PrepareWrites req txn =
      Inr (CheckTxnResponse (fst (spec_check ?start (ct_CurrentTs req) (kviews kv ?k))),
        case own_lock ?start (kviews kv ?k) of
          Some l \<Rightarrow> if physical ?start + lk_Ttl l < physical (ct_CurrentTs req)
                     then ?undo (if lk_Kind l = WriteKindPut then DeleteValue ?rb ?k else ?rb) else txn
        | None \<Rightarrow> if fst (current_scan ?start (v_hist (kviews kv ?k))) = None then ?undo ?rb else txn)"
    by (auto simp: CheckTxnStatus_PrepareWrites_def get_lock [OF wf rd] current_write [OF wf rd]
        own_lock_def kviews_def spec_check_def rollback_rec_def Let_def split: option.splits prod.splits)
  then show ?thesis
    using mv moved_DeleteLock [OF put [OF mv], of ?start]
      moved_DeleteLock [OF moved_DeleteValue [OF put [OF mv]], of ?start]
    by (auto simp: spec_check_def undo_lock_def Let_def split: option.splits prod.splits)
qed

section \<open>The loops over the keys of a request\<close>

lemma prewrite_loop:
  assumes wf: "mvcc_wf kv"
  shows "list_all (\<lambda>m. 0 \<le> mut_Op m \<and> mut_Op m \<le> 3) ms \<Longrightarrow> tx_Reader txn = rd \<Longrightarrow> mvcc_wf (txn_kv kv txn) \<Longrightarrow>
    \<exists>txn'. Prewrite_loop req ms errs txn
        = Inr (fst (spec_Prewrite_loop (tx_StartTS txn) (pw_PrimaryLock req) (pw_LockTtl req) (kviews kv) ms errs
                      (kviews (txn_kv kv txn))), txn')
      \<and> mvcc_wf (txn_kv kv txn')
      \<and> kviews (txn_kv kv txn') = snd (spec_Prewrite_loop (tx_StartTS txn) (pw_PrimaryLock req)
                                        (pw_LockTtl req) (kviews kv) ms errs (kviews (txn_kv kv txn)))"
proof (induction ms arbitrary: errs txn)
  case (Cons m ms)
  let ?r = "prewrite_over (tx_StartTS txn) (pw_PrimaryLock req) (pw_LockTtl req) m
    (kviews kv (mut_Key m)) (kviews (txn_kv kv txn) (mut_Key m))"
  obtain txn1 where t1: "prewriteMutation req txn m = Inr (fst ?r, txn1)"
    and mv: "moved kv txn txn1 (mut_Key m) (snd ?r)"
    using prewrite_key [OF wf, of txn m req] Cons.prems by auto
  have "list_all (\<lambda>m. 0 \<le> mut_Op m \<and> mut_Op m \<le> 3) ms" "tx_Reader txn1 = rd" "mvcc_wf (txn_kv kv txn1)"
    using Cons.prems mv by (simp_all add: moved_def)
  note ih = Cons.IH [OF this, of "case fst ?r of None \<Rightarrow> errs | Some e \<Rightarrow> errs @ [e]"]
  have eq: "Prewrite_loop req (m # ms) errs txn =
      Prewrite_loop req ms (case fst ?r of None \<Rightarrow> errs | Some e \<Rightarrow> errs @ [e]) txn1"
    using t1 by simp
  have eq': "spec_Prewrite_loop (tx_StartTS txn) (pw_PrimaryLock req) (pw_LockTtl req) (kviews kv) (m # ms) errs (kviews (txn_kv kv txn)) =
      spec_Prewrite_loop (tx_StartTS txn1) (pw_PrimaryLock req) (pw_LockTtl req) (kviews kv) ms
        (case fst ?r of None \<Rightarrow> errs | Some e \<Rightarrow> errs @ [e]) (kviews (txn_kv kv txn1))"
    using mv by (simp add: moved_def case_prod_beta)
  show ?case unfolding eq eq' by (rule ih)
qed simp

lemma commit_loop:
  assumes wf: "mvcc_wf kv"
  shows "tx_Reader txn = rd \<Longrightarrow> mvcc_wf (txn_kv kv txn) \<Longrightarrow>
    \<exists>txn'. Commit_loop ks commit txn
        = Inr (fst (spec_Commit_loop (tx_StartTS txn) commit (kviews kv) ks (kviews (txn_kv kv txn))), txn')
      \<and> mvcc_wf (txn_kv kv txn')
      \<and> kviews (txn_kv kv txn') = snd (spec_Commit_loop (tx_StartTS txn) commit (kviews kv) ks (kviews (txn_kv kv txn)))"
proof (induction ks arbitrary: txn)
  case (Cons k ks)
  let ?r = "commit_over (tx_StartTS txn) commit k (kviews kv k) (kviews (txn_kv kv txn) k)"
  obtain txn1 where t1: "commitKey k commit txn = Inr (fst ?r, txn1)"
    and mv: "moved kv txn txn1 k (snd ?r)"
    using commit_key [OF wf, of txn k commit] Cons.prems by auto
  obtain e v where r: "?r = (e, v)" by fastforce
  have V: "(kviews (txn_kv kv txn))(k := v) = kviews (txn_kv kv txn1)" "tx_StartTS txn1 = tx_StartTS txn"
    using mv r by (simp_all add: moved_def)
  show ?case
  proof (cases e)
    case None
    have "tx_Reader txn1 = rd" "mvcc_wf (txn_kv kv txn1)" using Cons.prems mv by (simp_all add: moved_def)
    from Cons.IH [OF this] t1 r None show ?thesis by (simp add: V)
  next
    case (Some x)
    then show ?thesis using t1 r mv by (simp add: V(1)) (simp add: moved_def)
  qed
qed simp

lemma rollback_loop:
  assumes wf: "mvcc_wf kv"
  shows "tx_Reader txn = rd \<Longrightarrow> mvcc_wf (txn_kv kv txn) \<Longrightarrow>
    \<exists>txn'. Rollback_loop ks txn
        = Inr (fst (spec_Rollback_loop (tx_StartTS txn) (kviews kv) ks (kviews (txn_kv kv txn))), txn')
      \<and> mvcc_wf (txn_kv kv txn')
      \<and> kviews (txn_kv kv txn') = snd (spec_Rollback_loop (tx_StartTS txn) (kviews kv) ks (kviews (txn_kv kv txn)))"
proof (induction ks arbitrary: txn)
  case (Cons k ks)
  let ?r = "rollback_over (tx_StartTS txn) k (kviews kv k) (kviews (txn_kv kv txn) k)"
  obtain txn1 where t1: "rollbackKey k txn = Inr (fst ?r, txn1)"
    and mv: "moved kv txn txn1 k (snd ?r)"
    using rollback_key [OF wf, of txn k] Cons.prems by auto
  obtain e v where r: "?r = (e, v)" by fastforce
  have V: "(kviews (txn_kv kv txn))(k := v) = kviews (txn_kv kv txn1)" "tx_StartTS txn1 = tx_StartTS txn"
    using mv r by (simp_all add: moved_def)
  show ?case
  proof (cases e)
    case None
    have "tx_Reader txn1 = rd" "mvcc_wf (txn_kv kv txn1)" using Cons.prems mv by (simp_all add: moved_def)
    from Cons.IH [OF this] t1 r None show ?thesis by (simp add: V)
  next
    case (Some x)
    then show ?thesis using t1 r mv by (simp add: V(1)) (simp add: moved_def)
  qed
qed simp

lemma resolve_loop:
  assumes wf: "mvcc_wf kv"
  shows "tx_Reader txn = rd \<Longrightarrow> mvcc_wf (txn_kv kv txn) \<Longrightarrow>
    \<exists>txn'. ResolveLock_loop req kls err txn
        = Inr (fst (spec_Resolve_loop (tx_StartTS txn) req (kviews kv) kls err (kviews (txn_kv kv txn))), txn')
      \<and> mvcc_wf (txn_kv kv txn')
      \<and> kviews (txn_kv kv txn') = snd (spec_Resolve_loop (tx_StartTS txn) req (kviews kv) kls err (kviews (txn_kv kv txn)))"
proof (induction kls arbitrary: err txn)
  case (Cons kl kls)
  obtain k l where kl: "kl = (k, l)" by (cases kl)
  let ?c = "lk_Ts l \<le> rl_CommitVersion req \<and> rl_StartVersion req \<le> lk_Ts l"
  let ?r = "if ?c then commit_over (tx_StartTS txn) (rl_CommitVersion req) k (kviews kv k) (kviews (txn_kv kv txn) k)
            else rollback_over (tx_StartTS txn) k (kviews kv k) (kviews (txn_kv kv txn) k)"
  obtain txn1 where
    t1: "(if ?c then commitKey k (rl_CommitVersion req) txn else rollbackKey k txn) = Inr (fst ?r, txn1)"
    and mv: "moved kv txn txn1 k (snd ?r)"
    using commit_key [OF wf, of txn k "rl_CommitVersion req"] rollback_key [OF wf, of txn k] Cons.prems
    by (cases ?c) auto
  have eq: "ResolveLock_loop req (kl # kls) err txn =
      ResolveLock_loop req kls (case fst ?r of Some e \<Rightarrow> Some e | None \<Rightarrow> err) txn1"
    using t1 by (simp only: kl ResolveLock_loop.simps bindR_simps prod.case)
  have eq': "spec_Resolve_loop (tx_StartTS txn) req (kviews kv) (kl # kls) err (kviews (txn_kv kv txn)) =
      spec_Resolve_loop (tx_StartTS txn1) req (kviews kv) kls (case fst ?r of Some e \<Rightarrow> Some e | None \<Rightarrow> err)
        (kviews (txn_kv kv txn1))"
    using mv by (simp only: kl spec_Resolve_loop.simps Let_def case_prod_beta moved_def)
  have "tx_Reader txn1 = rd" "mvcc_wf (txn_kv kv txn1)" using Cons.prems mv by (simp_all add: moved_def)
  then show ?case unfolding eq eq' by (rule Cons.IH)
qed simp

lemma prepare_writes:
  assumes wf: "mvcc_wf kv" and cmd: "cmd_wf cmd"
  shows "case spec_writes cmd (kviews kv) of
      Inl e \<Rightarrow> cmd_PrepareWrites cmd (NewTxn rd (cmd_StartTs cmd)) = Inl e
    | Inr (resp, V) \<Rightarrow> \<exists>txn'. cmd_PrepareWrites cmd (NewTxn rd (cmd_StartTs cmd)) = Inr (resp, txn')
        \<and> mvcc_wf (txn_kv kv txn') \<and> kviews (txn_kv kv txn') = V"
proof -
  let ?t = "NewTxn rd (cmd_StartTs cmd)"
  have t: "tx_Reader ?t = rd" "txn_kv kv ?t = kv" "tx_StartTS ?t = cmd_StartTs cmd"
    by (simp_all add: NewTxn_def txn_kv_def)
  show ?thesis
  proof (cases cmd)
    case (CmdPrewrite r)
    with prewrite_loop [OF wf, of "pw_Mutations r" ?t r "[]"] cmd t wf show ?thesis
      by (auto simp: Prewrite_PrepareWrites_def case_prod_beta)
  next
    case (CmdCommit r)
    with commit_loop [OF wf, of ?t "cm_Keys r" "cm_CommitVersion r"] cmd t wf show ?thesis
      by (auto simp: Commit_PrepareWrites_def case_prod_beta)
  next
    case (CmdRollback r)
    with rollback_loop [OF wf, of ?t "rb_Keys r"] cmd t wf show ?thesis
      by (auto simp: Rollback_PrepareWrites_def case_prod_beta)
  next
    case (CmdCheckTxnStatus r)
    with check_key [OF wf, of ?t r] cmd t wf show ?thesis
      by (auto simp: moved_def case_prod_beta)
  next
    case (CmdResolveLock r kls)
    with resolve_loop [OF wf, of ?t r kls None] cmd t wf show ?thesis
      by (auto simp: ResolveLock_PrepareWrites_def case_prod_beta)
  qed (use t wf in auto)
qed

section \<open>The locks of a transaction\<close>

lemma all_locks_loop:
  "\<forall>e \<in> set m. wf_lock_entry e \<Longrightarrow>
   AllLocks_loop start (map (\<lambda>(k, v). (k, Inr v)) m) acc
     = Inr (acc @ filter (\<lambda>(k, l). lk_Ts l = start)
              (map (\<lambda>(k, v). (k, projr (ParseLock (the v)))) m))"
proof (induction m arbitrary: acc)
  case (Cons e m)
  then obtain k b where "e = (k, Some b)" "16 < length b" by (cases e) (auto simp: wf_lock_entry_def)
  with Cons show ?case by (auto simp: ParseLock_def Let_def)
qed simp

lemma all_locks:
  assumes wf: "mvcc_wf kv" and rd: "tx_Reader txn = rd"
  shows "\<exists>kls. AllLocksForTxn txn = Inr kls \<and> distinct (map fst kls)
    \<and> (\<forall>k l. (k, l) \<in> set kls \<longleftrightarrow> lock_at kv k = Some l \<and> lk_Ts l = tx_StartTS txn)"
proof -
  let ?m = "kv CfLock" let ?p = "map (\<lambda>(k, v). (k, projr (ParseLock (the v)))) ?m"
  let ?kls = "filter (\<lambda>(k, l). lk_Ts l = tx_StartTS txn) ?p"
  have w: "\<forall>e \<in> set ?m. wf_lock_entry e" using wf by (simp add: mvcc_wf_def)
  have srt: "cf_sorted ?m" using wf by (simp add: mvcc_wf_def kv_sorted_def)
  have "it_Seek rd CfLock [] = map (\<lambda>(k, v). (k, Inr v)) ?m"
    by (simp add: seek)
  then have "AllLocksForTxn txn = Inr ?kls"
    using all_locks_loop [OF w, of "tx_StartTS txn" "[]"] by (simp add: AllLocksForTxn_def rd)
  moreover have "distinct (map fst ?kls)"
  proof -
    have "map fst ?p = map fst ?m" by (simp add: case_prod_beta)
    then have "distinct (map fst ?p)" using cf_sorted_distinct [OF srt] by metis
    then show ?thesis by (rule distinct_map_filter)
  qed
  moreover have "lock_at kv k = Some l \<longleftrightarrow> (k, l) \<in> set ?p" for k l
  proof
    assume "lock_at kv k = Some l"
    then obtain b where "cf_get ?m k = Some b" "ParseLock b = Inr l"
      by (auto simp: lock_at_def split: option.splits sum.splits)
    with cf_get_Some_mem have "(k, Some b) \<in> set ?m" by blast
    with \<open>ParseLock b = Inr l\<close> show "(k, l) \<in> set ?p" by force
  next
    assume "(k, l) \<in> set ?p"
    then obtain v where m: "(k, v) \<in> set ?m" "l = projr (ParseLock (the v))" by auto
    with w obtain b where "v = Some b" "16 < length b" by (auto simp: wf_lock_entry_def dest!: bspec)
    with m cf_get_mem [OF srt m(1)] show "lock_at kv k = Some l"
      by (simp add: lock_at_def ParseLock_def Let_def)
  qed
  ultimately show ?thesis by auto
qed

end

section \<open>Commands on a storage engine\<close>

context storage_spec
begin

lemma run_writes_refines:
  assumes s: "inv s" and wf: "mvcc_wf (content s)" and cmd: "cmd_wf cmd"
  shows "case spec_writes cmd (kviews (content s)) of
      Inl e \<Rightarrow> run_writes ops ctx cmd s = Inl e
    | Inr (resp, V) \<Rightarrow> \<exists>s'. run_writes ops ctx cmd s = Inr (resp, s') \<and> inv s'
        \<and> mvcc_wf (content s') \<and> kviews (content s') = V"
proof -
  obtain rd where rd: "st_Reader ops s ctx = Inr rd" "snapshot_reader rd (content s)"
    using reader [OF s] by blast
  note prep = snapshot_reader.prepare_writes [OF rd(2) wf cmd]
  show ?thesis
  proof (cases "spec_writes cmd (kviews (content s))")
    case (Inl e)
    with prep rd show ?thesis by (simp add: run_writes_def)
  next
    case (Inr r)
    obtain resp V where r: "r = (resp, V)" by (cases r)
    with prep Inr obtain txn where
      txn: "cmd_PrepareWrites cmd (NewTxn rd (cmd_StartTs cmd)) = Inr (resp, txn)"
      "mvcc_wf (txn_kv (content s) txn)" "kviews (txn_kv (content s) txn) = V" by auto
    from write_batch [OF s, of ctx "tx_writes txn"] obtain s' where
      "st_Write ops s ctx (tx_writes txn) = Inr s'" "inv s'"
      "content s' = txn_kv (content s) txn" by (auto simp: txn_kv_def)
    with txn rd Inr r show ?thesis by (simp add: run_writes_def)
  qed
qed

end

end
