(* ===== verification/MemStore.thy ===== *)
theory MemStore
  imports Engine
begin

text \<open>
  The in-memory storage engine of \<open>kv/storage/mem_storage.go\<close>. Its three trees come from
  the package \<open>GoLLRB\<close>, which is not part of the repository: \<open>L\<close> carries the operations the
  engine calls, and \<open>llrb_spec\<close> states their documented behaviour (an ordered set of items,
  compared by the engine's own \<open>Less\<close>). Under that contract the engine's reader is a snapshot
  of its content, its iterator walks the items in order, and a write applies its batch.
\<close>

section \<open>Items and the tree interface\<close>

record memItem =
  mi_key :: bytes
  mi_value :: goslice
  mi_fresh :: bool

definition key_item :: "bytes \<Rightarrow> memItem" where
  "key_item k = \<lparr>mi_key = k, mi_value = None, mi_fresh = False\<rparr>"

definition memItem_Less :: "memItem \<Rightarrow> memItem \<Rightarrow> bool" where
  "memItem_Less it than = (bytes_Compare (mi_key it) (mi_key than) < 0)"

text \<open>
  \<open>AscendGreaterOrEqual\<close> calls a closure on the items from a pivot on until it returns false;
  \<open>llrb_AscendGE\<close> is the sequence of items it would offer.
\<close>

record 't llrb =
  llrb_New :: 't
  llrb_ReplaceOrInsert :: "'t \<Rightarrow> memItem \<Rightarrow> 't"
  llrb_Delete :: "'t \<Rightarrow> memItem \<Rightarrow> 't"
  llrb_Get :: "'t \<Rightarrow> memItem \<Rightarrow> memItem option"
  llrb_Min :: "'t \<Rightarrow> memItem option"
  llrb_Len :: "'t \<Rightarrow> nat"
  llrb_AscendGE :: "'t \<Rightarrow> memItem \<Rightarrow> memItem list"

section \<open>The engine\<close>

record 't MemStorage =
  ms_CfDefault :: 't
  ms_CfLock :: 't
  ms_CfWrite :: 't

definition NewMemStorage :: "'t llrb \<Rightarrow> 't MemStorage" where
  "NewMemStorage L = \<lparr>ms_CfDefault = llrb_New L, ms_CfLock = llrb_New L, ms_CfWrite = llrb_New L\<rparr>"

definition mem_Write1 :: "'t llrb \<Rightarrow> 't MemStorage \<Rightarrow> modify \<Rightarrow> 't MemStorage" where
  "mem_Write1 L s m =
     (case m of
        Put k v cf \<Rightarrow>
          let item = \<lparr>mi_key = k, mi_value = v, mi_fresh = False\<rparr>
          in if cf = CfDefault
             then s\<lparr>ms_CfDefault := llrb_ReplaceOrInsert L (ms_CfDefault s) item\<rparr>
             else if cf = CfLock
             then s\<lparr>ms_CfLock := llrb_ReplaceOrInsert L (ms_CfLock s) item\<rparr>
             else if cf = CfWrite
             then s\<lparr>ms_CfWrite := llrb_ReplaceOrInsert L (ms_CfWrite s) item\<rparr>
             else s
      | Delete k cf \<Rightarrow>
          let item = key_item k
          in if cf = CfDefault then s\<lparr>ms_CfDefault := llrb_Delete L (ms_CfDefault s) item\<rparr>
             else if cf = CfLock then s\<lparr>ms_CfLock := llrb_Delete L (ms_CfLock s) item\<rparr>
             else if cf = CfWrite then s\<lparr>ms_CfWrite := llrb_Delete L (ms_CfWrite s) item\<rparr>
             else s)"

definition MemStorage_Write :: "'t llrb \<Rightarrow> 't MemStorage \<Rightarrow> modify list \<Rightarrow> 't MemStorage" where
  "MemStorage_Write L s batch = foldl (mem_Write1 L) s batch"

definition mem_tree :: "'t MemStorage \<Rightarrow> string \<Rightarrow> 't option" where
  "mem_tree s cf =
     (if cf = CfDefault then Some (ms_CfDefault s)
      else if cf = CfLock then Some (ms_CfLock s)
      else if cf = CfWrite then Some (ms_CfWrite s)
      else None)"

definition MemStorage_Get :: "'t llrb \<Rightarrow> 't MemStorage \<Rightarrow> string \<Rightarrow> bytes \<Rightarrow> goslice" where
  "MemStorage_Get L s cf key =
     (case mem_tree s cf of
        None \<Rightarrow> None
      | Some t \<Rightarrow> (case llrb_Get L t (key_item key) of None \<Rightarrow> None | Some i \<Rightarrow> mi_value i))"

definition MemStorage_Set ::
    "'t llrb \<Rightarrow> 't MemStorage \<Rightarrow> string \<Rightarrow> bytes \<Rightarrow> goslice \<Rightarrow> 't MemStorage" where
  "MemStorage_Set L s cf key value =
     (let item = \<lparr>mi_key = key, mi_value = value, mi_fresh = True\<rparr>
      in if cf = CfDefault
         then s\<lparr>ms_CfDefault := llrb_ReplaceOrInsert L (ms_CfDefault s) item\<rparr>
         else if cf = CfLock
         then s\<lparr>ms_CfLock := llrb_ReplaceOrInsert L (ms_CfLock s) item\<rparr>
         else if cf = CfWrite
         then s\<lparr>ms_CfWrite := llrb_ReplaceOrInsert L (ms_CfWrite s) item\<rparr>
         else s)"

definition MemStorage_HasChanged :: "'t llrb \<Rightarrow> 't MemStorage \<Rightarrow> string \<Rightarrow> bytes \<Rightarrow> bool" where
  "MemStorage_HasChanged L s cf key =
     (case mem_tree s cf of
        None \<Rightarrow> True
      | Some t \<Rightarrow> (case llrb_Get L t (key_item key) of None \<Rightarrow> True | Some i \<Rightarrow> \<not> mi_fresh i))"

definition MemStorage_Len :: "'t llrb \<Rightarrow> 't MemStorage \<Rightarrow> string \<Rightarrow> int" where
  "MemStorage_Len L s cf =
     (case mem_tree s cf of None \<Rightarrow> -1 | Some t \<Rightarrow> int (llrb_Len L t))"

section \<open>Its reader and iterator\<close>

record 't memReader =
  mr_inner :: "'t MemStorage"
  mr_iterCount :: int

definition MemStorage_Reader :: "'t MemStorage \<Rightarrow> 't memReader" where
  "MemStorage_Reader s = \<lparr>mr_inner = s, mr_iterCount = 0\<rparr>"

definition memReader_GetCF :: "'t llrb \<Rightarrow> 't memReader \<Rightarrow> string \<Rightarrow> bytes \<Rightarrow> gerror + goslice" where
  "memReader_GetCF L mr cf key =
     (case mem_tree (mr_inner mr) cf of
        None \<Rightarrow> Inl (ErrBadCF cf)
      | Some t \<Rightarrow> Inr (case llrb_Get L t (key_item key) of None \<Rightarrow> None | Some i \<Rightarrow> mi_value i))"

text \<open>The zero \<open>memItem\<close>, whose key is nil, marks an exhausted iterator: \<open>None\<close>.\<close>

record 't memIter =
  it_data :: 't
  it_item :: "memItem option"

definition memReader_IterCF :: "'t llrb \<Rightarrow> 't memReader \<Rightarrow> string \<Rightarrow> 't memIter option \<times> 't memReader" where
  "memReader_IterCF L mr cf =
     (case mem_tree (mr_inner mr) cf of
        None \<Rightarrow> (None, mr)
      | Some t \<Rightarrow> (Some \<lparr>it_data = t, it_item = llrb_Min L t\<rparr>,
                   mr\<lparr>mr_iterCount := mr_iterCount mr + 1\<rparr>))"

definition memReader_Close :: "'t memReader \<Rightarrow> fault + unit" where
  "memReader_Close mr = (if mr_iterCount mr > 0 then Inl (Panic ''Unclosed iterator'') else Inr ())"

definition memIter_Valid :: "'t memIter \<Rightarrow> bool" where
  "memIter_Valid it = (it_item it \<noteq> None)"

definition memIter_Next :: "'t llrb \<Rightarrow> 't memIter \<Rightarrow> 't memIter" where
  "memIter_Next L it =
     (let old = (case it_item it of None \<Rightarrow> key_item [] | Some i \<Rightarrow> i)
      in it\<lparr>it_item := (case llrb_AscendGE L (it_data it) old of
                           first # i # _ \<Rightarrow> Some i
                         | _ \<Rightarrow> None)\<rparr>)"

definition memIter_Seek :: "'t llrb \<Rightarrow> 't memIter \<Rightarrow> bytes \<Rightarrow> 't memIter" where
  "memIter_Seek L it key =
     it\<lparr>it_item := (case llrb_AscendGE L (it_data it) (key_item key) of
                       i # _ \<Rightarrow> Some i
                     | [] \<Rightarrow> None)\<rparr>"

definition memIter_Close :: "'t memReader \<Rightarrow> 't memReader" where
  "memIter_Close mr = mr\<lparr>mr_iterCount := mr_iterCount mr - 1\<rparr>"

section \<open>The contract of the tree package\<close>

text \<open>
  A tree holds a sequence of items in strictly ascending order of their keys.
\<close>

definition items_sorted :: "memItem list \<Rightarrow> bool" where
  "items_sorted is = sorted_wrt memItem_Less is"

locale llrb_spec =
  fixes L :: "'t llrb" and items :: "'t \<Rightarrow> memItem list" and ok :: "'t \<Rightarrow> bool"
  assumes ok_sorted: "ok t \<Longrightarrow> items_sorted (items t)"
    and new_ok: "ok (llrb_New L)" and new_items: "items (llrb_New L) = []"
    and insert_ok: "ok t \<Longrightarrow> ok (llrb_ReplaceOrInsert L t i)"
    and insert_items: "ok t \<Longrightarrow> set (items (llrb_ReplaceOrInsert L t i))
           = insert i {j \<in> set (items t). memItem_Less i j \<or> memItem_Less j i}"
    and delete_ok: "ok t \<Longrightarrow> ok (llrb_Delete L t i)"
    and delete_items: "ok t \<Longrightarrow> set (items (llrb_Delete L t i))
           = {j \<in> set (items t). memItem_Less i j \<or> memItem_Less j i}"
    and get_item: "ok t \<Longrightarrow> llrb_Get L t i
           = find (\<lambda>j. \<not> memItem_Less i j \<and> \<not> memItem_Less j i) (items t)"
    and min_item: "ok t \<Longrightarrow> llrb_Min L t = (case items t of [] \<Rightarrow> None | i # _ \<Rightarrow> Some i)"
    and len_items: "ok t \<Longrightarrow> llrb_Len L t = length (items t)"
    and ascend_items: "ok t \<Longrightarrow> llrb_AscendGE L t i = filter (\<lambda>j. \<not> memItem_Less j i) (items t)"

definition item_entry :: "memItem \<Rightarrow> bytes \<times> goslice" where
  "item_entry i = (mi_key i, mi_value i)"

definition tree_content :: "('t \<Rightarrow> memItem list) \<Rightarrow> 't \<Rightarrow> cfdata" where
  "tree_content items t = map item_entry (items t)"

definition mem_content :: "('t \<Rightarrow> memItem list) \<Rightarrow> 't MemStorage \<Rightarrow> kvstate" where
  "mem_content items s cf =
     (case mem_tree s cf of None \<Rightarrow> [] | Some t \<Rightarrow> tree_content items t)"

definition mem_ok :: "('t \<Rightarrow> bool) \<Rightarrow> 't MemStorage \<Rightarrow> bool" where
  "mem_ok ok s \<longleftrightarrow> ok (ms_CfDefault s) \<and> ok (ms_CfLock s) \<and> ok (ms_CfWrite s)"

text \<open>
  The engine as a client of the storage interface sees it: what its reader answers, with an
  iterator given by the items it walks through.
\<close>

definition mem_reader_view :: "'t llrb \<Rightarrow> 't MemStorage \<Rightarrow> reader" where
  "mem_reader_view L s =
     \<lparr>rd_GetCF = memReader_GetCF L (MemStorage_Reader s),
      rd_IterCF = (\<lambda>cf. case fst (memReader_IterCF L (MemStorage_Reader s) cf) of
          None \<Rightarrow> []
        | Some it \<Rightarrow> (case it_item it of
              None \<Rightarrow> []
            | Some i \<Rightarrow> map (\<lambda>j. (mi_key j, Inr (mi_value j))) (llrb_AscendGE L (it_data it) i)))\<rparr>"

definition mem_storage :: "'t llrb \<Rightarrow> ('t MemStorage, 'c) storage_api" where
  "mem_storage L =
     \<lparr>st_Reader = (\<lambda>s ctx. Inr (mem_reader_view L s)),
      st_Write = (\<lambda>s ctx batch. Inr (MemStorage_Write L s batch))\<rparr>"

section \<open>The engine meets the contracts\<close>

lemma memItem_Less_iff [simp]: "memItem_Less i j \<longleftrightarrow> mi_key i < mi_key j"
  by (simp add: memItem_Less_def)

lemma key_item_key [simp]: "mi_key (key_item k) = k"
  by (simp add: key_item_def)

lemma items_sorted_Cons [simp]:
  "items_sorted (i # is) \<longleftrightarrow> (\<forall>j \<in> set is. mi_key i < mi_key j) \<and> items_sorted is"
  by (simp add: items_sorted_def)

lemma items_sorted_content: "items_sorted is \<Longrightarrow> cf_sorted (map item_entry is)"
  by (induction "is") (auto simp: item_entry_def)

lemma find_item_get:
  "(case find (\<lambda>j. \<not> k < mi_key j \<and> \<not> mi_key j < k) is of None \<Rightarrow> None | Some i \<Rightarrow> mi_value i)
   = cf_get (map item_entry is) k"
  by (induction "is") (auto simp: cf_get_def item_entry_def)

lemma sorted_content_eqI:
  assumes "cf_sorted m" "cf_sorted m'" "set m = set m'"
  shows "m = m'"
  using assms
proof (induction m arbitrary: m')
  case (Cons i m)
  from Cons.prems obtain j n where m': "m' = j # n" by (cases m') auto
  have ij: "i = j"
  proof (rule ccontr)
    assume "i \<noteq> j"
    with Cons.prems m' have "i \<in> set n" "j \<in> set m" by auto
    with Cons.prems m' have "fst j < fst i" "fst i < fst j" by auto
    then show False by simp
  qed
  from Cons.prems m' ij have "i \<notin> set m" "i \<notin> set n" by auto
  with Cons.prems m' ij have "set m = set n" by auto
  with Cons.IH [of n] Cons.prems m' ij show ?case by simp
qed simp

lemma set_cf_put_sorted:
  "cf_sorted m \<Longrightarrow> set (cf_put k v m) = insert (k, v) {e \<in> set m. fst e \<noteq> k}"
proof (induction k v m rule: cf_put.induct)
  case (2 k v k' v' m)
  consider "k < k'" | "k = k'" | "k' < k" by fastforce
  then show ?case
  proof cases
    case 1
    with "2.prems" have "\<forall>e \<in> set m. fst e \<noteq> k" by force
    with 1 show ?thesis by auto
  next
    case 2
    with "2.prems" have "\<forall>e \<in> set m. fst e \<noteq> k" by force
    with 2 show ?thesis by auto
  next
    case 3
    with 2 show ?thesis by auto
  qed
qed simp

context llrb_spec
begin

lemma content_sorted: "ok t \<Longrightarrow> cf_sorted (tree_content items t)"
  by (simp add: tree_content_def items_sorted_content ok_sorted)

lemma content_insert:
  assumes "ok t"
  shows "tree_content items (llrb_ReplaceOrInsert L t \<lparr>mi_key = k, mi_value = v, mi_fresh = f\<rparr>)
         = cf_put k v (tree_content items t)"
proof (rule sorted_content_eqI)
  show "set (tree_content items (llrb_ReplaceOrInsert L t \<lparr>mi_key = k, mi_value = v, mi_fresh = f\<rparr>))
        = set (cf_put k v (tree_content items t))"
    unfolding set_cf_put_sorted [OF content_sorted [OF assms]]
    using assms by (auto simp: insert_items tree_content_def item_entry_def)
qed (simp_all add: assms content_sorted insert_ok cf_sorted_put)

lemma content_delete:
  assumes "ok t"
  shows "tree_content items (llrb_Delete L t i) = cf_del (mi_key i) (tree_content items t)"
proof (rule sorted_content_eqI)
  show "set (tree_content items (llrb_Delete L t i)) = set (cf_del (mi_key i) (tree_content items t))"
    using assms by (auto simp: cf_del_def delete_items tree_content_def item_entry_def)
qed (simp_all add: assms content_sorted delete_ok cf_sorted_del)

lemma write1:
  assumes "mem_ok ok s"
  shows "mem_ok ok (mem_Write1 L s m)"
    and "mem_content items (mem_Write1 L s m) = apply_modify (mem_content items s) m"
  using assms
  by (auto simp: mem_Write1_def mem_ok_def mem_content_def mem_tree_def apply_modify_def CFs_def
      content_insert content_delete insert_ok delete_ok fun_eq_iff Let_def split: modify.splits)

lemma write_ok: "mem_ok ok s \<Longrightarrow> mem_ok ok (MemStorage_Write L s ms)"
  unfolding MemStorage_Write_def by (induction ms arbitrary: s) (simp_all add: write1)

lemma write_content:
  "mem_ok ok s \<Longrightarrow>
   mem_content items (MemStorage_Write L s ms) = apply_batch (mem_content items s) ms"
  unfolding MemStorage_Write_def by (induction ms arbitrary: s) (simp_all add: write1)

lemma ascend_from_min:
  "ok t \<Longrightarrow> items t = i # is \<Longrightarrow> llrb_AscendGE L t i = items t"
  using ok_sorted [of t] by (auto simp: ascend_items intro!: filter_True)

lemma reader_snapshot:
  assumes "mem_ok ok s"
  shows "snapshot_reader (mem_reader_view L s) (mem_content items s)"
proof
  show "kv_sorted (mem_content items s)"
    using assms by (auto simp: kv_sorted_def mem_content_def mem_tree_def mem_ok_def CFs_def
        content_sorted)
next
  fix cf k assume "cf \<in> set CFs"
  then show "rd_GetCF (mem_reader_view L s) cf k = Inr (cf_get (mem_content items s cf) k)"
    using assms by (auto simp: mem_reader_view_def memReader_GetCF_def MemStorage_Reader_def
        mem_content_def mem_tree_def mem_ok_def CFs_def get_item tree_content_def find_item_get)
next
  fix cf assume "cf \<in> set CFs"
  then obtain t where t: "mem_tree s cf = Some t" "ok t"
    using assms by (auto simp: mem_tree_def mem_ok_def CFs_def)
  show "rd_IterCF (mem_reader_view L s) cf = map (\<lambda>(k, v). (k, Inr v)) (mem_content items s cf)"
  proof (cases "items t")
    case Nil
    with t show ?thesis
      by (simp add: mem_reader_view_def memReader_IterCF_def MemStorage_Reader_def min_item
          mem_content_def tree_content_def)
  next
    case (Cons i "is")
    with t ascend_from_min [of t i "is"] show ?thesis
      by (simp add: mem_reader_view_def memReader_IterCF_def MemStorage_Reader_def min_item
          mem_content_def tree_content_def item_entry_def comp_def)
  qed
qed

text \<open>The iterator positions: \<open>Seek\<close> finds the first item at or after a key, \<open>Next\<close> the next one.\<close>

lemma seek_item:
  assumes "ok (it_data it)"
  shows "it_item (memIter_Seek L it key)
         = (case filter (\<lambda>j. key \<le> mi_key j) (items (it_data it)) of [] \<Rightarrow> None | i # _ \<Rightarrow> Some i)"
  using assms by (simp add: memIter_Seek_def ascend_items not_less split: list.splits)

lemma next_item:
  assumes ok: "ok (it_data it)" and pos: "items (it_data it) = before @ i # after"
    and cur: "it_item it = Some i"
  shows "it_item (memIter_Next L it) = (case after of [] \<Rightarrow> None | j # _ \<Rightarrow> Some j)"
proof -
  have "items_sorted (before @ i # after)" using ok_sorted [OF ok] pos by simp
  then have "\<forall>j \<in> set before. mi_key j < mi_key i" "\<forall>j \<in> set after. mi_key i < mi_key j"
    by (auto simp: items_sorted_def sorted_wrt_append)
  then have "filter (\<lambda>j. \<not> mi_key j < mi_key i) (before @ i # after) = i # after"
    by (auto simp: filter_empty_conv intro!: filter_True)
  then show ?thesis
    using ok pos cur by (simp add: memIter_Next_def ascend_items Let_def split: list.splits)
qed

lemma view_after_write:
  assumes "mem_ok ok s" and "cf \<in> set CFs"
  shows "mem_ok ok (MemStorage_Write L s ms)
    \<and> rd_GetCF (mem_reader_view L (MemStorage_Write L s ms)) cf k
        = Inr (cf_get (apply_batch (mem_content items s) ms cf) k)
    \<and> rd_IterCF (mem_reader_view L (MemStorage_Write L s ms)) cf
        = map (\<lambda>(k, v). (k, Inr v)) (apply_batch (mem_content items s) ms cf)
    \<and> cf_sorted (apply_batch (mem_content items s) ms cf)"
  using write_ok [OF assms(1), of ms] assms reader_snapshot [OF write_ok [OF assms(1)], of ms]
  unfolding write_content [OF assms(1)]
  by (simp add: snapshot_reader.get snapshot_reader.iter snapshot_reader.sorted_cf)

lemma positions:
  assumes ok: "ok (it_data it)" and pos: "items (it_data it) = before @ i # after"
  shows "it_item (memIter_Seek L it (mi_key i)) = Some i
    \<and> it_item (memIter_Next L (it\<lparr>it_item := Some i\<rparr>)) = (case after of [] \<Rightarrow> None | j # _ \<Rightarrow> Some j)"
proof -
  have "items_sorted (before @ i # after)" using ok_sorted [OF ok] pos by simp
  then have "\<forall>j \<in> set before. mi_key j < mi_key i"
    by (auto simp: items_sorted_def sorted_wrt_append)
  then have "filter (\<lambda>j. mi_key i \<le> mi_key j) (before @ i # after)
             = i # filter (\<lambda>j. mi_key i \<le> mi_key j) after"
    by (auto simp: filter_empty_conv not_le)
  with seek_item [OF ok, of "mi_key i"] next_item [of "it\<lparr>it_item := Some i\<rparr>" before i after] ok pos
  show ?thesis by simp
qed

end

sublocale llrb_spec \<subseteq> mem: storage_spec "mem_storage L" "mem_content items" "mem_ok ok"
  by unfold_locales (simp_all add: mem_storage_def reader_snapshot write_ok write_content)

section \<open>A tree that meets the contract\<close>

text \<open>A sorted list of items, with the operations of the tree package by their description.\<close>

fun list_insert :: "memItem list \<Rightarrow> memItem \<Rightarrow> memItem list" where
  "list_insert [] i = [i]"
| "list_insert (j # is) i =
     (if memItem_Less i j then i # j # is
      else if memItem_Less j i then j # list_insert is i
      else i # is)"

definition list_llrb :: "memItem list llrb" where
  "list_llrb =
     \<lparr>llrb_New = [],
      llrb_ReplaceOrInsert = list_insert,
      llrb_Delete = (\<lambda>is i. filter (\<lambda>j. memItem_Less i j \<or> memItem_Less j i) is),
      llrb_Get = (\<lambda>is i. find (\<lambda>j. \<not> memItem_Less i j \<and> \<not> memItem_Less j i) is),
      llrb_Min = (\<lambda>is. case is of [] \<Rightarrow> None | i # _ \<Rightarrow> Some i),
      llrb_Len = length,
      llrb_AscendGE = (\<lambda>is i. filter (\<lambda>j. \<not> memItem_Less j i) is)\<rparr>"

lemma list_insert_set:
  "items_sorted is \<Longrightarrow>
   set (list_insert is i) = insert i {j \<in> set is. memItem_Less i j \<or> memItem_Less j i}"
  by (induction "is") (auto dest: less_trans)

lemma list_insert_sorted: "items_sorted is \<Longrightarrow> items_sorted (list_insert is i)"
proof (induction "is")
  case (Cons j "is")
  then show ?case using list_insert_set [of "is" i] by (auto dest: less_trans)
qed (simp add: items_sorted_def)

lemma items_sorted_Nil [simp]: "items_sorted []"
  by (simp add: items_sorted_def)

lemma items_sorted_filter: "items_sorted is \<Longrightarrow> items_sorted (filter P is)"
  by (induction "is") auto

interpretation list_tree: llrb_spec list_llrb "\<lambda>is. is" items_sorted
  by unfold_locales
     (auto simp: list_llrb_def items_sorted_filter list_insert_sorted list_insert_set)

section \<open>Snapshots of the engine\<close>

locale mem_snapshot = llrb_spec L items ok
  for L :: "'t llrb" and items ok +
  fixes s :: "'t MemStorage"
  assumes s_ok: "mem_ok ok s"

sublocale mem_snapshot \<subseteq> snapshot_reader "mem_reader_view L s" "mem_content items s"
  by (rule reader_snapshot [OF s_ok])

interpretation new_mem: mem_snapshot list_llrb "\<lambda>is. is" items_sorted "NewMemStorage list_llrb"
  by unfold_locales (simp add: mem_ok_def NewMemStorage_def list_llrb_def)

section \<open>Properties\<close>

text \<open>
  C27. The in-memory engine implements the storage contract for every tree package that
  behaves as documented: a batch given to \<open>Write\<close> is applied in order, and a reader then
  answers every point read and every iteration of the three column families from the content
  that batch leaves.
\<close>

theorem mem_storage_refines:
  assumes "llrb_spec L items ok" and "mem_ok ok s" and "cf \<in> set CFs"
  shows "mem_ok ok (MemStorage_Write L s ms)
    \<and> rd_GetCF (mem_reader_view L (MemStorage_Write L s ms)) cf k
        = Inr (cf_get (apply_batch (mem_content items s) ms cf) k)
    \<and> rd_IterCF (mem_reader_view L (MemStorage_Write L s ms)) cf
        = map (\<lambda>(k, v). (k, Inr v)) (apply_batch (mem_content items s) ms cf)
    \<and> cf_sorted (apply_batch (mem_content items s) ms cf)"
  using llrb_spec.view_after_write [OF assms] .

theorem mem_storage_refines_witness:
  "rd_GetCF (mem_reader_view list_llrb
      (MemStorage_Write list_llrb (NewMemStorage list_llrb)
        [Put [1] (Some [7]) CfLock, Put [2] None CfWrite, Delete [1] CfLock, Put [1] (Some [8]) CfLock]))
     CfLock [1] = Inr (Some [8])"
  using mem_storage_refines [OF list_tree.llrb_spec_axioms, of "NewMemStorage list_llrb" CfLock
      "[Put [1] (Some [7]) CfLock, Put [2] None CfWrite, Delete [1] CfLock, Put [1] (Some [8]) CfLock]" "[1]"]
  by (simp add: mem_ok_def NewMemStorage_def list_llrb_def apply_modify_def)

text \<open>
  The engine's iterators: \<open>Seek\<close> moves to the first item at or after the key, and \<open>Next\<close>
  on an item moves to its successor, or past the end.
\<close>

theorem mem_iter_positions:
  assumes "llrb_spec L items ok" and "ok (it_data it)"
    and "items (it_data it) = before @ i # after"
  shows "it_item (memIter_Seek L it (mi_key i)) = Some i
    \<and> it_item (memIter_Next L (it\<lparr>it_item := Some i\<rparr>)) = (case after of [] \<Rightarrow> None | j # _ \<Rightarrow> Some j)"
  using llrb_spec.positions [OF assms] .

theorem mem_iter_positions_witness:
  "it_item (memIter_Next list_llrb
     \<lparr>it_data = [key_item [1], key_item [3], key_item [4]], it_item = Some (key_item [3])\<rparr>) = Some (key_item [4])"
  using mem_iter_positions [OF list_tree.llrb_spec_axioms,
      of "\<lparr>it_data = [key_item [1], key_item [3], key_item [4]], it_item = None\<rparr>"
         "[key_item [1]]" "key_item [3]" "[key_item [4]]"]
  by simp

end
