(* ===== verification/Txn_System.thy ===== *)
theory Txn_System
  imports Txn_Refine MemStore
begin

text \<open>
  The transactional server as a whole: commands run one after another through \<open>RunCommand\<close>
  on a storage engine. The theorems of the abstract protocol carry over to the stored
  content: snapshot isolation of committed transactions, stability of snapshot reads, and the
  finality of commits and rollbacks.
\<close>

section \<open>Commands as steps on keys\<close>

fun cmd_ksteps :: "command \<Rightarrow> bytes \<Rightarrow> kstep set" where
  "cmd_ksteps (CmdPrewrite r) k =
     KPrewrite (pw_StartVersion r) (pw_PrimaryLock r) (pw_LockTtl r) ` {m \<in> set (pw_Mutations r). mut_Key m = k}"
| "cmd_ksteps (CmdCommit r) k =
     (if k \<in> set (cm_Keys r) then {KCommit (cm_StartVersion r) (cm_CommitVersion r)} else {})"
| "cmd_ksteps (CmdRollback r) k = (if k \<in> set (rb_Keys r) then {KRollback (rb_StartVersion r)} else {})"
| "cmd_ksteps (CmdCheckTxnStatus r) k =
     (if k = ct_PrimaryKey r then {KCheck (ct_LockTs r) (ct_CurrentTs r)} else {})"
| "cmd_ksteps (CmdResolveLock r kls) k =
     {if rl_StartVersion r \<le> rl_CommitVersion r then KCommit (rl_StartVersion r) (rl_CommitVersion r)
      else KRollback (rl_StartVersion r)}"
| "cmd_ksteps cmd k = {}"

text \<open>
  What a client keeps to. Its mutations are puts and deletes (the operations \<open>Rollback\<close> and
  \<open>Lock\<close> of the enumeration are never prewritten), and its timestamps come from the oracle:
  no record of a key the transaction still has locked carries its commit timestamp, and a
  start timestamp is not the commit timestamp of another transaction. Requests may be repeated,
  reordered and partial, and may name a key several times: a commit sent again finds its
  timestamp on the key, but the lock gone.
\<close>

definition fresh_commit :: "u64 \<Rightarrow> u64 \<Rightarrow> kview \<Rightarrow> bool" where
  "fresh_commit start commit v \<longleftrightarrow> own_lock start v = None \<or> commit \<notin> fst ` set (v_hist v)"

definition own_start :: "u64 \<Rightarrow> kview \<Rightarrow> bool" where
  "own_start start v \<longleftrightarrow> list_all (\<lambda>(c, w). c = start \<longrightarrow> w_StartTS w = start) (v_hist v)"

fun client_ok :: "command \<Rightarrow> views \<Rightarrow> bool" where
  "client_ok (CmdPrewrite r) V \<longleftrightarrow> list_all (\<lambda>m. mut_Op m = Op_Put \<or> mut_Op m = Op_Del) (pw_Mutations r)"
| "client_ok (CmdCommit r) V \<longleftrightarrow>
     list_all (\<lambda>k. fresh_commit (cm_StartVersion r) (cm_CommitVersion r) (V k)) (cm_Keys r)"
| "client_ok (CmdRollback r) V \<longleftrightarrow> list_all (\<lambda>k. own_start (rb_StartVersion r) (V k)) (rb_Keys r)"
| "client_ok (CmdCheckTxnStatus r) V \<longleftrightarrow> own_start (ct_LockTs r) (V (ct_PrimaryKey r))"
| "client_ok (CmdResolveLock r kls) V \<longleftrightarrow>
     rl_CommitVersion r \<noteq> rl_StartVersion r \<and>
     (\<forall>k. own_lock (rl_StartVersion r) (V k) \<noteq> None \<longrightarrow>
        (if rl_StartVersion r < rl_CommitVersion r then fresh_commit (rl_StartVersion r) (rl_CommitVersion r) (V k)
         else own_start (rl_StartVersion r) (V k)))"
| "client_ok cmd V \<longleftrightarrow> True"

lemma client_ok_wf: "client_ok cmd V \<Longrightarrow> cmd_wf cmd"
  by (cases cmd) (auto simp: list_all_iff kind_consts)

text \<open>The pairs a resolve command works on are locks of its transaction.\<close>

fun locks_read :: "command \<Rightarrow> views \<Rightarrow> bool" where
  "locks_read (CmdResolveLock r kls) V \<longleftrightarrow>
     (\<forall>(k, l) \<in> set kls. own_lock (rl_StartVersion r) (V k) = Some l)"
| "locks_read cmd V \<longleftrightarrow> True"

definition key_moved :: "(bytes \<Rightarrow> kstep set) \<Rightarrow> views \<Rightarrow> views \<Rightarrow> bool" where
  "key_moved S V V' \<longleftrightarrow>
     (\<forall>k. V' k = V k \<or> (\<exists>st \<in> S k. kstep_ok st (V k) \<and> V' k = kstep_apply k st (V k)))"

lemma key_moved_refl [simp]: "key_moved S V V"
  by (simp add: key_moved_def)

text \<open>One more key of a request, decided on the views \<open>V0\<close> before it.\<close>

lemma key_moved_upd:
  "key_moved S V0 V \<Longrightarrow> st \<in> S k \<Longrightarrow> kstep_ok st (V0 k) \<Longrightarrow> v = kstep_apply k st (V0 k) \<Longrightarrow> key_moved S V0 (V(k := v))"
  by (auto simp: key_moved_def)

lemma prewrite_loop_moves:
  assumes "list_all (\<lambda>m. mut_Op m = Op_Put \<or> mut_Op m = Op_Del) ms"
    and "S = (\<lambda>k. KPrewrite start primary ttl ` {m \<in> set ms'. mut_Key m = k})" and "set ms \<subseteq> set ms'"
    and "list_all (\<lambda>m. mut_Op m = Op_Put \<or> mut_Op m = Op_Del) ms'" and "key_moved S V0 V"
  shows "key_moved S V0 (snd (spec_Prewrite_loop start primary ttl V0 ms errs V))"
  using assms
proof (induction ms arbitrary: errs V)
  case (Cons m ms)
  let ?st = "KPrewrite start primary ttl m" let ?k = "mut_Key m"
  let ?r = "prewrite_over start primary ttl m (V0 ?k) (V ?k)"
  have "snd ?r = kstep_apply ?k ?st (V0 ?k)"
  proof -
    have "V ?k = V0 ?k \<or> (\<exists>m' \<in> set ms'. V ?k = snd (spec_prewrite start primary ttl m' (V0 ?k)))"
      using Cons.prems(2,5) by (fastforce simp: key_moved_def)
    then show ?thesis
      using prewrite_twice [of m _ start primary ttl "V0 ?k"] Cons.prems(1,4) by (auto simp: list_all_iff)
  qed
  then have "key_moved S V0 (V(?k := snd ?r))"
    using Cons.prems by (intro key_moved_upd [where st = ?st]) auto
  with Cons show ?case by (simp add: case_prod_beta)
qed simp

lemma one_step_moves:
  assumes "key_moved S V0 V" and "S k = {st}" and "kstep_ok st (V0 k)"
    and "r (V0 k) = kstep_apply k st (V0 k)" and "r (kstep_apply k st (V0 k)) = kstep_apply k st (V0 k)"
  shows "key_moved S V0 (V(k := r (V k)))"
proof -
  have "V k = V0 k \<or> V k = kstep_apply k st (V0 k)" using assms(1,2) by (fastforce simp: key_moved_def)
  with assms show ?thesis by (intro key_moved_upd [where st = st]) auto
qed

lemma commit_key_moves:
  assumes "key_moved S V0 V" and "S k = {KCommit start commit}" and "start < commit" and "fresh_commit start commit (V0 k)"
  shows "key_moved S V0 (V(k := snd (commit_over start commit k (V0 k) (V k))))"
  using assms by (intro one_step_moves [where st = "KCommit start commit"]) (simp_all add: fresh_commit_def commit_twice)

lemma rollback_key_moves:
  assumes "key_moved S V0 V" and "S k = {KRollback start}" and "own_start start (V0 k)"
  shows "key_moved S V0 (V(k := snd (rollback_over start k (V0 k) (V k))))"
  using assms by (intro one_step_moves [where st = "KRollback start"]) (simp_all add: own_start_def rollback_twice)

lemma commit_loop_moves:
  assumes "start < commit" and "list_all (\<lambda>k. fresh_commit start commit (V0 k)) ks" and "key_moved S V0 V"
    and "\<forall>k \<in> set ks. S k = {KCommit start commit}"
  shows "key_moved S V0 (snd (spec_Commit_loop start commit V0 ks V))"
  using assms
proof (induction ks arbitrary: V)
  case (Cons k ks)
  have "key_moved S V0 (V(k := snd (commit_over start commit k (V0 k) (V k))))"
    using commit_key_moves [OF Cons.prems(3)] Cons.prems by simp
  with Cons show ?case by (auto simp del: fun_upd_apply split: prod.splits option.splits)
qed simp

lemma rollback_loop_moves:
  assumes "list_all (\<lambda>k. own_start start (V0 k)) ks" and "key_moved S V0 V"
    and "\<forall>k \<in> set ks. S k = {KRollback start}"
  shows "key_moved S V0 (snd (spec_Rollback_loop start V0 ks V))"
  using assms
proof (induction ks arbitrary: V)
  case (Cons k ks)
  have "key_moved S V0 (V(k := snd (rollback_over start k (V0 k) (V k))))"
    using rollback_key_moves [OF Cons.prems(2)] Cons.prems by simp
  with Cons show ?case by (auto simp del: fun_upd_apply split: prod.splits option.splits)
qed simp

lemma resolve_loop_moves:
  assumes "\<forall>(k, l) \<in> set kls. lk_Ts l = rl_StartVersion req \<and>
      (if rl_StartVersion req \<le> rl_CommitVersion req
       then rl_StartVersion req < rl_CommitVersion req \<and> fresh_commit (rl_StartVersion req) (rl_CommitVersion req) (V0 k)
       else own_start (rl_StartVersion req) (V0 k))"
    and "S = cmd_ksteps (CmdResolveLock req kls')" and "key_moved S V0 V"
  shows "key_moved S V0 (snd (spec_Resolve_loop (rl_StartVersion req) req V0 kls err V))"
  using assms
proof (induction kls arbitrary: err V)
  case (Cons kl kls)
  obtain k l where kl: "kl = (k, l)" by (cases kl)
  let ?start = "rl_StartVersion req" let ?commit = "rl_CommitVersion req"
  define r where "r = (if ?start \<le> ?commit then commit_over ?start ?commit k (V0 k) (V k)
                        else rollback_over ?start k (V0 k) (V k))"
  have eq: "spec_Resolve_loop ?start req V0 (kl # kls) err V =
      spec_Resolve_loop ?start req V0 kls (case fst r of Some e \<Rightarrow> Some e | None \<Rightarrow> err) (V(k := snd r))"
    using Cons.prems kl by (simp add: r_def case_prod_beta Let_def)
  have "key_moved S V0 (V(k := snd r))"
    using Cons.prems commit_key_moves [OF Cons.prems(3), of k ?start ?commit] rollback_key_moves [OF Cons.prems(3), of k ?start] kl by (auto simp: r_def split: if_splits)
  with Cons show ?case unfolding eq by simp
qed simp

lemma spec_writes_moves:
  assumes "spec_writes cmd V = Inr (resp, V')" and "client_ok cmd V" and "locks_read cmd V"
  shows "key_moved (cmd_ksteps cmd) V V'"
proof (cases cmd)
  case (CmdPrewrite r)
  then have "cmd_ksteps cmd = (\<lambda>k. KPrewrite (pw_StartVersion r) (pw_PrimaryLock r) (pw_LockTtl r) `
      {m \<in> set (pw_Mutations r). mut_Key m = k})" by (simp add: fun_eq_iff)
  from prewrite_loop_moves [OF _ this, of "pw_Mutations r" V V "[]"] assms CmdPrewrite show ?thesis
    by (auto simp: case_prod_beta Let_def)
next
  case (CmdCommit r)
  with assms commit_loop_moves [of "cm_StartVersion r" "cm_CommitVersion r" V "cm_Keys r" "cmd_ksteps cmd" V]
  show ?thesis by (auto simp: case_prod_beta Let_def split: if_splits)
next
  case (CmdRollback r)
  with assms rollback_loop_moves [of "rb_StartVersion r" V "rb_Keys r" "cmd_ksteps cmd" V] show ?thesis
    by (auto simp: case_prod_beta Let_def)
next
  case (CmdCheckTxnStatus r)
  with assms show ?thesis
    by (auto simp: case_prod_beta Let_def own_start_def intro!: key_moved_upd)
next
  case (CmdResolveLock r kls)
  have "\<forall>(k, l) \<in> set kls. lk_Ts l = rl_StartVersion r \<and>
      (if rl_StartVersion r \<le> rl_CommitVersion r
       then rl_StartVersion r < rl_CommitVersion r \<and> fresh_commit (rl_StartVersion r) (rl_CommitVersion r) (V k)
       else own_start (rl_StartVersion r) (V k))"
    using CmdResolveLock assms(2,3) by (fastforce simp: own_lock_Some split: if_splits)
  with CmdResolveLock assms resolve_loop_moves [of kls r V "cmd_ksteps cmd" kls V None] show ?thesis
    by (auto simp: case_prod_beta Let_def)
qed (use assms in auto)

section \<open>Reads\<close>

definition spec_get :: "bytes \<Rightarrow> u64 \<Rightarrow> kview \<Rightarrow> GetResponse" where
  "spec_get key ts v =
     (let response = \<lparr>gr_Error = None, gr_Value = None, gr_NotFound = False\<rparr> in
      case IsLockedFor (v_lock v) key ts of
        Some e \<Rightarrow> response\<lparr>gr_Error := Some e\<rparr>
      | None \<Rightarrow> if view_read ts v = None then response\<lparr>gr_NotFound := True\<rparr>
                 else response\<lparr>gr_Value := view_read ts v\<rparr>)"

context snapshot_reader
begin

lemma get_read:
  assumes wf: "mvcc_wf kv"
  shows "Get_Read req \<lparr>tx_Reader = rd, tx_StartTS = gt_Version req\<rparr>
         = Inr (RespGet (spec_get (gt_Key req) (gt_Version req) (kviews kv (gt_Key req))))"
  by (auto simp: Get_Read_def get_lock [OF wf] get_value [OF wf] spec_get_def view_read_def
      kviews_def history_upto [OF wf, of "gt_Key req" "gt_Version req"] IsLockedFor_def no_KeyError_def
      Let_def split: option.splits)

lemma resolve_read:
  assumes wf: "mvcc_wf kv"
  shows "\<exists>kls. ResolveLock_Read req \<lparr>tx_Reader = rd, tx_StartTS = start\<rparr> = Inr (kls, map fst kls)
    \<and> distinct (map fst kls)
    \<and> (\<forall>k l. (k, l) \<in> set kls \<longleftrightarrow> own_lock (rl_StartVersion req) (kviews kv k) = Some l)"
proof -
  let ?txn = "\<lparr>tx_Reader = rd, tx_StartTS = rl_StartVersion req\<rparr>"
  from all_locks [OF wf, of ?txn] obtain kls where
    "AllLocksForTxn ?txn = Inr kls" "distinct (map fst kls)"
    "\<forall>k l. (k, l) \<in> set kls \<longleftrightarrow> lock_at kv k = Some l \<and> lk_Ts l = rl_StartVersion req" by auto
  then show ?thesis by (simp add: ResolveLock_Read_def own_lock_Some kviews_def)
qed

end

section \<open>Running commands\<close>

definition latches_free :: "Latches \<Rightarrow> bool" where
  "latches_free l \<longleftrightarrow> l_latchMap l = Map.empty"

lemma latches_free_New [simp]: "latches_free NewLatches"
  by (simp add: latches_free_def NewLatches_def)

lemma latched_run:
  assumes "latches_free l"
  obtains l1 l2 where "WaitForLatches l ks = Inr l1" "ReleaseLatches l1 ks = Inr l2" "latches_free l2"
proof -
  obtain l1 where l1: "AcquireLatches l ks = (None, l1)"
    using assms by (cases "AcquireLatches l ks")
      (auto simp: latches_free_def AcquireLatches_def Let_def first_latched_None split: option.splits
        dest: first_latched_Some)
  note acq = AcquireLatches_None [OF l1]
  have "\<exists>l2. ReleaseLatches l1 ks = Inr l2 \<and> latches_free l2"
  proof (cases ks)
    case Nil
    then show ?thesis using acq assms by (simp add: ReleaseLatches_def latches_free_def)
  next
    case (Cons k ks')
    then show ?thesis
      using acq assms ReleaseLatches_Cons [of l1 k "l_next l" ks']
      by (auto simp: latches_free_def fun_eq_iff)
  qed
  with l1 that show ?thesis by (auto simp: WaitForLatches_def)
qed

context storage_spec
begin

lemma run_latched:
  assumes s: "inv s" "mvcc_wf (content s)" and cmd: "client_ok cmd (kviews (content s))"
    "locks_read cmd (kviews (content s))" and l: "latches_free l"
  obtains res s' l' where
    "bindR (WaitForLatches l ks) (\<lambda>l1. bindR (ReleaseLatches l1 ks) (\<lambda>l2.
       case run_writes ops ctx cmd s of Inl e \<Rightarrow> Inr (Inl e, s, l2)
         | Inr (resp1, s1) \<Rightarrow> Inr (Inr resp1, s1, l2))) = Inr (res, s', l')"
    "latches_free l'" "inv s'" "mvcc_wf (content s')"
    "key_moved (cmd_ksteps cmd) (kviews (content s)) (kviews (content s'))"
    "\<forall>e. res = Inl e \<longrightarrow> s' = s"
proof -
  obtain l1 l2 where lt: "WaitForLatches l ks = Inr l1" "ReleaseLatches l1 ks = Inr l2" "latches_free l2"
    using latched_run [OF l] by blast
  note ref = run_writes_refines [OF s client_ok_wf [OF cmd(1)], of ctx]
  show ?thesis
  proof (cases "spec_writes cmd (kviews (content s))")
    case (Inl e)
    with ref lt s show ?thesis by (intro that) auto
  next
    case (Inr r)
    obtain resp V where r: "spec_writes cmd (kviews (content s)) = Inr (resp, V)" using Inr by (cases r) auto
    with ref obtain s' where "run_writes ops ctx cmd s = Inr (resp, s')" "inv s'"
      "mvcc_wf (content s')" "kviews (content s') = V" by auto
    with lt spec_writes_moves [OF r cmd] show ?thesis by (intro that) auto
  qed
qed

text \<open>A writing command, exactly: the response and the views the protocol specifies.\<close>

lemma run_write_command:
  assumes s: "inv s" "mvcc_wf (content s)" and cmd: "cmd_wf cmd" "cmd_WillWrite cmd = Some ks"
    and l: "latches_free l"
  shows "case spec_writes cmd (kviews (content s)) of
      Inl e \<Rightarrow> \<exists>l'. RunCommand ops ctx cmd s l = Inr (Inl e, s, l') \<and> latches_free l'
    | Inr (resp, V) \<Rightarrow> \<exists>s' l'. RunCommand ops ctx cmd s l = Inr (Inr resp, s', l') \<and> latches_free l'
        \<and> inv s' \<and> mvcc_wf (content s') \<and> kviews (content s') = V"
proof -
  obtain l1 l2 where lt: "WaitForLatches l ks = Inr l1" "ReleaseLatches l1 ks = Inr l2" "latches_free l2"
    using latched_run [OF l] by blast
  have "RunCommand ops ctx cmd s l = (case run_writes ops ctx cmd s of
      Inl e \<Rightarrow> Inr (Inl e, s, l2) | Inr (resp1, s1) \<Rightarrow> Inr (Inr resp1, s1, l2))"
    using lt cmd(2) by (simp add: RunCommand_def)
  with run_writes_refines [OF s cmd(1), of ctx] lt(3) show ?thesis
    by (auto split: sum.splits)
qed

text \<open>Requests that name one key.\<close>

lemma run_commit1:
  assumes "inv s" "mvcc_wf (content s)" and "latches_free l" and "start < commit"
  shows "\<exists>s' l'. RunCommand ops ctx (CmdCommit \<lparr>cm_StartVersion = start, cm_Keys = [k], cm_CommitVersion = commit\<rparr>) s l
        = Inr (Inr (Some (CommitResponse (fst (spec_commit start commit k (kviews (content s) k))))), s', l')
      \<and> inv s' \<and> mvcc_wf (content s') \<and> kviews (content s') = (kviews (content s))(k := snd (spec_commit start commit k (kviews (content s) k)))"
proof -
  let ?cmd = "CmdCommit \<lparr>cm_StartVersion = start, cm_Keys = [k], cm_CommitVersion = commit\<rparr>"
  have "cmd_WillWrite ?cmd = Some [k]" "cmd_wf ?cmd"
    using assms by (simp_all add: Commit_WillWrite_def nil_keys_def)
  moreover have "spec_writes ?cmd (kviews (content s))
      = Inr (Some (CommitResponse (fst (spec_commit start commit k (kviews (content s) k)))), (kviews (content s))(k := snd (spec_commit start commit k (kviews (content s) k))))"
    using assms by (auto simp: case_prod_beta Let_def not_le fun_upd_def split: prod.splits option.splits)
  ultimately show ?thesis using run_write_command [OF assms(1,2), of ?cmd "[k]" l ctx] assms(3) by auto
qed

lemma run_rollback1:
  assumes "inv s" "mvcc_wf (content s)" and "latches_free l"
  shows "\<exists>s' l'. RunCommand ops ctx (CmdRollback \<lparr>rb_StartVersion = start, rb_Keys = [k]\<rparr>) s l
        = Inr (Inr (Some (BatchRollbackResponse (fst (spec_rollback start k (kviews (content s) k))))), s', l')
      \<and> inv s' \<and> mvcc_wf (content s') \<and> kviews (content s') = (kviews (content s))(k := snd (spec_rollback start k (kviews (content s) k)))"
proof -
  let ?cmd = "CmdRollback \<lparr>rb_StartVersion = start, rb_Keys = [k]\<rparr>"
  have "cmd_WillWrite ?cmd = Some [k]" "cmd_wf ?cmd"
    using assms by (simp_all add: Rollback_WillWrite_def nil_keys_def)
  moreover have "spec_writes ?cmd (kviews (content s))
      = Inr (Some (BatchRollbackResponse (fst (spec_rollback start k (kviews (content s) k)))), (kviews (content s))(k := snd (spec_rollback start k (kviews (content s) k))))"
    using assms by (auto simp: case_prod_beta Let_def not_le fun_upd_def split: prod.splits option.splits)
  ultimately show ?thesis using run_write_command [OF assms(1,2), of ?cmd "[k]" l ctx] assms(3) by auto
qed

lemma run_check1:
  assumes "inv s" "mvcc_wf (content s)" and "latches_free l"
  shows "\<exists>s' l'. RunCommand ops ctx (CmdCheckTxnStatus \<lparr>ct_PrimaryKey = k, ct_LockTs = start, ct_CurrentTs = current\<rparr>) s l
        = Inr (Inr (Some (CheckTxnResponse (fst (spec_check start current (kviews (content s) k))))), s', l')
      \<and> inv s' \<and> mvcc_wf (content s') \<and> kviews (content s') = (kviews (content s))(k := snd (spec_check start current (kviews (content s) k)))"
proof -
  let ?cmd = "CmdCheckTxnStatus \<lparr>ct_PrimaryKey = k, ct_LockTs = start, ct_CurrentTs = current\<rparr>"
  have "cmd_WillWrite ?cmd = Some [k]" "cmd_wf ?cmd"
    using assms by (simp_all add: CheckTxnStatus_WillWrite_def)
  moreover have "spec_writes ?cmd (kviews (content s))
      = Inr (Some (CheckTxnResponse (fst (spec_check start current (kviews (content s) k)))), (kviews (content s))(k := snd (spec_check start current (kviews (content s) k))))"
    using assms by (auto simp: case_prod_beta Let_def not_le fun_upd_def split: prod.splits option.splits)
  ultimately show ?thesis using run_write_command [OF assms(1,2), of ?cmd "[k]" l ctx] assms(3) by auto
qed

lemma run_prewrite1:
  assumes "inv s" "mvcc_wf (content s)" and "latches_free l" and "mut_Key m = k"
    and "mut_Op m = Op_Put \<or> mut_Op m = Op_Del"
  shows "\<exists>s' l'. RunCommand ops ctx (CmdPrewrite \<lparr>pw_Mutations = [m], pw_PrimaryLock = primary, pw_StartVersion = start,
          pw_LockTtl = ttl\<rparr>) s l
        = Inr (Inr (Some (PrewriteResponse (case fst (spec_prewrite start primary ttl m (kviews (content s) k)) of None \<Rightarrow> [] | Some e \<Rightarrow> [e]))), s', l')
      \<and> inv s' \<and> mvcc_wf (content s') \<and> kviews (content s') = (kviews (content s))(k := snd (spec_prewrite start primary ttl m (kviews (content s) k)))"
proof -
  let ?cmd = "CmdPrewrite \<lparr>pw_Mutations = [m], pw_PrimaryLock = primary, pw_StartVersion = start,
          pw_LockTtl = ttl\<rparr>"
  have "cmd_WillWrite ?cmd = Some [k]" "cmd_wf ?cmd"
    using assms by (auto simp: Prewrite_WillWrite_def kind_consts)
  moreover have "spec_writes ?cmd (kviews (content s))
      = Inr (Some (PrewriteResponse (case fst (spec_prewrite start primary ttl m (kviews (content s) k)) of None \<Rightarrow> [] | Some e \<Rightarrow> [e])), (kviews (content s))(k := snd (spec_prewrite start primary ttl m (kviews (content s) k))))"
    using assms by (auto simp: case_prod_beta Let_def not_le fun_upd_def split: prod.splits option.splits)
  ultimately show ?thesis using run_write_command [OF assms(1,2), of ?cmd "[k]" l ctx] assms(3) by auto
qed

lemma run_command:
  assumes s: "inv s" "mvcc_wf (content s)" and cmd: "client_ok cmd (kviews (content s))"
    and l: "latches_free l"
  obtains res s' l' where "RunCommand ops ctx cmd s l = Inr (res, s', l')"
    "latches_free l'" "inv s'" "mvcc_wf (content s')"
    "key_moved (cmd_ksteps cmd) (kviews (content s)) (kviews (content s'))"
    "\<forall>e. res = Inl e \<longrightarrow> s' = s"
proof (cases "cmd_WillWrite cmd")
  case (Some ks)
  then have "locks_read cmd (kviews (content s))" by (cases cmd) auto
  from run_latched [OF s cmd this l, of ks ctx] Some that show ?thesis
    by (auto simp: RunCommand_def)
next
  case None
  obtain rd where rd: "st_Reader ops s ctx = Inr rd" "snapshot_reader rd (content s)"
    using reader [OF s(1)] by blast
  let ?txn = "\<lparr>tx_Reader = rd, tx_StartTS = cmd_StartTs cmd\<rparr>"
  show ?thesis
  proof (cases "\<exists>r kls. cmd = CmdResolveLock r kls")
    case True
    then obtain r kls0 where c: "cmd = CmdResolveLock r kls0" by blast
    from snapshot_reader.resolve_read [OF rd(2) s(2), of r "cmd_StartTs cmd"] obtain kls where
      kls: "ResolveLock_Read r ?txn = Inr (kls, map fst kls)" "distinct (map fst kls)"
      "\<forall>k l. (k, l) \<in> set kls \<longleftrightarrow> own_lock (rl_StartVersion r) (kviews (content s) k) = Some l" by blast
    let ?cmd = "CmdResolveLock r kls"
    have "client_ok ?cmd (kviews (content s))" "locks_read ?cmd (kviews (content s))"
      using kls cmd c by auto
    moreover have "cmd_ksteps ?cmd = cmd_ksteps cmd" by (simp add: c fun_eq_iff)
    ultimately show ?thesis using run_latched [OF s _ _ l, of ?cmd "map fst kls" ctx] that c rd kls
      by (auto simp: RunCommand_def)
  next
    case False
    have "RunCommand ops ctx cmd s l = (case cmd_Read cmd ?txn of
        Inl e \<Rightarrow> Inr (Inl e, s, l) | Inr (c, resp, ks) \<Rightarrow> Inr (Inr resp, s, l))"
      using None rd False
      by (cases cmd) (auto simp: RunCommand_def bindR_def split: sum.splits)
    then show ?thesis
      using that [of _ s l] s l by (cases "cmd_Read cmd ?txn") auto
  qed
qed

lemma run_get:
  assumes s: "inv s" "mvcc_wf (content s)"
  shows "RunCommand ops ctx (CmdGet req) s l =
    Inr (Inr (Some (RespGet (spec_get (gt_Key req) (gt_Version req) (kviews (content s) (gt_Key req))))), s, l)"
proof -
  obtain rd where rd: "st_Reader ops s ctx = Inr rd" "snapshot_reader rd (content s)"
    using reader [OF s(1)] by blast
  from snapshot_reader.get_read [OF rd(2) s(2), of req] rd show ?thesis
    by (simp add: RunCommand_def)
qed

end

section \<open>Runs of the server\<close>

text \<open>
  A run: requests of clients served one after another, each finding the latches free. The
  response may be an error.
\<close>

inductive txn_path ::
    "('s, 'c) storage_api \<Rightarrow> ('s \<Rightarrow> kvstate) \<Rightarrow> 'c \<Rightarrow> command list \<Rightarrow> 's \<Rightarrow> 's \<Rightarrow> bool"
  for ops content ctx where
  stop: "txn_path ops content ctx [] s s"
| serve: "RunCommand ops ctx cmd s l = Inr (res, s1, l') \<Longrightarrow> latches_free l \<Longrightarrow>
     client_ok cmd (kviews (content s)) \<Longrightarrow> txn_path ops content ctx cmds s1 s2 \<Longrightarrow>
     txn_path ops content ctx (cmd # cmds) s s2"

inductive_cases txn_path_ConsE: "txn_path ops content ctx (cmd # cmds) s s2"

definition txn_ok :: "kvstate \<Rightarrow> bool" where
  "txn_ok kv \<longleftrightarrow> mvcc_wf kv \<and> (\<forall>k. kview_ok (kviews kv k))"

text \<open>
  A run in which nothing commits at or before a timestamp: a commit is later than it, or finds
  no lock of its transaction (sent again, or after a rollback).
\<close>

fun cmd_late :: "u64 \<Rightarrow> command \<Rightarrow> views \<Rightarrow> bool" where
  "cmd_late ts (CmdCommit r) V \<longleftrightarrow>
     ts < cm_CommitVersion r \<or> list_all (\<lambda>k. own_lock (cm_StartVersion r) (V k) = None) (cm_Keys r)"
| "cmd_late ts (CmdResolveLock r kls) V \<longleftrightarrow>
     ts < rl_CommitVersion r \<or> rl_CommitVersion r < rl_StartVersion r
     \<or> (\<forall>k. own_lock (rl_StartVersion r) (V k) = None)"
| "cmd_late ts cmd V \<longleftrightarrow> True"

inductive late_path ::
    "u64 \<Rightarrow> ('s, 'c) storage_api \<Rightarrow> ('s \<Rightarrow> kvstate) \<Rightarrow> 'c \<Rightarrow> command list \<Rightarrow> 's \<Rightarrow> 's \<Rightarrow> bool"
  for ts ops content ctx where
  late_stop: "late_path ts ops content ctx [] s s"
| late_serve: "RunCommand ops ctx cmd s l = Inr (res, s1, l') \<Longrightarrow> latches_free l \<Longrightarrow>
     client_ok cmd (kviews (content s)) \<Longrightarrow> cmd_late ts cmd (kviews (content s)) \<Longrightarrow>
     late_path ts ops content ctx cmds s1 s2 \<Longrightarrow> late_path ts ops content ctx (cmd # cmds) s s2"

lemma late_path_txn: "late_path ts ops content ctx cmds s s2 \<Longrightarrow> txn_path ops content ctx cmds s s2"
  by (induction rule: late_path.induct) (auto intro: txn_path.intros)

lemma cmd_late_steps: "cmd_late ts cmd V \<Longrightarrow> st \<in> cmd_ksteps cmd k \<Longrightarrow> commits_after ts st (V k)"
  by (cases cmd) (auto simp: commits_after_def list_all_iff split: if_splits)

lemma key_moved_ok:
  assumes "key_moved S V V'" and "kview_ok (V k)"
  shows "kview_ok (V' k)"
  using assms kstep_apply_ok unfolding key_moved_def by metis

lemma key_moved_records:
  assumes "key_moved S V V'" and "kview_ok (V k)" and "(c, w) \<in> set (v_hist (V k))"
  shows "(c, w) \<in> set (v_hist (V' k)) \<and> v_value (V' k) (w_StartTS w) = v_value (V k) (w_StartTS w)"
  using assms kstep_records_kept [OF assms(2) _ assms(3)] kstep_value_kept [OF assms(2,3)]
  unfolding key_moved_def by metis

lemma key_moved_read:
  assumes "key_moved S V V'" and "kview_ok (V k)" and "\<forall>st \<in> S k. commits_after ts st (V k)"
  shows "view_read ts (V' k) = view_read ts (V k)"
  using assms kstep_read_stable [OF assms(2)] unfolding key_moved_def by metis

context storage_spec
begin

lemma path_step:
  assumes "txn_path ops content ctx (cmd # cmds) s s2" "inv s" "mvcc_wf (content s)"
  obtains s1 where "txn_path ops content ctx cmds s1 s2" "inv s1" "mvcc_wf (content s1)"
    "key_moved (cmd_ksteps cmd) (kviews (content s)) (kviews (content s1))"
  using assms(1)
proof (rule txn_path_ConsE)
  fix l res s1 l'
  assume run: "RunCommand ops ctx cmd s l = Inr (res, s1, l')" and "latches_free l"
    "client_ok cmd (kviews (content s))" "txn_path ops content ctx cmds s1 s2"
  with run_command [OF assms(2,3), of cmd l ctx] that show thesis by auto
qed

lemma path_invariant:
  assumes "txn_path ops content ctx cmds s s2" "inv s" "txn_ok (content s)" "P s"
    and step: "\<And>cmd s s1. cmd \<in> set cmds \<Longrightarrow> txn_ok (content s) \<Longrightarrow> P s \<Longrightarrow>
       key_moved (cmd_ksteps cmd) (kviews (content s)) (kviews (content s1)) \<Longrightarrow> P s1"
  shows "inv s2 \<and> txn_ok (content s2) \<and> P s2"
  using assms
proof (induction cmds arbitrary: s)
  case Nil
  then show ?case by (auto elim: txn_path.cases)
next
  case (Cons cmd cmds)
  have wf: "mvcc_wf (content s)" using Cons.prems by (simp add: txn_ok_def)
  from path_step [OF Cons.prems(1,2) wf] obtain s1 where s1: "txn_path ops content ctx cmds s1 s2"
    "inv s1" "mvcc_wf (content s1)"
    and mv: "key_moved (cmd_ksteps cmd) (kviews (content s)) (kviews (content s1))" .
  have ok: "txn_ok (content s1)"
    using Cons.prems(3) s1(3) key_moved_ok [OF mv] by (simp add: txn_ok_def)
  have "P s1" using Cons.prems(5) [OF _ Cons.prems(3,4) mv] by simp
  then show ?case
  proof (rule Cons.IH [OF s1(1,2) ok])
    fix cmd' s s1
    assume "cmd' \<in> set cmds" "txn_ok (content s)" "P s"
      "key_moved (cmd_ksteps cmd') (kviews (content s)) (kviews (content s1))"
    then show "P s1" using Cons.prems(5) [of cmd' s s1] by simp
  qed
qed

lemma path_ok:
  assumes "txn_path ops content ctx cmds s s2" "inv s" "txn_ok (content s)"
  shows "inv s2 \<and> txn_ok (content s2)"
  using path_invariant [OF assms, of "\<lambda>_. True"] by simp

lemma path_read_stable:
  "late_path ts ops content ctx cmds s s2 \<Longrightarrow> inv s \<Longrightarrow> txn_ok (content s) \<Longrightarrow>
   view_read ts (kviews (content s2) k) = view_read ts (kviews (content s) k)"
proof (induction rule: late_path.induct)
  case (late_serve cmd s l res s1 l' cmds s2)
  have wf: "mvcc_wf (content s)" using late_serve.prems by (simp add: txn_ok_def)
  from run_command [OF late_serve.prems(1) wf late_serve.hyps(3,2), of ctx] late_serve.hyps(1)
  have s1: "inv s1" "mvcc_wf (content s1)" and mv: "key_moved (cmd_ksteps cmd) (kviews (content s)) (kviews (content s1))"
    by auto
  have ok: "kview_ok (kviews (content s) j)" for j using late_serve.prems(2) by (simp add: txn_ok_def)
  have "txn_ok (content s1)" using s1(2) key_moved_ok [OF mv ok] by (simp add: txn_ok_def)
  from late_serve.IH [OF s1(1) this] key_moved_read [OF mv ok] cmd_late_steps [OF late_serve.hyps(4)]
  show ?case by simp
qed simp

lemma path_records_kept:
  assumes "txn_path ops content ctx cmds s s2" "inv s" "txn_ok (content s)"
    and "(c, w) \<in> set (v_hist (kviews (content s) k))"
  shows "(c, w) \<in> set (v_hist (kviews (content s2) k))
    \<and> v_value (kviews (content s2) k) (w_StartTS w) = v_value (kviews (content s) k) (w_StartTS w)"
  using path_invariant [OF assms(1-3),
      of "\<lambda>s'. (c, w) \<in> set (v_hist (kviews (content s') k)) \<and>
           v_value (kviews (content s') k) (w_StartTS w) = v_value (kviews (content s) k) (w_StartTS w)"]
    assms(4) key_moved_records
  by (fastforce simp: txn_ok_def)

end

section \<open>The in-memory server\<close>

lemma history_view_mem:
  "mvcc_wf kv \<Longrightarrow> (c, w) \<in> set (v_hist (kviews kv k)) \<longleftrightarrow> write_at kv k c = Some w"
  by (simp add: kviews_def history_mem)

context llrb_spec
begin

lemma new_ok': "mem_ok ok (NewMemStorage L)"
  by (simp add: mem_ok_def NewMemStorage_def new_ok)

lemma new_txn_ok: "txn_ok (mem_content items (NewMemStorage L))"
proof -
  have kv: "mem_content items (NewMemStorage L) = (\<lambda>_. [])"
    by (rule ext) (simp add: mem_content_def mem_tree_def NewMemStorage_def tree_content_def new_items)
  show ?thesis
    by (simp add: kv txn_ok_def mvcc_wf_def kv_sorted_def kviews_def kview_ok_def hist_ok_def lock_at_def
        newest_first_def one_record_def first_committer_def history_def versions_upto_def cf_get_def)
qed

lemma mem_storage_spec: "storage_spec (mem_storage L) (mem_content items) (mem_ok ok)"
  by (rule mem.storage_spec_axioms)

lemma served_ok:
  assumes "txn_path (mem_storage L) (mem_content items) ctx cmds (NewMemStorage L) s"
  shows "mem_ok ok s" and "txn_ok (mem_content items s)"
  using mem.path_ok [OF assms new_ok' new_txn_ok] by auto

end

section \<open>Properties\<close>

text \<open>
  C6. Snapshot isolation of writes: after the server has served, one after another, any
  requests of clients that prewrite puts and deletes and take their timestamps from the oracle
  (\<open>client_ok\<close>; requests may be repeated, and may name a key several times), of two
  transactions committed on the same key the later one started after the earlier one had
  committed (so neither overwrote a version it could not see).
\<close>

theorem first_committer_wins:
  assumes "llrb_spec L items ok"
    and "txn_path (mem_storage L) (mem_content items) ctx cmds (NewMemStorage L) s"
    and "write_at (mem_content items s) k c = Some w" and "decides w"
    and "write_at (mem_content items s) k c' = Some w'" and "decides w'" and "c' < c"
  shows "c' < w_StartTS w \<and> w_StartTS w < c"
proof -
  have ok: "txn_ok (mem_content items s)" by (rule llrb_spec.served_ok [OF assms(1,2)])
  then have wf: "mvcc_wf (mem_content items s)" by (simp add: txn_ok_def)
  have h: "hist_ok (v_hist (kviews (mem_content items s) k))" using ok by (simp add: txn_ok_def kview_ok_def)
  have mem: "(c, w) \<in> set (v_hist (kviews (mem_content items s) k))"
    "(c', w') \<in> set (v_hist (kviews (mem_content items s) k))"
    using assms(3,5) by (simp_all add: history_view_mem [OF wf])
  have "rec_ok c w" using h mem(1) by (auto simp: hist_ok_def)
  then have "w_StartTS w < c" using assms(4) by (auto simp: rec_ok_def decides_def kind_consts)
  moreover have "c' < w_StartTS w"
    using h mem assms(4,6,7) by (auto simp: hist_ok_def first_committer_def)
  ultimately show ?thesis by blast
qed

text \<open>
  C7. Snapshot reads are stable: once a read at a timestamp has been answered without a lock
  error, the same read gives the same answer after any further requests of clients none of
  which commits a locked key at or before the timestamp (commits sent again and rollbacks, by
  request or by resolving locks, are allowed whatever their timestamps), or it reports a lock;
  it never gives another value.
\<close>

theorem snapshot_read_stable:
  assumes "llrb_spec L items ok"
    and "txn_path (mem_storage L) (mem_content items) ctx cmds (NewMemStorage L) s"
    and "RunCommand (mem_storage L) ctx (CmdGet \<lparr>gt_Key = k, gt_Version = ts\<rparr>) s l
           = Inr (Inr (Some (RespGet r)), s, l)" and "gr_Error r = None"
    and "late_path ts (mem_storage L) (mem_content items) ctx later s s2"
  shows "\<exists>r2. RunCommand (mem_storage L) ctx (CmdGet \<lparr>gt_Key = k, gt_Version = ts\<rparr>) s2 l
           = Inr (Inr (Some (RespGet r2)), s2, l) \<and> (gr_Error r2 = None \<longrightarrow> r2 = r)"
proof -
  note spec = llrb_spec.mem_storage_spec [OF assms(1)]
  note s = llrb_spec.served_ok [OF assms(1,2)]
  then have wf: "mvcc_wf (mem_content items s)" by (simp add: txn_ok_def)
  have s2: "mem_ok ok s2" "mvcc_wf (mem_content items s2)"
    using storage_spec.path_ok [OF spec late_path_txn [OF assms(5)] s] by (auto simp: txn_ok_def)
  have "view_read ts (kviews (mem_content items s2) k) = view_read ts (kviews (mem_content items s) k)"
    by (rule storage_spec.path_read_stable [OF spec assms(5) s])
  moreover have "r = spec_get k ts (kviews (mem_content items s) k)"
    using storage_spec.run_get [OF spec s(1) wf, of ctx "\<lparr>gt_Key = k, gt_Version = ts\<rparr>" l] assms(3) by simp
  ultimately show ?thesis
    using storage_spec.run_get [OF spec s2, of ctx "\<lparr>gt_Key = k, gt_Version = ts\<rparr>" l] assms(4)
    by (auto simp: spec_get_def Let_def split: option.splits if_splits)
qed

text \<open>
  What a transaction has recorded is permanent: no later request changes or removes a write
  record, or the value the transaction stored for it.
\<close>

theorem records_permanent:
  assumes "llrb_spec L items ok"
    and "txn_path (mem_storage L) (mem_content items) ctx cmds (NewMemStorage L) s"
    and "write_at (mem_content items s) k c = Some w"
    and "txn_path (mem_storage L) (mem_content items) ctx later s s2"
  shows "write_at (mem_content items s2) k c = Some w
    \<and> value_at (mem_content items s2) k (w_StartTS w) = value_at (mem_content items s) k (w_StartTS w)"
proof -
  note spec = llrb_spec.mem_storage_spec [OF assms(1)]
  note s = llrb_spec.served_ok [OF assms(1,2)]
  have s2: "mvcc_wf (mem_content items s2)"
    using storage_spec.path_ok [OF spec assms(4) s] by (auto simp: txn_ok_def)
  have "(c, w) \<in> set (v_hist (kviews (mem_content items s) k))"
    using assms(3) s by (simp add: history_view_mem txn_ok_def)
  from storage_spec.path_records_kept [OF spec assms(4) s this] show ?thesis
    by (simp add: history_view_mem [OF s2]) (simp add: kviews_def)
qed


text \<open>
  C17. Two-phase commit end to end: after a put has been prewritten without error, committing it
  succeeds, and every read at or after the commit timestamp returns the value, while reads
  before the commit timestamp see what they saw before the transaction.
\<close>

theorem committed_put_is_read:
  assumes "llrb_spec L items ok"
    and "txn_path (mem_storage L) (mem_content items) ctx cmds (NewMemStorage L) s"
    and pw: "RunCommand (mem_storage L) ctx (CmdPrewrite \<lparr>pw_Mutations = [\<lparr>mut_Op = Op_Put, mut_Key = k,
           mut_Value = Some val\<rparr>], pw_PrimaryLock = primary, pw_StartVersion = start, pw_LockTtl = ttl\<rparr>)
           s NewLatches = Inr (Inr (Some (PrewriteResponse [])), s1, l1)"
    and cm: "RunCommand (mem_storage L) ctx (CmdCommit \<lparr>cm_StartVersion = start, cm_Keys = [k],
           cm_CommitVersion = commit\<rparr>) s1 NewLatches = Inr (res, s2, l2)"
    and ts: "start < commit" "write_at (mem_content items s) k commit = None"
  shows "res = Inr (Some (CommitResponse None))
    \<and> (commit \<le> ts \<longrightarrow> RunCommand (mem_storage L) ctx (CmdGet \<lparr>gt_Key = k, gt_Version = ts\<rparr>) s2 l
         = Inr (Inr (Some (RespGet \<lparr>gr_Error = None, gr_Value = Some val, gr_NotFound = False\<rparr>)), s2, l))
    \<and> (ts < commit \<longrightarrow> RunCommand (mem_storage L) ctx (CmdGet \<lparr>gt_Key = k, gt_Version = ts\<rparr>) s2 l
         = Inr (Inr (Some (RespGet (spec_get k ts ((kviews (mem_content items s) k)\<lparr>v_lock := None\<rparr>)))), s2, l))"
proof -
  note spec = llrb_spec.mem_storage_spec [OF assms(1)]
  note s = llrb_spec.served_ok [OF assms(1,2)]
  then have wf: "mvcc_wf (mem_content items s)" by (simp add: txn_ok_def)
  define V where "V = kviews (mem_content items s)"
  let ?mut = "\<lparr>mut_Op = Op_Put, mut_Key = k, mut_Value = Some val\<rparr>"
  let ?lock = "\<lparr>lk_Primary = primary, lk_Ts = start, lk_Ttl = ttl, lk_Kind = WriteKindPut\<rparr>"
  define v1 where "v1 = (V k)\<lparr>v_lock := Some ?lock, v_value := (v_value (V k))(start := Some val)\<rparr>"
  have pre: "spec_prewrite start primary ttl ?mut (V k) = (None, v1)"
    and s1: "mem_ok ok s1" "mvcc_wf (mem_content items s1)" "kviews (mem_content items s1) = V(k := v1)"
    using storage_spec.run_prewrite1 [OF spec s(1) wf latches_free_New, of ?mut k ctx primary start ttl] pw
    by (auto simp: V_def v1_def prewrite_over_def kind_consts Let_def split: option.splits)
  have ok1: "kview_ok v1"
    using prewrite_ok [of "V k" ?mut start primary ttl] s pre by (simp add: txn_ok_def V_def)
  have own: "own_lock start v1 = Some ?lock" by (simp add: v1_def own_lock_def)
  have fresh: "commit \<notin> fst ` set (v_hist v1)"
  proof
    assume "commit \<in> fst ` set (v_hist v1)"
    then obtain w where "(commit, w) \<in> set (v_hist (V k))" by (auto simp: v1_def)
    then show False using ts(2) by (simp add: V_def history_view_mem [OF wf])
  qed
  define v2 where "v2 = snd (spec_commit start commit k v1)"
  have com: "spec_commit start commit k v1 = (None, v2)" by (simp add: v2_def commit_over_def own)
  have res: "res = Inr (Some (CommitResponse None))"
    and s2: "mem_ok ok s2" "mvcc_wf (mem_content items s2)" "kviews (mem_content items s2) = V(k := v2)"
    using storage_spec.run_commit1 [OF spec s1(1,2) latches_free_New ts(1), of ctx k] cm com s1(3) by auto
  have "v_lock v2 = None" by (simp add: v2_def commit_over_def own)
  moreover have "commit \<le> ts \<Longrightarrow> view_read ts v2 = Some val"
    using commit_visible [OF ok1 own _ ts(1) fresh, of ts k] by (simp add: v2_def v1_def)
  moreover have "view_read ts v2 = view_read ts (V k)" if "ts < commit"
  proof -
    have "view_read ts v2 = view_read ts v1"
      using kstep_read_stable [OF ok1, of "KCommit start commit" ts k] ts(1) fresh that
      by (simp add: commits_after_def v2_def)
    also have "\<dots> = view_read ts (V k)"
      using kstep_read_stable [of "V k" "KPrewrite start primary ttl ?mut" ts k] s pre
      by (simp add: commits_after_def txn_ok_def V_def)
    finally show ?thesis .
  qed
  moreover have "RunCommand (mem_storage L) ctx (CmdGet \<lparr>gt_Key = k, gt_Version = ts\<rparr>) s2 l
      = Inr (Inr (Some (RespGet (spec_get k ts v2))), s2, l)"
    using storage_spec.run_get [OF spec s2(1,2), of ctx "\<lparr>gt_Key = k, gt_Version = ts\<rparr>" l] s2(3) by simp
  moreover have "view_read ts ((V k)\<lparr>v_lock := None\<rparr>) = view_read ts (V k)"
    by (simp add: view_read_def split: option.splits)
  ultimately show ?thesis
    using res by (auto simp: spec_get_def IsLockedFor_def Let_def V_def [symmetric])
qed

text \<open>
  C18. A rollback is final: once a rollback of a key has been answered without error (its start
  timestamp not being the commit timestamp of another transaction), whatever requests of
  clients (\<open>client_ok\<close>) are served afterwards, committing the transaction on the key fails and
  prewriting it is refused, and neither changes anything.
\<close>

theorem rollback_is_final:
  assumes "llrb_spec L items ok"
    and "txn_path (mem_storage L) (mem_content items) ctx cmds (NewMemStorage L) s"
    and rb: "RunCommand (mem_storage L) ctx (CmdRollback \<lparr>rb_StartVersion = start, rb_Keys = [k]\<rparr>) s NewLatches
           = Inr (Inr (Some (BatchRollbackResponse None)), s1, l1)"
    and "own_start start (kviews (mem_content items s) k)"
    and later: "txn_path (mem_storage L) (mem_content items) ctx later s1 s2"
    and "start < commit" and "mut_Key m = k" and "mut_Op m = Op_Put \<or> mut_Op m = Op_Del"
  shows "(\<exists>s3 l3. RunCommand (mem_storage L) ctx (CmdCommit \<lparr>cm_StartVersion = start, cm_Keys = [k],
             cm_CommitVersion = commit\<rparr>) s2 NewLatches
           = Inr (Inr (Some (CommitResponse (Some (no_KeyError\<lparr>ke_Retryable := Some (LockNotFound k)\<rparr>)))), s3, l3)
           \<and> kviews (mem_content items s3) = kviews (mem_content items s2))
    \<and> (\<exists>e s3 l3. RunCommand (mem_storage L) ctx (CmdPrewrite \<lparr>pw_Mutations = [m], pw_PrimaryLock = primary,
             pw_StartVersion = start, pw_LockTtl = ttl\<rparr>) s2 NewLatches
           = Inr (Inr (Some (PrewriteResponse [e])), s3, l3)
           \<and> kviews (mem_content items s3) = kviews (mem_content items s2))"
proof -
  note spec = llrb_spec.mem_storage_spec [OF assms(1)]
  note s = llrb_spec.served_ok [OF assms(1,2)]
  define V where "V = kviews (mem_content items s)"
  have ok: "kview_ok (V j)" for j using s by (simp add: txn_ok_def V_def)
  obtain v1 where v1: "spec_rollback start k (V k) = (None, v1)"
    and s1: "mem_ok ok s1" "mvcc_wf (mem_content items s1)" "kviews (mem_content items s1) = V(k := v1)"
    using storage_spec.run_rollback1 [OF spec s(1) _ latches_free_New, of ctx start k] s(2) rb
    by (cases "spec_rollback start k (V k)") (auto simp: V_def txn_ok_def)
  have step: "kstep_ok (KRollback start) (V k)" using assms(4) by (simp add: own_start_def V_def)
  have "kview_ok v1" using rollback_ok [OF ok step, of k] v1 by simp
  then have ok1: "txn_ok (mem_content items s1)" using s1 ok by (simp add: txn_ok_def)
  have "recorded start start (rollback_rec start) v1" by (rule rollback_records [OF ok step v1])
  with storage_spec.path_records_kept [OF spec later s1(1) ok1, of start "rollback_rec start" k] s1(3)
  have rec: "recorded start start (rollback_rec start) (kviews (mem_content items s2) k)"
    by (simp add: recorded_def)
  have s2: "mem_ok ok s2" "mvcc_wf (mem_content items s2)" "kview_ok (kviews (mem_content items s2) k)"
    using storage_spec.path_ok [OF spec later s1(1) ok1] by (auto simp: txn_ok_def)
  note fin = rolled_back_final [OF s2(3) rec]
  obtain e where e: "spec_prewrite start primary ttl m (kviews (mem_content items s2) k)
      = (Some e, kviews (mem_content items s2) k)" using fin(2) by blast
  show ?thesis
    using storage_spec.run_commit1 [OF spec s2(1,2) latches_free_New assms(6), of ctx k]
      storage_spec.run_prewrite1 [OF spec s2(1,2) latches_free_New assms(7,8), of ctx primary start ttl]
      fin(1) [of commit k] e by auto
qed

text \<open>
  C19. A commit is final: once a key carries a committed record of a transaction, whatever
  requests of clients (\<open>client_ok\<close>) are served afterwards, the same commit again included, rolling the transaction back on the key is refused with the commit
  timestamp, committing it again succeeds, and checking its status reports the commit
  timestamp; none of them changes anything.
\<close>

theorem commit_is_final:
  assumes "llrb_spec L items ok"
    and "txn_path (mem_storage L) (mem_content items) ctx cmds (NewMemStorage L) s"
    and "write_at (mem_content items s) k c = Some w" and "decides w"
    and later: "txn_path (mem_storage L) (mem_content items) ctx later s s2"
    and "w_StartTS w < commit"
  shows "(\<exists>s3 l3. RunCommand (mem_storage L) ctx (CmdRollback \<lparr>rb_StartVersion = w_StartTS w, rb_Keys = [k]\<rparr>) s2 NewLatches
        = Inr (Inr (Some (BatchRollbackResponse (Some (no_KeyError\<lparr>ke_Abort := Some (AlreadyCommitted k c)\<rparr>)))), s3, l3)
        \<and> kviews (mem_content items s3) = kviews (mem_content items s2))
    \<and> (\<exists>s3 l3. RunCommand (mem_storage L) ctx (CmdCommit \<lparr>cm_StartVersion = w_StartTS w, cm_Keys = [k],
             cm_CommitVersion = commit\<rparr>) s2 NewLatches = Inr (Inr (Some (CommitResponse None)), s3, l3)
        \<and> kviews (mem_content items s3) = kviews (mem_content items s2))
    \<and> (\<exists>s3 l3. RunCommand (mem_storage L) ctx (CmdCheckTxnStatus \<lparr>ct_PrimaryKey = k, ct_LockTs = w_StartTS w,
             ct_CurrentTs = current\<rparr>) s2 NewLatches
        = Inr (Inr (Some (CheckTxnResponse \<lparr>cr_LockTtl = 0, cr_CommitVersion = c, cr_Action = NoAction\<rparr>)), s3, l3)
        \<and> kviews (mem_content items s3) = kviews (mem_content items s2))"
proof -
  note spec = llrb_spec.mem_storage_spec [OF assms(1)]
  note s = llrb_spec.served_ok [OF assms(1,2)]
  have "(c, w) \<in> set (v_hist (kviews (mem_content items s) k))"
    using assms(3) s by (simp add: history_view_mem txn_ok_def)
  with storage_spec.path_records_kept [OF spec later s]
  have rec: "recorded (w_StartTS w) c w (kviews (mem_content items s2) k)"
    by (simp add: recorded_def)
  have s2: "mem_ok ok s2" "mvcc_wf (mem_content items s2)" "kview_ok (kviews (mem_content items s2) k)"
    using storage_spec.path_ok [OF spec later s] by (auto simp: txn_ok_def)
  show ?thesis
    using committed_final [OF s2(3) rec assms(4)]
      storage_spec.run_rollback1 [OF spec s2(1,2) latches_free_New, of ctx "w_StartTS w" k]
      storage_spec.run_commit1 [OF spec s2(1,2) latches_free_New assms(6), of ctx k]
      storage_spec.run_check1 [OF spec s2(1,2) latches_free_New, of ctx k "w_StartTS w" current]
    by auto
qed

text \<open>
  C23. Checking the status of a transaction that left no record on its primary key removes the
  lock another transaction holds there, whatever older versions the key has: the owner's commit
  of that key, had it not been decided before, then fails, although the status of the owner was
  never asked for.
\<close>

theorem check_removes_foreign_lock:
  assumes "llrb_spec L items ok" and "mem_ok ok s" and "mvcc_wf (mem_content items s)"
    and "lock_at (mem_content items s) k = Some l" and "lk_Ts l \<noteq> start" and "lk_Ts l < commit"
    and "\<forall>c w. write_at (mem_content items s) k c = Some w \<longrightarrow> w_StartTS w \<noteq> start \<and> w_StartTS w \<noteq> lk_Ts l"
  shows "\<exists>s1 l1 s2 l2.
    RunCommand (mem_storage L) ctx (CmdCheckTxnStatus \<lparr>ct_PrimaryKey = k, ct_LockTs = start,
        ct_CurrentTs = current\<rparr>) s NewLatches
      = Inr (Inr (Some (CheckTxnResponse \<lparr>cr_LockTtl = 0, cr_CommitVersion = 0,
               cr_Action = LockNotExistRollback\<rparr>)), s1, l1)
    \<and> lock_at (mem_content items s1) k = None
    \<and> RunCommand (mem_storage L) ctx (CmdCommit \<lparr>cm_StartVersion = lk_Ts l, cm_Keys = [k],
        cm_CommitVersion = commit\<rparr>) s1 NewLatches
      = Inr (Inr (Some (CommitResponse (Some (no_KeyError\<lparr>ke_Retryable := Some (LockNotFound k)\<rparr>)))), s2, l2)"
proof -
  note spec = llrb_spec.mem_storage_spec [OF assms(1)]
  define V where "V = kviews (mem_content items s)"
  have Vk: "v_lock (V k) = Some l" using assms(4) by (simp add: V_def kviews_def)
  have none: "\<forall>(c, w) \<in> set (v_hist (V k)). w_StartTS w \<noteq> start \<and> w_StartTS w \<noteq> lk_Ts l"
    using assms(7) unfolding V_def by (fastforce simp: history_view_mem [OF assms(3)])
  let ?h = "hist_put start (rollback_rec start) (v_hist (V k))"
  let ?v1 = "(V k)\<lparr>v_lock := None, v_hist := ?h\<rparr>"
  have chk: "spec_check start current (V k) = (\<lparr>cr_LockTtl = 0, cr_CommitVersion = 0,
      cr_Action = LockNotExistRollback\<rparr>, ?v1)"
    using Vk assms(5) none no_record_scan [of "v_hist (V k)" start] by (fastforce simp: spec_check_def own_lock_def Let_def)
  obtain s1 l1 where s1: "RunCommand (mem_storage L) ctx (CmdCheckTxnStatus \<lparr>ct_PrimaryKey = k,
        ct_LockTs = start, ct_CurrentTs = current\<rparr>) s NewLatches
      = Inr (Inr (Some (CheckTxnResponse \<lparr>cr_LockTtl = 0, cr_CommitVersion = 0,
               cr_Action = LockNotExistRollback\<rparr>)), s1, l1)"
    "mem_ok ok s1" "mvcc_wf (mem_content items s1)" "kviews (mem_content items s1) = V(k := ?v1)"
    using storage_spec.run_check1 [OF spec assms(2,3) latches_free_New, of ctx k start current] chk
    by (auto simp: V_def)
  have "spec_commit (lk_Ts l) commit k ?v1
      = (Some (no_KeyError\<lparr>ke_Retryable := Some (LockNotFound k)\<rparr>), ?v1)"
  proof -
    have "\<forall>(c, w) \<in> set ?h. w_StartTS w \<noteq> lk_Ts l"
      using none assms(5) hist_put_subset [of start "rollback_rec start" "v_hist (V k)"] by auto
    then show ?thesis using no_record_scan [of ?h "lk_Ts l"] by (auto simp: commit_over_def own_lock_def)
  qed
  moreover have "v_lock (kviews (mem_content items s1) k) = lock_at (mem_content items s1) k"
    by (simp add: kviews_def)
  ultimately show ?thesis
    using storage_spec.run_commit1 [OF spec s1(2,3) latches_free_New assms(6), of ctx k] s1 by auto
qed

section \<open>A run of the server\<close>

text \<open>
  A server on an empty store serves two transactions that put a value under the same key, one
  after the other; the runs below are the inputs at which the properties are applied.
\<close>

definition put_pw :: "bytes \<Rightarrow> u64 \<Rightarrow> byte \<Rightarrow> PrewriteRequest" where
  "put_pw k start val = \<lparr>pw_Mutations = [\<lparr>mut_Op = Op_Put, mut_Key = k, mut_Value = Some [val]\<rparr>],
     pw_PrimaryLock = k, pw_StartVersion = start, pw_LockTtl = 5\<rparr>"

definition put_cm :: "bytes \<Rightarrow> u64 \<Rightarrow> u64 \<Rightarrow> CommitRequest" where
  "put_cm k start commit = \<lparr>cm_StartVersion = start, cm_Keys = [k], cm_CommitVersion = commit\<rparr>"

context storage_spec
begin

lemma serve_prewrite:
  assumes "inv s" "mvcc_wf (content s)" and "v_lock (kviews (content s) k) = None"
    and "newer_commit start (v_hist (kviews (content s) k)) = None"
  obtains s1 l1 where
    "RunCommand ops ctx (CmdPrewrite (put_pw k start val)) s NewLatches = Inr (Inr (Some (PrewriteResponse [])), s1, l1)"
    "inv s1" "mvcc_wf (content s1)" "txn_path ops content ctx [CmdPrewrite (put_pw k start val)] s s1"
    "kviews (content s1) k = \<lparr>v_lock = Some \<lparr>lk_Primary = k, lk_Ts = start, lk_Ttl = 5, lk_Kind = WriteKindPut\<rparr>,
       v_hist = v_hist (kviews (content s) k), v_value = (v_value (kviews (content s) k))(start := Some [val])\<rparr>"
proof -
  let ?m = "\<lparr>mut_Op = Op_Put, mut_Key = k, mut_Value = Some [val]\<rparr>"
  have sp: "spec_prewrite start k 5 ?m (kviews (content s) k) = (None,
      \<lparr>v_lock = Some \<lparr>lk_Primary = k, lk_Ts = start, lk_Ttl = 5, lk_Kind = WriteKindPut\<rparr>,
       v_hist = v_hist (kviews (content s) k), v_value = (v_value (kviews (content s) k))(start := Some [val])\<rparr>)"
    using assms(3,4) by (simp add: prewrite_over_def Let_def kind_consts)
  from run_prewrite1 [OF assms(1,2) latches_free_New, of ?m k ctx k start 5] obtain s1 l1 where
    run: "RunCommand ops ctx (CmdPrewrite (put_pw k start val)) s NewLatches = Inr (Inr (Some (PrewriteResponse [])), s1, l1)"
    and s1: "inv s1" "mvcc_wf (content s1)" "kviews (content s1) = (kviews (content s))(k := snd (spec_prewrite start k 5 ?m (kviews (content s) k)))"
    by (auto simp: sp put_pw_def)
  have "txn_path ops content ctx [CmdPrewrite (put_pw k start val)] s s1"
    by (rule txn_path.serve [OF run _ _ txn_path.stop]) (simp_all add: put_pw_def)
  with run s1 sp that show ?thesis by simp
qed

lemma serve_commit:
  assumes "inv s" "mvcc_wf (content s)" and "own_lock start (kviews (content s) k) = Some l"
    and "fresh_commit start commit (kviews (content s) k)" "start < commit"
  obtains s1 l1 where
    "RunCommand ops ctx (CmdCommit (put_cm k start commit)) s NewLatches = Inr (Inr (Some (CommitResponse None)), s1, l1)"
    "inv s1" "mvcc_wf (content s1)" "txn_path ops content ctx [CmdCommit (put_cm k start commit)] s s1"
    "kviews (content s1) k = \<lparr>v_lock = None,
       v_hist = hist_put commit \<lparr>w_StartTS = start, w_Kind = lk_Kind l\<rparr> (v_hist (kviews (content s) k)),
       v_value = v_value (kviews (content s) k)\<rparr>"
proof -
  have sp: "spec_commit start commit k (kviews (content s) k) = (None, \<lparr>v_lock = None,
      v_hist = hist_put commit \<lparr>w_StartTS = start, w_Kind = lk_Kind l\<rparr> (v_hist (kviews (content s) k)),
      v_value = v_value (kviews (content s) k)\<rparr>)"
    using assms(3) by (simp add: commit_over_def)
  from run_commit1 [OF assms(1,2) latches_free_New assms(5), of ctx k] obtain s1 l1 where
    run: "RunCommand ops ctx (CmdCommit (put_cm k start commit)) s NewLatches = Inr (Inr (Some (CommitResponse None)), s1, l1)"
    and s1: "inv s1" "mvcc_wf (content s1)" "kviews (content s1) = (kviews (content s))(k := snd (spec_commit start commit k (kviews (content s) k)))"
    by (auto simp: sp put_cm_def)
  have "txn_path ops content ctx [CmdCommit (put_cm k start commit)] s s1"
    by (rule txn_path.serve [OF run _ _ txn_path.stop]) (use assms in \<open>simp_all add: put_cm_def\<close>)
  with run s1 sp that show ?thesis by simp
qed

text \<open>A commit sent again: it is answered as the first time and changes nothing.\<close>

lemma serve_commit_again:
  assumes "inv s" "mvcc_wf (content s)" and "own_lock start (kviews (content s) k) = None" "start < commit"
    and "current_scan start (v_hist (kviews (content s) k)) = (Some w, c)" "w_Kind w \<noteq> WriteKindRollback"
  obtains s1 l1 where
    "RunCommand ops ctx (CmdCommit (put_cm k start commit)) s NewLatches = Inr (Inr (Some (CommitResponse None)), s1, l1)"
    "inv s1" "mvcc_wf (content s1)" "kviews (content s1) = kviews (content s)"
    "txn_path ops content ctx [CmdCommit (put_cm k start commit)] s s1"
    "late_path ts ops content ctx [CmdCommit (put_cm k start commit)] s s1"
proof -
  have sp: "spec_commit start commit k (kviews (content s) k) = (None, kviews (content s) k)"
    using assms(3,5,6) by (simp add: commit_over_def)
  from run_commit1 [OF assms(1,2) latches_free_New assms(4), of ctx k] obtain s1 l1 where
    run: "RunCommand ops ctx (CmdCommit (put_cm k start commit)) s NewLatches = Inr (Inr (Some (CommitResponse None)), s1, l1)"
    and s1: "inv s1" "mvcc_wf (content s1)" "kviews (content s1) = kviews (content s)"
    by (auto simp: sp put_cm_def)
  have "late_path ts ops content ctx [CmdCommit (put_cm k start commit)] s s1"
    by (rule late_path.late_serve [OF run _ _ _ late_path.late_stop]) (use assms in \<open>simp_all add: put_cm_def fresh_commit_def\<close>)
  from that [OF run s1 late_path_txn [OF this] this] show ?thesis .
qed

lemma txn_path_append:
  "txn_path ops content ctx c1 s s1 \<Longrightarrow> txn_path ops content ctx c2 s1 s2 \<Longrightarrow>
   txn_path ops content ctx (c1 @ c2) s s2"
  by (induction rule: txn_path.induct) (auto intro: txn_path.serve)

end

abbreviation demo_ops :: "(memItem list MemStorage, unit) storage_api" where
  "demo_ops \<equiv> mem_storage list_llrb"

abbreviation demo_kv :: "memItem list MemStorage \<Rightarrow> kvstate" where
  "demo_kv \<equiv> mem_content (\<lambda>is. is)"

lemma demo_new: "kviews (demo_kv (NewMemStorage list_llrb)) k = \<lparr>v_lock = None, v_hist = [], v_value = (\<lambda>_. None)\<rparr>"
  by (auto simp: kviews_def mem_content_def mem_tree_def NewMemStorage_def list_llrb_def tree_content_def
      lock_at_def history_def versions_upto_def value_at_def cf_get_def)

lemma demo_first:
  obtains s1 l1 s2 l2 where
    "RunCommand demo_ops () (CmdPrewrite (put_pw [1] 10 42)) (NewMemStorage list_llrb) NewLatches
       = Inr (Inr (Some (PrewriteResponse [])), s1, l1)"
    "RunCommand demo_ops () (CmdCommit (put_cm [1] 10 20)) s1 NewLatches
       = Inr (Inr (Some (CommitResponse None)), s2, l2)"
    "txn_path demo_ops demo_kv () [CmdPrewrite (put_pw [1] 10 42)] (NewMemStorage list_llrb) s1"
    "txn_path demo_ops demo_kv () [CmdPrewrite (put_pw [1] 10 42), CmdCommit (put_cm [1] 10 20)] (NewMemStorage list_llrb) s2"
    "mem_ok items_sorted s1" "mvcc_wf (demo_kv s1)" "mem_ok items_sorted s2" "mvcc_wf (demo_kv s2)"
    "v_lock (kviews (demo_kv s1) [1]) = Some \<lparr>lk_Primary = [1], lk_Ts = 10, lk_Ttl = 5, lk_Kind = WriteKindPut\<rparr>"
    "v_hist (kviews (demo_kv s1) [1]) = []"
    "kviews (demo_kv s2) [1] = \<lparr>v_lock = None, v_hist = [(20, \<lparr>w_StartTS = 10, w_Kind = WriteKindPut\<rparr>)],
       v_value = (\<lambda>_. None)(10 := Some [42])\<rparr>"
proof -
  have wf: "mvcc_wf (demo_kv (NewMemStorage list_llrb))"
    using list_tree.new_txn_ok by (simp add: txn_ok_def)
  have k: "v_lock (kviews (demo_kv (NewMemStorage list_llrb)) [1]) = None"
    "newer_commit 10 (v_hist (kviews (demo_kv (NewMemStorage list_llrb)) [1])) = None"
    by (simp_all add: demo_new newer_commit_def)
  obtain s1 l1 where s1: "RunCommand demo_ops () (CmdPrewrite (put_pw [1] 10 42)) (NewMemStorage list_llrb) NewLatches
       = Inr (Inr (Some (PrewriteResponse [])), s1, l1)" "mem_ok items_sorted s1" "mvcc_wf (demo_kv s1)"
    "txn_path demo_ops demo_kv () [CmdPrewrite (put_pw [1] 10 42)] (NewMemStorage list_llrb) s1"
    and v1: "kviews (demo_kv s1) [1] = \<lparr>v_lock = Some \<lparr>lk_Primary = [1], lk_Ts = 10, lk_Ttl = 5,
       lk_Kind = WriteKindPut\<rparr>, v_hist = [], v_value = (\<lambda>_. None)(10 := Some [42])\<rparr>"
    using list_tree.mem.serve_prewrite [OF list_tree.new_ok' wf k, of "()" 42] by (auto simp: demo_new)
  have own: "own_lock 10 (kviews (demo_kv s1) [1]) = Some \<lparr>lk_Primary = [1], lk_Ts = 10, lk_Ttl = 5,
      lk_Kind = WriteKindPut\<rparr>" and fresh: "fresh_commit 10 20 (kviews (demo_kv s1) [1])"
    by (simp_all add: v1 own_lock_def fresh_commit_def)
  obtain s2 l2 where s2: "RunCommand demo_ops () (CmdCommit (put_cm [1] 10 20)) s1 NewLatches
       = Inr (Inr (Some (CommitResponse None)), s2, l2)" "mem_ok items_sorted s2" "mvcc_wf (demo_kv s2)"
    "txn_path demo_ops demo_kv () [CmdCommit (put_cm [1] 10 20)] s1 s2"
    and v2: "kviews (demo_kv s2) [1] = \<lparr>v_lock = None, v_hist = [(20, \<lparr>w_StartTS = 10, w_Kind = WriteKindPut\<rparr>)],
       v_value = (\<lambda>_. None)(10 := Some [42])\<rparr>"
    using list_tree.mem.serve_commit [OF s1(2,3) own fresh, of "()"] by (auto simp: v1)
  show ?thesis
    using list_tree.mem.txn_path_append [OF s1(4) s2(4)]
    by (intro that [OF s1(1) s2(1) s1(4) _ s1(2,3) s2(2,3)]) (simp_all add: v1 v2)
qed

text \<open>The first commit is sent again.\<close>

lemma demo_again:
  obtains cmds s2 s3 where "txn_path demo_ops demo_kv () cmds (NewMemStorage list_llrb) s2"
    "mem_ok items_sorted s2" "mvcc_wf (demo_kv s2)" "mem_ok items_sorted s3" "mvcc_wf (demo_kv s3)"
    "txn_path demo_ops demo_kv () [CmdCommit (put_cm [1] 10 20)] s2 s3"
    "late_path 25 demo_ops demo_kv () [CmdCommit (put_cm [1] 10 20)] s2 s3"
    "kviews (demo_kv s2) [1] = \<lparr>v_lock = None, v_hist = [(20, \<lparr>w_StartTS = 10, w_Kind = WriteKindPut\<rparr>)],
       v_value = (\<lambda>_. None)(10 := Some [42])\<rparr>"
    "kviews (demo_kv s3) = kviews (demo_kv s2)"
proof (rule demo_first)
  fix s1 l1 s2 l2
  assume p2: "txn_path demo_ops demo_kv () [CmdPrewrite (put_pw [1] 10 42), CmdCommit (put_cm [1] 10 20)]
      (NewMemStorage list_llrb) s2" and s2: "mem_ok items_sorted s2" "mvcc_wf (demo_kv s2)"
    and v2: "kviews (demo_kv s2) [1] = \<lparr>v_lock = None, v_hist = [(20, \<lparr>w_StartTS = 10, w_Kind = WriteKindPut\<rparr>)],
       v_value = (\<lambda>_. None)(10 := Some [42])\<rparr>"
  have k: "own_lock 10 (kviews (demo_kv s2) [1]) = None"
    "current_scan 10 (v_hist (kviews (demo_kv s2) [1])) = (Some \<lparr>w_StartTS = 10, w_Kind = WriteKindPut\<rparr>, 20)"
    by (simp_all add: v2 own_lock_def)
  show ?thesis
    by (rule list_tree.mem.serve_commit_again [OF s2 k(1) _ k(2), of 20 "()" 25])
      (use p2 s2 v2 that in \<open>simp_all add: kind_consts\<close>)
qed

text \<open>A second transaction on the same key: start 30, commit 40.\<close>

lemma demo_second:
  obtains cmds s where "txn_path demo_ops demo_kv () cmds (NewMemStorage list_llrb) s"
    "write_at (demo_kv s) [1] 20 = Some \<lparr>w_StartTS = 10, w_Kind = WriteKindPut\<rparr>"
    "write_at (demo_kv s) [1] 40 = Some \<lparr>w_StartTS = 30, w_Kind = WriteKindPut\<rparr>"
proof (rule demo_again)
  fix cmds s1 s2
  assume "txn_path demo_ops demo_kv () cmds (NewMemStorage list_llrb) s1"
    "txn_path demo_ops demo_kv () [CmdCommit (put_cm [1] 10 20)] s1 s2"
    and s2: "mem_ok items_sorted s2" "mvcc_wf (demo_kv s2)"
    and "kviews (demo_kv s1) [1] = \<lparr>v_lock = None, v_hist = [(20, \<lparr>w_StartTS = 10, w_Kind = WriteKindPut\<rparr>)],
       v_value = (\<lambda>_. None)(10 := Some [42])\<rparr>" "kviews (demo_kv s2) = kviews (demo_kv s1)"
  then have p2: "txn_path demo_ops demo_kv () (cmds @ [CmdCommit (put_cm [1] 10 20)]) (NewMemStorage list_llrb) s2"
    and v2: "kviews (demo_kv s2) [1] = \<lparr>v_lock = None, v_hist = [(20, \<lparr>w_StartTS = 10, w_Kind = WriteKindPut\<rparr>)],
       v_value = (\<lambda>_. None)(10 := Some [42])\<rparr>"
    by (auto intro: list_tree.mem.txn_path_append)
  have k: "v_lock (kviews (demo_kv s2) [1]) = None" "newer_commit 30 (v_hist (kviews (demo_kv s2) [1])) = None"
    by (simp_all add: v2 newer_commit_def)
  obtain s3 l3 where s3: "mem_ok items_sorted s3" "mvcc_wf (demo_kv s3)"
    "txn_path demo_ops demo_kv () [CmdPrewrite (put_pw [1] 30 43)] s2 s3"
    and v3: "kviews (demo_kv s3) [1] = \<lparr>v_lock = Some \<lparr>lk_Primary = [1], lk_Ts = 30, lk_Ttl = 5,
       lk_Kind = WriteKindPut\<rparr>, v_hist = [(20, \<lparr>w_StartTS = 10, w_Kind = WriteKindPut\<rparr>)],
       v_value = (\<lambda>_. None)(10 := Some [42], 30 := Some [43])\<rparr>"
    using list_tree.mem.serve_prewrite [OF s2 k, of "()" 43] by (auto simp: v2)
  have own: "own_lock 30 (kviews (demo_kv s3) [1]) = Some \<lparr>lk_Primary = [1], lk_Ts = 30, lk_Ttl = 5,
      lk_Kind = WriteKindPut\<rparr>" and fresh: "fresh_commit 30 40 (kviews (demo_kv s3) [1])"
    by (simp_all add: v3 own_lock_def fresh_commit_def)
  obtain s4 where s4: "mvcc_wf (demo_kv s4)" "txn_path demo_ops demo_kv () [CmdCommit (put_cm [1] 30 40)] s3 s4"
    and v4: "v_hist (kviews (demo_kv s4) [1]) = [(40, \<lparr>w_StartTS = 30, w_Kind = WriteKindPut\<rparr>),
      (20, \<lparr>w_StartTS = 10, w_Kind = WriteKindPut\<rparr>)]"
    by (rule list_tree.mem.serve_commit [OF s3(1,2) own fresh, of "()"]) (simp_all add: v3)
  have w: "write_at (demo_kv s4) [1] 20 = Some \<lparr>w_StartTS = 10, w_Kind = WriteKindPut\<rparr>"
    "write_at (demo_kv s4) [1] 40 = Some \<lparr>w_StartTS = 30, w_Kind = WriteKindPut\<rparr>"
    by (simp_all add: history_view_mem [OF s4(1), symmetric] v4)
  show ?thesis
    by (rule that [OF list_tree.mem.txn_path_append [OF p2 list_tree.mem.txn_path_append [OF s3(3) s4(2)]] w])
qed

theorem first_committer_wins_witness: "(20 :: u64) < 30 \<and> (30 :: u64) < 40"
proof (rule demo_second)
  fix cmds s
  assume "txn_path demo_ops demo_kv () cmds (NewMemStorage list_llrb) s"
    "write_at (demo_kv s) [1] 20 = Some \<lparr>w_StartTS = 10, w_Kind = WriteKindPut\<rparr>"
    "write_at (demo_kv s) [1] 40 = Some \<lparr>w_StartTS = 30, w_Kind = WriteKindPut\<rparr>"
  from first_committer_wins [OF list_tree.llrb_spec_axioms this(1,3) _ this(2)] show ?thesis
    by (simp add: decides_def)
qed

theorem committed_put_is_read_witness:
  "\<exists>s2 l. RunCommand demo_ops () (CmdGet \<lparr>gt_Key = [1], gt_Version = 25\<rparr>) s2 l
     = Inr (Inr (Some (RespGet \<lparr>gr_Error = None, gr_Value = Some [42], gr_NotFound = False\<rparr>)), s2, l)"
proof (rule demo_first)
  fix s1 l1 s2 l2
  assume pw: "RunCommand demo_ops () (CmdPrewrite (put_pw [1] 10 42)) (NewMemStorage list_llrb) NewLatches
       = Inr (Inr (Some (PrewriteResponse [])), s1, l1)"
    and cm: "RunCommand demo_ops () (CmdCommit (put_cm [1] 10 20)) s1 NewLatches
       = Inr (Inr (Some (CommitResponse None)), s2, l2)"
  have "write_at (demo_kv (NewMemStorage list_llrb)) [1] 20 = None"
    by (simp add: write_at_def mem_content_def mem_tree_def NewMemStorage_def list_llrb_def tree_content_def cf_get_def)
  with committed_put_is_read [OF list_tree.llrb_spec_axioms txn_path.stop pw [unfolded put_pw_def]
      cm [unfolded put_cm_def], of 25 l1]
  show ?thesis by auto
qed

theorem snapshot_read_stable_witness:
  "\<exists>s2 r. RunCommand demo_ops () (CmdGet \<lparr>gt_Key = [1], gt_Version = 25\<rparr>) s2 NewLatches
     = Inr (Inr (Some (RespGet r)), s2, NewLatches)
     \<and> (gr_Error r = None \<longrightarrow> r = \<lparr>gr_Error = None, gr_Value = Some [42], gr_NotFound = False\<rparr>)"
proof (rule demo_again)
  fix cmds s2 s3
  assume p: "txn_path demo_ops demo_kv () cmds (NewMemStorage list_llrb) s2"
    and s2: "mem_ok items_sorted s2" "mvcc_wf (demo_kv s2)"
    and late: "late_path 25 demo_ops demo_kv () [CmdCommit (put_cm [1] 10 20)] s2 s3"
    and v2: "kviews (demo_kv s2) [1] = \<lparr>v_lock = None, v_hist = [(20, \<lparr>w_StartTS = 10, w_Kind = WriteKindPut\<rparr>)],
       v_value = (\<lambda>_. None)(10 := Some [42])\<rparr>"
  have "RunCommand demo_ops () (CmdGet \<lparr>gt_Key = [1], gt_Version = 25\<rparr>) s2 NewLatches
      = Inr (Inr (Some (RespGet \<lparr>gr_Error = None, gr_Value = Some [42], gr_NotFound = False\<rparr>)), s2, NewLatches)"
    using list_tree.mem.run_get [OF s2, of "()" "\<lparr>gt_Key = [1], gt_Version = 25\<rparr>" NewLatches]
    by (simp add: spec_get_def v2 IsLockedFor_def view_read_def visible_upto_def)
  from snapshot_read_stable [OF list_tree.llrb_spec_axioms p this _ late] show ?thesis
    by (intro exI [of _ s3]) simp
qed

theorem records_permanent_witness:
  "\<exists>s. write_at (demo_kv s) [1] 20 = Some \<lparr>w_StartTS = 10, w_Kind = WriteKindPut\<rparr>"
proof (rule demo_second)
  fix cmds s
  assume "txn_path demo_ops demo_kv () cmds (NewMemStorage list_llrb) s"
    "write_at (demo_kv s) [1] 20 = Some \<lparr>w_StartTS = 10, w_Kind = WriteKindPut\<rparr>"
  from records_permanent [OF list_tree.llrb_spec_axioms this txn_path.stop] show ?thesis by blast
qed


theorem commit_is_final_witness:
  "\<exists>s2 s3 l3. RunCommand demo_ops () (CmdRollback \<lparr>rb_StartVersion = 10, rb_Keys = [[1]]\<rparr>) s2 NewLatches
     = Inr (Inr (Some (BatchRollbackResponse (Some (no_KeyError\<lparr>ke_Abort := Some (AlreadyCommitted [1] 20)\<rparr>)))), s3, l3)"
proof (rule demo_again)
  fix cmds s2 s3
  assume p: "txn_path demo_ops demo_kv () cmds (NewMemStorage list_llrb) s2" and wf: "mvcc_wf (demo_kv s2)"
    and again: "txn_path demo_ops demo_kv () [CmdCommit (put_cm [1] 10 20)] s2 s3"
    and v2: "kviews (demo_kv s2) [1] = \<lparr>v_lock = None, v_hist = [(20, \<lparr>w_StartTS = 10, w_Kind = WriteKindPut\<rparr>)],
       v_value = (\<lambda>_. None)(10 := Some [42])\<rparr>"
  have "write_at (demo_kv s2) [1] 20 = Some \<lparr>w_StartTS = 10, w_Kind = WriteKindPut\<rparr>"
    by (simp add: history_view_mem [OF wf, symmetric] v2)
  from commit_is_final [OF list_tree.llrb_spec_axioms p this _ again, of 21 0] show ?thesis
    by (simp add: decides_def) blast
qed

theorem rollback_is_final_witness:
  "\<exists>s2 s3 l3. RunCommand demo_ops () (CmdCommit \<lparr>cm_StartVersion = 10, cm_Keys = [[1]], cm_CommitVersion = 20\<rparr>) s2 NewLatches
     = Inr (Inr (Some (CommitResponse (Some (no_KeyError\<lparr>ke_Retryable := Some (LockNotFound [1])\<rparr>)))), s3, l3)"
proof -
  have wf: "mvcc_wf (demo_kv (NewMemStorage list_llrb))"
    using list_tree.new_txn_ok by (simp add: txn_ok_def)
  from list_tree.mem.run_rollback1 [OF list_tree.new_ok' wf latches_free_New, of "()" 10 "[1]"] obtain s1 l1 where
    "RunCommand demo_ops () (CmdRollback \<lparr>rb_StartVersion = 10, rb_Keys = [[1]]\<rparr>) (NewMemStorage list_llrb) NewLatches
     = Inr (Inr (Some (BatchRollbackResponse None)), s1, l1)"
    by (auto simp: demo_new rollback_over_def own_lock_def)
  from rollback_is_final [OF list_tree.llrb_spec_axioms txn_path.stop this _ txn_path.stop, of 20
      "\<lparr>mut_Op = Op_Put, mut_Key = [1], mut_Value = Some [42]\<rparr>" "[1]" 5] show ?thesis
    by (simp add: own_start_def demo_new) blast
qed

text \<open>A key with a committed version, locked by transaction 30; the status of transaction 25 is asked for.\<close>

theorem check_removes_foreign_lock_witness:
  "\<exists>s s1 l1. RunCommand demo_ops () (CmdCheckTxnStatus \<lparr>ct_PrimaryKey = [1], ct_LockTs = 25, ct_CurrentTs = 26\<rparr>) s NewLatches
     = Inr (Inr (Some (CheckTxnResponse \<lparr>cr_LockTtl = 0, cr_CommitVersion = 0, cr_Action = LockNotExistRollback\<rparr>)), s1, l1)
     \<and> write_at (demo_kv s) [1] 20 \<noteq> None \<and> lock_at (demo_kv s) [1] \<noteq> None \<and> lock_at (demo_kv s1) [1] = None"
proof (rule demo_again)
  fix cmds s2 s3
  assume s2: "mem_ok items_sorted s2" "mvcc_wf (demo_kv s2)"
    and v2: "kviews (demo_kv s2) [1] = \<lparr>v_lock = None, v_hist = [(20, \<lparr>w_StartTS = 10, w_Kind = WriteKindPut\<rparr>)],
       v_value = (\<lambda>_. None)(10 := Some [42])\<rparr>"
  have k: "v_lock (kviews (demo_kv s2) [1]) = None" "newer_commit 30 (v_hist (kviews (demo_kv s2) [1])) = None"
    by (simp_all add: v2 newer_commit_def)
  obtain s where s: "mem_ok items_sorted s" "mvcc_wf (demo_kv s)"
    and v: "kviews (demo_kv s) [1] = \<lparr>v_lock = Some \<lparr>lk_Primary = [1], lk_Ts = 30, lk_Ttl = 5,
       lk_Kind = WriteKindPut\<rparr>, v_hist = [(20, \<lparr>w_StartTS = 10, w_Kind = WriteKindPut\<rparr>)],
       v_value = (\<lambda>_. None)(10 := Some [42], 30 := Some [43])\<rparr>"
    using list_tree.mem.serve_prewrite [OF s2 k, of "()" 43] by (auto simp: v2)
  have l: "lock_at (demo_kv s) [1] = Some \<lparr>lk_Primary = [1], lk_Ts = 30, lk_Ttl = 5, lk_Kind = WriteKindPut\<rparr>"
    using v by (simp add: kviews_def)
  have w: "write_at (demo_kv s) [1] c = Some w \<longleftrightarrow> c = 20 \<and> w = \<lparr>w_StartTS = 10, w_Kind = WriteKindPut\<rparr>" for c w
    by (auto simp: history_view_mem [OF s(2), symmetric] v)
  have "write_at (demo_kv s) [1] 20 \<noteq> None" using w [of 20] by simp
  with check_removes_foreign_lock [OF list_tree.llrb_spec_axioms s l, of 25 40 "()" 26] l show ?thesis
    by (fastforce simp: w)
qed

end
