(* ===== verification/RaftStorage.thy ===== *)
theory RaftStorage
  imports Prelude
begin

text \<open>
  The data of the Raft library (\<open>raft/\<close>, messages of \<open>eraftpb.proto\<close>), its storage interface
  and the in-memory storage \<open>MemoryStorage\<close> (\<open>raft/storage.go\<close>).

  Terms, indexes and node ids are \<open>uint64\<close> in the code and natural numbers here: subtraction
  is written with its wrap-around (\<open>usub\<close>), additions count entries and terms from zero and
  are not taken to reach \<open>2^64\<close>. A panic and a \<open>log.Fatal\<close> (which ends the process) are faults.
  The metadata of a snapshot is always present: an empty \<open>Snapshot{}\<close> is one with index 0.
\<close>

section \<open>Faults and errors\<close>

datatype raft_fault = RPanic string | RFatal string

datatype rerr =
    ErrCompacted | ErrSnapOutOfDate | ErrUnavailable | ErrSnapshotTemporarilyUnavailable
  | ErrProposalDropped | ErrStepLocalMsg | ErrStepPeerNotFound | ErrOther string

type_synonym 'a rres = "raft_fault + 'a"

section \<open>Arithmetic of uint64\<close>

definition usub :: "nat \<Rightarrow> nat \<Rightarrow> nat" where
  "usub a b = (if b \<le> a then a - b else a + 2 ^ 64 - b)"

text \<open>Go's conversion \<open>int(x)\<close> of a \<open>uint64\<close>.\<close>

definition to_int :: "nat \<Rightarrow> int" where
  "to_int x = (if x < 2 ^ 63 then int x else int x - 2 ^ 64)"

lemma usub_le [simp]: "b \<le> a \<Longrightarrow> usub a b = a - b"
  by (simp add: usub_def)

definition raft_min :: "nat \<Rightarrow> nat \<Rightarrow> nat" where
  "raft_min a b = (if a > b then b else a)"

definition raft_max :: "nat \<Rightarrow> nat \<Rightarrow> nat" where
  "raft_max a b = (if a > b then a else b)"

lemma raft_min_max [simp]: "raft_min a b = min a b" "raft_max a b = max a b"
  by (simp_all add: raft_min_def raft_max_def min_def max_def)

text \<open>Slice expressions: out of range is a panic.\<close>

definition slice_range :: "'a list \<Rightarrow> nat \<Rightarrow> nat \<Rightarrow> 'a list rres" where
  "slice_range xs lo hi =
     (if lo \<le> hi \<and> hi \<le> length xs then Inr (drop lo (take hi xs))
      else Inl (RPanic ''slice bounds out of range''))"

definition slice_from :: "'a list \<Rightarrow> nat \<Rightarrow> 'a list rres" where
  "slice_from xs lo = slice_range xs lo (length xs)"

definition slice_to :: "'a list \<Rightarrow> nat \<Rightarrow> 'a list rres" where
  "slice_to xs hi = slice_range xs 0 hi"

lemma slice_simps [simp]:
  "lo \<le> length xs \<Longrightarrow> slice_from xs lo = Inr (drop lo xs)"
  "hi \<le> length xs \<Longrightarrow> slice_to xs hi = Inr (take hi xs)"
  "lo \<le> hi \<Longrightarrow> hi \<le> length xs \<Longrightarrow> slice_range xs lo hi = Inr (drop lo (take hi xs))"
  by (simp_all add: slice_from_def slice_to_def slice_range_def)

section \<open>Entries, snapshots, hard state\<close>

datatype EntryType = EntryNormal | EntryConfChange

record Entry =
  e_EntryType :: EntryType
  e_Term :: nat
  e_Index :: nat
  e_Data :: goslice

record SnapshotMetadata =
  sm_ConfState :: "nat list"
  sm_Index :: nat
  sm_Term :: nat

record Snapshot =
  sn_Data :: goslice
  sn_Metadata :: SnapshotMetadata

record HardState =
  hs_Term :: nat
  hs_Vote :: nat
  hs_Commit :: nat

definition isHardStateEqual :: "HardState \<Rightarrow> HardState \<Rightarrow> bool" where
  "isHardStateEqual a b \<longleftrightarrow> hs_Term a = hs_Term b \<and> hs_Vote a = hs_Vote b \<and> hs_Commit a = hs_Commit b"

definition emptyHardState :: HardState where
  "emptyHardState = \<lparr>hs_Term = 0, hs_Vote = 0, hs_Commit = 0\<rparr>"

definition IsEmptyHardState :: "HardState \<Rightarrow> bool" where
  "IsEmptyHardState st = isHardStateEqual st emptyHardState"

definition IsEmptySnap :: "Snapshot option \<Rightarrow> bool" where
  "IsEmptySnap sp = (case sp of None \<Rightarrow> True | Some s \<Rightarrow> sm_Index (sn_Metadata s) = 0)"

definition emptySnapshot :: Snapshot where
  "emptySnapshot = \<lparr>sn_Data = None, sn_Metadata = \<lparr>sm_ConfState = [], sm_Index = 0, sm_Term = 0\<rparr>\<rparr>"

definition mustTerm :: "rerr + nat \<Rightarrow> nat rres" where
  "mustTerm t = (case t of Inl e \<Rightarrow> Inl (RPanic ''error'') | Inr n \<Rightarrow> Inr n)"

section \<open>The storage interface\<close>

text \<open>
  \<open>Storage\<close> as the raft library sees it at the time of a call: the answers of its methods.
\<close>

record raft_storage =
  rs_InitialState :: "rerr + (HardState \<times> nat list)"
  rs_Entries :: "nat \<Rightarrow> nat \<Rightarrow> (rerr + Entry list) rres"
  rs_Term :: "nat \<Rightarrow> rerr + nat"
  rs_LastIndex :: "rerr + nat"
  rs_FirstIndex :: "rerr + nat"
  rs_Snapshot :: "rerr + Snapshot"

section \<open>MemoryStorage\<close>

text \<open>
  \<open>ents\<close> starts with a dummy entry that carries the index and term of the last snapshot.
\<close>

record MemoryStorage =
  ms_hardState :: HardState
  ms_snapshot :: Snapshot
  ms_ents :: "Entry list"

definition zeroEntry :: Entry where
  "zeroEntry = \<lparr>e_EntryType = EntryNormal, e_Term = 0, e_Index = 0, e_Data = None\<rparr>"

definition NewMemoryStorage :: MemoryStorage where
  "NewMemoryStorage = \<lparr>ms_hardState = emptyHardState, ms_snapshot = emptySnapshot, ms_ents = [zeroEntry]\<rparr>"

definition ents0 :: "MemoryStorage \<Rightarrow> Entry rres" where
  "ents0 ms = (case ms_ents ms of [] \<Rightarrow> Inl (RPanic ''index out of range'') | e # _ \<Rightarrow> Inr e)"

definition MemoryStorage_InitialState :: "MemoryStorage \<Rightarrow> rerr + (HardState \<times> nat list)" where
  "MemoryStorage_InitialState ms = Inr (ms_hardState ms, sm_ConfState (sn_Metadata (ms_snapshot ms)))"

definition MemoryStorage_SetHardState :: "MemoryStorage \<Rightarrow> HardState \<Rightarrow> MemoryStorage" where
  "MemoryStorage_SetHardState ms st = ms\<lparr>ms_hardState := st\<rparr>"

definition MemoryStorage_lastIndex :: "MemoryStorage \<Rightarrow> nat rres" where
  "MemoryStorage_lastIndex ms =
     bindR (ents0 ms) (\<lambda>e. Inr (usub (e_Index e + length (ms_ents ms)) 1))"

definition MemoryStorage_firstIndex :: "MemoryStorage \<Rightarrow> nat rres" where
  "MemoryStorage_firstIndex ms = bindR (ents0 ms) (\<lambda>e. Inr (e_Index e + 1))"

definition MemoryStorage_Entries :: "MemoryStorage \<Rightarrow> nat \<Rightarrow> nat \<Rightarrow> (rerr + Entry list) rres" where
  "MemoryStorage_Entries ms lo hi =
     bindR (ents0 ms) (\<lambda>e.
     let offset = e_Index e in
     if lo \<le> offset then Inr (Inl ErrCompacted)
     else bindR (MemoryStorage_lastIndex ms) (\<lambda>last.
       if hi > last + 1 then Inl (RFatal ''entries hi is out of bound lastindex'')
       else bindR (slice_range (ms_ents ms) (usub lo offset) (usub hi offset)) (\<lambda>ents.
         if length (ms_ents ms) = 1 \<and> ents \<noteq> [] then Inr (Inl ErrUnavailable)
         else Inr (Inr ents))))"

definition MemoryStorage_Term :: "MemoryStorage \<Rightarrow> nat \<Rightarrow> (rerr + nat) rres" where
  "MemoryStorage_Term ms i =
     bindR (ents0 ms) (\<lambda>e.
     let offset = e_Index e in
     if i < offset then Inr (Inl ErrCompacted)
     else if to_int (usub i offset) \<ge> int (length (ms_ents ms)) then Inr (Inl ErrUnavailable)
     else if usub i offset < length (ms_ents ms) then Inr (Inr (e_Term (ms_ents ms ! usub i offset)))
     else Inl (RPanic ''index out of range''))"

definition MemoryStorage_Snapshot :: "MemoryStorage \<Rightarrow> rerr + Snapshot" where
  "MemoryStorage_Snapshot ms = Inr (ms_snapshot ms)"

definition MemoryStorage_ApplySnapshot :: "MemoryStorage \<Rightarrow> Snapshot \<Rightarrow> rerr + MemoryStorage" where
  "MemoryStorage_ApplySnapshot ms snap =
     (let msIndex = sm_Index (sn_Metadata (ms_snapshot ms));
          snapIndex = sm_Index (sn_Metadata snap)
      in if msIndex \<ge> snapIndex then Inl ErrSnapOutOfDate
         else Inr (ms\<lparr>ms_snapshot := snap,
                      ms_ents := [zeroEntry\<lparr>e_Term := sm_Term (sn_Metadata snap),
                                            e_Index := sm_Index (sn_Metadata snap)\<rparr>]\<rparr>))"

text \<open>The code changes the metadata in place, through the pointer in the stored snapshot; nothing else refers to it.\<close>

definition MemoryStorage_CreateSnapshot ::
    "MemoryStorage \<Rightarrow> nat \<Rightarrow> nat list option \<Rightarrow> goslice \<Rightarrow> (rerr + Snapshot \<times> MemoryStorage) rres" where
  "MemoryStorage_CreateSnapshot ms i cs data =
     (if i \<le> sm_Index (sn_Metadata (ms_snapshot ms)) then Inr (Inl ErrSnapOutOfDate)
      else bindR (ents0 ms) (\<lambda>e.
      let offset = e_Index e in
      bindR (MemoryStorage_lastIndex ms) (\<lambda>last.
      if i > last then Inl (RFatal ''snapshot is out of bound lastindex'')
      else if usub i offset < length (ms_ents ms)
      then let meta = sn_Metadata (ms_snapshot ms);
               meta1 = meta\<lparr>sm_Index := i, sm_Term := e_Term (ms_ents ms ! usub i offset),
                           sm_ConfState := (case cs of None \<Rightarrow> sm_ConfState meta | Some c \<Rightarrow> c)\<rparr>;
               snap = \<lparr>sn_Data = data, sn_Metadata = meta1\<rparr>
           in Inr (Inr (snap, ms\<lparr>ms_snapshot := snap\<rparr>))
      else Inl (RPanic ''index out of range''))))"

definition MemoryStorage_Compact :: "MemoryStorage \<Rightarrow> nat \<Rightarrow> (rerr + MemoryStorage) rres" where
  "MemoryStorage_Compact ms compactIndex =
     bindR (ents0 ms) (\<lambda>e.
     let offset = e_Index e in
     if compactIndex \<le> offset then Inr (Inl ErrCompacted)
     else bindR (MemoryStorage_lastIndex ms) (\<lambda>last.
       if compactIndex > last then Inl (RFatal ''compact is out of bound lastindex'')
       else let i = usub compactIndex offset in
            if i < length (ms_ents ms)
            then bindR (slice_from (ms_ents ms) (i + 1)) (\<lambda>rest.
                   Inr (Inr (ms\<lparr>ms_ents := zeroEntry\<lparr>e_Index := e_Index (ms_ents ms ! i),
                                                     e_Term := e_Term (ms_ents ms ! i)\<rparr> # rest\<rparr>)))
            else Inl (RPanic ''index out of range'')))"

definition MemoryStorage_Append :: "MemoryStorage \<Rightarrow> Entry list \<Rightarrow> MemoryStorage rres" where
  "MemoryStorage_Append ms entries =
     (case entries of
        [] \<Rightarrow> Inr ms
      | e1 # _ \<Rightarrow>
          bindR (MemoryStorage_firstIndex ms) (\<lambda>first.
          let last = usub (e_Index e1 + length entries) 1 in
          if last < first then Inr ms
          else bindR (if first > e_Index e1 then slice_from entries (usub first (e_Index e1))
                      else Inr entries) (\<lambda>entries1.
          case entries1 of
            [] \<Rightarrow> Inl (RPanic ''index out of range'')
          | e2 # _ \<Rightarrow>
              bindR (ents0 ms) (\<lambda>e0.
              let offset = usub (e_Index e2) (e_Index e0) in
              if length (ms_ents ms) > offset
              then bindR (slice_to (ms_ents ms) offset) (\<lambda>kept. Inr (ms\<lparr>ms_ents := kept @ entries1\<rparr>))
              else if length (ms_ents ms) = offset then Inr (ms\<lparr>ms_ents := ms_ents ms @ entries1\<rparr>)
              else Inl (RFatal ''missing log entry'')))))"

text \<open>The storage as the interface shows it, where its methods do not fault.\<close>

definition MemoryStorage_view :: "MemoryStorage \<Rightarrow> raft_storage" where
  "MemoryStorage_view ms =
     \<lparr>rs_InitialState = MemoryStorage_InitialState ms,
      rs_Entries = MemoryStorage_Entries ms,
      rs_Term = (\<lambda>i. case MemoryStorage_Term ms i of Inl f \<Rightarrow> Inl (ErrOther ''panic'') | Inr t \<Rightarrow> t),
      rs_LastIndex = (case MemoryStorage_lastIndex ms of Inl f \<Rightarrow> Inl (ErrOther ''panic'') | Inr i \<Rightarrow> Inr i),
      rs_FirstIndex = (case MemoryStorage_firstIndex ms of Inl f \<Rightarrow> Inl (ErrOther ''panic'') | Inr i \<Rightarrow> Inr i),
      rs_Snapshot = MemoryStorage_Snapshot ms\<rparr>"

end
