(* ===== verification/RaftLog.thy ===== *)
theory RaftLog
  imports RaftStorage
begin

text \<open>
  The log of a Raft peer, \<open>raft/log.go\<close>. The log holds a pointer to the storage, which the
  application changes between calls: an operation that reads the storage takes it as an
  argument, as it is at the time of the call (the storage does not change during the call, so
  the retry loop of \<open>maybeCompact\<close> runs once). Messages to the process log are left out; where
  their arguments call \<open>lastTerm\<close>, which may end the process, the call is kept.
\<close>

section \<open>State and reading\<close>

record RaftLog =
  lg_committed :: nat
  lg_applied :: nat
  lg_stabled :: nat
  lg_entries :: "Entry list"
  lg_offset :: nat
  lg_snapTerm :: nat
  lg_snapIndex :: nat
  lg_pending_snapshot :: "Snapshot option"

definition log_firstIndex :: "RaftLog \<Rightarrow> nat" where
  "log_firstIndex l =
     (if lg_entries l \<noteq> [] then e_Index (lg_entries l ! 0)
      else case lg_pending_snapshot l of
             Some s \<Rightarrow> sm_Index (sn_Metadata s)
           | None \<Rightarrow> lg_snapIndex l)"

definition log_LastIndex :: "RaftLog \<Rightarrow> nat" where
  "log_LastIndex l =
     (if lg_entries l \<noteq> [] then e_Index (lg_entries l ! (length (lg_entries l) - 1))
      else case lg_pending_snapshot l of
             Some s \<Rightarrow> sm_Index (sn_Metadata s)
           | None \<Rightarrow> lg_snapIndex l)"

definition log_Term :: "RaftLog \<Rightarrow> nat \<Rightarrow> (rerr + nat) rres" where
  "log_Term l i =
     (if i = lg_snapIndex l then Inr (Inr (lg_snapTerm l))
      else if lg_entries l = [] then Inr (Inl ErrCompacted)
      else if i < lg_offset l then Inr (Inl ErrCompacted)
      else if i > usub (lg_offset l + length (lg_entries l)) 1 then Inr (Inl ErrUnavailable)
      else if usub i (lg_offset l) < length (lg_entries l)
      then Inr (Inr (e_Term (lg_entries l ! usub i (lg_offset l))))
      else Inl (RPanic ''index out of range''))"

text \<open>
  The bounds checks make the last case of \<open>Term\<close> unreachable, so \<open>Term\<close> is a total function;
  the rest of the model uses it in this form.
\<close>

definition log_term :: "RaftLog \<Rightarrow> nat \<Rightarrow> rerr + nat" where
  "log_term l i =
     (if i = lg_snapIndex l then Inr (lg_snapTerm l)
      else if lg_entries l = [] \<or> i < lg_offset l then Inl ErrCompacted
      else if i \<ge> lg_offset l + length (lg_entries l) then Inl ErrUnavailable
      else Inr (e_Term (lg_entries l ! (i - lg_offset l))))"

lemma log_Term_total: "log_Term l i = Inr (log_term l i)"
proof (cases "lg_entries l")
  case (Cons e es)
  then have "i > usub (lg_offset l + length (lg_entries l)) 1 \<longleftrightarrow> i \<ge> lg_offset l + length (lg_entries l)"
    by (auto simp: usub_def)
  with Cons show ?thesis by (auto simp: log_Term_def log_term_def usub_def)
qed (simp add: log_Term_def log_term_def)

definition log_matchTerm :: "RaftLog \<Rightarrow> nat \<Rightarrow> nat \<Rightarrow> bool" where
  "log_matchTerm l i term = (case log_term l i of Inl _ \<Rightarrow> False | Inr t \<Rightarrow> t = term)"

definition log_lastTerm :: "RaftLog \<Rightarrow> nat rres" where
  "log_lastTerm l =
     (case log_term l (log_LastIndex l) of
        Inl e \<Rightarrow> Inl (RFatal ''unexpected error when getting the last term'')
      | Inr t \<Rightarrow> Inr t)"

definition log_Entries :: "RaftLog \<Rightarrow> nat \<Rightarrow> (rerr + Entry list) rres" where
  "log_Entries l i =
     (if i < log_firstIndex l then Inr (Inl ErrCompacted)
      else if i > log_LastIndex l then Inr (Inr [])
      else bindR (slice_from (lg_entries l) (usub i (lg_offset l))) (\<lambda>es. Inr (Inr es)))"

definition log_allEntries :: "RaftLog \<Rightarrow> Entry list" where
  "log_allEntries l = lg_entries l"

definition log_isUpToDate :: "RaftLog \<Rightarrow> nat \<Rightarrow> nat \<Rightarrow> bool rres" where
  "log_isUpToDate l lasti term =
     bindR (log_lastTerm l) (\<lambda>lt. Inr (term > lt \<or> (term = lt \<and> lasti \<ge> log_LastIndex l)))"

definition log_zeroTermOnRangeErr :: "rerr + nat \<Rightarrow> nat rres" where
  "log_zeroTermOnRangeErr t =
     (case t of
        Inr n \<Rightarrow> Inr n
      | Inl e \<Rightarrow> if e = ErrCompacted \<or> e = ErrUnavailable then Inr 0 else Inl (RFatal ''unexpected error''))"

definition log_mustCheckOutOfBounds :: "RaftLog \<Rightarrow> nat \<Rightarrow> nat \<Rightarrow> rerr option rres" where
  "log_mustCheckOutOfBounds l lo hi =
     (if lo > hi then Inl (RFatal ''invalid slice'')
      else if lo < log_firstIndex l then Inr (Some ErrCompacted)
      else if hi > log_LastIndex l + 1 then Inl (RFatal ''slice out of bound'')
      else Inr None)"

definition log_slice :: "RaftLog \<Rightarrow> nat \<Rightarrow> nat \<Rightarrow> (rerr + Entry list) rres" where
  "log_slice l lo hi =
     bindR (log_mustCheckOutOfBounds l lo hi) (\<lambda>err.
       case err of
         Some e \<Rightarrow> Inr (Inl e)
       | None \<Rightarrow>
           if lg_entries l = [] then Inr (Inr [])
           else bindR (slice_range (lg_entries l) (usub lo (lg_offset l)) (usub hi (lg_offset l)))
                  (\<lambda>es. Inr (Inr es)))"

definition log_unstableEntries :: "RaftLog \<Rightarrow> Entry list rres" where
  "log_unstableEntries l =
     (if to_int (usub (lg_stabled l + 1) (lg_offset l)) > int (length (lg_entries l)) then Inr []
      else slice_from (lg_entries l) (usub (lg_stabled l + 1) (lg_offset l)))"

definition log_nextEntsSince :: "RaftLog \<Rightarrow> nat \<Rightarrow> Entry list rres" where
  "log_nextEntsSince l sinceIdx =
     (let off = raft_max (sinceIdx + 1) (log_firstIndex l) in
      if lg_committed l + 1 > off
      then bindR (log_slice l off (lg_committed l + 1)) (\<lambda>r.
             case r of
               Inl e \<Rightarrow> Inl (RFatal ''unexpected error when getting unapplied entries'')
             | Inr ents \<Rightarrow> Inr ents)
      else Inr [])"

definition log_nextEnts :: "RaftLog \<Rightarrow> Entry list rres" where
  "log_nextEnts l = log_nextEntsSince l (lg_applied l)"

definition log_hasNextEntsSince :: "RaftLog \<Rightarrow> nat \<Rightarrow> bool" where
  "log_hasNextEntsSince l sinceIdx =
     (let off = raft_max (sinceIdx + 1) (log_firstIndex l) in lg_committed l + 1 > off)"

definition log_hasNextEnts :: "RaftLog \<Rightarrow> bool" where
  "log_hasNextEnts l = log_hasNextEntsSince l (lg_applied l)"

definition log_snapshot :: "raft_storage \<Rightarrow> RaftLog \<Rightarrow> rerr + Snapshot" where
  "log_snapshot st l =
     (case lg_pending_snapshot l of Some s \<Rightarrow> Inr s | None \<Rightarrow> rs_Snapshot st)"

section \<open>Construction\<close>

definition orPanic :: "rerr + 'a \<Rightarrow> 'a rres" where
  "orPanic x = (case x of Inl e \<Rightarrow> Inl (RPanic ''storage error'') | Inr a \<Rightarrow> Inr a)"

definition newLog :: "raft_storage \<Rightarrow> RaftLog rres" where
  "newLog st =
     bindR (orPanic (rs_FirstIndex st)) (\<lambda>firstIndex.
     bindR (orPanic (rs_LastIndex st)) (\<lambda>lastIndex.
     bindR (orPanic (rs_Term st (usub firstIndex 1))) (\<lambda>snapTerm.
     bindR (bindR (rs_Entries st firstIndex (lastIndex + 1)) orPanic) (\<lambda>entries.
       Inr \<lparr>lg_committed = usub firstIndex 1, lg_applied = usub firstIndex 1, lg_stabled = lastIndex,
            lg_entries = entries, lg_offset = firstIndex, lg_snapTerm = snapTerm,
            lg_snapIndex = usub firstIndex 1, lg_pending_snapshot = None\<rparr>))))"

section \<open>Changing the log\<close>

definition log_commitTo :: "RaftLog \<Rightarrow> nat \<Rightarrow> RaftLog rres" where
  "log_commitTo l tocommit =
     (if lg_committed l < tocommit
      then if log_LastIndex l < tocommit then Inl (RFatal ''tocommit is out of range'')
           else Inr (l\<lparr>lg_committed := tocommit\<rparr>)
      else Inr l)"

definition log_appliedTo :: "RaftLog \<Rightarrow> nat \<Rightarrow> RaftLog rres" where
  "log_appliedTo l i =
     (if i = 0 then Inr l
      else if lg_committed l < i \<or> i < lg_applied l then Inl (RFatal ''applied is out of range'')
      else Inr (l\<lparr>lg_applied := i\<rparr>))"

definition log_stableTo :: "RaftLog \<Rightarrow> nat \<Rightarrow> nat \<Rightarrow> RaftLog" where
  "log_stableTo l idx term =
     (if log_matchTerm l idx term \<and> lg_stabled l < idx then l\<lparr>lg_stabled := idx\<rparr> else l)"

definition log_stableSnapTo :: "RaftLog \<Rightarrow> nat \<Rightarrow> RaftLog" where
  "log_stableSnapTo l i =
     (case lg_pending_snapshot l of
        Some s \<Rightarrow> if sm_Index (sn_Metadata s) = i then l\<lparr>lg_pending_snapshot := None\<rparr> else l
      | None \<Rightarrow> l)"

text \<open>\<open>truncateAndAppend\<close> reads \<open>ents[0]\<close>; its caller has checked that there is one.\<close>

definition log_truncateAndAppend :: "RaftLog \<Rightarrow> Entry list \<Rightarrow> RaftLog rres" where
  "log_truncateAndAppend l ents =
     (case ents of
        [] \<Rightarrow> Inl (RPanic ''index out of range'')
      | e # _ \<Rightarrow>
          let after = e_Index e in
          if after = log_LastIndex l + 1 then Inr (l\<lparr>lg_entries := lg_entries l @ ents\<rparr>)
          else let l1 = (if usub after 1 < lg_stabled l then l\<lparr>lg_stabled := usub after 1\<rparr> else l)
               in bindR (slice_to (lg_entries l1) (usub after (lg_offset l1))) (\<lambda>kept.
                    Inr (l1\<lparr>lg_entries := kept @ ents\<rparr>)))"

definition log_maybeCompact :: "raft_storage \<Rightarrow> RaftLog \<Rightarrow> RaftLog rres" where
  "log_maybeCompact st l =
     bindR (orPanic (rs_FirstIndex st)) (\<lambda>fi.
     bindR (orPanic (rs_Term st (usub fi 1))) (\<lambda>ft.
       let compactSize = usub fi (lg_offset l) in
       if compactSize > 0 \<and> compactSize < length (lg_entries l)
       then bindR (slice_from (lg_entries l) compactSize) (\<lambda>es.
              Inr (l\<lparr>lg_entries := es, lg_offset := fi, lg_snapIndex := usub fi 1, lg_snapTerm := ft\<rparr>))
       else Inr l))"

definition log_append :: "raft_storage \<Rightarrow> RaftLog \<Rightarrow> Entry list \<Rightarrow> (nat \<times> RaftLog) rres" where
  "log_append st l ents =
     (case ents of
        [] \<Rightarrow> Inr (log_LastIndex l, l)
      | e # _ \<Rightarrow>
          if usub (e_Index e) 1 < lg_committed l then Inl (RFatal ''after is out of range'')
          else bindR (log_truncateAndAppend l ents) (\<lambda>l1.
               bindR (log_maybeCompact st l1) (\<lambda>l2. Inr (log_LastIndex l2, l2))))"

fun log_findConflict :: "RaftLog \<Rightarrow> Entry list \<Rightarrow> nat" where
  "log_findConflict l [] = 0"
| "log_findConflict l (ne # ents) =
     (if \<not> log_matchTerm l (e_Index ne) (e_Term ne) then e_Index ne else log_findConflict l ents)"

text \<open>\<open>None\<close> is the answer \<open>(0, false)\<close>.\<close>

definition log_maybeAppend ::
    "raft_storage \<Rightarrow> RaftLog \<Rightarrow> nat \<Rightarrow> nat \<Rightarrow> nat \<Rightarrow> Entry list \<Rightarrow> (nat option \<times> RaftLog) rres" where
  "log_maybeAppend st l index logTerm committed ents =
     (if log_matchTerm l index logTerm
      then let lastnewi = index + length ents; ci = log_findConflict l ents in
           bindR (if ci = 0 then Inr l
                  else if ci \<le> lg_committed l then Inl (RFatal ''entry conflict with committed entry'')
                  else bindR (slice_from ents (usub ci (index + 1))) (\<lambda>news.
                       bindR (log_append st l news) (\<lambda>(_, l1). Inr l1)))
             (\<lambda>l1. bindR (log_commitTo l1 (raft_min committed lastnewi)) (\<lambda>l2.
                Inr (Some lastnewi, l2)))
      else Inr (None, l))"

definition log_maybeCommit :: "RaftLog \<Rightarrow> nat \<Rightarrow> nat \<Rightarrow> (bool \<times> RaftLog) rres" where
  "log_maybeCommit l maxIndex term =
     (if maxIndex > lg_committed l \<and> log_matchTerm l maxIndex term
      then bindR (log_commitTo l maxIndex) (\<lambda>l1. Inr (True, l1))
      else Inr (False, l))"

definition log_restore :: "RaftLog \<Rightarrow> Snapshot \<Rightarrow> RaftLog" where
  "log_restore l s =
     l\<lparr>lg_committed := sm_Index (sn_Metadata s), lg_entries := [],
       lg_stabled := sm_Index (sn_Metadata s), lg_offset := sm_Index (sn_Metadata s) + 1,
       lg_snapIndex := sm_Index (sn_Metadata s), lg_snapTerm := sm_Term (sn_Metadata s),
       lg_pending_snapshot := Some s\<rparr>"

end
