(* ===== verification/Raft.thy ===== *)
theory Raft
  imports RaftLog "HOL-Library.AList"
begin

text \<open>
  The Raft state machine, \<open>raft/raft.go\<close>: configuration, elections, replication, leadership
  transfer and membership. Go maps (\<open>Prs\<close>, \<open>votes\<close>) are association lists with distinct keys;
  ranging over a map visits the list in its order, which stands for the arbitrary order of Go.
  A handler returns the changed peer, or the fault that ends it. \<open>globalRand.Intn\<close> reads the
  next number of a sequence of draws the peer carries.
\<close>

section \<open>Messages and state\<close>

datatype MessageType =
    MsgHup | MsgBeat | MsgPropose | MsgAppend | MsgAppendResponse | MsgRequestVote
  | MsgRequestVoteResponse | MsgSnapshot | MsgHeartbeat | MsgHeartbeatResponse
  | MsgTransferLeader | MsgTimeoutNow

record Message =
  m_MsgType :: MessageType
  m_To :: nat
  m_From :: nat
  m_Term :: nat
  m_LogTerm :: nat
  m_Index :: nat
  m_Entries :: "Entry list"
  m_Commit :: nat
  m_Snapshot :: "Snapshot option"
  m_Reject :: bool
  m_RejectHint :: nat

definition zeroMessage :: Message where
  "zeroMessage = \<lparr>m_MsgType = MsgHup, m_To = 0, m_From = 0, m_Term = 0, m_LogTerm = 0, m_Index = 0,
     m_Entries = [], m_Commit = 0, m_Snapshot = None, m_Reject = False, m_RejectHint = 0\<rparr>"

text \<open>\<open>None\<close>, the id of no node.\<close>

definition NoNode :: nat where "NoNode = 0"

datatype StateType = StateFollower | StateCandidate | StateLeader

fun StateType_String :: "StateType \<Rightarrow> string" where
  "StateType_String StateFollower = ''StateFollower''"
| "StateType_String StateCandidate = ''StateCandidate''"
| "StateType_String StateLeader = ''StateLeader''"

record Progress =
  pr_Match :: nat
  pr_Next :: nat

record Config =
  c_ID :: nat
  c_peers :: "nat list"
  c_ElectionTick :: int
  c_HeartbeatTick :: int
  c_Applied :: nat

record Raft =
  r_id :: nat
  r_Term :: nat
  r_Vote :: nat
  r_RaftLog :: RaftLog
  r_Prs :: "(nat \<times> Progress) list"
  r_State :: StateType
  r_votes :: "(nat \<times> bool) list"
  r_msgs :: "Message list"
  r_Lead :: nat
  r_heartbeatTimeout :: int
  r_electionTimeout :: int
  r_randomizedElectionTimeout :: int
  r_leadTransferee :: nat
  r_PendingConfIndex :: nat
  r_electionElapsed :: int
  r_heartbeatElapsed :: int
  r_rand :: "nat \<Rightarrow> nat"
  r_drawn :: nat

definition Config_validate :: "Config \<Rightarrow> string option" where
  "Config_validate c =
     (if c_ID c = NoNode then Some ''cannot use none as id''
      else if c_HeartbeatTick c \<le> 0 then Some ''heartbeat tick must be greater than 0''
      else if c_ElectionTick c \<le> c_HeartbeatTick c
      then Some ''election tick must be greater than heartbeat tick''
      else None)"

section \<open>Progress\<close>

definition Progress_maybeUpdate :: "Progress \<Rightarrow> nat \<Rightarrow> bool \<times> Progress" where
  "Progress_maybeUpdate pr n =
     (let updated = pr_Match pr < n;
          pr1 = (if pr_Match pr < n then pr\<lparr>pr_Match := n\<rparr> else pr)
      in (updated, if pr_Next pr1 < n + 1 then pr1\<lparr>pr_Next := n + 1\<rparr> else pr1))"

definition Progress_maybeDecrTo :: "Progress \<Rightarrow> nat \<Rightarrow> nat \<Rightarrow> bool \<times> Progress" where
  "Progress_maybeDecrTo pr rejected lasti =
     (if rejected \<le> pr_Match pr then (False, pr)
      else let next = raft_min rejected (lasti + 1)
           in (True, pr\<lparr>pr_Next := if next < 1 then 1 else next\<rparr>))"

definition getProgress :: "Raft \<Rightarrow> nat \<Rightarrow> Progress option" where
  "getProgress r nid = map_of (r_Prs r) nid"

text \<open>Dereferencing a nil \<open>*Progress\<close> panics.\<close>

definition mustProgress :: "Raft \<Rightarrow> nat \<Rightarrow> Progress rres" where
  "mustProgress r nid =
     (case getProgress r nid of None \<Rightarrow> Inl (RPanic ''nil pointer dereference'') | Some pr \<Rightarrow> Inr pr)"

definition putProgress :: "Raft \<Rightarrow> nat \<Rightarrow> Progress \<Rightarrow> Raft" where
  "putProgress r nid pr = r\<lparr>r_Prs := AList.update nid pr (r_Prs r)\<rparr>"

definition setProgress :: "Raft \<Rightarrow> nat \<Rightarrow> nat \<Rightarrow> nat \<Rightarrow> Raft" where
  "setProgress r nid match next = putProgress r nid \<lparr>pr_Match = match, pr_Next = next\<rparr>"

definition quorum :: "Raft \<Rightarrow> nat" where
  "quorum r = length (r_Prs r) div 2 + 1"

definition promotable :: "Raft \<Rightarrow> bool" where
  "promotable r = (getProgress r (r_id r) \<noteq> None)"

section \<open>Sending\<close>

definition send :: "Message \<Rightarrow> Raft \<Rightarrow> Raft rres" where
  "send msg r =
     (let m = msg\<lparr>m_From := r_id r\<rparr> in
      if m_MsgType m = MsgRequestVote \<or> m_MsgType m = MsgRequestVoteResponse
      then if m_Term m = 0 then Inl (RPanic ''term should be set when sending'')
           else Inr (r\<lparr>r_msgs := r_msgs r @ [m]\<rparr>)
      else if m_Term m \<noteq> 0 then Inl (RPanic ''term should not be set when sending'')
           else let m1 = (if m_MsgType m \<noteq> MsgPropose then m\<lparr>m_Term := r_Term r\<rparr> else m)
                in Inr (r\<lparr>r_msgs := r_msgs r @ [m1]\<rparr>))"

definition sendAppend :: "raft_storage \<Rightarrow> nat \<Rightarrow> Raft \<Rightarrow> (bool \<times> Raft) rres" where
  "sendAppend st to r =
     bindR (mustProgress r to) (\<lambda>pr.
     let m = zeroMessage\<lparr>m_To := to\<rparr>;
         errt = log_term (r_RaftLog r) (usub (pr_Next pr) 1) in
     bindR (log_Entries (r_RaftLog r) (pr_Next pr)) (\<lambda>erre.
       case (errt, erre) of
         (Inr term, Inr ents) \<Rightarrow>
           bindR (send (m\<lparr>m_MsgType := MsgAppend, m_Index := usub (pr_Next pr) 1, m_LogTerm := term,
                         m_Entries := ents, m_Commit := lg_committed (r_RaftLog r)\<rparr>) r)
             (\<lambda>r1. Inr (True, r1))
       | _ \<Rightarrow>
           (case log_snapshot st (r_RaftLog r) of
              Inl e \<Rightarrow> if e = ErrSnapshotTemporarilyUnavailable then Inr (False, r)
                        else Inl (RPanic ''snapshot error'')
            | Inr snapshot \<Rightarrow>
                if IsEmptySnap (Some snapshot) then Inl (RPanic ''need non-empty snapshot'')
                else bindR (send (m\<lparr>m_MsgType := MsgSnapshot, m_Snapshot := Some snapshot\<rparr>) r)
                       (\<lambda>r1. Inr (True, r1)))))"

definition sendHeartbeat :: "nat \<Rightarrow> Raft \<Rightarrow> Raft rres" where
  "sendHeartbeat to r =
     bindR (mustProgress r to) (\<lambda>pr.
     let commit = raft_min (pr_Match pr) (lg_committed (r_RaftLog r))
     in send (zeroMessage\<lparr>m_To := to, m_MsgType := MsgHeartbeat, m_Commit := commit\<rparr>) r)"

text \<open>\<open>forEachProgress\<close> with a closure that skips the peer itself.\<close>

fun for_each_other :: "nat list \<Rightarrow> (nat \<Rightarrow> Raft \<Rightarrow> Raft rres) \<Rightarrow> Raft \<Rightarrow> Raft rres" where
  "for_each_other [] f r = Inr r"
| "for_each_other (nid # ids) f r =
     (if nid = r_id r then for_each_other ids f r
      else bindR (f nid r) (\<lambda>r1. for_each_other ids f r1))"

definition bcastAppend :: "raft_storage \<Rightarrow> Raft \<Rightarrow> Raft rres" where
  "bcastAppend st r =
     for_each_other (map fst (r_Prs r)) (\<lambda>nid r. bindR (sendAppend st nid r) (\<lambda>(_, r1). Inr r1)) r"

definition bcastHeartbeat :: "Raft \<Rightarrow> Raft rres" where
  "bcastHeartbeat r = for_each_other (map fst (r_Prs r)) sendHeartbeat r"

definition sendTimeoutNow :: "nat \<Rightarrow> Raft \<Rightarrow> Raft rres" where
  "sendTimeoutNow to r = send (zeroMessage\<lparr>m_To := to, m_MsgType := MsgTimeoutNow\<rparr>) r"

section \<open>Committing\<close>

definition maybeCommit :: "Raft \<Rightarrow> (bool \<times> Raft) rres" where
  "maybeCommit r =
     (let matchIndex = sort (map (pr_Match \<circ> snd) (r_Prs r));
          i = int (length matchIndex) - int (quorum r) in
      if i < 0 \<or> nat i \<ge> length matchIndex then Inl (RPanic ''index out of range'')
      else bindR (log_maybeCommit (r_RaftLog r) (matchIndex ! nat i) (r_Term r)) (\<lambda>(b, l).
             Inr (b, r\<lparr>r_RaftLog := l\<rparr>)))"

section \<open>Roles\<close>

definition Intn :: "int \<Rightarrow> Raft \<Rightarrow> (int \<times> Raft) rres" where
  "Intn n r =
     (if n \<le> 0 then Inl (RPanic ''invalid argument to Intn'')
      else Inr (int (r_rand r (r_drawn r)) mod n, r\<lparr>r_drawn := Suc (r_drawn r)\<rparr>))"

definition resetRandomizedElectionTimeout :: "Raft \<Rightarrow> Raft rres" where
  "resetRandomizedElectionTimeout r =
     bindR (Intn (r_electionTimeout r) r) (\<lambda>(v, r1).
       Inr (r1\<lparr>r_randomizedElectionTimeout := r_electionTimeout r + v\<rparr>))"

definition abortLeaderTransfer :: "Raft \<Rightarrow> Raft" where
  "abortLeaderTransfer r = r\<lparr>r_leadTransferee := NoNode\<rparr>"

definition pastElectionTimeout :: "Raft \<Rightarrow> bool" where
  "pastElectionTimeout r = (r_electionElapsed r \<ge> r_randomizedElectionTimeout r)"

definition reset :: "nat \<Rightarrow> Raft \<Rightarrow> Raft rres" where
  "reset term r =
     (let r1 = (if r_Term r \<noteq> term then r\<lparr>r_Term := term, r_Vote := NoNode\<rparr> else r);
          r2 = r1\<lparr>r_Lead := NoNode, r_electionElapsed := 0, r_heartbeatElapsed := 0\<rparr> in
      bindR (resetRandomizedElectionTimeout r2) (\<lambda>r3.
      let r4 = (abortLeaderTransfer r3)\<lparr>r_votes := []\<rparr>;
          li = log_LastIndex (r_RaftLog r4) in
      Inr (r4\<lparr>r_Prs := map (\<lambda>(nid, pr). (nid, \<lparr>pr_Match = if nid = r_id r4 then li else 0, pr_Next = li + 1\<rparr>))
                         (r_Prs r4),
              r_PendingConfIndex := 0\<rparr>)))"

text \<open>\<open>appendEntry\<close> numbers the entries it is given.\<close>

definition number_entries :: "nat \<Rightarrow> nat \<Rightarrow> Entry list \<Rightarrow> Entry list" where
  "number_entries term li es =
     map (\<lambda>(i, e). e\<lparr>e_Term := term, e_Index := li + 1 + i\<rparr>) (List.enumerate 0 es)"

definition appendEntry :: "raft_storage \<Rightarrow> Entry list \<Rightarrow> Raft \<Rightarrow> Raft rres" where
  "appendEntry st es r =
     (let li = log_LastIndex (r_RaftLog r) in
      bindR (log_append st (r_RaftLog r) (number_entries (r_Term r) li es)) (\<lambda>(li1, l1).
      let r1 = r\<lparr>r_RaftLog := l1\<rparr> in
      bindR (mustProgress r1 (r_id r1)) (\<lambda>pr.
      let r2 = putProgress r1 (r_id r1) (snd (Progress_maybeUpdate pr li1)) in
      bindR (maybeCommit r2) (\<lambda>(_, r3). Inr r3))))"

definition becomeFollower :: "nat \<Rightarrow> nat \<Rightarrow> Raft \<Rightarrow> Raft rres" where
  "becomeFollower term lead r =
     bindR (reset term r) (\<lambda>r1. Inr (r1\<lparr>r_Lead := lead, r_State := StateFollower\<rparr>))"

definition becomeCandidate :: "Raft \<Rightarrow> Raft rres" where
  "becomeCandidate r =
     bindR (reset (r_Term r + 1) r) (\<lambda>r1. Inr (r1\<lparr>r_Vote := r_id r1, r_State := StateCandidate\<rparr>))"

definition becomeLeader :: "raft_storage \<Rightarrow> Raft \<Rightarrow> Raft rres" where
  "becomeLeader st r =
     bindR (reset (r_Term r) r) (\<lambda>r1.
     let r2 = r1\<lparr>r_Lead := r_id r1, r_State := StateLeader,
                 r_PendingConfIndex := log_LastIndex (r_RaftLog r1)\<rparr>
     in appendEntry st [zeroEntry] r2)"

section \<open>Elections\<close>

definition granted_votes :: "(nat \<times> bool) list \<Rightarrow> nat" where
  "granted_votes votes = length (filter snd votes)"

definition poll :: "nat \<Rightarrow> bool \<Rightarrow> Raft \<Rightarrow> nat \<times> Raft" where
  "poll nid v r =
     (let r1 = (if map_of (r_votes r) nid = None then r\<lparr>r_votes := r_votes r @ [(nid, v)]\<rparr> else r)
      in (granted_votes (r_votes r1), r1))"

definition sendVoteRequest :: "nat \<Rightarrow> nat \<Rightarrow> Raft \<Rightarrow> Raft rres" where
  "sendVoteRequest term nid r =
     bindR (log_lastTerm (r_RaftLog r)) (\<lambda>lt.
       send (zeroMessage\<lparr>m_Term := term, m_To := nid, m_MsgType := MsgRequestVote,
                         m_Index := log_LastIndex (r_RaftLog r), m_LogTerm := lt\<rparr>) r)"

definition campaign :: "raft_storage \<Rightarrow> Raft \<Rightarrow> Raft rres" where
  "campaign st r =
     bindR (becomeCandidate r) (\<lambda>r1.
     let term = r_Term r1; (granted, r2) = poll (r_id r1) True r1 in
     if quorum r1 = granted then becomeLeader st r2
     else for_each_other (map fst (r_Prs r2)) (sendVoteRequest term) r2)"

definition numOfPendingConf :: "Entry list \<Rightarrow> nat" where
  "numOfPendingConf ents = length (filter (\<lambda>e. e_EntryType e = EntryConfChange) ents)"

section \<open>Handlers\<close>

definition handleAppendEntries :: "raft_storage \<Rightarrow> Message \<Rightarrow> Raft \<Rightarrow> Raft rres" where
  "handleAppendEntries st m r =
     (let resp = zeroMessage\<lparr>m_To := m_From m, m_MsgType := MsgAppendResponse\<rparr> in
      if m_Index m < lg_committed (r_RaftLog r)
      then send (resp\<lparr>m_Index := lg_committed (r_RaftLog r)\<rparr>) r
      else bindR (log_maybeAppend st (r_RaftLog r) (m_Index m) (m_LogTerm m) (m_Commit m) (m_Entries m))
             (\<lambda>(res, l1).
               let r1 = r\<lparr>r_RaftLog := l1\<rparr> in
               case res of
                 Some mlastIndex \<Rightarrow> send (resp\<lparr>m_Index := mlastIndex\<rparr>) r1
               | None \<Rightarrow>
                   bindR (log_zeroTermOnRangeErr (log_term l1 (m_Index m))) (\<lambda>_.
                   send (resp\<lparr>m_Index := m_Index m, m_Reject := True, m_RejectHint := log_LastIndex l1\<rparr>) r1)))"

definition handleHeartbeat :: "Message \<Rightarrow> Raft \<Rightarrow> Raft rres" where
  "handleHeartbeat m r =
     bindR (log_commitTo (r_RaftLog r) (m_Commit m)) (\<lambda>l1.
       send (zeroMessage\<lparr>m_To := m_From m, m_MsgType := MsgHeartbeatResponse\<rparr>) (r\<lparr>r_RaftLog := l1\<rparr>))"

fun restoreNode :: "nat list \<Rightarrow> Raft \<Rightarrow> Raft" where
  "restoreNode [] r = r"
| "restoreNode (n # ns) r =
     (let next = log_LastIndex (r_RaftLog r) + 1;
          match = (if n = r_id r then usub next 1 else 0)
      in restoreNode ns (setProgress r n match next))"

definition restore :: "Snapshot \<Rightarrow> Raft \<Rightarrow> (bool \<times> Raft) rres" where
  "restore s r =
     (let meta = sn_Metadata s; l = r_RaftLog r in
      if sm_Index meta \<le> lg_committed l then Inr (False, r)
      else bindR (log_lastTerm l) (\<lambda>_.
        if log_matchTerm l (sm_Index meta) (sm_Term meta)
        then bindR (log_commitTo l (sm_Index meta)) (\<lambda>l1. Inr (False, r\<lparr>r_RaftLog := l1\<rparr>))
        else Inr (True, restoreNode (sm_ConfState meta) (r\<lparr>r_RaftLog := log_restore l s, r_Prs := []\<rparr>))))"

definition handleSnapshot :: "Message \<Rightarrow> Raft \<Rightarrow> Raft rres" where
  "handleSnapshot m r =
     (case m_Snapshot m of
        None \<Rightarrow> Inl (RPanic ''nil pointer dereference'')
      | Some s \<Rightarrow>
          bindR (restore s r) (\<lambda>(restored, r1).
            send (zeroMessage\<lparr>m_To := m_From m, m_MsgType := MsgAppendResponse,
                    m_Index := if restored then log_LastIndex (r_RaftLog r1)
                               else lg_committed (r_RaftLog r1)\<rparr>) r1))"

section \<open>Stepping by role\<close>

text \<open>A handler that may return an error returns it with the peer.\<close>

type_synonym step_result = "(rerr option \<times> Raft) rres"

definition ok :: "Raft rres \<Rightarrow> step_result" where
  "ok x = bindR x (\<lambda>r. Inr (None, r))"

text \<open>The loop over proposed entries: pending configuration changes become empty entries.\<close>

fun propose_entries :: "nat \<Rightarrow> Entry list \<Rightarrow> Raft \<Rightarrow> Entry list \<times> Raft" where
  "propose_entries i [] r = ([], r)"
| "propose_entries i (e # es) r =
     (let (e1, r1) =
        (if e_EntryType e = EntryConfChange
         then if r_PendingConfIndex r > lg_applied (r_RaftLog r) then (zeroEntry, r)
              else (e, r\<lparr>r_PendingConfIndex := log_LastIndex (r_RaftLog r) + i + 1\<rparr>)
         else (e, r));
        (es1, r2) = propose_entries (Suc i) es r1
      in (e1 # es1, r2))"

definition leader_Propose :: "raft_storage \<Rightarrow> Message \<Rightarrow> Raft \<Rightarrow> step_result" where
  "leader_Propose st m r =
     (if m_Entries m = [] then Inl (RFatal ''stepped empty MsgPropose'')
      else if getProgress r (r_id r) = None then Inr (Some ErrProposalDropped, r)
      else if r_leadTransferee r \<noteq> NoNode then Inr (Some ErrProposalDropped, r)
      else let (es, r1) = propose_entries 0 (m_Entries m) r in
           ok (bindR (appendEntry st es r1) (bcastAppend st)))"

definition leader_AppendResponse :: "raft_storage \<Rightarrow> Message \<Rightarrow> Progress \<Rightarrow> Raft \<Rightarrow> step_result" where
  "leader_AppendResponse st m pr r =
     (if m_Reject m
      then let (b, pr1) = Progress_maybeDecrTo pr (m_Index m) (m_RejectHint m);
               r1 = putProgress r (m_From m) pr1 in
           if b then ok (bindR (sendAppend st (m_From m) r1) (\<lambda>(_, r2). Inr r2)) else Inr (None, r1)
      else let (b, pr1) = Progress_maybeUpdate pr (m_Index m);
               r1 = putProgress r (m_From m) pr1 in
           if b
           then ok (bindR (maybeCommit r1) (\<lambda>(c, r2).
                    bindR (if c then bcastAppend st r2 else Inr r2) (\<lambda>r3.
                    if m_From m = r_leadTransferee r3 \<and> pr_Match pr1 = log_LastIndex (r_RaftLog r3)
                    then sendTimeoutNow (m_From m) r3 else Inr r3)))
           else Inr (None, r1))"

definition leader_TransferLeader :: "raft_storage \<Rightarrow> Message \<Rightarrow> Progress \<Rightarrow> Raft \<Rightarrow> step_result" where
  "leader_TransferLeader st m pr r =
     (let leadTransferee = m_From m; lastLeadTransferee = r_leadTransferee r in
      if lastLeadTransferee \<noteq> NoNode \<and> lastLeadTransferee = leadTransferee then Inr (None, r)
      else let r1 = (if lastLeadTransferee \<noteq> NoNode then abortLeaderTransfer r else r) in
           if leadTransferee = r_id r1 then Inr (None, r1)
           else let r2 = r1\<lparr>r_electionElapsed := 0, r_leadTransferee := leadTransferee\<rparr> in
                if pr_Match pr = log_LastIndex (r_RaftLog r2) then ok (sendTimeoutNow leadTransferee r2)
                else ok (bindR (sendAppend st leadTransferee r2) (\<lambda>(_, r3). Inr r3)))"

definition stepLeader :: "raft_storage \<Rightarrow> Message \<Rightarrow> Raft \<Rightarrow> step_result" where
  "stepLeader st m r =
     (case getProgress r (m_From m) of
        None \<Rightarrow>
          if m_MsgType m = MsgBeat then ok (bcastHeartbeat r)
          else if m_MsgType m = MsgPropose then leader_Propose st m r
          else Inr (None, r)
      | Some pr \<Rightarrow>
          (case m_MsgType m of
             MsgBeat \<Rightarrow> ok (bcastHeartbeat r)
           | MsgPropose \<Rightarrow> leader_Propose st m r
           | MsgAppendResponse \<Rightarrow> leader_AppendResponse st m pr r
           | MsgHeartbeatResponse \<Rightarrow>
               if pr_Match pr < log_LastIndex (r_RaftLog r)
               then ok (bindR (sendAppend st (m_From m) r) (\<lambda>(_, r1). Inr r1)) else Inr (None, r)
           | MsgTransferLeader \<Rightarrow> leader_TransferLeader st m pr r
           | _ \<Rightarrow> Inr (None, r)))"

definition stepCandidate :: "raft_storage \<Rightarrow> Message \<Rightarrow> Raft \<Rightarrow> step_result" where
  "stepCandidate st m r =
     (case m_MsgType m of
        MsgPropose \<Rightarrow> Inr (Some ErrProposalDropped, r)
      | MsgAppend \<Rightarrow> ok (bindR (becomeFollower (m_Term m) (m_From m) r) (handleAppendEntries st m))
      | MsgHeartbeat \<Rightarrow> ok (bindR (becomeFollower (m_Term m) (m_From m) r) (handleHeartbeat m))
      | MsgSnapshot \<Rightarrow> ok (bindR (becomeFollower (m_Term m) (m_From m) r) (handleSnapshot m))
      | MsgRequestVoteResponse \<Rightarrow>
          (let (gr, r1) = poll (m_From m) (\<not> m_Reject m) r in
           if quorum r1 = gr then ok (bindR (becomeLeader st r1) (bcastAppend st))
           else if quorum r1 = length (r_votes r1) - gr then ok (becomeFollower (r_Term r1) NoNode r1)
           else Inr (None, r1))
      | _ \<Rightarrow> Inr (None, r))"

definition stepFollower :: "raft_storage \<Rightarrow> Message \<Rightarrow> Raft \<Rightarrow> step_result" where
  "stepFollower st m r =
     (let heard = r\<lparr>r_electionElapsed := 0, r_Lead := m_From m\<rparr> in
      case m_MsgType m of
        MsgPropose \<Rightarrow> Inr (Some ErrProposalDropped, r)
      | MsgAppend \<Rightarrow> ok (handleAppendEntries st m heard)
      | MsgHeartbeat \<Rightarrow> ok (handleHeartbeat m heard)
      | MsgSnapshot \<Rightarrow> ok (handleSnapshot m heard)
      | MsgTransferLeader \<Rightarrow>
          if r_Lead r = NoNode then Inr (None, r) else ok (send (m\<lparr>m_To := r_Lead r\<rparr>) r)
      | MsgTimeoutNow \<Rightarrow> if promotable r then ok (campaign st r) else Inr (None, r)
      | _ \<Rightarrow> Inr (None, r))"

section \<open>Step\<close>

definition hup :: "raft_storage \<Rightarrow> Raft \<Rightarrow> Raft rres" where
  "hup st r =
     (if r_State r = StateLeader then Inr r
      else let l = r_RaftLog r in
           bindR (log_slice l (lg_applied l + 1) (lg_committed l + 1)) (\<lambda>res.
             case res of
               Inl e \<Rightarrow> Inl (RFatal ''unexpected error getting unapplied entries'')
             | Inr ents \<Rightarrow>
                 if numOfPendingConf ents \<noteq> 0 \<and> lg_committed l > lg_applied l then Inr r
                 else campaign st r))"

definition requestVote :: "Message \<Rightarrow> Raft \<Rightarrow> Raft rres" where
  "requestVote m r =
     (let canVote = r_Vote r = m_From m \<or> (r_Vote r = NoNode \<and> r_Lead r = NoNode);
          resp = zeroMessage\<lparr>m_To := m_From m, m_MsgType := MsgRequestVoteResponse\<rparr> in
      bindR (if canVote then log_isUpToDate (r_RaftLog r) (m_Index m) (m_LogTerm m) else Inr False) (\<lambda>up.
      bindR (log_lastTerm (r_RaftLog r)) (\<lambda>_.
        if canVote \<and> up
        then bindR (send (resp\<lparr>m_Term := m_Term m\<rparr>) r) (\<lambda>r1.
               Inr (r1\<lparr>r_electionElapsed := 0, r_Vote := m_From m\<rparr>))
        else send (resp\<lparr>m_Term := r_Term r, m_Reject := True\<rparr>) r)))"

definition step_term :: "Message \<Rightarrow> Raft \<Rightarrow> Raft option rres" where
  "step_term m r =
     (if m_Term m = 0 then Inr (Some r)
      else if m_Term m > r_Term r
      then bindR (becomeFollower (m_Term m)
                    (if m_MsgType m = MsgAppend \<or> m_MsgType m = MsgHeartbeat \<or> m_MsgType m = MsgSnapshot
                     then m_From m else NoNode) r) (\<lambda>r1. Inr (Some r1))
      else if m_Term m < r_Term r then Inr None
      else Inr (Some r))"

definition Step :: "raft_storage \<Rightarrow> Message \<Rightarrow> Raft \<Rightarrow> step_result" where
  "Step st m r =
     bindR (step_term m r) (\<lambda>res.
       case res of
         None \<Rightarrow> Inr (None, r)
       | Some r1 \<Rightarrow>
           (case m_MsgType m of
              MsgHup \<Rightarrow> ok (hup st r1)
            | MsgRequestVote \<Rightarrow> ok (requestVote m r1)
            | _ \<Rightarrow>
                (case r_State r1 of
                   StateFollower \<Rightarrow> stepFollower st m r1
                 | StateCandidate \<Rightarrow> stepCandidate st m r1
                 | StateLeader \<Rightarrow> stepLeader st m r1)))"

section \<open>Time\<close>

definition drop_err :: "step_result \<Rightarrow> Raft rres" where
  "drop_err x = bindR x (\<lambda>(_, r). Inr r)"

definition tickElection :: "raft_storage \<Rightarrow> Raft \<Rightarrow> Raft rres" where
  "tickElection st r =
     (let r1 = r\<lparr>r_electionElapsed := r_electionElapsed r + 1\<rparr> in
      if promotable r1 \<and> pastElectionTimeout r1
      then drop_err (Step st (zeroMessage\<lparr>m_From := r_id r1, m_MsgType := MsgHup\<rparr>)
                       (r1\<lparr>r_electionElapsed := 0\<rparr>))
      else Inr r1)"

definition tickHeartbeat :: "raft_storage \<Rightarrow> Raft \<Rightarrow> Raft rres" where
  "tickHeartbeat st r =
     (let r1 = r\<lparr>r_heartbeatElapsed := r_heartbeatElapsed r + 1,
                 r_electionElapsed := r_electionElapsed r + 1\<rparr>;
          r2 = (if r_electionElapsed r1 \<ge> r_electionTimeout r1
                then let r1' = r1\<lparr>r_electionElapsed := 0\<rparr> in
                     if r_State r1' = StateLeader \<and> r_leadTransferee r1' \<noteq> NoNode
                     then abortLeaderTransfer r1' else r1'
                else r1) in
      if r_State r2 \<noteq> StateLeader then Inr r2
      else if r_heartbeatElapsed r2 \<ge> r_heartbeatTimeout r2
      then drop_err (Step st (zeroMessage\<lparr>m_From := r_id r2, m_MsgType := MsgBeat\<rparr>)
                       (r2\<lparr>r_heartbeatElapsed := 0\<rparr>))
      else Inr r2)"

definition tick :: "raft_storage \<Rightarrow> Raft \<Rightarrow> Raft rres" where
  "tick st r =
     (case r_State r of
        StateFollower \<Rightarrow> tickElection st r
      | StateCandidate \<Rightarrow> tickElection st r
      | StateLeader \<Rightarrow> tickHeartbeat st r)"

section \<open>Membership\<close>

definition addNode :: "nat \<Rightarrow> Raft \<Rightarrow> Raft" where
  "addNode nid r =
     (if getProgress r nid = None then setProgress r nid 0 (log_LastIndex (r_RaftLog r) + 1) else r)"

definition removeNode :: "raft_storage \<Rightarrow> nat \<Rightarrow> Raft \<Rightarrow> Raft rres" where
  "removeNode st nid r =
     (let r1 = r\<lparr>r_Prs := AList.delete nid (r_Prs r)\<rparr> in
      if r_Prs r1 = [] then Inr r1
      else bindR (maybeCommit r1) (\<lambda>(c, r2).
           bindR (if c then bcastAppend st r2 else Inr r2) (\<lambda>r3.
           Inr (if r_State r3 = StateLeader \<and> r_leadTransferee r3 = nid then abortLeaderTransfer r3 else r3))))"

section \<open>Starting\<close>

record SoftState =
  ss_Lead :: nat
  ss_RaftState :: StateType

definition softState :: "Raft \<Rightarrow> SoftState" where
  "softState r = \<lparr>ss_Lead = r_Lead r, ss_RaftState = r_State r\<rparr>"

definition hardState :: "Raft \<Rightarrow> HardState" where
  "hardState r = \<lparr>hs_Term = r_Term r, hs_Vote = r_Vote r, hs_Commit = lg_committed (r_RaftLog r)\<rparr>"

definition raft_GetSnap :: "Raft \<Rightarrow> Snapshot option" where
  "raft_GetSnap r = lg_pending_snapshot (r_RaftLog r)"

definition nodes :: "Raft \<Rightarrow> nat list" where
  "nodes r = sort (map fst (r_Prs r))"

definition loadState :: "HardState \<Rightarrow> Raft \<Rightarrow> Raft rres" where
  "loadState state r =
     (if hs_Commit state < lg_committed (r_RaftLog r) \<or> hs_Commit state > log_LastIndex (r_RaftLog r)
      then Inl (RFatal ''state.commit is out of range'')
      else Inr (r\<lparr>r_RaftLog := (r_RaftLog r)\<lparr>lg_committed := hs_Commit state\<rparr>,
                  r_Term := hs_Term state, r_Vote := hs_Vote state\<rparr>))"

definition new_prs :: "nat list \<Rightarrow> (nat \<times> Progress) list" where
  "new_prs peers = foldl (\<lambda>ps p. AList.update p \<lparr>pr_Match = 0, pr_Next = 1\<rparr> ps) [] peers"

definition newRaft :: "raft_storage \<Rightarrow> Config \<Rightarrow> (nat \<Rightarrow> nat) \<Rightarrow> Raft rres" where
  "newRaft st c rand =
     (case Config_validate c of
        Some e \<Rightarrow> Inl (RPanic e)
      | None \<Rightarrow>
          bindR (newLog st) (\<lambda>raftlog.
          bindR (orPanic (rs_InitialState st)) (\<lambda>(hs, cs).
          bindR (if cs \<noteq> [] then if c_peers c \<noteq> [] then Inl (RPanic ''cannot specify both peers and ConfState'')
                                else Inr cs
                 else Inr (c_peers c)) (\<lambda>peers.
          let r = \<lparr>r_id = c_ID c, r_Term = 0, r_Vote = 0, r_RaftLog = raftlog, r_Prs = new_prs peers,
                   r_State = StateFollower, r_votes = [], r_msgs = [], r_Lead = NoNode,
                   r_heartbeatTimeout = c_HeartbeatTick c, r_electionTimeout = c_ElectionTick c,
                   r_randomizedElectionTimeout = 0, r_leadTransferee = 0, r_PendingConfIndex = 0,
                   r_electionElapsed = 0, r_heartbeatElapsed = 0, r_rand = rand, r_drawn = 0\<rparr> in
          bindR (if \<not> IsEmptyHardState hs then loadState hs r else Inr r) (\<lambda>r1.
          bindR (if c_Applied c > 0 then log_appliedTo (r_RaftLog r1) (c_Applied c) else Inr (r_RaftLog r1)) (\<lambda>l1.
          bindR (becomeFollower (r_Term r1) NoNode (r1\<lparr>r_RaftLog := l1\<rparr>)) (\<lambda>r2.
          bindR (log_lastTerm (r_RaftLog r2)) (\<lambda>_. Inr r2))))))))"

end
