(* ===== verification/Election_Spec.thy ===== *)
theory Election_Spec
  imports Raft
begin

text \<open>
  The election protocol the Raft peers implement, with everything else left out: a peer has a
  term, a vote, a role and the peers that granted it their vote; it hears requests for votes
  and grants, and emits some of its own. A peer may crash: it then comes back with the term and
  vote it saved last, and what it emitted since is lost unless it was saved before it was sent.
  The protocol elects at most one leader in a term.
\<close>

section \<open>The protocol of one peer\<close>

record epeer =
  ep_term :: nat
  ep_vote :: nat
  ep_role :: StateType
  ep_yes :: "nat set"

datatype emsg = Ask nat nat | Grant nat nat nat

text \<open>
  \<open>Ask i t\<close> asks for votes for \<open>i\<close> in term \<open>t\<close>; \<open>Grant j i t\<close> is the vote of \<open>j\<close> for \<open>i\<close> in term \<open>t\<close>.
  A step of peer \<open>i\<close> of the configuration \<open>P\<close> that has heard the messages \<open>H\<close>:
\<close>

inductive estep :: "nat set \<Rightarrow> nat \<Rightarrow> emsg set \<Rightarrow> epeer \<times> emsg set \<Rightarrow> epeer \<times> emsg set \<Rightarrow> bool"
  for P i H where
  adopt: "ep_term p < t \<Longrightarrow>
    estep P i H (p, out) (\<lparr>ep_term = t, ep_vote = 0, ep_role = StateFollower, ep_yes = {}\<rparr>, out)"
| stepdown: "estep P i H (p, out) (p\<lparr>ep_role := StateFollower, ep_yes := {}\<rparr>, out)"
| grant: "Ask c (ep_term p) \<in> H \<Longrightarrow> c \<noteq> 0 \<Longrightarrow> ep_vote p = 0 \<or> ep_vote p = c \<Longrightarrow>
    estep P i H (p, out) (p\<lparr>ep_vote := c\<rparr>, insert (Grant i c (ep_term p)) out)"
| campaign: "estep P i H (p, out)
    (\<lparr>ep_term = ep_term p + 1, ep_vote = i, ep_role = StateCandidate, ep_yes = {i}\<rparr>, out)"
| ask: "ep_role p = StateCandidate \<Longrightarrow> estep P i H (p, out) (p, insert (Ask i (ep_term p)) out)"
| count: "Grant j i (ep_term p) \<in> H \<Longrightarrow> ep_role p = StateCandidate \<Longrightarrow> j \<in> P \<Longrightarrow>
    estep P i H (p, out) (p\<lparr>ep_yes := insert j (ep_yes p)\<rparr>, out)"
| win: "ep_role p = StateCandidate \<Longrightarrow> card P div 2 < card (ep_yes p) \<Longrightarrow>
    estep P i H (p, out) (p\<lparr>ep_role := StateLeader, ep_yes := {}\<rparr>, out)"

abbreviation esteps :: "nat set \<Rightarrow> nat \<Rightarrow> emsg set \<Rightarrow> epeer \<times> emsg set \<Rightarrow> epeer \<times> emsg set \<Rightarrow> bool" where
  "esteps P i H \<equiv> (estep P i H)\<^sup>*\<^sup>*"

section \<open>The protocol of the system\<close>

text \<open>
  \<open>es_vol\<close> remembers the votes a peer has cast since its last restart or before its last save,
  \<open>es_cast\<close> those that were saved, \<open>es_led\<close> who has ever been leader of which term; the protocol
  does not read them.
\<close>

record esys =
  es_peer :: "nat \<Rightarrow> epeer"
  es_out :: "nat \<Rightarrow> emsg set"
  es_saved :: "nat \<Rightarrow> nat \<times> nat"
  es_net :: "emsg set"
  es_vol :: "nat \<Rightarrow> nat \<rightharpoonup> nat"
  es_cast :: "nat \<Rightarrow> nat \<rightharpoonup> nat"
  es_led :: "(nat \<times> nat) set"

definition voted :: "nat \<Rightarrow> nat \<Rightarrow> (nat \<rightharpoonup> nat) \<Rightarrow> (nat \<rightharpoonup> nat)" where
  "voted t v f = (if v = 0 then f else f(t \<mapsto> v))"

definition led :: "nat \<Rightarrow> epeer \<Rightarrow> (nat \<times> nat) set" where
  "led i p = (if ep_role p = StateLeader then {(i, ep_term p)} else {})"

definition eact :: "nat \<Rightarrow> epeer \<Rightarrow> emsg set \<Rightarrow> esys \<Rightarrow> esys" where
  "eact i p out s = s\<lparr>es_peer := (es_peer s)(i := p), es_out := (es_out s)(i := out),
     es_vol := (es_vol s)(i := voted (ep_term p) (ep_vote p) (es_vol s i)), es_led := es_led s \<union> led i p\<rparr>"

definition eflush :: "nat \<Rightarrow> esys \<Rightarrow> esys" where
  "eflush i s = s\<lparr>es_saved := (es_saved s)(i := (ep_term (es_peer s i), ep_vote (es_peer s i))),
     es_net := es_net s \<union> es_out s i, es_out := (es_out s)(i := {}),
     es_cast := (es_cast s)(i := es_vol s i)\<rparr>"

definition recovered :: "nat \<times> nat \<Rightarrow> epeer" where
  "recovered sv = \<lparr>ep_term = fst sv, ep_vote = snd sv, ep_role = StateFollower, ep_yes = {}\<rparr>"

definition erestart :: "nat \<Rightarrow> esys \<Rightarrow> esys" where
  "erestart i s = s\<lparr>es_peer := (es_peer s)(i := recovered (es_saved s i)), es_out := (es_out s)(i := {}),
     es_vol := (es_vol s)(i := es_cast s i)\<rparr>"

definition estart :: "(nat \<Rightarrow> nat \<times> nat) \<Rightarrow> esys" where
  "estart sv = \<lparr>es_peer = (\<lambda>i. recovered (sv i)), es_out = (\<lambda>_. {}), es_saved = sv, es_net = {},
     es_vol = (\<lambda>i. voted (fst (sv i)) (snd (sv i)) Map.empty),
     es_cast = (\<lambda>i. voted (fst (sv i)) (snd (sv i)) Map.empty), es_led = {}\<rparr>"

inductive ereach :: "nat set \<Rightarrow> esys \<Rightarrow> bool" for P where
  start: "ereach P (estart sv)"
| act: "ereach P s \<Longrightarrow> i \<in> P \<Longrightarrow> estep P i (es_net s) (es_peer s i, es_out s i) (p, out) \<Longrightarrow>
    ereach P (eact i p out s)"
| flush: "ereach P s \<Longrightarrow> i \<in> P \<Longrightarrow> ereach P (eflush i s)"
| restart: "ereach P s \<Longrightarrow> i \<in> P \<Longrightarrow> ereach P (erestart i s)"

section \<open>The invariant\<close>

text \<open>The votes a peer remembers are those it has cast, up to its term.\<close>

definition votes_upto :: "(nat \<rightharpoonup> nat) \<Rightarrow> nat \<Rightarrow> nat \<Rightarrow> bool" where
  "votes_upto f t v \<longleftrightarrow> f t = (if v = 0 then None else Some v) \<and> (\<forall>u. f u \<noteq> None \<longrightarrow> u \<le> t)"

definition role_ok :: "nat set \<Rightarrow> (nat \<Rightarrow> nat \<rightharpoonup> nat) \<Rightarrow> nat \<Rightarrow> epeer \<Rightarrow> bool" where
  "role_ok P cast i p \<longleftrightarrow> (ep_role p \<noteq> StateFollower \<longrightarrow> ep_vote p = i)
     \<and> (ep_role p = StateCandidate \<longrightarrow>
         (\<forall>j\<in>ep_yes p. j = i \<or> j \<in> P \<and> cast j (ep_term p) = Some i \<and> cast i (ep_term p) = Some i))"

definition msg_ok :: "(nat \<Rightarrow> nat \<rightharpoonup> nat) \<Rightarrow> (nat \<Rightarrow> nat \<rightharpoonup> nat) \<Rightarrow> emsg \<Rightarrow> bool" where
  "msg_ok vol cast m = (case m of
     Ask a t \<Rightarrow> vol a t = Some a
   | Grant a c t \<Rightarrow> vol a t = Some c \<and> cast c t = Some c)"

definition msg_from :: "emsg \<Rightarrow> nat" where
  "msg_from m = (case m of Ask a _ \<Rightarrow> a | Grant a _ _ \<Rightarrow> a)"

definition led_ok :: "nat set \<Rightarrow> (nat \<Rightarrow> nat \<rightharpoonup> nat) \<Rightarrow> nat \<times> nat \<Rightarrow> bool" where
  "led_ok P cast it \<longleftrightarrow> (\<exists>Q\<subseteq>P. card P div 2 < card Q
     \<and> (Q = {fst it} \<or> (\<forall>j\<in>Q. cast j (snd it) = Some (fst it))))"

definition einv :: "nat set \<Rightarrow> esys \<Rightarrow> bool" where
  "einv P s \<longleftrightarrow>
     (\<forall>i. votes_upto (es_vol s i) (ep_term (es_peer s i)) (ep_vote (es_peer s i)))
     \<and> (\<forall>i. votes_upto (es_cast s i) (fst (es_saved s i)) (snd (es_saved s i)))
     \<and> (\<forall>i. es_cast s i \<subseteq>\<^sub>m es_vol s i)
     \<and> (\<forall>i. fst (es_saved s i) \<le> ep_term (es_peer s i))
     \<and> (\<forall>i. role_ok P (es_cast s) i (es_peer s i))
     \<and> (\<forall>i. \<forall>m\<in>es_out s i. msg_from m = i \<and> msg_ok (es_vol s) (es_cast s) m)
     \<and> (\<forall>m\<in>es_net s. msg_ok (es_cast s) (es_cast s) m)
     \<and> (\<forall>it\<in>es_led s. led_ok P (es_cast s) it)
     \<and> (\<forall>i. led i (es_peer s i) \<subseteq> es_led s)"

lemma votes_upto_voted:
  assumes "votes_upto f t v" "t \<le> t'" "t' = t \<longrightarrow> v \<noteq> 0 \<longrightarrow> v' = v"
  shows "votes_upto (voted t' v' f) t' v'" "f \<subseteq>\<^sub>m voted t' v' f"
proof -
  from assms show "votes_upto (voted t' v' f) t' v'"
    by (fastforce simp: votes_upto_def voted_def split: if_splits)
  from assms show "f \<subseteq>\<^sub>m voted t' v' f"
    by (fastforce simp: votes_upto_def voted_def map_le_def split: if_splits)
qed

text \<open>Votes are never taken back, so what rests on them stays.\<close>

lemma map_le_Some: "f \<subseteq>\<^sub>m g \<Longrightarrow> f x = Some y \<Longrightarrow> g x = Some y"
  by (metis domI map_le_def)

lemma msg_ok_mono:
  "msg_ok vol cast m \<Longrightarrow> vol (msg_from m) \<subseteq>\<^sub>m vol' (msg_from m) \<Longrightarrow> (\<And>i. cast i \<subseteq>\<^sub>m cast' i) \<Longrightarrow> msg_ok vol' cast' m"
  by (cases m) (auto simp: msg_ok_def msg_from_def intro: map_le_Some)

lemma led_ok_mono: "led_ok P cast it \<Longrightarrow> (\<And>i. cast i \<subseteq>\<^sub>m cast' i) \<Longrightarrow> led_ok P cast' it"
proof -
  assume le: "\<And>i. cast i \<subseteq>\<^sub>m cast' i" and "led_ok P cast it"
  then obtain Q where Q: "Q \<subseteq> P" "card P div 2 < card Q" "Q = {fst it} \<or> (\<forall>j\<in>Q. cast j (snd it) = Some (fst it))"
    by (auto simp: led_ok_def)
  then have "Q = {fst it} \<or> (\<forall>j\<in>Q. cast' j (snd it) = Some (fst it))" using map_le_Some [OF le] by blast
  with Q show "led_ok P cast' it" unfolding led_ok_def by blast
qed

lemma role_ok_mono: "role_ok P cast i p \<Longrightarrow> (\<And>i. cast i \<subseteq>\<^sub>m cast' i) \<Longrightarrow> role_ok P cast' i p"
  unfolding role_ok_def by (meson map_le_Some)

section \<open>The steps keep it\<close>

lemma estart_inv: "einv P (estart sv)"
  by (auto simp: einv_def estart_def votes_upto_def voted_def recovered_def role_ok_def led_def)

text \<open>A step of a peer moves its term up, and within a term never changes a vote.\<close>

lemma estep_votes:
  assumes "estep P i H (p, out) (p', out')" "role_ok P cast i p" "i \<noteq> 0"
  shows "ep_term p \<le> ep_term p'" "ep_term p' = ep_term p \<Longrightarrow> ep_vote p \<noteq> 0 \<Longrightarrow> ep_vote p' = ep_vote p"
  using assms by (cases; simp; fail)+

lemma estep_role:
  assumes "estep P i H (p, out) (p', out')" "role_ok P cast i p" "\<forall>m\<in>H. msg_ok cast cast m" "i \<noteq> 0"
  shows "role_ok P cast i p'"
  using assms by cases (auto simp: role_ok_def msg_ok_def)

lemma estep_out:
  assumes "estep P i H (p, out) (p', out')" "role_ok P cast i p" "\<forall>m\<in>H. msg_ok cast cast m" "m \<in> out'" "m \<notin> out"
  shows "msg_from m = i \<and> (case m of Ask a t \<Rightarrow> t = ep_term p' \<and> ep_vote p' = i
                            | Grant a c t \<Rightarrow> t = ep_term p' \<and> ep_vote p' = c \<and> c \<noteq> 0 \<and> cast c t = Some c)"
  using assms by cases (auto simp: role_ok_def msg_ok_def msg_from_def)

lemma estep_leads:
  assumes "estep P i H (p, out) (p', out')" "role_ok P cast i p" "ep_role p' = StateLeader" "i \<in> P" "finite P"
  shows "ep_role p = StateLeader \<and> ep_term p' = ep_term p \<or> led_ok P cast (i, ep_term p')"
  using assms
proof cases
  case win
  have "ep_yes p \<subseteq> P" using win assms by (auto simp: role_ok_def)
  moreover have "ep_yes p = {i} \<or> (\<forall>j\<in>ep_yes p. cast j (ep_term p) = Some i)"
  proof (cases "ep_yes p \<subseteq> {i}")
    case True
    then show ?thesis using win by (auto simp: subset_singleton_iff)
  next
    case False
    then obtain k where "k \<in> ep_yes p" "k \<noteq> i" by auto
    with win assms(2) have "cast i (ep_term p) = Some i" by (auto simp: role_ok_def)
    with win assms(2) have "cast j (ep_term p) = Some i" if "j \<in> ep_yes p" for j
      using that by (auto simp: role_ok_def)
    then show ?thesis by simp
  qed
  ultimately have "led_ok P cast (i, ep_term p)"
    using win unfolding led_ok_def by (intro exI [of _ "ep_yes p"]) simp
  then show ?thesis using win by simp
qed (use assms in auto)

lemma eact_inv:
  assumes inv: "einv P s" and i: "i \<in> P" and P: "finite P" "0 \<notin> P"
    and step: "estep P i (es_net s) (es_peer s i, es_out s i) (p, out)"
  shows "einv P (eact i p out s)"
proof -
  let ?p = "es_peer s i" let ?s = "eact i p out s"
  let ?vol = "(es_vol s)(i := voted (ep_term p) (ep_vote p) (es_vol s i))"
  have i0: "i \<noteq> 0" using i P by metis
  have vol: "votes_upto (es_vol s i) (ep_term ?p) (ep_vote ?p)" and cast: "es_cast s j \<subseteq>\<^sub>m es_vol s j"
    and role: "role_ok P (es_cast s) i ?p" and net: "\<forall>m\<in>es_net s. msg_ok (es_cast s) (es_cast s) m"
    and out: "\<And>j m. m \<in> es_out s j \<Longrightarrow> msg_from m = j \<and> msg_ok (es_vol s) (es_cast s) m"
    for j using inv by (auto simp: einv_def)
  note up = votes_upto_voted [OF vol estep_votes(1) [OF step role i0], of "ep_vote p"]
  have upto: "votes_upto (?vol i) (ep_term p) (ep_vote p)" and ext: "es_vol s j \<subseteq>\<^sub>m ?vol j" for j
    using up estep_votes(2) [OF step role i0] by auto
  have "msg_from m = j \<and> msg_ok ?vol (es_cast s) m" if m: "m \<in> es_out ?s j" for j m
  proof (cases "m \<in> es_out s j")
    case True
    with out ext msg_ok_mono [of "es_vol s" "es_cast s" m ?vol "es_cast s"] show ?thesis by simp
  next
    case False
    with m have "j = i" "m \<in> out" "m \<notin> es_out s i" by (auto simp: eact_def split: if_splits)
    with estep_out [OF step role net this(2,3)] upto i0 show ?thesis
      by (auto simp: msg_ok_def msg_from_def votes_upto_def split: emsg.splits)
  qed
  moreover have "led_ok P (es_cast s) it" if it: "it \<in> es_led ?s" for it
  proof (cases "it \<in> es_led s")
    case True
    with inv show ?thesis by (simp add: einv_def)
  next
    case False
    with it have "it = (i, ep_term p)" "ep_role p = StateLeader" by (auto simp: eact_def led_def split: if_splits)
    moreover have "led i (es_peer s i) \<subseteq> es_led s" using inv by (simp add: einv_def)
    ultimately show ?thesis using estep_leads [OF step role _ i P(1)] False by (auto simp: led_def)
  qed
  moreover have "es_cast s j \<subseteq>\<^sub>m ?vol j" for j using cast ext map_le_trans by blast
  moreover have "role_ok P (es_cast s) i p" using estep_role [OF step role net i0] .
  moreover have "fst (es_saved s i) \<le> ep_term p"
    using inv estep_votes(1) [OF step role i0] le_trans unfolding einv_def by blast
  ultimately show ?thesis using inv upto by (auto simp: einv_def eact_def)
qed

lemma eflush_inv:
  assumes inv: "einv P s"
  shows "einv P (eflush i s)"
proof -
  let ?cast = "(es_cast s)(i := es_vol s i)"
  have ext: "es_cast s j \<subseteq>\<^sub>m ?cast j" for j using inv by (simp add: einv_def)
  have out: "msg_from m = j \<and> msg_ok (es_vol s) ?cast m" if "m \<in> es_out s j" for j m
    using that inv ext msg_ok_mono [of "es_vol s" "es_cast s" m "es_vol s" ?cast] by (simp add: einv_def)
  then have sent: "msg_ok ?cast ?cast m" if "m \<in> es_out s i" for m
    using that msg_ok_mono [of "es_vol s" ?cast m ?cast ?cast] by fastforce
  have "msg_ok ?cast ?cast m" if "m \<in> es_net s" for m
    using that inv ext msg_ok_mono [of "es_cast s" "es_cast s" m ?cast ?cast] by (simp add: einv_def)
  moreover have "led_ok P ?cast it" if "it \<in> es_led s" for it
    using that inv ext led_ok_mono [of P "es_cast s" it ?cast] by (simp add: einv_def)
  moreover have "role_ok P ?cast j (es_peer s j)" for j
    using inv ext role_ok_mono [of P "es_cast s" j _ ?cast] by (simp add: einv_def)
  ultimately show ?thesis using inv out sent by (auto simp: einv_def eflush_def)
qed

lemma erestart_inv:
  assumes inv: "einv P s"
  shows "einv P (erestart i s)"
proof -
  let ?vol = "(es_vol s)(i := es_cast s i)"
  have "msg_ok ?vol (es_cast s) m" if "m \<in> es_out s j" "j \<noteq> i" for j m
    using that inv msg_ok_mono [of "es_vol s" "es_cast s" m ?vol "es_cast s"] by (auto simp: einv_def)
  moreover have "led i (recovered sv) = {}" "role_ok P cast i (recovered sv)" for sv cast
    by (simp_all add: led_def recovered_def role_ok_def)
  ultimately show ?thesis using inv by (auto simp: einv_def erestart_def) (simp_all add: recovered_def)
qed

lemma ereach_inv: "ereach P s \<Longrightarrow> finite P \<Longrightarrow> 0 \<notin> P \<Longrightarrow> einv P s"
  by (induction rule: ereach.induct) (auto intro: estart_inv eact_inv eflush_inv erestart_inv)

section \<open>One leader in a term\<close>

lemma quorums_meet:
  assumes "finite P" "Q \<subseteq> P" "R \<subseteq> P" "card P div 2 < card Q" "card P div 2 < card R"
  shows "Q \<inter> R \<noteq> {}"
proof
  assume "Q \<inter> R = {}"
  then have "card Q + card R = card (Q \<union> R)"
    using assms by (intro card_Un_disjoint [symmetric]) (auto intro: finite_subset)
  also have "\<dots> \<le> card P" using assms by (intro card_mono) auto
  finally show False using assms by linarith
qed

lemma led_unique:
  assumes P: "finite P" and i: "led_ok P cast (i, t)" and j: "led_ok P cast (j, t)" and "i \<in> P" "j \<in> P"
  shows "i = j"
proof -
  have single: "P = {a}" if "{a} \<subseteq> P" "card P div 2 < card {a}" for a :: nat
  proof (rule card_subset_eq [symmetric, OF P that(1)])
    show "card {a} = card P" using that card_mono [OF P that(1)] by simp
  qed
  from i obtain Q where Q: "Q \<subseteq> P" "card P div 2 < card Q" "Q = {i} \<or> (\<forall>k\<in>Q. cast k t = Some i)"
    by (auto simp: led_ok_def)
  from j obtain R where R: "R \<subseteq> P" "card P div 2 < card R" "R = {j} \<or> (\<forall>k\<in>R. cast k t = Some j)"
    by (auto simp: led_ok_def)
  from quorums_meet [OF P Q(1) R(1) Q(2) R(2)] obtain k where k: "k \<in> Q" "k \<in> R" by auto
  show ?thesis
  proof (cases "Q = {i} \<or> R = {j}")
    case True
    with Q R single [of i] single [of j] assms show ?thesis by blast
  next
    case False
    with Q R k have "cast k t = Some i" "cast k t = Some j" by auto
    then show ?thesis by simp
  qed
qed

lemma led_members: "ereach P s \<Longrightarrow> it \<in> es_led s \<Longrightarrow> fst it \<in> P"
  by (induction rule: ereach.induct)
     (auto simp: estart_def eact_def led_def eflush_def erestart_def split: if_splits)

lemma ereach_one_leader:
  assumes "ereach P s" "finite P" "0 \<notin> P" "(i, t) \<in> es_led s" "(j, t) \<in> es_led s"
  shows "i = j"
  using ereach_inv [OF assms(1-3)] assms(2,4,5) led_members [OF assms(1) assms(4)] led_members [OF assms(1) assms(5)]
  by (intro led_unique [of P "es_cast s" i t j]) (auto simp: einv_def)

section \<open>Sequences of steps\<close>

lemma estep_hears: "estep P i H x y \<Longrightarrow> H \<subseteq> H' \<Longrightarrow> estep P i H' x y"
  by (induction rule: estep.induct) (blast intro: estep.intros)+

lemma esteps_hear: "esteps P i H x y \<Longrightarrow> H \<subseteq> H' \<Longrightarrow> esteps P i H' x y"
  by (induction rule: rtranclp_induct) (auto intro: rtranclp.rtrancl_into_rtrancl estep_hears)

text \<open>\<open>s'\<close> is \<open>s\<close> after peer \<open>i\<close> has come to \<open>p\<close> and emitted \<open>out\<close>.\<close>

definition acted :: "nat \<Rightarrow> epeer \<Rightarrow> emsg set \<Rightarrow> esys \<Rightarrow> esys \<Rightarrow> bool" where
  "acted i p out s s' \<longleftrightarrow> es_peer s' = (es_peer s)(i := p) \<and> es_out s' = (es_out s)(i := out)
     \<and> es_saved s' = es_saved s \<and> es_net s' = es_net s \<and> es_led s \<union> led i p \<subseteq> es_led s'"

lemma ereach_esteps:
  assumes "esteps P i (es_net s) (es_peer s i, es_out s i) (p, out)" "ereach P s" "i \<in> P" "finite P" "0 \<notin> P"
  shows "\<exists>s'. ereach P s' \<and> acted i p out s s'"
  using assms(1)
proof (induction "(p, out)" arbitrary: p out rule: rtranclp_induct)
  case base
  have "led i (es_peer s i) \<subseteq> es_led s" using ereach_inv [OF assms(2,4,5)] by (simp add: einv_def)
  with base show ?case using assms(2) by (intro exI [of _ s]) (auto simp: acted_def)
next
  case (step y)
  obtain p1 out1 where y: "y = (p1, out1)" by fastforce
  with step obtain s1 where s1: "ereach P s1" "acted i p1 out1 s s1" by blast
  then have "estep P i (es_net s1) (es_peer s1 i, es_out s1 i) (p, out)" using step(2) y by (simp add: acted_def)
  then have "ereach P (eact i p out s1)" by (rule ereach.act [OF s1(1) assms(3)])
  moreover have "acted i p out s (eact i p out s1)" using s1(2) by (auto simp: acted_def eact_def)
  ultimately show ?case by blast
qed

end
