(* ===== verification/Replication_Spec.thy ===== *)
theory Replication_Spec
  imports Election_Spec
begin

text \<open>
  The protocol of log replication on top of the election protocol: a leader appends entries of its term to its log and sends parts of the
  log; a follower makes its log agree, acknowledges, and learns what is committed; a leader commits an entry of its term once a majority has
  acknowledged it; a candidate gets the votes of peers whose logs are not ahead. Peers crash and come back with what they saved.
  Every committed prefix is a prefix of the log of every later leader, so no two peers ever commit different entries.
\<close>

section \<open>Logs\<close>

text \<open>A log holds the entries with the indexes \<open>1, 2, \<dots>\<close>.\<close>

definition lterm :: "Entry list \<Rightarrow> nat \<Rightarrow> nat" where
  "lterm L n = (if n = 0 then 0 else e_Term (L ! (n - 1)))"

definition upto :: "Entry list \<Rightarrow> nat \<Rightarrow> bool" where
  "upto L t \<longleftrightarrow> (\<forall>x\<in>set L. e_Term x \<le> t)"

text \<open>\<open>L\<close> is not behind \<open>M\<close>.\<close>

definition current :: "Entry list \<Rightarrow> Entry list \<Rightarrow> bool" where
  "current L M \<longleftrightarrow> lterm M (length M) < lterm L (length L)
     \<or> lterm M (length M) = lterm L (length L) \<and> length M \<le> length L"

definition majority :: "nat set \<Rightarrow> nat set \<Rightarrow> bool" where
  "majority P Q \<longleftrightarrow> Q \<subseteq> P \<and> card P div 2 < card Q"

lemma lterm_take [simp]: "n \<le> k \<Longrightarrow> k \<le> length L \<Longrightarrow> lterm (take k L) n = lterm L n"
  by (simp add: lterm_def)

lemma lterm_append: "n \<le> length L \<Longrightarrow> lterm (L @ M) n = lterm L n"
  by (auto simp: lterm_def nth_append)

lemma lterm_append_new: "length L < n \<Longrightarrow> n \<le> length (L @ M) \<Longrightarrow> \<forall>x\<in>set M. e_Term x = t \<Longrightarrow> lterm (L @ M) n = t"
  by (auto simp: lterm_def nth_append)

lemma lterm_upto: "upto L t \<Longrightarrow> 0 < n \<Longrightarrow> n \<le> length L \<Longrightarrow> lterm L n \<le> t"
  by (simp add: upto_def lterm_def)

lemma lterm_eqI: "take n L = take n M \<Longrightarrow> n \<le> length L \<Longrightarrow> n \<le> length M \<Longrightarrow> k \<le> n \<Longrightarrow> lterm L k = lterm M k"
  by (metis lterm_take)

lemma take_eq_mono: "take n L = take n M \<Longrightarrow> k \<le> n \<Longrightarrow> take k L = take k M"
  by (metis min.absorb2 min.commute take_take)

lemma upto_take: "upto L t \<Longrightarrow> upto (take n L) t"
  by (auto simp: upto_def dest: in_set_takeD)

lemma upto_mono: "upto L t \<Longrightarrow> t \<le> u \<Longrightarrow> upto L u"
  by (auto simp: upto_def)

section \<open>What has happened\<close>

text \<open>
  The terms that have a leader, the log of the leader of every such term (as long as it ever was), who led, the saved terms, and how far
  a peer has saved and may acknowledge the log of the leader of a term.
\<close>

record world =
  w_el :: "nat set"
  w_ll :: "nat \<Rightarrow> Entry list"
  w_led :: "(nat \<times> nat) set"
  w_st :: "nat \<Rightarrow> nat"
  w_pa :: "nat \<Rightarrow> nat \<Rightarrow> nat"

text \<open>The log \<open>L\<close> agrees with the leader of \<open>t\<close> up to \<open>n\<close>; entry \<open>n\<close> was made by the leader of \<open>t\<close>.\<close>

definition has :: "world \<Rightarrow> Entry list \<Rightarrow> nat \<Rightarrow> nat \<Rightarrow> bool" where
  "has W L t n \<longleftrightarrow> n \<le> length L \<and> n \<le> length (w_ll W t) \<and> take n L = take n (w_ll W t)"

definition made :: "world \<Rightarrow> nat \<Rightarrow> nat \<Rightarrow> bool" where
  "made W t n \<longleftrightarrow> t \<in> w_el W \<and> 0 < n \<and> n \<le> length (w_ll W t) \<and> lterm (w_ll W t) n = t"

definition inlog :: "world \<Rightarrow> Entry list \<Rightarrow> bool" where
  "inlog W L \<longleftrightarrow> (\<forall>n. 0 < n \<and> n \<le> length L \<longrightarrow> made W (lterm L n) n \<and> has W L (lterm L n) n)"

text \<open>Entry \<open>n\<close> of the leader of \<open>t\<close> can never be committed any more; it is committed; a prefix of a log is committed.\<close>

definition dead :: "world \<Rightarrow> nat set \<Rightarrow> nat \<Rightarrow> nat \<Rightarrow> bool" where
  "dead W P t n \<longleftrightarrow> (\<exists>Q. majority P Q \<and> (\<forall>j\<in>Q. t < w_st W j \<and> w_pa W j t < n))"

definition comm :: "world \<Rightarrow> nat set \<Rightarrow> nat \<Rightarrow> nat \<Rightarrow> bool" where
  "comm W P t n \<longleftrightarrow> made W t n \<and> (\<exists>Q. majority P Q \<and> (\<forall>j\<in>Q. n \<le> w_pa W j t))"

definition secured :: "world \<Rightarrow> nat set \<Rightarrow> Entry list \<Rightarrow> nat \<Rightarrow> nat \<Rightarrow> bool" where
  "secured W P L c T \<longleftrightarrow> c \<le> length L \<and> (0 < c \<longrightarrow> (\<exists>t n. t \<le> T \<and> comm W P t n \<and> c \<le> n \<and> has W L t c))"

text \<open>What holds of the log, the commit index and the acknowledgements of a peer in term \<open>T\<close>.\<close>

definition overruled :: "world \<Rightarrow> nat \<Rightarrow> nat \<Rightarrow> nat \<Rightarrow> bool" where
  "overruled W T t n \<longleftrightarrow> (\<exists>u\<in>w_el W. t < u \<and> u \<le> T \<and> \<not> has W (w_ll W u) t n)"

definition node_ok :: "world \<Rightarrow> nat set \<Rightarrow> nat \<Rightarrow> Entry list \<Rightarrow> nat \<Rightarrow> (nat \<Rightarrow> nat) \<Rightarrow> bool" where
  "node_ok W P T L c acc \<longleftrightarrow> inlog W L \<and> upto L T \<and> secured W P L c T
     \<and> (\<forall>t. 0 < acc t \<longrightarrow> t \<in> w_el W \<and> t \<le> T \<and> acc t \<le> length (w_ll W t))
     \<and> has W L T (acc T)
     \<and> (\<forall>t n. made W t n \<and> n \<le> acc t \<longrightarrow> has W L t n \<or> overruled W T t n)"

definition world_ok :: "world \<Rightarrow> nat set \<Rightarrow> nat \<Rightarrow> bool" where
  "world_ok W P T0 \<longleftrightarrow> w_el W = insert T0 (snd ` w_led W)
     \<and> (\<forall>(i, t)\<in>w_led W. T0 < t \<and> t \<le> w_st W i \<and> (\<exists>Q. majority P Q \<and> (\<forall>j\<in>Q. t \<le> w_st W j)))
     \<and> (\<forall>i j t. (i, t) \<in> w_led W \<and> (j, t) \<in> w_led W \<longrightarrow> i = j)
     \<and> (\<forall>t\<in>w_el W. inlog W (w_ll W t) \<and> upto (w_ll W t) t)
     \<and> (\<forall>t n u. made W t n \<and> u \<in> w_el W \<and> t < u \<longrightarrow> has W (w_ll W u) t n \<or> dead W P t n)
     \<and> (\<forall>i t. 0 < w_pa W i t \<longrightarrow> t \<in> w_el W \<and> w_pa W i t \<le> length (w_ll W t))"

lemma majorities_meet: "finite P \<Longrightarrow> majority P Q \<Longrightarrow> majority P R \<Longrightarrow> \<exists>j. j \<in> Q \<and> j \<in> R"
  using quorums_meet [of P Q R] by (auto simp: majority_def)

lemma comm_not_dead: "finite P \<Longrightarrow> comm W P t n \<Longrightarrow> \<not> dead W P t n"
  unfolding comm_def dead_def by (meson leD majorities_meet)

lemma has_mono: "has W L t n \<Longrightarrow> k \<le> n \<Longrightarrow> has W L t k"
  by (auto simp: has_def dest: take_eq_mono)

lemma has_0 [simp]: "has W L t 0"
  by (simp add: has_def)

lemma has_self [simp]: "n \<le> length (w_ll W t) \<Longrightarrow> has W (w_ll W t) t n"
  by (simp add: has_def)

lemma has_trans: "has W L u n \<Longrightarrow> has W (w_ll W u) t n \<Longrightarrow> has W L t n"
  by (simp add: has_def)

lemma has_lterm: "has W L t n \<Longrightarrow> k \<le> n \<Longrightarrow> lterm L k = lterm (w_ll W t) k"
  unfolding has_def by (metis lterm_eqI)

lemma inlogD:
  assumes "inlog W L" "0 < n" "n \<le> length L"
  shows "made W (lterm L n) n" "has W L (lterm L n) n"
  using assms by (auto simp: inlog_def)

lemma inlog_take: "inlog W L \<Longrightarrow> inlog W (take n L)"
  unfolding inlog_def
proof (intro allI impI)
  fix k assume a: "\<forall>n. 0 < n \<and> n \<le> length L \<longrightarrow> made W (lterm L n) n \<and> has W L (lterm L n) n" "0 < k \<and> k \<le> length (take n L)"
  then have "made W (lterm L k) k" "has W L (lterm L k) k" by auto
  moreover have "lterm (take n L) k = lterm L k" using a(2) by (auto simp: lterm_def)
  ultimately show "made W (lterm (take n L) k) k \<and> has W (take n L) (lterm (take n L) k) k"
    using a(2) by (auto simp: has_def min_def)
qed

text \<open>Two logs with the same term at an index agree up to it.\<close>

lemma logs_match:
  assumes "inlog W L" "inlog W M" "n \<le> length L" "n \<le> length M" "lterm L n = lterm M n"
  shows "take n L = take n M"
proof (cases "n = 0")
  case False
  then have "has W L (lterm L n) n" "has W M (lterm L n) n" using inlogD(2) [of W L n] inlogD(2) [of W M n] assms by auto
  then show ?thesis by (simp add: has_def)
qed simp

lemma has_by_term:
  assumes "world_ok W P T0" "t \<in> w_el W" "inlog W L" "n \<le> length L" "n \<le> length (w_ll W t)" "lterm L n = lterm (w_ll W t) n"
  shows "has W L t n"
proof -
  have "inlog W (w_ll W t)" using assms(1,2) by (simp add: world_ok_def)
  from logs_match [OF assms(3) this assms(4-6)] show ?thesis using assms(4,5) by (simp add: has_def)
qed

lemma terms_sorted:
  assumes "world_ok W P T0" "inlog W L" "0 < k" "k \<le> n" "n \<le> length L"
  shows "lterm L k \<le> lterm L n"
proof -
  let ?u = "lterm L n"
  have h: "made W ?u n" "has W L ?u n" using inlogD [OF assms(2), of n] assms by auto
  have "upto (w_ll W ?u) ?u" using assms(1) h(1) by (simp add: world_ok_def made_def)
  then have "lterm (w_ll W ?u) k \<le> ?u" using lterm_upto [of "w_ll W ?u" ?u k] assms h by (auto simp: has_def)
  then show ?thesis using has_lterm [OF h(2) assms(4)] by simp
qed

section \<open>Growth\<close>

text \<open>What has happened grows: leaders append entries of their term, new leaders come, peers save.\<close>

definition grow :: "world \<Rightarrow> world \<Rightarrow> bool" where
  "grow W W' \<longleftrightarrow> w_el W \<subseteq> w_el W' \<and> w_led W \<subseteq> w_led W'
     \<and> (\<forall>t\<in>w_el W. \<exists>es. w_ll W' t = w_ll W t @ es \<and> (\<forall>x\<in>set es. e_Term x = t))
     \<and> (\<forall>i. w_st W i \<le> w_st W' i) \<and> (\<forall>i t. w_pa W i t \<le> w_pa W' i t)
     \<and> (\<forall>i t. t < w_st W i \<longrightarrow> w_pa W' i t = w_pa W i t)"

lemma grow_refl [simp]: "grow W W"
  by (simp add: grow_def)

lemma grow_ll:
  assumes "grow W W'" "t \<in> w_el W"
  obtains es where "w_ll W' t = w_ll W t @ es" "\<forall>x\<in>set es. e_Term x = t"
  using assms unfolding grow_def by blast

lemma grow_has: "grow W W' \<Longrightarrow> has W L t n \<Longrightarrow> t \<in> w_el W \<Longrightarrow> has W' L t n"
  by (erule grow_ll, assumption) (auto simp: has_def)

lemma grow_has_ll: "grow W W' \<Longrightarrow> has W (w_ll W u) t n \<Longrightarrow> t \<in> w_el W \<Longrightarrow> u \<in> w_el W \<Longrightarrow> has W' (w_ll W' u) t n"
proof -
  assume g: "grow W W'" "has W (w_ll W u) t n" "t \<in> w_el W" "u \<in> w_el W"
  obtain es where "w_ll W' u = w_ll W u @ es" using grow_ll [OF g(1,4)] by blast
  then show ?thesis using grow_has [OF g(1-3)] by (simp add: has_def)
qed

lemma grow_made: "grow W W' \<Longrightarrow> made W t n \<Longrightarrow> made W' t n"
  unfolding made_def by (metis grow_def grow_ll le_trans length_append le_add1 lterm_append subsetD)

lemma grow_made_back:
  assumes "grow W W'" "made W' t n" "t \<in> w_el W" "n \<le> length (w_ll W t)"
  shows "made W t n"
  using grow_ll [OF assms(1,3)] assms(2-4) by (metis lterm_append made_def)

lemma grow_not_has:
  assumes "grow W W'" "made W t n" "u \<in> w_el W" "t < u" "\<not> has W (w_ll W u) t n"
  shows "\<not> has W' (w_ll W' u) t n"
proof
  assume h: "has W' (w_ll W' u) t n"
  obtain es where es: "w_ll W' t = w_ll W t @ es" using grow_ll [OF assms(1)] assms(2) unfolding made_def by metis
  obtain fs where fs: "w_ll W' u = w_ll W u @ fs" "\<forall>x\<in>set fs. e_Term x = u" using grow_ll [OF assms(1,3)] by blast
  have t: "lterm (w_ll W' u) n = t" using has_lterm [OF h order_refl] grow_made [OF assms(1,2)] by (simp add: made_def)
  have "n \<le> length (w_ll W u)"
  proof (rule ccontr)
    assume "\<not> n \<le> length (w_ll W u)"
    then have "lterm (w_ll W' u) n = u" using h fs lterm_append_new [of "w_ll W u" n fs u] by (simp add: has_def)
    then show False using t assms(4) by simp
  qed
  then have "has W (w_ll W u) t n" using h es fs assms(2) by (simp add: has_def made_def)
  then show False using assms(5) by simp
qed

lemma grow_inlog: "grow W W' \<Longrightarrow> inlog W L \<Longrightarrow> inlog W' L"
  unfolding inlog_def by (meson grow_has grow_made made_def)

lemma grow_dead: "grow W W' \<Longrightarrow> dead W P t n \<Longrightarrow> dead W' P t n"
proof -
  assume g: "grow W W'" and d: "dead W P t n"
  have "w_st W j \<le> w_st W' j \<and> (t < w_st W j \<longrightarrow> w_pa W' j t = w_pa W j t)" for j using g by (simp add: grow_def)
  then show ?thesis using d unfolding dead_def by (metis order_less_le_trans)
qed

lemma grow_comm: "grow W W' \<Longrightarrow> comm W P t n \<Longrightarrow> comm W' P t n"
proof -
  assume g: "grow W W'" and c: "comm W P t n"
  have "w_pa W j t \<le> w_pa W' j t" for j using g by (simp add: grow_def)
  then show ?thesis using c grow_made [OF g] unfolding comm_def by (meson le_trans)
qed

lemma grow_secured: "grow W W' \<Longrightarrow> secured W P L c T \<Longrightarrow> secured W' P L c T"
  unfolding secured_def by (meson comm_def grow_comm grow_has made_def)

lemma grow_overruled: "grow W W' \<Longrightarrow> made W t n \<Longrightarrow> overruled W T t n \<Longrightarrow> overruled W' T t n"
  unfolding overruled_def by (meson grow_def grow_not_has subsetD)

lemma grow_node_ok:
  assumes g: "grow W W'" and ok: "node_ok W P T L c acc"
  shows "node_ok W' P T L c acc"
proof -
  have acc: "0 < acc t \<Longrightarrow> t \<in> w_el W \<and> t \<le> T \<and> acc t \<le> length (w_ll W t)" for t using ok by (simp add: node_ok_def)
  have "t \<in> w_el W' \<and> t \<le> T \<and> acc t \<le> length (w_ll W' t)" if "0 < acc t" for t
    using acc [OF that] grow_ll [OF g, of t] g by (metis grow_def le_trans length_append le_add1 subsetD)
  moreover have "has W' L T (acc T)"
    using ok acc [of T] grow_has [OF g, of L T "acc T"] by (cases "acc T = 0") (auto simp: node_ok_def)
  moreover have "has W' L t n \<or> overruled W' T t n" if "made W' t n" "n \<le> acc t" for t n
  proof -
    have "0 < acc t" using that by (auto simp: made_def)
    then have "made W t n" using acc [of t] that grow_made_back [OF g that(1)] by simp
    then show ?thesis using ok that(2) grow_has [OF g] grow_overruled [OF g] by (metis made_def node_ok_def)
  qed
  ultimately show ?thesis
    using ok grow_inlog [OF g] grow_secured [OF g] by (simp add: node_ok_def)
qed

section \<open>The state of a peer changes\<close>

lemma secured_mono: "secured W P L c T \<Longrightarrow> T \<le> T' \<Longrightarrow> secured W P L c T'"
  unfolding secured_def by (meson le_trans)

lemma secured_later:
  assumes "world_ok W P T0" "comm W P t n" "u \<in> w_el W" "t \<le> u" "finite P"
  shows "has W (w_ll W u) t n"
proof (cases "t = u")
  case False
  then have "made W t n \<and> u \<in> w_el W \<and> t < u" using assms by (simp add: comm_def)
  then have "has W (w_ll W u) t n \<or> dead W P t n" using assms(1) unfolding world_ok_def by blast
  then show ?thesis using comm_not_dead [OF assms(5,2)] by simp
qed (use assms in \<open>simp add: comm_def made_def\<close>)

lemma node_ok_later:
  assumes "node_ok W P T L c acc" "T < T'"
  shows "node_ok W P T' L c acc"
proof -
  have "acc T' = 0" using assms by (metis gr0I leD node_ok_def)
  moreover have "secured W P L c T'" using assms secured_mono [of W P L c T T'] by (simp add: node_ok_def)
  moreover have "overruled W T' t n" if "overruled W T t n" for t n using that assms(2) by (fastforce simp: overruled_def)
  moreover have "upto L T'" using assms upto_mono [of L T T'] by (simp add: node_ok_def)
  ultimately show ?thesis using assms unfolding node_ok_def by (metis has_0 le_trans less_imp_le)
qed

lemma node_ok_commit: "node_ok W P T L c acc \<Longrightarrow> secured W P L c' T \<Longrightarrow> node_ok W P T L c' acc"
  by (simp add: node_ok_def)

lemma node_ok_ack:
  assumes "node_ok W P T L c acc" "has W L T m" "T \<in> w_el W"
  shows "node_ok W P T L c (acc(T := max (acc T) m))"
  using assms has_mono [OF assms(2)] by (auto simp: node_ok_def has_def max_def split: if_splits)

lemma node_ok_replace:
  assumes ok: "node_ok W P T L c acc" and T: "T \<in> w_el W" "m \<le> length (w_ll W T)" and W: "world_ok W P T0"
    and gone: "length L \<le> m \<or> (\<exists>k. 0 < k \<and> k \<le> m \<and> k \<le> length L \<and> lterm L k \<noteq> lterm (w_ll W T) k)"
    and sec: "secured W P (take m (w_ll W T)) c' T"
  shows "node_ok W P T (take m (w_ll W T)) c' (acc(T := max (acc T) m))"
proof -
  let ?L = "take m (w_ll W T)"
  have hasL: "has W ?L T k" if "k \<le> m" for k using that T(2) by (simp add: has_def min_def)
  have within: "n \<le> m" if "has W L t n" "has W (w_ll W T) t n" for t n
    using gone
  proof
    assume "length L \<le> m" then show ?thesis using that by (simp add: has_def)
  next
    assume "\<exists>k. 0 < k \<and> k \<le> m \<and> k \<le> length L \<and> lterm L k \<noteq> lterm (w_ll W T) k"
    then obtain k where "k \<le> m" "lterm L k \<noteq> lterm (w_ll W T) k" by blast
    then show ?thesis using that has_lterm [of W L t n k] has_lterm [of W "w_ll W T" t n k] by fastforce
  qed
  have accT: "acc T \<le> m" using ok T within [of T "acc T"] by (auto simp: node_ok_def has_def)
  have "has W ?L t n \<or> overruled W T t n" if mk: "made W t n" and n: "n \<le> (acc(T := max (acc T) m)) t" for t n
  proof (cases "t = T")
    case True
    then show ?thesis using hasL n accT by simp
  next
    case False
    then have n': "n \<le> acc t" using n by simp
    then have "t < T" using mk ok False by (metis gr0I le_neq_implies_less leD made_def node_ok_def)
    have "has W L t n \<or> overruled W T t n" using ok mk n' by (simp add: node_ok_def)
    then show ?thesis
    proof
      assume h: "has W L t n"
      show ?thesis
      proof (cases "has W (w_ll W T) t n")
        case True
        then have "has W ?L t n" using within [OF h True] has_trans [OF hasL] by blast
        then show ?thesis ..
      qed (use \<open>t < T\<close> T(1) in \<open>auto simp: overruled_def\<close>)
    qed simp
  qed
  moreover have "inlog W ?L" "upto ?L T" using W T(1) inlog_take upto_take by (auto simp: world_ok_def)
  ultimately show ?thesis
    using ok sec T accT hasL [of m] by (auto simp: node_ok_def max_def)
qed

lemma secured_take:
  assumes "secured W P (w_ll W T) c T" "has W L T m" "c' \<le> c" "c' \<le> m"
  shows "secured W P L c' T"
proof -
  have "has W L T c'" using has_mono [OF assms(2,4)] .
  then have "\<exists>t n. t \<le> T \<and> comm W P t n \<and> c' \<le> n \<and> has W L t c'" if "0 < c'"
    using assms(1,3) that unfolding secured_def by (metis has_mono has_trans le_trans less_le_trans)
  then show ?thesis using assms(2,4) by (auto simp: secured_def has_def)
qed

lemma secured_lead:
  assumes "secured W P L c T'" "T' \<le> T" "T \<in> w_el W" "world_ok W P T0" "finite P"
  shows "has W L T c"
proof (cases "c = 0")
  case False
  then obtain t n where t: "t \<le> T'" "comm W P t n" "c \<le> n" "has W L t c" using assms(1) by (auto simp: secured_def)
  have "has W (w_ll W T) t n" using secured_later [OF assms(4) t(2) assms(3) _ assms(5)] t(1) assms(2) by simp
  then have "has W (w_ll W T) t c" using t(3) has_mono by blast
  then show ?thesis using t(4) by (simp add: has_def)
qed simp

lemma secured_max: "secured W P L c T \<Longrightarrow> secured W P L c' T \<Longrightarrow> secured W P L (max c c') T"
  by (simp add: max_def)

section \<open>The protocol of one peer\<close>

record lpeer =
  lp_log :: "Entry list"
  lp_commit :: nat
  lp_match :: "nat \<Rightarrow> nat"
  lp_acc :: "nat \<Rightarrow> nat"

text \<open>
  \<open>Claim i t L\<close> goes with a request for votes: the log of the candidate. \<open>App i t k u es c\<close>: the leader \<open>i\<close> of \<open>t\<close> sends the entries after
  index \<open>k\<close>, of term \<open>u\<close>, with its commit index. \<open>Ack j t n\<close>: \<open>j\<close> agrees with the leader of \<open>t\<close> up to \<open>n\<close>. \<open>Beat i j t c\<close>: a heartbeat for \<open>j\<close>
  with a commit index. \<open>Snap i t L\<close>: a snapshot of the state after the entries \<open>L\<close>.
\<close>

datatype lmsg =
    Claim nat nat "Entry list"
  | App nat nat nat nat "Entry list" nat
  | Ack nat nat nat
  | Beat nat nat nat nat
  | Snap nat nat "Entry list"

type_synonym lnode = "epeer \<times> emsg set \<times> lpeer \<times> lmsg set"

definition acked :: "nat \<Rightarrow> nat \<Rightarrow> lpeer \<Rightarrow> lpeer" where
  "acked t n q = q\<lparr>lp_acc := (lp_acc q)(t := max (lp_acc q t) n)\<rparr>"

inductive lstep :: "nat set \<Rightarrow> nat \<Rightarrow> emsg set \<Rightarrow> lmsg set \<Rightarrow> lnode \<Rightarrow> lnode \<Rightarrow> bool"
  for P i H M where
  adopt: "ep_term p < t \<Longrightarrow>
    lstep P i H M (p, eo, q, lo) (\<lparr>ep_term = t, ep_vote = 0, ep_role = StateFollower, ep_yes = {}\<rparr>, eo, q, lo)"
| stepdown: "lstep P i H M (p, eo, q, lo) (p\<lparr>ep_role := StateFollower, ep_yes := {}\<rparr>, eo, q, lo)"
| grant: "Ask c (ep_term p) \<in> H \<Longrightarrow> Claim c (ep_term p) L \<in> M \<Longrightarrow> current L (lp_log q) \<Longrightarrow> c \<noteq> 0 \<Longrightarrow> ep_vote p = 0 \<or> ep_vote p = c \<Longrightarrow>
    lstep P i H M (p, eo, q, lo) (p\<lparr>ep_vote := c\<rparr>, insert (Grant i c (ep_term p)) eo, q, lo)"
| campaign: "lstep P i H M (p, eo, q, lo)
    (\<lparr>ep_term = ep_term p + 1, ep_vote = i, ep_role = StateCandidate, ep_yes = {i}\<rparr>, eo, q, lo)"
| ask: "ep_role p = StateCandidate \<Longrightarrow>
    lstep P i H M (p, eo, q, lo) (p, insert (Ask i (ep_term p)) eo, q, insert (Claim i (ep_term p) (lp_log q)) lo)"
| count: "Grant j i (ep_term p) \<in> H \<Longrightarrow> ep_role p = StateCandidate \<Longrightarrow> j \<in> P \<Longrightarrow>
    lstep P i H M (p, eo, q, lo) (p\<lparr>ep_yes := insert j (ep_yes p)\<rparr>, eo, q, lo)"
| win: "ep_role p = StateCandidate \<Longrightarrow> card P div 2 < card (ep_yes p) \<Longrightarrow>
    lstep P i H M (p, eo, q, lo) (p\<lparr>ep_role := StateLeader, ep_yes := {}\<rparr>, eo,
      (acked (ep_term p) (length (lp_log q)) q)\<lparr>lp_match := (\<lambda>_. 0)\<rparr>, lo)"
| append: "ep_role p = StateLeader \<Longrightarrow> \<forall>x\<in>set es. e_Term x = ep_term p \<Longrightarrow>
    lstep P i H M (p, eo, q, lo) (p, eo, acked (ep_term p) (length (lp_log q @ es)) (q\<lparr>lp_log := lp_log q @ es\<rparr>), lo)"
| learn: "ep_role p = StateLeader \<Longrightarrow> Ack j (ep_term p) n \<in> M \<Longrightarrow>
    lstep P i H M (p, eo, q, lo) (p, eo, q\<lparr>lp_match := (lp_match q)(j := max (lp_match q j) n)\<rparr>, lo)"
| commit: "ep_role p = StateLeader \<Longrightarrow> 0 < n \<Longrightarrow> n \<le> length (lp_log q) \<Longrightarrow> lterm (lp_log q) n = ep_term p \<Longrightarrow>
    majority P Q \<Longrightarrow> \<forall>j\<in>Q. j = i \<or> n \<le> lp_match q j \<Longrightarrow>
    lstep P i H M (p, eo, q, lo) (p, eo, q\<lparr>lp_commit := max (lp_commit q) n\<rparr>, lo)"
| replicate: "ep_role p = StateLeader \<Longrightarrow> k \<le> length (lp_log q) \<Longrightarrow>
    lstep P i H M (p, eo, q, lo)
      (p, eo, q, insert (App i (ep_term p) k (lterm (lp_log q) k) (drop k (lp_log q)) (lp_commit q)) lo)"
| beat: "ep_role p = StateLeader \<Longrightarrow> c \<le> lp_match q j \<Longrightarrow> c \<le> lp_commit q \<Longrightarrow> j \<noteq> i \<Longrightarrow>
    lstep P i H M (p, eo, q, lo) (p, eo, q, insert (Beat i j (ep_term p) c) lo)"
| snap: "ep_role p = StateLeader \<Longrightarrow> n \<le> lp_commit q \<Longrightarrow>
    lstep P i H M (p, eo, q, lo) (p, eo, q, insert (Snap i (ep_term p) (take n (lp_log q))) lo)"
| keep: "ep_role p = StateFollower \<Longrightarrow> App l (ep_term p) k (lterm (lp_log q) k) es c \<in> M \<Longrightarrow> k + length es \<le> length (lp_log q) \<Longrightarrow>
    \<forall>j<length es. e_Term (lp_log q ! (k + j)) = e_Term (es ! j) \<Longrightarrow>
    lstep P i H M (p, eo, q, lo)
      (p, eo, acked (ep_term p) (k + length es) (q\<lparr>lp_commit := max (lp_commit q) (min c (k + length es))\<rparr>),
       insert (Ack i (ep_term p) (k + length es)) lo)"
| splice: "ep_role p = StateFollower \<Longrightarrow> App l (ep_term p) k (lterm (lp_log q) k) es c \<in> M \<Longrightarrow> d < length es \<Longrightarrow>
    k + d \<le> length (lp_log q) \<Longrightarrow> \<forall>j<d. e_Term (lp_log q ! (k + j)) = e_Term (es ! j) \<Longrightarrow>
    k + d = length (lp_log q) \<or> e_Term (lp_log q ! (k + d)) \<noteq> e_Term (es ! d) \<Longrightarrow> lp_commit q \<le> k + d \<Longrightarrow>
    lstep P i H M (p, eo, q, lo)
      (p, eo, acked (ep_term p) (k + length es)
         (q\<lparr>lp_log := take (k + d) (lp_log q) @ drop d es, lp_commit := max (lp_commit q) (min c (k + length es))\<rparr>),
       insert (Ack i (ep_term p) (k + length es)) lo)"
| behind: "ep_role p = StateFollower \<Longrightarrow> (\<exists>l k u es c. App l (ep_term p) k u es c \<in> M) \<or> (\<exists>l L. Snap l (ep_term p) L \<in> M) \<Longrightarrow>
    lstep P i H M (p, eo, q, lo) (p, eo, acked (ep_term p) (lp_commit q) q, insert (Ack i (ep_term p) (lp_commit q)) lo)"
| heed: "ep_role p = StateFollower \<Longrightarrow> Beat l i (ep_term p) c \<in> M \<Longrightarrow>
    lstep P i H M (p, eo, q, lo) (p, eo, q\<lparr>lp_commit := max (lp_commit q) c\<rparr>, lo)"
| confirm: "ep_role p = StateFollower \<Longrightarrow> Snap l (ep_term p) L \<in> M \<Longrightarrow> length L \<le> length (lp_log q) \<Longrightarrow>
    lterm (lp_log q) (length L) = lterm L (length L) \<Longrightarrow>
    lstep P i H M (p, eo, q, lo)
      (p, eo, acked (ep_term p) (length L) (q\<lparr>lp_commit := max (lp_commit q) (length L)\<rparr>), insert (Ack i (ep_term p) (length L)) lo)"
| install: "ep_role p = StateFollower \<Longrightarrow> Snap l (ep_term p) L \<in> M \<Longrightarrow> lp_commit q < length L \<Longrightarrow>
    length (lp_log q) < length L \<or> lterm (lp_log q) (length L) \<noteq> lterm L (length L) \<Longrightarrow>
    lstep P i H M (p, eo, q, lo)
      (p, eo, acked (ep_term p) (length L) (q\<lparr>lp_log := L, lp_commit := length L\<rparr>), insert (Ack i (ep_term p) (length L)) lo)"

abbreviation lsteps :: "nat set \<Rightarrow> nat \<Rightarrow> emsg set \<Rightarrow> lmsg set \<Rightarrow> lnode \<Rightarrow> lnode \<Rightarrow> bool" where
  "lsteps P i H M \<equiv> (lstep P i H M)\<^sup>*\<^sup>*"

text \<open>Seen by the election protocol, a step is one of its steps or none.\<close>

lemma lstep_estep:
  "lstep P i H M (p, eo, q, lo) (p', eo', q', lo') \<Longrightarrow> estep P i H (p, eo) (p', eo') \<or> (p', eo') = (p, eo)"
  by (erule lstep.cases) (auto intro: estep.intros estep.campaign [simplified])

end
