(* ===== verification/Replication.thy ===== *)
theory Replication
  imports Replication_Spec
begin

text \<open>
  The system of peers that run the replication protocol, its invariant, and what follows from it: logs that agree on the term of an entry agree up to
  it, a committed prefix is in the log of every later leader, and peers never commit different entries.
\<close>

section \<open>The system\<close>

text \<open>
  \<open>lr_slog\<close>, \<open>lr_scommit\<close> and \<open>lr_pacc\<close> are what a peer has saved; \<open>lr_el\<close> and \<open>lr_ll\<close> remember the terms with a leader and the leaders' logs.
\<close>

record lsys =
  lr_e :: esys
  lr_q :: "nat \<Rightarrow> lpeer"
  lr_lo :: "nat \<Rightarrow> lmsg set"
  lr_net :: "lmsg set"
  lr_slog :: "nat \<Rightarrow> Entry list"
  lr_scommit :: "nat \<Rightarrow> nat"
  lr_pacc :: "nat \<Rightarrow> nat \<Rightarrow> nat"
  lr_el :: "nat set"
  lr_ll :: "nat \<Rightarrow> Entry list"

definition lnode_of :: "lsys \<Rightarrow> nat \<Rightarrow> lnode" where
  "lnode_of s i = (es_peer (lr_e s) i, es_out (lr_e s) i, lr_q s i, lr_lo s i)"

definition lact :: "nat \<Rightarrow> lnode \<Rightarrow> lsys \<Rightarrow> lsys" where
  "lact i x s = (case x of (p, eo, q, lo) \<Rightarrow>
     s\<lparr>lr_e := eact i p eo (lr_e s), lr_q := (lr_q s)(i := q), lr_lo := (lr_lo s)(i := lo),
       lr_el := (if ep_role p = StateLeader then insert (ep_term p) (lr_el s) else lr_el s),
       lr_ll := (if ep_role p = StateLeader then (lr_ll s)(ep_term p := lp_log q) else lr_ll s)\<rparr>)"

definition lflush :: "nat \<Rightarrow> lsys \<Rightarrow> lsys" where
  "lflush i s = s\<lparr>lr_e := eflush i (lr_e s), lr_net := lr_net s \<union> lr_lo s i, lr_lo := (lr_lo s)(i := {}),
     lr_slog := (lr_slog s)(i := lp_log (lr_q s i)), lr_scommit := (lr_scommit s)(i := lp_commit (lr_q s i)),
     lr_pacc := (lr_pacc s)(i := lp_acc (lr_q s i))\<rparr>"

definition lrestart :: "nat \<Rightarrow> lsys \<Rightarrow> lsys" where
  "lrestart i s = s\<lparr>lr_e := erestart i (lr_e s), lr_lo := (lr_lo s)(i := {}),
     lr_q := (lr_q s)(i := \<lparr>lp_log = lr_slog s i, lp_commit = lr_scommit s i, lp_match = (\<lambda>_. 0), lp_acc = lr_pacc s i\<rparr>)\<rparr>"

text \<open>All peers start with the same committed log, of one term, and saved terms that are not before it.\<close>

definition first_acc :: "nat \<Rightarrow> Entry list \<Rightarrow> nat \<Rightarrow> nat" where
  "first_acc T0 D t = (if t = T0 then length D else 0)"

definition lstart :: "nat \<Rightarrow> Entry list \<Rightarrow> (nat \<Rightarrow> nat \<times> nat) \<Rightarrow> lsys" where
  "lstart T0 D sv = \<lparr>lr_e = estart sv,
     lr_q = (\<lambda>_. \<lparr>lp_log = D, lp_commit = length D, lp_match = (\<lambda>_. 0), lp_acc = first_acc T0 D\<rparr>),
     lr_lo = (\<lambda>_. {}), lr_net = {}, lr_slog = (\<lambda>_. D), lr_scommit = (\<lambda>_. length D), lr_pacc = (\<lambda>_. first_acc T0 D),
     lr_el = {T0}, lr_ll = (\<lambda>t. if t = T0 then D else [])\<rparr>"

inductive lreach :: "nat set \<Rightarrow> nat \<Rightarrow> Entry list \<Rightarrow> lsys \<Rightarrow> bool" for P T0 D where
  start: "(\<And>i. T0 \<le> fst (sv i)) \<Longrightarrow> lreach P T0 D (lstart T0 D sv)"
| act: "lreach P T0 D s \<Longrightarrow> i \<in> P \<Longrightarrow> lstep P i (es_net (lr_e s)) (lr_net s) (lnode_of s i) x \<Longrightarrow> lreach P T0 D (lact i x s)"
| flush: "lreach P T0 D s \<Longrightarrow> i \<in> P \<Longrightarrow> lreach P T0 D (lflush i s)"
| restart: "lreach P T0 D s \<Longrightarrow> i \<in> P \<Longrightarrow> lreach P T0 D (lrestart i s)"

definition world_of :: "lsys \<Rightarrow> world" where
  "world_of s = \<lparr>w_el = lr_el s, w_ll = lr_ll s, w_led = es_led (lr_e s), w_st = (\<lambda>i. fst (es_saved (lr_e s) i)), w_pa = lr_pacc s\<rparr>"

section \<open>The invariant\<close>

fun lmsg_from :: "lmsg \<Rightarrow> nat" where
  "lmsg_from (Claim i t L) = i"
| "lmsg_from (App i t k u es c) = i"
| "lmsg_from (Ack i t n) = i"
| "lmsg_from (Beat i j t c) = i"
| "lmsg_from (Snap i t L) = i"

fun lmsg_true :: "world \<Rightarrow> nat set \<Rightarrow> (nat \<Rightarrow> nat) \<Rightarrow> lmsg \<Rightarrow> bool" where
  "lmsg_true W P A (Claim i t L) = True"
| "lmsg_true W P A (App i t k u es c) \<longleftrightarrow> (i, t) \<in> w_led W \<and> k + length es \<le> A t \<and> k + length es \<le> length (w_ll W t)
     \<and> u = lterm (w_ll W t) k \<and> es = take (length es) (drop k (w_ll W t)) \<and> secured W P (w_ll W t) c t"
| "lmsg_true W P A (Ack i t n) \<longleftrightarrow> n \<le> A t"
| "lmsg_true W P A (Beat i j t c) \<longleftrightarrow> (i, t) \<in> w_led W \<and> c \<le> w_pa W j t \<and> secured W P (w_ll W t) c t"
| "lmsg_true W P A (Snap i t L) \<longleftrightarrow> (i, t) \<in> w_led W \<and> length L \<le> A t \<and> has W L t (length L) \<and> secured W P (w_ll W t) (length L) t"

text \<open>A peer that votes for \<open>L\<close> in term \<open>T\<close> has acknowledged nothing that \<open>L\<close> lacks and that may still be committed.\<close>

definition vsafe :: "world \<Rightarrow> nat set \<Rightarrow> nat \<Rightarrow> Entry list \<Rightarrow> (nat \<Rightarrow> nat) \<Rightarrow> bool" where
  "vsafe W P T L acc \<longleftrightarrow> (\<forall>t n. t < T \<and> made W t n \<and> n \<le> acc t \<longrightarrow> has W L t n \<or> dead W P t n)"

definition held :: "world \<Rightarrow> nat set \<Rightarrow> nat \<Rightarrow> nat \<Rightarrow> epeer \<Rightarrow> lpeer \<Rightarrow> bool" where
  "held W P T0 i p q \<longleftrightarrow> node_ok W P (ep_term p) (lp_log q) (lp_commit q) (lp_acc q)
     \<and> T0 \<le> ep_term p \<and> (ep_role p \<noteq> StateFollower \<longrightarrow> T0 < ep_term p)
     \<and> (\<forall>t. w_pa W i t \<le> lp_acc q t) \<and> (\<forall>t < w_st W i. lp_acc q t = w_pa W i t) \<and> w_st W i \<le> ep_term p
     \<and> (\<forall>l t n. (l, t) \<in> w_led W \<and> l \<noteq> i \<and> made W t n \<and> n \<le> lp_acc q t \<longrightarrow> n \<le> w_pa W l t)"

definition roles :: "world \<Rightarrow> emsg set \<Rightarrow> nat \<Rightarrow> epeer \<Rightarrow> lpeer \<Rightarrow> bool" where
  "roles W H i p q \<longleftrightarrow>
     (ep_role p = StateLeader \<longrightarrow> (i, ep_term p) \<in> w_led W \<and> lp_log q = w_ll W (ep_term p) \<and> lp_acc q (ep_term p) = length (lp_log q)
        \<and> (\<forall>j. j \<noteq> i \<longrightarrow> lp_match q j \<le> w_pa W j (ep_term p)))
     \<and> (\<forall>t. (i, t) \<in> w_led W \<longrightarrow> t \<le> ep_term p \<and> (t = ep_term p \<longrightarrow> ep_role p \<noteq> StateCandidate))
     \<and> (ep_role p = StateCandidate \<longrightarrow> (\<forall>x\<in>set (lp_log q). e_Term x < ep_term p) \<and> (\<forall>j\<in>ep_yes p. j \<noteq> i \<longrightarrow> Grant j i (ep_term p) \<in> H))"

definition claims :: "world \<Rightarrow> lmsg set \<Rightarrow> nat \<Rightarrow> epeer \<Rightarrow> lpeer \<Rightarrow> lmsg set \<Rightarrow> bool" where
  "claims W M i p q lo \<longleftrightarrow>
     (\<forall>t L. Claim i t L \<in> M \<union> lo \<longrightarrow> t \<le> ep_term p \<and> (t = ep_term p \<and> ep_role p = StateCandidate \<longrightarrow> L = lp_log q)
        \<and> inlog W L \<and> (\<forall>x\<in>set L. e_Term x < t))
     \<and> (\<forall>t L L'. Claim i t L \<in> M \<union> lo \<and> Claim i t L' \<in> M \<union> lo \<longrightarrow> L = L')
     \<and> (\<forall>t L. Claim i t L \<in> M \<longrightarrow> t \<le> w_st W i)"

definition grants :: "world \<Rightarrow> nat set \<Rightarrow> lmsg set \<Rightarrow> emsg set \<Rightarrow> nat \<Rightarrow> epeer \<Rightarrow> lpeer \<Rightarrow> emsg set \<Rightarrow> bool" where
  "grants W P M H i p q eo \<longleftrightarrow>
     (\<forall>c t. Grant i c t \<in> H \<union> eo \<longrightarrow> t \<le> ep_term p \<and> (\<exists>L. Claim c t L \<in> M \<and> vsafe W P t L (lp_acc q)))"

definition sent :: "world \<Rightarrow> nat set \<Rightarrow> nat \<Rightarrow> lpeer \<Rightarrow> lmsg set \<Rightarrow> bool" where
  "sent W P i q lo \<longleftrightarrow> (\<forall>m\<in>lo. lmsg_from m = i \<and> lmsg_true W P (lp_acc q) m)"

definition node_inv :: "world \<Rightarrow> nat set \<Rightarrow> nat \<Rightarrow> lmsg set \<Rightarrow> emsg set \<Rightarrow> nat \<Rightarrow> lnode \<Rightarrow> bool" where
  "node_inv W P T0 M H i x \<longleftrightarrow> (case x of (p, eo, q, lo) \<Rightarrow>
     held W P T0 i p q \<and> roles W H i p q \<and> claims W M i p q lo \<and> grants W P M H i p q eo \<and> sent W P i q lo)"

definition saved_ok :: "world \<Rightarrow> nat set \<Rightarrow> nat \<Rightarrow> lsys \<Rightarrow> nat \<Rightarrow> bool" where
  "saved_ok W P T0 s i \<longleftrightarrow> node_ok W P (w_st W i) (lr_slog s i) (lr_scommit s i) (w_pa W i) \<and> T0 \<le> w_st W i"

definition linv :: "nat set \<Rightarrow> nat \<Rightarrow> lsys \<Rightarrow> bool" where
  "linv P T0 s \<longleftrightarrow> ereach P (lr_e s) \<and> world_ok (world_of s) P T0
     \<and> (\<forall>i. node_inv (world_of s) P T0 (lr_net s) (es_net (lr_e s)) i (lnode_of s i))
     \<and> (\<forall>i. saved_ok (world_of s) P T0 s i)
     \<and> (\<forall>m\<in>lr_net s. lmsg_true (world_of s) P (w_pa (world_of s) (lmsg_from m)) m)"

section \<open>Growth keeps it\<close>

lemma grow_secured_ll: "grow W W' \<Longrightarrow> secured W P (w_ll W u) c T \<Longrightarrow> u \<in> w_el W \<Longrightarrow> secured W' P (w_ll W' u) c T"
proof -
  assume g: "grow W W'" and s: "secured W P (w_ll W u) c T" and u: "u \<in> w_el W"
  obtain es where es: "w_ll W' u = w_ll W u @ es" using grow_ll [OF g u] by blast
  have "has W' (w_ll W' u) t c" if "comm W P t n" "has W (w_ll W u) t c" for t n
    using that grow_has_ll [OF g _ _ u] by (simp add: comm_def made_def)
  then show ?thesis using s es grow_comm [OF g] unfolding secured_def
    by (metis le_add1 le_trans length_append)
qed

lemma grow_msg:
  assumes g: "grow W W'" and m: "lmsg_true W P A m" and A: "\<And>t. A t \<le> A' t" and el: "snd ` w_led W \<subseteq> w_el W"
  shows "lmsg_true W' P A' m"
proof (cases m)
  case (App i t k u es c)
  then have t: "t \<in> w_el W" "(i, t) \<in> w_led W'" using m el g by (auto simp: grow_def)
  obtain fs where fs: "w_ll W' t = w_ll W t @ fs" using grow_ll [OF g t(1)] by blast
  show ?thesis using m App t fs grow_secured_ll [OF g _ t(1)] le_trans [OF _ A [of t]] by (auto simp: lterm_append)
next
  case (Beat i j t c)
  then have t: "t \<in> w_el W" "(i, t) \<in> w_led W'" using m el g by (auto simp: grow_def)
  moreover have "w_pa W j t \<le> w_pa W' j t" using g by (simp add: grow_def)
  ultimately show ?thesis using m Beat grow_secured_ll [OF g _ t(1)] by auto
next
  case (Snap i t L)
  then have t: "t \<in> w_el W" "(i, t) \<in> w_led W'" using m el g by (auto simp: grow_def)
  then show ?thesis using m Snap grow_secured_ll [OF g _ t(1)] grow_has [OF g _ t(1)] le_trans [OF _ A [of t]] by auto
next
  case (Ack i t n)
  then show ?thesis using m le_trans [OF _ A [of t]] by simp
qed (use m in simp)

lemma grow_vsafe:
  assumes g: "grow W W'" and v: "vsafe W P T L acc" and acc: "\<And>t. 0 < acc t \<Longrightarrow> t \<in> w_el W \<and> acc t \<le> length (w_ll W t)"
  shows "vsafe W' P T L acc"
  unfolding vsafe_def
proof (intro allI impI)
  fix t n assume h: "t < T \<and> made W' t n \<and> n \<le> acc t"
  then have "0 < acc t" by (auto simp: made_def)
  then have "made W t n" using acc h grow_made_back [OF g] by (metis le_trans)
  then show "has W' L t n \<or> dead W' P t n" using v h grow_has [OF g] grow_dead [OF g] unfolding vsafe_def made_def by metis
qed

text \<open>A peer that does nothing while others act.\<close>

lemma grow_node_inv:
  assumes inv: "node_inv W P T0 M H i (p, eo, q, lo)" and g: "grow W W'" and el: "snd ` w_led W \<subseteq> w_el W"
    and own: "w_pa W' i = w_pa W i" "w_st W' i = w_st W i" "\<And>t. (i, t) \<in> w_led W' \<Longrightarrow> (i, t) \<in> w_led W"
      "ep_role p = StateLeader \<Longrightarrow> w_ll W' (ep_term p) = w_ll W (ep_term p)"
    and led: "\<And>l t. (l, t) \<in> w_led W' \<Longrightarrow> t \<in> w_el W \<Longrightarrow> (l, t) \<in> w_led W"
    and M: "M \<subseteq> M'" "\<And>t L. Claim i t L \<in> M' \<Longrightarrow> Claim i t L \<in> M" and H: "H \<subseteq> H'" "\<And>c t. Grant i c t \<in> H' \<Longrightarrow> Grant i c t \<in> H"
  shows "node_inv W' P T0 M' H' i (p, eo, q, lo)"
proof -
  have h: "held W P T0 i p q" "roles W H i p q" "claims W M i p q lo" "grants W P M H i p q eo" "sent W P i q lo"
    using inv by (simp_all add: node_inv_def)
  have acc: "0 < lp_acc q t \<Longrightarrow> t \<in> w_el W \<and> lp_acc q t \<le> length (w_ll W t)" for t using h(1) by (simp add: held_def node_ok_def)
  have pa: "w_pa W j t \<le> w_pa W' j t" for j t using g by (simp add: grow_def)
  have "n \<le> w_pa W' l t" if "(l, t) \<in> w_led W'" "l \<noteq> i" "made W' t n" "n \<le> lp_acc q t" for l t n
  proof -
    have "0 < lp_acc q t" using that by (auto simp: made_def)
    then have t: "t \<in> w_el W" "made W t n" using acc [of t] grow_made_back [OF g that(3)] that(4) by auto
    have "n \<le> w_pa W l t" using h(1) led [OF that(1) t(1)] that(2,4) t(2) unfolding held_def by blast
    then show ?thesis using pa le_trans by blast
  qed
  then have "held W' P T0 i p q" using h(1) grow_node_ok [OF g] own(1,2) by (simp add: held_def)
  moreover have "roles W' H' i p q"
  proof -
    have "w_led W \<subseteq> w_led W'" using g by (simp add: grow_def)
    moreover have "lp_match q j \<le> w_pa W' j (ep_term p)" if "lp_match q j \<le> w_pa W j (ep_term p)" for j using that pa le_trans by blast
    ultimately show ?thesis using h(2) own(3,4) H(1) unfolding roles_def by (auto dest: own(3))
  qed
  moreover have "claims W' M' i p q lo"
  proof -
    have eq: "Claim i t L \<in> M' \<union> lo \<longleftrightarrow> Claim i t L \<in> M \<union> lo" for t L using M by blast
    show ?thesis using h(3) M(2) grow_inlog [OF g] unfolding claims_def eq own(2) by fast
  qed
  moreover have "grants W' P M' H' i p q eo"
    unfolding grants_def
  proof (intro allI impI)
    fix c t assume "Grant i c t \<in> H' \<union> eo"
    then have "Grant i c t \<in> H \<union> eo" using H(2) by blast
    then obtain L where "t \<le> ep_term p" "Claim c t L \<in> M" "vsafe W P t L (lp_acc q)" using h(4) unfolding grants_def by blast
    then show "t \<le> ep_term p \<and> (\<exists>L. Claim c t L \<in> M' \<and> vsafe W' P t L (lp_acc q))" using grow_vsafe [OF g _ acc] M(1) by blast
  qed
  moreover have "sent W' P i q lo" using h(5) grow_msg [OF g _ order_refl el] by (simp add: sent_def)
  ultimately show ?thesis by (simp add: node_inv_def)
qed

section \<open>Steps that leave the leaders as they are\<close>

lemma acked_fields [simp]:
  "lp_log (acked t n q) = lp_log q" "lp_commit (acked t n q) = lp_commit q" "lp_match (acked t n q) = lp_match q"
  "lp_acc (acked t n q) = (lp_acc q)(t := max (lp_acc q t) n)"
  by (simp_all add: acked_def)

lemma vsafe_ack: "t \<le> T \<Longrightarrow> vsafe W P t L (acc(T := x)) \<longleftrightarrow> vsafe W P t L acc"
  unfolding vsafe_def by (metis fun_upd_other leD)

lemma grants_ack: "grants W P M H i p q eo \<Longrightarrow> lp_acc q' = (lp_acc q)(ep_term p := x) \<Longrightarrow> grants W P M H i p q' eo"
  unfolding grants_def by (metis vsafe_ack)

lemma sent_ack:
  assumes "sent W P i q lo" "\<And>t. lp_acc q t \<le> lp_acc q' t" "snd ` w_led W \<subseteq> w_el W"
  shows "sent W P i q' lo"
  using assms(1) grow_msg [OF grow_refl _ assms(2,3)] by (simp add: sent_def)

lemma world_led: "world_ok W P T0 \<Longrightarrow> snd ` w_led W \<subseteq> w_el W"
  by (auto simp: world_ok_def)

lemma led_same: "world_ok W P T0 \<Longrightarrow> (i, t) \<in> w_led W \<Longrightarrow> (j, t) \<in> w_led W \<Longrightarrow> i = j"
  unfolding world_ok_def by blast

text \<open>A follower takes over a log and a commit index and acknowledges.\<close>

lemma receive_inv:
  assumes inv: "node_inv W P T0 M H i (p, eo, q, lo)" and W: "world_ok W P T0" and role: "ep_role p = StateFollower"
    and lead: "(l, ep_term p) \<in> w_led W"
    and ok: "node_ok W P (ep_term p) L c ((lp_acc q)(ep_term p := max (lp_acc q (ep_term p)) m))"
    and behind: "\<And>n. l \<noteq> i \<Longrightarrow> made W (ep_term p) n \<Longrightarrow> n \<le> m \<Longrightarrow> n \<le> w_pa W l (ep_term p)"
  shows "node_inv W P T0 M H i (p, eo, acked (ep_term p) m (q\<lparr>lp_log := L, lp_commit := c\<rparr>), insert (Ack i (ep_term p) m) lo)"
proof -
  let ?T = "ep_term p" and ?q = "acked (ep_term p) m (q\<lparr>lp_log := L, lp_commit := c\<rparr>)"
  have h: "held W P T0 i p q" "roles W H i p q" "claims W M i p q lo" "grants W P M H i p q eo" "sent W P i q lo"
    using inv by (simp_all add: node_inv_def)
  have le: "lp_acc q t \<le> lp_acc ?q t" for t by simp
  have pa: "w_pa W i t \<le> lp_acc ?q t" for t using h(1) le [of t] unfolding held_def by (meson le_trans)
  have frozen: "lp_acc ?q t = w_pa W i t" if "t < w_st W i" for t
  proof -
    have "t \<noteq> ?T" using that h(1) by (auto simp: held_def)
    then show ?thesis using that h(1) by (simp add: held_def)
  qed
  have E: "n \<le> w_pa W k t" if "(k, t) \<in> w_led W" "k \<noteq> i" "made W t n" "n \<le> lp_acc ?q t" for k t n
  proof (cases "t = ?T \<and> lp_acc q ?T < n")
    case True
    then have "n \<le> m" "k = l" using that led_same [OF W that(1)] lead by auto
    then show ?thesis using behind [of n] that True by simp
  next
    case False
    then have "n \<le> lp_acc q t" using that(4) by (auto split: if_splits)
    then show ?thesis using that h(1) unfolding held_def by blast
  qed
  have "held W P T0 i p ?q" using h(1) ok pa frozen E role by (simp add: held_def)
  moreover have "roles W H i p ?q" using h(2) role by (simp add: roles_def)
  moreover have "claims W M i p ?q (insert (Ack i ?T m) lo)" using h(3) role by (simp add: claims_def)
  moreover have "grants W P M H i p ?q eo" by (rule grants_ack [OF h(4)]) simp
  moreover have "sent W P i ?q (insert (Ack i ?T m) lo)"
    using sent_ack [OF h(5) le world_led [OF W]] by (simp add: sent_def)
  ultimately show ?thesis by (simp add: node_inv_def)
qed

text \<open>What the peers around know: their messages are true, and acknowledged entries of a leader are saved by it.\<close>

definition around :: "world \<Rightarrow> nat set \<Rightarrow> lmsg set \<Rightarrow> bool" where
  "around W P M \<longleftrightarrow> (\<forall>m\<in>M. lmsg_true W P (w_pa W (lmsg_from m)) m)
     \<and> (\<forall>c t L. Claim c t L \<in> M \<longrightarrow> inlog W L \<and> (\<forall>x\<in>set L. e_Term x < t))
     \<and> (\<forall>l t j n. (l, t) \<in> w_led W \<and> l \<noteq> j \<and> made W t n \<and> n \<le> w_pa W j t \<longrightarrow> n \<le> w_pa W l t)"

lemma leader_saved:
  assumes "around W P M" "(l, t) \<in> w_led W" "made W t n" "n \<le> w_pa W j t"
  shows "n \<le> w_pa W l t"
proof (cases "l = j")
  case False
  have "\<forall>l t j n. (l, t) \<in> w_led W \<and> l \<noteq> j \<and> made W t n \<and> n \<le> w_pa W j t \<longrightarrow> n \<le> w_pa W l t" using assms(1) unfolding around_def by (elim conjE)
  then show ?thesis using assms(2-4) False by blast
qed (use assms in simp)

lemma held_node: "node_inv W P T0 M H i (p, eo, q, lo) \<Longrightarrow> node_ok W P (ep_term p) (lp_log q) (lp_commit q) (lp_acc q)"
  by (simp add: node_inv_def held_def)

text \<open>The entries of the leader's message in its log, and how far the receiver's log agrees.\<close>

lemma app_agrees:
  assumes W: "world_ok W P T0" and m: "lmsg_true W P A (App l T k (lterm L k) es c)" and L: "inlog W L"
    and k: "k + d \<le> length L" "d \<le> length es" "\<forall>j<d. e_Term (L ! (k + j)) = e_Term (es ! j)"
  shows "has W L T (k + d)" "T \<in> w_el W" "\<And>j. j < length es \<Longrightarrow> es ! j = w_ll W T ! (k + j)"
    "take (k + length es) (w_ll W T) = take (k + d) L @ drop d es"
proof -
  show T: "T \<in> w_el W" using m world_led [OF W] by force
  have es: "es = take (length es) (drop k (w_ll W T))" and len: "k + length es \<le> length (w_ll W T)" using m by auto
  show nth: "es ! j = w_ll W T ! (k + j)" if "j < length es" for j using that len by (subst es) simp
  have "lterm L (k + d) = lterm (w_ll W T) (k + d)"
  proof (cases d)
    case 0
    then show ?thesis using m by simp
  next
    case (Suc j)
    then show ?thesis using k nth [of j] by (simp add: lterm_def)
  qed
  then show h: "has W L T (k + d)" using has_by_term [OF W T L k(1)] len k(2) by simp
  have "take (k + length es) (w_ll W T) = take (k + d) (w_ll W T) @ take (length es - d) (drop (k + d) (w_ll W T))"
    using k(2) by (metis add.assoc le_add_diff_inverse take_add)
  also have "take (length es - d) (drop (k + d) (w_ll W T)) = drop d es"
  proof -
    have "drop d es = drop d (take (length es) (drop k (w_ll W T)))" using es by simp
    also have "\<dots> = take (length es - d) (drop (k + d) (w_ll W T))" by (simp add: drop_take add.commute)
    finally show ?thesis by simp
  qed
  finally show "take (k + length es) (w_ll W T) = take (k + d) L @ drop d es" using h by (simp add: has_def)
qed

lemma app_in_net: "around W P M \<Longrightarrow> App l T k u es c \<in> M \<Longrightarrow> lmsg_true W P (w_pa W l) (App l T k u es c)"
  unfolding around_def by force

lemma snap_in_net: "around W P M \<Longrightarrow> Snap l T L \<in> M \<Longrightarrow> lmsg_true W P (w_pa W l) (Snap l T L)"
  unfolding around_def by force

lemma keep_inv:
  assumes inv: "node_inv W P T0 M H i (p, eo, q, lo)" and W: "world_ok W P T0" and M: "around W P M" and role: "ep_role p = StateFollower"
    and app: "App l (ep_term p) k (lterm (lp_log q) k) es c \<in> M" and len: "k + length es \<le> length (lp_log q)"
    and same: "\<forall>j<length es. e_Term (lp_log q ! (k + j)) = e_Term (es ! j)"
  shows "node_inv W P T0 M H i (p, eo, acked (ep_term p) (k + length es) (q\<lparr>lp_commit := max (lp_commit q) (min c (k + length es))\<rparr>),
       insert (Ack i (ep_term p) (k + length es)) lo)"
proof -
  note m = app_in_net [OF M app] and ok = held_node [OF inv]
  have L: "inlog W (lp_log q)" "secured W P (lp_log q) (lp_commit q) (ep_term p)" using ok by (simp_all add: node_ok_def)
  note a = app_agrees [OF W m L(1) len order_refl same]
  have "secured W P (lp_log q) (min c (k + length es)) (ep_term p)" using m by (intro secured_take [OF _ a(1)]) auto
  then have "secured W P (lp_log q) (max (lp_commit q) (min c (k + length es))) (ep_term p)" by (rule secured_max [OF L(2)])
  from receive_inv [OF inv W role _ node_ok_ack [OF node_ok_commit [OF ok this] a(1,2)], of l] m show ?thesis by simp
qed

lemma splice_inv:
  assumes inv: "node_inv W P T0 M H i (p, eo, q, lo)" and W: "world_ok W P T0" and M: "around W P M" and role: "ep_role p = StateFollower"
    and app: "App l (ep_term p) k (lterm (lp_log q) k) es c \<in> M" and d: "d < length es" "k + d \<le> length (lp_log q)"
    and same: "\<forall>j<d. e_Term (lp_log q ! (k + j)) = e_Term (es ! j)"
    and differ: "k + d = length (lp_log q) \<or> e_Term (lp_log q ! (k + d)) \<noteq> e_Term (es ! d)" and com: "lp_commit q \<le> k + d"
  shows "node_inv W P T0 M H i (p, eo, acked (ep_term p) (k + length es)
      (q\<lparr>lp_log := take (k + d) (lp_log q) @ drop d es, lp_commit := max (lp_commit q) (min c (k + length es))\<rparr>),
       insert (Ack i (ep_term p) (k + length es)) lo)"
proof -
  let ?T = "ep_term p" and ?L = "lp_log q" and ?m = "k + length es"
  note m = app_in_net [OF M app] and ok = held_node [OF inv]
  have L: "inlog W ?L" "secured W P ?L (lp_commit q) ?T" using ok by (simp_all add: node_ok_def)
  note a = app_agrees [OF W m L(1) d(2) less_imp_le [OF d(1)] same]
  have len: "?m \<le> length (w_ll W ?T)" using m by simp
  have new: "take ?m (w_ll W ?T) = take (k + d) ?L @ drop d es" by (rule a(4))
  have hn: "has W (take ?m (w_ll W ?T)) ?T ?m" using len by (simp add: has_def min_def)
  have "has W (take ?m (w_ll W ?T)) t (lp_commit q)" if "has W ?L t (lp_commit q)" for t
    using that com new d by (simp add: has_def min_def)
  then have old: "secured W P (take ?m (w_ll W ?T)) (lp_commit q) ?T"
    using L(2) com d(1) len by (auto simp: secured_def)
  have "secured W P (take ?m (w_ll W ?T)) (min c ?m) ?T" using m by (intro secured_take [OF _ hn]) auto
  then have sec: "secured W P (take ?m (w_ll W ?T)) (max (lp_commit q) (min c ?m)) ?T" by (rule secured_max [OF old])
  have gone: "length ?L \<le> ?m \<or> (\<exists>n. 0 < n \<and> n \<le> ?m \<and> n \<le> length ?L \<and> lterm ?L n \<noteq> lterm (w_ll W ?T) n)"
  proof (cases "k + d = length ?L")
    case False
    then have "lterm ?L (k + d + 1) \<noteq> lterm (w_ll W ?T) (k + d + 1)" using differ a(3) [OF d(1)] by (simp add: lterm_def)
    then show ?thesis using False d by (intro disjI2 exI [of _ "k + d + 1"]) auto
  qed (use d in simp)
  from receive_inv [OF inv W role _ node_ok_replace [OF ok a(2) len W gone sec], of l] m show ?thesis by (simp add: new)
qed

lemma comm_saved:
  assumes "comm W P t n" "around W P M" "(l, t) \<in> w_led W" "made W t k" "k \<le> n" "finite P"
  shows "k \<le> w_pa W l t"
proof -
  obtain Q where Q: "majority P Q" "\<forall>j\<in>Q. n \<le> w_pa W j t" using assms(1) by (auto simp: comm_def)
  then have "Q \<noteq> {}" by (auto simp: majority_def)
  then obtain j where j: "j \<in> Q" by blast
  then have "k \<le> w_pa W j t" using Q(2) assms(5) by force
  then show ?thesis by (rule leader_saved [OF assms(2-4)])
qed

lemma behind_inv:
  assumes inv: "node_inv W P T0 M H i (p, eo, q, lo)" and W: "world_ok W P T0" and M: "around W P M" and role: "ep_role p = StateFollower"
    and msg: "(\<exists>l k u es c. App l (ep_term p) k u es c \<in> M) \<or> (\<exists>l L. Snap l (ep_term p) L \<in> M)" and P: "finite P"
  shows "node_inv W P T0 M H i (p, eo, acked (ep_term p) (lp_commit q) q, insert (Ack i (ep_term p) (lp_commit q)) lo)"
proof -
  let ?T = "ep_term p" and ?L = "lp_log q"
  note ok = held_node [OF inv]
  obtain l where l: "(l, ?T) \<in> w_led W" using msg app_in_net [OF M] snap_in_net [OF M] by fastforce
  have T: "?T \<in> w_el W" using l world_led [OF W] by force
  have sec: "secured W P ?L (lp_commit q) ?T" using ok by (simp add: node_ok_def)
  have h: "has W ?L ?T (lp_commit q)" by (rule secured_lead [OF sec order_refl T W P])
  have "n \<le> w_pa W l ?T" if n: "made W ?T n" "n \<le> lp_commit q" for n
  proof -
    have "0 < n" using n by (simp add: made_def)
    then obtain t k where t: "t \<le> ?T" "comm W P t k" "lp_commit q \<le> k" "has W ?L t (lp_commit q)" using sec n by (auto simp: secured_def)
    have "lterm (w_ll W t) n = ?T" using has_lterm [OF t(4) n(2)] has_lterm [OF h n(2)] n(1) by (simp add: made_def)
    moreover have "lterm (w_ll W t) n \<le> t"
      using t W \<open>0 < n\<close> n(2) by (intro lterm_upto) (auto simp: world_ok_def comm_def made_def has_def)
    ultimately have "t = ?T" using t(1) by simp
    then show ?thesis using comm_saved [OF _ M l n(1) _ P] t n(2) by simp
  qed
  from receive_inv [OF inv W role l node_ok_ack [OF ok h T] this] show ?thesis by simp
qed

lemma confirm_inv:
  assumes inv: "node_inv W P T0 M H i (p, eo, q, lo)" and W: "world_ok W P T0" and M: "around W P M" and role: "ep_role p = StateFollower"
    and snap: "Snap l (ep_term p) L \<in> M" and len: "length L \<le> length (lp_log q)"
    and same: "lterm (lp_log q) (length L) = lterm L (length L)"
  shows "node_inv W P T0 M H i (p, eo, acked (ep_term p) (length L) (q\<lparr>lp_commit := max (lp_commit q) (length L)\<rparr>),
      insert (Ack i (ep_term p) (length L)) lo)"
proof -
  let ?T = "ep_term p" and ?L = "lp_log q"
  note m = snap_in_net [OF M snap] and ok = held_node [OF inv]
  have L: "inlog W ?L" "secured W P ?L (lp_commit q) ?T" using ok by (simp_all add: node_ok_def)
  have T: "?T \<in> w_el W" using m world_led [OF W] by force
  have "has W L ?T (length L)" using m by simp
  then have h: "has W ?L ?T (length L)"
    using has_by_term [OF W T L(1) len] same has_lterm [of W L ?T "length L" "length L"] by (simp add: has_def)
  have "secured W P ?L (length L) ?T" using m by (intro secured_take [OF _ h]) auto
  then have "secured W P ?L (max (lp_commit q) (length L)) ?T" by (rule secured_max [OF L(2)])
  from receive_inv [OF inv W role _ node_ok_ack [OF node_ok_commit [OF ok this] h T], of l] m show ?thesis by simp
qed

lemma install_inv:
  assumes inv: "node_inv W P T0 M H i (p, eo, q, lo)" and W: "world_ok W P T0" and M: "around W P M" and role: "ep_role p = StateFollower"
    and snap: "Snap l (ep_term p) L \<in> M" and com: "lp_commit q < length L"
    and differ: "length (lp_log q) < length L \<or> lterm (lp_log q) (length L) \<noteq> lterm L (length L)"
  shows "node_inv W P T0 M H i (p, eo, acked (ep_term p) (length L) (q\<lparr>lp_log := L, lp_commit := length L\<rparr>),
      insert (Ack i (ep_term p) (length L)) lo)"
proof -
  let ?T = "ep_term p"
  note m = snap_in_net [OF M snap] and ok = held_node [OF inv]
  have T: "?T \<in> w_el W" using m world_led [OF W] by force
  have h: "has W L ?T (length L)" using m by simp
  then have L: "take (length L) (w_ll W ?T) = L" "length L \<le> length (w_ll W ?T)" by (auto simp: has_def)
  have sec: "secured W P (take (length L) (w_ll W ?T)) (length L) ?T" using m secured_take [of W P ?T "length L" L "length L" "length L"] h by (simp add: L(1))
  have gone: "length (lp_log q) \<le> length L \<or> (\<exists>n. 0 < n \<and> n \<le> length L \<and> n \<le> length (lp_log q) \<and> lterm (lp_log q) n \<noteq> lterm (w_ll W ?T) n)"
    using differ com has_lterm [OF h order_refl] by (cases "length (lp_log q) < length L") (auto intro!: exI [of _ "length L"])
  from receive_inv [OF inv W role _ node_ok_replace [OF ok T L(2) W gone sec], of l] m show ?thesis by (simp add: L(1))
qed

lemma node_inv_commit:
  assumes inv: "node_inv W P T0 M H i (p, eo, q, lo)" and sec: "secured W P (lp_log q) c (ep_term p)"
  shows "node_inv W P T0 M H i (p, eo, q\<lparr>lp_commit := c\<rparr>, lo)"
  using inv node_ok_commit [OF held_node [OF inv] sec]
  by (simp add: node_inv_def held_def roles_def claims_def grants_def sent_def)

lemma heed_inv:
  assumes inv: "node_inv W P T0 M H i (p, eo, q, lo)" and W: "world_ok W P T0" and M: "around W P M"
    and beat: "Beat l i (ep_term p) c \<in> M"
  shows "node_inv W P T0 M H i (p, eo, q\<lparr>lp_commit := max (lp_commit q) c\<rparr>, lo)"
proof -
  let ?T = "ep_term p"
  have m: "lmsg_true W P (w_pa W l) (Beat l i ?T c)" using M beat unfolding around_def by force
  note ok = held_node [OF inv]
  have "c \<le> lp_acc q ?T" using m inv unfolding node_inv_def held_def by (auto intro: le_trans)
  moreover have "has W (lp_log q) ?T (lp_acc q ?T)" using ok by (simp add: node_ok_def)
  ultimately have "secured W P (lp_log q) c ?T" using m by (intro secured_take [of W P ?T c "lp_log q" "lp_acc q ?T" c]) auto
  then show ?thesis using ok by (intro node_inv_commit [OF inv] secured_max) (simp_all add: node_ok_def)
qed

text \<open>A vote for a log that is not behind.\<close>

lemma complete: "world_ok W P T0 \<Longrightarrow> made W t n \<Longrightarrow> u \<in> w_el W \<Longrightarrow> t < u \<Longrightarrow> has W (w_ll W u) t n \<or> dead W P t n"
  unfolding world_ok_def by blast

lemma current_has:
  assumes W: "world_ok W P T0" and L: "inlog W L" "\<forall>x\<in>set L. e_Term x < T" and M: "inlog W M"
    and cur: "current L M" and mk: "made W t n" and h: "has W M t n"
  shows "has W L t n \<or> dead W P t n"
proof -
  let ?w = "lterm L (length L)"
  have n: "0 < n" "n \<le> length M" "lterm M n = t" using mk h has_lterm [OF h order_refl] by (auto simp: made_def has_def)
  have "t \<le> lterm M (length M)" using terms_sorted [OF W M n(1,2) order_refl] n(3) by simp
  then have tw: "t \<le> ?w" using cur by (auto simp: current_def)
  have nil: "0 < length L"
  proof (rule ccontr)
    assume "\<not> 0 < length L"
    then have "?w = 0" "length M = 0 \<or> lterm M (length M) < 0" using cur \<open>t \<le> lterm M (length M)\<close> by (auto simp: current_def lterm_def)
    then show False using n by simp
  qed
  note last = inlogD [OF L(1) nil order_refl]
  show ?thesis
  proof (cases "?w = t")
    case True
    then have "n \<le> length L" using cur \<open>t \<le> lterm M (length M)\<close> n(2) by (auto simp: current_def)
    then show ?thesis using has_mono [OF last(2)] True by simp
  next
    case False
    then have "t < ?w" "?w \<in> w_el W" using tw last(1) by (auto simp: made_def)
    then consider "has W (w_ll W ?w) t n" | "dead W P t n" using complete [OF W mk] by blast
    then show ?thesis
    proof cases
      case 1
      have "n \<le> length L"
      proof (rule ccontr)
        assume "\<not> n \<le> length L"
        then have "lterm (w_ll W ?w) (length L) \<le> lterm (w_ll W ?w) n"
          using terms_sorted [OF W _ nil, of "w_ll W ?w" n] W \<open>?w \<in> w_el W\<close> 1 by (simp add: world_ok_def has_def)
        moreover have "lterm (w_ll W ?w) n = t" using has_lterm [OF 1 order_refl] mk by (simp add: made_def)
        moreover have "lterm (w_ll W ?w) (length L) = ?w" using has_lterm [OF last(2) order_refl] by simp
        ultimately show False using \<open>t < ?w\<close> by simp
      qed
      then show ?thesis using has_trans [OF has_mono [OF last(2)] 1] by blast
    qed simp
  qed
qed

lemma grant_inv:
  assumes inv: "node_inv W P T0 M H i (p, eo, q, lo)" and W: "world_ok W P T0" and M: "around W P M"
    and claim: "Claim c (ep_term p) L \<in> M" and cur: "current L (lp_log q)"
  shows "node_inv W P T0 M H i (p\<lparr>ep_vote := c\<rparr>, insert (Grant i c (ep_term p)) eo, q, lo)"
proof -
  let ?T = "ep_term p"
  have L: "inlog W L" "\<forall>x\<in>set L. e_Term x < ?T" using M claim unfolding around_def by blast+
  note ok = held_node [OF inv]
  have own: "inlog W (lp_log q)" using ok by (simp add: node_ok_def)
  have "vsafe W P ?T L (lp_acc q)"
    unfolding vsafe_def
  proof (intro allI impI)
    fix t n assume a: "t < ?T \<and> made W t n \<and> n \<le> lp_acc q t"
    then have "has W (lp_log q) t n \<or> overruled W ?T t n" using ok unfolding node_ok_def by blast
    then show "has W L t n \<or> dead W P t n"
    proof
      assume "has W (lp_log q) t n"
      then show ?thesis using current_has [OF W L own cur] a by blast
    next
      assume "overruled W ?T t n"
      then show ?thesis using complete [OF W] a unfolding overruled_def by blast
    qed
  qed
  then show ?thesis using inv claim
    by (auto simp: node_inv_def held_def roles_def claims_def grants_def sent_def)
qed

lemma commit_inv:
  assumes inv: "node_inv W P T0 M H i (p, eo, q, lo)" and W: "world_ok W P T0" and M: "around W P M" and role: "ep_role p = StateLeader"
    and n: "0 < n" "n \<le> length (lp_log q)" "lterm (lp_log q) n = ep_term p" and Q: "majority P Q" "\<forall>j\<in>Q. j = i \<or> n \<le> lp_match q j"
    and P: "finite P" "2 \<le> card P"
  shows "node_inv W P T0 M H i (p, eo, q\<lparr>lp_commit := max (lp_commit q) n\<rparr>, lo)"
proof -
  let ?T = "ep_term p"
  have r: "(i, ?T) \<in> w_led W" "lp_log q = w_ll W ?T" "\<And>j. j \<noteq> i \<Longrightarrow> lp_match q j \<le> w_pa W j ?T"
    using inv role by (auto simp: node_inv_def roles_def)
  have T: "?T \<in> w_el W" using r(1) world_led [OF W] by force
  have mk: "made W ?T n" using n T r(2) by (simp add: made_def)
  have others: "n \<le> w_pa W j ?T" if "j \<in> Q" "j \<noteq> i" for j using that Q(2) r(3) le_trans by blast
  have "\<not> Q \<subseteq> {i}"
  proof
    assume "Q \<subseteq> {i}"
    then have "card Q \<le> 1" using card_mono [of "{i}" Q] by simp
    then show False using Q(1) P(2) by (auto simp: majority_def)
  qed
  then obtain j where "j \<in> Q" "j \<noteq> i" by blast
  then have "n \<le> w_pa W i ?T" using others leader_saved [OF M r(1) mk] by blast
  then have "comm W P ?T n" using mk Q(1) others unfolding comm_def by metis
  moreover have "has W (lp_log q) ?T n" using n r(2) by simp
  ultimately have "secured W P (lp_log q) n ?T" using n(2) unfolding secured_def by blast
  then show ?thesis using held_node [OF inv] by (intro node_inv_commit [OF inv] secured_max) (simp_all add: node_ok_def)
qed

lemma send_inv:
  assumes inv: "node_inv W P T0 M H i (p, eo, q, lo)" and m: "lmsg_from m = i" "lmsg_true W P (lp_acc q) m" "\<And>t L. m \<noteq> Claim i t L"
  shows "node_inv W P T0 M H i (p, eo, q, insert m lo)"
proof -
  have "Claim i t L \<noteq> m" for t L using m(3) by metis
  then show ?thesis using inv m by (simp add: node_inv_def claims_def sent_def)
qed

lemma leader_facts:
  assumes "node_inv W P T0 M H i (p, eo, q, lo)" "ep_role p = StateLeader"
  shows "(i, ep_term p) \<in> w_led W" "lp_log q = w_ll W (ep_term p)" "lp_acc q (ep_term p) = length (lp_log q)"
    "secured W P (w_ll W (ep_term p)) (lp_commit q) (ep_term p)" "\<And>j. j \<noteq> i \<Longrightarrow> lp_match q j \<le> w_pa W j (ep_term p)"
  using assms held_node [OF assms(1)] by (auto simp: node_inv_def roles_def node_ok_def)

lemma secured_less: "secured W P L c T \<Longrightarrow> c' \<le> c \<Longrightarrow> secured W P L c' T"
  unfolding secured_def by (meson has_mono le_trans less_le_trans)

lemma later_inv:
  assumes inv: "node_inv W P T0 M H i (p, eo, q, lo)" and p': "ep_term p < ep_term p'" "ep_role p' \<noteq> StateLeader" "ep_yes p' \<subseteq> {i}"
  shows "node_inv W P T0 M H i (p', eo, q, lo)"
proof -
  have h: "held W P T0 i p q" "roles W H i p q" "claims W M i p q lo" "grants W P M H i p q eo" "sent W P i q lo"
    using inv by (simp_all add: node_inv_def)
  note ok = node_ok_later [OF held_node [OF inv] p'(1)]
  have "T0 \<le> ep_term p" "w_st W i \<le> ep_term p" using h(1) by (simp_all add: held_def)
  then have "held W P T0 i p' q" using h(1) ok p'(1) unfolding held_def by (meson le_trans less_imp_le order_le_less_trans)
  moreover have "roles W H i p' q"
  proof -
    have "upto (lp_log q) (ep_term p)" using held_node [OF inv] by (simp add: node_ok_def)
    then have "\<forall>x\<in>set (lp_log q). e_Term x < ep_term p'" using p'(1) by (auto simp: upto_def)
    moreover have "t < ep_term p'" if "(i, t) \<in> w_led W" for t using h(2) that p'(1) by (auto simp: roles_def)
    ultimately show ?thesis using p'(2,3) by (fastforce simp: roles_def)
  qed
  moreover have "claims W M i p' q lo"
  proof -
    have "t < ep_term p'" if "Claim i t L \<in> M \<union> lo" for t L using h(3) that p'(1) unfolding claims_def by (meson le_less_trans)
    then show ?thesis using h(3) unfolding claims_def by (metis less_imp_le nat_neq_iff)
  qed
  moreover have "grants W P M H i p' q eo" using h(4) p'(1) unfolding grants_def by (meson le_trans less_imp_le)
  ultimately show ?thesis using h(5) by (simp add: node_inv_def)
qed

lemma stepdown_inv:
  assumes "node_inv W P T0 M H i (p, eo, q, lo)"
  shows "node_inv W P T0 M H i (p\<lparr>ep_role := StateFollower, ep_yes := {}\<rparr>, eo, q, lo)"
proof -
  have "held W P T0 i (p\<lparr>ep_role := StateFollower, ep_yes := {}\<rparr>) q" using assms by (simp add: node_inv_def held_def)
  moreover have "roles W H i (p\<lparr>ep_role := StateFollower, ep_yes := {}\<rparr>) q" using assms by (simp add: node_inv_def roles_def)
  moreover have "claims W M i (p\<lparr>ep_role := StateFollower, ep_yes := {}\<rparr>) q lo" using assms unfolding node_inv_def claims_def by simp
  ultimately show ?thesis using assms by (simp add: node_inv_def grants_def)
qed

lemma ask_inv:
  assumes inv: "node_inv W P T0 M H i (p, eo, q, lo)" and role: "ep_role p = StateCandidate"
  shows "node_inv W P T0 M H i (p, insert (Ask i (ep_term p)) eo, q, insert (Claim i (ep_term p) (lp_log q)) lo)"
proof -
  let ?lo = "insert (Claim i (ep_term p) (lp_log q)) lo"
  have L: "inlog W (lp_log q)" "\<forall>x\<in>set (lp_log q). e_Term x < ep_term p"
    using held_node [OF inv] inv role by (simp_all add: node_ok_def node_inv_def roles_def)
  have c: "claims W M i p q lo" using inv by (simp add: node_inv_def)
  have cases: "Claim i t K \<in> M \<union> ?lo \<longleftrightarrow> Claim i t K \<in> M \<union> lo \<or> t = ep_term p \<and> K = lp_log q" for t K by auto
  have own: "K = lp_log q" if "Claim i (ep_term p) K \<in> M \<union> lo" for K using c that role unfolding claims_def by blast
  have "claims W M i p q ?lo"
    unfolding claims_def cases using c own L unfolding claims_def by blast
  then show ?thesis using inv by (simp add: node_inv_def grants_def sent_def)
qed

lemma lstep_same:
  assumes step: "lstep P i H M (p, eo, q, lo) (p', eo', q', lo')" and inv: "node_inv W P T0 M H i (p, eo, q, lo)"
    and W: "world_ok W P T0" and M: "around W P M" and P: "finite P" "2 \<le> card P"
    and same: "ep_role p' = StateLeader \<Longrightarrow> ep_role p = StateLeader \<and> lp_log q' = lp_log q"
  shows "node_inv W P T0 M H i (p', eo', q', lo')"
  using step
proof cases
  case (adopt t)
  then show ?thesis using later_inv [OF inv] by simp
next
  case stepdown
  then show ?thesis using stepdown_inv [OF inv] by simp
next
  case (grant c L)
  then show ?thesis using grant_inv [OF inv W M] by simp
next
  case campaign
  then show ?thesis using later_inv [OF inv] by simp
next
  case ask
  then show ?thesis using ask_inv [OF inv] by simp
next
  case (count j)
  then show ?thesis using inv by (simp add: node_inv_def held_def roles_def claims_def grants_def sent_def)
next
  case win
  then show ?thesis using same by simp
next
  case (append es)
  then have "lp_log q @ es = lp_log q" using same by simp
  moreover have len: "lp_acc q (ep_term p) = length (lp_log q)" by (rule leader_facts(3) [OF inv append(5)])
  moreover have "(lp_acc q)(ep_term p := length (lp_log q)) = lp_acc q" using len by (metis fun_upd_triv)
  ultimately have "q' = q" using append by (simp add: acked_def)
  then show ?thesis using append inv by simp
next
  case (learn j n)
  have "n \<le> w_pa W j (ep_term p)" using M learn(6) unfolding around_def by force
  then have "roles W H i p q'" using learn inv by (auto simp: node_inv_def roles_def)
  then show ?thesis using learn inv by (simp add: node_inv_def held_def claims_def grants_def sent_def)
next
  case (commit n Q)
  then show ?thesis using commit_inv [OF inv W M commit(5-10) P] by simp
next
  case (replicate k)
  note l = leader_facts [OF inv replicate(5)]
  have "lmsg_true W P (lp_acc q) (App i (ep_term p) k (lterm (lp_log q) k) (drop k (lp_log q)) (lp_commit q))"
    using l(1,3,4) replicate(6) by (simp add: l(2) [symmetric])
  from send_inv [OF inv _ this] show ?thesis using replicate(1-4) by simp
next
  case (beat c j)
  note l = leader_facts [OF inv beat(5)]
  have "lmsg_true W P (lp_acc q) (Beat i j (ep_term p) c)"
    using l(1) le_trans [OF beat(6) l(5) [OF beat(8)]] secured_less [OF l(4) beat(7)] by simp
  then show ?thesis using beat send_inv [OF inv] by simp
next
  case (snap n)
  note l = leader_facts [OF inv snap(5)]
  have n: "n \<le> length (lp_log q)" using l(2,4) snap(6) by (simp add: secured_def)
  then have "lmsg_true W P (lp_acc q) (Snap i (ep_term p) (take n (lp_log q)))"
    using l secured_less [OF l(4) snap(6)] by (simp add: has_def min_def)
  then show ?thesis using snap send_inv [OF inv] by simp
next
  case (keep l k es c)
  then show ?thesis using keep_inv [OF inv W M] by simp
next
  case (splice l k es c d)
  then show ?thesis using splice_inv [OF inv W M] by simp
next
  case behind
  then show ?thesis using behind_inv [OF inv W M _ _ P(1)] by simp
next
  case (heed l c)
  then show ?thesis using heed_inv [OF inv W M] by simp
next
  case (confirm l L)
  then show ?thesis using confirm_inv [OF inv W M] by simp
next
  case (install l L)
  then show ?thesis using install_inv [OF inv W M] by simp
qed

section \<open>New leaders and new entries\<close>

text \<open>Enough of a peer's vote is saved when it counts.\<close>

lemma cast_saved: "einv P e \<Longrightarrow> es_cast e j t = Some c \<Longrightarrow> t \<le> fst (es_saved e j)"
  unfolding einv_def votes_upto_def by (metis option.discI)

lemma granted_saved: "einv P e \<Longrightarrow> Grant j c t \<in> es_net e \<Longrightarrow> t \<le> fst (es_saved e j)"
proof -
  assume e: "einv P e" and g: "Grant j c t \<in> es_net e"
  have "msg_ok (es_cast e) (es_cast e) (Grant j c t)" using e g unfolding einv_def by blast
  then show ?thesis using cast_saved [OF e] by (simp add: msg_ok_def)
qed

lemma voters_saved:
  assumes e: "einv P e" and p: "es_peer e i = p" "ep_role p = StateCandidate" "card P div 2 < card (ep_yes p)" and P: "2 \<le> card P" "i \<in> P"
  shows "majority P (ep_yes p)" "\<And>j. j \<in> ep_yes p \<Longrightarrow> ep_term p \<le> fst (es_saved e j)" "ep_term p \<le> fst (es_saved e i)"
proof -
  have "role_ok P (es_cast e) i p" using e p(1) unfolding einv_def by blast
  then have v: "j = i \<or> j \<in> P \<and> es_cast e j (ep_term p) = Some i \<and> es_cast e i (ep_term p) = Some i" if "j \<in> ep_yes p" for j
    using that p(2) by (simp add: role_ok_def)
  show "majority P (ep_yes p)" using v p(3) P(2) by (auto simp: majority_def)
  have "\<not> ep_yes p \<subseteq> {i}"
  proof
    assume "ep_yes p \<subseteq> {i}"
    then have "card (ep_yes p) \<le> 1" using card_mono [of "{i}" "ep_yes p"] by simp
    then show False using p(3) P(1) by simp
  qed
  then obtain k where "k \<in> ep_yes p" "k \<noteq> i" by blast
  then have i: "es_cast e i (ep_term p) = Some i" using v by blast
  then show "ep_term p \<le> fst (es_saved e i)" by (rule cast_saved [OF e])
  show "ep_term p \<le> fst (es_saved e j)" if "j \<in> ep_yes p" for j using v [OF that] i cast_saved [OF e] by blast
qed

lemma win_world:
  assumes inv: "node_inv W P T0 M H i (p, eo, q, lo)" and W: "world_ok W P T0" and M: "around W P M" and role: "ep_role p = StateCandidate"
    and new: "ep_term p \<notin> w_el W" and Q: "majority P (ep_yes p)" "\<And>j. j \<in> ep_yes p \<Longrightarrow> ep_term p \<le> w_st W j" "ep_term p \<le> w_st W i"
    and others: "\<And>j. held W P T0 j (pp j) (qq j) \<and> grants W P M H j (pp j) (qq j) (oo j)"
    and claim: "claims W M i p q lo"
    and W': "W' = W\<lparr>w_el := insert (ep_term p) (w_el W), w_ll := (w_ll W)(ep_term p := lp_log q), w_led := insert (i, ep_term p) (w_led W)\<rparr>"
  shows "grow W W'" "world_ok W' P T0"
proof -
  let ?T = "ep_term p"
  show g: "grow W W'" using new by (auto simp: grow_def W')
  have h: "held W P T0 i p q" "roles W H i p q" using inv by (simp_all add: node_inv_def)
  note ok = held_node [OF inv]
  have low: "\<forall>x\<in>set (lp_log q). e_Term x < ?T" using h(2) role by (simp add: roles_def)
  have madeW: "made W t n" if "made W' t n" for t n
  proof (cases "t = ?T")
    case True
    then have "0 < n" "n \<le> length (lp_log q)" "lterm (lp_log q) n = ?T" using that by (simp_all add: made_def W')
    then have "e_Term (lp_log q ! (n - 1)) = ?T" "lp_log q ! (n - 1) \<in> set (lp_log q)" by (simp_all add: lterm_def)
    then show ?thesis using low by fastforce
  qed (use that in \<open>simp add: made_def W'\<close>)
  have eq: "w_ll W' t = w_ll W t" "has W' L t n \<longleftrightarrow> has W L t n" if "t \<in> w_el W" for t L n
    using that new by (auto simp: W' has_def)
  have elect: "has W (lp_log q) t n \<or> dead W P t n" if mk: "made W t n" and t: "t < ?T" for t n
  proof (cases "\<exists>j\<in>ep_yes p. n \<le> w_pa W j t")
    case False
    then show ?thesis using Q t unfolding dead_def by (metis not_le order_less_le_trans)
  next
    case True
    then obtain j where j: "j \<in> ep_yes p" "n \<le> w_pa W j t" by blast
    show ?thesis
    proof (cases "j = i")
      case True
      then have "n \<le> lp_acc q t" using j(2) h(1) unfolding held_def by (meson le_trans)
      then have "has W (lp_log q) t n \<or> overruled W ?T t n" using ok mk unfolding node_ok_def by blast
      then show ?thesis using complete [OF W mk] unfolding overruled_def by blast
    next
      case False
      then have "Grant j i ?T \<in> H" using h(2) role j(1) by (simp add: roles_def)
      then obtain L where L: "Claim i ?T L \<in> M" "vsafe W P ?T L (lp_acc (qq j))" using others [of j] unfolding grants_def by blast
      have "L = lp_log q" using claim L(1) role unfolding claims_def by blast
      moreover have "n \<le> lp_acc (qq j) t" using others [of j] j(2) unfolding held_def by (meson le_trans)
      ultimately show ?thesis using L(2) mk t unfolding vsafe_def by blast
    qed
  qed
  have "w_el W' = insert T0 (snd ` w_led W')" using W by (auto simp: world_ok_def W')
  moreover have "T0 < ?T" using h(1) role by (simp add: held_def)
  then have "\<forall>(l, t)\<in>w_led W'. T0 < t \<and> t \<le> w_st W' l \<and> (\<exists>Q. majority P Q \<and> (\<forall>j\<in>Q. t \<le> w_st W' j))"
    using W Q unfolding world_ok_def W' by (auto intro: exI [of _ "ep_yes p"])
  moreover have "\<forall>k j t. (k, t) \<in> w_led W' \<and> (j, t) \<in> w_led W' \<longrightarrow> k = j"
  proof (intro allI impI)
    fix k j t assume a: "(k, t) \<in> w_led W' \<and> (j, t) \<in> w_led W'"
    have "t \<noteq> ?T" if "(l, t) \<in> w_led W" for l using that world_led [OF W] new by force
    then show "k = j" using a led_same [OF W, of k t j] by (auto simp: W')
  qed
  moreover have "\<forall>t\<in>w_el W'. inlog W' (w_ll W' t) \<and> upto (w_ll W' t) t"
  proof
    fix t assume "t \<in> w_el W'"
    then consider "t = ?T" | "t \<in> w_el W" by (auto simp: W')
    then show "inlog W' (w_ll W' t) \<and> upto (w_ll W' t) t"
    proof cases
      case 1
      then have "w_ll W' t = lp_log q" by (simp add: W')
      then show ?thesis using ok grow_inlog [OF g] 1 by (simp add: node_ok_def)
    next
      case 2
      then show ?thesis using W grow_inlog [OF g] eq(1) by (simp add: world_ok_def)
    qed
  qed
  moreover have "\<forall>t n u. made W' t n \<and> u \<in> w_el W' \<and> t < u \<longrightarrow> has W' (w_ll W' u) t n \<or> dead W' P t n"
  proof (intro allI impI)
    fix t n u assume a: "made W' t n \<and> u \<in> w_el W' \<and> t < u"
    note mk = madeW [OF conjunct1 [OF a]]
    then have t: "t \<in> w_el W" by (simp add: made_def)
    have "has W (w_ll W' u) t n \<or> dead W P t n"
    proof (cases "u = ?T")
      case True
      then show ?thesis using elect [OF mk] a by (simp add: W')
    next
      case False
      then have "u \<in> w_el W" using a by (simp add: W')
      then show ?thesis using complete [OF W mk _ conjunct2 [OF conjunct2 [OF a]]] eq(1) by simp
    qed
    then show "has W' (w_ll W' u) t n \<or> dead W' P t n" using grow_has [OF g _ t] grow_dead [OF g] by blast
  qed
  moreover have "\<forall>j t. 0 < w_pa W' j t \<longrightarrow> t \<in> w_el W' \<and> w_pa W' j t \<le> length (w_ll W' t)"
  proof (intro allI impI)
    fix j t assume "0 < w_pa W' j t"
    then have "0 < w_pa W j t" by (simp add: W')
    then have "t \<in> w_el W \<and> w_pa W j t \<le> length (w_ll W t)" using W unfolding world_ok_def by blast
    then show "t \<in> w_el W' \<and> w_pa W' j t \<le> length (w_ll W' t)" using eq(1) [of t] by (simp add: W')
  qed
  ultimately show "world_ok W' P T0" unfolding world_ok_def by (intro conjI)
qed

end
