(* ===== verification/Replication_Safety.thy ===== *)
theory Replication_Safety
  imports Replication
begin

text \<open>
  The invariant of the replication protocol holds in every reachable state of the system, and what it gives: logs that have the same term at an
  index agree up to it, what is committed is in the log of every later leader, and any two committed prefixes agree.
\<close>

section \<open>A leader appends\<close>

lemma world_logs: "world_ok W P T0 \<Longrightarrow> t \<in> w_el W \<Longrightarrow> inlog W (w_ll W t)" "world_ok W P T0 \<Longrightarrow> t \<in> w_el W \<Longrightarrow> upto (w_ll W t) t"
  unfolding world_ok_def by blast+

lemma append_world:
  assumes W: "world_ok W P T0" and lead: "(i, T) \<in> w_led W" and es: "\<forall>x\<in>set es. e_Term x = T"
    and W': "W' = W\<lparr>w_ll := (w_ll W)(T := w_ll W T @ es)\<rparr>"
  shows "grow W W'" "world_ok W' P T0"
proof -
  have T: "T \<in> w_el W" using lead world_led [OF W] by force
  show g: "grow W W'" using es by (auto simp: grow_def W')
  have same [simp]: "w_el W' = w_el W" "w_led W' = w_led W" "w_st W' = w_st W" "w_pa W' = w_pa W" by (simp_all add: W')
  have logs: "inlog W (w_ll W t)" "upto (w_ll W t) t" if "t \<in> w_el W" for t using W that by (simp_all add: world_ok_def)
  have pa: "w_pa W j t \<le> length (w_ll W t)" for j t
    using W unfolding world_ok_def by (metis gr0I le0)
  have prev: "made W t n \<or> t = T \<and> length (w_ll W T) < n" if "made W' t n" for t n
  proof (cases "t = T \<and> length (w_ll W T) < n")
    case False
    then have "n \<le> length (w_ll W t)" using that by (cases "t = T") (auto simp: made_def W')
    then show ?thesis using grow_made_back [OF g that] that by (simp add: made_def)
  qed simp
  have new: "dead W P T n" if n: "length (w_ll W T) < n" and u: "u \<in> w_el W" "T < u" for n u
  proof -
    have all: "\<forall>(l, t)\<in>w_led W. T0 < t \<and> t \<le> w_st W l \<and> (\<exists>Q. majority P Q \<and> (\<forall>j\<in>Q. t \<le> w_st W j))"
      and el: "w_el W = insert T0 (snd ` w_led W)" using W by (simp_all add: world_ok_def)
    have "T0 < T" using all lead by blast
    then obtain l where "(l, u) \<in> w_led W" using el u by force
    then obtain Q where Q: "majority P Q" "\<forall>j\<in>Q. u \<le> w_st W j" using all by blast
    have "\<forall>j\<in>Q. T < w_st W j \<and> w_pa W j T < n" using Q(2) u(2) n pa [of _ T] by (meson le_less_trans less_le_trans)
    then show ?thesis using Q(1) unfolding dead_def by blast
  qed
  have "inlog W' (w_ll W' t) \<and> upto (w_ll W' t) t" if t: "t \<in> w_el W" for t
  proof (cases "t = T")
    case False
    then show ?thesis using logs [OF t] grow_inlog [OF g] by (simp add: W')
  next
    case True
    let ?L = "w_ll W T @ es"
    have L': "w_ll W' t = ?L" using True by (simp add: W')
    have "made W' (lterm ?L n) n \<and> has W' ?L (lterm ?L n) n" if n: "0 < n" "n \<le> length ?L" for n
    proof (cases "n \<le> length (w_ll W T)")
      case True
      then have e: "lterm ?L n = lterm (w_ll W T) n" by (rule lterm_append)
      have "made W (lterm ?L n) n" "has W (w_ll W T) (lterm ?L n) n" using inlogD [OF logs(1) [OF T] n(1) True] e by simp_all
      then show ?thesis
        using grow_made [OF g] grow_has_ll [OF g _ _ T] L' \<open>t = T\<close> unfolding made_def by metis
    next
      case False
      then have "lterm ?L n = T" using lterm_append_new [of "w_ll W T" n es T] n es by simp
      then show ?thesis using n T by (simp add: made_def has_def W')
    qed
    then have "inlog W' ?L" unfolding inlog_def by blast
    moreover have "upto ?L T" using logs(2) [OF T] es by (auto simp: upto_def)
    ultimately show ?thesis using True L' by simp
  qed
  moreover have "has W' (w_ll W' u) t n \<or> dead W' P t n" if a: "made W' t n" "u \<in> w_el W" "t < u" for t n u
    using prev [OF a(1)]
  proof
    assume mk: "made W t n"
    then have t: "t \<in> w_el W" by (simp add: made_def)
    show ?thesis using complete [OF W mk a(2,3)] grow_has_ll [OF g _ t a(2)] grow_dead [OF g] by blast
  next
    assume "t = T \<and> length (w_ll W T) < n"
    then have "dead W P t n" using new a(2,3) by blast
    then show ?thesis using grow_dead [OF g] by blast
  qed
  moreover have "t \<in> w_el W \<and> w_pa W j t \<le> length (w_ll W' t)" if "0 < w_pa W j t" for j t
  proof -
    have "t \<in> w_el W" using W that unfolding world_ok_def by blast
    then show ?thesis using pa [of j t] by (auto simp: W' intro: le_trans)
  qed
  ultimately show "world_ok W' P T0" using W unfolding world_ok_def by simp
qed

lemma claims_lead:
  assumes "claims W M i p q lo" "grow W W'" "w_st W' = w_st W" "ep_term p' = ep_term p" "ep_role p' \<noteq> StateCandidate"
  shows "claims W' M i p' q' lo"
  using assms(1,5) grow_inlog [OF assms(2)] unfolding claims_def assms(3,4) by fast

lemma append_inv:
  assumes inv: "node_inv W P T0 M H i (p, eo, q, lo)" and W: "world_ok W P T0" and role: "ep_role p = StateLeader"
    and es: "\<forall>x\<in>set es. e_Term x = ep_term p" and W': "W' = W\<lparr>w_ll := (w_ll W)(ep_term p := lp_log q @ es)\<rparr>"
  shows "node_inv W' P T0 M H i (p, eo, acked (ep_term p) (length (lp_log q @ es)) (q\<lparr>lp_log := lp_log q @ es\<rparr>), lo)"
proof -
  let ?T = "ep_term p" and ?L = "lp_log q @ es"
  let ?q = "acked ?T (length ?L) (q\<lparr>lp_log := ?L\<rparr>)"
  have h: "held W P T0 i p q" "roles W H i p q" "claims W M i p q lo" "grants W P M H i p q eo" "sent W P i q lo"
    using inv by (simp_all add: node_inv_def)
  note l = leader_facts [OF inv role]
  have T: "?T \<in> w_el W" using l(1) world_led [OF W] by force
  have W'': "W' = W\<lparr>w_ll := (w_ll W)(?T := w_ll W ?T @ es)\<rparr>" using W' l(2) by simp
  note gw = append_world [OF W l(1) es W'']
  have L': "w_ll W' ?T = ?L" by (simp add: W')
  have same [simp]: "w_el W' = w_el W" "w_led W' = w_led W" "w_st W' = w_st W" "w_pa W' = w_pa W" by (simp_all add: W')
  note ok = held_node [OF inv]
  have acc: "0 < lp_acc q t \<Longrightarrow> t \<in> w_el W \<and> t \<le> ?T \<and> lp_acc q t \<le> length (w_ll W t)" for t using ok by (simp add: node_ok_def)
  have accq: "lp_acc ?q = (lp_acc q)(?T := length ?L)" using l(3) by (simp add: max_def)
  have prev: "made W t n" if "made W' t n" "n \<le> lp_acc q t" for t n
  proof -
    have "0 < lp_acc q t" using that by (auto simp: made_def)
    then show ?thesis using acc that grow_made_back [OF gw(1) that(1)] le_trans by blast
  qed
  have "node_ok W' P ?T ?L (lp_commit q) (lp_acc ?q)"
    unfolding node_ok_def
  proof (intro conjI allI impI)
    show "inlog W' ?L" "upto ?L ?T" using world_logs [OF gw(2), of ?T] T L' by simp_all
    show "secured W' P ?L (lp_commit q) ?T" using grow_secured_ll [OF gw(1) l(4) T] L' by simp
    show "has W' ?L ?T (lp_acc ?q ?T)" unfolding accq using L' by (simp add: has_def)
    fix t assume t: "0 < lp_acc ?q t"
    show "t \<in> w_el W'" "t \<le> ?T" "lp_acc ?q t \<le> length (w_ll W' t)"
      using t acc [of t] T L' unfolding accq by (auto simp: W' split: if_splits)
  next
    fix t n assume a: "made W' t n \<and> n \<le> lp_acc ?q t"
    show "has W' ?L t n \<or> overruled W' ?T t n"
    proof (cases "t = ?T")
      case True
      then show ?thesis using a L' unfolding accq by (simp add: has_def)
    next
      case False
      then have n: "n \<le> lp_acc q t" using a unfolding accq by simp
      have mk: "made W t n" using prev a n by blast
      then have "has W (w_ll W ?T) t n \<or> overruled W ?T t n" using ok n l(2) unfolding node_ok_def by metis
      then show ?thesis
        using grow_has_ll [OF gw(1) _ _ T, of t n] grow_overruled [OF gw(1) mk] mk L' unfolding made_def by metis
    qed
  qed
  moreover have "w_pa W i t \<le> lp_acc ?q t" for t
  proof -
    have "w_pa W i t \<le> lp_acc q t" using h(1) by (simp add: held_def)
    then show ?thesis by (auto simp: le_max_iff_disj)
  qed
  moreover have "lp_acc ?q t = w_pa W i t" if "t < w_st W i" for t using that h(1) by (auto simp: held_def)
  moreover have "n \<le> w_pa W k t" if a: "(k, t) \<in> w_led W" "k \<noteq> i" "made W' t n" "n \<le> lp_acc ?q t" for k t n
  proof -
    have "t \<noteq> ?T" using a(1,2) led_same [OF W _ l(1)] by blast
    then have n: "n \<le> lp_acc q t" using a(4) by simp
    show ?thesis using h(1) a(1,2) prev [OF a(3) n] n unfolding held_def by blast
  qed
  ultimately have "held W' P T0 i p ?q" using h(1) unfolding held_def by simp
  moreover have "roles W' H i p ?q" using h(2) role L' l(3) by (simp add: roles_def)
  moreover have "claims W' M i p ?q lo" by (rule claims_lead [OF h(3) gw(1)]) (simp_all add: role)
  moreover have "grants W' P M H i p ?q eo"
  proof (rule grants_ack [of _ _ _ _ _ _ q])
    show "grants W' P M H i p q eo" using h(4) grow_vsafe [OF gw(1) _ conjI] acc unfolding grants_def by meson
  qed (rule accq)
  moreover have "sent W' P i ?q lo"
  proof -
    have "lp_acc q t \<le> lp_acc ?q t" for t by simp
    then show ?thesis using h(5) grow_msg [OF gw(1) _ _ world_led [OF W]] unfolding sent_def by blast
  qed
  ultimately show ?thesis by (simp add: node_inv_def)
qed

section \<open>A candidate wins\<close>

lemma win_inv:
  assumes inv: "node_inv W P T0 M H i (p, eo, q, lo)" and W: "world_ok W P T0" and role: "ep_role p = StateCandidate"
    and new: "ep_term p \<notin> w_el W" and g: "grow W W'"
    and W': "W' = W\<lparr>w_el := insert (ep_term p) (w_el W), w_ll := (w_ll W)(ep_term p := lp_log q), w_led := insert (i, ep_term p) (w_led W)\<rparr>"
  shows "node_inv W' P T0 M H i (p\<lparr>ep_role := StateLeader, ep_yes := {}\<rparr>, eo,
    (acked (ep_term p) (length (lp_log q)) q)\<lparr>lp_match := (\<lambda>_. 0)\<rparr>, lo)"
proof -
  let ?T = "ep_term p" and ?p = "p\<lparr>ep_role := StateLeader, ep_yes := {}\<rparr>"
  let ?q = "(acked ?T (length (lp_log q)) q)\<lparr>lp_match := (\<lambda>_. 0)\<rparr>"
  have h: "held W P T0 i p q" "roles W H i p q" "claims W M i p q lo" "grants W P M H i p q eo" "sent W P i q lo"
    using inv by (simp_all add: node_inv_def)
  note ok = held_node [OF inv]
  have acc: "0 < lp_acc q t \<Longrightarrow> t \<in> w_el W \<and> t \<le> ?T \<and> lp_acc q t \<le> length (w_ll W t)" for t using ok by (simp add: node_ok_def)
  then have accT: "lp_acc q ?T = 0" using new by (metis gr0I)
  have accq: "lp_acc ?q = (lp_acc q)(?T := length (lp_log q))" using accT by simp
  have L': "w_ll W' ?T = lp_log q" by (simp add: W')
  have same [simp]: "w_st W' = w_st W" "w_pa W' = w_pa W" by (simp_all add: W')
  have low: "e_Term x < ?T" if "x \<in> set (lp_log q)" for x using h(2) role that by (simp add: roles_def)
  have none: "\<not> made W' ?T n" for n
  proof
    assume "made W' ?T n"
    then have "0 < n" "n \<le> length (lp_log q)" "lterm (lp_log q) n = ?T" using L' by (simp_all add: made_def)
    then show False using low [of "lp_log q ! (n - 1)"] by (simp add: lterm_def)
  qed
  have prev: "made W t n \<and> n \<le> lp_acc q t" if "made W' t n" "n \<le> lp_acc ?q t" for t n
  proof -
    have "t \<noteq> ?T" using that none by metis
    then show ?thesis using that by (simp add: made_def W')
  qed
  note gok = grow_node_ok [OF g ok]
  have "node_ok W' P ?T (lp_log q) (lp_commit q) (lp_acc ?q)"
    unfolding node_ok_def
  proof (intro conjI allI impI)
    show "inlog W' (lp_log q)" "upto (lp_log q) ?T" "secured W' P (lp_log q) (lp_commit q) ?T" using gok by (simp_all add: node_ok_def)
    show "has W' (lp_log q) ?T (lp_acc ?q ?T)" unfolding accq using L' by (simp add: has_def)
    fix t assume t: "0 < lp_acc ?q t"
    show "t \<in> w_el W'" "t \<le> ?T" "lp_acc ?q t \<le> length (w_ll W' t)"
      using t acc [of t] unfolding accq by (auto simp: W' split: if_splits)
  next
    fix t n assume a: "made W' t n \<and> n \<le> lp_acc ?q t"
    then have "n \<le> lp_acc q t" using prev by blast
    then show "has W' (lp_log q) t n \<or> overruled W' ?T t n" using gok a unfolding node_ok_def by blast
  qed
  moreover have "w_pa W i t \<le> lp_acc ?q t" for t
  proof -
    have "w_pa W i t \<le> lp_acc q t" using h(1) by (simp add: held_def)
    then show ?thesis by (auto simp: le_max_iff_disj)
  qed
  moreover have "lp_acc ?q t = w_pa W i t" if "t < w_st W i" for t using that h(1) by (auto simp: held_def)
  moreover have "n \<le> w_pa W k t" if a: "(k, t) \<in> w_led W'" "k \<noteq> i" "made W' t n" "n \<le> lp_acc ?q t" for k t n
  proof -
    have "(k, t) \<in> w_led W" using a(1,2) by (simp add: W')
    then show ?thesis using h(1) a(2) prev [OF a(3,4)] unfolding held_def by blast
  qed
  ultimately have "held W' P T0 i ?p ?q" using h(1) role unfolding held_def by simp
  moreover have "roles W' H i ?p ?q"
  proof -
    have "t \<le> ?T" if "(i, t) \<in> w_led W'" for t using that h(2) by (auto simp: roles_def W')
    moreover have "(i, ?T) \<in> w_led W'" by (simp add: W')
    ultimately show ?thesis using L' accT by (simp add: roles_def)
  qed
  moreover have "claims W' M i ?p ?q lo" by (rule claims_lead [OF h(3) g]) simp_all
  moreover have "grants W' P M H i ?p ?q eo"
  proof -
    have "grants W' P M H i p q eo" using h(4) grow_vsafe [OF g _ conjI] acc unfolding grants_def by meson
    then have "grants W' P M H i p ?q eo" by (rule grants_ack) (rule accq)
    then show ?thesis by (simp add: grants_def)
  qed
  moreover have "sent W' P i ?q lo"
  proof -
    have "lp_acc q t \<le> lp_acc ?q t" for t by simp
    then show ?thesis using h(5) grow_msg [OF g _ _ world_led [OF W]] unfolding sent_def by blast
  qed
  ultimately show ?thesis by (simp add: node_inv_def)
qed

section \<open>The system keeps the invariant\<close>

lemma linv_around: "linv P T0 s \<Longrightarrow> around (world_of s) P (lr_net s)"
proof -
  assume inv: "linv P T0 s"
  let ?W = "world_of s"
  have node: "held ?W P T0 j (es_peer (lr_e s) j) (lr_q s j)" "claims ?W (lr_net s) j (es_peer (lr_e s) j) (lr_q s j) (lr_lo s j)" for j
    using inv by (simp_all add: linv_def node_inv_def lnode_of_def)
  have "n \<le> w_pa ?W l t" if "(l, t) \<in> w_led ?W" "l \<noteq> j" "made ?W t n" "n \<le> w_pa ?W j t" for l t j n
  proof -
    have "n \<le> lp_acc (lr_q s j) t" using node(1) [of j] that(4) unfolding held_def by (meson le_trans)
    then show ?thesis using node(1) [of j] that(1-3) unfolding held_def by blast
  qed
  moreover have "inlog ?W L \<and> (\<forall>x\<in>set L. e_Term x < t)" if "Claim c t L \<in> lr_net s" for c t L
    using node(2) [of c] that unfolding claims_def by blast
  ultimately show ?thesis using inv unfolding around_def linv_def by blast
qed

lemma lstep_leads:
  assumes "lstep P i H M (p, eo, q, lo) (p', eo', q', lo')" "ep_role p' = StateLeader"
  obtains (stays) "ep_role p = StateLeader" "ep_term p' = ep_term p" "lp_log q' = lp_log q"
  | (appends) es where "ep_role p = StateLeader" "\<forall>x\<in>set es. e_Term x = ep_term p" "p' = p" "eo' = eo" "lo' = lo"
      "q' = acked (ep_term p) (length (lp_log q @ es)) (q\<lparr>lp_log := lp_log q @ es\<rparr>)"
  | (wins) "ep_role p = StateCandidate" "card P div 2 < card (ep_yes p)" "p' = p\<lparr>ep_role := StateLeader, ep_yes := {}\<rparr>"
      "eo' = eo" "lo' = lo" "q' = (acked (ep_term p) (length (lp_log q)) q)\<lparr>lp_match := (\<lambda>_. 0)\<rparr>"
  using assms by cases auto

lemma lact_fields [simp]:
  "lr_e (lact i (p, eo, q, lo) s) = eact i p eo (lr_e s)" "lr_q (lact i (p, eo, q, lo) s) = (lr_q s)(i := q)"
  "lr_lo (lact i (p, eo, q, lo) s) = (lr_lo s)(i := lo)" "lr_net (lact i (p, eo, q, lo) s) = lr_net s"
  "lr_slog (lact i (p, eo, q, lo) s) = lr_slog s" "lr_scommit (lact i (p, eo, q, lo) s) = lr_scommit s"
  "lr_pacc (lact i (p, eo, q, lo) s) = lr_pacc s"
  by (simp_all add: lact_def)

lemma eact_fields [simp]:
  "es_peer (eact i p eo e) = (es_peer e)(i := p)" "es_out (eact i p eo e) = (es_out e)(i := eo)" "es_saved (eact i p eo e) = es_saved e"
  "es_net (eact i p eo e) = es_net e" "es_led (eact i p eo e) = es_led e \<union> led i p"
  by (simp_all add: eact_def)

lemma world_lact:
  "world_of (lact i (p, eo, q, lo) s) = (if ep_role p = StateLeader
     then (world_of s)\<lparr>w_el := insert (ep_term p) (lr_el s), w_ll := (lr_ll s)(ep_term p := lp_log q), w_led := insert (i, ep_term p) (es_led (lr_e s))\<rparr>
     else world_of s)"
  by (simp add: world_of_def) (simp add: lact_def led_def)

lemma eact_same: "einv P e \<Longrightarrow> eact i (es_peer e i) (es_out e i) e = e"
proof -
  assume e: "einv P e"
  then have "votes_upto (es_vol e i) (ep_term (es_peer e i)) (ep_vote (es_peer e i))" "led i (es_peer e i) \<subseteq> es_led e"
    by (simp_all add: einv_def)
  then have "voted (ep_term (es_peer e i)) (ep_vote (es_peer e i)) (es_vol e i) = es_vol e i" "es_led e \<union> led i (es_peer e i) = es_led e"
    by (auto simp: voted_def votes_upto_def fun_upd_idem split: if_splits)
  then show ?thesis by (simp add: eact_def)
qed

lemma lact_ereach:
  assumes "ereach P (lr_e s)" "i \<in> P" "finite P" "0 \<notin> P" "lstep P i (es_net (lr_e s)) (lr_net s) (lnode_of s i) (p, eo, q, lo)"
  shows "ereach P (lr_e (lact i (p, eo, q, lo) s))"
proof -
  let ?e = "lr_e s"
  have "estep P i (es_net ?e) (es_peer ?e i, es_out ?e i) (p, eo) \<or> (p, eo) = (es_peer ?e i, es_out ?e i)"
    using lstep_estep assms(5) unfolding lnode_of_def by blast
  then show ?thesis
  proof
    assume "(p, eo) = (es_peer ?e i, es_out ?e i)"
    then show ?thesis using eact_same [OF ereach_inv [OF assms(1,3,4)]] assms(1) by simp
  qed (use ereach.act [OF assms(1,2)] in simp)
qed

lemma lact_close:
  assumes inv: "linv P T0 s" and s': "s' = lact i x s" and e: "ereach P (lr_e s')"
    and W': "grow (world_of s) (world_of s')" "world_ok (world_of s') P T0"
    and node: "node_inv (world_of s') P T0 (lr_net s) (es_net (lr_e s)) i x"
    and led: "\<And>l t. (l, t) \<in> w_led (world_of s') \<Longrightarrow> (l, t) \<in> w_led (world_of s) \<or> l = i \<and> t \<notin> w_el (world_of s)"
    and ll: "\<And>t. t \<in> w_el (world_of s) \<Longrightarrow> w_ll (world_of s') t \<noteq> w_ll (world_of s) t \<Longrightarrow> (i, t) \<in> w_led (world_of s')"
  shows "linv P T0 s'"
proof -
  let ?W = "world_of s" and ?W' = "world_of s'"
  obtain p eo q lo where x: "x = (p, eo, q, lo)" by (metis surj_pair)
  have W: "world_ok ?W P T0" using inv by (simp add: linv_def)
  have same: "w_st ?W' = w_st ?W" "w_pa ?W' = w_pa ?W" "lr_net s' = lr_net s" "es_net (lr_e s') = es_net (lr_e s)"
    "lr_slog s' = lr_slog s" "lr_scommit s' = lr_scommit s" unfolding s' x by (simp_all add: world_of_def)
  have "node_inv ?W' P T0 (lr_net s') (es_net (lr_e s')) j (lnode_of s' j)" for j
  proof (cases "j = i")
    case True
    then have "lnode_of s' j = x" by (simp add: s' x lnode_of_def)
    then show ?thesis using node True same by simp
  next
    case False
    then have n: "lnode_of s' j = lnode_of s j" by (simp add: s' x lnode_of_def)
    obtain pj ej qj lj where nj: "lnode_of s j = (pj, ej, qj, lj)" by (metis surj_pair)
    have inv_j: "node_inv ?W P T0 (lr_net s) (es_net (lr_e s)) j (pj, ej, qj, lj)" using inv nj unfolding linv_def by metis
    have "w_ll ?W' (ep_term pj) = w_ll ?W (ep_term pj)" if "ep_role pj = StateLeader"
    proof (rule ccontr)
      assume d: "w_ll ?W' (ep_term pj) \<noteq> w_ll ?W (ep_term pj)"
      have lj: "(j, ep_term pj) \<in> w_led ?W" using leader_facts(1) [OF inv_j that] .
      then have "ep_term pj \<in> w_el ?W" using world_led [OF W] by force
      then have "(i, ep_term pj) \<in> w_led ?W'" using ll d by blast
      moreover have "(j, ep_term pj) \<in> w_led ?W'" using lj W'(1) by (auto simp: grow_def)
      ultimately show False using led_same [OF W'(2)] False by blast
    qed
    then show ?thesis unfolding n nj same(3,4)
      using grow_node_inv [OF inv_j W'(1) world_led [OF W]] led False same by (metis order_refl)
  qed
  moreover have "saved_ok ?W' P T0 s' j" for j
    using inv grow_node_ok [OF W'(1)] unfolding linv_def saved_ok_def same by blast
  moreover have "lmsg_true ?W' P (w_pa ?W' (lmsg_from m)) m" if "m \<in> lr_net s'" for m
    using inv that grow_msg [OF W'(1) _ order_refl world_led [OF W]] unfolding linv_def same by blast
  ultimately show ?thesis using e W'(2) unfolding linv_def by blast
qed

lemma lact_linv:
  assumes inv: "linv P T0 s" and i: "i \<in> P" and P: "finite P" "0 \<notin> P" "2 \<le> card P"
    and step: "lstep P i (es_net (lr_e s)) (lr_net s) (lnode_of s i) x"
  shows "linv P T0 (lact i x s)" "grow (world_of s) (world_of (lact i x s))"
proof -
  let ?W = "world_of s" and ?M = "lr_net s" and ?H = "es_net (lr_e s)" and ?W' = "world_of (lact i x s)"
  let ?goal = "linv P T0 (lact i x s) \<and> grow ?W ?W'"
  obtain p' eo' q' lo' where x: "x = (p', eo', q', lo')" by (metis surj_pair)
  obtain p eo q lo where n: "lnode_of s i = (p, eo, q, lo)" by (metis surj_pair)
  then have pq: "es_peer (lr_e s) i = p" "es_out (lr_e s) i = eo" "lr_q s i = q" by (simp_all add: lnode_of_def)
  have W: "world_ok ?W P T0" and er: "ereach P (lr_e s)" using inv by (simp_all add: linv_def)
  have ni: "node_inv ?W P T0 ?M ?H i (p, eo, q, lo)" using inv n unfolding linv_def by metis
  have e: "ereach P (lr_e (lact i x s))" using lact_ereach [OF er i P(1,2)] step x by blast
  note M = linv_around [OF inv]
  note step' = step [unfolded x n]
  have same: ?goal if "?W' = ?W" "ep_role p' = StateLeader \<Longrightarrow> ep_role p = StateLeader \<and> lp_log q' = lp_log q"
    using lstep_same [OF step' ni W M P(1,3) that(2)] lact_close [OF inv refl e] W that(1) unfolding x by simp
  have ?goal
  proof (cases "ep_role p' = StateLeader")
    case False
    then show ?thesis using same by (simp add: x world_lact)
  next
    case True
    from step' True show ?thesis
    proof (cases rule: lstep_leads)
      case stays
      note l = leader_facts [OF ni stays(1)]
      have "(i, ep_term p) \<in> es_led (lr_e s)" "lr_ll s (ep_term p) = lp_log q'" "ep_term p \<in> lr_el s"
        using l(1,2) stays(3) world_led [OF W] by (auto simp: world_of_def)
      then have "?W' = ?W" using stays(2) by (simp add: x world_lact True) (simp add: world_of_def insert_absorb fun_upd_idem)
      then show ?thesis using same stays by simp
    next
      case (appends es)
      note l = leader_facts [OF ni appends(1)]
      have "(i, ep_term p) \<in> es_led (lr_e s)" "ep_term p \<in> lr_el s" using l(1) world_led [OF W] by (auto simp: world_of_def)
      then have W': "?W' = ?W\<lparr>w_ll := (w_ll ?W)(ep_term p := lp_log q @ es)\<rparr>"
        using appends by (simp add: x world_lact True) (simp add: world_of_def insert_absorb)
      then have "?W' = ?W\<lparr>w_ll := (w_ll ?W)(ep_term p := w_ll ?W (ep_term p) @ es)\<rparr>" using l(2) by simp
      note gw = append_world [OF W l(1) appends(2) this]
      have ni': "node_inv ?W' P T0 ?M ?H i x" using append_inv [OF ni W appends(1,2) W'] appends(3-6) x by blast
      show ?thesis by (rule conjI [OF lact_close [OF inv refl e gw ni'] gw(1)]) (use l(1) in \<open>auto simp: W' split: if_splits\<close>)
    next
      case wins
      have out: "ep_term p \<notin> w_el ?W"
      proof
        assume "ep_term p \<in> w_el ?W"
        moreover have "T0 < ep_term p" using ni wins(1) by (simp add: node_inv_def held_def)
        ultimately obtain l where l: "(l, ep_term p) \<in> es_led (lr_e s)" using W by (auto simp: world_ok_def world_of_def)
        have "(i, ep_term p) \<in> es_led (lr_e (lact i x s))" "(l, ep_term p) \<in> es_led (lr_e (lact i x s))"
          using l wins(3) by (simp_all add: x led_def)
        then have "l = i" using ereach_one_leader [OF e P(1,2)] by blast
        then show False using l ni wins(1) by (auto simp: node_inv_def roles_def world_of_def)
      qed
      have W': "?W' = ?W\<lparr>w_el := insert (ep_term p) (w_el ?W), w_ll := (w_ll ?W)(ep_term p := lp_log q), w_led := insert (i, ep_term p) (w_led ?W)\<rparr>"
        using wins by (simp add: x world_lact) (simp add: world_of_def)
      note v = voters_saved [OF ereach_inv [OF er P(1,2)] pq(1) wins(1,2) P(3) i]
      have others: "held ?W P T0 j (es_peer (lr_e s) j) (lr_q s j) \<and> grants ?W P ?M ?H j (es_peer (lr_e s) j) (lr_q s j) (es_out (lr_e s) j)" for j
        using inv by (simp add: linv_def node_inv_def lnode_of_def)
      have c: "claims ?W ?M i p q lo" using ni by (simp add: node_inv_def)
      have st: "w_st ?W j = fst (es_saved (lr_e s) j)" for j by (simp add: world_of_def)
      note gw = win_world [OF ni W M wins(1) out v(1) v(2) [folded st] v(3) [folded st] others c W']
      have ni': "node_inv ?W' P T0 ?M ?H i x" using win_inv [OF ni W wins(1) out gw(1) W'] wins(3-6) x by simp
      show ?thesis by (rule conjI [OF lact_close [OF inv refl e gw ni'] gw(1)]) (use out in \<open>auto simp: W' split: if_splits\<close>)
    qed
  qed
  then show "linv P T0 (lact i x s)" "grow ?W ?W'" by blast+
qed

text \<open>Saving: what a peer may acknowledge becomes fixed, its messages go out.\<close>

lemma lflush_linv:
  assumes inv: "linv P T0 s" and i: "i \<in> P" and P: "finite P" "0 \<notin> P"
  shows "linv P T0 (lflush i s)" "grow (world_of s) (world_of (lflush i s))"
proof -
  let ?W = "world_of s" and ?M = "lr_net s" and ?H = "es_net (lr_e s)" and ?s = "lflush i s"
  let ?W' = "world_of ?s"
  obtain p eo q lo where n: "lnode_of s i = (p, eo, q, lo)" by (metis surj_pair)
  then have pq: "es_peer (lr_e s) i = p" "es_out (lr_e s) i = eo" "lr_q s i = q" "lr_lo s i = lo" by (simp_all add: lnode_of_def)
  have W: "world_ok ?W P T0" and er: "ereach P (lr_e s)" using inv by (simp_all add: linv_def)
  have ni: "node_inv ?W P T0 ?M ?H i (p, eo, q, lo)" using inv n unfolding linv_def by metis
  then have h: "held ?W P T0 i p q" "roles ?W ?H i p q" "claims ?W ?M i p q lo" "grants ?W P ?M ?H i p q eo" "sent ?W P i q lo"
    by (simp_all add: node_inv_def)
  have W': "?W' = ?W\<lparr>w_st := (w_st ?W)(i := ep_term p), w_pa := (w_pa ?W)(i := lp_acc q)\<rparr>"
    by (simp add: world_of_def lflush_def eflush_def pq fun_eq_iff)
  have M': "lr_net ?s = ?M \<union> lo" and H': "es_net (lr_e ?s) = ?H \<union> eo" by (simp_all add: lflush_def eflush_def pq)
  have "w_st ?W i \<le> ep_term p" "w_pa ?W i t \<le> lp_acc q t" "t < w_st ?W i \<Longrightarrow> lp_acc q t = w_pa ?W i t" for t
    using h(1) by (simp_all add: held_def)
  then have g: "grow ?W ?W'" by (simp add: W' grow_def)
  have acc: "0 < lp_acc q t \<Longrightarrow> t \<in> w_el ?W \<and> lp_acc q t \<le> length (w_ll ?W t)" for t using held_node [OF ni] by (simp add: node_ok_def)
  have same: "w_el ?W' = w_el ?W" "w_ll ?W' = w_ll ?W" "w_led ?W' = w_led ?W" by (simp_all add: W')
  have hs: "has ?W' = has ?W" "made ?W' = made ?W" by (simp_all add: W' has_def made_def fun_eq_iff)
  have wok: "world_ok ?W' P T0"
    unfolding world_ok_def same hs
  proof (intro conjI)
    show "w_el ?W = insert T0 (snd ` w_led ?W)" "\<forall>k j t. (k, t) \<in> w_led ?W \<and> (j, t) \<in> w_led ?W \<longrightarrow> k = j"
      using W unfolding world_ok_def by blast+
    have st: "w_st ?W j \<le> w_st ?W' j" for j using g by (simp add: grow_def)
    show "\<forall>(l, t)\<in>w_led ?W. T0 < t \<and> t \<le> w_st ?W' l \<and> (\<exists>Q. majority P Q \<and> (\<forall>j\<in>Q. t \<le> w_st ?W' j))"
    proof (intro ballI, clarify)
      fix l t assume "(l, t) \<in> w_led ?W"
      then have "T0 < t \<and> t \<le> w_st ?W l \<and> (\<exists>Q. majority P Q \<and> (\<forall>j\<in>Q. t \<le> w_st ?W j))" using W unfolding world_ok_def by blast
      then show "T0 < t \<and> t \<le> w_st ?W' l \<and> (\<exists>Q. majority P Q \<and> (\<forall>j\<in>Q. t \<le> w_st ?W' j))" using st le_trans by blast
    qed
    show "\<forall>t\<in>w_el ?W. inlog ?W' (w_ll ?W t) \<and> upto (w_ll ?W t) t" using world_logs [OF W] grow_inlog [OF g] by blast
    show "\<forall>t n u. made ?W t n \<and> u \<in> w_el ?W \<and> t < u \<longrightarrow> has ?W (w_ll ?W u) t n \<or> dead ?W' P t n"
      using complete [OF W] grow_dead [OF g] by blast
    have "\<forall>j t. 0 < w_pa ?W j t \<longrightarrow> t \<in> w_el ?W \<and> w_pa ?W j t \<le> length (w_ll ?W t)" using W unfolding world_ok_def by blast
    then show "\<forall>j t. 0 < w_pa ?W' j t \<longrightarrow> t \<in> w_el ?W \<and> w_pa ?W' j t \<le> length (w_ll ?W t)" using acc by (simp add: W')
  qed
  have msgs: "lmsg_from m = i \<and> lmsg_true ?W P (lp_acc q) m" if "m \<in> lo" for m using h(5) that by (simp add: sent_def)
  have er': "ereach P (lr_e ?s)" using ereach.flush [OF er i] by (simp add: lflush_def)
  have out: "msg_from m = i" if "m \<in> eo" for m using ereach_inv [OF er P] that pq(2) unfolding einv_def by blast
  have "node_inv ?W' P T0 (lr_net ?s) (es_net (lr_e ?s)) j (lnode_of ?s j)" for j
  proof (cases "j = i")
    case False
    then have nj: "lnode_of ?s j = lnode_of s j" by (simp add: lnode_of_def lflush_def eflush_def)
    obtain pj ej qj lj where x: "lnode_of s j = (pj, ej, qj, lj)" by (metis surj_pair)
    have inv_j: "node_inv ?W P T0 ?M ?H j (pj, ej, qj, lj)" using inv x unfolding linv_def by metis
    show ?thesis unfolding nj x
    proof (rule grow_node_inv [OF inv_j g world_led [OF W]])
      show "w_pa ?W' j = w_pa ?W j" "w_st ?W' j = w_st ?W j" using False by (simp_all add: W')
      show "?M \<subseteq> lr_net ?s" "?H \<subseteq> es_net (lr_e ?s)" using M' H' by auto
      show "Claim j t L \<in> lr_net ?s \<Longrightarrow> Claim j t L \<in> ?M" for t L using M' msgs [of "Claim j t L"] False by auto
      show "Grant j c t \<in> es_net (lr_e ?s) \<Longrightarrow> Grant j c t \<in> ?H" for c t using H' out [of "Grant j c t"] False by (auto simp: msg_from_def)
    qed (simp_all only: same)
  next
    case True
    have x: "lnode_of ?s j = (p, {}, q, {})" using True by (simp add: lnode_of_def lflush_def eflush_def pq)
    have "held ?W' P T0 i p q"
    proof -
      have "n \<le> w_pa ?W' l t" if "(l, t) \<in> w_led ?W" "l \<noteq> i" "made ?W t n" "n \<le> lp_acc q t" for l t n
        using h(1) that unfolding held_def by (auto simp: W')
      then show ?thesis using h(1) grow_node_ok [OF g] unfolding held_def same hs by (simp add: W')
    qed
    moreover have "roles ?W' (es_net (lr_e ?s)) i p q" using h(2) H' by (auto simp: roles_def W')
    moreover have "claims ?W' (lr_net ?s) i p q {}"
    proof -
      have "Claim i t L \<in> lr_net ?s \<union> {} \<longleftrightarrow> Claim i t L \<in> ?M \<union> lo" "Claim i t L \<in> lr_net ?s \<longleftrightarrow> Claim i t L \<in> ?M \<union> lo" for t L
        using M' by auto
      note eq = this
      have st: "w_st ?W' i = ep_term p" by (simp add: W')
      have c: "t \<le> ep_term p" "t = ep_term p \<and> ep_role p = StateCandidate \<longrightarrow> L = lp_log q" "inlog ?W L" "\<forall>x\<in>set L. e_Term x < t"
        if "Claim i t L \<in> ?M \<union> lo" for t L using h(3) that unfolding claims_def by blast+
      have u: "\<forall>t L L'. Claim i t L \<in> ?M \<union> lo \<and> Claim i t L' \<in> ?M \<union> lo \<longrightarrow> L = L'" using h(3) unfolding claims_def by blast
      show ?thesis unfolding claims_def eq st
        by (intro conjI allI impI, (rule c; assumption), (rule c(2) [rule_format], assumption+), (rule grow_inlog [OF g c(3)], assumption),
            (rule c; assumption), (rule u [rule_format]; assumption), (rule c; assumption))
    qed
    moreover have "grants ?W' P (lr_net ?s) (es_net (lr_e ?s)) i p q {}"
      unfolding grants_def
    proof (intro allI impI)
      fix c t assume "Grant i c t \<in> es_net (lr_e ?s) \<union> {}"
      then have "Grant i c t \<in> ?H \<union> eo" using H' by simp
      then obtain L where "t \<le> ep_term p" "Claim c t L \<in> ?M" "vsafe ?W P t L (lp_acc q)" using h(4) unfolding grants_def by blast
      then show "t \<le> ep_term p \<and> (\<exists>L. Claim c t L \<in> lr_net ?s \<and> vsafe ?W' P t L (lp_acc q))" using grow_vsafe [OF g _ acc] M' by blast
    qed
    ultimately show ?thesis unfolding x using True by (simp add: node_inv_def sent_def)
  qed
  moreover have "saved_ok ?W' P T0 ?s j" for j
  proof (cases "j = i")
    case True
    then have "lr_slog ?s j = lp_log q" "lr_scommit ?s j = lp_commit q" "w_st ?W' j = ep_term p" "w_pa ?W' j = lp_acc q"
      by (simp add: lflush_def pq, simp add: lflush_def pq, simp_all add: W')
    then show ?thesis using grow_node_ok [OF g held_node [OF ni]] h(1) unfolding saved_ok_def held_def by metis
  next
    case False
    have "node_ok ?W P (w_st ?W j) (lr_slog s j) (lr_scommit s j) (w_pa ?W j) \<and> T0 \<le> w_st ?W j" using inv by (simp add: linv_def saved_ok_def)
    moreover have "lr_slog ?s j = lr_slog s j" "lr_scommit ?s j = lr_scommit s j" "w_st ?W' j = w_st ?W j" "w_pa ?W' j = w_pa ?W j"
      using False by (simp add: lflush_def, simp add: lflush_def, simp_all add: W')
    ultimately show ?thesis using grow_node_ok [OF g] unfolding saved_ok_def by metis
  qed
  moreover have "lmsg_true ?W' P (w_pa ?W' (lmsg_from m)) m" if m: "m \<in> lr_net ?s" for m
  proof (cases "m \<in> lo")
    case True
    then show ?thesis using msgs [OF True] grow_msg [OF g _ order_refl world_led [OF W]] by (simp add: W')
  next
    case False
    then have "lmsg_true ?W P (w_pa ?W (lmsg_from m)) m" using inv m M' by (auto simp: linv_def)
    moreover have "w_pa ?W (lmsg_from m) t \<le> w_pa ?W' (lmsg_from m) t" for t using g by (simp add: grow_def)
    ultimately show ?thesis by (rule grow_msg [OF g _ _ world_led [OF W]])
  qed
  ultimately show "linv P T0 (lflush i s)" "grow ?W ?W'" using er' wok g unfolding linv_def by blast+
qed

lemma vsafe_less: "vsafe W P T L acc \<Longrightarrow> (\<And>t. acc' t \<le> acc t) \<Longrightarrow> vsafe W P T L acc'"
  unfolding vsafe_def by (meson le_trans)

lemma lrestart_linv:
  assumes inv: "linv P T0 s" and i: "i \<in> P" and P: "finite P" "0 \<notin> P"
  shows "linv P T0 (lrestart i s)"
proof -
  let ?W = "world_of s" and ?M = "lr_net s" and ?H = "es_net (lr_e s)" and ?s = "lrestart i s"
  obtain p eo q lo where n: "lnode_of s i = (p, eo, q, lo)" by (metis surj_pair)
  have W: "world_ok ?W P T0" and er: "ereach P (lr_e s)" using inv by (simp_all add: linv_def)
  have ni: "node_inv ?W P T0 ?M ?H i (p, eo, q, lo)" using inv n unfolding linv_def by metis
  then have h: "held ?W P T0 i p q" "claims ?W ?M i p q lo" "grants ?W P ?M ?H i p q eo" by (simp_all add: node_inv_def)
  have sv: "node_ok ?W P (w_st ?W i) (lr_slog s i) (lr_scommit s i) (w_pa ?W i)" "T0 \<le> w_st ?W i" using inv by (simp_all add: linv_def saved_ok_def)
  have same: "world_of ?s = ?W" "lr_net ?s = ?M" "es_net (lr_e ?s) = ?H" "lr_slog ?s = lr_slog s" "lr_scommit ?s = lr_scommit s"
    by (simp_all add: world_of_def lrestart_def erestart_def)
  let ?p = "recovered (es_saved (lr_e s) i)"
  let ?q = "\<lparr>lp_log = lr_slog s i, lp_commit = lr_scommit s i, lp_match = (\<lambda>_. 0), lp_acc = w_pa ?W i\<rparr>"
  have x: "lnode_of ?s i = (?p, {}, ?q, {})" by (simp add: lnode_of_def lrestart_def erestart_def world_of_def)
  have pt: "ep_term ?p = w_st ?W i" "ep_role ?p = StateFollower" by (simp_all add: recovered_def world_of_def)
  have le: "w_pa ?W i t \<le> lp_acc q t" for t using h(1) by (simp add: held_def)
  have "held ?W P T0 i ?p ?q"
  proof -
    have "k \<le> w_pa ?W l t" if "(l, t) \<in> w_led ?W" "l \<noteq> i" "made ?W t k" "k \<le> w_pa ?W i t" for l t k
      using h(1) that le_trans [OF that(4) le] unfolding held_def by blast
    then show ?thesis using sv pt by (simp add: held_def)
  qed
  moreover have "roles ?W ?H i ?p ?q"
  proof -
    have "t \<le> w_st ?W i" if "(i, t) \<in> w_led ?W" for t using W that unfolding world_ok_def by blast
    then show ?thesis using pt by (simp add: roles_def)
  qed
  moreover have "claims ?W ?M i ?p ?q {}"
    using h(2) unfolding claims_def pt by (metis StateType.distinct(1) Un_iff empty_iff)
  moreover have "grants ?W P ?M ?H i ?p ?q {}"
    unfolding grants_def
  proof (intro allI impI)
    fix c t assume g: "Grant i c t \<in> ?H \<union> {}"
    then have "t \<le> ep_term ?p" using granted_saved [OF ereach_inv [OF er P]] pt by (simp add: world_of_def)
    moreover obtain L where "Claim c t L \<in> ?M" "vsafe ?W P t L (lp_acc q)" using h(3) g unfolding grants_def by blast
    ultimately show "t \<le> ep_term ?p \<and> (\<exists>L. Claim c t L \<in> ?M \<and> vsafe ?W P t L (lp_acc ?q))" using vsafe_less [OF _ le] by auto
  qed
  ultimately have ni': "node_inv ?W P T0 ?M ?H i (lnode_of ?s i)" unfolding x by (simp add: node_inv_def sent_def)
  have "node_inv ?W P T0 ?M ?H j (lnode_of ?s j)" for j
  proof (cases "j = i")
    case False
    then have "lnode_of ?s j = lnode_of s j" by (simp add: lnode_of_def lrestart_def erestart_def)
    then show ?thesis using inv by (simp add: linv_def)
  qed (use ni' in simp)
  moreover have "ereach P (lr_e ?s)" using ereach.restart [OF er i] by (simp add: lrestart_def)
  ultimately show ?thesis using inv unfolding linv_def saved_ok_def same by blast
qed

lemma lstart_linv:
  assumes T0: "\<And>i. T0 \<le> fst (sv i)" and D: "\<forall>x\<in>set D. e_Term x = T0" and P: "finite P" "P \<noteq> {}"
  shows "linv P T0 (lstart T0 D sv)"
proof -
  let ?s = "lstart T0 D sv"
  let ?W = "world_of ?s"
  have W: "w_el ?W = {T0}" "w_ll ?W T0 = D" "w_led ?W = {}" "w_st ?W = (\<lambda>i. fst (sv i))" "w_pa ?W = (\<lambda>_. first_acc T0 D)"
    by (simp_all add: world_of_def lstart_def estart_def)
  have same: "lterm D n = T0" if "0 < n" "n \<le> length D" for n using D that by (simp add: lterm_def)
  have made: "made ?W t n \<longleftrightarrow> t = T0 \<and> 0 < n \<and> n \<le> length D" for t n using same W(1,2) by (auto simp: made_def)
  have has: "has ?W D T0 n" if "n \<le> length D" for n using that W(2) by (simp add: has_def)
  have inlog: "inlog ?W D" unfolding inlog_def using made has same by simp
  have maj: "majority P P" using P by (simp add: majority_def card_gt_0_iff)
  have "secured ?W P D (length D) T" if "T0 \<le> T" for T
  proof -
    have "comm ?W P T0 (length D)" if "0 < length D" using that made maj W(5) by (auto simp: comm_def first_acc_def)
    then show ?thesis using has [of "length D"] that unfolding secured_def by blast
  qed
  then have ok: "node_ok ?W P T D (length D) (first_acc T0 D)" if "T0 \<le> T" for T
    using that inlog made has W(1,2) D by (auto simp: node_ok_def first_acc_def upto_def)
  have "world_ok ?W P T0" unfolding world_ok_def using W inlog made D by (auto simp: first_acc_def upto_def)
  moreover have "node_inv ?W P T0 (lr_net ?s) (es_net (lr_e ?s)) i (lnode_of ?s i)" for i
  proof -
    have x: "lnode_of ?s i = (recovered (sv i), {}, \<lparr>lp_log = D, lp_commit = length D, lp_match = (\<lambda>_. 0), lp_acc = first_acc T0 D\<rparr>, {})"
      "lr_net ?s = {}" "es_net (lr_e ?s) = {}" by (simp_all add: lnode_of_def lstart_def estart_def)
    have "ep_term (recovered (sv i)) = fst (sv i)" "ep_role (recovered (sv i)) = StateFollower" by (simp_all add: recovered_def)
    then show ?thesis unfolding x using W T0 [of i] ok [OF T0 [of i]]
      by (simp add: node_inv_def held_def roles_def claims_def grants_def sent_def)
  qed
  moreover have "saved_ok ?W P T0 ?s i" for i using W T0 [of i] ok [OF T0 [of i]] by (simp add: saved_ok_def) (simp add: lstart_def)
  moreover have "ereach P (lr_e ?s)" "lr_net ?s = {}" by (simp_all add: lstart_def ereach.start)
  ultimately show ?thesis by (simp add: linv_def)
qed

lemma lreach_linv:
  assumes "lreach P T0 D s" "finite P" "0 \<notin> P" "2 \<le> card P" "\<forall>x\<in>set D. e_Term x = T0"
  shows "linv P T0 s"
  using assms(1)
proof (induction rule: lreach.induct)
  case (start sv)
  moreover have "P \<noteq> {}" using assms(4) by auto
  ultimately show ?case using lstart_linv [of T0 sv D P] assms(2,5) by blast
next
  case (act s i x)
  then show ?case using lact_linv assms(2-4) by blast
next
  case (flush s i)
  then show ?case using lflush_linv assms(2,3) by blast
next
  case (restart s i)
  then show ?case using lrestart_linv assms(2,3) by blast
qed

section \<open>Safety\<close>

lemma linv_node: "linv P T0 s \<Longrightarrow> node_inv (world_of s) P T0 (lr_net s) (es_net (lr_e s)) i (es_peer (lr_e s) i, es_out (lr_e s) i, lr_q s i, lr_lo s i)"
  by (simp add: linv_def lnode_of_def)

lemma linv_log: "linv P T0 s \<Longrightarrow> node_ok (world_of s) P (ep_term (es_peer (lr_e s) i)) (lp_log (lr_q s i)) (lp_commit (lr_q s i)) (lp_acc (lr_q s i))"
  using held_node [OF linv_node] .

text \<open>Logs with the same term at an index agree up to the index.\<close>

lemma log_matching:
  assumes "linv P T0 s" "n \<le> length (lp_log (lr_q s i))" "n \<le> length (lp_log (lr_q s j))"
    "lterm (lp_log (lr_q s i)) n = lterm (lp_log (lr_q s j)) n"
  shows "take n (lp_log (lr_q s i)) = take n (lp_log (lr_q s j))"
proof -
  have "inlog (world_of s) (lp_log (lr_q s k))" for k using linv_log [OF assms(1), of k] by (simp add: node_ok_def)
  then show ?thesis using logs_match assms(2-4) by blast
qed

text \<open>What was committed stays committed: a fact about the past that every later state keeps.\<close>

definition committed :: "world \<Rightarrow> nat set \<Rightarrow> Entry list \<Rightarrow> bool" where
  "committed W P L \<longleftrightarrow> (L \<noteq> [] \<longrightarrow> (\<exists>t n. comm W P t n \<and> length L \<le> n \<and> has W L t (length L)))"

lemma grow_committed: "grow W W' \<Longrightarrow> committed W P L \<Longrightarrow> committed W' P L"
  unfolding committed_def by (meson comm_def grow_comm grow_has made_def)

lemma secured_committed: "secured W P L c T \<Longrightarrow> committed W P (take c L)"
  unfolding secured_def committed_def
proof (elim conjE, intro impI)
  assume c: "c \<le> length L" "0 < c \<longrightarrow> (\<exists>t n. t \<le> T \<and> comm W P t n \<and> c \<le> n \<and> has W L t c)" "take c L \<noteq> []"
  then obtain t n where "comm W P t n" "c \<le> n" "has W L t c" by auto
  then show "\<exists>t n. comm W P t n \<and> length (take c L) \<le> n \<and> has W (take c L) t (length (take c L))"
    using c(1) by (intro exI [of _ t] exI [of _ n]) (simp add: has_def min_def)
qed

lemma committed_agree:
  assumes W: "world_ok W P T0" "finite P" and L: "committed W P L" "committed W P M" and n: "n \<le> length L" "n \<le> length M"
  shows "take n L = take n M"
proof (cases "n = 0")
  case False
  then obtain t k u m where t: "comm W P t k" "length L \<le> k" "has W L t (length L)" "comm W P u m" "length M \<le> m" "has W M u (length M)"
    using L n unfolding committed_def by (metis le_zero_eq length_0_conv)
  have ext: "has W (w_ll W b) a j" if "comm W P a k" "comm W P b m" "a \<le> b" "j \<le> k" for a b j k m
    using secured_later [OF W(1) that(1) _ that(3) W(2)] that(2,4) has_mono unfolding comm_def made_def by blast
  have hL: "has W L t n" "has W M u n" using t(3,6) n has_mono by blast+
  have "t \<le> u \<or> u \<le> t" by linarith
  then have "take n (w_ll W t) = take n (w_ll W u)"
    using ext [OF t(1,4), of n] ext [OF t(4,1), of n] t(2,5) n by (auto simp: has_def)
  then show ?thesis using hL by (simp add: has_def)
qed simp

section \<open>Sequences of steps\<close>

lemma lstep_hears: "lstep P i H M x y \<Longrightarrow> H \<subseteq> H' \<Longrightarrow> M \<subseteq> M' \<Longrightarrow> lstep P i H' M' x y"
proof (induction rule: lstep.induct)
  case (behind p eo q lo)
  have "(\<exists>l k u es c. App l (ep_term p) k u es c \<in> M') \<or> (\<exists>l L. Snap l (ep_term p) L \<in> M')" using behind(2,4) by blast
  then show ?case by (rule lstep.behind [OF behind(1)])
qed (blast intro: lstep.intros)+

lemma lsteps_hear: "lsteps P i H M x y \<Longrightarrow> H \<subseteq> H' \<Longrightarrow> M \<subseteq> M' \<Longrightarrow> lsteps P i H' M' x y"
  by (induction rule: rtranclp_induct) (auto intro: rtranclp.rtrancl_into_rtrancl lstep_hears)

definition lacted :: "nat \<Rightarrow> lnode \<Rightarrow> lsys \<Rightarrow> lsys \<Rightarrow> bool" where
  "lacted i x s s' \<longleftrightarrow> lnode_of s' = (lnode_of s)(i := x) \<and> es_saved (lr_e s') = es_saved (lr_e s) \<and> es_net (lr_e s') = es_net (lr_e s)
     \<and> lr_net s' = lr_net s \<and> lr_slog s' = lr_slog s \<and> lr_scommit s' = lr_scommit s \<and> grow (world_of s) (world_of s')"

lemma grow_trans:
  assumes "grow W W1" "grow W1 W2"
  shows "grow W W2"
proof -
  have "\<exists>es. w_ll W2 t = w_ll W t @ es \<and> (\<forall>x\<in>set es. e_Term x = t)" if t: "t \<in> w_el W" for t
  proof -
    obtain es where "w_ll W1 t = w_ll W t @ es" "\<forall>x\<in>set es. e_Term x = t" using grow_ll [OF assms(1) t] by blast
    moreover have "t \<in> w_el W1" using assms(1) t by (auto simp: grow_def)
    then obtain fs where "w_ll W2 t = w_ll W1 t @ fs" "\<forall>x\<in>set fs. e_Term x = t" using grow_ll [OF assms(2)] by blast
    ultimately show ?thesis by (intro exI [of _ "es @ fs"]) auto
  qed
  moreover have "w_st W i \<le> w_st W2 i" "w_pa W i t \<le> w_pa W2 i t" for i t using assms unfolding grow_def by (meson le_trans)+
  moreover have "w_pa W2 i t = w_pa W i t" if "t < w_st W i" for i t using assms that unfolding grow_def by (metis less_le_trans)
  moreover have "w_el W \<subseteq> w_el W2" "w_led W \<subseteq> w_led W2" using assms unfolding grow_def by (meson order_trans)+
  ultimately show ?thesis unfolding grow_def by (intro conjI ballI allI impI)
qed

lemma lreach_lsteps:
  assumes "lsteps P i (es_net (lr_e s)) (lr_net s) (lnode_of s i) x" "lreach P T0 D s" "i \<in> P" "finite P" "0 \<notin> P" "2 \<le> card P"
    "\<forall>x\<in>set D. e_Term x = T0"
  shows "\<exists>s'. lreach P T0 D s' \<and> lacted i x s s'"
  using assms(1)
proof (induction rule: rtranclp_induct)
  case base
  then show ?case using assms(2) by (intro exI [of _ s]) (simp add: lacted_def)
next
  case (step y x)
  then obtain s1 where s1: "lreach P T0 D s1" "lacted i y s s1" by blast
  have "lstep P i (es_net (lr_e s1)) (lr_net s1) (lnode_of s1 i) x" using step(2) s1(2) by (simp add: lacted_def)
  note a = lreach.act [OF s1(1) assms(3) this] lact_linv(2) [OF lreach_linv [OF s1(1) assms(4-7)] assms(3-6) this]
  obtain p eo q lo where x: "x = (p, eo, q, lo)" by (metis surj_pair)
  have "lnode_of (lact i x s1) = (lnode_of s1)(i := x)" by (simp add: x lnode_of_def fun_eq_iff)
  then have "lacted i x s (lact i x s1)" using s1(2) grow_trans [OF _ a(2)] by (simp add: lacted_def x)
  then show ?case using a(1) by blast
qed

end
