(* ===== verification/RawNode.thy ===== *)
theory RawNode
  imports Raft
begin

text \<open>
  The interface of the Raft library to its application, \<open>raft/rawnode.go\<close>: the application
  steps and ticks the node, takes a \<open>Ready\<close> (state to save, messages to send, entries to
  apply), and reports with \<open>Advance\<close> that it is done with it.
\<close>

section \<open>Ready\<close>

definition SoftState_equal :: "SoftState \<Rightarrow> SoftState \<Rightarrow> bool" where
  "SoftState_equal a b \<longleftrightarrow> ss_Lead a = ss_Lead b \<and> ss_RaftState a = ss_RaftState b"

record Ready =
  rdy_SoftState :: "SoftState option"
  rdy_HardState :: HardState
  rdy_Entries :: "Entry list"
  rdy_Snapshot :: Snapshot
  rdy_CommittedEntries :: "Entry list"
  rdy_Messages :: "Message list"

definition newReady :: "Raft \<Rightarrow> SoftState \<Rightarrow> HardState \<Rightarrow> (Ready \<times> Raft) rres" where
  "newReady r prevSoftSt prevHardSt =
     bindR (log_unstableEntries (r_RaftLog r)) (\<lambda>unstable.
     bindR (log_nextEnts (r_RaftLog r)) (\<lambda>next.
       Inr (\<lparr>rdy_SoftState = (if \<not> SoftState_equal (softState r) prevSoftSt then Some (softState r) else None),
             rdy_HardState = (if \<not> isHardStateEqual (hardState r) prevHardSt then hardState r else emptyHardState),
             rdy_Entries = unstable,
             rdy_Snapshot = (case lg_pending_snapshot (r_RaftLog r) of Some s \<Rightarrow> s | None \<Rightarrow> emptySnapshot),
             rdy_CommittedEntries = next,
             rdy_Messages = r_msgs r\<rparr>,
            r\<lparr>r_msgs := []\<rparr>)))"

section \<open>The node\<close>

record RawNode =
  rn_Raft :: Raft
  rn_prevSoftSt :: SoftState
  rn_prevHardSt :: HardState

definition NewRawNode :: "raft_storage \<Rightarrow> Config \<Rightarrow> (nat \<Rightarrow> nat) \<Rightarrow> RawNode rres" where
  "NewRawNode st config rand =
     (if c_ID config = 0 then Inl (RPanic ''config.ID must not be zero'')
      else bindR (newRaft st config rand) (\<lambda>r.
             Inr \<lparr>rn_Raft = r, rn_prevSoftSt = softState r, rn_prevHardSt = hardState r\<rparr>))"

definition RawNode_Tick :: "raft_storage \<Rightarrow> RawNode \<Rightarrow> RawNode rres" where
  "RawNode_Tick st rn = bindR (tick st (rn_Raft rn)) (\<lambda>r. Inr (rn\<lparr>rn_Raft := r\<rparr>))"

definition rn_step :: "raft_storage \<Rightarrow> Message \<Rightarrow> RawNode \<Rightarrow> (rerr option \<times> RawNode) rres" where
  "rn_step st m rn = bindR (Step st m (rn_Raft rn)) (\<lambda>(e, r). Inr (e, rn\<lparr>rn_Raft := r\<rparr>))"

definition RawNode_Campaign :: "raft_storage \<Rightarrow> RawNode \<Rightarrow> (rerr option \<times> RawNode) rres" where
  "RawNode_Campaign st rn = rn_step st (zeroMessage\<lparr>m_MsgType := MsgHup\<rparr>) rn"

definition RawNode_Propose :: "raft_storage \<Rightarrow> goslice \<Rightarrow> RawNode \<Rightarrow> (rerr option \<times> RawNode) rres" where
  "RawNode_Propose st data rn =
     rn_step st (zeroMessage\<lparr>m_MsgType := MsgPropose, m_From := r_id (rn_Raft rn),
                             m_Entries := [zeroEntry\<lparr>e_Data := data\<rparr>]\<rparr>) rn"

text \<open>
  \<open>ConfChange.Marshal\<close> is generated code: the parameter \<open>marshal\<close>.
\<close>

datatype ConfChangeType = AddNode | RemoveNode | ConfChangeUnknown

record ConfChange =
  cc_ChangeType :: ConfChangeType
  cc_NodeId :: nat
  cc_Context :: goslice

definition RawNode_ProposeConfChange ::
    "(ConfChange \<Rightarrow> rerr + goslice) \<Rightarrow> raft_storage \<Rightarrow> ConfChange \<Rightarrow> RawNode \<Rightarrow> (rerr option \<times> RawNode) rres" where
  "RawNode_ProposeConfChange marshal st cc rn =
     (case marshal cc of
        Inl e \<Rightarrow> Inr (Some e, rn)
      | Inr data \<Rightarrow>
          rn_step st (zeroMessage\<lparr>m_MsgType := MsgPropose,
             m_Entries := [zeroEntry\<lparr>e_EntryType := EntryConfChange, e_Data := data\<rparr>]\<rparr>) rn)"

definition RawNode_ApplyConfChange ::
    "raft_storage \<Rightarrow> ConfChange \<Rightarrow> RawNode \<Rightarrow> (nat list \<times> RawNode) rres" where
  "RawNode_ApplyConfChange st cc rn =
     (if cc_NodeId cc = NoNode then Inr (nodes (rn_Raft rn), rn)
      else bindR (case cc_ChangeType cc of
                    AddNode \<Rightarrow> Inr (addNode (cc_NodeId cc) (rn_Raft rn))
                  | RemoveNode \<Rightarrow> removeNode st (cc_NodeId cc) (rn_Raft rn)
                  | ConfChangeUnknown \<Rightarrow> Inl (RPanic ''unexpected conf type''))
             (\<lambda>r. Inr (nodes r, rn\<lparr>rn_Raft := r\<rparr>)))"

definition IsLocalMsg :: "MessageType \<Rightarrow> bool" where
  "IsLocalMsg t \<longleftrightarrow> t = MsgHup \<or> t = MsgBeat"

definition IsResponseMsg :: "MessageType \<Rightarrow> bool" where
  "IsResponseMsg t \<longleftrightarrow> t = MsgAppendResponse \<or> t = MsgRequestVoteResponse \<or> t = MsgHeartbeatResponse"

definition RawNode_Step :: "raft_storage \<Rightarrow> Message \<Rightarrow> RawNode \<Rightarrow> (rerr option \<times> RawNode) rres" where
  "RawNode_Step st m rn =
     (if IsLocalMsg (m_MsgType m) then Inr (Some ErrStepLocalMsg, rn)
      else if getProgress (rn_Raft rn) (m_From m) \<noteq> None \<or> \<not> IsResponseMsg (m_MsgType m)
      then rn_step st m rn
      else Inr (Some ErrStepPeerNotFound, rn))"

definition RawNode_Ready :: "RawNode \<Rightarrow> (Ready \<times> RawNode) rres" where
  "RawNode_Ready rn =
     bindR (newReady (rn_Raft rn) (rn_prevSoftSt rn) (rn_prevHardSt rn)) (\<lambda>(rd, r).
       Inr (rd, rn\<lparr>rn_Raft := r\<lparr>r_msgs := []\<rparr>\<rparr>))"

definition RawNode_GetSnap :: "RawNode \<Rightarrow> Snapshot option" where
  "RawNode_GetSnap rn = raft_GetSnap (rn_Raft rn)"

definition RawNode_HasReady :: "RawNode \<Rightarrow> bool rres" where
  "RawNode_HasReady rn =
     (let r = rn_Raft rn; hardSt = hardState r; snap = RawNode_GetSnap rn in
      if \<not> SoftState_equal (softState r) (rn_prevSoftSt rn) then Inr True
      else if \<not> IsEmptyHardState hardSt \<and> \<not> isHardStateEqual hardSt (rn_prevHardSt rn) then Inr True
      else if snap \<noteq> None \<and> \<not> IsEmptySnap snap then Inr True
      else if r_msgs r \<noteq> [] then Inr True
      else bindR (log_unstableEntries (r_RaftLog r)) (\<lambda>unstable.
             Inr (unstable \<noteq> [] \<or> log_hasNextEnts (r_RaftLog r))))"

definition RawNode_Advance :: "Ready \<Rightarrow> RawNode \<Rightarrow> RawNode rres" where
  "RawNode_Advance rd rn =
     (let rn1 = (case rdy_SoftState rd of Some s \<Rightarrow> rn\<lparr>rn_prevSoftSt := s\<rparr> | None \<Rightarrow> rn);
          rn2 = (if \<not> IsEmptyHardState (rdy_HardState rd) then rn1\<lparr>rn_prevHardSt := rdy_HardState rd\<rparr> else rn1);
          l = r_RaftLog (rn_Raft rn2) in
      bindR (if hs_Commit (rn_prevHardSt rn2) \<noteq> 0 then log_appliedTo l (hs_Commit (rn_prevHardSt rn2))
             else Inr l) (\<lambda>l1.
      let l2 = (if rdy_Entries rd \<noteq> []
                then let e = rdy_Entries rd ! (length (rdy_Entries rd) - 1)
                     in log_stableTo l1 (e_Index e) (e_Term e)
                else l1);
          l3 = (if \<not> IsEmptySnap (Some (rdy_Snapshot rd))
                then log_stableSnapTo l2 (sm_Index (sn_Metadata (rdy_Snapshot rd))) else l2)
      in Inr (rn2\<lparr>rn_Raft := (rn_Raft rn2)\<lparr>r_RaftLog := l3\<rparr>\<rparr>)))"

definition RawNode_GetProgress :: "RawNode \<Rightarrow> (nat \<times> Progress) list" where
  "RawNode_GetProgress rn =
     (if r_State (rn_Raft rn) = StateLeader then r_Prs (rn_Raft rn) else [])"

definition RawNode_TransferLeader :: "raft_storage \<Rightarrow> nat \<Rightarrow> RawNode \<Rightarrow> RawNode rres" where
  "RawNode_TransferLeader st transferee rn =
     bindR (rn_step st (zeroMessage\<lparr>m_MsgType := MsgTransferLeader, m_From := transferee\<rparr>) rn)
       (\<lambda>(_, rn1). Inr rn1)"

end
