(* ===== verification/Election.thy ===== *)
theory Election
  imports Election_Spec RawNode
begin

text \<open>
  The Raft peers implement the election protocol: every call of \<open>Step\<close> and \<open>tick\<close> is a sequence
  of steps of the protocol. Most of what a peer does leaves its term, vote, role and tally
  alone and sends no vote message (\<open>quiet\<close>); what remains is becoming follower, candidate or
  leader, answering a request for a vote, and counting a vote.
\<close>

section \<open>What a peer shows of the election\<close>

definition abs_msg :: "Message \<Rightarrow> emsg option" where
  "abs_msg m =
     (if m_MsgType m = MsgRequestVote then Some (Ask (m_From m) (m_Term m))
      else if m_MsgType m = MsgRequestVoteResponse \<and> \<not> m_Reject m then Some (Grant (m_From m) (m_To m) (m_Term m))
      else None)"

definition abs_msgs :: "Message set \<Rightarrow> emsg set" where
  "abs_msgs ms = {e. \<exists>m\<in>ms. abs_msg m = Some e}"

definition abs_peer :: "Raft \<Rightarrow> epeer" where
  "abs_peer r = \<lparr>ep_term = r_Term r, ep_vote = r_Vote r, ep_role = r_State r, ep_yes = {j. (j, True) \<in> set (r_votes r)}\<rparr>"

definition abs_raft :: "Raft \<Rightarrow> epeer \<times> emsg set" where
  "abs_raft r = (abs_peer r, abs_msgs (set (r_msgs r)))"

lemma abs_msgs_simps [simp]:
  "abs_msgs {} = {}" "abs_msgs (A \<union> B) = abs_msgs A \<union> abs_msgs B"
  "abs_msgs (insert m A) = (case abs_msg m of None \<Rightarrow> abs_msgs A | Some e \<Rightarrow> insert e (abs_msgs A))"
  by (auto simp: abs_msgs_def split: option.splits)

text \<open>The configuration: the peers a peer and the snapshots it has or gets know of.\<close>

definition snap_conf :: "nat set \<Rightarrow> Snapshot \<Rightarrow> bool" where
  "snap_conf P s \<longleftrightarrow> set (sm_ConfState (sn_Metadata s)) = P"

definition members :: "Raft \<Rightarrow> nat list" where
  "members r = map fst (r_Prs r)"

definition conf :: "nat set \<Rightarrow> Raft \<Rightarrow> bool" where
  "conf P r \<longleftrightarrow> distinct (members r) \<and> set (members r) = P
     \<and> (\<forall>s. lg_pending_snapshot (r_RaftLog r) = Some s \<longrightarrow> snap_conf P s)"

definition st_conf :: "nat set \<Rightarrow> raft_storage \<Rightarrow> bool" where
  "st_conf P st \<longleftrightarrow> (\<forall>s. rs_Snapshot st = Inr s \<longrightarrow> snap_conf P s)"

definition msg_conf :: "nat set \<Rightarrow> Message \<Rightarrow> bool" where
  "msg_conf P m \<longleftrightarrow> (m_MsgType m = MsgSnapshot \<longrightarrow> (\<forall>s. m_Snapshot m = Some s \<longrightarrow> snap_conf P s))"

text \<open>Messages only a leader sends.\<close>

definition lead_msg :: "Message \<Rightarrow> bool" where
  "lead_msg m \<longleftrightarrow> m_MsgType m = MsgAppend \<or> m_MsgType m = MsgHeartbeat \<or> m_MsgType m = MsgSnapshot"

section \<open>Quiet operations\<close>

definition plain :: "nat set \<Rightarrow> Raft \<Rightarrow> Message \<Rightarrow> bool" where
  "plain P r m \<longleftrightarrow> m_From m = r_id r \<and> abs_msg m = None \<and> m_Term m = r_Term r
     \<and> m_MsgType m \<noteq> MsgRequestVoteResponse
     \<and> (lead_msg m \<longrightarrow> r_State r = StateLeader) \<and> msg_conf P m"

definition quiet :: "nat set \<Rightarrow> Raft \<Rightarrow> Raft \<Rightarrow> bool" where
  "quiet P r r' \<longleftrightarrow> r_id r' = r_id r \<and> r_Term r' = r_Term r \<and> r_Vote r' = r_Vote r \<and> r_State r' = r_State r
     \<and> r_votes r' = r_votes r \<and> conf P r' \<and> (\<exists>ms. r_msgs r' = r_msgs r @ ms \<and> (\<forall>m\<in>set ms. plain P r m))"

lemma quiet_refl [simp]: "conf P r \<Longrightarrow> quiet P r r"
  by (simp add: quiet_def)

lemma quiet_trans [trans]:
  assumes "quiet P r r1" "quiet P r1 r2"
  shows "quiet P r r2"
proof -
  obtain ms ms' where ms: "r_msgs r1 = r_msgs r @ ms" "\<forall>m\<in>set ms. plain P r m"
    "r_msgs r2 = r_msgs r1 @ ms'" "\<forall>m\<in>set ms'. plain P r1 m"
    using assms by (auto simp: quiet_def)
  have "plain P r1 = plain P r" using assms by (auto simp: plain_def quiet_def fun_eq_iff)
  with ms have "r_msgs r2 = r_msgs r @ (ms @ ms')" "\<forall>m\<in>set (ms @ ms'). plain P r m" by auto
  then show ?thesis using assms by (auto simp: quiet_def simp del: append_assoc)
qed

lemma quiet_conf: "quiet P r r' \<Longrightarrow> conf P r'"
  and quiet_State: "quiet P r r' \<Longrightarrow> r_State r' = r_State r"
  by (simp_all add: quiet_def)

lemma send_quiet:
  assumes "conf P r" "send m r = Inr r'" "m_MsgType m \<noteq> MsgRequestVote" "m_MsgType m \<noteq> MsgRequestVoteResponse"
    "m_MsgType m \<noteq> MsgPropose" "lead_msg m \<longrightarrow> r_State r = StateLeader" "msg_conf P m"
  shows "quiet P r r'"
  using assms by (auto simp: send_def quiet_def plain_def abs_msg_def lead_msg_def msg_conf_def conf_def members_def Let_def
      split: if_splits)

lemma log_quiet:
  "conf P r \<Longrightarrow> lg_pending_snapshot l = lg_pending_snapshot (r_RaftLog r) \<Longrightarrow> quiet P r (r\<lparr>r_RaftLog := l\<rparr>)"
  by (simp add: quiet_def conf_def members_def)

lemma members_putProgress:
  "members (putProgress r nid pr) = (if nid \<in> set (members r) then members r else members r @ [nid])"
  unfolding members_def putProgress_def by (simp add: AList.update_keys)

lemma putProgress_quiet: "conf P r \<Longrightarrow> nid \<in> P \<Longrightarrow> quiet P r (putProgress r nid pr)"
  using members_putProgress [of r nid pr] by (simp add: quiet_def conf_def) (simp add: putProgress_def)

lemma for_each_other_quiet:
  assumes "for_each_other ids f r = Inr r'" "conf P r"
    "\<And>nid r r'. conf P r \<Longrightarrow> r_State r = s \<Longrightarrow> f nid r = Inr r' \<Longrightarrow> quiet P r r'" "r_State r = s"
  shows "quiet P r r'"
  using assms(1,2,4)
proof (induction ids arbitrary: r)
  case (Cons nid ids)
  show ?case
  proof (cases "nid = r_id r")
    case False
    with Cons.prems(1) obtain r1 where r1: "f nid r = Inr r1" "for_each_other ids f r1 = Inr r'"
      by (auto simp: bindR_Inr_iff)
    have q: "quiet P r r1" by (rule assms(3) [OF Cons.prems(2,3) r1(1)])
    then have "quiet P r1 r'" using Cons.IH [OF r1(2)] Cons.prems(3) by (simp add: quiet_def)
    with q show ?thesis by (rule quiet_trans)
  qed (use Cons in simp)
qed simp

lemma progress_member: "conf P r \<Longrightarrow> getProgress r nid = Some pr \<Longrightarrow> nid \<in> P"
  unfolding conf_def members_def getProgress_def by (force dest: map_of_SomeD)

lemma mustProgress_member: "conf P r \<Longrightarrow> mustProgress r nid = Inr pr \<Longrightarrow> nid \<in> P"
  by (auto simp: mustProgress_def split: option.splits dest: progress_member)

section \<open>The operations of a leader are quiet\<close>

lemma sendAppend_cases:
  assumes "sendAppend st to r = Inr (b, r')"
  obtains "r' = r"
  | m where "send m r = Inr r'" "m_MsgType m = MsgAppend"
  | m s where "send m r = Inr r'" "m_MsgType m = MsgSnapshot" "m_Snapshot m = Some s" "log_snapshot st (r_RaftLog r) = Inr s"
proof -
  let ?snap = "case log_snapshot st (r_RaftLog r) of
      Inl e \<Rightarrow> if e = ErrSnapshotTemporarilyUnavailable then Inr (False, r) else Inl (RPanic ''snapshot error'')
    | Inr snapshot \<Rightarrow>
        if IsEmptySnap (Some snapshot) then Inl (RPanic ''need non-empty snapshot'')
        else bindR (send (zeroMessage\<lparr>m_To := to, m_MsgType := MsgSnapshot, m_Snapshot := Some snapshot\<rparr>) r)
               (\<lambda>r1. Inr (True, r1))"
  note goal = that
  have snap: thesis if "?snap = Inr (b, r')"
    using that
    by (cases "log_snapshot st (r_RaftLog r)") (auto simp: bindR_Inr_iff split: if_splits intro: goal(1,3))
  from assms obtain pr erre where pr: "mustProgress r to = Inr pr" "log_Entries (r_RaftLog r) (pr_Next pr) = Inr erre"
    unfolding sendAppend_def by (auto simp: bindR_Inr_iff Let_def)
  show ?thesis
  proof (cases "\<exists>t es. log_term (r_RaftLog r) (usub (pr_Next pr) 1) = Inr t \<and> erre = Inr es")
    case True
    with assms pr show ?thesis unfolding sendAppend_def by (fastforce simp: bindR_Inr_iff Let_def intro: goal(2))
  next
    case False
    with assms pr have "?snap = Inr (b, r')"
      unfolding sendAppend_def by (auto simp: Let_def split: sum.splits)
    then show ?thesis by (rule snap)
  qed
qed

lemma sendAppend_quiet:
  assumes "conf P r" "st_conf P st" "r_State r = StateLeader" "sendAppend st to r = Inr (b, r')"
  shows "quiet P r r'"
  using assms(4)
proof (cases rule: sendAppend_cases)
  case (3 m s)
  have "snap_conf P s"
    using 3 assms by (auto simp: log_snapshot_def conf_def st_conf_def split: option.splits)
  with 3 assms show ?thesis by (intro send_quiet [of P r m]) (auto simp: msg_conf_def)
qed (use assms in \<open>auto simp: msg_conf_def intro: send_quiet\<close>)

lemma sendHeartbeat_quiet:
  "conf P r \<Longrightarrow> r_State r = StateLeader \<Longrightarrow> sendHeartbeat to r = Inr r' \<Longrightarrow> quiet P r r'"
  by (auto simp: sendHeartbeat_def bindR_Inr_iff Let_def msg_conf_def zeroMessage_def intro: send_quiet)

lemma sendTimeoutNow_quiet: "conf P r \<Longrightarrow> sendTimeoutNow to r = Inr r' \<Longrightarrow> quiet P r r'"
  by (auto simp: sendTimeoutNow_def msg_conf_def lead_msg_def zeroMessage_def intro: send_quiet)

lemma bcastAppend_quiet:
  assumes "conf P r" "st_conf P st" "r_State r = StateLeader" "bcastAppend st r = Inr r'"
  shows "quiet P r r'"
  using assms(4) unfolding bcastAppend_def
  by (rule for_each_other_quiet [OF _ assms(1) _ assms(3)])
     (auto simp: bindR_Inr_iff intro: sendAppend_quiet [OF _ assms(2)])

lemma bcastHeartbeat_quiet:
  assumes "conf P r" "r_State r = StateLeader" "bcastHeartbeat r = Inr r'"
  shows "quiet P r r'"
  using assms(3) unfolding bcastHeartbeat_def
  by (rule for_each_other_quiet [OF _ assms(1) _ assms(2)]) (rule sendHeartbeat_quiet)

lemma commitTo_pending: "log_commitTo l i = Inr l' \<Longrightarrow> lg_pending_snapshot l' = lg_pending_snapshot l"
  by (auto simp: log_commitTo_def split: if_splits)

lemma truncate_pending: "log_truncateAndAppend l es = Inr l' \<Longrightarrow> lg_pending_snapshot l' = lg_pending_snapshot l"
  by (auto simp: log_truncateAndAppend_def bindR_Inr_iff Let_def split: list.splits if_splits)

lemma compact_pending: "log_maybeCompact st l = Inr l' \<Longrightarrow> lg_pending_snapshot l' = lg_pending_snapshot l"
  by (auto simp: log_maybeCompact_def bindR_Inr_iff Let_def split: if_splits)

lemma append_pending: "log_append st l es = Inr (i, l') \<Longrightarrow> lg_pending_snapshot l' = lg_pending_snapshot l"
  by (auto simp: log_append_def bindR_Inr_iff split: list.splits if_splits dest!: truncate_pending compact_pending)

lemma maybeAppend_pending:
  "log_maybeAppend st l i t c es = Inr (x, l') \<Longrightarrow> lg_pending_snapshot l' = lg_pending_snapshot l"
  by (auto simp: log_maybeAppend_def bindR_Inr_iff Let_def split: if_splits dest!: append_pending commitTo_pending)

lemma maybeCommit_quiet: "conf P r \<Longrightarrow> maybeCommit r = Inr (b, r') \<Longrightarrow> quiet P r r'"
  by (auto simp: maybeCommit_def log_maybeCommit_def bindR_Inr_iff Let_def split: if_splits
      dest!: commitTo_pending intro!: log_quiet)

lemma appendEntry_quiet:
  assumes "conf P r" "appendEntry st es r = Inr r'"
  shows "quiet P r r'"
proof -
  obtain li l1 pr b where steps: "log_append st (r_RaftLog r) (number_entries (r_Term r) (log_LastIndex (r_RaftLog r)) es) = Inr (li, l1)"
    "mustProgress (r\<lparr>r_RaftLog := l1\<rparr>) (r_id r) = Inr pr"
    "maybeCommit (putProgress (r\<lparr>r_RaftLog := l1\<rparr>) (r_id r) (snd (Progress_maybeUpdate pr li))) = Inr (b, r')"
    using assms(2) by (auto simp: appendEntry_def bindR_Inr_iff Let_def)
  have "quiet P r (r\<lparr>r_RaftLog := l1\<rparr>)" by (rule log_quiet [OF assms(1) append_pending [OF steps(1)]])
  also have "quiet P (r\<lparr>r_RaftLog := l1\<rparr>) (putProgress (r\<lparr>r_RaftLog := l1\<rparr>) (r_id r) (snd (Progress_maybeUpdate pr li)))"
    (is "quiet P _ ?r2")
    by (intro putProgress_quiet quiet_conf [OF calculation] mustProgress_member [OF quiet_conf [OF calculation] steps(2)])
  also have "quiet P ?r2 r'" by (rule maybeCommit_quiet [OF quiet_conf [OF calculation] steps(3)])
  finally show ?thesis .
qed

text \<open>Fields the election does not look at.\<close>

lemma fields_quiet [simp]:
  "conf P r \<Longrightarrow> quiet P r (r\<lparr>r_PendingConfIndex := i\<rparr>)"
  "conf P r \<Longrightarrow> quiet P r (r\<lparr>r_leadTransferee := n\<rparr>)"
  "conf P r \<Longrightarrow> quiet P r (r\<lparr>r_electionElapsed := x\<rparr>)"
  "conf P r \<Longrightarrow> quiet P r (r\<lparr>r_heartbeatElapsed := x\<rparr>)"
  "conf P r \<Longrightarrow> quiet P r (r\<lparr>r_Lead := n\<rparr>)"
  by (simp_all add: quiet_def conf_def members_def)

lemma propose_entries_quiet: "conf P r \<Longrightarrow> propose_entries i es r = (es', r') \<Longrightarrow> quiet P r r'"
proof (induction es arbitrary: i r es')
  case (Cons e es)
  define r1 where "r1 = (if e_EntryType e = EntryConfChange \<and> \<not> r_PendingConfIndex r > lg_applied (r_RaftLog r)
    then r\<lparr>r_PendingConfIndex := log_LastIndex (r_RaftLog r) + i + 1\<rparr> else r)"
  have r1: "quiet P r r1" using Cons.prems by (simp add: r1_def)
  moreover from Cons.prems(2) obtain es1 where "propose_entries (Suc i) es r1 = (es1, r')"
    by (auto simp: r1_def split: prod.splits if_splits)
  then have "quiet P r1 r'" by (rule Cons.IH [OF quiet_conf [OF r1]])
  ultimately show ?case by (rule quiet_trans)
qed simp

lemma ok_Inr [simp]: "ok x = Inr (e, r) \<longleftrightarrow> e = None \<and> x = Inr r"
  by (auto simp: ok_def bindR_Inr_iff)

lemma leader_Propose_quiet:
  assumes "conf P r" "st_conf P st" "r_State r = StateLeader" "leader_Propose st m r = Inr (e, r')"
  shows "quiet P r r'"
proof (cases "r' = r")
  case False
  with assms(4) obtain es r1 r2 where steps: "propose_entries 0 (m_Entries m) r = (es, r1)"
    "appendEntry st es r1 = Inr r2" "bcastAppend st r2 = Inr r'"
    by (auto simp: leader_Propose_def bindR_Inr_iff split: if_splits prod.splits)
  note q = propose_entries_quiet [OF assms(1) steps(1)]
  also note a = appendEntry_quiet [OF quiet_conf [OF q] steps(2)]
  also have "quiet P r2 r'"
    using assms(3) q a by (intro bcastAppend_quiet [OF quiet_conf [OF a] assms(2) _ steps(3)]) (simp add: quiet_def)
  finally show ?thesis .
qed (use assms in simp)

lemma leader_AppendResponse_cases:
  assumes "leader_AppendResponse st m pr r = Inr (e, r')"
  obtains (put) pr1 where "r' = putProgress r (m_From m) pr1"
  | (retry) pr1 c where "sendAppend st (m_From m) (putProgress r (m_From m) pr1) = Inr (c, r')"
  | (accept) pr1 c r2 r3 where "maybeCommit (putProgress r (m_From m) pr1) = Inr (c, r2)"
      "(if c then bcastAppend st r2 else Inr r2) = Inr r3" "r' = r3 \<or> sendTimeoutNow (m_From m) r3 = Inr r'"
proof (cases "m_Reject m")
  case True
  obtain b pr1 where down: "Progress_maybeDecrTo pr (m_Index m) (m_RejectHint m) = (b, pr1)" by fastforce
  let ?r1 = "putProgress r (m_From m) pr1"
  from True down assms have "r' = ?r1 \<or> (\<exists>c. sendAppend st (m_From m) ?r1 = Inr (c, r'))"
    by (auto simp: leader_AppendResponse_def bindR_Inr_iff Let_def split: if_splits)
  then show ?thesis using put retry by blast
next
  case False
  obtain b pr1 where up: "Progress_maybeUpdate pr (m_Index m) = (b, pr1)" by fastforce
  show ?thesis
  proof (cases b)
    case True
    from True False up assms obtain c r2 r3 where "maybeCommit (putProgress r (m_From m) pr1) = Inr (c, r2)"
      "(if c then bcastAppend st r2 else Inr r2) = Inr r3" "r' = r3 \<or> sendTimeoutNow (m_From m) r3 = Inr r'"
      by (auto simp: leader_AppendResponse_def bindR_Inr_iff split: prod.splits if_splits)
    then show ?thesis by (rule accept)
  next
    case no: False
    with False up assms put [of pr1] show ?thesis by (auto simp: leader_AppendResponse_def)
  qed
qed

lemma leader_AppendResponse_quiet:
  assumes "conf P r" "st_conf P st" "r_State r = StateLeader" "getProgress r (m_From m) = Some pr"
    "leader_AppendResponse st m pr r = Inr (e, r')"
  shows "quiet P r r'"
proof -
  have put: "quiet P r (putProgress r (m_From m) pr')" for pr'
    by (rule putProgress_quiet [OF assms(1) progress_member [OF assms(1,4)]])
  show ?thesis using assms(5)
  proof (cases rule: leader_AppendResponse_cases)
    case (put pr1)
    then show ?thesis using \<open>\<And>pr'. quiet P r (putProgress r (m_From m) pr')\<close> by simp
  next
    case (retry pr1 c)
    then have "quiet P (putProgress r (m_From m) pr1) r'"
      using quiet_conf [OF put] quiet_State [OF put] assms(2,3) by (auto intro: sendAppend_quiet)
    with put show ?thesis by (rule quiet_trans)
  next
    case (accept pr1 c r2 r3)
    note put [of pr1]
    also note maybeCommit_quiet [OF quiet_conf [OF put] accept(1)]
    also have "quiet P r2 r3"
      using accept(2) assms(2,3) quiet_State [OF calculation] quiet_conf [OF calculation]
      by (auto split: if_splits intro: bcastAppend_quiet)
    also have "quiet P r3 r'"
      using accept(3) quiet_conf [OF calculation] by (auto intro: sendTimeoutNow_quiet)
    finally show ?thesis .
  qed
qed

lemma leader_TransferLeader_quiet:
  assumes "conf P r" "st_conf P st" "r_State r = StateLeader" "leader_TransferLeader st m pr r = Inr (e, r')"
  shows "quiet P r r'"
proof -
  define r1 where "r1 = (if r_leadTransferee r \<noteq> NoNode then abortLeaderTransfer r else r)"
  define r2 where "r2 = r1\<lparr>r_electionElapsed := 0, r_leadTransferee := m_From m\<rparr>"
  have q1: "quiet P r r1" using assms(1) by (simp add: r1_def abortLeaderTransfer_def)
  have q2: "quiet P r r2" using quiet_trans [OF q1] quiet_conf [OF q1] unfolding r2_def
    by (metis fields_quiet(2,3) quiet_conf quiet_trans)
  have "r' = r \<or> r' = r1 \<or> sendTimeoutNow (m_From m) r2 = Inr r' \<or> (\<exists>b. sendAppend st (m_From m) r2 = Inr (b, r'))"
    using assms(4) unfolding leader_TransferLeader_def
    by (auto simp: bindR_Inr_iff Let_def r1_def r2_def split: if_splits)
  then show ?thesis
    using q1 q2 assms quiet_trans [OF q2] quiet_State [OF q2] quiet_conf [OF q2]
    by (metis quiet_refl sendAppend_quiet sendTimeoutNow_quiet)
qed

lemma stepLeader_quiet:
  assumes "conf P r" "st_conf P st" "r_State r = StateLeader" "stepLeader st m r = Inr (e, r')"
  shows "quiet P r r'"
proof (cases "getProgress r (m_From m)")
  case None
  with assms show ?thesis
    by (auto simp: stepLeader_def split: if_splits intro: bcastHeartbeat_quiet leader_Propose_quiet)
next
  case (Some pr)
  show ?thesis
  proof (cases "m_MsgType m = MsgHeartbeatResponse")
    case True
    with Some assms show ?thesis
      by (auto simp: stepLeader_def bindR_Inr_iff split: if_splits intro: sendAppend_quiet)
  next
    case False
    with Some assms show ?thesis
      by (auto simp: stepLeader_def split: MessageType.splits intro: bcastHeartbeat_quiet leader_Propose_quiet
          leader_AppendResponse_quiet leader_TransferLeader_quiet)
  qed
qed

section \<open>So are the answers of a follower\<close>

lemma handleAppendEntries_quiet:
  assumes "conf P r" "handleAppendEntries st m r = Inr r'"
  shows "quiet P r r'"
proof -
  obtain l1 resp where r': "send resp (r\<lparr>r_RaftLog := l1\<rparr>) = Inr r'" "m_MsgType resp = MsgAppendResponse"
    and l1: "lg_pending_snapshot l1 = lg_pending_snapshot (r_RaftLog r)"
  proof (cases "m_Index m < lg_committed (r_RaftLog r)")
    case True
    then show ?thesis using assms(2) that [of _ "r_RaftLog r"] by (fastforce simp: handleAppendEntries_def Let_def)
  next
    case False
    then obtain res l1 where "log_maybeAppend st (r_RaftLog r) (m_Index m) (m_LogTerm m) (m_Commit m) (m_Entries m) = Inr (res, l1)"
      "\<exists>resp. m_MsgType resp = MsgAppendResponse \<and> send resp (r\<lparr>r_RaftLog := l1\<rparr>) = Inr r'"
      using assms(2) by (fastforce simp: handleAppendEntries_def Let_def bindR_Inr_iff split: option.splits)
    then show ?thesis using maybeAppend_pending that by blast
  qed
  note q = log_quiet [OF assms(1) l1]
  also have "quiet P (r\<lparr>r_RaftLog := l1\<rparr>) r'"
    using r' by (intro send_quiet [OF quiet_conf [OF q] r'(1)]) (auto simp: lead_msg_def msg_conf_def)
  finally show ?thesis .
qed

lemma handleHeartbeat_quiet:
  assumes "conf P r" "handleHeartbeat m r = Inr r'"
  shows "quiet P r r'"
proof -
  obtain l1 where l1: "log_commitTo (r_RaftLog r) (m_Commit m) = Inr l1"
    "send (zeroMessage\<lparr>m_To := m_From m, m_MsgType := MsgHeartbeatResponse\<rparr>) (r\<lparr>r_RaftLog := l1\<rparr>) = Inr r'"
    using assms(2) by (auto simp: handleHeartbeat_def bindR_Inr_iff)
  note q = log_quiet [OF assms(1) commitTo_pending [OF l1(1)]]
  also have "quiet P (r\<lparr>r_RaftLog := l1\<rparr>) r'"
    by (intro send_quiet [OF quiet_conf [OF q] l1(2)]) (auto simp: lead_msg_def msg_conf_def)
  finally show ?thesis .
qed

lemma restoreNode_keeps:
  "r_id (restoreNode ns r) = r_id r" "r_Term (restoreNode ns r) = r_Term r" "r_Vote (restoreNode ns r) = r_Vote r"
  "r_State (restoreNode ns r) = r_State r" "r_votes (restoreNode ns r) = r_votes r"
  "r_msgs (restoreNode ns r) = r_msgs r" "r_RaftLog (restoreNode ns r) = r_RaftLog r"
  by (induction ns arbitrary: r) (simp_all add: setProgress_def putProgress_def Let_def)

lemma restoreNode_members:
  "distinct (members r) \<Longrightarrow> distinct (members (restoreNode ns r)) \<and> set (members (restoreNode ns r)) = set (members r) \<union> set ns"
  by (induction ns arbitrary: r) (auto simp: setProgress_def members_putProgress Let_def)

lemma restore_quiet:
  assumes "conf P r" "snap_conf P s" "restore s r = Inr (b, r')"
  shows "quiet P r r'"
proof -
  let ?r = "r\<lparr>r_RaftLog := log_restore (r_RaftLog r) s, r_Prs := []\<rparr>"
  have "conf P (restoreNode (sm_ConfState (sn_Metadata s)) ?r)"
    using assms(2) restoreNode_members [of ?r "sm_ConfState (sn_Metadata s)"] restoreNode_keeps(7) [of _ ?r]
    by (auto simp: conf_def members_def log_restore_def snap_conf_def)
  then have "quiet P r (restoreNode (sm_ConfState (sn_Metadata s)) ?r)"
    by (simp add: quiet_def restoreNode_keeps)
  with assms show ?thesis
    by (auto simp: restore_def bindR_Inr_iff Let_def split: if_splits dest!: commitTo_pending intro: log_quiet)
qed

lemma handleSnapshot_quiet:
  assumes "conf P r" "msg_conf P m" "m_MsgType m = MsgSnapshot" "handleSnapshot m r = Inr r'"
  shows "quiet P r r'"
proof -
  obtain s b r1 resp where s: "m_Snapshot m = Some s" "restore s r = Inr (b, r1)" "send resp r1 = Inr r'"
    "m_MsgType resp = MsgAppendResponse"
    using assms(4) by (fastforce simp: handleSnapshot_def bindR_Inr_iff split: option.splits)
  have "snap_conf P s" using assms s by (simp add: msg_conf_def)
  from restore_quiet [OF assms(1) this s(2)] have q: "quiet P r r1" .
  also have "quiet P r1 r'"
    using s by (intro send_quiet [OF quiet_conf [OF q] s(3)]) (auto simp: lead_msg_def msg_conf_def)
  finally show ?thesis .
qed

section \<open>Changing role\<close>

text \<open>What a peer keeps besides: every message it sends names it and is well-formed.\<close>

definition wire :: "nat set \<Rightarrow> Message \<Rightarrow> bool" where
  "wire P m \<longleftrightarrow> m_From m \<in> P \<and> msg_conf P m
     \<and> (lead_msg m \<or> m_MsgType m = MsgRequestVoteResponse \<longrightarrow> m_Term m \<noteq> 0)"

definition peer_ok :: "nat set \<Rightarrow> nat \<Rightarrow> Raft \<Rightarrow> bool" where
  "peer_ok P i r \<longleftrightarrow> r_id r = i \<and> i \<in> P \<and> conf P r \<and> distinct (map fst (r_votes r))
     \<and> (r_State r \<noteq> StateFollower \<longrightarrow> 0 < r_Term r) \<and> (\<forall>m\<in>set (r_msgs r). wire P m)"

definition implements :: "nat set \<Rightarrow> nat \<Rightarrow> emsg set \<Rightarrow> Raft \<Rightarrow> Raft \<Rightarrow> bool" where
  "implements P i H r r' \<longleftrightarrow> peer_ok P i r' \<and> esteps P i H (abs_raft r) (abs_raft r')"

lemma implements_refl [simp]: "peer_ok P i r \<Longrightarrow> implements P i H r r"
  by (simp add: implements_def)

lemma implements_trans [trans]: "implements P i H r r1 \<Longrightarrow> implements P i H r1 r2 \<Longrightarrow> implements P i H r r2"
  unfolding implements_def by (meson rtranclp_trans)

lemma implements_ok: "implements P i H r r' \<Longrightarrow> peer_ok P i r'"
  by (simp add: implements_def)

lemma implements_step: "estep P i H (abs_raft r) (abs_raft r') \<Longrightarrow> peer_ok P i r' \<Longrightarrow> implements P i H r r'"
  by (simp add: implements_def r_into_rtranclp)

lemma peer_ok_conf: "peer_ok P i r \<Longrightarrow> conf P r"
  by (simp add: peer_ok_def)

lemma plain_msgs: "\<forall>m\<in>set ms. plain P r m \<Longrightarrow> abs_msgs (set ms) = {}"
  by (auto simp: abs_msgs_def plain_def)

lemma quiet_abs: "quiet P r r' \<Longrightarrow> abs_raft r' = abs_raft r"
  by (auto simp: quiet_def abs_raft_def abs_peer_def plain_msgs)

lemma quiet_implements:
  assumes "peer_ok P i r" "quiet P r r'"
  shows "implements P i H r r'"
proof -
  obtain ms where ms: "r_msgs r' = r_msgs r @ ms" "\<forall>m\<in>set ms. plain P r m" using assms(2) by (auto simp: quiet_def)
  have "wire P m" if "m \<in> set ms" for m
    using that ms(2) assms(1) by (auto simp: plain_def wire_def peer_ok_def)
  then have "peer_ok P i r'" using assms ms(1) by (auto simp: peer_ok_def quiet_def)
  then show ?thesis by (simp add: implements_def quiet_abs [OF assms(2)])
qed

lemma reset_keeps:
  assumes "reset t r = Inr r'"
  shows "r_id r' = r_id r" "r_RaftLog r' = r_RaftLog r" "r_State r' = r_State r" "r_msgs r' = r_msgs r"
    "members r' = members r" "r_Term r' = t" "r_votes r' = []" "r_Vote r' = (if r_Term r = t then r_Vote r else NoNode)"
  using assms
  by (auto simp: reset_def resetRandomizedElectionTimeout_def Intn_def bindR_Inr_iff abortLeaderTransfer_def
      members_def Let_def o_def split: if_splits)

lemma becomeFollower_implements:
  assumes "becomeFollower t lead r = Inr r'" "peer_ok P i r" "r_Term r \<le> t"
  shows "implements P i H r r'" "r_Term r' = t" "r_State r' = StateFollower"
proof -
  obtain r1 where r1: "reset t r = Inr r1" "r' = r1\<lparr>r_Lead := lead, r_State := StateFollower\<rparr>"
    using assms(1) by (auto simp: becomeFollower_def bindR_Inr_iff)
  note keeps = reset_keeps [OF r1(1)]
  have ok: "peer_ok P i r'"
    using assms(2) keeps by (simp add: peer_ok_def r1 conf_def) (simp add: members_def)
  have "estep P i H (abs_raft r) (abs_raft r')"
  proof (cases "r_Term r = t")
    case True
    then have "abs_raft r' = ((abs_peer r)\<lparr>ep_role := StateFollower, ep_yes := {}\<rparr>, abs_msgs (set (r_msgs r)))"
      using keeps by (simp add: abs_raft_def abs_peer_def r1)
    then show ?thesis using estep.stepdown [of P i H "abs_peer r"] by (simp add: abs_raft_def)
  next
    case False
    then have "abs_raft r' = (\<lparr>ep_term = t, ep_vote = 0, ep_role = StateFollower, ep_yes = {}\<rparr>, abs_msgs (set (r_msgs r)))"
      using keeps by (simp add: abs_raft_def abs_peer_def r1 NoNode_def)
    then show ?thesis using estep.adopt [of "abs_peer r" t P i H] False assms(3) by (simp add: abs_raft_def abs_peer_def)
  qed
  then show "implements P i H r r'" by (rule implements_step [OF _ ok])
  show "r_Term r' = t" "r_State r' = StateFollower" using keeps r1 by auto
qed

lemma quorum_conf: "conf P r \<Longrightarrow> quorum r = card P div 2 + 1"
  using distinct_card [of "members r"] by (auto simp: conf_def quorum_def) (simp add: members_def)

lemma granted_votes_yes: "distinct (map fst (r_votes r)) \<Longrightarrow> granted_votes (r_votes r) = card (ep_yes (abs_peer r))"
proof -
  assume d: "distinct (map fst (r_votes r))"
  have "{j. (j, True) \<in> set (r_votes r)} = fst ` set (filter snd (r_votes r))" by force
  moreover have "distinct (map fst (filter snd (r_votes r)))" using d by (simp add: distinct_map_filter)
  ultimately show ?thesis
    using distinct_card [of "map fst (filter snd (r_votes r))"] by (simp add: granted_votes_def abs_peer_def)
qed

text \<open>Winning: a candidate that holds the votes of a quorum becomes leader.\<close>

lemma becomeLeader_implements:
  assumes "becomeLeader st r = Inr r'" "peer_ok P i r" "r_State r = StateCandidate" "quorum r = granted_votes (r_votes r)"
  shows "implements P i H r r'" "r_State r' = StateLeader"
proof -
  obtain r1 where r1: "reset (r_Term r) r = Inr r1"
    "appendEntry st [zeroEntry] (r1\<lparr>r_Lead := r_id r1, r_State := StateLeader, r_PendingConfIndex := log_LastIndex (r_RaftLog r1)\<rparr>) = Inr r'"
    using assms(1) by (auto simp: becomeLeader_def bindR_Inr_iff Let_def)
  let ?r2 = "r1\<lparr>r_Lead := r_id r1, r_State := StateLeader, r_PendingConfIndex := log_LastIndex (r_RaftLog r1)\<rparr>"
  note keeps = reset_keeps [OF r1(1)]
  have ok: "peer_ok P i ?r2"
    using assms(2,3) keeps by (simp add: peer_ok_def conf_def) (simp add: members_def)
  have "card P div 2 < card (ep_yes (abs_peer r))"
    using assms(2,4) granted_votes_yes [of r] quorum_conf [of P r] by (simp add: peer_ok_def)
  then have "estep P i H (abs_peer r, abs_msgs (set (r_msgs r)))
      ((abs_peer r)\<lparr>ep_role := StateLeader, ep_yes := {}\<rparr>, abs_msgs (set (r_msgs r)))"
    using assms(3) by (intro estep.win) (simp_all add: abs_peer_def)
  moreover have "abs_raft ?r2 = ((abs_peer r)\<lparr>ep_role := StateLeader, ep_yes := {}\<rparr>, abs_msgs (set (r_msgs r)))"
    using keeps by (simp add: abs_raft_def abs_peer_def)
  ultimately have "estep P i H (abs_raft r) (abs_raft ?r2)" by (simp add: abs_raft_def)
  with ok have "implements P i H r ?r2" by (intro implements_step)
  also have "implements P i H ?r2 r'"
    by (rule quiet_implements [OF ok appendEntry_quiet [OF peer_ok_conf [OF ok] r1(2)]])
  finally show "implements P i H r r'" .
  show "r_State r' = StateLeader"
    using quiet_State [OF appendEntry_quiet [OF peer_ok_conf [OF ok] r1(2)]] by simp
qed

text \<open>Campaigning.\<close>

lemma sendVoteRequest_implements:
  assumes "sendVoteRequest t nid r = Inr r'" "peer_ok P i r" "r_State r = StateCandidate" "r_Term r = t"
  shows "implements P i H r r' \<and> r_State r' = StateCandidate \<and> r_Term r' = t"
proof -
  obtain m where m: "r' = r\<lparr>r_msgs := r_msgs r @ [m]\<rparr>" "m_MsgType m = MsgRequestVote" "m_From m = r_id r" "m_Term m = t"
    using assms(1) by (fastforce simp: sendVoteRequest_def send_def bindR_Inr_iff Let_def split: if_splits)
  have ok: "peer_ok P i r'"
    using assms(2) m by (simp add: peer_ok_def conf_def wire_def lead_msg_def msg_conf_def members_def)
  have "abs_raft r' = (abs_peer r, insert (Ask i (ep_term (abs_peer r))) (abs_msgs (set (r_msgs r))))"
    using m assms(2,4) by (simp add: abs_raft_def abs_peer_def abs_msg_def peer_ok_def)
  then have "estep P i H (abs_raft r) (abs_raft r')"
    using estep.ask [of "abs_peer r" P i H "abs_msgs (set (r_msgs r))"] assms(3) by (simp add: abs_raft_def) (simp add: abs_peer_def)
  then show ?thesis using implements_step [OF _ ok] m assms(3,4) by simp
qed

lemma requests_implement:
  assumes "for_each_other ids (sendVoteRequest t) r = Inr r'" "peer_ok P i r" "r_State r = StateCandidate" "r_Term r = t"
  shows "implements P i H r r'"
  using assms
proof (induction ids arbitrary: r)
  case (Cons nid ids)
  show ?case
  proof (cases "nid = r_id r")
    case False
    with Cons.prems(1) obtain r1 where r1: "sendVoteRequest t nid r = Inr r1" "for_each_other ids (sendVoteRequest t) r1 = Inr r'"
      by (auto simp: bindR_Inr_iff)
    note step = sendVoteRequest_implements [OF r1(1) Cons.prems(2-4), of H]
    then have "implements P i H r1 r'" by (intro Cons.IH [OF r1(2)]) (auto dest: implements_ok)
    with step show ?thesis by (blast intro: implements_trans)
  qed (use Cons in simp)
qed simp

lemma campaign_implements:
  assumes "campaign st r = Inr r'" "peer_ok P i r"
  shows "implements P i H r r'"
proof -
  obtain r1 where r1: "reset (r_Term r + 1) r = Inr r1" using assms(1)
    by (auto simp: campaign_def becomeCandidate_def bindR_Inr_iff)
  note keeps = reset_keeps [OF r1]
  define r2 where "r2 = r1\<lparr>r_Vote := r_id r1, r_State := StateCandidate, r_votes := [(r_id r1, True)]\<rparr>"
  have ok: "peer_ok P i r2" using assms(2) keeps by (simp add: r2_def peer_ok_def conf_def) (simp add: members_def)
  have "abs_raft r2 = (\<lparr>ep_term = ep_term (abs_peer r) + 1, ep_vote = i, ep_role = StateCandidate, ep_yes = {i}\<rparr>, abs_msgs (set (r_msgs r)))"
    using keeps assms(2) by (simp add: abs_raft_def abs_peer_def r2_def peer_ok_def)
  then have "estep P i H (abs_raft r) (abs_raft r2)" using estep.campaign [of P i H "abs_peer r"] by (simp add: abs_raft_def)
  then have "implements P i H r r2" by (rule implements_step [OF _ ok])
  also have "quorum r2 = granted_votes (r_votes r2) \<and> becomeLeader st r2 = Inr r'
      \<or> for_each_other (map fst (r_Prs r2)) (sendVoteRequest (r_Term r2)) r2 = Inr r'"
    using assms(1) r1 keeps(7)
    by (auto simp: campaign_def becomeCandidate_def bindR_Inr_iff poll_def Let_def r2_def quorum_def split: if_splits)
  then have "implements P i H r2 r'"
    using ok by (auto simp: r2_def intro: becomeLeader_implements requests_implement)
  finally show ?thesis .
qed

lemma hup_cases: "hup st r = Inr r' \<Longrightarrow> r' = r \<or> campaign st r = Inr r'"
  unfolding hup_def Let_def by (auto simp: bindR_def split: if_splits sum.splits)

lemma hup_implements:
  "hup st r = Inr r' \<Longrightarrow> peer_ok P i r \<Longrightarrow> implements P i H r r'"
  by (drule hup_cases) (auto intro: campaign_implements)

text \<open>Answering a request: the vote goes to the candidate that asked, in the term it asked for.\<close>

lemma send_vote:
  "m_MsgType m = MsgRequestVoteResponse \<Longrightarrow>
   send m r = Inr r' \<longleftrightarrow> m_Term m \<noteq> 0 \<and> r' = r\<lparr>r_msgs := r_msgs r @ [m\<lparr>m_From := r_id r\<rparr>]\<rparr>"
  by (auto simp: send_def Let_def)

lemma requestVote_cases:
  assumes "requestVote m r = Inr r'"
  obtains (granted) resp where "r' = r\<lparr>r_msgs := r_msgs r @ [resp], r_electionElapsed := 0, r_Vote := m_From m\<rparr>"
      "m_MsgType resp = MsgRequestVoteResponse" "\<not> m_Reject resp" "m_From resp = r_id r" "m_To resp = m_From m"
      "m_Term resp = m_Term m" "m_Term m \<noteq> 0" "r_Vote r = m_From m \<or> (r_Vote r = NoNode \<and> r_Lead r = NoNode)"
      "log_isUpToDate (r_RaftLog r) (m_Index m) (m_LogTerm m) = Inr True"
  | (rejected) resp where "r' = r\<lparr>r_msgs := r_msgs r @ [resp]\<rparr>" "m_MsgType resp = MsgRequestVoteResponse"
      "m_Reject resp" "m_From resp = r_id r" "m_Term resp \<noteq> 0"
proof -
  let ?can = "r_Vote r = m_From m \<or> (r_Vote r = NoNode \<and> r_Lead r = NoNode)"
  let ?resp = "zeroMessage\<lparr>m_To := m_From m, m_MsgType := MsgRequestVoteResponse\<rparr>"
  from assms obtain up where up: "(if ?can then log_isUpToDate (r_RaftLog r) (m_Index m) (m_LogTerm m) else Inr False) = Inr up"
    unfolding requestVote_def Let_def bindR_Inr_iff by blast
  show ?thesis
  proof (cases "?can \<and> up")
    case True
    with assms up have "m_Term m \<noteq> 0 \<and> r' = r\<lparr>r_msgs := r_msgs r @ [?resp\<lparr>m_Term := m_Term m, m_From := r_id r\<rparr>],
        r_electionElapsed := 0, r_Vote := m_From m\<rparr>"
      unfolding requestVote_def Let_def by (auto simp: bindR_Inr_iff send_vote)
    with True up show ?thesis
      by (intro granted [of "?resp\<lparr>m_Term := m_Term m, m_From := r_id r\<rparr>"]) (auto simp: zeroMessage_def)
  next
    case False
    with assms up have r': "r_Term r \<noteq> 0"
      "r' = r\<lparr>r_msgs := r_msgs r @ [?resp\<lparr>m_Term := r_Term r, m_Reject := True, m_From := r_id r\<rparr>]\<rparr>"
      unfolding requestVote_def Let_def by (auto simp: bindR_Inr_iff send_vote)
    show ?thesis by (rule rejected [OF r'(2)]) (use r'(1) in simp_all)
  qed
qed

lemma requestVote_implements:
  assumes "requestVote m r = Inr r'" "peer_ok P i r" "m_MsgType m = MsgRequestVote" "m_From m \<noteq> 0"
    "m_Term m = 0 \<or> m_Term m = r_Term r"
  shows "implements P i (abs_msgs {m}) r r'"
  using assms(1)
proof (cases rule: requestVote_cases)
  case (granted resp)
  have ok: "peer_ok P i r'" using assms(2) granted
    by (simp add: peer_ok_def conf_def wire_def lead_msg_def msg_conf_def members_def)
  have "abs_raft r' = ((abs_peer r)\<lparr>ep_vote := m_From m\<rparr>, insert (Grant i (m_From m) (ep_term (abs_peer r))) (abs_msgs (set (r_msgs r))))"
    using granted assms(2,5) by (simp add: abs_raft_def abs_peer_def abs_msg_def peer_ok_def)
  moreover have "estep P i (abs_msgs {m}) (abs_peer r, abs_msgs (set (r_msgs r)))
     ((abs_peer r)\<lparr>ep_vote := m_From m\<rparr>, insert (Grant i (m_From m) (ep_term (abs_peer r))) (abs_msgs (set (r_msgs r))))"
    using assms(3-5) granted by (intro estep.grant) (auto simp: abs_msg_def abs_peer_def NoNode_def)
  ultimately have "estep P i (abs_msgs {m}) (abs_raft r) (abs_raft r')" by (simp add: abs_raft_def)
  then show ?thesis by (rule implements_step [OF _ ok])
next
  case (rejected resp)
  then have "peer_ok P i r'" using assms(2)
    by (simp add: peer_ok_def conf_def wire_def lead_msg_def msg_conf_def members_def)
  then show ?thesis using rejected by (simp add: implements_def abs_raft_def abs_peer_def abs_msg_def)
qed

text \<open>Counting: a vote is counted once for every peer, in the term it was given for.\<close>

lemma poll_implements:
  assumes "poll (m_From m) (\<not> m_Reject m) r = (g, r1)" "peer_ok P i r" "r_State r = StateCandidate"
    "m_MsgType m = MsgRequestVoteResponse" "m_Term m = r_Term r" "m_From m \<in> P" "m_To m = i"
  shows "implements P i (abs_msgs {m}) r r1" "r_State r1 = StateCandidate" "g = granted_votes (r_votes r1)"
    "r_Term r1 = r_Term r"
proof -
  have r1: "r1 = (if map_of (r_votes r) (m_From m) = None then r\<lparr>r_votes := r_votes r @ [(m_From m, \<not> m_Reject m)]\<rparr> else r)"
    "g = granted_votes (r_votes r1)"
    using assms(1) by (auto simp: poll_def Let_def)
  have ok: "peer_ok P i r1"
    using assms(2) by (auto simp: r1(1) peer_ok_def conf_def members_def map_of_eq_None_iff)
  show "implements P i (abs_msgs {m}) r r1"
  proof (cases "map_of (r_votes r) (m_From m) = None \<and> \<not> m_Reject m")
    case True
    then have "abs_raft r1 = ((abs_peer r)\<lparr>ep_yes := insert (m_From m) (ep_yes (abs_peer r))\<rparr>, abs_msgs (set (r_msgs r)))"
      by (auto simp: abs_raft_def abs_peer_def r1(1))
    moreover have "estep P i (abs_msgs {m}) (abs_peer r, abs_msgs (set (r_msgs r)))
        ((abs_peer r)\<lparr>ep_yes := insert (m_From m) (ep_yes (abs_peer r))\<rparr>, abs_msgs (set (r_msgs r)))"
      using True assms by (intro estep.count) (auto simp: abs_msg_def abs_peer_def)
    ultimately have "estep P i (abs_msgs {m}) (abs_raft r) (abs_raft r1)" by (simp add: abs_raft_def)
    then show ?thesis by (rule implements_step [OF _ ok])
  next
    case False
    then have "abs_raft r1 = abs_raft r" by (auto simp: abs_raft_def abs_peer_def r1(1))
    with ok show ?thesis by (simp add: implements_def)
  qed
  show "r_State r1 = StateCandidate" "g = granted_votes (r_votes r1)" "r_Term r1 = r_Term r"
    using assms(3) r1 by auto
qed

section \<open>Every step implements the protocol\<close>

text \<open>
  What a peer may be handed: messages of other peers of the configuration, addressed to it,
  and local messages, which have no term.
\<close>

definition handed :: "nat set \<Rightarrow> nat \<Rightarrow> Message \<Rightarrow> bool" where
  "handed P i m \<longleftrightarrow> (lead_msg m \<longrightarrow> m_Term m \<noteq> 0) \<and> msg_conf P m
     \<and> (m_MsgType m = MsgRequestVote \<longrightarrow> m_From m \<noteq> 0)
     \<and> (m_MsgType m = MsgRequestVoteResponse \<longrightarrow> m_From m \<in> P \<and> m_To m = i \<and> m_Term m \<noteq> 0)"

lemma stepCandidate_implements:
  assumes "stepCandidate st m r = Inr (e, r')" "peer_ok P i r" "r_State r = StateCandidate" "handed P i m"
    "st_conf P st" "m_Term m = 0 \<or> m_Term m = r_Term r"
  shows "implements P i (abs_msgs {m}) r r'"
proof -
  note handlers = handleAppendEntries_quiet handleHeartbeat_quiet handleSnapshot_quiet
  have follow: "implements P i (abs_msgs {m}) r r'"
    if lead: "lead_msg m" and r1: "becomeFollower (m_Term m) (m_From m) r = Inr r1" and q: "conf P r1 \<Longrightarrow> quiet P r1 r'" for r1
  proof -
    have "r_Term r \<le> m_Term m" using lead assms(4,6) by (auto simp: handed_def)
    note f = becomeFollower_implements(1) [OF r1 assms(2) this, of "abs_msgs {m}"]
    also have "implements P i (abs_msgs {m}) r1 r'"
      using implements_ok [OF f] by (auto intro: quiet_implements q dest: peer_ok_conf)
    finally show ?thesis .
  qed
  have conf: "msg_conf P m" using assms(4) by (simp add: handed_def)
  show ?thesis
  proof (cases "m_MsgType m = MsgRequestVoteResponse")
    case True
    obtain g r1 where p: "poll (m_From m) (\<not> m_Reject m) r = (g, r1)" by fastforce
    have h: "m_Term m = r_Term r" "m_From m \<in> P" "m_To m = i" using assms(4,6) True by (auto simp: handed_def)
    note c = poll_implements [OF p assms(2,3) True h]
    have ok: "peer_ok P i r1" by (rule implements_ok [OF c(1)])
    have "quorum r1 = g \<and> (\<exists>r2. becomeLeader st r1 = Inr r2 \<and> bcastAppend st r2 = Inr r')
        \<or> becomeFollower (r_Term r1) NoNode r1 = Inr r' \<or> r' = r1"
      using assms(1) True p by (auto simp: stepCandidate_def bindR_Inr_iff split: if_splits)
    then have "implements P i (abs_msgs {m}) r1 r'"
    proof (elim disjE conjE exE)
      fix r2 assume "quorum r1 = g" "becomeLeader st r1 = Inr r2" and b: "bcastAppend st r2 = Inr r'"
      then have l: "implements P i (abs_msgs {m}) r1 r2" "r_State r2 = StateLeader"
        using becomeLeader_implements [OF _ ok c(2)] c(3) by blast+
      note l(1)
      also have "implements P i (abs_msgs {m}) r2 r'"
        using implements_ok [OF l(1)] l(2) b assms(5) by (auto intro: quiet_implements bcastAppend_quiet dest: peer_ok_conf)
      finally show ?thesis .
    qed (use ok in \<open>auto intro: becomeFollower_implements\<close>)
    with c(1) show ?thesis by (rule implements_trans)
  next
    case False
    with assms(1,2) conf follow show ?thesis
      by (auto simp: stepCandidate_def bindR_Inr_iff lead_msg_def split: MessageType.splits intro: handlers)
  qed
qed

lemma stepFollower_implements:
  assumes "stepFollower st m r = Inr (e, r')" "peer_ok P i r" "handed P i m"
  shows "implements P i (abs_msgs {m}) r r'"
proof -
  let ?heard = "r\<lparr>r_electionElapsed := 0, r_Lead := m_From m\<rparr>"
  have conf: "conf P r" "msg_conf P m" using assms by (auto simp: handed_def peer_ok_def)
  have heard: "quiet P r ?heard" using conf by (simp add: quiet_def conf_def members_def)
  show ?thesis
  proof (cases "m_MsgType m = MsgTimeoutNow")
    case True
    with assms show ?thesis by (auto simp: stepFollower_def Let_def split: if_splits intro: campaign_implements)
  next
    case False
    have "quiet P r r'"
    proof (cases "lead_msg m")
      case True
      then have "quiet P ?heard r'"
        using assms(1) quiet_conf [OF heard] conf(2)
        by (auto simp: stepFollower_def Let_def lead_msg_def
            intro: handleAppendEntries_quiet handleHeartbeat_quiet handleSnapshot_quiet)
      with heard show ?thesis by (rule quiet_trans)
    next
      case False
      with \<open>m_MsgType m \<noteq> MsgTimeoutNow\<close> assms(1) conf(1) show ?thesis
        by (auto simp: stepFollower_def Let_def lead_msg_def msg_conf_def split: MessageType.splits if_splits intro: send_quiet)
    qed
    then show ?thesis by (rule quiet_implements [OF assms(2)])
  qed
qed

lemma step_term_implements:
  assumes "step_term m r = Inr (Some r1)" "peer_ok P i r"
  shows "implements P i H r r1" "m_Term m = 0 \<or> m_Term m = r_Term r1"
proof -
  have "r1 = r \<and> (m_Term m = 0 \<or> m_Term m = r_Term r)
      \<or> (\<exists>lead. becomeFollower (m_Term m) lead r = Inr r1 \<and> r_Term r < m_Term m)"
    using assms(1) by (auto simp: step_term_def bindR_Inr_iff split: if_splits)
  then have "implements P i H r r1 \<and> (m_Term m = 0 \<or> m_Term m = r_Term r1)"
    using assms(2) by (auto intro: becomeFollower_implements dest: becomeFollower_implements(2))
  then show "implements P i H r r1" "m_Term m = 0 \<or> m_Term m = r_Term r1" by auto
qed

lemma Step_implements:
  assumes "Step st m r = Inr (e, r')" "peer_ok P i r" "handed P i m" "st_conf P st"
  shows "implements P i (abs_msgs {m}) r r'"
proof -
  obtain res where res: "step_term m r = Inr res" using assms(1) by (auto simp: Step_def bindR_Inr_iff)
  show ?thesis
  proof (cases res)
    case None
    with res assms show ?thesis by (simp add: Step_def)
  next
    case (Some r1)
    note s = step_term_implements [OF res [unfolded Some] assms(2)]
    have ok: "peer_ok P i r1" by (rule implements_ok [OF s(1)])
    have "implements P i (abs_msgs {m}) r1 r'"
    proof (cases "m_MsgType m = MsgHup \<or> m_MsgType m = MsgRequestVote")
      case True
      with assms(1,3) res Some ok s(2) show ?thesis
        by (auto simp: Step_def handed_def simp del: abs_msgs_simps intro: hup_implements requestVote_implements)
    next
      case False
      with assms(1) res Some have "(case r_State r1 of StateFollower \<Rightarrow> stepFollower st m r1
          | StateCandidate \<Rightarrow> stepCandidate st m r1 | StateLeader \<Rightarrow> stepLeader st m r1) = Inr (e, r')"
        by (auto simp: Step_def split: MessageType.splits)
      then show ?thesis
        using assms(3,4) ok s(2)
        by (cases "r_State r1") (auto simp del: abs_msgs_simps intro: stepFollower_implements stepCandidate_implements quiet_implements
            stepLeader_quiet dest: peer_ok_conf)
    qed
    with s(1) show ?thesis by (rule implements_trans)
  qed
qed

lemma drop_err_Inr: "drop_err x = Inr r' \<longleftrightarrow> (\<exists>e. x = Inr (e, r'))"
  by (auto simp: drop_err_def bindR_Inr_iff)

lemma local_msg:
  assumes "\<not> lead_msg m" "m_MsgType m \<noteq> MsgRequestVote" "m_MsgType m \<noteq> MsgRequestVoteResponse"
  shows "handed P i m" "abs_msgs {m} = {}"
  using assms by (auto simp: handed_def msg_conf_def lead_msg_def abs_msg_def)

lemma tick_implements:
  assumes "tick st r = Inr r'" "peer_ok P i r" "st_conf P st"
  shows "implements P i {} r r'"
proof -
  have "\<exists>r1. quiet P r r1 \<and> (r' = r1 \<or> (\<exists>m e. Step st m r1 = Inr (e, r') \<and> (m_MsgType m = MsgHup \<or> m_MsgType m = MsgBeat)))"
  proof (cases "r_State r = StateLeader")
    case True
    let ?r1 = "r\<lparr>r_heartbeatElapsed := r_heartbeatElapsed r + 1, r_electionElapsed := r_electionElapsed r + 1\<rparr>"
    define r2 where "r2 = (if r_electionElapsed ?r1 \<ge> r_electionTimeout ?r1
      then let r1' = ?r1\<lparr>r_electionElapsed := 0\<rparr> in
           if r_State r1' = StateLeader \<and> r_leadTransferee r1' \<noteq> NoNode then abortLeaderTransfer r1' else r1'
      else ?r1)"
    have q: "quiet P r r2" "quiet P r (r2\<lparr>r_heartbeatElapsed := 0\<rparr>)"
      using peer_ok_conf [OF assms(2)] by (auto simp: r2_def quiet_def conf_def members_def abortLeaderTransfer_def Let_def)
    have "r' = r2 \<or> (\<exists>m e. Step st m (r2\<lparr>r_heartbeatElapsed := 0\<rparr>) = Inr (e, r') \<and> m_MsgType m = MsgBeat)"
    proof -
      have "tick st r = (if r_State r2 \<noteq> StateLeader then Inr r2
        else if r_heartbeatElapsed r2 \<ge> r_heartbeatTimeout r2
        then drop_err (Step st (zeroMessage\<lparr>m_From := r_id r2, m_MsgType := MsgBeat\<rparr>) (r2\<lparr>r_heartbeatElapsed := 0\<rparr>))
        else Inr r2)"
        using True by (simp only: tick_def tickHeartbeat_def Let_def r2_def StateType.case)
      with assms(1) show ?thesis by (fastforce simp: drop_err_Inr split: if_splits)
    qed
    with q show ?thesis by blast
  next
    case False
    let ?r1 = "r\<lparr>r_electionElapsed := r_electionElapsed r + 1\<rparr>"
    have q: "quiet P r ?r1" "quiet P r (?r1\<lparr>r_electionElapsed := 0\<rparr>)" using peer_ok_conf [OF assms(2)] by auto
    have "tickElection st r = Inr r'" using False assms(1) by (cases "r_State r") (auto simp: tick_def)
    then have "r' = ?r1 \<or> (\<exists>m e. Step st m (?r1\<lparr>r_electionElapsed := 0\<rparr>) = Inr (e, r') \<and> m_MsgType m = MsgHup)"
      by (fastforce simp: tickElection_def Let_def drop_err_Inr split: if_splits)
    with q show ?thesis by blast
  qed
  then obtain r1 where r1: "quiet P r r1" "r' = r1 \<or> (\<exists>m e. Step st m r1 = Inr (e, r') \<and> (m_MsgType m = MsgHup \<or> m_MsgType m = MsgBeat))"
    by blast
  note q = quiet_implements [OF assms(2) r1(1), of "{}"]
  also have "implements P i {} r1 r'"
    using r1(2)
  proof
    assume "r' = r1"
    then show ?thesis using implements_ok [OF q] by simp
  next
    assume "\<exists>m e. Step st m r1 = Inr (e, r') \<and> (m_MsgType m = MsgHup \<or> m_MsgType m = MsgBeat)"
    then obtain m e where m: "Step st m r1 = Inr (e, r')" and ty: "m_MsgType m = MsgHup \<or> m_MsgType m = MsgBeat" by blast
    have "\<not> lead_msg m" "m_MsgType m \<noteq> MsgRequestVote" "m_MsgType m \<noteq> MsgRequestVoteResponse"
      using ty by (auto simp: lead_msg_def)
    note l = local_msg [OF this]
    show ?thesis using Step_implements [OF m implements_ok [OF q] l(1) assms(3)] by (simp only: l(2))
  qed
  finally show ?thesis .
qed

end
