(* ===== verification/Cluster.thy ===== *)
theory Cluster
  imports Election
begin

text \<open>
  A cluster of Raft nodes with a fixed configuration, driven as \<open>rawnode.go\<close> asks the application
  to drive it: deliver messages, tick, propose; take a \<open>Ready\<close>, save its hard state, then send its
  messages, then \<open>Advance\<close>. Messages may be lost, repeated and reordered. A node may stop at any
  point (a fault of a call stops it too) and start again from what it saved.
\<close>

section \<open>The cluster\<close>

record cluster =
  cl_node :: "nat \<Rightarrow> RawNode"
  cl_saved :: "nat \<Rightarrow> HardState"
  cl_ready :: "nat \<Rightarrow> Ready option"
  cl_net :: "Message set"
  cl_led :: "(nat \<times> nat) set"

text \<open>
  The storage of a node at the time of a call: it answers with the hard state saved last and the
  configuration; its entries may be any.
\<close>

definition stores :: "nat set \<Rightarrow> HardState \<Rightarrow> raft_storage \<Rightarrow> bool" where
  "stores P hs st \<longleftrightarrow> (\<exists>cs. rs_InitialState st = Inr (hs, cs) \<and> set cs = P) \<and> st_conf P st"

definition leads :: "nat \<Rightarrow> RawNode \<Rightarrow> (nat \<times> nat) set" where
  "leads i rn = (if r_State (rn_Raft rn) = StateLeader then {(i, r_Term (rn_Raft rn))} else {})"

definition set_node :: "nat \<Rightarrow> RawNode \<Rightarrow> cluster \<Rightarrow> cluster" where
  "set_node i rn c = c\<lparr>cl_node := (cl_node c)(i := rn), cl_led := cl_led c \<union> leads i rn\<rparr>"

definition save_ready :: "Ready \<Rightarrow> HardState \<Rightarrow> HardState" where
  "save_ready rd hs = (if IsEmptyHardState (rdy_HardState rd) then hs else rdy_HardState rd)"

definition take_ready :: "nat \<Rightarrow> Ready \<Rightarrow> cluster \<Rightarrow> cluster" where
  "take_ready i rd c = c\<lparr>cl_saved := (cl_saved c)(i := save_ready rd (cl_saved c i)),
     cl_ready := (cl_ready c)(i := Some rd), cl_net := cl_net c \<union> set (rdy_Messages rd)\<rparr>"

definition clear_ready :: "nat \<Rightarrow> cluster \<Rightarrow> cluster" where
  "clear_ready i c = c\<lparr>cl_ready := (cl_ready c)(i := None)\<rparr>"

text \<open>Starting a node that has storage: the configuration comes from the storage.\<close>

definition starts :: "nat set \<Rightarrow> nat \<Rightarrow> HardState \<Rightarrow> RawNode \<Rightarrow> bool" where
  "starts P i hs rn \<longleftrightarrow> (\<exists>st cfg rand. stores P hs st \<and> c_ID cfg = i \<and> c_peers cfg = [] \<and> NewRawNode st cfg rand = Inr rn)"

inductive cstep :: "nat set \<Rightarrow> cluster \<Rightarrow> cluster \<Rightarrow> bool" for P where
  deliver: "i \<in> P \<Longrightarrow> stores P (cl_saved c i) st \<Longrightarrow> m \<in> cl_net c \<Longrightarrow> m_To m = i \<Longrightarrow>
    RawNode_Step st m (cl_node c i) = Inr (e, rn) \<Longrightarrow> cstep P c (set_node i rn c)"
| tick: "i \<in> P \<Longrightarrow> stores P (cl_saved c i) st \<Longrightarrow> RawNode_Tick st (cl_node c i) = Inr rn \<Longrightarrow>
    cstep P c (set_node i rn c)"
| campaign: "i \<in> P \<Longrightarrow> stores P (cl_saved c i) st \<Longrightarrow> RawNode_Campaign st (cl_node c i) = Inr (e, rn) \<Longrightarrow>
    cstep P c (set_node i rn c)"
| propose: "i \<in> P \<Longrightarrow> stores P (cl_saved c i) st \<Longrightarrow> RawNode_Propose st data (cl_node c i) = Inr (e, rn) \<Longrightarrow>
    cstep P c (set_node i rn c)"
| transfer: "i \<in> P \<Longrightarrow> stores P (cl_saved c i) st \<Longrightarrow> RawNode_TransferLeader st n (cl_node c i) = Inr rn \<Longrightarrow>
    cstep P c (set_node i rn c)"
| ready: "i \<in> P \<Longrightarrow> cl_ready c i = None \<Longrightarrow> RawNode_Ready (cl_node c i) = Inr (rd, rn) \<Longrightarrow>
    cstep P c (take_ready i rd (set_node i rn c))"
| advance: "i \<in> P \<Longrightarrow> cl_ready c i = Some rd \<Longrightarrow> RawNode_Advance rd (cl_node c i) = Inr rn \<Longrightarrow>
    cstep P c (clear_ready i (set_node i rn c))"
| restart: "i \<in> P \<Longrightarrow> starts P i (cl_saved c i) rn \<Longrightarrow> cstep P c (clear_ready i (set_node i rn c))"

inductive creach :: "nat set \<Rightarrow> cluster \<Rightarrow> bool" for P where
  start: "(\<And>i. i \<in> P \<Longrightarrow> starts P i (cl_saved c i) (cl_node c i)) \<Longrightarrow> cl_ready c = (\<lambda>_. None) \<Longrightarrow>
    cl_net c = {} \<Longrightarrow> cl_led c = {} \<Longrightarrow> creach P c"
| step: "creach P c \<Longrightarrow> cstep P c c' \<Longrightarrow> creach P c'"

section \<open>The nodes\<close>

lemma rn_step_implements:
  assumes "rn_step st m rn = Inr (e, rn')" "peer_ok P i (rn_Raft rn)" "handed P i m" "st_conf P st"
  shows "implements P i (abs_msgs {m}) (rn_Raft rn) (rn_Raft rn')" "rn_prevHardSt rn' = rn_prevHardSt rn"
proof -
  obtain r where r: "Step st m (rn_Raft rn) = Inr (e, r)" "rn' = rn\<lparr>rn_Raft := r\<rparr>"
    using assms(1) by (auto simp: rn_step_def bindR_Inr_iff)
  show "implements P i (abs_msgs {m}) (rn_Raft rn) (rn_Raft rn')"
    using Step_implements [OF r(1) assms(2-4)] r(2) by simp
  show "rn_prevHardSt rn' = rn_prevHardSt rn" using r(2) by simp
qed

text \<open>A local message.\<close>

lemma rn_local_implements:
  assumes "rn_step st m rn = Inr (e, rn')" "peer_ok P i (rn_Raft rn)" "st_conf P st"
    "m_MsgType m \<in> {MsgHup, MsgPropose, MsgTransferLeader}"
  shows "implements P i {} (rn_Raft rn) (rn_Raft rn')" "rn_prevHardSt rn' = rn_prevHardSt rn"
proof -
  have "\<not> lead_msg m" "m_MsgType m \<noteq> MsgRequestVote" "m_MsgType m \<noteq> MsgRequestVoteResponse"
    using assms(4) by (auto simp: lead_msg_def)
  note l = local_msg [OF this]
  show "implements P i {} (rn_Raft rn) (rn_Raft rn')" "rn_prevHardSt rn' = rn_prevHardSt rn"
    using rn_step_implements [OF assms(1,2) l(1) assms(3)] by (simp_all only: l(2))
qed

lemma wire_handed: "wire P m \<Longrightarrow> m_To m = i \<Longrightarrow> 0 \<notin> P \<Longrightarrow> handed P i m"
  unfolding wire_def handed_def by (metis (no_types))

lemma foldl_update_keys:
  "distinct (map fst ps) \<Longrightarrow> distinct (map fst (foldl (\<lambda>ps p. AList.update p v ps) ps xs))
   \<and> set (map fst (foldl (\<lambda>ps p. AList.update p v ps) ps xs)) = set (map fst ps) \<union> set xs"
proof (induction xs arbitrary: ps)
  case (Cons x xs)
  have "distinct (map fst (AList.update x v ps))" using Cons.prems by (rule distinct_update)
  from Cons.IH [OF this] show ?case by (simp only: foldl_Cons AList.update_keys) auto
qed simp

lemma becomeFollower_keeps:
  assumes "becomeFollower t lead r = Inr r'"
  shows "r_id r' = r_id r" "r_RaftLog r' = r_RaftLog r" "r_State r' = StateFollower" "r_msgs r' = r_msgs r"
    "members r' = members r" "r_Term r' = t" "r_votes r' = []" "r_Vote r' = (if r_Term r = t then r_Vote r else NoNode)"
proof -
  obtain r1 where r1: "reset t r = Inr r1" "r' = r1\<lparr>r_Lead := lead, r_State := StateFollower\<rparr>"
    using assms by (auto simp: becomeFollower_def bindR_Inr_iff)
  with reset_keeps [OF r1(1)] show "r_id r' = r_id r" "r_RaftLog r' = r_RaftLog r" "r_State r' = StateFollower"
    "r_msgs r' = r_msgs r" "members r' = members r" "r_Term r' = t" "r_votes r' = []"
    "r_Vote r' = (if r_Term r = t then r_Vote r else NoNode)"
    by (auto simp: members_def)
qed

lemma loaded_state:
  assumes "(if \<not> IsEmptyHardState hs then loadState hs r else Inr r) = Inr r1" "r_Term r = 0" "r_Vote r = 0"
  shows "r_Term r1 = hs_Term hs" "r_Vote r1 = hs_Vote hs" "r_id r1 = r_id r" "r_msgs r1 = r_msgs r" "r_Prs r1 = r_Prs r"
    "lg_pending_snapshot (r_RaftLog r1) = lg_pending_snapshot (r_RaftLog r)"
  using assms by (auto simp: loadState_def IsEmptyHardState_def isHardStateEqual_def emptyHardState_def split: if_splits)

lemma newRaft_state:
  assumes "newRaft st c rand = Inr r" "rs_InitialState st = Inr (hs, cs)" "c_peers c = []"
  shows "r_id r = c_ID c \<and> r_Term r = hs_Term hs \<and> r_Vote r = hs_Vote hs \<and> r_State r = StateFollower
    \<and> r_votes r = [] \<and> r_msgs r = [] \<and> distinct (members r) \<and> set (members r) = set cs
    \<and> lg_pending_snapshot (r_RaftLog r) = None"
proof -
  obtain raftlog r1 l1 where log: "newLog st = Inr raftlog"
    and load: "(if \<not> IsEmptyHardState hs then loadState hs
         \<lparr>r_id = c_ID c, r_Term = 0, r_Vote = 0, r_RaftLog = raftlog, r_Prs = new_prs cs,
          r_State = StateFollower, r_votes = [], r_msgs = [], r_Lead = NoNode,
          r_heartbeatTimeout = c_HeartbeatTick c, r_electionTimeout = c_ElectionTick c,
          r_randomizedElectionTimeout = 0, r_leadTransferee = 0, r_PendingConfIndex = 0,
          r_electionElapsed = 0, r_heartbeatElapsed = 0, r_rand = rand, r_drawn = 0\<rparr>
       else Inr \<lparr>r_id = c_ID c, r_Term = 0, r_Vote = 0, r_RaftLog = raftlog, r_Prs = new_prs cs,
          r_State = StateFollower, r_votes = [], r_msgs = [], r_Lead = NoNode,
          r_heartbeatTimeout = c_HeartbeatTick c, r_electionTimeout = c_ElectionTick c,
          r_randomizedElectionTimeout = 0, r_leadTransferee = 0, r_PendingConfIndex = 0,
          r_electionElapsed = 0, r_heartbeatElapsed = 0, r_rand = rand, r_drawn = 0\<rparr>) = Inr r1"
    and app: "(if c_Applied c > 0 then log_appliedTo (r_RaftLog r1) (c_Applied c) else Inr (r_RaftLog r1)) = Inr l1"
    and follow: "becomeFollower (r_Term r1) NoNode (r1\<lparr>r_RaftLog := l1\<rparr>) = Inr r"
    using assms unfolding newRaft_def Let_def
    by (cases "cs = []") (auto simp: bindR_Inr_iff orPanic_def split: option.splits)
  have "lg_pending_snapshot raftlog = None" using log by (auto simp: newLog_def bindR_Inr_iff)
  moreover have "lg_pending_snapshot l1 = lg_pending_snapshot (r_RaftLog r1)"
    using app by (auto simp: log_appliedTo_def split: if_splits)
  moreover have "members r = map fst (r_Prs r1)" using becomeFollower_keeps(5) [OF follow] by (simp add: members_def)
  moreover have "distinct (map fst (new_prs cs)) \<and> set (map fst (new_prs cs)) = set cs"
    using foldl_update_keys [of "[]" "\<lparr>pr_Match = 0, pr_Next = 1\<rparr>" cs] unfolding new_prs_def by simp
  ultimately show ?thesis
    using loaded_state [OF load] becomeFollower_keeps [OF follow] by simp
qed

lemma start_peer:
  assumes "starts P i hs rn" "i \<in> P"
  shows "peer_ok P i (rn_Raft rn)" "abs_raft (rn_Raft rn) = (recovered (hs_Term hs, hs_Vote hs), {})"
    "hs_Term (rn_prevHardSt rn) = hs_Term hs" "hs_Vote (rn_prevHardSt rn) = hs_Vote hs"
proof -
  obtain st cfg rand r cs where st: "rs_InitialState st = Inr (hs, cs)" "set cs = P" "c_ID cfg = i" "c_peers cfg = []"
    and r: "newRaft st cfg rand = Inr r" "rn_Raft rn = r" "rn_prevHardSt rn = hardState r"
    using assms(1) by (auto simp: starts_def stores_def NewRawNode_def bindR_Inr_iff split: if_splits)
  note s = newRaft_state [OF r(1) st(1,4)]
  then show "peer_ok P i (rn_Raft rn)" using st r assms(2) by (simp add: peer_ok_def conf_def)
  show "abs_raft (rn_Raft rn) = (recovered (hs_Term hs, hs_Vote hs), {})"
    using s r by (simp add: abs_raft_def abs_peer_def recovered_def)
  show "hs_Term (rn_prevHardSt rn) = hs_Term hs" "hs_Vote (rn_prevHardSt rn) = hs_Vote hs"
    using s r by (simp_all add: hardState_def)
qed

section \<open>The cluster implements the protocol\<close>

definition hs_pair :: "HardState \<Rightarrow> nat \<times> nat" where
  "hs_pair hs = (hs_Term hs, hs_Vote hs)"

text \<open>The hard state the node takes to be saved, once the \<open>Ready\<close> it handed out is done with.\<close>

definition known_saved :: "RawNode \<Rightarrow> Ready option \<Rightarrow> HardState" where
  "known_saved rn ord = (case ord of None \<Rightarrow> rn_prevHardSt rn | Some rd \<Rightarrow> save_ready rd (rn_prevHardSt rn))"

definition link :: "nat set \<Rightarrow> cluster \<Rightarrow> esys \<Rightarrow> bool" where
  "link P c s \<longleftrightarrow>
     (\<forall>i\<in>P. peer_ok P i (rn_Raft (cl_node c i)) \<and> (es_peer s i, es_out s i) = abs_raft (rn_Raft (cl_node c i))
        \<and> es_saved s i = hs_pair (cl_saved c i)
        \<and> hs_pair (known_saved (cl_node c i) (cl_ready c i)) = hs_pair (cl_saved c i))
     \<and> es_net s = abs_msgs (cl_net c) \<and> (\<forall>m\<in>cl_net c. wire P m) \<and> cl_led c \<subseteq> es_led s"

lemma leads_led: "leads i rn = led i (abs_peer (rn_Raft rn))"
  by (simp add: leads_def led_def abs_peer_def)

lemma link_act:
  assumes l: "link P c s" and s: "ereach P s" and P: "i \<in> P" "finite P" "0 \<notin> P"
    and im: "implements P i H (rn_Raft (cl_node c i)) (rn_Raft rn)" and H: "H \<subseteq> abs_msgs (cl_net c)"
    and hard: "hs_pair (known_saved rn ord) = hs_pair (cl_saved c i)"
  shows "\<exists>s'. ereach P s' \<and> link P ((set_node i rn c)\<lparr>cl_ready := (cl_ready c)(i := ord)\<rparr>) s'"
proof -
  obtain p out where p: "abs_raft (rn_Raft rn) = (p, out)" by fastforce
  have "esteps P i (es_net s) (es_peer s i, es_out s i) (p, out)"
    using im H l P(1) p esteps_hear [of P i H _ _ "es_net s"] by (simp add: implements_def link_def)
  from ereach_esteps [OF this s P] obtain s' where s': "ereach P s'" "acted i p out s s'" by blast
  have "leads i rn = led i p" using p by (simp add: leads_led abs_raft_def)
  then have "link P ((set_node i rn c)\<lparr>cl_ready := (cl_ready c)(i := ord)\<rparr>) s'"
    using l s'(2) p im hard by (auto simp: link_def acted_def set_node_def implements_def)
  with s'(1) show ?thesis by blast
qed

lemma link_node:
  assumes "link P c s" "ereach P s" "i \<in> P" "finite P" "0 \<notin> P"
    "implements P i H (rn_Raft (cl_node c i)) (rn_Raft rn)" "H \<subseteq> abs_msgs (cl_net c)"
    "rn_prevHardSt rn = rn_prevHardSt (cl_node c i)"
  shows "\<exists>s'. ereach P s' \<and> link P (set_node i rn c) s'"
proof -
  have "known_saved rn (cl_ready c i) = known_saved (cl_node c i) (cl_ready c i)"
    using assms(8) by (simp add: known_saved_def split: option.split)
  then have "hs_pair (known_saved rn (cl_ready c i)) = hs_pair (cl_saved c i)" using assms(1,3) by (simp add: link_def)
  from link_act [OF assms(1-7) this] show ?thesis by (simp add: set_node_def)
qed

lemma ready_parts:
  assumes "RawNode_Ready rn = Inr (rd, rn')"
  shows "rdy_Messages rd = r_msgs (rn_Raft rn)" "rn' = rn\<lparr>rn_Raft := (rn_Raft rn)\<lparr>r_msgs := []\<rparr>\<rparr>"
    "rdy_HardState rd = (if isHardStateEqual (hardState (rn_Raft rn)) (rn_prevHardSt rn) then emptyHardState
                         else hardState (rn_Raft rn))"
  using assms by (auto simp: RawNode_Ready_def newReady_def bindR_Inr_iff)

text \<open>After a \<open>Ready\<close> was saved, the term and the vote of the node are in its storage.\<close>

lemma ready_saves:
  assumes inv: "einv P s" and l: "link P c s" and i: "i \<in> P" and none: "cl_ready c i = None"
    and rd: "RawNode_Ready (cl_node c i) = Inr (rd, rn)"
  shows "hs_pair (save_ready rd (cl_saved c i)) = (r_Term (rn_Raft (cl_node c i)), r_Vote (rn_Raft (cl_node c i)))"
    "hs_pair (save_ready rd (rn_prevHardSt rn)) = hs_pair (save_ready rd (cl_saved c i))"
proof -
  let ?r = "rn_Raft (cl_node c i)" let ?prev = "rn_prevHardSt (cl_node c i)"
  note parts = ready_parts [OF rd]
  have prev: "hs_pair ?prev = hs_pair (cl_saved c i)" "es_saved s i = hs_pair (cl_saved c i)"
    and peer: "es_peer s i = abs_peer ?r" using l i none by (auto simp: link_def known_saved_def abs_raft_def)
  show "hs_pair (save_ready rd (rn_prevHardSt rn)) = hs_pair (save_ready rd (cl_saved c i))"
    using prev parts by (auto simp: save_ready_def)
  show "hs_pair (save_ready rd (cl_saved c i)) = (r_Term ?r, r_Vote ?r)"
  proof (cases "isHardStateEqual (hardState ?r) ?prev")
    case True
    then show ?thesis using prev parts(3)
      by (auto simp: save_ready_def isHardStateEqual_def hardState_def hs_pair_def IsEmptyHardState_def)
  next
    case False
    show ?thesis
    proof (cases "IsEmptyHardState (hardState ?r)")
      case True
      then have zero: "r_Term ?r = 0" "r_Vote ?r = 0"
        by (auto simp: IsEmptyHardState_def isHardStateEqual_def hardState_def emptyHardState_def)
      have "fst (es_saved s i) = 0" using inv zero peer unfolding einv_def by (metis abs_peer_def epeer.select_convs(1) le_zero_eq)
      moreover have "snd (es_saved s i) = 0"
      proof (rule ccontr)
        assume "snd (es_saved s i) \<noteq> 0"
        then have "es_cast s i 0 = Some (snd (es_saved s i))"
          using inv calculation unfolding einv_def votes_upto_def by metis
        then have "es_vol s i 0 = Some (snd (es_saved s i))" using inv map_le_Some unfolding einv_def by metis
        moreover have "es_vol s i 0 = None" using inv zero peer unfolding einv_def votes_upto_def
          by (metis abs_peer_def epeer.select_convs(1,2))
        ultimately show False by simp
      qed
      ultimately show ?thesis using prev zero True False parts(3) by (simp add: save_ready_def prod_eq_iff)
    next
      case nonempty: False
      then show ?thesis using False parts(3) by (simp add: save_ready_def hs_pair_def hardState_def)
    qed
  qed
qed

lemma link_ready:
  assumes l: "link P c s" and s: "ereach P s" and P: "i \<in> P" "finite P" "0 \<notin> P"
    and none: "cl_ready c i = None" and rd: "RawNode_Ready (cl_node c i) = Inr (rd, rn)"
  shows "ereach P (eflush i s) \<and> link P (take_ready i rd (set_node i rn c)) (eflush i s)"
proof -
  let ?r = "rn_Raft (cl_node c i)"
  note parts = ready_parts [OF rd] and saves = ready_saves [OF ereach_inv [OF s P(2,3)] l P(1) none rd]
  have ok: "peer_ok P i ?r" and abs: "es_peer s i = abs_peer ?r" "es_out s i = abs_msgs (set (r_msgs ?r))"
    and net: "es_net s = abs_msgs (cl_net c)" "\<forall>m\<in>cl_net c. wire P m" and led: "cl_led c \<subseteq> es_led s"
    using l P(1) by (auto simp: link_def abs_raft_def)
  have "peer_ok P i (rn_Raft rn)" using ok by (simp add: parts(2) peer_ok_def conf_def members_def)
  moreover have "abs_raft (rn_Raft rn) = (abs_peer ?r, {})" by (simp add: parts(2) abs_raft_def abs_peer_def)
  moreover have "leads i rn \<subseteq> es_led s"
    using ereach_inv [OF s P(2,3)] abs(1) by (simp add: leads_led einv_def parts(2)) (simp add: abs_peer_def, metis)
  moreover have "\<forall>m\<in>set (rdy_Messages rd). wire P m" using ok by (simp add: parts(1) peer_ok_def)
  ultimately have "link P (take_ready i rd (set_node i rn c)) (eflush i s)"
    using l saves abs net led parts(1)
    by (auto simp: link_def eflush_def take_ready_def set_node_def known_saved_def abs_peer_def)
  with ereach.flush [OF s P(1)] show ?thesis by simp
qed

lemma advance_log_pending:
  "log_appliedTo l i = Inr l' \<Longrightarrow> lg_pending_snapshot l' = lg_pending_snapshot l"
  "lg_pending_snapshot (log_stableTo l i t) = lg_pending_snapshot l"
  "lg_pending_snapshot (log_stableSnapTo l i) \<in> {None, lg_pending_snapshot l}"
  by (auto simp: log_appliedTo_def log_stableTo_def log_stableSnapTo_def split: if_splits option.splits)

definition advance_log :: "Ready \<Rightarrow> RaftLog \<Rightarrow> RaftLog" where
  "advance_log rd l1 =
     (let l2 = (if rdy_Entries rd \<noteq> []
                then let e = rdy_Entries rd ! (length (rdy_Entries rd) - 1) in log_stableTo l1 (e_Index e) (e_Term e)
                else l1)
      in if \<not> IsEmptySnap (Some (rdy_Snapshot rd))
         then log_stableSnapTo l2 (sm_Index (sn_Metadata (rdy_Snapshot rd))) else l2)"

lemma advance_unfold:
  "RawNode_Advance rd rn =
     bindR (let c = hs_Commit (save_ready rd (rn_prevHardSt rn)); l = r_RaftLog (rn_Raft rn)
            in if c \<noteq> 0 then log_appliedTo l c else Inr l)
       (\<lambda>l1. Inr \<lparr>rn_Raft = (rn_Raft rn)\<lparr>r_RaftLog := advance_log rd l1\<rparr>,
                  rn_prevSoftSt = (case rdy_SoftState rd of Some s \<Rightarrow> s | None \<Rightarrow> rn_prevSoftSt rn),
                  rn_prevHardSt = save_ready rd (rn_prevHardSt rn)\<rparr>)"
  unfolding RawNode_Advance_def Let_def save_ready_def advance_log_def
  by (cases "rdy_SoftState rd"; cases "IsEmptyHardState (rdy_HardState rd)"; cases rn; simp)

lemma advance_log_pending_snapshot: "lg_pending_snapshot (advance_log rd l) \<in> {None, lg_pending_snapshot l}"
  using advance_log_pending(3) [of "log_stableTo l _ _"] advance_log_pending(3) [of l]
  by (auto simp: advance_log_def Let_def advance_log_pending)

lemma advance_parts:
  assumes "RawNode_Advance rd rn = Inr rn'" "conf P (rn_Raft rn)"
  shows "quiet P (rn_Raft rn) (rn_Raft rn')" "rn_prevHardSt rn' = save_ready rd (rn_prevHardSt rn)"
proof -
  let ?l = "r_RaftLog (rn_Raft rn)"
  obtain l1 where a: "(let c = hs_Commit (save_ready rd (rn_prevHardSt rn)) in if c \<noteq> 0 then log_appliedTo ?l c else Inr ?l) = Inr l1"
    and rn': "rn' = \<lparr>rn_Raft = (rn_Raft rn)\<lparr>r_RaftLog := advance_log rd l1\<rparr>,
        rn_prevSoftSt = (case rdy_SoftState rd of Some s \<Rightarrow> s | None \<Rightarrow> rn_prevSoftSt rn),
        rn_prevHardSt = save_ready rd (rn_prevHardSt rn)\<rparr>"
    using assms(1) unfolding advance_unfold bindR_Inr_iff Let_def by blast
  have l1: "l1 = ?l \<or> (\<exists>i. log_appliedTo ?l i = Inr l1)"
    "rn_Raft rn' = (rn_Raft rn)\<lparr>r_RaftLog := advance_log rd l1\<rparr>" "rn_prevHardSt rn' = save_ready rd (rn_prevHardSt rn)"
    using a rn' by (auto simp: Let_def split: if_splits)
  have "lg_pending_snapshot (advance_log rd l1) \<in> {None, lg_pending_snapshot ?l}"
    using l1(1) advance_log_pending_snapshot [of rd l1] advance_log_pending(1) by metis
  then show "quiet P (rn_Raft rn) (rn_Raft rn')" using l1(2) assms(2) by (auto simp: quiet_def conf_def members_def)
  show "rn_prevHardSt rn' = save_ready rd (rn_prevHardSt rn)" by (rule l1(3))
qed

lemma link_advance:
  assumes "link P c s" "ereach P s" "i \<in> P" "finite P" "0 \<notin> P" "cl_ready c i = Some rd"
    "RawNode_Advance rd (cl_node c i) = Inr rn"
  shows "\<exists>s'. ereach P s' \<and> link P (clear_ready i (set_node i rn c)) s'"
proof -
  have ok: "peer_ok P i (rn_Raft (cl_node c i))" using assms(1,3) by (simp add: link_def)
  note parts = advance_parts [OF assms(7) peer_ok_conf [OF ok]]
  have "hs_pair (known_saved rn None) = hs_pair (cl_saved c i)"
    using assms(1,3,6) parts(2) unfolding link_def known_saved_def by (metis option.simps(4,5))
  from link_act [OF assms(1-5) quiet_implements [OF ok parts(1)] _ this, of "{}"] show ?thesis
    by (simp add: clear_ready_def set_node_def)
qed

lemma link_restart:
  assumes "link P c s" "ereach P s" "i \<in> P" "starts P i (cl_saved c i) rn"
  shows "ereach P (erestart i s) \<and> link P (clear_ready i (set_node i rn c)) (erestart i s)"
proof -
  note st = start_peer [OF assms(4,3)]
  have "leads i rn = {}" using st(2) by (simp add: leads_led led_def abs_raft_def recovered_def)
  then have "link P (clear_ready i (set_node i rn c)) (erestart i s)"
    using assms(1,3) st by (auto simp: link_def erestart_def clear_ready_def set_node_def known_saved_def hs_pair_def)
  with ereach.restart [OF assms(2,3)] show ?thesis by simp
qed

lemma link_start:
  assumes "\<And>i. i \<in> P \<Longrightarrow> starts P i (cl_saved c i) (cl_node c i)" "cl_ready c = (\<lambda>_. None)" "cl_net c = {}" "cl_led c = {}"
  shows "link P c (estart (\<lambda>i. hs_pair (cl_saved c i)))"
  using assms start_peer [OF assms(1)] by (auto simp: link_def estart_def known_saved_def hs_pair_def)

lemma link_step:
  assumes "link P c s" "ereach P s" "finite P" "0 \<notin> P" "cstep P c c'"
  shows "\<exists>s'. ereach P s' \<and> link P c' s'"
  using assms(5)
proof cases
  case (deliver i st m e rn)
  have ok: "peer_ok P i (rn_Raft (cl_node c i))" and "wire P m" using assms(1) deliver by (auto simp: link_def)
  then have h: "handed P i m" using wire_handed deliver(5) assms(4) by blast
  have st: "st_conf P st" using deliver by (simp add: stores_def)
  have "rn = cl_node c i \<or> rn_step st m (cl_node c i) = Inr (e, rn)"
    using deliver(6) by (auto simp: RawNode_Step_def split: if_splits)
  then have "implements P i (abs_msgs {m}) (rn_Raft (cl_node c i)) (rn_Raft rn) \<and> rn_prevHardSt rn = rn_prevHardSt (cl_node c i)"
    using rn_step_implements [OF _ ok h st] ok by (auto simp del: abs_msgs_simps)
  moreover have "abs_msgs {m} \<subseteq> abs_msgs (cl_net c)" using deliver(4) by (auto simp: abs_msgs_def)
  ultimately show ?thesis using link_node [OF assms(1,2) deliver(2) assms(3,4)] deliver(1) by blast
next
  case (tick i st rn)
  have ok: "peer_ok P i (rn_Raft (cl_node c i))" using assms(1) tick by (auto simp: link_def)
  obtain r where "Raft.tick st (rn_Raft (cl_node c i)) = Inr r" "rn = (cl_node c i)\<lparr>rn_Raft := r\<rparr>"
    using tick(4) by (auto simp: RawNode_Tick_def bindR_Inr_iff)
  then show ?thesis
    using link_node [OF assms(1,2) tick(2) assms(3,4), of "{}" rn] tick_implements [of st _ r P i] ok tick(1,3)
    by (auto simp: stores_def)
next
  case (campaign i st e rn)
  then show ?thesis
    using link_node [OF assms(1,2) campaign(2) assms(3,4), of "{}" rn] rn_local_implements [of st _ "cl_node c i" e rn P i] assms(1)
    by (fastforce simp: RawNode_Campaign_def stores_def link_def)
next
  case (propose i st data e rn)
  then show ?thesis
    using link_node [OF assms(1,2) propose(2) assms(3,4), of "{}" rn] rn_local_implements [of st _ "cl_node c i" e rn P i] assms(1)
    by (fastforce simp: RawNode_Propose_def stores_def link_def)
next
  case (transfer i st n rn)
  then obtain e where "rn_step st (zeroMessage\<lparr>m_MsgType := MsgTransferLeader, m_From := n\<rparr>) (cl_node c i) = Inr (e, rn)"
    by (auto simp: RawNode_TransferLeader_def bindR_Inr_iff)
  with transfer show ?thesis
    using link_node [OF assms(1,2) transfer(2) assms(3,4), of "{}" rn] rn_local_implements [of st _ "cl_node c i" e rn P i] assms(1)
    by (fastforce simp: stores_def link_def)
next
  case (ready i rd rn)
  then show ?thesis using link_ready [OF assms(1,2) _ assms(3,4)] by blast
next
  case (advance i rd rn)
  then show ?thesis using link_advance [OF assms(1,2) _ assms(3,4)] by blast
next
  case (restart i rn)
  then show ?thesis using link_restart [OF assms(1,2)] by blast
qed

lemma cluster_implements_protocol:
  assumes "creach P c" "finite P" "0 \<notin> P"
  shows "\<exists>s. ereach P s \<and> link P c s"
  using assms(1)
proof (induction rule: creach.induct)
  case (start c)
  then show ?case using link_start ereach.start by blast
next
  case (step c c')
  then show ?case using link_step assms(2,3) by blast
qed

text \<open>A run of three nodes: node 1 campaigns, node 2 grants it its vote, node 1 leads term 1.\<close>

definition demo_conf :: "nat list" where
  "demo_conf = [1, 2, 3]"

definition demo_store :: "HardState \<Rightarrow> raft_storage" where
  "demo_store hs = MemoryStorage_view (MemoryStorage_SetHardState
     (NewMemoryStorage\<lparr>ms_snapshot := \<lparr>sn_Data = None, sn_Metadata = \<lparr>sm_ConfState = demo_conf, sm_Index = 0, sm_Term = 0\<rparr>\<rparr>\<rparr>) hs)"

definition demo_cfg :: "nat \<Rightarrow> Config" where
  "demo_cfg i = \<lparr>c_ID = i, c_peers = [], c_ElectionTick = 10, c_HeartbeatTick = 1, c_Applied = 0\<rparr>"

definition demo_node :: "nat \<Rightarrow> RawNode" where
  "demo_node i = projr (NewRawNode (demo_store emptyHardState) (demo_cfg i) (\<lambda>_. 0))"

definition demo0 :: cluster where
  "demo0 = \<lparr>cl_node = demo_node, cl_saved = (\<lambda>_. emptyHardState), cl_ready = (\<lambda>_. None), cl_net = {}, cl_led = {}\<rparr>"

definition demo_n1 :: RawNode where
  "demo_n1 = snd (projr (RawNode_Campaign (demo_store emptyHardState) (demo_node 1)))"

definition demo_rd1 :: "Ready \<times> RawNode" where
  "demo_rd1 = projr (RawNode_Ready demo_n1)"

definition demo_n2 :: RawNode where
  "demo_n2 = snd (projr (RawNode_Step (demo_store emptyHardState) (rdy_Messages (fst demo_rd1) ! 0) (demo_node 2)))"

definition demo_rd2 :: "Ready \<times> RawNode" where
  "demo_rd2 = projr (RawNode_Ready demo_n2)"

definition demo_n1' :: RawNode where
  "demo_n1' = snd (projr (RawNode_Step (demo_store (rdy_HardState (fst demo_rd1))) (rdy_Messages (fst demo_rd2) ! 0) (snd demo_rd1)))"

definition demo3 :: cluster where
  "demo3 = set_node 1 demo_n1' (take_ready 2 (fst demo_rd2) (set_node 2 (snd demo_rd2) (set_node 2 demo_n2
     (take_ready 1 (fst demo_rd1) (set_node 1 (snd demo_rd1) (set_node 1 demo_n1 demo0))))))"

lemma demo_stores: "stores {1, 2, 3} hs (demo_store hs)"
  by (auto simp: stores_def st_conf_def snap_conf_def demo_store_def demo_conf_def MemoryStorage_view_def MemoryStorage_Snapshot_def
      MemoryStorage_InitialState_def MemoryStorage_SetHardState_def)

lemmas exec_storage = MemoryStorage_view_def MemoryStorage_Snapshot_def MemoryStorage_InitialState_def
  MemoryStorage_SetHardState_def MemoryStorage_firstIndex_def MemoryStorage_lastIndex_def MemoryStorage_Term_def
  MemoryStorage_Entries_def NewMemoryStorage_def ents0_def zeroEntry_def emptyHardState_def IsEmptyHardState_def
  isHardStateEqual_def to_int_def emptySnapshot_def

lemmas exec_log = newLog_def orPanic_def log_LastIndex_def log_lastTerm_def log_term_def log_firstIndex_def log_slice_def
  log_mustCheckOutOfBounds_def log_isUpToDate_def log_append_def log_truncateAndAppend_def log_maybeCompact_def
  log_maybeCommit_def log_commitTo_def log_matchTerm_def log_Entries_def log_unstableEntries_def log_nextEnts_def
  log_nextEntsSince_def

lemmas exec_raft = newRaft_def Config_validate_def NoNode_def new_prs_def loadState_def becomeFollower_def reset_def
  resetRandomizedElectionTimeout_def Intn_def abortLeaderTransfer_def Step_def step_term_def hup_def campaign_def
  becomeCandidate_def poll_def quorum_def granted_votes_def numOfPendingConf_def sendVoteRequest_def send_def zeroMessage_def
  requestVote_def stepFollower_def stepCandidate_def becomeLeader_def appendEntry_def number_entries_def mustProgress_def
  getProgress_def putProgress_def Progress_maybeUpdate_def maybeCommit_def bcastAppend_def sendAppend_def ok_def
  hardState_def softState_def

lemmas exec_node = NewRawNode_def rn_step_def RawNode_Campaign_def RawNode_Step_def IsLocalMsg_def IsResponseMsg_def
  RawNode_Ready_def newReady_def SoftState_equal_def

lemmas exec_demo = demo_node_def demo_n1_def demo_rd1_def demo_n2_def demo_rd2_def demo_n1'_def demo_store_def demo_cfg_def
  demo_conf_def exec_storage exec_log exec_raft exec_node Let_def

lemma demo_start: "i \<in> {1, 2, 3} \<Longrightarrow> NewRawNode (demo_store emptyHardState) (demo_cfg i) (\<lambda>_. 0) = Inr (demo_node i)"
  by (auto simp: exec_demo)

lemma demo_campaign:
  "RawNode_Campaign (demo_store emptyHardState) (demo_node 1) = Inr (None, demo_n1)"
  "RawNode_Ready demo_n1 = Inr demo_rd1"
  by (simp_all add: exec_demo)

lemma demo_vote:
  "RawNode_Step (demo_store emptyHardState) (rdy_Messages (fst demo_rd1) ! 0) (demo_node 2) = Inr (None, demo_n2)"
  "RawNode_Ready demo_n2 = Inr demo_rd2"
  by (simp_all add: exec_demo)

lemma demo_sent:
  "length (rdy_Messages (fst demo_rd1)) = 2" "m_To (rdy_Messages (fst demo_rd1) ! 0) = 2"
  "length (rdy_Messages (fst demo_rd2)) = 1" "m_To (rdy_Messages (fst demo_rd2) ! 0) = 1"
  "IsEmptyHardState (rdy_HardState (fst demo_rd1)) = False"
  by (simp_all add: exec_demo)

lemma demo_wins:
  "RawNode_Step (demo_store (rdy_HardState (fst demo_rd1))) (rdy_Messages (fst demo_rd2) ! 0) (snd demo_rd1) = Inr (None, demo_n1')"
  by (simp add: exec_demo)

lemma demo_leader: "r_State (rn_Raft demo_n1') = StateLeader" "r_Term (rn_Raft demo_n1') = 1"
  by (simp_all add: exec_demo)

lemma demo_reach: "creach {1, 2, 3} demo3"
proof -
  let ?P = "{1, 2, 3} :: nat set" and ?hs = emptyHardState
  define c1 where "c1 = set_node 1 demo_n1 demo0"
  define c2 where "c2 = take_ready 1 (fst demo_rd1) (set_node 1 (snd demo_rd1) c1)"
  define c3 where "c3 = set_node 2 demo_n2 c2"
  define c4 where "c4 = take_ready 2 (fst demo_rd2) (set_node 2 (snd demo_rd2) c3)"
  note defs = set_node_def take_ready_def save_ready_def demo0_def
  have "starts ?P i (cl_saved demo0 i) (cl_node demo0 i)" if "i \<in> ?P" for i
    using demo_start [OF that] demo_stores [of ?hs] unfolding starts_def
    by (intro exI [of _ "demo_store ?hs"] exI [of _ "demo_cfg i"] exI [of _ "\<lambda>_. 0"]) (simp add: demo0_def demo_cfg_def)
  then have "creach ?P demo0" by (rule creach.start) (auto simp: demo0_def)
  moreover have "cstep ?P demo0 c1" unfolding c1_def
    by (rule cstep.campaign [OF _ demo_stores]) (simp_all add: demo0_def demo_campaign(1) del: One_nat_def)
  ultimately have "creach ?P c1" by (rule creach.step)
  moreover have "cstep ?P c1 c2" unfolding c2_def
    by (rule cstep.ready) (simp_all add: c1_def defs demo_campaign(2) del: One_nat_def)
  ultimately have "creach ?P c2" by (rule creach.step)
  moreover have "cstep ?P c2 c3" unfolding c3_def
    by (rule cstep.deliver [OF _ demo_stores, where m = "rdy_Messages (fst demo_rd1) ! 0"])
       (simp_all add: c2_def c1_def defs demo_sent demo_vote(1) del: One_nat_def)
  ultimately have "creach ?P c3" by (rule creach.step)
  moreover have "cstep ?P c3 c4" unfolding c4_def
    by (rule cstep.ready) (simp_all add: c3_def c2_def c1_def defs demo_vote(2) del: One_nat_def)
  ultimately have "creach ?P c4" by (rule creach.step)
  moreover have "cstep ?P c4 (set_node 1 demo_n1' c4)"
    by (rule cstep.deliver [OF _ demo_stores, where m = "rdy_Messages (fst demo_rd2) ! 0"])
       (simp_all add: c4_def c3_def c2_def c1_def defs demo_sent demo_wins del: One_nat_def)
  ultimately have "creach ?P (set_node 1 demo_n1' c4)" by (rule creach.step)
  then show ?thesis by (simp add: demo3_def c4_def c3_def c2_def c1_def)
qed

lemma demo_led: "(1, 1) \<in> cl_led demo3"
  by (simp add: demo3_def set_node_def leads_def demo_leader del: One_nat_def)

section \<open>Election safety\<close>

text \<open>C1. In every run of a cluster of Raft nodes with a fixed configuration, with messages lost, repeated and
  reordered and nodes that stop and start again from their saved state, at most one node is ever leader of a term.\<close>

theorem one_leader_per_term:
  assumes "creach P c" "finite P" "0 \<notin> P" "(i, t) \<in> cl_led c" "(j, t) \<in> cl_led c"
  shows "i = j"
proof -
  obtain s where "ereach P s" "link P c s" using cluster_implements_protocol [OF assms(1-3)] by blast
  then show ?thesis using ereach_one_leader [of P s i t j] assms by (auto simp: link_def)
qed

theorem one_leader_per_term_witness: "creach {1, 2, 3} demo3 \<and> {j. (j, 1) \<in> cl_led demo3} = {1}"
proof -
  have "j = 1" if "(j, 1) \<in> cl_led demo3" for j
    by (rule one_leader_per_term [OF demo_reach _ _ that demo_led]) simp_all
  then show ?thesis using demo_reach demo_led by auto
qed

text \<open>A node that has sent a vote, or a request for votes, keeps to it: what it has saved when it sends holds the
  term and vote, so after any number of restarts it is in a later term or still has the same vote.\<close>

theorem vote_survives_restart:
  assumes "creach P c" "finite P" "0 \<notin> P" "m \<in> cl_net c" "abs_msg m = Some (Grant i v t)" "i \<in> P"
  shows "(t < hs_Term (cl_saved c i) \<or> t = hs_Term (cl_saved c i) \<and> v = hs_Vote (cl_saved c i))
    \<and> (t < r_Term (rn_Raft (cl_node c i)) \<or> t = r_Term (rn_Raft (cl_node c i)) \<and> v = r_Vote (rn_Raft (cl_node c i)))"
proof -
  obtain s where s: "ereach P s" "link P c s" using cluster_implements_protocol [OF assms(1-3)] by blast
  have inv: "einv P s" by (rule ereach_inv [OF s(1) assms(2,3)])
  have "Grant i v t \<in> es_net s" using s(2) assms(4,5) by (auto simp: link_def abs_msgs_def)
  then have cast: "es_cast s i t = Some v" using inv by (auto simp: einv_def msg_ok_def)
  then have vol: "es_vol s i t = Some v" using inv map_le_Some unfolding einv_def by metis
  have saved: "es_saved s i = (hs_Term (cl_saved c i), hs_Vote (cl_saved c i))"
    and peer: "es_peer s i = abs_peer (rn_Raft (cl_node c i))"
    using s(2) assms(6) by (auto simp: link_def hs_pair_def abs_raft_def)
  have u: "votes_upto (es_cast s i) (hs_Term (cl_saved c i)) (hs_Vote (cl_saved c i))"
    "votes_upto (es_vol s i) (r_Term (rn_Raft (cl_node c i))) (r_Vote (rn_Raft (cl_node c i)))"
    using inv saved peer unfolding einv_def by (metis fst_conv snd_conv, metis abs_peer_def epeer.select_convs(1,2))
  have "f t = Some v \<Longrightarrow> votes_upto f t' v' \<Longrightarrow> t < t' \<or> t = t' \<and> v = v'" for f t' v'
    by (cases "t = t'") (auto simp: votes_upto_def le_less split: if_splits)
  then show ?thesis using u cast vol by blast
qed

theorem vote_survives_restart_witness:
  "(1::nat) = hs_Term (cl_saved demo3 2) \<and> hs_Vote (cl_saved demo3 2) = 1
   \<or> 1 < hs_Term (cl_saved demo3 2)"
proof -
  have sent: "rdy_Messages (fst demo_rd2) ! 0 \<in> cl_net demo3"
    by (simp add: demo3_def set_node_def take_ready_def demo_sent)
  have grant: "abs_msg (rdy_Messages (fst demo_rd2) ! 0) = Some (Grant 2 1 1)"
    by (simp add: abs_msg_def exec_demo)
  have fin: "finite {1, 2, 3 :: nat}" "0 \<notin> {1, 2, 3 :: nat}" "2 \<in> {1, 2, 3 :: nat}" by simp_all
  from vote_survives_restart [OF demo_reach fin(1,2) sent grant fin(3)]
  have "1 < hs_Term (cl_saved demo3 2) \<or> 1 = hs_Term (cl_saved demo3 2) \<and> 1 = hs_Vote (cl_saved demo3 2)"
    by (rule conjunct1)
  then show ?thesis by metis
qed

end
