(* ===== verification/RaftLog_Spec.thy ===== *)
theory RaftLog_Spec
  imports RaftLog
begin

text \<open>
  What the operations of the log do: the invariant of the log, its entries as a partial
  function of the index, and the effect of appending, truncating, compacting, committing and
  restoring on it.
\<close>

section \<open>The invariant\<close>

definition contiguous :: "nat \<Rightarrow> Entry list \<Rightarrow> bool" where
  "contiguous n es \<longleftrightarrow> (\<forall>i < length es. e_Index (es ! i) = n + i)"

definition log_entry :: "RaftLog \<Rightarrow> nat \<Rightarrow> Entry option" where
  "log_entry l i =
     (if lg_offset l \<le> i \<and> i < lg_offset l + length (lg_entries l)
      then Some (lg_entries l ! (i - lg_offset l)) else None)"

definition log_wf :: "RaftLog \<Rightarrow> bool" where
  "log_wf l \<longleftrightarrow> lg_offset l = lg_snapIndex l + 1 \<and> contiguous (lg_offset l) (lg_entries l)
     \<and> lg_snapIndex l \<le> lg_committed l \<and> lg_committed l \<le> lg_snapIndex l + length (lg_entries l)
     \<and> lg_snapIndex l \<le> lg_stabled l \<and> lg_stabled l \<le> lg_snapIndex l + length (lg_entries l)
     \<and> lg_applied l \<le> lg_committed l \<and> lg_snapIndex l + length (lg_entries l) < 2 ^ 64
     \<and> (lg_entries l = [] \<longrightarrow> (\<forall>s. lg_pending_snapshot l = Some s \<longrightarrow> sm_Index (sn_Metadata s) = lg_snapIndex l))"

text \<open>
  What the log relies on in its storage: the storage has been compacted no further than the
  entries that are committed and saved, and remembers the term of the entry before its first one.
\<close>

definition storage_behind :: "raft_storage \<Rightarrow> RaftLog \<Rightarrow> bool" where
  "storage_behind st l \<longleftrightarrow>
     (\<exists>fi ft. rs_FirstIndex st = Inr fi \<and> 1 \<le> fi \<and> rs_Term st (fi - 1) = Inr ft
        \<and> fi - 1 \<le> lg_committed l \<and> fi - 1 \<le> lg_stabled l
        \<and> (lg_snapIndex l \<le> fi - 1 \<longrightarrow> log_term l (fi - 1) = Inr ft))"

lemma contiguous_Nil [simp]: "contiguous n []"
  by (simp add: contiguous_def)

lemma contiguous_Cons [simp]: "contiguous n (e # es) \<longleftrightarrow> e_Index e = n \<and> contiguous (Suc n) es"
  by (force simp: contiguous_def nth_Cons split: nat.splits)

lemma contiguous_append [simp]:
  "contiguous n (es @ fs) \<longleftrightarrow> contiguous n es \<and> contiguous (n + length es) fs"
  by (induction es arbitrary: n) auto

lemma contiguous_take: "contiguous n es \<Longrightarrow> contiguous n (take k es)"
  by (simp add: contiguous_def)

lemma contiguous_drop: "contiguous n es \<Longrightarrow> k \<le> length es \<Longrightarrow> contiguous (n + k) (drop k es)"
  by (simp add: contiguous_def add.assoc)

lemma last_index: "log_wf l \<Longrightarrow> log_LastIndex l = lg_snapIndex l + length (lg_entries l)"
  by (cases "lg_entries l") (auto simp: log_LastIndex_def log_wf_def contiguous_def split: option.splits)

lemma first_index:
  "log_wf l \<Longrightarrow> log_firstIndex l = (if lg_entries l = [] then lg_snapIndex l else lg_snapIndex l + 1)"
  by (cases "lg_entries l") (auto simp: log_firstIndex_def log_wf_def split: option.splits)

lemma log_term_entry:
  assumes "log_wf l"
  shows "log_term l i = (if i = lg_snapIndex l then Inr (lg_snapTerm l)
     else case log_entry l i of
            Some e \<Rightarrow> Inr (e_Term e)
          | None \<Rightarrow> if lg_entries l = [] \<or> i < lg_snapIndex l then Inl ErrCompacted else Inl ErrUnavailable)"
  using assms by (auto simp: log_term_def log_entry_def log_wf_def)

lemma log_term_range:
  "log_wf l \<Longrightarrow> log_term l i = Inr t \<Longrightarrow> lg_snapIndex l \<le> i \<and> i \<le> log_LastIndex l"
  by (auto simp: log_term_def last_index log_wf_def split: if_splits)

lemma log_term_defined:
  "log_wf l \<Longrightarrow> lg_snapIndex l \<le> i \<Longrightarrow> i \<le> log_LastIndex l \<Longrightarrow> \<exists>t. log_term l i = Inr t"
  by (auto simp: log_term_def last_index log_wf_def)

lemma last_term_defined: "log_wf l \<Longrightarrow> \<exists>t. log_lastTerm l = Inr t"
  using log_term_defined [of l "log_LastIndex l"] by (auto simp: log_lastTerm_def last_index)

section \<open>Appending\<close>

text \<open>Truncating at the first new entry and appending.\<close>

lemma truncate_append:
  assumes wf: "log_wf l" and ents: "contiguous a (e # es)"
    and a: "lg_committed l < a" "a \<le> log_LastIndex l + 1" "a + length (e # es) \<le> 2 ^ 64"
  shows "\<exists>l'. log_truncateAndAppend l (e # es) = Inr l' \<and> log_wf l'
    \<and> lg_committed l' = lg_committed l \<and> lg_applied l' = lg_applied l
    \<and> lg_snapIndex l' = lg_snapIndex l \<and> lg_snapTerm l' = lg_snapTerm l \<and> lg_offset l' = lg_offset l
    \<and> lg_stabled l' = min (lg_stabled l) (a - 1)
    \<and> lg_pending_snapshot l' = lg_pending_snapshot l
    \<and> lg_entries l' = take (a - lg_offset l) (lg_entries l) @ e # es"
proof -
  have off: "lg_offset l = lg_snapIndex l + 1" "lg_offset l \<le> a" "a - lg_offset l \<le> length (lg_entries l)"
    and e: "e_Index e = a"
    using wf ents a by (auto simp: log_wf_def last_index)
  show ?thesis
  proof (cases "a = log_LastIndex l + 1")
    case True
    then have "take (a - lg_offset l) (lg_entries l) = lg_entries l"
      using off last_index [OF wf] by simp
    with True wf ents off last_index [OF wf] e a(3) show ?thesis
      by (auto simp: log_truncateAndAppend_def log_wf_def)
  next
    case False
    let ?l = "l\<lparr>lg_stabled := min (lg_stabled l) (a - 1),
                lg_entries := take (a - lg_offset l) (lg_entries l) @ e # es\<rparr>"
    have "log_truncateAndAppend l (e # es) = Inr ?l"
      using False e off by (auto simp: log_truncateAndAppend_def Let_def min_def)
    moreover have "log_wf ?l"
      using wf ents a off by (auto simp: log_wf_def contiguous_take)
    ultimately show ?thesis by simp
  qed
qed

lemma compact_effect:
  assumes wf: "log_wf l" and st: "storage_behind st l"
  shows "\<exists>l'. log_maybeCompact st l = Inr l' \<and> log_wf l' \<and> log_LastIndex l' = log_LastIndex l
    \<and> lg_committed l' = lg_committed l \<and> lg_applied l' = lg_applied l \<and> lg_stabled l' = lg_stabled l
    \<and> lg_pending_snapshot l' = lg_pending_snapshot l
    \<and> lg_snapIndex l \<le> lg_snapIndex l' \<and> lg_snapIndex l' \<le> lg_committed l
    \<and> (\<forall>i > lg_snapIndex l'. log_entry l' i = log_entry l i)
    \<and> (\<forall>i \<ge> lg_snapIndex l'. log_term l' i = log_term l i)"
proof -
  obtain fi ft where fi: "rs_FirstIndex st = Inr fi" "1 \<le> fi" "rs_Term st (fi - 1) = Inr ft"
    "fi - 1 \<le> lg_committed l" "fi - 1 \<le> lg_stabled l" "lg_snapIndex l \<le> fi - 1 \<longrightarrow> log_term l (fi - 1) = Inr ft"
    using st by (auto simp: storage_behind_def)
  show ?thesis
  proof (cases "lg_offset l < fi \<and> usub fi (lg_offset l) < length (lg_entries l)")
    case False
    have "lg_offset l + length (lg_entries l) \<le> 2 ^ 64" using wf by (simp add: log_wf_def)
    with False have "\<not> (0 < usub fi (lg_offset l) \<and> usub fi (lg_offset l) < length (lg_entries l))"
      by (auto simp: usub_def)
    then have "log_maybeCompact st l = Inr l"
      using fi by (auto simp: log_maybeCompact_def orPanic_def Let_def)
    then show ?thesis using wf by (auto simp: log_wf_def)
  next
    case True
    let ?k = "fi - lg_offset l"
    let ?l = "l\<lparr>lg_entries := drop ?k (lg_entries l), lg_offset := fi, lg_snapIndex := fi - 1, lg_snapTerm := ft\<rparr>"
    have k: "0 < ?k" "?k < length (lg_entries l)" "lg_offset l = lg_snapIndex l + 1"
      using True wf by (auto simp: usub_def log_wf_def)
    have "log_maybeCompact st l = Inr ?l"
      using fi True k by (simp add: log_maybeCompact_def orPanic_def Let_def)
    moreover have wf': "log_wf ?l"
      using wf k fi contiguous_drop [of "lg_offset l" "lg_entries l" ?k] by (auto simp: log_wf_def)
    moreover have "log_entry ?l i = log_entry l i" if "fi - 1 < i" for i
      using that k fi by (auto simp: log_entry_def)
    moreover have "log_term ?l i = log_term l i" if "fi - 1 \<le> i" for i
      using that k fi by (auto simp: log_term_def)
    moreover have "log_LastIndex ?l = log_LastIndex l"
      using last_index [OF wf] last_index [OF wf'] k fi by simp
    ultimately show ?thesis using k fi by (intro exI [of _ ?l]) auto
  qed
qed

text \<open>\<open>append\<close>: the log up to the first new entry, then the new entries, nothing after them.\<close>

definition spliced :: "RaftLog \<Rightarrow> nat \<Rightarrow> Entry list \<Rightarrow> RaftLog \<Rightarrow> bool" where
  "spliced l a ents l' \<longleftrightarrow>
     lg_snapIndex l \<le> lg_snapIndex l' \<and> lg_snapIndex l' \<le> lg_committed l
     \<and> log_LastIndex l' = a + length ents - 1
     \<and> (\<forall>i > lg_snapIndex l'. log_entry l' i =
          (if i < a then log_entry l i
           else if i < a + length ents then Some (ents ! (i - a)) else None))
     \<and> (\<forall>i \<ge> lg_snapIndex l'. i < a \<longrightarrow> log_term l' i = log_term l i)"

lemma append_effect:
  assumes wf: "log_wf l" and st: "storage_behind st l" and ents: "contiguous a ents" "ents \<noteq> []"
    and a: "lg_committed l < a" "a \<le> log_LastIndex l + 1" "a + length ents \<le> 2 ^ 64"
  shows "\<exists>l'. log_append st l ents = Inr (a + length ents - 1, l') \<and> log_wf l'
    \<and> lg_committed l' = lg_committed l \<and> lg_applied l' = lg_applied l \<and> spliced l a ents l'
    \<and> lg_stabled l' = min (lg_stabled l) (a - 1) \<and> lg_pending_snapshot l' = lg_pending_snapshot l"
proof -
  obtain e es where es: "ents = e # es" using ents by (cases ents) auto
  obtain l1 where l1: "log_truncateAndAppend l ents = Inr l1" "log_wf l1"
    "lg_committed l1 = lg_committed l" "lg_applied l1 = lg_applied l" "lg_snapIndex l1 = lg_snapIndex l"
    "lg_snapTerm l1 = lg_snapTerm l" "lg_offset l1 = lg_offset l" "lg_stabled l1 = min (lg_stabled l) (a - 1)"
    "lg_pending_snapshot l1 = lg_pending_snapshot l"
    "lg_entries l1 = take (a - lg_offset l) (lg_entries l) @ ents"
    using truncate_append [OF wf _ a(1,2)] ents es a(3) by blast
  have off: "lg_offset l = lg_snapIndex l + 1" "lg_offset l \<le> a" "a - lg_offset l \<le> length (lg_entries l)"
    using wf a by (auto simp: log_wf_def last_index)
  have entry1: "log_entry l1 i = (if i < a then log_entry l i
      else if i < a + length ents then Some (ents ! (i - a)) else None)" for i
  proof -
    have len: "length (lg_entries l1) = a - lg_offset l + length ents" using l1(10) off by simp
    show ?thesis
      using off by (auto simp: log_entry_def l1(7) len) (auto simp: l1(10) nth_append)
  qed
  have term1: "log_term l1 i = log_term l i" if "i < a" "lg_snapIndex l \<le> i" for i
  proof (cases "log_entry l i")
    case None
    then have "i = lg_snapIndex l"
      using that off by (auto simp: log_entry_def split: if_splits)
    then show ?thesis using l1 by (simp add: log_term_def)
  next
    case (Some e)
    then show ?thesis
      using that entry1 [of i] by (simp add: log_term_entry [OF wf] log_term_entry [OF l1(2)] l1)
  qed
  have st1: "storage_behind st l1"
    using st a term1 l1 unfolding storage_behind_def by fastforce
  obtain l2 where l2: "log_maybeCompact st l1 = Inr l2" "log_wf l2" "log_LastIndex l2 = log_LastIndex l1"
    "lg_committed l2 = lg_committed l1" "lg_applied l2 = lg_applied l1" "lg_stabled l2 = lg_stabled l1"
    "lg_pending_snapshot l2 = lg_pending_snapshot l1"
    "lg_snapIndex l1 \<le> lg_snapIndex l2" "lg_snapIndex l2 \<le> lg_committed l1"
    "\<forall>i > lg_snapIndex l2. log_entry l2 i = log_entry l1 i" "\<forall>i \<ge> lg_snapIndex l2. log_term l2 i = log_term l1 i"
    using compact_effect [OF l1(2) st1] by blast
  have last: "log_LastIndex l1 = a + length ents - 1"
    using last_index [OF l1(2)] l1 off es by simp
  have "log_append st l ents = Inr (a + length ents - 1, l2)"
    using l1(1) l2(1,3) ents a last es by (simp add: log_append_def)
  moreover have "spliced l a ents l2"
    using l2 l1 last entry1 term1 by (auto simp: spliced_def)
  ultimately show ?thesis using l1 l2 by auto
qed

section \<open>Accepting entries from a leader\<close>

lemma matchTerm_iff: "log_matchTerm l i t \<longleftrightarrow> log_term l i = Inr t"
  by (auto simp: log_matchTerm_def split: sum.splits)

lemma find_conflict_cases:
  assumes "contiguous (Suc n) ents"
  obtains (none) "log_findConflict l ents = 0" "\<forall>j < length ents. log_matchTerm l (Suc n + j) (e_Term (ents ! j))"
  | (at) j where "j < length ents" "log_findConflict l ents = Suc n + j"
      "\<forall>i < j. log_matchTerm l (Suc n + i) (e_Term (ents ! i))" "\<not> log_matchTerm l (Suc n + j) (e_Term (ents ! j))"
proof -
  have "log_findConflict l ents = 0 \<and> (\<forall>j < length ents. log_matchTerm l (Suc n + j) (e_Term (ents ! j)))
    \<or> (\<exists>j < length ents. log_findConflict l ents = Suc n + j
        \<and> (\<forall>i < j. log_matchTerm l (Suc n + i) (e_Term (ents ! i)))
        \<and> \<not> log_matchTerm l (Suc n + j) (e_Term (ents ! j)))"
    using assms
  proof (induction ents arbitrary: n)
    case (Cons e es)
    show ?case
    proof (cases "log_matchTerm l (Suc n) (e_Term e)")
      case False
      with Cons.prems show ?thesis by auto
    next
      case True
      from Cons.prems have es: "contiguous (Suc (Suc n)) es" "e_Index e = Suc n" by auto
      have shift: "(\<forall>j < length (e # es). log_matchTerm l (Suc n + j) (e_Term ((e # es) ! j))) \<longleftrightarrow>
          (\<forall>j < length es. log_matchTerm l (Suc (Suc n) + j) (e_Term (es ! j)))"
        using True by (auto simp: less_Suc_eq_0_disj)
      from Cons.IH [OF es(1)] show ?thesis
      proof
        assume "log_findConflict l es = 0 \<and> (\<forall>j < length es. log_matchTerm l (Suc (Suc n) + j) (e_Term (es ! j)))"
        with True es shift show ?thesis by simp
      next
        assume "\<exists>j < length es. log_findConflict l es = Suc (Suc n) + j
            \<and> (\<forall>i < j. log_matchTerm l (Suc (Suc n) + i) (e_Term (es ! i)))
            \<and> \<not> log_matchTerm l (Suc (Suc n) + j) (e_Term (es ! j))"
        then obtain j where "j < length es" "log_findConflict l es = Suc (Suc n) + j"
          "\<forall>i < j. log_matchTerm l (Suc (Suc n) + i) (e_Term (es ! i))"
          "\<not> log_matchTerm l (Suc (Suc n) + j) (e_Term (es ! j))" by blast
        with True es show ?thesis
          by (intro disjI2 exI [of _ "Suc j"]) (auto simp: less_Suc_eq_0_disj)
      qed
    qed
  qed simp
  then show ?thesis by (elim disjE conjE exE) (rule none at; assumption)+
qed

definition accepted :: "RaftLog \<Rightarrow> nat \<Rightarrow> Entry list \<Rightarrow> RaftLog \<Rightarrow> bool" where
  "accepted l index ents l' \<longleftrightarrow>
     (\<forall>i \<ge> lg_snapIndex l'. i \<le> index \<longrightarrow> log_term l' i = log_term l i)
     \<and> (\<forall>j < length ents. lg_snapIndex l' \<le> index + 1 + j \<longrightarrow> log_term l' (index + 1 + j) = Inr (e_Term (ents ! j)))
     \<and> (\<forall>j < length ents. lg_snapIndex l' < index + 1 + j \<longrightarrow> log_entry l' (index + 1 + j) =
          (if \<forall>k \<le> j. log_term l (index + 1 + k) = Inr (e_Term (ents ! k)) then log_entry l (index + 1 + j)
           else Some (ents ! j)))
     \<and> (if \<forall>j < length ents. log_term l (index + 1 + j) = Inr (e_Term (ents ! j))
        then lg_entries l' = lg_entries l else log_LastIndex l' = index + length ents)"

lemma maybe_append_accepts:
  assumes wf: "log_wf l" and st: "storage_behind st l" and ents: "contiguous (Suc index) ents"
    and bound: "index + length ents < 2 ^ 64" and match: "log_term l index = Inr logTerm"
    and safe: "\<forall>j < length ents. index + 1 + j \<le> lg_committed l \<longrightarrow> log_term l (index + 1 + j) = Inr (e_Term (ents ! j))"
  shows "\<exists>l'. log_maybeAppend st l index logTerm committed ents = Inr (Some (index + length ents), l')
    \<and> log_wf l' \<and> lg_committed l' = max (lg_committed l) (min committed (index + length ents))
    \<and> lg_applied l' = lg_applied l \<and> accepted l index ents l'"
proof (cases rule: find_conflict_cases [OF ents, of l, case_names none at])
  case none
  have "index + length ents \<le> log_LastIndex l"
  proof (cases "length ents")
    case 0
    then show ?thesis using log_term_range [OF wf match] by simp
  next
    case (Suc k)
    then have "log_term l (Suc index + k) = Inr (e_Term (ents ! k))" using none by (simp add: matchTerm_iff)
    from log_term_range [OF wf this] Suc show ?thesis by simp
  qed
  then have commit: "log_commitTo l (min committed (index + length ents))
      = Inr (l\<lparr>lg_committed := max (lg_committed l) (min committed (index + length ents))\<rparr>)"
    by (auto simp: log_commitTo_def max_def)
  let ?l = "l\<lparr>lg_committed := max (lg_committed l) (min committed (index + length ents))\<rparr>"
  have same: "log_term ?l i = log_term l i" for i by (simp add: log_term_def)
  have "log_wf ?l" using wf \<open>index + length ents \<le> log_LastIndex l\<close> by (auto simp: log_wf_def last_index [OF wf])
  moreover have "log_entry ?l i = log_entry l i" for i by (simp add: log_entry_def)
  with none have "accepted l index ents ?l" by (simp add: accepted_def same matchTerm_iff)
  ultimately show ?thesis
    using none match commit by (simp add: log_maybeAppend_def matchTerm_iff Let_def)
next
  case (at j)
  let ?a = "Suc index + j" let ?news = "drop j ents"
  have mis: "log_term l ?a \<noteq> Inr (e_Term (ents ! j))" using at by (simp add: matchTerm_iff)
  have com: "lg_committed l < ?a" using safe mis at(1) by (metis add.commute add_Suc_right not_le plus_1_eq_Suc)
  have "?a \<le> log_LastIndex l + 1"
  proof (cases j)
    case 0
    then show ?thesis using log_term_range [OF wf match] by simp
  next
    case (Suc k)
    then have "log_term l (Suc index + k) = Inr (e_Term (ents ! k))" using at(3) by (simp add: matchTerm_iff)
    from log_term_range [OF wf this] Suc show ?thesis by simp
  qed
  moreover have "contiguous ?a ?news" using contiguous_drop [OF ents, of j] at(1) by simp
  moreover have "?news \<noteq> []" "?a + length ?news \<le> 2 ^ 64" using at(1) bound by auto
  ultimately obtain l1 where l1: "log_append st l ?news = Inr (?a + length ?news - 1, l1)" "log_wf l1"
    "lg_committed l1 = lg_committed l" "lg_applied l1 = lg_applied l" "spliced l ?a ?news l1"
    using append_effect [OF wf st _ _ com] by blast
  have last: "log_LastIndex l1 = index + length ents" using l1(5) at(1) by (simp add: spliced_def)
  let ?l = "l1\<lparr>lg_committed := max (lg_committed l) (min committed (index + length ents))\<rparr>"
  have same: "log_term ?l i = log_term l1 i" "log_LastIndex ?l = log_LastIndex l1" "log_entry ?l i = log_entry l1 i" for i
    by (simp_all add: log_term_def log_LastIndex_def log_entry_def split: option.splits)
  have wf': "log_wf ?l" using l1(2,3) last com at(1) by (auto simp: log_wf_def last_index [OF l1(2)])
  have commit: "log_commitTo l1 (min committed (index + length ents)) = Inr ?l"
    using last l1(3) by (auto simp: log_commitTo_def max_def)
  have old: "log_term l1 i = log_term l i" if "i < ?a" "lg_snapIndex l1 \<le> i" for i
    using l1(5) that by (simp add: spliced_def)
  have new: "log_term l1 (index + 1 + k) = Inr (e_Term (ents ! k))"
    if "k < length ents" "lg_snapIndex l1 \<le> index + 1 + k" for k
  proof (cases "k < j")
    case True
    with old [of "index + 1 + k"] at(3) that show ?thesis by (simp add: matchTerm_iff)
  next
    case False
    then have snap: "lg_snapIndex l1 < index + 1 + k" using l1(5) com by (simp add: spliced_def)
    then have "log_entry l1 (index + 1 + k) = Some (ents ! k)"
      using l1(5) False that by (simp add: spliced_def)
    with snap show ?thesis by (simp add: log_term_entry [OF l1(2)])
  qed
  have entry: "log_entry ?l (index + 1 + k) = (if \<forall>n \<le> k. log_term l (index + 1 + n) = Inr (e_Term (ents ! n))
      then log_entry l (index + 1 + k) else Some (ents ! k))"
    if "k < length ents" "lg_snapIndex l1 < index + 1 + k" for k
  proof (cases "k < j")
    case True
    then have "log_term l (index + 1 + n) = Inr (e_Term (ents ! n))" if "n \<le> k" for n
      using at(3) that by (simp add: matchTerm_iff)
    then show ?thesis using True that l1(5) by (simp add: spliced_def same)
  next
    case False
    then have "\<not> (\<forall>n \<le> k. log_term l (index + 1 + n) = Inr (e_Term (ents ! n)))"
      using mis by (auto intro!: exI [of _ j])
    moreover have "log_entry ?l (index + 1 + k) = Some (ents ! k)" using False that l1(5) by (simp add: spliced_def same)
    ultimately show ?thesis by (simp only: if_False)
  qed
  have "accepted l index ents ?l"
    using old new entry mis at(1) last by (auto simp: accepted_def same)
  moreover have "log_maybeAppend st l index logTerm committed ents = Inr (Some (index + length ents), ?l)"
    using at match com l1(1) commit by (simp add: log_maybeAppend_def matchTerm_iff Let_def)
  ultimately show ?thesis using wf' l1(4) by simp
qed

lemma maybe_append_conflict:
  assumes wf: "log_wf l" and ents: "contiguous (Suc index) ents" and match: "log_term l index = Inr logTerm"
    and bad: "j < length ents" "index + 1 + j \<le> lg_committed l" "log_term l (index + 1 + j) \<noteq> Inr (e_Term (ents ! j))"
  shows "\<exists>f. log_maybeAppend st l index logTerm committed ents = Inl (RFatal f)"
proof (cases rule: find_conflict_cases [OF ents, of l, case_names none at])
  case none
  with bad show ?thesis by (simp add: matchTerm_iff)
next
  case (at i)
  with bad have "i \<le> j" by (auto simp: matchTerm_iff not_less [symmetric])
  with at bad match show ?thesis by (simp add: log_maybeAppend_def matchTerm_iff Let_def)
qed

section \<open>What the application is handed\<close>

lemma unstable_entries:
  assumes "log_wf l"
  shows "log_unstableEntries l = Inr (drop (lg_stabled l - lg_snapIndex l) (lg_entries l))"
proof -
  let ?n = "lg_stabled l - lg_snapIndex l"
  have n: "?n \<le> length (lg_entries l)" "usub (lg_stabled l + 1) (lg_offset l) = ?n"
    using assms by (auto simp: log_wf_def)
  have "to_int ?n \<le> int ?n" by (simp add: to_int_def)
  with n(1) have "\<not> to_int ?n > int (length (lg_entries l))" by simp
  with n show ?thesis by (simp only: log_unstableEntries_def n(2) if_False) simp
qed

lemma slice_entries:
  assumes "log_wf l" "lg_snapIndex l < lo" "lo \<le> hi" "hi \<le> log_LastIndex l + 1"
  shows "log_slice l lo hi = Inr (Inr (drop (lo - lg_offset l) (take (hi - lg_offset l) (lg_entries l))))"
  using assms last_index [OF assms(1)] first_index [OF assms(1)]
  by (auto simp: log_slice_def log_mustCheckOutOfBounds_def log_wf_def)

lemma next_entries:
  assumes wf: "log_wf l"
  shows "log_nextEnts l
         = Inr (drop (lg_applied l - lg_snapIndex l) (take (lg_committed l - lg_snapIndex l) (lg_entries l)))"
proof (cases "lg_entries l = []")
  case True
  then have "log_firstIndex l = lg_snapIndex l" "log_LastIndex l = lg_snapIndex l" "lg_committed l = lg_snapIndex l"
    using first_index [OF wf] last_index [OF wf] wf by (auto simp: log_wf_def)
  with True show ?thesis
    by (auto simp: log_nextEnts_def log_nextEntsSince_def log_slice_def log_mustCheckOutOfBounds_def Let_def)
next
  case False
  let ?off = "max (lg_applied l + 1) (lg_snapIndex l + 1)"
  have fi: "log_firstIndex l = lg_snapIndex l + 1" using first_index [OF wf] False by simp
  have c: "lg_committed l \<le> log_LastIndex l" "lg_applied l \<le> lg_committed l" "lg_offset l = lg_snapIndex l + 1"
    using wf by (auto simp: log_wf_def last_index [OF wf])
  show ?thesis
  proof (cases "lg_committed l + 1 > ?off")
    case True
    have "?off - lg_offset l = lg_applied l - lg_snapIndex l" using c by (auto simp: max_def)
    with True slice_entries [OF wf, of ?off "lg_committed l + 1"] c fi show ?thesis
      by (simp add: log_nextEnts_def log_nextEntsSince_def Let_def)
  next
    case False
    with c fi wf show ?thesis by (auto simp: log_nextEnts_def log_nextEntsSince_def log_wf_def Let_def)
  qed
qed

section \<open>The other operations keep the invariant\<close>

lemma commitTo_wf:
  "log_wf l \<Longrightarrow> log_commitTo l i = Inr l' \<Longrightarrow> log_wf l' \<and> lg_committed l' = max (lg_committed l) i"
  by (auto simp: log_commitTo_def log_wf_def last_index split: if_splits)

lemma appliedTo_wf: "log_wf l \<Longrightarrow> log_appliedTo l i = Inr l' \<Longrightarrow> log_wf l'"
  by (auto simp: log_appliedTo_def log_wf_def split: if_splits)

lemma stableTo_wf: "log_wf l \<Longrightarrow> log_wf (log_stableTo l i t)"
  using log_term_range [of l i t]
  by (auto simp: log_stableTo_def log_wf_def matchTerm_iff last_index)

lemma stableSnapTo_wf: "log_wf l \<Longrightarrow> log_wf (log_stableSnapTo l i)"
  by (auto simp: log_stableSnapTo_def log_wf_def split: option.splits)

lemma restore_wf:
  assumes "log_wf l" "lg_applied l \<le> sm_Index (sn_Metadata s)" "sm_Index (sn_Metadata s) < 2 ^ 64"
  shows "log_wf (log_restore l s)"
  using assms by (simp add: log_restore_def log_wf_def)

lemma append_wf:
  assumes "log_wf l" "storage_behind st l" "contiguous (log_LastIndex l + 1) ents"
    and "log_LastIndex l + length ents < 2 ^ 64"
  shows "\<exists>l'. log_append st l ents = Inr (log_LastIndex l + length ents, l') \<and> log_wf l'
    \<and> lg_committed l' = lg_committed l \<and> log_LastIndex l' = log_LastIndex l + length ents"
proof (cases "ents = []")
  case True
  with assms show ?thesis by (simp add: log_append_def)
next
  case False
  have "lg_committed l < log_LastIndex l + 1" unfolding last_index [OF assms(1)] using assms(1) by (simp add: log_wf_def)
  from append_effect [OF assms(1,2,3) False this] assms(4) show ?thesis by (auto simp: spliced_def)
qed

section \<open>Appending entries of a leader\<close>

text \<open>C10. \<open>maybeAppend\<close> on a well-formed log either refuses because the log has no entry of the given index and term
  and then changes nothing; or takes over the entries, keeping every entry that agrees and replacing
  the log from the first one that does not, and moves the commit index to the smaller of the one
  given and the last new entry, never back; or, when a committed entry would have to be replaced, ends the process.\<close>

theorem maybe_append_outcomes:
  assumes "log_wf l" "storage_behind st l" "contiguous (index + 1) ents" "index + length ents < 2 ^ 64"
  shows "case log_maybeAppend st l index logTerm committed ents of
      Inr (None, l') \<Rightarrow> log_term l index \<noteq> Inr logTerm \<and> l' = l
    | Inr (Some lastnewi, l') \<Rightarrow> log_term l index = Inr logTerm \<and> lastnewi = index + length ents \<and> log_wf l'
        \<and> lg_committed l' = max (lg_committed l) (min committed (index + length ents))
        \<and> lg_applied l' = lg_applied l \<and> accepted l index ents l'
    | Inl fault \<Rightarrow> (\<exists>s. fault = RFatal s) \<and> log_term l index = Inr logTerm
        \<and> (\<exists>j < length ents. index + 1 + j \<le> lg_committed l \<and> log_term l (index + 1 + j) \<noteq> Inr (e_Term (ents ! j)))"
proof (cases "log_term l index = Inr logTerm")
  case False
  then show ?thesis by (simp add: log_maybeAppend_def matchTerm_iff)
next
  case True
  show ?thesis
  proof (cases "\<exists>j < length ents. index + 1 + j \<le> lg_committed l \<and> log_term l (index + 1 + j) \<noteq> Inr (e_Term (ents ! j))")
    case False
    then show ?thesis
      using maybe_append_accepts [of l st index ents logTerm committed] True assms by fastforce
  next
    case conflict: True
    then obtain j where "j < length ents" "index + 1 + j \<le> lg_committed l" "log_term l (index + 1 + j) \<noteq> Inr (e_Term (ents ! j))"
      by blast
    with maybe_append_conflict [of l index ents logTerm j st committed] True assms
    obtain f where "log_maybeAppend st l index logTerm committed ents = Inl (RFatal f)" by auto
    with True conflict show ?thesis by simp
  qed
qed

definition demo_entry :: "nat \<Rightarrow> nat \<Rightarrow> Entry" where
  "demo_entry i t = \<lparr>e_EntryType = EntryNormal, e_Term = t, e_Index = i, e_Data = None\<rparr>"

text \<open>Entries of terms 1 and 2 at 1 and 2, the first committed; a leader of term 3 replaces the second and adds a third.\<close>

definition demo_log :: RaftLog where
  "demo_log = \<lparr>lg_committed = 1, lg_applied = 0, lg_stabled = 2, lg_entries = [demo_entry 1 1, demo_entry 2 2],
     lg_offset = 1, lg_snapTerm = 0, lg_snapIndex = 0, lg_pending_snapshot = None\<rparr>"

definition demo_ms :: MemoryStorage where
  "demo_ms = NewMemoryStorage\<lparr>ms_ents := [zeroEntry, demo_entry 1 1, demo_entry 2 2]\<rparr>"

lemma demo_log_wf: "log_wf demo_log" "storage_behind (MemoryStorage_view demo_ms) demo_log"
  by (simp_all add: demo_log_def demo_entry_def log_wf_def storage_behind_def MemoryStorage_view_def MemoryStorage_firstIndex_def
      MemoryStorage_Term_def demo_ms_def NewMemoryStorage_def ents0_def zeroEntry_def to_int_def log_term_def)

theorem maybe_append_outcomes_witness:
  "\<exists>l'. log_maybeAppend (MemoryStorage_view demo_ms) demo_log 1 1 3 [demo_entry 2 3, demo_entry 3 3] = Inr (Some 3, l')
     \<and> log_wf l' \<and> lg_committed l' = 3 \<and> lg_entries l' = [demo_entry 1 1, demo_entry 2 3, demo_entry 3 3]"
proof -
  let ?r = "log_maybeAppend (MemoryStorage_view demo_ms) demo_log 1 1 3 [demo_entry 2 3, demo_entry 3 3]"
  have ents: "contiguous (1 + 1) [demo_entry 2 3, demo_entry 3 3]" by (simp add: demo_entry_def)
  obtain l' where l': "?r = Inr (Some 3, l')" "lg_entries l' = [demo_entry 1 1, demo_entry 2 3, demo_entry 3 3]"
    by (simp add: log_maybeAppend_def log_matchTerm_def log_term_def log_append_def log_truncateAndAppend_def
        log_LastIndex_def log_maybeCompact_def log_commitTo_def orPanic_def demo_log_def demo_entry_def
        MemoryStorage_view_def MemoryStorage_firstIndex_def MemoryStorage_Term_def demo_ms_def NewMemoryStorage_def
        ents0_def zeroEntry_def to_int_def Let_def)
  with maybe_append_outcomes [OF demo_log_wf ents, where logTerm = 1 and committed = 3]
  have "log_wf l' \<and> lg_committed l' = max (lg_committed demo_log) (min 3 (1 + 2))" by simp
  then show ?thesis using l' by (simp add: demo_log_def)
qed

section \<open>Entries handed to the application\<close>

lemma filter_above: "contiguous n es \<Longrightarrow> filter (\<lambda>e. k < e_Index e) es = drop (Suc k - n) es"
proof (induction es arbitrary: n)
  case (Cons e es)
  then show ?case by (cases "Suc k - n") (auto simp: Suc_diff_le)
qed simp

lemma filter_upto: "contiguous n es \<Longrightarrow> filter (\<lambda>e. e_Index e \<le> k) es = take (Suc k - n) es"
proof (induction es arbitrary: n)
  case (Cons e es)
  then show ?case by (cases "Suc k - n") (auto simp: Suc_diff_le)
qed simp

lemma unstable_exact:
  assumes "log_wf l"
  shows "log_unstableEntries l = Inr (filter (\<lambda>e. lg_stabled l < e_Index e) (lg_entries l))"
proof -
  have "contiguous (lg_snapIndex l + 1) (lg_entries l)" using assms by (auto simp: log_wf_def)
  from filter_above [OF this, of "lg_stabled l"] unstable_entries [OF assms] show ?thesis by simp
qed

lemma next_filter:
  assumes "log_wf l"
  shows "filter (\<lambda>e. lg_applied l < e_Index e \<and> e_Index e \<le> lg_committed l) (lg_entries l)
       = drop (lg_applied l - lg_snapIndex l) (take (lg_committed l - lg_snapIndex l) (lg_entries l))"
    (is "?next = _")
proof -
  have c: "contiguous (lg_snapIndex l + 1) (lg_entries l)" using assms by (auto simp: log_wf_def)
  have "?next = filter (\<lambda>e. lg_applied l < e_Index e) (filter (\<lambda>e. e_Index e \<le> lg_committed l) (lg_entries l))"
    by (simp add: conj_commute)
  also have "\<dots> = filter (\<lambda>e. lg_applied l < e_Index e) (take (lg_committed l - lg_snapIndex l) (lg_entries l))"
    using filter_upto [OF c, of "lg_committed l"] by simp
  also have "\<dots> = drop (lg_applied l - lg_snapIndex l) (take (lg_committed l - lg_snapIndex l) (lg_entries l))"
    using filter_above [OF contiguous_take [OF c, of "lg_committed l - lg_snapIndex l"], of "lg_applied l"] by simp
  finally show ?thesis .
qed

lemma next_exact:
  "log_wf l \<Longrightarrow> log_nextEnts l = Inr (filter (\<lambda>e. lg_applied l < e_Index e \<and> e_Index e \<le> lg_committed l) (lg_entries l))"
  by (simp add: next_entries next_filter)

text \<open>A log whose last entry is stable has nothing to save.\<close>

lemma unstable_at_last:
  assumes "log_wf l"
  shows "log_unstableEntries (l\<lparr>lg_applied := i, lg_stabled := log_LastIndex l, lg_pending_snapshot := s\<rparr>) = Inr []"
proof -
  have n: "usub (log_LastIndex l + 1) (lg_offset l) = length (lg_entries l)"
    using assms last_index [OF assms] by (auto simp: log_wf_def)
  show ?thesis by (simp add: log_unstableEntries_def n [simplified] slice_from_def slice_range_def)
qed

text \<open>Of a well-formed log, \<open>unstableEntries\<close> returns exactly the entries above \<open>stabled\<close> and \<open>nextEnts\<close> exactly the
  committed entries that are not applied, in order and without a fault. \<open>hasNextEnts\<close> tells whether there are any, but also
  says yes for a log without entries whose applied index is behind its snapshot.\<close>

theorem handed_entries:
  assumes "log_wf l"
  shows "log_unstableEntries l = Inr (filter (\<lambda>e. lg_stabled l < e_Index e) (lg_entries l))
    \<and> log_nextEnts l = Inr (filter (\<lambda>e. lg_applied l < e_Index e \<and> e_Index e \<le> lg_committed l) (lg_entries l))
    \<and> (log_hasNextEnts l \<longleftrightarrow> filter (\<lambda>e. lg_applied l < e_Index e \<and> e_Index e \<le> lg_committed l) (lg_entries l) \<noteq> []
          \<or> lg_entries l = [] \<and> lg_applied l < lg_snapIndex l)"
proof -
  let ?next = "filter (\<lambda>e. lg_applied l < e_Index e \<and> e_Index e \<le> lg_committed l) (lg_entries l)"
  have c: "lg_committed l \<le> lg_snapIndex l + length (lg_entries l)" "lg_snapIndex l \<le> lg_committed l"
    using assms by (auto simp: log_wf_def)
  have "?next \<noteq> [] \<longleftrightarrow> max (lg_applied l) (lg_snapIndex l) < lg_committed l"
    unfolding next_filter [OF assms] length_greater_0_conv [symmetric] using c by simp linarith
  then have "log_hasNextEnts l \<longleftrightarrow> ?next \<noteq> [] \<or> lg_entries l = [] \<and> lg_applied l < lg_snapIndex l"
    using c first_index [OF assms] by (auto simp: log_hasNextEnts_def log_hasNextEntsSince_def Let_def max_def)
  then show ?thesis using unstable_exact [OF assms] next_exact [OF assms] by blast
qed

theorem handed_entries_witness: "log_nextEnts demo_log = Inr [demo_entry 1 1] \<and> log_unstableEntries demo_log = Inr []"
  using handed_entries [OF demo_log_wf(1)] by (simp add: demo_log_def demo_entry_def)

end
