(* ===== verification/MemoryStorage_Spec.thy ===== *)
theory MemoryStorage_Spec
  imports RaftLog_Spec
begin

text \<open>
  What the log relies on in its storage, as an interface, and that \<open>MemoryStorage\<close> provides it:
  the storage keeps a contiguous run of entries above a base index whose term it remembers.
  Appending, compacting and installing a snapshot are characterised on that run, and a log
  made from the storage holds exactly what was saved.
\<close>

section \<open>The interface\<close>

locale log_store =
  fixes view :: "'s \<Rightarrow> raft_storage" and good :: "'s \<Rightarrow> bool" and base :: "'s \<Rightarrow> nat" and base_term :: "'s \<Rightarrow> nat"
    and saved :: "'s \<Rightarrow> Entry list"
  assumes first: "good s \<Longrightarrow> rs_FirstIndex (view s) = Inr (base s + 1)"
    and lasti: "good s \<Longrightarrow> rs_LastIndex (view s) = Inr (base s + length (saved s))"
    and term_base: "good s \<Longrightarrow> rs_Term (view s) (base s) = Inr (base_term s)"
    and entries: "good s \<Longrightarrow> rs_Entries (view s) (base s + 1) (base s + length (saved s) + 1) = Inr (Inr (saved s))"
    and run: "good s \<Longrightarrow> contiguous (base s + 1) (saved s)"
    and bound: "good s \<Longrightarrow> base s + length (saved s) < 2 ^ 64"
begin

text \<open>A log made from the storage.\<close>

lemma new_log:
  assumes "good s"
  shows "newLog (view s) = Inr \<lparr>lg_committed = base s, lg_applied = base s, lg_stabled = base s + length (saved s),
      lg_entries = saved s, lg_offset = base s + 1, lg_snapTerm = base_term s, lg_snapIndex = base s,
      lg_pending_snapshot = None\<rparr>"
  using first [OF assms] lasti [OF assms] term_base [OF assms] entries [OF assms] by (simp add: newLog_def orPanic_def)

lemma new_log_wf: "good s \<Longrightarrow> newLog (view s) = Inr l \<Longrightarrow> log_wf l"
  using run bound by (auto simp: new_log log_wf_def)

text \<open>The log may go on using the storage as long as what was compacted is committed and saved.\<close>

lemma behind:
  assumes "good s" "base s \<le> lg_committed l" "base s \<le> lg_stabled l"
    "lg_snapIndex l \<le> base s \<Longrightarrow> log_term l (base s) = Inr (base_term s)"
  shows "storage_behind (view s) l"
  using first [OF assms(1)] term_base [OF assms(1)] assms(2-4) by (auto simp: storage_behind_def)

end

section \<open>MemoryStorage provides it\<close>

definition ms_base :: "MemoryStorage \<Rightarrow> nat" where
  "ms_base ms = e_Index (hd (ms_ents ms))"

definition ms_base_term :: "MemoryStorage \<Rightarrow> nat" where
  "ms_base_term ms = e_Term (hd (ms_ents ms))"

definition ms_saved :: "MemoryStorage \<Rightarrow> Entry list" where
  "ms_saved ms = tl (ms_ents ms)"

text \<open>Indexes stay below \<open>2^63\<close>, where the conversion to \<open>int\<close> in \<open>Term\<close> is exact.\<close>

definition ms_wf :: "MemoryStorage \<Rightarrow> bool" where
  "ms_wf ms \<longleftrightarrow> ms_ents ms \<noteq> [] \<and> contiguous (ms_base ms + 1) (ms_saved ms) \<and> ms_base ms + length (ms_ents ms) < 2 ^ 63"

definition ms_entry :: "MemoryStorage \<Rightarrow> nat \<Rightarrow> Entry option" where
  "ms_entry ms i =
     (if ms_base ms < i \<and> i \<le> ms_base ms + length (ms_saved ms) then Some (ms_saved ms ! (i - ms_base ms - 1)) else None)"

lemma ms_cases:
  assumes "ms_wf ms"
  obtains e es where "ms_ents ms = e # es" "contiguous (e_Index e + 1) es" "e_Index e + length es + 1 < 2 ^ 63"
    "ms_base ms = e_Index e" "ms_base_term ms = e_Term e" "ms_saved ms = es"
  using assms by (cases "ms_ents ms") (auto simp: ms_wf_def ms_base_def ms_base_term_def ms_saved_def)

lemma ms_indexes:
  assumes "ms_wf ms"
  shows "MemoryStorage_firstIndex ms = Inr (ms_base ms + 1)"
    "MemoryStorage_lastIndex ms = Inr (ms_base ms + length (ms_saved ms))"
  using assms by (auto elim!: ms_cases simp: MemoryStorage_firstIndex_def MemoryStorage_lastIndex_def ents0_def)

lemma ms_term:
  assumes "ms_wf ms" "i < 2 ^ 63"
  shows "MemoryStorage_Term ms i = Inr (if i < ms_base ms then Inl ErrCompacted
     else if i = ms_base ms then Inr (ms_base_term ms)
     else case ms_entry ms i of None \<Rightarrow> Inl ErrUnavailable | Some e \<Rightarrow> Inr (e_Term e))"
proof -
  obtain e es where ms: "ms_ents ms = e # es" "ms_base ms = e_Index e" "ms_base_term ms = e_Term e" "ms_saved ms = es"
    using ms_cases [OF assms(1)] by metis
  show ?thesis
  proof (cases "i < e_Index e")
    case False
    then have "usub i (e_Index e) = i - e_Index e" "to_int (i - e_Index e) = int (i - e_Index e)"
      using assms(2) by (simp_all add: to_int_def)
    then show ?thesis using False ms by (auto simp: MemoryStorage_Term_def ents0_def ms_entry_def nth_Cons' Let_def)
  qed (use ms in \<open>simp add: MemoryStorage_Term_def ents0_def\<close>)
qed

lemma ms_entries:
  assumes "ms_wf ms" "ms_base ms < lo" "lo \<le> hi" "hi \<le> ms_base ms + length (ms_saved ms) + 1"
  shows "MemoryStorage_Entries ms lo hi = Inr (Inr (drop (lo - ms_base ms - 1) (take (hi - ms_base ms - 1) (ms_saved ms))))"
proof -
  obtain e es where ms: "ms_ents ms = e # es" "ms_base ms = e_Index e" "ms_saved ms = es"
    using ms_cases [OF assms(1)] by metis
  obtain a b where "lo = e_Index e + Suc a" "hi = e_Index e + Suc b"
    using assms ms by (metis add_Suc_right less_imp_Suc_add order_less_le_trans)
  then show ?thesis
    using assms ms by (auto simp: MemoryStorage_Entries_def ents0_def MemoryStorage_lastIndex_def)
qed

interpretation memory: log_store MemoryStorage_view ms_wf ms_base ms_base_term ms_saved
proof
  fix ms assume wf: "ms_wf ms"
  have base: "ms_base ms < 2 ^ 63" using wf by (simp add: ms_wf_def)
  show "rs_FirstIndex (MemoryStorage_view ms) = Inr (ms_base ms + 1)"
    "rs_LastIndex (MemoryStorage_view ms) = Inr (ms_base ms + length (ms_saved ms))"
    using ms_indexes [OF wf] by (simp_all add: MemoryStorage_view_def)
  show "rs_Term (MemoryStorage_view ms) (ms_base ms) = Inr (ms_base_term ms)"
    using ms_term [OF wf base] by (simp add: MemoryStorage_view_def)
  show "rs_Entries (MemoryStorage_view ms) (ms_base ms + 1) (ms_base ms + length (ms_saved ms) + 1) = Inr (Inr (ms_saved ms))"
    using ms_entries [OF wf, of "ms_base ms + 1" "ms_base ms + length (ms_saved ms) + 1"] by (simp add: MemoryStorage_view_def)
  show "contiguous (ms_base ms + 1) (ms_saved ms)" "ms_base ms + length (ms_saved ms) < 2 ^ 64"
    using wf by (auto elim!: ms_cases)
qed

section \<open>Changing it\<close>

lemma ms_wf_start: "ms_wf NewMemoryStorage"
  by (simp add: NewMemoryStorage_def ms_wf_def ms_base_def ms_saved_def zeroEntry_def)

lemma append_result:
  assumes ms: "ms_ents ms = e # es" and ents: "contiguous a ents" "ents \<noteq> []"
  shows "MemoryStorage_Append ms ents =
    (if a + length ents \<le> e_Index e + 1 then Inr ms
     else if a > e_Index e + length es + 1 then Inl (RFatal ''missing log entry'')
     else Inr (ms\<lparr>ms_ents := e # take (a - e_Index e - 1) es @ drop (e_Index e + 1 - a) ents\<rparr>))"
proof -
  let ?b = "e_Index e" let ?k = "?b + 1 - a"
  obtain x xs where x: "ents = x # xs" "e_Index x = a" using ents by (cases ents) auto
  show ?thesis
  proof (cases "a + length ents \<le> ?b + 1")
    case True
    then show ?thesis using ms x by (simp add: MemoryStorage_Append_def MemoryStorage_firstIndex_def ents0_def)
  next
    case False
    then have k: "?k < length ents" using ents(2) by (cases "a \<le> ?b") (auto simp: not_le)
    then obtain y ys where y: "drop ?k ents = y # ys" by (metis Cons_nth_drop_Suc)
    have "contiguous (a + ?k) (drop ?k ents)" using contiguous_drop [OF ents(1)] k by simp
    then have iy: "e_Index y = max a (?b + 1)" using y by (auto simp: max_def)
    have sl: "(if ?b + 1 > a then slice_from ents (usub (?b + 1) a) else Inr ents) = Inr (y # ys)"
      using k y by (auto simp: slice_from_def)
    have "take (e_Index y - ?b) (e # es) = e # take (a - ?b - 1) es"
      using iy by (cases "a \<le> ?b + 1") (auto simp: max_def take_Cons')
    with False sl iy ms x show ?thesis
      unfolding y
      by (auto simp: MemoryStorage_Append_def MemoryStorage_firstIndex_def ents0_def max_def Let_def split: if_splits)
  qed
qed

text \<open>\<open>Append\<close> of a contiguous run of entries that starts at \<open>a\<close>: with a gap to what is stored it ends the
  process; entries that are compacted already are ignored; the others replace everything stored from \<open>a\<close> on and what
  comes before \<open>a\<close> is kept. The storage stays well-formed.\<close>

theorem memory_append:
  assumes wf: "ms_wf ms" and ents: "contiguous a ents" "ents \<noteq> []" and bound: "a + length ents < 2 ^ 63"
  shows "case MemoryStorage_Append ms ents of
      Inl fault \<Rightarrow> (\<exists>s. fault = RFatal s) \<and> a > ms_base ms + length (ms_saved ms) + 1
    | Inr ms' \<Rightarrow> a \<le> ms_base ms + length (ms_saved ms) + 1 \<and> ms_wf ms' \<and> ms_base ms' = ms_base ms
        \<and> ms_base_term ms' = ms_base_term ms \<and> ms_hardState ms' = ms_hardState ms \<and> ms_snapshot ms' = ms_snapshot ms
        \<and> (if a + length ents \<le> ms_base ms + 1 then ms' = ms
           else \<forall>i > ms_base ms. ms_entry ms' i =
             (if i < a then ms_entry ms i else if i < a + length ents then Some (ents ! (i - a)) else None))"
proof -
  obtain e es where ms: "ms_ents ms = e # es" "contiguous (e_Index e + 1) es" "e_Index e + length es + 1 < 2 ^ 63"
    "ms_base ms = e_Index e" "ms_base_term ms = e_Term e" "ms_saved ms = es" using ms_cases [OF wf] by metis
  let ?b = "e_Index e"
  define es' where "es' = take (a - ?b - 1) es @ drop (?b + 1 - a) ents"
  define ms' where "ms' = ms\<lparr>ms_ents := e # es'\<rparr>"
  have parts: "ms_base ms' = ?b" "ms_base_term ms' = e_Term e" "ms_saved ms' = es'" "length (ms_ents ms') = length (e # es')"
    by (simp_all add: ms'_def ms_base_def ms_base_term_def ms_saved_def)
  have "ms_wf ms'" if fits: "\<not> a + length ents \<le> ?b + 1" "\<not> a > ?b + length es + 1"
  proof -
    have "contiguous (?b + 1 + length (take (a - ?b - 1) es)) (drop (?b + 1 - a) ents)"
    proof (cases "a \<le> ?b + 1")
      case True
      then show ?thesis using contiguous_drop [OF ents(1), of "?b + 1 - a"] fits by auto
    next
      case False
      then have "?b + 1 + length (take (a - ?b - 1) es) = a" using fits by simp
      with False show ?thesis using ents(1) by simp
    qed
    moreover have "length (take (a - ?b - 1) es) = a - ?b - 1" using fits by simp
    then have "?b + length (e # es') \<le> a + length ents" using fits(1) by (simp add: es'_def)
    then have "?b + length (e # es') < 2 ^ 63" using bound by (rule le_less_trans)
    ultimately show ?thesis using contiguous_take [OF ms(2)] unfolding ms_wf_def parts by (simp add: ms'_def es'_def del: length_append length_drop)
  qed
  moreover have "ms_entry ms' i = (if i < a then ms_entry ms i else if i < a + length ents then Some (ents ! (i - a)) else None)"
    if "\<not> a + length ents \<le> ?b + 1" "\<not> a > ?b + length es + 1" "?b < i" for i
  proof -
    have len: "length (take (a - ?b - 1) es) = a - ?b - 1" using that(2) by simp
    have all: "?b + length es' = a + length ents - 1"
      using that(1,2) ents(2) unfolding es'_def length_append len length_drop by simp
    show ?thesis
    proof (cases "i < a")
      case True
      then have "es' ! (i - ?b - 1) = es ! (i - ?b - 1)" using len that(3) by (simp add: es'_def nth_append)
      moreover have "i \<le> ?b + length es" "i \<le> ?b + length es'" using True that(2) all by linarith+
      ultimately show ?thesis using True that(3) ms(4,6) by (simp add: ms_entry_def parts)
    next
      case False
      then have "es' ! (i - ?b - 1) = ents ! (i - a)" if "i < a + length ents"
        using len that \<open>?b < i\<close> \<open>\<not> a + length ents \<le> ?b + 1\<close>
        by (cases "a \<le> ?b + 1") (auto simp: es'_def nth_append intro!: arg_cong [of _ _ "nth ents"])
      moreover have "i \<le> ?b + length es' \<longleftrightarrow> i < a + length ents" using all False that(1) by linarith
      ultimately show ?thesis using False that(3) by (simp add: ms_entry_def parts)
    qed
  qed
  ultimately show ?thesis
    using append_result [OF ms(1) ents, folded es'_def, folded ms'_def] parts ms wf by (auto simp: ms'_def)
qed

text \<open>A storage with entries 4 and 5 above a snapshot at 3; entries 3 to 6 of a later term arrive.\<close>

definition demo_ms3 :: MemoryStorage where
  "demo_ms3 = NewMemoryStorage\<lparr>ms_ents := [demo_entry 3 1, demo_entry 4 1, demo_entry 5 1]\<rparr>"

lemma demo_ms3_wf: "ms_wf demo_ms3" and demo_ms3_entry: "ms_entry demo_ms3 5 = Some (demo_entry 5 1)"
  by (simp_all add: demo_ms3_def ms_wf_def ms_entry_def ms_base_def ms_saved_def demo_entry_def)

theorem memory_append_witness:
  "\<exists>ms'. MemoryStorage_Append demo_ms3 [demo_entry 3 1, demo_entry 4 1, demo_entry 5 2] = Inr ms'
     \<and> ms_wf ms' \<and> ms_entry ms' 5 = Some (demo_entry 5 2)"
proof -
  have ents: "contiguous 3 [demo_entry 3 1, demo_entry 4 1, demo_entry 5 2]" by (simp add: demo_entry_def)
  have "\<not> isl (MemoryStorage_Append demo_ms3 [demo_entry 3 1, demo_entry 4 1, demo_entry 5 2])"
    by (simp add: MemoryStorage_Append_def MemoryStorage_firstIndex_def ents0_def demo_ms3_def demo_entry_def slice_from_def slice_to_def slice_range_def)
  then show ?thesis
    using memory_append [OF demo_ms3_wf ents]
    by (auto simp: isl_def demo_ms3_def ms_base_def ms_saved_def demo_entry_def split: sum.splits)
qed

text \<open>\<open>Compact\<close> refuses an index at or below the base with \<open>ErrCompacted\<close>, ends the process for an index beyond the last
  entry, and otherwise moves the base to it: the term there and every entry above it stay readable.\<close>

theorem memory_compact:
  assumes wf: "ms_wf ms"
  shows "case MemoryStorage_Compact ms i of
      Inl fault \<Rightarrow> (\<exists>s. fault = RFatal s) \<and> i > ms_base ms + length (ms_saved ms)
    | Inr (Inl err) \<Rightarrow> err = ErrCompacted \<and> i \<le> ms_base ms
    | Inr (Inr ms') \<Rightarrow> ms_base ms < i \<and> i \<le> ms_base ms + length (ms_saved ms) \<and> ms_wf ms' \<and> ms_base ms' = i
        \<and> map_option e_Term (ms_entry ms i) = Some (ms_base_term ms') \<and> (\<forall>k > i. ms_entry ms' k = ms_entry ms k)"
proof -
  obtain e es where ms: "ms_ents ms = e # es" "contiguous (e_Index e + 1) es" "e_Index e + length es + 1 < 2 ^ 63"
    "ms_base ms = e_Index e" "ms_saved ms = es" using ms_cases [OF wf] by metis
  show ?thesis
  proof (cases "e_Index e < i \<and> i \<le> e_Index e + length es")
    case False
    then show ?thesis
      using ms by (auto simp: MemoryStorage_Compact_def ents0_def MemoryStorage_lastIndex_def Let_def)
  next
    case True
    then obtain k where k: "i = e_Index e + Suc k" "k < length es" by (metis Suc_le_eq add_Suc_right less_imp_Suc_add nat_add_left_cancel_less)
    let ?ms = "ms\<lparr>ms_ents := zeroEntry\<lparr>e_Index := e_Index (es ! k), e_Term := e_Term (es ! k)\<rparr> # drop (Suc k) es\<rparr>"
    have idx: "e_Index (es ! k) = i" using ms(2) k by (simp add: contiguous_def)
    have parts: "ms_base ?ms = i" "ms_base_term ?ms = e_Term (es ! k)" "ms_saved ?ms = drop (Suc k) es"
      by (simp_all add: ms_base_def ms_base_term_def ms_saved_def idx)
    have "MemoryStorage_Compact ms i = Inr (Inr ?ms)"
      using ms(1) k by (simp add: MemoryStorage_Compact_def ents0_def MemoryStorage_lastIndex_def Let_def)
    moreover have "ms_wf ?ms"
      using contiguous_drop [OF ms(2), of "Suc k"] ms(3) k unfolding ms_wf_def parts by simp
    moreover have "ms_entry ?ms j = ms_entry ms j" if gt: "i < j" for j
    proof -
      obtain n where "j = i + Suc n" using less_imp_Suc_add [OF gt] by auto
      then show ?thesis using k ms(4,5) by (auto simp: ms_entry_def parts)
    qed
    moreover have "ms_entry ms i = Some (es ! k)" using k ms(4,5) by (simp add: ms_entry_def)
    ultimately show ?thesis using True parts ms(4,5) by simp
  qed
qed

theorem memory_compact_witness:
  "\<exists>ms'. MemoryStorage_Compact demo_ms3 4 = Inr (Inr ms') \<and> ms_base ms' = 4 \<and> ms_entry ms' 5 = Some (demo_entry 5 1)"
proof -
  obtain ms' where ms': "MemoryStorage_Compact demo_ms3 4 = Inr (Inr ms')"
    by (simp add: MemoryStorage_Compact_def MemoryStorage_lastIndex_def ents0_def demo_ms3_def demo_entry_def)
  with memory_compact [OF demo_ms3_wf, of 4] have "ms_base ms' = 4" "\<forall>k > 4. ms_entry ms' k = ms_entry demo_ms3 k" by simp_all
  with ms' demo_ms3_entry show ?thesis by simp
qed

text \<open>What was saved is what a restarted peer starts from: after \<open>Append\<close> of entries that leave no gap, a log made
  from the storage is well-formed, holds the saved entries up to the first appended one and then exactly the appended
  ones, takes all of them as stable, and the storage is again one the log can work with.\<close>

theorem saved_log_read_back:
  assumes wf: "ms_wf ms" and ents: "contiguous a ents" "ents \<noteq> []" and bound: "a + length ents < 2 ^ 63"
    and fits: "ms_base ms < a" "a \<le> ms_base ms + length (ms_saved ms) + 1"
  shows "\<exists>ms' l. MemoryStorage_Append ms ents = Inr ms' \<and> newLog (MemoryStorage_view ms') = Inr l \<and> log_wf l
    \<and> storage_behind (MemoryStorage_view ms') l \<and> lg_snapIndex l = ms_base ms \<and> lg_snapTerm l = ms_base_term ms
    \<and> lg_entries l = take (a - ms_base ms - 1) (ms_saved ms) @ ents \<and> lg_stabled l = log_LastIndex l \<and> log_LastIndex l = a + length ents - 1"
proof -
  obtain e es where ms: "ms_ents ms = e # es" "ms_base ms = e_Index e" "ms_base_term ms = e_Term e" "ms_saved ms = es"
    using ms_cases [OF wf] by metis
  define ms' where "ms' = ms\<lparr>ms_ents := e # take (a - e_Index e - 1) es @ ents\<rparr>"
  have app: "MemoryStorage_Append ms ents = Inr ms'"
    using append_result [OF ms(1) ents] fits ms(2,4) ents(2) by (cases ents) (auto simp: ms'_def)
  have parts: "ms_base ms' = e_Index e" "ms_base_term ms' = e_Term e" "ms_saved ms' = take (a - e_Index e - 1) es @ ents"
    by (simp_all add: ms'_def ms_base_def ms_base_term_def ms_saved_def)
  have kept: "length (take (a - e_Index e - 1) es) = a - e_Index e - 1" using fits ms by simp
  then have len: "e_Index e + length (ms_saved ms') = a + length ents - 1"
    unfolding parts length_append using fits ms(2) ents(2) by simp
  have wf': "ms_wf ms'"
  proof -
    obtain e' es' where "ms_ents ms = e' # es'" "contiguous (e_Index e' + 1) es'" using ms_cases [OF wf] by metis
    then have "contiguous (e_Index e + 1) (take (a - e_Index e - 1) es)" using ms by (simp add: contiguous_take)
    moreover have "e_Index e + 1 + length (take (a - e_Index e - 1) es) = a" unfolding kept using fits(1) ms(2) by simp
    ultimately show ?thesis using ents(1) bound len parts unfolding ms_wf_def by (simp add: ms'_def ms_saved_def)
  qed
  obtain l where l: "newLog (MemoryStorage_view ms') = Inr l" "log_wf l" using memory.new_log [OF wf'] memory.new_log_wf [OF wf'] by blast
  note eq = memory.new_log [OF wf', unfolded l(1) parts sum.inject]
  have "storage_behind (MemoryStorage_view ms') l"
    by (rule memory.behind [OF wf']) (simp_all add: eq parts log_term_def)
  then show ?thesis using app l len parts last_index [OF l(2)] eq ms by (intro exI [of _ ms'] exI [of _ l]) simp
qed

theorem saved_log_read_back_witness:
  "\<exists>l. newLog (MemoryStorage_view (projr (MemoryStorage_Append demo_ms3 [demo_entry 5 2, demo_entry 6 2]))) = Inr l
     \<and> lg_entries l = [demo_entry 4 1, demo_entry 5 2, demo_entry 6 2]"
proof -
  have ents: "contiguous 5 [demo_entry 5 2, demo_entry 6 2]" by (simp add: demo_entry_def)
  have fits: "ms_base demo_ms3 < 5" "5 \<le> ms_base demo_ms3 + length (ms_saved demo_ms3) + 1"
    by (simp_all add: demo_ms3_def ms_base_def ms_saved_def demo_entry_def)
  from saved_log_read_back [OF demo_ms3_wf ents _ _ fits] show ?thesis
    by (auto simp: demo_ms3_def ms_base_def ms_saved_def demo_entry_def)
qed

end
