(* ===== verification/Raft_Spec.thy ===== *)
theory Raft_Spec
  imports Cluster MemoryStorage_Spec
begin

text \<open>
  Properties of a single Raft peer: its log stays well-formed and its commit index never goes
  back, whatever it is stepped with; a leader commits by counting replicas; elections are timed
  as documented; \<open>Ready\<close> and \<open>Advance\<close> hand over everything once.
\<close>

section \<open>The log of a peer stays well-formed\<close>

text \<open>The log is well-formed and its storage is one it can work with.\<close>

definition log_ok :: "raft_storage \<Rightarrow> RaftLog \<Rightarrow> bool" where
  "log_ok st l \<longleftrightarrow> log_wf l \<and> storage_behind st l"

definition grows :: "raft_storage \<Rightarrow> RaftLog \<Rightarrow> RaftLog \<Rightarrow> bool" where
  "grows st l l' \<longleftrightarrow> log_ok st l' \<and> lg_committed l \<le> lg_committed l' \<and> lg_applied l' = lg_applied l"

lemma grows_refl [simp]: "log_ok st l \<Longrightarrow> grows st l l"
  by (simp add: grows_def)

lemma grows_trans [trans]: "grows st l l1 \<Longrightarrow> grows st l1 l2 \<Longrightarrow> grows st l l2"
  by (auto simp: grows_def)

lemma storage_behindI:
  assumes "storage_behind st l" "lg_committed l \<le> lg_committed l'" "lg_committed l \<le> lg_stabled l' \<or> lg_stabled l \<le> lg_stabled l'"
    "\<And>i. lg_snapIndex l' \<le> i \<Longrightarrow> i \<le> lg_committed l \<Longrightarrow> lg_snapIndex l \<le> i \<and> log_term l' i = log_term l i"
  shows "storage_behind st l'"
proof -
  obtain fi ft where fi: "rs_FirstIndex st = Inr fi" "1 \<le> fi" "rs_Term st (fi - 1) = Inr ft"
    "fi - 1 \<le> lg_committed l" "fi - 1 \<le> lg_stabled l" "lg_snapIndex l \<le> fi - 1 \<longrightarrow> log_term l (fi - 1) = Inr ft"
    using assms(1) by (auto simp: storage_behind_def)
  then show ?thesis
    unfolding storage_behind_def using assms(2,3) assms(4) [of "fi - 1"] by (intro exI [of _ fi] exI [of _ ft]) auto
qed

lemma commitTo_grows: "log_ok st l \<Longrightarrow> log_commitTo l i = Inr l' \<Longrightarrow> grows st l l'"
proof -
  assume l: "log_ok st l" and c: "log_commitTo l i = Inr l'"
  have l': "l' = l\<lparr>lg_committed := max (lg_committed l) i\<rparr>" using c by (auto simp: log_commitTo_def split: if_splits)
  have "log_wf l'" using l c commitTo_wf by (auto simp: log_ok_def)
  moreover have "storage_behind st l'"
    by (rule storage_behindI [of _ l]) (use l in \<open>auto simp: l' log_ok_def log_term_def\<close>)
  ultimately show ?thesis by (simp add: grows_def log_ok_def l')
qed

lemma append_grows:
  assumes l: "log_ok st l" and ents: "contiguous a ents" "ents \<noteq> []"
    and a: "lg_committed l < a" "a \<le> log_LastIndex l + 1" "a + length ents \<le> 2 ^ 64"
    and app: "log_append st l ents = Inr (n, l')"
  shows "grows st l l'"
proof -
  have wf: "log_wf l" "storage_behind st l" using l by (auto simp: log_ok_def)
  from append_effect [OF wf ents a] app have e: "log_wf l'" "lg_committed l' = lg_committed l" "lg_applied l' = lg_applied l"
    "spliced l a ents l'" "lg_stabled l' = min (lg_stabled l) (a - 1)" by auto
  have "storage_behind st l'"
    by (rule storage_behindI [OF wf(2)]) (use e a(1) in \<open>auto simp: spliced_def\<close>)
  with e show ?thesis by (simp add: grows_def log_ok_def)
qed

lemma maybeAppend_grows:
  assumes l: "log_ok st l" and ents: "contiguous (Suc index) ents" "index + length ents < 2 ^ 64"
    and app: "log_maybeAppend st l index logTerm committed ents = Inr (res, l')"
  shows "grows st l l'"
proof (cases "log_matchTerm l index logTerm")
  case False
  with app l show ?thesis by (simp add: log_maybeAppend_def)
next
  case match: True
  have wf: "log_wf l" using l by (simp add: log_ok_def)
  obtain l1 where l1: "log_commitTo l1 (raft_min committed (index + length ents)) = Inr l'"
    and step: "(if log_findConflict l ents = 0 then Inr l
      else if log_findConflict l ents \<le> lg_committed l then Inl (RFatal ''entry conflict with committed entry'')
      else bindR (slice_from ents (usub (log_findConflict l ents) (index + 1))) (\<lambda>news.
           bindR (log_append st l news) (\<lambda>(_, l1). Inr l1))) = Inr l1"
    using app match by (auto simp: log_maybeAppend_def Let_def bindR_Inr_iff)
  have "grows st l l1"
  proof (cases rule: find_conflict_cases [OF ents(1), of l, case_names none at])
    case none
    with step l show ?thesis by simp
  next
    case (at j)
    from step at obtain n where com: "lg_committed l < Suc index + j" and app: "log_append st l (drop j ents) = Inr (n, l1)"
      by (auto simp: bindR_Inr_iff split: if_splits)
    have "log_term l (index + j) \<noteq> Inl x" for x
      using at(3) match by (cases j) (auto simp: matchTerm_iff)
    then obtain t where "log_term l (index + j) = Inr t" by (metis sum.exhaust)
    from log_term_range [OF wf this] have "Suc index + j \<le> log_LastIndex l + 1" by simp
    moreover have "contiguous (Suc index + j) (drop j ents)" using contiguous_drop [OF ents(1), of j] at(1) by simp
    moreover have "drop j ents \<noteq> []" "Suc index + j + length (drop j ents) \<le> 2 ^ 64" using at(1) ents(2) by auto
    ultimately show ?thesis using append_grows [OF l _ _ com _ _ app] by blast
  qed
  also have "grows st l1 l'" by (rule commitTo_grows [OF _ l1]) (use calculation in \<open>simp add: grows_def\<close>)
  finally show ?thesis .
qed

lemma restore_grows:
  assumes "log_ok st l" "lg_committed l < sm_Index (sn_Metadata s)" "sm_Index (sn_Metadata s) < 2 ^ 64"
  shows "grows st l (log_restore l s)"
proof -
  have wf: "log_wf l" "storage_behind st l" using assms(1) by (auto simp: log_ok_def)
  have "log_wf (log_restore l s)"
    by (rule restore_wf [OF wf(1)]) (use assms(2,3) wf(1) in \<open>auto simp: log_wf_def\<close>)
  moreover have "storage_behind st (log_restore l s)"
    by (rule storage_behindI [OF wf(2)]) (use assms(2) in \<open>auto simp: log_restore_def\<close>)
  ultimately show ?thesis using assms(2) by (simp add: grows_def log_ok_def log_restore_def)
qed

section \<open>Through every step\<close>

lemma send_log: "send m r = Inr r' \<Longrightarrow> r_RaftLog r' = r_RaftLog r"
  by (auto simp: send_def Let_def split: if_splits)

lemma sendAppend_log: "sendAppend st to r = Inr (b, r') \<Longrightarrow> r_RaftLog r' = r_RaftLog r"
  by (erule sendAppend_cases) (auto dest: send_log)

lemma for_each_other_log:
  assumes "for_each_other ids f r = Inr r'" "\<And>nid r r'. f nid r = Inr r' \<Longrightarrow> r_RaftLog r' = r_RaftLog r"
  shows "r_RaftLog r' = r_RaftLog r"
  using assms(1)
proof (induction ids arbitrary: r)
  case (Cons nid ids)
  show ?case
  proof (cases "nid = r_id r")
    case False
    with Cons.prems obtain r1 where "f nid r = Inr r1" "for_each_other ids f r1 = Inr r'" by (auto simp: bindR_Inr_iff)
    with Cons.IH assms(2) show ?thesis by metis
  qed (use Cons in simp)
qed simp

lemma bcast_log:
  "bcastAppend st r = Inr r' \<Longrightarrow> r_RaftLog r' = r_RaftLog r"
  "bcastHeartbeat r = Inr r' \<Longrightarrow> r_RaftLog r' = r_RaftLog r"
  "for_each_other ids (sendVoteRequest t) r = Inr r' \<Longrightarrow> r_RaftLog r' = r_RaftLog r"
  unfolding bcastAppend_def bcastHeartbeat_def sendVoteRequest_def
  by (erule for_each_other_log, auto simp: bindR_Inr_iff sendHeartbeat_def Let_def dest: send_log sendAppend_log)+

lemma sendTimeoutNow_log: "sendTimeoutNow to r = Inr r' \<Longrightarrow> r_RaftLog r' = r_RaftLog r"
  by (auto simp: sendTimeoutNow_def dest: send_log)

lemma field_logs [simp]:
  "r_RaftLog (putProgress r nid pr) = r_RaftLog r" "r_RaftLog (abortLeaderTransfer r) = r_RaftLog r"
  by (simp_all add: putProgress_def abortLeaderTransfer_def)

lemma propose_entries_log:
  "propose_entries i es r = (es', r') \<Longrightarrow> r_RaftLog r' = r_RaftLog r \<and> length es' = length es \<and> r_Term r' = r_Term r"
proof (induction es arbitrary: i r es')
  case (Cons e es)
  then show ?case by (fastforce simp: Let_def split: prod.splits if_splits)
qed simp

lemma maybeCommit_grows:
  "maybeCommit r = Inr (b, r') \<Longrightarrow> log_ok st (r_RaftLog r) \<Longrightarrow> grows st (r_RaftLog r) (r_RaftLog r')"
  by (auto simp: maybeCommit_def log_maybeCommit_def bindR_Inr_iff Let_def split: if_splits dest: commitTo_grows)

lemma number_entries_run: "contiguous (li + 1) (number_entries t li es)" "length (number_entries t li es) = length es"
  by (auto simp: number_entries_def contiguous_def nth_enumerate_eq)

lemma appendEntry_grows:
  assumes "appendEntry st es r = Inr r'" "log_ok st (r_RaftLog r)" "log_LastIndex (r_RaftLog r) + length es < 2 ^ 64"
  shows "grows st (r_RaftLog r) (r_RaftLog r')"
proof -
  let ?l = "r_RaftLog r" let ?es = "number_entries (r_Term r) (log_LastIndex ?l) es"
  obtain n l1 r2 b where steps: "log_append st ?l ?es = Inr (n, l1)" "maybeCommit r2 = Inr (b, r')" "r_RaftLog r2 = l1"
    using assms(1) by (auto simp: appendEntry_def bindR_Inr_iff Let_def)
  have "grows st ?l l1"
  proof (cases "es = []")
    case True
    then have "?es = []" using number_entries_run(2) [of "r_Term r" "log_LastIndex ?l" es] by simp
    with steps(1) assms(2) show ?thesis by (simp add: log_append_def)
  next
    case False
    then have "?es \<noteq> []" using number_entries_run(2) [of "r_Term r" "log_LastIndex ?l" es] by (cases es) auto
    moreover have "lg_committed ?l < log_LastIndex ?l + 1"
      using assms(2) by (auto simp: log_ok_def last_index log_wf_def)
    ultimately show ?thesis
      using append_grows [OF assms(2) number_entries_run(1) _ _ _ _ steps(1)] assms(3) number_entries_run(2) by simp
  qed
  also have "grows st l1 (r_RaftLog r')"
    using maybeCommit_grows [OF steps(2), of st] steps(3) calculation by (simp add: grows_def)
  finally show ?thesis .
qed

lemma becomeLeader_grows:
  assumes "becomeLeader st r = Inr r'" "log_ok st (r_RaftLog r)" "log_LastIndex (r_RaftLog r) + 1 < 2 ^ 64"
  shows "grows st (r_RaftLog r) (r_RaftLog r')"
  using assms by (fastforce simp: becomeLeader_def bindR_Inr_iff Let_def dest: reset_keeps(2) appendEntry_grows)

lemma campaign_grows:
  assumes "campaign st r = Inr r'" "log_ok st (r_RaftLog r)" "log_LastIndex (r_RaftLog r) + 1 < 2 ^ 64"
  shows "grows st (r_RaftLog r) (r_RaftLog r')"
proof -
  obtain r0 where r0: "reset (r_Term r + 1) r = Inr r0" using assms(1)
    by (auto simp: campaign_def becomeCandidate_def bindR_Inr_iff)
  define r1 where "r1 = snd (poll (r_id r0) True (r0\<lparr>r_Vote := r_id r0, r_State := StateCandidate\<rparr>))"
  have r1: "r_RaftLog r1 = r_RaftLog r" using reset_keeps(2) [OF r0] by (simp add: r1_def poll_def Let_def)
  have "becomeLeader st r1 = Inr r' \<or> (\<exists>ids t. for_each_other ids (sendVoteRequest t) r1 = Inr r')"
    using assms(1) r0 by (auto simp: campaign_def becomeCandidate_def r1_def split: prod.splits if_splits)
  then show ?thesis using r1 assms(2,3) becomeLeader_grows [of st r1 r'] by (auto dest: bcast_log(3))
qed

text \<open>What the messages must be like: entries numbered on from the index before them, indexes that fit in 64 bits.\<close>

definition msg_fits :: "Message \<Rightarrow> Raft \<Rightarrow> bool" where
  "msg_fits m r \<longleftrightarrow> (m_MsgType m = MsgAppend \<longrightarrow> contiguous (m_Index m + 1) (m_Entries m) \<and> m_Index m + length (m_Entries m) < 2 ^ 64)
     \<and> (m_MsgType m = MsgSnapshot \<longrightarrow> (\<forall>s. m_Snapshot m = Some s \<longrightarrow> sm_Index (sn_Metadata s) < 2 ^ 64))
     \<and> log_LastIndex (r_RaftLog r) + length (m_Entries m) + 1 < 2 ^ 64"

lemma handleAppendEntries_grows:
  assumes "handleAppendEntries st m r = Inr r'" "log_ok st (r_RaftLog r)" "msg_fits m r" "m_MsgType m = MsgAppend"
  shows "grows st (r_RaftLog r) (r_RaftLog r')"
proof (cases "m_Index m < lg_committed (r_RaftLog r)")
  case True
  then show ?thesis using assms by (auto simp: handleAppendEntries_def Let_def dest!: send_log)
next
  case False
  then obtain res l1 where l1: "log_maybeAppend st (r_RaftLog r) (m_Index m) (m_LogTerm m) (m_Commit m) (m_Entries m) = Inr (res, l1)"
    and "\<exists>resp. send resp (r\<lparr>r_RaftLog := l1\<rparr>) = Inr r'"
    using assms(1) by (fastforce simp: handleAppendEntries_def Let_def bindR_Inr_iff split: option.splits)
  then have "r_RaftLog r' = l1" by (auto dest: send_log)
  with maybeAppend_grows [OF assms(2) _ _ l1] assms(3,4) show ?thesis by (simp add: msg_fits_def)
qed

lemma handleHeartbeat_grows:
  "handleHeartbeat m r = Inr r' \<Longrightarrow> log_ok st (r_RaftLog r) \<Longrightarrow> grows st (r_RaftLog r) (r_RaftLog r')"
  by (auto simp: handleHeartbeat_def bindR_Inr_iff dest!: send_log intro: commitTo_grows)

lemma handleSnapshot_grows:
  assumes "handleSnapshot m r = Inr r'" "log_ok st (r_RaftLog r)" "msg_fits m r" "m_MsgType m = MsgSnapshot"
  shows "grows st (r_RaftLog r) (r_RaftLog r')"
proof -
  obtain s b r1 where s: "m_Snapshot m = Some s" "restore s r = Inr (b, r1)" "r_RaftLog r' = r_RaftLog r1"
    using assms(1) by (fastforce simp: handleSnapshot_def bindR_Inr_iff split: option.splits dest: send_log)
  have "sm_Index (sn_Metadata s) < 2 ^ 64" using assms(3,4) s(1) by (simp add: msg_fits_def)
  then have "lg_committed (r_RaftLog r) < sm_Index (sn_Metadata s) \<Longrightarrow> grows st (r_RaftLog r) (log_restore (r_RaftLog r) s)"
    using restore_grows [OF assms(2)] by blast
  with s(2) assms(2) have "grows st (r_RaftLog r) (r_RaftLog r1)"
    by (auto simp: restore_def bindR_Inr_iff restoreNode_keeps Let_def split: if_splits intro: commitTo_grows)
  with s(3) show ?thesis by simp
qed

lemma stepLeader_grows:
  assumes "stepLeader st m r = Inr (e, r')" "log_ok st (r_RaftLog r)" "msg_fits m r"
  shows "grows st (r_RaftLog r) (r_RaftLog r')"
proof -
  have propose: "grows st (r_RaftLog r) (r_RaftLog r')" if "leader_Propose st m r = Inr (e, r')"
  proof (cases "r' = r")
    case False
    with that obtain es r1 r2 where steps: "propose_entries 0 (m_Entries m) r = (es, r1)"
      "appendEntry st es r1 = Inr r2" "bcastAppend st r2 = Inr r'"
      by (auto simp: leader_Propose_def bindR_Inr_iff split: if_splits prod.splits)
    with propose_entries_log [OF steps(1)] bcast_log(1) [OF steps(3)] assms(2,3) appendEntry_grows [OF steps(2)]
    show ?thesis by (simp add: msg_fits_def)
  qed (use assms(2) in simp)
  have response: "grows st (r_RaftLog r) (r_RaftLog r')" if ar: "leader_AppendResponse st m pr r = Inr (e, r')" for pr
    using ar
  proof (cases rule: leader_AppendResponse_cases)
    case (accept pr1 c r2 r3)
    then have "r_RaftLog r' = r_RaftLog r2" by (auto split: if_splits dest!: bcast_log(1) sendTimeoutNow_log)
    with maybeCommit_grows [OF accept(1), of st] assms(2) show ?thesis by simp
  qed (use assms(2) in \<open>auto dest: sendAppend_log\<close>)
  have transfer: "r_RaftLog r' = r_RaftLog r" if "leader_TransferLeader st m pr r = Inr (e, r')" for pr
    using that by (auto simp: leader_TransferLeader_def bindR_Inr_iff Let_def split: if_splits
        dest!: sendAppend_log sendTimeoutNow_log)
  show ?thesis
    using assms(1,2) propose response transfer
    by (fastforce simp: stepLeader_def bindR_Inr_iff split: option.splits MessageType.splits if_splits dest: bcast_log(2) sendAppend_log)
qed

lemma becomeFollower_log: "becomeFollower t lead r = Inr r' \<Longrightarrow> r_RaftLog r' = r_RaftLog r"
  by (auto simp: becomeFollower_def bindR_Inr_iff dest: reset_keeps(2))

lemma msg_fits_log: "r_RaftLog r' = r_RaftLog r \<Longrightarrow> msg_fits m r \<Longrightarrow> msg_fits m r'"
  by (simp add: msg_fits_def)

lemma handlers_grow:
  assumes "log_ok st (r_RaftLog r)" "msg_fits m r" "lead_msg m"
    "m_MsgType m = MsgAppend \<longrightarrow> handleAppendEntries st m r = Inr r'" "m_MsgType m = MsgHeartbeat \<longrightarrow> handleHeartbeat m r = Inr r'"
    "m_MsgType m = MsgSnapshot \<longrightarrow> handleSnapshot m r = Inr r'"
  shows "grows st (r_RaftLog r) (r_RaftLog r')"
  using assms by (auto simp: lead_msg_def intro: handleAppendEntries_grows handleHeartbeat_grows handleSnapshot_grows)

lemma stepCandidate_grows:
  assumes "stepCandidate st m r = Inr (e, r')" "log_ok st (r_RaftLog r)" "msg_fits m r"
  shows "grows st (r_RaftLog r) (r_RaftLog r')"
proof (cases "lead_msg m")
  case True
  with assms(1) obtain r1 where r1: "becomeFollower (m_Term m) (m_From m) r = Inr r1"
    "m_MsgType m = MsgAppend \<longrightarrow> handleAppendEntries st m r1 = Inr r'" "m_MsgType m = MsgHeartbeat \<longrightarrow> handleHeartbeat m r1 = Inr r'"
    "m_MsgType m = MsgSnapshot \<longrightarrow> handleSnapshot m r1 = Inr r'"
    by (auto simp: stepCandidate_def lead_msg_def bindR_Inr_iff)
  note same = becomeFollower_log [OF r1(1)]
  from handlers_grow [OF _ msg_fits_log [OF same assms(3)] True r1(2-4)] same assms(2) show ?thesis by simp
next
  case False
  have "r_RaftLog r' = r_RaftLog r \<or> (\<exists>r1 r2. r_RaftLog r1 = r_RaftLog r \<and> becomeLeader st r1 = Inr r2 \<and> bcastAppend st r2 = Inr r')"
  proof (cases "m_MsgType m = MsgRequestVoteResponse")
    case True
    obtain g r1 where p: "poll (m_From m) (\<not> m_Reject m) r = (g, r1)" by fastforce
    then have "r_RaftLog r1 = r_RaftLog r" by (auto simp: poll_def Let_def split: if_splits)
    with True p assms(1) show ?thesis
      by (auto simp: stepCandidate_def bindR_Inr_iff split: if_splits dest: becomeFollower_log)
  next
    case other: False
    with False assms(1) show ?thesis by (auto simp: stepCandidate_def lead_msg_def split: MessageType.splits)
  qed
  then show ?thesis
  proof (elim disjE exE conjE)
    fix r1 r2 assume "r_RaftLog r1 = r_RaftLog r" "becomeLeader st r1 = Inr r2" "bcastAppend st r2 = Inr r'"
    then show ?thesis using becomeLeader_grows [of st r1 r2] bcast_log(1) [of st r2 r'] assms(2,3) by (simp add: msg_fits_def)
  qed (use assms(2) in simp)
qed

lemma stepFollower_grows:
  assumes "stepFollower st m r = Inr (e, r')" "log_ok st (r_RaftLog r)" "msg_fits m r"
  shows "grows st (r_RaftLog r) (r_RaftLog r')"
proof (cases "lead_msg m")
  case True
  let ?r1 = "r\<lparr>r_electionElapsed := 0, r_Lead := m_From m\<rparr>"
  have "m_MsgType m = MsgAppend \<longrightarrow> handleAppendEntries st m ?r1 = Inr r'" "m_MsgType m = MsgHeartbeat \<longrightarrow> handleHeartbeat m ?r1 = Inr r'"
    "m_MsgType m = MsgSnapshot \<longrightarrow> handleSnapshot m ?r1 = Inr r'"
    using assms(1) by (auto simp: stepFollower_def Let_def)
  from handlers_grow [OF _ _ True this] assms(2,3) show ?thesis by (simp add: msg_fits_def)
next
  case False
  then have "r_RaftLog r' = r_RaftLog r \<or> campaign st r = Inr r'"
    using assms(1) by (auto simp: stepFollower_def Let_def lead_msg_def split: MessageType.splits if_splits dest: send_log)
  then show ?thesis using campaign_grows [of st r r'] assms(2,3) by (auto simp: msg_fits_def)
qed

lemma step_term_log: "step_term m r = Inr (Some r1) \<Longrightarrow> r_RaftLog r1 = r_RaftLog r"
  by (auto simp: step_term_def bindR_Inr_iff split: if_splits dest: becomeFollower_log)

lemma requestVote_log: "requestVote m r = Inr r' \<Longrightarrow> r_RaftLog r' = r_RaftLog r"
  by (erule requestVote_cases) simp_all

lemma Step_grows:
  assumes "Step st m r = Inr (e, r')" "log_ok st (r_RaftLog r)" "msg_fits m r"
  shows "grows st (r_RaftLog r) (r_RaftLog r')"
proof -
  obtain res where res: "step_term m r = Inr res" using assms(1) by (auto simp: Step_def bindR_Inr_iff)
  show ?thesis
  proof (cases res)
    case None
    with res assms show ?thesis by (simp add: Step_def)
  next
    case (Some r1)
    have same: "r_RaftLog r1 = r_RaftLog r" using step_term_log res Some by simp
    note fits = msg_fits_log [OF same assms(3)]
    have "grows st (r_RaftLog r1) (r_RaftLog r')"
    proof (cases "m_MsgType m = MsgHup \<or> m_MsgType m = MsgRequestVote")
      case True
      then have "r_RaftLog r' = r_RaftLog r1 \<or> campaign st r1 = Inr r'"
        using assms(1) res Some by (auto simp: Step_def dest!: hup_cases requestVote_log)
      then show ?thesis using campaign_grows [of st r1 r'] assms(2) fits same by (auto simp: msg_fits_def)
    next
      case False
      with assms(1) res Some have "(case r_State r1 of StateFollower \<Rightarrow> stepFollower st m r1
          | StateCandidate \<Rightarrow> stepCandidate st m r1 | StateLeader \<Rightarrow> stepLeader st m r1) = Inr (e, r')"
        by (auto simp: Step_def split: MessageType.splits)
      moreover have "log_ok st (r_RaftLog r1)" using assms(2) same by simp
      ultimately show ?thesis
        using fits by (cases "r_State r1") (auto intro: stepFollower_grows stepCandidate_grows stepLeader_grows)
    qed
    with same show ?thesis by simp
  qed
qed

text \<open>C9. Whatever message a peer is stepped with, if the call returns, the log of the peer is well-formed again (its entries
  are numbered without a gap from the snapshot on, the commit index lies within it, nothing beyond it is applied), the
  storage is again one the log can work with, the commit index has not gone back and the applied index has not moved.\<close>

theorem step_keeps_log:
  assumes "Step st m r = Inr (e, r')" "log_wf (r_RaftLog r)" "storage_behind st (r_RaftLog r)" "msg_fits m r"
  shows "log_wf (r_RaftLog r') \<and> storage_behind st (r_RaftLog r')
    \<and> lg_committed (r_RaftLog r) \<le> lg_committed (r_RaftLog r') \<and> lg_applied (r_RaftLog r') = lg_applied (r_RaftLog r)"
  using Step_grows [OF assms(1)] assms(2-4) by (simp add: log_ok_def grows_def)

definition demo_append :: Message where
  "demo_append = zeroMessage\<lparr>m_MsgType := MsgAppend, m_From := 1, m_To := 2, m_Term := 1,
     m_Entries := [demo_entry 1 1], m_Commit := 1\<rparr>"

lemma demo_node_log:
  "log_wf (r_RaftLog (rn_Raft (demo_node 2)))" "storage_behind (demo_store emptyHardState) (r_RaftLog (rn_Raft (demo_node 2)))"
  "msg_fits demo_append (rn_Raft (demo_node 2))"
  by (simp_all add: exec_demo log_wf_def storage_behind_def msg_fits_def demo_append_def demo_entry_def)

theorem step_keeps_log_witness:
  "\<exists>r'. Step (demo_store emptyHardState) demo_append (rn_Raft (demo_node 2)) = Inr (None, r')
     \<and> log_wf (r_RaftLog r') \<and> lg_committed (r_RaftLog r') = 1"
proof -
  obtain r' where r': "Step (demo_store emptyHardState) demo_append (rn_Raft (demo_node 2)) = Inr (None, r')"
    "lg_committed (r_RaftLog r') = 1"
    by (simp add: exec_demo demo_append_def demo_entry_def handleAppendEntries_def log_maybeAppend_def log_findConflict.simps)
  with step_keeps_log [OF r'(1) demo_node_log] show ?thesis by blast
qed

section \<open>Committing by counting replicas\<close>

definition replicated :: "Raft \<Rightarrow> nat \<Rightarrow> nat" where
  "replicated r k = length (filter (\<lambda>(nid, pr). k \<le> pr_Match pr) (r_Prs r))"

lemma sorted_quorum:
  fixes xs :: "nat list"
  assumes "sorted xs" "0 < q" "q \<le> length xs"
  shows "q \<le> length (filter (\<lambda>x. k \<le> x) xs) \<longleftrightarrow> k \<le> xs ! (length xs - q)"
proof
  assume ge: "k \<le> xs ! (length xs - q)"
  have "k \<le> x" if "x \<in> set (drop (length xs - q) xs)" for x
  proof -
    from that obtain i where "x = xs ! (length xs - q + i)" "length xs - q + i < length xs" by (auto simp: in_set_conv_nth)
    with sorted_nth_mono [OF assms(1), of "length xs - q" "length xs - q + i"] ge show ?thesis by simp
  qed
  then have "filter (\<lambda>x. k \<le> x) (drop (length xs - q) xs) = drop (length xs - q) xs" by simp
  then have "length (filter (\<lambda>x. k \<le> x) (drop (length xs - q) xs)) = q" using assms(3) by simp
  moreover have "filter (\<lambda>x. k \<le> x) xs = filter (\<lambda>x. k \<le> x) (take (length xs - q) xs) @ filter (\<lambda>x. k \<le> x) (drop (length xs - q) xs)"
    by (metis append_take_drop_id filter_append)
  ultimately show "q \<le> length (filter (\<lambda>x. k \<le> x) xs)" by simp
next
  let ?n = "Suc (length xs - q)"
  assume count: "q \<le> length (filter (\<lambda>x. k \<le> x) xs)"
  show "k \<le> xs ! (length xs - q)"
  proof (rule ccontr)
    assume less: "\<not> k \<le> xs ! (length xs - q)"
    have "\<not> k \<le> x" if "x \<in> set (take ?n xs)" for x
    proof -
      from that obtain i where i: "x = xs ! i" "i < ?n" "i < length xs" by (auto simp: in_set_conv_nth)
      with assms have "xs ! i \<le> xs ! (length xs - q)" by (intro sorted_nth_mono) auto
      with less i show ?thesis by simp
    qed
    then have "filter (\<lambda>x. k \<le> x) (take ?n xs) = []" by (simp add: filter_empty_conv)
    then have "filter (\<lambda>x. k \<le> x) xs = filter (\<lambda>x. k \<le> x) (drop ?n xs)"
      by (metis append_Nil append_take_drop_id filter_append)
    then have "length (filter (\<lambda>x. k \<le> x) xs) \<le> length (drop ?n xs)" by (metis length_filter_le)
    with count assms show False by simp
  qed
qed

lemma length_filter_sort: "length (filter P (sort xs)) = length (filter P xs)"
  by (simp add: filter_sort)

text \<open>C16. \<open>maybeCommit\<close> finds the largest index that a quorum of the peers has in its log according to their progress, and moves
  the commit index there exactly when that is ahead and the entry there is of the current term; otherwise it changes
  nothing. Entries of earlier terms are never committed by counting replicas.\<close>

theorem commit_counts_replicas:
  assumes "r_Prs r \<noteq> []" "log_wf (r_RaftLog r)"
  shows "\<exists>mci. (\<forall>k. quorum r \<le> replicated r k \<longleftrightarrow> k \<le> mci)
    \<and> maybeCommit r = Inr (if lg_committed (r_RaftLog r) < mci \<and> log_term (r_RaftLog r) mci = Inr (r_Term r)
        then (True, r\<lparr>r_RaftLog := (r_RaftLog r)\<lparr>lg_committed := mci\<rparr>\<rparr>) else (False, r))"
proof -
  let ?ms = "map (pr_Match \<circ> snd) (r_Prs r)" let ?xs = "sort ?ms"
  have n: "0 < quorum r" "quorum r \<le> length ?xs" using assms(1) by (cases "r_Prs r"; simp add: quorum_def)+
  let ?mci = "?xs ! (length ?xs - quorum r)"
  have "replicated r k = length (filter (\<lambda>x. k \<le> x) ?ms)" for k
    by (simp add: replicated_def filter_map o_def case_prod_unfold)
  then have mci: "quorum r \<le> replicated r k \<longleftrightarrow> k \<le> ?mci" for k
    using sorted_quorum [OF sorted_sort n, of k] by (simp add: length_filter_sort)
  have i: "nat (int (length ?xs) - int (quorum r)) = length ?xs - quorum r" by simp
  have "maybeCommit r = bindR (log_maybeCommit (r_RaftLog r) ?mci (r_Term r)) (\<lambda>(b, l). Inr (b, r\<lparr>r_RaftLog := l\<rparr>))"
  proof -
    have "\<not> int (length ?xs) - int (quorum r) < 0" "\<not> length ?xs \<le> length ?xs - quorum r" using n by linarith+
    then show ?thesis unfolding maybeCommit_def Let_def i by simp
  qed
  moreover have "?mci \<le> log_LastIndex (r_RaftLog r)" if "log_term (r_RaftLog r) ?mci = Inr (r_Term r)"
    using log_term_range [OF assms(2) that] by simp
  ultimately have "maybeCommit r = Inr (if lg_committed (r_RaftLog r) < ?mci \<and> log_term (r_RaftLog r) ?mci = Inr (r_Term r)
        then (True, r\<lparr>r_RaftLog := (r_RaftLog r)\<lparr>lg_committed := ?mci\<rparr>\<rparr>) else (False, r))"
    by (auto simp: log_maybeCommit_def log_commitTo_def matchTerm_iff not_less)
  with mci show ?thesis by blast
qed

text \<open>A leader of term 1 with the entry 1 on peers 1 and 2 of three commits it.\<close>

definition demo_leader :: Raft where
  "demo_leader = (rn_Raft demo_n1')\<lparr>r_Prs := [(1, \<lparr>pr_Match = 1, pr_Next = 2\<rparr>), (2, \<lparr>pr_Match = 1, pr_Next = 2\<rparr>), (3, \<lparr>pr_Match = 0, pr_Next = 1\<rparr>)]\<rparr>"

lemma demo_leader_log: "log_wf (r_RaftLog demo_leader)" "log_term (r_RaftLog demo_leader) 1 = Inr 1"
  "lg_committed (r_RaftLog demo_leader) = 0" "r_Term demo_leader = 1"
  by (simp_all add: demo_leader_def exec_demo log_wf_def)

theorem commit_counts_replicas_witness:
  "\<exists>r'. maybeCommit demo_leader = Inr (True, r') \<and> lg_committed (r_RaftLog r') = 1"
proof -
  have prs: "r_Prs demo_leader \<noteq> []" by (simp add: demo_leader_def)
  obtain mci where mci: "\<forall>k. quorum demo_leader \<le> replicated demo_leader k \<longleftrightarrow> k \<le> mci"
    "maybeCommit demo_leader = Inr (if lg_committed (r_RaftLog demo_leader) < mci \<and> log_term (r_RaftLog demo_leader) mci = Inr (r_Term demo_leader)
        then (True, demo_leader\<lparr>r_RaftLog := (r_RaftLog demo_leader)\<lparr>lg_committed := mci\<rparr>\<rparr>) else (False, demo_leader))"
    using commit_counts_replicas [OF prs demo_leader_log(1)] by blast
  have "1 \<le> mci" "\<not> 2 \<le> mci"
    using mci(1) [rule_format, of 1] mci(1) [rule_format, of 2] by (simp_all add: quorum_def replicated_def demo_leader_def)
  then have "mci = 1" by simp
  then show ?thesis using mci(2) demo_leader_log by simp
qed

section \<open>Timing of elections\<close>

fun ticks :: "raft_storage \<Rightarrow> nat \<Rightarrow> Raft \<Rightarrow> Raft rres" where
  "ticks st 0 r = Inr r"
| "ticks st (Suc n) r = bindR (tick st r) (ticks st n)"

lemma quiet_ticks:
  assumes "r_State r \<noteq> StateLeader" "r_electionElapsed r + int k < r_randomizedElectionTimeout r"
  shows "ticks st k r = Inr (r\<lparr>r_electionElapsed := r_electionElapsed r + int k\<rparr>)"
  using assms
proof (induction k arbitrary: r)
  case (Suc k)
  let ?r = "r\<lparr>r_electionElapsed := r_electionElapsed r + 1\<rparr>"
  have "tick st r = tickElection st r" using Suc.prems(1) by (cases "r_State r") (auto simp: tick_def)
  also have "\<dots> = Inr ?r" using Suc.prems(2) by (simp add: tickElection_def pastElectionTimeout_def Let_def)
  finally show ?case using Suc.IH [of ?r] Suc.prems by (simp add: add.commute)
qed simp

lemma ticks_Suc: "ticks st (Suc n) r = bindR (ticks st n r) (tick st)"
proof (induction n arbitrary: r)
  case 0
  then show ?case by (cases "tick st r") simp_all
next
  case (Suc n)
  have "ticks st (Suc n) = (\<lambda>r1. bindR (ticks st n r1) (tick st))" using Suc.IH by (rule ext)
  then have "bindR (tick st r) (ticks st (Suc n)) = bindR (bindR (tick st r) (ticks st n)) (tick st)"
    by (simp only: bindR_assoc)
  then show ?case by (simp only: ticks.simps(2))
qed

text \<open>C22. A peer that becomes follower draws a timeout between the election timeout and twice that, less one; for as many
  ticks less one as it drew it only counts, and at that tick, when it is a member of the configuration, it campaigns.\<close>

theorem election_timing:
  assumes "becomeFollower t lead r0 = Inr r" "promotable r"
  shows "\<exists>n. r_randomizedElectionTimeout r = int n \<and> r_electionTimeout r \<le> int n \<and> int n \<le> 2 * r_electionTimeout r - 1
    \<and> (\<forall>k < n. ticks st k r = Inr (r\<lparr>r_electionElapsed := int k\<rparr>))
    \<and> ticks st n r = drop_err (Step st (zeroMessage\<lparr>m_From := r_id r, m_MsgType := MsgHup\<rparr>) (r\<lparr>r_electionElapsed := 0\<rparr>))"
proof -
  have r: "r_electionElapsed r = 0" "r_State r = StateFollower" "0 < r_electionTimeout r"
    "r_electionTimeout r \<le> r_randomizedElectionTimeout r" "r_randomizedElectionTimeout r < 2 * r_electionTimeout r"
    using assms(1) by (auto simp: becomeFollower_def reset_def resetRandomizedElectionTimeout_def Intn_def abortLeaderTransfer_def
        bindR_Inr_iff Let_def split: if_splits)
  then obtain n where n: "r_randomizedElectionTimeout r = int (Suc n)" by (metis gr0_implies_Suc less_le_trans nat_0_le of_nat_0_less_iff order_less_imp_le)
  have q: "ticks st k r = Inr (r\<lparr>r_electionElapsed := int k\<rparr>)" if "k < Suc n" for k
    using quiet_ticks [of r k st] r n that by simp
  have "ticks st (Suc n) r = tick st (r\<lparr>r_electionElapsed := int n\<rparr>)"
    unfolding ticks_Suc using q [of n] by simp
  also have "\<dots> = drop_err (Step st (zeroMessage\<lparr>m_From := r_id r, m_MsgType := MsgHup\<rparr>) (r\<lparr>r_electionElapsed := 0\<rparr>))"
    using r n assms(2) by (simp add: tick_def tickElection_def promotable_def getProgress_def pastElectionTimeout_def Let_def)
  finally show ?thesis using q r n by (intro exI [of _ "Suc n"]) simp
qed

theorem election_timing_witness:
  "ticks (demo_store emptyHardState) 10 (rn_Raft (demo_node 1))
     = drop_err (Step (demo_store emptyHardState) (zeroMessage\<lparr>m_From := 1, m_MsgType := MsgHup\<rparr>)
         ((rn_Raft (demo_node 1))\<lparr>r_electionElapsed := 0\<rparr>))"
proof -
  let ?r = "rn_Raft (demo_node 1)"
  have f: "\<exists>r0. becomeFollower 0 NoNode r0 = Inr ?r" "promotable ?r" "r_randomizedElectionTimeout ?r = 10" "r_id ?r = 1"
  proof -
    have "becomeFollower 0 NoNode (?r\<lparr>r_drawn := 0\<rparr>) = Inr ?r" by (simp add: exec_demo)
    then show "\<exists>r0. becomeFollower 0 NoNode r0 = Inr ?r" by blast
  qed (simp_all add: exec_demo promotable_def)
  then obtain r0 where "becomeFollower 0 NoNode r0 = Inr ?r" by blast
  from election_timing [OF this f(2), of "demo_store emptyHardState"] f(3,4) show ?thesis by (metis of_nat_eq_iff of_nat_numeral)
qed

section \<open>Ready and Advance\<close>

lemma last_unstable:
  assumes wf: "log_wf l" and us: "us = filter (\<lambda>e. lg_stabled l < e_Index e) (lg_entries l)" and app: "lg_applied l \<le> i" "i \<le> lg_committed l"
  shows "us = [] \<Longrightarrow> lg_stabled l = log_LastIndex l"
    and "us \<noteq> [] \<Longrightarrow> log_stableTo (l\<lparr>lg_applied := i\<rparr>) (e_Index (us ! (length us - 1))) (e_Term (us ! (length us - 1)))
      = l\<lparr>lg_applied := i, lg_stabled := log_LastIndex l\<rparr>"
proof -
  let ?es = "lg_entries l" let ?n = "lg_stabled l - lg_snapIndex l"
  have c: "contiguous (lg_snapIndex l + 1) ?es" "lg_snapIndex l \<le> lg_stabled l" "lg_offset l = lg_snapIndex l + 1"
    "lg_stabled l \<le> lg_snapIndex l + length ?es" using wf by (auto simp: log_wf_def)
  have drop: "us = drop ?n ?es" unfolding us using filter_above [OF c(1), of "lg_stabled l"] by simp
  show "us = [] \<Longrightarrow> lg_stabled l = log_LastIndex l" using drop c last_index [OF wf] by simp
  assume "us \<noteq> []"
  then have n: "?n < length ?es" using drop by auto
  have "us ! (length us - 1) = ?es ! (length ?es - 1)"
    using n unfolding drop by simp
  moreover have "e_Index (?es ! (length ?es - 1)) = log_LastIndex l" using c(1) n last_index [OF wf] by (auto simp: contiguous_def)
  moreover have "log_term (l\<lparr>lg_applied := i\<rparr>) (log_LastIndex l) = Inr (e_Term (?es ! (length ?es - 1)))"
    using n c(3) last_index [OF wf] by (auto simp: log_term_def)
  ultimately show "log_stableTo (l\<lparr>lg_applied := i\<rparr>) (e_Index (us ! (length us - 1))) (e_Term (us ! (length us - 1)))
      = l\<lparr>lg_applied := i, lg_stabled := log_LastIndex l\<rparr>"
    using n c(2) last_index [OF wf] by (simp add: log_stableTo_def matchTerm_iff)
qed

lemma advance_log_settles:
  assumes wf: "log_wf l" and us: "rdy_Entries rd = filter (\<lambda>e. lg_stabled l < e_Index e) (lg_entries l)"
    and snap: "rdy_Snapshot rd = (case lg_pending_snapshot l of Some s \<Rightarrow> s | None \<Rightarrow> emptySnapshot)"
  shows "\<exists>s. advance_log rd (l\<lparr>lg_applied := lg_committed l\<rparr>)
      = l\<lparr>lg_applied := lg_committed l, lg_stabled := log_LastIndex l, lg_pending_snapshot := s\<rparr> \<and> IsEmptySnap s"
proof -
  let ?l1 = "l\<lparr>lg_applied := lg_committed l\<rparr>" let ?l2 = "l\<lparr>lg_applied := lg_committed l, lg_stabled := log_LastIndex l\<rparr>"
  have app: "lg_applied l \<le> lg_committed l" using wf by (simp add: log_wf_def)
  have "(if rdy_Entries rd \<noteq> []
      then let e = rdy_Entries rd ! (length (rdy_Entries rd) - 1) in log_stableTo ?l1 (e_Index e) (e_Term e) else ?l1) = ?l2"
    using last_unstable [OF wf us app le_refl] by (auto simp: Let_def)
  then have adv: "advance_log rd ?l1 = (if \<not> IsEmptySnap (Some (rdy_Snapshot rd))
      then log_stableSnapTo ?l2 (sm_Index (sn_Metadata (rdy_Snapshot rd))) else ?l2)"
    unfolding advance_log_def by (simp only: Let_def)
  show ?thesis
  proof (cases "lg_pending_snapshot l")
    case None
    then show ?thesis unfolding adv using snap
      by (intro exI [of _ None]) (simp add: IsEmptySnap_def emptySnapshot_def)
  next
    case (Some s)
    then show ?thesis unfolding adv using snap
      by (intro exI [of _ "if IsEmptySnap (Some s) then Some s else None"]) (auto simp: log_stableSnapTo_def IsEmptySnap_def)
  qed
qed

text \<open>C21. Taking a \<open>Ready\<close> and reporting it done with \<open>Advance\<close> always succeeds on a well-formed log and settles the node: the
  \<open>Ready\<close> holds exactly the unsaved entries, the committed entries that were not applied and all messages; afterwards all
  entries count as saved, everything committed as applied, the log holds the same entries, and \<open>HasReady\<close> says there is nothing more.\<close>

theorem ready_advance_settles:
  assumes wf: "log_wf (r_RaftLog (rn_Raft rn))" and prev: "hs_Commit (rn_prevHardSt rn) \<le> lg_committed (r_RaftLog (rn_Raft rn))"
  shows "\<exists>rd rn1 rn2. RawNode_Ready rn = Inr (rd, rn1) \<and> RawNode_Advance rd rn1 = Inr rn2
    \<and> rdy_Entries rd = filter (\<lambda>e. lg_stabled (r_RaftLog (rn_Raft rn)) < e_Index e) (lg_entries (r_RaftLog (rn_Raft rn)))
    \<and> rdy_CommittedEntries rd = filter (\<lambda>e. lg_applied (r_RaftLog (rn_Raft rn)) < e_Index e
        \<and> e_Index e \<le> lg_committed (r_RaftLog (rn_Raft rn))) (lg_entries (r_RaftLog (rn_Raft rn)))
    \<and> rdy_Messages rd = r_msgs (rn_Raft rn)
    \<and> lg_entries (r_RaftLog (rn_Raft rn2)) = lg_entries (r_RaftLog (rn_Raft rn))
    \<and> lg_stabled (r_RaftLog (rn_Raft rn2)) = log_LastIndex (r_RaftLog (rn_Raft rn))
    \<and> lg_applied (r_RaftLog (rn_Raft rn2)) = lg_committed (r_RaftLog (rn_Raft rn))
    \<and> lg_committed (r_RaftLog (rn_Raft rn2)) = lg_committed (r_RaftLog (rn_Raft rn))
    \<and> RawNode_HasReady rn2 = Inr False"
proof -
  let ?r = "rn_Raft rn" let ?l = "r_RaftLog ?r"
  have entries: "log_unstableEntries ?l = Inr (filter (\<lambda>e. lg_stabled ?l < e_Index e) (lg_entries ?l))"
    "log_nextEnts ?l = Inr (filter (\<lambda>e. lg_applied ?l < e_Index e \<and> e_Index e \<le> lg_committed ?l) (lg_entries ?l))"
    using unstable_exact [OF wf] next_exact [OF wf] by auto
  define rd where "rd = \<lparr>rdy_SoftState = (if SoftState_equal (softState ?r) (rn_prevSoftSt rn) then None else Some (softState ?r)),
    rdy_HardState = (if isHardStateEqual (hardState ?r) (rn_prevHardSt rn) then emptyHardState else hardState ?r),
    rdy_Entries = filter (\<lambda>e. lg_stabled ?l < e_Index e) (lg_entries ?l),
    rdy_Snapshot = (case lg_pending_snapshot ?l of Some s \<Rightarrow> s | None \<Rightarrow> emptySnapshot),
    rdy_CommittedEntries = filter (\<lambda>e. lg_applied ?l < e_Index e \<and> e_Index e \<le> lg_committed ?l) (lg_entries ?l),
    rdy_Messages = r_msgs ?r\<rparr>"
  have ready: "RawNode_Ready rn = Inr (rd, rn\<lparr>rn_Raft := ?r\<lparr>r_msgs := []\<rparr>\<rparr>)"
    unfolding RawNode_Ready_def newReady_def entries rd_def by simp
  have rd: "rdy_Entries rd = filter (\<lambda>e. lg_stabled ?l < e_Index e) (lg_entries ?l)"
    "rdy_CommittedEntries rd = filter (\<lambda>e. lg_applied ?l < e_Index e \<and> e_Index e \<le> lg_committed ?l) (lg_entries ?l)"
    "rdy_Snapshot rd = (case lg_pending_snapshot ?l of Some s \<Rightarrow> s | None \<Rightarrow> emptySnapshot)" "rdy_Messages rd = r_msgs ?r"
    "rdy_SoftState rd = (if SoftState_equal (softState ?r) (rn_prevSoftSt rn) then None else Some (softState ?r))"
    "rdy_HardState rd = (if isHardStateEqual (hardState ?r) (rn_prevHardSt rn) then emptyHardState else hardState ?r)"
    by (simp_all add: rd_def)
  define known where "known = save_ready rd (rn_prevHardSt rn)"
  have known: "hs_Commit known = lg_committed ?l" "IsEmptyHardState (hardState ?r) \<or> isHardStateEqual (hardState ?r) known"
    using prev unfolding known_def save_ready_def rd(6)
    by (auto simp: isHardStateEqual_def hardState_def IsEmptyHardState_def emptyHardState_def)
  have app: "lg_applied ?l \<le> lg_committed ?l" using wf by (simp add: log_wf_def)
  obtain s where s: "advance_log rd (?l\<lparr>lg_applied := lg_committed ?l\<rparr>)
      = ?l\<lparr>lg_applied := lg_committed ?l, lg_stabled := log_LastIndex ?l, lg_pending_snapshot := s\<rparr>" "IsEmptySnap s"
    using advance_log_settles [OF wf rd(1,3)] by blast
  define soft where "soft = (case rdy_SoftState rd of Some s \<Rightarrow> s | None \<Rightarrow> rn_prevSoftSt rn)"
  have soft: "SoftState_equal (softState ?r) soft" unfolding soft_def rd(5) by (simp add: SoftState_equal_def)
  define l2 where "l2 = ?l\<lparr>lg_applied := lg_committed ?l, lg_stabled := log_LastIndex ?l, lg_pending_snapshot := s\<rparr>"
  define rn2 where "rn2 = \<lparr>rn_Raft = ?r\<lparr>r_msgs := [], r_RaftLog := l2\<rparr>, rn_prevSoftSt = soft, rn_prevHardSt = known\<rparr>"
  have "(if lg_committed ?l \<noteq> 0 then log_appliedTo ?l (lg_committed ?l) else Inr ?l) = Inr (?l\<lparr>lg_applied := lg_committed ?l\<rparr>)"
    using app by (auto simp: log_appliedTo_def)
  then have adv: "RawNode_Advance rd (rn\<lparr>rn_Raft := ?r\<lparr>r_msgs := []\<rparr>\<rparr>) = Inr rn2"
    using known(1) s(1) by (simp add: advance_unfold known_def [symmetric] rn2_def l2_def soft_def Let_def split: option.split)
  have wf2: "log_unstableEntries l2 = Inr []" "\<not> log_hasNextEnts l2"
    using unstable_at_last [OF wf] by (simp_all add: l2_def log_hasNextEnts_def log_hasNextEntsSince_def Let_def)
  have "RawNode_HasReady rn2 = Inr False"
    using soft known(2) s(2) wf2 unfolding rn2_def RawNode_HasReady_def Let_def
    by (auto simp: RawNode_GetSnap_def raft_GetSnap_def softState_def hardState_def l2_def)
  then show ?thesis using ready rd adv
    by (intro exI [of _ rd] exI [of _ "rn\<lparr>rn_Raft := ?r\<lparr>r_msgs := []\<rparr>\<rparr>"] exI [of _ rn2]) (simp add: rn2_def l2_def)
qed

theorem ready_advance_settles_witness:
  "\<exists>rd rn1 rn2. RawNode_Ready demo_n1' = Inr (rd, rn1) \<and> RawNode_Advance rd rn1 = Inr rn2
     \<and> length (rdy_Entries rd) = 1 \<and> rdy_CommittedEntries rd = [] \<and> RawNode_HasReady rn2 = Inr False"
proof -
  let ?l = "r_RaftLog (rn_Raft demo_n1')"
  have l: "log_wf ?l" "hs_Commit (rn_prevHardSt demo_n1') \<le> lg_committed ?l" "length (filter (\<lambda>e. lg_stabled ?l < e_Index e) (lg_entries ?l)) = 1"
    "filter (\<lambda>e. lg_applied ?l < e_Index e \<and> e_Index e \<le> lg_committed ?l) (lg_entries ?l) = []"
    by (simp_all add: exec_demo log_wf_def)
  from ready_advance_settles [OF l(1,2)] obtain rd rn1 rn2 where
    "RawNode_Ready demo_n1' = Inr (rd, rn1)" "RawNode_Advance rd rn1 = Inr rn2" "RawNode_HasReady rn2 = Inr False"
    "rdy_Entries rd = filter (\<lambda>e. lg_stabled ?l < e_Index e) (lg_entries ?l)"
    "rdy_CommittedEntries rd = filter (\<lambda>e. lg_applied ?l < e_Index e \<and> e_Index e \<le> lg_committed ?l) (lg_entries ?l)"
    by blast
  with l(3,4) show ?thesis by auto
qed

section \<open>Two error paths\<close>

text \<open>A follower that is told to campaign after it installed a snapshot and before the application reported it applied
  (\<open>applied + 1\<close> still lies below the snapshot) ends the process: \<open>MsgHup\<close> asks for the entries between the applied
  and the commit index, and the log refuses them as compacted.\<close>

theorem campaign_before_snapshot_applied:
  assumes "log_wf (r_RaftLog r)" "r_State r \<noteq> StateLeader" "lg_applied (r_RaftLog r) + 1 < lg_snapIndex (r_RaftLog r)"
    "m_MsgType m = MsgHup" "m_Term m = 0"
  shows "\<exists>s. Step st m r = Inl (RFatal s)"
proof -
  have "lg_applied (r_RaftLog r) + 1 < log_firstIndex (r_RaftLog r)" "lg_applied (r_RaftLog r) \<le> lg_committed (r_RaftLog r)"
    using assms(1,3) first_index [OF assms(1)] by (auto simp: log_wf_def)
  then show ?thesis
    using assms(2,4,5) by (auto simp: Step_def step_term_def hup_def log_slice_def log_mustCheckOutOfBounds_def ok_def Let_def)
qed

definition demo_snapshot :: Message where
  "demo_snapshot = zeroMessage\<lparr>m_MsgType := MsgSnapshot, m_From := 1, m_To := 2, m_Term := 1,
     m_Snapshot := Some \<lparr>sn_Data = None, sn_Metadata = \<lparr>sm_ConfState = demo_conf, sm_Index = 5, sm_Term = 1\<rparr>\<rparr>\<rparr>"

theorem campaign_before_snapshot_applied_witness:
  "\<exists>rn s. RawNode_Step (demo_store emptyHardState) demo_snapshot (demo_node 2) = Inr (None, rn)
     \<and> Step (demo_store emptyHardState) (zeroMessage\<lparr>m_MsgType := MsgHup\<rparr>) (rn_Raft rn) = Inl (RFatal s)"
proof -
  obtain rn where rn: "RawNode_Step (demo_store emptyHardState) demo_snapshot (demo_node 2) = Inr (None, rn)"
    and l: "log_wf (r_RaftLog (rn_Raft rn))" "r_State (rn_Raft rn) \<noteq> StateLeader"
      "lg_applied (r_RaftLog (rn_Raft rn)) + 1 < lg_snapIndex (r_RaftLog (rn_Raft rn))"
    by (simp add: exec_demo demo_snapshot_def handleSnapshot_def restore_def log_restore_def setProgress_def log_wf_def)
  from campaign_before_snapshot_applied [OF l, of "zeroMessage\<lparr>m_MsgType := MsgHup\<rparr>"] rn show ?thesis
    by (auto simp: zeroMessage_def)
qed

text \<open>A follower that forwards a request to transfer the leadership names itself instead of the peer the request is for:
  \<open>send\<close> overwrites \<open>From\<close>, which is where the target of the transfer is carried. A request that arrives with a term,
  as every message of the network does, is not forwarded but panics.\<close>

theorem forwarded_transfer_names_follower:
  assumes "r_State r = StateFollower" "m_MsgType m = MsgTransferLeader" "r_Lead r \<noteq> NoNode" "m_Term m = 0 \<or> m_Term m = r_Term r"
  shows "Step st m r = (if m_Term m = 0
      then Inr (None, r\<lparr>r_msgs := r_msgs r @ [m\<lparr>m_To := r_Lead r, m_From := r_id r, m_Term := r_Term r\<rparr>]\<rparr>)
      else Inl (RPanic ''term should not be set when sending''))"
  using assms by (auto simp: Step_def step_term_def stepFollower_def send_def ok_def Let_def)

theorem forwarded_transfer_names_follower_witness:
  "\<exists>r'. Step (demo_store emptyHardState) (zeroMessage\<lparr>m_MsgType := MsgTransferLeader, m_From := 3\<rparr>) ((rn_Raft (demo_node 2))\<lparr>r_Lead := 1\<rparr>) = Inr (None, r')
     \<and> map m_From (r_msgs r') = [2]"
proof -
  let ?r = "(rn_Raft (demo_node 2))\<lparr>r_Lead := 1\<rparr>" let ?m = "zeroMessage\<lparr>m_MsgType := MsgTransferLeader, m_From := 3\<rparr>"
  have r: "r_State ?r = StateFollower" "m_MsgType ?m = MsgTransferLeader" "r_Lead ?r \<noteq> NoNode" "m_Term ?m = 0 \<or> m_Term ?m = r_Term ?r"
    "r_msgs ?r = []" "r_id ?r = 2" by (simp_all add: exec_demo)
  from forwarded_transfer_names_follower [OF r(1-4), of "demo_store emptyHardState"] r(5,6) show ?thesis by (simp add: zeroMessage_def)
qed

end
