(* ===== verification/Replica.thy ===== *)
theory Replica
  imports Replication_Safety Raft_Spec
begin

text \<open>
  What the log of a Raft peer and its storage stand for: the whole log from index 1, of which the peer keeps the part after the last
  compaction (\<open>reps\<close>) and the storage a part too (\<open>on_disk\<close>). The operations of \<open>log.go\<close> seen on whole logs, and what a message
  says about them (\<open>says\<close>).
\<close>

section \<open>A log in memory\<close>

definition reps :: "RaftLog \<Rightarrow> Entry list \<Rightarrow> bool" where
  "reps l L \<longleftrightarrow> log_wf l \<and> lg_snapIndex l \<le> length L \<and> lg_entries l = drop (lg_snapIndex l) L
     \<and> lg_snapTerm l = lterm L (lg_snapIndex l) \<and> contiguous 1 L"

lemma reps_wf: "reps l L \<Longrightarrow> log_wf l"
  by (simp add: reps_def)

lemma reps_last: "reps l L \<Longrightarrow> log_LastIndex l = length L"
  using last_index by (simp add: reps_def)

lemma reps_bounds:
  assumes "reps l L"
  shows "lg_snapIndex l \<le> lg_committed l" "lg_committed l \<le> length L" "lg_snapIndex l \<le> lg_stabled l" "lg_stabled l \<le> length L"
    "lg_offset l = lg_snapIndex l + 1" "length L < 2 ^ 64"
  using assms by (auto simp: reps_def log_wf_def)

lemma reps_entry: "reps l L \<Longrightarrow> log_entry l i = (if lg_snapIndex l < i \<and> i \<le> length L then Some (L ! (i - 1)) else None)"
  using reps_bounds [of l L] by (auto simp: log_entry_def reps_def)

lemma reps_term: "reps l L \<Longrightarrow> log_term l i = Inr t \<longleftrightarrow> lg_snapIndex l \<le> i \<and> i \<le> length L \<and> t = lterm L i"
  using reps_entry [of l L i] log_term_entry [of l i] by (auto simp: reps_def lterm_def split: if_splits)

lemma reps_match: "reps l L \<Longrightarrow> log_matchTerm l i t \<longleftrightarrow> lg_snapIndex l \<le> i \<and> i \<le> length L \<and> t = lterm L i"
  by (simp add: matchTerm_iff reps_term)

lemma reps_lastTerm: "reps l L \<Longrightarrow> log_lastTerm l = Inr t \<longleftrightarrow> t = lterm L (length L)"
  using reps_term [of l L "length L" "lterm L (length L)"] reps_bounds [of l L]
  by (auto simp: log_lastTerm_def reps_last split: sum.splits)

lemma repsI:
  assumes "log_wf l" "length L = log_LastIndex l" "\<And>i. lg_snapIndex l < i \<Longrightarrow> i \<le> length L \<Longrightarrow> log_entry l i = Some (L ! (i - 1))"
    "lg_snapTerm l = lterm L (lg_snapIndex l)" "contiguous 1 L"
  shows "reps l L"
proof -
  have len: "length L = lg_snapIndex l + length (lg_entries l)" using assms(1,2) last_index by simp
  have "lg_entries l = drop (lg_snapIndex l) L"
  proof (rule nth_equalityI)
    fix k assume k: "k < length (lg_entries l)"
    have off: "lg_offset l = lg_snapIndex l + 1" using assms(1) by (simp add: log_wf_def)
    have "log_entry l (lg_snapIndex l + 1 + k) = Some (lg_entries l ! k)" unfolding log_entry_def off using k by simp
    moreover have "log_entry l (lg_snapIndex l + 1 + k) = Some (L ! (lg_snapIndex l + k))"
      using assms(3) [of "lg_snapIndex l + 1 + k"] k len by simp
    moreover have "drop (lg_snapIndex l) L ! k = L ! (lg_snapIndex l + k)" using len by simp
    ultimately show "lg_entries l ! k = drop (lg_snapIndex l) L ! k" by simp
  qed (simp add: len)
  then show ?thesis unfolding reps_def using assms(1,4,5) len by (metis le_add1)
qed

text \<open>Only the log itself and its bounds matter.\<close>

lemma reps_cong:
  assumes "reps l L" "lg_entries l' = lg_entries l" "lg_snapIndex l' = lg_snapIndex l" "lg_snapTerm l' = lg_snapTerm l" "log_wf l'"
  shows "reps l' L"
  using assms by (simp add: reps_def)

lemma reps_commitTo:
  assumes "reps l L" "log_commitTo l c = Inr l'"
  shows "reps l' L" "l' = l\<lparr>lg_committed := max (lg_committed l) c\<rparr>" "c \<le> lg_committed l \<or> c \<le> length L"
proof -
  show l': "l' = l\<lparr>lg_committed := max (lg_committed l) c\<rparr>" using assms(2) by (auto simp: log_commitTo_def max_def split: if_splits)
  show "reps l' L" using reps_cong [OF assms(1)] commitTo_wf [OF reps_wf [OF assms(1)] assms(2)] l' by simp
  show "c \<le> lg_committed l \<or> c \<le> length L" using assms reps_last [OF assms(1)] by (auto simp: log_commitTo_def split: if_splits)
qed

lemma reps_append:
  assumes r: "reps l L" and st: "storage_behind st l" and ents: "contiguous a ents" "ents \<noteq> []"
    and a: "lg_committed l < a" "a \<le> length L + 1" "a + length ents \<le> 2 ^ 64" and app: "log_append st l ents = Inr (n, l')"
  shows "reps l' (take (a - 1) L @ ents)" "n = a + length ents - 1" "lg_committed l' = lg_committed l" "lg_applied l' = lg_applied l"
    "lg_stabled l' = min (lg_stabled l) (a - 1)" "lg_pending_snapshot l' = lg_pending_snapshot l" "lg_snapIndex l \<le> lg_snapIndex l'"
    "lg_snapIndex l' \<le> lg_committed l"
proof -
  note eff = append_effect [OF reps_wf [OF r] st ents a(1) _ a(3), unfolded reps_last [OF r], OF a(2)]
  then have l': "log_wf l'" "spliced l a ents l'" and parts: "n = a + length ents - 1" "lg_committed l' = lg_committed l"
    "lg_applied l' = lg_applied l" "lg_stabled l' = min (lg_stabled l) (a - 1)" "lg_pending_snapshot l' = lg_pending_snapshot l"
    using app by auto
  show "n = a + length ents - 1" "lg_committed l' = lg_committed l" "lg_applied l' = lg_applied l"
    "lg_stabled l' = min (lg_stabled l) (a - 1)" "lg_pending_snapshot l' = lg_pending_snapshot l" by fact+
  have sp: "lg_snapIndex l \<le> lg_snapIndex l'" "lg_snapIndex l' \<le> lg_committed l" "log_LastIndex l' = a + length ents - 1"
    "\<And>i. lg_snapIndex l' < i \<Longrightarrow> log_entry l' i = (if i < a then log_entry l i else if i < a + length ents then Some (ents ! (i - a)) else None)"
    "\<And>i. lg_snapIndex l' \<le> i \<Longrightarrow> i < a \<Longrightarrow> log_term l' i = log_term l i"
    using l'(2) by (auto simp: spliced_def)
  then show "lg_snapIndex l \<le> lg_snapIndex l'" "lg_snapIndex l' \<le> lg_committed l" by blast+
  let ?L = "take (a - 1) L @ ents"
  have a1: "length (take (a - 1) L) = a - 1" "0 < a" using a by auto
  show "reps l' ?L"
  proof (rule repsI [OF l'(1)])
    show "length ?L = log_LastIndex l'" using sp(3) a1 by simp
    show "contiguous 1 ?L" using r ents(1) a1 contiguous_take [of 1 L "a - 1"] by (simp add: reps_def)
    fix i assume i: "lg_snapIndex l' < i" "i \<le> length ?L"
    show "log_entry l' i = Some (?L ! (i - 1))"
      using sp(4) [OF i(1)] i a1 a(2) sp(1) reps_entry [OF r, of i] by (auto simp: nth_append)
  next
    have "log_term l' (lg_snapIndex l') = Inr (lterm L (lg_snapIndex l'))"
      using sp(1,2) sp(5) [of "lg_snapIndex l'"] a(1) reps_bounds(2) [OF r] reps_term [OF r] by simp
    then have "lg_snapTerm l' = lterm L (lg_snapIndex l')" by (simp add: log_term_def)
    also have "\<dots> = lterm ?L (lg_snapIndex l')" using sp(2) a a1 by (auto simp: lterm_def nth_append)
    finally show "lg_snapTerm l' = lterm ?L (lg_snapIndex l')" .
  qed
qed

section \<open>A log in storage\<close>

definition on_disk :: "MemoryStorage \<Rightarrow> Entry list \<Rightarrow> bool" where
  "on_disk ms S \<longleftrightarrow> ms_wf ms \<and> contiguous 1 S \<and> ms_saved ms = drop (ms_base ms) S \<and> ms_base_term ms = lterm S (ms_base ms)
     \<and> ms_base ms \<le> hs_Commit (ms_hardState ms) \<and> hs_Commit (ms_hardState ms) \<le> length S
     \<and> sm_Index (sn_Metadata (ms_snapshot ms)) \<le> hs_Commit (ms_hardState ms)
     \<and> (sm_Index (sn_Metadata (ms_snapshot ms)) \<noteq> 0 \<longrightarrow>
          sm_Term (sn_Metadata (ms_snapshot ms)) = lterm S (sm_Index (sn_Metadata (ms_snapshot ms))))"

text \<open>
  How the log in memory and the one in storage go together: they agree up to \<open>stabled\<close>, and where a snapshot is pending, memory starts
  from it and storage has committed less.
\<close>

definition aligned :: "MemoryStorage \<Rightarrow> Entry list \<Rightarrow> RaftLog \<Rightarrow> Entry list \<Rightarrow> bool" where
  "aligned ms S l L \<longleftrightarrow> hs_Commit (ms_hardState ms) \<le> lg_committed l \<and> lg_applied l \<le> hs_Commit (ms_hardState ms)
     \<and> (case lg_pending_snapshot l of
          None \<Rightarrow> hs_Commit (ms_hardState ms) \<le> lg_stabled l \<and> lg_stabled l \<le> length S \<and> take (lg_stabled l) S = take (lg_stabled l) L
            \<and> (lg_stabled l = length L \<longrightarrow> S = L)
        | Some s \<Rightarrow> hs_Commit (ms_hardState ms) < sm_Index (sn_Metadata s) \<and> sm_Index (sn_Metadata s) = lg_stabled l
            \<and> lg_stabled l \<le> lg_snapIndex l \<and> sm_Term (sn_Metadata s) = lterm L (lg_stabled l))"

lemma disk_bounds:
  assumes "on_disk ms S"
  shows "ms_base ms \<le> length S" "length S = ms_base ms + length (ms_saved ms)"
  using assms by (auto simp: on_disk_def)

lemma aligned_behind:
  assumes d: "on_disk ms S" and r: "reps l L" and al: "aligned ms S l L"
  shows "storage_behind (MemoryStorage_view ms) l"
proof (rule memory.behind)
  show "ms_wf ms" using d by (simp add: on_disk_def)
  have b: "ms_base ms \<le> hs_Commit (ms_hardState ms)" using d by (simp add: on_disk_def)
  show "ms_base ms \<le> lg_committed l" using b al by (simp add: aligned_def)
  show st: "ms_base ms \<le> lg_stabled l" using b al by (auto simp: aligned_def split: option.splits)
  assume s: "lg_snapIndex l \<le> ms_base ms"
  show "log_term l (ms_base ms) = Inr (ms_base_term ms)"
  proof (cases "lg_pending_snapshot l")
    case None
    then have eq: "take (lg_stabled l) S = take (lg_stabled l) L" "lg_stabled l \<le> length S" using al by (simp_all add: aligned_def)
    have "lterm S (ms_base ms) = lterm L (ms_base ms)" by (rule lterm_eqI [OF eq(1,2) reps_bounds(4) [OF r] st])
    then show ?thesis using d s st reps_bounds(4) [OF r] by (simp add: reps_term [OF r] on_disk_def)
  next
    case (Some sn)
    then show ?thesis using al b s by (simp add: aligned_def)
  qed
qed

text \<open>Memory changes above what is committed only.\<close>

lemma aligned_append:
  assumes al: "aligned ms S l L" and r: "reps l L" and a: "lg_committed l < a" "a \<le> length L + 1" "ents \<noteq> []"
    and l': "lg_committed l' = lg_committed l" "lg_applied l' = lg_applied l" "lg_stabled l' = min (lg_stabled l) (a - 1)"
      "lg_pending_snapshot l' = lg_pending_snapshot l" "lg_snapIndex l \<le> lg_snapIndex l'"
  shows "aligned ms S l' (take (a - 1) L @ ents)"
proof (cases "lg_pending_snapshot l")
  case None
  then have h: "hs_Commit (ms_hardState ms) \<le> lg_stabled l" "lg_stabled l \<le> length S" "take (lg_stabled l) S = take (lg_stabled l) L"
    "hs_Commit (ms_hardState ms) \<le> lg_committed l" "lg_applied l \<le> hs_Commit (ms_hardState ms)"
    using al by (simp_all add: aligned_def)
  let ?k = "min (lg_stabled l) (a - 1)"
  have "take ?k S = take ?k L" using take_eq_mono [OF h(3)] by simp
  also have "\<dots> = take ?k (take (a - 1) L @ ents)" using a reps_bounds(4) [OF r] by (simp add: min_def)
  finally have "take ?k S = take ?k (take (a - 1) L @ ents)" .
  moreover have "?k \<noteq> length (take (a - 1) L @ ents)" 
  proof -
    have "length (take (a - 1) L @ ents) = a - 1 + length ents" "0 < length ents" using a by simp_all
    then show ?thesis by linarith
  qed
  ultimately show ?thesis using None h a l' by (auto simp: aligned_def)
next
  case (Some s)
  have "lg_stabled l \<le> lg_committed l" using al reps_bounds(1) [OF r] Some by (simp add: aligned_def)
  then have k: "lg_stabled l' = lg_stabled l" "lg_stabled l \<le> a - 1" using l'(3) a(1) by auto
  then have "lterm (take (a - 1) L @ ents) (lg_stabled l) = lterm L (lg_stabled l)" using a by (auto simp: lterm_def nth_append)
  then show ?thesis using al Some l' k(1) by (auto simp: aligned_def)
qed

lemma aligned_commit: "aligned ms S l L \<Longrightarrow> lg_committed l \<le> c \<Longrightarrow> aligned ms S (l\<lparr>lg_committed := c\<rparr>) L"
  by (auto simp: aligned_def split: option.splits)

section \<open>Reading the log\<close>

lemma reps_Entries:
  assumes r: "reps l L" and t: "log_term l (usub n 1) = Inr t" and e: "log_Entries l n = Inr (Inr es)"
  shows "1 \<le> n" "n - 1 \<le> length L" "t = lterm L (n - 1)" "es = drop (n - 1) L"
proof -
  note b = reps_bounds [OF r]
  have fi: "log_firstIndex l = (if lg_entries l = [] then lg_snapIndex l else lg_snapIndex l + 1)" by (rule first_index [OF reps_wf [OF r]])
  have le: "log_firstIndex l \<le> n" using e by (auto simp: log_Entries_def split: if_splits)
  have ents: "lg_entries l = drop (lg_snapIndex l) L" "lg_snapIndex l \<le> length L" using r by (simp_all add: reps_def)
  show n1: "1 \<le> n"
  proof (rule ccontr)
    assume "\<not> 1 \<le> n"
    then have n: "n = 0" by simp
    then have "lg_entries l = []" "lg_snapIndex l = 0" using le fi by (auto split: if_splits)
    then have "length L = 0" using ents by simp
    then show False using t n reps_term [OF r, of "usub 0 1" t] by (simp add: usub_def)
  qed
  have u: "usub n 1 = n - 1" using n1 by simp
  show k: "n - 1 \<le> length L" "t = lterm L (n - 1)" using t reps_term [OF r] unfolding u by blast+
  show "es = drop (n - 1) L"
  proof (cases "n > length L")
    case True
    then have "n - 1 = length L" using k(1) by simp
    then show ?thesis using e le True by (simp add: log_Entries_def reps_last [OF r])
  next
    case False
    then have sl: "slice_from (lg_entries l) (usub n (lg_offset l)) = Inr es"
      using e le by (auto simp: log_Entries_def reps_last [OF r] bindR_Inr_iff)
    show ?thesis
    proof (cases "lg_entries l = []")
      case True
      then have "n = lg_snapIndex l" using False le fi ents by simp
      then show ?thesis using sl True b(5) by (simp add: usub_def slice_from_def slice_range_def)
    next
      case ne: False
      then have u: "usub n (lg_offset l) = n - 1 - lg_snapIndex l" "n - 1 - lg_snapIndex l + lg_snapIndex l = n - 1" using le fi b(5) by auto
      have "es = drop (n - 1 - lg_snapIndex l) (drop (lg_snapIndex l) L)"
        using sl unfolding u(1) ents(1) by (auto simp: slice_from_def slice_range_def split: if_splits)
      then show ?thesis unfolding drop_drop u(2) .
    qed
  qed
qed

lemma aligned_snapshot:
  assumes d: "on_disk ms S" and r: "reps l L" and al: "aligned ms S l L" and s: "log_snapshot (MemoryStorage_view ms) l = Inr s"
    and ne: "\<not> IsEmptySnap (Some s)"
  shows "sm_Index (sn_Metadata s) \<le> lg_committed l" "sm_Term (sn_Metadata s) = lterm L (sm_Index (sn_Metadata s))"
proof -
  let ?n = "sm_Index (sn_Metadata s)"
  have "?n \<le> lg_committed l \<and> sm_Term (sn_Metadata s) = lterm L ?n"
  proof (cases "lg_pending_snapshot l")
    case None
    then have sn: "s = ms_snapshot ms" using s by (simp add: log_snapshot_def MemoryStorage_view_def MemoryStorage_Snapshot_def)
    have h: "?n \<le> hs_Commit (ms_hardState ms)" "sm_Term (sn_Metadata s) = lterm S ?n" using d ne by (auto simp: sn on_disk_def IsEmptySnap_def)
    have a: "hs_Commit (ms_hardState ms) \<le> lg_committed l" "hs_Commit (ms_hardState ms) \<le> lg_stabled l" "lg_stabled l \<le> length S"
      "take (lg_stabled l) S = take (lg_stabled l) L" using al None by (simp_all add: aligned_def)
    have "lterm S ?n = lterm L ?n" using lterm_eqI [OF a(4,3) reps_bounds(4) [OF r]] h(1) a(2) by simp
    then show ?thesis using h a(1) by simp
  next
    case (Some x)
    then have "x = s" using s by (simp add: log_snapshot_def)
    then show ?thesis using Some al reps_bounds(1) [OF r] by (simp add: aligned_def)
  qed
  then show "?n \<le> lg_committed l" "sm_Term (sn_Metadata s) = lterm L ?n" by blast+
qed

text \<open>\<open>maybeAppend\<close> on whole logs.\<close>

lemma reps_maybeAppend:
  assumes r: "reps l L" and d: "on_disk ms S" and al: "aligned ms S l L" and es: "contiguous (k + 1) es" and room: "length L + length es < 2 ^ 63"
    and ma: "log_maybeAppend (MemoryStorage_view ms) l k t c es = Inr (res, l')"
  obtains (no) "res = None" "l' = l"
  | (keep) "res = Some (k + length es)" "k + length es \<le> length L" "t = lterm L k" "\<forall>j<length es. e_Term (L ! (k + j)) = e_Term (es ! j)"
      "reps l' L" "aligned ms S l' L" "lg_committed l' = max (lg_committed l) (min c (k + length es))"
  | (splice) n where "res = Some (k + length es)" "t = lterm L k" "n < length es" "k + n \<le> length L" "\<forall>j<n. e_Term (L ! (k + j)) = e_Term (es ! j)"
      "k + n = length L \<or> e_Term (L ! (k + n)) \<noteq> e_Term (es ! n)" "lg_committed l \<le> k + n" "reps l' (take (k + n) L @ drop n es)"
      "aligned ms S l' (take (k + n) L @ drop n es)" "lg_committed l' = max (lg_committed l) (min c (k + length es))"
proof (cases "log_matchTerm l k t")
  case False
  then show ?thesis using ma no by (simp add: log_maybeAppend_def)
next
  case True
  let ?st = "MemoryStorage_view ms"
  have k: "lg_snapIndex l \<le> k" "k \<le> length L" "t = lterm L k" using True reps_match [OF r] by blast+
  have at_term: "log_matchTerm l (Suc k + j) x \<longleftrightarrow> Suc k + j \<le> length L \<and> x = e_Term (L ! (k + j))" for j x
    using reps_match [OF r, of "Suc k + j" x] k by (simp add: lterm_def)
  have es1: "contiguous (Suc k) es" using es by simp
  show ?thesis
  proof (cases rule: find_conflict_cases [OF es1, of l, case_names none at])
    case none
    then have c2: "log_commitTo l (min c (k + length es)) = Inr l'" "res = Some (k + length es)"
      using ma True by (auto simp: log_maybeAppend_def Let_def bindR_Inr_iff)
    note ct = reps_commitTo [OF r c2(1)]
    have all: "Suc k + j \<le> length L" "e_Term (L ! (k + j)) = e_Term (es ! j)" if "j < length es" for j using none(2) that at_term by auto
    have "k + length es \<le> length L" using all(1) [of "length es - 1"] k(2) by (cases "es = []") auto
    then show ?thesis using keep [OF c2(2) _ k(3) _ ct(1)] all(2) aligned_commit [OF al, of "max (lg_committed l) (min c (k + length es))"] ct(2) by simp
  next
    case (at n)
    have cl: "lg_committed l < Suc k + n" using ma True at(2) by (auto simp: log_maybeAppend_def Let_def split: if_splits)
    then obtain l1 x where l1: "log_append ?st l (drop n es) = Inr (x, l1)" "log_commitTo l1 (min c (k + length es)) = Inr l'" "res = Some (k + length es)"
      using ma True at(1,2) by (auto simp: log_maybeAppend_def Let_def bindR_Inr_iff)
    have pre: "Suc k + j \<le> length L" "e_Term (L ! (k + j)) = e_Term (es ! j)" if "j < n" for j using at(3) that at_term by auto
    have kn: "k + n \<le> length L" using pre(1) [of "n - 1"] k(2) by (cases n) auto
    have ne: "drop n es \<noteq> []" using at(1) by simp
    have ct: "contiguous (Suc k + n) (drop n es)" using contiguous_drop [OF es1, of n] at(1) by simp
    have b: "Suc k + n \<le> length L + 1" "Suc k + n + length (drop n es) \<le> 2 ^ 64" using kn at(1) room k(2) by simp_all
    note ap = reps_append [OF r aligned_behind [OF d r al] ct ne cl b l1(1)]
    note al1 = aligned_append [OF al r cl b(1) ne ap(3-7)]
    have L': "take (Suc k + n - 1) L @ drop n es = take (k + n) L @ drop n es" by simp
    note cm = reps_commitTo [OF ap(1) l1(2)]
    have "k + n = length L \<or> e_Term (L ! (k + n)) \<noteq> e_Term (es ! n)" using at(4) at_term [of n] kn by auto
    moreover have "aligned ms S l' (take (k + n) L @ drop n es)"
      using aligned_commit [OF al1, of "max (lg_committed l1) (min c (k + length es))"] cm(2) unfolding L' by simp
    ultimately show ?thesis using splice [OF l1(3) k(3) at(1) kn] pre(2) cl cm(1,2) ap(3) unfolding L' by simp
  qed
qed

section \<open>What a message says\<close>

definition says :: "Message \<Rightarrow> lmsg set \<Rightarrow> bool" where
  "says m lo \<longleftrightarrow> (case m_MsgType m of
     MsgRequestVote \<Rightarrow> (\<exists>L. Claim (m_From m) (m_Term m) L \<in> lo \<and> length L = m_Index m \<and> lterm L (length L) = m_LogTerm m)
   | MsgAppend \<Rightarrow> App (m_From m) (m_Term m) (m_Index m) (m_LogTerm m) (m_Entries m) (m_Commit m) \<in> lo
       \<and> contiguous (m_Index m + 1) (m_Entries m)
   | MsgAppendResponse \<Rightarrow> m_Term m \<noteq> 0 \<and> (m_Reject m \<or> Ack (m_From m) (m_Term m) (m_Index m) \<in> lo)
   | MsgHeartbeat \<Rightarrow> Beat (m_From m) (m_To m) (m_Term m) (m_Commit m) \<in> lo
   | MsgSnapshot \<Rightarrow> (\<forall>s. m_Snapshot m = Some s \<longrightarrow> (\<exists>L. Snap (m_From m) (m_Term m) L \<in> lo \<and> length L = sm_Index (sn_Metadata s)
       \<and> lterm L (length L) = sm_Term (sn_Metadata s) \<and> contiguous 1 L))
   | _ \<Rightarrow> True)"

definition carried :: "Message set \<Rightarrow> lmsg set \<Rightarrow> bool" where
  "carried ms lo \<longleftrightarrow> (\<forall>m\<in>ms. says m lo)"

lemma says_mono: "says m lo \<Longrightarrow> lo \<subseteq> lo' \<Longrightarrow> says m lo'"
  by (cases "m_MsgType m") (fastforce simp: says_def)+

lemma carried_mono: "carried ms lo \<Longrightarrow> lo \<subseteq> lo' \<Longrightarrow> carried ms lo'"
  by (auto simp: carried_def intro: says_mono)

lemma carried_simps [simp]: "carried {} lo" "carried (insert m ms) lo \<longleftrightarrow> says m lo \<and> carried ms lo"
    "carried (A \<union> B) lo \<longleftrightarrow> carried A lo \<and> carried B lo"
  by (auto simp: carried_def)

end
