(* ===== verification/Replica_Step.thy ===== *)
theory Replica_Step
  imports Replica
begin

text \<open>
  The Raft peers implement the replication protocol: every call of \<open>Step\<close> and \<open>tick\<close> is a sequence of steps of the protocol, with the
  whole logs that the peer's log and storage stand for.
\<close>

section \<open>What is shown\<close>

definition shown :: "Raft \<Rightarrow> lpeer \<Rightarrow> lmsg set \<Rightarrow> lnode" where
  "shown r q lo = (abs_peer r, abs_msgs (set (r_msgs r)), q, lo)"

definition holds :: "MemoryStorage \<Rightarrow> Entry list \<Rightarrow> Raft \<Rightarrow> lpeer \<Rightarrow> bool" where
  "holds ms S r q \<longleftrightarrow> reps (r_RaftLog r) (lp_log q) \<and> lg_committed (r_RaftLog r) = lp_commit q \<and> aligned ms S (r_RaftLog r) (lp_log q)
     \<and> (r_State r = StateLeader \<longrightarrow> (\<forall>j pr. j \<noteq> r_id r \<and> getProgress r j = Some pr \<longrightarrow> pr_Match pr \<le> lp_match q j))"

definition follows :: "nat set \<Rightarrow> nat \<Rightarrow> emsg set \<Rightarrow> lmsg set \<Rightarrow> MemoryStorage \<Rightarrow> Entry list \<Rightarrow> Raft \<Rightarrow> Raft \<Rightarrow> bool" where
  "follows P i H M ms S r r' \<longleftrightarrow> peer_ok P i r' \<and> (\<forall>q lo. holds ms S r q \<and> carried (set (r_msgs r)) lo \<longrightarrow>
     (\<exists>q' lo'. lsteps P i H M (shown r q lo) (shown r' q' lo') \<and> holds ms S r' q' \<and> carried (set (r_msgs r')) lo'))"

lemma follows_refl [simp]: "peer_ok P i r \<Longrightarrow> follows P i H M ms S r r"
  unfolding follows_def by blast

lemma follows_trans [trans]:
  assumes "follows P i H M ms S r r1" "follows P i H M ms S r1 r2"
  shows "follows P i H M ms S r r2"
  unfolding follows_def
proof (intro conjI allI impI)
  show "peer_ok P i r2" using assms(2) by (simp add: follows_def)
  fix q lo assume "holds ms S r q \<and> carried (set (r_msgs r)) lo"
  then obtain q1 lo1 where 1: "lsteps P i H M (shown r q lo) (shown r1 q1 lo1)" "holds ms S r1 q1 \<and> carried (set (r_msgs r1)) lo1"
    using assms(1) unfolding follows_def by blast
  then obtain q2 lo2 where "lsteps P i H M (shown r1 q1 lo1) (shown r2 q2 lo2)" "holds ms S r2 q2 \<and> carried (set (r_msgs r2)) lo2"
    using assms(2) unfolding follows_def by blast
  with 1(1) show "\<exists>q' lo'. lsteps P i H M (shown r q lo) (shown r2 q' lo') \<and> holds ms S r2 q' \<and> carried (set (r_msgs r2)) lo'"
    by (meson rtranclp_trans)
qed

lemma follows_ok: "follows P i H M ms S r r' \<Longrightarrow> peer_ok P i r'"
  by (simp add: follows_def)

lemma quiet_shown: "quiet P r r' \<Longrightarrow> shown r' q lo = (abs_peer r, abs_msgs (set (r_msgs r)), q, lo)"
  using quiet_abs [of P r r'] by (simp add: shown_def abs_raft_def)

text \<open>What the election does not see: the steps are about the log alone.\<close>

lemma quiet_follows:
  assumes "peer_ok P i r" "quiet P r r'"
    and "\<And>q lo. holds ms S r q \<Longrightarrow> carried (set (r_msgs r)) lo \<Longrightarrow>
      \<exists>q' lo'. lsteps P i H M (shown r q lo) (abs_peer r, abs_msgs (set (r_msgs r)), q', lo') \<and> holds ms S r' q' \<and> carried (set (r_msgs r')) lo'"
  shows "follows P i H M ms S r r'"
  unfolding follows_def quiet_shown [OF assms(2)]
  using assms(3) implements_ok [OF quiet_implements [OF assms(1,2)]] by blast

lemma silent_follows:
  assumes "peer_ok P i r" "quiet P r r'" "r_msgs r' = r_msgs r" "\<And>q. holds ms S r q \<Longrightarrow> holds ms S r' q"
  shows "follows P i H M ms S r r'"
  using assms by (intro quiet_follows) (auto simp: shown_def)

lemma holds_simps [simp]:
  "holds ms S (r\<lparr>r_msgs := x\<rparr>) q = holds ms S r q" "holds ms S (r\<lparr>r_PendingConfIndex := n\<rparr>) q = holds ms S r q"
  "holds ms S (r\<lparr>r_leadTransferee := n\<rparr>) q = holds ms S r q" "holds ms S (r\<lparr>r_electionElapsed := y\<rparr>) q = holds ms S r q"
  "holds ms S (r\<lparr>r_heartbeatElapsed := y\<rparr>) q = holds ms S r q" "holds ms S (r\<lparr>r_Lead := n\<rparr>) q = holds ms S r q"
  "holds ms S (r\<lparr>r_Vote := n\<rparr>) q = holds ms S r q" "holds ms S (r\<lparr>r_votes := z\<rparr>) q = holds ms S r q"
  by (simp_all add: holds_def getProgress_def)

section \<open>Sending\<close>

lemma send_other:
  assumes "m_MsgType m \<noteq> MsgRequestVote" "m_MsgType m \<noteq> MsgRequestVoteResponse" "m_MsgType m \<noteq> MsgPropose" "send m r = Inr r'"
  shows "r' = r\<lparr>r_msgs := r_msgs r @ [m\<lparr>m_From := r_id r, m_Term := r_Term r\<rparr>]\<rparr>"
  using assms by (auto simp: send_def Let_def split: if_splits)

lemma send_follows:
  assumes ok: "peer_ok P i r" and q: "quiet P r r'" and s: "send m r = Inr r'"
    and ty: "m_MsgType m \<noteq> MsgRequestVote" "m_MsgType m \<noteq> MsgRequestVoteResponse" "m_MsgType m \<noteq> MsgPropose"
    and step: "\<And>q lo. holds ms S r q \<Longrightarrow>
      \<exists>lo'. lo \<subseteq> lo' \<and> lsteps P i H M (shown r q lo) (shown r q lo') \<and> says (m\<lparr>m_From := i, m_Term := r_Term r\<rparr>) lo'"
  shows "follows P i H M ms S r r'"
proof (rule quiet_follows [OF ok q])
  fix q lo assume h: "holds ms S r q" "carried (set (r_msgs r)) lo"
  have r': "r' = r\<lparr>r_msgs := r_msgs r @ [m\<lparr>m_From := i, m_Term := r_Term r\<rparr>]\<rparr>" using send_other [OF ty s] ok by (simp add: peer_ok_def)
  obtain lo' where "lo \<subseteq> lo'" "lsteps P i H M (shown r q lo) (shown r q lo')" "says (m\<lparr>m_From := i, m_Term := r_Term r\<rparr>) lo'"
    using step [OF h(1)] by blast
  then show "\<exists>q' lo'. lsteps P i H M (shown r q lo) (abs_peer r, abs_msgs (set (r_msgs r)), q', lo') \<and> holds ms S r' q' \<and> carried (set (r_msgs r')) lo'"
    using h carried_mono [OF h(2)] by (intro exI [of _ q] exI [of _ lo']) (simp add: r' shown_def)
qed

lemma sendAppend_follows:
  assumes ok: "peer_ok P i r" and st: "st_conf P (MemoryStorage_view ms)" and d: "on_disk ms S" and lead: "r_State r = StateLeader"
    and sa: "sendAppend (MemoryStorage_view ms) to r = Inr (b, r')"
  shows "follows P i H M ms S r r'"
proof -
  let ?l = "r_RaftLog r" and ?st = "MemoryStorage_view ms"
  note q = sendAppend_quiet [OF peer_ok_conf [OF ok] st lead sa]
  have role: "ep_role (abs_peer r) = StateLeader" "ep_term (abs_peer r) = r_Term r" using lead by (simp_all add: abs_peer_def)
  from sa obtain pr erre where pr: "mustProgress r to = Inr pr" "log_Entries ?l (pr_Next pr) = Inr erre"
    unfolding sendAppend_def by (auto simp: bindR_Inr_iff Let_def)
  show ?thesis
  proof (cases "\<exists>t es. log_term ?l (usub (pr_Next pr) 1) = Inr t \<and> erre = Inr es")
    case True
    then obtain t es where te: "log_term ?l (usub (pr_Next pr) 1) = Inr t" "erre = Inr es" by blast
    let ?m = "zeroMessage\<lparr>m_To := to, m_MsgType := MsgAppend, m_Index := usub (pr_Next pr) 1, m_LogTerm := t, m_Entries := es, m_Commit := lg_committed ?l\<rparr>"
    have s: "send ?m r = Inr r'" using sa pr te unfolding sendAppend_def by (auto simp: bindR_Inr_iff Let_def)
    show ?thesis
    proof (rule send_follows [OF ok q s])
      fix q lo assume h: "holds ms S r q"
      then have r: "reps ?l (lp_log q)" by (simp add: holds_def)
      let ?k = "pr_Next pr - 1"
      note e = reps_Entries [OF r te(1) pr(2) [unfolded te(2)]]
      let ?a = "App i (r_Term r) ?k t es (lg_committed ?l)"
      have "lstep P i H M (shown r q lo) (shown r q (insert ?a lo))"
        using lstep.replicate [of "abs_peer r" ?k q P i H M "abs_msgs (set (r_msgs r))" lo] e h role
        by (simp add: shown_def holds_def)
      moreover have "contiguous (?k + 1) es" using contiguous_drop [of 1 "lp_log q" ?k] r e by (simp add: reps_def)
      then have "says (?m\<lparr>m_From := i, m_Term := r_Term r\<rparr>) (insert ?a lo)" using e(1) by (simp add: says_def)
      ultimately show "\<exists>lo'. lo \<subseteq> lo' \<and> lsteps P i H M (shown r q lo) (shown r q lo') \<and> says (?m\<lparr>m_From := i, m_Term := r_Term r\<rparr>) lo'"
        by (intro exI [of _ "insert ?a lo"]) auto
    qed simp_all
  next
    case False
    let ?m = "\<lambda>s. zeroMessage\<lparr>m_To := to, m_MsgType := MsgSnapshot, m_Snapshot := Some s\<rparr>"
    have "r' = r \<or> (\<exists>s. log_snapshot ?st ?l = Inr s \<and> \<not> IsEmptySnap (Some s) \<and> send (?m s) r = Inr r')"
      using sa pr False unfolding sendAppend_def by (auto simp: bindR_Inr_iff Let_def split: sum.splits if_splits)
    then show ?thesis
    proof
      assume "\<exists>s. log_snapshot ?st ?l = Inr s \<and> \<not> IsEmptySnap (Some s) \<and> send (?m s) r = Inr r'"
      then obtain s where s: "log_snapshot ?st ?l = Inr s" "\<not> IsEmptySnap (Some s)" "send (?m s) r = Inr r'" by blast
      show ?thesis
      proof (rule send_follows [OF ok q s(3)])
        fix q lo assume h: "holds ms S r q"
        then have r: "reps ?l (lp_log q)" "aligned ms S ?l (lp_log q)" "lg_committed ?l = lp_commit q" by (simp_all add: holds_def)
        let ?n = "sm_Index (sn_Metadata s)"
        note sn = aligned_snapshot [OF d r(1,2) s(1,2)]
        let ?a = "Snap i (r_Term r) (take ?n (lp_log q))"
        have "lstep P i H M (shown r q lo) (shown r q (insert ?a lo))"
          using lstep.snap [of "abs_peer r" ?n q P i H M "abs_msgs (set (r_msgs r))" lo] sn(1) r(3) role by (simp add: shown_def)
        moreover have len: "?n \<le> length (lp_log q)" using sn(1) reps_bounds(2) [OF r(1)] by simp
        then have "says (?m s\<lparr>m_From := i, m_Term := r_Term r\<rparr>) (insert ?a lo)"
          using sn(2) contiguous_take [of 1 "lp_log q" ?n] r(1) by (auto simp: says_def reps_def min_def)
        ultimately show "\<exists>lo'. lo \<subseteq> lo' \<and> lsteps P i H M (shown r q lo) (shown r q lo') \<and> says (?m s\<lparr>m_From := i, m_Term := r_Term r\<rparr>) lo'"
          by (intro exI [of _ "insert ?a lo"]) auto
      qed simp_all
    qed (use ok in simp)
  qed
qed

lemma sendHeartbeat_follows:
  assumes ok: "peer_ok P i r" and lead: "r_State r = StateLeader" and to: "to \<noteq> i" and sh: "sendHeartbeat to r = Inr r'"
  shows "follows P i H M ms S r r'"
proof -
  obtain pr where pr: "getProgress r to = Some pr"
    and s: "send (zeroMessage\<lparr>m_To := to, m_MsgType := MsgHeartbeat, m_Commit := min (pr_Match pr) (lg_committed (r_RaftLog r))\<rparr>) r = Inr r'"
    (is "send ?m r = _")
    using sh by (auto simp: sendHeartbeat_def bindR_Inr_iff mustProgress_def Let_def split: option.splits)
  show ?thesis
  proof (rule send_follows [OF ok sendHeartbeat_quiet [OF peer_ok_conf [OF ok] lead sh] s])
    fix q lo assume h: "holds ms S r q"
    let ?c = "min (pr_Match pr) (lg_committed (r_RaftLog r))"
    let ?a = "Beat i to (r_Term r) ?c"
    have "pr_Match pr \<le> lp_match q to" "lg_committed (r_RaftLog r) = lp_commit q" using h lead pr to ok by (auto simp: holds_def peer_ok_def)
    then have "lstep P i H M (shown r q lo) (shown r q (insert ?a lo))"
      using lstep.beat [of "abs_peer r" ?c q to i P H M "abs_msgs (set (r_msgs r))" lo] lead to by (simp add: shown_def abs_peer_def)
    then show "\<exists>lo'. lo \<subseteq> lo' \<and> lsteps P i H M (shown r q lo) (shown r q lo') \<and> says (?m\<lparr>m_From := i, m_Term := r_Term r\<rparr>) lo'"
      by (intro exI [of _ "insert ?a lo"]) (auto simp: says_def)
  qed simp_all
qed

lemma sendTimeoutNow_follows:
  assumes ok: "peer_ok P i r" and s: "sendTimeoutNow to r = Inr r'"
  shows "follows P i H M ms S r r'"
proof (rule send_follows [OF ok sendTimeoutNow_quiet [OF peer_ok_conf [OF ok] s] s [unfolded sendTimeoutNow_def]])
  fix q lo
  show "\<exists>lo'. lo \<subseteq> lo' \<and> lsteps P i H M (shown r q lo) (shown r q lo')
      \<and> says (zeroMessage\<lparr>m_To := to, m_MsgType := MsgTimeoutNow\<rparr>\<lparr>m_From := i, m_Term := r_Term r\<rparr>) lo'"
    by (intro exI [of _ lo]) (auto simp: says_def)
qed simp_all

lemma for_each_other_follows:
  assumes "for_each_other ids f r = Inr r'" "peer_ok P i r" "r_State r = StateLeader"
    and "\<And>nid r r'. peer_ok P i r \<Longrightarrow> r_State r = StateLeader \<Longrightarrow> nid \<noteq> i \<Longrightarrow> f nid r = Inr r' \<Longrightarrow>
      follows P i H M ms S r r' \<and> r_State r' = StateLeader"
  shows "follows P i H M ms S r r'"
  using assms(1-3)
proof (induction ids arbitrary: r)
  case (Cons nid ids)
  show ?case
  proof (cases "nid = r_id r")
    case False
    then have nid: "nid \<noteq> i" using Cons.prems(2) by (simp add: peer_ok_def)
    from False Cons.prems(1) obtain r1 where r1: "f nid r = Inr r1" "for_each_other ids f r1 = Inr r'" by (auto simp: bindR_Inr_iff)
    note f = assms(4) [OF Cons.prems(2,3) nid r1(1)]
    have "follows P i H M ms S r1 r'" using Cons.IH [OF r1(2) follows_ok] f by blast
    with f show ?thesis by (blast intro: follows_trans)
  qed (use Cons in simp)
qed simp

lemma bcastAppend_follows:
  assumes ok: "peer_ok P i r" and st: "st_conf P (MemoryStorage_view ms)" and d: "on_disk ms S" and lead: "r_State r = StateLeader"
    and b: "bcastAppend (MemoryStorage_view ms) r = Inr r'"
  shows "follows P i H M ms S r r'"
  using b unfolding bcastAppend_def
proof (rule for_each_other_follows [OF _ ok lead])
  fix nid r r' assume a: "peer_ok P i r" "r_State r = StateLeader" "bindR (sendAppend (MemoryStorage_view ms) nid r) (\<lambda>(_, r1). Inr r1) = Inr r'"
  then obtain c where "sendAppend (MemoryStorage_view ms) nid r = Inr (c, r')" by (auto simp: bindR_Inr_iff)
  then show "follows P i H M ms S r r' \<and> r_State r' = StateLeader"
    using sendAppend_follows [OF a(1) st d a(2)] quiet_State [OF sendAppend_quiet [OF peer_ok_conf [OF a(1)] st a(2)]] a(2) by simp
qed

lemma bcastHeartbeat_follows:
  assumes ok: "peer_ok P i r" and lead: "r_State r = StateLeader" and b: "bcastHeartbeat r = Inr r'"
  shows "follows P i H M ms S r r'"
  using b unfolding bcastHeartbeat_def
proof (rule for_each_other_follows [OF _ ok lead])
  fix nid r r' assume a: "peer_ok P i r" "r_State r = StateLeader" "nid \<noteq> i" "sendHeartbeat nid r = Inr r'"
  then show "follows P i H M ms S r r' \<and> r_State r' = StateLeader"
    using sendHeartbeat_follows [OF a] quiet_State [OF sendHeartbeat_quiet [OF peer_ok_conf [OF a(1)] a(2,4)]] by simp
qed

section \<open>A leader commits and appends\<close>

lemma majority_match:
  assumes conf: "conf P r" and n: "quorum r \<le> replicated r n"
  shows "majority P {j. \<exists>pr. getProgress r j = Some pr \<and> n \<le> pr_Match pr}" (is "majority P ?Q")
proof -
  let ?F = "filter (\<lambda>(nid, pr). n \<le> pr_Match pr) (r_Prs r)"
  have d: "distinct (map fst (r_Prs r))" "set (map fst (r_Prs r)) = P" using conf by (simp_all add: conf_def members_def)
  have "?Q = fst ` set ?F"
    using d(1) by (force simp: getProgress_def map_of_eq_Some_iff image_iff)
  moreover have "distinct (map fst ?F)" using d(1) by (simp add: distinct_map_filter)
  ultimately have "card ?Q = replicated r n" using distinct_card [of "map fst ?F"] by (simp add: replicated_def)
  moreover have "?Q \<subseteq> P" using d(2) by (force simp: getProgress_def dest: map_of_SomeD)
  ultimately show ?thesis using n quorum_conf [OF conf] by (simp add: majority_def)
qed

lemma maybeCommit_parts:
  assumes "maybeCommit r = Inr (b, r')"
  obtains "r' = r"
  | n where "quorum r \<le> replicated r n" "log_matchTerm (r_RaftLog r) n (r_Term r)" "lg_committed (r_RaftLog r) < n"
      "r' = r\<lparr>r_RaftLog := (r_RaftLog r)\<lparr>lg_committed := n\<rparr>\<rparr>"
proof -
  let ?xs = "sort (map (pr_Match \<circ> snd) (r_Prs r))"
  let ?i = "int (length ?xs) - int (quorum r)"
  have i: "0 \<le> ?i" "nat ?i < length ?xs" "nat ?i = length ?xs - quorum r"
    using assms by (auto simp: maybeCommit_def Let_def split: if_splits)
  have q: "0 < quorum r" "quorum r \<le> length ?xs" using i(1) by (simp_all add: quorum_def)
  let ?n = "?xs ! (length ?xs - quorum r)"
  have "quorum r \<le> length (filter (\<lambda>x. ?n \<le> x) ?xs)" using sorted_quorum [OF sorted_sort q, of ?n] by blast
  then have rep: "quorum r \<le> replicated r ?n" unfolding length_filter_sort
    by (simp add: replicated_def filter_map o_def) (simp add: case_prod_beta')
  obtain l where l: "log_maybeCommit (r_RaftLog r) ?n (r_Term r) = Inr (b, l)" "r' = r\<lparr>r_RaftLog := l\<rparr>"
    using assms i by (auto simp: maybeCommit_def Let_def bindR_Inr_iff)
  show ?thesis
  proof (cases "l = r_RaftLog r")
    case True
    then show ?thesis using l(2) that(1) by simp
  next
    case False
    then have "log_matchTerm (r_RaftLog r) ?n (r_Term r)" "lg_committed (r_RaftLog r) < ?n" "l = (r_RaftLog r)\<lparr>lg_committed := ?n\<rparr>"
      using l(1) by (auto simp: log_maybeCommit_def log_commitTo_def bindR_Inr_iff split: if_splits)
    then show ?thesis using that(2) rep l(2) by blast
  qed
qed

lemma maybeCommit_follows:
  assumes ok: "peer_ok P i r" and lead: "r_State r = StateLeader" and c: "maybeCommit r = Inr (b, r')"
  shows "follows P i H M ms S r r'"
  using c
proof (cases rule: maybeCommit_parts)
  case (2 n)
  show ?thesis
  proof (rule quiet_follows [OF ok maybeCommit_quiet [OF peer_ok_conf [OF ok] c]])
    fix q lo assume h: "holds ms S r q" "carried (set (r_msgs r)) lo"
    let ?q = "q\<lparr>lp_commit := max (lp_commit q) n\<rparr>" and ?Q = "{j. \<exists>pr. getProgress r j = Some pr \<and> n \<le> pr_Match pr}"
    have r: "reps (r_RaftLog r) (lp_log q)" "lg_committed (r_RaftLog r) = lp_commit q" using h by (simp_all add: holds_def)
    have n: "n \<le> length (lp_log q)" "lterm (lp_log q) n = r_Term r" using 2(2) reps_match [OF r(1)] by auto
    have "\<forall>j\<in>?Q. j = i \<or> n \<le> lp_match q j" using h(1) lead ok by (fastforce simp: holds_def peer_ok_def)
    moreover have p: "ep_role (abs_peer r) = StateLeader" "lterm (lp_log q) n = ep_term (abs_peer r)" "0 < n"
      using lead n(2) 2(3) by (simp_all add: abs_peer_def)
    ultimately have "lstep P i H M (shown r q lo) (abs_peer r, abs_msgs (set (r_msgs r)), ?q, lo)"
      unfolding shown_def by (intro lstep.commit [OF p(1,3) n(1) p(2) majority_match [OF peer_ok_conf [OF ok] 2(1)]])
    moreover have "holds ms S r' ?q"
    proof -
      have "log_commitTo (r_RaftLog r) n = Inr ((r_RaftLog r)\<lparr>lg_committed := n\<rparr>)" using 2(3) n(1) reps_last [OF r(1)] by (simp add: log_commitTo_def)
      from reps_commitTo(1) [OF r(1) this] show ?thesis
        using h(1) 2(3,4) aligned_commit [of ms S "r_RaftLog r" "lp_log q" n] by (simp add: holds_def getProgress_def max_def)
    qed
    ultimately show "\<exists>q' lo'. lsteps P i H M (shown r q lo) (abs_peer r, abs_msgs (set (r_msgs r)), q', lo') \<and> holds ms S r' q' \<and> carried (set (r_msgs r')) lo'"
      using h(2) 2(4) by (intro exI [of _ ?q] exI [of _ lo]) auto
  qed
qed (use ok in simp)

lemma getProgress_put [simp]: "getProgress (putProgress r nid pr) j = (if j = nid then Some pr else getProgress r j)"
  by (simp add: getProgress_def putProgress_def update_conv)

lemma putProgress_fields [simp]:
  "r_RaftLog (putProgress r nid pr) = r_RaftLog r" "r_State (putProgress r nid pr) = r_State r" "r_id (putProgress r nid pr) = r_id r"
  "r_msgs (putProgress r nid pr) = r_msgs r" "r_Term (putProgress r nid pr) = r_Term r"
  by (simp_all add: putProgress_def)

text \<open>The progress of another peer never shows more than that peer has acknowledged.\<close>

lemma putProgress_follows:
  assumes ok: "peer_ok P i r" and nid: "nid \<in> P"
    and m: "nid = i \<or> (\<exists>pr0. getProgress r nid = Some pr0 \<and> pr_Match pr \<le> pr_Match pr0)"
  shows "follows P i H M ms S r (putProgress r nid pr)"
proof (rule silent_follows [OF ok putProgress_quiet [OF peer_ok_conf [OF ok] nid]])
  fix q assume "holds ms S r q"
  then show "holds ms S (putProgress r nid pr) q" using m ok by (auto simp: holds_def peer_ok_def intro: le_trans)
qed simp

lemma learn_follows:
  assumes ok: "peer_ok P i r" and nid: "getProgress r nid = Some pr0" and lead: "r_State r = StateLeader"
    and m: "pr_Match pr = max (pr_Match pr0) n" and ack: "Ack nid (r_Term r) n \<in> M"
  shows "follows P i H M ms S r (putProgress r nid pr)"
proof (rule quiet_follows [OF ok putProgress_quiet [OF peer_ok_conf [OF ok] progress_member [OF peer_ok_conf [OF ok] nid]]])
  fix q lo assume h: "holds ms S r q" "carried (set (r_msgs r)) lo"
  let ?q = "q\<lparr>lp_match := (lp_match q)(nid := max (lp_match q nid) n)\<rparr>"
  have "lstep P i H M (shown r q lo) (abs_peer r, abs_msgs (set (r_msgs r)), ?q, lo)"
    using lstep.learn [of "abs_peer r" nid n M P i H "abs_msgs (set (r_msgs r))" q lo] lead ack by (simp add: shown_def abs_peer_def)
  moreover have "holds ms S (putProgress r nid pr) ?q"
  proof -
    have "nid = r_id r \<or> pr_Match pr0 \<le> lp_match q nid" using h(1) nid lead by (auto simp: holds_def)
    then show ?thesis using h(1) m by (auto simp: holds_def)
  qed
  ultimately show "\<exists>q' lo'. lsteps P i H M (shown r q lo) (abs_peer r, abs_msgs (set (r_msgs r)), q', lo')
      \<and> holds ms S (putProgress r nid pr) q' \<and> carried (set (r_msgs (putProgress r nid pr))) lo'"
    using h(2) by (intro exI [of _ ?q] exI [of _ lo]) auto
qed

lemma number_entries_props:
  "length (number_entries t li es) = length es" "contiguous (li + 1) (number_entries t li es)" "\<forall>x\<in>set (number_entries t li es). e_Term x = t"
  by (auto simp: number_entries_def contiguous_def nth_enumerate_eq)

lemma append_log_follows:
  assumes ok: "peer_ok P i r" and d: "on_disk ms S" and lead: "r_State r = StateLeader" and es: "es \<noteq> []"
    and room: "log_LastIndex (r_RaftLog r) + length es < 2 ^ 63"
    and app: "log_append (MemoryStorage_view ms) (r_RaftLog r) (number_entries (r_Term r) (log_LastIndex (r_RaftLog r)) es) = Inr (n, l)"
  shows "follows P i H M ms S r (r\<lparr>r_RaftLog := l\<rparr>)"
proof (rule quiet_follows [OF ok log_quiet [OF peer_ok_conf [OF ok] append_pending [OF app]]])
  fix q lo assume h: "holds ms S r q" "carried (set (r_msgs r)) lo"
  let ?l = "r_RaftLog r" and ?L = "lp_log q" and ?es = "number_entries (r_Term r) (log_LastIndex (r_RaftLog r)) es"
  let ?q = "acked (r_Term r) (length (?L @ ?es)) (q\<lparr>lp_log := ?L @ ?es\<rparr>)"
  have r: "reps ?l ?L" "aligned ms S ?l ?L" using h by (simp_all add: holds_def)
  note last = reps_last [OF r(1)]
  note num = number_entries_props [where t = "r_Term r" and li = "log_LastIndex ?l" and es = es]
  have ne: "?es \<noteq> []" using num(1) es by (metis length_0_conv)
  have a: "lg_committed ?l < log_LastIndex ?l + 1" "log_LastIndex ?l + 1 \<le> length ?L + 1" "log_LastIndex ?l + 1 + length ?es \<le> 2 ^ 64"
    using reps_bounds(2) [OF r(1)] last room num(1) by auto
  note ap = reps_append [OF r(1) aligned_behind [OF d r] num(2) ne a app]
  have L': "take (log_LastIndex ?l + 1 - 1) ?L @ ?es = ?L @ ?es" using last by simp
  have "lstep P i H M (shown r q lo) (abs_peer r, abs_msgs (set (r_msgs r)), ?q, lo)"
    using lstep.append [of "abs_peer r" ?es P i H M "abs_msgs (set (r_msgs r))" q lo] num(3) lead by (simp add: shown_def abs_peer_def)
  moreover have "holds ms S (r\<lparr>r_RaftLog := l\<rparr>) ?q"
    using h(1) ap(1,3) aligned_append [OF r(2,1) a(1,2) ne ap(3-7)] unfolding L' by (simp add: holds_def getProgress_def)
  ultimately show "\<exists>q' lo'. lsteps P i H M (shown r q lo) (abs_peer r, abs_msgs (set (r_msgs r)), q', lo')
      \<and> holds ms S (r\<lparr>r_RaftLog := l\<rparr>) q' \<and> carried (set (r_msgs (r\<lparr>r_RaftLog := l\<rparr>))) lo'"
    using h(2) by (intro exI [of _ ?q] exI [of _ lo]) auto
qed

lemma appendEntry_follows:
  assumes ok: "peer_ok P i r" and d: "on_disk ms S" and lead: "r_State r = StateLeader" and es: "es \<noteq> []"
    and room: "log_LastIndex (r_RaftLog r) + length es < 2 ^ 63" and ae: "appendEntry (MemoryStorage_view ms) es r = Inr r'"
  shows "follows P i H M ms S r r'"
proof -
  obtain li l1 pr b where steps:
    "log_append (MemoryStorage_view ms) (r_RaftLog r) (number_entries (r_Term r) (log_LastIndex (r_RaftLog r)) es) = Inr (li, l1)"
    "mustProgress (r\<lparr>r_RaftLog := l1\<rparr>) (r_id r) = Inr pr"
    "maybeCommit (putProgress (r\<lparr>r_RaftLog := l1\<rparr>) (r_id r) (snd (Progress_maybeUpdate pr li))) = Inr (b, r')"
    using ae by (auto simp: appendEntry_def bindR_Inr_iff Let_def)
  note a = append_log_follows [OF ok d lead es room steps(1), where H = H and M = M]
  note ok1 = follows_ok [OF a]
  have id: "r_id r = i" "i \<in> P" using ok by (simp_all add: peer_ok_def)
  note a
  also have "follows P i H M ms S (r\<lparr>r_RaftLog := l1\<rparr>) (putProgress (r\<lparr>r_RaftLog := l1\<rparr>) (r_id r) (snd (Progress_maybeUpdate pr li)))" (is "follows _ _ _ _ _ _ _ ?r2")
    using putProgress_follows [OF ok1 id(2)] id by simp
  also have "follows P i H M ms S ?r2 r'" by (rule maybeCommit_follows [OF follows_ok [OF calculation] _ steps(3)]) (simp add: lead)
  finally show ?thesis .
qed

section \<open>Stepping a leader\<close>

lemma propose_entries_keeps:
  "propose_entries k es r = (es', r') \<Longrightarrow> length es' = length es \<and> r_RaftLog r' = r_RaftLog r \<and> r_msgs r' = r_msgs r
     \<and> (\<forall>ms S q. holds ms S r' q = holds ms S r q)"
proof (induction es arbitrary: k r es')
  case (Cons e es)
  define r1 where "r1 = (if e_EntryType e = EntryConfChange \<and> \<not> r_PendingConfIndex r > lg_applied (r_RaftLog r)
    then r\<lparr>r_PendingConfIndex := log_LastIndex (r_RaftLog r) + k + 1\<rparr> else r)"
  obtain es1 e1 where p: "propose_entries (Suc k) es r1 = (es1, r')" "es' = e1 # es1"
    using Cons.prems by (auto simp: r1_def split: prod.splits if_splits)
  then show ?case using Cons.IH [OF p(1)] by (simp add: r1_def)
qed simp

lemma leader_Propose_follows:
  assumes ok: "peer_ok P i r" and st: "st_conf P (MemoryStorage_view ms)" and d: "on_disk ms S" and lead: "r_State r = StateLeader"
    and room: "log_LastIndex (r_RaftLog r) + length (m_Entries m) < 2 ^ 63"
    and lp: "leader_Propose (MemoryStorage_view ms) m r = Inr (e, r')"
  shows "follows P i H M ms S r r'"
proof (cases "r' = r")
  case False
  with lp obtain es r1 r2 where steps: "propose_entries 0 (m_Entries m) r = (es, r1)" "m_Entries m \<noteq> []"
    "appendEntry (MemoryStorage_view ms) es r1 = Inr r2" "bcastAppend (MemoryStorage_view ms) r2 = Inr r'"
    by (auto simp: leader_Propose_def bindR_Inr_iff split: if_splits prod.splits)
  note q = propose_entries_quiet [OF peer_ok_conf [OF ok] steps(1)]
  note k = propose_entries_keeps [OF steps(1)]
  have f1: "follows P i H M ms S r r1" using silent_follows [OF ok q] k by simp
  have l1: "r_State r1 = StateLeader" using quiet_State [OF q] lead by simp
  have ne: "es \<noteq> []" using k steps(2) by auto
  have f2: "follows P i H M ms S r1 r2" by (rule appendEntry_follows [OF follows_ok [OF f1] d l1 ne _ steps(3)]) (use k room in simp)
  have l2: "r_State r2 = StateLeader" using quiet_State [OF appendEntry_quiet [OF quiet_conf [OF q] steps(3)]] l1 by simp
  note f1 also note f2
  also have "follows P i H M ms S r2 r'" by (rule bcastAppend_follows [OF follows_ok [OF f2] st d l2 steps(4)])
  finally show ?thesis .
qed (use ok in simp)

lemma leader_AppendResponse_parts:
  assumes "leader_AppendResponse st m pr r = Inr (e, r')"
  obtains (reject) pr1 where "pr_Match pr1 \<le> pr_Match pr" "r' = putProgress r (m_From m) pr1 \<or>
      (\<exists>c. sendAppend st (m_From m) (putProgress r (m_From m) pr1) = Inr (c, r'))"
  | (accept) pr1 where "\<not> m_Reject m" "pr_Match pr1 = max (pr_Match pr) (m_Index m)" "r' = putProgress r (m_From m) pr1 \<or>
      (\<exists>c r2 r3. maybeCommit (putProgress r (m_From m) pr1) = Inr (c, r2) \<and> (if c then bcastAppend st r2 else Inr r2) = Inr r3
        \<and> (r' = r3 \<or> sendTimeoutNow (m_From m) r3 = Inr r'))"
proof (cases "m_Reject m")
  case True
  obtain b pr1 where down: "Progress_maybeDecrTo pr (m_Index m) (m_RejectHint m) = (b, pr1)" by fastforce
  then have "pr_Match pr1 \<le> pr_Match pr" by (auto simp: Progress_maybeDecrTo_def Let_def split: if_splits)
  moreover from True down assms have "r' = putProgress r (m_From m) pr1 \<or> (\<exists>c. sendAppend st (m_From m) (putProgress r (m_From m) pr1) = Inr (c, r'))"
    by (auto simp: leader_AppendResponse_def bindR_Inr_iff Let_def split: if_splits)
  ultimately show ?thesis by (rule reject)
next
  case False
  obtain b pr1 where up: "Progress_maybeUpdate pr (m_Index m) = (b, pr1)" by fastforce
  then have "pr_Match pr1 = max (pr_Match pr) (m_Index m)" by (auto simp: Progress_maybeUpdate_def Let_def split: if_splits)
  moreover from False up assms have "r' = putProgress r (m_From m) pr1 \<or>
      (\<exists>c r2 r3. maybeCommit (putProgress r (m_From m) pr1) = Inr (c, r2) \<and> (if c then bcastAppend st r2 else Inr r2) = Inr r3
        \<and> (r' = r3 \<or> sendTimeoutNow (m_From m) r3 = Inr r'))"
    by (cases b) (auto simp: leader_AppendResponse_def bindR_Inr_iff split: prod.splits if_splits)
  ultimately show ?thesis by (rule accept [OF False])
qed

lemma leader_AppendResponse_follows:
  assumes ok: "peer_ok P i r" and st: "st_conf P (MemoryStorage_view ms)" and d: "on_disk ms S" and lead: "r_State r = StateLeader"
    and pr: "getProgress r (m_From m) = Some pr" and m: "m_Reject m \<or> Ack (m_From m) (r_Term r) (m_Index m) \<in> M"
    and la: "leader_AppendResponse (MemoryStorage_view ms) m pr r = Inr (e, r')"
  shows "follows P i H M ms S r r'"
  using la
proof (cases rule: leader_AppendResponse_parts)
  case (reject pr1)
  let ?r1 = "putProgress r (m_From m) pr1"
  have f: "follows P i H M ms S r ?r1"
    by (rule putProgress_follows [OF ok progress_member [OF peer_ok_conf [OF ok] pr]]) (use pr reject(1) in auto)
  have "follows P i H M ms S ?r1 r'" using reject(2) follows_ok [OF f] sendAppend_follows [OF follows_ok [OF f] st d] lead by auto
  with f show ?thesis by (rule follows_trans)
next
  case (accept pr1)
  let ?r1 = "putProgress r (m_From m) pr1"
  have f: "follows P i H M ms S r ?r1" using learn_follows [OF ok pr lead accept(2)] m accept(1) by blast
  show ?thesis
  proof (cases "r' = ?r1")
    case False
    then obtain c r2 r3 where s: "maybeCommit ?r1 = Inr (c, r2)" "(if c then bcastAppend (MemoryStorage_view ms) r2 else Inr r2) = Inr r3"
      and e: "r' = r3 \<or> sendTimeoutNow (m_From m) r3 = Inr r'" using accept(3) by blast
    have f2: "follows P i H M ms S ?r1 r2" by (rule maybeCommit_follows [OF follows_ok [OF f] _ s(1)]) (simp add: lead)
    have l2: "r_State r2 = StateLeader" using quiet_State [OF maybeCommit_quiet [OF peer_ok_conf [OF follows_ok [OF f]] s(1)]] lead by simp
    have f3: "follows P i H M ms S r2 r3"
      using s(2) follows_ok [OF f2] bcastAppend_follows [OF follows_ok [OF f2] st d l2] by (auto split: if_splits)
    have "follows P i H M ms S r3 r'" using e follows_ok [OF f3] sendTimeoutNow_follows by auto
    then show ?thesis by (rule follows_trans [OF f follows_trans [OF f2 follows_trans [OF f3]]])
  qed (use f in simp)
qed

lemma leader_TransferLeader_follows:
  assumes ok: "peer_ok P i r" and st: "st_conf P (MemoryStorage_view ms)" and d: "on_disk ms S" and lead: "r_State r = StateLeader"
    and lt: "leader_TransferLeader (MemoryStorage_view ms) m pr r = Inr (e, r')"
  shows "follows P i H M ms S r r'"
proof -
  define r1 where "r1 = (if r_leadTransferee r \<noteq> NoNode then abortLeaderTransfer r else r)"
  define r2 where "r2 = r1\<lparr>r_electionElapsed := 0, r_leadTransferee := m_From m\<rparr>"
  have c: "conf P r" by (rule peer_ok_conf [OF ok])
  have q1: "quiet P r r1" using c by (simp add: r1_def abortLeaderTransfer_def)
  have q2: "quiet P r r2" using quiet_trans [OF q1] quiet_conf [OF q1] unfolding r2_def
    by (metis fields_quiet(2,3) quiet_conf quiet_trans)
  have f: "follows P i H M ms S r r1" "follows P i H M ms S r r2"
    using silent_follows [OF ok q1] silent_follows [OF ok q2] by (simp_all add: r1_def r2_def abortLeaderTransfer_def)
  have l2: "r_State r2 = StateLeader" using quiet_State [OF q2] lead by simp
  have "r' = r \<or> r' = r1 \<or> sendTimeoutNow (m_From m) r2 = Inr r' \<or> (\<exists>b. sendAppend (MemoryStorage_view ms) (m_From m) r2 = Inr (b, r'))"
    using lt unfolding leader_TransferLeader_def by (auto simp: bindR_Inr_iff Let_def r1_def r2_def split: if_splits)
  then show ?thesis
    using f ok follows_trans [OF f(2)] sendTimeoutNow_follows [OF follows_ok [OF f(2)]] sendAppend_follows [OF follows_ok [OF f(2)] st d l2] by auto
qed

lemma stepLeader_follows:
  assumes ok: "peer_ok P i r" and st: "st_conf P (MemoryStorage_view ms)" and d: "on_disk ms S" and lead: "r_State r = StateLeader"
    and room: "log_LastIndex (r_RaftLog r) + length (m_Entries m) < 2 ^ 63" and m: "says m M" "m_Term m = 0 \<or> m_Term m = r_Term r"
    and sl: "stepLeader (MemoryStorage_view ms) m r = Inr (e, r')"
  shows "follows P i H M ms S r r'"
proof (cases "getProgress r (m_From m)")
  case None
  with sl ok show ?thesis
    by (auto simp: stepLeader_def split: if_splits intro: bcastHeartbeat_follows [OF ok lead] leader_Propose_follows [OF ok st d lead room])
next
  case (Some pr)
  show ?thesis
  proof (cases "m_MsgType m = MsgHeartbeatResponse \<or> m_MsgType m = MsgAppendResponse")
    case True
    then show ?thesis
    proof
      assume "m_MsgType m = MsgHeartbeatResponse"
      with Some sl ok show ?thesis
        by (auto simp: stepLeader_def bindR_Inr_iff split: if_splits intro: sendAppend_follows [OF ok st d lead])
    next
      assume a: "m_MsgType m = MsgAppendResponse"
      then have "m_Reject m \<or> Ack (m_From m) (r_Term r) (m_Index m) \<in> M" using m by (auto simp: says_def)
      with Some sl a show ?thesis by (auto simp: stepLeader_def intro: leader_AppendResponse_follows [OF ok st d lead Some])
    qed
  next
    case False
    with Some sl ok show ?thesis
      by (auto simp: stepLeader_def split: MessageType.splits intro: bcastHeartbeat_follows [OF ok lead]
          leader_Propose_follows [OF ok st d lead room] leader_TransferLeader_follows [OF ok st d lead])
  qed
qed

section \<open>The answers of a follower\<close>

lemma answer_follows:
  assumes ok: "peer_ok P i r" and q: "quiet P r r'" and r': "r_msgs r' = r_msgs r @ [resp]" "\<And>ms S q. holds ms S r' q = holds ms S r1 q"
    and step: "\<And>q lo. holds ms S r q \<Longrightarrow> \<exists>q' lo'. lo \<subseteq> lo' \<and> lsteps P i H M (shown r q lo) (abs_peer r, abs_msgs (set (r_msgs r)), q', lo')
      \<and> holds ms S r1 q' \<and> says resp lo'"
  shows "follows P i H M ms S r r'"
proof (rule quiet_follows [OF ok q])
  fix q lo assume h: "holds ms S r q" "carried (set (r_msgs r)) lo"
  obtain q' lo' where "lo \<subseteq> lo'" "lsteps P i H M (shown r q lo) (abs_peer r, abs_msgs (set (r_msgs r)), q', lo')" "holds ms S r1 q'" "says resp lo'"
    using step [OF h(1)] by blast
  then show "\<exists>q' lo'. lsteps P i H M (shown r q lo) (abs_peer r, abs_msgs (set (r_msgs r)), q', lo') \<and> holds ms S r' q' \<and> carried (set (r_msgs r')) lo'"
    using carried_mono [OF h(2)] r' by (intro exI [of _ q'] exI [of _ lo']) simp
qed

lemma follower_holds:
  "r_State r = StateFollower \<Longrightarrow> holds ms S r q \<longleftrightarrow> reps (r_RaftLog r) (lp_log q) \<and> lg_committed (r_RaftLog r) = lp_commit q
     \<and> aligned ms S (r_RaftLog r) (lp_log q)"
  by (auto simp: holds_def)

lemma handleAppendEntries_parts:
  assumes "handleAppendEntries st m r = Inr r'"
  obtains (behind) "r' = r\<lparr>r_msgs := r_msgs r @ [zeroMessage\<lparr>m_To := m_From m, m_MsgType := MsgAppendResponse,
      m_Index := lg_committed (r_RaftLog r), m_From := r_id r, m_Term := r_Term r\<rparr>]\<rparr>"
  | (tried) res l1 resp where "log_maybeAppend st (r_RaftLog r) (m_Index m) (m_LogTerm m) (m_Commit m) (m_Entries m) = Inr (res, l1)"
      "r' = r\<lparr>r_RaftLog := l1, r_msgs := r_msgs r @ [resp]\<rparr>" "m_MsgType resp = MsgAppendResponse" "m_From resp = r_id r" "m_Term resp = r_Term r"
      "case res of None \<Rightarrow> m_Reject resp | Some n \<Rightarrow> m_Index resp = n"
proof (cases "m_Index m < lg_committed (r_RaftLog r)")
  case True
  then have "send (zeroMessage\<lparr>m_To := m_From m, m_MsgType := MsgAppendResponse, m_Index := lg_committed (r_RaftLog r)\<rparr>) r = Inr r'"
    using assms by (simp add: handleAppendEntries_def Let_def)
  from send_other [OF _ _ _ this] show ?thesis by (intro behind) simp
next
  case False
  then obtain res l1 where ma: "log_maybeAppend st (r_RaftLog r) (m_Index m) (m_LogTerm m) (m_Commit m) (m_Entries m) = Inr (res, l1)"
    using assms by (auto simp: handleAppendEntries_def Let_def bindR_Inr_iff)
  obtain resp where s: "send resp (r\<lparr>r_RaftLog := l1\<rparr>) = Inr r'" "m_MsgType resp = MsgAppendResponse"
    "case res of None \<Rightarrow> m_Reject resp | Some n \<Rightarrow> m_Index resp = n"
    using assms False ma by (cases res) (fastforce simp: handleAppendEntries_def Let_def bindR_Inr_iff)+
  have "r' = r\<lparr>r_RaftLog := l1, r_msgs := r_msgs r @ [resp\<lparr>m_From := r_id r, m_Term := r_Term r\<rparr>]\<rparr>"
    using send_other [OF _ _ _ s(1)] s(2) by simp
  from tried [OF ma this] show ?thesis using s(2,3) by (auto split: option.splits)
qed

lemma handleAppendEntries_follows:
  assumes ok: "peer_ok P i r" and d: "on_disk ms S" and role: "r_State r = StateFollower" and t: "m_Term m = r_Term r" "r_Term r \<noteq> 0"
    and m: "m_MsgType m = MsgAppend" "says m M" and room: "log_LastIndex (r_RaftLog r) + length (m_Entries m) < 2 ^ 63"
    and ha: "handleAppendEntries (MemoryStorage_view ms) m r = Inr r'"
  shows "follows P i H M ms S r r'"
proof -
  let ?p = "abs_peer r" and ?eo = "abs_msgs (set (r_msgs r))"
  have id: "r_id r = i" using ok by (simp add: peer_ok_def)
  have p: "ep_role ?p = StateFollower" "ep_term ?p = r_Term r" using role by (simp_all add: abs_peer_def)
  have app: "App (m_From m) (ep_term ?p) (m_Index m) (m_LogTerm m) (m_Entries m) (m_Commit m) \<in> M"
    and es: "contiguous (m_Index m + 1) (m_Entries m)" using m t p by (simp_all add: says_def)
  note quiet = handleAppendEntries_quiet [OF peer_ok_conf [OF ok] ha]
  show ?thesis using ha
  proof (cases rule: handleAppendEntries_parts)
    case behind
    show ?thesis
    proof (rule answer_follows [OF ok quiet, where ?r1.0 = r])
      fix q lo assume h: "holds ms S r q"
      let ?q = "acked (r_Term r) (lp_commit q) q" and ?a = "Ack i (r_Term r) (lp_commit q)"
      have "(\<exists>l k u es c. App l (ep_term ?p) k u es c \<in> M) \<or> (\<exists>l L. Snap l (ep_term ?p) L \<in> M)" using app by blast
      then have "lstep P i H M (shown r q lo) (?p, ?eo, ?q, insert ?a lo)"
        using lstep.behind [OF p(1), of M P i H ?eo q lo] unfolding shown_def p(2) by blast
      moreover have "holds ms S r ?q" using h role by (simp add: follower_holds)
      ultimately show "\<exists>q' lo'. lo \<subseteq> lo' \<and> lsteps P i H M (shown r q lo) (?p, ?eo, q', lo') \<and> holds ms S r q'
          \<and> says (zeroMessage\<lparr>m_To := m_From m, m_MsgType := MsgAppendResponse, m_Index := lg_committed (r_RaftLog r), m_From := r_id r, m_Term := r_Term r\<rparr>) lo'"
        using h t id by (intro exI [of _ ?q] exI [of _ "insert ?a lo"]) (auto simp: says_def holds_def)
    qed (simp_all add: behind)
  next
    case (tried res l1 resp)
    let ?k = "m_Index m" and ?es = "m_Entries m" and ?c = "m_Commit m"
    let ?n = "?k + length ?es" and ?r1 = "r\<lparr>r_RaftLog := l1\<rparr>"
    show ?thesis
    proof (rule answer_follows [OF ok quiet, where ?r1.0 = ?r1 and resp = resp])
      fix q lo assume h: "holds ms S r q"
      have rq: "reps (r_RaftLog r) (lp_log q)" "lg_committed (r_RaftLog r) = lp_commit q" "aligned ms S (r_RaftLog r) (lp_log q)"
        using h by (simp_all add: holds_def)
      have room': "length (lp_log q) + length ?es < 2 ^ 63" using room reps_last [OF rq(1)] by simp
      let ?a = "Ack i (r_Term r) ?n"
      have sys: "says resp (insert ?a lo)" if "res = Some ?n" using tried(3-6) t id that by (simp add: says_def)
      show "\<exists>q' lo'. lo \<subseteq> lo' \<and> lsteps P i H M (shown r q lo) (?p, ?eo, q', lo') \<and> holds ms S ?r1 q' \<and> says resp lo'"
      proof (cases rule: reps_maybeAppend [OF rq(1) d rq(3) es room' tried(1), case_names no keep splice])
        case no
        then show ?thesis using h tried(3-6) t by (intro exI [of _ q] exI [of _ lo]) (simp add: shown_def says_def)
      next
        case keep
        let ?q = "acked (r_Term r) ?n (q\<lparr>lp_commit := max (lp_commit q) (min ?c ?n)\<rparr>)"
        have "lstep P i H M (shown r q lo) (?p, ?eo, ?q, insert ?a lo)"
          using lstep.keep [OF p(1) app [unfolded keep(3)] keep(2,4), of P i H ?eo lo] unfolding shown_def p(2) .
        moreover have "holds ms S ?r1 ?q" using keep(5-7) rq(2) role by (simp add: follower_holds)
        ultimately show ?thesis using sys [OF keep(1)] by (intro exI [of _ ?q] exI [of _ "insert ?a lo"]) auto
      next
        case (splice n)
        let ?L = "take (?k + n) (lp_log q) @ drop n ?es"
        let ?q = "acked (r_Term r) ?n (q\<lparr>lp_log := ?L, lp_commit := max (lp_commit q) (min ?c ?n)\<rparr>)"
        have "lstep P i H M (shown r q lo) (?p, ?eo, ?q, insert ?a lo)"
          using lstep.splice [OF p(1) app [unfolded splice(2)] splice(3-6) splice(7) [unfolded rq(2)], of P i H ?eo lo] unfolding shown_def p(2) .
        moreover have "holds ms S ?r1 ?q" using splice(8-10) rq(2) role by (simp add: follower_holds)
        ultimately show ?thesis using sys [OF splice(1)] by (intro exI [of _ ?q] exI [of _ "insert ?a lo"]) auto
      qed
    qed (simp_all add: tried(2) holds_def getProgress_def)
  qed
qed

lemma handleHeartbeat_follows:
  assumes ok: "peer_ok P i r" and role: "r_State r = StateFollower" and t: "m_Term m = r_Term r" and to: "m_To m = i"
    and m: "m_MsgType m = MsgHeartbeat" "says m M" and hh: "handleHeartbeat m r = Inr r'"
  shows "follows P i H M ms S r r'"
proof -
  let ?p = "abs_peer r" and ?eo = "abs_msgs (set (r_msgs r))"
  obtain l1 where l1: "log_commitTo (r_RaftLog r) (m_Commit m) = Inr l1"
    "send (zeroMessage\<lparr>m_To := m_From m, m_MsgType := MsgHeartbeatResponse\<rparr>) (r\<lparr>r_RaftLog := l1\<rparr>) = Inr r'"
    using hh by (auto simp: handleHeartbeat_def bindR_Inr_iff)
  let ?r1 = "r\<lparr>r_RaftLog := l1\<rparr>"
  have r': "r' = ?r1\<lparr>r_msgs := r_msgs r @ [zeroMessage\<lparr>m_To := m_From m, m_MsgType := MsgHeartbeatResponse, m_From := r_id r, m_Term := r_Term r\<rparr>]\<rparr>"
    using send_other [OF _ _ _ l1(2)] by simp
  show ?thesis
  proof (rule answer_follows [OF ok handleHeartbeat_quiet [OF peer_ok_conf [OF ok] hh], where ?r1.0 = ?r1])
    fix q lo assume h: "holds ms S r q"
    let ?q = "q\<lparr>lp_commit := max (lp_commit q) (m_Commit m)\<rparr>"
    have "Beat (m_From m) i (ep_term ?p) (m_Commit m) \<in> M" using m t to by (simp add: says_def abs_peer_def)
    then have "lstep P i H M (shown r q lo) (?p, ?eo, ?q, lo)"
      unfolding shown_def by (intro lstep.heed) (simp_all add: abs_peer_def role)
    moreover have "reps (r_RaftLog r) (lp_log q)" "lg_committed (r_RaftLog r) = lp_commit q" "aligned ms S (r_RaftLog r) (lp_log q)"
      using h by (simp_all add: holds_def)
    note rq = this
    have "holds ms S ?r1 ?q"
      using reps_commitTo [OF rq(1) l1(1)] aligned_commit [OF rq(3)] rq(2) role by (simp add: follower_holds)
    ultimately show "\<exists>q' lo'. lo \<subseteq> lo' \<and> lsteps P i H M (shown r q lo) (?p, ?eo, q', lo') \<and> holds ms S ?r1 q'
        \<and> says (zeroMessage\<lparr>m_To := m_From m, m_MsgType := MsgHeartbeatResponse, m_From := r_id r, m_Term := r_Term r\<rparr>) lo'"
      by (intro exI [of _ ?q] exI [of _ lo]) (auto simp: says_def)
  qed (simp_all add: r')
qed

lemma restore_parts:
  assumes "handleSnapshot m r = Inr r'"
  obtains (old) s where "m_Snapshot m = Some s" "sm_Index (sn_Metadata s) \<le> lg_committed (r_RaftLog r)"
      "r' = r\<lparr>r_msgs := r_msgs r @ [zeroMessage\<lparr>m_To := m_From m, m_MsgType := MsgAppendResponse,
         m_Index := lg_committed (r_RaftLog r), m_From := r_id r, m_Term := r_Term r\<rparr>]\<rparr>"
  | (known) s l1 where "m_Snapshot m = Some s" "lg_committed (r_RaftLog r) < sm_Index (sn_Metadata s)"
      "log_matchTerm (r_RaftLog r) (sm_Index (sn_Metadata s)) (sm_Term (sn_Metadata s))"
      "log_commitTo (r_RaftLog r) (sm_Index (sn_Metadata s)) = Inr l1"
      "r' = r\<lparr>r_RaftLog := l1, r_msgs := r_msgs r @ [zeroMessage\<lparr>m_To := m_From m, m_MsgType := MsgAppendResponse,
         m_Index := lg_committed l1, m_From := r_id r, m_Term := r_Term r\<rparr>]\<rparr>"
  | (new) s r1 where "m_Snapshot m = Some s" "lg_committed (r_RaftLog r) < sm_Index (sn_Metadata s)"
      "\<not> log_matchTerm (r_RaftLog r) (sm_Index (sn_Metadata s)) (sm_Term (sn_Metadata s))"
      "r_RaftLog r1 = log_restore (r_RaftLog r) s" "r_State r1 = r_State r" "r_msgs r1 = r_msgs r"
      "r' = r1\<lparr>r_msgs := r_msgs r @ [zeroMessage\<lparr>m_To := m_From m, m_MsgType := MsgAppendResponse,
         m_Index := log_LastIndex (r_RaftLog r1), m_From := r_id r, m_Term := r_Term r\<rparr>]\<rparr>"
proof -
  obtain s b r1 where s: "m_Snapshot m = Some s" "restore s r = Inr (b, r1)"
    "send (zeroMessage\<lparr>m_To := m_From m, m_MsgType := MsgAppendResponse, m_Index := if b then log_LastIndex (r_RaftLog r1)
       else lg_committed (r_RaftLog r1)\<rparr>) r1 = Inr r'"
    using assms by (auto simp: handleSnapshot_def bindR_Inr_iff split: option.splits)
  note r' = send_other [OF _ _ _ s(3), simplified]
  let ?l = "r_RaftLog r" and ?meta = "sn_Metadata s"
  show ?thesis
  proof (cases "sm_Index ?meta \<le> lg_committed ?l")
    case True
    then have "\<not> b" "r1 = r" using s(2) by (simp_all add: restore_def)
    then show ?thesis using old [OF s(1) True] r' by simp
  next
    case False
    then have lt: "lg_committed ?l < sm_Index ?meta" by simp
    show ?thesis
    proof (cases "log_matchTerm ?l (sm_Index ?meta) (sm_Term ?meta)")
      case True
      obtain l1 where "log_commitTo ?l (sm_Index ?meta) = Inr l1" "\<not> b" "r1 = r\<lparr>r_RaftLog := l1\<rparr>"
        using s(2) False True by (auto simp: restore_def Let_def bindR_Inr_iff)
      then show ?thesis using known [OF s(1) lt True] r' by simp
    next
      case no: False
      let ?r0 = "r\<lparr>r_RaftLog := log_restore ?l s, r_Prs := []\<rparr>"
      have "b" "r1 = restoreNode (sm_ConfState ?meta) ?r0" using s(2) False no by (auto simp: restore_def Let_def bindR_Inr_iff)
      then show ?thesis using new [OF s(1) lt no, of r1] r' by (simp add: restoreNode_keeps)
    qed
  qed
qed

lemma reps_restore:
  assumes r: "reps l M" and al: "aligned ms S l M" and L: "length L = sm_Index (sn_Metadata s)" "lterm L (length L) = sm_Term (sn_Metadata s)" "contiguous 1 L"
    and lt: "lg_committed l < sm_Index (sn_Metadata s)" and b: "sm_Index (sn_Metadata s) < 2 ^ 63"
  shows "reps (log_restore l s) L" "aligned ms S (log_restore l s) L"
proof -
  have ap: "lg_applied l \<le> hs_Commit (ms_hardState ms)" "hs_Commit (ms_hardState ms) \<le> lg_committed l" using al by (simp_all add: aligned_def)
  have "log_wf (log_restore l s)" by (rule restore_wf [OF reps_wf [OF r]]) (use ap lt b in simp_all)
  then show "reps (log_restore l s) L" using L by (simp add: reps_def log_restore_def)
  show "aligned ms S (log_restore l s) L" using ap lt L by (simp add: aligned_def log_restore_def)
qed

lemma handleSnapshot_follows:
  assumes ok: "peer_ok P i r" and role: "r_State r = StateFollower" and t: "m_Term m = r_Term r" "r_Term r \<noteq> 0"
    and m: "m_MsgType m = MsgSnapshot" "says m M" "msg_conf P m" and room: "\<And>s. m_Snapshot m = Some s \<Longrightarrow> sm_Index (sn_Metadata s) < 2 ^ 63"
    and hs: "handleSnapshot m r = Inr r'"
  shows "follows P i H M ms S r r'"
proof -
  let ?p = "abs_peer r" and ?eo = "abs_msgs (set (r_msgs r))"
  let ?resp = "\<lambda>n. zeroMessage\<lparr>m_To := m_From m, m_MsgType := MsgAppendResponse, m_Index := n, m_From := r_id r, m_Term := r_Term r\<rparr>"
  have id: "r_id r = i" using ok by (simp add: peer_ok_def)
  have p: "ep_role ?p = StateFollower" "ep_term ?p = r_Term r" using role by (simp_all add: abs_peer_def)
  have says_ack: "says (?resp n) (insert (Ack i (r_Term r) n) lo)" for n lo using t id by (simp add: says_def)
  have snap: "\<exists>L. Snap (m_From m) (ep_term ?p) L \<in> M \<and> length L = sm_Index (sn_Metadata s) \<and> lterm L (length L) = sm_Term (sn_Metadata s) \<and> contiguous 1 L"
    if "m_Snapshot m = Some s" for s using m(1,2) t(1) p(2) that by (simp add: says_def)
  note quiet = handleSnapshot_quiet [OF peer_ok_conf [OF ok] m(3,1) hs]
  show ?thesis using hs
  proof (cases rule: restore_parts)
    case (old s)
    show ?thesis
    proof (rule answer_follows [OF ok quiet, where ?r1.0 = r])
      fix q lo assume h: "holds ms S r q"
      let ?q = "acked (r_Term r) (lp_commit q) q" and ?a = "Ack i (r_Term r) (lp_commit q)"
      have "(\<exists>l k u es c. App l (ep_term ?p) k u es c \<in> M) \<or> (\<exists>l L. Snap l (ep_term ?p) L \<in> M)" using snap [OF old(1)] by blast
      then have "lstep P i H M (shown r q lo) (?p, ?eo, ?q, insert ?a lo)"
        using lstep.behind [OF p(1), of M P i H ?eo q lo] unfolding shown_def p(2) by blast
      moreover have "holds ms S r ?q" using h role by (simp add: follower_holds)
      moreover have "lg_committed (r_RaftLog r) = lp_commit q" using h by (simp add: holds_def)
      ultimately show "\<exists>q' lo'. lo \<subseteq> lo' \<and> lsteps P i H M (shown r q lo) (?p, ?eo, q', lo') \<and> holds ms S r q' \<and> says (?resp (lg_committed (r_RaftLog r))) lo'"
        using says_ack by (intro exI [of _ ?q] exI [of _ "insert ?a lo"]) auto
    qed (simp_all add: old(3))
  next
    case (known s l1)
    let ?n = "sm_Index (sn_Metadata s)" and ?r1 = "r\<lparr>r_RaftLog := l1\<rparr>"
    obtain L where L: "Snap (m_From m) (ep_term ?p) L \<in> M" "length L = ?n" "lterm L (length L) = sm_Term (sn_Metadata s)" using snap [OF known(1)] by blast
    show ?thesis
    proof (rule answer_follows [OF ok quiet, where ?r1.0 = ?r1])
      fix q lo assume h: "holds ms S r q"
      have rq: "reps (r_RaftLog r) (lp_log q)" "lg_committed (r_RaftLog r) = lp_commit q" "aligned ms S (r_RaftLog r) (lp_log q)"
        using h by (simp_all add: holds_def)
      let ?q = "acked (r_Term r) (length L) (q\<lparr>lp_commit := max (lp_commit q) (length L)\<rparr>)" and ?a = "Ack i (r_Term r) (length L)"
      have n: "length L \<le> length (lp_log q)" "lterm (lp_log q) (length L) = lterm L (length L)" using known(3) reps_match [OF rq(1)] L(2,3) by auto
      have "lstep P i H M (shown r q lo) (?p, ?eo, ?q, insert ?a lo)"
        using lstep.confirm [OF p(1) L(1) n, of P i H ?eo lo] unfolding shown_def p(2) .
      moreover note ct = reps_commitTo [OF rq(1) known(4)]
      have "holds ms S ?r1 ?q" using ct aligned_commit [OF rq(3)] rq(2) role L(2) by (simp add: follower_holds)
      moreover have "lg_committed l1 = length L" using ct(2) known(2) L(2) by simp
      ultimately show "\<exists>q' lo'. lo \<subseteq> lo' \<and> lsteps P i H M (shown r q lo) (?p, ?eo, q', lo') \<and> holds ms S ?r1 q' \<and> says (?resp (lg_committed l1)) lo'"
        using says_ack by (intro exI [of _ ?q] exI [of _ "insert ?a lo"]) auto
    qed (simp_all add: known(5) holds_def getProgress_def)
  next
    case (new s r1)
    let ?n = "sm_Index (sn_Metadata s)"
    obtain L where L: "Snap (m_From m) (ep_term ?p) L \<in> M" "length L = ?n" "lterm L (length L) = sm_Term (sn_Metadata s)" "contiguous 1 L"
      using snap [OF new(1)] by blast
    show ?thesis
    proof (rule answer_follows [OF ok quiet, where ?r1.0 = r1])
      fix q lo assume h: "holds ms S r q"
      have rq: "reps (r_RaftLog r) (lp_log q)" "lg_committed (r_RaftLog r) = lp_commit q" "aligned ms S (r_RaftLog r) (lp_log q)"
        using h by (simp_all add: holds_def)
      let ?q = "acked (r_Term r) (length L) (q\<lparr>lp_log := L, lp_commit := length L\<rparr>)" and ?a = "Ack i (r_Term r) (length L)"
      have lt: "lp_commit q < length L" using new(2) rq(2) L(2) by simp
      have "lg_snapIndex (r_RaftLog r) \<le> length L" using reps_bounds(1) [OF rq(1)] new(2) L(2) by simp
      then have "length (lp_log q) < length L \<or> lterm (lp_log q) (length L) \<noteq> lterm L (length L)"
        using new(3) reps_match [OF rq(1)] L(2,3) by fastforce
      then have "lstep P i H M (shown r q lo) (?p, ?eo, ?q, insert ?a lo)"
        using lstep.install [OF p(1) L(1) lt, of P i H ?eo lo] unfolding shown_def p(2) by blast
      moreover note rs = reps_restore [OF rq(1,3) L(2-4) new(2) room [OF new(1)]]
      have "holds ms S r1 ?q" using rs new(4,5) role L(2) by (simp add: follower_holds) (simp add: log_restore_def)
      moreover have "log_LastIndex (r_RaftLog r1) = length L" using reps_last [OF rs(1)] new(4) by simp
      ultimately show "\<exists>q' lo'. lo \<subseteq> lo' \<and> lsteps P i H M (shown r q lo) (?p, ?eo, q', lo') \<and> holds ms S r1 q' \<and> says (?resp (log_LastIndex (r_RaftLog r1))) lo'"
        using says_ack by (intro exI [of _ ?q] exI [of _ "insert ?a lo"]) auto
    qed (simp_all add: new(7) holds_def getProgress_def)
  qed
qed

end
