(* ===== verification/Replica_Node.thy ===== *)
theory Replica_Node
  imports Replica_Step
begin

text \<open>
  Changing role, voting and counting votes with the logs in view, and with them every call of \<open>Step\<close> and \<open>tick\<close>.
\<close>

section \<open>Changing role\<close>

text \<open>The role changes, the log does not.\<close>

lemma role_follows:
  assumes ok: "peer_ok P i r'" and log: "r_RaftLog r' = r_RaftLog r" and msgs: "r_msgs r' = r_msgs r" and role: "r_State r' \<noteq> StateLeader"
    and step: "\<And>q lo. lstep P i H M (shown r q lo) (shown r' q lo)"
  shows "follows P i H M ms S r r'"
  unfolding follows_def
proof (intro conjI allI impI)
  fix q lo assume h: "holds ms S r q \<and> carried (set (r_msgs r)) lo"
  have "holds ms S r' q" using h log role by (simp add: holds_def)
  then show "\<exists>q' lo'. lsteps P i H M (shown r q lo) (shown r' q' lo') \<and> holds ms S r' q' \<and> carried (set (r_msgs r')) lo'"
    using h step [of q lo] msgs by (intro exI [of _ q] exI [of _ lo]) auto
qed (rule ok)

lemma becomeFollower_follows:
  assumes bf: "becomeFollower t lead r = Inr r'" and ok: "peer_ok P i r" and t: "r_Term r \<le> t"
  shows "follows P i H M ms S r r'"
proof -
  note k = becomeFollower_keeps [OF bf]
  have "lstep P i H M (shown r q lo) (shown r' q lo)" for q lo
  proof (cases "r_Term r = t")
    case True
    then have "shown r' q lo = ((abs_peer r)\<lparr>ep_role := StateFollower, ep_yes := {}\<rparr>, abs_msgs (set (r_msgs r)), q, lo)"
      using k by (simp add: shown_def abs_peer_def)
    then show ?thesis unfolding shown_def by (simp only: lstep.stepdown)
  next
    case False
    then have "shown r' q lo = (\<lparr>ep_term = t, ep_vote = 0, ep_role = StateFollower, ep_yes = {}\<rparr>, abs_msgs (set (r_msgs r)), q, lo)"
      using k by (simp add: shown_def abs_peer_def NoNode_def)
    moreover have "ep_term (abs_peer r) < t" using False t by (simp add: abs_peer_def)
    ultimately show ?thesis unfolding shown_def by (simp only: lstep.adopt)
  qed
  then show ?thesis using role_follows [OF implements_ok [OF becomeFollower_implements(1) [OF bf ok t]] k(2,4)] k(3) by simp
qed

lemma reset_match:
  assumes "reset t r = Inr r'" "getProgress r' j = Some pr" "j \<noteq> r_id r"
  shows "pr_Match pr = 0"
proof -
  let ?f = "\<lambda>li (nid, pr). (nid, \<lparr>pr_Match = if nid = r_id r then li else 0, pr_Next = li + 1\<rparr>)"
  have "r_Prs r' = map (?f (log_LastIndex (r_RaftLog r))) (r_Prs r)"
    using assms(1) by (auto simp: reset_def resetRandomizedElectionTimeout_def Intn_def bindR_Inr_iff abortLeaderTransfer_def Let_def split: if_splits)
  then have "(j, pr) \<in> ?f (log_LastIndex (r_RaftLog r)) ` set (r_Prs r)" using assms(2) map_of_SomeD by (fastforce simp: getProgress_def)
  then show ?thesis using assms(3) by auto
qed

lemma becomeLeader_follows:
  assumes bl: "becomeLeader (MemoryStorage_view ms) r = Inr r'" and ok: "peer_ok P i r" and cand: "r_State r = StateCandidate"
    and q: "quorum r = granted_votes (r_votes r)" and d: "on_disk ms S" and room: "log_LastIndex (r_RaftLog r) + 1 < 2 ^ 63"
  shows "follows P i H M ms S r r'"
proof -
  obtain r1 where r1: "reset (r_Term r) r = Inr r1"
    "appendEntry (MemoryStorage_view ms) [zeroEntry] (r1\<lparr>r_Lead := r_id r1, r_State := StateLeader, r_PendingConfIndex := log_LastIndex (r_RaftLog r1)\<rparr>) = Inr r'"
    using bl by (auto simp: becomeLeader_def bindR_Inr_iff Let_def)
  let ?r2 = "r1\<lparr>r_Lead := r_id r1, r_State := StateLeader, r_PendingConfIndex := log_LastIndex (r_RaftLog r1)\<rparr>"
  note keeps = reset_keeps [OF r1(1)]
  have ok2: "peer_ok P i ?r2" using ok cand keeps by (simp add: peer_ok_def conf_def) (simp add: members_def)
  have maj: "card P div 2 < card (ep_yes (abs_peer r))" using ok q granted_votes_yes [of r] quorum_conf [of P r] by (simp add: peer_ok_def)
  have f: "follows P i H M ms S r ?r2"
    unfolding follows_def
  proof (intro conjI allI impI)
    fix q lo assume h: "holds ms S r q \<and> carried (set (r_msgs r)) lo"
    let ?q = "(acked (r_Term r) (length (lp_log q)) q)\<lparr>lp_match := (\<lambda>_. 0)\<rparr>"
    have "shown ?r2 ?q lo = ((abs_peer r)\<lparr>ep_role := StateLeader, ep_yes := {}\<rparr>, abs_msgs (set (r_msgs r)), ?q, lo)"
      using keeps by (simp add: shown_def abs_peer_def)
    moreover have "ep_role (abs_peer r) = StateCandidate" "ep_term (abs_peer r) = r_Term r" using cand by (simp_all add: abs_peer_def)
    note p = this
    ultimately have "lstep P i H M (shown r q lo) (shown ?r2 ?q lo)"
      using lstep.win [OF p(1) maj, of i H M "abs_msgs (set (r_msgs r))" q lo] unfolding shown_def p(2) by simp
    moreover have "holds ms S ?r2 ?q"
    proof -
      have "pr_Match pr = 0" if "getProgress r1 j = Some pr" "j \<noteq> r_id r1" for j pr using reset_match [OF r1(1) that(1)] that(2) keeps(1) by simp
      then show ?thesis using h keeps(2) by (auto simp: holds_def getProgress_def)
    qed
    ultimately show "\<exists>q' lo'. lsteps P i H M (shown r q lo) (shown ?r2 q' lo') \<and> holds ms S ?r2 q' \<and> carried (set (r_msgs ?r2)) lo'"
      using h keeps(4) by (intro exI [of _ ?q] exI [of _ lo]) auto
  qed (rule ok2)
  have "follows P i H M ms S ?r2 r'" by (rule appendEntry_follows [OF ok2 d _ _ _ r1(2)]) (use keeps(2) room in simp_all)
  with f show ?thesis by (rule follows_trans)
qed

section \<open>Campaigning and voting\<close>

lemma sendVoteRequest_follows:
  assumes sv: "sendVoteRequest t nid r = Inr r'" and ok: "peer_ok P i r" and cand: "r_State r = StateCandidate" and t: "r_Term r = t"
  shows "follows P i H M ms S r r'"
  unfolding follows_def
proof (intro conjI allI impI)
  show "peer_ok P i r'" using sendVoteRequest_implements [OF sv ok cand t] implements_ok by blast
  obtain lt where lt: "log_lastTerm (r_RaftLog r) = Inr lt" using sv by (auto simp: sendVoteRequest_def bindR_Inr_iff)
  let ?m = "zeroMessage\<lparr>m_Term := t, m_To := nid, m_MsgType := MsgRequestVote, m_Index := log_LastIndex (r_RaftLog r), m_LogTerm := lt, m_From := i\<rparr>"
  have id: "r_id r = i" using ok by (simp add: peer_ok_def)
  have r': "r' = r\<lparr>r_msgs := r_msgs r @ [?m]\<rparr>"
    using sv lt id by (auto simp: sendVoteRequest_def send_def bindR_Inr_iff Let_def split: if_splits)
  fix q lo assume h: "holds ms S r q \<and> carried (set (r_msgs r)) lo"
  then have rq: "reps (r_RaftLog r) (lp_log q)" by (simp add: holds_def)
  let ?c = "Claim i t (lp_log q)"
  have p: "ep_role (abs_peer r) = StateCandidate" "ep_term (abs_peer r) = t" using cand t by (simp_all add: abs_peer_def)
  have "shown r' q (insert ?c lo) = (abs_peer r, insert (Ask i t) (abs_msgs (set (r_msgs r))), q, insert ?c lo)"
    by (simp add: r' shown_def abs_peer_def abs_msg_def)
  then have "lstep P i H M (shown r q lo) (shown r' q (insert ?c lo))"
    using lstep.ask [OF p(1), of P i H M "abs_msgs (set (r_msgs r))" q lo] unfolding shown_def p(2) by simp
  moreover have "says ?m (insert ?c lo)" using lt reps_lastTerm [OF rq] reps_last [OF rq] by (auto simp: says_def)
  ultimately show "\<exists>q' lo'. lsteps P i H M (shown r q lo) (shown r' q' lo') \<and> holds ms S r' q' \<and> carried (set (r_msgs r')) lo'"
    using h carried_mono [of "set (r_msgs r)" lo "insert ?c lo"] by (intro exI [of _ q] exI [of _ "insert ?c lo"]) (auto simp: r')
qed

lemma requests_follow:
  assumes "for_each_other ids (sendVoteRequest t) r = Inr r'" "peer_ok P i r" "r_State r = StateCandidate" "r_Term r = t"
  shows "follows P i H M ms S r r'"
  using assms
proof (induction ids arbitrary: r)
  case (Cons nid ids)
  show ?case
  proof (cases "nid = r_id r")
    case False
    with Cons.prems(1) obtain r1 where r1: "sendVoteRequest t nid r = Inr r1" "for_each_other ids (sendVoteRequest t) r1 = Inr r'"
      by (auto simp: bindR_Inr_iff)
    note s = sendVoteRequest_implements [OF r1(1) Cons.prems(2-4), of H]
    have "follows P i H M ms S r1 r'" using s by (intro Cons.IH [OF r1(2)]) (auto dest: implements_ok)
    then show ?thesis by (rule follows_trans [OF sendVoteRequest_follows [OF r1(1) Cons.prems(2-4)]])
  qed (use Cons in simp)
qed simp

lemma campaign_follows:
  assumes c: "campaign (MemoryStorage_view ms) r = Inr r'" and ok: "peer_ok P i r" and d: "on_disk ms S"
    and room: "log_LastIndex (r_RaftLog r) + 1 < 2 ^ 63"
  shows "follows P i H M ms S r r'"
proof -
  obtain r1 where r1: "reset (r_Term r + 1) r = Inr r1" using c by (auto simp: campaign_def becomeCandidate_def bindR_Inr_iff)
  note keeps = reset_keeps [OF r1]
  define r2 where "r2 = r1\<lparr>r_Vote := r_id r1, r_State := StateCandidate, r_votes := [(r_id r1, True)]\<rparr>"
  have ok2: "peer_ok P i r2" using ok keeps by (simp add: r2_def peer_ok_def conf_def) (simp add: members_def)
  have "shown r2 q lo = (\<lparr>ep_term = ep_term (abs_peer r) + 1, ep_vote = i, ep_role = StateCandidate, ep_yes = {i}\<rparr>, abs_msgs (set (r_msgs r)), q, lo)" for q lo
    using keeps ok by (simp add: shown_def abs_peer_def r2_def peer_ok_def)
  then have "lstep P i H M (shown r q lo) (shown r2 q lo)" for q lo unfolding shown_def by (simp only: lstep.campaign)
  then have f: "follows P i H M ms S r r2" by (intro role_follows [OF ok2]) (simp_all add: r2_def keeps)
  have "quorum r2 = granted_votes (r_votes r2) \<and> becomeLeader (MemoryStorage_view ms) r2 = Inr r'
      \<or> for_each_other (map fst (r_Prs r2)) (sendVoteRequest (r_Term r2)) r2 = Inr r'"
    using c r1 keeps(7)
    by (auto simp: campaign_def becomeCandidate_def bindR_Inr_iff poll_def Let_def r2_def quorum_def split: if_splits)
  moreover have "r_State r2 = StateCandidate" "log_LastIndex (r_RaftLog r2) + 1 < 2 ^ 63" using room keeps(2) by (simp_all add: r2_def)
  ultimately have "follows P i H M ms S r2 r'"
    using becomeLeader_follows [OF _ ok2 _ _ d] requests_follow [OF _ ok2 _ refl] by blast
  with f show ?thesis by (rule follows_trans)
qed

lemma hup_follows:
  "hup (MemoryStorage_view ms) r = Inr r' \<Longrightarrow> peer_ok P i r \<Longrightarrow> on_disk ms S \<Longrightarrow> log_LastIndex (r_RaftLog r) + 1 < 2 ^ 63 \<Longrightarrow> follows P i H M ms S r r'"
  by (drule hup_cases) (auto intro: campaign_follows)

lemma requestVote_follows:
  assumes rv: "requestVote m r = Inr r'" and ok: "peer_ok P i r" and ty: "m_MsgType m = MsgRequestVote" and src: "m_From m \<noteq> 0"
    and t: "m_Term m = 0 \<or> m_Term m = r_Term r" and m: "says m M" "abs_msgs {m} \<subseteq> H"
  shows "follows P i H M ms S r r'"
  unfolding follows_def
proof (intro conjI allI impI)
  show "peer_ok P i r'" using implements_ok [OF requestVote_implements [OF rv ok ty src t]] .
  fix q lo assume h: "holds ms S r q \<and> carried (set (r_msgs r)) lo"
  then have rq: "reps (r_RaftLog r) (lp_log q)" by (simp add: holds_def)
  have id: "r_id r = i" using ok by (simp add: peer_ok_def)
  show "\<exists>q' lo'. lsteps P i H M (shown r q lo) (shown r' q' lo') \<and> holds ms S r' q' \<and> carried (set (r_msgs r')) lo'"
    using rv
  proof (cases rule: requestVote_cases)
    case (granted resp)
    have mt: "m_Term m = r_Term r" using t granted(7) by simp
    obtain L where L: "Claim (m_From m) (ep_term (abs_peer r)) L \<in> M" "length L = m_Index m" "lterm L (length L) = m_LogTerm m"
      using m(1) ty mt by (auto simp: says_def abs_peer_def)
    have "Ask (m_From m) (ep_term (abs_peer r)) \<in> H" using m(2) ty mt by (simp add: abs_msg_def abs_peer_def)
    moreover have "current L (lp_log q)"
      using granted(9) reps_lastTerm [OF rq] reps_last [OF rq] L(2,3) by (auto simp: log_isUpToDate_def bindR_Inr_iff current_def)
    moreover have "ep_vote (abs_peer r) = 0 \<or> ep_vote (abs_peer r) = m_From m" using granted(8) by (auto simp: abs_peer_def NoNode_def)
    ultimately have "lstep P i H M (shown r q lo)
        ((abs_peer r)\<lparr>ep_vote := m_From m\<rparr>, insert (Grant i (m_From m) (ep_term (abs_peer r))) (abs_msgs (set (r_msgs r))), q, lo)"
      unfolding shown_def using L(1) src by (intro lstep.grant)
    moreover have "shown r' q lo = ((abs_peer r)\<lparr>ep_vote := m_From m\<rparr>, insert (Grant i (m_From m) (ep_term (abs_peer r))) (abs_msgs (set (r_msgs r))), q, lo)"
      using granted mt id by (simp add: shown_def abs_peer_def abs_msg_def)
    moreover have "says resp lo" using granted(2) by (simp add: says_def)
    ultimately show ?thesis using h granted(1) by (intro exI [of _ q] exI [of _ lo]) auto
  next
    case (rejected resp)
    then have "shown r' q lo = shown r q lo" "says resp lo" by (simp_all add: shown_def abs_peer_def abs_msg_def says_def)
    then show ?thesis using h rejected(1) by (intro exI [of _ q] exI [of _ lo]) auto
  qed
qed

lemma poll_follows:
  assumes pl: "poll (m_From m) (\<not> m_Reject m) r = (g, r1)" and ok: "peer_ok P i r" and cand: "r_State r = StateCandidate"
    and m: "m_MsgType m = MsgRequestVoteResponse" "m_Term m = r_Term r" "m_From m \<in> P" "m_To m = i" and H: "abs_msgs {m} \<subseteq> H"
  shows "follows P i H M ms S r r1"
proof -
  have r1: "r1 = (if map_of (r_votes r) (m_From m) = None then r\<lparr>r_votes := r_votes r @ [(m_From m, \<not> m_Reject m)]\<rparr> else r)"
    using pl by (auto simp: poll_def Let_def)
  note ok1 = implements_ok [OF poll_implements(1) [OF pl ok cand m]]
  show ?thesis
    unfolding follows_def
  proof (intro conjI allI impI)
    fix q lo assume h: "holds ms S r q \<and> carried (set (r_msgs r)) lo"
    have "lsteps P i H M (shown r q lo) (shown r1 q lo)"
    proof (cases "map_of (r_votes r) (m_From m) = None \<and> \<not> m_Reject m")
      case True
      then have "shown r1 q lo = ((abs_peer r)\<lparr>ep_yes := insert (m_From m) (ep_yes (abs_peer r))\<rparr>, abs_msgs (set (r_msgs r)), q, lo)"
        by (auto simp: shown_def abs_peer_def r1)
      moreover have "Grant (m_From m) i (ep_term (abs_peer r)) \<in> H" "ep_role (abs_peer r) = StateCandidate"
        using H m True cand by (simp_all add: abs_msg_def abs_peer_def)
      ultimately have "lstep P i H M (shown r q lo) (shown r1 q lo)" unfolding shown_def using m(3) by (simp only: lstep.count)
      then show ?thesis by blast
    next
      case False
      then have "shown r1 q lo = shown r q lo" by (auto simp: shown_def abs_peer_def r1)
      then show ?thesis by simp
    qed
    moreover have "holds ms S r1 q" "r_msgs r1 = r_msgs r" using h by (auto simp: r1)
    ultimately show "\<exists>q' lo'. lsteps P i H M (shown r q lo) (shown r1 q' lo') \<and> holds ms S r1 q' \<and> carried (set (r_msgs r1)) lo'"
      using h by (intro exI [of _ q] exI [of _ lo]) simp
  qed (rule ok1)
qed

section \<open>Every step implements the protocol\<close>

text \<open>Indexes stay below \<open>2^63\<close>: there is room for the entries of the message and the entry of a new leader.\<close>

definition fits :: "Message \<Rightarrow> Raft \<Rightarrow> bool" where
  "fits m r \<longleftrightarrow> log_LastIndex (r_RaftLog r) + length (m_Entries m) + 1 < 2 ^ 63
     \<and> (\<forall>s. m_Snapshot m = Some s \<longrightarrow> sm_Index (sn_Metadata s) < 2 ^ 63)"

lemma fits_room:
  assumes "fits m r"
  shows "log_LastIndex (r_RaftLog r) + length (m_Entries m) < 2 ^ 63" "log_LastIndex (r_RaftLog r) + 1 < 2 ^ 63"
    "\<And>s. m_Snapshot m = Some s \<Longrightarrow> sm_Index (sn_Metadata s) < 2 ^ 63"
  using assms by (auto simp: fits_def)

text \<open>What a peer may be handed, with the logs in view.\<close>

definition heard :: "nat set \<Rightarrow> nat \<Rightarrow> emsg set \<Rightarrow> lmsg set \<Rightarrow> Message \<Rightarrow> bool" where
  "heard P i H M m \<longleftrightarrow> handed P i m \<and> says m M \<and> abs_msgs {m} \<subseteq> H \<and> (m_MsgType m = MsgHeartbeat \<longrightarrow> m_To m = i)"

lemma lead_follows:
  assumes lead: "lead_msg m" and hd: "heard P i H M m" and ok: "peer_ok P i r" and role: "r_State r = StateFollower" and t: "m_Term m = r_Term r"
    and d: "on_disk ms S" and fits: "fits m r"
    and act: "m_MsgType m = MsgAppend \<Longrightarrow> handleAppendEntries (MemoryStorage_view ms) m r = Inr r'"
      "m_MsgType m = MsgHeartbeat \<Longrightarrow> handleHeartbeat m r = Inr r'" "m_MsgType m = MsgSnapshot \<Longrightarrow> handleSnapshot m r = Inr r'"
  shows "follows P i H M ms S r r'"
proof -
  have h: "m_Term m \<noteq> 0" "msg_conf P m" "says m M" "m_MsgType m = MsgHeartbeat \<Longrightarrow> m_To m = i" using hd lead by (auto simp: heard_def handed_def)
  have t0: "r_Term r \<noteq> 0" using h(1) t by simp
  consider "m_MsgType m = MsgAppend" | "m_MsgType m = MsgHeartbeat" | "m_MsgType m = MsgSnapshot" using lead by (auto simp: lead_msg_def)
  then show ?thesis
  proof cases
    case 1
    then show ?thesis using handleAppendEntries_follows [OF ok d role t t0 1 h(3) fits_room(1) [OF fits]] act(1) by blast
  next
    case 2
    then show ?thesis using handleHeartbeat_follows [OF ok role t h(4) 2 h(3)] act(2) by blast
  next
    case 3
    then show ?thesis using handleSnapshot_follows [OF ok role t t0 3 h(3,2) fits_room(3) [OF fits]] act(3) by blast
  qed
qed

lemma stepCandidate_follows:
  assumes sc: "stepCandidate (MemoryStorage_view ms) m r = Inr (e, r')" and ok: "peer_ok P i r" and cand: "r_State r = StateCandidate"
    and hd: "heard P i H M m" and st: "st_conf P (MemoryStorage_view ms)" and d: "on_disk ms S" and fits: "fits m r"
    and t: "m_Term m = 0 \<or> m_Term m = r_Term r"
  shows "follows P i H M ms S r r'"
proof (cases "m_MsgType m = MsgRequestVoteResponse")
  case True
  obtain g r1 where p: "poll (m_From m) (\<not> m_Reject m) r = (g, r1)" by fastforce
  have h: "m_Term m = r_Term r" "m_From m \<in> P" "m_To m = i" using hd t True by (auto simp: heard_def handed_def)
  note c = poll_implements [OF p ok cand True h]
  have f: "follows P i H M ms S r r1" by (rule poll_follows [OF p ok cand True h]) (use hd in \<open>simp add: heard_def\<close>)
  note ok1 = follows_ok [OF f]
  have log: "r_RaftLog r1 = r_RaftLog r" using p by (auto simp: poll_def Let_def)
  have room: "log_LastIndex (r_RaftLog r1) + 1 < 2 ^ 63" using fits_room(2) [OF fits] log by simp
  have "quorum r1 = g \<and> (\<exists>r2. becomeLeader (MemoryStorage_view ms) r1 = Inr r2 \<and> bcastAppend (MemoryStorage_view ms) r2 = Inr r')
      \<or> becomeFollower (r_Term r1) NoNode r1 = Inr r' \<or> r' = r1"
    using sc True p by (auto simp: stepCandidate_def bindR_Inr_iff split: if_splits)
  then have "follows P i H M ms S r1 r'"
  proof (elim disjE conjE exE)
    fix r2 assume q: "quorum r1 = g" and b: "becomeLeader (MemoryStorage_view ms) r1 = Inr r2" "bcastAppend (MemoryStorage_view ms) r2 = Inr r'"
    note l = becomeLeader_implements [OF b(1) ok1 c(2) q [unfolded c(3)]] becomeLeader_follows [OF b(1) ok1 c(2) q [unfolded c(3)] d room]
    show ?thesis by (rule follows_trans [OF l(3) bcastAppend_follows [OF follows_ok [OF l(3)] st d l(2) b(2)]])
  qed (use ok1 in \<open>auto intro: becomeFollower_follows\<close>)
  with f show ?thesis by (rule follows_trans)
next
  case False
  show ?thesis
  proof (cases "lead_msg m")
    case True
    then obtain r1 where r1: "becomeFollower (m_Term m) (m_From m) r = Inr r1"
      "m_MsgType m = MsgAppend \<Longrightarrow> handleAppendEntries (MemoryStorage_view ms) m r1 = Inr r'"
      "m_MsgType m = MsgHeartbeat \<Longrightarrow> handleHeartbeat m r1 = Inr r'" "m_MsgType m = MsgSnapshot \<Longrightarrow> handleSnapshot m r1 = Inr r'"
      using sc by (auto simp: stepCandidate_def bindR_Inr_iff lead_msg_def)
    have tm: "r_Term r \<le> m_Term m" using True hd t by (auto simp: heard_def handed_def)
    note f = becomeFollower_follows [OF r1(1) ok tm] and k = becomeFollower_keeps [OF r1(1)]
    have "fits m r1" using fits k(2) by (simp add: fits_def)
    then have "follows P i H M ms S r1 r'" using lead_follows [OF True hd follows_ok [OF f] k(3) _ d _ r1(2-4)] k(6) by simp
    with f show ?thesis by (rule follows_trans)
  next
    case no: False
    then have "r' = r" using sc False by (auto simp: stepCandidate_def lead_msg_def split: MessageType.splits)
    then show ?thesis using ok by simp
  qed
qed

lemma stepFollower_follows:
  assumes sf: "stepFollower (MemoryStorage_view ms) m r = Inr (e, r')" and ok: "peer_ok P i r" and role: "r_State r = StateFollower"
    and hd: "heard P i H M m" and d: "on_disk ms S" and fits: "fits m r" and t: "m_Term m = 0 \<or> m_Term m = r_Term r"
  shows "follows P i H M ms S r r'"
proof -
  let ?h = "r\<lparr>r_electionElapsed := 0, r_Lead := m_From m\<rparr>"
  have conf: "conf P r" by (rule peer_ok_conf [OF ok])
  have q: "quiet P r ?h" using conf by (simp add: quiet_def conf_def members_def)
  have f: "follows P i H M ms S r ?h" by (rule silent_follows [OF ok q]) simp_all
  consider "lead_msg m" | "m_MsgType m = MsgTimeoutNow" | "m_MsgType m = MsgTransferLeader"
    | "\<not> lead_msg m" "m_MsgType m \<noteq> MsgTimeoutNow" "m_MsgType m \<noteq> MsgTransferLeader" by blast
  then show ?thesis
  proof cases
    case 1
    have "m_Term m = r_Term ?h" using 1 hd t by (auto simp: heard_def handed_def)
    moreover have "fits m ?h" "r_State ?h = StateFollower" using fits role by (simp_all add: fits_def)
    ultimately have "follows P i H M ms S ?h r'"
      using lead_follows [OF 1 hd follows_ok [OF f] _ _ d] sf 1 by (auto simp: stepFollower_def Let_def lead_msg_def)
    with f show ?thesis by (rule follows_trans)
  next
    case 2
    then show ?thesis using sf ok campaign_follows [OF _ ok d fits_room(2) [OF fits]] by (auto simp: stepFollower_def Let_def split: if_splits)
  next
    case 3
    have "r' = r \<or> send (m\<lparr>m_To := r_Lead r\<rparr>) r = Inr r'" using 3 sf by (auto simp: stepFollower_def Let_def split: if_splits)
    then show ?thesis
    proof
      assume s: "send (m\<lparr>m_To := r_Lead r\<rparr>) r = Inr r'"
      have "quiet P r r'" by (rule send_quiet [OF conf s]) (use 3 in \<open>simp_all add: lead_msg_def msg_conf_def\<close>)
      then show ?thesis
      proof (rule send_follows [OF ok _ s])
        fix q lo
        show "\<exists>lo'. lo \<subseteq> lo' \<and> lsteps P i H M (shown r q lo) (shown r q lo') \<and> says (m\<lparr>m_To := r_Lead r\<rparr>\<lparr>m_From := i, m_Term := r_Term r\<rparr>) lo'"
          using 3 by (intro exI [of _ lo]) (simp add: says_def)
      qed (use 3 in simp_all)
    qed (use ok in simp)
  next
    case 4
    then have "r' = r" using sf by (auto simp: stepFollower_def Let_def lead_msg_def split: MessageType.splits)
    then show ?thesis using ok by simp
  qed
qed

lemma step_term_follows:
  assumes "step_term m r = Inr (Some r1)" "peer_ok P i r"
  shows "follows P i H M ms S r r1" "m_Term m = 0 \<or> m_Term m = r_Term r1" "r_RaftLog r1 = r_RaftLog r"
proof -
  have "r1 = r \<and> (m_Term m = 0 \<or> m_Term m = r_Term r)
      \<or> (\<exists>lead. becomeFollower (m_Term m) lead r = Inr r1 \<and> r_Term r < m_Term m)"
    using assms(1) by (auto simp: step_term_def bindR_Inr_iff split: if_splits)
  then have "follows P i H M ms S r r1 \<and> (m_Term m = 0 \<or> m_Term m = r_Term r1) \<and> r_RaftLog r1 = r_RaftLog r"
  proof
    assume "\<exists>lead. becomeFollower (m_Term m) lead r = Inr r1 \<and> r_Term r < m_Term m"
    then obtain lead where b: "becomeFollower (m_Term m) lead r = Inr r1" "r_Term r \<le> m_Term m" by auto
    then show ?thesis using becomeFollower_follows [OF b(1) assms(2) b(2)] becomeFollower_keeps(2,6) [OF b(1)] by simp
  qed (use assms(2) in auto)
  then show "follows P i H M ms S r r1" "m_Term m = 0 \<or> m_Term m = r_Term r1" "r_RaftLog r1 = r_RaftLog r" by blast+
qed

lemma Step_follows:
  assumes s: "Step (MemoryStorage_view ms) m r = Inr (e, r')" and ok: "peer_ok P i r" and hd: "heard P i H M m"
    and st: "st_conf P (MemoryStorage_view ms)" and d: "on_disk ms S" and fits: "fits m r"
  shows "follows P i H M ms S r r'"
proof -
  obtain res where res: "step_term m r = Inr res" using s by (auto simp: Step_def bindR_Inr_iff)
  show ?thesis
  proof (cases res)
    case None
    with res s ok show ?thesis by (simp add: Step_def)
  next
    case (Some r1)
    have f: "follows P i H M ms S r r1" "m_Term m = 0 \<or> m_Term m = r_Term r1" "r_RaftLog r1 = r_RaftLog r"
      using step_term_follows [OF res [unfolded Some] ok] by blast+
    note ok1 = follows_ok [OF f(1)]
    have fits1: "fits m r1" using fits f(3) by (simp add: fits_def)
    consider "m_MsgType m = MsgHup" | "m_MsgType m = MsgRequestVote" | "m_MsgType m \<noteq> MsgHup" "m_MsgType m \<noteq> MsgRequestVote" by blast
    then have "follows P i H M ms S r1 r'"
    proof cases
      case 1
      then have "hup (MemoryStorage_view ms) r1 = Inr r'" using s res Some by (simp add: Step_def)
      then show ?thesis by (rule hup_follows [OF _ ok1 d fits_room(2) [OF fits1]])
    next
      case 2
      then have "requestVote m r1 = Inr r'" "m_From m \<noteq> 0" using s res Some hd by (auto simp: Step_def heard_def handed_def)
      then show ?thesis using requestVote_follows [OF _ ok1 2 _ f(2)] hd by (simp add: heard_def)
    next
      case 3
      with s res Some have c: "(case r_State r1 of StateFollower \<Rightarrow> stepFollower (MemoryStorage_view ms) m r1
          | StateCandidate \<Rightarrow> stepCandidate (MemoryStorage_view ms) m r1 | StateLeader \<Rightarrow> stepLeader (MemoryStorage_view ms) m r1) = Inr (e, r')"
        by (auto simp: Step_def split: MessageType.splits)
      have sm: "says m M" using hd by (simp add: heard_def)
      show ?thesis
      proof (cases "r_State r1")
        case StateFollower
        with c show ?thesis using stepFollower_follows [OF _ ok1 StateFollower hd d fits1 f(2)] by simp
      next
        case StateCandidate
        with c show ?thesis using stepCandidate_follows [OF _ ok1 StateCandidate hd st d fits1 f(2)] by simp
      next
        case StateLeader
        with c show ?thesis using stepLeader_follows [OF ok1 st d StateLeader fits_room(1) [OF fits1] sm f(2)] by simp
      qed
    qed
    with f(1) show ?thesis by (rule follows_trans)
  qed
qed

lemma local_heard:
  assumes "m_MsgType m \<in> {MsgHup, MsgBeat, MsgPropose, MsgTransferLeader}"
  shows "heard P i H M m"
proof -
  have "\<not> lead_msg m" "m_MsgType m \<noteq> MsgRequestVote" "m_MsgType m \<noteq> MsgRequestVoteResponse" using assms by (auto simp: lead_msg_def)
  note l = local_msg [OF this]
  show ?thesis using l assms by (auto simp: heard_def says_def)
qed

lemma tick_follows:
  assumes tk: "tick (MemoryStorage_view ms) r = Inr r'" and ok: "peer_ok P i r" and st: "st_conf P (MemoryStorage_view ms)" and d: "on_disk ms S"
    and room: "log_LastIndex (r_RaftLog r) + 1 < 2 ^ 63"
  shows "follows P i H M ms S r r'"
proof -
  have "\<exists>r1. quiet P r r1 \<and> r_msgs r1 = r_msgs r \<and> r_RaftLog r1 = r_RaftLog r \<and> (\<forall>q. holds ms S r1 q = holds ms S r q)
      \<and> (r' = r1 \<or> (\<exists>m e. Step (MemoryStorage_view ms) m r1 = Inr (e, r') \<and> (m_MsgType m = MsgHup \<or> m_MsgType m = MsgBeat) \<and> m_Entries m = [] \<and> m_Snapshot m = None))"
  proof (cases "r_State r = StateLeader")
    case True
    let ?r1 = "r\<lparr>r_heartbeatElapsed := r_heartbeatElapsed r + 1, r_electionElapsed := r_electionElapsed r + 1\<rparr>"
    define r2 where "r2 = (if r_electionElapsed ?r1 \<ge> r_electionTimeout ?r1
      then let r1' = ?r1\<lparr>r_electionElapsed := 0\<rparr> in
           if r_State r1' = StateLeader \<and> r_leadTransferee r1' \<noteq> NoNode then abortLeaderTransfer r1' else r1'
      else ?r1)"
    let ?r3 = "r2\<lparr>r_heartbeatElapsed := 0\<rparr>"
    have q: "quiet P r r2" "quiet P r ?r3"
      using peer_ok_conf [OF ok] by (auto simp: r2_def quiet_def conf_def members_def abortLeaderTransfer_def Let_def)
    have k: "r_msgs r2 = r_msgs r" "r_RaftLog r2 = r_RaftLog r" "\<And>q. holds ms S r2 q = holds ms S r q"
      by (simp_all add: r2_def abortLeaderTransfer_def Let_def)
    have "tick (MemoryStorage_view ms) r = (if r_State r2 \<noteq> StateLeader then Inr r2
        else if r_heartbeatElapsed r2 \<ge> r_heartbeatTimeout r2
        then drop_err (Step (MemoryStorage_view ms) (zeroMessage\<lparr>m_From := r_id r2, m_MsgType := MsgBeat\<rparr>) ?r3)
        else Inr r2)"
      using True by (simp only: tick_def tickHeartbeat_def Let_def r2_def StateType.case)
    then have "r' = r2 \<or> (\<exists>e. Step (MemoryStorage_view ms) (zeroMessage\<lparr>m_From := r_id r2, m_MsgType := MsgBeat\<rparr>) ?r3 = Inr (e, r'))"
      unfolding tk by (metis drop_err_Inr sum.inject(2))
    then show ?thesis
    proof
      assume "r' = r2"
      then show ?thesis using q(1) k by (intro exI [of _ r2]) simp
    next
      assume "\<exists>e. Step (MemoryStorage_view ms) (zeroMessage\<lparr>m_From := r_id r2, m_MsgType := MsgBeat\<rparr>) ?r3 = Inr (e, r')"
      then obtain e where "Step (MemoryStorage_view ms) (zeroMessage\<lparr>m_From := r_id r2, m_MsgType := MsgBeat\<rparr>) ?r3 = Inr (e, r')" by blast
      then show ?thesis using q(2) k
        by (intro exI [of _ ?r3] conjI disjI2 exI [of _ "zeroMessage\<lparr>m_From := r_id r2, m_MsgType := MsgBeat\<rparr>"] exI [of _ e]) (simp_all add: zeroMessage_def)
    qed
  next
    case False
    let ?r1 = "r\<lparr>r_electionElapsed := r_electionElapsed r + 1\<rparr>"
    let ?r2 = "?r1\<lparr>r_electionElapsed := 0\<rparr>"
    have q: "quiet P r ?r1" "quiet P r ?r2" using peer_ok_conf [OF ok] by auto
    have "tickElection (MemoryStorage_view ms) r = Inr r'" using False tk by (cases "r_State r") (auto simp: tick_def)
    then have "r' = ?r1 \<or> (\<exists>e. Step (MemoryStorage_view ms) (zeroMessage\<lparr>m_From := r_id r, m_MsgType := MsgHup\<rparr>) ?r2 = Inr (e, r'))"
      by (auto simp: tickElection_def Let_def drop_err_Inr split: if_splits)
    then show ?thesis
    proof
      assume "r' = ?r1"
      then show ?thesis using q(1) by (intro exI [of _ ?r1]) simp
    next
      assume "\<exists>e. Step (MemoryStorage_view ms) (zeroMessage\<lparr>m_From := r_id r, m_MsgType := MsgHup\<rparr>) ?r2 = Inr (e, r')"
      then obtain e where "Step (MemoryStorage_view ms) (zeroMessage\<lparr>m_From := r_id r, m_MsgType := MsgHup\<rparr>) ?r2 = Inr (e, r')" by blast
      moreover have "m_MsgType (zeroMessage\<lparr>m_From := r_id r, m_MsgType := MsgHup\<rparr>) = MsgHup" "m_Entries (zeroMessage\<lparr>m_From := r_id r, m_MsgType := MsgHup\<rparr>) = []"
        "m_Snapshot (zeroMessage\<lparr>m_From := r_id r, m_MsgType := MsgHup\<rparr>) = None" by (simp_all add: zeroMessage_def)
      ultimately show ?thesis using q(2) by (intro exI [of _ ?r2] conjI disjI2) (simp, simp, simp, simp, blast)
    qed
  qed
  then obtain r1 where r1: "quiet P r r1" "r_msgs r1 = r_msgs r" "r_RaftLog r1 = r_RaftLog r" "\<forall>q. holds ms S r1 q = holds ms S r q"
    "r' = r1 \<or> (\<exists>m e. Step (MemoryStorage_view ms) m r1 = Inr (e, r') \<and> (m_MsgType m = MsgHup \<or> m_MsgType m = MsgBeat) \<and> m_Entries m = [] \<and> m_Snapshot m = None)"
    by blast
  have f: "follows P i H M ms S r r1" using silent_follows [OF ok r1(1,2)] r1(4) by simp
  have "follows P i H M ms S r1 r'"
    using r1(5)
  proof
    assume "\<exists>m e. Step (MemoryStorage_view ms) m r1 = Inr (e, r') \<and> (m_MsgType m = MsgHup \<or> m_MsgType m = MsgBeat) \<and> m_Entries m = [] \<and> m_Snapshot m = None"
    then obtain m e where m: "Step (MemoryStorage_view ms) m r1 = Inr (e, r')" "m_MsgType m \<in> {MsgHup, MsgBeat, MsgPropose, MsgTransferLeader}"
      "m_Entries m = []" "m_Snapshot m = None" by blast
    have "fits m r1" using m(3,4) room r1(3) by (simp add: fits_def)
    then show ?thesis by (rule Step_follows [OF m(1) follows_ok [OF f] local_heard [OF m(2)] st d])
  qed (use follows_ok [OF f] in simp)
  with f show ?thesis by (rule follows_trans)
qed

end
