(* ===== verification/Replicated.thy ===== *)
theory Replicated
  imports Replica_Node
begin

text \<open>
  A cluster of Raft nodes with their storage (\<open>MemoryStorage\<close>): nodes are stepped, ticked and proposed to; a \<open>Ready\<close> is saved, its messages
  are sent, its committed entries are handed to the application, and \<open>Advance\<close> ends it before the node is stepped again; storage is
  snapshotted and compacted up to what was applied; nodes stop at any point and start again from their storage. The cluster implements the
  replication protocol, so the nodes never hand out different entries for an index.
\<close>

section \<open>The cluster\<close>

record rcluster =
  rc_node :: "nat \<Rightarrow> RawNode"
  rc_disk :: "nat \<Rightarrow> MemoryStorage"
  rc_net :: "Message set"
  rc_given :: "Entry set"

text \<open>Saving a \<open>Ready\<close>: the snapshot, the entries and the hard state, where there are any.\<close>

definition save_disk :: "Ready \<Rightarrow> MemoryStorage \<Rightarrow> MemoryStorage rres" where
  "save_disk rd ms =
     bindR (if IsEmptySnap (Some (rdy_Snapshot rd)) then Inr ms else orPanic (MemoryStorage_ApplySnapshot ms (rdy_Snapshot rd))) (\<lambda>ms1.
     bindR (MemoryStorage_Append ms1 (rdy_Entries rd)) (\<lambda>ms2.
       Inr (if IsEmptyHardState (rdy_HardState rd) then ms2 else MemoryStorage_SetHardState ms2 (rdy_HardState rd))))"

text \<open>Starting from storage, which holds the configuration.\<close>

definition boots :: "nat \<Rightarrow> MemoryStorage \<Rightarrow> RawNode \<Rightarrow> bool" where
  "boots i ms rn \<longleftrightarrow> (\<exists>cfg rand. c_ID cfg = i \<and> c_peers cfg = [] \<and> NewRawNode (MemoryStorage_view ms) cfg rand = Inr rn)"

text \<open>Storage that holds a snapshot of the state after the first \<open>s0\<close> entries, of term \<open>T0\<close>, and nothing else.\<close>

definition fresh :: "nat set \<Rightarrow> nat \<Rightarrow> nat \<Rightarrow> MemoryStorage \<Rightarrow> bool" where
  "fresh P s0 T0 ms \<longleftrightarrow> length (ms_ents ms) = 1 \<and> ms_base ms = s0 \<and> ms_base_term ms = T0 \<and> s0 + 1 < 2 ^ 63
     \<and> hs_Commit (ms_hardState ms) = s0 \<and> T0 \<le> hs_Term (ms_hardState ms) \<and> set (sm_ConfState (sn_Metadata (ms_snapshot ms))) = P
     \<and> (sm_Index (sn_Metadata (ms_snapshot ms)) = 0
        \<or> sm_Index (sn_Metadata (ms_snapshot ms)) = s0 \<and> sm_Term (sn_Metadata (ms_snapshot ms)) = T0)"

definition has_room :: "nat \<Rightarrow> RawNode \<Rightarrow> bool" where
  "has_room n rn \<longleftrightarrow> log_LastIndex (r_RaftLog (rn_Raft rn)) + n < 2 ^ 63"

definition put :: "nat \<Rightarrow> RawNode \<Rightarrow> MemoryStorage \<Rightarrow> rcluster \<Rightarrow> rcluster" where
  "put i rn ms c = c\<lparr>rc_node := (rc_node c)(i := rn), rc_disk := (rc_disk c)(i := ms)\<rparr>"

definition emit :: "Ready \<Rightarrow> rcluster \<Rightarrow> rcluster" where
  "emit rd c = c\<lparr>rc_net := rc_net c \<union> set (rdy_Messages rd), rc_given := rc_given c \<union> set (rdy_CommittedEntries rd)\<rparr>"

inductive rstep :: "nat set \<Rightarrow> rcluster \<Rightarrow> rcluster \<Rightarrow> bool" for P where
  deliver: "i \<in> P \<Longrightarrow> m \<in> rc_net c \<Longrightarrow> m_To m = i \<Longrightarrow> fits m (rn_Raft (rc_node c i)) \<Longrightarrow>
    RawNode_Step (MemoryStorage_view (rc_disk c i)) m (rc_node c i) = Inr (e, rn) \<Longrightarrow> rstep P c (put i rn (rc_disk c i) c)"
| tick: "i \<in> P \<Longrightarrow> has_room 1 (rc_node c i) \<Longrightarrow>
    RawNode_Tick (MemoryStorage_view (rc_disk c i)) (rc_node c i) = Inr rn \<Longrightarrow> rstep P c (put i rn (rc_disk c i) c)"
| campaign: "i \<in> P \<Longrightarrow> has_room 1 (rc_node c i) \<Longrightarrow>
    RawNode_Campaign (MemoryStorage_view (rc_disk c i)) (rc_node c i) = Inr (e, rn) \<Longrightarrow> rstep P c (put i rn (rc_disk c i) c)"
| propose: "i \<in> P \<Longrightarrow> has_room 2 (rc_node c i) \<Longrightarrow>
    RawNode_Propose (MemoryStorage_view (rc_disk c i)) data (rc_node c i) = Inr (e, rn) \<Longrightarrow> rstep P c (put i rn (rc_disk c i) c)"
| transfer: "i \<in> P \<Longrightarrow> has_room 1 (rc_node c i) \<Longrightarrow>
    RawNode_TransferLeader (MemoryStorage_view (rc_disk c i)) n (rc_node c i) = Inr rn \<Longrightarrow> rstep P c (put i rn (rc_disk c i) c)"
| ready: "i \<in> P \<Longrightarrow> has_room 1 (rc_node c i) \<Longrightarrow> RawNode_Ready (rc_node c i) = Inr (rd, rn) \<Longrightarrow> save_disk rd (rc_disk c i) = Inr ms \<Longrightarrow>
    RawNode_Advance rd rn = Inr rn' \<Longrightarrow> rstep P c (emit rd (put i rn' ms c))"
| crash: "i \<in> P \<Longrightarrow> has_room 1 (rc_node c i) \<Longrightarrow> RawNode_Ready (rc_node c i) = Inr (rd, rn) \<Longrightarrow> save_disk rd (rc_disk c i) = Inr ms \<Longrightarrow>
    boots i ms rn' \<Longrightarrow> rstep P c (emit rd (put i rn' ms c))"
| restart: "i \<in> P \<Longrightarrow> boots i (rc_disk c i) rn \<Longrightarrow> rstep P c (put i rn (rc_disk c i) c)"
| snapshot: "i \<in> P \<Longrightarrow> k \<le> lg_applied (r_RaftLog (rn_Raft (rc_node c i))) \<Longrightarrow>
    MemoryStorage_CreateSnapshot (rc_disk c i) k None data = Inr (Inr (sn, ms)) \<Longrightarrow> rstep P c (put i (rc_node c i) ms c)"
| compact: "i \<in> P \<Longrightarrow> k \<le> lg_applied (r_RaftLog (rn_Raft (rc_node c i))) \<Longrightarrow>
    MemoryStorage_Compact (rc_disk c i) k = Inr (Inr ms) \<Longrightarrow> rstep P c (put i (rc_node c i) ms c)"

inductive rreach :: "nat set \<Rightarrow> nat \<Rightarrow> nat \<Rightarrow> rcluster \<Rightarrow> bool" for P s0 T0 where
  start: "(\<And>i. i \<in> P \<Longrightarrow> fresh P s0 T0 (rc_disk c i) \<and> boots i (rc_disk c i) (rc_node c i)) \<Longrightarrow> rc_net c = {} \<Longrightarrow> rc_given c = {} \<Longrightarrow>
    (s0 = 0 \<Longrightarrow> T0 = 0) \<Longrightarrow> rreach P s0 T0 c"
| step: "rreach P s0 T0 c \<Longrightarrow> rstep P c c' \<Longrightarrow> rreach P s0 T0 c'"

section \<open>The cluster implements the protocol\<close>

definition disk_link :: "nat set \<Rightarrow> MemoryStorage \<Rightarrow> lsys \<Rightarrow> nat \<Rightarrow> bool" where
  "disk_link P ms s i \<longleftrightarrow> on_disk ms (lr_slog s i) \<and> lr_scommit s i = hs_Commit (ms_hardState ms)
     \<and> es_saved (lr_e s) i = hs_pair (ms_hardState ms) \<and> set (sm_ConfState (sn_Metadata (ms_snapshot ms))) = P"

definition node_link :: "nat set \<Rightarrow> RawNode \<Rightarrow> MemoryStorage \<Rightarrow> lsys \<Rightarrow> nat \<Rightarrow> bool" where
  "node_link P rn ms s i \<longleftrightarrow> peer_ok P i (rn_Raft rn) \<and> rn_prevHardSt rn = ms_hardState ms
     \<and> lnode_of s i = shown (rn_Raft rn) (lr_q s i) (lr_lo s i)
     \<and> holds ms (lr_slog s i) (rn_Raft rn) (lr_q s i) \<and> carried (set (r_msgs (rn_Raft rn))) (lr_lo s i)"

text \<open>An entry that was handed out is committed.\<close>

definition recorded :: "world \<Rightarrow> nat set \<Rightarrow> Entry \<Rightarrow> bool" where
  "recorded W P x \<longleftrightarrow> (\<exists>L. committed W P L \<and> 0 < e_Index x \<and> e_Index x \<le> length L \<and> L ! (e_Index x - 1) = x)"

definition net_link :: "nat set \<Rightarrow> rcluster \<Rightarrow> lsys \<Rightarrow> bool" where
  "net_link P c s \<longleftrightarrow> abs_msgs (rc_net c) \<subseteq> es_net (lr_e s) \<and> carried (rc_net c) (lr_net s) \<and> (\<forall>m\<in>rc_net c. wire P m)
     \<and> (\<forall>x\<in>rc_given c. recorded (world_of s) P x)"

definition rlink :: "nat set \<Rightarrow> rcluster \<Rightarrow> lsys \<Rightarrow> bool" where
  "rlink P c s \<longleftrightarrow> (\<forall>i\<in>P. disk_link P (rc_disk c i) s i \<and> node_link P (rc_node c i) (rc_disk c i) s i) \<and> net_link P c s"

lemma recorded_grow: "recorded W P x \<Longrightarrow> grow W W' \<Longrightarrow> recorded W' P x"
  unfolding recorded_def using grow_committed by blast

lemma put_fields [simp]:
  "rc_node (put i rn ms c) = (rc_node c)(i := rn)" "rc_disk (put i rn ms c) = (rc_disk c)(i := ms)"
  "rc_net (put i rn ms c) = rc_net c" "rc_given (put i rn ms c) = rc_given c"
  by (simp_all add: put_def)

lemma emit_fields [simp]:
  "rc_node (emit rd c) = rc_node c" "rc_disk (emit rd c) = rc_disk c"
  "rc_net (emit rd c) = rc_net c \<union> set (rdy_Messages rd)" "rc_given (emit rd c) = rc_given c \<union> set (rdy_CommittedEntries rd)"
  by (simp_all add: emit_def)

text \<open>A call of a node.\<close>

lemma rlink_call:
  assumes l: "rlink P c s" and s: "lreach P T0 D s" and i: "i \<in> P" and P: "finite P" "0 \<notin> P" "2 \<le> card P" "\<forall>x\<in>set D. e_Term x = T0"
    and f: "follows P i (es_net (lr_e s)) (lr_net s) (rc_disk c i) (lr_slog s i) (rn_Raft (rc_node c i)) (rn_Raft rn)"
    and prev: "rn_prevHardSt rn = rn_prevHardSt (rc_node c i)"
  shows "\<exists>s'. lreach P T0 D s' \<and> rlink P (put i rn (rc_disk c i) c) s'"
proof -
  let ?r = "rn_Raft (rc_node c i)"
  have nl: "node_link P (rc_node c i) (rc_disk c i) s i" "disk_link P (rc_disk c i) s i" using l i by (simp_all add: rlink_def)
  then obtain q' lo' where q': "lsteps P i (es_net (lr_e s)) (lr_net s) (lnode_of s i) (shown (rn_Raft rn) q' lo')"
    "holds (rc_disk c i) (lr_slog s i) (rn_Raft rn) q'" "carried (set (r_msgs (rn_Raft rn))) lo'"
    using f unfolding follows_def node_link_def by metis
  obtain s' where s': "lreach P T0 D s'" "lacted i (shown (rn_Raft rn) q' lo') s s'" using lreach_lsteps [OF q'(1) s i P] by blast
  have a: "lnode_of s' = (lnode_of s)(i := shown (rn_Raft rn) q' lo')" "es_saved (lr_e s') = es_saved (lr_e s)" "es_net (lr_e s') = es_net (lr_e s)"
    "lr_net s' = lr_net s" "lr_slog s' = lr_slog s" "lr_scommit s' = lr_scommit s" "grow (world_of s) (world_of s')"
    using s'(2) by (simp_all add: lacted_def)
  have qi: "lr_q s' i = q'" "lr_lo s' i = lo'" using fun_cong [OF a(1), of i] by (simp_all add: lnode_of_def shown_def)
  have qj: "lr_q s' j = lr_q s j" "lr_lo s' j = lr_lo s j" if "j \<noteq> i" for j using fun_cong [OF a(1), of j] that by (simp_all add: lnode_of_def)
  have "node_link P rn (rc_disk c i) s' i"
    using nl(1) follows_ok [OF f] prev q'(2,3) fun_cong [OF a(1), of i] by (simp add: node_link_def qi a(5))
  moreover have "node_link P (rc_node c j) (rc_disk c j) s' j" if "j \<in> P" "j \<noteq> i" for j
    using l that fun_cong [OF a(1), of j] qj [OF that(2)] by (simp add: rlink_def node_link_def a(5))
  moreover have "disk_link P ms s' j = disk_link P ms s j" for ms j by (simp add: disk_link_def a(2,5,6))
  moreover have "net_link P (put i rn (rc_disk c i) c) s'"
    using l recorded_grow [OF _ a(7)] by (simp add: rlink_def net_link_def a(3,4))
  ultimately have "rlink P (put i rn (rc_disk c i) c) s'" using l by (auto simp: rlink_def)
  with s'(1) show ?thesis by blast
qed

section \<open>Saving\<close>

lemma ms_append_end:
  assumes "ms_wf ms" "contiguous (n + 1) ents" "ents \<noteq> []" "ms_base ms \<le> n" "MemoryStorage_Append ms ents = Inr ms'"
  shows "ms_base ms' = ms_base ms" "ms_base_term ms' = ms_base_term ms" "ms_saved ms' = take (n - ms_base ms) (ms_saved ms) @ ents"
    "ms_hardState ms' = ms_hardState ms" "ms_snapshot ms' = ms_snapshot ms" "ms_ents ms' \<noteq> []"
proof -
  obtain e es where ms: "ms_ents ms = e # es" "ms_base ms = e_Index e" "ms_base_term ms = e_Term e" "ms_saved ms = es"
    using ms_cases [OF assms(1)] by metis
  have "0 < length ents" using assms(3) by simp
  then have "\<not> n + 1 + length ents \<le> e_Index e + 1" using assms(4) unfolding ms(2) by linarith
  then have "ms' = ms\<lparr>ms_ents := e # take (n - e_Index e) es @ ents\<rparr>"
    using assms(4,5) ms(2) by (auto simp: append_result [OF ms(1) assms(2,3)] split: if_splits)
  then show "ms_base ms' = ms_base ms" "ms_base_term ms' = ms_base_term ms" "ms_saved ms' = take (n - ms_base ms) (ms_saved ms) @ ents"
    "ms_hardState ms' = ms_hardState ms" "ms_snapshot ms' = ms_snapshot ms" "ms_ents ms' \<noteq> []"
    using ms by (simp_all add: ms_base_def ms_base_term_def ms_saved_def)
qed

text \<open>What \<open>Ready\<close> holds of the log.\<close>

lemma ready_log:
  assumes "RawNode_Ready rn = Inr (rd, rn')" "reps (r_RaftLog (rn_Raft rn)) L"
  shows "rdy_Entries rd = drop (lg_stabled (r_RaftLog (rn_Raft rn))) L"
    "rdy_Snapshot rd = (case lg_pending_snapshot (r_RaftLog (rn_Raft rn)) of Some s \<Rightarrow> s | None \<Rightarrow> emptySnapshot)"
    "set (rdy_CommittedEntries rd) \<subseteq> set (take (lg_committed (r_RaftLog (rn_Raft rn))) L)"
proof -
  let ?l = "r_RaftLog (rn_Raft rn)"
  note b = reps_bounds [OF assms(2)]
  have e: "lg_entries ?l = drop (lg_snapIndex ?l) L" using assms(2) by (simp add: reps_def)
  have "rdy_Entries rd = drop (lg_stabled ?l - lg_snapIndex ?l) (lg_entries ?l)"
    using assms(1) unstable_entries [OF reps_wf [OF assms(2)]] by (auto simp: RawNode_Ready_def newReady_def bindR_Inr_iff)
  then show "rdy_Entries rd = drop (lg_stabled ?l) L" using b(3) by (simp add: e)
  show "rdy_Snapshot rd = (case lg_pending_snapshot ?l of Some s \<Rightarrow> s | None \<Rightarrow> emptySnapshot)"
    using assms(1) by (auto simp: RawNode_Ready_def newReady_def bindR_Inr_iff split: option.splits)
  have "rdy_CommittedEntries rd = drop (lg_applied ?l - lg_snapIndex ?l) (take (lg_committed ?l - lg_snapIndex ?l) (lg_entries ?l))"
    using assms(1) next_entries [OF reps_wf [OF assms(2)]] by (auto simp: RawNode_Ready_def newReady_def bindR_Inr_iff)
  then have "set (rdy_CommittedEntries rd) \<subseteq> set (take (lg_committed ?l - lg_snapIndex ?l) (drop (lg_snapIndex ?l) L))"
    using set_drop_subset by (metis e)
  also have "take (lg_committed ?l - lg_snapIndex ?l) (drop (lg_snapIndex ?l) L) = drop (lg_snapIndex ?l) (take (lg_committed ?l) L)"
    using b(1) by (simp add: drop_take)
  finally show "set (rdy_CommittedEntries rd) \<subseteq> set (take (lg_committed ?l) L)" using set_drop_subset by (metis subset_trans)
qed

lemma save_disk_parts:
  assumes "save_disk rd ms = Inr d"
  obtains ms1 ms2 where "(if IsEmptySnap (Some (rdy_Snapshot rd)) then Inr ms else orPanic (MemoryStorage_ApplySnapshot ms (rdy_Snapshot rd))) = Inr ms1"
    "MemoryStorage_Append ms1 (rdy_Entries rd) = Inr ms2"
    "d = (if IsEmptyHardState (rdy_HardState rd) then ms2 else MemoryStorage_SetHardState ms2 (rdy_HardState rd))"
  using assms by (auto simp: save_disk_def bindR_Inr_iff)

text \<open>The entries a \<open>Ready\<close> holds complete what is stored, or the snapshot, to the log in memory.\<close>

lemma save_entries:
  assumes d: "on_disk ms S" and r: "reps l L" and al: "aligned ms S l L" and n: "contiguous 1 L"
    and sn: "(case lg_pending_snapshot l of None \<Rightarrow> ms1 = ms | Some s \<Rightarrow> ms1 = ms\<lparr>ms_snapshot := s,
       ms_ents := [zeroEntry\<lparr>e_Term := sm_Term (sn_Metadata s), e_Index := sm_Index (sn_Metadata s)\<rparr>]\<rparr>)"
    and b: "length L + 1 < 2 ^ 63" and ap: "MemoryStorage_Append ms1 (drop (lg_stabled l) L) = Inr ms2"
  shows "ms_base ms2 \<le> lg_stabled l" "ms_base_term ms2 = lterm L (ms_base ms2)" "ms_saved ms2 = drop (ms_base ms2) L" "ms_ents ms2 \<noteq> []"
    "ms_hardState ms2 = ms_hardState ms" "ms_snapshot ms2 = ms_snapshot ms1" "ms_base ms2 \<le> lg_committed l"
proof -
  have st: "lg_stabled l \<le> length L" by (rule reps_bounds(4) [OF r])
  have "ms_wf ms1 \<and> ms_base ms1 \<le> lg_stabled l \<and> ms_base ms1 \<le> lg_committed l \<and> ms_base_term ms1 = lterm L (ms_base ms1)
    \<and> take (lg_stabled l - ms_base ms1) (ms_saved ms1) = take (lg_stabled l - ms_base ms1) (drop (ms_base ms1) L)
    \<and> (lg_stabled l = length L \<longrightarrow> ms_saved ms1 = drop (ms_base ms1) L) \<and> ms_hardState ms1 = ms_hardState ms"
  proof (cases "lg_pending_snapshot l")
    case None
    then have a: "hs_Commit (ms_hardState ms) \<le> lg_stabled l" "lg_stabled l \<le> length S" "take (lg_stabled l) S = take (lg_stabled l) L"
      "lg_stabled l = length L \<longrightarrow> S = L" "hs_Commit (ms_hardState ms) \<le> lg_committed l" using al by (simp_all add: aligned_def)
    have dd: "ms_wf ms" "ms_saved ms = drop (ms_base ms) S" "ms_base_term ms = lterm S (ms_base ms)" "ms_base ms \<le> hs_Commit (ms_hardState ms)"
      using d by (simp_all add: on_disk_def)
    have base: "ms_base ms \<le> lg_stabled l" using dd(4) a(1) by simp
    have "lterm S (ms_base ms) = lterm L (ms_base ms)" by (rule lterm_eqI [OF a(3,2) st base])
    moreover have "take (lg_stabled l - ms_base ms) (drop (ms_base ms) S) = take (lg_stabled l - ms_base ms) (drop (ms_base ms) L)"
      using a(3) by (metis drop_take)
    ultimately show ?thesis using None sn dd base a(4,5) by simp
  next
    case (Some s)
    then have a: "sm_Index (sn_Metadata s) = lg_stabled l" "sm_Term (sn_Metadata s) = lterm L (lg_stabled l)" "lg_stabled l \<le> lg_snapIndex l"
      using al by (simp_all add: aligned_def)
    have "lg_stabled l \<le> lg_committed l" using a(3) reps_bounds(1) [OF r] by simp
    then show ?thesis using Some sn a b st by (auto simp: ms_wf_def ms_base_def ms_base_term_def ms_saved_def)
  qed
  then have m1: "ms_wf ms1" "ms_base ms1 \<le> lg_stabled l" "ms_base ms1 \<le> lg_committed l" "ms_base_term ms1 = lterm L (ms_base ms1)"
    "take (lg_stabled l - ms_base ms1) (ms_saved ms1) = take (lg_stabled l - ms_base ms1) (drop (ms_base ms1) L)"
    "lg_stabled l = length L \<longrightarrow> ms_saved ms1 = drop (ms_base ms1) L" "ms_hardState ms1 = ms_hardState ms" by blast+
  have "ms_base ms2 = ms_base ms1 \<and> ms_base_term ms2 = ms_base_term ms1 \<and> ms_saved ms2 = drop (ms_base ms1) L \<and> ms_ents ms2 \<noteq> []
    \<and> ms_hardState ms2 = ms_hardState ms1 \<and> ms_snapshot ms2 = ms_snapshot ms1"
  proof (cases "lg_stabled l = length L")
    case True
    then show ?thesis using ap m1(1,6) by (simp add: MemoryStorage_Append_def ms_wf_def)
  next
    case False
    then have ne: "drop (lg_stabled l) L \<noteq> []" using st by simp
    have "contiguous (lg_stabled l + 1) (drop (lg_stabled l) L)" using contiguous_drop [OF n st] by simp
    note e = ms_append_end [OF m1(1) this ne m1(2) ap]
    have "ms_saved ms2 = take (lg_stabled l - ms_base ms1) (drop (ms_base ms1) L) @ drop (lg_stabled l) L" using e(3) m1(5) by simp
    also have "\<dots> = drop (ms_base ms1) L"
      using m1(2) by (metis append_take_drop_id drop_drop le_add_diff_inverse2)
    finally show ?thesis using e by simp
  qed
  then show "ms_base ms2 \<le> lg_stabled l" "ms_base_term ms2 = lterm L (ms_base ms2)" "ms_saved ms2 = drop (ms_base ms2) L" "ms_ents ms2 \<noteq> []"
    "ms_hardState ms2 = ms_hardState ms" "ms_snapshot ms2 = ms_snapshot ms1" "ms_base ms2 \<le> lg_committed l"
    using m1 by auto
qed

lemma hard_state_eq: "isHardStateEqual a b \<longleftrightarrow> a = b"
  by (auto simp: isHardStateEqual_def intro: HardState.equality)

lemma saved_on_disk:
  assumes d: "on_disk ms S" and r: "reps (r_RaftLog (rn_Raft rn)) L" and al: "aligned ms S (r_RaftLog (rn_Raft rn)) L"
    and rd: "RawNode_Ready rn = Inr (rd, rn')" and sv: "save_disk rd ms = Inr ms'" and prev: "rn_prevHardSt rn = ms_hardState ms"
    and empty: "IsEmptyHardState (hardState (rn_Raft rn)) \<Longrightarrow> ms_hardState ms = hardState (rn_Raft rn)"
    and room: "length L + 1 < 2 ^ 63"
    and conf: "set (sm_ConfState (sn_Metadata (ms_snapshot ms))) = P" "\<And>s. lg_pending_snapshot (r_RaftLog (rn_Raft rn)) = Some s \<Longrightarrow> snap_conf P s"
  shows "on_disk ms' L" "ms_hardState ms' = hardState (rn_Raft rn)" "set (sm_ConfState (sn_Metadata (ms_snapshot ms'))) = P"
proof -
  let ?l = "r_RaftLog (rn_Raft rn)"
  note log = ready_log [OF rd r]
  obtain ms1 ms2 where p: "(if IsEmptySnap (Some (rdy_Snapshot rd)) then Inr ms else orPanic (MemoryStorage_ApplySnapshot ms (rdy_Snapshot rd))) = Inr ms1"
    "MemoryStorage_Append ms1 (rdy_Entries rd) = Inr ms2"
    "ms' = (if IsEmptyHardState (rdy_HardState rd) then ms2 else MemoryStorage_SetHardState ms2 (rdy_HardState rd))"
    using save_disk_parts [OF sv] by metis
  have sn: "case lg_pending_snapshot ?l of None \<Rightarrow> ms1 = ms | Some s \<Rightarrow> ms1 = ms\<lparr>ms_snapshot := s,
       ms_ents := [zeroEntry\<lparr>e_Term := sm_Term (sn_Metadata s), e_Index := sm_Index (sn_Metadata s)\<rparr>]\<rparr>"
  proof (cases "lg_pending_snapshot ?l")
    case None
    then show ?thesis using p(1) log(2) by (simp add: IsEmptySnap_def emptySnapshot_def)
  next
    case (Some s)
    then have "hs_Commit (ms_hardState ms) < sm_Index (sn_Metadata s)" using al by (simp add: aligned_def)
    then have "\<not> IsEmptySnap (Some s)" "\<not> sm_Index (sn_Metadata s) \<le> sm_Index (sn_Metadata (ms_snapshot ms))"
      using d by (auto simp: IsEmptySnap_def on_disk_def)
    then show ?thesis using p(1) log(2) Some by (simp add: MemoryStorage_ApplySnapshot_def orPanic_def Let_def)
  qed
  have c1: "contiguous 1 L" using r by (simp add: reps_def)
  note e = save_entries [OF d r al c1 sn room p(2) [unfolded log(1)]]
  note hard = ready_parts(3) [OF rd]
  show hs: "ms_hardState ms' = hardState (rn_Raft rn)"
  proof (cases "hardState (rn_Raft rn) = rn_prevHardSt rn")
    case True
    then have "IsEmptyHardState (rdy_HardState rd)" using hard by (simp add: hard_state_eq IsEmptyHardState_def)
    then show ?thesis using p(3) e(5) True prev by simp
  next
    case False
    then have rh: "rdy_HardState rd = hardState (rn_Raft rn)" using hard by (simp add: hard_state_eq)
    then show ?thesis using p(3) e(5) empty by (auto simp: MemoryStorage_SetHardState_def)
  qed
  have same: "ms_ents ms' = ms_ents ms2" "ms_snapshot ms' = ms_snapshot ms2" using p(3) by (auto simp: MemoryStorage_SetHardState_def)
  have b: "ms_base ms' = ms_base ms2" "ms_base_term ms' = ms_base_term ms2" "ms_saved ms' = ms_saved ms2"
    using same by (simp_all add: ms_base_def ms_base_term_def ms_saved_def)
  have cm: "hs_Commit (ms_hardState ms') = lg_committed ?l" using hs by (simp add: hardState_def)
  have base: "ms_base ms2 \<le> length L" using e(1) reps_bounds(4) [OF r] by simp
  have len: "length (ms_ents ms') = Suc (length L - ms_base ms2)" using e(3,4) same(1) by (cases "ms_ents ms2") (auto simp: ms_saved_def)
  have "ms_wf ms'"
    unfolding ms_wf_def b using e(3,4) len base room same(1) contiguous_drop [OF c1 base] by simp
  moreover have "sm_Index (sn_Metadata (ms_snapshot ms')) \<le> lg_committed ?l \<and> (sm_Index (sn_Metadata (ms_snapshot ms')) \<noteq> 0 \<longrightarrow>
      sm_Term (sn_Metadata (ms_snapshot ms')) = lterm L (sm_Index (sn_Metadata (ms_snapshot ms')))) \<and> set (sm_ConfState (sn_Metadata (ms_snapshot ms'))) = P"
  proof (cases "lg_pending_snapshot ?l")
    case None
    then have "ms_snapshot ms' = ms_snapshot ms" using sn e(6) same(2) by simp
    moreover have "log_snapshot (MemoryStorage_view ms) ?l = Inr (ms_snapshot ms)"
      using None by (simp add: log_snapshot_def MemoryStorage_view_def MemoryStorage_Snapshot_def)
    ultimately show ?thesis using aligned_snapshot [OF d r al] conf(1) by (cases "sm_Index (sn_Metadata (ms_snapshot ms)) = 0") (auto simp: IsEmptySnap_def)
  next
    case (Some s)
    then have "ms_snapshot ms' = s" using sn e(6) same(2) by simp
    moreover have "sm_Index (sn_Metadata s) \<le> lg_committed ?l \<and> sm_Term (sn_Metadata s) = lterm L (sm_Index (sn_Metadata s))"
      using Some al reps_bounds(1) [OF r] by (simp add: aligned_def)
    ultimately show ?thesis using conf(2) [OF Some] by (simp add: snap_conf_def)
  qed
  note snp = this
  ultimately show "on_disk ms' L" using e(2,3,7) reps_bounds(2) [OF r] c1 by (simp add: on_disk_def b cm)
  show "set (sm_ConfState (sn_Metadata (ms_snapshot ms'))) = P" using snp by blast
qed

text \<open>After \<open>Advance\<close> everything in memory is in storage.\<close>

lemma advanced:
  assumes r: "reps (r_RaftLog (rn_Raft rn)) L" and rd: "RawNode_Ready rn = Inr (rd, rn')" and ad: "RawNode_Advance rd rn' = Inr rn''"
    and empty: "IsEmptyHardState (hardState (rn_Raft rn)) \<Longrightarrow> rn_prevHardSt rn = hardState (rn_Raft rn)"
    and sn: "\<And>s. lg_pending_snapshot (r_RaftLog (rn_Raft rn)) = Some s \<Longrightarrow> \<not> IsEmptySnap (Some s)"
  obtains l where "rn_Raft rn'' = (rn_Raft rn)\<lparr>r_msgs := [], r_RaftLog := l\<rparr>" "rn_prevHardSt rn'' = hardState (rn_Raft rn)" "reps l L"
    "lg_committed l = lg_committed (r_RaftLog (rn_Raft rn))" "lg_applied l \<le> lg_committed l" "lg_stabled l = length L" "lg_pending_snapshot l = None"
proof -
  let ?r = "rn_Raft rn" and ?l = "r_RaftLog (rn_Raft rn)"
  note log = ready_log [OF rd r] and parts = ready_parts [OF rd] and b = reps_bounds [OF r]
  have prev: "(if \<not> IsEmptyHardState (rdy_HardState rd) then rdy_HardState rd else rn_prevHardSt rn) = hardState ?r"
  proof (cases "hardState ?r = rn_prevHardSt rn")
    case True
    then show ?thesis using parts(3) by (simp add: hard_state_eq IsEmptyHardState_def)
  next
    case False
    then show ?thesis using parts(3) empty by (auto simp: hard_state_eq)
  qed
  define l1 where "l1 = (if lg_committed ?l \<noteq> 0 then ?l\<lparr>lg_applied := lg_committed ?l\<rparr> else ?l)"
  define l2 where "l2 = (if rdy_Entries rd \<noteq> [] then let e = rdy_Entries rd ! (length (rdy_Entries rd) - 1) in log_stableTo l1 (e_Index e) (e_Term e) else l1)"
  define l3 where "l3 = (if \<not> IsEmptySnap (Some (rdy_Snapshot rd)) then log_stableSnapTo l2 (sm_Index (sn_Metadata (rdy_Snapshot rd))) else l2)"
  have rn'': "rn_Raft rn'' = ?r\<lparr>r_msgs := [], r_RaftLog := l3\<rparr> \<and> rn_prevHardSt rn'' = hardState ?r"
  proof -
    let ?rn1 = "case rdy_SoftState rd of Some s \<Rightarrow> rn'\<lparr>rn_prevSoftSt := s\<rparr> | None \<Rightarrow> rn'"
    have k: "rn_Raft ?rn1 = ?r\<lparr>r_msgs := []\<rparr>" "rn_prevHardSt ?rn1 = rn_prevHardSt rn" using parts(2) by (simp_all split: option.splits)
    let ?rn2 = "if \<not> IsEmptyHardState (rdy_HardState rd) then ?rn1\<lparr>rn_prevHardSt := rdy_HardState rd\<rparr> else ?rn1"
    have k2: "rn_Raft ?rn2 = ?r\<lparr>r_msgs := []\<rparr>" "rn_prevHardSt ?rn2 = hardState ?r" using k prev by (auto split: if_splits)
    then have cm: "hs_Commit (rn_prevHardSt ?rn2) = lg_committed ?l" by (simp add: hardState_def)
    obtain l1' where l1': "(if hs_Commit (rn_prevHardSt ?rn2) \<noteq> 0 then log_appliedTo (r_RaftLog (rn_Raft ?rn2)) (hs_Commit (rn_prevHardSt ?rn2))
        else Inr (r_RaftLog (rn_Raft ?rn2))) = Inr l1'"
      "rn'' = ?rn2\<lparr>rn_Raft := (rn_Raft ?rn2)\<lparr>r_RaftLog := (if \<not> IsEmptySnap (Some (rdy_Snapshot rd))
        then log_stableSnapTo (if rdy_Entries rd \<noteq> [] then let e = rdy_Entries rd ! (length (rdy_Entries rd) - 1) in log_stableTo l1' (e_Index e) (e_Term e) else l1')
          (sm_Index (sn_Metadata (rdy_Snapshot rd)))
        else (if rdy_Entries rd \<noteq> [] then let e = rdy_Entries rd ! (length (rdy_Entries rd) - 1) in log_stableTo l1' (e_Index e) (e_Term e) else l1'))\<rparr>\<rparr>"
      using ad unfolding RawNode_Advance_def Let_def bindR_Inr_iff by blast
    have "l1' = l1" using l1'(1) unfolding cm k2(1) by (auto simp: l1_def log_appliedTo_def split: if_splits)
    then have "rn'' = ?rn2\<lparr>rn_Raft := (rn_Raft ?rn2)\<lparr>r_RaftLog := l3\<rparr>\<rparr>" using l1'(2) unfolding l3_def l2_def by simp
    then show ?thesis using k2 by simp
  qed
  have wf: "log_wf ?l" by (rule reps_wf [OF r])
  have 1: "reps l1 L" by (rule reps_cong [OF r]) (use wf in \<open>auto simp: l1_def log_wf_def\<close>)
  have ap: "lg_applied l1 \<le> lg_committed l1" using wf by (simp add: l1_def log_wf_def)
  have f1: "lg_committed l1 = lg_committed ?l" "lg_stabled l1 = lg_stabled ?l" "lg_pending_snapshot l1 = lg_pending_snapshot ?l" by (simp_all add: l1_def)
  have l2: "l2 = l1\<lparr>lg_stabled := length L\<rparr>"
  proof (cases "lg_stabled ?l = length L")
    case True
    then show ?thesis using log(1) f1(2) by (simp add: l2_def)
  next
    case False
    then have lt: "lg_stabled ?l < length L" using b(4) by simp
    let ?e = "rdy_Entries rd ! (length (rdy_Entries rd) - 1)"
    have e: "?e = L ! (length L - 1)" "rdy_Entries rd \<noteq> []" using lt by (simp_all add: log(1))
    have "contiguous 1 L" using r by (simp add: reps_def)
    then have ix: "e_Index ?e = length L" using lt e(1) by (simp add: contiguous_def)
    have "e_Term ?e = lterm L (length L)" using lt e(1) by (auto simp: lterm_def)
    then have "log_matchTerm l1 (length L) (e_Term ?e)" using reps_match [OF 1, of "length L"] reps_bounds(1,2) [OF 1] by simp
    then show ?thesis using e(2) ix lt f1(2) by (simp add: l2_def log_stableTo_def)
  qed
  have 2: "reps l2 L" by (rule reps_cong [OF 1]) (use reps_wf [OF 1] 1 reps_bounds [OF 1] in \<open>auto simp: l2 log_wf_def reps_def\<close>)
  have l3: "l3 = l2\<lparr>lg_pending_snapshot := None\<rparr>"
  proof (cases "lg_pending_snapshot ?l")
    case None
    then show ?thesis using log(2) f1(3) by (simp add: l3_def l2 IsEmptySnap_def emptySnapshot_def)
  next
    case (Some s)
    then show ?thesis using log(2) f1(3) sn [OF Some] by (simp add: l3_def l2 log_stableSnapTo_def)
  qed
  have "reps l3 L" by (rule reps_cong [OF 2]) (use reps_wf [OF 2] in \<open>auto simp: l3 log_wf_def\<close>)
  then show ?thesis using that [of l3] rn'' ap f1(1) by (simp add: l3 l2)
qed

lemma saved_vote:
  assumes "einv P e" "fst (es_saved e i) = ep_term (es_peer e i)" "snd (es_saved e i) \<noteq> 0"
  shows "ep_vote (es_peer e i) = snd (es_saved e i)"
proof -
  have "votes_upto (es_cast e i) (fst (es_saved e i)) (snd (es_saved e i))" "votes_upto (es_vol e i) (ep_term (es_peer e i)) (ep_vote (es_peer e i))"
    "es_cast e i \<subseteq>\<^sub>m es_vol e i" using assms(1) by (simp_all add: einv_def)
  then have "es_cast e i (fst (es_saved e i)) = Some (snd (es_saved e i))"
    "es_vol e i (fst (es_saved e i)) = (if ep_vote (es_peer e i) = 0 then None else Some (ep_vote (es_peer e i)))" "es_cast e i \<subseteq>\<^sub>m es_vol e i"
    using assms(2,3) by (simp_all add: votes_upto_def)
  then show ?thesis using map_le_Some by (fastforce split: if_splits)
qed

lemma rlink_empty:
  assumes l: "node_link P rn ms s i" "disk_link P ms s i" and e: "einv P (lr_e s)" and em: "IsEmptyHardState (hardState (rn_Raft rn))"
  shows "ms_hardState ms = hardState (rn_Raft rn)"
proof -
  let ?r = "rn_Raft rn" and ?hs = "ms_hardState ms"
  have p: "es_peer (lr_e s) i = abs_peer ?r" using l(1) by (simp add: node_link_def lnode_of_def shown_def)
  have sv: "es_saved (lr_e s) i = (hs_Term ?hs, hs_Vote ?hs)" using l(2) by (simp add: disk_link_def hs_pair_def)
  have z: "r_Term ?r = 0" "r_Vote ?r = 0" "lg_committed (r_RaftLog ?r) = 0"
    using em by (simp_all add: IsEmptyHardState_def isHardStateEqual_def hardState_def emptyHardState_def)
  have "fst (es_saved (lr_e s) i) \<le> ep_term (es_peer (lr_e s) i)" using e by (simp add: einv_def)
  then have t: "hs_Term ?hs = 0" using p sv z(1) by (simp add: abs_peer_def)
  then have "hs_Vote ?hs = 0" using saved_vote [OF e, of i] p sv z by (auto simp: abs_peer_def)
  moreover have "hs_Commit ?hs = 0" using l(1) z(3) by (simp add: node_link_def holds_def aligned_def)
  ultimately show ?thesis using t z by (simp add: hardState_def)
qed

section \<open>Every step of the cluster\<close>

lemma rlink_reach:
  assumes "lreach P T0 D s" "finite P" "0 \<notin> P" "2 \<le> card P" "\<forall>x\<in>set D. e_Term x = T0"
  shows "linv P T0 s" "einv P (lr_e s)"
proof -
  show inv: "linv P T0 s" by (rule lreach_linv [OF assms])
  then show "einv P (lr_e s)" using ereach_inv assms(2,3) by (simp add: linv_def)
qed

text \<open>Saving, and what is then in storage, sent and handed out.\<close>

lemma rlink_saved:
  assumes l: "rlink P c s" and s: "lreach P T0 D s" and i: "i \<in> P" and P: "finite P" "0 \<notin> P" "2 \<le> card P" "\<forall>x\<in>set D. e_Term x = T0"
    and room: "has_room 1 (rc_node c i)" and rd: "RawNode_Ready (rc_node c i) = Inr (rd, rn)" and sv: "save_disk rd (rc_disk c i) = Inr ms"
  shows "lreach P T0 D (lflush i s)" "disk_link P ms (lflush i s) i" "net_link P (emit rd (put i rn' ms c)) (lflush i s)"
    "\<And>j. j \<in> P \<Longrightarrow> j \<noteq> i \<Longrightarrow> disk_link P (rc_disk c j) (lflush i s) j \<and> node_link P (rc_node c j) (rc_disk c j) (lflush i s) j"
    "ms_hardState ms = hardState (rn_Raft (rc_node c i))"
proof -
  let ?rn = "rc_node c i" and ?s = "lflush i s" and ?L = "lp_log (lr_q s i)"
  let ?r = "rn_Raft ?rn"
  show lr: "lreach P T0 D ?s" by (rule lreach.flush [OF s i])
  note inv = rlink_reach [OF s P]
  have nl: "node_link P ?rn (rc_disk c i) s i" and dl: "disk_link P (rc_disk c i) s i" and net: "net_link P c s" using l i by (simp_all add: rlink_def)
  have h: "reps (r_RaftLog ?r) ?L" "aligned (rc_disk c i) (lr_slog s i) (r_RaftLog ?r) ?L" "lg_committed (r_RaftLog ?r) = lp_commit (lr_q s i)"
    and ok: "peer_ok P i ?r" and prev: "rn_prevHardSt ?rn = ms_hardState (rc_disk c i)"
    using nl by (simp_all add: node_link_def holds_def)
  have p: "es_peer (lr_e s) i = abs_peer ?r" "es_out (lr_e s) i = abs_msgs (set (r_msgs ?r))" using nl by (simp_all add: node_link_def lnode_of_def shown_def)
  have len: "length ?L + 1 < 2 ^ 63" using room reps_last [OF h(1)] by (simp add: has_room_def)
  have d: "on_disk (rc_disk c i) (lr_slog s i)" "set (sm_ConfState (sn_Metadata (ms_snapshot (rc_disk c i)))) = P" using dl by (simp_all add: disk_link_def)
  have cf: "lg_pending_snapshot (r_RaftLog ?r) = Some sn \<Longrightarrow> snap_conf P sn" for sn using ok by (simp add: peer_ok_def conf_def)
  note saved = saved_on_disk [OF d(1) h(1,2) rd sv prev rlink_empty [OF nl dl inv(2)] len d(2) cf]
  show "ms_hardState ms = hardState ?r" by (rule saved(2))
  have f: "lr_slog ?s = (lr_slog s)(i := ?L)" "lr_scommit ?s = (lr_scommit s)(i := lp_commit (lr_q s i))" "lr_net ?s = lr_net s \<union> lr_lo s i"
    "es_saved (lr_e ?s) = (es_saved (lr_e s))(i := (r_Term ?r, r_Vote ?r))" "es_net (lr_e ?s) = es_net (lr_e s) \<union> abs_msgs (set (r_msgs ?r))"
    by (simp_all add: lflush_def eflush_def p(1) p(2)) (simp_all add: abs_peer_def)
  show "disk_link P ms ?s i" using saved h(3) by (simp add: disk_link_def f hs_pair_def hardState_def)
  have other: "lnode_of ?s j = lnode_of s j" "lr_q ?s j = lr_q s j" "lr_lo ?s j = lr_lo s j" if "j \<noteq> i" for j
    using that by (simp_all add: lnode_of_def lflush_def eflush_def)
  show "disk_link P (rc_disk c j) ?s j \<and> node_link P (rc_node c j) (rc_disk c j) ?s j" if "j \<in> P" "j \<noteq> i" for j
    using l that other [OF that(2)] by (simp add: rlink_def disk_link_def node_link_def f)
  have msgs: "rdy_Messages rd = r_msgs ?r" by (rule ready_parts(1) [OF rd])
  have g: "grow (world_of s) (world_of ?s)" by (rule lflush_linv(2) [OF inv(1) i P(1,2)])
  have given: "recorded (world_of s) P x" if "x \<in> set (rdy_CommittedEntries rd)" for x
  proof -
    let ?c = "lg_committed (r_RaftLog ?r)"
    have "x \<in> set (take ?c ?L)" using ready_log(3) [OF rd h(1)] that by blast
    then obtain k where k: "k < ?c" "k < length ?L" "x = ?L ! k" by (auto simp: in_set_conv_nth)
    have "contiguous 1 ?L" using h(1) by (simp add: reps_def)
    then have ix: "e_Index x = k + 1" using k by (simp add: contiguous_def)
    have "committed (world_of s) P (take ?c ?L)" using linv_log [OF inv(1), of i] h(3) secured_committed unfolding node_ok_def by metis
    then show ?thesis unfolding recorded_def using k ix by (intro exI [of _ "take ?c ?L"]) simp
  qed
  have cr: "carried (set (r_msgs ?r)) (lr_lo s i)" using nl by (simp add: node_link_def)
  have wr: "\<forall>m\<in>set (r_msgs ?r). wire P m" using ok by (simp add: peer_ok_def)
  have n: "abs_msgs (rc_net c) \<subseteq> es_net (lr_e s)" "carried (rc_net c) (lr_net s)" "\<forall>m\<in>rc_net c. wire P m" "\<forall>x\<in>rc_given c. recorded (world_of s) P x"
    using net by (simp_all add: net_link_def)
  show "net_link P (emit rd (put i rn' ms c)) ?s"
    unfolding net_link_def
  proof (intro conjI)
    show "abs_msgs (rc_net (emit rd (put i rn' ms c))) \<subseteq> es_net (lr_e ?s)" using n(1) by (auto simp: f msgs)
    show "carried (rc_net (emit rd (put i rn' ms c))) (lr_net ?s)"
      using carried_mono [OF n(2), of "lr_net ?s"] carried_mono [OF cr, of "lr_net ?s"] by (simp add: f msgs)
    show "\<forall>m\<in>rc_net (emit rd (put i rn' ms c)). wire P m" using n(3) wr by (auto simp: msgs)
    show "\<forall>x\<in>rc_given (emit rd (put i rn' ms c)). recorded (world_of ?s) P x" using n(4) given recorded_grow [OF _ g] by auto
  qed
qed

lemma rlink_ready:
  assumes l: "rlink P c s" and s: "lreach P T0 D s" and i: "i \<in> P" and P: "finite P" "0 \<notin> P" "2 \<le> card P" "\<forall>x\<in>set D. e_Term x = T0"
    and room: "has_room 1 (rc_node c i)" and rd: "RawNode_Ready (rc_node c i) = Inr (rd, rn)" and sv: "save_disk rd (rc_disk c i) = Inr ms"
    and ad: "RawNode_Advance rd rn = Inr rn'"
  shows "\<exists>s'. lreach P T0 D s' \<and> rlink P (emit rd (put i rn' ms c)) s'"
proof -
  let ?rn = "rc_node c i" and ?s = "lflush i s" and ?L = "lp_log (lr_q s i)"
  let ?r = "rn_Raft ?rn"
  note saved = rlink_saved [OF l s i P room rd sv]
  have nl: "node_link P ?rn (rc_disk c i) s i" and dl: "disk_link P (rc_disk c i) s i" using l i by (simp_all add: rlink_def)
  have h: "holds (rc_disk c i) (lr_slog s i) ?r (lr_q s i)" "peer_ok P i ?r" "rn_prevHardSt ?rn = ms_hardState (rc_disk c i)"
    using nl by (simp_all add: node_link_def)
  then have r: "reps (r_RaftLog ?r) ?L" "aligned (rc_disk c i) (lr_slog s i) (r_RaftLog ?r) ?L" by (simp_all add: holds_def)
  have empty: "IsEmptyHardState (hardState ?r) \<Longrightarrow> rn_prevHardSt ?rn = hardState ?r" using rlink_empty [OF nl dl rlink_reach(2) [OF s P]] h(3) by simp
  have sn: "\<not> IsEmptySnap (Some x)" if "lg_pending_snapshot (r_RaftLog ?r) = Some x" for x using r(2) that by (auto simp: aligned_def IsEmptySnap_def)
  obtain l' where l': "rn_Raft rn' = ?r\<lparr>r_msgs := [], r_RaftLog := l'\<rparr>" "rn_prevHardSt rn' = hardState ?r" "reps l' ?L"
    "lg_committed l' = lg_committed (r_RaftLog ?r)" "lg_applied l' \<le> lg_committed l'" "lg_stabled l' = length ?L" "lg_pending_snapshot l' = None"
    using advanced [OF r(1) rd ad empty sn] by metis
  have f: "lr_slog ?s i = ?L" "lr_q ?s i = lr_q s i" "lr_lo ?s i = {}" "lnode_of ?s i = (abs_peer ?r, {}, lr_q s i, {})"
    using nl by (simp_all add: lflush_def eflush_def lnode_of_def node_link_def shown_def)
  have ok': "peer_ok P i (rn_Raft rn')" using h(2) l'(1,7) by (simp add: peer_ok_def conf_def members_def)
  have al: "aligned ms ?L l' ?L" using l' saved(5) reps_bounds(2) [OF l'(3)] by (simp add: aligned_def hardState_def)
  have "holds ms ?L (rn_Raft rn') (lr_q s i)" using h(1) l'(1,3,4) al by (simp add: holds_def getProgress_def)
  then have "node_link P rn' ms ?s i"
    using ok' l'(1,2) saved(5) by (simp add: node_link_def f shown_def abs_peer_def)
  then have "rlink P (emit rd (put i rn' ms c)) ?s" using saved(2-4) by (simp add: rlink_def)
  with saved(1) show ?thesis by blast
qed

text \<open>Starting from storage.\<close>

lemma newRaft_log:
  assumes "newRaft st c rand = Inr r" "rs_InitialState st = Inr (hs, cs)" "c_peers c = []" "newLog st = Inr l" "lg_committed l \<le> hs_Commit hs"
    "lg_applied l \<le> lg_committed l"
  obtains a where "r_RaftLog r = l\<lparr>lg_committed := hs_Commit hs, lg_applied := a\<rparr>" "a \<le> hs_Commit hs"
proof -
  define r0 where "r0 = \<lparr>r_id = c_ID c, r_Term = 0, r_Vote = 0, r_RaftLog = l, r_Prs = new_prs cs,
          r_State = StateFollower, r_votes = [], r_msgs = [], r_Lead = NoNode,
          r_heartbeatTimeout = c_HeartbeatTick c, r_electionTimeout = c_ElectionTick c,
          r_randomizedElectionTimeout = 0, r_leadTransferee = 0, r_PendingConfIndex = 0,
          r_electionElapsed = 0, r_heartbeatElapsed = 0, r_rand = rand, r_drawn = 0\<rparr>"
  obtain r1 l1 where load: "(if \<not> IsEmptyHardState hs then loadState hs r0 else Inr r0) = Inr r1"
    and app: "(if c_Applied c > 0 then log_appliedTo (r_RaftLog r1) (c_Applied c) else Inr (r_RaftLog r1)) = Inr l1"
    and follow: "becomeFollower (r_Term r1) NoNode (r1\<lparr>r_RaftLog := l1\<rparr>) = Inr r"
    using assms(1-4) unfolding newRaft_def Let_def r0_def
    by (cases "cs = []") (auto simp: bindR_Inr_iff orPanic_def split: option.splits)
  have r1: "r_RaftLog r1 = l\<lparr>lg_committed := hs_Commit hs\<rparr>"
    using load assms(5) by (auto simp: r0_def loadState_def IsEmptyHardState_def isHardStateEqual_def emptyHardState_def split: if_splits)
  have "\<exists>a. l1 = l\<lparr>lg_committed := hs_Commit hs, lg_applied := a\<rparr> \<and> a \<le> hs_Commit hs"
  proof (cases "c_Applied c > 0")
    case True
    then show ?thesis using app by (auto simp: r1 log_appliedTo_def split: if_splits)
  next
    case False
    then have l1: "l1 = l\<lparr>lg_committed := hs_Commit hs\<rparr>" using app r1 by simp
    have "l1 = l\<lparr>lg_committed := hs_Commit hs, lg_applied := lg_applied l\<rparr>" unfolding l1 by (rule RaftLog.equality) simp_all
    moreover have "lg_applied l \<le> hs_Commit hs" using assms(5,6) by simp
    ultimately show ?thesis by blast
  qed
  then show ?thesis using becomeFollower_keeps(2) [OF follow] that by auto
qed

lemma booted:
  assumes b: "boots i ms rn" and d: "on_disk ms S" and conf: "set (sm_ConfState (sn_Metadata (ms_snapshot ms))) = P" and i: "i \<in> P"
    and q: "lp_log q = S" "lp_commit q = hs_Commit (ms_hardState ms)"
  shows "peer_ok P i (rn_Raft rn)" "rn_prevHardSt rn = ms_hardState ms" "holds ms S (rn_Raft rn) q" "r_msgs (rn_Raft rn) = []"
    "abs_peer (rn_Raft rn) = recovered (hs_pair (ms_hardState ms))"
proof -
  let ?st = "MemoryStorage_view ms" and ?hs = "ms_hardState ms" and ?cs = "sm_ConfState (sn_Metadata (ms_snapshot ms))"
  obtain cfg rand r where r: "c_ID cfg = i" "c_peers cfg = []" "newRaft ?st cfg rand = Inr r" "rn_Raft rn = r" "rn_prevHardSt rn = hardState r"
    using b by (auto simp: boots_def NewRawNode_def bindR_Inr_iff split: if_splits)
  have init: "rs_InitialState ?st = Inr (?hs, ?cs)" by (simp add: MemoryStorage_view_def MemoryStorage_InitialState_def)
  note st = newRaft_state [OF r(3) init r(2)]
  have dd: "ms_wf ms" "ms_saved ms = drop (ms_base ms) S" "ms_base_term ms = lterm S (ms_base ms)" "ms_base ms \<le> hs_Commit ?hs"
    "hs_Commit ?hs \<le> length S" "contiguous 1 S" using d by (simp_all add: on_disk_def)
  note nl = memory.new_log [OF dd(1)]
  obtain a where a: "r_RaftLog r = \<lparr>lg_committed = hs_Commit ?hs, lg_applied = a, lg_stabled = ms_base ms + length (ms_saved ms),
      lg_entries = ms_saved ms, lg_offset = ms_base ms + 1, lg_snapTerm = ms_base_term ms, lg_snapIndex = ms_base ms, lg_pending_snapshot = None\<rparr>"
    "a \<le> hs_Commit ?hs"
    using newRaft_log [OF r(3) init r(2) nl] dd(4) by auto
  show "peer_ok P i (rn_Raft rn)" using st conf r i by (simp add: peer_ok_def conf_def)
  show "rn_prevHardSt rn = ms_hardState ms" using st r a(1) by (simp add: hardState_def)
  show "r_msgs (rn_Raft rn) = []" using st r by simp
  show "abs_peer (rn_Raft rn) = recovered (hs_pair (ms_hardState ms))" using st r by (simp add: abs_peer_def recovered_def hs_pair_def)
  have len: "length S = ms_base ms + length (ms_saved ms)" by (rule disk_bounds(2) [OF d])
  have bound: "ms_base ms + length (ms_saved ms) < 2 ^ 64" by (rule memory.bound [OF dd(1)])
  have run: "contiguous (ms_base ms + 1) (ms_saved ms)" by (rule memory.run [OF dd(1)])
  have le: "hs_Commit ?hs \<le> ms_base ms + length (ms_saved ms)" using dd(5) len by (simp only:)
  have "log_wf (r_RaftLog r)" unfolding a(1) log_wf_def using a(2) dd(4) le bound run by simp
  moreover have "ms_base ms \<le> length S" by (rule disk_bounds(1) [OF d])
  ultimately have "reps (r_RaftLog r) S" unfolding reps_def a(1) using dd(2,3,6) by simp
  moreover have "aligned ms S (r_RaftLog r) S" unfolding aligned_def a(1) using a(2) dd(5) by (simp add: len [symmetric])
  moreover have "lg_committed (r_RaftLog r) = hs_Commit ?hs" using a(1) by simp
  ultimately show "holds ms S (rn_Raft rn) q" using q r(4) st by (simp add: holds_def)
qed

lemma rlink_restart:
  assumes s: "lreach P T0 D s" and i: "i \<in> P" and d: "disk_link P ms s i" and b: "boots i ms rn" and net: "net_link P c s"
    and others: "\<And>j. j \<in> P \<Longrightarrow> j \<noteq> i \<Longrightarrow> disk_link P (rc_disk c j) s j \<and> node_link P (rc_node c j) (rc_disk c j) s j"
    and c: "rc_node c i = rn" "rc_disk c i = ms"
  shows "lreach P T0 D (lrestart i s) \<and> rlink P c (lrestart i s)"
proof
  let ?s = "lrestart i s"
  show "lreach P T0 D ?s" by (rule lreach.restart [OF s i])
  have f: "lr_slog ?s = lr_slog s" "lr_scommit ?s = lr_scommit s" "es_saved (lr_e ?s) = es_saved (lr_e s)" "lr_net ?s = lr_net s"
    "es_net (lr_e ?s) = es_net (lr_e s)" "world_of ?s = world_of s" "lr_lo ?s i = {}"
    by (simp_all add: lrestart_def erestart_def world_of_def)
  have q: "lp_log (lr_q ?s i) = lr_slog s i" "lp_commit (lr_q ?s i) = hs_Commit (ms_hardState ms)" using d by (simp_all add: lrestart_def disk_link_def)
  have dd: "on_disk ms (lr_slog s i)" "set (sm_ConfState (sn_Metadata (ms_snapshot ms))) = P" "es_saved (lr_e s) i = hs_pair (ms_hardState ms)"
    using d by (simp_all add: disk_link_def)
  note bt = booted [OF b dd(1,2) i q]
  have "lnode_of ?s i = (recovered (es_saved (lr_e s) i), {}, lr_q ?s i, {})" by (simp add: lnode_of_def lrestart_def erestart_def)
  then have "node_link P rn ms ?s i" using bt dd(3) by (simp add: node_link_def shown_def f)
  moreover have "disk_link P (rc_disk c j) ?s j = disk_link P (rc_disk c j) s j" for j by (simp add: disk_link_def f)
  moreover have "node_link P (rc_node c j) (rc_disk c j) ?s j = node_link P (rc_node c j) (rc_disk c j) s j" if "j \<noteq> i" for j
    using that by (simp add: node_link_def f lnode_of_def) (simp add: lrestart_def erestart_def)
  moreover have "net_link P c ?s = net_link P c s" by (simp add: net_link_def f)
  ultimately show "rlink P c ?s" using d net others c unfolding rlink_def by metis
qed

text \<open>Snapshots and compaction.\<close>

lemma on_disk_snapshot:
  assumes d: "on_disk ms S" and k: "k \<le> hs_Commit (ms_hardState ms)" and cs: "MemoryStorage_CreateSnapshot ms k None data = Inr (Inr (sn, ms'))"
  shows "on_disk ms' S" "ms_hardState ms' = ms_hardState ms" "sm_ConfState (sn_Metadata (ms_snapshot ms')) = sm_ConfState (sn_Metadata (ms_snapshot ms))"
proof -
  have dd: "ms_wf ms" "ms_saved ms = drop (ms_base ms) S" "ms_base_term ms = lterm S (ms_base ms)" "hs_Commit (ms_hardState ms) \<le> length S"
    using d by (simp_all add: on_disk_def)
  obtain e es where ms: "ms_ents ms = e # es" "ms_base ms = e_Index e" "ms_base_term ms = e_Term e" "ms_saved ms = es" "e_Index e + length es + 1 < 2 ^ 63"
    using ms_cases [OF dd(1)] by metis
  let ?u = "usub k (e_Index e)"
  have u: "?u < length (e # es)" "ms' = ms\<lparr>ms_snapshot := \<lparr>sn_Data = data, sn_Metadata = (sn_Metadata (ms_snapshot ms))
      \<lparr>sm_Index := k, sm_Term := e_Term ((e # es) ! ?u)\<rparr>\<rparr>\<rparr>"
    using cs ms(1) by (auto simp: MemoryStorage_CreateSnapshot_def ents0_def MemoryStorage_lastIndex_def bindR_Inr_iff Let_def split: if_splits)
  have ge: "e_Index e \<le> k" using u(1) ms(5) by (auto simp: usub_def split: if_splits)
  have "e_Term ((e # es) ! (k - e_Index e)) = lterm S k"
  proof (cases "k = e_Index e")
    case True
    then show ?thesis using ms dd(3) by simp
  next
    case False
    then have "e_Index e < k" using ge by simp
    have "drop (e_Index e) S ! (k - e_Index e - 1) = S ! (e_Index e + (k - e_Index e - 1))" using \<open>e_Index e < k\<close> k dd(4) by (intro nth_drop) simp
    moreover have "es = drop (e_Index e) S" "e_Index e + (k - e_Index e - 1) = k - 1" using ms(2,4) dd(2) \<open>e_Index e < k\<close> by simp_all
    ultimately have "es ! (k - e_Index e - 1) = S ! (k - 1)" by metis
    then show ?thesis using \<open>e_Index e < k\<close> by (simp add: lterm_def nth_Cons')
  qed
  then have m: "ms' = ms\<lparr>ms_snapshot := \<lparr>sn_Data = data, sn_Metadata = (sn_Metadata (ms_snapshot ms))\<lparr>sm_Index := k, sm_Term := lterm S k\<rparr>\<rparr>\<rparr>"
    using u(2) ge by simp
  have b: "ms_base ms' = ms_base ms" "ms_base_term ms' = ms_base_term ms" "ms_saved ms' = ms_saved ms" "ms_ents ms' = ms_ents ms"
    by (simp_all add: m ms_base_def ms_base_term_def ms_saved_def)
  have "ms_wf ms'" using dd(1) unfolding ms_wf_def b .
  then show "on_disk ms' S" "ms_hardState ms' = ms_hardState ms" "sm_ConfState (sn_Metadata (ms_snapshot ms')) = sm_ConfState (sn_Metadata (ms_snapshot ms))"
    using d k unfolding on_disk_def b by (simp_all add: m)
qed

lemma on_disk_compact:
  assumes d: "on_disk ms S" and k: "k \<le> hs_Commit (ms_hardState ms)" and cp: "MemoryStorage_Compact ms k = Inr (Inr ms')"
  shows "on_disk ms' S" "ms_hardState ms' = ms_hardState ms" "ms_snapshot ms' = ms_snapshot ms"
proof -
  have dd: "ms_wf ms" "ms_saved ms = drop (ms_base ms) S" "hs_Commit (ms_hardState ms) \<le> length S" "contiguous 1 S" using d by (simp_all add: on_disk_def)
  obtain e es where ms: "ms_ents ms = e # es" "ms_base ms = e_Index e" "ms_saved ms = es" "e_Index e + length es + 1 < 2 ^ 63"
    using ms_cases [OF dd(1)] by metis
  have gt: "e_Index e < k" using cp ms(1) by (auto simp: MemoryStorage_Compact_def ents0_def Let_def split: if_splits)
  then obtain n where n: "k = e_Index e + Suc n" using less_imp_Suc_add by fastforce
  have len: "length S = e_Index e + length es" using disk_bounds(2) [OF d] ms by simp
  have "n < length es" using n k dd(3) len by simp
  note n = n this
  have m: "ms' = ms\<lparr>ms_ents := zeroEntry\<lparr>e_Index := e_Index (es ! n), e_Term := e_Term (es ! n)\<rparr> # drop (Suc n) es\<rparr>"
    using cp ms(1) n by (auto simp: MemoryStorage_Compact_def ents0_def MemoryStorage_lastIndex_def bindR_Inr_iff Let_def split: if_splits)
  have es: "es = drop (e_Index e) S" using dd(2) ms(2,3) by metis
  have k1: "k - 1 = e_Index e + n" using n(1) by simp
  have "drop (e_Index e) S ! n = S ! (e_Index e + n)" by (rule nth_drop) (simp add: len)
  then have en: "es ! n = S ! (k - 1)" unfolding k1 es [symmetric] .
  have dr: "drop (Suc n) es = drop k S" unfolding es n(1) by (simp add: add.commute)
  have ix: "e_Index (S ! (k - 1)) = k" using dd(3,4) k gt by (simp add: contiguous_def)
  have b: "ms_base ms' = k" "ms_base_term ms' = lterm S k" "ms_saved ms' = drop k S"
    using ix gt unfolding m en dr by (simp_all add: ms_base_def ms_base_term_def ms_saved_def lterm_def)
  have kl: "k \<le> length S" using k dd(3) by simp
  have "length (ms_ents ms') = Suc (length S - k)" unfolding m dr by simp
  then have "ms_wf ms'" unfolding ms_wf_def b using contiguous_drop [OF dd(4) kl] ms(4) len kl by auto
  moreover show f: "ms_hardState ms' = ms_hardState ms" "ms_snapshot ms' = ms_snapshot ms" by (simp_all add: m)
  ultimately show "on_disk ms' S" using d k unfolding on_disk_def b f by blast
qed

lemma rlink_storage:
  assumes l: "rlink P c s" and i: "i \<in> P" and d: "\<And>S. on_disk (rc_disk c i) S \<Longrightarrow> on_disk ms S" and hs: "ms_hardState ms = ms_hardState (rc_disk c i)"
    and cf: "sm_ConfState (sn_Metadata (ms_snapshot ms)) = sm_ConfState (sn_Metadata (ms_snapshot (rc_disk c i)))"
  shows "rlink P (put i (rc_node c i) ms c) s"
proof -
  have "aligned ms S l L = aligned (rc_disk c i) S l L" for S l L unfolding aligned_def hs by (rule refl)
  then have "node_link P (rc_node c i) ms s i = node_link P (rc_node c i) (rc_disk c i) s i" by (simp add: node_link_def holds_def hs)
  moreover have "disk_link P ms s i" using l i d hs cf by (simp add: rlink_def disk_link_def)
  moreover have "net_link P (put i (rc_node c i) ms c) s = net_link P c s" by (simp add: net_link_def)
  ultimately show ?thesis using l i by (simp add: rlink_def)
qed

lemma applied_saved:
  assumes "rlink P c s" "i \<in> P" "k \<le> lg_applied (r_RaftLog (rn_Raft (rc_node c i)))"
  shows "k \<le> hs_Commit (ms_hardState (rc_disk c i))" "on_disk (rc_disk c i) (lr_slog s i)"
  using assms by (auto simp: rlink_def node_link_def holds_def aligned_def disk_link_def)

end
