(* ===== verification/Replicated_Run.thy ===== *)
theory Replicated_Run
  imports Replicated
begin

text \<open>
  A run of three nodes from empty storage: node 1 campaigns, node 2 grants its vote, node 1 wins term 1 and appends the entry of its term,
  node 2 accepts it, and node 1 commits the entry and hands it out.
\<close>

section \<open>The states of the run\<close>

definition run_disk :: "nat \<Rightarrow> nat \<Rightarrow> Entry list \<Rightarrow> MemoryStorage" where
  "run_disk t k es = \<lparr>ms_hardState = \<lparr>hs_Term = t, hs_Vote = t, hs_Commit = k\<rparr>,
     ms_snapshot = \<lparr>sn_Data = None, sn_Metadata = \<lparr>sm_ConfState = [1, 2, 3], sm_Index = 0, sm_Term = 0\<rparr>\<rparr>, ms_ents = zeroEntry # es\<rparr>"

definition run_entry :: Entry where
  "run_entry = zeroEntry\<lparr>e_Term := 1, e_Index := 1\<rparr>"

definition run_msg :: "MessageType \<Rightarrow> nat \<Rightarrow> nat \<Rightarrow> Message" where
  "run_msg k i j = zeroMessage\<lparr>m_MsgType := k, m_From := i, m_To := j, m_Term := 1\<rparr>"

definition run_log :: "nat \<Rightarrow> nat \<Rightarrow> nat \<Rightarrow> Entry list \<Rightarrow> RaftLog" where
  "run_log k a n es = \<lparr>lg_committed = k, lg_applied = a, lg_stabled = n, lg_entries = es, lg_offset = 1, lg_snapTerm = 0, lg_snapIndex = 0,
     lg_pending_snapshot = None\<rparr>"

text \<open>Node \<open>i\<close> in term \<open>t\<close>; the nodes up to \<open>n\<close> are known to have the entry.\<close>

definition run_node ::
  "nat \<Rightarrow> nat \<Rightarrow> RaftLog \<Rightarrow> nat \<Rightarrow> StateType \<Rightarrow> (nat \<times> bool) list \<Rightarrow> nat \<Rightarrow> nat \<Rightarrow> SoftState \<Rightarrow> HardState \<Rightarrow> Message list \<Rightarrow> RawNode" where
  "run_node i t l n st vs ld d ss hs ms =
     \<lparr>rn_Raft = \<lparr>r_id = i, r_Term = t, r_Vote = t, r_RaftLog = l,
        r_Prs = map (\<lambda>j. (j, if j \<le> n then \<lparr>pr_Match = 1, pr_Next = 2\<rparr> else \<lparr>pr_Match = 0, pr_Next = 1\<rparr>)) [1, 2, 3],
        r_State = st, r_votes = vs, r_msgs = ms, r_Lead = ld, r_heartbeatTimeout = 1, r_electionTimeout = 10, r_randomizedElectionTimeout = 10,
        r_leadTransferee = 0, r_PendingConfIndex = 0, r_electionElapsed = 0, r_heartbeatElapsed = 0, r_rand = (\<lambda>_. 0), r_drawn = d\<rparr>,
      rn_prevSoftSt = ss, rn_prevHardSt = hs\<rparr>"

definition run_ready :: "SoftState option \<Rightarrow> HardState \<Rightarrow> Entry list \<Rightarrow> Entry list \<Rightarrow> Message list \<Rightarrow> Ready" where
  "run_ready ss hs es cs ms = \<lparr>rdy_SoftState = ss, rdy_HardState = hs, rdy_Entries = es, rdy_Snapshot = emptySnapshot, rdy_CommittedEntries = cs,
     rdy_Messages = ms\<rparr>"

definition run_soft :: "nat \<Rightarrow> StateType \<Rightarrow> SoftState" where
  "run_soft ld st = \<lparr>ss_Lead = ld, ss_RaftState = st\<rparr>"

definition run_hard :: "nat \<Rightarrow> nat \<Rightarrow> HardState" where
  "run_hard t k = \<lparr>hs_Term = t, hs_Vote = t, hs_Commit = k\<rparr>"

definition run_boot :: "nat \<Rightarrow> RawNode" where
  "run_boot i = run_node i 0 (run_log 0 0 0 []) 0 StateFollower [] 0 1 (run_soft 0 StateFollower) (run_hard 0 0) []"

definition run_cand :: "HardState \<Rightarrow> SoftState \<Rightarrow> Message list \<Rightarrow> RawNode" where
  "run_cand hs ss ms = run_node 1 1 (run_log 0 0 0 []) 0 StateCandidate [(1, True)] 0 2 ss hs ms"

definition run_voter :: "HardState \<Rightarrow> Message list \<Rightarrow> RawNode" where
  "run_voter hs ms = run_node 2 1 (run_log 0 0 0 []) 0 StateFollower [] 0 2 (run_soft 0 StateFollower) hs ms"

definition run_leader :: "nat \<Rightarrow> nat \<Rightarrow> nat \<Rightarrow> nat \<Rightarrow> SoftState \<Rightarrow> HardState \<Rightarrow> Message list \<Rightarrow> RawNode" where
  "run_leader k a n j ss hs ms = run_node 1 1 (run_log k a n [run_entry]) j StateLeader [] 1 3 ss hs ms"

definition run_follower :: "nat \<Rightarrow> SoftState \<Rightarrow> Message list \<Rightarrow> RawNode" where
  "run_follower n ss ms = run_node 2 1 (run_log 0 0 n [run_entry]) 0 StateFollower [] 1 2 ss (run_hard 1 0) ms"

definition run_votes :: "Message list" where
  "run_votes = [run_msg MsgRequestVote 1 2, run_msg MsgRequestVote 1 3]"

definition run_granted :: Message where
  "run_granted = run_msg MsgRequestVoteResponse 2 1"

definition run_appends :: "Message list" where
  "run_appends = [(run_msg MsgAppend 1 2)\<lparr>m_Entries := [run_entry]\<rparr>, (run_msg MsgAppend 1 3)\<lparr>m_Entries := [run_entry]\<rparr>]"

definition run_accepted :: Message where
  "run_accepted = (run_msg MsgAppendResponse 2 1)\<lparr>m_Index := 1\<rparr>"

definition run_commits :: "Message list" where
  "run_commits = [(run_msg MsgAppend 1 2)\<lparr>m_LogTerm := 1, m_Index := 1, m_Commit := 1\<rparr>,
     (run_msg MsgAppend 1 3)\<lparr>m_Entries := [run_entry], m_Commit := 1\<rparr>]"

definition run_state :: "RawNode \<Rightarrow> MemoryStorage \<Rightarrow> RawNode \<Rightarrow> MemoryStorage \<Rightarrow> Message set \<Rightarrow> Entry set \<Rightarrow> rcluster" where
  "run_state n1 d1 n2 d2 net g = \<lparr>rc_node = run_boot(1 := n1, 2 := n2), rc_disk = (\<lambda>_. run_disk 0 0 [])(1 := d1, 2 := d2), rc_net = net, rc_given = g\<rparr>"

definition run_end :: rcluster where
  "run_end = run_state (run_leader 1 1 1 2 (run_soft 1 StateLeader) (run_hard 1 1) []) (run_disk 1 1 [run_entry])
     (run_follower 1 (run_soft 1 StateFollower) []) (run_disk 1 0 [run_entry])
     (set run_votes \<union> {run_granted} \<union> set run_appends \<union> {run_accepted} \<union> set run_commits) {run_entry}"

lemmas run_defs = run_disk_def run_entry_def run_msg_def run_log_def run_node_def run_ready_def run_soft_def run_hard_def run_boot_def run_cand_def
  run_voter_def run_leader_def run_follower_def run_votes_def run_granted_def run_appends_def run_accepted_def run_commits_def

lemmas exec_run = exec_demo save_disk_def RawNode_Advance_def MemoryStorage_Append_def MemoryStorage_firstIndex_def log_appliedTo_def log_stableTo_def
  IsEmptySnap_def handleAppendEntries_def log_maybeAppend_def log_findConflict.simps leader_AppendResponse_def stepLeader_def log_stableSnapTo_def
  slice_from_def slice_to_def slice_range_def

section \<open>Its steps\<close>

lemma run_starts: "i \<in> {1, 2, 3} \<Longrightarrow> NewRawNode (MemoryStorage_view (run_disk 0 0 [])) (demo_cfg i) (\<lambda>_. 0) = Inr (run_boot i)"
  by (auto simp: exec_run run_defs)

lemma run_campaigns:
  "RawNode_Campaign (MemoryStorage_view (run_disk 0 0 [])) (run_boot 1) = Inr (None, run_cand (run_hard 0 0) (run_soft 0 StateFollower) run_votes)"
  by (simp add: exec_run run_defs)

lemma run_ready_cand:
  "RawNode_Ready (run_cand (run_hard 0 0) (run_soft 0 StateFollower) run_votes)
     = Inr (run_ready (Some (run_soft 0 StateCandidate)) (run_hard 1 0) [] [] run_votes, run_cand (run_hard 0 0) (run_soft 0 StateFollower) [])"
  "save_disk (run_ready (Some (run_soft 0 StateCandidate)) (run_hard 1 0) [] [] run_votes) (run_disk 0 0 []) = Inr (run_disk 1 0 [])"
  "RawNode_Advance (run_ready (Some (run_soft 0 StateCandidate)) (run_hard 1 0) [] [] run_votes) (run_cand (run_hard 0 0) (run_soft 0 StateFollower) [])
     = Inr (run_cand (run_hard 1 0) (run_soft 0 StateCandidate) [])"
  by (simp_all add: exec_run run_defs)

lemma run_grants:
  "RawNode_Step (MemoryStorage_view (run_disk 0 0 [])) (run_msg MsgRequestVote 1 2) (run_boot 2) = Inr (None, run_voter (run_hard 0 0) [run_granted])"
  by (simp add: exec_run run_defs)

lemma run_ready_voter:
  "RawNode_Ready (run_voter (run_hard 0 0) [run_granted]) = Inr (run_ready None (run_hard 1 0) [] [] [run_granted], run_voter (run_hard 0 0) [])"
  "save_disk (run_ready None (run_hard 1 0) [] [] [run_granted]) (run_disk 0 0 []) = Inr (run_disk 1 0 [])"
  "RawNode_Advance (run_ready None (run_hard 1 0) [] [] [run_granted]) (run_voter (run_hard 0 0) []) = Inr (run_voter (run_hard 1 0) [])"
  by (simp_all add: exec_run run_defs)

lemma run_wins:
  "RawNode_Step (MemoryStorage_view (run_disk 1 0 [])) run_granted (run_cand (run_hard 1 0) (run_soft 0 StateCandidate) [])
     = Inr (None, run_leader 0 0 0 1 (run_soft 0 StateCandidate) (run_hard 1 0) run_appends)"
  by (simp add: exec_run run_defs)

lemma run_ready_leader:
  "RawNode_Ready (run_leader 0 0 0 1 (run_soft 0 StateCandidate) (run_hard 1 0) run_appends)
     = Inr (run_ready (Some (run_soft 1 StateLeader)) (run_hard 0 0) [run_entry] [] run_appends, run_leader 0 0 0 1 (run_soft 0 StateCandidate) (run_hard 1 0) [])"
  "save_disk (run_ready (Some (run_soft 1 StateLeader)) (run_hard 0 0) [run_entry] [] run_appends) (run_disk 1 0 []) = Inr (run_disk 1 0 [run_entry])"
  "RawNode_Advance (run_ready (Some (run_soft 1 StateLeader)) (run_hard 0 0) [run_entry] [] run_appends)
     (run_leader 0 0 0 1 (run_soft 0 StateCandidate) (run_hard 1 0) []) = Inr (run_leader 0 0 1 1 (run_soft 1 StateLeader) (run_hard 1 0) [])"
  by (simp_all add: exec_run run_defs)

lemma run_accepts:
  "RawNode_Step (MemoryStorage_view (run_disk 1 0 [])) ((run_msg MsgAppend 1 2)\<lparr>m_Entries := [run_entry]\<rparr>) (run_voter (run_hard 1 0) [])
     = Inr (None, run_follower 0 (run_soft 0 StateFollower) [run_accepted])"
  by (simp add: exec_run run_defs)

lemma run_ready_follower:
  "RawNode_Ready (run_follower 0 (run_soft 0 StateFollower) [run_accepted])
     = Inr (run_ready (Some (run_soft 1 StateFollower)) (run_hard 0 0) [run_entry] [] [run_accepted], run_follower 0 (run_soft 0 StateFollower) [])"
  "save_disk (run_ready (Some (run_soft 1 StateFollower)) (run_hard 0 0) [run_entry] [] [run_accepted]) (run_disk 1 0 []) = Inr (run_disk 1 0 [run_entry])"
  "RawNode_Advance (run_ready (Some (run_soft 1 StateFollower)) (run_hard 0 0) [run_entry] [] [run_accepted]) (run_follower 0 (run_soft 0 StateFollower) [])
     = Inr (run_follower 1 (run_soft 1 StateFollower) [])"
  by (simp_all add: exec_run run_defs)

lemma run_commit:
  "RawNode_Step (MemoryStorage_view (run_disk 1 0 [run_entry])) run_accepted (run_leader 0 0 1 1 (run_soft 1 StateLeader) (run_hard 1 0) [])
     = Inr (None, run_leader 1 0 1 2 (run_soft 1 StateLeader) (run_hard 1 0) run_commits)"
  by (simp add: exec_run run_defs)

lemma run_ready_committed:
  "RawNode_Ready (run_leader 1 0 1 2 (run_soft 1 StateLeader) (run_hard 1 0) run_commits)
     = Inr (run_ready None (run_hard 1 1) [] [run_entry] run_commits, run_leader 1 0 1 2 (run_soft 1 StateLeader) (run_hard 1 0) [])"
  "save_disk (run_ready None (run_hard 1 1) [] [run_entry] run_commits) (run_disk 1 0 [run_entry]) = Inr (run_disk 1 1 [run_entry])"
  "RawNode_Advance (run_ready None (run_hard 1 1) [] [run_entry] run_commits) (run_leader 1 0 1 2 (run_soft 1 StateLeader) (run_hard 1 0) [])
     = Inr (run_leader 1 1 1 2 (run_soft 1 StateLeader) (run_hard 1 1) [])"
  by (simp_all add: exec_run run_defs)

section \<open>The run\<close>

lemma run_first: "rreach {1, 2, 3} 0 0 (run_state (run_boot 1) (run_disk 0 0 []) (run_boot 2) (run_disk 0 0 []) {} {})"
proof -
  have "fresh {1, 2, 3} 0 0 (run_disk 0 0 [])"
    by (auto simp: fresh_def run_disk_def ms_base_def ms_base_term_def zeroEntry_def)
  moreover have "boots i (run_disk 0 0 []) (run_boot i)" if "i \<in> {1, 2, 3}" for i
    unfolding boots_def using run_starts [OF that] by (intro exI [of _ "demo_cfg i"] exI [of _ "\<lambda>_. 0"]) (simp add: demo_cfg_def)
  ultimately show ?thesis by (intro rreach.start) (auto simp: run_state_def)
qed

lemma run_call1:
  assumes "rreach {1, 2, 3} 0 0 (run_state n1 d1 n2 d2 net g)" "m \<in> net" "m_To m = 1" "fits m (rn_Raft n1)"
    "RawNode_Step (MemoryStorage_view d1) m n1 = Inr (e, n1')"
  shows "rreach {1, 2, 3} 0 0 (run_state n1' d1 n2 d2 net g)"
proof -
  have "rstep {1, 2, 3} (run_state n1 d1 n2 d2 net g) (put 1 n1' (rc_disk (run_state n1 d1 n2 d2 net g) 1) (run_state n1 d1 n2 d2 net g))"
    by (rule rstep.deliver) (use assms(2-5) in \<open>simp_all add: run_state_def del: One_nat_def\<close>)
  moreover have "put 1 n1' (rc_disk (run_state n1 d1 n2 d2 net g) 1) (run_state n1 d1 n2 d2 net g) = run_state n1' d1 n2 d2 net g"
    by (simp add: run_state_def put_def fun_eq_iff)
  ultimately show ?thesis using rreach.step [OF assms(1)] by simp
qed

lemma run_call2:
  assumes "rreach {1, 2, 3} 0 0 (run_state n1 d1 n2 d2 net g)" "m \<in> net" "m_To m = 2" "fits m (rn_Raft n2)"
    "RawNode_Step (MemoryStorage_view d2) m n2 = Inr (e, n2')"
  shows "rreach {1, 2, 3} 0 0 (run_state n1 d1 n2' d2 net g)"
proof -
  have "rstep {1, 2, 3} (run_state n1 d1 n2 d2 net g) (put 2 n2' (rc_disk (run_state n1 d1 n2 d2 net g) 2) (run_state n1 d1 n2 d2 net g))"
    by (rule rstep.deliver) (use assms(2-5) in \<open>simp_all add: run_state_def del: One_nat_def\<close>)
  moreover have "put 2 n2' (rc_disk (run_state n1 d1 n2 d2 net g) 2) (run_state n1 d1 n2 d2 net g) = run_state n1 d1 n2' d2 net g"
    by (simp add: run_state_def put_def fun_eq_iff)
  ultimately show ?thesis using rreach.step [OF assms(1)] by simp
qed

lemma run_save1:
  assumes "rreach {1, 2, 3} 0 0 (run_state n1 d1 n2 d2 net g)" "has_room 1 n1" "RawNode_Ready n1 = Inr (rd, n)" "save_disk rd d1 = Inr d1'"
    "RawNode_Advance rd n = Inr n1'"
  shows "rreach {1, 2, 3} 0 0 (run_state n1' d1' n2 d2 (net \<union> set (rdy_Messages rd)) (g \<union> set (rdy_CommittedEntries rd)))"
proof -
  have "rstep {1, 2, 3} (run_state n1 d1 n2 d2 net g) (emit rd (put 1 n1' d1' (run_state n1 d1 n2 d2 net g)))"
    by (rule rstep.ready) (use assms(2-5) in \<open>simp_all add: run_state_def del: One_nat_def\<close>)
  moreover have "emit rd (put 1 n1' d1' (run_state n1 d1 n2 d2 net g))
    = run_state n1' d1' n2 d2 (net \<union> set (rdy_Messages rd)) (g \<union> set (rdy_CommittedEntries rd))"
    by (simp add: run_state_def put_def emit_def fun_eq_iff)
  ultimately show ?thesis using rreach.step [OF assms(1)] by simp
qed

lemma run_save2:
  assumes "rreach {1, 2, 3} 0 0 (run_state n1 d1 n2 d2 net g)" "has_room 1 n2" "RawNode_Ready n2 = Inr (rd, n)" "save_disk rd d2 = Inr d2'"
    "RawNode_Advance rd n = Inr n2'"
  shows "rreach {1, 2, 3} 0 0 (run_state n1 d1 n2' d2' (net \<union> set (rdy_Messages rd)) (g \<union> set (rdy_CommittedEntries rd)))"
proof -
  have "rstep {1, 2, 3} (run_state n1 d1 n2 d2 net g) (emit rd (put 2 n2' d2' (run_state n1 d1 n2 d2 net g)))"
    by (rule rstep.ready) (use assms(2-5) in \<open>simp_all add: run_state_def del: One_nat_def\<close>)
  moreover have "emit rd (put 2 n2' d2' (run_state n1 d1 n2 d2 net g))
    = run_state n1 d1 n2' d2' (net \<union> set (rdy_Messages rd)) (g \<union> set (rdy_CommittedEntries rd))"
    by (simp add: run_state_def put_def emit_def fun_eq_iff)
  ultimately show ?thesis using rreach.step [OF assms(1)] by simp
qed

lemma run_fits:
  "fits run_granted (rn_Raft (run_cand hs ss ms))" "fits (run_msg MsgRequestVote 1 2) (rn_Raft (run_boot 2))"
  "fits ((run_msg MsgAppend 1 2)\<lparr>m_Entries := [run_entry]\<rparr>) (rn_Raft (run_voter hs ms))" "fits run_accepted (rn_Raft (run_leader 0 0 1 1 ss hs ms))"
  by (simp_all add: fits_def run_defs exec_run)

lemma run_room:
  "has_room 1 (run_cand hs ss ms)" "has_room 1 (run_voter hs ms)" "has_room 1 (run_leader k a 1 j ss hs ms)" "has_room 1 (run_leader 0 0 0 j ss hs ms)"
  "has_room 1 (run_follower 0 ss ms)"
  by (simp_all add: has_room_def run_defs exec_run)

lemma run_to:
  "m_To (run_msg k i j) = j" "m_To run_granted = 1" "m_To ((run_msg k i j)\<lparr>m_Entries := es\<rparr>) = j" "m_To run_accepted = 1"
  by (simp_all add: run_msg_def run_granted_def run_accepted_def)

lemma run_ready_fields: "rdy_Messages (run_ready ss hs es cs ms) = ms" "rdy_CommittedEntries (run_ready ss hs es cs ms) = cs"
  by (simp_all add: run_ready_def)

lemma run_begun:
  "rreach {1, 2, 3} 0 0 (run_state (run_cand (run_hard 0 0) (run_soft 0 StateFollower) run_votes) (run_disk 0 0 []) (run_boot 2) (run_disk 0 0 []) {} {})"
proof -
  let ?c = "run_state (run_boot 1) (run_disk 0 0 []) (run_boot 2) (run_disk 0 0 []) {} {}"
  let ?n = "run_cand (run_hard 0 0) (run_soft 0 StateFollower) run_votes"
  have room: "has_room 1 (run_boot 1)" by (simp add: has_room_def run_defs exec_run)
  have "rstep {1, 2, 3} ?c (put 1 ?n (rc_disk ?c 1) ?c)"
    by (rule rstep.campaign) (use run_campaigns room in \<open>simp_all add: run_state_def del: One_nat_def\<close>)
  moreover have "put 1 ?n (rc_disk ?c 1) ?c = run_state ?n (run_disk 0 0 []) (run_boot 2) (run_disk 0 0 []) {} {}"
    by (simp add: run_state_def put_def fun_eq_iff)
  ultimately show ?thesis using rreach.step [OF run_first] by simp
qed

lemma run_sent:
  "run_msg MsgRequestVote 1 2 \<in> A \<union> set run_votes" "(run_msg MsgAppend 1 2)\<lparr>m_Entries := [run_entry]\<rparr> \<in> A \<union> set run_appends"
  "m \<in> A \<union> set [m]"
  by (simp_all add: run_votes_def run_appends_def)

lemma run_won:
  "rreach {1, 2, 3} 0 0 (run_state (run_leader 0 0 0 1 (run_soft 0 StateCandidate) (run_hard 1 0) run_appends) (run_disk 1 0 [])
    (run_voter (run_hard 1 0) []) (run_disk 1 0 []) (set run_votes \<union> {run_granted}) {})"
proof -
  note a = run_save1 [OF run_begun run_room(1) run_ready_cand, unfolded run_ready_fields]
  note b = run_call2 [OF a run_sent(1) run_to(1) run_fits(2) run_grants]
  note c = run_save2 [OF b run_room(2) run_ready_voter, unfolded run_ready_fields]
  show ?thesis using run_call1 [OF c run_sent(3) run_to(2) run_fits(1) run_wins] by simp
qed

lemma run_reach: "rreach {1, 2, 3} 0 0 run_end"
proof -
  note a = run_save1 [OF run_won run_room(4) run_ready_leader, unfolded run_ready_fields]
  note b = run_call2 [OF a run_sent(2) run_to(3) run_fits(3) run_accepts]
  note c = run_save2 [OF b run_room(5) run_ready_follower, unfolded run_ready_fields]
  note d = run_call1 [OF c run_sent(3) run_to(4) run_fits(4) run_commit]
  show ?thesis using run_save1 [OF d run_room(3) run_ready_committed] by (simp add: run_end_def run_ready_fields)
qed

lemma run_given: "run_entry \<in> rc_given run_end"
  by (simp add: run_end_def run_state_def)

lemma run_index: "e_Index run_entry = 1"
  by (simp add: run_entry_def)

lemma run_terms:
  "r_State (rn_Raft (rc_node run_end 1)) = StateLeader" "r_Term (rn_Raft (rc_node run_end 1)) = 1" "r_Term (rn_Raft (rc_node run_end 2)) = 1"
  "r_Term (rn_Raft (rc_node run_end 3)) = 0" "lg_snapIndex (r_RaftLog (rn_Raft (rc_node run_end 1))) = 0"
  by (simp_all add: run_end_def run_state_def run_defs)

lemma run_logs:
  "log_term (r_RaftLog (rn_Raft (rc_node run_end 1))) 1 = Inr 1" "log_term (r_RaftLog (rn_Raft (rc_node run_end 2))) 1 = Inr 1"
  "\<exists>x. log_entry (r_RaftLog (rn_Raft (rc_node run_end 1))) 1 = Some x" "\<exists>x. log_entry (r_RaftLog (rn_Raft (rc_node run_end 2))) 1 = Some x"
  by (simp_all add: run_end_def run_state_def run_defs exec_run log_entry_def)

end
