(* ===== verification/Consensus.thy ===== *)
theory Consensus
  imports Replicated_Run
begin

text \<open>
  Safety of the replicated log: every run of the cluster is a run of the replication protocol, so no two nodes ever hand out different
  entries for an index, logs with the same term at an index agree up to it, and the newest leader has every entry that was handed out.
\<close>

section \<open>Runs of the cluster\<close>

definition base_log :: "nat \<Rightarrow> nat \<Rightarrow> Entry list" where
  "base_log s0 T0 = map (\<lambda>n. zeroEntry\<lparr>e_Index := n + 1, e_Term := T0\<rparr>) [0..<s0]"

lemma base_log_props:
  "length (base_log s0 T0) = s0" "contiguous 1 (base_log s0 T0)" "\<forall>x\<in>set (base_log s0 T0). e_Term x = T0"
  "(s0 = 0 \<Longrightarrow> T0 = 0) \<Longrightarrow> lterm (base_log s0 T0) s0 = T0"
  by (auto simp: base_log_def contiguous_def lterm_def)

lemma fresh_on_disk:
  assumes "fresh P s0 T0 ms" "s0 = 0 \<Longrightarrow> T0 = 0"
  shows "on_disk ms (base_log s0 T0)"
proof -
  note b = base_log_props [of s0 T0]
  have f: "length (ms_ents ms) = 1" "ms_base ms = s0" "ms_base_term ms = T0" "s0 + 1 < 2 ^ 63" "hs_Commit (ms_hardState ms) = s0"
    "sm_Index (sn_Metadata (ms_snapshot ms)) = 0 \<or> sm_Index (sn_Metadata (ms_snapshot ms)) = s0 \<and> sm_Term (sn_Metadata (ms_snapshot ms)) = T0"
    using assms(1) by (simp_all add: fresh_def)
  have sv: "ms_saved ms = []" "ms_ents ms \<noteq> []" using f(1) by (auto simp: ms_saved_def length_Suc_conv)
  then have "ms_wf ms" using f(1,2,4) by (simp add: ms_wf_def)
  then show ?thesis unfolding on_disk_def f(2,3,5) using sv(1) b(1,2) b(4) [OF assms(2)] f(6) by auto
qed

lemma rlink_start:
  assumes start: "\<And>i. i \<in> P \<Longrightarrow> fresh P s0 T0 (rc_disk c i) \<and> boots i (rc_disk c i) (rc_node c i)" and net: "rc_net c = {}" "rc_given c = {}"
    and T0: "s0 = 0 \<Longrightarrow> T0 = 0"
  shows "\<exists>s. lreach P T0 (base_log s0 T0) s \<and> rlink P c s"
proof -
  let ?D = "base_log s0 T0"
  define sv where "sv i = (if i \<in> P then hs_pair (ms_hardState (rc_disk c i)) else (T0, 0))" for i
  let ?s = "lstart T0 ?D sv"
  have "T0 \<le> fst (sv i)" for i using start [of i] by (simp add: sv_def fresh_def hs_pair_def)
  then have reach: "lreach P T0 ?D ?s" by (rule lreach.start)
  have f: "lr_slog ?s i = ?D" "lr_scommit ?s i = s0" "es_saved (lr_e ?s) i = sv i" "lr_lo ?s i = {}" "lp_log (lr_q ?s i) = ?D" "lp_commit (lr_q ?s i) = s0"
    "lnode_of ?s i = (recovered (sv i), {}, lr_q ?s i, {})" for i
    by (simp_all add: lstart_def estart_def lnode_of_def base_log_props)
  have "disk_link P (rc_disk c i) ?s i \<and> node_link P (rc_node c i) (rc_disk c i) ?s i" if i: "i \<in> P" for i
  proof -
    have d: "on_disk (rc_disk c i) ?D" using fresh_on_disk [of P s0 T0 "rc_disk c i"] start [OF i] T0 by blast
    have c: "hs_Commit (ms_hardState (rc_disk c i)) = s0" "set (sm_ConfState (sn_Metadata (ms_snapshot (rc_disk c i)))) = P"
      using start [OF i] by (simp_all add: fresh_def)
    have cm: "lp_commit (lr_q ?s i) = hs_Commit (ms_hardState (rc_disk c i))" by (simp only: f(6) c(1))
    note b = booted [OF conjunct2 [OF start [OF i]] d c(2) i f(5) cm]
    have "sv i = hs_pair (ms_hardState (rc_disk c i))" using i by (simp add: sv_def)
    then show ?thesis using d c b by (simp add: disk_link_def node_link_def f shown_def)
  qed
  moreover have "net_link P c ?s" using net by (simp add: net_link_def)
  ultimately show ?thesis using reach unfolding rlink_def by blast
qed

lemma room_fits: "has_room (length (m_Entries m) + 1) rn \<Longrightarrow> m_Snapshot m = None \<Longrightarrow> fits m (rn_Raft rn)"
  by (simp add: has_room_def fits_def)

lemma local_call:
  assumes l: "rlink P c s" and i: "i \<in> P" and rs: "rn_step (MemoryStorage_view (rc_disk c i)) m (rc_node c i) = Inr (e, rn)"
    and hd: "heard P i (es_net (lr_e s)) (lr_net s) m" and fits: "fits m (rn_Raft (rc_node c i))"
  shows "follows P i (es_net (lr_e s)) (lr_net s) (rc_disk c i) (lr_slog s i) (rn_Raft (rc_node c i)) (rn_Raft rn)"
    "rn_prevHardSt rn = rn_prevHardSt (rc_node c i)"
proof -
  let ?ms = "rc_disk c i"
  have ok: "peer_ok P i (rn_Raft (rc_node c i))" and d: "on_disk ?ms (lr_slog s i)" and cf: "set (sm_ConfState (sn_Metadata (ms_snapshot ?ms))) = P"
    using l i by (simp_all add: rlink_def node_link_def disk_link_def)
  have st: "st_conf P (MemoryStorage_view ?ms)" using cf by (simp add: st_conf_def snap_conf_def MemoryStorage_view_def MemoryStorage_Snapshot_def)
  obtain r where r: "Step (MemoryStorage_view ?ms) m (rn_Raft (rc_node c i)) = Inr (e, r)" "rn = (rc_node c i)\<lparr>rn_Raft := r\<rparr>"
    using rs by (auto simp: rn_step_def bindR_Inr_iff)
  show "follows P i (es_net (lr_e s)) (lr_net s) ?ms (lr_slog s i) (rn_Raft (rc_node c i)) (rn_Raft rn)"
    using Step_follows [OF r(1) ok hd st d fits] r(2) by simp
  show "rn_prevHardSt rn = rn_prevHardSt (rc_node c i)" using r(2) by simp
qed

lemma tick_call:
  assumes l: "rlink P c s" and i: "i \<in> P" and t: "RawNode_Tick (MemoryStorage_view (rc_disk c i)) (rc_node c i) = Inr rn"
    and room: "has_room 1 (rc_node c i)"
  shows "follows P i (es_net (lr_e s)) (lr_net s) (rc_disk c i) (lr_slog s i) (rn_Raft (rc_node c i)) (rn_Raft rn)"
    "rn_prevHardSt rn = rn_prevHardSt (rc_node c i)"
proof -
  let ?ms = "rc_disk c i"
  have ok: "peer_ok P i (rn_Raft (rc_node c i))" and d: "on_disk ?ms (lr_slog s i)" and cf: "set (sm_ConfState (sn_Metadata (ms_snapshot ?ms))) = P"
    using l i by (simp_all add: rlink_def node_link_def disk_link_def)
  have st: "st_conf P (MemoryStorage_view ?ms)" using cf by (simp add: st_conf_def snap_conf_def MemoryStorage_view_def MemoryStorage_Snapshot_def)
  obtain r where r: "Raft.tick (MemoryStorage_view ?ms) (rn_Raft (rc_node c i)) = Inr r" "rn = (rc_node c i)\<lparr>rn_Raft := r\<rparr>"
    using t by (auto simp: RawNode_Tick_def bindR_Inr_iff)
  show "follows P i (es_net (lr_e s)) (lr_net s) ?ms (lr_slog s i) (rn_Raft (rc_node c i)) (rn_Raft rn)"
    using tick_follows [OF r(1) ok st d] room r(2) by (simp add: has_room_def)
  show "rn_prevHardSt rn = rn_prevHardSt (rc_node c i)" using r(2) by simp
qed

lemma rlink_step:
  assumes l: "rlink P c s" and s: "lreach P T0 D s" and P: "finite P" "0 \<notin> P" "2 \<le> card P" "\<forall>x\<in>set D. e_Term x = T0" and st: "rstep P c c'"
  shows "\<exists>s'. lreach P T0 D s' \<and> rlink P c' s'"
  using st
proof cases
  case (deliver i m e rn)
  have w: "wire P m" "says m (lr_net s)" using l deliver(3) by (auto simp: rlink_def net_link_def carried_def)
  have "abs_msgs {m} \<subseteq> abs_msgs (rc_net c)" using deliver(3) by (auto simp: abs_msgs_def)
  then have hd: "heard P i (es_net (lr_e s)) (lr_net s) m"
    using w wire_handed [OF w(1) deliver(4) P(2)] deliver(4) l unfolding heard_def rlink_def net_link_def by blast
  have "rn = rc_node c i \<or> rn_step (MemoryStorage_view (rc_disk c i)) m (rc_node c i) = Inr (e, rn)"
    using deliver(6) by (auto simp: RawNode_Step_def split: if_splits)
  then show ?thesis
  proof
    assume "rn = rc_node c i"
    moreover have "put i (rc_node c i) (rc_disk c i) c = c" by (simp add: put_def)
    ultimately have "c' = c" using deliver(1) by simp
    then show ?thesis using l s by blast
  next
    assume "rn_step (MemoryStorage_view (rc_disk c i)) m (rc_node c i) = Inr (e, rn)"
    note call = local_call [OF l deliver(2) this hd deliver(5)]
    show ?thesis unfolding deliver(1) by (rule rlink_call [OF l s deliver(2) P call])
  qed
next
  case (tick i rn)
  show ?thesis unfolding tick(1) by (rule rlink_call [OF l s tick(2) P tick_call [OF l tick(2,4,3)]])
next
  case (campaign i e rn)
  have "fits (zeroMessage\<lparr>m_MsgType := MsgHup\<rparr>) (rn_Raft (rc_node c i))" by (rule room_fits) (use campaign(3) in \<open>simp_all add: zeroMessage_def\<close>)
  note call = local_call [OF l campaign(2) campaign(4) [unfolded RawNode_Campaign_def] local_heard this]
  show ?thesis unfolding campaign(1) by (rule rlink_call [OF l s campaign(2) P call]) simp_all
next
  case (propose i data e rn)
  let ?m = "zeroMessage\<lparr>m_MsgType := MsgPropose, m_From := r_id (rn_Raft (rc_node c i)), m_Entries := [zeroEntry\<lparr>e_Data := data\<rparr>]\<rparr>"
  have "fits ?m (rn_Raft (rc_node c i))" by (rule room_fits) (use propose(3) in \<open>simp_all add: zeroMessage_def numeral_2_eq_2\<close>)
  note call = local_call [OF l propose(2) propose(4) [unfolded RawNode_Propose_def] local_heard this]
  show ?thesis unfolding propose(1) by (rule rlink_call [OF l s propose(2) P call]) simp_all
next
  case (transfer i n rn)
  let ?m = "zeroMessage\<lparr>m_MsgType := MsgTransferLeader, m_From := n\<rparr>"
  obtain e where rs: "rn_step (MemoryStorage_view (rc_disk c i)) ?m (rc_node c i) = Inr (e, rn)"
    using transfer(4) by (auto simp: RawNode_TransferLeader_def bindR_Inr_iff)
  have "fits ?m (rn_Raft (rc_node c i))" by (rule room_fits) (use transfer(3) in \<open>simp_all add: zeroMessage_def\<close>)
  note call = local_call [OF l transfer(2) rs local_heard this]
  show ?thesis unfolding transfer(1) by (rule rlink_call [OF l s transfer(2) P call]) simp_all
next
  case (ready i rd rn ms rn')
  show ?thesis unfolding ready(1) by (rule rlink_ready [OF l s ready(2) P ready(3-6)])
next
  case (crash i rd rn ms rn')
  let ?c = "emit rd (put i rn' ms c)"
  note sv = rlink_saved [OF l s crash(2) P crash(3-5)]
  have "lreach P T0 D (lrestart i (lflush i s)) \<and> rlink P ?c (lrestart i (lflush i s))"
    by (rule rlink_restart [OF sv(1) crash(2) sv(2) crash(6) sv(3)]) (use sv(4) in simp_all)
  then show ?thesis unfolding crash(1) by blast
next
  case (restart i rn)
  let ?c = "put i rn (rc_disk c i) c"
  have "disk_link P (rc_disk c i) s i" "net_link P ?c s" using l restart(2) by (simp_all add: rlink_def net_link_def)
  note d = this
  have "lreach P T0 D (lrestart i s) \<and> rlink P ?c (lrestart i s)"
    by (rule rlink_restart [OF s restart(2) d(1) restart(3) d(2)]) (use l in \<open>simp_all add: rlink_def\<close>)
  then show ?thesis unfolding restart(1) by blast
next
  case (snapshot i k data sn ms)
  note a = applied_saved [OF l snapshot(2,3)]
  show ?thesis unfolding snapshot(1)
    using rlink_storage [OF l snapshot(2)] on_disk_snapshot [OF _ a(1) snapshot(4)] a(2) s by blast
next
  case (compact i k ms)
  note a = applied_saved [OF l compact(2,3)]
  have "rlink P (put i (rc_node c i) ms c) s"
    by (rule rlink_storage [OF l compact(2) on_disk_compact(1) [OF _ a(1) compact(4)]]) (use on_disk_compact(2,3) [OF a(2,1) compact(4)] in simp_all)
  then show ?thesis unfolding compact(1) using s by blast
qed

lemma cluster_implements_replication:
  assumes "rreach P s0 T0 c" "finite P" "0 \<notin> P" "2 \<le> card P"
  shows "\<exists>s. lreach P T0 (base_log s0 T0) s \<and> rlink P c s"
  using assms(1)
proof (induction rule: rreach.induct)
  case (start c)
  then show ?case by (rule rlink_start)
next
  case (step c c')
  then show ?case using rlink_step [OF _ _ assms(2-4) base_log_props(3)] by blast
qed

section \<open>Safety\<close>

text \<open>
  C2. State machine safety. In a cluster of two nodes or more whose nodes all start from the same state, however messages are lost, repeated,
  reordered or delayed and whichever nodes stop and start again from their storage, two entries that any nodes at any time hand to their
  applications for the same index are the same entry.
\<close>

theorem same_entry_everywhere:
  assumes "rreach P s0 T0 c" "finite P" "0 \<notin> P" "2 \<le> card P" "x \<in> rc_given c" "y \<in> rc_given c" "e_Index x = e_Index y"
  shows "x = y"
proof -
  obtain s where s: "lreach P T0 (base_log s0 T0) s" "rlink P c s" using cluster_implements_replication [OF assms(1-4)] by blast
  have W: "world_ok (world_of s) P T0" using rlink_reach(1) [OF s(1) assms(2-4) base_log_props(3)] by (simp add: linv_def)
  have rec: "recorded (world_of s) P x" "recorded (world_of s) P y" using s(2) assms(5,6) by (simp_all add: rlink_def net_link_def)
  obtain L where L: "committed (world_of s) P L" "0 < e_Index x" "e_Index x \<le> length L" "L ! (e_Index x - 1) = x" using rec(1) unfolding recorded_def by blast
  obtain M where M: "committed (world_of s) P M" "e_Index x \<le> length M" "M ! (e_Index x - 1) = y" using rec(2) assms(7) unfolding recorded_def by metis
  have "take (e_Index x) L = take (e_Index x) M" by (rule committed_agree [OF W assms(2) L(1) M(1) L(3) M(2)])
  then have "L ! (e_Index x - 1) = M ! (e_Index x - 1)" using L(2) by (metis diff_less nth_take zero_less_one)
  then show ?thesis using L(4) M(3) by simp
qed

theorem same_entry_everywhere_witness:
  "rreach {1, 2, 3} 0 0 run_end \<and> {x \<in> rc_given run_end. e_Index x = 1} = {run_entry}"
proof -
  have "x = run_entry" if "x \<in> rc_given run_end" "e_Index x = 1" for x
    by (rule same_entry_everywhere [OF run_reach _ _ _ that(1) run_given]) (simp_all add: that(2) run_index)
  then show ?thesis using run_reach run_given run_index by auto
qed

text \<open>
  C4. Log matching. If the logs of two nodes of the cluster have the same term at an index, they have the same entry at every index up to it
  that both still hold.
\<close>

theorem logs_agree_up_to:
  assumes "rreach P s0 T0 c" "finite P" "0 \<notin> P" "2 \<le> card P" "i \<in> P" "j \<in> P"
    "log_term (r_RaftLog (rn_Raft (rc_node c i))) n = Inr t" "log_term (r_RaftLog (rn_Raft (rc_node c j))) n = Inr t" "k \<le> n"
    "log_entry (r_RaftLog (rn_Raft (rc_node c i))) k = Some x" "log_entry (r_RaftLog (rn_Raft (rc_node c j))) k = Some y"
  shows "x = y"
proof -
  obtain s where s: "lreach P T0 (base_log s0 T0) s" "rlink P c s" using cluster_implements_replication [OF assms(1-4)] by blast
  note inv = rlink_reach(1) [OF s(1) assms(2-4) base_log_props(3)]
  let ?L = "\<lambda>i. lp_log (lr_q s i)"
  have r: "reps (r_RaftLog (rn_Raft (rc_node c i))) (?L i)" if "i \<in> P" for i using s(2) that by (simp add: rlink_def node_link_def holds_def)
  note ri = r [OF assms(5)] and rj = r [OF assms(6)]
  have n: "n \<le> length (?L i)" "n \<le> length (?L j)" "lterm (?L i) n = lterm (?L j) n" using assms(7,8) reps_term [OF ri] reps_term [OF rj] by auto
  have "take n (?L i) = take n (?L j)" by (rule log_matching [OF inv n])
  moreover have "0 < k" "x = ?L i ! (k - 1)" "y = ?L j ! (k - 1)" using assms(10,11) reps_entry [OF ri, of k] reps_entry [OF rj, of k] by (auto split: if_splits)
  ultimately show ?thesis using assms(9) by (metis diff_less less_le_trans nth_take zero_less_one)
qed

theorem logs_agree_up_to_witness:
  "rreach {1, 2, 3} 0 0 run_end \<and> log_term (r_RaftLog (rn_Raft (rc_node run_end 2))) 1 = Inr 1
   \<and> log_entry (r_RaftLog (rn_Raft (rc_node run_end 1))) 1 = log_entry (r_RaftLog (rn_Raft (rc_node run_end 2))) 1"
proof -
  obtain x y where e: "log_entry (r_RaftLog (rn_Raft (rc_node run_end 1))) 1 = Some x" "log_entry (r_RaftLog (rn_Raft (rc_node run_end 2))) 1 = Some y"
    using run_logs(3,4) by blast
  have "x = y" by (rule logs_agree_up_to [OF run_reach _ _ _ _ _ run_logs(1,2) _ e]) simp_all
  then show ?thesis using e run_reach run_logs(2) by simp
qed

text \<open>
  C3. Leader completeness. A leader that no node of the cluster has a newer term than has every entry that was ever handed to an application:
  its log reaches the entry's index, and the entry it holds there, unless a snapshot stands for it, is that entry.
\<close>

theorem newest_leader_has_all:
  assumes "rreach P s0 T0 c" "finite P" "0 \<notin> P" "2 \<le> card P" "i \<in> P" "r_State (rn_Raft (rc_node c i)) = StateLeader"
    "\<And>j. j \<in> P \<Longrightarrow> r_Term (rn_Raft (rc_node c j)) \<le> r_Term (rn_Raft (rc_node c i))" "x \<in> rc_given c"
  shows "e_Index x \<le> log_LastIndex (r_RaftLog (rn_Raft (rc_node c i)))
    \<and> (lg_snapIndex (r_RaftLog (rn_Raft (rc_node c i))) < e_Index x \<longrightarrow> log_entry (r_RaftLog (rn_Raft (rc_node c i))) (e_Index x) = Some x)"
proof -
  obtain s where s: "lreach P T0 (base_log s0 T0) s" "rlink P c s" using cluster_implements_replication [OF assms(1-4)] by blast
  note inv = rlink_reach(1) [OF s(1) assms(2-4) base_log_props(3)]
  let ?W = "world_of s" and ?L = "lp_log (lr_q s i)" and ?T = "r_Term (rn_Raft (rc_node c i))"
  have W: "world_ok ?W P T0" using inv by (simp add: linv_def)
  have nl: "node_link P (rc_node c j) (rc_disk c j) s j" if "j \<in> P" for j using s(2) that by (simp add: rlink_def)
  have p: "es_peer (lr_e s) j = abs_peer (rn_Raft (rc_node c j))" if "j \<in> P" for j using nl [OF that] by (simp add: node_link_def lnode_of_def shown_def)
  have r: "reps (r_RaftLog (rn_Raft (rc_node c i))) ?L" using nl [OF assms(5)] by (simp add: node_link_def holds_def)
  have "ep_role (es_peer (lr_e s) i) = StateLeader" using p [OF assms(5)] assms(6) by (simp add: abs_peer_def)
  note lead = leader_facts(1,2) [OF linv_node [OF inv] this]
  have T: "ep_term (es_peer (lr_e s) i) = ?T" using p [OF assms(5)] by (simp add: abs_peer_def)
  have el: "?T \<in> w_el ?W" using lead(1) world_led [OF W] T by force
  obtain L where L: "committed ?W P L" "0 < e_Index x" "e_Index x \<le> length L" "L ! (e_Index x - 1) = x"
    using s(2) assms(8) unfolding rlink_def net_link_def recorded_def by blast
  then obtain t n where t: "comm ?W P t n" "length L \<le> n" "has ?W L t (length L)" unfolding committed_def by fastforce
  have "t \<le> ?T"
  proof -
    obtain Q where Q: "majority P Q" "\<forall>j\<in>Q. n \<le> w_pa ?W j t" using t(1) unfolding comm_def by blast
    then obtain j where j: "j \<in> Q" "j \<in> P" by (auto simp: majority_def) (metis card.empty equals0I not_less0 subsetD)
    have "0 < w_pa ?W j t" using Q(2) j(1) t(2) L(2,3) by fastforce
    moreover have "w_pa ?W j t \<le> lp_acc (lr_q s j) t" using linv_node [OF inv, of j] by (simp add: node_inv_def held_def)
    ultimately have "t \<le> ep_term (es_peer (lr_e s) j)" using linv_log [OF inv, of j] unfolding node_ok_def by (meson less_le_trans)
    then show ?thesis using assms(7) [OF j(2)] p [OF j(2)] by (simp add: abs_peer_def)
  qed
  then have "has ?W (w_ll ?W ?T) t n" by (rule secured_later [OF W t(1) el _ assms(2)])
  then have "has ?W ?L t (e_Index x)" using lead(2) T has_mono [of ?W "w_ll ?W ?T" t n "e_Index x"] L(3) t(2) by simp
  moreover have "has ?W L t (e_Index x)" using has_mono [OF t(3) L(3)] .
  ultimately have h: "e_Index x \<le> length ?L" "take (e_Index x) ?L = take (e_Index x) L" by (simp_all add: has_def)
  then have "?L ! (e_Index x - 1) = x" using L(2,4) by (metis diff_less nth_take zero_less_one)
  then show ?thesis using h(1) reps_last [OF r] reps_entry [OF r, of "e_Index x"] by simp
qed

theorem newest_leader_has_all_witness:
  "r_State (rn_Raft (rc_node run_end 1)) = StateLeader \<and> run_entry \<in> rc_given run_end
   \<and> e_Index run_entry \<le> log_LastIndex (r_RaftLog (rn_Raft (rc_node run_end 1)))
   \<and> log_entry (r_RaftLog (rn_Raft (rc_node run_end 1))) (e_Index run_entry) = Some run_entry"
proof -
  have "r_Term (rn_Raft (rc_node run_end j)) \<le> r_Term (rn_Raft (rc_node run_end 1))" if "j \<in> {1, 2, 3}" for j
    using that run_terms by auto
  then have "e_Index run_entry \<le> log_LastIndex (r_RaftLog (rn_Raft (rc_node run_end 1)))
    \<and> (lg_snapIndex (r_RaftLog (rn_Raft (rc_node run_end 1))) < e_Index run_entry
        \<longrightarrow> log_entry (r_RaftLog (rn_Raft (rc_node run_end 1))) (e_Index run_entry) = Some run_entry)"
    by (intro newest_leader_has_all [OF run_reach _ _ _ _ run_terms(1) _ run_given]) simp_all
  then show ?thesis using run_terms(1,5) run_given run_index by simp
qed

section \<open>Messages of a leader are handled\<close>

lemma send_reply: "\<exists>r'. send (zeroMessage\<lparr>m_To := j, m_MsgType := MsgAppendResponse, m_Index := n, m_Reject := b, m_RejectHint := h\<rparr>) r = Inr r'"
  "\<exists>r'. send (zeroMessage\<lparr>m_To := j, m_MsgType := MsgAppendResponse, m_Index := n\<rparr>) r = Inr r'"
  "\<exists>r'. send (zeroMessage\<lparr>m_To := j, m_MsgType := MsgHeartbeatResponse\<rparr>) r = Inr r'"
  by (simp_all add: send_def zeroMessage_def Let_def)

lemma append_returns:
  assumes r: "reps (r_RaftLog r) L" and d: "on_disk ms S" and al: "aligned ms S (r_RaftLog r) L"
    and es: "contiguous (m_Index m + 1) (m_Entries m)" and room: "length L + length (m_Entries m) < 2 ^ 63"
  shows "\<exists>r'. handleAppendEntries (MemoryStorage_view ms) m r = Inr r'"
proof (cases "m_Index m < lg_committed (r_RaftLog r)")
  case True
  then show ?thesis by (simp add: handleAppendEntries_def send_reply)
next
  case False
  let ?l = "r_RaftLog r"
  show ?thesis
  proof (cases "log_matchTerm ?l (m_Index m) (m_LogTerm m)")
    case True
    then have t: "log_term ?l (m_Index m) = Inr (m_LogTerm m)" "m_Index m \<le> length L" using reps_match [OF r] reps_term [OF r] by auto
    obtain l' where "log_maybeAppend (MemoryStorage_view ms) ?l (m_Index m) (m_LogTerm m) (m_Commit m) (m_Entries m) = Inr (Some (m_Index m + length (m_Entries m)), l')"
      using maybe_append_accepts [OF reps_wf [OF r] aligned_behind [OF d r al] _ _ t(1), of "m_Entries m" "m_Commit m"] es room t(2) False by auto
    then show ?thesis using False by (simp add: handleAppendEntries_def Let_def send_reply)
  next
    case nm: False
    then have "log_maybeAppend (MemoryStorage_view ms) ?l (m_Index m) (m_LogTerm m) (m_Commit m) (m_Entries m) = Inr (None, ?l)"
      by (simp add: log_maybeAppend_def)
    moreover have "\<exists>t. log_zeroTermOnRangeErr (log_term ?l (m_Index m)) = Inr t" by (simp add: log_zeroTermOnRangeErr_def log_term_def)
    ultimately show ?thesis using False by (auto simp: handleAppendEntries_def Let_def send_reply)
  qed
qed

lemma heartbeat_returns:
  assumes "reps (r_RaftLog r) L" "m_Commit m \<le> length L"
  shows "\<exists>r'. handleHeartbeat m r = Inr r'"
  using assms reps_last [OF assms(1)] by (simp add: handleHeartbeat_def log_commitTo_def send_reply)

lemma snapshot_returns:
  assumes r: "reps (r_RaftLog r) L" and s: "m_Snapshot m = Some s"
  shows "\<exists>r'. handleSnapshot m r = Inr r'"
proof -
  have "log_lastTerm (r_RaftLog r) = Inr (lterm L (length L))" using reps_lastTerm [OF r] by blast
  moreover have "log_commitTo (r_RaftLog r) n = Inr ((r_RaftLog r)\<lparr>lg_committed := max (lg_committed (r_RaftLog r)) n\<rparr>)"
    if "log_matchTerm (r_RaftLog r) n t" for n t
    using that reps_match [OF r] reps_last [OF r] by (simp add: log_commitTo_def max_def)
  ultimately have "\<exists>x. restore s r = Inr x" by (auto simp: restore_def Let_def)
  then show ?thesis using s by (auto simp: handleSnapshot_def send_reply split: prod.splits)
qed

lemma becomeFollower_returns: "0 < r_electionTimeout r \<Longrightarrow> \<exists>r'. becomeFollower t n r = Inr r' \<and> r_RaftLog r' = r_RaftLog r \<and> r_State r' = StateFollower"
  by (simp add: becomeFollower_def reset_def resetRandomizedElectionTimeout_def Intn_def abortLeaderTransfer_def Let_def)

text \<open>A leader's message is stepped without a fault if the handlers of the roles return on the log of the peer.\<close>

lemma lead_returns:
  assumes lead: "lead_msg m" "m_Term m \<noteq> 0" and ret: "0 < r_electionTimeout r"
    and app: "\<And>r'. m_MsgType m = MsgAppend \<Longrightarrow> r_Term r \<le> m_Term m \<Longrightarrow> r_RaftLog r' = r_RaftLog r \<Longrightarrow> \<exists>x. handleAppendEntries st m r' = Inr x"
    and beat: "\<And>r'. m_MsgType m = MsgHeartbeat \<Longrightarrow> r_Term r \<le> m_Term m \<Longrightarrow> r_RaftLog r' = r_RaftLog r \<Longrightarrow> \<exists>x. handleHeartbeat m r' = Inr x"
    and snap: "\<And>r'. m_MsgType m = MsgSnapshot \<Longrightarrow> r_Term r \<le> m_Term m \<Longrightarrow> r_RaftLog r' = r_RaftLog r \<Longrightarrow> \<exists>x. handleSnapshot m r' = Inr x"
  shows "\<exists>r'. Step st m r = Inr (None, r')"
proof -
  have follower: "\<exists>x. stepFollower st m r' = Inr (None, x)" if "r_Term r \<le> m_Term m" "r_RaftLog r' = r_RaftLog r" for r'
    using lead(1) app [OF _ that(1), of "r'\<lparr>r_electionElapsed := 0, r_Lead := m_From m\<rparr>"] beat [OF _ that(1), of "r'\<lparr>r_electionElapsed := 0, r_Lead := m_From m\<rparr>"]
      snap [OF _ that(1), of "r'\<lparr>r_electionElapsed := 0, r_Lead := m_From m\<rparr>"] that(2)
    by (auto simp: lead_msg_def stepFollower_def ok_def)
  have candidate: "\<exists>x. stepCandidate st m r = Inr (None, x)" if t: "r_Term r \<le> m_Term m"
    using lead(1) becomeFollower_returns [OF ret, of "m_Term m" "m_From m"] app [OF _ t] beat [OF _ t] snap [OF _ t]
    by (fastforce simp: lead_msg_def stepCandidate_def ok_def)
  have leader: "\<exists>x. stepLeader st m r = Inr (None, x)"
    using lead(1) by (auto simp: lead_msg_def stepLeader_def split: option.splits)
  have go: "Step st m r = bindR (step_term m r) (\<lambda>res. case res of None \<Rightarrow> Inr (None, r) | Some r1 \<Rightarrow>
      (case r_State r1 of StateFollower \<Rightarrow> stepFollower st m r1 | StateCandidate \<Rightarrow> stepCandidate st m r1 | StateLeader \<Rightarrow> stepLeader st m r1))"
    using lead(1) by (auto simp: Step_def lead_msg_def intro!: bindR_cong split: option.splits)
  show ?thesis
  proof (rule linorder_cases [of "m_Term m" "r_Term r"])
    assume "m_Term m < r_Term r"
    then show ?thesis using lead(2) by (simp add: go step_term_def)
  next
    assume "m_Term m = r_Term r"
    then show ?thesis using follower [of r] candidate leader lead(2) by (cases "r_State r") (auto simp: go step_term_def)
  next
    assume t: "r_Term r < m_Term m"
    obtain r1 where "becomeFollower (m_Term m) (m_From m) r = Inr r1" "r_RaftLog r1 = r_RaftLog r" "r_State r1 = StateFollower"
      using becomeFollower_returns [OF ret] by blast
    then show ?thesis using t follower [of r1] lead by (auto simp: go step_term_def lead_msg_def)
  qed
qed

text \<open>
  C5. The processes of the cluster are not stopped by \<open>log.Fatal\<close> or a panic when a leader's message arrives: whatever append, heartbeat or
  snapshot message is in the network, old or new, the node it is for steps it without a fault and without an error. In particular a
  heartbeat never tells a node to commit beyond its log, and an append never conflicts with a committed entry.
\<close>

theorem leader_messages_handled:
  assumes "rreach P s0 T0 c" "finite P" "0 \<notin> P" "2 \<le> card P" "i \<in> P" "m \<in> rc_net c" "m_To m = i" "fits m (rn_Raft (rc_node c i))"
    "m_MsgType m = MsgAppend \<or> m_MsgType m = MsgHeartbeat \<or> m_MsgType m = MsgSnapshot \<and> m_Snapshot m \<noteq> None"
    "0 < r_electionTimeout (rn_Raft (rc_node c i))"
  shows "\<exists>rn. RawNode_Step (MemoryStorage_view (rc_disk c i)) m (rc_node c i) = Inr (None, rn)"
proof -
  obtain s where s: "lreach P T0 (base_log s0 T0) s" "rlink P c s" using cluster_implements_replication [OF assms(1-4)] by blast
  note inv = rlink_reach(1) [OF s(1) assms(2-4) base_log_props(3)]
  let ?r = "rn_Raft (rc_node c i)" and ?ms = "rc_disk c i" and ?q = "lr_q s i" and ?W = "world_of s"
  have nl: "node_link P (rc_node c i) ?ms s i" "on_disk ?ms (lr_slog s i)" using s(2) assms(5) by (simp_all add: rlink_def disk_link_def)
  have h: "reps (r_RaftLog ?r) (lp_log ?q)" "aligned ?ms (lr_slog s i) (r_RaftLog ?r) (lp_log ?q)" and p: "es_peer (lr_e s) i = abs_peer ?r"
    using nl(1) by (simp_all add: node_link_def holds_def lnode_of_def shown_def)
  have w: "wire P m" "says m (lr_net s)" using s(2) assms(6) by (auto simp: rlink_def net_link_def carried_def)
  have lead: "lead_msg m" using assms(9) by (auto simp: lead_msg_def)
  then have t0: "m_Term m \<noteq> 0" using w(1) by (simp add: wire_def)
  have room: "length (lp_log ?q) + length (m_Entries m) < 2 ^ 63" using assms(8) reps_last [OF h(1)] by (simp add: fits_def)
  have beat: "m_Commit m \<le> length (lp_log ?q)" if b: "m_MsgType m = MsgHeartbeat" "r_Term ?r \<le> m_Term m"
  proof -
    have "Beat (m_From m) i (m_Term m) (m_Commit m) \<in> lr_net s" using w(2) b(1) assms(7) by (simp add: says_def)
    then have le: "m_Commit m \<le> w_pa ?W i (m_Term m)" using inv unfolding linv_def by fastforce
    also have "\<dots> \<le> lp_acc ?q (m_Term m)" using linv_node [OF inv, of i] by (simp add: node_inv_def held_def)
    finally have le: "m_Commit m \<le> lp_acc ?q (m_Term m)" .
    have ok: "node_ok ?W P (r_Term ?r) (lp_log ?q) (lp_commit ?q) (lp_acc ?q)" using linv_log [OF inv, of i] p by (simp add: abs_peer_def)
    then have "0 < lp_acc ?q (m_Term m) \<longrightarrow> m_Term m \<le> r_Term ?r" "has ?W (lp_log ?q) (r_Term ?r) (lp_acc ?q (r_Term ?r))" by (simp_all add: node_ok_def)
    then show ?thesis using le b(2) by (cases "m_Term m = r_Term ?r") (auto simp: has_def)
  qed
  have "\<exists>r'. Step (MemoryStorage_view ?ms) m ?r = Inr (None, r')"
  proof (rule lead_returns [OF lead t0 assms(10)])
    show "\<exists>x. handleAppendEntries (MemoryStorage_view ?ms) m r' = Inr x" if "m_MsgType m = MsgAppend" "r_RaftLog r' = r_RaftLog ?r" for r'
      using append_returns [OF _ nl(2), of r' "lp_log ?q" m] h that w(2) room by (simp add: says_def)
    show "\<exists>x. handleHeartbeat m r' = Inr x" if "m_MsgType m = MsgHeartbeat" "r_Term ?r \<le> m_Term m" "r_RaftLog r' = r_RaftLog ?r" for r'
      using heartbeat_returns [of r' "lp_log ?q" m] h(1) that beat by simp
    show "\<exists>x. handleSnapshot m r' = Inr x" if "m_MsgType m = MsgSnapshot" "r_RaftLog r' = r_RaftLog ?r" for r'
      using snapshot_returns [of r' "lp_log ?q" m] h(1) that assms(9) by auto
  qed
  then show ?thesis using assms(9) by (auto simp: RawNode_Step_def rn_step_def IsLocalMsg_def IsResponseMsg_def)
qed

theorem leader_messages_handled_witness:
  "run_commits ! 0 \<in> rc_net run_end \<and> m_Commit (run_commits ! 0) = 1
   \<and> (\<exists>rn. RawNode_Step (MemoryStorage_view (rc_disk run_end 2)) (run_commits ! 0) (rc_node run_end 2) = Inr (None, rn))"
proof -
  have m: "run_commits ! 0 \<in> rc_net run_end" by (simp add: run_end_def run_state_def run_commits_def)
  have "m_To (run_commits ! 0) = 2" "m_MsgType (run_commits ! 0) = MsgAppend" "fits (run_commits ! 0) (rn_Raft (rc_node run_end 2))"
    "0 < r_electionTimeout (rn_Raft (rc_node run_end 2))" "m_Commit (run_commits ! 0) = 1"
    by (simp_all add: fits_def run_end_def run_state_def run_defs exec_run)
  then show ?thesis using leader_messages_handled [OF run_reach _ _ _ _ m] m by simp
qed

end
