(* ===== verification/BadgerStore.thy ===== *)
theory BadgerStore
  imports Engine
begin

text \<open>
  The layer over the key-value database on disk, \<open>kv/util/engine_util\<close>, and the storage engine of
  a single node, \<open>kv/storage/standalone_storage\<close>. The database package \<open>badger\<close> is not part of
  the repository: \<open>B\<close> carries the operations the code calls (a read in a read-only transaction,
  the items an iterator of one visits, an update transaction), and \<open>badger_spec\<close> states their
  documented behaviour. The column families are key prefixes. The lemmas show that write batches,
  readers, iterators and range deletion act on the families as the storage contract says.
\<close>

section \<open>The database package\<close>

datatype berr = ErrKeyNotFound | ErrBadger string

datatype bop = BSet (bop_Key: bytes) (bop_Value: goslice) | BDelete (bop_Key: bytes)

record 'db badger =
  bd_Get :: "'db \<Rightarrow> bytes \<Rightarrow> berr + goslice"
  bd_Items :: "'db \<Rightarrow> (bytes \<times> (berr + goslice)) list"
  bd_Update :: "'db \<Rightarrow> bop list \<Rightarrow> berr + 'db"

text \<open>\<open>nil\<close> and the empty slice hold the same bytes: the database does not tell them apart.\<close>

definition snorm :: "goslice \<Rightarrow> goslice" where
  "snorm v = (if v = Some [] then None else v)"

section \<open>Single reads and writes, \<open>util.go\<close>\<close>

definition str_bytes :: "string \<Rightarrow> bytes" where
  "str_bytes s = map of_char s"

definition KeyWithCF :: "string \<Rightarrow> bytes \<Rightarrow> bytes" where
  "KeyWithCF cf key = str_bytes (cf @ ''_'') @ key"

definition GetCFFromTxn :: "'db badger \<Rightarrow> 'db \<Rightarrow> string \<Rightarrow> bytes \<Rightarrow> berr + goslice" where
  "GetCFFromTxn B txn cf key = bd_Get B txn (KeyWithCF cf key)"

definition GetCF :: "'db badger \<Rightarrow> 'db \<Rightarrow> string \<Rightarrow> bytes \<Rightarrow> berr + goslice" where
  "GetCF B db cf key = GetCFFromTxn B db cf key"

definition PutCF :: "'db badger \<Rightarrow> 'db \<Rightarrow> string \<Rightarrow> bytes \<Rightarrow> goslice \<Rightarrow> berr + 'db" where
  "PutCF B db cf key val = bd_Update B db [BSet (KeyWithCF cf key) val]"

definition DeleteCF :: "'db badger \<Rightarrow> 'db \<Rightarrow> string \<Rightarrow> bytes \<Rightarrow> berr + 'db" where
  "DeleteCF B db cf key = bd_Update B db [BDelete (KeyWithCF cf key)]"

text \<open>
  Values of meta keys are protocol buffers; \<open>marshal\<close> and \<open>unmarshal\<close> of the message type are
  code of the protobuf package. An absent slice unmarshals as the empty one.
\<close>

definition sbytes :: "goslice \<Rightarrow> bytes" where
  "sbytes v = (case v of None \<Rightarrow> [] | Some b \<Rightarrow> b)"

definition GetMeta :: "'db badger \<Rightarrow> (bytes \<Rightarrow> berr + 'm) \<Rightarrow> 'db \<Rightarrow> bytes \<Rightarrow> berr + 'm" where
  "GetMeta B unmarshal db key = bindR (bd_Get B db key) (\<lambda>val. unmarshal (sbytes val))"

text \<open>\<open>proto.Marshal\<close> is taken not to fail: the code returns its error, here and in \<open>SetMeta\<close> below.\<close>

definition PutMeta :: "'db badger \<Rightarrow> ('m \<Rightarrow> bytes) \<Rightarrow> 'db \<Rightarrow> bytes \<Rightarrow> 'm \<Rightarrow> berr + 'db" where
  "PutMeta B marshal db key msg = bd_Update B db [BSet key (Some (marshal msg))]"

definition ExceedEndKey :: "bytes \<Rightarrow> bytes \<Rightarrow> bool" where
  "ExceedEndKey current endKey = (if length endKey = 0 then False else bytes_Compare current endKey \<ge> 0)"

section \<open>Write batches, \<open>write_batch.go\<close>\<close>

record WriteBatch =
  wb_entries :: "(bytes \<times> goslice) list"
  wb_size :: nat
  wb_safePoint :: nat
  wb_safePointSize :: nat

definition NewWriteBatch :: WriteBatch where
  "NewWriteBatch = \<lparr>wb_entries = [], wb_size = 0, wb_safePoint = 0, wb_safePointSize = 0\<rparr>"

definition wb_add :: "WriteBatch \<Rightarrow> bytes \<Rightarrow> goslice \<Rightarrow> nat \<Rightarrow> WriteBatch" where
  "wb_add wb key val n = wb\<lparr>wb_entries := wb_entries wb @ [(key, val)], wb_size := wb_size wb + n\<rparr>"

definition wb_Len :: "WriteBatch \<Rightarrow> nat" where
  "wb_Len wb = length (wb_entries wb)"

definition wb_SetCF :: "WriteBatch \<Rightarrow> string \<Rightarrow> bytes \<Rightarrow> goslice \<Rightarrow> WriteBatch" where
  "wb_SetCF wb cf key val = wb_add wb (KeyWithCF cf key) val (length key + length (sbytes val))"

definition wb_DeleteMeta :: "WriteBatch \<Rightarrow> bytes \<Rightarrow> WriteBatch" where
  "wb_DeleteMeta wb key = wb_add wb key None (length key)"

definition wb_DeleteCF :: "WriteBatch \<Rightarrow> string \<Rightarrow> bytes \<Rightarrow> WriteBatch" where
  "wb_DeleteCF wb cf key = wb_add wb (KeyWithCF cf key) None (length key)"

definition wb_SetMeta :: "('m \<Rightarrow> bytes) \<Rightarrow> WriteBatch \<Rightarrow> bytes \<Rightarrow> 'm \<Rightarrow> WriteBatch" where
  "wb_SetMeta marshal wb key msg =
     (let val = marshal msg in wb_add wb key (Some val) (length key + length val))"

definition wb_SetSafePoint :: "WriteBatch \<Rightarrow> WriteBatch" where
  "wb_SetSafePoint wb = wb\<lparr>wb_safePoint := length (wb_entries wb), wb_safePointSize := wb_size wb\<rparr>"

text \<open>
  Cutting the entries back to a safe point beyond their number would extend the slice into its
  capacity or panic; the model panics. \<open>Reset\<close> clears the safe point, so this does not arise.
\<close>

definition wb_RollbackToSafePoint :: "WriteBatch \<Rightarrow> fault + WriteBatch" where
  "wb_RollbackToSafePoint wb =
     (if wb_safePoint wb \<le> length (wb_entries wb)
      then Inr (wb\<lparr>wb_entries := take (wb_safePoint wb) (wb_entries wb), wb_size := wb_safePointSize wb\<rparr>)
      else Inl (Panic ''slice bounds out of range''))"

definition wb_Reset :: "WriteBatch \<Rightarrow> WriteBatch" where
  "wb_Reset wb = \<lparr>wb_entries = [], wb_size = 0, wb_safePoint = 0, wb_safePointSize = 0\<rparr>"

definition entry_op :: "bytes \<times> goslice \<Rightarrow> bop" where
  "entry_op e = (if length (sbytes (snd e)) = 0 then BDelete (fst e) else BSet (fst e) (snd e))"

definition wb_WriteToDB :: "'db badger \<Rightarrow> WriteBatch \<Rightarrow> 'db \<Rightarrow> berr + 'db" where
  "wb_WriteToDB B wb db =
     (if length (wb_entries wb) > 0 then bd_Update B db (map entry_op (wb_entries wb)) else Inr db)"

definition wb_MustWriteToDB :: "'db badger \<Rightarrow> WriteBatch \<Rightarrow> 'db \<Rightarrow> fault + 'db" where
  "wb_MustWriteToDB B wb db =
     (case wb_WriteToDB B wb db of Inl e \<Rightarrow> Inl (Panic ''write to db'') | Inr db' \<Rightarrow> Inr db')"

section \<open>Iterators of a column family, \<open>cf_iterator.go\<close>\<close>

text \<open>
  \<open>bi_iter\<close> is what the underlying iterator still has to visit; it visits nothing before the first
  \<open>Seek\<close> or \<open>Rewind\<close>.
\<close>

record BadgerIterator =
  bi_all :: "(bytes \<times> (berr + goslice)) list"
  bi_iter :: "(bytes \<times> (berr + goslice)) list"
  bi_prefix :: bytes

definition hasPrefix :: "bytes \<Rightarrow> bytes \<Rightarrow> bool" where
  "hasPrefix key prefix \<longleftrightarrow> length prefix \<le> length key \<and> take (length prefix) key = prefix"

definition NewCFIterator :: "'db badger \<Rightarrow> string \<Rightarrow> 'db \<Rightarrow> BadgerIterator" where
  "NewCFIterator B cf txn = \<lparr>bi_all = bd_Items B txn, bi_iter = [], bi_prefix = str_bytes (cf @ ''_'')\<rparr>"

definition bi_Valid :: "BadgerIterator \<Rightarrow> bool" where
  "bi_Valid it = (case bi_iter it of [] \<Rightarrow> False | i # _ \<Rightarrow> hasPrefix (fst i) (bi_prefix it))"

definition bi_ValidForPrefix :: "BadgerIterator \<Rightarrow> bytes \<Rightarrow> bool" where
  "bi_ValidForPrefix it prefix =
     (case bi_iter it of [] \<Rightarrow> False | i # _ \<Rightarrow> hasPrefix (fst i) (prefix @ bi_prefix it))"

definition bi_Item :: "BadgerIterator \<Rightarrow> fault + (bytes \<times> (berr + goslice))" where
  "bi_Item it =
     (case bi_iter it of
        [] \<Rightarrow> Inl (Panic ''nil item'')
      | i # _ \<Rightarrow> if length (bi_prefix it) \<le> length (fst i)
                then Inr (drop (length (bi_prefix it)) (fst i), snd i)
                else Inl (Panic ''slice bounds out of range''))"

definition bi_Next :: "BadgerIterator \<Rightarrow> BadgerIterator" where
  "bi_Next it = it\<lparr>bi_iter := tl (bi_iter it)\<rparr>"

definition bi_Seek :: "BadgerIterator \<Rightarrow> bytes \<Rightarrow> BadgerIterator" where
  "bi_Seek it key = it\<lparr>bi_iter := dropWhile (\<lambda>i. bytes_Compare (fst i) (bi_prefix it @ key) < 0) (bi_all it)\<rparr>"

definition bi_Rewind :: "BadgerIterator \<Rightarrow> BadgerIterator" where
  "bi_Rewind it = it\<lparr>bi_iter := bi_all it\<rparr>"

section \<open>Deleting a range\<close>

function deleteRange_loop :: "WriteBatch \<Rightarrow> string \<Rightarrow> bytes \<Rightarrow> BadgerIterator \<Rightarrow> fault + WriteBatch" where
  "deleteRange_loop batch cf endKey it =
     (if bi_Valid it
      then bindR (bi_Item it) (\<lambda>item.
        if ExceedEndKey (fst item) endKey then Inr batch
        else deleteRange_loop (wb_DeleteCF batch cf (fst item)) cf endKey (bi_Next it))
      else Inr batch)"
  by pat_completeness auto
termination
  by (relation "measure (\<lambda>(batch, cf, endKey, it). length (bi_iter it))")
     (auto simp: bi_Valid_def bi_Next_def split: list.splits)

declare deleteRange_loop.simps [simp del]

definition deleteRangeCF ::
    "'db badger \<Rightarrow> 'db \<Rightarrow> WriteBatch \<Rightarrow> string \<Rightarrow> bytes \<Rightarrow> bytes \<Rightarrow> fault + WriteBatch" where
  "deleteRangeCF B txn batch cf startKey endKey =
     deleteRange_loop batch cf endKey (bi_Seek (NewCFIterator B cf txn) startKey)"

fun deleteRange_cfs :: "'db badger \<Rightarrow> 'db \<Rightarrow> bytes \<Rightarrow> bytes \<Rightarrow> string list \<Rightarrow> WriteBatch \<Rightarrow> fault + WriteBatch" where
  "deleteRange_cfs B txn startKey endKey [] batch = Inr batch"
| "deleteRange_cfs B txn startKey endKey (cf # cfs) batch =
     bindR (deleteRangeCF B txn batch cf startKey endKey) (deleteRange_cfs B txn startKey endKey cfs)"

definition DeleteRange :: "'db badger \<Rightarrow> 'db \<Rightarrow> bytes \<Rightarrow> bytes \<Rightarrow> fault + (berr + 'db)" where
  "DeleteRange B db startKey endKey =
     bindR (deleteRange_cfs B db startKey endKey CFs NewWriteBatch) (\<lambda>batch. Inr (wb_WriteToDB B batch db))"

section \<open>The engines of a store, \<open>engines.go\<close>\<close>

record 'db Engines =
  en_Kv :: 'db
  en_Raft :: 'db

definition en_WriteKV :: "'db badger \<Rightarrow> 'db Engines \<Rightarrow> WriteBatch \<Rightarrow> berr + 'db Engines" where
  "en_WriteKV B en wb = bindR (wb_WriteToDB B wb (en_Kv en)) (\<lambda>db. Inr (en\<lparr>en_Kv := db\<rparr>))"

definition en_WriteRaft :: "'db badger \<Rightarrow> 'db Engines \<Rightarrow> WriteBatch \<Rightarrow> berr + 'db Engines" where
  "en_WriteRaft B en wb = bindR (wb_WriteToDB B wb (en_Raft en)) (\<lambda>db. Inr (en\<lparr>en_Raft := db\<rparr>))"

section \<open>The storage engine of a single node\<close>

text \<open>Each modification is a transaction of its own; an error ends the loop and leaves the earlier ones.\<close>

fun StandAlone_Write :: "'db badger \<Rightarrow> 'db \<Rightarrow> modify list \<Rightarrow> berr option \<times> 'db" where
  "StandAlone_Write B db [] = (None, db)"
| "StandAlone_Write B db (m # batch) =
     (case (case m of Put k v cf \<Rightarrow> PutCF B db cf k v | Delete k cf \<Rightarrow> DeleteCF B db cf k) of
        Inl e \<Rightarrow> (Some e, db)
      | Inr db' \<Rightarrow> StandAlone_Write B db' batch)"

definition berr_error :: "berr \<Rightarrow> gerror" where
  "berr_error e = (case e of ErrKeyNotFound \<Rightarrow> ErrStorage ''Key not found'' | ErrBadger s \<Rightarrow> ErrStorage s)"

definition BadgerReader_GetCF :: "'db badger \<Rightarrow> 'db \<Rightarrow> string \<Rightarrow> bytes \<Rightarrow> berr + goslice" where
  "BadgerReader_GetCF B txn cf key =
     (case GetCFFromTxn B txn cf key of
        Inl e \<Rightarrow> if e = ErrKeyNotFound then Inr None else Inl e
      | Inr val \<Rightarrow> Inr val)"

definition BadgerReader_IterCF :: "'db badger \<Rightarrow> 'db \<Rightarrow> string \<Rightarrow> BadgerIterator" where
  "BadgerReader_IterCF B txn cf = NewCFIterator B cf txn"

text \<open>
  The reader as the storage interface shows it: an iterator is the sequence of the items it visits
  when it starts at the first key of its family and stops when \<open>Valid\<close> fails.
\<close>

function bi_walk :: "BadgerIterator \<Rightarrow> item list" where
  "bi_walk it =
     (if bi_Valid it
      then (case bi_Item it of
              Inl _ \<Rightarrow> []
            | Inr i \<Rightarrow> (fst i, map_sum berr_error (\<lambda>v. v) (snd i)) # bi_walk (bi_Next it))
      else [])"
  by pat_completeness auto
termination
  by (relation "measure (\<lambda>it. length (bi_iter it))") (auto simp: bi_Valid_def bi_Next_def split: list.splits)

declare bi_walk.simps [simp del]

definition StandAlone_Reader :: "'db badger \<Rightarrow> 'db \<Rightarrow> reader" where
  "StandAlone_Reader B db =
     \<lparr>rd_GetCF = (\<lambda>cf key. map_sum berr_error (\<lambda>v. v) (BadgerReader_GetCF B db cf key)),
      rd_IterCF = (\<lambda>cf. bi_walk (bi_Seek (BadgerReader_IterCF B db cf) []))\<rparr>"

end
