(* ===== verification/BadgerStore_Spec.thy ===== *)
theory BadgerStore_Spec
  imports BadgerStore MemStore
begin

text \<open>
  The documented behaviour of the database package as an interface, and what the layer over it
  does on that basis: iterators visit exactly the keys of their family in order, range deletion
  removes exactly the keys of the range, and the engine of a single node meets the storage contract.
\<close>

section \<open>Prefixes in the byte order\<close>

lemma hasPrefix_iff: "hasPrefix key p \<longleftrightarrow> (\<exists>k. key = p @ k)"
  by (metis append_eq_conv_conj append_take_drop_id hasPrefix_def le_add1 length_append)

lemma hasPrefix_append [simp]: "hasPrefix (p @ k) p"
  by (auto simp: hasPrefix_iff)

lemma lex_append_same [simp]:
  "p @ a < p @ b \<longleftrightarrow> a < b" "p @ a \<le> p @ b \<longleftrightarrow> a \<le> b" for p a b :: bytes
  by (simp_all add: lex_append_less less_le_not_le [symmetric] flip: not_less)

text \<open>The keys with a prefix form an interval.\<close>

lemma prefix_interval:
  fixes p k k' :: bytes
  assumes "p \<le> k" "\<not> hasPrefix k p"
  shows "p @ k' < k"
  using assms
proof (induction p arbitrary: k)
  case (Cons x p)
  then show ?case by (cases k) (auto simp: hasPrefix_def)
qed (simp add: hasPrefix_def)

lemma prefix_le: "p \<le> p @ k" for p :: bytes
  by (induction p) auto

text \<open>In an ascending list, skipping to a key of a prefix and stopping at the end of the prefix selects.\<close>

lemma sorted_dropWhile_less:
  fixes f :: "'i \<Rightarrow> bytes"
  assumes "sorted_wrt (<) (map f xs)"
  shows "dropWhile (\<lambda>i. f i < key) xs = filter (\<lambda>i. key \<le> f i) xs"
  using assms
proof (induction xs)
  case (Cons x xs)
  show ?case
  proof (cases "f x < key")
    case False
    with Cons.prems have "\<forall>y \<in> set (x # xs). key \<le> f y" by force
    then have "filter (\<lambda>i. key \<le> f i) (x # xs) = x # xs" by (intro filter_True)
    with False show ?thesis by simp
  qed (use Cons in \<open>simp add: not_le\<close>)
qed simp

lemma sorted_takeWhile_prefix:
  fixes f :: "'i \<Rightarrow> bytes"
  assumes "sorted_wrt (<) (map f xs)" "\<forall>x \<in> set xs. p \<le> f x"
  shows "takeWhile (\<lambda>i. hasPrefix (f i) p) xs = filter (\<lambda>i. hasPrefix (f i) p) xs"
  using assms
proof (induction xs)
  case (Cons x xs)
  show ?case
  proof (cases "hasPrefix (f x) p")
    case False
    have "\<not> hasPrefix (f y) p" if y: "y \<in> set xs" for y
    proof
      assume "hasPrefix (f y) p"
      then obtain k where k: "f y = p @ k" by (auto simp: hasPrefix_iff)
      have "f x < f y" using Cons.prems(1) y by simp
      moreover have "p @ k < f x" using prefix_interval Cons.prems(2) False by simp
      ultimately show False using k by simp
    qed
    with False show ?thesis by (auto simp: filter_empty_conv)
  qed (use Cons in auto)
qed simp

lemma sorted_seek_prefix:
  fixes f :: "'i \<Rightarrow> bytes"
  assumes sorted: "sorted_wrt (<) (map f xs)"
  shows "takeWhile (\<lambda>i. hasPrefix (f i) p) (dropWhile (\<lambda>i. f i < p @ key) xs)
       = filter (\<lambda>i. hasPrefix (f i) p \<and> p @ key \<le> f i) xs"
proof -
  have "sorted_wrt (<) (map f (filter (\<lambda>i. p @ key \<le> f i) xs))"
    using sorted by (simp add: sorted_wrt_map sorted_wrt_filter)
  moreover have "\<forall>x \<in> set (filter (\<lambda>i. p @ key \<le> f i) xs). p \<le> f x"
    using prefix_le [of p key] by (auto dest: order_trans)
  ultimately show ?thesis
    using sorted_takeWhile_prefix [of f "filter (\<lambda>i. p @ key \<le> f i) xs" p] sorted
    by (simp add: sorted_dropWhile_less conj_commute)
qed

section \<open>The contract of the database package\<close>

definition apply_op :: "cfdata \<Rightarrow> bop \<Rightarrow> cfdata" where
  "apply_op m op = (case op of BSet k v \<Rightarrow> cf_put k (snorm v) m | BDelete k \<Rightarrow> cf_del k m)"

text \<open>
  A database holds an ordered content. A read finds the value of a key, an iterator visits the
  whole content in ascending order, and a committed update transaction applies its operations in order;
  one that fails changes nothing (it hands back no database).
\<close>

locale badger_spec =
  fixes B :: "'db badger" and content :: "'db \<Rightarrow> cfdata" and ok :: "'db \<Rightarrow> bool"
  assumes ordered: "ok db \<Longrightarrow> cf_sorted (content db)"
    and get: "ok db \<Longrightarrow> (case map_of (content db) k of
          None \<Rightarrow> bd_Get B db k = Inl ErrKeyNotFound
        | Some v \<Rightarrow> (\<exists>w. bd_Get B db k = Inr w \<and> snorm w = v))"
    and items: "ok db \<Longrightarrow> list_all2 (\<lambda>(k, r) (k', v). k = k' \<and> (\<exists>w. r = Inr w \<and> snorm w = v)) (bd_Items B db) (content db)"
    and update: "ok db \<Longrightarrow> bd_Update B db ops = Inr db' \<Longrightarrow> ok db' \<and> content db' = foldl apply_op (content db) ops"

text \<open>A database kept as its content meets the contract; it refuses empty keys.\<close>

definition list_badger :: "cfdata badger" where
  "list_badger =
     \<lparr>bd_Get = (\<lambda>m k. case map_of m k of None \<Rightarrow> Inl ErrKeyNotFound | Some v \<Rightarrow> Inr v),
      bd_Items = map (\<lambda>(k, v). (k, Inr v)),
      bd_Update = (\<lambda>m ops. if \<exists>op \<in> set ops. bop_Key op = [] then Inl (ErrBadger ''Key cannot be empty'')
                           else Inr (foldl apply_op m ops))\<rparr>"

definition values_normal :: "cfdata \<Rightarrow> bool" where
  "values_normal m \<longleftrightarrow> (\<forall>i \<in> set m. snd i \<noteq> Some [])"

text \<open>No key has an empty value.\<close>

definition values_full :: "cfdata \<Rightarrow> bool" where
  "values_full m \<longleftrightarrow> (\<forall>i \<in> set m. snd i \<noteq> None)"

definition nonempty_put :: "modify \<Rightarrow> bool" where
  "nonempty_put m = (case m of Put k v cf \<Rightarrow> v \<noteq> None \<and> v \<noteq> Some [] | Delete k cf \<Rightarrow> True)"

lemma snorm_normal [simp]: "snorm v \<noteq> Some []" "v \<noteq> Some [] \<Longrightarrow> snorm v = v" "snorm (snorm v) = snorm v"
  by (simp_all add: snorm_def)

lemma set_cf_put_subset: "set (cf_put k v m) \<subseteq> insert (k, v) (set m)"
  by (induction k v m rule: cf_put.induct) auto

lemma apply_op_normal: "values_normal m \<Longrightarrow> values_normal (apply_op m op)"
  using set_cf_put_subset by (fastforce simp: values_normal_def apply_op_def cf_del_def split: bop.splits)

lemma apply_op_sorted: "cf_sorted m \<Longrightarrow> cf_sorted (apply_op m op)"
  by (simp add: apply_op_def cf_sorted_put cf_sorted_del split: bop.splits)

lemma apply_ops_keep:
  "cf_sorted m \<Longrightarrow> cf_sorted (foldl apply_op m ops)"
  "values_normal m \<Longrightarrow> values_normal (foldl apply_op m ops)"
  by (induction ops arbitrary: m) (simp_all add: apply_op_sorted apply_op_normal)

interpretation list_db: badger_spec list_badger "\<lambda>m. m" "\<lambda>m. cf_sorted m \<and> values_normal m"
proof
  fix db :: cfdata and k
  assume ok: "cf_sorted db \<and> values_normal db"
  then show "cf_sorted db" by simp
  have normal: "snorm v = v" if "(k, v) \<in> set db" for k v using ok that by (force simp: values_normal_def)
  show "case map_of db k of None \<Rightarrow> bd_Get list_badger db k = Inl ErrKeyNotFound
      | Some v \<Rightarrow> (\<exists>w. bd_Get list_badger db k = Inr w \<and> snorm w = v)"
    using normal by (auto simp: list_badger_def dest: map_of_SomeD split: option.splits)
  show "list_all2 (\<lambda>(k, r) (k', v). k = k' \<and> (\<exists>w. r = Inr w \<and> snorm w = v)) (bd_Items list_badger db) db"
    using normal by (auto simp: list_badger_def list_all2_conv_all_nth split: prod.splits) (metis nth_mem)
  show "(cf_sorted db' \<and> values_normal db') \<and> db' = foldl apply_op db ops" if "bd_Update list_badger db ops = Inr db'" for ops db'
    using that ok apply_ops_keep [of db ops] by (auto simp: list_badger_def split: if_splits)
qed

section \<open>Column families\<close>

text \<open>The content of a family: the keys with its prefix, without it.\<close>

definition cf_prefix :: "string \<Rightarrow> bytes" where
  "cf_prefix cf = str_bytes (cf @ ''_'')"

definition family :: "cfdata \<Rightarrow> string \<Rightarrow> cfdata" where
  "family m cf = map (\<lambda>(k, v). (drop (length (cf_prefix cf)) k, v)) (filter (\<lambda>i. hasPrefix (fst i) (cf_prefix cf)) m)"

lemma KeyWithCF_prefix: "KeyWithCF cf key = cf_prefix cf @ key"
  by (simp add: KeyWithCF_def cf_prefix_def)

text \<open>The three prefixes differ within their first byte, so no key belongs to two families.\<close>

lemma cf_prefix_code:
  "cf_prefix CfDefault = [0x64, 0x65, 0x66, 0x61, 0x75, 0x6C, 0x74, 0x5F]"
  "cf_prefix CfWrite = [0x77, 0x72, 0x69, 0x74, 0x65, 0x5F]"
  "cf_prefix CfLock = [0x6C, 0x6F, 0x63, 0x6B, 0x5F]"
  by (simp_all add: cf_prefix_def str_bytes_def CfDefault_def CfWrite_def CfLock_def)

lemma cf_prefix_disjoint:
  assumes "cf \<in> set CFs" "cf' \<in> set CFs"
  shows "hasPrefix (cf_prefix cf @ k) (cf_prefix cf') \<longleftrightarrow> cf = cf'"
  using assms by (auto simp: CFs_def hasPrefix_iff cf_prefix_code)

lemma family_sorted:
  assumes "cf_sorted m"
  shows "cf_sorted (family m cf)"
  using assms
proof (induction m)
  case (Cons i m)
  have "drop (length (cf_prefix cf)) (fst i) < drop (length (cf_prefix cf)) (fst j)"
    if "j \<in> set m" "hasPrefix (fst i) (cf_prefix cf)" "hasPrefix (fst j) (cf_prefix cf)" for j
    using that Cons.prems by (auto simp: hasPrefix_iff)
  with Cons show ?case by (cases i) (auto simp: family_def)
qed (simp add: family_def)

lemma map_of_family: "map_of (family m cf) k = map_of m (cf_prefix cf @ k)"
proof (induction m)
  case (Cons i m)
  obtain a b where i: "i = (a, b)" by force
  show ?case
  proof (cases "hasPrefix a (cf_prefix cf)")
    case True
    then obtain c where "a = cf_prefix cf @ c" by (auto simp: hasPrefix_iff)
    with Cons i show ?thesis by (auto simp: family_def)
  next
    case False
    then have "a \<noteq> cf_prefix cf @ k" by auto
    with False Cons i show ?thesis by (simp add: family_def)
  qed
qed (simp add: family_def)

lemma sorted_map_of_eqI:
  assumes "cf_sorted m" "cf_sorted m'" "map_of m = map_of m'"
  shows "m = m'"
  using assms by (intro sorted_content_eqI) (simp_all add: cf_sorted_distinct flip: map_of_inject_set)

definition modify_norm :: "modify \<Rightarrow> modify" where
  "modify_norm m = (case m of Put k v cf \<Rightarrow> Put k (snorm v) cf | Delete k cf \<Rightarrow> Delete k cf)"

definition modify_op :: "modify \<Rightarrow> bop" where
  "modify_op m = (case m of Put k v cf \<Rightarrow> BSet (KeyWithCF cf k) v | Delete k cf \<Rightarrow> BDelete (KeyWithCF cf k))"

text \<open>One operation on a prefixed key is the modification of the family.\<close>

lemma family_apply:
  assumes "cf_sorted m" "modify_Cf x \<in> set CFs" "cf \<in> set CFs"
  shows "family (apply_op m (modify_op x)) cf = apply_modify (family m) (modify_norm x) cf"
proof (rule sorted_map_of_eqI)
  show "cf_sorted (family (apply_op m (modify_op x)) cf)"
    by (intro family_sorted apply_op_sorted assms)
  show "cf_sorted (apply_modify (family m) (modify_norm x) cf)"
    using apply_modify_sorted [of "family m" "modify_norm x"] assms by (simp add: kv_sorted_def family_sorted)
  have "cf_prefix c @ k = cf_prefix c' @ k' \<longleftrightarrow> c = c' \<and> k = k'" if "c \<in> set CFs" "c' \<in> set CFs" for c c' k k'
    using cf_prefix_disjoint [OF that, of k] by (auto simp: hasPrefix_iff)
  then show "map_of (family (apply_op m (modify_op x)) cf) = map_of (apply_modify (family m) (modify_norm x) cf)"
    using assms
    by (cases x) (auto simp: fun_eq_iff map_of_family apply_op_def modify_op_def modify_norm_def KeyWithCF_prefix apply_modify_def)
qed

section \<open>What the layer does\<close>

text \<open>The items an iterator still visits, and the deletions a range deletion collects from them.\<close>

lemma bi_walk_prefix:
  "bi_walk it = map (\<lambda>i. (drop (length (bi_prefix it)) (fst i), map_sum berr_error (\<lambda>v. v) (snd i)))
     (takeWhile (\<lambda>i. hasPrefix (fst i) (bi_prefix it)) (bi_iter it))"
proof (induction it rule: bi_walk.induct)
  case (1 it)
  then show ?case
    by (subst bi_walk.simps) (auto simp: bi_Valid_def bi_Item_def bi_Next_def hasPrefix_def split: list.splits)
qed

lemma deleteRange_loop_batch:
  "\<exists>b. deleteRange_loop batch cf endKey it = Inr b
     \<and> wb_entries b = wb_entries batch @ map (\<lambda>k. (KeyWithCF cf k, None)) (takeWhile (\<lambda>k. \<not> ExceedEndKey k endKey) (map fst (bi_walk it)))"
proof (induction batch cf endKey it rule: deleteRange_loop.induct)
  case (1 batch cf endKey it)
  show ?case
  proof (cases "bi_Valid it")
    case True
    then obtain item where item: "bi_Item it = Inr item"
      by (auto simp: bi_Valid_def bi_Item_def hasPrefix_def split: list.splits)
    show ?thesis
      using True item 1
      by (subst deleteRange_loop.simps, subst bi_walk.simps) (auto simp: wb_DeleteCF_def wb_add_def)
  qed (subst deleteRange_loop.simps, subst bi_walk.simps, simp)
qed

text \<open>The keys a range deletion selects in a family.\<close>

definition in_range :: "bytes \<Rightarrow> bytes \<Rightarrow> bytes \<Rightarrow> bool" where
  "in_range startKey endKey k \<longleftrightarrow> startKey \<le> k \<and> (endKey = [] \<or> k < endKey)"

lemma not_exceed_iff: "\<not> ExceedEndKey k endKey \<longleftrightarrow> endKey = [] \<or> k < endKey"
  by (auto simp: ExceedEndKey_def)

lemma sorted_takeWhile_end:
  assumes "sorted_wrt (<) ks"
  shows "takeWhile (\<lambda>k. \<not> ExceedEndKey k endKey) ks = filter (\<lambda>k. \<not> ExceedEndKey k endKey) ks"
  using assms
proof (induction ks)
  case (Cons k ks)
  have "ExceedEndKey x endKey" if "ExceedEndKey k endKey" "x \<in> set ks" for x
    using that Cons.prems by (auto simp: ExceedEndKey_def split: if_splits)
  with Cons show ?case by (auto simp: filter_empty_conv)
qed simp

context badger_spec
begin

lemma items_keys: "ok db \<Longrightarrow> map fst (bd_Items B db) = map fst (content db)"
  using items [of db] by (auto simp: list_all2_conv_all_nth intro!: nth_equalityI)

lemma items_sorted_keys: "ok db \<Longrightarrow> sorted_wrt (<) (map fst (bd_Items B db))"
  using ordered by (simp add: items_keys cf_sorted_def)

lemma seek_walk:
  assumes "ok db"
  shows "bi_walk (bi_Seek (NewCFIterator B cf db) key) =
    map (\<lambda>i. (drop (length (cf_prefix cf)) (fst i), map_sum berr_error (\<lambda>v. v) (snd i)))
      (filter (\<lambda>i. hasPrefix (fst i) (cf_prefix cf) \<and> cf_prefix cf @ key \<le> fst i) (bd_Items B db))"
  using sorted_seek_prefix [OF items_sorted_keys [OF assms], of "cf_prefix cf" key]
  by (simp add: bi_walk_prefix bi_Seek_def NewCFIterator_def cf_prefix_def)

lemma seek_walk_keys:
  assumes "ok db"
  shows "map fst (bi_walk (bi_Seek (NewCFIterator B cf db) key)) = filter ((\<le>) key) (map fst (family (content db) cf))"
proof -
  let ?P = "\<lambda>k. hasPrefix k (cf_prefix cf) \<and> cf_prefix cf @ key \<le> k"
  have "map fst (bi_walk (bi_Seek (NewCFIterator B cf db) key)) = map (drop (length (cf_prefix cf))) (filter ?P (map fst (bd_Items B db)))"
    by (simp add: seek_walk [OF assms] filter_map comp_def)
  also have "\<dots> = map (drop (length (cf_prefix cf))) (filter ?P (map fst (content db)))"
    by (simp add: items_keys [OF assms])
  also have "\<dots> = filter ((\<le>) key) (map fst (family (content db) cf))"
    by (auto simp: family_def filter_map comp_def case_prod_beta hasPrefix_iff intro!: arg_cong [where f = "map _"] filter_cong)
  finally show ?thesis .
qed

text \<open>With no empty value stored, the reader is a snapshot of the families.\<close>

lemma reader_get:
  assumes "ok db" "values_full (content db)"
  shows "rd_GetCF (StandAlone_Reader B db) cf k = Inr (cf_get (family (content db) cf) k)"
proof (cases "map_of (content db) (cf_prefix cf @ k)")
  case None
  then show ?thesis using get [OF assms(1), of "cf_prefix cf @ k"]
    by (simp add: StandAlone_Reader_def BadgerReader_GetCF_def GetCFFromTxn_def KeyWithCF_prefix cf_get_def map_of_family)
next
  case (Some v)
  then have "v \<noteq> None" using assms(2) by (force simp: values_full_def dest: map_of_SomeD)
  then show ?thesis using Some get [OF assms(1), of "cf_prefix cf @ k"]
    by (auto simp: StandAlone_Reader_def BadgerReader_GetCF_def GetCFFromTxn_def KeyWithCF_prefix cf_get_def map_of_family snorm_def
        split: if_splits)
qed

lemma items_full:
  assumes "ok db" "values_full (content db)"
  shows "bd_Items B db = map (\<lambda>(k, v). (k, Inr v)) (content db)"
proof (rule nth_equalityI)
  show len: "length (bd_Items B db) = length (map (\<lambda>(k, v). (k, Inr v)) (content db))"
    using list_all2_lengthD [OF items [OF assms(1)]] by simp
  fix i assume i: "i < length (bd_Items B db)"
  then have "snd (content db ! i) \<noteq> None" using assms(2) len by (auto simp: values_full_def)
  then show "bd_Items B db ! i = map (\<lambda>(k, v). (k, Inr v)) (content db) ! i"
    using list_all2_nthD [OF items [OF assms(1)] i] i len by (auto simp: snorm_def split: prod.splits if_splits)
qed

lemma reader_snapshot:
  assumes "ok db" "values_full (content db)"
  shows "snapshot_reader (StandAlone_Reader B db) (family (content db))"
proof
  show "kv_sorted (family (content db))" using ordered [OF assms(1)] by (simp add: kv_sorted_def family_sorted)
  show "rd_GetCF (StandAlone_Reader B db) cf k = Inr (cf_get (family (content db) cf) k)" for cf k
    using reader_get [OF assms] .
  show "rd_IterCF (StandAlone_Reader B db) cf = map (\<lambda>(k, v). (k, Inr v)) (family (content db) cf)" for cf
    using seek_walk [OF assms(1), of cf "[]"]
    by (auto simp: StandAlone_Reader_def BadgerReader_IterCF_def items_full [OF assms] family_def filter_map comp_def
        case_prod_beta hasPrefix_iff prefix_le intro!: arg_cong [where f = "map _"] filter_cong)
qed

text \<open>A write applies all of its batch, or up to the modification that failed.\<close>

lemma write1:
  assumes "ok db" "modify_Cf m \<in> set CFs"
    and "(case m of Put k v cf \<Rightarrow> PutCF B db cf k v | Delete k cf \<Rightarrow> DeleteCF B db cf k) = Inr db'"
  shows "ok db'" "content db' = apply_op (content db) (modify_op m)"
proof -
  have "bd_Update B db [modify_op m] = Inr db'" using assms(3) by (cases m) (simp_all add: PutCF_def DeleteCF_def modify_op_def)
  from update [OF assms(1) this] show "ok db'" "content db' = apply_op (content db) (modify_op m)" by simp_all
qed

lemma apply_batch_cong:
  "cf \<in> set CFs \<Longrightarrow> (\<And>c. c \<in> set CFs \<Longrightarrow> kv c = kv' c) \<Longrightarrow> apply_batch kv ms cf = apply_batch kv' ms cf"
proof (induction ms arbitrary: kv kv')
  case (Cons m ms)
  have "apply_modify kv m c = apply_modify kv' m c" if "c \<in> set CFs" for c
    using Cons.prems(2) [of c] Cons.prems(2) [of "modify_Cf m"] that by (cases m) (simp_all add: apply_modify_def)
  from Cons.IH [OF Cons.prems(1) this] show ?case by simp
qed simp

lemma write_outcome:
  assumes "ok db" "\<forall>m \<in> set ms. modify_Cf m \<in> set CFs" "StandAlone_Write B db ms = (e, db')"
  shows "ok db' \<and> (\<exists>done left. ms = done @ left \<and> (e = None \<longleftrightarrow> left = [])
     \<and> content db' = foldl apply_op (content db) (map modify_op done)
     \<and> (\<forall>cf \<in> set CFs. family (content db') cf = apply_batch (family (content db)) (map modify_norm done) cf))"
  using assms
proof (induction ms arbitrary: db)
  case (Cons m ms)
  let ?r = "case m of Put k v cf \<Rightarrow> PutCF B db cf k v | Delete k cf \<Rightarrow> DeleteCF B db cf k"
  show ?case
  proof (cases ?r)
    case (Inl err)
    then have "e = Some err" "db' = db" using Cons.prems(3) by (simp_all split: modify.splits)
    then show ?thesis using Cons.prems(1) by (intro conjI exI [of _ "[]"] exI [of _ "m # ms"]) simp_all
  next
    case (Inr db1)
    have db1: "ok db1" "content db1 = apply_op (content db) (modify_op m)"
      using write1 [OF Cons.prems(1) _ Inr] Cons.prems(2) by simp_all
    have "StandAlone_Write B db1 ms = (e, db')" using Inr Cons.prems(3) by (simp split: modify.splits)
    from Cons.IH [OF db1(1) _ this] Cons.prems(2) obtain d l where dl:
      "ok db'" "ms = d @ l" "e = None \<longleftrightarrow> l = []" "content db' = foldl apply_op (content db1) (map modify_op d)"
      "\<forall>cf \<in> set CFs. family (content db') cf = apply_batch (family (content db1)) (map modify_norm d) cf" by auto
    have "family (content db1) c = apply_modify (family (content db)) (modify_norm m) c" if "c \<in> set CFs" for c
      using family_apply [OF ordered [OF Cons.prems(1)] _ that, of m] Cons.prems(2) db1(2) by simp
    then have "apply_batch (family (content db1)) (map modify_norm d) cf = apply_batch (family (content db)) (map modify_norm (m # d)) cf"
      if "cf \<in> set CFs" for cf
      using apply_batch_cong [OF that, of "family (content db1)" "apply_modify (family (content db)) (modify_norm m)" "map modify_norm d"]
      by simp
    with dl db1 show ?thesis by (intro conjI exI [of _ "m # d"] exI [of _ l]) simp_all
  qed
qed (auto intro!: exI [of _ "[]"])

lemma write_full:
  "values_full m \<Longrightarrow> \<forall>x \<in> set ms. nonempty_put x \<Longrightarrow> values_full (foldl apply_op m (map modify_op ms))"
proof (induction ms arbitrary: m)
  case (Cons x ms)
  have "values_full (apply_op m (modify_op x))"
    using Cons.prems set_cf_put_subset
    by (cases x) (fastforce simp: values_full_def apply_op_def modify_op_def cf_del_def nonempty_put_def snorm_def)+
  with Cons show ?case by simp
qed simp

lemma write_read:
  assumes "ok db" "values_full (content db)" "\<forall>m \<in> set ms. modify_Cf m \<in> set CFs \<and> nonempty_put m"
    and "StandAlone_Write B db ms = (e, db')"
  shows "ok db' \<and> values_full (content db') \<and> (\<exists>done left. ms = done @ left \<and> (e = None \<longleftrightarrow> left = [])
     \<and> (\<forall>cf \<in> set CFs. (\<forall>k. rd_GetCF (StandAlone_Reader B db') cf k = Inr (cf_get (apply_batch (family (content db)) done cf) k))
          \<and> rd_IterCF (StandAlone_Reader B db') cf = map (\<lambda>(k, v). (k, Inr v)) (apply_batch (family (content db)) done cf)))"
proof -
  obtain d l where dl: "ok db'" "ms = d @ l" "e = None \<longleftrightarrow> l = []"
    "content db' = foldl apply_op (content db) (map modify_op d)"
    "\<And>cf. cf \<in> set CFs \<Longrightarrow> family (content db') cf = apply_batch (family (content db)) (map modify_norm d) cf"
    using write_outcome [OF assms(1) _ assms(4)] assms(3) by auto
  have "map modify_norm d = d"
  proof (rule map_idI)
    fix m assume "m \<in> set d"
    then have "nonempty_put m" using assms(3) dl(2) by simp
    then show "modify_norm m = m" by (auto simp: modify_norm_def nonempty_put_def split: modify.splits)
  qed
  moreover have full: "values_full (content db')" using write_full [OF assms(2), of d] assms(3) dl by simp
  ultimately show ?thesis
    using dl snapshot_reader.get [OF reader_snapshot [OF dl(1) full]] snapshot_reader.iter [OF reader_snapshot [OF dl(1) full]]
    by (intro conjI exI [of _ d] exI [of _ l]) simp_all
qed

text \<open>Range deletion: the batch holds the keys of the range, family by family.\<close>

lemma deleteRangeCF_batch:
  assumes "ok db"
  shows "\<exists>b. deleteRangeCF B db batch cf s e = Inr b \<and> wb_entries b = wb_entries batch
     @ map (\<lambda>k. (KeyWithCF cf k, None)) (filter (in_range s e) (map fst (family (content db) cf)))"
proof -
  let ?ks = "filter ((\<le>) s) (map fst (family (content db) cf))"
  have "sorted_wrt (<) ?ks"
    using family_sorted [OF ordered [OF assms], of cf] by (intro sorted_wrt_filter) (simp add: cf_sorted_def)
  from sorted_takeWhile_end [OF this]
  have "takeWhile (\<lambda>k. \<not> ExceedEndKey k e) ?ks = filter (in_range s e) (map fst (family (content db) cf))"
    by (simp add: not_exceed_iff in_range_def [abs_def] conj_commute)
  then show ?thesis
    using deleteRange_loop_batch [of batch cf e "bi_Seek (NewCFIterator B cf db) s"]
    by (simp add: deleteRangeCF_def seek_walk_keys [OF assms])
qed

lemma deleteRange_batch:
  assumes "ok db"
  shows "\<exists>b. deleteRange_cfs B db s e cfs batch = Inr b \<and> wb_entries b = wb_entries batch
     @ concat (map (\<lambda>cf. map (\<lambda>k. (KeyWithCF cf k, None)) (filter (in_range s e) (map fst (family (content db) cf)))) cfs)"
proof (induction cfs arbitrary: batch)
  case (Cons cf cfs)
  from deleteRangeCF_batch [OF assms] obtain b where "deleteRangeCF B db batch cf s e = Inr b"
    "wb_entries b = wb_entries batch @ map (\<lambda>k. (KeyWithCF cf k, None)) (filter (in_range s e) (map fst (family (content db) cf)))"
    by blast
  with Cons [of b] show ?case by auto
qed simp

lemma delete_ops: "map_of (foldl apply_op m (map BDelete ks)) k = (if k \<in> set ks then None else map_of m k)"
  by (induction ks arbitrary: m) (auto simp: apply_op_def)

lemma deleteRange_result:
  assumes "ok db" "DeleteRange B db s e = Inr (Inr db')"
  shows "ok db' \<and> content db' =
    filter (\<lambda>i. \<not> (\<exists>cf \<in> set CFs. \<exists>k. fst i = KeyWithCF cf k \<and> in_range s e k)) (content db)"
proof -
  define ks where "ks = concat (map (\<lambda>cf. map (KeyWithCF cf) (filter (in_range s e) (map fst (family (content db) cf)))) CFs)"
  obtain b where b: "deleteRange_cfs B db s e CFs NewWriteBatch = Inr b" "wb_entries b = map (\<lambda>k. (k, None)) ks"
    using deleteRange_batch [OF assms(1), of s e CFs NewWriteBatch]
    by (auto simp: ks_def NewWriteBatch_def map_concat comp_def)
  have "ok db' \<and> content db' = foldl apply_op (content db) (map BDelete ks)"
  proof (cases "ks = []")
    case True
    then show ?thesis using assms b by (simp add: DeleteRange_def wb_WriteToDB_def)
  next
    case False
    then have "bd_Update B db (map BDelete ks) = Inr db'"
      using assms(2) b by (simp add: DeleteRange_def wb_WriteToDB_def entry_op_def sbytes_def comp_def)
    from update [OF assms(1) this] show ?thesis .
  qed
  then have ok': "ok db'" and del: "content db' = foldl apply_op (content db) (map BDelete ks)" by simp_all
  let ?P = "\<lambda>k. \<exists>cf \<in> set CFs. \<exists>k'. k = KeyWithCF cf k' \<and> in_range s e k'"
  have ks: "k \<in> set ks \<longleftrightarrow> ?P k" if "map_of (content db) k = Some v" for k v
  proof -
    have "k' \<in> fst ` set (family (content db) cf)" if "k = KeyWithCF cf k'" for cf k'
      using that \<open>map_of (content db) k = Some v\<close> map_of_family [of "content db" cf k']
      by (metis KeyWithCF_prefix domI dom_map_of_conv_image_fst)
    then show ?thesis unfolding ks_def by (force simp: image_iff)
  qed
  have "content db' = filter (\<lambda>i. \<not> ?P (fst i)) (content db)"
  proof (rule sorted_map_of_eqI)
    show "cf_sorted (content db')" using ordered ok' .
    show "cf_sorted (filter (\<lambda>i. \<not> ?P (fst i)) (content db))" using ordered [OF assms(1)] by (induction "content db") (auto simp: cf_sorted_def sorted_wrt_map sorted_wrt_filter)
    show "map_of (content db') = map_of (filter (\<lambda>i. \<not> ?P (fst i)) (content db))"
    proof
      fix k
      have "map_of (filter (\<lambda>i. \<not> ?P (fst i)) m) k = (if ?P k then None else map_of m k)" for m :: cfdata
        by (induction m) auto
      then show "map_of (content db') k = map_of (filter (\<lambda>i. \<not> ?P (fst i)) (content db)) k"
        using ks [of k] unfolding del delete_ops by (cases "map_of (content db) k") auto
    qed
  qed
  with ok' show ?thesis by simp
qed

lemma deleteRange_returns: "ok db \<Longrightarrow> \<exists>r. DeleteRange B db s e = Inr r"
  using deleteRange_batch [of db s e CFs NewWriteBatch] by (auto simp: DeleteRange_def)

end

section \<open>Properties\<close>

text \<open>
  C30. The engine of a single node, over every database that behaves as documented: the modifications
  of a batch are applied in order, all of them when \<open>Write\<close> succeeds and those before the failing one
  when it returns an error, and a reader then answers every point read and every iteration of the three
  column families from the content they leave. (Values are not empty: the database does not
  distinguish an empty value from a missing one, see \<open>BadgerReader.GetCF\<close>.)
\<close>

theorem standalone_write_read:
  assumes "badger_spec B content ok" "ok db" "values_full (content db)"
    and "\<forall>m \<in> set ms. modify_Cf m \<in> set CFs \<and> nonempty_put m"
    and "StandAlone_Write B db ms = (e, db')"
  shows "ok db' \<and> values_full (content db') \<and> (\<exists>done left. ms = done @ left \<and> (e = None \<longleftrightarrow> left = [])
     \<and> (\<forall>cf \<in> set CFs. (\<forall>k. rd_GetCF (StandAlone_Reader B db') cf k = Inr (cf_get (apply_batch (family (content db)) done cf) k))
          \<and> rd_IterCF (StandAlone_Reader B db') cf = map (\<lambda>(k, v). (k, Inr v)) (apply_batch (family (content db)) done cf)))"
  using badger_spec.write_read [OF assms] .

definition demo_batch :: "modify list" where
  "demo_batch = [Put [1] (Some [7]) CfLock, Put [2] (Some [9]) CfWrite, Delete [1] CfLock]"

lemma demo_batch_result:
  "StandAlone_Write list_badger [] demo_batch = (None, snd (StandAlone_Write list_badger [] demo_batch))"
  by code_simp

theorem standalone_write_read_witness:
  "rd_GetCF (StandAlone_Reader list_badger (snd (StandAlone_Write list_badger [] demo_batch))) CfWrite [2] = Inr (Some [9])
   \<and> rd_GetCF (StandAlone_Reader list_badger (snd (StandAlone_Write list_badger [] demo_batch))) CfLock [1] = Inr None"
proof -
  have "\<forall>m \<in> set demo_batch. modify_Cf m \<in> set CFs \<and> nonempty_put m"
    by (simp add: demo_batch_def nonempty_put_def)
  from standalone_write_read [OF list_db.badger_spec_axioms _ _ this demo_batch_result]
  have "\<forall>cf \<in> set CFs. \<forall>k. rd_GetCF (StandAlone_Reader list_badger (snd (StandAlone_Write list_badger [] demo_batch))) cf k
      = Inr (cf_get (apply_batch (family []) demo_batch cf) k)"
    by (auto simp: values_full_def values_normal_def)
  then show ?thesis by (simp add: demo_batch_def apply_modify_def family_def cf_get_def cf_del_def)
qed

text \<open>
  \<open>DeleteRange\<close> never panics, and when its transaction commits it has removed from the database
  exactly the keys of the three column families in the half-open range (an empty end key
  means no upper bound); every other key, of a family or not, keeps its value.
\<close>

theorem delete_range_exact:
  assumes "badger_spec B content ok" "ok db"
  shows "\<exists>r. DeleteRange B db startKey endKey = Inr r \<and> (\<forall>db'. r = Inr db' \<longrightarrow> ok db' \<and> content db' =
    filter (\<lambda>i. \<not> (\<exists>cf \<in> set CFs. \<exists>k. fst i = KeyWithCF cf k \<and> in_range startKey endKey k)) (content db))"
  using badger_spec.deleteRange_returns [OF assms, of startKey endKey] badger_spec.deleteRange_result [OF assms, of startKey endKey] by auto

definition demo_db :: cfdata where
  "demo_db = [([1, 2], Some [1]), (KeyWithCF CfDefault [3], Some [5]), (KeyWithCF CfDefault [4], Some [6]), (KeyWithCF CfLock [3], Some [8])]"

theorem delete_range_exact_witness:
  "DeleteRange list_badger demo_db [3] [4] = Inr (Inr [([1, 2], Some [1]), (KeyWithCF CfDefault [4], Some [6])])
   \<and> [([1, 2], Some [1]), (KeyWithCF CfDefault [4], Some [6])] =
       filter (\<lambda>i. \<not> (\<exists>cf \<in> set CFs. \<exists>k. fst i = KeyWithCF cf k \<and> in_range [3] [4] k)) demo_db"
proof -
  have ok: "cf_sorted demo_db \<and> values_normal demo_db" by code_simp
  have run: "DeleteRange list_badger demo_db [3] [4] = Inr (Inr [([1, 2], Some [1]), (KeyWithCF CfDefault [4], Some [6])])"
    by code_simp
  show ?thesis using delete_range_exact [OF list_db.badger_spec_axioms ok, of "[3]" "[4]"] unfolding run by simp
qed

end
