(* ===== verification/RegionMeta.thy ===== *)
theory RegionMeta
  imports BadgerStore_Spec RaftStorage
begin

text \<open>
  What a store keeps about its regions: the messages of \<open>metapb.proto\<close> and \<open>raft_serverpb.proto\<close>
  that are written to disk, the keys they are written under (\<open>kv/raftstore/meta/keys.go\<close>), and
  reading and initialising them (\<open>kv/raftstore/meta/values.go\<close>). Region ids and log indexes are
  \<open>uint64\<close>: natural numbers, encoded big-endian through \<open>word_of_nat\<close>. The protobuf encoding of the
  messages is code of another package, the parameter \<open>P\<close>; what is relied on is \<open>pb_spec\<close>.
\<close>

section \<open>Messages\<close>

record Peer =
  pr_Id :: nat
  pr_StoreId :: nat

record RegionEpoch =
  ep_ConfVer :: nat
  ep_Version :: nat

record Region =
  rg_Id :: nat
  rg_StartKey :: bytes
  rg_EndKey :: bytes
  rg_RegionEpoch :: RegionEpoch
  rg_Peers :: "Peer list"

record RaftLocalState =
  rl_HardState :: HardState
  rl_LastIndex :: nat
  rl_LastTerm :: nat

record RaftTruncatedState =
  rt_Index :: nat
  rt_Term :: nat

record RaftApplyState =
  ra_AppliedIndex :: nat
  ra_TruncatedState :: RaftTruncatedState

datatype PeerState = PeerState_Normal | PeerState_Tombstone

record RegionLocalState =
  rs_State :: PeerState
  rs_Region :: Region

text \<open>Marshalling of the messages that are stored. Of the data of a snapshot only the region is looked at.\<close>

record pbcodec =
  pb_Entry :: "Entry \<Rightarrow> bytes"
  un_Entry :: "bytes \<Rightarrow> berr + Entry"
  pb_RaftLocalState :: "RaftLocalState \<Rightarrow> bytes"
  un_RaftLocalState :: "bytes \<Rightarrow> berr + RaftLocalState"
  pb_RaftApplyState :: "RaftApplyState \<Rightarrow> bytes"
  un_RaftApplyState :: "bytes \<Rightarrow> berr + RaftApplyState"
  pb_RegionLocalState :: "RegionLocalState \<Rightarrow> bytes"
  un_RegionLocalState :: "bytes \<Rightarrow> berr + RegionLocalState"
  un_SnapshotRegion :: "bytes \<Rightarrow> berr + Region"

section \<open>Keys, \<open>keys.go\<close>\<close>

definition LocalPrefix :: byte where "LocalPrefix = 0x01"
definition RegionRaftPrefix :: byte where "RegionRaftPrefix = 0x02"
definition RegionMetaPrefix :: byte where "RegionMetaPrefix = 0x03"
definition RegionRaftLogLen :: nat where "RegionRaftLogLen = 19"
definition RaftLogSuffix :: byte where "RaftLogSuffix = 0x01"
definition RaftStateSuffix :: byte where "RaftStateSuffix = 0x02"
definition ApplyStateSuffix :: byte where "ApplyStateSuffix = 0x03"
definition RegionStateSuffix :: byte where "RegionStateSuffix = 0x01"
definition MinKey :: bytes where "MinKey = []"
definition MaxKey :: bytes where "MaxKey = [255]"
definition RegionMetaMinKey :: bytes where "RegionMetaMinKey = [LocalPrefix, RegionMetaPrefix]"
definition RegionMetaMaxKey :: bytes where "RegionMetaMaxKey = [LocalPrefix, RegionMetaPrefix + 1]"
definition PrepareBootstrapKey :: bytes where "PrepareBootstrapKey = [LocalPrefix, 0x01]"
definition StoreIdentKey :: bytes where "StoreIdentKey = [LocalPrefix, 0x02]"

definition put_nat64 :: "nat \<Rightarrow> bytes" where
  "put_nat64 n = be_put64 (word_of_nat n)"

definition makeRegionPrefix :: "nat \<Rightarrow> byte \<Rightarrow> bytes" where
  "makeRegionPrefix regionID suffix = [LocalPrefix, RegionRaftPrefix] @ put_nat64 regionID @ [suffix]"

definition makeRegionKey :: "nat \<Rightarrow> byte \<Rightarrow> nat \<Rightarrow> bytes" where
  "makeRegionKey regionID suffix subID =
     [LocalPrefix, RegionRaftPrefix] @ put_nat64 regionID @ [suffix] @ put_nat64 subID"

definition RegionRaftPrefixKey :: "nat \<Rightarrow> bytes" where
  "RegionRaftPrefixKey regionID = [LocalPrefix, RegionRaftPrefix] @ put_nat64 regionID"

definition RaftLogKey :: "nat \<Rightarrow> nat \<Rightarrow> bytes" where
  "RaftLogKey regionID index = makeRegionKey regionID RaftLogSuffix index"

definition RaftStateKey :: "nat \<Rightarrow> bytes" where
  "RaftStateKey regionID = makeRegionPrefix regionID RaftStateSuffix"

definition ApplyStateKey :: "nat \<Rightarrow> bytes" where
  "ApplyStateKey regionID = makeRegionPrefix regionID ApplyStateSuffix"

definition IsRaftStateKey :: "bytes \<Rightarrow> bool" where
  "IsRaftStateKey key \<longleftrightarrow> length key = 11 \<and> key ! 0 = LocalPrefix \<and> key ! 1 = RegionRaftPrefix"

definition DecodeRegionMetaKey :: "bytes \<Rightarrow> berr + (nat \<times> byte)" where
  "DecodeRegionMetaKey key =
     (if length RegionMetaMinKey + 8 + 1 \<noteq> length key then Inl (ErrBadger ''invalid region meta key length'')
      else if \<not> hasPrefix key RegionMetaMinKey then Inl (ErrBadger ''invalid region meta key prefix'')
      else Inr (unat (be_uint64 (drop (length RegionMetaMinKey) key)), key ! (length key - 1)))"

definition RegionMetaPrefixKey :: "nat \<Rightarrow> bytes" where
  "RegionMetaPrefixKey regionID = [LocalPrefix, RegionMetaPrefix] @ put_nat64 regionID"

definition RegionStateKey :: "nat \<Rightarrow> bytes" where
  "RegionStateKey regionID = [LocalPrefix, RegionMetaPrefix] @ put_nat64 regionID @ [RegionStateSuffix]"

definition RaftLogIndex :: "bytes \<Rightarrow> berr + nat" where
  "RaftLogIndex key =
     (if length key \<noteq> RegionRaftLogLen then Inl (ErrBadger ''not a valid raft log key'')
      else Inr (unat (be_uint64 (drop (RegionRaftLogLen - 8) key))))"

section \<open>Values, \<open>values.go\<close>\<close>

definition GetRegionLocalState :: "'db badger \<Rightarrow> pbcodec \<Rightarrow> 'db \<Rightarrow> nat \<Rightarrow> berr + RegionLocalState" where
  "GetRegionLocalState B P db regionId = GetMeta B (un_RegionLocalState P) db (RegionStateKey regionId)"

definition GetRaftLocalState :: "'db badger \<Rightarrow> pbcodec \<Rightarrow> 'db \<Rightarrow> nat \<Rightarrow> berr + RaftLocalState" where
  "GetRaftLocalState B P db regionId = GetMeta B (un_RaftLocalState P) db (RaftStateKey regionId)"

definition GetApplyState :: "'db badger \<Rightarrow> pbcodec \<Rightarrow> 'db \<Rightarrow> nat \<Rightarrow> berr + RaftApplyState" where
  "GetApplyState B P db regionId = GetMeta B (un_RaftApplyState P) db (ApplyStateKey regionId)"

definition GetRaftEntry :: "'db badger \<Rightarrow> pbcodec \<Rightarrow> 'db \<Rightarrow> nat \<Rightarrow> nat \<Rightarrow> berr + Entry" where
  "GetRaftEntry B P db regionId idx = GetMeta B (un_Entry P) db (RaftLogKey regionId idx)"

definition RaftInitLogTerm :: nat where "RaftInitLogTerm = 5"
definition RaftInitLogIndex :: nat where "RaftInitLogIndex = 5"

definition InitRaftLocalState :: "'db badger \<Rightarrow> pbcodec \<Rightarrow> 'db \<Rightarrow> Region \<Rightarrow> berr + (RaftLocalState \<times> 'db)" where
  "InitRaftLocalState B P raftEngine region =
     (case GetRaftLocalState B P raftEngine (rg_Id region) of
        Inr raftState \<Rightarrow> Inr (raftState, raftEngine)
      | Inl err \<Rightarrow>
          if err \<noteq> ErrKeyNotFound then Inl err
          else if length (rg_Peers region) > 0
          then let raftState = \<lparr>rl_HardState = \<lparr>hs_Term = RaftInitLogTerm, hs_Vote = 0, hs_Commit = RaftInitLogIndex\<rparr>,
                                rl_LastIndex = RaftInitLogIndex, rl_LastTerm = RaftInitLogTerm\<rparr>
               in bindR (PutMeta B (pb_RaftLocalState P) raftEngine (RaftStateKey (rg_Id region)) raftState)
                    (\<lambda>db. Inr (raftState, db))
          else Inr (\<lparr>rl_HardState = emptyHardState, rl_LastIndex = 0, rl_LastTerm = 0\<rparr>, raftEngine))"

definition InitApplyState :: "'db badger \<Rightarrow> pbcodec \<Rightarrow> 'db \<Rightarrow> Region \<Rightarrow> berr + (RaftApplyState \<times> 'db)" where
  "InitApplyState B P kvEngine region =
     (case GetApplyState B P kvEngine (rg_Id region) of
        Inr applyState \<Rightarrow> Inr (applyState, kvEngine)
      | Inl err \<Rightarrow>
          if err \<noteq> ErrKeyNotFound then Inl err
          else let applyState =
                 (if length (rg_Peers region) > 0
                  then \<lparr>ra_AppliedIndex = RaftInitLogIndex,
                        ra_TruncatedState = \<lparr>rt_Index = RaftInitLogIndex, rt_Term = RaftInitLogTerm\<rparr>\<rparr>
                  else \<lparr>ra_AppliedIndex = 0, ra_TruncatedState = \<lparr>rt_Index = 0, rt_Term = 0\<rparr>\<rparr>)
               in bindR (PutMeta B (pb_RaftApplyState P) kvEngine (ApplyStateKey (rg_Id region)) applyState)
                    (\<lambda>db. Inr (applyState, db)))"

definition WriteRegionState :: "pbcodec \<Rightarrow> WriteBatch \<Rightarrow> Region \<Rightarrow> PeerState \<Rightarrow> WriteBatch" where
  "WriteRegionState P kvWB region state =
     wb_SetMeta (pb_RegionLocalState P) kvWB (RegionStateKey (rg_Id region)) \<lparr>rs_State = state, rs_Region = region\<rparr>"

section \<open>The keys are apart\<close>

lemmas key_prefixes = LocalPrefix_def RegionRaftPrefix_def RegionMetaPrefix_def RaftLogSuffix_def RaftStateSuffix_def
  ApplyStateSuffix_def RegionStateSuffix_def
lemmas key_defs = RaftLogKey_def RaftStateKey_def ApplyStateKey_def RegionStateKey_def makeRegionKey_def makeRegionPrefix_def
  PrepareBootstrapKey_def StoreIdentKey_def

lemma length_put_nat64 [simp]: "length (put_nat64 n) = 8"
  by (simp add: put_nat64_def)

lemma put_nat64_less: "m < 2 ^ 64 \<Longrightarrow> n < 2 ^ 64 \<Longrightarrow> put_nat64 m < put_nat64 n \<longleftrightarrow> m < n"
  by (simp add: put_nat64_def word_less_nat_alt unat_of_nat take_bit_eq_mod)

lemma put_nat64_eq: "m < 2 ^ 64 \<Longrightarrow> n < 2 ^ 64 \<Longrightarrow> put_nat64 m = put_nat64 n \<longleftrightarrow> m = n"
  by (metis less_irrefl linorder_neqE_nat put_nat64_less)

lemma uint64_put_nat64 [simp]: "n < 2 ^ 64 \<Longrightarrow> unat (be_uint64 (put_nat64 n @ bs)) = n"
  by (simp add: put_nat64_def unat_of_nat take_bit_eq_mod)

lemma uint64_put_nat64' [simp]: "n < 2 ^ 64 \<Longrightarrow> unat (be_uint64 (put_nat64 n)) = n"
  using uint64_put_nat64 [of n "[]"] by simp

lemma log_key_less:
  assumes "r < 2 ^ 64" "r' < 2 ^ 64" "i < 2 ^ 64" "j < 2 ^ 64"
  shows "RaftLogKey r i < RaftLogKey r' j \<longleftrightarrow> r < r' \<or> r = r' \<and> i < j"
  using assms by (simp add: key_defs lex_append_less put_nat64_less put_nat64_eq)

lemma log_key_eq:
  assumes "r < 2 ^ 64" "r' < 2 ^ 64" "i < 2 ^ 64" "j < 2 ^ 64"
  shows "RaftLogKey r i = RaftLogKey r' j \<longleftrightarrow> r = r' \<and> i = j"
  using assms by (simp add: key_defs put_nat64_eq)

lemma keys_apart [simp]:
  "RaftLogKey r i \<noteq> RaftStateKey r'" "RaftStateKey r' \<noteq> RaftLogKey r i"
  "ApplyStateKey r \<noteq> RegionStateKey r'" "RegionStateKey r' \<noteq> ApplyStateKey r"
  "RaftStateKey r \<noteq> ApplyStateKey r'" "RaftLogKey r i \<noteq> ApplyStateKey r'"
  by (auto simp: key_defs key_prefixes dest: arg_cong [where f = length] arg_cong [where f = last])

lemma state_key_eq:
  assumes "r < 2 ^ 64" "r' < 2 ^ 64"
  shows "RaftStateKey r = RaftStateKey r' \<longleftrightarrow> r = r'" "ApplyStateKey r = ApplyStateKey r' \<longleftrightarrow> r = r'"
    "RegionStateKey r = RegionStateKey r' \<longleftrightarrow> r = r'"
  using assms by (simp_all add: key_defs put_nat64_eq)

text \<open>
  C31. Keys of region data decode to what they were made of; log keys sort by region and then by index;
  keys of different kinds or regions differ, and none is a key of a column family. The keys of
  region states are exactly between the bounds the start-up scan of a store uses, which keeps
  out log, raft state and apply state keys.
\<close>

theorem region_keys:
  assumes "r < 2 ^ 64" "r' < 2 ^ 64" "i < 2 ^ 64" "j < 2 ^ 64" "cf \<in> set CFs"
  shows "RaftLogIndex (RaftLogKey r i) = Inr i
    \<and> DecodeRegionMetaKey (RegionStateKey r) = Inr (r, RegionStateSuffix)
    \<and> (RaftLogKey r i < RaftLogKey r' j \<longleftrightarrow> r < r' \<or> r = r' \<and> i < j)
    \<and> (RaftLogKey r i = RaftLogKey r' j \<longleftrightarrow> r = r' \<and> i = j)
    \<and> (RaftStateKey r = RaftStateKey r' \<longleftrightarrow> r = r') \<and> (ApplyStateKey r = ApplyStateKey r' \<longleftrightarrow> r = r')
    \<and> (RegionStateKey r = RegionStateKey r' \<longleftrightarrow> r = r')
    \<and> distinct [RaftLogKey r i, RaftStateKey r', ApplyStateKey r', RegionStateKey r', PrepareBootstrapKey, StoreIdentKey]
    \<and> RaftStateKey r \<noteq> ApplyStateKey r' \<and> RaftStateKey r \<noteq> RegionStateKey r' \<and> ApplyStateKey r \<noteq> RegionStateKey r'
    \<and> KeyWithCF cf k \<notin> {RaftLogKey r i, RaftStateKey r, ApplyStateKey r, RegionStateKey r, PrepareBootstrapKey, StoreIdentKey}
    \<and> RegionMetaMinKey < RegionStateKey r \<and> RegionStateKey r < RegionMetaMaxKey
    \<and> RaftLogKey r i < RegionMetaMinKey \<and> RaftStateKey r < RegionMetaMinKey \<and> ApplyStateKey r < RegionMetaMinKey"
proof -
  have "RaftLogIndex (RaftLogKey r i) = Inr i"
    using assms by (simp add: RaftLogIndex_def RegionRaftLogLen_def key_defs)
  moreover have "DecodeRegionMetaKey (RegionStateKey r) = Inr (r, RegionStateSuffix)"
    using assms by (simp add: DecodeRegionMetaKey_def RegionMetaMinKey_def key_defs hasPrefix_def nth_append)
  moreover have "distinct [RaftLogKey r i, RaftStateKey r', ApplyStateKey r', RegionStateKey r', PrepareBootstrapKey, StoreIdentKey]"
    by (auto simp: key_defs key_prefixes dest: arg_cong [where f = length] arg_cong [where f = last])
  moreover have "RaftStateKey r \<noteq> RegionStateKey r'" by (simp add: key_defs key_prefixes)
  moreover have "KeyWithCF cf k \<notin> {RaftLogKey r i, RaftStateKey r, ApplyStateKey r, RegionStateKey r, PrepareBootstrapKey, StoreIdentKey}"
    using assms(5) by (auto simp: CFs_def KeyWithCF_prefix cf_prefix_code key_defs key_prefixes)
  moreover have "RegionMetaMinKey < RegionStateKey r" "RegionStateKey r < RegionMetaMaxKey" "RaftLogKey r i < RegionMetaMinKey"
    "RaftStateKey r < RegionMetaMinKey" "ApplyStateKey r < RegionMetaMinKey"
    by (cases "put_nat64 r"; simp add: RegionMetaMinKey_def RegionMetaMaxKey_def key_defs key_prefixes)+
  ultimately show ?thesis using log_key_less log_key_eq state_key_eq assms by simp
qed

theorem region_keys_witness:
  "RaftLogKey 2 300 < RaftLogKey 3 1 \<and> RaftLogIndex (RaftLogKey 2 300) = Inr 300 \<and> KeyWithCF CfLock [9] \<noteq> ApplyStateKey 2"
  using region_keys [of 2 3 300 1 CfLock "[9]"] by simp

section \<open>What is relied on in the protobuf encoding\<close>

text \<open>
  Messages whose numbers fit their fields decode to what was encoded; an empty byte string in an
  entry is not told from an absent one. A message with a submessage or a number that is not zero
  does not encode to the empty string (which a write batch would take for a deletion).
\<close>

definition u64 :: "nat \<Rightarrow> bool" where
  "u64 n \<longleftrightarrow> n < 2 ^ 64"

definition entry_u64 :: "Entry \<Rightarrow> bool" where
  "entry_u64 e \<longleftrightarrow> u64 (e_Term e) \<and> u64 (e_Index e)"

definition entry_norm :: "Entry \<Rightarrow> Entry" where
  "entry_norm e = e\<lparr>e_Data := snorm (e_Data e)\<rparr>"

definition local_u64 :: "RaftLocalState \<Rightarrow> bool" where
  "local_u64 s \<longleftrightarrow> u64 (hs_Term (rl_HardState s)) \<and> u64 (hs_Vote (rl_HardState s)) \<and> u64 (hs_Commit (rl_HardState s))
     \<and> u64 (rl_LastIndex s) \<and> u64 (rl_LastTerm s)"

definition apply_u64 :: "RaftApplyState \<Rightarrow> bool" where
  "apply_u64 s \<longleftrightarrow> u64 (ra_AppliedIndex s) \<and> u64 (rt_Index (ra_TruncatedState s)) \<and> u64 (rt_Term (ra_TruncatedState s))"

locale pb_spec =
  fixes P :: pbcodec
  assumes entry: "entry_u64 e \<Longrightarrow> un_Entry P (pb_Entry P e) = Inr (entry_norm e)"
    and entry_full: "e_Index e \<noteq> 0 \<Longrightarrow> pb_Entry P e \<noteq> []"
    and local_state: "local_u64 s \<Longrightarrow> un_RaftLocalState P (pb_RaftLocalState P s) = Inr s"
    and local_full: "pb_RaftLocalState P s \<noteq> []"
    and apply_state: "apply_u64 a \<Longrightarrow> un_RaftApplyState P (pb_RaftApplyState P a) = Inr a"
    and apply_full: "pb_RaftApplyState P a \<noteq> []"

text \<open>A fixed-width encoding meets it.\<close>

definition get_nat64 :: "nat \<Rightarrow> bytes \<Rightarrow> nat" where
  "get_nat64 n bs = unat (be_uint64 (drop (8 * n) bs))"

definition wide_codec :: pbcodec where
  "wide_codec =
     \<lparr>pb_Entry = (\<lambda>e. (case e_EntryType e of EntryNormal \<Rightarrow> 0 | EntryConfChange \<Rightarrow> 1) # put_nat64 (e_Term e) @ put_nat64 (e_Index e) @ sbytes (e_Data e)),
      un_Entry = (\<lambda>bs. case bs of [] \<Rightarrow> Inr zeroEntry
        | b # ns \<Rightarrow> Inr \<lparr>e_EntryType = (if b = 0 then EntryNormal else EntryConfChange),
                         e_Term = get_nat64 0 ns, e_Index = get_nat64 1 ns, e_Data = snorm (Some (drop 16 ns))\<rparr>),
      pb_RaftLocalState = (\<lambda>s. put_nat64 (hs_Term (rl_HardState s)) @ put_nat64 (hs_Vote (rl_HardState s))
        @ put_nat64 (hs_Commit (rl_HardState s)) @ put_nat64 (rl_LastIndex s) @ put_nat64 (rl_LastTerm s)),
      un_RaftLocalState = (\<lambda>bs. Inr \<lparr>rl_HardState = \<lparr>hs_Term = get_nat64 0 bs, hs_Vote = get_nat64 1 bs, hs_Commit = get_nat64 2 bs\<rparr>,
        rl_LastIndex = get_nat64 3 bs, rl_LastTerm = get_nat64 4 bs\<rparr>),
      pb_RaftApplyState = (\<lambda>a. put_nat64 (ra_AppliedIndex a) @ put_nat64 (rt_Index (ra_TruncatedState a)) @ put_nat64 (rt_Term (ra_TruncatedState a))),
      un_RaftApplyState = (\<lambda>bs. Inr \<lparr>ra_AppliedIndex = get_nat64 0 bs,
        ra_TruncatedState = \<lparr>rt_Index = get_nat64 1 bs, rt_Term = get_nat64 2 bs\<rparr>\<rparr>),
      pb_RegionLocalState = (\<lambda>s. put_nat64 (rg_Id (rs_Region s))),
      un_RegionLocalState = (\<lambda>bs. Inl (ErrBadger ''not decoded'')),
      un_SnapshotRegion = (\<lambda>bs. Inr \<lparr>rg_Id = get_nat64 0 bs, rg_StartKey = [], rg_EndKey = [],
        rg_RegionEpoch = \<lparr>ep_ConfVer = 1, ep_Version = 1\<rparr>, rg_Peers = []\<rparr>)\<rparr>"

interpretation wide: pb_spec wide_codec
proof
  have snorm_bytes: "snorm (Some (sbytes v)) = snorm v" for v by (cases v) (auto simp: snorm_def sbytes_def)
  show "un_Entry wide_codec (pb_Entry wide_codec e) = Inr (entry_norm e)" if "entry_u64 e" for e
    using that by (cases e) (auto simp: wide_codec_def entry_norm_def entry_u64_def u64_def get_nat64_def snorm_bytes split: EntryType.splits)
  show "un_RaftLocalState wide_codec (pb_RaftLocalState wide_codec s) = Inr s" if "local_u64 s" for s
    using that by (simp add: wide_codec_def local_u64_def u64_def get_nat64_def)
  show "un_RaftApplyState wide_codec (pb_RaftApplyState wide_codec a) = Inr a" if "apply_u64 a" for a
    using that by (simp add: wide_codec_def apply_u64_def u64_def get_nat64_def)
qed (auto simp: wide_codec_def put_nat64_def dest: arg_cong [where f = length])

end
