(* ===== verification/PeerStorage.thy ===== *)
theory PeerStorage
  imports RegionMeta RawNode
begin

text \<open>
  The storage a peer of a region gives to its Raft node, \<open>kv/raftstore/peer_storage.go\<close>: log entries,
  hard state and last index in the Raft engine, the apply state with the truncated index in the kv
  engine. \<open>SaveReadyState\<close> writes what a \<open>Ready\<close> asks to be saved. Tasks for the region
  worker are recorded in the order they are sent; where the code waits for the worker (installing a
  snapshot), \<open>W\<close> is what the worker has done to the kv engine by then. What the receiver of a
  generated snapshot holds at the time of a call is an argument. Log output, the tag and the time
  measurement are left out.
\<close>

section \<open>State\<close>

datatype SnapStateType = SnapState_Relax | SnapState_Generating | SnapState_Applying

datatype region_task =
    RegionTaskGen nat
  | RegionTaskApply nat SnapshotMetadata bytes bytes
  | RegionTaskDestroy nat bytes bytes

record 'db PeerStorage =
  ps_peerID :: nat
  ps_region :: Region
  ps_raftState :: RaftLocalState
  ps_snapState :: SnapStateType
  ps_regionSched :: "region_task list"
  ps_snapTriedCnt :: nat
  ps_Engines :: "'db Engines"

record ApplySnapResult =
  as_PrevRegion :: Region
  as_Region :: Region

definition NewPeerStorage ::
    "'db badger \<Rightarrow> pbcodec \<Rightarrow> 'db Engines \<Rightarrow> Region \<Rightarrow> nat \<Rightarrow> (berr + 'db PeerStorage) rres" where
  "NewPeerStorage B P engines region peerID =
     (case InitRaftLocalState B P (en_Raft engines) region of
        Inl err \<Rightarrow> Inr (Inl err)
      | Inr (raftState, raftDB) \<Rightarrow>
          (case InitApplyState B P (en_Kv engines) region of
             Inl err \<Rightarrow> Inr (Inl err)
           | Inr (applyState, kvDB) \<Rightarrow>
               if rl_LastIndex raftState < ra_AppliedIndex applyState
               then Inl (RPanic ''unexpected raft log index'')
               else Inr (Inr \<lparr>ps_peerID = peerID, ps_region = region, ps_raftState = raftState,
                              ps_snapState = SnapState_Relax, ps_regionSched = [], ps_snapTriedCnt = 0,
                              ps_Engines = \<lparr>en_Kv = kvDB, en_Raft = raftDB\<rparr>\<rparr>)))"

section \<open>Reading\<close>

definition ps_isInitialized :: "'db PeerStorage \<Rightarrow> bool" where
  "ps_isInitialized ps \<longleftrightarrow> length (rg_Peers (ps_region ps)) > 0"

definition ConfStateFromRegion :: "Region \<Rightarrow> nat list" where
  "ConfStateFromRegion region = map pr_Id (rg_Peers region)"

definition ps_InitialState :: "'db PeerStorage \<Rightarrow> (HardState \<times> nat list) rres" where
  "ps_InitialState ps =
     (let hs = rl_HardState (ps_raftState ps)
      in if IsEmptyHardState hs
         then if ps_isInitialized ps then Inl (RPanic ''peer is initialized but local state has empty hard state'')
              else Inr (emptyHardState, [])
         else Inr (hs, ConfStateFromRegion (ps_region ps)))"

text \<open>A failed read of the apply state leaves a nil pointer, which the callers follow.\<close>

definition ps_applyState :: "'db badger \<Rightarrow> pbcodec \<Rightarrow> 'db PeerStorage \<Rightarrow> RaftApplyState rres" where
  "ps_applyState B P ps =
     (case GetApplyState B P (en_Kv (ps_Engines ps)) (rg_Id (ps_region ps)) of
        Inl _ \<Rightarrow> Inl (RPanic ''nil pointer dereference'')
      | Inr state \<Rightarrow> Inr state)"

definition ps_truncatedIndex :: "'db badger \<Rightarrow> pbcodec \<Rightarrow> 'db PeerStorage \<Rightarrow> nat rres" where
  "ps_truncatedIndex B P ps = bindR (ps_applyState B P ps) (\<lambda>s. Inr (rt_Index (ra_TruncatedState s)))"

definition ps_truncatedTerm :: "'db badger \<Rightarrow> pbcodec \<Rightarrow> 'db PeerStorage \<Rightarrow> nat rres" where
  "ps_truncatedTerm B P ps = bindR (ps_applyState B P ps) (\<lambda>s. Inr (rt_Term (ra_TruncatedState s)))"

definition ps_AppliedIndex :: "'db badger \<Rightarrow> pbcodec \<Rightarrow> 'db PeerStorage \<Rightarrow> nat rres" where
  "ps_AppliedIndex B P ps = bindR (ps_applyState B P ps) (\<lambda>s. Inr (ra_AppliedIndex s))"

definition ps_checkRange :: "'db badger \<Rightarrow> pbcodec \<Rightarrow> 'db PeerStorage \<Rightarrow> nat \<Rightarrow> nat \<Rightarrow> (rerr + unit) rres" where
  "ps_checkRange B P ps low high =
     (if low > high then Inr (Inl (ErrOther ''low is greater than high''))
      else bindR (ps_truncatedIndex B P ps) (\<lambda>ti.
        if low \<le> ti then Inr (Inl ErrCompacted)
        else if high > rl_LastIndex (ps_raftState ps) + 1 then Inr (Inl (ErrOther ''entries high is out of bound''))
        else Inr (Inr ())))"

fun ps_Entries_loop ::
    "pbcodec \<Rightarrow> (bytes \<times> (berr + goslice)) list \<Rightarrow> bytes \<Rightarrow> nat \<Rightarrow> Entry list \<Rightarrow> berr + Entry list" where
  "ps_Entries_loop P [] endKey nextIndex buf = Inr buf"
| "ps_Entries_loop P ((key, item) # iter) endKey nextIndex buf =
     (if bytes_Compare key endKey \<ge> 0 then Inr buf
      else bindR item (\<lambda>val.
           bindR (un_Entry P (sbytes val)) (\<lambda>entry.
           if e_Index entry \<noteq> nextIndex then Inr buf
           else ps_Entries_loop P iter endKey (nextIndex + 1) (buf @ [entry]))))"

definition badger_rerr :: "berr \<Rightarrow> rerr" where
  "badger_rerr e = (case e of ErrKeyNotFound \<Rightarrow> ErrOther ''Key not found'' | ErrBadger s \<Rightarrow> ErrOther s)"

definition ps_Entries :: "'db badger \<Rightarrow> pbcodec \<Rightarrow> 'db PeerStorage \<Rightarrow> nat \<Rightarrow> nat \<Rightarrow> (rerr + Entry list) rres" where
  "ps_Entries B P ps low high =
     bindR (ps_checkRange B P ps low high) (\<lambda>chk.
     case chk of
       Inl err \<Rightarrow> Inr (Inl err)
     | Inr _ \<Rightarrow>
         if low = high then Inr (Inr [])
         else
           let startKey = RaftLogKey (rg_Id (ps_region ps)) low;
               endKey = RaftLogKey (rg_Id (ps_region ps)) high;
               iter = dropWhile (\<lambda>i. bytes_Compare (fst i) startKey < 0) (bd_Items B (en_Raft (ps_Engines ps)))
           in case ps_Entries_loop P iter endKey low [] of
                Inl err \<Rightarrow> Inr (Inl (badger_rerr err))
              | Inr buf \<Rightarrow> if int (length buf) = to_int (usub high low) then Inr (Inr buf)
                           else Inr (Inl ErrUnavailable))"

definition ps_Term :: "'db badger \<Rightarrow> pbcodec \<Rightarrow> 'db PeerStorage \<Rightarrow> nat \<Rightarrow> (rerr + nat) rres" where
  "ps_Term B P ps idx =
     bindR (ps_truncatedIndex B P ps) (\<lambda>ti.
     if idx = ti then bindR (ps_truncatedTerm B P ps) (\<lambda>tt. Inr (Inr tt))
     else bindR (ps_checkRange B P ps idx (idx + 1)) (\<lambda>chk.
       case chk of
         Inl err \<Rightarrow> Inr (Inl err)
       | Inr _ \<Rightarrow>
           bindR (ps_truncatedTerm B P ps) (\<lambda>tt.
           if tt = rl_LastTerm (ps_raftState ps) \<or> idx = rl_LastIndex (ps_raftState ps)
           then Inr (Inr (rl_LastTerm (ps_raftState ps)))
           else case GetMeta B (un_Entry P) (en_Raft (ps_Engines ps)) (RaftLogKey (rg_Id (ps_region ps)) idx) of
                  Inl err \<Rightarrow> Inr (Inl (badger_rerr err))
                | Inr entry \<Rightarrow> Inr (Inr (e_Term entry)))))"

definition ps_LastIndex :: "'db PeerStorage \<Rightarrow> nat" where
  "ps_LastIndex ps = rl_LastIndex (ps_raftState ps)"

definition ps_FirstIndex :: "'db badger \<Rightarrow> pbcodec \<Rightarrow> 'db PeerStorage \<Rightarrow> nat rres" where
  "ps_FirstIndex B P ps = bindR (ps_truncatedIndex B P ps) (\<lambda>ti. Inr (ti + 1))"

section \<open>Snapshots for other peers\<close>

definition ps_validateSnap :: "'db badger \<Rightarrow> pbcodec \<Rightarrow> 'db PeerStorage \<Rightarrow> Snapshot \<Rightarrow> bool rres" where
  "ps_validateSnap B P ps snap =
     bindR (ps_truncatedIndex B P ps) (\<lambda>ti.
     if sm_Index (sn_Metadata snap) < ti then Inr False
     else case un_SnapshotRegion P (sbytes (sn_Data snap)) of
            Inl _ \<Rightarrow> Inr False
          | Inr region \<Rightarrow>
              Inr (\<not> ep_ConfVer (rg_RegionEpoch region) < ep_ConfVer (rg_RegionEpoch (ps_region ps))))"

definition ps_requestSnap :: "'db PeerStorage \<Rightarrow> (rerr + Snapshot) \<times> 'db PeerStorage" where
  "ps_requestSnap ps =
     (if ps_snapTriedCnt ps \<ge> 5 then (Inl (ErrOther ''failed to get snapshot''), ps\<lparr>ps_snapTriedCnt := 0\<rparr>)
      else (Inl ErrSnapshotTemporarilyUnavailable,
            ps\<lparr>ps_snapTriedCnt := ps_snapTriedCnt ps + 1, ps_snapState := SnapState_Generating,
               ps_regionSched := ps_regionSched ps @ [RegionTaskGen (rg_Id (ps_region ps))]\<rparr>))"

text \<open>\<open>recv\<close>: nothing yet, a nil (generating failed), or a snapshot.\<close>

definition ps_Snapshot ::
    "'db badger \<Rightarrow> pbcodec \<Rightarrow> 'db PeerStorage \<Rightarrow> Snapshot option option \<Rightarrow> ((rerr + Snapshot) \<times> 'db PeerStorage) rres" where
  "ps_Snapshot B P ps recv =
     (if ps_snapState ps = SnapState_Generating
      then case recv of
             None \<Rightarrow> Inr (Inl ErrSnapshotTemporarilyUnavailable, ps)
           | Some s \<Rightarrow>
               let ps1 = ps\<lparr>ps_snapState := SnapState_Relax\<rparr>
               in (case s of
                     Some snapshot \<Rightarrow>
                       let ps2 = ps1\<lparr>ps_snapTriedCnt := 0\<rparr>
                       in bindR (ps_validateSnap B P ps2 snapshot) (\<lambda>valid.
                            if valid then Inr (Inr snapshot, ps2) else Inr (ps_requestSnap ps2))
                   | None \<Rightarrow> Inr (ps_requestSnap ps1))
      else Inr (ps_requestSnap ps))"

section \<open>Writing the log\<close>

definition ps_Append :: "pbcodec \<Rightarrow> 'db PeerStorage \<Rightarrow> Entry list \<Rightarrow> WriteBatch \<Rightarrow> 'db PeerStorage \<times> WriteBatch" where
  "ps_Append P ps entries raftWB =
     (let prevLastIndex = rl_LastIndex (ps_raftState ps)
      in if length entries = 0 then (ps, raftWB)
         else
           let lastIndex = e_Index (last entries);
               lastTerm = e_Term (last entries);
               wb1 = foldl (\<lambda>wb entry. wb_SetMeta (pb_Entry P) wb (RaftLogKey (rg_Id (ps_region ps)) (e_Index entry)) entry) raftWB entries;
               wb2 = foldl (\<lambda>wb i. wb_DeleteMeta wb (RaftLogKey (rg_Id (ps_region ps)) i)) wb1 [lastIndex + 1..<prevLastIndex + 1]
           in (ps\<lparr>ps_raftState := (ps_raftState ps)\<lparr>rl_LastIndex := lastIndex, rl_LastTerm := lastTerm\<rparr>\<rparr>, wb2))"

section \<open>Clearing\<close>

definition ClearMeta ::
    "'db badger \<Rightarrow> 'db Engines \<Rightarrow> WriteBatch \<Rightarrow> WriteBatch \<Rightarrow> nat \<Rightarrow> nat \<Rightarrow> berr + (WriteBatch \<times> WriteBatch)" where
  "ClearMeta B engines kvWB raftWB regionID lastIndex =
     (let kvWB1 = wb_DeleteMeta (wb_DeleteMeta kvWB (RegionStateKey regionID)) (ApplyStateKey regionID);
          beginLogKey = RaftLogKey regionID 0;
          endLogKey = RaftLogKey regionID (lastIndex + 1)
      in bindR (case dropWhile (\<lambda>i. bytes_Compare (fst i) beginLogKey < 0) (bd_Items B (en_Raft engines)) of
                  [] \<Rightarrow> Inr (lastIndex + 1)
                | i # _ \<Rightarrow> if bytes_Compare (fst i) endLogKey < 0 then RaftLogIndex (fst i) else Inr (lastIndex + 1))
           (\<lambda>firstIndex.
             let wb1 = foldl (\<lambda>wb i. wb_DeleteMeta wb (RaftLogKey regionID i)) raftWB [firstIndex..<lastIndex + 1]
             in Inr (kvWB1, wb_DeleteMeta wb1 (RaftStateKey regionID))))"

definition ps_clearMeta :: "'db badger \<Rightarrow> 'db PeerStorage \<Rightarrow> WriteBatch \<Rightarrow> WriteBatch \<Rightarrow> berr + (WriteBatch \<times> WriteBatch)" where
  "ps_clearMeta B ps kvWB raftWB =
     ClearMeta B (ps_Engines ps) kvWB raftWB (rg_Id (ps_region ps)) (rl_LastIndex (ps_raftState ps))"

definition ps_clearRange :: "'db PeerStorage \<Rightarrow> nat \<Rightarrow> bytes \<Rightarrow> bytes \<Rightarrow> 'db PeerStorage" where
  "ps_clearRange ps regionID start end =
     ps\<lparr>ps_regionSched := ps_regionSched ps @ [RegionTaskDestroy regionID start end]\<rparr>"

definition ps_clearExtraData :: "'db PeerStorage \<Rightarrow> Region \<Rightarrow> 'db PeerStorage" where
  "ps_clearExtraData ps newRegion =
     (let oldStartKey = rg_StartKey (ps_region ps); oldEndKey = rg_EndKey (ps_region ps);
          newStartKey = rg_StartKey newRegion; newEndKey = rg_EndKey newRegion;
          ps1 = (if bytes_Compare oldStartKey newStartKey < 0 then ps_clearRange ps (rg_Id newRegion) oldStartKey newStartKey else ps)
      in if bytes_Compare newEndKey oldEndKey < 0 then ps_clearRange ps1 (rg_Id newRegion) newEndKey oldEndKey else ps1)"

definition ps_SetRegion :: "'db PeerStorage \<Rightarrow> Region \<Rightarrow> 'db PeerStorage" where
  "ps_SetRegion ps region = ps\<lparr>ps_region := region\<rparr>"

definition ps_ClearData :: "'db PeerStorage \<Rightarrow> 'db PeerStorage" where
  "ps_ClearData ps =
     ps_clearRange ps (rg_Id (ps_region ps)) (rg_StartKey (ps_region ps)) (rg_EndKey (ps_region ps))"

section \<open>Installing a snapshot, saving a Ready\<close>

definition ps_ApplySnapshot ::
    "'db badger \<Rightarrow> pbcodec \<Rightarrow> (region_task list \<Rightarrow> 'db \<Rightarrow> 'db) \<Rightarrow> 'db PeerStorage \<Rightarrow> Snapshot \<Rightarrow> WriteBatch \<Rightarrow> WriteBatch
     \<Rightarrow> berr + (ApplySnapResult \<times> 'db PeerStorage \<times> WriteBatch \<times> WriteBatch)" where
  "ps_ApplySnapshot B P W ps snapshot kvWB raftWB =
     bindR (un_SnapshotRegion P (sbytes (sn_Data snapshot))) (\<lambda>region.
     if rg_Id region \<noteq> rg_Id (ps_region ps) then Inl (ErrBadger ''mismatch region id'')
     else
       bindR (if ps_isInitialized ps
              then bindR (ps_clearMeta B ps kvWB raftWB) (\<lambda>(kv1, raft1). Inr (ps_clearExtraData ps region, kv1, raft1))
              else Inr (ps, kvWB, raftWB)) (\<lambda>(ps1, kv1, raft1).
       let ps2 = ps1\<lparr>ps_raftState := (ps_raftState ps1)\<lparr>rl_LastIndex := sm_Index (sn_Metadata snapshot),
                                                        rl_LastTerm := sm_Term (sn_Metadata snapshot)\<rparr>\<rparr>;
           applyRes = \<lparr>as_PrevRegion = ps_region ps2, as_Region = region\<rparr>;
           ps3 = ps2\<lparr>ps_region := region\<rparr>;
           applyState = \<lparr>ra_AppliedIndex = sm_Index (sn_Metadata snapshot),
                         ra_TruncatedState = \<lparr>rt_Index = sm_Index (sn_Metadata snapshot), rt_Term = sm_Term (sn_Metadata snapshot)\<rparr>\<rparr>;
           kv2 = wb_SetMeta (pb_RaftApplyState P) kv1 (ApplyStateKey (rg_Id region)) applyState;
           kv3 = WriteRegionState P kv2 region PeerState_Normal;
           ps4 = ps3\<lparr>ps_snapState := SnapState_Applying,
                     ps_regionSched := ps_regionSched ps3 @ [RegionTaskApply (rg_Id region) (sn_Metadata snapshot) (rg_StartKey region) (rg_EndKey region)]\<rparr>;
           ps5 = ps4\<lparr>ps_Engines := (ps_Engines ps4)\<lparr>en_Kv := W (ps_regionSched ps4) (en_Kv (ps_Engines ps4))\<rparr>\<rparr>
       in Inr (applyRes, ps5, kv3, raft1)))"

definition must_write :: "'db badger \<Rightarrow> WriteBatch \<Rightarrow> 'db \<Rightarrow> 'db rres" where
  "must_write B wb db = (case wb_MustWriteToDB B wb db of Inl _ \<Rightarrow> Inl (RPanic ''write to db'') | Inr db' \<Rightarrow> Inr db')"

definition ps_SaveReadyState ::
    "'db badger \<Rightarrow> pbcodec \<Rightarrow> (region_task list \<Rightarrow> 'db \<Rightarrow> 'db) \<Rightarrow> 'db PeerStorage \<Rightarrow> Ready
     \<Rightarrow> (berr + (ApplySnapResult option \<times> 'db PeerStorage)) rres" where
  "ps_SaveReadyState B P W ps ready =
     (let prevRaftState = ps_raftState ps
      in case (if \<not> IsEmptySnap (Some (rdy_Snapshot ready))
               then bindR (ps_ApplySnapshot B P W ps (rdy_Snapshot ready) NewWriteBatch NewWriteBatch)
                      (\<lambda>(res, ps1, kvWB, raftWB). Inr (Some res, ps1, kvWB, raftWB))
               else Inr (None, ps, NewWriteBatch, NewWriteBatch)) of
           Inl err \<Rightarrow> Inr (Inl err)
         | Inr (applyRes, ps1, kvWB, raftWB) \<Rightarrow>
             let (ps2, raftWB1) = (if length (rdy_Entries ready) \<noteq> 0 then ps_Append P ps1 (rdy_Entries ready) raftWB else (ps1, raftWB));
                 ps3 = (if rl_LastIndex (ps_raftState ps2) > 0 \<and> \<not> IsEmptyHardState (rdy_HardState ready)
                        then ps2\<lparr>ps_raftState := (ps_raftState ps2)\<lparr>rl_HardState := rdy_HardState ready\<rparr>\<rparr>
                        else ps2);
                 raftWB2 = (if prevRaftState \<noteq> ps_raftState ps3
                            then wb_SetMeta (pb_RaftLocalState P) raftWB1 (RaftStateKey (rg_Id (ps_region ps3))) (ps_raftState ps3)
                            else raftWB1)
             in bindR (must_write B kvWB (en_Kv (ps_Engines ps3))) (\<lambda>kvDB.
                bindR (must_write B raftWB2 (en_Raft (ps_Engines ps3))) (\<lambda>raftDB.
                Inr (Inr (applyRes, ps3\<lparr>ps_Engines := \<lparr>en_Kv = kvDB, en_Raft = raftDB\<rparr>\<rparr>)))))"

text \<open>The storage as the Raft node sees it, with a view of the snapshot it would get.\<close>

definition PeerStorage_view :: "'db badger \<Rightarrow> pbcodec \<Rightarrow> Snapshot option option \<Rightarrow> 'db PeerStorage \<Rightarrow> raft_storage" where
  "PeerStorage_view B P recv ps =
     \<lparr>rs_InitialState = (case ps_InitialState ps of Inl f \<Rightarrow> Inl (ErrOther ''panic'') | Inr s \<Rightarrow> Inr s),
      rs_Entries = ps_Entries B P ps,
      rs_Term = (\<lambda>i. case ps_Term B P ps i of Inl f \<Rightarrow> Inl (ErrOther ''panic'') | Inr t \<Rightarrow> t),
      rs_LastIndex = Inr (ps_LastIndex ps),
      rs_FirstIndex = (case ps_FirstIndex B P ps of Inl f \<Rightarrow> Inl (ErrOther ''panic'') | Inr i \<Rightarrow> Inr i),
      rs_Snapshot = (case ps_Snapshot B P ps recv of Inl f \<Rightarrow> Inl (ErrOther ''panic'') | Inr s \<Rightarrow> fst s)\<rparr>"

end
