(* ===== verification/PeerStorage_Spec.thy ===== *)
theory PeerStorage_Spec
  imports PeerStorage MemoryStorage_Spec
begin

text \<open>
  The storage of a peer keeps its promise to the log. Over a database and an encoding that behave as
  documented, a well-formed \<open>PeerStorage\<close> is a \<open>log_store\<close>: what the log relies on in its storage holds
  of it as it does of \<open>MemoryStorage\<close>. Saving a \<open>Ready\<close> keeps it well-formed with exactly the new
  log and hard state, and a storage opened on the saved engines finds them again.
\<close>

section \<open>Write batches by key\<close>

text \<open>The last entry of a batch for a key decides.\<close>

lemma batch_lookup:
  "map_of (foldl apply_op m (map entry_op es)) k =
     (case map_of (rev es) k of None \<Rightarrow> map_of m k | Some v \<Rightarrow> (if sbytes v = [] then None else Some v))"
proof (induction es rule: rev_induct)
  case (snoc e es)
  then show ?case
    by (cases e; cases "snd e") (auto simp: apply_op_def entry_op_def sbytes_def snorm_def split: option.splits)
qed simp

lemma wb_fold_SetMeta:
  "wb_entries (foldl (\<lambda>wb x. wb_SetMeta f wb (key x) x) wb xs) = wb_entries wb @ map (\<lambda>x. (key x, Some (f x))) xs"
  by (induction xs arbitrary: wb) (simp_all add: wb_SetMeta_def wb_add_def Let_def)

lemma wb_fold_DeleteMeta:
  "wb_entries (foldl (\<lambda>wb i. wb_DeleteMeta wb (key i)) wb xs) = wb_entries wb @ map (\<lambda>i. (key i, None)) xs"
  by (induction xs arbitrary: wb) (simp_all add: wb_DeleteMeta_def wb_add_def)

section \<open>What a peer has stored\<close>

text \<open>The base is the truncated index; the log is what is stored above it up to the last index.\<close>

definition ps_base :: "'db badger \<Rightarrow> pbcodec \<Rightarrow> 'db PeerStorage \<Rightarrow> nat" where
  "ps_base B P ps = (case ps_truncatedIndex B P ps of Inl _ \<Rightarrow> 0 | Inr i \<Rightarrow> i)"

definition ps_base_term :: "'db badger \<Rightarrow> pbcodec \<Rightarrow> 'db PeerStorage \<Rightarrow> nat" where
  "ps_base_term B P ps = (case ps_truncatedTerm B P ps of Inl _ \<Rightarrow> 0 | Inr t \<Rightarrow> t)"

definition ps_entry :: "'db badger \<Rightarrow> pbcodec \<Rightarrow> 'db PeerStorage \<Rightarrow> nat \<Rightarrow> Entry" where
  "ps_entry B P ps i =
     (case GetRaftEntry B P (en_Raft (ps_Engines ps)) (rg_Id (ps_region ps)) i of Inl _ \<Rightarrow> zeroEntry | Inr e \<Rightarrow> e)"

definition ps_saved :: "'db badger \<Rightarrow> pbcodec \<Rightarrow> 'db PeerStorage \<Rightarrow> Entry list" where
  "ps_saved B P ps = map (ps_entry B P ps) [ps_base B P ps + 1..<ps_LastIndex ps + 1]"

text \<open>Under the prefix of a region's log there are only keys of its log.\<close>

definition log_prefix :: "nat \<Rightarrow> bytes" where
  "log_prefix r = RegionRaftPrefixKey r @ [RaftLogSuffix]"

definition log_keys_only :: "nat \<Rightarrow> cfdata \<Rightarrow> bool" where
  "log_keys_only r m \<longleftrightarrow> (\<forall>k. map_of m k \<noteq> None \<longrightarrow> hasPrefix k (log_prefix r) \<longrightarrow> (\<exists>i < 2 ^ 64. k = RaftLogKey r i))"

text \<open>
  A well-formed initialised peer: the entries from the truncated index to the last index are readable,
  with their indexes and terms that do not decrease; the state in memory is the stored one. Indexes
  stay below \<open>2^63\<close>, where the conversion to \<open>int\<close> in \<open>Entries\<close> is exact.
\<close>

definition peer_wf :: "'db badger \<Rightarrow> pbcodec \<Rightarrow> ('db \<Rightarrow> cfdata) \<Rightarrow> ('db \<Rightarrow> bool) \<Rightarrow> 'db PeerStorage \<Rightarrow> bool" where
  "peer_wf B P content good ps \<longleftrightarrow>
     good (en_Kv (ps_Engines ps)) \<and> good (en_Raft (ps_Engines ps)) \<and> u64 (rg_Id (ps_region ps))
     \<and> (\<exists>a. GetApplyState B P (en_Kv (ps_Engines ps)) (rg_Id (ps_region ps)) = Inr a
          \<and> rt_Index (ra_TruncatedState a) \<le> ra_AppliedIndex a \<and> ra_AppliedIndex a \<le> ps_LastIndex ps)
     \<and> 0 < ps_LastIndex ps \<and> ps_LastIndex ps + 1 < 2 ^ 63
     \<and> (\<forall>i. ps_base B P ps < i \<longrightarrow> i \<le> ps_LastIndex ps \<longrightarrow>
          (\<exists>e. GetRaftEntry B P (en_Raft (ps_Engines ps)) (rg_Id (ps_region ps)) i = Inr e \<and> e_Index e = i))
     \<and> sorted (ps_base_term B P ps # map e_Term (ps_saved B P ps))
     \<and> (ps_base B P ps < ps_LastIndex ps \<longrightarrow> rl_LastTerm (ps_raftState ps) = e_Term (ps_entry B P ps (ps_LastIndex ps)))
     \<and> log_keys_only (rg_Id (ps_region ps)) (content (en_Raft (ps_Engines ps)))
     \<and> GetRaftLocalState B P (en_Raft (ps_Engines ps)) (rg_Id (ps_region ps)) = Inr (ps_raftState ps)
     \<and> local_u64 (ps_raftState ps)"

lemma log_key_prefix: "RaftLogKey r i = log_prefix r @ put_nat64 i"
  by (simp add: log_prefix_def RegionRaftPrefixKey_def key_defs)

lemma between_log_keys: "RaftLogKey r i \<le> k \<Longrightarrow> k < RaftLogKey r j \<Longrightarrow> hasPrefix k (log_prefix r)"
  using prefix_interval [of "log_prefix r" k "put_nat64 j"] prefix_le [of "log_prefix r" "put_nat64 i"]
  unfolding log_key_prefix by (metis order_less_asym order_trans)

lemma state_key_no_log_prefix: "\<not> hasPrefix (RaftStateKey r) (log_prefix r)"
  by (auto simp: hasPrefix_def log_prefix_def RegionRaftPrefixKey_def key_defs key_prefixes)

lemma sorted_between:
  fixes f :: "'i \<Rightarrow> bytes"
  assumes "sorted_wrt (<) (map f xs)"
  shows "takeWhile (\<lambda>x. f x < hi) (dropWhile (\<lambda>x. f x < lo) xs) = filter (\<lambda>x. lo \<le> f x \<and> f x < hi) xs"
proof -
  have tk: "takeWhile (\<lambda>x. f x < hi) ys = filter (\<lambda>x. f x < hi) ys" if "sorted_wrt (<) (map f ys)" for ys
    using that
  proof (induction ys)
    case (Cons y ys)
    then have "\<not> f y < hi \<Longrightarrow> \<forall>z \<in> set ys. \<not> f z < hi" by force
    with Cons show ?case by (auto simp: filter_empty_conv)
  qed simp
  have "sorted_wrt (<) (map f (filter (\<lambda>x. lo \<le> f x) xs))" using assms by (simp add: sorted_wrt_map sorted_wrt_filter)
  from tk [OF this] show ?thesis by (simp add: sorted_dropWhile_less [OF assms] conj_commute)
qed

lemma entries_loop:
  assumes "list_all2 (\<lambda>i e. \<exists>w. snd i = Inr w \<and> un_Entry P (sbytes w) = Inr e) (takeWhile (\<lambda>i. fst i < endKey) iter) es"
    and "contiguous n es"
  shows "ps_Entries_loop P iter endKey n buf = Inr (buf @ es)"
  using assms
proof (induction es arbitrary: iter n buf rule: list.induct)
  case Nil
  from Nil.prems(1) have "takeWhile (\<lambda>i. fst i < endKey) iter = []" by (simp only: list_all2_Nil2)
  then have "iter = [] \<or> \<not> fst (hd iter) < endKey" by (cases iter) (simp_all split: if_splits)
  then show ?case by (cases iter) (auto simp: not_less)
next
  case (Cons e es)
  then obtain k r rest where iter: "iter = (k, r) # rest" "k < endKey" by (cases iter) (auto split: if_splits)
  then have "list_all2 (\<lambda>i e. \<exists>w. snd i = Inr w \<and> un_Entry P (sbytes w) = Inr e) (takeWhile (\<lambda>i. fst i < endKey) rest) es"
    using Cons.prems(1) by simp
  from Cons.IH [OF this, of "Suc n"] Cons.prems iter show ?case by auto
qed

section \<open>The interface the log relies on\<close>

locale peer_engine = badger_spec B content ok + pb_spec P
  for B :: "'db badger" and content ok and P
begin

lemma get_meta:
  "ok db \<Longrightarrow> GetMeta B un db k = (case map_of (content db) k of None \<Rightarrow> Inl ErrKeyNotFound | Some v \<Rightarrow> un (sbytes v))"
proof -
  assume db: "ok db"
  have "sbytes w = sbytes (snorm w)" for w by (auto simp: sbytes_def snorm_def)
  then show ?thesis using get [OF db, of k] by (auto simp: GetMeta_def split: option.splits)
qed

lemma apply_state_wf:
  assumes "peer_wf B P content ok ps"
  obtains a where "GetApplyState B P (en_Kv (ps_Engines ps)) (rg_Id (ps_region ps)) = Inr a" "ps_applyState B P ps = Inr a"
    "ps_truncatedIndex B P ps = Inr (ps_base B P ps)" "ps_truncatedTerm B P ps = Inr (ps_base_term B P ps)"
    "ps_base B P ps = rt_Index (ra_TruncatedState a)" "ps_base_term B P ps = rt_Term (ra_TruncatedState a)"
    "ps_base B P ps \<le> ra_AppliedIndex a" "ra_AppliedIndex a \<le> ps_LastIndex ps"
  using assms unfolding peer_wf_def
  by (auto simp: ps_applyState_def ps_truncatedIndex_def ps_truncatedTerm_def ps_base_def ps_base_term_def)

lemma base_le_last: "peer_wf B P content ok ps \<Longrightarrow> ps_base B P ps \<le> ps_LastIndex ps"
  by (erule apply_state_wf) simp

lemma saved_length: "length (ps_saved B P ps) = ps_LastIndex ps - ps_base B P ps"
  by (auto simp: ps_saved_def simp del: upt_Suc)

lemma saved_nth: "i < ps_LastIndex ps - ps_base B P ps \<Longrightarrow> ps_saved B P ps ! i = ps_entry B P ps (ps_base B P ps + 1 + i)"
  by (auto simp: ps_saved_def simp del: upt_Suc)

lemma stored_entry:
  assumes "peer_wf B P content ok ps" "ps_base B P ps < i" "i \<le> ps_LastIndex ps"
  shows "GetRaftEntry B P (en_Raft (ps_Engines ps)) (rg_Id (ps_region ps)) i = Inr (ps_entry B P ps i)"
    "e_Index (ps_entry B P ps i) = i"
  using assms unfolding peer_wf_def ps_entry_def by force+

lemma saved_run: "peer_wf B P content ok ps \<Longrightarrow> contiguous (ps_base B P ps + 1) (ps_saved B P ps)"
  by (auto simp: contiguous_def saved_length saved_nth stored_entry)

text \<open>Reading a range: the iterator meets exactly the keys of the range.\<close>

lemma range_keys:
  assumes wf: "peer_wf B P content ok ps" and lo: "ps_base B P ps < lo" "lo \<le> hi" "hi \<le> ps_LastIndex ps + 1"
  defines "r \<equiv> rg_Id (ps_region ps)" and "db \<equiv> en_Raft (ps_Engines ps)"
  shows "map fst (filter (\<lambda>i. RaftLogKey r lo \<le> fst i \<and> fst i < RaftLogKey r hi) (bd_Items B db)) = map (RaftLogKey r) [lo..<hi]"
proof (rule sorted_distinct_set_unique)
  have db: "ok db" and r: "r < 2 ^ 64" and keys: "log_keys_only r (content db)" and last: "ps_LastIndex ps + 1 < 2 ^ 63"
    using wf by (simp_all add: peer_wf_def db_def r_def u64_def)
  let ?xs = "filter (\<lambda>i. RaftLogKey r lo \<le> fst i \<and> fst i < RaftLogKey r hi) (bd_Items B db)"
  have hi: "hi < 2 ^ 64" using lo last by simp
  have "sorted_wrt (<) (map fst ?xs)" using items_sorted_keys [OF db] by (simp add: sorted_wrt_map sorted_wrt_filter)
  then show "sorted (map fst ?xs)" "distinct (map fst ?xs)" by (simp_all add: strict_sorted_iff)
  have lt: "RaftLogKey r i < RaftLogKey r j \<longleftrightarrow> i < j" if "i < 2 ^ 64" "j < 2 ^ 64" for i j
    using log_key_less [OF r r that] by simp
  have "sorted_wrt (<) (map (RaftLogKey r) [lo..<hi])"
    using hi by (auto simp: sorted_wrt_map lt intro!: sorted_wrt_mono_rel [OF _ sorted_wrt_upt])
  then show "sorted (map (RaftLogKey r) [lo..<hi])" "distinct (map (RaftLogKey r) [lo..<hi])" by (simp_all add: strict_sorted_iff)
  have dom: "k \<in> fst ` set (bd_Items B db) \<longleftrightarrow> map_of (content db) k \<noteq> None" for k
    using items_keys [OF db] by (metis list.set_map map_of_eq_None_iff)
  show "set (map fst ?xs) = set (map (RaftLogKey r) [lo..<hi])"
  proof (intro equalityI subsetI)
    fix k assume "k \<in> set (map fst ?xs)"
    then have k: "k \<in> fst ` set (bd_Items B db)" "RaftLogKey r lo \<le> k" "k < RaftLogKey r hi" by auto
    then obtain i where i: "i < 2 ^ 64" "k = RaftLogKey r i"
      using keys between_log_keys dom unfolding log_keys_only_def by metis
    have "\<not> i < lo" "i < hi" using k i lt [of i lo] lt [of i hi] hi lo by (auto simp: not_less [symmetric])
    with i show "k \<in> set (map (RaftLogKey r) [lo..<hi])" by simp
  next
    fix k assume "k \<in> set (map (RaftLogKey r) [lo..<hi])"
    then obtain i where i: "lo \<le> i" "i < hi" "k = RaftLogKey r i" by auto
    have "GetRaftEntry B P db r i = Inr (ps_entry B P ps i)" using stored_entry [OF wf, of i] i lo by (simp add: db_def r_def)
    then have "map_of (content db) k \<noteq> None" using i get_meta [OF db, of "un_Entry P" k] by (auto simp: GetRaftEntry_def split: option.splits)
    then have "k \<in> fst ` set (bd_Items B db)" using dom by simp
    moreover have "RaftLogKey r lo \<le> k" "k < RaftLogKey r hi" using i hi lt [of i lo] lt [of i hi] by (auto simp: not_less [symmetric])
    ultimately show "k \<in> set (map fst ?xs)" by auto
  qed
qed

lemma item_content:
  assumes "ok db" "i \<in> set (bd_Items B db)"
  shows "\<exists>v w. (fst i, v) \<in> set (content db) \<and> snd i = Inr w \<and> snorm w = v"
proof -
  obtain n where n: "n < length (bd_Items B db)" "i = bd_Items B db ! n" using assms(2) by (auto simp: in_set_conv_nth)
  then have "content db ! n \<in> set (content db)" using list_all2_lengthD [OF items [OF assms(1)]] by simp
  then show ?thesis using list_all2_nthD [OF items [OF assms(1)] n(1)] n(2)
    by (cases "content db ! n"; cases i) auto
qed

lemma read_range:
  assumes wf: "peer_wf B P content ok ps" and lo: "ps_base B P ps < lo" "lo \<le> hi" "hi \<le> ps_LastIndex ps + 1"
  shows "ps_Entries B P ps lo hi = Inr (Inr (map (ps_entry B P ps) [lo..<hi]))"
proof -
  define r where "r = rg_Id (ps_region ps)"
  define db where "db = en_Raft (ps_Engines ps)"
  have db: "ok db" and last: "ps_LastIndex ps + 1 < 2 ^ 63" using wf by (simp_all add: peer_wf_def db_def)
  obtain a where a: "ps_truncatedIndex B P ps = Inr (ps_base B P ps)" using apply_state_wf [OF wf] by metis
  have chk: "ps_checkRange B P ps lo hi = Inr (Inr ())"
    using lo a by (simp add: ps_checkRange_def ps_LastIndex_def)
  let ?it = "dropWhile (\<lambda>i. fst i < RaftLogKey r lo) (bd_Items B db)"
  let ?its = "filter (\<lambda>i. RaftLogKey r lo \<le> fst i \<and> fst i < RaftLogKey r hi) (bd_Items B db)"
  have its: "takeWhile (\<lambda>i. fst i < RaftLogKey r hi) ?it = ?its" by (rule sorted_between [OF items_sorted_keys [OF db]])
  have keys: "map fst ?its = map (RaftLogKey r) [lo..<hi]"
    using range_keys [OF wf lo] unfolding r_def db_def .
  from arg_cong [OF keys, of length] have len: "length ?its = hi - lo" by (simp only: length_map length_upt)
  have "list_all2 (\<lambda>i e. \<exists>w. snd i = Inr w \<and> un_Entry P (sbytes w) = Inr e) ?its (map (ps_entry B P ps) [lo..<hi])"
    unfolding list_all2_conv_all_nth
  proof (intro conjI allI impI)
    fix j assume j: "j < length ?its"
    let ?i = "?its ! j"
    have mem: "?i \<in> set (bd_Items B db)" using nth_mem [OF j] by simp
    have key: "fst ?i = RaftLogKey r (lo + j)"
      using arg_cong [OF keys, of "\<lambda>xs. xs ! j"] j len by (simp del: upt_Suc)
    from item_content [OF db mem] obtain v w where v: "(fst ?i, v) \<in> set (content db)" "snd ?i = Inr w" "snorm w = v"
      by blast
    have "map_of (content db) (RaftLogKey r (lo + j)) = Some v"
      using v(1) key cf_sorted_distinct [OF ordered [OF db]] by (simp add: map_of_is_SomeI)
    then have "un_Entry P (sbytes v) = Inr (ps_entry B P ps (lo + j))"
      using stored_entry(1) [OF wf, of "lo + j"] lo j len get_meta [OF db, of "un_Entry P" "RaftLogKey r (lo + j)"]
      by (simp add: GetRaftEntry_def r_def db_def)
    moreover have "sbytes w = sbytes v" using v(3) by (auto simp: sbytes_def snorm_def)
    ultimately show "\<exists>w. snd ?i = Inr w \<and> un_Entry P (sbytes w) = Inr (map (ps_entry B P ps) [lo..<hi] ! j)"
      using v(2) j len by (simp del: upt_Suc)
  qed (simp add: len)
  moreover have "contiguous lo (map (ps_entry B P ps) [lo..<hi])"
    using stored_entry(2) [OF wf] lo by (simp add: contiguous_def)
  ultimately have loop: "ps_Entries_loop P ?it (RaftLogKey r hi) lo [] = Inr (map (ps_entry B P ps) [lo..<hi])"
    using entries_loop [of P "RaftLogKey r hi" ?it] its by simp
  have int: "to_int (usub hi lo) = int (hi - lo)" using lo last by (simp add: to_int_def)
  show ?thesis
    using chk loop int by (simp add: ps_Entries_def r_def db_def Let_def del: upt_Suc)
qed

text \<open>\<open>Term\<close>: the shortcuts for a log whose last term is the truncated one, and for the last entry, are exact.\<close>

lemma read_term:
  assumes wf: "peer_wf B P content ok ps"
  shows "ps_Term B P ps i = Inr (if i < ps_base B P ps then Inl ErrCompacted
     else if i = ps_base B P ps then Inr (ps_base_term B P ps)
     else if i \<le> ps_LastIndex ps then Inr (e_Term (ps_entry B P ps i))
     else Inl (ErrOther ''entries high is out of bound''))"
proof (cases "ps_base B P ps < i \<and> i \<le> ps_LastIndex ps")
  case False
  obtain a where "ps_truncatedIndex B P ps = Inr (ps_base B P ps)" "ps_truncatedTerm B P ps = Inr (ps_base_term B P ps)"
    using apply_state_wf [OF wf] by metis
  with False show ?thesis by (auto simp: ps_Term_def ps_checkRange_def ps_LastIndex_def)
next
  case True
  let ?b = "ps_base B P ps" let ?n = "ps_LastIndex ps"
  have tr: "ps_truncatedIndex B P ps = Inr ?b" "ps_truncatedTerm B P ps = Inr (ps_base_term B P ps)"
    using apply_state_wf [OF wf] by metis+
  have lt: "rl_LastTerm (ps_raftState ps) = e_Term (ps_entry B P ps ?n)" using wf True by (simp add: peer_wf_def)
  have sorted: "sorted (ps_base_term B P ps # map e_Term (ps_saved B P ps))" using wf by (simp add: peer_wf_def)
  have saved: "ps_saved B P ps ! (j - ?b - 1) = ps_entry B P ps j" "j - ?b - 1 < length (ps_saved B P ps)"
    if "?b < j" "j \<le> ?n" for j using that by (simp_all add: saved_nth saved_length)
  have between: "ps_base_term B P ps \<le> e_Term (ps_entry B P ps i)" "e_Term (ps_entry B P ps i) \<le> e_Term (ps_entry B P ps ?n)"
    using sorted saved [of i] saved [of ?n] True sorted_nth_mono [of "map e_Term (ps_saved B P ps)" "i - ?b - 1" "?n - ?b - 1"]
    by (auto dest: nth_mem)
  have get: "GetMeta B (un_Entry P) (en_Raft (ps_Engines ps)) (RaftLogKey (rg_Id (ps_region ps)) i) = Inr (ps_entry B P ps i)"
    using stored_entry(1) [OF wf, of i] True by (simp add: GetRaftEntry_def)
  show ?thesis
    using True tr lt get between by (auto simp: ps_Term_def ps_checkRange_def ps_LastIndex_def)
qed

end

sublocale peer_engine \<subseteq> peer: log_store "PeerStorage_view B P recv" "peer_wf B P content ok" "ps_base B P" "ps_base_term B P" "ps_saved B P"
proof
  fix ps assume wf: "peer_wf B P content ok ps"
  have le: "ps_base B P ps \<le> ps_LastIndex ps" by (rule base_le_last [OF wf])
  obtain a where "ps_truncatedIndex B P ps = Inr (ps_base B P ps)" using apply_state_wf [OF wf] by metis
  then show "rs_FirstIndex (PeerStorage_view B P recv ps) = Inr (ps_base B P ps + 1)"
    by (simp add: PeerStorage_view_def ps_FirstIndex_def)
  show "rs_LastIndex (PeerStorage_view B P recv ps) = Inr (ps_base B P ps + length (ps_saved B P ps))"
    using le by (simp add: PeerStorage_view_def saved_length)
  show "rs_Term (PeerStorage_view B P recv ps) (ps_base B P ps) = Inr (ps_base_term B P ps)"
    by (simp add: PeerStorage_view_def read_term [OF wf])
  show "rs_Entries (PeerStorage_view B P recv ps) (ps_base B P ps + 1) (ps_base B P ps + length (ps_saved B P ps) + 1) = Inr (Inr (ps_saved B P ps))"
    using le read_range [OF wf, of "ps_base B P ps + 1" "ps_LastIndex ps + 1"]
    by (simp add: PeerStorage_view_def saved_length ps_saved_def del: upt_Suc)
  show "contiguous (ps_base B P ps + 1) (ps_saved B P ps)" by (rule saved_run [OF wf])
  show "ps_base B P ps + length (ps_saved B P ps) < 2 ^ 64" using wf le by (simp add: saved_length peer_wf_def)
qed

interpretation list_peer: peer_engine list_badger "\<lambda>m. m" "\<lambda>m. cf_sorted m \<and> values_normal m" wide_codec
  by unfold_locales

section \<open>Saving a Ready\<close>

text \<open>What a \<open>Ready\<close> without a snapshot makes of the raft state, and the batch for the Raft engine.\<close>

definition ready_state :: "RaftLocalState \<Rightarrow> Ready \<Rightarrow> RaftLocalState" where
  "ready_state st ready =
     (let st1 = (if rdy_Entries ready = [] then st
                 else st\<lparr>rl_LastIndex := e_Index (last (rdy_Entries ready)), rl_LastTerm := e_Term (last (rdy_Entries ready))\<rparr>)
      in if rl_LastIndex st1 > 0 \<and> \<not> IsEmptyHardState (rdy_HardState ready) then st1\<lparr>rl_HardState := rdy_HardState ready\<rparr> else st1)"

definition log_batch :: "pbcodec \<Rightarrow> nat \<Rightarrow> nat \<Rightarrow> Entry list \<Rightarrow> (bytes \<times> goslice) list" where
  "log_batch P r prev es =
     (if es = [] then []
      else map (\<lambda>e. (RaftLogKey r (e_Index e), Some (pb_Entry P e))) es
         @ map (\<lambda>i. (RaftLogKey r i, None)) [e_Index (last es) + 1..<prev + 1])"

definition ready_batch :: "pbcodec \<Rightarrow> nat \<Rightarrow> RaftLocalState \<Rightarrow> Ready \<Rightarrow> (bytes \<times> goslice) list" where
  "ready_batch P r st ready = log_batch P r (rl_LastIndex st) (rdy_Entries ready)
     @ (if st \<noteq> ready_state st ready then [(RaftStateKey r, Some (pb_RaftLocalState P (ready_state st ready)))] else [])"

lemma save_unfold:
  assumes "IsEmptySnap (Some (rdy_Snapshot ready))"
  shows "\<exists>wb. wb_entries wb = ready_batch P (rg_Id (ps_region ps)) (ps_raftState ps) ready
    \<and> ps_SaveReadyState B P W ps ready = bindR (must_write B wb (en_Raft (ps_Engines ps))) (\<lambda>db.
        Inr (Inr (None, ps\<lparr>ps_raftState := ready_state (ps_raftState ps) ready,
                           ps_Engines := \<lparr>en_Kv = en_Kv (ps_Engines ps), en_Raft = db\<rparr>\<rparr>)))"
proof -
  have kv: "must_write B NewWriteBatch db = Inr db" for db
    by (simp add: must_write_def wb_MustWriteToDB_def wb_WriteToDB_def NewWriteBatch_def)
  have app: "ps_Append P ps (rdy_Entries ready) NewWriteBatch = (ps1, wb) \<Longrightarrow> rdy_Entries ready \<noteq> [] \<Longrightarrow>
      wb_entries wb = log_batch P (rg_Id (ps_region ps)) (rl_LastIndex (ps_raftState ps)) (rdy_Entries ready)
      \<and> ps1 = ps\<lparr>ps_raftState := (ps_raftState ps)\<lparr>rl_LastIndex := e_Index (last (rdy_Entries ready)), rl_LastTerm := e_Term (last (rdy_Entries ready))\<rparr>\<rparr>"
    for ps1 wb
    by (auto simp: ps_Append_def log_batch_def wb_fold_SetMeta wb_fold_DeleteMeta NewWriteBatch_def Let_def simp del: upt_Suc)
  obtain ps1 wb1 where ap: "(if length (rdy_Entries ready) \<noteq> 0 then ps_Append P ps (rdy_Entries ready) NewWriteBatch else (ps, NewWriteBatch)) = (ps1, wb1)"
    by force
  let ?st = "ready_state (ps_raftState ps) ready"
  have wb1: "wb_entries wb1 = log_batch P (rg_Id (ps_region ps)) (rl_LastIndex (ps_raftState ps)) (rdy_Entries ready)"
    using ap app by (auto simp: log_batch_def NewWriteBatch_def split: if_splits)
  have ps1: "ps_raftState ps1 = (if rdy_Entries ready = [] then ps_raftState ps else (ps_raftState ps)\<lparr>rl_LastIndex := e_Index (last (rdy_Entries ready)), rl_LastTerm := e_Term (last (rdy_Entries ready))\<rparr>)"
    "ps1\<lparr>ps_raftState := x\<rparr> = ps\<lparr>ps_raftState := x\<rparr>" "ps_region ps1 = ps_region ps" "ps_Engines ps1 = ps_Engines ps" for x
    using ap app by (auto split: if_splits)
  define ps3 where "ps3 = (if rl_LastIndex (ps_raftState ps1) > 0 \<and> \<not> IsEmptyHardState (rdy_HardState ready)
                        then ps1\<lparr>ps_raftState := (ps_raftState ps1)\<lparr>rl_HardState := rdy_HardState ready\<rparr>\<rparr> else ps1)"
  have st: "ps_raftState ps3 = ?st" using ps1(1) by (simp add: ps3_def ready_state_def Let_def)
  have "ps3 = ps1\<lparr>ps_raftState := ?st\<rparr>" unfolding st [symmetric] by (simp add: ps3_def)
  then have ps3: "ps3 = ps\<lparr>ps_raftState := ?st\<rparr>" using ps1(2) by simp
  define wb where "wb = (if ps_raftState ps \<noteq> ps_raftState ps3
      then wb_SetMeta (pb_RaftLocalState P) wb1 (RaftStateKey (rg_Id (ps_region ps3))) (ps_raftState ps3) else wb1)"
  have "wb_entries wb = ready_batch P (rg_Id (ps_region ps)) (ps_raftState ps) ready"
    by (simp add: wb_def ps3 wb1 ready_batch_def wb_SetMeta_def wb_add_def Let_def)
  moreover have "ps_SaveReadyState B P W ps ready = bindR (must_write B wb (en_Raft (ps_Engines ps))) (\<lambda>db.
        Inr (Inr (None, ps3\<lparr>ps_Engines := \<lparr>en_Kv = en_Kv (ps_Engines ps), en_Raft = db\<rparr>\<rparr>)))"
    using assms ap unfolding ps_SaveReadyState_def
    by (simp add: kv Let_def flip: ps3_def) (simp add: ps3 wb_def)
  ultimately show ?thesis by (intro exI [of _ wb]) (simp add: ps3)
qed

text \<open>The batch by key.\<close>

lemma entries_batch_lookup:
  assumes "r < 2 ^ 64" "i < 2 ^ 64" "contiguous a es" "a + length es \<le> 2 ^ 64"
  shows "map_of (rev (map (\<lambda>e. (RaftLogKey r (e_Index e), Some (f e))) es)) (RaftLogKey r i) =
    (if a \<le> i \<and> i < a + length es then Some (Some (f (es ! (i - a)))) else None)"
  using assms(3,4)
proof (induction es rule: rev_induct)
  case (snoc e es)
  then have "RaftLogKey r (e_Index e) = RaftLogKey r i \<longleftrightarrow> a + length es = i"
    using log_key_eq [OF assms(1,1), of "e_Index e" i] assms(2) by simp
  with snoc show ?case by (auto simp: nth_append)
qed simp

lemma deletes_lookup:
  assumes "r < 2 ^ 64" "i < 2 ^ 64" "y \<le> 2 ^ 64"
  shows "map_of (rev (map (\<lambda>i. (RaftLogKey r i, None :: goslice)) [x..<y])) (RaftLogKey r i) = (if x \<le> i \<and> i < y then Some None else None)"
  using assms(3)
proof (induction y)
  case (Suc y)
  then show ?case using log_key_eq [OF assms(1,1), of y i] assms(2) by auto
qed simp

lemma log_batch_lookup:
  assumes "r < 2 ^ 64" "i < 2 ^ 64" "contiguous a es" "a + length es \<le> 2 ^ 64" "prev < 2 ^ 64" "es \<noteq> []"
  shows "map_of (rev (log_batch P r prev es)) (RaftLogKey r i) =
    (if a + length es \<le> i \<and> i \<le> prev then Some None
     else if a \<le> i \<and> i < a + length es then Some (Some (pb_Entry P (es ! (i - a)))) else None)"
proof -
  have last: "e_Index (last es) + 1 = a + length es"
    using assms(3,6) by (simp add: contiguous_def last_conv_nth)
  show ?thesis
    unfolding log_batch_def last using assms deletes_lookup [of r i "prev + 1" "a + length es"] entries_batch_lookup [of r i a es "pb_Entry P"]
    by (auto simp: map_add_def simp del: upt_Suc rev_map)
qed

lemma log_batch_keys: "k \<in> fst ` set (log_batch P r prev es) \<Longrightarrow> \<exists>i \<in> e_Index ` set es \<union> {..prev}. k = RaftLogKey r i"
  by (force simp: log_batch_def simp del: upt_Suc split: if_splits)

lemma log_batch_other: "k \<notin> fst ` set (log_batch P r prev es) \<Longrightarrow> map_of (rev (log_batch P r prev es)) k = None"
  by (simp add: map_of_eq_None_iff)

text \<open>The result is well-formed, with the entries from the first new one on replaced.\<close>

definition new_log :: "nat \<Rightarrow> Entry list \<Rightarrow> Entry list \<Rightarrow> Entry list" where
  "new_log base log es = (case es of [] \<Rightarrow> log | e # _ \<Rightarrow> take (e_Index e - base - 1) log @ map entry_norm es)"

text \<open>
  What the Raft node guarantees of the entries it hands over: a run that starts above the applied
  index and leaves no gap, with terms that continue those of the log.
\<close>

definition fits_log :: "'db badger \<Rightarrow> pbcodec \<Rightarrow> 'db PeerStorage \<Rightarrow> Entry list \<Rightarrow> bool" where
  "fits_log B P ps es \<longleftrightarrow>
     es = [] \<or> (\<exists>a. contiguous a es \<and> (\<forall>applied. ps_AppliedIndex B P ps = Inr applied \<longrightarrow> applied < a) \<and> a \<le> ps_LastIndex ps + 1
       \<and> a + length es < 2 ^ 63 \<and> (\<forall>e \<in> set es. u64 (e_Term e))
       \<and> sorted (ps_base_term B P ps # map e_Term (new_log (ps_base B P ps) (ps_saved B P ps) es)))"

definition hard_u64 :: "HardState \<Rightarrow> bool" where
  "hard_u64 hs \<longleftrightarrow> u64 (hs_Term hs) \<and> u64 (hs_Vote hs) \<and> u64 (hs_Commit hs)"

context peer_engine
begin

lemma must_write_cases:
  assumes "ok db"
  shows "(\<exists>e. bd_Update B db (map entry_op (wb_entries wb)) = Inl e \<and> must_write B wb db = Inl (RPanic ''write to db''))
    \<or> (\<exists>db'. must_write B wb db = Inr db' \<and> ok db'
        \<and> (\<forall>k. map_of (content db') k = (case map_of (rev (wb_entries wb)) k of
            None \<Rightarrow> map_of (content db) k | Some v \<Rightarrow> if sbytes v = [] then None else Some v)))"
proof (cases "wb_entries wb = []")
  case True
  then show ?thesis using assms by (simp add: must_write_def wb_MustWriteToDB_def wb_WriteToDB_def)
next
  case False
  then show ?thesis using update [OF assms, of "map entry_op (wb_entries wb)"]
    by (cases "bd_Update B db (map entry_op (wb_entries wb))")
       (auto simp: must_write_def wb_MustWriteToDB_def wb_WriteToDB_def batch_lookup)
qed

lemma applied_index:
  assumes "peer_wf B P content ok ps"
  obtains i where "ps_AppliedIndex B P ps = Inr i" "ps_base B P ps \<le> i" "i \<le> ps_LastIndex ps"
proof -
  obtain a where "ps_applyState B P ps = Inr a" "ps_base B P ps \<le> ra_AppliedIndex a" "ra_AppliedIndex a \<le> ps_LastIndex ps"
    using apply_state_wf [OF assms] by metis
  then show ?thesis using that [of "ra_AppliedIndex a"] by (simp add: ps_AppliedIndex_def)
qed

lemma fits_cases:
  assumes "peer_wf B P content ok ps" "fits_log B P ps es" "es \<noteq> []"
  obtains a where "contiguous a es" "ps_base B P ps < a" "a \<le> ps_LastIndex ps + 1" "a + length es < 2 ^ 63"
    "ps_AppliedIndex B P ps = Inr i \<Longrightarrow> i < a" "\<forall>e \<in> set es. entry_u64 e" "e_Index (last es) + 1 = a + length es"
    "new_log (ps_base B P ps) (ps_saved B P ps) es = take (a - ps_base B P ps - 1) (ps_saved B P ps) @ map entry_norm es"
proof -
  obtain a where a: "contiguous a es" "a \<le> ps_LastIndex ps + 1" "a + length es < 2 ^ 63"
    "\<forall>applied. ps_AppliedIndex B P ps = Inr applied \<longrightarrow> applied < a" "\<forall>e \<in> set es. u64 (e_Term e)"
    using assms(2,3) by (auto simp: fits_log_def)
  have "ps_base B P ps < a" using applied_index [OF assms(1)] a(4) by (metis order_le_less_trans)
  moreover have "e_Index (last es) + 1 = a + length es" using a(1) assms(3) by (simp add: contiguous_def last_conv_nth)
  moreover have "\<forall>e \<in> set es. entry_u64 e"
  proof
    fix e assume e: "e \<in> set es"
    then obtain j where "j < length es" "e = es ! j" by (metis in_set_conv_nth)
    then have "e_Index e < 2 ^ 63" using a(1,3) by (simp add: contiguous_def)
    then show "entry_u64 e" using e a(5) by (simp add: entry_u64_def u64_def)
  qed
  moreover have "new_log (ps_base B P ps) (ps_saved B P ps) es = take (a - ps_base B P ps - 1) (ps_saved B P ps) @ map entry_norm es"
    using a(1) assms(3) by (cases es) (simp_all add: new_log_def)
  ultimately show ?thesis using a that by blast
qed

text \<open>The raft state after saving: its last index is the end of the new log.\<close>

lemma ready_state_last:
  assumes "peer_wf B P content ok ps" "fits_log B P ps (rdy_Entries ready)"
  shows "rl_LastIndex (ready_state (ps_raftState ps) ready)
      = ps_base B P ps + length (new_log (ps_base B P ps) (ps_saved B P ps) (rdy_Entries ready))
    \<and> 0 < rl_LastIndex (ready_state (ps_raftState ps) ready) \<and> rl_LastIndex (ready_state (ps_raftState ps) ready) + 1 < 2 ^ 63
    \<and> (\<forall>i. ps_AppliedIndex B P ps = Inr i \<longrightarrow> i \<le> rl_LastIndex (ready_state (ps_raftState ps) ready))"
proof -
  let ?es = "rdy_Entries ready"
  have last: "0 < ps_LastIndex ps" "ps_LastIndex ps + 1 < 2 ^ 63" "ps_base B P ps \<le> ps_LastIndex ps"
    using assms(1) base_le_last by (simp_all add: peer_wf_def)
  have st: "rl_LastIndex (ready_state (ps_raftState ps) ready) = (if ?es = [] then ps_LastIndex ps else e_Index (last ?es))"
    by (simp add: ready_state_def ps_LastIndex_def Let_def)
  show ?thesis
  proof (cases "?es = []")
    case True
    obtain i where "ps_AppliedIndex B P ps = Inr i" "i \<le> ps_LastIndex ps" using applied_index [OF assms(1)] by metis
    then show ?thesis using True st last by (simp add: new_log_def saved_length)
  next
    case False
    obtain i where i: "ps_AppliedIndex B P ps = Inr i" using applied_index [OF assms(1)] by metis
    from fits_cases [OF assms False, of i] obtain a where "ps_base B P ps < a" "a \<le> ps_LastIndex ps + 1" "a + length ?es < 2 ^ 63"
      "i < a" "e_Index (last ?es) + 1 = a + length ?es"
      "new_log (ps_base B P ps) (ps_saved B P ps) ?es = take (a - ps_base B P ps - 1) (ps_saved B P ps) @ map entry_norm ?es"
      using i by metis
    moreover obtain n where "length ?es = Suc n" using False by (cases ?es) simp_all
    ultimately show ?thesis using False st i by (simp add: saved_length)
  qed
qed

text \<open>Every key of the Raft engine after the batch of a Ready.\<close>

lemma ready_lookup:
  assumes wf: "peer_wf B P content ok ps" and fits: "fits_log B P ps (rdy_Entries ready)"
    and m': "\<forall>k. map_of m' k = (case map_of (rev (ready_batch P (rg_Id (ps_region ps)) (ps_raftState ps) ready)) k of
            None \<Rightarrow> map_of (content (en_Raft (ps_Engines ps))) k | Some v \<Rightarrow> if sbytes v = [] then None else Some v)"
  defines "r \<equiv> rg_Id (ps_region ps)" and "m \<equiv> content (en_Raft (ps_Engines ps))" and "es \<equiv> rdy_Entries ready" and "st \<equiv> ready_state (ps_raftState ps) ready"
  shows "map_of m' (RaftStateKey r) = (if ps_raftState ps = st then map_of m (RaftStateKey r) else Some (Some (pb_RaftLocalState P st)))"
    and "es = [] \<Longrightarrow> map_of m' (RaftLogKey r i) = map_of m (RaftLogKey r i)"
    and "contiguous a es \<Longrightarrow> es \<noteq> [] \<Longrightarrow> 0 < a \<Longrightarrow> a + length es < 2 ^ 63 \<Longrightarrow> i \<le> rl_LastIndex st \<Longrightarrow>
      map_of m' (RaftLogKey r i) = (if i < a then map_of m (RaftLogKey r i) else Some (Some (pb_Entry P (es ! (i - a)))))"
    and "log_keys_only r m'"
proof -
  have r: "r < 2 ^ 64" and last: "rl_LastIndex (ps_raftState ps) < 2 ^ 64" and own: "log_keys_only r m"
    using wf by (simp_all add: peer_wf_def u64_def r_def m_def ps_LastIndex_def)
  have look: "map_of (rev (ready_batch P r (ps_raftState ps) ready)) k =
     (if k = RaftStateKey r \<and> ps_raftState ps \<noteq> st then Some (Some (pb_RaftLocalState P st)) else map_of (rev (log_batch P r (rl_LastIndex (ps_raftState ps)) es)) k)" for k
    by (simp add: ready_batch_def st_def es_def)
  have no_state: "map_of (rev (log_batch P r n es)) (RaftStateKey r) = None" for n
    using log_batch_keys [of "RaftStateKey r" P r n es] log_batch_other [of "RaftStateKey r" P r n es] by auto
  show "map_of m' (RaftStateKey r) = (if ps_raftState ps = st then map_of m (RaftStateKey r) else Some (Some (pb_RaftLocalState P st)))"
    using m' [folded r_def m_def] local_full no_state by (simp add: look sbytes_def)
  show "map_of m' (RaftLogKey r i) = map_of m (RaftLogKey r i)" if "es = []" for i
    using m' [folded r_def m_def] that by (simp add: look log_batch_def)
  show "map_of m' (RaftLogKey r i) = (if i < a then map_of m (RaftLogKey r i) else Some (Some (pb_Entry P (es ! (i - a)))))"
    if a: "contiguous a es" "es \<noteq> []" "0 < a" "a + length es < 2 ^ 63" "i \<le> rl_LastIndex st" for i a
  proof -
    have "rl_LastIndex st = e_Index (last es)" using a(2) by (simp add: st_def ready_state_def es_def Let_def)
    moreover have "e_Index (last es) + 1 = a + length es" using a(1,2) by (simp add: contiguous_def last_conv_nth)
    ultimately have i: "i < a + length es" using a(5) by simp
    have "pb_Entry P (es ! (i - a)) \<noteq> []" if "a \<le> i"
      using that i a(1,3) entry_full [of "es ! (i - a)"] by (simp add: contiguous_def)
    then show ?thesis
      using m' [folded r_def m_def] log_batch_lookup [OF r, of i a es "rl_LastIndex (ps_raftState ps)" P] a i last
      by (simp add: look sbytes_def)
  qed
  show "log_keys_only r m'"
    unfolding log_keys_only_def
  proof (intro allI impI)
    fix k assume k: "map_of m' k \<noteq> None" "hasPrefix k (log_prefix r)"
    show "\<exists>i < 2 ^ 64. k = RaftLogKey r i"
    proof (cases "k \<in> fst ` set (log_batch P r (rl_LastIndex (ps_raftState ps)) es)")
      case True
      then obtain i where i: "i \<in> e_Index ` set es \<union> {..rl_LastIndex (ps_raftState ps)}" "k = RaftLogKey r i" using log_batch_keys by metis
      have "e_Index e < 2 ^ 64" if "e \<in> set es" for e
        using fits_cases [OF wf fits, of 0] that unfolding es_def by (metis empty_iff empty_set entry_u64_def u64_def)
      then have "i < 2 ^ 64" using i(1) last by auto
      with i(2) show ?thesis by blast
    next
      case False
      then have "map_of m k \<noteq> None"
        using k m' [folded r_def m_def] state_key_no_log_prefix log_batch_other [OF False] by (auto simp: look split: if_splits)
      with own k(2) show ?thesis by (simp add: log_keys_only_def)
    qed
  qed
qed

lemma read_saved_local:
  assumes "ok db" "map_of (content db) (RaftStateKey r) = Some (Some (pb_RaftLocalState P st))" "local_u64 st"
  shows "GetRaftLocalState B P db r = Inr st"
  using assms local_state by (simp add: GetRaftLocalState_def get_meta sbytes_def)

lemma ready_state_u64:
  assumes "peer_wf B P content ok ps" "fits_log B P ps (rdy_Entries ready)" "hard_u64 (rdy_HardState ready)"
  shows "local_u64 (ready_state (ps_raftState ps) ready)"
proof -
  have old: "local_u64 (ps_raftState ps)" using assms(1) by (simp add: peer_wf_def)
  have "u64 (e_Term (last (rdy_Entries ready)))" if "rdy_Entries ready \<noteq> []"
    using fits_cases [OF assms(1,2) that, of 0] that by (metis entry_u64_def last_in_set)
  moreover have "u64 (rl_LastIndex (ready_state (ps_raftState ps) ready))"
    using ready_state_last [OF assms(1,2)] by (simp add: u64_def)
  ultimately show ?thesis using old assms(3) by (auto simp: local_u64_def ready_state_def hard_u64_def Let_def split: if_splits)
qed

text \<open>The storage after the write.\<close>

lemma save_wf:
  assumes wf: "peer_wf B P content ok ps" and fits: "fits_log B P ps (rdy_Entries ready)" and hs: "hard_u64 (rdy_HardState ready)"
    and db: "ok db'" and m': "\<forall>k. map_of (content db') k =
      (case map_of (rev (ready_batch P (rg_Id (ps_region ps)) (ps_raftState ps) ready)) k of
            None \<Rightarrow> map_of (content (en_Raft (ps_Engines ps))) k | Some v \<Rightarrow> if sbytes v = [] then None else Some v)"
  defines "ps' \<equiv> ps\<lparr>ps_raftState := ready_state (ps_raftState ps) ready, ps_Engines := \<lparr>en_Kv = en_Kv (ps_Engines ps), en_Raft = db'\<rparr>\<rparr>"
  shows "peer_wf B P content ok ps' \<and> ps_base B P ps' = ps_base B P ps \<and> ps_base_term B P ps' = ps_base_term B P ps
    \<and> ps_saved B P ps' = new_log (ps_base B P ps) (ps_saved B P ps) (rdy_Entries ready)"
proof -
  let ?es = "rdy_Entries ready" let ?r = "rg_Id (ps_region ps)" let ?b = "ps_base B P ps"
  let ?log = "new_log ?b (ps_saved B P ps) ?es"
  note look = ready_lookup [OF wf fits m']
  note last = ready_state_last [OF wf fits]
  have same: "ps_applyState B P ps' = ps_applyState B P ps" by (simp add: ps_applyState_def ps'_def)
  then have base: "ps_base B P ps' = ?b" "ps_base_term B P ps' = ps_base_term B P ps"
    by (simp_all add: ps_base_def ps_base_term_def ps_truncatedIndex_def ps_truncatedTerm_def)
  have oldok: "ok (en_Raft (ps_Engines ps))" using wf by (simp add: peer_wf_def)
  have entries: "GetRaftEntry B P db' ?r i = Inr (?log ! (i - ?b - 1)) \<and> e_Index (?log ! (i - ?b - 1)) = i"
    if i: "?b < i" "i \<le> rl_LastIndex (ready_state (ps_raftState ps) ready)" for i
  proof (cases "?es = []")
    case True
    then have "i \<le> ps_LastIndex ps" using i by (simp add: ready_state_def ps_LastIndex_def Let_def split: if_splits)
    then show ?thesis
      using True i look(2) [OF True, of i] stored_entry [OF wf, of i] saved_nth [of "i - ?b - 1" ps]
      by (simp add: GetRaftEntry_def get_meta [OF db] get_meta [OF oldok] new_log_def)
  next
    case False
    then obtain a where a: "contiguous a ?es" "?b < a" "a \<le> ps_LastIndex ps + 1" "a + length ?es < 2 ^ 63" "\<forall>e \<in> set ?es. entry_u64 e"
      "?log = take (a - ?b - 1) (ps_saved B P ps) @ map entry_norm ?es" "e_Index (last ?es) + 1 = a + length ?es"
      using fits_cases [OF wf fits, of 0] by metis
    have get: "map_of (content db') (RaftLogKey ?r i) = (if i < a then map_of (content (en_Raft (ps_Engines ps))) (RaftLogKey ?r i) else Some (Some (pb_Entry P (?es ! (i - a)))))"
      using look(3) [OF a(1) False _ a(4) i(2)] a(2) by simp
    have len: "length (take (a - ?b - 1) (ps_saved B P ps)) = a - ?b - 1" using a(2,3) by (simp add: saved_length)
    show ?thesis
    proof (cases "i < a")
      case True
      then have "i - ?b - 1 < a - ?b - 1" "i - ?b - 1 < ps_LastIndex ps - ?b" using i a(3) by linarith+
      then show ?thesis
        using True get i a(3) len stored_entry [OF wf, of i] saved_nth [of "i - ?b - 1" ps] unfolding a(6)
        by (simp add: GetRaftEntry_def get_meta [OF db] get_meta [OF oldok] nth_append)
    next
      case ge: False
      have "rl_LastIndex (ready_state (ps_raftState ps) ready) = e_Index (last ?es)" using False by (simp add: ready_state_def Let_def)
      then have j: "i - a < length ?es" using i ge a(7) by simp
      then have "GetRaftEntry B P db' ?r i = Inr (entry_norm (?es ! (i - a)))"
        using get ge a(5) entry by (simp add: GetRaftEntry_def get_meta [OF db] sbytes_def)
      moreover have "?log ! (i - ?b - 1) = entry_norm (?es ! (i - a))"
        using ge a(2) len j i unfolding a(6) by (simp add: nth_append)
      moreover have "e_Index (entry_norm (?es ! (i - a))) = i" using j ge a(1) by (simp add: contiguous_def entry_norm_def)
      ultimately show ?thesis by simp
    qed
  qed
  have lastps: "ps_LastIndex ps' = rl_LastIndex (ready_state (ps_raftState ps) ready)" by (simp add: ps'_def ps_LastIndex_def)
  have ent: "ps_entry B P ps' i = ?log ! (i - ?b - 1)" if "?b < i" "i \<le> ps_LastIndex ps'" for i
    using entries that lastps by (simp add: ps_entry_def ps'_def)
  have saved: "ps_saved B P ps' = ?log"
    using last lastps base ent saved_nth [of _ ps'] by (intro nth_equalityI) (simp_all add: saved_length)
  show ?thesis
  proof (intro conjI base saved)
    have "sorted (ps_base_term B P ps # map e_Term ?log)"
    proof (cases "?es = []")
      case True
      then show ?thesis using wf by (simp add: new_log_def peer_wf_def)
    qed (use fits in \<open>auto simp: fits_log_def\<close>)
    moreover have "rl_LastTerm (ready_state (ps_raftState ps) ready) = e_Term (ps_entry B P ps' (ps_LastIndex ps'))" if "?b < ps_LastIndex ps'"
    proof (cases "?es = []")
      case True
      then have "ps_LastIndex ps' = ps_LastIndex ps" "?log = ps_saved B P ps" using lastps by (simp_all add: ready_state_def ps_LastIndex_def new_log_def Let_def)
      then show ?thesis using True that ent [of "ps_LastIndex ps'"] wf saved_nth [of "ps_LastIndex ps - ?b - 1" ps]
        by (simp add: peer_wf_def ready_state_def Let_def)
    next
      case False
      then have "?log \<noteq> []" "last ?log = entry_norm (last ?es)" by (auto simp: new_log_def last_map split: list.splits)
      then have "?log ! (ps_LastIndex ps' - ?b - 1) = entry_norm (last ?es)" using last lastps by (simp add: last_conv_nth)
      then show ?thesis using that ent [of "ps_LastIndex ps'"] False by (simp add: ready_state_def entry_norm_def Let_def)
    qed
    moreover have "GetRaftLocalState B P db' ?r = Inr (ready_state (ps_raftState ps) ready)"
    proof (cases "ps_raftState ps = ready_state (ps_raftState ps) ready")
      case True
      then have "GetRaftLocalState B P db' ?r = GetRaftLocalState B P (en_Raft (ps_Engines ps)) ?r"
        using look(1) by (simp add: GetRaftLocalState_def get_meta [OF db] get_meta [OF oldok])
      then show ?thesis using True wf by (simp add: peer_wf_def)
    qed (use look(1) read_saved_local [OF db] ready_state_u64 [OF wf fits hs] in simp)
    moreover obtain a where a: "GetApplyState B P (en_Kv (ps_Engines ps)) ?r = Inr a" "ps_applyState B P ps = Inr a"
      "ps_base B P ps \<le> ra_AppliedIndex a" "ps_base B P ps = rt_Index (ra_TruncatedState a)"
      using apply_state_wf [OF wf] by metis
    moreover have "ps_AppliedIndex B P ps = Inr (ra_AppliedIndex a)" using a(2) by (simp add: ps_AppliedIndex_def)
    ultimately show "peer_wf B P content ok ps'"
      using wf last lastps db look(4) base saved ready_state_u64 [OF wf fits hs] entries
      by (auto simp: peer_wf_def ps'_def)
  qed
qed

lemma reopen:
  assumes wf: "peer_wf B P content ok ps"
  shows "NewPeerStorage B P (ps_Engines ps) (ps_region ps) peerID = Inr (Inr (ps\<lparr>ps_peerID := peerID, ps_snapState := SnapState_Relax,
     ps_regionSched := [], ps_snapTriedCnt := 0\<rparr>))"
proof -
  obtain a where "GetApplyState B P (en_Kv (ps_Engines ps)) (rg_Id (ps_region ps)) = Inr a" "ra_AppliedIndex a \<le> ps_LastIndex ps"
    using apply_state_wf [OF wf] by metis
  then show ?thesis
    using wf by (simp add: NewPeerStorage_def InitRaftLocalState_def InitApplyState_def peer_wf_def ps_LastIndex_def)
qed

lemma reopen_wf: "peer_wf B P content ok ps \<Longrightarrow> peer_wf B P content ok (ps\<lparr>ps_peerID := p, ps_snapState := s, ps_regionSched := t, ps_snapTriedCnt := n\<rparr>)"
  by (simp add: peer_wf_def ps_base_def ps_base_term_def ps_truncatedIndex_def ps_truncatedTerm_def ps_applyState_def ps_saved_def
      ps_entry_def [abs_def] ps_LastIndex_def del: upt_Suc)

lemma save_ready:
  assumes wf: "peer_wf B P content ok ps" and snap: "IsEmptySnap (Some (rdy_Snapshot ready))"
    and fits: "fits_log B P ps (rdy_Entries ready)" and hs: "hard_u64 (rdy_HardState ready)"
  shows "(\<exists>e. bd_Update B (en_Raft (ps_Engines ps)) (map entry_op (ready_batch P (rg_Id (ps_region ps)) (ps_raftState ps) ready)) = Inl e
      \<and> ps_SaveReadyState B P W ps ready = Inl (RPanic ''write to db''))
    \<or> (\<exists>ps' ps'' l. ps_SaveReadyState B P W ps ready = Inr (Inr (None, ps')) \<and> peer_wf B P content ok ps'
        \<and> ps_raftState ps' = ready_state (ps_raftState ps) ready
        \<and> NewPeerStorage B P (ps_Engines ps') (ps_region ps') (ps_peerID ps') = Inr (Inr ps'')
        \<and> ps_raftState ps'' = ps_raftState ps' \<and> newLog (PeerStorage_view B P recv ps'') = Inr l
        \<and> log_wf l \<and> lg_entries l = new_log (ps_base B P ps) (ps_saved B P ps) (rdy_Entries ready)
        \<and> lg_snapIndex l = ps_base B P ps \<and> lg_snapTerm l = ps_base_term B P ps)"
proof -
  have db: "ok (en_Raft (ps_Engines ps))" using wf by (simp add: peer_wf_def)
  obtain wb where wb: "wb_entries wb = ready_batch P (rg_Id (ps_region ps)) (ps_raftState ps) ready"
    "ps_SaveReadyState B P W ps ready = bindR (must_write B wb (en_Raft (ps_Engines ps))) (\<lambda>db.
        Inr (Inr (None, ps\<lparr>ps_raftState := ready_state (ps_raftState ps) ready, ps_Engines := \<lparr>en_Kv = en_Kv (ps_Engines ps), en_Raft = db\<rparr>\<rparr>)))"
    using save_unfold [OF snap] by blast
  from must_write_cases [OF db, of wb] show ?thesis
  proof (elim disjE exE conjE)
    fix e assume "bd_Update B (en_Raft (ps_Engines ps)) (map entry_op (wb_entries wb)) = Inl e"
      "must_write B wb (en_Raft (ps_Engines ps)) = Inl (RPanic ''write to db'')"
    with wb show ?thesis by simp
  next
    fix db' assume w: "must_write B wb (en_Raft (ps_Engines ps)) = Inr db'" and db': "ok db'"
      and m': "\<forall>k. map_of (content db') k = (case map_of (rev (wb_entries wb)) k of
            None \<Rightarrow> map_of (content (en_Raft (ps_Engines ps))) k | Some v \<Rightarrow> if sbytes v = [] then None else Some v)"
    define ps' where "ps' = ps\<lparr>ps_raftState := ready_state (ps_raftState ps) ready, ps_Engines := \<lparr>en_Kv = en_Kv (ps_Engines ps), en_Raft = db'\<rparr>\<rparr>"
    have res: "ps_SaveReadyState B P W ps ready = Inr (Inr (None, ps'))" using wb(2) w by (simp add: ps'_def)
    have ok': "peer_wf B P content ok ps'" "ps_base B P ps' = ps_base B P ps" "ps_base_term B P ps' = ps_base_term B P ps"
      "ps_saved B P ps' = new_log (ps_base B P ps) (ps_saved B P ps) (rdy_Entries ready)"
      using save_wf [OF wf fits hs db' m' [unfolded wb(1)]] by (simp_all add: ps'_def)
    define ps'' where "ps'' = ps'\<lparr>ps_peerID := ps_peerID ps', ps_snapState := SnapState_Relax, ps_regionSched := [], ps_snapTriedCnt := 0\<rparr>"
    have wf'': "peer_wf B P content ok ps''" unfolding ps''_def by (rule reopen_wf [OF ok'(1)])
    have re: "NewPeerStorage B P (ps_Engines ps') (ps_region ps') (ps_peerID ps') = Inr (Inr ps'')"
      using reopen [OF ok'(1), of "ps_peerID ps'"] by (simp add: ps''_def)
    have log: "ps_base B P ps'' = ps_base B P ps'" "ps_base_term B P ps'' = ps_base_term B P ps'" "ps_saved B P ps'' = ps_saved B P ps'"
      by (simp_all add: ps''_def ps_base_def ps_base_term_def ps_truncatedIndex_def ps_truncatedTerm_def ps_applyState_def ps_saved_def
          ps_entry_def [abs_def] ps_LastIndex_def del: upt_Suc)
    have st: "ps_raftState ps' = ready_state (ps_raftState ps) ready" "ps_raftState ps'' = ps_raftState ps'"
      by (simp_all add: ps'_def ps''_def)
    obtain l where l: "newLog (PeerStorage_view B P recv ps'') = Inr l" "lg_entries l = ps_saved B P ps''"
      "lg_snapIndex l = ps_base B P ps''" "lg_snapTerm l = ps_base_term B P ps''"
      using peer.new_log [OF wf'', of recv] by simp
    show ?thesis using res ok' st log re l peer.new_log_wf [OF wf'' l(1)] by auto
  qed
qed

text \<open>A peer of a new region, opened on engines that hold nothing of the region.\<close>

lemma put_meta:
  assumes "ok db" "PutMeta B f db k x = Inr db'" "f x \<noteq> []"
  shows "ok db' \<and> map_of (content db') = (map_of (content db))(k \<mapsto> Some (f x))"
  using update [OF assms(1), of "[BSet k (Some (f x))]" db'] assms(2,3) by (simp add: PutMeta_def apply_op_def)

lemma new_peer_wf:
  assumes ok: "ok (en_Kv en)" "ok (en_Raft en)" and region: "u64 (rg_Id region)" "rg_Peers region \<noteq> []"
    and fresh: "map_of (content (en_Kv en)) (ApplyStateKey (rg_Id region)) = None"
      "map_of (content (en_Raft en)) (RaftStateKey (rg_Id region)) = None"
      "\<forall>k. hasPrefix k (log_prefix (rg_Id region)) \<longrightarrow> map_of (content (en_Raft en)) k = None"
    and new: "NewPeerStorage B P en region peerID = Inr (Inr ps)"
  shows "peer_wf B P content ok ps \<and> ps_base B P ps = RaftInitLogIndex \<and> ps_base_term B P ps = RaftInitLogTerm \<and> ps_saved B P ps = []"
proof -
  let ?r = "rg_Id region"
  define st where "st = \<lparr>rl_HardState = \<lparr>hs_Term = RaftInitLogTerm, hs_Vote = 0, hs_Commit = RaftInitLogIndex\<rparr>,
      rl_LastIndex = RaftInitLogIndex, rl_LastTerm = RaftInitLogTerm\<rparr>"
  define a where "a = \<lparr>ra_AppliedIndex = RaftInitLogIndex, ra_TruncatedState = \<lparr>rt_Index = RaftInitLogIndex, rt_Term = RaftInitLogTerm\<rparr>\<rparr>"
  have "GetRaftLocalState B P (en_Raft en) ?r = Inl ErrKeyNotFound" "GetApplyState B P (en_Kv en) ?r = Inl ErrKeyNotFound"
    using fresh by (simp_all add: GetRaftLocalState_def GetApplyState_def get_meta [OF ok(1)] get_meta [OF ok(2)])
  then obtain raftDB kvDB where put: "PutMeta B (pb_RaftLocalState P) (en_Raft en) (RaftStateKey ?r) st = Inr raftDB"
      "PutMeta B (pb_RaftApplyState P) (en_Kv en) (ApplyStateKey ?r) a = Inr kvDB"
    and ps: "ps_region ps = region" "ps_raftState ps = st" "ps_Engines ps = \<lparr>en_Kv = kvDB, en_Raft = raftDB\<rparr>"
    using new region(2) unfolding NewPeerStorage_def InitRaftLocalState_def InitApplyState_def
    by (auto simp: st_def a_def bindR_def Let_def split: sum.splits if_splits)
  note raft = put_meta [OF ok(2) put(1) local_full] and kv = put_meta [OF ok(1) put(2) apply_full]
  have u: "local_u64 st" "apply_u64 a" by (simp_all add: st_def a_def local_u64_def apply_u64_def u64_def RaftInitLogTerm_def RaftInitLogIndex_def)
  have get: "GetApplyState B P kvDB ?r = Inr a" "GetRaftLocalState B P raftDB ?r = Inr st"
    using raft kv u local_state apply_state by (simp_all add: GetApplyState_def GetRaftLocalState_def get_meta sbytes_def)
  have base: "ps_base B P ps = RaftInitLogIndex" "ps_base_term B P ps = RaftInitLogTerm" "ps_LastIndex ps = RaftInitLogIndex"
    using get(1) ps by (simp_all add: ps_base_def ps_base_term_def ps_truncatedIndex_def ps_truncatedTerm_def ps_applyState_def ps_LastIndex_def a_def st_def)
  have saved: "ps_saved B P ps = []" using base by (simp add: ps_saved_def)
  have "log_keys_only ?r (content raftDB)" using raft fresh(3) state_key_no_log_prefix [of ?r] by (auto simp: log_keys_only_def)
  then have "peer_wf B P content ok ps"
    using raft kv get u region base saved ps by (auto simp: peer_wf_def a_def RaftInitLogIndex_def)
  with base saved show ?thesis by simp
qed

end

section \<open>Properties\<close>

text \<open>
  C11. \<open>SaveReadyState\<close> of a \<open>Ready\<close> without a snapshot, over a database and an encoding that behave as
  documented: unless the database refuses the write, in which case the process ends, the peer is
  well-formed again, its log is the old one with everything from the first new entry on replaced by
  the new entries, its last index, last term and hard state are those of the \<open>Ready\<close>; and a storage
  opened on the saved engines has the same raft state and gives a Raft node exactly that log.
\<close>

theorem ready_survives_restart:
  assumes "badger_spec B content good" "pb_spec P" "peer_wf B P content good ps"
    and "IsEmptySnap (Some (rdy_Snapshot ready))" "fits_log B P ps (rdy_Entries ready)" "hard_u64 (rdy_HardState ready)"
  shows "(\<exists>e. bd_Update B (en_Raft (ps_Engines ps)) (map entry_op (ready_batch P (rg_Id (ps_region ps)) (ps_raftState ps) ready)) = Inl e
      \<and> ps_SaveReadyState B P W ps ready = Inl (RPanic ''write to db''))
    \<or> (\<exists>ps' ps'' l. ps_SaveReadyState B P W ps ready = Inr (Inr (None, ps')) \<and> peer_wf B P content good ps'
        \<and> ps_raftState ps' = ready_state (ps_raftState ps) ready
        \<and> NewPeerStorage B P (ps_Engines ps') (ps_region ps') (ps_peerID ps') = Inr (Inr ps'')
        \<and> ps_raftState ps'' = ps_raftState ps' \<and> newLog (PeerStorage_view B P recv ps'') = Inr l
        \<and> log_wf l \<and> lg_entries l = new_log (ps_base B P ps) (ps_saved B P ps) (rdy_Entries ready)
        \<and> lg_snapIndex l = ps_base B P ps \<and> lg_snapTerm l = ps_base_term B P ps)"
proof -
  have eng: "peer_engine B content good P" using assms(1,2) by (simp add: peer_engine_def)
  show ?thesis by (rule peer_engine.save_ready [OF eng assms(3-6)])
qed

text \<open>A region of one peer, opened on empty engines, and a \<open>Ready\<close> with one entry and a vote.\<close>

definition demo_region :: Region where
  "demo_region = \<lparr>rg_Id = 1, rg_StartKey = [], rg_EndKey = [], rg_RegionEpoch = \<lparr>ep_ConfVer = 1, ep_Version = 1\<rparr>, rg_Peers = [\<lparr>pr_Id = 1, pr_StoreId = 1\<rparr>]\<rparr>"

definition demo_peer :: "cfdata PeerStorage" where
  "demo_peer = projr (projr (NewPeerStorage list_badger wide_codec \<lparr>en_Kv = [], en_Raft = []\<rparr> demo_region 1))"

definition demo_ready :: Ready where
  "demo_ready = \<lparr>rdy_SoftState = None, rdy_HardState = \<lparr>hs_Term = 6, hs_Vote = 2, hs_Commit = 5\<rparr>,
     rdy_Entries = [zeroEntry\<lparr>e_Term := 6, e_Index := 6, e_Data := Some [7]\<rparr>], rdy_Snapshot = emptySnapshot,
     rdy_CommittedEntries = [], rdy_Messages = []\<rparr>"

lemma list_get_empty: "GetMeta list_badger un [] k = Inl ErrKeyNotFound"
  by (simp add: GetMeta_def list_badger_def)

lemma list_put: "k \<noteq> [] \<Longrightarrow> PutMeta list_badger f db k x = Inr (apply_op db (BSet k (Some (f x))))"
  by (simp add: PutMeta_def list_badger_def)

lemma region_keys_nonempty: "RaftStateKey r \<noteq> []" "ApplyStateKey r \<noteq> []" "RaftLogKey r i \<noteq> []"
  by (simp_all add: key_defs)

lemma list_saves: "bd_Update list_badger db (map entry_op (ready_batch P r st ready)) \<noteq> Inl e"
proof -
  have "fst x \<noteq> []" if "x \<in> set (ready_batch P r st ready)" for x
  proof (cases "x \<in> set (log_batch P r (rl_LastIndex st) (rdy_Entries ready))")
    case True
    then have "fst x \<in> fst ` set (log_batch P r (rl_LastIndex st) (rdy_Entries ready))" by simp
    from log_batch_keys [OF this] obtain i where "fst x = RaftLogKey r i" by blast
    then show ?thesis by (simp add: region_keys_nonempty)
  qed (use that in \<open>auto simp: ready_batch_def region_keys_nonempty split: if_splits\<close>)
  then show ?thesis by (auto simp: list_badger_def entry_op_def)
qed

lemma demo_peer_new: "NewPeerStorage list_badger wide_codec \<lparr>en_Kv = [], en_Raft = []\<rparr> demo_region 1 = Inr (Inr demo_peer)"
proof -
  have "\<exists>ps. NewPeerStorage list_badger wide_codec \<lparr>en_Kv = [], en_Raft = []\<rparr> demo_region 1 = Inr (Inr ps)"
    by (simp add: NewPeerStorage_def InitRaftLocalState_def InitApplyState_def GetRaftLocalState_def GetApplyState_def
        list_get_empty list_put demo_region_def region_keys_nonempty Let_def)
  then show ?thesis by (auto simp: demo_peer_def)
qed

lemma demo_peer_wf:
  "peer_wf list_badger wide_codec (\<lambda>m. m) (\<lambda>m. cf_sorted m \<and> values_normal m) demo_peer"
  "ps_base list_badger wide_codec demo_peer = 5" "ps_base_term list_badger wide_codec demo_peer = 5" "ps_saved list_badger wide_codec demo_peer = []"
  using list_peer.new_peer_wf [OF _ _ _ _ _ _ _ demo_peer_new]
  by (simp_all add: values_normal_def demo_region_def u64_def RaftInitLogIndex_def RaftInitLogTerm_def)

lemma demo_peer_last: "ps_LastIndex demo_peer = 5" "ps_AppliedIndex list_badger wide_codec demo_peer = Inr 5"
proof -
  show last: "ps_LastIndex demo_peer = 5"
    using list_peer.base_le_last [OF demo_peer_wf(1)] list_peer.saved_length [of demo_peer] demo_peer_wf(2,4) by simp
  then show "ps_AppliedIndex list_badger wide_codec demo_peer = Inr 5"
    using list_peer.applied_index [OF demo_peer_wf(1)] demo_peer_wf(2) by (metis order_antisym)
qed

lemma demo_ready_fits: "fits_log list_badger wide_codec demo_peer (rdy_Entries demo_ready)"
  using demo_peer_wf demo_peer_last
  by (auto simp: fits_log_def demo_ready_def new_log_def entry_norm_def u64_def intro!: exI [of _ 6])

theorem ready_survives_restart_witness:
  "\<exists>ps' ps'' l. ps_SaveReadyState list_badger wide_codec (\<lambda>_ db. db) demo_peer demo_ready = Inr (Inr (None, ps'))
     \<and> NewPeerStorage list_badger wide_codec (ps_Engines ps') (ps_region ps') (ps_peerID ps') = Inr (Inr ps'')
     \<and> rl_HardState (ps_raftState ps'') = \<lparr>hs_Term = 6, hs_Vote = 2, hs_Commit = 5\<rparr>
     \<and> newLog (PeerStorage_view list_badger wide_codec None ps'') = Inr l
     \<and> lg_entries l = [zeroEntry\<lparr>e_Term := 6, e_Index := 6, e_Data := Some [7]\<rparr>]"
proof -
  have pre: "IsEmptySnap (Some (rdy_Snapshot demo_ready))" "hard_u64 (rdy_HardState demo_ready)"
    by (simp_all add: demo_ready_def IsEmptySnap_def emptySnapshot_def hard_u64_def u64_def)
  have st: "rl_HardState (ready_state st demo_ready) = \<lparr>hs_Term = 6, hs_Vote = 2, hs_Commit = 5\<rparr>" for st
    by (simp add: ready_state_def demo_ready_def IsEmptyHardState_def isHardStateEqual_def emptyHardState_def Let_def)
  have log: "new_log 5 [] (rdy_Entries demo_ready) = [zeroEntry\<lparr>e_Term := 6, e_Index := 6, e_Data := Some [7]\<rparr>]"
    by (simp add: new_log_def demo_ready_def entry_norm_def)
  from ready_survives_restart [OF list_db.badger_spec_axioms wide.pb_spec_axioms demo_peer_wf(1) pre(1) demo_ready_fits pre(2),
      where W = "\<lambda>_ db. db" and recv = None]
  obtain ps' ps'' l where p: "ps_SaveReadyState list_badger wide_codec (\<lambda>_ db. db) demo_peer demo_ready = Inr (Inr (None, ps'))"
      "ps_raftState ps' = ready_state (ps_raftState demo_peer) demo_ready"
      "NewPeerStorage list_badger wide_codec (ps_Engines ps') (ps_region ps') (ps_peerID ps') = Inr (Inr ps'')"
      "ps_raftState ps'' = ps_raftState ps'" "newLog (PeerStorage_view list_badger wide_codec None ps'') = Inr l"
      "lg_entries l = new_log (ps_base list_badger wide_codec demo_peer) (ps_saved list_badger wide_codec demo_peer) (rdy_Entries demo_ready)"
    using list_saves by blast
  have "rl_HardState (ps_raftState ps'') = \<lparr>hs_Term = 6, hs_Vote = 2, hs_Commit = 5\<rparr>" using p(2,4) st by simp
  moreover have "lg_entries l = [zeroEntry\<lparr>e_Term := 6, e_Index := 6, e_Data := Some [7]\<rparr>]" using p(6) log demo_peer_wf by simp
  ultimately show ?thesis using p(1,3,5) by blast
qed

text \<open>
  Reading the log of a well-formed peer: \<open>Entries\<close> returns exactly the entries of every range above the
  truncated index, and \<open>Term\<close> the term of every index from the truncated one to the last (its two
  shortcuts included), \<open>ErrCompacted\<close> below and an error above.
\<close>

theorem peer_reads_log:
  assumes "badger_spec B content good" "pb_spec P" "peer_wf B P content good ps"
  shows "(\<forall>lo hi. ps_base B P ps < lo \<longrightarrow> lo \<le> hi \<longrightarrow> hi \<le> ps_LastIndex ps + 1 \<longrightarrow>
      ps_Entries B P ps lo hi = Inr (Inr (drop (lo - ps_base B P ps - 1) (take (hi - ps_base B P ps - 1) (ps_saved B P ps)))))
    \<and> (\<forall>i. ps_Term B P ps i = Inr (if i < ps_base B P ps then Inl ErrCompacted
         else if i = ps_base B P ps then Inr (ps_base_term B P ps)
         else if i \<le> ps_LastIndex ps then Inr (e_Term (ps_saved B P ps ! (i - ps_base B P ps - 1)))
         else Inl (ErrOther ''entries high is out of bound'')))"
proof -
  have eng: "peer_engine B content good P" using assms(1,2) by (simp add: peer_engine_def)
  have "drop (lo - ps_base B P ps - 1) (take (hi - ps_base B P ps - 1) (ps_saved B P ps)) = map (ps_entry B P ps) [lo..<hi]"
    if "ps_base B P ps < lo" "lo \<le> hi" "hi \<le> ps_LastIndex ps + 1" for lo hi
    using that by (simp add: ps_saved_def drop_map take_map del: upt_Suc)
  then show ?thesis
    using peer_engine.read_range [OF eng assms(3)] peer_engine.read_term [OF eng assms(3)] peer_engine.saved_nth [OF eng, of _ ps]
    by simp
qed

theorem peer_reads_log_witness:
  "ps_Term list_badger wide_codec demo_peer 5 = Inr (Inr 5) \<and> ps_Term list_badger wide_codec demo_peer 4 = Inr (Inl ErrCompacted)
   \<and> ps_Entries list_badger wide_codec demo_peer 6 6 = Inr (Inr [])"
  using peer_reads_log [OF list_db.badger_spec_axioms wide.pb_spec_axioms demo_peer_wf(1)] demo_peer_wf(2-4) demo_peer_last by simp

text \<open>
  C32. A peer that was created from a message and has no snapshot yet (its last index is 0) does not save its
  hard state: \<open>SaveReadyState\<close> writes nothing, whatever term and vote the \<open>Ready\<close> carries, and a storage
  opened on the same engines starts with the empty hard state again.
\<close>

theorem uninitialized_vote_not_saved:
  assumes "rl_LastIndex (ps_raftState ps) = 0" "rdy_Entries ready = []" "IsEmptySnap (Some (rdy_Snapshot ready))"
    and "rg_Peers (ps_region ps) = []" "bd_Get B (en_Raft (ps_Engines ps)) (RaftStateKey (rg_Id (ps_region ps))) = Inl ErrKeyNotFound"
  shows "ps_SaveReadyState B P W ps ready = Inr (Inr (None, ps))
    \<and> (\<forall>ps'. NewPeerStorage B P (ps_Engines ps) (ps_region ps) (ps_peerID ps) = Inr (Inr ps') \<longrightarrow> rl_HardState (ps_raftState ps') = emptyHardState)"
proof -
  have st: "ready_state (ps_raftState ps) ready = ps_raftState ps" using assms(1,2) by (simp add: ready_state_def)
  obtain wb where "wb_entries wb = []" "ps_SaveReadyState B P W ps ready = bindR (must_write B wb (en_Raft (ps_Engines ps))) (\<lambda>db.
        Inr (Inr (None, ps\<lparr>ps_raftState := ps_raftState ps, ps_Engines := \<lparr>en_Kv = en_Kv (ps_Engines ps), en_Raft = db\<rparr>\<rparr>)))"
    using save_unfold [OF assms(3), of P ps B W] assms(2) st by (auto simp: ready_batch_def log_batch_def)
  then have "ps_SaveReadyState B P W ps ready = Inr (Inr (None, ps))"
    by (cases "ps_Engines ps") (simp add: must_write_def wb_MustWriteToDB_def wb_WriteToDB_def)
  then show ?thesis
    using assms(4,5) by (auto simp: NewPeerStorage_def InitRaftLocalState_def GetRaftLocalState_def GetMeta_def split: sum.splits if_splits)
qed

definition demo_newcomer :: "cfdata PeerStorage" where
  "demo_newcomer = \<lparr>ps_peerID = 2, ps_region = demo_region\<lparr>rg_Peers := []\<rparr>,
     ps_raftState = \<lparr>rl_HardState = emptyHardState, rl_LastIndex = 0, rl_LastTerm = 0\<rparr>, ps_snapState = SnapState_Relax,
     ps_regionSched = [], ps_snapTriedCnt = 0, ps_Engines = \<lparr>en_Kv = [], en_Raft = []\<rparr>\<rparr>"

theorem uninitialized_vote_not_saved_witness:
  "ps_SaveReadyState list_badger wide_codec (\<lambda>_ db. db) demo_newcomer (demo_ready\<lparr>rdy_Entries := []\<rparr>) = Inr (Inr (None, demo_newcomer))"
  using uninitialized_vote_not_saved [of demo_newcomer "demo_ready\<lparr>rdy_Entries := []\<rparr>" list_badger wide_codec "\<lambda>_ db. db"]
  by (simp add: demo_newcomer_def demo_ready_def demo_region_def IsEmptySnap_def emptySnapshot_def list_badger_def)

text \<open>
  C33. The data a peer gives up when a snapshot shrinks its region. With an upper bound on the old region, the
  ranges handed to the region worker hold exactly the keys of the old region outside the new one. When
  the old region had no upper bound, nothing at or above the new end is ever cleared, although it is outside
  the new region.
\<close>

theorem clear_extra_data:
  assumes within: "rg_StartKey (ps_region ps) \<le> rg_StartKey new" "rg_StartKey new \<le> rg_EndKey new" "rg_EndKey new \<noteq> []"
    and bounded: "rg_EndKey (ps_region ps) = [] \<or> rg_EndKey new \<le> rg_EndKey (ps_region ps)"
  shows "\<exists>tasks. ps_regionSched (ps_clearExtraData ps new) = ps_regionSched ps @ tasks
    \<and> (\<forall>k. (\<exists>s e. RegionTaskDestroy (rg_Id new) s e \<in> set tasks \<and> in_range s e k) \<longleftrightarrow>
         in_range (rg_StartKey (ps_region ps)) (rg_EndKey (ps_region ps)) k \<and> \<not> in_range (rg_StartKey new) (rg_EndKey new) k
         \<and> (rg_EndKey (ps_region ps) = [] \<longrightarrow> k < rg_StartKey new))"
proof -
  let ?os = "rg_StartKey (ps_region ps)" let ?oe = "rg_EndKey (ps_region ps)" let ?ns = "rg_StartKey new" let ?ne = "rg_EndKey new"
  define tasks where "tasks = (if ?os < ?ns then [RegionTaskDestroy (rg_Id new) ?os ?ns] else [])
    @ (if ?ne < ?oe then [RegionTaskDestroy (rg_Id new) ?ne ?oe] else [])"
  have "ps_regionSched (ps_clearExtraData ps new) = ps_regionSched ps @ tasks"
    by (simp add: ps_clearExtraData_def ps_clearRange_def tasks_def Let_def)
  moreover have "(\<exists>s e. RegionTaskDestroy (rg_Id new) s e \<in> set tasks \<and> in_range s e k) \<longleftrightarrow>
      (?os < ?ns \<and> in_range ?os ?ns k) \<or> (?ne < ?oe \<and> in_range ?ne ?oe k)" for k by (auto simp: tasks_def)
  moreover have "(?os < ?ns \<and> in_range ?os ?ns k) \<or> (?ne < ?oe \<and> in_range ?ne ?oe k) \<longleftrightarrow>
      in_range ?os ?oe k \<and> \<not> in_range ?ns ?ne k \<and> (?oe = [] \<longrightarrow> k < ?ns)" for k
    using within bounded by (auto simp: in_range_def not_less not_le)
  ultimately show ?thesis by blast
qed

lemma new_peer_region: "NewPeerStorage B P en region p = Inr (Inr ps) \<Longrightarrow> ps_region ps = region"
  by (auto simp: NewPeerStorage_def split: sum.splits if_splits)

theorem clear_extra_data_witness:
  "\<exists>tasks. ps_regionSched (ps_clearExtraData demo_peer (demo_region\<lparr>rg_EndKey := [5]\<rparr>)) = ps_regionSched demo_peer @ tasks
    \<and> (\<forall>s e. RegionTaskDestroy 1 s e \<in> set tasks \<longrightarrow> \<not> in_range s e [9])"
  using clear_extra_data [of demo_peer "demo_region\<lparr>rg_EndKey := [5]\<rparr>"] new_peer_region [OF demo_peer_new]
  by (auto simp: demo_region_def)

end
