(* ===== verification/RaftCmd.thy ===== *)
theory RaftCmd
  imports PeerStorage
begin

text \<open>
  Commands that go through the Raft log: the messages of \<open>raft_cmdpb.proto\<close> and \<open>errorpb.proto\<close>, the checks every
  command passes (\<open>kv/raftstore/util/util.go\<close>), the errors they give (\<open>kv/raftstore/util/error.go\<close>) and how
  these become responses (\<open>kv/raftstore/cmd_resp.go\<close>). A message pointer is an option. Texts of errors are kept without
  the values that are printed into them.
\<close>

section \<open>Messages\<close>

datatype CmdType = CmdType_Invalid | CmdType_Get | CmdType_Put | CmdType_Delete | CmdType_Snap

record GetRequest =
  gq_Cf :: string
  gq_Key :: bytes

record PutRequest =
  pq_Cf :: string
  pq_Key :: bytes
  pq_Value :: goslice

record DeleteRequest =
  dq_Cf :: string
  dq_Key :: bytes

record Request =
  rq_CmdType :: CmdType
  rq_Get :: "GetRequest option"
  rq_Put :: "PutRequest option"
  rq_Delete :: "DeleteRequest option"

record Response =
  rp_CmdType :: CmdType
  rp_Get :: "goslice option"
  rp_Snap :: "Region option"

text \<open>The getters of generated code return a zero message for a nil pointer.\<close>

definition GetGet :: "Request \<Rightarrow> GetRequest" where
  "GetGet r = (case rq_Get r of None \<Rightarrow> \<lparr>gq_Cf = [], gq_Key = []\<rparr> | Some g \<Rightarrow> g)"

definition GetPut :: "Request \<Rightarrow> PutRequest" where
  "GetPut r = (case rq_Put r of None \<Rightarrow> \<lparr>pq_Cf = [], pq_Key = [], pq_Value = None\<rparr> | Some p \<Rightarrow> p)"

definition GetDelete :: "Request \<Rightarrow> DeleteRequest" where
  "GetDelete r = (case rq_Delete r of None \<Rightarrow> \<lparr>dq_Cf = [], dq_Key = []\<rparr> | Some d \<Rightarrow> d)"

datatype AdminCmdType = InvalidAdmin | AdminChangePeer | AdminCompactLog | AdminTransferLeader | AdminSplit

record ChangePeerRequest =
  cq_ChangeType :: ConfChangeType
  cq_Peer :: "Peer option"

record SplitRequest =
  sq_SplitKey :: bytes
  sq_NewRegionId :: nat
  sq_NewPeerIds :: "nat list"

record CompactLogRequest =
  lq_CompactIndex :: nat
  lq_CompactTerm :: nat

record TransferLeaderRequest =
  tq_Peer :: "Peer option"

record AdminRequest =
  aq_CmdType :: AdminCmdType
  aq_ChangePeer :: "ChangePeerRequest option"
  aq_CompactLog :: "CompactLogRequest option"
  aq_TransferLeader :: "TransferLeaderRequest option"
  aq_Split :: "SplitRequest option"

record AdminResponse =
  ar_CmdType :: AdminCmdType
  ar_ChangePeer :: "Region option"
  ar_Split :: "Region list option"

record RaftRequestHeader =
  rh_RegionId :: nat
  rh_Peer :: "Peer option"
  rh_RegionEpoch :: "RegionEpoch option"
  rh_Term :: nat

record RaftCmdRequest =
  rc_Header :: "RaftRequestHeader option"
  rc_Requests :: "Request list"
  rc_AdminRequest :: "AdminRequest option"

section \<open>Errors and responses\<close>

datatype rserr =
    ErrNotLeader nat "Peer option"
  | ErrRegionNotFound nat
  | ErrKeyNotInRegion bytes Region
  | ErrEpochNotMatch string "Region list"
  | ErrStaleCommand
  | ErrStoreNotMatch nat nat
  | ErrText string

record pberror =
  pe_Message :: string
  pe_NotLeader :: "(nat \<times> Peer option) option"
  pe_RegionNotFound :: "nat option"
  pe_KeyNotInRegion :: "(bytes \<times> nat \<times> bytes \<times> bytes) option"
  pe_EpochNotMatch :: "Region list option"
  pe_StaleCommand :: "unit option"
  pe_StoreNotMatch :: "(nat \<times> nat) option"

definition zeroError :: pberror where
  "zeroError = \<lparr>pe_Message = [], pe_NotLeader = None, pe_RegionNotFound = None, pe_KeyNotInRegion = None, pe_EpochNotMatch = None,
     pe_StaleCommand = None, pe_StoreNotMatch = None\<rparr>"

fun RaftstoreErrToPbError :: "rserr \<Rightarrow> pberror" where
  "RaftstoreErrToPbError (ErrNotLeader r l) = zeroError\<lparr>pe_NotLeader := Some (r, l)\<rparr>"
| "RaftstoreErrToPbError (ErrRegionNotFound r) = zeroError\<lparr>pe_RegionNotFound := Some r\<rparr>"
| "RaftstoreErrToPbError (ErrKeyNotInRegion k r) =
     zeroError\<lparr>pe_KeyNotInRegion := Some (k, rg_Id r, rg_StartKey r, rg_EndKey r)\<rparr>"
| "RaftstoreErrToPbError (ErrEpochNotMatch msg rs) = zeroError\<lparr>pe_EpochNotMatch := Some rs\<rparr>"
| "RaftstoreErrToPbError ErrStaleCommand = zeroError\<lparr>pe_StaleCommand := Some ()\<rparr>"
| "RaftstoreErrToPbError (ErrStoreNotMatch a b) = zeroError\<lparr>pe_StoreNotMatch := Some (a, b)\<rparr>"
| "RaftstoreErrToPbError (ErrText msg) = zeroError\<lparr>pe_Message := msg\<rparr>"

record RaftResponseHeader =
  rx_Error :: "pberror option"
  rx_CurrentTerm :: nat

text \<open>The list of responses may hold nil pointers.\<close>

record RaftCmdResponse =
  rr_Header :: "RaftResponseHeader option"
  rr_Responses :: "Response option list"
  rr_AdminResponse :: "AdminResponse option"

definition zeroRespHeader :: RaftResponseHeader where
  "zeroRespHeader = \<lparr>rx_Error = None, rx_CurrentTerm = 0\<rparr>"

definition newCmdResp :: RaftCmdResponse where
  "newCmdResp = \<lparr>rr_Header = Some zeroRespHeader, rr_Responses = [], rr_AdminResponse = None\<rparr>"

definition ensureRespHeader :: "RaftCmdResponse \<Rightarrow> RaftResponseHeader" where
  "ensureRespHeader resp = (case rr_Header resp of None \<Rightarrow> zeroRespHeader | Some h \<Rightarrow> h)"

definition BindRespTerm :: "RaftCmdResponse \<Rightarrow> nat \<Rightarrow> RaftCmdResponse" where
  "BindRespTerm resp term = (if term = 0 then resp else resp\<lparr>rr_Header := Some ((ensureRespHeader resp)\<lparr>rx_CurrentTerm := term\<rparr>)\<rparr>)"

definition BindRespError :: "RaftCmdResponse \<Rightarrow> rserr \<Rightarrow> RaftCmdResponse" where
  "BindRespError resp err = resp\<lparr>rr_Header := Some ((ensureRespHeader resp)\<lparr>rx_Error := Some (RaftstoreErrToPbError err)\<rparr>)\<rparr>"

definition ErrResp :: "rserr \<Rightarrow> RaftCmdResponse" where
  "ErrResp err = BindRespError \<lparr>rr_Header = Some zeroRespHeader, rr_Responses = [], rr_AdminResponse = None\<rparr> err"

definition ErrRespWithTerm :: "rserr \<Rightarrow> nat \<Rightarrow> RaftCmdResponse" where
  "ErrRespWithTerm err term = BindRespTerm (ErrResp err) term"

definition ErrRespStaleCommand :: "nat \<Rightarrow> RaftCmdResponse" where
  "ErrRespStaleCommand term = ErrRespWithTerm ErrStaleCommand term"

definition ErrRespRegionNotFound :: "nat \<Rightarrow> RaftCmdResponse" where
  "ErrRespRegionNotFound regionID =
     \<lparr>rr_Header = Some \<lparr>rx_Error = Some (zeroError\<lparr>pe_Message := ''region is not found'', pe_RegionNotFound := Some regionID\<rparr>), rx_CurrentTerm = 0\<rparr>,
      rr_Responses = [], rr_AdminResponse = None\<rparr>"

section \<open>Checks, \<open>util.go\<close>\<close>

definition CheckKeyInRegion :: "bytes \<Rightarrow> Region \<Rightarrow> rserr option" where
  "CheckKeyInRegion key region =
     (if bytes_Compare key (rg_StartKey region) \<ge> 0 \<and> (length (rg_EndKey region) = 0 \<or> bytes_Compare key (rg_EndKey region) < 0)
      then None else Some (ErrKeyNotInRegion key region))"

definition CheckKeyInRegionExclusive :: "bytes \<Rightarrow> Region \<Rightarrow> rserr option" where
  "CheckKeyInRegionExclusive key region =
     (if bytes_Compare (rg_StartKey region) key < 0 \<and> (length (rg_EndKey region) = 0 \<or> bytes_Compare key (rg_EndKey region) < 0)
      then None else Some (ErrKeyNotInRegion key region))"

definition CheckKeyInRegionInclusive :: "bytes \<Rightarrow> Region \<Rightarrow> rserr option" where
  "CheckKeyInRegionInclusive key region =
     (if bytes_Compare key (rg_StartKey region) \<ge> 0 \<and> (length (rg_EndKey region) = 0 \<or> bytes_Compare key (rg_EndKey region) \<le> 0)
      then None else Some (ErrKeyNotInRegion key region))"

definition IsEpochStale :: "RegionEpoch \<Rightarrow> RegionEpoch \<Rightarrow> bool" where
  "IsEpochStale epoch checkEpoch \<longleftrightarrow> ep_Version epoch < ep_Version checkEpoch \<or> ep_ConfVer epoch < ep_ConfVer checkEpoch"

definition IsInitialMsg :: "Message \<Rightarrow> bool" where
  "IsInitialMsg msg \<longleftrightarrow> m_MsgType msg = MsgRequestVote \<or> m_MsgType msg = MsgHeartbeat \<and> m_Commit msg = 0"

definition IsVoteMessage :: "Message \<Rightarrow> bool" where
  "IsVoteMessage msg \<longleftrightarrow> m_MsgType msg = MsgRequestVote"

definition IsFirstVoteMessage :: "Message \<Rightarrow> bool" where
  "IsFirstVoteMessage msg \<longleftrightarrow> IsVoteMessage msg \<and> m_Term msg = RaftInitLogTerm + 1"

text \<open>Which of the two versions a command depends on.\<close>

definition epoch_checks :: "RaftCmdRequest \<Rightarrow> bool \<times> bool" where
  "epoch_checks req =
     (case rc_AdminRequest req of
        None \<Rightarrow> (True, False)
      | Some a \<Rightarrow>
          (case aq_CmdType a of
             AdminCompactLog \<Rightarrow> (False, False)
           | InvalidAdmin \<Rightarrow> (False, False)
           | AdminChangePeer \<Rightarrow> (False, True)
           | AdminSplit \<Rightarrow> (True, True)
           | AdminTransferLeader \<Rightarrow> (True, True)))"

definition CheckRegionEpoch :: "RaftCmdRequest \<Rightarrow> Region \<Rightarrow> bool \<Rightarrow> rserr option" where
  "CheckRegionEpoch req region includeRegion =
     (let (checkVer, checkConfVer) = epoch_checks req
      in if \<not> checkVer \<and> \<not> checkConfVer then None
         else case rc_Header req of
                None \<Rightarrow> Some (ErrText ''missing header!'')
              | Some h \<Rightarrow>
                  (case rh_RegionEpoch h of
                     None \<Rightarrow> Some (ErrText ''missing epoch!'')
                   | Some fromEpoch \<Rightarrow>
                       let currentEpoch = rg_RegionEpoch region
                       in if checkConfVer \<and> ep_ConfVer fromEpoch \<noteq> ep_ConfVer currentEpoch
                             \<or> checkVer \<and> ep_Version fromEpoch \<noteq> ep_Version currentEpoch
                          then Some (ErrEpochNotMatch ''current epoch of region'' (if includeRegion then [region] else []))
                          else None))"

fun FindPeer_loop :: "Peer list \<Rightarrow> nat \<Rightarrow> Peer option" where
  "FindPeer_loop [] storeID = None"
| "FindPeer_loop (peer # ps) storeID = (if pr_StoreId peer = storeID then Some peer else FindPeer_loop ps storeID)"

definition FindPeer :: "Region \<Rightarrow> nat \<Rightarrow> Peer option" where
  "FindPeer region storeID = FindPeer_loop (rg_Peers region) storeID"

fun RemovePeer_loop :: "Peer list \<Rightarrow> nat \<Rightarrow> Peer option \<times> Peer list" where
  "RemovePeer_loop [] storeID = (None, [])"
| "RemovePeer_loop (peer # ps) storeID =
     (if pr_StoreId peer = storeID then (Some peer, ps)
      else let (p, ps') = RemovePeer_loop ps storeID in (p, peer # ps'))"

definition RemovePeer :: "Region \<Rightarrow> nat \<Rightarrow> Peer option \<times> Region" where
  "RemovePeer region storeID =
     (let (p, ps) = RemovePeer_loop (rg_Peers region) storeID in (p, region\<lparr>rg_Peers := ps\<rparr>))"

text \<open>The header and its peer are followed without a check.\<close>

definition header_peer :: "RaftCmdRequest \<Rightarrow> fault + Peer" where
  "header_peer req =
     (case rc_Header req of
        None \<Rightarrow> Inl (Panic ''nil pointer dereference'')
      | Some h \<Rightarrow> (case rh_Peer h of None \<Rightarrow> Inl (Panic ''nil pointer dereference'') | Some p \<Rightarrow> Inr p))"

definition CheckStoreID :: "RaftCmdRequest \<Rightarrow> nat \<Rightarrow> fault + rserr option" where
  "CheckStoreID req storeID =
     bindR (header_peer req) (\<lambda>peer. Inr (if pr_StoreId peer = storeID then None else Some (ErrText ''store not match'')))"

definition CheckTerm :: "RaftCmdRequest \<Rightarrow> nat \<Rightarrow> fault + rserr option" where
  "CheckTerm req term =
     (case rc_Header req of
        None \<Rightarrow> Inl (Panic ''nil pointer dereference'')
      | Some header \<Rightarrow> Inr (if rh_Term header = 0 \<or> term \<le> rh_Term header + 1 then None else Some ErrStaleCommand))"

definition CheckPeerID :: "RaftCmdRequest \<Rightarrow> nat \<Rightarrow> fault + rserr option" where
  "CheckPeerID req peerID =
     bindR (header_peer req) (\<lambda>peer. Inr (if pr_Id peer = peerID then None else Some (ErrText ''mismatch peer id'')))"

definition PeerEqual :: "Peer \<Rightarrow> Peer \<Rightarrow> bool" where
  "PeerEqual l r \<longleftrightarrow> pr_Id l = pr_Id r \<and> pr_StoreId l = pr_StoreId r"

definition RegionEqual :: "Region option \<Rightarrow> Region option \<Rightarrow> bool" where
  "RegionEqual l r =
     (case (l, r) of
        (Some a, Some b) \<Rightarrow> rg_Id a = rg_Id b \<and> ep_Version (rg_RegionEpoch a) = ep_Version (rg_RegionEpoch b)
           \<and> ep_ConfVer (rg_RegionEpoch a) = ep_ConfVer (rg_RegionEpoch b)
      | _ \<Rightarrow> False)"

text \<open>\<open>GetChangePeerCmd\<close> of \<open>peer.go\<close>.\<close>

definition GetChangePeerCmd :: "RaftCmdRequest \<Rightarrow> ChangePeerRequest option" where
  "GetChangePeerCmd req = (case rc_AdminRequest req of None \<Rightarrow> None | Some a \<Rightarrow> aq_ChangePeer a)"

section \<open>What the checks decide\<close>

text \<open>The keys of a region; an empty end key means no upper bound.\<close>

definition region_keys_of :: "Region \<Rightarrow> bytes set" where
  "region_keys_of r = {k. rg_StartKey r \<le> k \<and> (rg_EndKey r = [] \<or> k < rg_EndKey r)}"

lemma CheckKeyInRegion_None: "CheckKeyInRegion key r = None \<longleftrightarrow> key \<in> region_keys_of r"
  by (auto simp: CheckKeyInRegion_def region_keys_of_def)

lemma PeerEqual_eq [simp]: "PeerEqual l r \<longleftrightarrow> l = r"
  by (cases l; cases r) (simp add: PeerEqual_def)

lemma FindPeer_loop_None: "FindPeer_loop ps s = None \<longleftrightarrow> s \<notin> pr_StoreId ` set ps"
  by (induction ps) auto

lemma FindPeer_None: "FindPeer r s = None \<longleftrightarrow> s \<notin> pr_StoreId ` set (rg_Peers r)"
  by (simp add: FindPeer_def FindPeer_loop_None)

lemma RemovePeer_loop_Some:
  "RemovePeer_loop ps s = (Some p, ps') \<Longrightarrow> p \<in> set ps \<and> pr_StoreId p = s \<and> (\<exists>as bs. ps = as @ p # bs \<and> ps' = as @ bs)"
proof (induction ps arbitrary: ps')
  case (Cons q ps)
  show ?case
  proof (cases "pr_StoreId q = s")
    case True
    then show ?thesis using Cons.prems by (auto intro: exI [of _ "[]"])
  next
    case False
    then obtain ps1 where ps1: "RemovePeer_loop ps s = (Some p, ps1)" "ps' = q # ps1" using Cons.prems by (auto split: prod.splits)
    from Cons.IH [OF ps1(1)] obtain as bs where "p \<in> set ps" "pr_StoreId p = s" "ps = as @ p # bs" "ps1 = as @ bs" by blast
    then have "q # ps = (q # as) @ p # bs \<and> ps' = (q # as) @ bs" using ps1(2) by simp
    then show ?thesis using \<open>p \<in> set ps\<close> \<open>pr_StoreId p = s\<close> by (metis list.set_intros(2))
  qed
qed simp

end
