(* ===== verification/Applier.thy ===== *)
theory Applier
  imports RaftCmd
begin

text \<open>
  Applying committed entries, \<open>kv/raftstore/applier.go\<close>: the applier of a region executes the commands of the
  log one entry at a time against the kv engine, changes the region on splits and membership changes, and answers the
  callbacks of the commands that were proposed on this peer. A callback is a number; what is sent through
  it, with the read transaction for a snapshot request, is recorded in \<open>ac_done\<close> in the order of the
  calls, and what goes to the notifier channel in \<open>ac_notified\<close>. Decoding a command and a membership change from the data of
  an entry is generated code, the parameter \<open>Q\<close>.
\<close>

section \<open>State\<close>

record cmdcodec =
  un_RaftCmdRequest :: "bytes \<Rightarrow> berr + RaftCmdRequest"
  un_ConfChange :: "bytes \<Rightarrow> berr + ConfChange"

type_synonym callback = nat

record proposal =
  po_isConfChange :: bool
  po_index :: nat
  po_term :: nat
  po_cb :: "callback option"

record MsgApplyProposal =
  mp_Id :: nat
  mp_RegionId :: nat
  mp_Props :: "proposal list"

record MsgApplyCommitted =
  mc_regionId :: nat
  mc_term :: nat
  mc_entries :: "Entry list"

record MsgApplyRefresh =
  mr_id :: nat
  mr_term :: nat
  mr_region :: Region

datatype execResult =
    ExecResultChangePeer ConfChange "Peer option" "Region option"
  | ExecResultCompactLog nat nat
  | ExecResultSplitRegion "Region list" Region

text \<open>The fields \<open>tag\<close>, used in log lines, and \<open>sizeDiffHint\<close>, which nothing reads or writes, are left out.\<close>

record MsgApplyRes =
  ms_regionID :: nat
  ms_execResults :: "execResult list"

record pendingCmd =
  pc_index :: nat
  pc_term :: nat
  pc_cb :: "callback option"

record pendingCmdQueue =
  pd_normals :: "pendingCmd list"
  pd_confChange :: "pendingCmd option"

record applier =
  ap_id :: nat
  ap_term :: nat
  ap_region :: Region
  ap_pendingRemove :: bool
  ap_pendingCmds :: pendingCmdQueue
  ap_applyState :: RaftApplyState

type_synonym 'db answer = "callback \<times> RaftCmdResponse \<times> 'db option"

text \<open>A nil callback is pushed as \<open>None\<close>.\<close>

record 'db applyCallback =
  ak_region :: Region
  ak_cbs :: "'db answer option list"

record 'db applyContext =
  ac_kv :: 'db
  ac_cbs :: "'db applyCallback list"
  ac_applyTaskResList :: "MsgApplyRes list"
  ac_wb :: WriteBatch
  ac_lastAppliedIndex :: nat
  ac_committedCount :: nat
  ac_done :: "'db answer list"
  ac_notified :: "MsgApplyRes list"

definition newApplyContext :: "'db \<Rightarrow> 'db applyContext" where
  "newApplyContext kv = \<lparr>ac_kv = kv, ac_cbs = [], ac_applyTaskResList = [], ac_wb = NewWriteBatch, ac_lastAppliedIndex = 0,
     ac_committedCount = 0, ac_done = [], ac_notified = []\<rparr>"

definition emptyQueue :: pendingCmdQueue where
  "emptyQueue = \<lparr>pd_normals = [], pd_confChange = None\<rparr>"

definition zeroApplyState :: RaftApplyState where
  "zeroApplyState = \<lparr>ra_AppliedIndex = 0, ra_TruncatedState = \<lparr>rt_Index = 0, rt_Term = 0\<rparr>\<rparr>"

definition newApplier :: "nat \<Rightarrow> nat \<Rightarrow> Region \<Rightarrow> applier" where
  "newApplier peerId term region =
     \<lparr>ap_id = peerId, ap_term = term, ap_region = region, ap_pendingRemove = False, ap_pendingCmds = emptyQueue, ap_applyState = zeroApplyState\<rparr>"

section \<open>Callbacks\<close>

definition cb_Done :: "callback option \<Rightarrow> RaftCmdResponse \<Rightarrow> 'db answer list" where
  "cb_Done cb resp = (case cb of None \<Rightarrow> [] | Some c \<Rightarrow> [(c, resp, None)])"

definition notifyRegionRemoved :: "nat \<Rightarrow> pendingCmd \<Rightarrow> 'db answer list" where
  "notifyRegionRemoved regionID cmd = cb_Done (pc_cb cmd) (ErrRespRegionNotFound regionID)"

definition notifyStaleCommand :: "nat \<Rightarrow> pendingCmd \<Rightarrow> 'db answer list" where
  "notifyStaleCommand term cmd = cb_Done (pc_cb cmd) (ErrRespStaleCommand term)"

definition popNormal :: "nat \<Rightarrow> pendingCmdQueue \<Rightarrow> pendingCmd option \<times> pendingCmdQueue" where
  "popNormal term q =
     (case pd_normals q of
        [] \<Rightarrow> (None, q)
      | cmd # rest \<Rightarrow> if pc_term cmd > term then (None, q) else (Some cmd, q\<lparr>pd_normals := rest\<rparr>))"

definition appendNormal :: "pendingCmd \<Rightarrow> pendingCmdQueue \<Rightarrow> pendingCmdQueue" where
  "appendNormal cmd q = q\<lparr>pd_normals := pd_normals q @ [cmd]\<rparr>"

definition takeConfChange :: "pendingCmdQueue \<Rightarrow> pendingCmd option \<times> pendingCmdQueue" where
  "takeConfChange q = (pd_confChange q, q\<lparr>pd_confChange := None\<rparr>)"

definition setConfChange :: "pendingCmd \<Rightarrow> pendingCmdQueue \<Rightarrow> pendingCmdQueue" where
  "setConfChange cmd q = q\<lparr>pd_confChange := Some cmd\<rparr>"

definition ak_push :: "callback option \<Rightarrow> RaftCmdResponse \<Rightarrow> 'db option \<Rightarrow> 'db applyCallback \<Rightarrow> 'db applyCallback" where
  "ak_push cb resp txn c = c\<lparr>ak_cbs := ak_cbs c @ [map_option (\<lambda>k. (k, resp, txn)) cb]\<rparr>"

definition ak_invokeAll :: "'db applyCallback \<Rightarrow> 'db answer list" where
  "ak_invokeAll c = List.map_filter (\<lambda>x. x) (ak_cbs c)"

text \<open>\<open>aCtx.cbs[len(aCtx.cbs)-1].push(...)\<close>\<close>

definition push_last :: "callback option \<Rightarrow> RaftCmdResponse \<Rightarrow> 'db option \<Rightarrow> 'db applyContext \<Rightarrow> fault + 'db applyContext" where
  "push_last cb resp txn ac =
     (if ac_cbs ac = [] then Inl (Panic ''index out of range'')
      else Inr (ac\<lparr>ac_cbs := butlast (ac_cbs ac) @ [ak_push cb resp txn (last (ac_cbs ac))]\<rparr>))"

definition applier_destroy :: "applier \<Rightarrow> 'db answer list \<times> applier" where
  "applier_destroy a =
     (let rid = rg_Id (ap_region a);
          d1 = concat (map (notifyRegionRemoved rid) (pd_normals (ap_pendingCmds a)));
          (cmd, q) = takeConfChange ((ap_pendingCmds a)\<lparr>pd_normals := []\<rparr>);
          d2 = (case cmd of None \<Rightarrow> [] | Some c \<Rightarrow> notifyRegionRemoved rid c)
      in (d1 @ d2, a\<lparr>ap_pendingCmds := q\<rparr>))"

definition handleRefresh :: "MsgApplyRefresh \<Rightarrow> applier \<Rightarrow> fault + ('db answer list \<times> applier)" where
  "handleRefresh reg a =
     (if ap_id a \<noteq> mr_id reg then Inl (Panic ''assertion failed'')
      else
        let d1 = concat (map (notifyStaleCommand (mr_term reg)) (pd_normals (ap_pendingCmds a)));
            d2 = (case fst (takeConfChange (ap_pendingCmds a)) of None \<Rightarrow> [] | Some c \<Rightarrow> notifyStaleCommand (mr_term reg) c)
        in Inr (d1 @ d2, newApplier (mr_id reg) (mr_term reg) (mr_region reg)))"

fun proposal_loop :: "nat \<Rightarrow> proposal list \<Rightarrow> pendingCmdQueue \<Rightarrow> 'db answer list \<times> pendingCmdQueue" where
  "proposal_loop term [] q = ([], q)"
| "proposal_loop term (p # ps) q =
     (let cmd = \<lparr>pc_index = po_index p, pc_term = po_term p, pc_cb = po_cb p\<rparr>
      in if po_isConfChange p
         then let (confCmd, q1) = takeConfChange q;
                  d = (case confCmd of None \<Rightarrow> [] | Some c \<Rightarrow> notifyStaleCommand term c);
                  (ds, q2) = proposal_loop term ps (setConfChange cmd q1)
              in (d @ ds, q2)
         else proposal_loop term ps (appendNormal cmd q))"

definition handleProposal :: "MsgApplyProposal \<Rightarrow> applier \<Rightarrow> fault + ('db answer list \<times> applier)" where
  "handleProposal regionProposal a =
     (if ap_id a \<noteq> mp_Id regionProposal then Inl (Panic ''assertion failed'')
      else if ap_pendingRemove a
      then Inr (concat (map (\<lambda>p. notifyStaleCommand (ap_term a) \<lparr>pc_index = po_index p, pc_term = po_term p, pc_cb = po_cb p\<rparr>) (mp_Props regionProposal)), a)
      else let (d, q) = proposal_loop (ap_term a) (mp_Props regionProposal) (ap_pendingCmds a)
           in Inr (d, a\<lparr>ap_pendingCmds := q\<rparr>))"

section \<open>The context of a round of applying\<close>

definition prepareFor :: "'db badger \<Rightarrow> pbcodec \<Rightarrow> applier \<Rightarrow> 'db applyContext \<Rightarrow> fault + (applier \<times> 'db applyContext)" where
  "prepareFor B P d ac =
     (let ac1 = ac\<lparr>ac_cbs := ac_cbs ac @ [\<lparr>ak_region = ap_region d, ak_cbs = []\<rparr>]\<rparr>
      in case GetApplyState B P (ac_kv ac1) (rg_Id (ap_region d)) of
           Inl _ \<Rightarrow> Inl (Panic ''nil pointer dereference'')
         | Inr applyState \<Rightarrow> Inr (d\<lparr>ap_applyState := applyState\<rparr>, ac1\<lparr>ac_lastAppliedIndex := ra_AppliedIndex applyState\<rparr>))"

definition writeApplyState :: "pbcodec \<Rightarrow> applier \<Rightarrow> WriteBatch \<Rightarrow> WriteBatch" where
  "writeApplyState P a wb = wb_SetMeta (pb_RaftApplyState P) wb (ApplyStateKey (rg_Id (ap_region a))) (ap_applyState a)"

definition ac_writeToDB :: "'db badger \<Rightarrow> 'db applyContext \<Rightarrow> fault + 'db applyContext" where
  "ac_writeToDB B ac =
     (case wb_WriteToDB B (ac_wb ac) (ac_kv ac) of
        Inl _ \<Rightarrow> Inl (Panic ''write to db'')
      | Inr kv \<Rightarrow> Inr (ac\<lparr>ac_kv := kv, ac_wb := wb_Reset (ac_wb ac),
                         ac_done := ac_done ac @ concat (map ak_invokeAll (ac_cbs ac)), ac_cbs := []\<rparr>))"

definition commitOpt :: "'db badger \<Rightarrow> pbcodec \<Rightarrow> bool \<Rightarrow> applier \<Rightarrow> 'db applyContext \<Rightarrow> fault + (applier \<times> 'db applyContext)" where
  "commitOpt B P persistent d ac =
     (if persistent then bindR (ac_writeToDB B ac) (prepareFor B P d) else Inr (d, ac))"

definition ac_commit :: "'db badger \<Rightarrow> pbcodec \<Rightarrow> applier \<Rightarrow> 'db applyContext \<Rightarrow> fault + (applier \<times> 'db applyContext)" where
  "ac_commit B P d ac =
     (let ac1 = (if ac_lastAppliedIndex ac < ra_AppliedIndex (ap_applyState d) then ac\<lparr>ac_wb := writeApplyState P d (ac_wb ac)\<rparr> else ac)
      in commitOpt B P True d ac1)"

definition finishFor :: "'db badger \<Rightarrow> pbcodec \<Rightarrow> execResult list \<Rightarrow> applier \<Rightarrow> 'db applyContext \<Rightarrow> fault + (applier \<times> 'db applyContext)" where
  "finishFor B P results d ac =
     bindR (commitOpt B P False d (if \<not> ap_pendingRemove d then ac\<lparr>ac_wb := writeApplyState P d (ac_wb ac)\<rparr> else ac)) (\<lambda>(d1, ac1).
       Inr (d1, ac1\<lparr>ac_applyTaskResList := ac_applyTaskResList ac1 @ [\<lparr>ms_regionID = rg_Id (ap_region d1), ms_execResults = results\<rparr>]\<rparr>))"

definition ac_flush :: "'db badger \<Rightarrow> 'db applyContext \<Rightarrow> fault + 'db applyContext" where
  "ac_flush B ac =
     bindR (ac_writeToDB B ac) (\<lambda>ac1.
       Inr (ac1\<lparr>ac_notified := ac_notified ac1 @ ac_applyTaskResList ac1, ac_applyTaskResList := [], ac_committedCount := 0\<rparr>))"

section \<open>Executing commands\<close>

text \<open>The result of a command: an error, or a response with a read transaction and what the peer has to do about it.\<close>

type_synonym 'db outcome = "rserr + (RaftCmdResponse \<times> 'db option \<times> execResult option)"

definition cf_or_default :: "string \<Rightarrow> string" where
  "cf_or_default cf = (if length cf \<noteq> 0 then cf else CfDefault)"

definition handlePut :: "Region \<Rightarrow> PutRequest \<Rightarrow> WriteBatch \<Rightarrow> Response option \<times> rserr option \<times> WriteBatch" where
  "handlePut region req wb =
     (let key = pq_Key req; val = pq_Value req
      in case CheckKeyInRegion key region of
           Some err \<Rightarrow> (None, Some err, wb)
         | None \<Rightarrow> (Some \<lparr>rp_CmdType = CmdType_Put, rp_Get = None, rp_Snap = None\<rparr>, None, wb_SetCF wb (cf_or_default (pq_Cf req)) key val))"

definition handleDelete :: "Region \<Rightarrow> DeleteRequest \<Rightarrow> WriteBatch \<Rightarrow> Response option \<times> rserr option \<times> WriteBatch" where
  "handleDelete region req wb =
     (let key = dq_Key req
      in case CheckKeyInRegion key region of
           Some err \<Rightarrow> (None, Some err, wb)
         | None \<Rightarrow> (Some \<lparr>rp_CmdType = CmdType_Delete, rp_Get = None, rp_Snap = None\<rparr>, None, wb_DeleteCF wb (cf_or_default (dq_Cf req)) key))"

definition handleGet :: "'db badger \<Rightarrow> 'db \<Rightarrow> Region \<Rightarrow> GetRequest \<Rightarrow> Response option \<times> rserr option" where
  "handleGet B kv region req =
     (let key = gq_Key req
      in case CheckKeyInRegion key region of
           Some err \<Rightarrow> (None, Some err)
         | None \<Rightarrow>
             (case GetCF B kv (cf_or_default (gq_Cf req)) key of
                Inr val \<Rightarrow> (Some \<lparr>rp_CmdType = CmdType_Get, rp_Get = Some val, rp_Snap = None\<rparr>, None)
              | Inl e \<Rightarrow> (Some \<lparr>rp_CmdType = CmdType_Get, rp_Get = Some None, rp_Snap = None\<rparr>,
                          if e = ErrKeyNotFound then None else Some (ErrText ''badger''))))"

text \<open>The variables of the loop over the requests of a command. Every request overwrites \<open>err\<close> but a snapshot request.\<close>

record 'db normalLoop =
  nl_resps :: "Response option list"
  nl_txn :: "'db option"
  nl_err :: "rserr option"
  nl_hasWrite :: bool
  nl_hasRead :: bool
  nl_wb :: WriteBatch

definition normal_request :: "'db badger \<Rightarrow> 'db \<Rightarrow> Region \<Rightarrow> Request \<Rightarrow> 'db normalLoop \<Rightarrow> fault + 'db normalLoop" where
  "normal_request B kv region req s =
     (case rq_CmdType req of
        CmdType_Put \<Rightarrow>
          (let (r, err, wb) = handlePut region (GetPut req) (nl_wb s)
           in Inr (s\<lparr>nl_resps := nl_resps s @ [r], nl_err := err, nl_hasWrite := True, nl_wb := wb\<rparr>))
      | CmdType_Delete \<Rightarrow>
          (let (r, err, wb) = handleDelete region (GetDelete req) (nl_wb s)
           in Inr (s\<lparr>nl_resps := nl_resps s @ [r], nl_err := err, nl_hasWrite := True, nl_wb := wb\<rparr>))
      | CmdType_Get \<Rightarrow>
          (let (r, err) = handleGet B kv region (GetGet req)
           in Inr (s\<lparr>nl_resps := nl_resps s @ [r], nl_err := err, nl_hasRead := True\<rparr>))
      | CmdType_Snap \<Rightarrow>
          Inr (s\<lparr>nl_resps := nl_resps s @ [Some \<lparr>rp_CmdType = CmdType_Snap, rp_Get = None, rp_Snap = Some region\<rparr>],
                 nl_txn := Some kv, nl_hasRead := True\<rparr>)
      | CmdType_Invalid \<Rightarrow> Inl (Panic ''invalid cmd type''))"

fun normal_loop :: "'db badger \<Rightarrow> 'db \<Rightarrow> Region \<Rightarrow> Request list \<Rightarrow> 'db normalLoop \<Rightarrow> fault + 'db normalLoop" where
  "normal_loop B kv region [] s = Inr s"
| "normal_loop B kv region (req # reqs) s = bindR (normal_request B kv region req s) (normal_loop B kv region reqs)"

definition execNormalCmd :: "'db badger \<Rightarrow> 'db \<Rightarrow> Region \<Rightarrow> RaftCmdRequest \<Rightarrow> WriteBatch \<Rightarrow> fault + ('db outcome \<times> WriteBatch)" where
  "execNormalCmd B kv region req wb =
     bindR (normal_loop B kv region (rc_Requests req)
              \<lparr>nl_resps = [], nl_txn = None, nl_err = None, nl_hasWrite = False, nl_hasRead = False, nl_wb = wb\<rparr>) (\<lambda>s.
     if nl_hasWrite s \<and> nl_hasRead s then Inl (Panic ''mixed write and read in one request'')
     else Inr (case nl_err s of
                 Some err \<Rightarrow> Inl err
               | None \<Rightarrow> Inr (newCmdResp\<lparr>rr_Responses := nl_resps s\<rparr>, nl_txn s, None), nl_wb s))"

text \<open>The region message is cloned before it is changed.\<close>

definition zeroAdminResponse :: AdminResponse where
  "zeroAdminResponse = \<lparr>ar_CmdType = InvalidAdmin, ar_ChangePeer = None, ar_Split = None\<rparr>"

definition zeroConfChange :: ConfChange where
  "zeroConfChange = \<lparr>cc_ChangeType = AddNode, cc_NodeId = 0, cc_Context = None\<rparr>"

definition change_peers :: "Region \<Rightarrow> ConfChangeType \<Rightarrow> Peer \<Rightarrow> rserr + Region" where
  "change_peers region changeType peer =
     (let region1 = region\<lparr>rg_RegionEpoch := (rg_RegionEpoch region)\<lparr>ep_ConfVer := ep_ConfVer (rg_RegionEpoch region) + 1\<rparr>\<rparr>
      in case changeType of
           AddNode \<Rightarrow>
             (case FindPeer region1 (pr_StoreId peer) of
                Some p \<Rightarrow> Inl (ErrText ''can't add duplicated peer'')
              | None \<Rightarrow> Inr (region1\<lparr>rg_Peers := rg_Peers region1 @ [peer]\<rparr>))
         | RemoveNode \<Rightarrow>
             (case RemovePeer region1 (pr_StoreId peer) of
                (Some p, region2) \<Rightarrow> if \<not> PeerEqual p peer then Inl (ErrText ''ignore remove unmatched peer'') else Inr region2
              | (None, _) \<Rightarrow> Inl (ErrText ''removing missing peers''))
         | ConfChangeUnknown \<Rightarrow> Inr region1)"

definition execChangePeer ::
    "pbcodec \<Rightarrow> AdminRequest \<Rightarrow> applier \<Rightarrow> WriteBatch \<Rightarrow> fault + ((rserr + (AdminResponse \<times> execResult option)) \<times> applier \<times> WriteBatch)" where
  "execChangePeer P req a wb =
     (case aq_ChangePeer req of
        None \<Rightarrow> Inl (Panic ''nil pointer dereference'')
      | Some request \<Rightarrow>
          (case cq_Peer request of
             None \<Rightarrow> Inl (Panic ''nil pointer dereference'')
           | Some peer \<Rightarrow>
               (case change_peers (ap_region a) (cq_ChangeType request) peer of
                  Inl err \<Rightarrow> Inr (Inl err, a, wb)
                | Inr region \<Rightarrow>
                    let a1 = (if cq_ChangeType request = RemoveNode \<and> ap_id a = pr_Id peer then a\<lparr>ap_pendingRemove := True\<rparr> else a);
                        state = (if ap_pendingRemove a1 then PeerState_Tombstone else PeerState_Normal)
                    in Inr (Inr (zeroAdminResponse\<lparr>ar_ChangePeer := Some region\<rparr>,
                                 Some (ExecResultChangePeer zeroConfChange (Some peer) (Some region))),
                            a1, WriteRegionState P wb region state))))"

definition writeInitialApplyState :: "pbcodec \<Rightarrow> WriteBatch \<Rightarrow> nat \<Rightarrow> WriteBatch" where
  "writeInitialApplyState P kvWB regionID =
     wb_SetMeta (pb_RaftApplyState P) kvWB (ApplyStateKey regionID)
       \<lparr>ra_AppliedIndex = RaftInitLogIndex, ra_TruncatedState = \<lparr>rt_Index = RaftInitLogIndex, rt_Term = RaftInitLogTerm\<rparr>\<rparr>"

definition split_check :: "Region \<Rightarrow> SplitRequest \<Rightarrow> rserr option" where
  "split_check region splitReq =
     (if length (sq_SplitKey splitReq) = 0 then Some (ErrText ''missing split key'')
      else if bytes_Compare (sq_SplitKey splitReq) (rg_StartKey region) \<le> 0 then Some (ErrText ''invalid split request'')
      else if length (sq_NewPeerIds splitReq) \<noteq> length (rg_Peers region) then Some (ErrText ''invalid new peer id count'')
      else CheckKeyInRegion (sq_SplitKey splitReq) region)"

definition split_regions :: "Region \<Rightarrow> SplitRequest \<Rightarrow> Region \<times> Region" where
  "split_regions region splitReq =
     (let derived = region\<lparr>rg_RegionEpoch := (rg_RegionEpoch region)\<lparr>ep_Version := ep_Version (rg_RegionEpoch region) + 1\<rparr>\<rparr>;
          newRegion = \<lparr>rg_Id = sq_NewRegionId splitReq, rg_StartKey = rg_StartKey derived, rg_EndKey = sq_SplitKey splitReq,
                       rg_RegionEpoch = rg_RegionEpoch derived,
                       rg_Peers = map2 (\<lambda>i p. \<lparr>pr_Id = i, pr_StoreId = pr_StoreId p\<rparr>) (sq_NewPeerIds splitReq) (rg_Peers derived)\<rparr>
      in (newRegion, derived\<lparr>rg_StartKey := sq_SplitKey splitReq\<rparr>))"

definition execSplit ::
    "pbcodec \<Rightarrow> AdminRequest \<Rightarrow> Region \<Rightarrow> WriteBatch \<Rightarrow> fault + ((rserr + (AdminResponse \<times> execResult option)) \<times> WriteBatch)" where
  "execSplit P req region wb =
     (case aq_Split req of
        None \<Rightarrow> Inl (Panic ''nil pointer dereference'')
      | Some splitReq \<Rightarrow>
          (case split_check region splitReq of
             Some err \<Rightarrow> Inr (Inl err, wb)
           | None \<Rightarrow>
               let (newRegion, derived) = split_regions region splitReq;
                   wb1 = WriteRegionState P wb newRegion PeerState_Normal;
                   wb2 = writeInitialApplyState P wb1 (rg_Id newRegion);
                   wb3 = WriteRegionState P wb2 derived PeerState_Normal
               in Inr (Inr (zeroAdminResponse\<lparr>ar_Split := Some [newRegion, derived]\<rparr>,
                            Some (ExecResultSplitRegion [newRegion, derived] derived)), wb3)))"

definition execCompactLog ::
    "AdminRequest \<Rightarrow> RaftApplyState \<Rightarrow> fault + ((rserr + (AdminResponse \<times> execResult option)) \<times> RaftApplyState)" where
  "execCompactLog req applyState =
     (case aq_CompactLog req of
        None \<Rightarrow> Inl (Panic ''nil pointer dereference'')
      | Some cl \<Rightarrow>
          let compactIndex = lq_CompactIndex cl;
              firstIndex = rt_Index (ra_TruncatedState applyState) + 1
          in if compactIndex \<le> firstIndex then Inr (Inr (zeroAdminResponse, None), applyState)
             else
               let compactTerm = lq_CompactTerm cl
               in if compactTerm = 0 then Inr (Inl (ErrText ''command format is outdated, please upgrade leader''), applyState)
                  else if compactIndex \<le> rt_Index (ra_TruncatedState applyState) \<or> compactIndex > ra_AppliedIndex applyState
                  then Inr (Inr (zeroAdminResponse, None), applyState)
                  else Inr (Inr (zeroAdminResponse, Some (ExecResultCompactLog compactIndex firstIndex)),
                            applyState\<lparr>ra_TruncatedState := \<lparr>rt_Index = compactIndex, rt_Term = compactTerm\<rparr>\<rparr>))"

text \<open>What a command has changed: the applier, the write batch, and the apply state of the execution context.\<close>

type_synonym 'db execState = "applier \<times> WriteBatch \<times> RaftApplyState"

definition admin_outcome :: "AdminCmdType \<Rightarrow> rserr + (AdminResponse \<times> execResult option) \<Rightarrow> 'db outcome" where
  "admin_outcome cmdType res =
     (case res of
        Inl err \<Rightarrow> Inl err
      | Inr (adminResp, result) \<Rightarrow> Inr (newCmdResp\<lparr>rr_AdminResponse := Some (adminResp\<lparr>ar_CmdType := cmdType\<rparr>)\<rparr>, None, result))"

definition execAdminCmd :: "pbcodec \<Rightarrow> AdminRequest \<Rightarrow> 'db execState \<Rightarrow> fault + ('db outcome \<times> 'db execState)" where
  "execAdminCmd P adminReq s =
     (case s of (a, wb, applyState) \<Rightarrow>
       (case aq_CmdType adminReq of
          AdminChangePeer \<Rightarrow> bindR (execChangePeer P adminReq a wb) (\<lambda>(res, a1, wb1). Inr (admin_outcome AdminChangePeer res, a1, wb1, applyState))
        | AdminSplit \<Rightarrow> bindR (execSplit P adminReq (ap_region a) wb) (\<lambda>(res, wb1). Inr (admin_outcome AdminSplit res, a, wb1, applyState))
        | AdminCompactLog \<Rightarrow> bindR (execCompactLog adminReq applyState) (\<lambda>(res, st1). Inr (admin_outcome AdminCompactLog res, a, wb, st1))
        | AdminTransferLeader \<Rightarrow> Inr (Inl (ErrText ''transfer leader won't execute''), a, wb, applyState)
        | InvalidAdmin \<Rightarrow> Inr (Inl (ErrText ''unsupported command type''), a, wb, applyState)))"

definition execRaftCmd ::
    "'db badger \<Rightarrow> pbcodec \<Rightarrow> 'db \<Rightarrow> RaftCmdRequest \<Rightarrow> 'db execState \<Rightarrow> fault + ('db outcome \<times> 'db execState)" where
  "execRaftCmd B P kv req s =
     (case s of (a, wb, applyState) \<Rightarrow>
       (case CheckRegionEpoch req (ap_region a) False of
          Some err \<Rightarrow> Inr (Inl err, s)
        | None \<Rightarrow>
            (case rc_AdminRequest req of
               Some adminReq \<Rightarrow> execAdminCmd P adminReq s
             | None \<Rightarrow> bindR (execNormalCmd B kv (ap_region a) req wb) (\<lambda>(res, wb1). Inr (res, a, wb1, applyState)))))"

section \<open>Applying entries\<close>

definition take_result :: "execResult option \<Rightarrow> applier \<Rightarrow> fault + applier" where
  "take_result result a =
     (case result of
        Some (ExecResultChangePeer cc p region) \<Rightarrow>
          (case region of Some r \<Rightarrow> Inr (a\<lparr>ap_region := r\<rparr>) | None \<Rightarrow> Inl (Panic ''nil region''))
      | Some (ExecResultSplitRegion rs derived) \<Rightarrow> Inr (a\<lparr>ap_region := derived\<rparr>)
      | _ \<Rightarrow> Inr a)"

definition applyRaftCmd ::
    "'db badger \<Rightarrow> pbcodec \<Rightarrow> nat \<Rightarrow> RaftCmdRequest \<Rightarrow> applier \<Rightarrow> 'db applyContext
     \<Rightarrow> fault + ((RaftCmdResponse \<times> 'db option \<times> execResult option) \<times> applier \<times> 'db applyContext)" where
  "applyRaftCmd B P index req a ac =
     (if ap_pendingRemove a then Inl (Panic ''assertion failed'')
      else
        bindR (execRaftCmd B P (ac_kv ac) req (a, wb_SetSafePoint (ac_wb ac), ap_applyState a)) (\<lambda>(out, a1, wb1, st1).
        bindR (case out of
                 Inl err \<Rightarrow> bindR (wb_RollbackToSafePoint wb1) (\<lambda>wb2. Inr ((ErrResp err, None, None), wb2))
               | Inr r \<Rightarrow> Inr (r, wb1)) (\<lambda>((resp, txn, result), wb2).
        let a2 = a1\<lparr>ap_applyState := st1\<lparr>ra_AppliedIndex := index\<rparr>\<rparr>
        in bindR (take_result result a2) (\<lambda>a3. Inr ((resp, txn, result), a3, ac\<lparr>ac_wb := wb2\<rparr>)))))"

function findCallback_loop :: "nat \<Rightarrow> nat \<Rightarrow> pendingCmdQueue \<Rightarrow> callback option \<times> pendingCmdQueue \<times> 'db answer list" where
  "findCallback_loop index term q =
     (case popNormal term q of
        (None, q1) \<Rightarrow> (None, q1, [])
      | (Some head, q1) \<Rightarrow>
          if pc_index head = index \<and> pc_term head = term then (pc_cb head, q1, [])
          else let (cb, q2, ds) = findCallback_loop index term q1
               in (cb, q2, notifyStaleCommand term head @ ds))"
  by pat_completeness auto
termination
  by (relation "measure (\<lambda>(index, term, q). length (pd_normals q))") (auto simp: popNormal_def split: list.splits if_splits)

declare findCallback_loop.simps [simp del]

definition findCallback :: "nat \<Rightarrow> nat \<Rightarrow> bool \<Rightarrow> pendingCmdQueue \<Rightarrow> callback option \<times> pendingCmdQueue \<times> 'db answer list" where
  "findCallback index term isConfChange q =
     (if isConfChange
      then let (cmd, q1) = takeConfChange q
           in (case cmd of
                 None \<Rightarrow> (None, q1, [])
               | Some c \<Rightarrow> if pc_index c = index \<and> pc_term c = term then (pc_cb c, q1, [])
                           else (None, q1, notifyStaleCommand term c))
      else findCallback_loop index term q)"

definition processRaftCmd ::
    "'db badger \<Rightarrow> pbcodec \<Rightarrow> nat \<Rightarrow> nat \<Rightarrow> RaftCmdRequest \<Rightarrow> applier \<Rightarrow> 'db applyContext
     \<Rightarrow> fault + (execResult option \<times> applier \<times> 'db applyContext)" where
  "processRaftCmd B P index term cmd a ac =
     (if index = 0 then Inl (Panic ''process raft cmd need a none zero index'')
      else
        let isConfChange = GetChangePeerCmd cmd \<noteq> None
        in bindR (applyRaftCmd B P index cmd a ac) (\<lambda>((resp, txn, result), a1, ac1).
           let resp1 = BindRespTerm resp term;
               (cmdCB, q, ds) = findCallback index term isConfChange (ap_pendingCmds a1)
           in bindR (push_last cmdCB resp1 txn (ac1\<lparr>ac_done := ac_done ac1 @ ds\<rparr>)) (\<lambda>ac2.
                Inr (result, a1\<lparr>ap_pendingCmds := q\<rparr>, ac2))))"

function stale_loop :: "nat \<Rightarrow> pendingCmdQueue \<Rightarrow> 'db applyContext \<Rightarrow> fault + (pendingCmdQueue \<times> 'db applyContext)" where
  "stale_loop term q ac =
     (case popNormal (term - 1) q of
        (None, q1) \<Rightarrow> Inr (q1, ac)
      | (Some cmd, q1) \<Rightarrow> bindR (push_last (pc_cb cmd) (ErrRespStaleCommand term) None ac) (stale_loop term q1))"
  by pat_completeness auto
termination
  by (relation "measure (\<lambda>(term, q, ac). length (pd_normals q))") (auto simp: popNormal_def split: list.splits if_splits)

declare stale_loop.simps [simp del]

definition handleRaftEntryNormal ::
    "'db badger \<Rightarrow> pbcodec \<Rightarrow> cmdcodec \<Rightarrow> Entry \<Rightarrow> applier \<Rightarrow> 'db applyContext \<Rightarrow> fault + (execResult option \<times> applier \<times> 'db applyContext)" where
  "handleRaftEntryNormal B P Q entry a ac =
     (let index = e_Index entry; term = e_Term entry
      in if length (sbytes (e_Data entry)) > 0
         then (case un_RaftCmdRequest Q (sbytes (e_Data entry)) of
                 Inl _ \<Rightarrow> Inl (Panic ''unmarshal'')
               | Inr cmd \<Rightarrow> processRaftCmd B P index term cmd a ac)
         else
           let a1 = a\<lparr>ap_applyState := (ap_applyState a)\<lparr>ra_AppliedIndex := index\<rparr>\<rparr>
           in if \<not> term > 0 then Inl (Panic ''assertion failed'')
              else bindR (stale_loop term (ap_pendingCmds a1) ac) (\<lambda>(q, ac1). Inr (None, a1\<lparr>ap_pendingCmds := q\<rparr>, ac1)))"

definition handleRaftEntryConfChange ::
    "'db badger \<Rightarrow> pbcodec \<Rightarrow> cmdcodec \<Rightarrow> Entry \<Rightarrow> applier \<Rightarrow> 'db applyContext \<Rightarrow> fault + (execResult option \<times> applier \<times> 'db applyContext)" where
  "handleRaftEntryConfChange B P Q entry a ac =
     (let index = e_Index entry; term = e_Term entry
      in case un_ConfChange Q (sbytes (e_Data entry)) of
           Inl _ \<Rightarrow> Inl (Panic ''unmarshal'')
         | Inr confChange \<Rightarrow>
             (case un_RaftCmdRequest Q (sbytes (cc_Context confChange)) of
                Inl _ \<Rightarrow> Inl (Panic ''unmarshal'')
              | Inr cmd \<Rightarrow>
                  bindR (processRaftCmd B P index term cmd a ac) (\<lambda>(result, a1, ac1).
                  case result of
                    None \<Rightarrow> Inr (Some (ExecResultChangePeer zeroConfChange None None), a1, ac1)
                  | Some (ExecResultChangePeer cc p r) \<Rightarrow> Inr (Some (ExecResultChangePeer confChange p r), a1, ac1)
                  | Some _ \<Rightarrow> Inl (Panic ''interface conversion''))))"

definition handleRaftEntry ::
    "'db badger \<Rightarrow> pbcodec \<Rightarrow> cmdcodec \<Rightarrow> Entry \<Rightarrow> applier \<Rightarrow> 'db applyContext \<Rightarrow> fault + (execResult option \<times> applier \<times> 'db applyContext)" where
  "handleRaftEntry B P Q entry a ac =
     (case e_EntryType entry of
        EntryNormal \<Rightarrow> handleRaftEntryNormal B P Q entry a ac
      | EntryConfChange \<Rightarrow> handleRaftEntryConfChange B P Q entry a ac)"

fun committed_loop ::
    "'db badger \<Rightarrow> pbcodec \<Rightarrow> cmdcodec \<Rightarrow> Entry list \<Rightarrow> execResult list \<Rightarrow> applier \<Rightarrow> 'db applyContext
     \<Rightarrow> fault + (execResult list \<times> applier \<times> 'db applyContext)" where
  "committed_loop B P Q [] results a ac = Inr (results, a, ac)"
| "committed_loop B P Q (entry # es) results a ac =
     (if ap_pendingRemove a then Inr (results, a, ac)
      else
        let expectedIndex = ra_AppliedIndex (ap_applyState a) + 1
        in if expectedIndex \<noteq> e_Index entry then Inl (Panic ''expect index'')
           else
             bindR (handleRaftEntry B P Q entry a ac) (\<lambda>(res, a1, ac1).
             bindR (ac_commit B P a1 ac1) (\<lambda>(a2, ac2).
             committed_loop B P Q es (results @ (case res of None \<Rightarrow> [] | Some r \<Rightarrow> [r])) a2 ac2)))"

definition handleRaftCommittedEntries ::
    "'db badger \<Rightarrow> pbcodec \<Rightarrow> cmdcodec \<Rightarrow> Entry list \<Rightarrow> applier \<Rightarrow> 'db applyContext \<Rightarrow> fault + (applier \<times> 'db applyContext)" where
  "handleRaftCommittedEntries B P Q committedEntries a ac =
     (if length committedEntries = 0 then Inr (a, ac)
      else
        bindR (prepareFor B P a ac) (\<lambda>(a1, ac1).
        bindR (committed_loop B P Q committedEntries [] a1
                 (ac1\<lparr>ac_committedCount := ac_committedCount ac1 + 2 * length committedEntries\<rparr>)) (\<lambda>(results, a2, ac2).
        finishFor B P results a2 ac2)))"

definition handleApply ::
    "'db badger \<Rightarrow> pbcodec \<Rightarrow> cmdcodec \<Rightarrow> MsgApplyCommitted \<Rightarrow> applier \<Rightarrow> 'db applyContext \<Rightarrow> fault + (applier \<times> 'db applyContext)" where
  "handleApply B P Q apply a ac =
     (if length (mc_entries apply) = 0 \<or> ap_pendingRemove a then Inr (a, ac)
      else handleRaftCommittedEntries B P Q (mc_entries apply) (a\<lparr>ap_term := mc_term apply\<rparr>) ac)"

datatype apply_msg = ApplyProposal MsgApplyProposal | ApplyCommitted MsgApplyCommitted | ApplyRefresh MsgApplyRefresh

definition handleTask ::
    "'db badger \<Rightarrow> pbcodec \<Rightarrow> cmdcodec \<Rightarrow> apply_msg \<Rightarrow> applier \<Rightarrow> 'db applyContext \<Rightarrow> fault + (applier \<times> 'db applyContext)" where
  "handleTask B P Q msg a ac =
     (case msg of
        ApplyProposal p \<Rightarrow> bindR (handleProposal p a) (\<lambda>(ds, a1). Inr (a1, ac\<lparr>ac_done := ac_done ac @ ds\<rparr>))
      | ApplyCommitted c \<Rightarrow> handleApply B P Q c a ac
      | ApplyRefresh r \<Rightarrow> bindR (handleRefresh r a) (\<lambda>(ds, a1). Inr (a1, ac\<lparr>ac_done := ac_done ac @ ds\<rparr>)))"

text \<open>
  One round of the apply worker, \<open>applyWorker.run\<close>: the messages of a batch, each looked up in the router (\<open>router.go\<close>), and the flush. The router
  is shared with the raft worker, which registers and closes peers meanwhile, so the events of a round are the messages in order and the
  changes of the router between them; a change in the middle of a message is not considered. A message for a region that is not registered is skipped.
\<close>

datatype round_event = Task nat apply_msg | Register nat applier | Close nat

type_synonym router = "nat \<Rightarrow> applier option"

definition router_close :: "nat \<Rightarrow> router \<Rightarrow> 'db answer list \<times> router" where
  "router_close regionID pr =
     (case pr regionID of
        None \<Rightarrow> ([], pr)
      | Some a \<Rightarrow> (fst (applier_destroy a), pr(regionID := None)))"

fun task_loop :: "'db badger \<Rightarrow> pbcodec \<Rightarrow> cmdcodec \<Rightarrow> round_event list \<Rightarrow> router \<Rightarrow> 'db applyContext \<Rightarrow> fault + (router \<times> 'db applyContext)" where
  "task_loop B P Q [] pr ac = Inr (pr, ac)"
| "task_loop B P Q (Task regionID msg # evs) pr ac =
     (case pr regionID of
        None \<Rightarrow> task_loop B P Q evs pr ac
      | Some a \<Rightarrow> bindR (handleTask B P Q msg a ac) (\<lambda>(a1, ac1). task_loop B P Q evs (pr(regionID \<mapsto> a1)) ac1))"
| "task_loop B P Q (Register regionID a # evs) pr ac = task_loop B P Q evs (pr(regionID \<mapsto> a)) ac"
| "task_loop B P Q (Close regionID # evs) pr ac =
     (case router_close regionID pr of (ds, pr1) \<Rightarrow> task_loop B P Q evs pr1 (ac\<lparr>ac_done := ac_done ac @ ds\<rparr>))"

definition apply_round :: "'db badger \<Rightarrow> pbcodec \<Rightarrow> cmdcodec \<Rightarrow> round_event list \<Rightarrow> router \<Rightarrow> 'db applyContext \<Rightarrow> fault + (router \<times> 'db applyContext)" where
  "apply_round B P Q evs pr ac =
     bindR (task_loop B P Q evs pr ac) (\<lambda>(pr1, ac1). bindR (ac_flush B ac1) (\<lambda>ac2. Inr (pr1, ac2)))"

end
