(* ===== verification/Applier_Spec.thy ===== *)
theory Applier_Spec
  imports Applier PeerStorage_Spec
begin

text \<open>
  What applying committed entries does to a replica. The state of a replica is its region, its apply state and whether it
  has been removed; an entry determines the next state and one batch of writes, whatever the callbacks, the
  term and the content of the engine are. The applier implements this machine with one
  transaction per entry that holds the data, the region and the applied index together; so a replica
  that stops between any two transactions resumes where it was.
\<close>

section \<open>The replicated state machine\<close>

record rsm =
  sm_region :: Region
  sm_apply :: RaftApplyState
  sm_removed :: bool

definition in_region :: "Region \<Rightarrow> Request \<Rightarrow> bool" where
  "in_region region r =
     (case rq_CmdType r of
        CmdType_Put \<Rightarrow> pq_Key (GetPut r) \<in> region_keys_of region
      | CmdType_Delete \<Rightarrow> dq_Key (GetDelete r) \<in> region_keys_of region
      | CmdType_Get \<Rightarrow> gq_Key (GetGet r) \<in> region_keys_of region
      | _ \<Rightarrow> True)"

definition request_writes :: "Region \<Rightarrow> Request \<Rightarrow> (bytes \<times> goslice) list" where
  "request_writes region r =
     (if \<not> in_region region r then []
      else case rq_CmdType r of
             CmdType_Put \<Rightarrow> [(KeyWithCF (cf_or_default (pq_Cf (GetPut r))) (pq_Key (GetPut r)), pq_Value (GetPut r))]
           | CmdType_Delete \<Rightarrow> [(KeyWithCF (cf_or_default (dq_Cf (GetDelete r))) (dq_Key (GetDelete r)), None)]
           | _ \<Rightarrow> [])"

text \<open>Only the last request that is not a snapshot request decides whether the command is refused.\<close>

definition refused :: "Region \<Rightarrow> Request list \<Rightarrow> bool" where
  "refused region rs = (let qs = filter (\<lambda>r. rq_CmdType r \<noteq> CmdType_Snap) rs in qs \<noteq> [] \<and> \<not> in_region region (last qs))"

definition normal_writes :: "Region \<Rightarrow> Request list \<Rightarrow> (bytes \<times> goslice) list" where
  "normal_writes region rs = (if refused region rs then [] else concat (map (request_writes region) rs))"

definition region_write :: "pbcodec \<Rightarrow> PeerState \<Rightarrow> Region \<Rightarrow> bytes \<times> goslice" where
  "region_write P state r = (RegionStateKey (rg_Id r), Some (pb_RegionLocalState P \<lparr>rs_State = state, rs_Region = r\<rparr>))"

definition apply_write :: "pbcodec \<Rightarrow> nat \<Rightarrow> RaftApplyState \<Rightarrow> bytes \<times> goslice" where
  "apply_write P rid st = (ApplyStateKey rid, Some (pb_RaftApplyState P st))"

definition init_apply :: RaftApplyState where
  "init_apply = \<lparr>ra_AppliedIndex = RaftInitLogIndex, ra_TruncatedState = \<lparr>rt_Index = RaftInitLogIndex, rt_Term = RaftInitLogTerm\<rparr>\<rparr>"

text \<open>The log may be truncated up to an applied index beyond the first one.\<close>

definition compact :: "CompactLogRequest \<Rightarrow> RaftApplyState \<Rightarrow> RaftApplyState" where
  "compact c st =
     (if rt_Index (ra_TruncatedState st) + 1 < lq_CompactIndex c \<and> lq_CompactTerm c \<noteq> 0 \<and> lq_CompactIndex c \<le> ra_AppliedIndex st
      then st\<lparr>ra_TruncatedState := \<lparr>rt_Index = lq_CompactIndex c, rt_Term = lq_CompactTerm c\<rparr>\<rparr> else st)"

definition admin_effect :: "pbcodec \<Rightarrow> nat \<Rightarrow> AdminRequest \<Rightarrow> rsm \<Rightarrow> (bytes \<times> goslice) list \<times> rsm" where
  "admin_effect P pid req s =
     (case aq_CmdType req of
        AdminChangePeer \<Rightarrow>
          (let c = the (aq_ChangePeer req); p = the (cq_Peer c)
           in case change_peers (sm_region s) (cq_ChangeType c) p of
                Inl _ \<Rightarrow> ([], s)
              | Inr r \<Rightarrow> let gone = (cq_ChangeType c = RemoveNode \<and> pr_Id p = pid)
                         in ([region_write P (if gone then PeerState_Tombstone else PeerState_Normal) r], s\<lparr>sm_region := r, sm_removed := gone\<rparr>))
      | AdminSplit \<Rightarrow>
          (let q = the (aq_Split req)
           in if split_check (sm_region s) q \<noteq> None then ([], s)
              else let (new, derived) = split_regions (sm_region s) q
                   in ([region_write P PeerState_Normal new, apply_write P (rg_Id new) init_apply, region_write P PeerState_Normal derived],
                       s\<lparr>sm_region := derived\<rparr>))
      | AdminCompactLog \<Rightarrow> ([], s\<lparr>sm_apply := compact (the (aq_CompactLog req)) (sm_apply s)\<rparr>)
      | _ \<Rightarrow> ([], s))"

definition cmd_effect :: "pbcodec \<Rightarrow> nat \<Rightarrow> RaftCmdRequest \<Rightarrow> rsm \<Rightarrow> (bytes \<times> goslice) list \<times> rsm" where
  "cmd_effect P pid req s =
     (if CheckRegionEpoch req (sm_region s) False \<noteq> None then ([], s)
      else case rc_AdminRequest req of
             None \<Rightarrow> (normal_writes (sm_region s) (rc_Requests req), s)
           | Some a \<Rightarrow> admin_effect P pid a s)"

definition entry_cmd :: "cmdcodec \<Rightarrow> Entry \<Rightarrow> RaftCmdRequest option" where
  "entry_cmd Q e =
     (case e_EntryType e of
        EntryNormal \<Rightarrow> if sbytes (e_Data e) = [] then None
                       else (case un_RaftCmdRequest Q (sbytes (e_Data e)) of Inl _ \<Rightarrow> None | Inr c \<Rightarrow> Some c)
      | EntryConfChange \<Rightarrow>
          (case un_ConfChange Q (sbytes (e_Data e)) of
             Inl _ \<Rightarrow> None
           | Inr cc \<Rightarrow> (case un_RaftCmdRequest Q (sbytes (cc_Context cc)) of Inl _ \<Rightarrow> None | Inr c \<Rightarrow> Some c)))"

definition entry_effect :: "pbcodec \<Rightarrow> cmdcodec \<Rightarrow> nat \<Rightarrow> Entry \<Rightarrow> rsm \<Rightarrow> (bytes \<times> goslice) list \<times> rsm" where
  "entry_effect P Q pid e s =
     (let (ws, s1) = (case entry_cmd Q e of None \<Rightarrow> ([], s) | Some c \<Rightarrow> cmd_effect P pid c s);
          s2 = s1\<lparr>sm_apply := (sm_apply s1)\<lparr>ra_AppliedIndex := e_Index e\<rparr>\<rparr>
      in (ws @ [apply_write P (rg_Id (sm_region s2)) (sm_apply s2)], s2))"

text \<open>The batches of a run of entries, one per entry, and the state after it. A removed replica stops.\<close>

fun entries_effect :: "pbcodec \<Rightarrow> cmdcodec \<Rightarrow> nat \<Rightarrow> Entry list \<Rightarrow> rsm \<Rightarrow> (bytes \<times> goslice) list list \<times> rsm" where
  "entries_effect P Q pid [] s = ([], s)"
| "entries_effect P Q pid (e # es) s =
     (if sm_removed s then ([], s)
      else let (ws, s1) = entry_effect P Q pid e s; (bs, s2) = entries_effect P Q pid es s1 in (ws # bs, s2))"

lemma entries_effect_ConsE:
  assumes "entries_effect P Q pid (e # es) s = (bs, s')" "\<not> sm_removed s"
  obtains bs1 where "entries_effect P Q pid es (snd (entry_effect P Q pid e s)) = (bs1, s')" "bs = fst (entry_effect P Q pid e s) # bs1"
proof (rule that [of "fst (entries_effect P Q pid es (snd (entry_effect P Q pid e s)))"])
qed (use assms in \<open>auto simp: case_prod_unfold Let_def\<close>)

text \<open>What a batch leaves in the engine.\<close>

definition disk_write :: "(bytes \<Rightarrow> goslice option) \<Rightarrow> (bytes \<times> goslice) list \<Rightarrow> bytes \<Rightarrow> goslice option" where
  "disk_write m es k = (case map_of (rev es) k of None \<Rightarrow> m k | Some v \<Rightarrow> if sbytes v = [] then None else Some v)"

section \<open>Well-formed entries\<close>

text \<open>
  What the applier takes for granted: entries decode, an administrative command carries its request, a membership change entry
  a membership change command, reads and writes are not mixed, an empty entry has a term.
\<close>

definition admin_wf :: "AdminRequest \<Rightarrow> bool" where
  "admin_wf a =
     (case aq_CmdType a of
        AdminChangePeer \<Rightarrow> aq_ChangePeer a \<noteq> None \<and> cq_Peer (the (aq_ChangePeer a)) \<noteq> None
      | AdminSplit \<Rightarrow> aq_Split a \<noteq> None
      | AdminCompactLog \<Rightarrow> aq_CompactLog a \<noteq> None \<and> lq_CompactTerm (the (aq_CompactLog a)) < 2 ^ 64
      | _ \<Rightarrow> True)"

definition is_write :: "Request \<Rightarrow> bool" where
  "is_write r \<longleftrightarrow> rq_CmdType r \<in> {CmdType_Put, CmdType_Delete}"

definition is_read :: "Request \<Rightarrow> bool" where
  "is_read r \<longleftrightarrow> rq_CmdType r \<in> {CmdType_Get, CmdType_Snap}"

definition cmd_wf :: "RaftCmdRequest \<Rightarrow> bool" where
  "cmd_wf c =
     (case rc_AdminRequest c of
        Some a \<Rightarrow> admin_wf a
      | None \<Rightarrow> list_all is_write (rc_Requests c) \<or> list_all is_read (rc_Requests c))"

definition entry_wf :: "cmdcodec \<Rightarrow> Entry \<Rightarrow> bool" where
  "entry_wf Q e \<longleftrightarrow> 0 < e_Index e \<and> e_Index e < 2 ^ 64 \<and> 0 < e_Term e
     \<and> (\<forall>c. entry_cmd Q e = Some c \<longrightarrow> cmd_wf c)
     \<and> (entry_cmd Q e = None \<longrightarrow> e_EntryType e = EntryNormal \<and> sbytes (e_Data e) = [])
     \<and> (e_EntryType e = EntryConfChange \<longrightarrow> (\<exists>c a. entry_cmd Q e = Some c \<and> rc_AdminRequest c = Some a \<and> aq_CmdType a = AdminChangePeer))"

section \<open>Executing a command\<close>

lemma wb_entries_ops [simp]:
  "wb_entries (wb_SetCF wb cf k v) = wb_entries wb @ [(KeyWithCF cf k, v)]"
  "wb_entries (wb_DeleteCF wb cf k) = wb_entries wb @ [(KeyWithCF cf k, None)]"
  "wb_entries (wb_SetMeta f wb k x) = wb_entries wb @ [(k, Some (f x))]"
  "wb_entries (wb_SetSafePoint wb) = wb_entries wb" "wb_entries (wb_Reset wb) = []"
  "wb_entries (WriteRegionState P wb r st) = wb_entries wb @ [region_write P st r]"
  "wb_entries (writeInitialApplyState P wb i) = wb_entries wb @ [apply_write P i init_apply]"
  by (simp_all add: wb_SetCF_def wb_DeleteCF_def wb_SetMeta_def wb_add_def wb_SetSafePoint_def wb_Reset_def WriteRegionState_def
      writeInitialApplyState_def region_write_def apply_write_def init_apply_def Let_def)

lemma wb_safePoint_ops [simp]:
  "wb_safePoint (wb_SetCF wb cf k v) = wb_safePoint wb" "wb_safePoint (wb_DeleteCF wb cf k) = wb_safePoint wb"
  "wb_safePoint (wb_SetMeta f wb k x) = wb_safePoint wb" "wb_safePoint (wb_SetSafePoint wb) = length (wb_entries wb)"
  "wb_safePoint (WriteRegionState P wb r st) = wb_safePoint wb" "wb_safePoint (writeInitialApplyState P wb i) = wb_safePoint wb"
  by (simp_all add: wb_SetCF_def wb_DeleteCF_def wb_SetMeta_def wb_add_def wb_SetSafePoint_def WriteRegionState_def writeInitialApplyState_def Let_def)

definition unrefused :: "Region \<Rightarrow> Request list \<Rightarrow> bool \<Rightarrow> bool" where
  "unrefused region rs ok0 = (let qs = filter (\<lambda>r. rq_CmdType r \<noteq> CmdType_Snap) rs in if qs = [] then ok0 else in_region region (last qs))"

text \<open>A command that is executed: its writes are appended, a refused one leaves no trace.\<close>

definition state_of :: "applier \<Rightarrow> rsm" where
  "state_of a = \<lparr>sm_region = ap_region a, sm_apply = ap_applyState a, sm_removed = ap_pendingRemove a\<rparr>"

definition quiet :: "applier \<Rightarrow> applier \<Rightarrow> bool" where
  "quiet a a' \<longleftrightarrow> ap_id a' = ap_id a \<and> ap_pendingCmds a' = ap_pendingCmds a \<and> ap_term a' = ap_term a"

lemma execAdminCmd_ok:
  assumes "admin_wf req" "\<not> ap_pendingRemove a"
  shows "\<exists>out a1 wb1 st1. execAdminCmd P req (a, wb, ap_applyState a) = Inr (out, a1, wb1, st1) \<and> wb_safePoint wb1 = wb_safePoint wb
    \<and> (case out of
         Inl e \<Rightarrow> admin_effect P (ap_id a) req (state_of a) = ([], state_of a) \<and> a1 = a \<and> wb1 = wb \<and> st1 = ap_applyState a
       | Inr (resp, txn, result) \<Rightarrow> \<exists>a2. take_result result (a1\<lparr>ap_applyState := st1\<rparr>) = Inr a2 \<and> quiet a a2
           \<and> admin_effect P (ap_id a) req (state_of a) = (drop (length (wb_entries wb)) (wb_entries wb1), state_of a2)
           \<and> take (length (wb_entries wb)) (wb_entries wb1) = wb_entries wb
           \<and> (aq_CmdType req = AdminChangePeer \<longrightarrow> (\<exists>cc p r. result = Some (ExecResultChangePeer cc p r)))
           \<and> (\<forall>cc p r. result = Some (ExecResultChangePeer cc p r) \<longrightarrow> r \<noteq> None))"
proof (cases "aq_CmdType req")
  case AdminChangePeer
  then obtain c p where c: "aq_ChangePeer req = Some c" "cq_Peer c = Some p" using assms(1) by (auto simp: admin_wf_def)
  show ?thesis
    using AdminChangePeer c assms(2)
    by (cases "change_peers (ap_region a) (cq_ChangeType c) p")
       (auto simp: execAdminCmd_def execChangePeer_def admin_outcome_def admin_effect_def state_of_def take_result_def quiet_def Let_def)
next
  case AdminSplit
  then obtain q where q: "aq_Split req = Some q" using assms(1) by (auto simp: admin_wf_def)
  show ?thesis
    using AdminSplit q assms(2)
    by (cases "split_check (ap_region a) q"; cases "split_regions (ap_region a) q")
       (auto simp: execAdminCmd_def execSplit_def admin_outcome_def admin_effect_def state_of_def take_result_def quiet_def Let_def)
next
  case AdminCompactLog
  then obtain c where c: "aq_CompactLog req = Some c" using assms(1) by (auto simp: admin_wf_def)
  show ?thesis
    using AdminCompactLog c assms(2)
    by (auto simp: execAdminCmd_def execCompactLog_def admin_outcome_def admin_effect_def state_of_def take_result_def quiet_def compact_def Let_def)
qed (auto simp: execAdminCmd_def admin_effect_def)

context badger_spec
begin

lemma get_family: "ok db \<Longrightarrow> GetCF B db cf k = Inl e \<Longrightarrow> e = ErrKeyNotFound"
  using get [of db "KeyWithCF cf k"] by (auto simp: GetCF_def GetCFFromTxn_def split: option.splits)

lemma normal_request_ok:
  assumes "ok kv" "rq_CmdType r \<noteq> CmdType_Invalid"
  shows "\<exists>s'. normal_request B kv region r s = Inr s' \<and> wb_entries (nl_wb s') = wb_entries (nl_wb s) @ request_writes region r
    \<and> wb_safePoint (nl_wb s') = wb_safePoint (nl_wb s)
    \<and> (nl_err s' = None \<longleftrightarrow> (if rq_CmdType r = CmdType_Snap then nl_err s = None else in_region region r))
    \<and> nl_hasWrite s' = (nl_hasWrite s \<or> is_write r) \<and> nl_hasRead s' = (nl_hasRead s \<or> is_read r)"
  using assms get_family [OF assms(1)]
  by (auto simp: normal_request_def handlePut_def handleDelete_def handleGet_def Let_def request_writes_def in_region_def is_write_def is_read_def
      CheckKeyInRegion_None [symmetric] split: CmdType.splits option.splits sum.splits)

lemma normal_loop_ok:
  assumes "ok kv" "\<forall>r \<in> set rs. rq_CmdType r \<noteq> CmdType_Invalid"
  shows "\<exists>s'. normal_loop B kv region rs s = Inr s' \<and> wb_entries (nl_wb s') = wb_entries (nl_wb s) @ concat (map (request_writes region) rs)
    \<and> wb_safePoint (nl_wb s') = wb_safePoint (nl_wb s)
    \<and> (nl_err s' = None \<longleftrightarrow> unrefused region rs (nl_err s = None))
    \<and> nl_hasWrite s' = (nl_hasWrite s \<or> (\<exists>r \<in> set rs. is_write r)) \<and> nl_hasRead s' = (nl_hasRead s \<or> (\<exists>r \<in> set rs. is_read r))"
  using assms(2)
proof (induction rs arbitrary: s)
  case Nil
  then show ?case by (simp add: unrefused_def)
next
  case (Cons r rs)
  have rest: "\<forall>r \<in> set rs. rq_CmdType r \<noteq> CmdType_Invalid" using Cons.prems by simp
  obtain s1 where s1: "normal_request B kv region r s = Inr s1" "wb_entries (nl_wb s1) = wb_entries (nl_wb s) @ request_writes region r"
    "wb_safePoint (nl_wb s1) = wb_safePoint (nl_wb s)"
    "nl_err s1 = None \<longleftrightarrow> (if rq_CmdType r = CmdType_Snap then nl_err s = None else in_region region r)"
    "nl_hasWrite s1 = (nl_hasWrite s \<or> is_write r)" "nl_hasRead s1 = (nl_hasRead s \<or> is_read r)"
    using normal_request_ok [OF assms(1) bspec [OF Cons.prems list.set_intros(1)], of region s] by (elim exE conjE) (rule that; assumption)
  obtain s2 where s2: "normal_loop B kv region rs s1 = Inr s2" "wb_entries (nl_wb s2) = wb_entries (nl_wb s1) @ concat (map (request_writes region) rs)"
    "wb_safePoint (nl_wb s2) = wb_safePoint (nl_wb s1)" "nl_err s2 = None \<longleftrightarrow> unrefused region rs (nl_err s1 = None)"
    "nl_hasWrite s2 = (nl_hasWrite s1 \<or> (\<exists>r \<in> set rs. is_write r))" "nl_hasRead s2 = (nl_hasRead s1 \<or> (\<exists>r \<in> set rs. is_read r))"
    using Cons.IH [OF rest, of s1] by (elim exE conjE) (rule that; assumption)
  have "unrefused region (r # rs) (nl_err s = None) = unrefused region rs (nl_err s1 = None)"
    using s1(4) by (auto simp: unrefused_def Let_def filter_empty_conv)
  then show ?case using s1 s2 by auto
qed

lemma execNormalCmd_ok:
  assumes "ok kv" "list_all is_write (rc_Requests req) \<or> list_all is_read (rc_Requests req)"
  shows "\<exists>out wb'. execNormalCmd B kv region req wb = Inr (out, wb') \<and> wb_safePoint wb' = wb_safePoint wb
    \<and> wb_entries wb' = wb_entries wb @ concat (map (request_writes region) (rc_Requests req))
    \<and> (if refused region (rc_Requests req) then \<exists>e. out = Inl e else \<exists>resp txn. out = Inr (resp, txn, None))"
proof -
  let ?s0 = "\<lparr>nl_resps = [], nl_txn = None, nl_err = None, nl_hasWrite = False, nl_hasRead = False, nl_wb = wb\<rparr>"
  have valid: "\<forall>r \<in> set (rc_Requests req). rq_CmdType r \<noteq> CmdType_Invalid"
    using assms(2) by (auto simp: list_all_iff is_write_def is_read_def)
  obtain s where s: "normal_loop B kv region (rc_Requests req) ?s0 = Inr s"
    "wb_entries (nl_wb s) = wb_entries wb @ concat (map (request_writes region) (rc_Requests req))" "wb_safePoint (nl_wb s) = wb_safePoint wb"
    "nl_err s = None \<longleftrightarrow> unrefused region (rc_Requests req) True"
    "nl_hasWrite s = (\<exists>r \<in> set (rc_Requests req). is_write r)" "nl_hasRead s = (\<exists>r \<in> set (rc_Requests req). is_read r)"
    using normal_loop_ok [OF assms(1) valid, of region ?s0] by (elim exE conjE) (rule that; simp)
  have mixed: "\<not> (nl_hasWrite s \<and> nl_hasRead s)" using s(5,6) assms(2) by (fastforce simp: list_all_iff is_write_def is_read_def)
  have "refused region (rc_Requests req) = (\<not> unrefused region (rc_Requests req) True)" by (simp add: refused_def unrefused_def Let_def)
  then show ?thesis using s mixed by (auto simp: execNormalCmd_def split: option.splits)
qed

lemma take_result_apply: "take_result r a = Inr b \<Longrightarrow> take_result r (a\<lparr>ap_applyState := st\<rparr>) = Inr (b\<lparr>ap_applyState := st\<rparr>)"
  by (auto simp: take_result_def split: option.splits execResult.splits)

lemma applyRaftCmd_ok:
  fixes P :: pbcodec
  assumes "ok (ac_kv ac)" "cmd_wf req" "\<not> ap_pendingRemove a"
  defines "eff \<equiv> cmd_effect P (ap_id a) req (state_of a)"
  shows "\<exists>resp txn result a1 wb1. applyRaftCmd B P index req a ac = Inr ((resp, txn, result), a1, ac\<lparr>ac_wb := wb1\<rparr>) \<and> quiet a a1
    \<and> wb_entries wb1 = wb_entries (ac_wb ac) @ fst eff
    \<and> state_of a1 = (snd eff)\<lparr>sm_apply := (sm_apply (snd eff))\<lparr>ra_AppliedIndex := index\<rparr>\<rparr>
    \<and> (\<forall>adm. rc_AdminRequest req = Some adm \<longrightarrow> aq_CmdType adm = AdminChangePeer \<longrightarrow> result = None \<or> (\<exists>cc p r. result = Some (ExecResultChangePeer cc p r)))"
proof -
  let ?wb = "wb_SetSafePoint (ac_wb ac)" and ?st = "ap_applyState a"
  have roll: "\<exists>wb2. wb_RollbackToSafePoint wb1 = Inr wb2 \<and> wb_entries wb2 = wb_entries (ac_wb ac)"
    if "wb_safePoint wb1 = length (wb_entries (ac_wb ac))" "wb_entries wb1 = wb_entries (ac_wb ac) @ ws" for wb1 ws
    using that by (simp add: wb_RollbackToSafePoint_def)
  show ?thesis
  proof (cases "CheckRegionEpoch req (ap_region a) False")
    case (Some e)
    then have "execRaftCmd B P (ac_kv ac) req (a, ?wb, ?st) = Inr (Inl e, a, ?wb, ?st)" by (simp add: execRaftCmd_def)
    moreover have "eff = ([], state_of a)" using Some by (simp add: eff_def cmd_effect_def state_of_def)
    ultimately show ?thesis using assms(3) roll [of ?wb "[]"]
      by (auto simp: applyRaftCmd_def take_result_def quiet_def state_of_def)
  next
    case None
    show ?thesis
    proof (cases "rc_AdminRequest req")
      case noadm: None
      have "list_all is_write (rc_Requests req) \<or> list_all is_read (rc_Requests req)" using assms(2) noadm by (simp add: cmd_wf_def)
      from execNormalCmd_ok [OF assms(1) this, of "ap_region a" ?wb] obtain out wb1 where
        n: "execNormalCmd B (ac_kv ac) (ap_region a) req ?wb = Inr (out, wb1)" "wb_safePoint wb1 = length (wb_entries (ac_wb ac))"
          "wb_entries wb1 = wb_entries (ac_wb ac) @ concat (map (request_writes (ap_region a)) (rc_Requests req))"
          "if refused (ap_region a) (rc_Requests req) then \<exists>e. out = Inl e else \<exists>resp txn. out = Inr (resp, txn, None)"
        by auto
      have ex: "execRaftCmd B P (ac_kv ac) req (a, ?wb, ?st) = Inr (out, a, wb1, ?st)" using None noadm n(1) by (simp add: execRaftCmd_def)
      have eff: "eff = (normal_writes (ap_region a) (rc_Requests req), state_of a)" using None noadm by (simp add: eff_def cmd_effect_def state_of_def)
      show ?thesis
        using ex assms(3) roll [OF n(2,3)] n(3,4) noadm unfolding eff normal_writes_def
        by (auto simp: applyRaftCmd_def take_result_def quiet_def state_of_def split: if_splits)
    next
      case (Some adm)
      have "admin_wf adm" using assms(2) Some by (simp add: cmd_wf_def)
      from execAdminCmd_ok [OF this assms(3), of P ?wb] obtain out :: "'db outcome" and a1 wb1 st1 where
        n: "execAdminCmd P adm (a, ?wb, ?st) = Inr (out, a1, wb1, st1)" "wb_safePoint wb1 = length (wb_entries (ac_wb ac))"
          "case out of
             Inl e \<Rightarrow> admin_effect P (ap_id a) adm (state_of a) = ([], state_of a) \<and> a1 = a \<and> wb1 = ?wb \<and> st1 = ap_applyState a
           | Inr (resp, txn, result) \<Rightarrow> \<exists>a2. take_result result (a1\<lparr>ap_applyState := st1\<rparr>) = Inr a2 \<and> quiet a a2
               \<and> admin_effect P (ap_id a) adm (state_of a) = (drop (length (wb_entries ?wb)) (wb_entries wb1), state_of a2)
               \<and> take (length (wb_entries ?wb)) (wb_entries wb1) = wb_entries ?wb
               \<and> (aq_CmdType adm = AdminChangePeer \<longrightarrow> (\<exists>cc p r. result = Some (ExecResultChangePeer cc p r)))
               \<and> (\<forall>cc p r. result = Some (ExecResultChangePeer cc p r) \<longrightarrow> r \<noteq> None)"
        by auto
      have ex: "execRaftCmd B P (ac_kv ac) req (a, ?wb, ?st) = Inr (out, a1, wb1, st1)" using None Some n(1) by (simp add: execRaftCmd_def)
      have eff: "eff = admin_effect P (ap_id a) adm (state_of a)" using None Some by (simp add: eff_def cmd_effect_def state_of_def)
      show ?thesis
      proof (cases out)
        case (Inl e)
        then have o: "a1 = a" "wb1 = ?wb" "st1 = ap_applyState a" "eff = ([], state_of a)" using n(3) eff by auto
        show ?thesis using Inl ex assms(3) roll [of ?wb "[]"] unfolding o
          by (auto simp: applyRaftCmd_def take_result_def quiet_def state_of_def)
      next
        case (Inr r)
        obtain resp txn result where r: "r = (resp, txn, result)" by (metis prod_cases3)
        then obtain a2 where a2: "take_result result (a1\<lparr>ap_applyState := st1\<rparr>) = Inr a2" "quiet a a2"
          "eff = (drop (length (wb_entries ?wb)) (wb_entries wb1), state_of a2)" "take (length (wb_entries ?wb)) (wb_entries wb1) = wb_entries ?wb"
          "aq_CmdType adm = AdminChangePeer \<longrightarrow> (\<exists>cc p r. result = Some (ExecResultChangePeer cc p r))"
          using n(3) Inr eff by auto
        have st: "sm_apply (state_of a2) = st1"
          using a2(1) by (auto simp: take_result_def state_of_def split: option.splits execResult.splits)
        let ?a3 = "a2\<lparr>ap_applyState := st1\<lparr>ra_AppliedIndex := index\<rparr>\<rparr>"
        have "take_result result (a1\<lparr>ap_applyState := st1\<lparr>ra_AppliedIndex := index\<rparr>\<rparr>) = Inr ?a3"
          using take_result_apply [OF a2(1), of "st1\<lparr>ra_AppliedIndex := index\<rparr>"] by simp
        then have "applyRaftCmd B P index req a ac = Inr ((resp, txn, result), ?a3, ac\<lparr>ac_wb := wb1\<rparr>)"
          using ex assms(3) Inr r by (simp add: applyRaftCmd_def)
        moreover have "quiet a ?a3" using a2(2) by (simp add: quiet_def)
        moreover have "wb_entries wb1 = wb_entries (ac_wb ac) @ fst eff" using a2(3,4) append_take_drop_id [of "length (wb_entries ?wb)" "wb_entries wb1"] by simp
        moreover have "state_of ?a3 = (snd eff)\<lparr>sm_apply := (sm_apply (snd eff))\<lparr>ra_AppliedIndex := index\<rparr>\<rparr>"
          using a2(3) st by (simp add: state_of_def)
        moreover have "\<forall>adm. rc_AdminRequest req = Some adm \<longrightarrow> aq_CmdType adm = AdminChangePeer \<longrightarrow> result = None \<or> (\<exists>cc p r. result = Some (ExecResultChangePeer cc p r))"
          using Some a2(5) by simp
        ultimately show ?thesis by blast
      qed
    qed
  qed
qed

lemma processRaftCmd_ok:
  fixes P :: pbcodec
  assumes "ok (ac_kv ac)" "cmd_wf req" "\<not> ap_pendingRemove a" "ac_cbs ac \<noteq> []" "0 < index"
  defines "eff \<equiv> cmd_effect P (ap_id a) req (state_of a)"
  shows "\<exists>result a1 ac1. processRaftCmd B P index term req a ac = Inr (result, a1, ac1) \<and> ap_id a1 = ap_id a
    \<and> wb_entries (ac_wb ac1) = wb_entries (ac_wb ac) @ fst eff \<and> ac_kv ac1 = ac_kv ac \<and> ac_lastAppliedIndex ac1 = ac_lastAppliedIndex ac \<and> ac_cbs ac1 \<noteq> []
    \<and> state_of a1 = (snd eff)\<lparr>sm_apply := (sm_apply (snd eff))\<lparr>ra_AppliedIndex := index\<rparr>\<rparr>
    \<and> (\<forall>adm. rc_AdminRequest req = Some adm \<longrightarrow> aq_CmdType adm = AdminChangePeer \<longrightarrow> result = None \<or> (\<exists>cc p r. result = Some (ExecResultChangePeer cc p r)))"
proof -
  obtain resp txn result a1 wb1 where ap: "applyRaftCmd B P index req a ac = Inr ((resp, txn, result), a1, ac\<lparr>ac_wb := wb1\<rparr>)" "quiet a a1"
    "wb_entries wb1 = wb_entries (ac_wb ac) @ fst eff" "state_of a1 = (snd eff)\<lparr>sm_apply := (sm_apply (snd eff))\<lparr>ra_AppliedIndex := index\<rparr>\<rparr>"
    "\<forall>adm. rc_AdminRequest req = Some adm \<longrightarrow> aq_CmdType adm = AdminChangePeer \<longrightarrow> result = None \<or> (\<exists>cc p r. result = Some (ExecResultChangePeer cc p r))"
    using applyRaftCmd_ok [OF assms(1-3), of P index, folded eff_def] by (elim exE conjE) (rule that; assumption)
  obtain cb q and ds :: "'db answer list" where cb: "findCallback index term (GetChangePeerCmd req \<noteq> None) (ap_pendingCmds a1) = (cb, q, ds)" by (metis prod_cases3)
  show ?thesis using ap cb assms(4,5) by (simp add: processRaftCmd_def Let_def push_last_def quiet_def state_of_def)
qed

lemma stale_loop_ok:
  "ac_cbs ac \<noteq> [] \<Longrightarrow> \<exists>q' cbs. stale_loop tm q ac = Inr (q', ac\<lparr>ac_cbs := cbs\<rparr>) \<and> cbs \<noteq> []"
proof (induction tm q ac rule: stale_loop.induct)
  case (1 tm q ac)
  obtain c q1 where pop: "popNormal (tm - 1) q = (c, q1)" by force
  show ?case
  proof (cases c)
    case None
    then show ?thesis using pop 1(2) by (auto simp: stale_loop.simps [of tm q] intro!: exI [of _ "ac_cbs ac"])
  next
    case (Some cmd)
    let ?ac = "ac\<lparr>ac_cbs := butlast (ac_cbs ac) @ [ak_push (pc_cb cmd) (ErrRespStaleCommand tm) None (last (ac_cbs ac))]\<rparr>"
    have push: "push_last (pc_cb cmd) (ErrRespStaleCommand tm) None ac = Inr ?ac" using 1(2) by (simp add: push_last_def)
    have "ac_cbs ?ac \<noteq> []" by simp
    from 1(1) [OF pop [symmetric] Some push this] show ?thesis using pop Some push by (auto simp: stale_loop.simps [of tm q])
  qed
qed

lemma handleRaftEntry_ok:
  fixes P :: pbcodec
  assumes "ok (ac_kv ac)" "entry_wf Q e" "\<not> ap_pendingRemove a" "ac_cbs ac \<noteq> []" "wb_entries (ac_wb ac) = []"
  defines "eff \<equiv> entry_effect P Q (ap_id a) e (state_of a)"
  shows "\<exists>result a1 ac1. handleRaftEntry B P Q e a ac = Inr (result, a1, ac1) \<and> ap_id a1 = ap_id a
    \<and> wb_entries (ac_wb ac1) @ [apply_write P (rg_Id (ap_region a1)) (ap_applyState a1)] = fst eff
    \<and> ac_kv ac1 = ac_kv ac \<and> ac_lastAppliedIndex ac1 = ac_lastAppliedIndex ac \<and> ac_cbs ac1 \<noteq> [] \<and> state_of a1 = snd eff"
proof (cases "entry_cmd Q e")
  case None
  then have n: "e_EntryType e = EntryNormal" "sbytes (e_Data e) = []" "0 < e_Term e" using assms(2) by (simp_all add: entry_wf_def)
  let ?a = "a\<lparr>ap_applyState := (ap_applyState a)\<lparr>ra_AppliedIndex := e_Index e\<rparr>\<rparr>"
  obtain q' cbs where "stale_loop (e_Term e) (ap_pendingCmds ?a) ac = Inr (q', ac\<lparr>ac_cbs := cbs\<rparr>)" "cbs \<noteq> []"
    using stale_loop_ok [OF assms(4), of "e_Term e" "ap_pendingCmds ?a"] by blast
  then show ?thesis using n None assms(5)
    by (simp add: handleRaftEntry_def handleRaftEntryNormal_def Let_def eff_def entry_effect_def state_of_def)
next
  case (Some c)
  then have wf: "cmd_wf c" "0 < e_Index e" using assms(2) by (simp_all add: entry_wf_def)
  define eff1 where "eff1 = cmd_effect P (ap_id a) c (state_of a)"
  obtain result a1 ac1 where p: "processRaftCmd B P (e_Index e) (e_Term e) c a ac = Inr (result, a1, ac1)" "ap_id a1 = ap_id a"
    "wb_entries (ac_wb ac1) = fst eff1" "ac_kv ac1 = ac_kv ac" "ac_lastAppliedIndex ac1 = ac_lastAppliedIndex ac" "ac_cbs ac1 \<noteq> []"
    "state_of a1 = (snd eff1)\<lparr>sm_apply := (sm_apply (snd eff1))\<lparr>ra_AppliedIndex := e_Index e\<rparr>\<rparr>"
    "\<forall>adm. rc_AdminRequest c = Some adm \<longrightarrow> aq_CmdType adm = AdminChangePeer \<longrightarrow> result = None \<or> (\<exists>cc p r. result = Some (ExecResultChangePeer cc p r))"
    using processRaftCmd_ok [OF assms(1) wf(1) assms(3,4) wf(2), of P "e_Term e"] assms(5) unfolding eff1_def [symmetric] by auto
  have a1: "ap_region a1 = sm_region (snd eff1)" "ap_applyState a1 = (sm_apply (snd eff1))\<lparr>ra_AppliedIndex := e_Index e\<rparr>"
    using arg_cong [OF p(7), of sm_region] arg_cong [OF p(7), of sm_apply] by (simp_all add: state_of_def)
  have eff: "eff = (fst eff1 @ [apply_write P (rg_Id (ap_region a1)) (ap_applyState a1)], state_of a1)"
    using Some p(7) by (simp add: eff_def entry_effect_def eff1_def [symmetric] case_prod_unfold Let_def a1)
  show ?thesis
  proof (cases "e_EntryType e")
    case EntryNormal
    then have "handleRaftEntry B P Q e a ac = Inr (result, a1, ac1)"
      using Some p(1) by (auto simp: handleRaftEntry_def handleRaftEntryNormal_def entry_cmd_def split: if_splits sum.splits)
    then show ?thesis using p eff by simp
  next
    case EntryConfChange
    then obtain cc where cc: "un_ConfChange Q (sbytes (e_Data e)) = Inr cc" "un_RaftCmdRequest Q (sbytes (cc_Context cc)) = Inr c"
      using Some by (auto simp: entry_cmd_def split: sum.splits)
    have "\<exists>adm. rc_AdminRequest c = Some adm \<and> aq_CmdType adm = AdminChangePeer" using assms(2) EntryConfChange Some by (auto simp: entry_wf_def)
    then have "result = None \<or> (\<exists>cc p r. result = Some (ExecResultChangePeer cc p r))" using p(8) by blast
    then have "\<exists>result'. handleRaftEntry B P Q e a ac = Inr (result', a1, ac1)"
      using EntryConfChange cc p(1) by (auto simp: handleRaftEntry_def handleRaftEntryConfChange_def)
    then show ?thesis using p eff by fastforce
  qed
qed

end

section \<open>One transaction per entry\<close>

text \<open>The database accepts every batch whose keys are not empty.\<close>

definition writes_succeed :: "'db badger \<Rightarrow> ('db \<Rightarrow> bool) \<Rightarrow> bool" where
  "writes_succeed B good \<longleftrightarrow> (\<forall>db ops. good db \<longrightarrow> (\<forall>op \<in> set ops. bop_Key op \<noteq> []) \<longrightarrow> (\<exists>db'. bd_Update B db ops = Inr db'))"

lemma keys_nonempty [simp]: "KeyWithCF cf k \<noteq> []" "RegionStateKey r \<noteq> []" "ApplyStateKey r \<noteq> []"
  by (simp_all add: KeyWithCF_def str_bytes_def key_defs)

lemma admin_effect_keys: "w \<in> set (fst (admin_effect P pid a s)) \<Longrightarrow> fst w \<noteq> []"
  by (auto simp: admin_effect_def region_write_def apply_write_def Let_def split: AdminCmdType.splits sum.splits prod.splits if_splits)

lemma request_writes_keys: "w \<in> set (request_writes region r) \<Longrightarrow> fst w \<noteq> []"
  by (cases "rq_CmdType r") (auto simp: request_writes_def split: if_splits)

lemma entry_effect_keys: "w \<in> set (fst (entry_effect P Q pid e s)) \<Longrightarrow> fst w \<noteq> []"
proof -
  have "fst w \<noteq> []" if w: "w \<in> set (fst (cmd_effect P pid c s))" for c
  proof (cases "rc_AdminRequest c")
    case None
    then show ?thesis using w by (auto simp: cmd_effect_def normal_writes_def dest: request_writes_keys split: if_splits)
  next
    case (Some a)
    then show ?thesis using w admin_effect_keys by (simp add: cmd_effect_def split: if_splits)
  qed
  then show "w \<in> set (fst (entry_effect P Q pid e s)) \<Longrightarrow> fst w \<noteq> []"
    by (fastforce simp: entry_effect_def case_prod_unfold Let_def apply_write_def split: option.splits)
qed

lemma entry_effect_applied: "ra_AppliedIndex (sm_apply (snd (entry_effect P Q pid e s))) = e_Index e"
  by (simp add: entry_effect_def case_prod_unfold Let_def)

lemma entry_effect_u64:
  assumes "apply_u64 (sm_apply s)" "entry_wf Q e"
  shows "apply_u64 (sm_apply (snd (entry_effect P Q pid e s)))"
proof -
  have adm: "apply_u64 (sm_apply (snd (admin_effect P pid a s)))" if "admin_wf a" for a
    using that assms(1)
    by (auto simp: admin_effect_def apply_u64_def u64_def compact_def admin_wf_def Let_def
        split: AdminCmdType.splits sum.splits prod.splits if_splits)
  then have "apply_u64 (sm_apply (snd (cmd_effect P pid c s)))" if "cmd_wf c" for c
    using that assms(1) by (auto simp: cmd_effect_def cmd_wf_def split: if_splits option.splits)
  then show ?thesis using assms
    by (auto simp: entry_effect_def case_prod_unfold Let_def entry_wf_def apply_u64_def u64_def split: option.splits)
qed

lemma change_peers_keeps: "change_peers r t p = Inr r' \<Longrightarrow> rg_Id r' = rg_Id r \<and> rg_StartKey r' = rg_StartKey r \<and> rg_EndKey r' = rg_EndKey r"
  by (cases t) (auto simp: change_peers_def RemovePeer_def Let_def split: option.splits prod.splits if_splits)

lemma admin_effect_id: "rg_Id (sm_region (snd (admin_effect P pid a s))) = rg_Id (sm_region s)"
  by (cases "aq_CmdType a") (auto simp: admin_effect_def Let_def split_regions_def dest: change_peers_keeps split: sum.splits)

lemma entry_effect_id: "rg_Id (sm_region (snd (entry_effect P Q pid e s))) = rg_Id (sm_region s)"
  by (simp add: entry_effect_def case_prod_unfold Let_def cmd_effect_def admin_effect_id split: option.splits)

text \<open>What is on disk after every transaction, kept by an engine that records it.\<close>

definition records :: "'db badger \<Rightarrow> ('db \<Rightarrow> cfdata) \<Rightarrow> ('db \<Rightarrow> (bytes \<Rightarrow> goslice option) list) \<Rightarrow> bool" where
  "records B content log \<longleftrightarrow> (\<forall>db ops db'. bd_Update B db ops = Inr db' \<longrightarrow> log db' = log db @ [map_of (content db')])"

fun disk_states :: "(bytes \<Rightarrow> goslice option) \<Rightarrow> (bytes \<times> goslice) list list \<Rightarrow> (bytes \<Rightarrow> goslice option) list" where
  "disk_states m [] = []"
| "disk_states m (b # bs) = disk_write m b # disk_states (disk_write m b) bs"

context peer_engine
begin

lemma write_batch:
  assumes "ok db" "writes_succeed B ok" "\<forall>w \<in> set (wb_entries wb). fst w \<noteq> []"
  shows "\<exists>db'. wb_WriteToDB B wb db = Inr db' \<and> ok db' \<and> map_of (content db') = disk_write (map_of (content db)) (wb_entries wb)
    \<and> (records B content log \<longrightarrow> log db' = log db @ (if wb_entries wb = [] then [] else [map_of (content db')]))"
proof (cases "wb_entries wb = []")
  case True
  then show ?thesis using assms(1) by (simp add: wb_WriteToDB_def disk_write_def fun_eq_iff)
next
  case False
  have "\<forall>op \<in> set (map entry_op (wb_entries wb)). bop_Key op \<noteq> []" using assms(3) by (auto simp: entry_op_def)
  then obtain db' where db': "bd_Update B db (map entry_op (wb_entries wb)) = Inr db'" using assms(1,2) unfolding writes_succeed_def by blast
  from update [OF assms(1) this] have "ok db'" "content db' = foldl apply_op (content db) (map entry_op (wb_entries wb))" by blast+
  moreover have "records B content log \<longrightarrow> log db' = log db @ [map_of (content db')]" using db' by (simp add: records_def)
  ultimately show ?thesis using db' False by (simp add: wb_WriteToDB_def disk_write_def fun_eq_iff batch_lookup)
qed

lemma read_apply:
  assumes "ok db" "apply_u64 st" "map_of (content db) (ApplyStateKey rid) = Some (Some (pb_RaftApplyState P st))"
  shows "GetApplyState B P db rid = Inr st"
  using assms apply_state by (simp add: GetApplyState_def get_meta sbytes_def)

lemma disk_write_last: "disk_write m (ws @ [apply_write P rid st]) (ApplyStateKey rid) = Some (Some (pb_RaftApplyState P st))"
  using apply_full by (simp add: disk_write_def apply_write_def sbytes_def)

lemma ac_commit_ok:
  assumes "ok (ac_kv ac)" "writes_succeed B ok" "\<forall>w \<in> set (wb_entries (ac_wb ac)). fst w \<noteq> []"
    and "ac_lastAppliedIndex ac < ra_AppliedIndex (ap_applyState a)" "apply_u64 (ap_applyState a)"
  shows "\<exists>ac2. ac_commit B P a ac = Inr (a, ac2) \<and> ok (ac_kv ac2) \<and> wb_entries (ac_wb ac2) = [] \<and> ac_cbs ac2 \<noteq> []
    \<and> ac_lastAppliedIndex ac2 = ra_AppliedIndex (ap_applyState a)
    \<and> map_of (content (ac_kv ac2)) = disk_write (map_of (content (ac_kv ac))) (wb_entries (ac_wb ac) @ [apply_write P (rg_Id (ap_region a)) (ap_applyState a)])
    \<and> GetApplyState B P (ac_kv ac2) (rg_Id (ap_region a)) = Inr (ap_applyState a)
    \<and> (records B content log \<longrightarrow> log (ac_kv ac2) = log (ac_kv ac) @ [map_of (content (ac_kv ac2))])"
proof -
  let ?wb = "writeApplyState P a (ac_wb ac)"
  have es: "wb_entries ?wb = wb_entries (ac_wb ac) @ [apply_write P (rg_Id (ap_region a)) (ap_applyState a)]"
    by (simp add: writeApplyState_def apply_write_def)
  obtain db' where db': "wb_WriteToDB B ?wb (ac_kv ac) = Inr db'" "ok db'" "map_of (content db') = disk_write (map_of (content (ac_kv ac))) (wb_entries ?wb)"
    "records B content log \<longrightarrow> log db' = log (ac_kv ac) @ [map_of (content db')]"
    using write_batch [OF assms(1,2), of ?wb log] assms(3) by (auto simp: es apply_write_def)
  have g: "GetApplyState B P db' (rg_Id (ap_region a)) = Inr (ap_applyState a)"
    using read_apply [OF db'(2) assms(5)] disk_write_last db'(3) es by simp
  have same: "a\<lparr>ap_applyState := ap_applyState a\<rparr> = a" by simp
  show ?thesis using db' g assms(4) es
    by (simp add: ac_commit_def commitOpt_def ac_writeToDB_def prepareFor_def Let_def same)
qed

abbreviation stored_apply :: "'db applyContext \<Rightarrow> applier \<Rightarrow> bool" where
  "stored_apply ac a \<equiv> map_of (content (ac_kv ac)) (ApplyStateKey (rg_Id (ap_region a))) = Some (Some (pb_RaftApplyState P (ap_applyState a)))"

text \<open>The loop over the entries of a round.\<close>

lemma loop_ok:
  assumes "ok (ac_kv ac)" "writes_succeed B ok" "wb_entries (ac_wb ac) = []" "ac_cbs ac \<noteq> []"
    and "ac_lastAppliedIndex ac = ra_AppliedIndex (ap_applyState a)" "apply_u64 (ap_applyState a)"
    and "contiguous (ra_AppliedIndex (ap_applyState a) + 1) es" "list_all (entry_wf Q) es"
    and "GetApplyState B P (ac_kv ac) (rg_Id (ap_region a)) = Inr (ap_applyState a)"
    and "entries_effect P Q (ap_id a) es (state_of a) = (bs, s')"
  shows "\<exists>results' a' ac'. committed_loop B P Q es results a ac = Inr (results', a', ac') \<and> ap_id a' = ap_id a \<and> state_of a' = s'
    \<and> ok (ac_kv ac') \<and> wb_entries (ac_wb ac') = [] \<and> ac_cbs ac' \<noteq> []
    \<and> map_of (content (ac_kv ac')) = foldl disk_write (map_of (content (ac_kv ac))) bs
    \<and> (stored_apply ac a \<or> es \<noteq> [] \<and> \<not> ap_pendingRemove a \<longrightarrow> stored_apply ac' a')
    \<and> (records B content log \<longrightarrow> log (ac_kv ac') = log (ac_kv ac) @ disk_states (map_of (content (ac_kv ac))) bs)"
  using assms
proof (induction es arbitrary: results a ac bs)
  case Nil
  then show ?case by auto
next
  case (Cons e es)
  show ?case
  proof (cases "ap_pendingRemove a")
    case True
    then have "bs = []" "s' = state_of a" using Cons.prems(10) by (simp_all add: state_of_def)
    then show ?thesis using True Cons.prems by auto
  next
    case False
    have e: "e_Index e = ra_AppliedIndex (ap_applyState a) + 1" "contiguous (e_Index e + 1) es"
      using Cons.prems(7) by simp_all
    have wf: "entry_wf Q e" "list_all (entry_wf Q) es" using Cons.prems(8) by simp_all
    define eff where "eff = entry_effect P Q (ap_id a) e (state_of a)"
    obtain result a1 ac1 where h: "handleRaftEntry B P Q e a ac = Inr (result, a1, ac1)" "ap_id a1 = ap_id a"
      "wb_entries (ac_wb ac1) @ [apply_write P (rg_Id (ap_region a1)) (ap_applyState a1)] = fst eff"
      "ac_kv ac1 = ac_kv ac" "ac_lastAppliedIndex ac1 = ac_lastAppliedIndex ac" "ac_cbs ac1 \<noteq> []" "state_of a1 = snd eff"
      using handleRaftEntry_ok [OF Cons.prems(1) wf(1) False Cons.prems(4,3), of P, folded eff_def] by (elim exE conjE) (rule that; assumption)
    have st1: "ap_applyState a1 = sm_apply (snd eff)" using h(7) by (metis rsm.select_convs(2) state_of_def)
    have idx: "ra_AppliedIndex (ap_applyState a1) = e_Index e" by (simp add: st1 eff_def entry_effect_applied)
    have u64: "apply_u64 (ap_applyState a1)"
      using entry_effect_u64 [OF _ wf(1), of "state_of a"] Cons.prems(6) by (simp add: st1 eff_def state_of_def)
    have keys: "\<forall>w \<in> set (wb_entries (ac_wb ac1)). fst w \<noteq> []"
    proof
      fix w
      assume "w \<in> set (wb_entries (ac_wb ac1))"
      then have "w \<in> set (fst eff)" unfolding h(3) [symmetric] by simp
      then show "fst w \<noteq> []" unfolding eff_def by (rule entry_effect_keys)
    qed
    have lt: "ac_lastAppliedIndex ac1 < ra_AppliedIndex (ap_applyState a1)" using h(5) Cons.prems(5) idx e(1) by simp
    obtain ac2 where c: "ac_commit B P a1 ac1 = Inr (a1, ac2)" "ok (ac_kv ac2)" "wb_entries (ac_wb ac2) = []" "ac_cbs ac2 \<noteq> []"
      "ac_lastAppliedIndex ac2 = ra_AppliedIndex (ap_applyState a1)"
      "map_of (content (ac_kv ac2)) = disk_write (map_of (content (ac_kv ac))) (fst eff)"
      "GetApplyState B P (ac_kv ac2) (rg_Id (ap_region a1)) = Inr (ap_applyState a1)" "stored_apply ac2 a1"
      "records B content log \<longrightarrow> log (ac_kv ac2) = log (ac_kv ac) @ [map_of (content (ac_kv ac2))]"
      using ac_commit_ok [OF _ Cons.prems(2) keys lt u64, of log] Cons.prems(1) h(4)
        disk_write_last [of "map_of (content (ac_kv ac))" "wb_entries (ac_wb ac1)" "rg_Id (ap_region a1)" "ap_applyState a1"] unfolding h(3) by auto
    have removed: "\<not> sm_removed (state_of a)" using False by (simp add: state_of_def)
    obtain bs1 where bs1: "entries_effect P Q (ap_id a1) es (state_of a1) = (bs1, s')" "bs = fst eff # bs1"
      using entries_effect_ConsE [OF Cons.prems(10) removed, folded eff_def] h(2,7) by metis
    have cont: "contiguous (ra_AppliedIndex (ap_applyState a1) + 1) es" using e(2) idx by simp
    from Cons.IH [OF c(2) Cons.prems(2) c(3,4,5) u64 cont wf(2) c(7) bs1(1), of "results @ (case result of None \<Rightarrow> [] | Some r \<Rightarrow> [r])"]
    show ?thesis using h(1,2) c(1,6,8,9) e(1) False bs1(2) by auto
  qed
qed

lemma round_ok:
  assumes "ok db" "writes_succeed B ok" "GetApplyState B P db (rg_Id (ap_region a)) = Inr st" "apply_u64 st" "\<not> ap_pendingRemove a"
    and "contiguous (ra_AppliedIndex st + 1) es" "list_all (entry_wf Q) es"
    and "entries_effect P Q (ap_id a) es \<lparr>sm_region = ap_region a, sm_apply = st, sm_removed = False\<rparr> = (bs, s')"
    and pr: "pr rid = Some a"
  shows "\<exists>a' ac'. apply_round B P Q [Task rid (ApplyCommitted \<lparr>mc_regionId = rid, mc_term = tm, mc_entries = es\<rparr>)] pr (newApplyContext db) = Inr (pr(rid \<mapsto> a'), ac')
    \<and> ap_id a' = ap_id a \<and> ap_region a' = sm_region s' \<and> ap_pendingRemove a' = sm_removed s' \<and> ok (ac_kv ac')
    \<and> map_of (content (ac_kv ac')) = foldl disk_write (map_of (content db)) bs
    \<and> (records B content log \<longrightarrow> log (ac_kv ac') = log db @ disk_states (map_of (content db)) bs
         @ (if es = [] \<or> sm_removed s' then [] else [foldl disk_write (map_of (content db)) bs]))"
proof (cases "es = []")
  case True
  then show ?thesis using assms by (auto simp: apply_round_def handleTask_def handleApply_def ac_flush_def ac_writeToDB_def newApplyContext_def
      NewWriteBatch_def wb_WriteToDB_def intro!: exI [of _ a] fun_upd_idem [symmetric])
next
  case False
  define ac0 where "ac0 = newApplyContext db"
  let ?a = "a\<lparr>ap_term := tm, ap_applyState := st\<rparr>"
  let ?ac = "ac0\<lparr>ac_cbs := [\<lparr>ak_region = ap_region a, ak_cbs = []\<rparr>], ac_lastAppliedIndex := ra_AppliedIndex st, ac_committedCount := 2 * length es\<rparr>"
  have prep: "prepareFor B P (a\<lparr>ap_term := tm\<rparr>) ac0 =
      Inr (?a, ac0\<lparr>ac_cbs := [\<lparr>ak_region = ap_region a, ak_cbs = []\<rparr>], ac_lastAppliedIndex := ra_AppliedIndex st\<rparr>)" and c0: "ac_committedCount ac0 = 0"
    using assms(3) by (simp_all add: prepareFor_def ac0_def newApplyContext_def)
  have s0: "state_of ?a = \<lparr>sm_region = ap_region a, sm_apply = st, sm_removed = False\<rparr>" using assms(5) by (simp add: state_of_def)
  obtain results a1 ac1 where l: "committed_loop B P Q es [] ?a ?ac = Inr (results, a1, ac1)" "ap_id a1 = ap_id a" "state_of a1 = s'"
    "ok (ac_kv ac1)" "wb_entries (ac_wb ac1) = []" "map_of (content (ac_kv ac1)) = foldl disk_write (map_of (content db)) bs" "stored_apply ac1 a1"
    "records B content log \<longrightarrow> log (ac_kv ac1) = log db @ disk_states (map_of (content db)) bs"
    using loop_ok [of ?ac ?a es Q bs s' "[]" log] assms False s0 by (auto simp: ac0_def newApplyContext_def NewWriteBatch_def)
  define wb2 where "wb2 = (if \<not> ap_pendingRemove a1 then writeApplyState P a1 (ac_wb ac1) else ac_wb ac1)"
  have es: "wb_entries wb2 = (if ap_pendingRemove a1 then [] else [apply_write P (rg_Id (ap_region a1)) (ap_applyState a1)])"
    using l(5) by (simp add: wb2_def writeApplyState_def apply_write_def)
  have keys: "\<forall>w \<in> set (wb_entries wb2). fst w \<noteq> []" by (simp add: es apply_write_def)
  obtain db' where db': "wb_WriteToDB B wb2 (ac_kv ac1) = Inr db'" "ok db'" "map_of (content db') = disk_write (map_of (content (ac_kv ac1))) (wb_entries wb2)"
    "records B content log \<longrightarrow> log db' = log (ac_kv ac1) @ (if wb_entries wb2 = [] then [] else [map_of (content db')])"
    using write_batch [OF l(4) assms(2), of wb2 log] keys by auto
  have same: "disk_write (map_of (content (ac_kv ac1))) (wb_entries wb2) = map_of (content (ac_kv ac1))"
    using l(7) apply_full by (auto simp: es disk_write_def apply_write_def sbytes_def fun_eq_iff)
  have "finishFor B P results a1 ac1 = Inr (a1, ac1\<lparr>ac_wb := wb2,
      ac_applyTaskResList := ac_applyTaskResList ac1 @ [\<lparr>ms_regionID = rg_Id (ap_region a1), ms_execResults = results\<rparr>]\<rparr>)"
    by (simp add: finishFor_def commitOpt_def wb2_def)
  then have "task_loop B P Q [Task rid (ApplyCommitted \<lparr>mc_regionId = rid, mc_term = tm, mc_entries = es\<rparr>)] pr ac0 = Inr (pr(rid \<mapsto> a1), ac1\<lparr>ac_wb := wb2,
      ac_applyTaskResList := ac_applyTaskResList ac1 @ [\<lparr>ms_regionID = rg_Id (ap_region a1), ms_execResults = results\<rparr>]\<rparr>)"
    using False assms(5) prep l(1) c0 pr by (simp add: handleTask_def handleApply_def handleRaftCommittedEntries_def)
  then show ?thesis
    using db' same l(2,3,6,8) es False unfolding ac0_def [symmetric]
    by (auto simp: apply_round_def ac_flush_def ac_writeToDB_def state_of_def)
qed

end

section \<open>Stopping and resuming\<close>

lemma entries_effect_removed: "sm_removed s \<Longrightarrow> entries_effect P Q pid es s = ([], s)"
  by (cases es) simp_all

text \<open>After any number of batches the state is that of the entries so far.\<close>

lemma entries_effect_take:
  assumes "entries_effect P Q pid es s = (bs, s')" "k \<le> length bs"
  shows "\<exists>sk. entries_effect P Q pid (take k es) s = (take k bs, sk) \<and> entries_effect P Q pid (drop k es) sk = (drop k bs, s')"
  using assms
proof (induction es arbitrary: s bs k)
  case (Cons e es)
  show ?case
  proof (cases "sm_removed s \<or> k = 0")
    case True
    then show ?thesis using Cons.prems by (cases "sm_removed s") (auto simp: entries_effect_removed)
  next
    case False
    define eff where "eff = entry_effect P Q pid e s"
    obtain bs1 where b: "entries_effect P Q pid es (snd eff) = (bs1, s')" "bs = fst eff # bs1"
      using entries_effect_ConsE [OF Cons.prems(1)] False unfolding eff_def by metis
    obtain j where k: "k = Suc j" using False by (cases k) auto
    obtain sk where "entries_effect P Q pid (take j es) (snd eff) = (take j bs1, sk)" "entries_effect P Q pid (drop j es) sk = (drop j bs1, s')"
      using Cons.IH [OF b(1), of j] Cons.prems(2) b(2) k by auto
    then show ?thesis using False b(2) k by (auto simp: eff_def case_prod_unfold Let_def)
  qed
qed simp

lemma length_batches: "entries_effect P Q pid es s = (bs, s') \<Longrightarrow> length bs \<le> length es"
  by (induction es arbitrary: s bs) (auto simp: case_prod_unfold Let_def split: if_splits)

lemma entries_effect_applied:
  assumes "entries_effect P Q pid es s = (bs, s')" "contiguous (ra_AppliedIndex (sm_apply s) + 1) es" "length bs = length es"
  shows "ra_AppliedIndex (sm_apply s') = ra_AppliedIndex (sm_apply s) + length es"
  using assms
proof (induction es arbitrary: s bs)
  case (Cons e es)
  have r: "\<not> sm_removed s" using Cons.prems(1,3) by auto
  obtain bs1 where b: "entries_effect P Q pid es (snd (entry_effect P Q pid e s)) = (bs1, s')" "bs = fst (entry_effect P Q pid e s) # bs1"
    by (rule entries_effect_ConsE [OF Cons.prems(1) r])
  have "ra_AppliedIndex (sm_apply (snd (entry_effect P Q pid e s))) = ra_AppliedIndex (sm_apply s) + 1"
    using Cons.prems(2) by (simp add: entry_effect_applied)
  with Cons.IH [OF b(1)] Cons.prems(2,3) b(2) show ?case by simp
qed simp

text \<open>Requests name one of the column families, or none.\<close>

definition request_cfs :: "Request \<Rightarrow> bool" where
  "request_cfs r \<longleftrightarrow> cf_or_default (pq_Cf (GetPut r)) \<in> set CFs \<and> cf_or_default (dq_Cf (GetDelete r)) \<in> set CFs"

definition entry_cfs :: "cmdcodec \<Rightarrow> Entry \<Rightarrow> bool" where
  "entry_cfs Q e \<longleftrightarrow> (\<forall>c. entry_cmd Q e = Some c \<longrightarrow> list_all request_cfs (rc_Requests c))"

definition peer_state :: "rsm \<Rightarrow> PeerState" where
  "peer_state s = (if sm_removed s then PeerState_Tombstone else PeerState_Normal)"

text \<open>The numbers and lengths of a region message fit their fields.\<close>

definition region_fits :: "Region \<Rightarrow> bool" where
  "region_fits r \<longleftrightarrow> u64 (rg_Id r) \<and> u64 (ep_ConfVer (rg_RegionEpoch r)) \<and> u64 (ep_Version (rg_RegionEpoch r)) \<and> u64 (length (rg_StartKey r))
     \<and> u64 (length (rg_EndKey r)) \<and> (\<forall>p \<in> set (rg_Peers r). u64 (pr_Id p) \<and> u64 (pr_StoreId p))"

definition on_disk :: "pbcodec \<Rightarrow> (bytes \<Rightarrow> goslice option) \<Rightarrow> rsm \<Rightarrow> bool" where
  "on_disk P m s \<longleftrightarrow>
     (\<exists>v. m (RegionStateKey (rg_Id (sm_region s))) = Some v \<and> un_RegionLocalState P (sbytes v) = Inr \<lparr>rs_State = peer_state s, rs_Region = sm_region s\<rparr>)
     \<and> (\<exists>v. m (ApplyStateKey (rg_Id (sm_region s))) = Some v \<and> un_RaftApplyState P (sbytes v) = Inr (sm_apply s))"

lemma cf_keys_apart:
  "cf \<in> set CFs \<Longrightarrow> KeyWithCF cf k \<noteq> RegionStateKey r" "cf \<in> set CFs \<Longrightarrow> KeyWithCF cf k \<noteq> ApplyStateKey r"
  by (auto simp: CFs_def KeyWithCF_prefix cf_prefix_code key_defs key_prefixes)

lemma normal_writes_apart:
  assumes "list_all request_cfs rs"
  shows "map_of (rev (normal_writes region rs)) (RegionStateKey r) = None"
proof -
  have "fst w \<noteq> RegionStateKey r" if "w \<in> set (request_writes region q)" "request_cfs q" for w q
    using that by (cases "rq_CmdType q") (auto simp: request_writes_def request_cfs_def cf_keys_apart split: if_splits)
  then show ?thesis using assms unfolding map_of_eq_None_iff normal_writes_def list_all_iff by (fastforce split: if_splits)
qed

text \<open>The region is written exactly when it changes.\<close>

lemma admin_effect_region:
  assumes "admin_effect P pid a s = (ws, s1)" "\<not> sm_removed s"
  shows "(sm_region s1 = sm_region s \<and> peer_state s1 = peer_state s \<and> map_of (rev ws) (RegionStateKey (rg_Id (sm_region s))) = None)
    \<or> map_of (rev ws) (RegionStateKey (rg_Id (sm_region s))) = Some (Some (pb_RegionLocalState P \<lparr>rs_State = peer_state s1, rs_Region = sm_region s1\<rparr>))"
proof (cases "aq_CmdType a")
  case AdminChangePeer
  let ?c = "the (aq_ChangePeer a)"
  show ?thesis
  proof (cases "change_peers (sm_region s) (cq_ChangeType ?c) (the (cq_Peer ?c))")
    case (Inl err)
    then show ?thesis using AdminChangePeer assms by (auto simp: admin_effect_def Let_def)
  next
    case (Inr r)
    have "rg_Id r = rg_Id (sm_region s)" using change_peers_keeps [OF Inr] by simp
    then show ?thesis using Inr AdminChangePeer assms by (auto simp: admin_effect_def Let_def region_write_def peer_state_def)
  qed
next
  case AdminSplit
  then show ?thesis using assms
    by (auto simp: admin_effect_def Let_def region_write_def apply_write_def peer_state_def split_regions_def split: if_splits)
qed (use assms in \<open>auto simp: admin_effect_def peer_state_def\<close>)

lemma entry_effect_region:
  assumes "entry_effect P Q pid e s = (ws, s1)" "\<not> sm_removed s" "entry_cfs Q e"
  shows "(sm_region s1 = sm_region s \<and> peer_state s1 = peer_state s \<and> map_of (rev ws) (RegionStateKey (rg_Id (sm_region s))) = None)
    \<or> map_of (rev ws) (RegionStateKey (rg_Id (sm_region s))) = Some (Some (pb_RegionLocalState P \<lparr>rs_State = peer_state s1, rs_Region = sm_region s1\<rparr>))"
proof (cases "entry_cmd Q e")
  case None
  then show ?thesis using assms(1) by (auto simp: entry_effect_def Let_def apply_write_def peer_state_def)
next
  case (Some c)
  obtain ws0 s0 where c: "cmd_effect P pid c s = (ws0, s0)" by force
  have r: "ws = ws0 @ [apply_write P (rg_Id (sm_region s0)) ((sm_apply s0)\<lparr>ra_AppliedIndex := e_Index e\<rparr>)]" "sm_region s1 = sm_region s0" "peer_state s1 = peer_state s0"
    using assms(1) Some c by (auto simp: entry_effect_def Let_def peer_state_def)
  have "list_all request_cfs (rc_Requests c)" using assms(3) Some by (simp add: entry_cfs_def)
  then have "(sm_region s0 = sm_region s \<and> peer_state s0 = peer_state s \<and> map_of (rev ws0) (RegionStateKey (rg_Id (sm_region s))) = None)
    \<or> map_of (rev ws0) (RegionStateKey (rg_Id (sm_region s))) = Some (Some (pb_RegionLocalState P \<lparr>rs_State = peer_state s0, rs_Region = sm_region s0\<rparr>))"
    using c admin_effect_region [OF _ assms(2)] normal_writes_apart by (auto simp: cmd_effect_def split: if_splits option.splits)
  then show ?thesis using r by (auto simp: apply_write_def)
qed

text \<open>An encoding of regions that decodes again.\<close>

locale store_engine = peer_engine B content ok P for B :: "'db badger" and content ok and P +
  assumes region_state: "region_fits (rs_Region s) \<Longrightarrow> un_RegionLocalState P (pb_RegionLocalState P s) = Inr s"
    and region_full: "pb_RegionLocalState P s \<noteq> []"
begin

lemma entry_on_disk:
  assumes "on_disk P m s" "\<not> sm_removed s" "entry_effect P Q pid e s = (ws, s1)" "entry_cfs Q e" "region_fits (sm_region s1)" "apply_u64 (sm_apply s1)"
  shows "on_disk P (disk_write m ws) s1"
proof -
  have rid: "rg_Id (sm_region s1) = rg_Id (sm_region s)" using entry_effect_id [of P Q pid e s] assms(3) by simp
  obtain ws0 where ws: "ws = ws0 @ [apply_write P (rg_Id (sm_region s1)) (sm_apply s1)]"
    using assms(3) by (auto simp: entry_effect_def case_prod_unfold Let_def)
  have "\<exists>v. disk_write m ws (ApplyStateKey (rg_Id (sm_region s1))) = Some v \<and> un_RaftApplyState P (sbytes v) = Inr (sm_apply s1)"
    using disk_write_last apply_state [OF assms(6)] by (simp add: ws sbytes_def)
  moreover have "\<exists>v. disk_write m ws (RegionStateKey (rg_Id (sm_region s1))) = Some v
      \<and> un_RegionLocalState P (sbytes v) = Inr \<lparr>rs_State = peer_state s1, rs_Region = sm_region s1\<rparr>"
    using entry_effect_region [OF assms(3,2,4)] assms(1,5) region_state [of "\<lparr>rs_State = peer_state s1, rs_Region = sm_region s1\<rparr>"] region_full
    by (auto simp: disk_write_def on_disk_def rid sbytes_def)
  ultimately show ?thesis by (simp add: on_disk_def)
qed

lemma entries_on_disk:
  assumes "on_disk P m s" "entries_effect P Q pid es s = (bs, s')" "list_all (entry_cfs Q) es" "list_all (entry_wf Q) es" "apply_u64 (sm_apply s)"
    and "\<And>k. k \<le> length es \<Longrightarrow> region_fits (sm_region (snd (entries_effect P Q pid (take k es) s)))"
  shows "on_disk P (foldl disk_write m bs) s' \<and> apply_u64 (sm_apply s')"
  using assms
proof (induction es arbitrary: m s bs)
  case (Cons e es)
  show ?case
  proof (cases "sm_removed s")
    case True
    then show ?thesis using Cons.prems by simp
  next
    case False
    obtain ws s1 where e: "entry_effect P Q pid e s = (ws, s1)" by force
    obtain bs1 where b: "entries_effect P Q pid es s1 = (bs1, s')" "bs = ws # bs1"
      using entries_effect_ConsE [OF Cons.prems(2) False] e by (metis fst_conv snd_conv)
    have u: "apply_u64 (sm_apply s1)" using entry_effect_u64 [of s Q e P pid] e Cons.prems(4,5) by simp
    have fits: "region_fits (sm_region (snd (entries_effect P Q pid (take k es) s1)))" if "k \<le> length es" for k
      using Cons.prems(6) [of "Suc k"] that False e by (simp add: case_prod_unfold Let_def)
    have "on_disk P (disk_write m ws) s1"
      using entry_on_disk [OF Cons.prems(1) False e _ _ u] fits [of 0] Cons.prems(3) by simp
    from Cons.IH [OF this b(1) _ _ u fits] show ?thesis using Cons.prems(3,4) b(2) by simp
  qed
qed simp

lemma resume_ok:
  assumes "writes_succeed B ok" "on_disk P m s" "apply_u64 (sm_apply s)"
    and "contiguous (ra_AppliedIndex (sm_apply s) + 1) es" "list_all (entry_wf Q) es" "list_all (entry_cfs Q) es"
    and fits: "\<And>k. k \<le> length es \<Longrightarrow> region_fits (sm_region (snd (entries_effect P Q pid (take k es) s)))"
    and eff: "entries_effect P Q pid es s = (bs, s')" and k: "k \<le> length bs"
    and db: "ok db" "map_of (content db) = foldl disk_write m (take k bs)"
  shows "\<exists>sk. entries_effect P Q pid (take k es) s = (take k bs, sk)
    \<and> GetRegionLocalState B P db (rg_Id (sm_region sk)) = Inr \<lparr>rs_State = peer_state sk, rs_Region = sm_region sk\<rparr>
    \<and> (sm_removed sk \<or> (\<exists>a' ac'. apply_round B P Q [Task rid (ApplyCommitted \<lparr>mc_regionId = rid, mc_term = tm, mc_entries = drop k es\<rparr>)]
           [rid \<mapsto> newApplier pid tm (sm_region sk)] (newApplyContext db) = Inr ([rid \<mapsto> a'], ac')
         \<and> ap_region a' = sm_region s' \<and> ap_pendingRemove a' = sm_removed s' \<and> map_of (content (ac_kv ac')) = foldl disk_write m bs))"
proof -
  obtain sk where sk: "entries_effect P Q pid (take k es) s = (take k bs, sk)" "entries_effect P Q pid (drop k es) sk = (drop k bs, s')"
    using entries_effect_take [OF eff k] by blast
  have len: "k \<le> length es" using k length_batches [OF eff] by simp
  have "on_disk P (foldl disk_write m (take k bs)) sk \<and> apply_u64 (sm_apply sk)"
  proof (rule entries_on_disk [OF assms(2) sk(1) _ _ assms(3)])
    show "region_fits (sm_region (snd (entries_effect P Q pid (take j (take k es)) s)))" if "j \<le> length (take k es)" for j
      using fits [of j] that len by (simp add: min_def split: if_splits)
  qed (use assms(5,6) in \<open>auto simp: list_all_iff dest: in_set_takeD\<close>)
  then have disk: "on_disk P (map_of (content db)) sk" and u: "apply_u64 (sm_apply sk)" by (simp_all add: db(2))
  have reg: "GetRegionLocalState B P db (rg_Id (sm_region sk)) = Inr \<lparr>rs_State = peer_state sk, rs_Region = sm_region sk\<rparr>"
    and app: "GetApplyState B P db (rg_Id (sm_region sk)) = Inr (sm_apply sk)"
    using disk db(1) by (auto simp: on_disk_def GetRegionLocalState_def GetApplyState_def get_meta)
  have idx: "ra_AppliedIndex (sm_apply sk) = ra_AppliedIndex (sm_apply s) + k"
    using entries_effect_applied [OF sk(1)] contiguous_take [OF assms(4), of k] k len by simp
  have cont: "contiguous (ra_AppliedIndex (sm_apply sk) + 1) (drop k es)" using contiguous_drop [OF assms(4) len] by (simp add: idx add.commute)
  have wf: "list_all (entry_wf Q) (drop k es)" using assms(5) by (auto simp: list_all_iff dest: in_set_dropD)
  have "sm_removed sk \<or> (\<exists>a' ac'. apply_round B P Q [Task rid (ApplyCommitted \<lparr>mc_regionId = rid, mc_term = tm, mc_entries = drop k es\<rparr>)]
           [rid \<mapsto> newApplier pid tm (sm_region sk)] (newApplyContext db) = Inr ([rid \<mapsto> a'], ac')
         \<and> ap_region a' = sm_region s' \<and> ap_pendingRemove a' = sm_removed s' \<and> map_of (content (ac_kv ac')) = foldl disk_write m bs)"
  proof (cases "sm_removed sk")
    case False
    let ?a = "newApplier pid tm (sm_region sk)"
    have a: "ap_id ?a = pid" "ap_region ?a = sm_region sk" "\<not> ap_pendingRemove ?a" by (simp_all add: newApplier_def)
    have "\<lparr>sm_region = ap_region ?a, sm_apply = sm_apply sk, sm_removed = False\<rparr> = sk" using False a(2) by (cases sk) simp
    then have e: "entries_effect P Q (ap_id ?a) (drop k es) \<lparr>sm_region = ap_region ?a, sm_apply = sm_apply sk, sm_removed = False\<rparr> = (drop k bs, s')"
      using sk(2) a(1) by simp
    have "foldl disk_write (map_of (content db)) (drop k bs) = foldl disk_write m bs"
      unfolding db(2) foldl_append [symmetric] by simp
    moreover have "GetApplyState B P db (rg_Id (ap_region ?a)) = Inr (sm_apply sk)" using app a(2) by simp
    ultimately show ?thesis using round_ok [OF db(1) assms(1) _ u a(3) cont wf e, of "[rid \<mapsto> ?a]" rid tm] by auto
  qed simp
  then show ?thesis using sk(1) reg by blast
qed

end

section \<open>An engine that records its transactions\<close>

text \<open>The engine \<open>B\<close> together with the databases it went through, one after every transaction. A process that stops finds one of them, or the first, when it starts again.\<close>

definition recording :: "'db badger \<Rightarrow> ('db \<times> 'db list) badger" where
  "recording B =
     \<lparr>bd_Get = (\<lambda>d. bd_Get B (fst d)), bd_Items = (\<lambda>d. bd_Items B (fst d)),
      bd_Update = (\<lambda>d ops. case bd_Update B (fst d) ops of Inl e \<Rightarrow> Inl e | Inr db \<Rightarrow> Inr (db, snd d @ [db]))\<rparr>"

definition recording_ok :: "('db \<Rightarrow> bool) \<Rightarrow> 'db \<times> 'db list \<Rightarrow> bool" where
  "recording_ok good d \<longleftrightarrow> good (fst d) \<and> (\<forall>db \<in> set (snd d). good db)"

definition recording_log :: "('db \<Rightarrow> cfdata) \<Rightarrow> 'db \<times> 'db list \<Rightarrow> (bytes \<Rightarrow> goslice option) list" where
  "recording_log content d = map (\<lambda>db. map_of (content db)) (snd d)"

context peer_engine
begin

lemma recording_badger: "badger_spec (recording B) (\<lambda>d. content (fst d)) (recording_ok ok)"
  by unfold_locales (use ordered get items update in \<open>auto simp: recording_def recording_ok_def split: sum.splits cong: option.case_cong\<close>)

lemma recording_engine: "peer_engine (recording B) (\<lambda>d. content (fst d)) (recording_ok ok) P"
  by (intro peer_engine.intro recording_badger pb_spec_axioms)

end

lemma recording_writes: "writes_succeed B good \<Longrightarrow> writes_succeed (recording B) (recording_ok good)"
  by (fastforce simp: writes_succeed_def recording_def recording_ok_def)

lemma recording_records: "records (recording B) (\<lambda>d. content (fst d)) (recording_log content)"
  by (auto simp: records_def recording_def recording_log_def split: sum.splits)

lemma recording_reads: "GetApplyState (recording B) P d rid = GetApplyState B P (fst d) rid"
  by (simp add: GetApplyState_def GetMeta_def recording_def)

lemma disk_states_prefix: "m' \<in> set (disk_states m bs) \<Longrightarrow> \<exists>k \<le> length bs. m' = foldl disk_write m (take k bs)"
proof (induction bs arbitrary: m)
  case (Cons b bs)
  show ?case
  proof (cases "m' = disk_write m b")
    case True
    then show ?thesis by (intro exI [of _ 1]) simp
  next
    case False
    then obtain k where "k \<le> length bs" "m' = foldl disk_write (disk_write m b) (take k bs)" using Cons by auto
    then show ?thesis by (intro exI [of _ "Suc k"]) simp
  qed
qed simp

end
