(* ===== verification/Applier_System.thy ===== *)
theory Applier_System
  imports Applier_Spec "HOL-Library.Multiset"
begin

text \<open>
  The guarantees of applying the log: it implements the replicated state machine, survives being stopped at any point, and keeps replicas
  equal; a split divides the range of a region; an epoch identifies a range and a group of peers; callbacks are
  answered at most once. Also an encoding of regions for which the contract of the engine holds, and
  runs of the applier on it.
\<close>

section \<open>An encoding of regions\<close>

definition put_peer :: "Peer \<Rightarrow> bytes" where
  "put_peer p = put_nat64 (pr_Id p) @ put_nat64 (pr_StoreId p)"

function get_peers :: "bytes \<Rightarrow> Peer list" where
  "get_peers bs = (if length bs < 16 then [] else \<lparr>pr_Id = get_nat64 0 bs, pr_StoreId = get_nat64 1 bs\<rparr> # get_peers (drop 16 bs))"
  by pat_completeness auto
termination
  by (relation "measure length") auto

declare get_peers.simps [simp del]

lemma put_peer_bytes:
  assumes "u64 (pr_Id p)" "u64 (pr_StoreId p)"
  shows "length (put_peer p) = 16" "get_nat64 0 (put_peer p @ bs) = pr_Id p" "get_nat64 (Suc 0) (put_peer p @ bs) = pr_StoreId p"
  using assms by (simp_all add: put_peer_def get_nat64_def u64_def)

lemma get_peers_put: "\<forall>p \<in> set ps. u64 (pr_Id p) \<and> u64 (pr_StoreId p) \<Longrightarrow> get_peers (concat (map put_peer ps)) = ps"
proof (induction ps)
  case (Cons p ps)
  then show ?case by (subst get_peers.simps) (simp add: put_peer_bytes)
qed (simp add: get_peers.simps)

definition put_region_state :: "RegionLocalState \<Rightarrow> bytes" where
  "put_region_state s =
     (let r = rs_Region s
      in (case rs_State s of PeerState_Normal \<Rightarrow> 0 | PeerState_Tombstone \<Rightarrow> 1)
         # put_nat64 (rg_Id r) @ put_nat64 (ep_ConfVer (rg_RegionEpoch r)) @ put_nat64 (ep_Version (rg_RegionEpoch r))
         @ put_nat64 (length (rg_StartKey r)) @ put_nat64 (length (rg_EndKey r)) @ rg_StartKey r @ rg_EndKey r @ concat (map put_peer (rg_Peers r)))"

definition get_region_state :: "bytes \<Rightarrow> berr + RegionLocalState" where
  "get_region_state bs =
     (case bs of
        [] \<Rightarrow> Inl (ErrBadger ''empty'')
      | b # ns \<Rightarrow>
          let l1 = get_nat64 3 ns; l2 = get_nat64 4 ns; ks = drop 40 ns
          in Inr \<lparr>rs_State = (if b = 0 then PeerState_Normal else PeerState_Tombstone),
                  rs_Region = \<lparr>rg_Id = get_nat64 0 ns, rg_StartKey = take l1 ks, rg_EndKey = take l2 (drop l1 ks),
                    rg_RegionEpoch = \<lparr>ep_ConfVer = get_nat64 1 ns, ep_Version = get_nat64 2 ns\<rparr>, rg_Peers = get_peers (drop (l1 + l2) ks)\<rparr>\<rparr>)"

definition region_codec :: pbcodec where
  "region_codec = wide_codec\<lparr>pb_RegionLocalState := put_region_state, un_RegionLocalState := get_region_state\<rparr>"

lemma region_state_put: "region_fits (rs_Region s) \<Longrightarrow> get_region_state (put_region_state s) = Inr s"
  by (cases s) (auto simp: region_fits_def put_region_state_def get_region_state_def Let_def get_nat64_def u64_def get_peers_put split: PeerState.splits)

interpretation list_store: store_engine list_badger "\<lambda>m. m" "\<lambda>m. cf_sorted m \<and> values_normal m" region_codec
proof (intro store_engine.intro peer_engine.intro store_engine_axioms.intro)
  show "badger_spec list_badger (\<lambda>m. m) (\<lambda>m. cf_sorted m \<and> values_normal m)" by (rule list_db.badger_spec_axioms)
  show "pb_spec region_codec"
    using wide.entry wide.entry_full wide.local_state wide.local_full wide.apply_state wide.apply_full
    by unfold_locales (simp_all add: region_codec_def)
qed (simp_all add: region_codec_def region_state_put, simp add: put_region_state_def Let_def)

lemma list_writes: "writes_succeed list_badger (\<lambda>m. cf_sorted m \<and> values_normal m)"
  by (auto simp: writes_succeed_def list_badger_def)

section \<open>Properties\<close>

text \<open>
  C15. Applying a round of committed entries of a registered region returns whenever the entries are well-formed and the engine takes the
  writes, whatever proposals are pending, and implements the replicated state machine: the region, the removal and the
  engine afterwards are those of the machine. The engine goes through one transaction per entry, which holds the writes of the command
  together with the applied index, and a last one that writes the apply state as it is unless the peer was removed: after each, the
  database is exactly the one the machine has after that many entries.
\<close>

theorem apply_refines:
  assumes "peer_engine B content good P" "good db" "writes_succeed B good" "GetApplyState B P db (rg_Id (ap_region a)) = Inr st" "apply_u64 st"
    and "\<not> ap_pendingRemove a" "contiguous (ra_AppliedIndex st + 1) es" "list_all (entry_wf Q) es"
    and "entries_effect P Q (ap_id a) es \<lparr>sm_region = ap_region a, sm_apply = st, sm_removed = False\<rparr> = (bs, s')" "pr rid = Some a"
  shows "\<exists>a' ac'. apply_round (recording B) P Q [Task rid (ApplyCommitted \<lparr>mc_regionId = rid, mc_term = tm, mc_entries = es\<rparr>)] pr (newApplyContext (db, []))
        = Inr (pr(rid \<mapsto> a'), ac')
    \<and> ap_region a' = sm_region s' \<and> ap_pendingRemove a' = sm_removed s' \<and> good (fst (ac_kv ac'))
    \<and> map_of (content (fst (ac_kv ac'))) = foldl disk_write (map_of (content db)) bs
    \<and> map (\<lambda>d. map_of (content d)) (snd (ac_kv ac')) = disk_states (map_of (content db)) bs
        @ (if es = [] \<or> sm_removed s' then [] else [foldl disk_write (map_of (content db)) bs])"
proof -
  have ok: "recording_ok good (db, [])" using assms(2) by (simp add: recording_ok_def)
  have rd: "GetApplyState (recording B) P (db, []) (rg_Id (ap_region a)) = Inr st" using assms(4) by (simp add: recording_reads)
  note round = peer_engine.round_ok [OF peer_engine.recording_engine [OF assms(1)]]
  from round [where pr = pr and rid = rid and tm = tm and log = "recording_log content", OF ok recording_writes [OF assms(3)] rd assms(5-10)]
  show ?thesis using recording_records [of B content] by (auto simp: recording_log_def recording_ok_def)
qed

text \<open>
  C14. A replica may stop at any time while it applies a round of entries and resumes where it was: every database the engine goes through holds the region and the
  apply state after some number of the entries (marked as removed when it has been removed by then), and a new applier for
  that region that applies the remaining entries brings the engine to the same content as without the interruption.
\<close>

theorem crash_resume:
  assumes "store_engine B content good P" "writes_succeed B good" "good db0" "on_disk P (map_of (content db0)) s" "apply_u64 (sm_apply s)" "\<not> sm_removed s"
    and "contiguous (ra_AppliedIndex (sm_apply s) + 1) es" "list_all (entry_wf Q) es" "list_all (entry_cfs Q) es"
    and "\<And>k. k \<le> length es \<Longrightarrow> region_fits (sm_region (snd (entries_effect P Q pid (take k es) s)))"
    and "entries_effect P Q pid es s = (bs, s')"
    and "pr rid = Some a" "ap_id a = pid" "ap_region a = sm_region s" "\<not> ap_pendingRemove a"
    and "apply_round (recording B) P Q [Task rid (ApplyCommitted \<lparr>mc_regionId = rid, mc_term = tm, mc_entries = es\<rparr>)] pr (newApplyContext (db0, [])) = Inr (pr', ac')"
    and "db \<in> set (db0 # snd (ac_kv ac'))"
  shows "\<exists>k sk. entries_effect P Q pid (take k es) s = (take k bs, sk)
    \<and> GetRegionLocalState B P db (rg_Id (sm_region sk)) = Inr \<lparr>rs_State = peer_state sk, rs_Region = sm_region sk\<rparr>
    \<and> (sm_removed sk \<or> (\<exists>a1 ac1. apply_round B P Q [Task rid (ApplyCommitted \<lparr>mc_regionId = rid, mc_term = tm, mc_entries = drop k es\<rparr>)]
           [rid \<mapsto> newApplier pid tm (sm_region sk)] (newApplyContext db) = Inr ([rid \<mapsto> a1], ac1)
         \<and> ap_region a1 = sm_region s' \<and> ap_pendingRemove a1 = sm_removed s'
         \<and> map_of (content (ac_kv ac1)) = map_of (content (fst (ac_kv ac')))))"
proof -
  have pe: "peer_engine B content good P" using assms(1) by (simp add: store_engine_def)
  let ?m = "map_of (content db0)"
  have ok: "recording_ok good (db0, [])" using assms(3) by (simp add: recording_ok_def)
  have rd: "GetApplyState (recording B) P (db0, []) (rg_Id (ap_region a)) = Inr (sm_apply s)"
    using assms(4,14) peer_engine.get_meta [OF pe assms(3), of "un_RaftApplyState P"] unfolding recording_reads by (auto simp: GetApplyState_def on_disk_def)
  have e: "entries_effect P Q (ap_id a) es \<lparr>sm_region = ap_region a, sm_apply = sm_apply s, sm_removed = False\<rparr> = (bs, s')"
    using assms(6,11,13,14) by (cases s) simp
  have nil: "recording_log content (db0, []) = []" by (simp add: recording_log_def)
  note round = peer_engine.round_ok [OF peer_engine.recording_engine [OF pe]]
  have "recording_ok good (ac_kv ac')" "map_of (content (fst (ac_kv ac'))) = foldl disk_write ?m bs"
    "set (recording_log content (ac_kv ac')) \<subseteq> set (disk_states ?m bs) \<union> {foldl disk_write ?m bs}"
    using round [where pr = pr and rid = rid and tm = tm and log = "recording_log content", OF ok recording_writes [OF assms(2)] rd assms(5,15,7,8) e assms(12)]
      assms(16) recording_records [of B content] nil by (auto split: if_splits)
  note run = this
  have "map_of (content db) \<in> set (disk_states ?m bs) \<union> {?m, foldl disk_write ?m bs}" "good db"
    using assms(3,17) run(1,3) by (auto simp: recording_log_def recording_ok_def)
  then obtain k where k: "k \<le> length bs" "map_of (content db) = foldl disk_write ?m (take k bs)"
    using disk_states_prefix [of "map_of (content db)" ?m bs] by (fastforce intro: that [of 0] that [of "length bs"])
  from store_engine.resume_ok [OF assms(1,2,4,5,7,8,9,10,11) k(1) \<open>good db\<close> k(2), of rid tm]
  show ?thesis unfolding run(2) by blast
qed

section \<open>Replicas\<close>

lemma entry_effect_peer:
  assumes "\<not> sm_removed (snd (entry_effect P Q p1 e s))" "\<not> sm_removed (snd (entry_effect P Q p2 e s))"
  shows "entry_effect P Q p1 e s = entry_effect P Q p2 e s"
proof -
  have adm: "\<not> sm_removed (snd (admin_effect P p1 a s)) \<Longrightarrow> \<not> sm_removed (snd (admin_effect P p2 a s)) \<Longrightarrow> admin_effect P p1 a s = admin_effect P p2 a s" for a
    by (cases "aq_CmdType a") (auto simp: admin_effect_def Let_def split: sum.splits if_splits)
  show ?thesis
  proof (cases "entry_cmd Q e")
    case None
    then show ?thesis by (simp add: entry_effect_def)
  next
    case (Some c)
    have "\<not> sm_removed (snd (cmd_effect P p1 c s))" "\<not> sm_removed (snd (cmd_effect P p2 c s))"
      using assms Some by (simp_all add: entry_effect_def case_prod_unfold Let_def)
    then have "cmd_effect P p1 c s = cmd_effect P p2 c s" using adm by (auto simp: cmd_effect_def split: option.splits if_splits)
    then show ?thesis using Some by (simp add: entry_effect_def)
  qed
qed

lemma entries_effect_keeps_removed: "\<not> sm_removed (snd (entries_effect P Q pid es s)) \<Longrightarrow> \<not> sm_removed s"
  by (cases es) (auto split: if_splits)

lemma entries_effect_peer:
  assumes "\<not> sm_removed (snd (entries_effect P Q p1 es s))" "\<not> sm_removed (snd (entries_effect P Q p2 es s))"
  shows "entries_effect P Q p1 es s = entries_effect P Q p2 es s"
  using assms
proof (induction es arbitrary: s)
  case (Cons e es)
  have r: "\<not> sm_removed s" using Cons.prems(1) by (rule entries_effect_keeps_removed)
  have r1: "\<not> sm_removed (snd (entries_effect P Q p1 es (snd (entry_effect P Q p1 e s))))"
    and r2: "\<not> sm_removed (snd (entries_effect P Q p2 es (snd (entry_effect P Q p2 e s))))"
    using Cons.prems r by (simp_all add: case_prod_unfold Let_def)
  have "entry_effect P Q p1 e s = entry_effect P Q p2 e s"
    using r1 r2 by (intro entry_effect_peer) (auto dest: entries_effect_keeps_removed)
  then show ?case using Cons.IH [of "snd (entry_effect P Q p1 e s)"] r r1 r2 by (simp add: case_prod_unfold Let_def)
qed simp

text \<open>
  C36. Replicas stay equal: two peers of a region, on engines of any content and with any pending proposals, that apply the same entries from the
  same region and apply state, and of which neither is removed, end with the same region and have written the same batches.
\<close>

theorem replicas_agree:
  assumes "peer_engine B content good P" "writes_succeed B good" "apply_u64 st" "contiguous (ra_AppliedIndex st + 1) es" "list_all (entry_wf Q) es"
    and "good db1" "GetApplyState B P db1 (rg_Id (ap_region a1)) = Inr st" "\<not> ap_pendingRemove a1"
    and "good db2" "GetApplyState B P db2 (rg_Id (ap_region a2)) = Inr st" "\<not> ap_pendingRemove a2" "ap_region a2 = ap_region a1"
    and "pr1 rid = Some a1" "pr2 rid = Some a2" "pr1' rid = Some a1'" "pr2' rid = Some a2'"
    and "apply_round B P Q [Task rid (ApplyCommitted \<lparr>mc_regionId = rid, mc_term = t1, mc_entries = es\<rparr>)] pr1 (newApplyContext db1) = Inr (pr1', ac1)"
    and "apply_round B P Q [Task rid (ApplyCommitted \<lparr>mc_regionId = rid, mc_term = t2, mc_entries = es\<rparr>)] pr2 (newApplyContext db2) = Inr (pr2', ac2)"
    and "\<not> ap_pendingRemove a1'" "\<not> ap_pendingRemove a2'"
  shows "ap_region a1' = ap_region a2' \<and> (\<exists>bs. map_of (content (ac_kv ac1)) = foldl disk_write (map_of (content db1)) bs
     \<and> map_of (content (ac_kv ac2)) = foldl disk_write (map_of (content db2)) bs)"
proof -
  let ?s = "\<lparr>sm_region = ap_region a1, sm_apply = st, sm_removed = False\<rparr>"
  obtain bs1 s1 where e1: "entries_effect P Q (ap_id a1) es ?s = (bs1, s1)" by force
  obtain bs2 s2 where e2: "entries_effect P Q (ap_id a2) es ?s = (bs2, s2)" by force
  have r1: "ap_region a1' = sm_region s1" "sm_removed s1 = ap_pendingRemove a1'" "map_of (content (ac_kv ac1)) = foldl disk_write (map_of (content db1)) bs1"
    using peer_engine.round_ok [where pr = pr1 and rid = rid and tm = t1 and log = "\<lambda>_. []", OF assms(1,6,2,7,3,8,4,5) e1 assms(13)] assms(15,17) by auto
  have r2: "ap_region a2' = sm_region s2" "sm_removed s2 = ap_pendingRemove a2'" "map_of (content (ac_kv ac2)) = foldl disk_write (map_of (content db2)) bs2"
    using peer_engine.round_ok [where pr = pr2 and rid = rid and tm = t2 and log = "\<lambda>_. []", OF assms(1,9,2,10,3,11,4,5) _ assms(14), of bs2 s2] e2 assms(12,16,18) by auto
  have "(bs1, s1) = (bs2, s2)"
    using entries_effect_peer [of P Q "ap_id a1" es ?s "ap_id a2"] e1 e2 r1(2) r2(2) assms(19,20) by simp
  then show ?thesis using r1 r2 by auto
qed

section \<open>Splitting\<close>

text \<open>
  C39. A split that is executed divides the region: every key of the region is in exactly one of the two new ones, both hold keys, the
  new region has the new id and a peer on each store, the old id keeps the upper part, and both versions are one higher. It
  is executed exactly when the split key is inside the region, above its start, and there is an id for every peer; otherwise
  nothing is written.
\<close>

theorem split_partitions:
  assumes "aq_Split req = Some q"
  shows "(case execSplit P req region wb of
      Inl _ \<Rightarrow> False
    | Inr (Inl _, wb') \<Rightarrow> wb' = wb \<and> \<not> (sq_SplitKey q \<in> region_keys_of region \<and> rg_StartKey region < sq_SplitKey q \<and> length (sq_NewPeerIds q) = length (rg_Peers region))
    | Inr (Inr (resp, result), wb') \<Rightarrow>
        \<exists>new derived. result = Some (ExecResultSplitRegion [new, derived] derived) \<and> ar_Split resp = Some [new, derived]
          \<and> sq_SplitKey q \<in> region_keys_of region \<and> rg_StartKey region < sq_SplitKey q \<and> length (sq_NewPeerIds q) = length (rg_Peers region)
          \<and> region_keys_of new \<union> region_keys_of derived = region_keys_of region \<and> region_keys_of new \<inter> region_keys_of derived = {}
          \<and> rg_StartKey region \<in> region_keys_of new \<and> sq_SplitKey q \<in> region_keys_of derived
          \<and> rg_Id new = sq_NewRegionId q \<and> rg_Id derived = rg_Id region \<and> rg_Peers derived = rg_Peers region
          \<and> map pr_StoreId (rg_Peers new) = map pr_StoreId (rg_Peers region) \<and> map pr_Id (rg_Peers new) = sq_NewPeerIds q
          \<and> rg_RegionEpoch new = rg_RegionEpoch derived \<and> ep_Version (rg_RegionEpoch derived) = ep_Version (rg_RegionEpoch region) + 1
          \<and> ep_ConfVer (rg_RegionEpoch derived) = ep_ConfVer (rg_RegionEpoch region)
          \<and> wb_entries wb' = wb_entries wb @ [region_write P PeerState_Normal new, apply_write P (rg_Id new) init_apply, region_write P PeerState_Normal derived])"
proof (cases "split_check region q")
  case (Some e)
  have "\<not> (sq_SplitKey q \<in> region_keys_of region \<and> rg_StartKey region < sq_SplitKey q \<and> length (sq_NewPeerIds q) = length (rg_Peers region))"
    using Some by (auto simp: split_check_def CheckKeyInRegion_None [symmetric] split: if_splits)
  then show ?thesis using Some assms by (simp add: execSplit_def)
next
  case None
  then have c: "sq_SplitKey q \<in> region_keys_of region" "rg_StartKey region < sq_SplitKey q" "length (sq_NewPeerIds q) = length (rg_Peers region)"
    by (auto simp: split_check_def CheckKeyInRegion_None [symmetric] split: if_splits)
  obtain new derived where nd: "split_regions region q = (new, derived)" by force
  have n: "rg_StartKey new = rg_StartKey region" "rg_EndKey new = sq_SplitKey q" "rg_Id new = sq_NewRegionId q"
    "rg_StartKey derived = sq_SplitKey q" "rg_EndKey derived = rg_EndKey region" "rg_Id derived = rg_Id region" "rg_Peers derived = rg_Peers region"
    "rg_Peers new = map2 (\<lambda>i p. \<lparr>pr_Id = i, pr_StoreId = pr_StoreId p\<rparr>) (sq_NewPeerIds q) (rg_Peers region)"
    "rg_RegionEpoch derived = (rg_RegionEpoch region)\<lparr>ep_Version := ep_Version (rg_RegionEpoch region) + 1\<rparr>" "rg_RegionEpoch new = rg_RegionEpoch derived"
    using nd by (auto simp: split_regions_def Let_def)
  have ne: "sq_SplitKey q \<noteq> []" using c(2) by (metis bot.extremum_strict less_list_code(1) not_less_iff_gr_or_eq)
  have part: "region_keys_of new \<union> region_keys_of derived = region_keys_of region" "region_keys_of new \<inter> region_keys_of derived = {}"
    using c(1,2) ne by (auto simp: region_keys_of_def n)
  have peers: "map pr_StoreId (rg_Peers new) = map pr_StoreId (rg_Peers region)" "map pr_Id (rg_Peers new) = sq_NewPeerIds q"
    using c(3) by (auto simp: n intro: nth_equalityI)
  have "rg_StartKey region \<in> region_keys_of new" "sq_SplitKey q \<in> region_keys_of derived" using c ne by (auto simp: region_keys_of_def n)
  then show ?thesis using None assms nd part peers c n by (simp add: execSplit_def zeroAdminResponse_def)
qed

section \<open>Epochs\<close>

text \<open>How a region may change: a higher version with the range, a higher configuration version with the peers.\<close>

definition grown :: "Region \<Rightarrow> Region \<Rightarrow> bool" where
  "grown r r' \<longleftrightarrow> rg_Id r' = rg_Id r \<and> ep_Version (rg_RegionEpoch r) \<le> ep_Version (rg_RegionEpoch r') \<and> ep_ConfVer (rg_RegionEpoch r) \<le> ep_ConfVer (rg_RegionEpoch r')
     \<and> (ep_Version (rg_RegionEpoch r) = ep_Version (rg_RegionEpoch r') \<longrightarrow> rg_StartKey r' = rg_StartKey r \<and> rg_EndKey r' = rg_EndKey r)
     \<and> (ep_ConfVer (rg_RegionEpoch r) = ep_ConfVer (rg_RegionEpoch r') \<longrightarrow> rg_Peers r' = rg_Peers r)"

lemma grown_refl [simp]: "grown r r"
  by (simp add: grown_def)

lemma grown_trans: "grown r r1 \<Longrightarrow> grown r1 r2 \<Longrightarrow> grown r r2"
  by (auto simp: grown_def)

lemma change_peers_grown: "change_peers r t p = Inr r' \<Longrightarrow> grown r r'"
  by (cases t) (auto simp: change_peers_def RemovePeer_def grown_def Let_def split: option.splits prod.splits if_splits)

lemma entry_effect_grown: "grown (sm_region s) (sm_region (snd (entry_effect P Q pid e s)))"
proof -
  have "grown (sm_region s) (sm_region (snd (admin_effect P pid a s)))" for a
    by (cases "aq_CmdType a") (auto simp: admin_effect_def Let_def split_regions_def grown_def dest: change_peers_grown [unfolded grown_def] split: sum.splits)
  then show ?thesis by (simp add: entry_effect_def cmd_effect_def case_prod_unfold Let_def split: option.splits)
qed

lemma entries_effect_grown: "grown (sm_region s) (sm_region (snd (entries_effect P Q pid es s)))"
proof (induction es arbitrary: s)
  case (Cons e es)
  show ?case using grown_trans [OF entry_effect_grown Cons.IH] by (simp add: case_prod_unfold Let_def)
qed simp

text \<open>
  C38. An epoch identifies a range and a group of peers: when a command that carries the epoch a region had before a round of
  entries passes the epoch check after it, the region still has the range it had, if the command reads, writes or
  splits, and still has the same peers, if it changes peers or splits. So no write decided for one range is executed on another.
\<close>

theorem epoch_identifies_region:
  assumes "peer_engine B content good P" "good db" "writes_succeed B good" "GetApplyState B P db (rg_Id (ap_region a)) = Inr st" "apply_u64 st"
    and "\<not> ap_pendingRemove a" "contiguous (ra_AppliedIndex st + 1) es" "list_all (entry_wf Q) es"
    and "apply_round B P Q [Task rid (ApplyCommitted \<lparr>mc_regionId = rid, mc_term = tm, mc_entries = es\<rparr>)] pr (newApplyContext db) = Inr (pr', ac')"
    and "pr rid = Some a" "pr' rid = Some a'"
    and "rc_Header c = Some h" "rh_RegionEpoch h = Some (rg_RegionEpoch (ap_region a))" "CheckRegionEpoch c (ap_region a') incl = None"
  shows "(rc_AdminRequest c = None \<longrightarrow> region_keys_of (ap_region a') = region_keys_of (ap_region a))
    \<and> (\<forall>adm. rc_AdminRequest c = Some adm \<longrightarrow>
         (aq_CmdType adm = AdminChangePeer \<longrightarrow> rg_Peers (ap_region a') = rg_Peers (ap_region a))
         \<and> (aq_CmdType adm = AdminSplit \<longrightarrow> region_keys_of (ap_region a') = region_keys_of (ap_region a) \<and> rg_Peers (ap_region a') = rg_Peers (ap_region a)))"
proof -
  let ?s = "\<lparr>sm_region = ap_region a, sm_apply = st, sm_removed = False\<rparr>"
  obtain bs s' where e: "entries_effect P Q (ap_id a) es ?s = (bs, s')" by force
  have "ap_region a' = sm_region s'" using peer_engine.round_ok [where pr = pr and rid = rid and tm = tm and log = "\<lambda>_. []", OF assms(1-8) e assms(10)] assms(9,11) by auto
  then have "grown (ap_region a) (ap_region a')" using entries_effect_grown [of ?s P Q "ap_id a" es] e by simp
  then show ?thesis using assms(12-14)
    by (auto simp: CheckRegionEpoch_def epoch_checks_def Let_def grown_def region_keys_of_def split: if_splits option.splits AdminCmdType.splits)
qed

section \<open>A request outside the region\<close>

lemma write_loop_txn: "list_all is_write qs \<Longrightarrow> normal_loop B kv region qs s = Inr s' \<Longrightarrow> nl_txn s' = nl_txn s"
proof (induction qs arbitrary: s)
  case (Cons q qs)
  then obtain s1 where s1: "normal_request B kv region q s = Inr s1" "normal_loop B kv region qs s1 = Inr s'" by (auto simp: bindR_Inr_iff)
  have "nl_txn s1 = nl_txn s" using s1(1) Cons.prems(1) by (auto simp: normal_request_def is_write_def case_prod_unfold Let_def)
  then show ?case using Cons.IH [OF _ s1(2)] Cons.prems(1) by simp
qed simp

text \<open>
  C40. Whether a command with several requests is refused depends on its last request that is not a snapshot request: if that one is
  inside the region, the command is answered with success although an earlier request was outside, whose write is
  dropped while the others are made.
\<close>

theorem earlier_refusal_forgotten:
  assumes "badger_spec B content good" "good kv" "list_all is_write (rc_Requests req)"
    and "rc_Requests req = rs @ [r]" "in_region region r"
  shows "\<exists>resp wb'. execNormalCmd B kv region req wb = Inr (Inr (resp, None, None), wb')
     \<and> wb_entries wb' = wb_entries wb @ concat (map (request_writes region) (filter (in_region region) (rc_Requests req)))"
proof -
  have w: "list_all is_write (rc_Requests req) \<or> list_all is_read (rc_Requests req)" using assms(3) by simp
  have "\<not> refused region (rc_Requests req)"
    using assms(3-5) by (auto simp: refused_def is_write_def)
  then obtain resp txn wb' where x: "execNormalCmd B kv region req wb = Inr (Inr (resp, txn, None), wb')"
    "wb_entries wb' = wb_entries wb @ concat (map (request_writes region) (rc_Requests req))"
    using badger_spec.execNormalCmd_ok [OF assms(1,2) w, of region wb] by auto
  have all: "concat (map (request_writes region) qs) = concat (map (request_writes region) (filter (in_region region) qs))" for qs
    by (induction qs) (auto simp: request_writes_def)
  have "txn = None" using x(1) by (auto simp: execNormalCmd_def bindR_Inr_iff dest!: write_loop_txn [OF assms(3)] split: if_splits option.splits)
  then show ?thesis using x all by metis
qed

section \<open>Callbacks\<close>

text \<open>The callbacks that wait in the queue, those whose answer is in the context, and those answered.\<close>

definition cbs_of :: "pendingCmd \<Rightarrow> callback list" where
  "cbs_of cmd = (case pc_cb cmd of None \<Rightarrow> [] | Some c \<Rightarrow> [c])"

definition waiting :: "pendingCmdQueue \<Rightarrow> callback multiset" where
  "waiting q = mset (concat (map cbs_of (pd_normals q))) + mset (case pd_confChange q of None \<Rightarrow> [] | Some c \<Rightarrow> cbs_of c)"

definition pushed :: "'db applyContext \<Rightarrow> callback multiset" where
  "pushed ac = mset (map fst (concat (map ak_invokeAll (ac_cbs ac))))"

definition answered :: "'db applyContext \<Rightarrow> callback multiset" where
  "answered ac = mset (map fst (ac_done ac))"

definition all_cbs :: "applier \<Rightarrow> 'db applyContext \<Rightarrow> callback multiset" where
  "all_cbs a ac = waiting (ap_pendingCmds a) + pushed ac + answered ac"

definition proposed :: "apply_msg \<Rightarrow> callback multiset" where
  "proposed msg = (case msg of ApplyProposal p \<Rightarrow> mset (List.map_filter po_cb (mp_Props p)) | _ \<Rightarrow> {#})"

definition opt_cb :: "callback option \<Rightarrow> callback multiset" where
  "opt_cb cb = (case cb of None \<Rightarrow> {#} | Some c \<Rightarrow> {#c#})"

lemma notify_fst [simp]: "map fst (notifyStaleCommand t cmd) = cbs_of cmd"
  by (simp add: notifyStaleCommand_def cb_Done_def cbs_of_def split: option.splits)

lemma notify_mset [simp]: "image_mset fst (mset (notifyStaleCommand t cmd)) = mset (cbs_of cmd)"
  by (simp only: mset_map [symmetric] notify_fst)

lemma cbs_of_opt: "mset (cbs_of cmd) = opt_cb (pc_cb cmd)"
  by (simp add: cbs_of_def opt_cb_def split: option.splits)

lemma pop_waiting:
  "popNormal t q = (None, q1) \<Longrightarrow> q1 = q" "popNormal t q = (Some cmd, q1) \<Longrightarrow> waiting q = mset (cbs_of cmd) + waiting q1"
  by (auto simp: popNormal_def waiting_def split: list.splits if_splits)

lemma findCallback_loop_cbs:
  fixes ds :: "'db answer list"
  shows "findCallback_loop i t q = (cb, q', ds) \<Longrightarrow> waiting q = opt_cb cb + waiting q' + mset (map fst ds)"
proof (induction i t q arbitrary: cb q' ds rule: findCallback_loop.induct)
  case (1 i t q)
  obtain h q1 where pop: "popNormal t q = (h, q1)" by force
  show ?case
  proof (cases h)
    case None
    then show ?thesis using 1(2) pop pop_waiting(1) [of t q q1] by (simp add: findCallback_loop.simps [of i t q] opt_cb_def)
  next
    case (Some cmd)
    note w = pop_waiting(2) [OF pop [unfolded Some]]
    show ?thesis
    proof (cases "pc_index cmd = i \<and> pc_term cmd = t")
      case True
      then show ?thesis using 1(2) pop Some w by (simp add: findCallback_loop.simps [of i t q] cbs_of_opt)
    next
      case False
      obtain cb2 q2 and ds2 :: "'db answer list" where r: "findCallback_loop i t q1 = (cb2, q2, ds2)" by (metis prod_cases3)
      have "cb = cb2" "q' = q2" "ds = notifyStaleCommand t cmd @ ds2"
        using 1(2) pop Some False r by (simp_all add: findCallback_loop.simps [of i t q])
      then show ?thesis using 1(1) [OF pop [symmetric] Some False r] w by (simp add: ac_simps)
    qed
  qed
qed

lemma findCallback_cbs:
  assumes "findCallback i t b q = (cb, q', ds)"
  shows "waiting q = opt_cb cb + waiting q' + mset (map fst ds)"
proof (cases b)
  case True
  then show ?thesis using assms
    by (auto simp: findCallback_def takeConfChange_def waiting_def opt_cb_def cbs_of_opt notifyStaleCommand_def cb_Done_def split: option.splits if_splits)
qed (use assms in \<open>simp add: findCallback_def findCallback_loop_cbs\<close>)

lemma invokeAll_push: "ak_invokeAll (ak_push cb resp txn c) = ak_invokeAll c @ (case cb of None \<Rightarrow> [] | Some k \<Rightarrow> [(k, resp, txn)])"
  by (simp add: ak_invokeAll_def ak_push_def List.map_filter_def split: option.splits)

lemma push_last_cbs: "push_last cb resp txn ac = Inr ac' \<Longrightarrow> pushed ac' = pushed ac + opt_cb cb \<and> ac_done ac' = ac_done ac"
proof -
  assume p: "push_last cb resp txn ac = Inr ac'"
  then have ne: "ac_cbs ac \<noteq> []" by (auto simp: push_last_def split: if_splits)
  have "map f xs = map f (butlast xs) @ [f (last xs)]" if "xs \<noteq> []" for f xs using append_butlast_last_id [OF that] by (metis list.simps(8,9) map_append)
  from this [OF ne, of ak_invokeAll] show ?thesis using p ne
    by (cases cb) (auto simp: push_last_def pushed_def invokeAll_push opt_cb_def)
qed

lemma execRaftCmd_queue: "execRaftCmd B P kv req (a, wb, st) = Inr (out, a1, wb1, st1) \<Longrightarrow> ap_pendingCmds a1 = ap_pendingCmds a"
  by (auto simp: execRaftCmd_def execAdminCmd_def execChangePeer_def bindR_Inr_iff Let_def split: option.splits AdminCmdType.splits sum.splits if_splits)

lemma take_result_queue: "take_result r a = Inr a1 \<Longrightarrow> ap_pendingCmds a1 = ap_pendingCmds a"
  by (auto simp: take_result_def split: option.splits execResult.splits)

lemma applyRaftCmd_cbs:
  assumes "applyRaftCmd B P index req a ac = Inr (r, a1, ac1)"
  shows "ap_pendingCmds a1 = ap_pendingCmds a \<and> ac_cbs ac1 = ac_cbs ac \<and> ac_done ac1 = ac_done ac"
proof -
  obtain out a0 wb0 st0 where x: "execRaftCmd B P (ac_kv ac) req (a, wb_SetSafePoint (ac_wb ac), ap_applyState a) = Inr (out, a0, wb0, st0)"
    using assms by (auto simp: applyRaftCmd_def bindR_Inr_iff split: if_splits)
  note q = execRaftCmd_queue [OF x]
  show ?thesis
    using assms x q
    by (cases out) (auto simp: applyRaftCmd_def bindR_Inr_iff Let_def dest!: take_result_queue split: if_splits)
qed

lemma processRaftCmd_cbs:
  assumes "processRaftCmd B P i t cmd a ac = Inr (r, a1, ac1)"
  shows "all_cbs a1 ac1 = all_cbs a ac"
proof -
  obtain resp txn res a2 ac2 where x: "applyRaftCmd B P i cmd a ac = Inr ((resp, txn, res), a2, ac2)"
    using assms by (auto simp: processRaftCmd_def bindR_Inr_iff Let_def split: if_splits)
  note k = applyRaftCmd_cbs [OF x]
  obtain cb q and ds :: "'a answer list" where f: "findCallback i t (GetChangePeerCmd cmd \<noteq> None) (ap_pendingCmds a2) = (cb, q, ds)" by (metis prod_cases3)
  have p: "push_last cb (BindRespTerm resp t) txn (ac2\<lparr>ac_done := ac_done ac2 @ ds\<rparr>) = Inr ac1" "ap_pendingCmds a1 = q"
    using assms x f by (auto simp: processRaftCmd_def bindR_Inr_iff Let_def split: if_splits)
  show ?thesis using push_last_cbs [OF p(1)] findCallback_cbs [OF f] k p(2)
    by (simp add: all_cbs_def answered_def pushed_def ac_simps)
qed

lemma stale_loop_cbs: "stale_loop t q ac = Inr (q1, ac1) \<Longrightarrow> waiting q1 + pushed ac1 = waiting q + pushed ac \<and> ac_done ac1 = ac_done ac"
proof (induction t q ac rule: stale_loop.induct)
  case (1 t q ac)
  obtain h q2 where pop: "popNormal (t - 1) q = (h, q2)" by force
  show ?case
  proof (cases h)
    case None
    then show ?thesis using 1(2) pop pop_waiting(1) [of "t - 1" q q2] by (simp add: stale_loop.simps [of t q])
  next
    case (Some cmd)
    then obtain ac2 where p: "push_last (pc_cb cmd) (ErrRespStaleCommand t) None ac = Inr ac2" "stale_loop t q2 ac2 = Inr (q1, ac1)"
      using 1(2) pop by (auto simp: stale_loop.simps [of t q] bindR_Inr_iff)
    have "waiting q1 + pushed ac1 = waiting q2 + pushed ac2" "ac_done ac1 = ac_done ac2" using 1(1) [OF pop [symmetric] Some p] by simp_all
    then show ?thesis using push_last_cbs [OF p(1)] pop_waiting(2) [OF pop [unfolded Some]] by (simp add: cbs_of_opt ac_simps)
  qed
qed

lemma handleRaftEntry_cbs:
  assumes "handleRaftEntry B P Q e a ac = Inr (r, a1, ac1)"
  shows "all_cbs a1 ac1 = all_cbs a ac"
proof (cases "e_EntryType e")
  case EntryNormal
  show ?thesis
  proof (cases "sbytes (e_Data e) = []")
    case True
    then obtain q where "stale_loop (e_Term e) (ap_pendingCmds a) ac = Inr (q, ac1)" "ap_pendingCmds a1 = q"
      using assms EntryNormal by (auto simp: handleRaftEntry_def handleRaftEntryNormal_def bindR_Inr_iff Let_def split: if_splits)
    then show ?thesis using stale_loop_cbs by (fastforce simp: all_cbs_def answered_def)
  next
    case False
    then show ?thesis using assms EntryNormal by (auto simp: handleRaftEntry_def handleRaftEntryNormal_def processRaftCmd_cbs split: sum.splits)
  qed
next
  case EntryConfChange
  then obtain cc cmd res a2 ac2 where x: "un_ConfChange Q (sbytes (e_Data e)) = Inr cc" "un_RaftCmdRequest Q (sbytes (cc_Context cc)) = Inr cmd"
    "processRaftCmd B P (e_Index e) (e_Term e) cmd a ac = Inr (res, a2, ac2)"
    using assms by (auto simp: handleRaftEntry_def handleRaftEntryConfChange_def bindR_Inr_iff split: sum.splits)
  then have "a1 = a2 \<and> ac1 = ac2" using assms EntryConfChange
    by (cases res) (auto simp: handleRaftEntry_def handleRaftEntryConfChange_def split: execResult.splits)
  then show ?thesis using processRaftCmd_cbs [OF x(3)] by simp
qed

lemma writeToDB_cbs: "ac_writeToDB B ac = Inr ac1 \<Longrightarrow> all_cbs a ac1 = all_cbs a ac \<and> pushed ac1 = {#}"
  by (auto simp: ac_writeToDB_def all_cbs_def pushed_def answered_def split: sum.splits)

lemma prepareFor_cbs: "prepareFor B P a ac = Inr (a1, ac1) \<Longrightarrow> all_cbs a1 ac1 = all_cbs a ac"
  by (auto simp: prepareFor_def all_cbs_def pushed_def answered_def ak_invokeAll_def List.map_filter_def Let_def split: sum.splits)

lemma commit_cbs: "ac_commit B P a ac = Inr (a1, ac1) \<Longrightarrow> all_cbs a1 ac1 = all_cbs a ac"
proof -
  assume c: "ac_commit B P a ac = Inr (a1, ac1)"
  let ?ac = "if ac_lastAppliedIndex ac < ra_AppliedIndex (ap_applyState a) then ac\<lparr>ac_wb := writeApplyState P a (ac_wb ac)\<rparr> else ac"
  obtain ac2 where w: "ac_writeToDB B ?ac = Inr ac2" "prepareFor B P a ac2 = Inr (a1, ac1)" using c by (auto simp: ac_commit_def commitOpt_def bindR_Inr_iff Let_def)
  have "all_cbs a ?ac = all_cbs a ac" by (simp add: all_cbs_def pushed_def answered_def)
  then show ?thesis using prepareFor_cbs [OF w(2)] writeToDB_cbs [OF w(1), of a] by simp
qed

lemma committed_loop_cbs: "committed_loop B P Q es rs a ac = Inr (rs1, a1, ac1) \<Longrightarrow> all_cbs a1 ac1 = all_cbs a ac"
proof (induction es arbitrary: rs a ac)
  case (Cons e es)
  show ?case
  proof (cases "ap_pendingRemove a")
    case True
    then show ?thesis using Cons.prems by simp
  next
    case False
    then obtain r a2 ac2 a3 ac3 rs3 where s: "handleRaftEntry B P Q e a ac = Inr (r, a2, ac2)" "ac_commit B P a2 ac2 = Inr (a3, ac3)"
      "committed_loop B P Q es rs3 a3 ac3 = Inr (rs1, a1, ac1)"
      using Cons.prems by (auto simp: bindR_Inr_iff Let_def split: if_splits)
    show ?thesis using handleRaftEntry_cbs [OF s(1)] commit_cbs [OF s(2)] Cons.IH [OF s(3)] by simp
  qed
qed simp

lemma handleApply_cbs: "handleApply B P Q c a ac = Inr (a1, ac1) \<Longrightarrow> all_cbs a1 ac1 = all_cbs a ac"
proof (cases "length (mc_entries c) = 0 \<or> ap_pendingRemove a")
  case False
  assume h: "handleApply B P Q c a ac = Inr (a1, ac1)"
  let ?a = "a\<lparr>ap_term := mc_term c\<rparr>"
  obtain a2 ac2 rs a3 ac3 where s: "prepareFor B P ?a ac = Inr (a2, ac2)"
    "committed_loop B P Q (mc_entries c) [] a2 (ac2\<lparr>ac_committedCount := ac_committedCount ac2 + 2 * length (mc_entries c)\<rparr>) = Inr (rs, a3, ac3)"
    "finishFor B P rs a3 ac3 = Inr (a1, ac1)"
    using h False by (auto simp: handleApply_def handleRaftCommittedEntries_def bindR_Inr_iff)
  have "all_cbs a1 ac1 = all_cbs a3 ac3" using s(3) by (auto simp: finishFor_def commitOpt_def all_cbs_def pushed_def answered_def split: if_splits)
  then show ?thesis using prepareFor_cbs [OF s(1)] committed_loop_cbs [OF s(2)] by (simp add: all_cbs_def pushed_def answered_def)
qed (auto simp: handleApply_def)

lemma proposal_loop_cbs:
  fixes ds :: "'db answer list"
  shows "proposal_loop t ps q = (ds, q') \<Longrightarrow> waiting q' + mset (map fst ds) = waiting q + mset (List.map_filter po_cb ps)"
proof (induction ps arbitrary: q q' ds)
  case (Cons p ps)
  let ?cmd = "\<lparr>pc_index = po_index p, pc_term = po_term p, pc_cb = po_cb p\<rparr>"
  have one: "mset (List.map_filter po_cb (p # ps)) = opt_cb (po_cb p) + mset (List.map_filter po_cb ps)"
    by (simp add: List.map_filter_def opt_cb_def split: option.splits)
  show ?case
  proof (cases "po_isConfChange p")
    case True
    let ?q1 = "setConfChange ?cmd (q\<lparr>pd_confChange := None\<rparr>)"
    let ?d = "(case pd_confChange q of None \<Rightarrow> [] | Some c \<Rightarrow> notifyStaleCommand t c) :: 'db answer list"
    obtain ds1 :: "'db answer list" and q2 where r: "proposal_loop t ps ?q1 = (ds1, q2)" by force
    have d: "ds = ?d @ ds1" "q' = q2" using Cons.prems True r by (simp_all add: takeConfChange_def Let_def)
    have e1: "waiting q' + mset (map fst ds1) = waiting ?q1 + mset (List.map_filter po_cb ps)"
      using Cons.IH [OF r] d(2) by simp
    have e2: "waiting ?q1 + mset (map fst ?d) = waiting q + opt_cb (po_cb p)"
      by (cases "pd_confChange q") (simp_all add: waiting_def setConfChange_def cbs_of_opt)
    have "waiting q' + mset (map fst ds) = (waiting q' + mset (map fst ds1)) + mset (map fst ?d)" unfolding d(1) by (simp add: ac_simps)
    also have "\<dots> = (waiting ?q1 + mset (map fst ?d)) + mset (List.map_filter po_cb ps)" unfolding e1 by (simp add: ac_simps)
    finally show ?thesis unfolding one e2 by (simp add: ac_simps)
  next
    case False
    have "waiting (appendNormal ?cmd q) = waiting q + opt_cb (po_cb p)" by (simp add: waiting_def appendNormal_def cbs_of_opt)
    then show ?thesis using Cons.IH [of "appendNormal ?cmd q" ds] Cons.prems False unfolding one by (simp add: ac_simps)
  qed
qed (simp add: List.map_filter_def)

lemma concat_notify: "mset (map fst (concat (map (notifyStaleCommand t) cmds))) = mset (concat (map cbs_of cmds))"
  by (induction cmds) simp_all

lemma handleTask_cbs:
  assumes "handleTask B P Q msg a ac = Inr (a1, ac1)"
  shows "all_cbs a1 ac1 = all_cbs a ac + proposed msg"
proof (cases msg)
  case (ApplyProposal p)
  then obtain ds where h: "handleProposal p a = Inr (ds, a1)" "ac1 = ac\<lparr>ac_done := ac_done ac @ ds\<rparr>" using assms by (auto simp: handleTask_def bindR_Inr_iff)
  have "waiting (ap_pendingCmds a1) + mset (map fst ds) = waiting (ap_pendingCmds a) + mset (List.map_filter po_cb (mp_Props p))"
  proof (cases "ap_pendingRemove a")
    case True
    have "mset (map fst (concat (map (\<lambda>p. notifyStaleCommand t \<lparr>pc_index = po_index p, pc_term = po_term p, pc_cb = po_cb p\<rparr>) ps))) = mset (List.map_filter po_cb ps)" for t ps
      by (induction ps) (auto simp: List.map_filter_def cbs_of_def split: option.splits)
    then show ?thesis using h(1) True by (auto simp: handleProposal_def split: if_splits)
  next
    case False
    then show ?thesis using h(1) False by (auto simp: handleProposal_def dest!: proposal_loop_cbs split: if_splits prod.splits)
  qed
  then show ?thesis using h(2) ApplyProposal by (simp add: all_cbs_def answered_def pushed_def proposed_def ac_simps)
next
  case (ApplyCommitted c)
  then show ?thesis using assms by (simp add: handleTask_def proposed_def handleApply_cbs)
next
  case (ApplyRefresh r)
  then obtain ds where h: "handleRefresh r a = Inr (ds, a1)" "ac1 = ac\<lparr>ac_done := ac_done ac @ ds\<rparr>" using assms by (auto simp: handleTask_def bindR_Inr_iff)
  have "waiting (ap_pendingCmds a1) = {#}" "mset (map fst ds) = waiting (ap_pendingCmds a)"
    using h(1) concat_notify [of "mr_term r" "pd_normals (ap_pendingCmds a)"]
    by (auto simp: handleRefresh_def newApplier_def emptyQueue_def waiting_def takeConfChange_def Let_def split: if_splits option.splits)
  then show ?thesis using h(2) ApplyRefresh by (simp add: all_cbs_def answered_def pushed_def proposed_def ac_simps)
qed

text \<open>All callbacks of the router and the context, those offered by the events of a round, and those in messages for regions that are not registered.\<close>

definition router_cbs :: "router \<Rightarrow> callback multiset" where
  "router_cbs pr = (\<Sum>r\<in>dom pr. waiting (ap_pendingCmds (the (pr r))))"

definition round_cbs :: "router \<Rightarrow> 'db applyContext \<Rightarrow> callback multiset" where
  "round_cbs pr ac = router_cbs pr + pushed ac + answered ac"

fun offered :: "round_event \<Rightarrow> callback multiset" where
  "offered (Task r msg) = proposed msg"
| "offered (Register r a) = waiting (ap_pendingCmds a)"
| "offered (Close r) = {#}"

fun discarded :: "nat set \<Rightarrow> round_event list \<Rightarrow> callback multiset" where
  "discarded D [] = {#}"
| "discarded D (Task r msg # evs) = (if r \<in> D then {#} else proposed msg) + discarded D evs"
| "discarded D (Register r a # evs) = discarded (insert r D) evs"
| "discarded D (Close r # evs) = discarded (D - {r}) evs"

text \<open>Peers are registered for regions that have none.\<close>

fun new_peers :: "nat set \<Rightarrow> round_event list \<Rightarrow> bool" where
  "new_peers D [] \<longleftrightarrow> True"
| "new_peers D (Task r msg # evs) \<longleftrightarrow> new_peers D evs"
| "new_peers D (Register r a # evs) \<longleftrightarrow> r \<notin> D \<and> new_peers (insert r D) evs"
| "new_peers D (Close r # evs) \<longleftrightarrow> new_peers (D - {r}) evs"

lemma router_cbs_remove: "finite (dom pr) \<Longrightarrow> pr r = Some a \<Longrightarrow> router_cbs pr = waiting (ap_pendingCmds a) + router_cbs (pr(r := None))"
proof -
  assume "finite (dom pr)" "pr r = Some a"
  then have "(\<Sum>x\<in>dom pr. waiting (ap_pendingCmds (the (pr x)))) = waiting (ap_pendingCmds a) + (\<Sum>x\<in>dom pr - {r}. waiting (ap_pendingCmds (the (pr x))))"
    using sum.remove [of "dom pr" r "\<lambda>x. waiting (ap_pendingCmds (the (pr x)))"] by auto
  moreover have "(\<Sum>x\<in>dom pr - {r}. waiting (ap_pendingCmds (the (pr x)))) = router_cbs (pr(r := None))"
    unfolding router_cbs_def by (rule sum.cong) auto
  ultimately show ?thesis unfolding router_cbs_def [of pr] by (simp only:)
qed

lemma router_cbs_put: "finite (dom pr) \<Longrightarrow> router_cbs (pr(r \<mapsto> a)) = waiting (ap_pendingCmds a) + router_cbs (pr(r := None))"
  using router_cbs_remove [of "pr(r \<mapsto> a)" r a] by simp

lemma destroy_cbs: "mset (map fst (fst (applier_destroy a))) = waiting (ap_pendingCmds a)"
proof -
  have one: "map fst (notifyRegionRemoved rid cmd :: 'a answer list) = cbs_of cmd" for rid cmd
    by (simp add: notifyRegionRemoved_def cb_Done_def cbs_of_def split: option.splits)
  have "mset (map fst (concat (map (notifyRegionRemoved rid) cmds) :: 'a answer list)) = mset (concat (map cbs_of cmds))" for rid cmds
    by (induction cmds) (simp_all only: one list.map concat.simps map_append mset_append mset.simps)
  moreover have "mset (map fst (notifyRegionRemoved rid cmd :: 'a answer list)) = mset (cbs_of cmd)" for rid cmd by (simp only: one)
  ultimately show ?thesis by (auto simp: applier_destroy_def takeConfChange_def waiting_def Let_def split: option.splits)
qed

lemma task_cbs:
  assumes "handleTask B P Q msg a ac = Inr (a1, ac1)" "finite (dom pr)" "pr r = Some a"
  shows "round_cbs (pr(r \<mapsto> a1)) ac1 = round_cbs pr ac + proposed msg"
  using handleTask_cbs [OF assms(1)] router_cbs_remove [OF assms(2,3)] router_cbs_put [OF assms(2), of r a1]
  by (simp add: round_cbs_def all_cbs_def ac_simps)

lemma close_cbs:
  assumes "finite (dom pr)" "router_close r pr = (ds, pr1)"
  shows "round_cbs pr1 (ac\<lparr>ac_done := ac_done ac @ ds\<rparr>) = round_cbs pr ac \<and> dom pr1 = dom pr - {r}"
proof (cases "pr r")
  case None
  then show ?thesis using assms(2) by (auto simp: router_close_def)
next
  case (Some a)
  then have "ds = fst (applier_destroy a)" "pr1 = pr(r := None)" using assms(2) by (simp_all add: router_close_def)
  then show ?thesis using router_cbs_remove [OF assms(1) Some] destroy_cbs [of a, where 'a = 'a]
    by (simp add: round_cbs_def answered_def pushed_def ac_simps)
qed

lemma task_loop_cbs:
  assumes "task_loop B P Q evs pr ac = Inr (pr1, ac1)" "finite (dom pr)"
  shows "round_cbs pr1 ac1 \<subseteq># round_cbs pr ac + sum_list (map offered evs)
    \<and> (new_peers (dom pr) evs \<longrightarrow> round_cbs pr1 ac1 + discarded (dom pr) evs = round_cbs pr ac + sum_list (map offered evs))"
  using assms
proof (induction evs arbitrary: pr ac)
  case (Cons ev evs)
  show ?case
  proof (cases ev)
    case (Task r msg)
    show ?thesis
    proof (cases "pr r")
      case None
      then have "task_loop B P Q evs pr ac = Inr (pr1, ac1)" "r \<notin> dom pr" using Cons.prems(1) Task by auto
      then show ?thesis using Cons.IH [of pr ac] Cons.prems(2) Task by (auto simp: ac_simps intro: subset_mset.order_trans mset_subset_eq_add_right)
    next
      case (Some a)
      then obtain a2 ac2 where s: "handleTask B P Q msg a ac = Inr (a2, ac2)" "task_loop B P Q evs (pr(r \<mapsto> a2)) ac2 = Inr (pr1, ac1)"
        using Cons.prems(1) Task by (auto simp: bindR_Inr_iff)
      have "dom (pr(r \<mapsto> a2)) = dom pr" "r \<in> dom pr" using Some by auto
      then show ?thesis using Cons.IH [OF s(2)] Cons.prems(2) Task task_cbs [OF s(1) Cons.prems(2) Some] by (simp add: ac_simps del: fun_upd_apply)
    qed
  next
    case (Register r a)
    then have s: "task_loop B P Q evs (pr(r \<mapsto> a)) ac = Inr (pr1, ac1)" using Cons.prems(1) by simp
    have put: "router_cbs (pr(r \<mapsto> a)) = waiting (ap_pendingCmds a) + router_cbs (pr(r := None))" by (rule router_cbs_put [OF Cons.prems(2)])
    have less: "router_cbs (pr(r := None)) \<subseteq># router_cbs pr"
    proof (cases "pr r")
      case None
      then have "pr(r := None) = pr" by (simp add: fun_upd_idem)
      then show ?thesis by simp
    next
      case (Some b)
      show ?thesis unfolding router_cbs_remove [OF Cons.prems(2) Some] by simp
    qed
    have same: "r \<notin> dom pr \<Longrightarrow> router_cbs (pr(r := None)) = router_cbs pr" by (simp add: domIff fun_upd_idem)
    have sub: "round_cbs (pr(r \<mapsto> a)) ac \<subseteq># round_cbs pr ac + waiting (ap_pendingCmds a)"
      using put less by (simp add: round_cbs_def ac_simps subset_mset.add_left_mono subset_mset.add_right_mono)
    have most: "r \<notin> dom pr \<Longrightarrow> round_cbs (pr(r \<mapsto> a)) ac = round_cbs pr ac + waiting (ap_pendingCmds a)"
      using put same by (simp add: round_cbs_def ac_simps)
    have "finite (dom (pr(r \<mapsto> a)))" "dom (pr(r \<mapsto> a)) = insert r (dom pr)" using Cons.prems(2) by simp_all
    note IH = Cons.IH [OF s this(1), unfolded this(2)]
    have "round_cbs pr1 ac1 \<subseteq># round_cbs (pr(r \<mapsto> a)) ac + sum_list (map offered evs)" using IH by (rule conjunct1)
    also have "\<dots> \<subseteq># (round_cbs pr ac + waiting (ap_pendingCmds a)) + sum_list (map offered evs)" using sub by (rule subset_mset.add_right_mono)
    finally show ?thesis using IH most Register by (auto simp: ac_simps simp del: fun_upd_apply)
  next
    case (Close r)
    obtain ds :: "'a answer list" and pr2 where c: "router_close r pr = (ds, pr2)" by force
    then have s: "task_loop B P Q evs pr2 (ac\<lparr>ac_done := ac_done ac @ ds\<rparr>) = Inr (pr1, ac1)" using Cons.prems(1) Close by simp
    have "finite (dom pr2)" using close_cbs [OF Cons.prems(2) c, of ac] Cons.prems(2) by simp
    then show ?thesis using Cons.IH [OF s] close_cbs [OF Cons.prems(2) c, of ac] Close by simp
  qed
qed simp

text \<open>
  C37. Over a round of the apply worker, with peers registered and closed between its messages, no callback is answered twice or made up: the
  callbacks answered together with those still waiting are among those that were answered or waiting before and those offered in the
  round, so that when no callback is offered twice, none is answered twice and signalling it on its channel of capacity one never blocks. When
  peers are only registered for regions that have none, the ones that are missing are exactly those proposed in
  messages for regions that are not registered when the message is looked up: such a message is dropped with its callbacks.
\<close>

theorem callbacks_answered_once:
  assumes "finite (dom pr)" "apply_round B P Q evs pr ac = Inr (pr', ac')"
  shows "router_cbs pr' + answered ac' \<subseteq># round_cbs pr ac + sum_list (map offered evs)
    \<and> (new_peers (dom pr) evs \<longrightarrow> router_cbs pr' + answered ac' + discarded (dom pr) evs = round_cbs pr ac + sum_list (map offered evs))
    \<and> ((\<forall>c. count (round_cbs pr ac + sum_list (map offered evs)) c \<le> 1) \<longrightarrow> distinct (map fst (ac_done ac')))"
proof -
  obtain ac1 where r: "task_loop B P Q evs pr ac = Inr (pr', ac1)" "ac_flush B ac1 = Inr ac'" using assms(2) by (auto simp: apply_round_def bindR_Inr_iff)
  obtain ac2 where w: "ac_writeToDB B ac1 = Inr ac2" "ac' = ac2\<lparr>ac_notified := ac_notified ac2 @ ac_applyTaskResList ac2, ac_applyTaskResList := [], ac_committedCount := 0\<rparr>"
    using r(2) by (auto simp: ac_flush_def bindR_Inr_iff)
  have eq: "router_cbs pr' + answered ac' = round_cbs pr' ac1"
    using w by (auto simp: ac_writeToDB_def round_cbs_def pushed_def answered_def ac_simps split: sum.splits)
  note all = task_loop_cbs [OF r(1) assms(1)]
  have "distinct (map fst (ac_done ac'))" if c: "\<forall>c. count (round_cbs pr ac + sum_list (map offered evs)) c \<le> 1"
  proof -
    have "answered ac' \<subseteq># round_cbs pr ac + sum_list (map offered evs)" using all unfolding eq [symmetric] by (metis mset_subset_eq_add_right subset_mset.order_trans)
    then have "count (mset (map fst (ac_done ac'))) x \<le> 1" for x
      using c by (auto simp: answered_def subseteq_mset_def intro: order_trans)
    then show ?thesis by (metis One_nat_def count_greater_zero_iff count_mset_0_iff distinct_count_atmost_1 le_0_eq le_SucE nat_less_le not_gr_zero)
  qed
  then show ?thesis using all eq by simp
qed

section \<open>Runs\<close>

text \<open>A region with peers 2 and 8 on the stores 1 and 2; a write of key 5, a split at key 7, and the write once more, which now has an old epoch.\<close>

definition demo_region :: Region where
  "demo_region = \<lparr>rg_Id = 1, rg_StartKey = [], rg_EndKey = [], rg_RegionEpoch = \<lparr>ep_ConfVer = 1, ep_Version = 1\<rparr>,
     rg_Peers = [\<lparr>pr_Id = 2, pr_StoreId = 1\<rparr>, \<lparr>pr_Id = 8, pr_StoreId = 2\<rparr>]\<rparr>"

definition demo_header :: RaftRequestHeader where
  "demo_header = \<lparr>rh_RegionId = 1, rh_Peer = Some \<lparr>pr_Id = 2, pr_StoreId = 1\<rparr>, rh_RegionEpoch = Some \<lparr>ep_ConfVer = 1, ep_Version = 1\<rparr>, rh_Term = 6\<rparr>"

definition demo_put :: "bytes \<Rightarrow> Request" where
  "demo_put k = \<lparr>rq_CmdType = CmdType_Put, rq_Get = None, rq_Put = Some \<lparr>pq_Cf = [], pq_Key = k, pq_Value = Some [9]\<rparr>, rq_Delete = None\<rparr>"

definition demo_write :: RaftCmdRequest where
  "demo_write = \<lparr>rc_Header = Some demo_header, rc_Requests = [demo_put [5]], rc_AdminRequest = None\<rparr>"

definition demo_split_req :: AdminRequest where
  "demo_split_req = \<lparr>aq_CmdType = AdminSplit, aq_ChangePeer = None, aq_CompactLog = None, aq_TransferLeader = None,
     aq_Split = Some \<lparr>sq_SplitKey = [7], sq_NewRegionId = 3, sq_NewPeerIds = [4, 9]\<rparr>\<rparr>"

definition demo_split :: RaftCmdRequest where
  "demo_split = \<lparr>rc_Header = Some demo_header, rc_Requests = [], rc_AdminRequest = Some demo_split_req\<rparr>"

definition demo_cmds :: cmdcodec where
  "demo_cmds = \<lparr>un_RaftCmdRequest = (\<lambda>bs. if bs = [1] then Inr demo_write else if bs = [2] then Inr demo_split else Inl (ErrBadger ''bad'')),
     un_ConfChange = (\<lambda>bs. Inl (ErrBadger ''bad''))\<rparr>"

definition demo_entry :: "nat \<Rightarrow> bytes \<Rightarrow> Entry" where
  "demo_entry i d = \<lparr>e_EntryType = EntryNormal, e_Term = 6, e_Index = i, e_Data = Some d\<rparr>"

definition demo_entries :: "Entry list" where
  "demo_entries = [demo_entry 6 [1], demo_entry 7 [2], demo_entry 8 [1]]"

definition demo_disk :: cfdata where
  "demo_disk = [(ApplyStateKey 1, Some (pb_RaftApplyState region_codec init_apply)),
     (RegionStateKey 1, Some (put_region_state \<lparr>rs_State = PeerState_Normal, rs_Region = demo_region\<rparr>))]"

definition demo_props :: MsgApplyProposal where
  "demo_props = \<lparr>mp_Id = 2, mp_RegionId = 1, mp_Props = [\<lparr>po_isConfChange = False, po_index = 6, po_term = 6, po_cb = Some 70\<rparr>,
     \<lparr>po_isConfChange = False, po_index = 8, po_term = 6, po_cb = Some 71\<rparr>]\<rparr>"

definition demo_start :: rsm where
  "demo_start = \<lparr>sm_region = demo_region, sm_apply = init_apply, sm_removed = False\<rparr>"

definition demo_new :: Region where
  "demo_new = \<lparr>rg_Id = 3, rg_StartKey = [], rg_EndKey = [7], rg_RegionEpoch = \<lparr>ep_ConfVer = 1, ep_Version = 2\<rparr>,
     rg_Peers = [\<lparr>pr_Id = 4, pr_StoreId = 1\<rparr>, \<lparr>pr_Id = 9, pr_StoreId = 2\<rparr>]\<rparr>"

definition demo_derived :: Region where
  "demo_derived = demo_region\<lparr>rg_RegionEpoch := \<lparr>ep_ConfVer = 1, ep_Version = 2\<rparr>, rg_StartKey := [7]\<rparr>"

definition demo_state :: "nat \<Rightarrow> Region \<Rightarrow> rsm" where
  "demo_state i r = \<lparr>sm_region = r, sm_apply = init_apply\<lparr>ra_AppliedIndex := i\<rparr>, sm_removed = False\<rparr>"

definition demo_batches :: "(bytes \<times> goslice) list list" where
  "demo_batches = [[(KeyWithCF CfDefault [5], Some [9]), apply_write region_codec 1 (init_apply\<lparr>ra_AppliedIndex := 6\<rparr>)],
     [region_write region_codec PeerState_Normal demo_new, apply_write region_codec 3 init_apply, region_write region_codec PeerState_Normal demo_derived,
      apply_write region_codec 1 (init_apply\<lparr>ra_AppliedIndex := 7\<rparr>)],
     [apply_write region_codec 1 (init_apply\<lparr>ra_AppliedIndex := 8\<rparr>)]]"

lemmas demo_defs = demo_region_def demo_header_def demo_put_def demo_write_def demo_split_def demo_split_req_def demo_cmds_def demo_entry_def
lemmas effect_defs = entry_effect_def cmd_effect_def entry_cmd_def CheckRegionEpoch_def epoch_checks_def normal_writes_def refused_def in_region_def
  request_writes_def region_keys_of_def GetPut_def cf_or_default_def admin_effect_def split_check_def split_regions_def CheckKeyInRegion_def sbytes_def

lemma demo_effect_first: "entry_effect region_codec demo_cmds pid (demo_entry 6 [1]) demo_start = (demo_batches ! 0, demo_state 6 demo_region)"
  by (simp add: effect_defs demo_defs demo_start_def demo_batches_def demo_state_def)

lemma demo_effect_second: "entry_effect region_codec demo_cmds pid (demo_entry 7 [2]) (demo_state 6 demo_region) = (demo_batches ! 1, demo_state 7 demo_derived)"
  by (simp add: effect_defs demo_defs demo_batches_def demo_state_def demo_new_def demo_derived_def numeral_2_eq_2)

lemma demo_effect_third: "entry_effect region_codec demo_cmds pid (demo_entry 8 [1]) (demo_state 7 demo_derived) = (demo_batches ! 2, demo_state 8 demo_derived)"
  by (simp add: effect_defs demo_defs demo_batches_def demo_state_def demo_derived_def)

lemma demo_effect: "entries_effect region_codec demo_cmds pid demo_entries demo_start = (demo_batches, demo_state 8 demo_derived)"
proof -
  have "\<not> sm_removed demo_start" "\<not> sm_removed (demo_state i r)" for i r by (simp_all add: demo_start_def demo_state_def)
  moreover have "demo_batches = [demo_batches ! 0, demo_batches ! 1, demo_batches ! 2]" by (simp add: demo_batches_def)
  ultimately show ?thesis by (simp add: demo_entries_def demo_effect_first demo_effect_second demo_effect_third)
qed

lemma demo_wf: "list_all (entry_wf demo_cmds) demo_entries" "list_all (entry_cfs demo_cmds) demo_entries" "contiguous (ra_AppliedIndex init_apply + 1) demo_entries"
  by (simp_all add: demo_entries_def demo_defs entry_wf_def entry_cfs_def entry_cmd_def sbytes_def cmd_wf_def is_write_def admin_wf_def request_cfs_def
      GetPut_def GetDelete_def cf_or_default_def init_apply_def RaftInitLogIndex_def)

lemma init_apply_u64: "apply_u64 init_apply"
  by (simp add: apply_u64_def u64_def init_apply_def RaftInitLogIndex_def RaftInitLogTerm_def)

lemma demo_good: "cf_sorted demo_disk \<and> values_normal demo_disk"
proof -
  have "pb_RaftApplyState region_codec init_apply \<noteq> []" by (rule list_store.apply_full)
  moreover have "put_region_state s \<noteq> []" for s by (simp add: put_region_state_def Let_def)
  moreover have "ApplyStateKey 1 < RegionStateKey 1" by (simp add: key_defs key_prefixes)
  ultimately show ?thesis by (simp add: demo_disk_def cf_sorted_def values_normal_def)
qed

lemma demo_region_fits: "region_fits demo_region" "region_fits demo_derived"
  by (simp_all add: region_fits_def u64_def demo_region_def demo_derived_def)

lemma demo_on_disk: "on_disk region_codec (map_of demo_disk) demo_start"
proof -
  have "un_RaftApplyState region_codec (pb_RaftApplyState region_codec init_apply) = Inr init_apply" by (rule list_store.apply_state [OF init_apply_u64])
  moreover have "un_RegionLocalState region_codec (put_region_state \<lparr>rs_State = PeerState_Normal, rs_Region = demo_region\<rparr>)
      = Inr \<lparr>rs_State = PeerState_Normal, rs_Region = demo_region\<rparr>"
    using region_state_put [of "\<lparr>rs_State = PeerState_Normal, rs_Region = demo_region\<rparr>"] demo_region_fits(1) by (simp add: region_codec_def)
  moreover have "rg_Id demo_region = 1" by (simp add: demo_region_def)
  ultimately show ?thesis by (simp add: on_disk_def demo_disk_def demo_start_def peer_state_def sbytes_def)
qed

lemma demo_apply_state: "GetApplyState list_badger region_codec demo_disk 1 = Inr init_apply"
  using demo_on_disk list_store.get_meta [OF demo_good, of "un_RaftApplyState region_codec" "ApplyStateKey 1"]
  by (auto simp: on_disk_def GetApplyState_def demo_start_def demo_region_def)

abbreviation demo_task :: "nat \<Rightarrow> Entry list \<Rightarrow> round_event" where
  "demo_task t es \<equiv> Task 1 (ApplyCommitted \<lparr>mc_regionId = 1, mc_term = t, mc_entries = es\<rparr>)"

abbreviation demo_round :: "nat \<Rightarrow> Entry list \<Rightarrow> applier \<Rightarrow> cfdata \<Rightarrow> fault + (router \<times> cfdata applyContext)" where
  "demo_round t es a db \<equiv> apply_round list_badger region_codec demo_cmds [demo_task t es] [1 \<mapsto> a] (newApplyContext db)"

abbreviation demo_content_good :: "cfdata \<Rightarrow> bool" where
  "demo_content_good m \<equiv> cf_sorted m \<and> values_normal m"

lemma demo_applier: "ap_region (newApplier pid t r) = r" "ap_id (newApplier pid t r) = pid" "\<not> ap_pendingRemove (newApplier pid t r)"
  by (simp_all add: newApplier_def)

lemma demo_read: "GetApplyState list_badger region_codec demo_disk (rg_Id (ap_region (newApplier pid t demo_region))) = Inr init_apply"
  using demo_apply_state by (simp add: demo_applier) (simp add: demo_region_def)

lemma demo_effect_of:
  "entries_effect region_codec demo_cmds (ap_id (newApplier pid t demo_region)) demo_entries
     \<lparr>sm_region = ap_region (newApplier pid t demo_region), sm_apply = init_apply, sm_removed = False\<rparr> = (demo_batches, demo_state 8 demo_derived)"
  using demo_effect [of pid] by (simp add: demo_applier demo_start_def)

abbreviation demo_recording :: "fault + (router \<times> (cfdata \<times> cfdata list) applyContext)" where
  "demo_recording \<equiv> apply_round (recording list_badger) region_codec demo_cmds [demo_task 6 demo_entries] [1 \<mapsto> newApplier 2 6 demo_region] (newApplyContext (demo_disk, []))"

lemma demo_no_removal: "\<not> sm_removed (demo_state i r)" "demo_entries \<noteq> []"
  by (simp_all add: demo_state_def demo_entries_def)

theorem apply_refines_witness:
  "\<exists>a' ac'. demo_recording = Inr ([1 \<mapsto> a'], ac') \<and> ap_region a' = demo_derived \<and> \<not> ap_pendingRemove a'
     \<and> map_of (fst (ac_kv ac')) = foldl disk_write (map_of demo_disk) demo_batches
     \<and> map map_of (snd (ac_kv ac')) = disk_states (map_of demo_disk) demo_batches @ [foldl disk_write (map_of demo_disk) demo_batches]"
  using apply_refines [OF list_store.peer_engine_axioms demo_good list_writes demo_read [of 2 6] init_apply_u64 demo_applier(3) demo_wf(3,1) demo_effect_of,
      of "[1 \<mapsto> newApplier 2 6 demo_region]" 1 6] demo_no_removal
  by (auto simp: demo_state_def)

text \<open>Stopping after two entries, and a new applier on what is found.\<close>

lemma demo_two: "entries_effect region_codec demo_cmds pid (take 2 demo_entries) demo_start = (take 2 demo_batches, demo_state 7 demo_derived)"
proof -
  have "\<not> sm_removed demo_start" "\<not> sm_removed (demo_state i r)" for i r by (simp_all add: demo_start_def demo_state_def)
  then show ?thesis by (simp add: demo_entries_def demo_effect_first demo_effect_second) (simp add: demo_batches_def)
qed

lemma demo_alive: "\<not> sm_removed (snd (entries_effect region_codec demo_cmds pid (drop k demo_entries) (snd (entries_effect region_codec demo_cmds pid (take k demo_entries) demo_start))))"
proof -
  have "k = 0 \<or> k = 1 \<or> k = 2 \<or> 3 \<le> k" by linarith
  moreover have "\<not> sm_removed demo_start" by (simp add: demo_start_def)
  ultimately show ?thesis using demo_effect [of pid] demo_two [of pid]
    by (auto simp: demo_entries_def demo_effect_first demo_effect_second demo_effect_third demo_no_removal)
qed

lemma demo_fits: "k \<le> length demo_entries \<Longrightarrow> region_fits (sm_region (snd (entries_effect region_codec demo_cmds pid (take k demo_entries) demo_start)))"
proof -
  assume "k \<le> length demo_entries"
  then have "k = 0 \<or> k = 1 \<or> k = 2 \<or> k = 3" by (auto simp: demo_entries_def)
  moreover have "\<not> sm_removed demo_start" by (simp add: demo_start_def)
  then have "entries_effect region_codec demo_cmds pid (take 1 demo_entries) demo_start = ([demo_batches ! 0], demo_state 6 demo_region)"
    by (simp add: demo_entries_def demo_effect_first)
  moreover have "take 3 demo_entries = demo_entries" by (simp add: demo_entries_def)
  ultimately show ?thesis using demo_region_fits demo_two [of pid] demo_effect [of pid] by (auto simp: demo_start_def demo_state_def)
qed

theorem crash_resume_witness:
  "\<exists>pr' ac' db k sk a1 ac1. demo_recording = Inr (pr', ac') \<and> snd (ac_kv ac') ! 1 = db
     \<and> entries_effect region_codec demo_cmds 2 (take k demo_entries) demo_start = (take k demo_batches, sk) \<and> \<not> sm_removed sk
     \<and> GetRegionLocalState list_badger region_codec db (rg_Id (sm_region sk)) = Inr \<lparr>rs_State = PeerState_Normal, rs_Region = sm_region sk\<rparr>
     \<and> demo_round 6 (drop k demo_entries) (newApplier 2 6 (sm_region sk)) db = Inr ([1 \<mapsto> a1], ac1)
     \<and> map_of (ac_kv ac1) = map_of (fst (ac_kv ac'))"
proof -
  have "\<exists>a' ac'. demo_recording = Inr ([1 \<mapsto> a'], ac') \<and> length (snd (ac_kv ac')) = 4"
  proof -
    note round = peer_engine.round_ok [OF list_store.recording_engine]
    have ok: "recording_ok (\<lambda>m. cf_sorted m \<and> values_normal m) (demo_disk, [])" using demo_good by (simp add: recording_ok_def)
    have rd: "GetApplyState (recording list_badger) region_codec (demo_disk, []) (rg_Id (ap_region (newApplier 2 6 demo_region))) = Inr init_apply"
      using demo_read by (simp add: recording_reads)
    have "length (disk_states m demo_batches) = 3" for m by (simp add: demo_batches_def)
    then have l: "map map_of d = disk_states m demo_batches @ [x] \<Longrightarrow> length d = 4" for d m x by (auto dest!: arg_cong [of _ _ length])
    show ?thesis
      using round [OF ok recording_writes [OF list_writes] rd init_apply_u64 demo_applier(3) demo_wf(3,1) demo_effect_of,
          of "[1 \<mapsto> newApplier 2 6 demo_region]" 1 6 "recording_log (\<lambda>m. m)"] recording_records [of list_badger "\<lambda>m. m"] demo_no_removal
      by (auto simp: recording_log_def dest!: l)
  qed
  then obtain a' ac' where r: "demo_recording = Inr ([1 \<mapsto> a'], ac')" "length (snd (ac_kv ac')) = 4" by blast
  then have m: "snd (ac_kv ac') ! 1 \<in> set (demo_disk # snd (ac_kv ac'))" by simp
  have u: "apply_u64 (sm_apply demo_start)" "contiguous (ra_AppliedIndex (sm_apply demo_start) + 1) demo_entries" "\<not> sm_removed demo_start"
    "ap_region (newApplier 2 6 demo_region) = sm_region demo_start"
    using init_apply_u64 demo_wf(3) by (simp_all add: demo_start_def newApplier_def)
  have alive: "\<not> sm_removed (snd (entries_effect region_codec demo_cmds 2 (take k demo_entries) demo_start))" for k
    using entries_effect_keeps_removed [of region_codec demo_cmds 2 "drop k demo_entries"] demo_alive [where pid = 2 and k = k] by blast
  from crash_resume [OF list_store.store_engine_axioms list_writes demo_good demo_on_disk u(1,3,2) demo_wf(1,2) demo_fits demo_effect [of 2],
      where pr = "[1 \<mapsto> newApplier 2 6 demo_region]" and rid = 1 and a = "newApplier 2 6 demo_region" and tm = 6, OF _ _ _ u(4) _ r(1) m] demo_applier
  obtain k sk where k: "entries_effect region_codec demo_cmds 2 (take k demo_entries) demo_start = (take k demo_batches, sk)"
    "GetRegionLocalState list_badger region_codec (snd (ac_kv ac') ! 1) (rg_Id (sm_region sk)) = Inr \<lparr>rs_State = peer_state sk, rs_Region = sm_region sk\<rparr>"
    "sm_removed sk \<or> (\<exists>a1 ac1. demo_round 6 (drop k demo_entries) (newApplier 2 6 (sm_region sk)) (snd (ac_kv ac') ! 1) = Inr ([1 \<mapsto> a1], ac1)
       \<and> map_of (ac_kv ac1) = map_of (fst (ac_kv ac')))"
    by auto
  have "\<not> sm_removed sk" using alive [of k] k(1) by simp
  then show ?thesis using r(1) k by (fastforce simp: peer_state_def)
qed

theorem replicas_agree_witness:
  "\<exists>a1 ac1 a2 ac2. demo_round 6 demo_entries (newApplier 2 6 demo_region) demo_disk = Inr ([1 \<mapsto> a1], ac1)
     \<and> demo_round 7 demo_entries (newApplier 8 7 demo_region) demo_disk = Inr ([1 \<mapsto> a2], ac2) \<and> ap_region a1 = ap_region a2"
proof -
  note run = list_store.round_ok [where log = "\<lambda>_. []", OF demo_good list_writes demo_read init_apply_u64 demo_applier(3) demo_wf(3,1) demo_effect_of]
  obtain a1 ac1 where r1: "demo_round 6 demo_entries (newApplier 2 6 demo_region) demo_disk = Inr ([1 \<mapsto> a1], ac1)" "\<not> ap_pendingRemove a1"
    using run [of "[1 \<mapsto> newApplier 2 6 demo_region]" 1 2 6 6] by (auto simp: demo_state_def)
  obtain a2 ac2 where r2: "demo_round 7 demo_entries (newApplier 8 7 demo_region) demo_disk = Inr ([1 \<mapsto> a2], ac2)" "\<not> ap_pendingRemove a2"
    using run [of "[1 \<mapsto> newApplier 8 7 demo_region]" 1 8 7 7] by (auto simp: demo_state_def)
  have "ap_region (newApplier 8 7 demo_region) = ap_region (newApplier 2 6 demo_region)" by (simp add: demo_applier)
  from replicas_agree [OF list_store.peer_engine_axioms list_writes init_apply_u64 demo_wf(3,1) demo_good demo_read demo_applier(3)
      demo_good demo_read demo_applier(3) this _ _ _ _ r1(1) r2(1) r1(2) r2(2)] r1 r2
  show ?thesis by auto
qed

theorem split_partitions_witness:
  "\<exists>resp result wb'. execSplit region_codec demo_split_req demo_region NewWriteBatch = Inr (Inr (resp, result), wb')
     \<and> result = Some (ExecResultSplitRegion [demo_new, demo_derived] demo_derived) \<and> region_keys_of demo_new \<union> region_keys_of demo_derived = region_keys_of demo_region"
proof -
  let ?q = "\<lparr>sq_SplitKey = [7], sq_NewRegionId = 3, sq_NewPeerIds = [4, 9]\<rparr>"
  have req: "aq_Split demo_split_req = Some ?q" by (simp add: demo_split_req_def)
  obtain resp wb' where x: "execSplit region_codec demo_split_req demo_region NewWriteBatch
      = Inr (Inr (resp, Some (ExecResultSplitRegion [demo_new, demo_derived] demo_derived)), wb')"
    by (simp add: execSplit_def demo_defs split_check_def split_regions_def CheckKeyInRegion_def demo_new_def demo_derived_def numeral_2_eq_2)
  from split_partitions [OF req, where P = region_codec and region = demo_region and wb = NewWriteBatch]
  have "region_keys_of demo_new \<union> region_keys_of demo_derived = region_keys_of demo_region" unfolding x by auto
  then show ?thesis using x by blast
qed

theorem epoch_identifies_region_witness:
  "\<exists>a' ac'. demo_round 6 [demo_entry 6 [1]] (newApplier 2 6 demo_region) demo_disk = Inr ([1 \<mapsto> a'], ac')
     \<and> CheckRegionEpoch demo_write (ap_region a') False = None \<and> region_keys_of (ap_region a') = region_keys_of demo_region"
proof -
  have wf: "contiguous (ra_AppliedIndex init_apply + 1) [demo_entry 6 [1]]" "list_all (entry_wf demo_cmds) [demo_entry 6 [1]]"
    using demo_wf(1,3) by (simp_all add: demo_entries_def)
  have "entries_effect region_codec demo_cmds (ap_id (newApplier 2 6 demo_region)) [demo_entry 6 [1]]
     \<lparr>sm_region = ap_region (newApplier 2 6 demo_region), sm_apply = init_apply, sm_removed = False\<rparr> = ([demo_batches ! 0], demo_state 6 demo_region)"
    using demo_effect_first [of 2] by (simp add: demo_applier demo_start_def)
  from list_store.round_ok [where log = "\<lambda>_. []", OF demo_good list_writes demo_read init_apply_u64 demo_applier(3) wf this, of "[1 \<mapsto> newApplier 2 6 demo_region]" 1 6]
  obtain a' ac' where r: "demo_round 6 [demo_entry 6 [1]] (newApplier 2 6 demo_region) demo_disk = Inr ([1 \<mapsto> a'], ac')" "ap_region a' = demo_region"
    by (auto simp: demo_state_def)
  have h: "rc_Header demo_write = Some demo_header" "rh_RegionEpoch demo_header = Some (rg_RegionEpoch (ap_region (newApplier 2 6 demo_region)))"
    "CheckRegionEpoch demo_write (ap_region a') False = None" "rc_AdminRequest demo_write = None"
    by (simp_all add: r(2) demo_applier demo_defs CheckRegionEpoch_def epoch_checks_def)
  from epoch_identifies_region [OF list_store.peer_engine_axioms demo_good list_writes demo_read init_apply_u64 demo_applier(3) wf r(1) _ _ h(1-3)]
  show ?thesis using r h by (auto simp: demo_applier)
qed

theorem earlier_refusal_forgotten_witness:
  "\<exists>resp wb'. execNormalCmd list_badger demo_disk demo_new \<lparr>rc_Header = None, rc_Requests = [demo_put [8], demo_put [5]], rc_AdminRequest = None\<rparr> NewWriteBatch
       = Inr (Inr (resp, None, None), wb') \<and> wb_entries wb' = [(KeyWithCF CfDefault [5], Some [9])]"
  using earlier_refusal_forgotten [OF list_db.badger_spec_axioms demo_good, of "\<lparr>rc_Header = None, rc_Requests = [demo_put [8], demo_put [5]], rc_AdminRequest = None\<rparr>"
      "[demo_put [8]]" "demo_put [5]" demo_new NewWriteBatch]
  by (simp add: demo_put_def demo_new_def is_write_def in_region_def region_keys_of_def GetPut_def request_writes_def cf_or_default_def NewWriteBatch_def)

text \<open>Two proposals for a registered region, whose entries are applied in the same round, and one for a region that is closed before.\<close>

definition demo_late :: MsgApplyProposal where
  "demo_late = \<lparr>mp_Id = 4, mp_RegionId = 3, mp_Props = [\<lparr>po_isConfChange = False, po_index = 9, po_term = 6, po_cb = Some 72\<rparr>]\<rparr>"

theorem callbacks_answered_once_witness:
  "\<exists>pr' ac'. apply_round list_badger region_codec demo_cmds [Task 1 (ApplyProposal demo_props), demo_task 6 demo_entries, Close 3, Task 3 (ApplyProposal demo_late)]
       [1 \<mapsto> newApplier 2 6 demo_region, 3 \<mapsto> newApplier 4 6 demo_new] (newApplyContext demo_disk) = Inr (pr', ac')
     \<and> router_cbs pr' + answered ac' + {#72#} = {#70, 71, 72#} \<and> distinct (map fst (ac_done ac'))"
proof -
  let ?a = "newApplier 2 6 demo_region" and ?b = "newApplier 4 6 demo_new" and ?ac = "newApplyContext demo_disk"
  let ?q = "\<lparr>pd_normals = [\<lparr>pc_index = 6, pc_term = 6, pc_cb = Some 70\<rparr>, \<lparr>pc_index = 8, pc_term = 6, pc_cb = Some 71\<rparr>], pd_confChange = None\<rparr>"
  let ?a1 = "?a\<lparr>ap_pendingCmds := ?q\<rparr>" and ?pr = "[1 \<mapsto> ?a, 3 \<mapsto> ?b]"
  let ?evs = "[Task 1 (ApplyProposal demo_props), demo_task 6 demo_entries, Close 3, Task 3 (ApplyProposal demo_late)]"
  have p: "handleProposal demo_props ?a = Inr ([] :: cfdata answer list, ?a1)"
    by (simp add: handleProposal_def demo_props_def newApplier_def emptyQueue_def appendNormal_def)
  have same: "ap_region ?a1 = ap_region ?a" "ap_id ?a1 = ap_id ?a" "\<not> ap_pendingRemove ?a1"
    by (simp_all add: newApplier_def)
  obtain a2 ac2 where r: "apply_round list_badger region_codec demo_cmds [demo_task 6 demo_entries] [1 \<mapsto> ?a1, 3 \<mapsto> ?b] ?ac = Inr ([1 \<mapsto> a2, 3 \<mapsto> ?b], ac2)"
    using list_store.round_ok [where log = "\<lambda>_. []", OF demo_good list_writes _ init_apply_u64 same(3) demo_wf(3,1), of demo_batches "demo_state 8 demo_derived" "[1 \<mapsto> ?a1, 3 \<mapsto> ?b]" 1 6]
      demo_read [of 2 6] demo_effect_of [of 2 6] unfolding same(1,2) by (auto simp: fun_upd_twist)
  have idle: "applier_destroy ?b = ([] :: cfdata answer list, ?b)" by (simp add: applier_destroy_def newApplier_def emptyQueue_def takeConfChange_def)
  have "\<exists>pr' ac'. apply_round list_badger region_codec demo_cmds ?evs ?pr ?ac = Inr (pr', ac')"
    using r p idle by (auto simp: apply_round_def handleTask_def router_close_def bindR_Inr_iff)
  then obtain pr' ac' where run: "apply_round list_badger region_codec demo_cmds ?evs ?pr ?ac = Inr (pr', ac')" by blast
  have "round_cbs ?pr ?ac = {#}" by (simp add: round_cbs_def router_cbs_def waiting_def pushed_def answered_def newApplier_def newApplyContext_def emptyQueue_def)
  moreover have "proposed (ApplyProposal demo_props) = {#70, 71#}" "proposed (ApplyProposal demo_late) = {#72#}" "proposed (ApplyCommitted c) = {#}" for c
    by (simp_all add: proposed_def demo_props_def demo_late_def List.map_filter_def)
  ultimately show ?thesis using callbacks_answered_once [OF _ run] run by (fastforce split: if_splits)
qed

end
