(* ===== verification/Etcd.thy ===== *)
theory Etcd
  imports Engine
begin

text \<open>
  The etcd client as the scheduler uses it: reading a key, and a transaction that puts keys when its
  comparisons hold. The package is not part of the repository: \<open>E\<close> carries the two operations,
  \<open>etcd_spec\<close> their documented behaviour. A request that ends with an error (a timeout) may or may
  not have been executed. Also the conversions of \<open>scheduler/pkg/typeutil\<close> and
  \<open>scheduler/pkg/etcdutil\<close> that sit on top of it.
\<close>

section \<open>Operations\<close>

datatype eerr = EtcdErr string | ErrInvalidData | ErrTxnFailed string

datatype ecmp = CmpValue string bytes | CmpCreateRevision0 string

record 'e etcd =
  et_Get :: "'e \<Rightarrow> string \<Rightarrow> eerr + bytes option"
  et_Commit :: "'e \<Rightarrow> ecmp list \<Rightarrow> (string \<times> bytes) list \<Rightarrow> (eerr + bool) \<times> 'e"

text \<open>\<open>GetValue\<close>: an absent key reads as nil.\<close>

definition etcd_GetValue :: "'e etcd \<Rightarrow> 'e \<Rightarrow> string \<Rightarrow> eerr + bytes option" where
  "etcd_GetValue E s key = et_Get E s key"

text \<open>\<open>path.Join\<close> of a clean root path and a name.\<close>

definition path_Join :: "string \<Rightarrow> string \<Rightarrow> string" where
  "path_Join root name = root @ ''/'' @ name"

definition BytesToUint64 :: "bytes \<Rightarrow> eerr + u64" where
  "BytesToUint64 b = (if length b \<noteq> 8 then Inl ErrInvalidData else Inr (be_uint64 b))"

definition Uint64ToBytes :: "u64 \<Rightarrow> bytes" where
  "Uint64ToBytes v = be_put64 v"

lemma uint64_bytes [simp]: "BytesToUint64 (Uint64ToBytes v) = Inr v"
  by (simp add: BytesToUint64_def Uint64ToBytes_def)

lemma path_Join_inj [simp]: "path_Join r a = path_Join r b \<longleftrightarrow> a = b"
  by (simp add: path_Join_def)

section \<open>The contract\<close>

fun cmp_holds :: "(string \<Rightarrow> bytes option) \<Rightarrow> ecmp \<Rightarrow> bool" where
  "cmp_holds m (CmpValue k v) = (m k = Some v)"
| "cmp_holds m (CmpCreateRevision0 k) = (m k = None)"

definition etcd_puts :: "(string \<Rightarrow> bytes option) \<Rightarrow> (string \<times> bytes) list \<Rightarrow> string \<Rightarrow> bytes option" where
  "etcd_puts m ops = foldl (\<lambda>m (k, v). m(k \<mapsto> v)) m ops"

locale etcd_spec =
  fixes E :: "'e etcd" and data :: "'e \<Rightarrow> string \<Rightarrow> bytes option"
  assumes get_data: "et_Get E s k = Inr v \<Longrightarrow> v = data s k"
    and commit_done: "et_Commit E s cs ops = (Inr b, s') \<Longrightarrow>
          b = list_all (cmp_holds (data s)) cs \<and> data s' = (if b then etcd_puts (data s) ops else data s)"
    and commit_error: "et_Commit E s cs ops = (Inl e, s') \<Longrightarrow>
          data s' = data s \<or> list_all (cmp_holds (data s)) cs \<and> data s' = etcd_puts (data s) ops"
begin

lemma commit_cases:
  assumes "et_Commit E s cs ops = (r, s')"
  obtains (executed) "r \<noteq> Inr False" "list_all (cmp_holds (data s)) cs" "data s' = etcd_puts (data s) ops"
    | (refused) "r \<noteq> Inr True" "data s' = data s"
  using assms commit_done [of s cs ops _ s'] commit_error [of s cs ops _ s'] by (cases r) (auto split: if_splits)

end

text \<open>
  A store that follows a script of faults: for each commit, no fault, or an error before or after
  the transaction was executed.
\<close>

type_synonym scripted = "bool option list \<times> (string \<Rightarrow> bytes option)"

definition scripted_etcd :: "scripted etcd" where
  "scripted_etcd =
     \<lparr>et_Get = (\<lambda>s k. Inr (snd s k)),
      et_Commit = (\<lambda>s cs ops.
        let m = snd s; ok = list_all (cmp_holds m) cs; m' = (if ok then etcd_puts m ops else m)
        in case fst s of
             [] \<Rightarrow> (Inr ok, ([], m'))
           | None # fs \<Rightarrow> (Inr ok, (fs, m'))
           | Some False # fs \<Rightarrow> (Inl (EtcdErr ''timeout''), (fs, m))
           | Some True # fs \<Rightarrow> (Inl (EtcdErr ''timeout''), (fs, m')))\<rparr>"

interpretation script: etcd_spec scripted_etcd snd
  by unfold_locales
     (auto simp: scripted_etcd_def Let_def split: list.splits option.splits bool.splits if_splits)

end
