(* ===== verification/IdAlloc.thy ===== *)
theory IdAlloc
  imports Etcd
begin

text \<open>
  The allocator of cluster-wide unique ids, \<open>scheduler/server/id/id.go\<close>. Every member of the scheduler has
  an allocator of its own; they take ranges of ids from a counter in etcd. The system is any
  interleaving of the requests of \<open>Alloc\<close> calls of any members with changes of the leader key; a call that fails, a
  request that is executed although it reports an error, also later, and a restarted member lose ids but never
  hand one out twice.
\<close>

definition allocStep :: u64 where "allocStep = 1000"

record AllocatorImpl =
  al_base :: u64
  al_end :: u64
  al_rootPath :: string
  al_member :: bytes

definition NewAllocatorImpl :: "string \<Rightarrow> bytes \<Rightarrow> AllocatorImpl" where
  "NewAllocatorImpl rootPath member = \<lparr>al_base = 0, al_end = 0, al_rootPath = rootPath, al_member = member\<rparr>"

definition getAllocIDPath :: "AllocatorImpl \<Rightarrow> string" where
  "getAllocIDPath alloc = path_Join (al_rootPath alloc) ''alloc_id''"

text \<open>
  \<open>generate\<close> sends two requests: it reads the counter, and then runs a transaction that compares what it has read. Other members may act between
  the two, so they are two definitions.
\<close>

definition generate_read :: "'e etcd \<Rightarrow> 'e \<Rightarrow> AllocatorImpl \<Rightarrow> eerr + (ecmp \<times> u64)" where
  "generate_read E s alloc =
     (let key = getAllocIDPath alloc
      in bindR (etcd_GetValue E s key) (\<lambda>value.
           case value of
             None \<Rightarrow> Inr (CmpCreateRevision0 key, 0 + allocStep)
           | Some v \<Rightarrow> bindR (BytesToUint64 v) (\<lambda>end. Inr (CmpValue key v, end + allocStep))))"

definition txn_cmps :: "AllocatorImpl \<Rightarrow> ecmp \<Rightarrow> ecmp list" where
  "txn_cmps alloc cmp = [cmp, CmpValue (path_Join (al_rootPath alloc) ''leader'') (al_member alloc)]"

definition txn_puts :: "AllocatorImpl \<Rightarrow> u64 \<Rightarrow> (string \<times> bytes) list" where
  "txn_puts alloc end = [(getAllocIDPath alloc, Uint64ToBytes end)]"

definition generate_commit :: "'e etcd \<Rightarrow> 'e \<Rightarrow> AllocatorImpl \<Rightarrow> ecmp \<times> u64 \<Rightarrow> (eerr + u64) \<times> 'e" where
  "generate_commit E s alloc req =
     (case req of (cmp, end) \<Rightarrow>
        (case et_Commit E s (txn_cmps alloc cmp) (txn_puts alloc end) of
           (Inl err, s') \<Rightarrow> (Inl err, s')
         | (Inr succeeded, s') \<Rightarrow>
             if \<not> succeeded then (Inl (ErrTxnFailed ''generate id failed, we may not leader''), s')
             else (Inr end, s')))"

text \<open>The parts of \<open>Alloc\<close> around \<open>generate\<close>: taking over the new range, and the next id of the range.\<close>

definition alloc_refill :: "u64 \<Rightarrow> AllocatorImpl \<Rightarrow> AllocatorImpl" where
  "alloc_refill end alloc = alloc\<lparr>al_end := end, al_base := end - allocStep\<rparr>"

definition alloc_next :: "AllocatorImpl \<Rightarrow> u64 \<times> AllocatorImpl" where
  "alloc_next alloc = (al_base alloc + 1, alloc\<lparr>al_base := al_base alloc + 1\<rparr>)"

text \<open>\<open>Alloc\<close> when nobody acts between its two requests.\<close>

definition Alloc :: "'e etcd \<Rightarrow> 'e \<Rightarrow> AllocatorImpl \<Rightarrow> (eerr + u64) \<times> 'e \<times> AllocatorImpl" where
  "Alloc E s alloc =
     (if al_base alloc = al_end alloc
      then (case generate_read E s alloc of
              Inl err \<Rightarrow> (Inl err, s, alloc)
            | Inr req \<Rightarrow>
                (case generate_commit E s alloc req of
                   (Inl err, s') \<Rightarrow> (Inl err, s', alloc)
                 | (Inr end, s') \<Rightarrow> (case alloc_next (alloc_refill end alloc) of (i, alloc') \<Rightarrow> (Inr i, s', alloc'))))
      else (case alloc_next alloc of (i, alloc') \<Rightarrow> (Inr i, s, alloc')))"

section \<open>The system\<close>

text \<open>
  Every member is idle or, under its mutex, between the two requests of \<open>generate\<close>; \<open>ids_late\<close> are the transactions that ended with an error,
  which the server may still execute at any later time, once or more.
\<close>

record 'e idsys =
  ids_etcd :: 'e
  ids_alloc :: "nat \<Rightarrow> AllocatorImpl"
  ids_asked :: "nat \<Rightarrow> (ecmp \<times> u64) option"
  ids_late :: "(ecmp list \<times> (string \<times> bytes) list) list"
  ids_given :: "u64 list"

text \<open>The counter as it stands in etcd.\<close>

definition id_counter :: "(string \<Rightarrow> bytes option) \<Rightarrow> string \<Rightarrow> nat" where
  "id_counter m root = (case m (path_Join root ''alloc_id'') of None \<Rightarrow> 0 | Some v \<Rightarrow> unat (be_uint64 v))"

text \<open>
  All members share a root path. A call of \<open>Alloc\<close> takes an id from the member's range (\<open>id_take\<close>), or reads the counter (\<open>id_read\<close>) and later runs the
  transaction (\<open>id_commit\<close>), with any steps of the others in between. The environment may write the leader key, or any key but the
  counter; a member may restart with a new allocator at any time. The counter is taken not to pass \<open>2^64\<close>
  (after some \<open>10^16\<close> ranges).
\<close>

inductive idstep :: "'e etcd \<Rightarrow> ('e \<Rightarrow> string \<Rightarrow> bytes option) \<Rightarrow> string \<Rightarrow> (nat \<Rightarrow> bytes) \<Rightarrow> 'e idsys \<Rightarrow> 'e idsys \<Rightarrow> bool"
  for E data root member where
  id_take: "al_base (ids_alloc y m) \<noteq> al_end (ids_alloc y m) \<Longrightarrow> alloc_next (ids_alloc y m) = (i, a') \<Longrightarrow>
     idstep E data root member y (y\<lparr>ids_alloc := (ids_alloc y)(m := a'), ids_given := ids_given y @ [i]\<rparr>)"
| id_read: "al_base (ids_alloc y m) = al_end (ids_alloc y m) \<Longrightarrow> generate_read E (ids_etcd y) (ids_alloc y m) = Inr req \<Longrightarrow>
     id_counter (data (ids_etcd y)) root + 1000 < 2 ^ 64 \<Longrightarrow>
     idstep E data root member y (y\<lparr>ids_asked := (ids_asked y)(m := Some req)\<rparr>)"
| id_commit: "ids_asked y m = Some req \<Longrightarrow> generate_commit E (ids_etcd y) (ids_alloc y m) req = (Inr en, s') \<Longrightarrow>
     alloc_next (alloc_refill en (ids_alloc y m)) = (i, a') \<Longrightarrow>
     idstep E data root member y (y\<lparr>ids_etcd := s', ids_alloc := (ids_alloc y)(m := a'), ids_asked := (ids_asked y)(m := None),
       ids_given := ids_given y @ [i]\<rparr>)"
| id_fail: "ids_asked y m = Some req \<Longrightarrow> generate_commit E (ids_etcd y) (ids_alloc y m) req = (Inl err, s') \<Longrightarrow>
     idstep E data root member y (y\<lparr>ids_etcd := s', ids_asked := (ids_asked y)(m := None),
       ids_late := (txn_cmps (ids_alloc y m) (fst req), txn_puts (ids_alloc y m) (snd req)) # ids_late y\<rparr>)"
| id_late: "(cs, ops) \<in> set (ids_late y) \<Longrightarrow> et_Commit E (ids_etcd y) cs ops = (r, s') \<Longrightarrow>
     idstep E data root member y (y\<lparr>ids_etcd := s'\<rparr>)"
| id_restart: "idstep E data root member y (y\<lparr>ids_alloc := (ids_alloc y)(m := NewAllocatorImpl root (member m)), ids_asked := (ids_asked y)(m := None)\<rparr>)"
| id_env: "data s' (path_Join root ''alloc_id'') = data (ids_etcd y) (path_Join root ''alloc_id'') \<Longrightarrow>
     idstep E data root member y (y\<lparr>ids_etcd := s'\<rparr>)"

inductive idreach :: "'e etcd \<Rightarrow> ('e \<Rightarrow> string \<Rightarrow> bytes option) \<Rightarrow> string \<Rightarrow> (nat \<Rightarrow> bytes) \<Rightarrow> 'e idsys \<Rightarrow> bool"
  for E data root member where
  id_init: "data s (path_Join root ''alloc_id'') = None \<Longrightarrow>
     idreach E data root member \<lparr>ids_etcd = s, ids_alloc = (\<lambda>m. NewAllocatorImpl root (member m)), ids_asked = (\<lambda>m. None), ids_late = [], ids_given = []\<rparr>"
| id_next: "idreach E data root member y \<Longrightarrow> idstep E data root member y y' \<Longrightarrow> idreach E data root member y'"

text \<open>A call of \<open>Alloc\<close> that gives an id is one or two steps.\<close>

lemma Alloc_steps:
  assumes "idreach E data root member y" "Alloc E (ids_etcd y) (ids_alloc y m) = (Inr i, s', a')" "ids_asked y m = None"
    and "id_counter (data (ids_etcd y)) root + 1000 < 2 ^ 64"
  shows "idreach E data root member (y\<lparr>ids_etcd := s', ids_alloc := (ids_alloc y)(m := a'), ids_given := ids_given y @ [i]\<rparr>)"
proof (cases "al_base (ids_alloc y m) = al_end (ids_alloc y m)")
  case False
  then have "alloc_next (ids_alloc y m) = (i, a')" "s' = ids_etcd y" using assms(2) by (auto simp: Alloc_def split: prod.splits)
  then show ?thesis using idreach.id_next [OF assms(1) idstep.id_take [OF False]] by simp
next
  case True
  then obtain req en where r: "generate_read E (ids_etcd y) (ids_alloc y m) = Inr req" "generate_commit E (ids_etcd y) (ids_alloc y m) req = (Inr en, s')"
    "alloc_next (alloc_refill en (ids_alloc y m)) = (i, a')"
    using assms(2) by (auto simp: Alloc_def split: sum.splits prod.splits)
  let ?y = "y\<lparr>ids_asked := (ids_asked y)(m := Some req)\<rparr>"
  have "idreach E data root member ?y" by (intro idreach.id_next [OF assms(1)] idstep.id_read True r(1) assms(4))
  from idreach.id_next [OF this idstep.id_commit [of ?y m req]] r(2,3) show ?thesis using assms(3) by (simp add: fun_upd_idem)
qed

section \<open>No id is given twice\<close>

text \<open>
  The ids an allocator may still give are those above its base up to its end. They are below the
  counter, not given yet, and no other allocator has them.
\<close>

definition own_ids :: "AllocatorImpl \<Rightarrow> nat set" where
  "own_ids a = {unat (al_base a)<..unat (al_end a)}"

text \<open>A request to move the counter compares the counter with the one it read, and puts it one step further.\<close>

definition counts_on :: "string \<Rightarrow> ecmp \<Rightarrow> u64 \<Rightarrow> bool" where
  "counts_on root cmp end \<longleftrightarrow> (\<exists>c. c + 1000 < 2 ^ 64 \<and> unat end = c + 1000
     \<and> (cmp = CmpCreateRevision0 (path_Join root ''alloc_id'') \<and> c = 0 \<or> (\<exists>v. cmp = CmpValue (path_Join root ''alloc_id'') v \<and> unat (be_uint64 v) = c)))"

definition moves_counter :: "string \<Rightarrow> ecmp list \<times> (string \<times> bytes) list \<Rightarrow> bool" where
  "moves_counter root txn \<longleftrightarrow> (\<exists>cmp l end. fst txn = [cmp, l] \<and> snd txn = [(path_Join root ''alloc_id'', Uint64ToBytes end)] \<and> counts_on root cmp end)"

definition id_inv :: "('e \<Rightarrow> string \<Rightarrow> bytes option) \<Rightarrow> string \<Rightarrow> 'e idsys \<Rightarrow> bool" where
  "id_inv data root y \<longleftrightarrow>
     (\<forall>v. data (ids_etcd y) (path_Join root ''alloc_id'') = Some v \<longrightarrow> length v = 8)
     \<and> (\<forall>m. al_rootPath (ids_alloc y m) = root \<and> al_base (ids_alloc y m) \<le> al_end (ids_alloc y m)
          \<and> unat (al_end (ids_alloc y m)) \<le> id_counter (data (ids_etcd y)) root)
     \<and> (\<forall>m req. ids_asked y m = Some req \<longrightarrow> al_base (ids_alloc y m) = al_end (ids_alloc y m) \<and> counts_on root (fst req) (snd req))
     \<and> (\<forall>txn \<in> set (ids_late y). moves_counter root txn)
     \<and> (\<forall>m n. m \<noteq> n \<longrightarrow> own_ids (ids_alloc y m) \<inter> own_ids (ids_alloc y n) = {})
     \<and> (\<forall>i \<in> set (ids_given y). unat i \<le> id_counter (data (ids_etcd y)) root \<and> (\<forall>m. unat i \<notin> own_ids (ids_alloc y m)))
     \<and> distinct (ids_given y)"

lemma own_ids_empty [simp]: "al_base a = al_end a \<Longrightarrow> own_ids a = {}"
  by (simp add: own_ids_def)

text \<open>The next id of a range is the least it still has.\<close>

lemma next_own:
  assumes "alloc_next a = (i, a')" "al_base a < al_end a"
  shows "al_base a' \<le> al_end a'" "al_end a' = al_end a" "al_rootPath a' = al_rootPath a" "own_ids a' = own_ids a - {unat i}" "unat i \<in> own_ids a"
    "unat i \<le> unat (al_end a)"
proof -
  have lt: "unat (al_base a) < unat (al_end a)" using assms(2) by (simp add: word_less_nat_alt)
  moreover have "unat (al_end a) < 2 ^ 64" using unsigned_less [of "al_end a", where ?'a = nat] by simp
  ultimately have plus: "unat (al_base a + 1) = unat (al_base a) + 1" by (simp add: unat_word_ariths(1))
  show "al_base a' \<le> al_end a'" "al_end a' = al_end a" "al_rootPath a' = al_rootPath a" "own_ids a' = own_ids a - {unat i}" "unat i \<in> own_ids a"
    "unat i \<le> unat (al_end a)"
    using assms(1) plus lt by (auto simp: alloc_next_def own_ids_def word_le_nat_alt)
qed

lemma refill_own:
  assumes "unat en = c + 1000"
  shows "al_base (alloc_refill en a) < al_end (alloc_refill en a)" "own_ids (alloc_refill en a) \<subseteq> {c<..}" "al_end (alloc_refill en a) = en"
    "al_rootPath (alloc_refill en a) = al_rootPath a"
proof -
  have "allocStep \<le> en" using assms by (simp add: allocStep_def word_le_nat_alt)
  then have base: "unat (en - allocStep) = c" using assms by (simp add: allocStep_def unat_sub)
  show "al_base (alloc_refill en a) < al_end (alloc_refill en a)" "own_ids (alloc_refill en a) \<subseteq> {c<..}" "al_end (alloc_refill en a) = en"
    "al_rootPath (alloc_refill en a) = al_rootPath a"
    using base assms by (auto simp: alloc_refill_def own_ids_def word_less_nat_alt)
qed

context etcd_spec
begin

lemma read_counts:
  assumes "generate_read E s alloc = Inr req" "al_rootPath alloc = root" "id_counter (data s) root + 1000 < 2 ^ 64"
  shows "counts_on root (fst req) (snd req)"
proof -
  let ?key = "path_Join root ''alloc_id''"
  have key: "getAllocIDPath alloc = ?key" using assms(2) by (simp add: getAllocIDPath_def)
  obtain val where v1: "et_Get E s ?key = Inr val" using assms(1) by (auto simp: generate_read_def key etcd_GetValue_def bindR_Inr_iff Let_def)
  then have v: "et_Get E s ?key = Inr val" "val = data s ?key" using get_data [OF v1] by simp_all
  define end0 :: u64 where "end0 = (case val of None \<Rightarrow> 0 | Some v \<Rightarrow> be_uint64 v)"
  have cnt: "unat end0 = id_counter (data s) root" using v(2) by (simp add: end0_def id_counter_def split: option.splits)
  have sum: "unat (end0 + allocStep) = id_counter (data s) root + 1000" using assms(3) cnt by (simp add: allocStep_def unat_word_ariths(1))
  have "snd req = end0 + allocStep" "fst req = (case val of None \<Rightarrow> CmpCreateRevision0 ?key | Some v \<Rightarrow> CmpValue ?key v)"
    using assms(1) v(1) by (auto simp: generate_read_def key etcd_GetValue_def end0_def BytesToUint64_def Let_def bindR_Inr_iff split: option.splits if_splits)
  then show ?thesis using sum cnt assms(3) unfolding counts_on_def
    by (intro exI [of _ "id_counter (data s) root"]) (auto simp: end0_def split: option.splits)
qed

text \<open>A transaction that moves the counter does so by one step from where it stands, or leaves it.\<close>

lemma commit_moves:
  assumes "et_Commit E s cs ops = (r, s')" "cs = [cmp, l]" "ops = [(path_Join root ''alloc_id'', Uint64ToBytes en)]" "counts_on root cmp en"
    and "\<forall>v. data s (path_Join root ''alloc_id'') = Some v \<longrightarrow> length v = 8"
  shows "(\<forall>v. data s' (path_Join root ''alloc_id'') = Some v \<longrightarrow> length v = 8)
    \<and> (id_counter (data s') root = id_counter (data s) root \<and> r \<noteq> Inr True
       \<or> id_counter (data s') root = id_counter (data s) root + 1000 \<and> unat en = id_counter (data s) root + 1000)"
  using assms(1)
proof (cases rule: commit_cases)
  case executed
  then have d: "data s' (path_Join root ''alloc_id'') = Some (Uint64ToBytes en)" using assms(3) by (simp add: etcd_puts_def)
  have "cmp_holds (data s) cmp" using executed(2) assms(2) by simp
  then have "unat en = id_counter (data s) root + 1000" using assms(4) by (auto simp: counts_on_def id_counter_def)
  then show ?thesis using d by (simp add: id_counter_def Uint64ToBytes_def)
next
  case refused
  then show ?thesis using assms(5) by (simp add: id_counter_def)
qed

lemma id_inv_take:
  assumes inv: "id_inv data root y" and b: "al_rootPath b = root" "al_base b < al_end b" "unat (al_end b) \<le> id_counter (data s') root"
    and own: "b = ids_alloc y m \<or> own_ids b \<subseteq> {id_counter (data (ids_etcd y)) root<..}"
    and s': "\<forall>v. data s' (path_Join root ''alloc_id'') = Some v \<longrightarrow> length v = 8" "id_counter (data (ids_etcd y)) root \<le> id_counter (data s') root"
    and nx: "alloc_next b = (i, a')"
  shows "id_inv data root (y\<lparr>ids_etcd := s', ids_alloc := (ids_alloc y)(m := a'), ids_asked := (ids_asked y)(m := None), ids_given := ids_given y @ [i]\<rparr>)"
proof -
  let ?c = "id_counter (data (ids_etcd y)) root" and ?al = "(ids_alloc y)(m := a')"
  note n = next_own [OF nx b(2)]
  have below: "own_ids (ids_alloc y n) \<subseteq> {..?c}" for n using inv by (auto simp: id_inv_def own_ids_def intro: order_trans)
  have others: "own_ids b \<inter> own_ids (ids_alloc y n) = {}" if "n \<noteq> m" for n
    using own below [of n] that inv unfolding id_inv_def by fastforce
  have old: "unat j \<notin> own_ids b" if "j \<in> set (ids_given y)" for j using own that inv unfolding id_inv_def by fastforce
  have "al_rootPath (?al n) = root \<and> al_base (?al n) \<le> al_end (?al n) \<and> unat (al_end (?al n)) \<le> id_counter (data s') root" for n
    using n(1-3) b(1,3) inv s'(2) by (auto simp: id_inv_def intro: order_trans)
  moreover have "own_ids (?al k) \<inter> own_ids (?al n) = {}" if kn: "k \<noteq> n" for k n
  proof -
    consider "k = m" "n \<noteq> m" | "n = m" "k \<noteq> m" | "k \<noteq> m" "n \<noteq> m" using kn by blast
    then show ?thesis
    proof cases
      case 3
      then show ?thesis using inv kn by (simp add: id_inv_def)
    qed (use others n(4) in auto)
  qed
  moreover have "unat j \<le> id_counter (data s') root \<and> (\<forall>n. unat j \<notin> own_ids (?al n))" if "j \<in> set (ids_given y @ [i])" for j
    using that n(4-6) b(3) old others inv s'(2) by (auto simp: id_inv_def intro: order_trans)
  moreover have "distinct (ids_given y @ [i])" using n(5) old inv by (auto simp: id_inv_def)
  ultimately show ?thesis using inv s'(1) by (auto simp: id_inv_def)
qed

lemma id_inv_env:
  assumes "id_inv data root y" "\<forall>v. data s' (path_Join root ''alloc_id'') = Some v \<longrightarrow> length v = 8" "id_counter (data (ids_etcd y)) root \<le> id_counter (data s') root"
  shows "id_inv data root (y\<lparr>ids_etcd := s'\<rparr>)"
  using assms by (auto simp: id_inv_def intro: order_trans)

lemma id_inv_step:
  assumes inv: "id_inv data root y" and "idstep E data root member y y'"
  shows "id_inv data root y'"
  using assms(2)
proof cases
  case (id_take m i a')
  have b: "al_rootPath (ids_alloc y m) = root" "al_base (ids_alloc y m) < al_end (ids_alloc y m)" "unat (al_end (ids_alloc y m)) \<le> id_counter (data (ids_etcd y)) root"
    "\<forall>v. data (ids_etcd y) (path_Join root ''alloc_id'') = Some v \<longrightarrow> length v = 8"
    using inv id_take(2) by (auto simp: id_inv_def order_less_le)
  have "ids_asked y m = None" using inv id_take(2) by (cases "ids_asked y m") (auto simp: id_inv_def)
  then have "y' = y\<lparr>ids_etcd := ids_etcd y, ids_alloc := (ids_alloc y)(m := a'), ids_asked := (ids_asked y)(m := None), ids_given := ids_given y @ [i]\<rparr>"
    using id_take(1) by (simp add: fun_upd_idem)
  then show ?thesis using id_inv_take [OF inv b(1-3) disjI1 b(4) order.refl id_take(3)] by simp
next
  case (id_read m req)
  have "al_rootPath (ids_alloc y m) = root" using inv by (simp add: id_inv_def)
  then have "counts_on root (fst req) (snd req)" using read_counts [OF id_read(3) _ id_read(4)] by simp
  then show ?thesis using inv id_read(1,2) by (auto simp: id_inv_def)
next
  case (id_commit m req en s' i a')
  have a: "al_rootPath (ids_alloc y m) = root" "counts_on root (fst req) (snd req)" "\<forall>v. data (ids_etcd y) (path_Join root ''alloc_id'') = Some v \<longrightarrow> length v = 8"
    using inv id_commit(2) by (auto simp: id_inv_def)
  have c: "et_Commit E (ids_etcd y) (txn_cmps (ids_alloc y m) (fst req)) (txn_puts (ids_alloc y m) (snd req)) = (Inr True, s')" "en = snd req"
    using id_commit(3) by (auto simp: generate_commit_def split: prod.splits sum.splits if_splits)
  from commit_moves [OF c(1) _ _ a(2,3)] a(1)
  have s': "\<forall>v. data s' (path_Join root ''alloc_id'') = Some v \<longrightarrow> length v = 8" "id_counter (data s') root = id_counter (data (ids_etcd y)) root + 1000"
    "unat en = id_counter (data (ids_etcd y)) root + 1000" using c(2) by (auto simp: txn_cmps_def txn_puts_def getAllocIDPath_def)
  note f = refill_own [OF s'(3), of "ids_alloc y m"]
  have b: "al_rootPath (alloc_refill en (ids_alloc y m)) = root" "unat (al_end (alloc_refill en (ids_alloc y m))) \<le> id_counter (data s') root"
    using f(3,4) a(1) s'(2,3) by simp_all
  from id_inv_take [OF inv b(1) f(1) b(2) disjI2 [OF f(2)] s'(1) _ id_commit(4)] show ?thesis using s'(2) id_commit(1) by simp
next
  case (id_fail m req err s')
  have a: "al_rootPath (ids_alloc y m) = root" "counts_on root (fst req) (snd req)" "\<forall>v. data (ids_etcd y) (path_Join root ''alloc_id'') = Some v \<longrightarrow> length v = 8"
    using inv id_fail(2) by (auto simp: id_inv_def)
  obtain r where c: "et_Commit E (ids_etcd y) (txn_cmps (ids_alloc y m) (fst req)) (txn_puts (ids_alloc y m) (snd req)) = (r, s')"
    using id_fail(3) by (auto simp: generate_commit_def split: prod.splits sum.splits if_splits)
  from commit_moves [OF c _ _ a(2,3)] a(1)
  have "\<forall>v. data s' (path_Join root ''alloc_id'') = Some v \<longrightarrow> length v = 8" "id_counter (data (ids_etcd y)) root \<le> id_counter (data s') root"
    by (auto simp: txn_cmps_def txn_puts_def getAllocIDPath_def)
  from id_inv_env [OF inv this] show ?thesis using id_fail(1) a(1,2)
    by (auto simp: id_inv_def moves_counter_def txn_cmps_def txn_puts_def getAllocIDPath_def)
next
  case (id_late cs ops r s')
  then have "moves_counter root (cs, ops)" "\<forall>v. data (ids_etcd y) (path_Join root ''alloc_id'') = Some v \<longrightarrow> length v = 8" using inv by (auto simp: id_inv_def)
  then obtain cmp l en where t: "cs = [cmp, l]" "ops = [(path_Join root ''alloc_id'', Uint64ToBytes en)]" "counts_on root cmp en"
    "\<forall>v. data (ids_etcd y) (path_Join root ''alloc_id'') = Some v \<longrightarrow> length v = 8" by (auto simp: moves_counter_def)
  show ?thesis unfolding id_late(1) by (rule id_inv_env [OF inv]) (use commit_moves [OF id_late(3) t] in auto)
next
  case (id_restart m)
  then show ?thesis using inv unfolding id_inv_def by (auto simp: NewAllocatorImpl_def)
next
  case (id_env s')
  have "\<forall>v. data s' (path_Join root ''alloc_id'') = Some v \<longrightarrow> length v = 8" using inv id_env(2) by (simp add: id_inv_def)
  then show ?thesis unfolding id_env(1) by (rule id_inv_env [OF inv]) (simp add: id_counter_def id_env(2))
qed

lemma id_inv_reach: "idreach E data root member y \<Longrightarrow> id_inv data root y"
proof (induction rule: idreach.induct)
  case (id_init s)
  then show ?case by (simp add: id_inv_def NewAllocatorImpl_def id_counter_def)
qed (rule id_inv_step)

end

section \<open>Properties\<close>

text \<open>
  C13. No id is ever given twice, by one member or by two, in any interleaving of the two requests a call sends with those of other members,
  leader changes, restarts, failing requests and requests that are executed after they were reported as failed; and every id given
  is at most the counter kept in etcd. The counter is assumed to stay below the range of its type.
\<close>

theorem ids_unique:
  assumes "etcd_spec E data" "idreach E data root member y"
  shows "distinct (ids_given y) \<and> (\<forall>i \<in> set (ids_given y). unat i \<le> id_counter (data (ids_etcd y)) root)"
  using etcd_spec.id_inv_reach [OF assms] by (simp add: id_inv_def)

text \<open>
  A run: two members read the counter before either moves it. The first request times out after it was executed, the second is
  refused by its comparison; then both read again, the leader key passes to the second member, and each takes a range.
\<close>

definition demo_members :: "nat \<Rightarrow> bytes" where
  "demo_members m = [of_nat m]"

definition demo_start :: "scripted idsys" where
  "demo_start = \<lparr>ids_etcd = ([Some True], [''/pd/leader'' \<mapsto> [0]]), ids_alloc = (\<lambda>m. NewAllocatorImpl ''/pd'' (demo_members m)), ids_asked = (\<lambda>m. None),
     ids_late = [], ids_given = []\<rparr>"

definition demo_ask :: "nat \<Rightarrow> scripted idsys \<Rightarrow> scripted idsys" where
  "demo_ask m y = (case generate_read scripted_etcd (ids_etcd y) (ids_alloc y m) of Inl _ \<Rightarrow> y | Inr req \<Rightarrow> y\<lparr>ids_asked := (ids_asked y)(m := Some req)\<rparr>)"

definition demo_run :: "nat \<Rightarrow> scripted idsys \<Rightarrow> scripted idsys" where
  "demo_run m y =
     (case ids_asked y m of
        None \<Rightarrow> y
      | Some req \<Rightarrow>
          (case generate_commit scripted_etcd (ids_etcd y) (ids_alloc y m) req of
             (Inl _, s') \<Rightarrow> y\<lparr>ids_etcd := s', ids_asked := (ids_asked y)(m := None),
               ids_late := (txn_cmps (ids_alloc y m) (fst req), txn_puts (ids_alloc y m) (snd req)) # ids_late y\<rparr>
           | (Inr en, s') \<Rightarrow> (case alloc_next (alloc_refill en (ids_alloc y m)) of (i, a') \<Rightarrow>
               y\<lparr>ids_etcd := s', ids_alloc := (ids_alloc y)(m := a'), ids_asked := (ids_asked y)(m := None), ids_given := ids_given y @ [i]\<rparr>)))"

definition demo_takeover :: "scripted idsys \<Rightarrow> scripted idsys" where
  "demo_takeover y = y\<lparr>ids_etcd := (fst (ids_etcd y), (snd (ids_etcd y))(''/pd/leader'' \<mapsto> [1]))\<rparr>"

abbreviation demo_reached :: "scripted idsys \<Rightarrow> bool" where
  "demo_reached \<equiv> idreach scripted_etcd snd ''/pd'' demo_members"

lemma demo_ask_step:
  "demo_reached y \<Longrightarrow> al_base (ids_alloc y m) = al_end (ids_alloc y m) \<Longrightarrow> id_counter (snd (ids_etcd y)) ''/pd'' + 1000 < 2 ^ 64 \<Longrightarrow> demo_reached (demo_ask m y)"
  by (auto simp: demo_ask_def intro!: idreach.id_next [OF _ idstep.id_read] split: sum.splits)

lemma demo_run_step:
  assumes "demo_reached y"
  shows "demo_reached (demo_run m y)"
proof (cases "ids_asked y m")
  case None
  then show ?thesis using assms by (simp add: demo_run_def)
next
  case (Some req)
  obtain res s' where c: "generate_commit scripted_etcd (ids_etcd y) (ids_alloc y m) req = (res, s')" by (metis surj_pair)
  show ?thesis
  proof (cases res)
    case (Inl e)
    then show ?thesis using idreach.id_next [OF assms idstep.id_fail [OF Some]] c Some by (simp add: demo_run_def)
  next
    case (Inr en)
    obtain i a' where "alloc_next (alloc_refill en (ids_alloc y m)) = (i, a')" by force
    then show ?thesis using idreach.id_next [OF assms idstep.id_commit [OF Some]] c Some Inr by (simp add: demo_run_def)
  qed
qed

lemma demo_takeover_step: "demo_reached y \<Longrightarrow> demo_reached (demo_takeover y)"
  by (auto simp: demo_takeover_def path_Join_def intro!: idreach.id_next [OF _ idstep.id_env])

lemmas alloc_exec = demo_ask_def demo_run_def demo_takeover_def demo_start_def generate_read_def generate_commit_def txn_cmps_def txn_puts_def alloc_refill_def
  alloc_next_def scripted_etcd_def etcd_GetValue_def NewAllocatorImpl_def getAllocIDPath_def path_Join_def demo_members_def etcd_puts_def allocStep_def
  id_counter_def Let_def BytesToUint64_def Uint64ToBytes_def

theorem ids_unique_witness:
  "\<exists>y. idreach scripted_etcd snd ''/pd'' demo_members y \<and> ids_given y = [1001, 2001] \<and> distinct (ids_given y)"
proof -
  let ?y1 = "demo_ask 1 (demo_ask 0 demo_start)"
  let ?y2 = "demo_run 1 (demo_run 0 ?y1)"
  let ?y3 = "demo_run 0 (demo_ask 0 ?y2)"
  let ?y4 = "demo_run 1 (demo_ask 1 (demo_takeover ?y3))"
  have "demo_reached demo_start" unfolding demo_start_def by (rule idreach.id_init) (simp add: path_Join_def)
  then have "demo_reached (demo_ask 0 demo_start)" by (rule demo_ask_step) (simp_all add: alloc_exec)
  then have "demo_reached ?y1" by (rule demo_ask_step) (simp_all add: alloc_exec)
  then have "demo_reached ?y2" by (intro demo_run_step)
  then have "demo_reached (demo_ask 0 ?y2)" by (rule demo_ask_step) (simp_all add: alloc_exec)
  then have "demo_reached (demo_takeover ?y3)" by (intro demo_takeover_step demo_run_step)
  then have "demo_reached (demo_ask 1 (demo_takeover ?y3))" by (rule demo_ask_step) (simp_all add: alloc_exec)
  then have y4: "demo_reached ?y4" by (rule demo_run_step)
  moreover have "ids_given ?y4 = [1001, 2001]" by (simp add: alloc_exec)
  ultimately show ?thesis using ids_unique [OF script.etcd_spec_axioms y4] by blast
qed

end
