(* ===== verification/Tso.thy ===== *)
theory Tso
  imports Etcd
begin

text \<open>
  The timestamp oracle of the scheduler, \<open>scheduler/server/tso/tso.go\<close>, with the time conversions of
  \<open>scheduler/pkg/typeutil/time.go\<close> and \<open>scheduler/pkg/tsoutil/tso.go\<close>. A \<open>time.Time\<close> is the number of nanoseconds since 1970, an
  unbounded integer; \<open>UnixNano\<close> and durations are 64-bit. What the clock shows and whether the
  lease has expired at a call are arguments. The pointer to the current object is \<open>None\<close>
  until it is first set.
\<close>

section \<open>Time\<close>

type_synonym time = int

definition wrap64 :: "int \<Rightarrow> int" where
  "wrap64 x = (x + 2 ^ 63) mod 2 ^ 64 - 2 ^ 63"

definition UnixNano :: "time \<Rightarrow> int" where
  "UnixNano t = wrap64 t"

text \<open>\<open>time.Time{}\<close> is the beginning of the year 1.\<close>

definition ZeroTime :: time where
  "ZeroTime = - 62135596800 * 10 ^ 9"

definition Millisecond :: int where "Millisecond = 10 ^ 6"

text \<open>Division of \<open>int64\<close> rounds towards zero.\<close>

definition go_div :: "int \<Rightarrow> int \<Rightarrow> int" where
  "go_div a b = (if a \<ge> 0 then a div b else - ((- a) div b))"

definition SubTimeByWallClock :: "time \<Rightarrow> time \<Rightarrow> int" where
  "SubTimeByWallClock after before = wrap64 (UnixNano after - UnixNano before)"

definition ParseTimestamp :: "bytes \<Rightarrow> eerr + time" where
  "ParseTimestamp data = bindR (BytesToUint64 data) (\<lambda>nano. Inr (sint nano))"

definition UpdateTimestampStep :: int where "UpdateTimestampStep = 50 * Millisecond"
definition updateTimestampGuard :: int where "updateTimestampGuard = Millisecond"
definition maxLogical :: int where "maxLogical = 2 ^ 18"
definition maxRetryCount :: nat where "maxRetryCount = 100"

text \<open>\<open>ParseTS\<close>: physical milliseconds above the 18 logical bits.\<close>

definition ParseTS :: "u64 \<Rightarrow> time \<times> u64" where
  "ParseTS ts =
     (let logical = ts AND (2 ^ 18 - 1);
          physical = drop_bit 18 ts
      in (sint (physical div 1000) * 10 ^ 9 + (sint physical mod 1000) * 10 ^ 6, logical))"

section \<open>The oracle\<close>

record atomicObject =
  ao_physical :: time
  ao_logical :: int

record Timestamp =
  ts_Physical :: int
  ts_Logical :: int

record TimestampOracle =
  to_ts :: "atomicObject option"
  to_lastSavedTime :: time
  to_lease :: bool
  to_rootPath :: string
  to_member :: bytes
  to_saveInterval :: int
  to_maxResetTsGap :: int

definition NewTimestampOracle :: "string \<Rightarrow> bytes \<Rightarrow> int \<Rightarrow> int \<Rightarrow> TimestampOracle" where
  "NewTimestampOracle rootPath member saveInterval maxResetTsGap =
     \<lparr>to_ts = None, to_lastSavedTime = ZeroTime, to_lease = False, to_rootPath = rootPath, to_member = member,
      to_saveInterval = saveInterval, to_maxResetTsGap = maxResetTsGap\<rparr>"

definition getTimestampPath :: "TimestampOracle \<Rightarrow> string" where
  "getTimestampPath t = path_Join (to_rootPath t) ''timestamp''"

definition loadTimestamp :: "'e etcd \<Rightarrow> 'e \<Rightarrow> TimestampOracle \<Rightarrow> eerr + time" where
  "loadTimestamp E s t =
     bindR (etcd_GetValue E s (getTimestampPath t)) (\<lambda>data.
       case data of
         None \<Rightarrow> Inr ZeroTime
       | Some d \<Rightarrow> if length d = 0 then Inr ZeroTime else ParseTimestamp d)"

definition saveTimestamp :: "'e etcd \<Rightarrow> 'e \<Rightarrow> TimestampOracle \<Rightarrow> time \<Rightarrow> eerr option \<times> 'e \<times> TimestampOracle" where
  "saveTimestamp E s t ts =
     (let data = Uint64ToBytes (word_of_int (UnixNano ts));
          key = getTimestampPath t;
          leaderPath = path_Join (to_rootPath t) ''leader''
      in case et_Commit E s [CmpValue leaderPath (to_member t)] [(key, data)] of
           (Inl err, s') \<Rightarrow> (Some err, s', t)
         | (Inr succeeded, s') \<Rightarrow>
             if \<not> succeeded then (Some (ErrTxnFailed ''save timestamp failed, maybe we lost leader''), s', t)
             else (None, s', t\<lparr>to_lastSavedTime := ts\<rparr>))"

definition SyncTimestamp :: "'e etcd \<Rightarrow> 'e \<Rightarrow> TimestampOracle \<Rightarrow> time \<Rightarrow> eerr option \<times> 'e \<times> TimestampOracle" where
  "SyncTimestamp E s t now =
     (case loadTimestamp E s t of
        Inl err \<Rightarrow> (Some err, s, t)
      | Inr saved \<Rightarrow>
          let next = (if SubTimeByWallClock now saved < updateTimestampGuard then saved + updateTimestampGuard else now);
              save = next + to_saveInterval t
          in (case saveTimestamp E s t save of
                (Some err, s', t') \<Rightarrow> (Some err, s', t')
              | (None, s', t') \<Rightarrow> (None, s', t'\<lparr>to_lease := True, to_ts := Some \<lparr>ao_physical = next, ao_logical = 0\<rparr>\<rparr>)))"

definition ResetUserTimestamp ::
    "'e etcd \<Rightarrow> 'e \<Rightarrow> TimestampOracle \<Rightarrow> bool \<Rightarrow> u64 \<Rightarrow> fault + (eerr option \<times> 'e \<times> TimestampOracle)" where
  "ResetUserTimestamp E s t expired tso =
     (if \<not> to_lease t \<or> expired then Inr (Some (EtcdErr ''Setup timestamp failed, lease expired''), s, t)
      else
        let next = fst (ParseTS tso) + Millisecond
        in case to_ts t of
             None \<Rightarrow> Inl (Panic ''nil pointer dereference'')
           | Some prev \<Rightarrow>
               if SubTimeByWallClock next (ao_physical prev) \<le> 3 * updateTimestampGuard
               then Inr (Some (EtcdErr ''the specified ts too small than now''), s, t)
               else if SubTimeByWallClock next (ao_physical prev) \<ge> to_maxResetTsGap t
               then Inr (Some (EtcdErr ''the specified ts too large than now''), s, t)
               else
                 let save = next + to_saveInterval t
                 in (case saveTimestamp E s t save of
                       (Some err, s', t') \<Rightarrow> Inr (Some err, s', t')
                     | (None, s', t') \<Rightarrow> Inr (None, s', t'\<lparr>to_ts := Some \<lparr>ao_physical = next, ao_logical = 0\<rparr>\<rparr>)))"

definition UpdateTimestamp ::
    "'e etcd \<Rightarrow> 'e \<Rightarrow> TimestampOracle \<Rightarrow> time \<Rightarrow> fault + (eerr option \<times> 'e \<times> TimestampOracle)" where
  "UpdateTimestamp E s t now =
     (case to_ts t of
        None \<Rightarrow> Inl (Panic ''nil pointer dereference'')
      | Some prev \<Rightarrow>
          let jetLag = SubTimeByWallClock now (ao_physical prev);
              prevLogical = ao_logical prev
          in (case (if jetLag > updateTimestampGuard then Some now
                    else if prevLogical > maxLogical div 2 then Some (ao_physical prev + Millisecond)
                    else None) of
                None \<Rightarrow> Inr (None, s, t)
              | Some next \<Rightarrow>
                  (case (if SubTimeByWallClock (to_lastSavedTime t) next \<le> updateTimestampGuard
                         then saveTimestamp E s t (next + to_saveInterval t)
                         else (None, s, t)) of
                     (Some err, s', t') \<Rightarrow> Inr (Some err, s', t')
                   | (None, s', t') \<Rightarrow> Inr (None, s', t'\<lparr>to_ts := Some \<lparr>ao_physical = next, ao_logical = 0\<rparr>\<rparr>))))"

definition ResetTimestamp :: "TimestampOracle \<Rightarrow> TimestampOracle" where
  "ResetTimestamp t = t\<lparr>to_ts := Some \<lparr>ao_physical = ZeroTime, ao_logical = 0\<rparr>\<rparr>"

text \<open>
  One turn of the loop of \<open>GetRespTS\<close>: it asks for another turn (\<open>None\<close>), fails, or returns a timestamp.
  \<open>AddInt64\<close> has changed the current object in every case but the first.
\<close>

definition GetRespTS_attempt :: "TimestampOracle \<Rightarrow> nat \<Rightarrow> bool \<Rightarrow> fault + ((eerr + Timestamp) option \<times> TimestampOracle)" where
  "GetRespTS_attempt t count expired =
     (case to_ts t of
        None \<Rightarrow> Inl (Panic ''nil pointer dereference'')
      | Some current \<Rightarrow>
          if ao_physical current = ZeroTime then Inr (None, t)
          else
            let logical = wrap64 (ao_logical current + int count);
                resp = \<lparr>ts_Physical = go_div (UnixNano (ao_physical current)) Millisecond, ts_Logical = logical\<rparr>;
                t1 = t\<lparr>to_ts := Some (current\<lparr>ao_logical := logical\<rparr>)\<rparr>
            in if logical \<ge> maxLogical then Inr (None, t1)
               else if \<not> to_lease t \<or> expired then Inr (Some (Inl (EtcdErr ''alloc timestamp failed, lease expired'')), t1)
               else Inr (Some (Inr resp), t1))"

text \<open>The loop; \<open>env i\<close> is what other goroutines have done to the oracle when turn \<open>i\<close> starts.\<close>

fun GetRespTS_loop ::
    "nat \<Rightarrow> nat \<Rightarrow> (nat \<Rightarrow> TimestampOracle \<Rightarrow> TimestampOracle) \<Rightarrow> (nat \<Rightarrow> bool) \<Rightarrow> nat \<Rightarrow> TimestampOracle
     \<Rightarrow> fault + ((eerr + Timestamp) \<times> TimestampOracle)" where
  "GetRespTS_loop 0 i env expired count t = Inr (Inl (EtcdErr ''can not get timestamp''), t)"
| "GetRespTS_loop (Suc n) i env expired count t =
     bindR (GetRespTS_attempt (env i t) count (expired i)) (\<lambda>(r, t').
       case r of
         None \<Rightarrow> GetRespTS_loop n (Suc i) env expired count t'
       | Some res \<Rightarrow> Inr (res, t'))"

definition GetRespTS ::
    "(nat \<Rightarrow> TimestampOracle \<Rightarrow> TimestampOracle) \<Rightarrow> (nat \<Rightarrow> bool) \<Rightarrow> nat \<Rightarrow> TimestampOracle \<Rightarrow> fault + ((eerr + Timestamp) \<times> TimestampOracle)" where
  "GetRespTS env expired count t =
     (if count = 0 then Inr (Inl (EtcdErr ''tso count should be positive''), t)
      else GetRespTS_loop maxRetryCount 0 env expired count t)"

end
