(* ===== verification/Tso_Spec.thy ===== *)
theory Tso_Spec
  imports Main
begin

text \<open>
  The protocol behind the timestamp oracle, without etcd or the encoding of times: members of a scheduler
  take turns as leader; one upper limit is saved for all of them. A member that hands out timestamps is
  on, at a time with a counter and with the limit it saved last. Each step names what the
  oracle's operations do. Two members may be on at once, when a deposed leader has not noticed
  yet; times of different members never meet all the same.
\<close>

section \<open>The protocol\<close>

record serving =
  sv_time :: int
  sv_count :: int
  sv_limit :: int

text \<open>A block of timestamps: those of one time with counters above \<open>lo\<close> up to \<open>hi\<close>.\<close>

record block =
  bk_owner :: nat
  bk_time :: int
  bk_lo :: int
  bk_hi :: int

record tproto =
  tp_leader :: "nat option"
  tp_limit :: "int option"
  tp_on :: "nat \<Rightarrow> serving option"
  tp_blocks :: "block list"

inductive tpstep :: "bool \<Rightarrow> int \<Rightarrow> int \<Rightarrow> tproto \<Rightarrow> tproto \<Rightarrow> bool" for leases ms iv where
  tp_elect: "(\<forall>m. l = Some m \<longrightarrow> tp_on p m = None) \<Longrightarrow> tpstep leases ms iv p (p\<lparr>tp_leader := l\<rparr>)"
| tp_sync: "tp_leader p = Some m \<Longrightarrow> tp_on p m = None \<Longrightarrow> 0 \<le> t \<Longrightarrow> (\<forall>u. tp_limit p = Some u \<longrightarrow> u + ms \<le> t) \<Longrightarrow>
     tpstep leases ms iv p (p\<lparr>tp_limit := Some (t + iv), tp_on := (tp_on p)(m \<mapsto> \<lparr>sv_time = t, sv_count = 0, sv_limit = t + iv\<rparr>)\<rparr>)"
| tp_raise: "tp_leader p = Some m \<Longrightarrow> tp_on p m = None \<Longrightarrow> 0 \<le> u' \<Longrightarrow> (\<forall>u. tp_limit p = Some u \<longrightarrow> u \<le> u') \<Longrightarrow>
     tpstep leases ms iv p (p\<lparr>tp_limit := Some u'\<rparr>)"
| tp_raise_on: "tp_leader p = Some m \<Longrightarrow> tp_on p m = Some v \<Longrightarrow> sv_limit v \<le> u' \<Longrightarrow>
     tpstep leases ms iv p (p\<lparr>tp_limit := Some u', tp_on := (tp_on p)(m \<mapsto> v\<lparr>sv_limit := u'\<rparr>)\<rparr>)"
| tp_advance: "tp_on p m = Some v \<Longrightarrow> sv_time v + ms \<le> t \<Longrightarrow> t + ms < sv_limit v \<Longrightarrow>
     tpstep leases ms iv p (p\<lparr>tp_on := (tp_on p)(m \<mapsto> v\<lparr>sv_time := t, sv_count := 0\<rparr>)\<rparr>)"
| tp_extend: "tp_leader p = Some m \<Longrightarrow> tp_on p m = Some v \<Longrightarrow> sv_time v + ms \<le> t \<Longrightarrow> sv_limit v \<le> t + ms \<Longrightarrow>
     tpstep leases ms iv p (p\<lparr>tp_limit := Some (t + iv), tp_on := (tp_on p)(m \<mapsto> \<lparr>sv_time = t, sv_count = 0, sv_limit = t + iv\<rparr>)\<rparr>)"
| tp_off: "tpstep leases ms iv p (p\<lparr>tp_on := (tp_on p)(m := None)\<rparr>)"
| tp_skip: "tp_on p m = Some v \<Longrightarrow> 0 < n \<Longrightarrow>
     tpstep leases ms iv p (p\<lparr>tp_on := (tp_on p)(m \<mapsto> v\<lparr>sv_count := sv_count v + n\<rparr>)\<rparr>)"
| tp_give: "tp_on p m = Some v \<Longrightarrow> 0 < n \<Longrightarrow> (leases \<Longrightarrow> tp_leader p = Some m) \<Longrightarrow>
     tpstep leases ms iv p (p\<lparr>tp_on := (tp_on p)(m \<mapsto> v\<lparr>sv_count := sv_count v + n\<rparr>),
       tp_blocks := tp_blocks p @ [\<lparr>bk_owner = m, bk_time = sv_time v, bk_lo = sv_count v, bk_hi = sv_count v + n\<rparr>]\<rparr>)"

inductive tpreach :: "bool \<Rightarrow> int \<Rightarrow> int \<Rightarrow> tproto \<Rightarrow> bool" for leases ms iv where
  tp_init: "tpreach leases ms iv \<lparr>tp_leader = l, tp_limit = None, tp_on = (\<lambda>m. None), tp_blocks = []\<rparr>"
| tp_next: "tpreach leases ms iv p \<Longrightarrow> tpstep leases ms iv p p' \<Longrightarrow> tpreach leases ms iv p'"

section \<open>Blocks do not meet\<close>

text \<open>Two blocks in the order they were given: apart in time, or counted on.\<close>

definition apart :: "int \<Rightarrow> block \<Rightarrow> block \<Rightarrow> bool" where
  "apart ms a b \<longleftrightarrow> bk_time a + ms \<le> bk_time b \<or> bk_time b + ms \<le> bk_time a \<or> bk_time a = bk_time b \<and> bk_hi a \<le> bk_lo b"

definition before :: "int \<Rightarrow> block \<Rightarrow> block \<Rightarrow> bool" where
  "before ms a b \<longleftrightarrow> bk_time a + ms \<le> bk_time b \<or> bk_time a = bk_time b \<and> bk_hi a \<le> bk_lo b"

text \<open>A block that a member still serves, or one of an earlier time.\<close>

definition covered :: "int \<Rightarrow> nat \<Rightarrow> serving \<Rightarrow> block \<Rightarrow> bool" where
  "covered ms m v b \<longleftrightarrow> bk_time b + ms \<le> sv_time v \<or> bk_owner b = m \<and> bk_time b = sv_time v \<and> bk_hi b \<le> sv_count v"

text \<open>Of two members that are on, one is past the limit of the other.\<close>

definition past :: "int \<Rightarrow> serving \<Rightarrow> serving \<Rightarrow> bool" where
  "past ms v w \<longleftrightarrow> sv_limit v + ms \<le> sv_time w"

definition on_ok :: "int \<Rightarrow> tproto \<Rightarrow> bool" where
  "on_ok ms p \<longleftrightarrow> (\<forall>m v. tp_on p m = Some v \<longrightarrow> 0 \<le> sv_time v \<and> 0 \<le> sv_count v \<and> sv_time v + ms < sv_limit v
     \<and> (\<exists>u. tp_limit p = Some u \<and> sv_limit v \<le> u))"

definition apart_on :: "int \<Rightarrow> tproto \<Rightarrow> bool" where
  "apart_on ms p \<longleftrightarrow> (\<forall>m n v w. m \<noteq> n \<longrightarrow> tp_on p m = Some v \<longrightarrow> tp_on p n = Some w \<longrightarrow> past ms v w \<or> past ms w v)"

definition leader_top :: "int \<Rightarrow> tproto \<Rightarrow> bool" where
  "leader_top ms p \<longleftrightarrow> (\<forall>m v. tp_leader p = Some m \<longrightarrow> tp_on p m = Some v \<longrightarrow> tp_limit p = Some (sv_limit v)
     \<and> (\<forall>n w. n \<noteq> m \<longrightarrow> tp_on p n = Some w \<longrightarrow> past ms w v) \<and> (\<forall>b \<in> set (tp_blocks p). covered ms m v b))"

definition blocks_ok :: "int \<Rightarrow> tproto \<Rightarrow> bool" where
  "blocks_ok ms p \<longleftrightarrow> (\<forall>b \<in> set (tp_blocks p). 0 \<le> bk_time b \<and> 0 \<le> bk_lo b \<and> bk_lo b < bk_hi b
       \<and> (\<exists>u. tp_limit p = Some u \<and> bk_time b + ms < u)
       \<and> (\<forall>m v. tp_on p m = Some v \<longrightarrow> covered ms m v b \<or> sv_limit v + ms \<le> bk_time b))"

definition tp_inv :: "bool \<Rightarrow> int \<Rightarrow> tproto \<Rightarrow> bool" where
  "tp_inv leases ms p \<longleftrightarrow> on_ok ms p \<and> apart_on ms p \<and> leader_top ms p \<and> blocks_ok ms p
     \<and> sorted_wrt (apart ms) (tp_blocks p) \<and> (leases \<longrightarrow> sorted_wrt (before ms) (tp_blocks p))"

lemmas tp_defs = tp_inv_def on_ok_def apart_on_def leader_top_def blocks_ok_def

lemma inv_on:
  assumes "tp_inv leases ms p" "tp_on p m = Some v"
  shows "0 \<le> sv_time v" "0 \<le> sv_count v" "sv_time v + ms < sv_limit v"
    and "\<And>u. tp_limit p = Some u \<Longrightarrow> sv_limit v \<le> u" and "tp_limit p \<noteq> None"
  using assms unfolding tp_inv_def on_ok_def by force+

lemma inv_block:
  assumes "tp_inv leases ms p" "b \<in> set (tp_blocks p)"
  shows "0 \<le> bk_time b" "0 \<le> bk_lo b" "bk_lo b < bk_hi b"
    and "\<And>u. tp_limit p = Some u \<Longrightarrow> bk_time b + ms < u" and "tp_limit p \<noteq> None"
    and "tp_on p m = Some v \<Longrightarrow> covered ms m v b \<or> sv_limit v + ms \<le> bk_time b"
  using assms unfolding tp_inv_def blocks_ok_def by force+

lemma inv_past:
  assumes "tp_inv leases ms p" "m \<noteq> n" "tp_on p m = Some v" "tp_on p n = Some w"
  shows "past ms v w \<or> past ms w v"
  using assms unfolding tp_inv_def apart_on_def by blast

lemma inv_leader:
  assumes "tp_inv leases ms p" "tp_leader p = Some m" "tp_on p m = Some v"
  shows "tp_limit p = Some (sv_limit v)" "n \<noteq> m \<Longrightarrow> tp_on p n = Some w \<Longrightarrow> past ms w v"
    "b \<in> set (tp_blocks p) \<Longrightarrow> covered ms m v b"
  using assms unfolding tp_inv_def leader_top_def by blast+

lemma inv_sorted:
  assumes "tp_inv leases ms p"
  shows "sorted_wrt (apart ms) (tp_blocks p)" "leases \<Longrightarrow> sorted_wrt (before ms) (tp_blocks p)"
  using assms by (simp_all add: tp_inv_def)

lemma tp_invI:
  assumes "\<And>m v. tp_on p m = Some v \<Longrightarrow> 0 \<le> sv_time v \<and> 0 \<le> sv_count v \<and> sv_time v + ms < sv_limit v \<and> (\<exists>u. tp_limit p = Some u \<and> sv_limit v \<le> u)"
    and "\<And>m n v w. m \<noteq> n \<Longrightarrow> tp_on p m = Some v \<Longrightarrow> tp_on p n = Some w \<Longrightarrow> past ms v w \<or> past ms w v"
    and "\<And>m v. tp_leader p = Some m \<Longrightarrow> tp_on p m = Some v \<Longrightarrow> tp_limit p = Some (sv_limit v)"
    and "\<And>m v n w. tp_leader p = Some m \<Longrightarrow> tp_on p m = Some v \<Longrightarrow> n \<noteq> m \<Longrightarrow> tp_on p n = Some w \<Longrightarrow> past ms w v"
    and "\<And>m v b. tp_leader p = Some m \<Longrightarrow> tp_on p m = Some v \<Longrightarrow> b \<in> set (tp_blocks p) \<Longrightarrow> covered ms m v b"
    and "\<And>b. b \<in> set (tp_blocks p) \<Longrightarrow> 0 \<le> bk_time b \<and> 0 \<le> bk_lo b \<and> bk_lo b < bk_hi b \<and> (\<exists>u. tp_limit p = Some u \<and> bk_time b + ms < u)"
    and "\<And>b m v. b \<in> set (tp_blocks p) \<Longrightarrow> tp_on p m = Some v \<Longrightarrow> covered ms m v b \<or> sv_limit v + ms \<le> bk_time b"
    and "sorted_wrt (apart ms) (tp_blocks p)" "leases \<Longrightarrow> sorted_wrt (before ms) (tp_blocks p)"
  shows "tp_inv leases ms p"
  using assms unfolding tp_inv_def on_ok_def apart_on_def leader_top_def blocks_ok_def by simp

text \<open>The serving record of one member is replaced.\<close>

lemma inv_update:
  assumes inv: "tp_inv leases ms p" and pos: "0 \<le> ms"
    and lim: "\<And>u. tp_limit p = Some u \<Longrightarrow> \<exists>u'. lim = Some u' \<and> u \<le> u'" "tp_limit p = None \<Longrightarrow> lim = None \<or> lim = Some (sv_limit v')"
    and v': "0 \<le> sv_time v'" "0 \<le> sv_count v'" "sv_time v' + ms < sv_limit v'" "\<exists>u. lim = Some u \<and> sv_limit v' \<le> u"
    and others: "\<And>n w. n \<noteq> m \<Longrightarrow> tp_on p n = Some w \<Longrightarrow> past ms v' w \<or> past ms w v'"
    and blocks: "\<And>b. b \<in> set (tp_blocks p) \<Longrightarrow> covered ms m v' b \<or> sv_limit v' + ms \<le> bk_time b"
    and leader: "tp_leader p = Some m \<Longrightarrow> lim = Some (sv_limit v') \<and> (\<forall>n w. n \<noteq> m \<longrightarrow> tp_on p n = Some w \<longrightarrow> past ms w v')
       \<and> (\<forall>b \<in> set (tp_blocks p). covered ms m v' b)"
    and other_leader: "\<And>n w. tp_leader p = Some n \<Longrightarrow> n \<noteq> m \<Longrightarrow> tp_on p n = Some w \<Longrightarrow> lim = tp_limit p \<and> past ms v' w"
  shows "tp_inv leases ms (p\<lparr>tp_limit := lim, tp_on := (tp_on p)(m \<mapsto> v')\<rparr>)"
proof (rule tp_invI)
  let ?p = "p\<lparr>tp_limit := lim, tp_on := (tp_on p)(m \<mapsto> v')\<rparr>"
  have keep: "\<exists>u'. lim = Some u' \<and> x \<le> u'" if "\<And>u. tp_limit p = Some u \<Longrightarrow> x \<le> u" "tp_limit p \<noteq> None" for x
    using that lim(1) by (metis not_None_eq order_trans)
  show "0 \<le> sv_time v \<and> 0 \<le> sv_count v \<and> sv_time v + ms < sv_limit v \<and> (\<exists>u. tp_limit ?p = Some u \<and> sv_limit v \<le> u)"
    if "tp_on ?p n = Some v" for n v
    using that v' inv_on [OF inv, of n v] keep [of "sv_limit v"] by (cases "n = m") auto
  show "past ms v w \<or> past ms w v" if "k \<noteq> n" "tp_on ?p k = Some v" "tp_on ?p n = Some w" for k n v w
  proof (cases "k = m \<or> n = m")
    case True
    then show ?thesis using that others [of k v] others [of n w] by auto
  qed (use that inv_past [OF inv] in auto)
  show "tp_limit ?p = Some (sv_limit v)" if "tp_leader ?p = Some n" "tp_on ?p n = Some v" for n v
    using that leader other_leader [of n v] inv_leader(1) [OF inv, of n v] by (cases "n = m") auto
  show "past ms w v" if "tp_leader ?p = Some n" "tp_on ?p n = Some v" "k \<noteq> n" "tp_on ?p k = Some w" for n v k w
    using that leader other_leader [of n v] inv_leader(2) [OF inv, of n v k w] by (cases "n = m"; cases "k = m") auto
  show "covered ms n v b" if "tp_leader ?p = Some n" "tp_on ?p n = Some v" "b \<in> set (tp_blocks ?p)" for n v b
    using that leader inv_leader(3) [OF inv, of n v b] by (cases "n = m") auto
  show "0 \<le> bk_time b \<and> 0 \<le> bk_lo b \<and> bk_lo b < bk_hi b \<and> (\<exists>u. tp_limit ?p = Some u \<and> bk_time b + ms < u)"
    if "b \<in> set (tp_blocks ?p)" for b
    using that inv_block [OF inv, of b] lim(1) by (fastforce intro: order_less_le_trans)
  show "covered ms n v b \<or> sv_limit v + ms \<le> bk_time b" if "b \<in> set (tp_blocks ?p)" "tp_on ?p n = Some v" for b n v
    using that blocks inv_block(6) [OF inv, of b n v] by (cases "n = m") auto
qed (use inv_sorted [OF inv] in simp_all)

text \<open>A member goes off, or the leader changes to one that is off.\<close>

lemma inv_off: "tp_inv leases ms p \<Longrightarrow> tp_inv leases ms (p\<lparr>tp_on := (tp_on p)(m := None)\<rparr>)"
  by (auto simp: tp_inv_def on_ok_def apart_on_def leader_top_def blocks_ok_def)

lemma inv_elect: "tp_inv leases ms p \<Longrightarrow> (\<forall>m. l = Some m \<longrightarrow> tp_on p m = None) \<Longrightarrow> tp_inv leases ms (p\<lparr>tp_leader := l\<rparr>)"
  by (auto simp: tp_inv_def on_ok_def apart_on_def leader_top_def blocks_ok_def)

lemma inv_raise:
  assumes inv: "tp_inv leases ms p" and u: "\<And>u. tp_limit p = Some u \<Longrightarrow> u \<le> u'" and off: "\<And>m. tp_leader p = Some m \<Longrightarrow> tp_on p m = None"
  shows "tp_inv leases ms (p\<lparr>tp_limit := Some u'\<rparr>)"
proof (rule tp_invI)
  show "0 \<le> sv_time v \<and> 0 \<le> sv_count v \<and> sv_time v + ms < sv_limit v \<and> (\<exists>u. tp_limit (p\<lparr>tp_limit := Some u'\<rparr>) = Some u \<and> sv_limit v \<le> u)"
    if "tp_on (p\<lparr>tp_limit := Some u'\<rparr>) m = Some v" for m v
    using that inv_on [OF inv, of m v] u by (fastforce intro: order_trans)
  show "0 \<le> bk_time b \<and> 0 \<le> bk_lo b \<and> bk_lo b < bk_hi b \<and> (\<exists>u. tp_limit (p\<lparr>tp_limit := Some u'\<rparr>) = Some u \<and> bk_time b + ms < u)"
    if "b \<in> set (tp_blocks (p\<lparr>tp_limit := Some u'\<rparr>))" for b
    using that inv_block [OF inv, of b] u by (fastforce intro: order_less_le_trans)
qed (use inv off inv_past [OF inv] inv_block(6) [OF inv] inv_sorted [OF inv] in auto)

text \<open>A block is given from what a member serves.\<close>

lemma inv_give:
  assumes inv: "tp_inv leases ms p" and on: "tp_on p m = Some v" and n: "0 < n" and pos: "0 < ms" and lease: "leases \<Longrightarrow> tp_leader p = Some m"
  defines "b0 \<equiv> \<lparr>bk_owner = m, bk_time = sv_time v, bk_lo = sv_count v, bk_hi = sv_count v + n\<rparr>"
  shows "tp_inv leases ms (p\<lparr>tp_on := (tp_on p)(m \<mapsto> v\<lparr>sv_count := sv_count v + n\<rparr>), tp_blocks := tp_blocks p @ [b0]\<rparr>)"
proof -
  let ?v' = "v\<lparr>sv_count := sv_count v + n\<rparr>"
  define p1 where "p1 = p\<lparr>tp_limit := tp_limit p, tp_on := (tp_on p)(m \<mapsto> ?v')\<rparr>"
  have cov: "covered ms m ?v' b" if "covered ms m v b" for b using that n by (auto simp: covered_def)
  have inv1: "tp_inv leases ms p1"
    unfolding p1_def
  proof (rule inv_update [OF inv])
    show "tp_leader p = Some m \<Longrightarrow> tp_limit p = Some (sv_limit ?v') \<and> (\<forall>n w. n \<noteq> m \<longrightarrow> tp_on p n = Some w \<longrightarrow> past ms w ?v')
       \<and> (\<forall>b \<in> set (tp_blocks p). covered ms m ?v' b)"
      using inv_leader [OF inv _ on] cov by (auto simp: past_def)
    show "tp_limit p = tp_limit p \<and> past ms ?v' w" if "tp_leader p = Some k" "k \<noteq> m" "tp_on p k = Some w" for k w
      using that inv_leader(2) [OF inv that(1,3) _ on] by (simp add: past_def)
    show "past ms ?v' w \<or> past ms w ?v'" if "k \<noteq> m" "tp_on p k = Some w" for k w
      using inv_past [OF inv that(1) that(2) on] by (auto simp: past_def)
    show "covered ms m ?v' b \<or> sv_limit ?v' + ms \<le> bk_time b" if "b \<in> set (tp_blocks p)" for b
      using inv_block(6) [OF inv that on] cov by auto
  qed (use inv_on [OF inv on] n pos in auto)
  have later: "apart ms b b0" if "b \<in> set (tp_blocks p)" for b
    using inv_block(6) [OF inv that on] inv_on(3) [OF inv on] pos by (auto simp: covered_def apart_def b0_def)
  have ordered: "before ms b b0" if "leases" "b \<in> set (tp_blocks p)" for b
    using inv_leader(3) [OF inv lease on] that by (auto simp: covered_def before_def b0_def)
  have new: "covered ms k w b0 \<or> sv_limit w + ms \<le> bk_time b0" if "tp_on p1 k = Some w" for k w
  proof (cases "k = m")
    case True
    then show ?thesis using that n by (auto simp: p1_def covered_def b0_def)
  next
    case False
    then have "past ms w v \<or> past ms v w" using inv_past [OF inv] that on by (auto simp: p1_def)
    then show ?thesis using inv_on(3) [OF inv on] pos by (auto simp: past_def covered_def b0_def)
  qed
  show ?thesis
  proof (rule tp_invI)
    let ?q = "p\<lparr>tp_on := (tp_on p)(m \<mapsto> ?v'), tp_blocks := tp_blocks p @ [b0]\<rparr>"
    have q: "tp_on ?q = tp_on p1" "tp_leader ?q = tp_leader p1" "tp_limit ?q = tp_limit p1" "set (tp_blocks ?q) = insert b0 (set (tp_blocks p1))"
      by (auto simp: p1_def)
    show "0 \<le> sv_time w \<and> 0 \<le> sv_count w \<and> sv_time w + ms < sv_limit w \<and> (\<exists>u. tp_limit ?q = Some u \<and> sv_limit w \<le> u)" if "tp_on ?q k = Some w" for k w
      using that inv_on [OF inv1, of k w] unfolding q by auto
    show "past ms x w \<or> past ms w x" if "k \<noteq> l" "tp_on ?q k = Some x" "tp_on ?q l = Some w" for k l x w
      using that inv_past [OF inv1] unfolding q by blast
    show "tp_limit ?q = Some (sv_limit w)" if "tp_leader ?q = Some k" "tp_on ?q k = Some w" for k w
      using that inv_leader(1) [OF inv1] unfolding q by blast
    show "past ms x w" if "tp_leader ?q = Some k" "tp_on ?q k = Some w" "l \<noteq> k" "tp_on ?q l = Some x" for k w l x
      using that inv_leader(2) [OF inv1] unfolding q by blast
    show "covered ms k w b" if "tp_leader ?q = Some k" "tp_on ?q k = Some w" "b \<in> set (tp_blocks ?q)" for k w b
    proof (cases "b = b0")
      case True
      have "sv_limit w + ms \<le> sv_time v \<Longrightarrow> k = m"
        using that inv_leader(2) [OF inv, of k w m v] on inv_on(3) [OF inv on] inv_on(3) [OF inv1, of k w] pos unfolding q
        by (cases "k = m") (auto simp: past_def p1_def)
      then show ?thesis using True new [of k w] that unfolding q by (auto simp: b0_def p1_def covered_def)
    qed (use that inv_leader(3) [OF inv1] q in auto)
    show "0 \<le> bk_time b \<and> 0 \<le> bk_lo b \<and> bk_lo b < bk_hi b \<and> (\<exists>u. tp_limit ?q = Some u \<and> bk_time b + ms < u)" if "b \<in> set (tp_blocks ?q)" for b
      using that inv_block [OF inv1, of b] inv_on [OF inv on] n unfolding q by (fastforce simp: b0_def p1_def)
    show "covered ms k w b \<or> sv_limit w + ms \<le> bk_time b" if "b \<in> set (tp_blocks ?q)" "tp_on ?q k = Some w" for b k w
      using that new inv_block(6) [OF inv1] unfolding q by blast
    show "sorted_wrt (apart ms) (tp_blocks ?q)" using inv_sorted(1) [OF inv] later by (simp add: sorted_wrt_append)
    show "leases \<Longrightarrow> sorted_wrt (before ms) (tp_blocks ?q)" using inv_sorted(2) [OF inv] ordered by (simp add: sorted_wrt_append)
  qed
qed

lemma step_inv:
  assumes inv: "tp_inv leases ms p" and step: "tpstep leases ms iv p p'" and ms: "0 < ms" "ms < iv"
  shows "tp_inv leases ms p'"
  using step
proof cases
  case (tp_elect l)
  then show ?thesis using inv_elect [OF inv] by simp
next
  case (tp_sync m t)
  let ?v = "\<lparr>sv_time = t, sv_count = 0, sv_limit = t + iv\<rparr>"
  have lim: "past ms w ?v" if "tp_on p n = Some w" for n w
    using inv_on(4,5) [OF inv that] tp_sync(5) by (cases "tp_limit p") (auto simp: past_def)
  have old: "covered ms m ?v b" if "b \<in> set (tp_blocks p)" for b
    using inv_block(4,5) [OF inv that] tp_sync(5) ms by (cases "tp_limit p") (auto simp: covered_def)
  show ?thesis
    unfolding tp_sync(1)
  proof (rule inv_update [OF inv])
    show "\<exists>u'. Some (t + iv) = Some u' \<and> u \<le> u'" if "tp_limit p = Some u" for u using that tp_sync(5) ms by force
  qed (use tp_sync lim old ms in auto)
next
  case (tp_raise m u')
  then show ?thesis using inv_raise [OF inv, of u'] by simp
next
  case (tp_raise_on m v u')
  let ?v = "v\<lparr>sv_limit := u'\<rparr>"
  note on = inv_on [OF inv tp_raise_on(3)] and top = inv_leader [OF inv tp_raise_on(2,3)]
  have cov: "covered ms m ?v b" if "b \<in> set (tp_blocks p)" for b using top(3) [OF that] by (simp add: covered_def)
  have old: "past ms w ?v" if "k \<noteq> m" "tp_on p k = Some w" for k w using top(2) [OF that] by (simp add: past_def)
  show ?thesis
    unfolding tp_raise_on(1)
    by (rule inv_update [OF inv]) (use on top(1) tp_raise_on cov old ms in auto)
next
  case (tp_advance m v t)
  let ?v = "v\<lparr>sv_time := t, sv_count := 0\<rparr>"
  note on = inv_on [OF inv tp_advance(2)]
  have cov: "covered ms m ?v b" if "covered ms m v b" for b using that tp_advance(3) ms by (auto simp: covered_def)
  have "tp_inv leases ms (p\<lparr>tp_limit := tp_limit p, tp_on := (tp_on p)(m \<mapsto> ?v)\<rparr>)"
  proof (rule inv_update [OF inv])
    show "tp_leader p = Some m \<Longrightarrow> tp_limit p = Some (sv_limit ?v) \<and> (\<forall>n w. n \<noteq> m \<longrightarrow> tp_on p n = Some w \<longrightarrow> past ms w ?v)
       \<and> (\<forall>b \<in> set (tp_blocks p). covered ms m ?v b)"
      using inv_leader [OF inv _ tp_advance(2)] cov tp_advance(3) ms by (fastforce simp: past_def)
    show "tp_limit p = tp_limit p \<and> past ms ?v w" if "tp_leader p = Some k" "k \<noteq> m" "tp_on p k = Some w" for k w
      using that inv_leader(2) [OF inv that(1,3) _ tp_advance(2)] by (simp add: past_def)
    show "past ms ?v w \<or> past ms w ?v" if "k \<noteq> m" "tp_on p k = Some w" for k w
      using inv_past [OF inv that(1) that(2) tp_advance(2)] tp_advance(3) ms by (auto simp: past_def)
    show "covered ms m ?v b \<or> sv_limit ?v + ms \<le> bk_time b" if "b \<in> set (tp_blocks p)" for b
      using inv_block(6) [OF inv that tp_advance(2)] cov by auto
  qed (use on tp_advance ms in auto)
  then show ?thesis by (simp add: tp_advance(1))
next
  case (tp_extend m v t)
  let ?v = "\<lparr>sv_time = t, sv_count = 0, sv_limit = t + iv\<rparr>"
  note on = inv_on [OF inv tp_extend(3)] and top = inv_leader [OF inv tp_extend(2,3)]
  show ?thesis
    unfolding tp_extend(1)
  proof (rule inv_update [OF inv])
    show "\<exists>u'. Some (t + iv) = Some u' \<and> u \<le> u'" if "tp_limit p = Some u" for u using that top(1) tp_extend(5) ms by force
    show "past ms ?v w \<or> past ms w ?v" if "k \<noteq> m" "tp_on p k = Some w" for k w
      using top(2) [OF that] tp_extend(4) ms by (simp add: past_def)
    have cov: "covered ms m ?v b" if "b \<in> set (tp_blocks p)" for b using top(3) [OF that] tp_extend(4) ms by (auto simp: covered_def)
    then show "covered ms m ?v b \<or> sv_limit ?v + ms \<le> bk_time b" if "b \<in> set (tp_blocks p)" for b using that by blast
    show "Some (t + iv) = Some (sv_limit ?v) \<and> (\<forall>n w. n \<noteq> m \<longrightarrow> tp_on p n = Some w \<longrightarrow> past ms w ?v) \<and> (\<forall>b \<in> set (tp_blocks p). covered ms m ?v b)"
      using top(2) cov tp_extend(4) ms by (fastforce simp: past_def)
  qed (use on tp_extend ms in auto)
next
  case (tp_off m)
  then show ?thesis using inv_off [OF inv] by simp
next
  case (tp_skip m v n)
  have "tp_inv False ms p" using inv by (simp add: tp_inv_def)
  from inv_give [OF this tp_skip(2,3) ms(1)] show ?thesis
    using inv unfolding tp_skip(1)
    by (auto simp: tp_inv_def on_ok_def apart_on_def leader_top_def blocks_ok_def)
next
  case (tp_give m v n)
  then show ?thesis using inv_give [OF inv tp_give(2,3) ms(1) tp_give(4)] by simp
qed

lemma reach_inv: "tpreach leases ms iv p \<Longrightarrow> 0 < ms \<Longrightarrow> ms < iv \<Longrightarrow> tp_inv leases ms p"
proof (induction rule: tpreach.induct)
  case (tp_init l)
  then show ?case by (simp add: tp_inv_def on_ok_def apart_on_def leader_top_def blocks_ok_def)
qed (rule step_inv)

end
