(* ===== verification/Tso_System.thy ===== *)
theory Tso_System
  imports Tso Tso_Spec
begin

text \<open>
  The timestamp service of a group of scheduler members: each runs \<open>campaignLeader\<close> of
  \<open>scheduler/server/server.go\<close> over one etcd and answers timestamp requests from its own oracle. Members win the leader key,
  lose it without noticing, fail in the middle of saving, step down, crash and come back. The steps
  are the operations of the oracle and of the election, one call at a time; they simulate the protocol of \<open>Tso_Spec\<close>.
  \<open>ResetUserTimestamp\<close> has no caller in the repository and is not a step.
\<close>

section \<open>The system\<close>

text \<open>\<open>Member.CampaignLeader\<close>; what granting the lease returned is an argument.\<close>

definition CampaignLeader :: "'e etcd \<Rightarrow> 'e \<Rightarrow> eerr option \<Rightarrow> string \<Rightarrow> bytes \<Rightarrow> eerr option \<times> 'e" where
  "CampaignLeader E s granted root memberValue =
     (case granted of
        Some err \<Rightarrow> (Some err, s)
      | None \<Rightarrow>
          let leaderKey = path_Join root ''leader''
          in (case et_Commit E s [CmpCreateRevision0 leaderKey] [(leaderKey, memberValue)] of
                (Inl err, s') \<Rightarrow> (Some err, s')
              | (Inr succeeded, s') \<Rightarrow>
                  if \<not> succeeded then (Some (ErrTxnFailed ''failed to campaign leader, other server may campaign ok''), s')
                  else (None, s')))"

text \<open>Where a member is in \<open>campaignLeader\<close>: outside, before \<open>SyncTimestamp\<close>, in the loop, or on the way out of it.\<close>

datatype phase = Idle | Elected | Leading | Failing

record given =
  gv_resp :: Timestamp
  gv_count :: nat
  gv_owner :: nat
  gv_time :: time

record 'e tsys =
  ty_etcd :: 'e
  ty_oracle :: "nat \<Rightarrow> TimestampOracle"
  ty_phase :: "nat \<Rightarrow> phase"
  ty_given :: "given list"

definition saved_limit :: "(string \<Rightarrow> bytes option) \<Rightarrow> string \<Rightarrow> int option" where
  "saved_limit m root = map_option (\<lambda>v. sint (be_uint64 v)) (m (path_Join root ''timestamp''))"

text \<open>Clocks and the saved time are taken to be before \<open>2^61\<close> nanoseconds after 1970 (the year 2043).\<close>

definition clock_ok :: "(string \<Rightarrow> bytes option) \<Rightarrow> string \<Rightarrow> time \<Rightarrow> bool" where
  "clock_ok m root now \<longleftrightarrow> 0 \<le> now \<and> now < 2 ^ 61 \<and> (\<forall>u. saved_limit m root = Some u \<longrightarrow> u < 2 ^ 61)"

definition give :: "nat \<Rightarrow> nat \<Rightarrow> TimestampOracle \<Rightarrow> (eerr + Timestamp) option \<Rightarrow> given list" where
  "give m count t r =
     (case (r, to_ts t) of
        (Some (Inr resp), Some a) \<Rightarrow> [\<lparr>gv_resp = resp, gv_count = count, gv_owner = m, gv_time = ao_physical a\<rparr>]
      | _ \<Rightarrow> [])"

text \<open>
  With \<open>leases\<close>, a lease that has not expired at a member means that the leader key is still that member's, which
  is what the lease is for; without it, clocks may run at any speed. The leader key may be
  deleted at any time, other keys may change at any time; the timestamp key is written by the oracles only.
\<close>

inductive tsstep ::
    "bool \<Rightarrow> 'e etcd \<Rightarrow> ('e \<Rightarrow> string \<Rightarrow> bytes option) \<Rightarrow> string \<Rightarrow> (nat \<Rightarrow> bytes) \<Rightarrow> int \<Rightarrow> int \<Rightarrow> 'e tsys \<Rightarrow> 'e tsys \<Rightarrow> bool"
  for leases E data root member iv gap where
  ts_env: "data s' (path_Join root ''timestamp'') = data (ty_etcd y) (path_Join root ''timestamp'') \<Longrightarrow>
     data s' (path_Join root ''leader'') \<in> {None, data (ty_etcd y) (path_Join root ''leader'')} \<Longrightarrow>
     tsstep leases E data root member iv gap y (y\<lparr>ty_etcd := s'\<rparr>)"
| ts_campaign: "ty_phase y m = Idle \<Longrightarrow> CampaignLeader E (ty_etcd y) granted root (member m) = (err, s') \<Longrightarrow>
     tsstep leases E data root member iv gap y (y\<lparr>ty_etcd := s', ty_phase := (ty_phase y)(m := if err = None then Elected else Idle)\<rparr>)"
| ts_sync: "ty_phase y m = Elected \<Longrightarrow> clock_ok (data (ty_etcd y)) root now \<Longrightarrow>
     SyncTimestamp E (ty_etcd y) (ty_oracle y m) now = (err, s', t') \<Longrightarrow>
     tsstep leases E data root member iv gap y (y\<lparr>ty_etcd := s', ty_oracle := (ty_oracle y)(m := t'),
       ty_phase := (ty_phase y)(m := if err = None then Leading else Idle)\<rparr>)"
| ts_update: "ty_phase y m = Leading \<Longrightarrow> clock_ok (data (ty_etcd y)) root now \<Longrightarrow>
     UpdateTimestamp E (ty_etcd y) (ty_oracle y m) now = Inr (err, s', t') \<Longrightarrow>
     tsstep leases E data root member iv gap y (y\<lparr>ty_etcd := s', ty_oracle := (ty_oracle y)(m := t'),
       ty_phase := (ty_phase y)(m := if err = None then Leading else Failing)\<rparr>)"
| ts_reset: "ty_phase y m \<in> {Leading, Failing} \<Longrightarrow>
     tsstep leases E data root member iv gap y (y\<lparr>ty_oracle := (ty_oracle y)(m := ResetTimestamp (ty_oracle y m)), ty_phase := (ty_phase y)(m := Idle)\<rparr>)"
| ts_crash: "tsstep leases E data root member iv gap y (y\<lparr>ty_oracle := (ty_oracle y)(m := NewTimestampOracle root (member m) iv gap),
       ty_phase := (ty_phase y)(m := Idle)\<rparr>)"
| ts_get: "0 < count \<Longrightarrow> (\<forall>a. to_ts (ty_oracle y m) = Some a \<longrightarrow> ao_logical a + int count < 2 ^ 63) \<Longrightarrow>
     (leases \<Longrightarrow> \<not> expired \<Longrightarrow> data (ty_etcd y) (path_Join root ''leader'') = Some (member m)) \<Longrightarrow>
     GetRespTS_attempt (ty_oracle y m) count expired = Inr (r, t') \<Longrightarrow>
     tsstep leases E data root member iv gap y (y\<lparr>ty_oracle := (ty_oracle y)(m := t'), ty_given := ty_given y @ give m count (ty_oracle y m) r\<rparr>)"

inductive tsreach ::
    "bool \<Rightarrow> 'e etcd \<Rightarrow> ('e \<Rightarrow> string \<Rightarrow> bytes option) \<Rightarrow> string \<Rightarrow> (nat \<Rightarrow> bytes) \<Rightarrow> int \<Rightarrow> int \<Rightarrow> 'e tsys \<Rightarrow> bool"
  for leases E data root member iv gap where
  ts_init: "data s (path_Join root ''timestamp'') = None \<Longrightarrow> data s (path_Join root ''leader'') = None \<Longrightarrow>
     tsreach leases E data root member iv gap
       \<lparr>ty_etcd = s, ty_oracle = (\<lambda>m. NewTimestampOracle root (member m) iv gap), ty_phase = (\<lambda>m. Idle), ty_given = []\<rparr>"
| ts_next: "tsreach leases E data root member iv gap y \<Longrightarrow> tsstep leases E data root member iv gap y y' \<Longrightarrow>
     tsreach leases E data root member iv gap y'"

section \<open>Arithmetic\<close>

lemma wrap64_id: "- (2 ^ 63) \<le> x \<Longrightarrow> x < 2 ^ 63 \<Longrightarrow> wrap64 x = x"
  unfolding wrap64_def by (subst mod_pos_pos_trivial) auto

lemma UnixNano_small: "0 \<le> t \<Longrightarrow> t < 2 ^ 62 \<Longrightarrow> UnixNano t = t"
  unfolding UnixNano_def by (rule wrap64_id) auto

lemma Sub_small: "0 \<le> a \<Longrightarrow> a < 2 ^ 62 \<Longrightarrow> 0 \<le> b \<Longrightarrow> b < 2 ^ 62 \<Longrightarrow> SubTimeByWallClock a b = a - b"
  unfolding SubTimeByWallClock_def by (simp add: UnixNano_small wrap64_id)

lemma Sub_zero_time: "0 \<le> now \<Longrightarrow> now < 2 ^ 61 \<Longrightarrow> \<not> SubTimeByWallClock now ZeroTime < updateTimestampGuard"
  by (simp add: SubTimeByWallClock_def UnixNano_small wrap64_id updateTimestampGuard_def Millisecond_def)
     (simp add: UnixNano_def ZeroTime_def wrap64_def)

lemma sint_small: "0 \<le> x \<Longrightarrow> x < 2 ^ 63 \<Longrightarrow> sint (word_of_int x :: u64) = x"
  by (simp add: int_word_sint)

lemma ZeroTime_neg: "ZeroTime < 0"
  by (simp add: ZeroTime_def)

lemma physical_ms: "0 \<le> t \<Longrightarrow> t < 2 ^ 62 \<Longrightarrow> go_div (UnixNano t) Millisecond = t div Millisecond"
  by (simp add: UnixNano_small go_div_def)

lemma ms_apart: "a + Millisecond \<le> b \<Longrightarrow> a div Millisecond < b div Millisecond"
proof -
  assume "a + Millisecond \<le> b"
  then have "(a + Millisecond) div Millisecond \<le> b div Millisecond" by (intro zdiv_mono1) (simp_all add: Millisecond_def)
  then show ?thesis by (simp add: Millisecond_def)
qed

section \<open>Simulation\<close>

text \<open>A member that serves holds the protocol's time and counter, and, unless saving has failed, its limit.\<close>

fun serving_ok :: "phase \<Rightarrow> TimestampOracle \<Rightarrow> serving option \<Rightarrow> bool" where
  "serving_ok ph t None \<longleftrightarrow> ph \<in> {Idle, Elected} \<and> (\<forall>a. to_ts t = Some a \<longrightarrow> ao_physical a = ZeroTime)"
| "serving_ok ph t (Some v) \<longleftrightarrow> ph \<in> {Leading, Failing} \<and> to_ts t = Some \<lparr>ao_physical = sv_time v, ao_logical = sv_count v\<rparr>
     \<and> (ph = Leading \<longrightarrow> to_lastSavedTime t = sv_limit v)"

definition config_ok :: "string \<Rightarrow> bytes \<Rightarrow> int \<Rightarrow> TimestampOracle \<Rightarrow> bool" where
  "config_ok root mem iv t \<longleftrightarrow> to_rootPath t = root \<and> to_member t = mem \<and> to_saveInterval t = iv"

definition given_block :: "given \<Rightarrow> block" where
  "given_block g = \<lparr>bk_owner = gv_owner g, bk_time = gv_time g, bk_lo = ts_Logical (gv_resp g) - int (gv_count g), bk_hi = ts_Logical (gv_resp g)\<rparr>"

definition given_ok :: "given \<Rightarrow> bool" where
  "given_ok g \<longleftrightarrow> ts_Physical (gv_resp g) = gv_time g div Millisecond \<and> ts_Logical (gv_resp g) < maxLogical"

definition sim_etcd :: "string \<Rightarrow> (nat \<Rightarrow> bytes) \<Rightarrow> (string \<Rightarrow> bytes option) \<Rightarrow> tproto \<Rightarrow> bool" where
  "sim_etcd root member d p \<longleftrightarrow>
     (\<forall>m. tp_leader p = Some m \<longleftrightarrow> d (path_Join root ''leader'') = Some (member m))
     \<and> tp_limit p = saved_limit d root \<and> (\<forall>v. d (path_Join root ''timestamp'') = Some v \<longrightarrow> length v = 8)
     \<and> (\<forall>u. tp_limit p = Some u \<longrightarrow> 0 \<le> u \<and> u < 2 ^ 62)"

definition sim_members :: "string \<Rightarrow> (nat \<Rightarrow> bytes) \<Rightarrow> int \<Rightarrow> 'e tsys \<Rightarrow> tproto \<Rightarrow> bool" where
  "sim_members root member iv y p \<longleftrightarrow>
     (\<forall>m. config_ok root (member m) iv (ty_oracle y m) \<and> serving_ok (ty_phase y m) (ty_oracle y m) (tp_on p m))"

definition sim :: "('e \<Rightarrow> string \<Rightarrow> bytes option) \<Rightarrow> string \<Rightarrow> (nat \<Rightarrow> bytes) \<Rightarrow> int \<Rightarrow> 'e tsys \<Rightarrow> tproto \<Rightarrow> bool" where
  "sim data root member iv y p \<longleftrightarrow> sim_etcd root member (data (ty_etcd y)) p \<and> sim_members root member iv y p
     \<and> tp_blocks p = map given_block (ty_given y) \<and> list_all given_ok (ty_given y)"

lemma saved_limit_put: "0 \<le> ts \<Longrightarrow> ts < 2 ^ 62 \<Longrightarrow>
    saved_limit (d(path_Join root ''timestamp'' \<mapsto> Uint64ToBytes (word_of_int (UnixNano ts)))) root = Some ts"
  by (simp add: saved_limit_def Uint64ToBytes_def UnixNano_small sint_small)

lemma sim_etcd_put:
  assumes "sim_etcd root member d p" "0 \<le> ts" "ts < 2 ^ 62"
  shows "sim_etcd root member (d(path_Join root ''timestamp'' \<mapsto> Uint64ToBytes (word_of_int (UnixNano ts)))) (p\<lparr>tp_limit := Some ts\<rparr>)"
  using assms saved_limit_put [OF assms(2,3)] unfolding sim_etcd_def by (simp add: Uint64ToBytes_def)

lemma sim_etcd_on [simp]: "sim_etcd root member d (p\<lparr>tp_on := f\<rparr>) = sim_etcd root member d p"
  by (simp add: sim_etcd_def)

lemma sim_etcd_blocks [simp]: "sim_etcd root member d (p\<lparr>tp_blocks := f\<rparr>) = sim_etcd root member d p"
  by (simp add: sim_etcd_def)

text \<open>One member moves.\<close>

lemma sim_members_upd:
  assumes "sim_members root member iv y p" "config_ok root (member m) iv t'" "serving_ok ph t' v'"
    and "ty_oracle y' = (ty_oracle y)(m := t')" "ty_phase y' = (ty_phase y)(m := ph)" "tp_on p' = (tp_on p)(m := v')"
  shows "sim_members root member iv y' p'"
  using assms by (simp add: sim_members_def)

lemma clock_limit: "sim_etcd root member d p \<Longrightarrow> clock_ok d root now \<Longrightarrow> tp_limit p = Some u \<Longrightarrow> 0 \<le> u \<and> u < 2 ^ 61"
  by (simp add: sim_etcd_def clock_ok_def)

context etcd_spec
begin

lemma save_cases:
  assumes "saveTimestamp E s t ts = (err, s', t')" "config_ok root mem iv t"
  obtains (saved) "data s (path_Join root ''leader'') = Some mem"
      "data s' = (data s)(path_Join root ''timestamp'' \<mapsto> Uint64ToBytes (word_of_int (UnixNano ts)))"
      "t' = (if err = None then t\<lparr>to_lastSavedTime := ts\<rparr> else t)"
    | (unsaved) "err \<noteq> None" "data s' = data s" "t' = t"
proof -
  let ?lk = "path_Join root ''leader''" and ?op = "[(path_Join root ''timestamp'', Uint64ToBytes (word_of_int (UnixNano ts)))]"
  obtain r s1 where c: "et_Commit E s [CmpValue ?lk mem] ?op = (r, s1)" by force
  have cfg: "to_rootPath t = root" "to_member t = mem" using assms(2) by (simp_all add: config_ok_def)
  have res: "s' = s1" "r = Inr True \<longleftrightarrow> err = None" "t' = (if err = None then t\<lparr>to_lastSavedTime := ts\<rparr> else t)"
    using assms(1) c by (auto simp: saveTimestamp_def getTimestampPath_def cfg Let_def split: sum.splits if_splits)
  from c show thesis
  proof (cases rule: commit_cases)
    case executed
    then show ?thesis using res that(1) by (simp add: etcd_puts_def)
  next
    case refused
    then show ?thesis using res that(2) by auto
  qed
qed

lemma load_saved:
  assumes "loadTimestamp E s t = Inr saved" "config_ok root mem iv t" "sim_etcd root member (data s) p"
  shows "saved = (case tp_limit p of None \<Rightarrow> ZeroTime | Some u \<Rightarrow> u)"
proof -
  obtain v where v: "et_Get E s (path_Join root ''timestamp'') = Inr v"
    using assms(1,2) by (auto simp: loadTimestamp_def etcd_GetValue_def getTimestampPath_def config_ok_def bindR_def split: sum.splits)
  then have "v = data s (path_Join root ''timestamp'')" by (rule get_data)
  then show ?thesis
    using assms v by (auto simp: loadTimestamp_def etcd_GetValue_def getTimestampPath_def config_ok_def bindR_def sim_etcd_def
      saved_limit_def ParseTimestamp_def BytesToUint64_def split: option.splits)
qed

lemma campaign_cases:
  assumes "CampaignLeader E s granted root mem = (err, s')"
  obtains (won) "data s (path_Join root ''leader'') = None" "data s' = (data s)(path_Join root ''leader'' \<mapsto> mem)"
    | (lost) "err \<noteq> None" "data s' = data s"
proof (cases granted)
  case (Some e)
  then show ?thesis using assms that(2) by (auto simp: CampaignLeader_def)
next
  case None
  obtain r s1 where c: "et_Commit E s [CmpCreateRevision0 (path_Join root ''leader'')] [(path_Join root ''leader'', mem)] = (r, s1)" by force
  have res: "s' = s1" "r = Inr True \<longleftrightarrow> err = None"
    using assms c None by (auto simp: CampaignLeader_def Let_def split: sum.splits if_splits)
  from c show ?thesis
  proof (cases rule: commit_cases)
    case executed
    then show ?thesis using res that(1) by (simp add: etcd_puts_def)
  next
    case refused
    then show ?thesis using res that(2) by auto
  qed
qed

end

text \<open>What \<open>SyncTimestamp\<close> starts from.\<close>

definition sync_next :: "time \<Rightarrow> time \<Rightarrow> time" where
  "sync_next now saved = (if SubTimeByWallClock now saved < updateTimestampGuard then saved + updateTimestampGuard else now)"

lemma sync_next_ok:
  assumes "sim_etcd root member d p" "clock_ok d root now" "saved = (case tp_limit p of None \<Rightarrow> ZeroTime | Some u \<Rightarrow> u)"
  shows "0 \<le> sync_next now saved" "sync_next now saved < 2 ^ 61 + Millisecond" "tp_limit p = Some u \<Longrightarrow> u + Millisecond \<le> sync_next now saved"
proof -
  have now: "0 \<le> now" "now < 2 ^ 61" using assms(2) by (simp_all add: clock_ok_def)
  have "0 \<le> sync_next now saved \<and> sync_next now saved < 2 ^ 61 + Millisecond \<and> (\<forall>u. tp_limit p = Some u \<longrightarrow> u + Millisecond \<le> sync_next now saved)"
  proof (cases "tp_limit p")
    case None
    then show ?thesis using now Sub_zero_time [OF now] assms(3) by (simp add: sync_next_def Millisecond_def)
  next
    case (Some u)
    then show ?thesis using now Sub_small [of now u] clock_limit [OF assms(1,2) Some] assms(3)
      by (auto simp: sync_next_def updateTimestampGuard_def Millisecond_def)
  qed
  then show "0 \<le> sync_next now saved" "sync_next now saved < 2 ^ 61 + Millisecond" "tp_limit p = Some u \<Longrightarrow> u + Millisecond \<le> sync_next now saved"
    by simp_all
qed

context etcd_spec
begin

abbreviation follows :: "bool \<Rightarrow> string \<Rightarrow> (nat \<Rightarrow> bytes) \<Rightarrow> int \<Rightarrow> tproto \<Rightarrow> 'e tsys \<Rightarrow> bool" where
  "follows leases root member iv p y' \<equiv> \<exists>p'. (p' = p \<or> tpstep leases Millisecond iv p p') \<and> sim data root member iv y' p'"

lemma sync_sim:
  assumes sim: "sim data root member iv y p" and iv: "Millisecond < iv" "iv < 2 ^ 60"
    and step: "ty_phase y m = Elected" "clock_ok (data (ty_etcd y)) root now" "SyncTimestamp E (ty_etcd y) (ty_oracle y m) now = (err, s', t')"
  shows "follows leases root member iv p (y\<lparr>ty_etcd := s', ty_oracle := (ty_oracle y)(m := t'), ty_phase := (ty_phase y)(m := if err = None then Leading else Idle)\<rparr>)"
    (is "follows leases root member iv p ?y")
proof -
  let ?t = "ty_oracle y m"
  have et: "sim_etcd root member (data (ty_etcd y)) p" and mem: "sim_members root member iv y p" using sim by (simp_all add: sim_def)
  have cfg: "config_ok root (member m) iv ?t" and off: "tp_on p m = None"
    using mem step(1) unfolding sim_members_def by (cases "tp_on p m"; metis serving_ok.simps(2) insertE phase.distinct empty_iff)+
  have rest: "serving_ok Idle ?t None" using mem off unfolding sim_members_def by (metis insertI1 serving_ok.simps(1))
  have idle: "sim_members root member iv ?y p'" if "t' = ?t" "err \<noteq> None" "tp_on p' = tp_on p" for p'
    by (rule sim_members_upd [OF mem cfg rest]) (use that off in auto)
  show ?thesis
  proof (cases "loadTimestamp E (ty_etcd y) ?t")
    case (Inl e)
    then have "s' = ty_etcd y" "t' = ?t" "err \<noteq> None" using step(3) by (auto simp: SyncTimestamp_def)
    then show ?thesis using sim idle by (auto simp: sim_def)
  next
    case (Inr saved)
    let ?n = "sync_next now saved"
    note nx = sync_next_ok [OF et step(2) load_saved [OF Inr cfg et]]
    have small: "0 \<le> ?n + iv" "?n + iv < 2 ^ 62" using nx(1,2) iv by (simp_all add: Millisecond_def)
    obtain e1 s1 t1 where sv: "saveTimestamp E (ty_etcd y) ?t (?n + iv) = (e1, s1, t1)" by (metis prod_cases3)
    have res: "err = e1" "s' = s1" "t' = (if e1 = None then t1\<lparr>to_lease := True, to_ts := Some \<lparr>ao_physical = ?n, ao_logical = 0\<rparr>\<rparr> else t1)"
      using step(3) Inr sv cfg by (auto simp: SyncTimestamp_def Let_def sync_next_def [symmetric] config_ok_def split: option.splits)
    from sv cfg show ?thesis
    proof (cases rule: save_cases)
      case saved
      have lead: "tp_leader p = Some m" using et saved(1) by (simp add: sim_etcd_def)
      note put = sim_etcd_put [OF et small, folded saved(2)]
      show ?thesis
      proof (cases "e1 = None")
        case True
        let ?p = "p\<lparr>tp_limit := Some (?n + iv), tp_on := (tp_on p)(m \<mapsto> \<lparr>sv_time = ?n, sv_count = 0, sv_limit = ?n + iv\<rparr>)\<rparr>"
        have "tpstep leases Millisecond iv p ?p" using nx by (intro tpstep.tp_sync lead off) auto
        moreover have "sim_members root member iv ?y ?p"
          by (rule sim_members_upd [OF mem, where m = m and t' = t' and ph = Leading])
             (use True res saved(3) cfg in \<open>auto simp: config_ok_def\<close>)
        ultimately show ?thesis using put sim res by (intro exI [of _ ?p]) (simp add: sim_def)
      next
        case False
        let ?p = "p\<lparr>tp_limit := Some (?n + iv)\<rparr>"
        have "tpstep leases Millisecond iv p ?p" using nx(3) iv by (intro tpstep.tp_raise [OF lead off small(1)]) (fastforce simp: Millisecond_def)
        moreover have "sim_members root member iv ?y ?p" by (rule idle) (use False res saved(3) in auto)
        ultimately show ?thesis using put sim res by (intro exI [of _ ?p]) (simp add: sim_def)
      qed
    next
      case unsaved
      then show ?thesis using sim idle res by (auto simp: sim_def)
    qed
  qed
qed

text \<open>\<open>UpdateTimestamp\<close> picks a time a millisecond or more ahead, or leaves everything as it is.\<close>

lemma update_cases:
  assumes "UpdateTimestamp E s t now = Inr (err, s', t')" "to_ts t = Some \<lparr>ao_physical = a, ao_logical = l\<rparr>"
    and "0 \<le> now" "now < 2 ^ 61" "0 \<le> a" "a < 2 ^ 61" "0 \<le> to_lastSavedTime t" "to_lastSavedTime t < 2 ^ 62"
  obtains (kept) "err = None" "s' = s" "t' = t"
    | (inside) nx where "a + Millisecond \<le> nx" "nx + Millisecond < to_lastSavedTime t" "err = None" "s' = s"
        "t' = t\<lparr>to_ts := Some \<lparr>ao_physical = nx, ao_logical = 0\<rparr>\<rparr>"
    | (saving) nx t1 where "a + Millisecond \<le> nx" "nx < 2 ^ 61 + Millisecond" "to_lastSavedTime t \<le> nx + Millisecond"
        "saveTimestamp E s t (nx + to_saveInterval t) = (err, s', t1)"
        "t' = (if err = None then t1\<lparr>to_ts := Some \<lparr>ao_physical = nx, ao_logical = 0\<rparr>\<rparr> else t1)"
proof -
  define pick where "pick = (if SubTimeByWallClock now a > updateTimestampGuard then Some now
     else if l > maxLogical div 2 then Some (a + Millisecond) else None)"
  note res = assms(1) [unfolded UpdateTimestamp_def assms(2) Let_def option.case atomicObject.simps, folded pick_def]
  show thesis
  proof (cases pick)
    case None
    then show ?thesis using res kept by simp
  next
    case (Some nx)
    have ahead: "a + Millisecond \<le> nx" "nx < 2 ^ 61 + Millisecond"
      using Some assms(3-6) Sub_small [of now a] by (auto simp: pick_def updateTimestampGuard_def Millisecond_def split: if_splits)
    have sub: "SubTimeByWallClock (to_lastSavedTime t) nx = to_lastSavedTime t - nx"
      using assms(5,7,8) ahead by (intro Sub_small) (simp_all add: Millisecond_def)
    show ?thesis
    proof (cases "to_lastSavedTime t - nx \<le> Millisecond")
      case True
      obtain e1 s1 t1 where sv: "saveTimestamp E s t (nx + to_saveInterval t) = (e1, s1, t1)" by (metis prod_cases3)
      show ?thesis using res True Some sv sub ahead saving [of nx t1] by (auto simp: updateTimestampGuard_def split: option.splits)
    next
      case False
      then show ?thesis using res Some sub ahead inside [of nx] by (simp add: updateTimestampGuard_def)
    qed
  qed
qed

lemma update_sim:
  assumes sim: "sim data root member iv y p" and inv: "tp_inv leases Millisecond p" and iv: "Millisecond < iv" "iv < 2 ^ 60"
    and step: "ty_phase y m = Leading" "clock_ok (data (ty_etcd y)) root now" "UpdateTimestamp E (ty_etcd y) (ty_oracle y m) now = Inr (err, s', t')"
  shows "follows leases root member iv p (y\<lparr>ty_etcd := s', ty_oracle := (ty_oracle y)(m := t'), ty_phase := (ty_phase y)(m := if err = None then Leading else Failing)\<rparr>)"
    (is "follows leases root member iv p ?y")
proof -
  let ?t = "ty_oracle y m"
  have et: "sim_etcd root member (data (ty_etcd y)) p" and mem: "sim_members root member iv y p" using sim by (simp_all add: sim_def)
  have cfg: "config_ok root (member m) iv ?t" using mem by (simp add: sim_members_def)
  have sok: "serving_ok Leading ?t (tp_on p m)" using mem step(1) by (metis sim_members_def)
  obtain v where v: "tp_on p m = Some v" "to_ts ?t = Some \<lparr>ao_physical = sv_time v, ao_logical = sv_count v\<rparr>" "to_lastSavedTime ?t = sv_limit v"
    using sok by (cases "tp_on p m") auto
  note on = inv_on [OF inv v(1)]
  obtain u where u: "tp_limit p = Some u" "sv_limit v \<le> u" using on(4,5) by blast
  have lim: "0 \<le> sv_limit v" "sv_limit v < 2 ^ 61" using u on clock_limit [OF et step(2) u(1)] by (simp_all add: Millisecond_def)
  have iv_t: "to_saveInterval ?t = iv" using cfg by (simp add: config_ok_def)
  have now: "0 \<le> now" "now < 2 ^ 61" using step(2) by (simp_all add: clock_ok_def)
  have tm: "sv_time v < 2 ^ 61" "0 \<le> to_lastSavedTime ?t" "to_lastSavedTime ?t < 2 ^ 62" using lim on v(3) by (simp_all add: Millisecond_def)
  from step(3) v(2) now on(1) tm show ?thesis
  proof (cases rule: update_cases)
    case kept
    have "sim_members root member iv ?y p"
      by (rule sim_members_upd [OF mem cfg, where v' = "Some v" and ph = Leading]) (use kept v in auto)
    then show ?thesis using sim kept by (auto simp: sim_def)
  next
    case (inside nx)
    let ?p = "p\<lparr>tp_on := (tp_on p)(m \<mapsto> v\<lparr>sv_time := nx, sv_count := 0\<rparr>)\<rparr>"
    have "tpstep leases Millisecond iv p ?p" using inside v by (intro tpstep.tp_advance) auto
    moreover have "sim_members root member iv ?y ?p"
      by (rule sim_members_upd [OF mem, where m = m and t' = t' and ph = Leading]) (use inside v cfg in \<open>auto simp: config_ok_def\<close>)
    ultimately show ?thesis using sim inside by (intro exI [of _ ?p]) (simp add: sim_def)
  next
    case (saving nx t1)
    have small: "0 \<le> nx + iv" "nx + iv < 2 ^ 62" using saving(1,2) on iv by (simp_all add: Millisecond_def)
    have failing: "sim_members root member iv ?y p'" if "tp_on p' = (tp_on p)(m \<mapsto> v\<lparr>sv_limit := x\<rparr>)" "err \<noteq> None" "t' = ?t" for p' x
      by (rule sim_members_upd [OF mem cfg, where v' = "Some (v\<lparr>sv_limit := x\<rparr>)" and ph = Failing]) (use that v in auto)
    from saving(4) [unfolded iv_t] cfg show ?thesis
    proof (cases rule: save_cases)
      case saved
      have lead: "tp_leader p = Some m" using et saved(1) by (simp add: sim_etcd_def)
      note put = sim_etcd_put [OF et small, folded saved(2)]
      show ?thesis
      proof (cases "err = None")
        case True
        let ?p = "p\<lparr>tp_limit := Some (nx + iv), tp_on := (tp_on p)(m \<mapsto> \<lparr>sv_time = nx, sv_count = 0, sv_limit = nx + iv\<rparr>)\<rparr>"
        have "tpstep leases Millisecond iv p ?p" using saving(1,3) v(3) by (intro tpstep.tp_extend [OF lead v(1)]) auto
        moreover have "sim_members root member iv ?y ?p"
          by (rule sim_members_upd [OF mem, where m = m and t' = t' and ph = Leading])
             (use True saving saved(3) cfg in \<open>auto simp: config_ok_def\<close>)
        ultimately show ?thesis using put sim by (intro exI [of _ ?p]) (simp add: sim_def)
      next
        case False
        let ?p = "p\<lparr>tp_limit := Some (nx + iv), tp_on := (tp_on p)(m \<mapsto> v\<lparr>sv_limit := nx + iv\<rparr>)\<rparr>"
        have "tpstep leases Millisecond iv p ?p" using saving(3) v(3) iv by (intro tpstep.tp_raise_on [OF lead v(1)]) auto
        moreover have "sim_members root member iv ?y ?p" by (rule failing) (use False saving(5) saved(3) in auto)
        ultimately show ?thesis using put sim by (intro exI [of _ ?p]) (simp add: sim_def)
      qed
    next
      case unsaved
      have "sim_members root member iv ?y p" by (rule failing [of _ "sv_limit v"]) (use unsaved saving(5) v(1) in auto)
      then show ?thesis using sim unsaved by (auto simp: sim_def)
    qed
  qed
qed

lemma get_sim:
  assumes sim: "sim data root member iv y p" and inv: "tp_inv leases Millisecond p"
    and step: "0 < count" "\<forall>a. to_ts (ty_oracle y m) = Some a \<longrightarrow> ao_logical a + int count < 2 ^ 63"
      "leases \<Longrightarrow> \<not> expired \<Longrightarrow> data (ty_etcd y) (path_Join root ''leader'') = Some (member m)"
      "GetRespTS_attempt (ty_oracle y m) count expired = Inr (r, t')"
  shows "follows leases root member iv p (y\<lparr>ty_oracle := (ty_oracle y)(m := t'), ty_given := ty_given y @ give m count (ty_oracle y m) r\<rparr>)"
    (is "follows leases root member iv p ?y")
proof -
  let ?t = "ty_oracle y m"
  have et: "sim_etcd root member (data (ty_etcd y)) p" and mem: "sim_members root member iv y p" using sim by (simp_all add: sim_def)
  have cfg: "config_ok root (member m) iv ?t" and sok: "serving_ok (ty_phase y m) ?t (tp_on p m)" using mem by (simp_all add: sim_members_def)
  show ?thesis
  proof (cases "tp_on p m")
    case None
    then have "r = None" "t' = ?t" using sok step(4) by (auto simp: GetRespTS_attempt_def split: option.splits)
    then show ?thesis using sim by (intro exI [of _ p]) (simp add: sim_def sim_members_def give_def)
  next
    case (Some v)
    note on = inv_on [OF inv Some]
    have ts: "to_ts ?t = Some \<lparr>ao_physical = sv_time v, ao_logical = sv_count v\<rparr>" using sok Some by simp
    let ?c = "sv_count v + int count" and ?w = "v\<lparr>sv_count := sv_count v + int count\<rparr>"
    obtain u where u: "tp_limit p = Some u" "sv_limit v \<le> u" using on(4,5) by blast
    have small: "sv_time v < 2 ^ 62" using u on(3) et by (auto simp: sim_etcd_def Millisecond_def)
    have nz: "sv_time v \<noteq> ZeroTime" and wr: "wrap64 ?c = ?c"
      using on(1,2) ZeroTime_neg step(2) ts by (auto intro!: wrap64_id)
    have t': "t' = ?t\<lparr>to_ts := Some \<lparr>ao_physical = sv_time v, ao_logical = ?c\<rparr>\<rparr>"
      using step(4) ts nz wr by (auto simp: GetRespTS_attempt_def Let_def split: if_splits)
    have moved: "sim_members root member iv ?y p'" if "tp_on p' = (tp_on p)(m \<mapsto> ?w)" for p'
      by (rule sim_members_upd [OF mem, where m = m and t' = t' and v' = "Some ?w" and ph = "ty_phase y m"])
         (use that t' cfg sok Some in \<open>auto simp: config_ok_def\<close>)
    show ?thesis
    proof (cases "\<exists>resp. r = Some (Inr resp)")
      case True
      then have resp: "r = Some (Inr \<lparr>ts_Physical = sv_time v div Millisecond, ts_Logical = ?c\<rparr>)" "\<not> expired" "?c < maxLogical"
        using step(4) ts nz wr physical_ms [OF on(1) small] by (auto simp: GetRespTS_attempt_def Let_def split: if_splits)
      let ?b = "\<lparr>bk_owner = m, bk_time = sv_time v, bk_lo = sv_count v, bk_hi = ?c\<rparr>"
      let ?p = "p\<lparr>tp_on := (tp_on p)(m \<mapsto> ?w), tp_blocks := tp_blocks p @ [?b]\<rparr>"
      have "leases \<Longrightarrow> tp_leader p = Some m" using et step(3) resp(2) by (simp add: sim_etcd_def)
      then have "tpstep leases Millisecond iv p ?p" using step(1) Some by (intro tpstep.tp_give) auto
      moreover have "sim_members root member iv ?y ?p" by (rule moved) simp
      ultimately show ?thesis using sim resp(1,3) ts
        by (intro exI [of _ ?p]) (simp add: sim_def give_def given_block_def given_ok_def)
    next
      case False
      let ?p = "p\<lparr>tp_on := (tp_on p)(m \<mapsto> ?w)\<rparr>"
      have "tpstep leases Millisecond iv p ?p" using step(1) Some by (intro tpstep.tp_skip) auto
      moreover have "sim_members root member iv ?y ?p" by (rule moved) simp
      moreover have "give m count ?t r = []" using False ts by (auto simp: give_def split: option.splits sum.splits)
      ultimately show ?thesis using sim by (intro exI [of _ ?p]) (simp add: sim_def)
    qed
  qed
qed

lemma campaign_sim:
  assumes sim: "sim data root member iv y p" and inj: "inj member"
    and step: "ty_phase y m = Idle" "CampaignLeader E (ty_etcd y) granted root (member m) = (err, s')"
  shows "follows leases root member iv p (y\<lparr>ty_etcd := s', ty_phase := (ty_phase y)(m := if err = None then Elected else Idle)\<rparr>)"
    (is "follows leases root member iv p ?y")
proof -
  have et: "sim_etcd root member (data (ty_etcd y)) p" and mem: "sim_members root member iv y p" using sim by (simp_all add: sim_def)
  have cfg: "config_ok root (member m) iv (ty_oracle y m)" and sok: "serving_ok (ty_phase y m) (ty_oracle y m) (tp_on p m)" using mem by (simp_all add: sim_members_def)
  have off: "tp_on p m = None" using sok step(1) by (cases "tp_on p m") auto
  have moved: "sim_members root member iv ?y p'" if "tp_on p' = tp_on p" for p'
    by (rule sim_members_upd [OF mem cfg, where v' = None]) (use that sok off in auto)
  from step(2) show ?thesis
  proof (cases rule: campaign_cases)
    case won
    have "tpstep leases Millisecond iv p (p\<lparr>tp_leader := Some m\<rparr>)" using off by (intro tpstep.tp_elect) auto
    moreover have "sim_etcd root member (data s') (p\<lparr>tp_leader := Some m\<rparr>)"
      using et inj unfolding won(2) by (auto simp: sim_etcd_def saved_limit_def inj_eq)
    ultimately show ?thesis using moved sim by (intro exI [of _ "p\<lparr>tp_leader := Some m\<rparr>"]) (simp add: sim_def)
  next
    case lost
    then show ?thesis using moved sim by (intro exI [of _ p]) (simp add: sim_def)
  qed
qed

lemma step_sim:
  assumes "tsstep leases E data root member iv gap y y'" "sim data root member iv y p" "tp_inv leases Millisecond p"
    and "inj member" "Millisecond < iv" "iv < 2 ^ 60"
  shows "follows leases root member iv p y'"
  using assms(1)
proof cases
  case (ts_env s')
  show ?thesis
  proof (cases "data s' (path_Join root ''leader'') = data (ty_etcd y) (path_Join root ''leader'')")
    case True
    then show ?thesis using ts_env assms(2) by (intro exI [of _ p]) (simp add: sim_def sim_etcd_def sim_members_def saved_limit_def)
  next
    case False
    have "tpstep leases Millisecond iv p (p\<lparr>tp_leader := None\<rparr>)" by (intro tpstep.tp_elect) auto
    then show ?thesis using ts_env assms(2) False
      by (intro exI [of _ "p\<lparr>tp_leader := None\<rparr>"]) (simp add: sim_def sim_etcd_def sim_members_def saved_limit_def)
  qed
next
  case (ts_campaign m granted err s')
  then show ?thesis using campaign_sim [OF assms(2,4)] by simp
next
  case (ts_sync m now err s' t')
  then show ?thesis using sync_sim [OF assms(2,5,6)] by simp
next
  case (ts_update m now err s' t')
  then show ?thesis using update_sim [OF assms(2,3,5,6)] by simp
next
  case (ts_reset m)
  have "sim_members root member iv y' (p\<lparr>tp_on := (tp_on p)(m := None)\<rparr>)"
    by (rule sim_members_upd [where m = m and y = y and p = p and v' = None])
       (use assms(2) ts_reset in \<open>auto simp: sim_def sim_members_def config_ok_def ResetTimestamp_def\<close>)
  then show ?thesis using assms(2) tpstep.tp_off ts_reset
    by (intro exI [of _ "p\<lparr>tp_on := (tp_on p)(m := None)\<rparr>"]) (simp add: sim_def)
next
  case (ts_crash m)
  have "sim_members root member iv y' (p\<lparr>tp_on := (tp_on p)(m := None)\<rparr>)"
    by (rule sim_members_upd [where m = m and y = y and p = p and v' = None])
       (use assms(2) ts_crash in \<open>auto simp: sim_def sim_members_def config_ok_def NewTimestampOracle_def\<close>)
  then show ?thesis using assms(2) tpstep.tp_off ts_crash
    by (intro exI [of _ "p\<lparr>tp_on := (tp_on p)(m := None)\<rparr>"]) (simp add: sim_def)
next
  case (ts_get count m expired r t')
  show ?thesis unfolding ts_get(1) by (rule get_sim [OF assms(2,3) ts_get(2-5)])
qed

lemma reach_sim:
  assumes "tsreach leases E data root member iv gap y" "inj member" "Millisecond < iv" "iv < 2 ^ 60"
  shows "\<exists>p. tpreach leases Millisecond iv p \<and> sim data root member iv y p"
  using assms(1)
proof induction
  case (ts_init s)
  have "sim data root member iv \<lparr>ty_etcd = s, ty_oracle = \<lambda>m. NewTimestampOracle root (member m) iv gap, ty_phase = \<lambda>m. Idle, ty_given = []\<rparr>
      \<lparr>tp_leader = None, tp_limit = None, tp_on = \<lambda>m. None, tp_blocks = []\<rparr>"
    using ts_init by (simp add: sim_def sim_etcd_def sim_members_def config_ok_def NewTimestampOracle_def saved_limit_def)
  then show ?case using tpreach.tp_init by blast
next
  case (ts_next y y')
  then obtain p where p: "tpreach leases Millisecond iv p" "sim data root member iv y p" by blast
  have "tp_inv leases Millisecond p" using reach_inv [OF p(1)] assms(3) by (simp add: Millisecond_def)
  from step_sim [OF ts_next(2) p(2) this assms(2-4)] show ?case using p(1) tpreach.tp_next by blast
qed

end

section \<open>Properties\<close>

text \<open>
  A response for \<open>count\<close> timestamps stands for the last \<open>count\<close> logical values up to the one it carries; a client
  puts them below the physical part, 18 bits wide (\<open>ParseTS\<close> takes them apart again).
\<close>

definition stamps :: "given \<Rightarrow> int set" where
  "stamps g = (\<lambda>l. ts_Physical (gv_resp g) * maxLogical + l) ` {ts_Logical (gv_resp g) - int (gv_count g)<..ts_Logical (gv_resp g)}"

lemma stamps_less:
  assumes "ts_Physical (gv_resp a) < ts_Physical (gv_resp b)" "ts_Logical (gv_resp a) < maxLogical" "0 \<le> ts_Logical (gv_resp b) - int (gv_count b)"
    and "x \<in> stamps a" "z \<in> stamps b"
  shows "x < z"
proof -
  have "(ts_Physical (gv_resp a) + 1) * maxLogical \<le> ts_Physical (gv_resp b) * maxLogical"
    using assms(1) by (intro mult_right_mono) (simp_all add: maxLogical_def)
  then show ?thesis using assms(2-5) by (auto simp: stamps_def distrib_right)
qed

lemma given_facts:
  assumes "tp_blocks p = map given_block gs" "list_all given_ok gs" "tp_inv leases ms p" "g \<in> set gs"
  shows "0 \<le> ts_Logical (gv_resp g) - int (gv_count g)" "ts_Logical (gv_resp g) < maxLogical" "ts_Physical (gv_resp g) = gv_time g div Millisecond"
proof -
  have "given_block g \<in> set (tp_blocks p)" using assms(1,4) by simp
  from inv_block(2) [OF assms(3) this] show "0 \<le> ts_Logical (gv_resp g) - int (gv_count g)" by (simp add: given_block_def)
qed (use assms(2,4) in \<open>auto simp: list_all_iff given_ok_def\<close>)

lemma before_stamps:
  assumes "before Millisecond (given_block a) (given_block b)" "x \<in> stamps a" "z \<in> stamps b"
    and "ts_Physical (gv_resp a) = gv_time a div Millisecond" "ts_Physical (gv_resp b) = gv_time b div Millisecond"
    and "ts_Logical (gv_resp a) < maxLogical" "0 \<le> ts_Logical (gv_resp b) - int (gv_count b)"
  shows "x < z"
proof (cases "gv_time a + Millisecond \<le> gv_time b")
  case True
  from ms_apart [OF this] have "ts_Physical (gv_resp a) < ts_Physical (gv_resp b)" using assms(4,5) by simp
  then show ?thesis using stamps_less assms by blast
next
  case False
  then show ?thesis using assms by (auto simp: before_def given_block_def stamps_def)
qed

lemma apart_before: "apart ms a b \<Longrightarrow> before ms a b \<or> before ms b a"
  by (auto simp: apart_def before_def)

context etcd_spec
begin

lemma reach_order:
  assumes "tsreach leases E data root member iv gap y" "inj member" "Millisecond < iv" "iv < 2 ^ 60" "i < j" "j < length (ty_given y)"
    and "x \<in> stamps (ty_given y ! i)" "z \<in> stamps (ty_given y ! j)"
  shows "x \<noteq> z" "leases \<Longrightarrow> x < z"
proof -
  obtain p where p: "tpreach leases Millisecond iv p" "sim data root member iv y p" using reach_sim [OF assms(1-4)] by blast
  have inv: "tp_inv leases Millisecond p" using reach_inv [OF p(1)] assms(3) by (simp add: Millisecond_def)
  have b: "tp_blocks p = map given_block (ty_given y)" and ok: "list_all given_ok (ty_given y)" using p(2) by (simp_all add: sim_def)
  let ?a = "ty_given y ! i" and ?b = "ty_given y ! j"
  have len: "i < length (ty_given y)" using assms(5,6) by simp
  note f = given_facts [OF b ok inv]
  note fa = f [OF nth_mem [OF len]] and fb = f [OF nth_mem [OF assms(6)]]
  have "sorted_wrt (\<lambda>a b. apart Millisecond (given_block a) (given_block b)) (ty_given y)"
    using inv_sorted(1) [OF inv] by (simp add: b sorted_wrt_map)
  from sorted_wrt_nth_less [OF this assms(5,6)] consider "before Millisecond (given_block ?a) (given_block ?b)" | "before Millisecond (given_block ?b) (given_block ?a)"
    using apart_before by blast
  then show "x \<noteq> z"
  proof cases
    case 1
    from before_stamps [OF this assms(7,8) fa(3) fb(3) fa(2) fb(1)] show ?thesis by simp
  next
    case 2
    from before_stamps [OF this assms(8,7) fb(3) fa(3) fb(2) fa(1)] show ?thesis by simp
  qed
  show "x < z" if leases
  proof -
    have "sorted_wrt (\<lambda>a b. before Millisecond (given_block a) (given_block b)) (ty_given y)"
      using inv_sorted(2) [OF inv that] by (simp add: b sorted_wrt_map)
    from sorted_wrt_nth_less [OF this assms(5,6)] show ?thesis by (rule before_stamps [OF _ assms(7,8) fa(3) fb(3) fa(2) fb(1)])
  qed
qed

end

text \<open>
  C12. When leases mean what they say, timestamps only grow: every timestamp of a response is greater than every timestamp of
  every response before it, by whichever member, across leader changes, clocks that go back, failed
  saves, restarts and crashes.
\<close>

theorem timestamps_increase:
  assumes "etcd_spec E data" "tsreach True E data root member iv gap y" "inj member" "Millisecond < iv" "iv < 2 ^ 60"
    and "i < j" "j < length (ty_given y)" "x \<in> stamps (ty_given y ! i)" "z \<in> stamps (ty_given y ! j)"
  shows "x < z"
  using etcd_spec.reach_order(2) [OF assms] by simp

text \<open>
  C34. Whatever leases and clocks do, no timestamp is given twice: with two members that both believe they lead, the
  responses still have no timestamp in common, because a new leader starts above the saved limit of the old one.
\<close>

theorem timestamps_unique:
  assumes "etcd_spec E data" "tsreach leases E data root member iv gap y" "inj member" "Millisecond < iv" "iv < 2 ^ 60"
    and "i < j" "j < length (ty_given y)"
  shows "stamps (ty_given y ! i) \<inter> stamps (ty_given y ! j) = {}"
proof (rule equals0I)
  fix x
  assume "x \<in> stamps (ty_given y ! i) \<inter> stamps (ty_given y ! j)"
  then show False using etcd_spec.reach_order(1) [OF assms, of x x] by simp
qed

lemma loop_stepped_down:
  "to_ts t = Some a \<Longrightarrow> ao_physical a = ZeroTime \<Longrightarrow> GetRespTS_loop n i (\<lambda>_ t. t) expired count t = Inr (Inl (EtcdErr ''can not get timestamp''), t)"
  by (induction n arbitrary: i) (simp_all add: GetRespTS_attempt_def bindR_def)

lemma loop_unsynced:
  "to_ts t = None \<Longrightarrow> 0 < n \<Longrightarrow> GetRespTS_loop n i (\<lambda>_ t. t) expired count t = Inl (Panic ''nil pointer dereference'')"
  by (cases n) (simp_all add: GetRespTS_attempt_def bindR_def)

text \<open>
  C35. A request for timestamps to a member whose oracle has never been synchronised dereferences a nil pointer; to a
  member that has stepped down it fails after 100 turns, without an effect, when no synchronisation happens meanwhile; and a
  request for no timestamps is refused.
\<close>

theorem get_without_sync:
  assumes "0 < count"
  shows "GetRespTS (\<lambda>_ t. t) expired count (NewTimestampOracle root mem iv gap) = Inl (Panic ''nil pointer dereference'')
    \<and> GetRespTS (\<lambda>_ t. t) expired count (ResetTimestamp t) = Inr (Inl (EtcdErr ''can not get timestamp''), ResetTimestamp t)
    \<and> GetRespTS env expired 0 t = Inr (Inl (EtcdErr ''tso count should be positive''), t)"
  using assms by (simp add: GetRespTS_def loop_unsynced loop_stepped_down NewTimestampOracle_def ResetTimestamp_def maxRetryCount_def)

text \<open>
  In a store without a saved time the oracle compares the clock with the beginning of the year 1. From December 2046 on the
  64-bit difference wraps, and the oracle starts from the year 1.
\<close>

lemma sync_wraps_2046:
  assumes "loadTimestamp E s t = Inr ZeroTime" "2 ^ 63 - 6795364578871345152 \<le> now" "now < 2 ^ 62"
    and "SyncTimestamp E s t now = (None, s', t')"
  shows "to_ts t' = Some \<lparr>ao_physical = ZeroTime + Millisecond, ao_logical = 0\<rparr>"
proof -
  have "UnixNano ZeroTime = - 6795364578871345152" by (simp add: UnixNano_def ZeroTime_def wrap64_def)
  then have "SubTimeByWallClock now ZeroTime = wrap64 (now + 6795364578871345152)" using assms(2,3) by (simp add: SubTimeByWallClock_def UnixNano_small)
  also have "\<dots> = now + 6795364578871345152 - 2 ^ 64" unfolding wrap64_def using assms(2,3) by (simp add: mod_pos_geq zmod_trivial_iff)
  finally have "SubTimeByWallClock now ZeroTime < updateTimestampGuard" using assms(3) by (simp add: updateTimestampGuard_def Millisecond_def)
  then show ?thesis using assms(1,4) by (auto simp: SyncTimestamp_def Let_def updateTimestampGuard_def split: option.splits prod.splits)
qed

section \<open>Runs\<close>

definition demo_member :: "nat \<Rightarrow> bytes" where
  "demo_member m = replicate m 0"

definition run_start :: "scripted tsys" where
  "run_start = \<lparr>ty_etcd = ([], \<lambda>_. None), ty_oracle = (\<lambda>m. NewTimestampOracle ''/pd'' (demo_member m) (3 * 10 ^ 9) (10 ^ 12)), ty_phase = (\<lambda>m. Idle), ty_given = []\<rparr>"

definition run_campaign :: "nat \<Rightarrow> scripted tsys \<Rightarrow> scripted tsys" where
  "run_campaign m y = (case CampaignLeader scripted_etcd (ty_etcd y) None ''/pd'' (demo_member m) of (err, s') \<Rightarrow>
     y\<lparr>ty_etcd := s', ty_phase := (ty_phase y)(m := if err = None then Elected else Idle)\<rparr>)"

definition run_sync :: "nat \<Rightarrow> time \<Rightarrow> scripted tsys \<Rightarrow> scripted tsys" where
  "run_sync m now y = (case SyncTimestamp scripted_etcd (ty_etcd y) (ty_oracle y m) now of (err, s', t') \<Rightarrow>
     y\<lparr>ty_etcd := s', ty_oracle := (ty_oracle y)(m := t'), ty_phase := (ty_phase y)(m := if err = None then Leading else Idle)\<rparr>)"

definition run_get :: "nat \<Rightarrow> nat \<Rightarrow> scripted tsys \<Rightarrow> scripted tsys" where
  "run_get m count y = (case GetRespTS_attempt (ty_oracle y m) count False of
       Inl _ \<Rightarrow> y
     | Inr (r, t') \<Rightarrow> y\<lparr>ty_oracle := (ty_oracle y)(m := t'), ty_given := ty_given y @ give m count (ty_oracle y m) r\<rparr>)"

definition run_expire :: "scripted tsys \<Rightarrow> scripted tsys" where
  "run_expire y = y\<lparr>ty_etcd := (fst (ty_etcd y), (snd (ty_etcd y))(''/pd/leader'' := None))\<rparr>"

abbreviation runs :: "bool \<Rightarrow> scripted tsys \<Rightarrow> bool" where
  "runs leases \<equiv> tsreach leases scripted_etcd snd ''/pd'' demo_member (3 * 10 ^ 9) (10 ^ 12)"

lemma runs_start: "runs leases run_start"
  unfolding run_start_def by (rule tsreach.ts_init) simp_all

lemma runs_campaign:
  assumes "runs leases y" "ty_phase y m = Idle"
  shows "runs leases (run_campaign m y)"
proof -
  obtain err s' where c: "CampaignLeader scripted_etcd (ty_etcd y) None ''/pd'' (demo_member m) = (err, s')" by (meson surj_pair)
  show ?thesis unfolding run_campaign_def c prod.case by (rule tsreach.ts_next [OF assms(1) tsstep.ts_campaign [where member = demo_member, OF assms(2) c]])
qed

lemma runs_sync:
  assumes "runs leases y" "ty_phase y m = Elected" "clock_ok (snd (ty_etcd y)) ''/pd'' now"
  shows "runs leases (run_sync m now y)"
proof -
  obtain err s' t' where c: "SyncTimestamp scripted_etcd (ty_etcd y) (ty_oracle y m) now = (err, s', t')" by (metis prod_cases3)
  show ?thesis unfolding run_sync_def c prod.case by (rule tsreach.ts_next [OF assms(1)]) (rule tsstep.ts_sync [where now = now], use assms(2,3) c in auto)
qed

lemma runs_get:
  assumes "runs leases y" "0 < count" "\<forall>a. to_ts (ty_oracle y m) = Some a \<longrightarrow> ao_logical a + int count < 2 ^ 63"
    and "leases \<Longrightarrow> snd (ty_etcd y) ''/pd/leader'' = Some (demo_member m)"
  shows "runs leases (run_get m count y)"
proof (cases "GetRespTS_attempt (ty_oracle y m) count False")
  case (Inr rt)
  obtain r t' where rt: "rt = (r, t')" by force
  have "leases \<Longrightarrow> \<not> False \<Longrightarrow> snd (ty_etcd y) (path_Join ''/pd'' ''leader'') = Some (demo_member m)" using assms(4) by (simp add: path_Join_def)
  from tsstep.ts_get [where data = snd and expired = False and member = demo_member, OF assms(2,3) this Inr [unfolded rt]] show ?thesis
    unfolding run_get_def Inr rt sum.case prod.case by (rule tsreach.ts_next [OF assms(1)])
qed (use assms(1) in \<open>simp add: run_get_def\<close>)

lemma runs_expire: "runs leases y \<Longrightarrow> runs leases (run_expire y)"
  unfolding run_expire_def by (rule tsreach.ts_next [OF _ tsstep.ts_env]) (auto simp: path_Join_def)

lemmas tso_exec = run_start_def run_campaign_def run_sync_def run_get_def run_expire_def CampaignLeader_def SyncTimestamp_def saveTimestamp_def
  loadTimestamp_def GetRespTS_attempt_def scripted_etcd_def etcd_GetValue_def NewTimestampOracle_def getTimestampPath_def path_Join_def
  etcd_puts_def ParseTimestamp_def BytesToUint64_def Uint64ToBytes_def SubTimeByWallClock_def UnixNano_def ZeroTime_def wrap64_def
  updateTimestampGuard_def Millisecond_def maxLogical_def go_div_def give_def bindR_def Let_def clock_ok_def saved_limit_def

lemma demo_member_inj: "inj demo_member"
  by (auto intro!: injI simp: demo_member_def)

definition run_one :: "scripted tsys" where
  "run_one = run_get 0 2 (run_sync 0 (10 ^ 9) (run_campaign 0 run_start))"

definition run_two :: "scripted tsys" where
  "run_two = run_get 1 1 (run_sync 1 (5 * 10 ^ 8) (run_campaign 1 (run_expire run_one)))"

lemma run_one_eval:
  "ty_given run_one = [\<lparr>gv_resp = \<lparr>ts_Physical = 1000, ts_Logical = 2\<rparr>, gv_count = 2, gv_owner = 0, gv_time = 10 ^ 9\<rparr>]"
  by (simp add: run_one_def tso_exec demo_member_def)

lemma run_two_eval:
  "ty_given run_two = [\<lparr>gv_resp = \<lparr>ts_Physical = 1000, ts_Logical = 2\<rparr>, gv_count = 2, gv_owner = 0, gv_time = 10 ^ 9\<rparr>,
      \<lparr>gv_resp = \<lparr>ts_Physical = 4001, ts_Logical = 1\<rparr>, gv_count = 1, gv_owner = 1, gv_time = 4001 * 10 ^ 6\<rparr>]"
  by (simp add: run_two_def run_one_def tso_exec demo_member_def)

lemma run_one_reach: "runs leases run_one"
proof -
  have "runs leases (run_campaign 0 run_start)" by (rule runs_campaign [OF runs_start]) (simp add: run_start_def)
  then have "runs leases (run_sync 0 (10 ^ 9) (run_campaign 0 run_start))" by (rule runs_sync) (simp_all add: tso_exec demo_member_def)
  then show ?thesis unfolding run_one_def by (rule runs_get) (simp_all add: tso_exec demo_member_def)
qed

lemma run_two_reach: "runs leases run_two"
proof -
  have "runs leases (run_campaign 1 (run_expire run_one))"
    by (rule runs_campaign [OF runs_expire [OF run_one_reach]]) (simp add: run_one_def tso_exec demo_member_def)
  then have "runs leases (run_sync 1 (5 * 10 ^ 8) (run_campaign 1 (run_expire run_one)))"
    by (rule runs_sync) (simp_all add: run_one_def tso_exec demo_member_def)
  then show ?thesis unfolding run_two_def by (rule runs_get) (simp_all add: run_one_def tso_exec demo_member_def)
qed

text \<open>A new leader whose clock is half a second behind the old one's.\<close>

theorem timestamps_increase_witness:
  "runs True run_two \<and> 1000 * 2 ^ 18 + 2 \<in> stamps (ty_given run_two ! 0) \<and> 4001 * 2 ^ 18 + 1 \<in> stamps (ty_given run_two ! 1)
   \<and> (1000 * 2 ^ 18 + 2 :: int) < 4001 * 2 ^ 18 + 1"
proof -
  have s: "1000 * 2 ^ 18 + 2 \<in> stamps (ty_given run_two ! 0)" "4001 * 2 ^ 18 + 1 \<in> stamps (ty_given run_two ! 1)"
    by (simp_all add: run_two_eval stamps_def maxLogical_def image_iff)
  have l: "(0::nat) < 1" "1 < length (ty_given run_two)" by (simp_all add: run_two_eval)
  from timestamps_increase [OF script.etcd_spec_axioms run_two_reach demo_member_inj _ _ l s] run_two_reach s
  show ?thesis by (simp add: Millisecond_def)
qed

text \<open>The old leader goes on serving after it has lost the key.\<close>

theorem timestamps_unique_witness:
  "runs False (run_get 0 2 run_two) \<and> stamps (ty_given (run_get 0 2 run_two) ! 0) = {1000 * 2 ^ 18 + 1, 1000 * 2 ^ 18 + 2}
   \<and> stamps (ty_given (run_get 0 2 run_two) ! 2) = {1000 * 2 ^ 18 + 3, 1000 * 2 ^ 18 + 4}
   \<and> stamps (ty_given (run_get 0 2 run_two) ! 0) \<inter> stamps (ty_given (run_get 0 2 run_two) ! 2) = {}"
proof -
  have r: "runs False (run_get 0 2 run_two)"
    by (rule runs_get [OF run_two_reach]) (simp_all add: run_two_def run_one_def tso_exec demo_member_def)
  have g: "ty_given (run_get 0 2 run_two) = ty_given run_two @ [\<lparr>gv_resp = \<lparr>ts_Physical = 1000, ts_Logical = 4\<rparr>, gv_count = 2, gv_owner = 0, gv_time = 10 ^ 9\<rparr>]"
    by (simp add: run_two_def run_one_def tso_exec demo_member_def)
  have l: "(0::nat) < 2" "2 < length (ty_given (run_get 0 2 run_two))" by (simp_all add: g run_two_eval)
  have "{0<..2::int} = {1, 2}" "{2<..4::int} = {3, 4}" by auto
  then have "stamps (ty_given (run_get 0 2 run_two) ! 0) = {1000 * 2 ^ 18 + 1, 1000 * 2 ^ 18 + 2}" "stamps (ty_given (run_get 0 2 run_two) ! 2) = {1000 * 2 ^ 18 + 3, 1000 * 2 ^ 18 + 4}"
    by (simp_all add: g run_two_eval stamps_def maxLogical_def)
  moreover have "stamps (ty_given (run_get 0 2 run_two) ! 0) \<inter> stamps (ty_given (run_get 0 2 run_two) ! 2) = {}"
    by (rule timestamps_unique [OF script.etcd_spec_axioms r demo_member_inj _ _ l]) (simp_all add: Millisecond_def)
  ultimately show ?thesis using r by blast
qed

theorem get_without_sync_witness:
  "GetRespTS (\<lambda>_ t. t) (\<lambda>_. False) 1 (NewTimestampOracle ''/pd'' [] 1 1) = Inl (Panic ''nil pointer dereference'')"
  by (rule conjunct1 [OF get_without_sync]) simp

end
