(* ===== verification/Spec2Isabelle.thy ===== *)
theory Spec2Isabelle
  imports Txn_System Consensus PeerStorage_Spec Applier_System IdAlloc Tso_System
begin

section \<open>TinyKV\<close>

text \<open>
  A model of TinyKV, the transactional key-value store of the database labs
  (\<open>allsturead/Project_2/vldb-2021-labs/tinykv\<close>; paths below are relative to it), with the theorems
  that make its layers correct. The definitions follow the Go code function by function and keep its names;
  a struct is a record, an enum a datatype, an error or a panic a value.

  \<^bold>\<open>The parts and how they interact.\<close> A client request reaches the transactional commands
  (\<open>kv/transaction/commands\<close>), which run under latches on their keys (\<open>kv/transaction/latches\<close>) and
  work on multi-version records (\<open>kv/transaction/mvcc\<close>) encoded into keys that sort by user key and then
  newest first (\<open>kv/util/codec\<close>). They read and write through the storage interface
  (\<open>kv/storage\<close>): an in-memory engine, an engine of a single node over the badger database
  (\<open>kv/storage/standalone_storage\<close>, \<open>kv/util/engine_util\<close>), or a replicated one. The replicated one
  orders writes through Raft (\<open>raft\<close>); the log of a region's peer is kept on disk by
  \<open>kv/raftstore/peer_storage.go\<close> under the keys of \<open>kv/raftstore/meta\<close>, and committed commands are executed by
  \<open>kv/raftstore/applier.go\<close>.
  The scheduler (\<open>scheduler\<close>) gives out the timestamps of transactions and the ids of regions and peers.

  \<^bold>\<open>Theories.\<close>
  \<^item> \<open>Prelude\<close>: byte strings and their order, big-endian integers, results.
  \<^item> \<open>Codec\<close>: \<open>EncodeBytes\<close>, \<open>DecodeBytes\<close> of \<open>codec.go\<close>; round trip, order, and that only encodings decode.
  \<^item> \<open>Engine\<close>, \<open>MemStore\<close>: the storage interface (\<open>modify.go\<close>, \<open>storage.go\<close>), its contracts
    \<open>snapshot_reader\<close> and \<open>storage_spec\<close>, and \<open>mem_storage.go\<close>, which meets them for every ordered tree package
    that behaves as \<open>llrb_spec\<close> says.
  \<^item> \<open>BadgerStore\<close>, \<open>BadgerStore_Spec\<close>: \<open>engine_util\<close> (column families as key prefixes, write batches, iterators,
    range deletion) and \<open>standalone_storage.go\<close>; over a database that behaves as \<open>badger_spec\<close> says, reads see
    what writes left, and a range deletion removes exactly the range.
  \<^item> \<open>Mvcc\<close>, \<open>Mvcc_Spec\<close>: \<open>transaction.go\<close>, \<open>lock.go\<close>, \<open>write.go\<close>, \<open>scanner.go\<close>; every read function against the content
    of the store, termination of the loops that seek again.
  \<^item> \<open>Latches\<close>: \<open>latches.go\<close> with the interleavings of its threads; mutual exclusion, no lost wakeup.
  \<^item> \<open>Commands\<close>: prewrite, commit, rollback, check-status, resolve, get, scan and \<open>RunCommand\<close>.
  \<^item> \<open>Percolator\<close>, \<open>Txn_Refine\<close>, \<open>Txn_System\<close>: the abstract two-phase commit protocol over per-key histories, that every
    command implements it (simulation), and the guarantees for all sequences of requests, repeated ones and ones that name a
    key twice included: first committer wins, stable snapshot reads, finality of commits and rollbacks. They hold for
    clients (\<open>client_ok\<close>) that prewrite puts and deletes and take their timestamps from an oracle.
  \<^item> \<open>RaftStorage\<close>, \<open>RaftLog\<close>, \<open>Raft\<close>, \<open>RawNode\<close>: \<open>storage.go\<close>, \<open>util.go\<close>, \<open>log.go\<close>, \<open>raft.go\<close>, \<open>rawnode.go\<close>, complete.
  \<^item> \<open>RaftLog_Spec\<close>, \<open>Raft_Spec\<close>, \<open>MemoryStorage_Spec\<close>: well-formedness of the log under every operation and
    message, the outcomes of appending, the commit rule, election timing, what \<open>Ready\<close> hands over; the contract
    \<open>log_store\<close> of a storage, with \<open>MemoryStorage\<close> as an instance.
  \<^item> \<open>Election_Spec\<close>, \<open>Election\<close>, \<open>Cluster\<close>: an abstract election protocol, that every message step and tick of the code
    implements it, and election safety for clusters of nodes whose messages are lost, duplicated
    and reordered and which crash and restart from what they saved.
  \<^item> \<open>Replication_Spec\<close>, \<open>Replication\<close>, \<open>Replication_Safety\<close>: an abstract protocol of log replication on top of the election
    protocol (what leaders append and send, what followers accept and acknowledge, what is committed, what survives a
    crash), its invariant, log matching and that committed prefixes never differ.
  \<^item> \<open>Replica\<close>, \<open>Replica_Step\<close>, \<open>Replica_Node\<close>: the whole log that a compacted log in memory and a storage stand for, and that
    every handler of \<open>raft.go\<close>, every message step and every tick implements the replication protocol on it.
  \<^item> \<open>Replicated\<close>, \<open>Replicated_Run\<close>, \<open>Consensus\<close>: clusters of nodes with \<open>MemoryStorage\<close>, driven through \<open>RawNode\<close> (messages, ticks,
    proposals, leadership transfer, \<open>Ready\<close> and \<open>Advance\<close>, snapshots and compaction, crashes), a run of one, and their guarantees:
    state machine safety, leader completeness, log matching, and that a leader's messages never end a process.
  \<^item> \<open>RegionMeta\<close>, \<open>PeerStorage\<close>, \<open>PeerStorage_Spec\<close>: keys and values of region data (\<open>keys.go\<close>, \<open>values.go\<close>) and
    \<open>peer_storage.go\<close>; \<open>PeerStorage\<close> is an instance of \<open>log_store\<close>, and what \<open>SaveReadyState\<close> writes is what
    a reopened storage gives to Raft.
  \<^item> \<open>Etcd\<close>, \<open>IdAlloc\<close>, \<open>Tso\<close>: reading and comparing keys in etcd, the id allocator (\<open>scheduler/server/id\<close>) and the timestamp
    oracle (\<open>scheduler/server/tso\<close>) of the scheduler; ids are unique across members and leader changes, with the two requests
    of \<open>generate\<close> interleaved in any way and transactions that report an error executed at once, later or never.
  \<^item> \<open>Tso_Spec\<close>, \<open>Tso_System\<close>: an abstract protocol of members that hand out timestamps below a saved limit, and the members'
    oracles with the election as a system that simulates it: timestamps grow when leases hold, and are unique
    even when they do not.
  \<^item> \<open>RaftCmd\<close>, \<open>Applier\<close>: the commands of a region with their checks (\<open>util.go\<close>, \<open>error.go\<close>, \<open>cmd_resp.go\<close>) and \<open>applier.go\<close>,
    which executes committed commands against the engine and answers their callbacks; the rounds of the apply worker over the
    router of regions (\<open>raft_worker.go\<close>, \<open>router.go\<close>).
  \<^item> \<open>Applier_Spec\<close>, \<open>Applier_System\<close>: the replicated state machine that the applier implements, one transaction per entry: the
    databases the engine goes through are recorded (\<open>recording\<close>) and are those of the machine, so a crash after any of them is
    invisible; replicas agree, splits partition a region, an epoch identifies a range, no callback is answered twice, and the
    only ones lost are those of messages for regions that are not registered.

  \<^bold>\<open>Parameters.\<close> Packages that are not part of the repository are arguments of the definitions: the tree of
  the in-memory engine (\<open>llrb_spec\<close>), the badger database (\<open>badger_spec\<close>), the protobuf encoding (\<open>pb_spec\<close>, \<open>cmdcodec\<close>)
  and the etcd client (\<open>etcd_spec\<close>). Each contract states documented behaviour and has an instance, so that the
  theorems that assume it apply. What the region worker does to the engine while a snapshot is
  installed, and the random numbers of election timeouts, are arguments too.

  \<^bold>\<open>Bounds.\<close> Timestamps are 64-bit words with their wrap-around. Terms, indexes and ids of the Raft part are natural numbers:
  subtraction is written with its wrap-around, additions are not taken to reach \<open>2^64\<close>; theorems that depend on
  it name the bound (\<open>2^63\<close> where the code converts to a signed integer; the steps of the timestamp system take clocks
  to be before \<open>2^61\<close> nanoseconds, and a lemma shows what happens after). Loops are total functions, by a measure
  or structural recursion; the two loops of the MVCC layer that may seek back are given the fuel that
  \<open>Mvcc_Spec\<close> proves sufficient.

  \<^bold>\<open>Assumptions of the cluster theorems.\<close> The configuration is fixed (no membership change during the run); a node sends
  the messages of a \<open>Ready\<close> after its hard state is saved, as \<open>Ready\<close> documents. \<open>PeerStorage_Spec\<close>
  shows that a peer without a snapshot does not meet the second one. The theorems of \<open>Consensus\<close> are about two nodes or more that
  start from the same snapshot, save the whole \<open>Ready\<close>, then send its messages, and call \<open>Advance\<close> before the next call, or crash
  before or after saving. \<open>HandleRaftReady\<close> differs at a leader: it sends the messages before \<open>SaveReadyState\<close>, so a leader that
  crashes between the two is not covered; snapshots and compaction stay below the applied index, and indexes below \<open>2^63\<close> (\<open>fits\<close>, \<open>has_room\<close>).

  \<^bold>\<open>Simplifications.\<close> \<open>proto.Marshal\<close> does not fail (\<open>PutMeta\<close>, \<open>wb_SetMeta\<close> have no error branch for it). A call of
  the timestamp oracle is one step: \<open>SyncTimestamp\<close>, \<open>UpdateTimestamp\<close> and a turn of \<open>GetRespTS\<close> do not interleave inside, which
  the comparison of the leader key in \<open>saveTimestamp\<close> makes harmless for the saved limit, and one of their transactions that reports
  an error is executed at once or never (the id allocator has late execution). The readers of the in-memory
  engine give an iteration as the list of pairs from the position on; \<open>memIter\<close> with its \<open>Seek\<close> and \<open>Next\<close> is defined beside it
  and shown to move along that list. Requests of the transactional server are served one after another; that those with a common
  key do exclude each other is the subject of \<open>Latches\<close>.

  \<^bold>\<open>Not modelled.\<close> Network and file I/O (gRPC services, snapshot files, sockets), logging, configuration and the
  generated protobuf code. The message loops of \<open>kv/raftstore\<close> (peer, router, store worker), whose
  behaviour lies in goroutines, channels and the pieces above, the coprocessor, and the placement scheduler beyond the
  parts named above. TinySQL, the SQL layer of the labs, and the Python bookstore of the first
  project are separate programs.

  \<^bold>\<open>Next.\<close> Snapshots through \<open>SaveReadyState\<close>, proposing commands,
  and the region bookkeeping of the scheduler.
\<close>

end
